(* ===== verification/Prelude.thy ===== *)
theory Prelude
  imports Main "HOL-Library.Word"
begin

text \<open>
  Shared vocabulary of the development: the widths of the C integer types, the
  little-endian layout of an integer in memory, and the lemma collections the
  component theories add to.

  \<^item> \<open>mem_simps\<close> collects how a load sees an earlier store;
  \<^item> \<open>enc_rules\<close> collects which bytes an encoder emits;
  \<^item> \<open>dec_rules\<close> collects what a decoder returns on a stream that starts with a
    given encoding;
  \<^item> \<open>frame_rules\<close> collects which memory an operation leaves alone.
\<close>

unbundle bit_operations_syntax

type_synonym u8 = "8 word"
type_synonym u16 = "16 word"
type_synonym u32 = "32 word"
type_synonym u64 = "64 word"

text \<open>Addresses are integers: the C code only ever adds offsets inside one object.\<close>

type_synonym addr = int

named_theorems mem_simps \<open>loads after stores\<close>
named_theorems enc_rules \<open>bytes emitted by the encoders\<close>
named_theorems dec_rules \<open>results of the decoders\<close>
named_theorems frame_rules \<open>memory an operation leaves unchanged\<close>

subsection \<open>Little-endian bytes of a word\<close>

definition to_le :: "nat \<Rightarrow> 'a::len word \<Rightarrow> u8 list" where
  "to_le n w = map (\<lambda>i. ucast (drop_bit (8 * i) w)) [0..<n]"

fun from_le :: "u8 list \<Rightarrow> 'a::len word" where
  "from_le [] = 0"
| "from_le (b # bs) = ucast b OR push_bit 8 (from_le bs)"

lemma length_to_le [simp]: "length (to_le n w) = n"
  by (simp add: to_le_def)

lemma bit_from_le:
  "bit (from_le bs :: 'a::len word) k \<longleftrightarrow>
     k < LENGTH('a) \<and> k div 8 < length bs \<and> bit (bs ! (k div 8)) (k mod 8)"
proof (induction bs arbitrary: k)
  case Nil
  then show ?case by simp
next
  case (Cons b bs)
  show ?case
  proof (cases "k < 8")
    case True
    then show ?thesis by (auto simp: bit_or_iff bit_push_bit_iff bit_unsigned_iff)
  next
    case False
    then obtain j where "k = 8 + j" using le_Suc_ex not_less by blast
    moreover have "(8 + j) div 8 = Suc (j div 8)" "(8 + j) mod 8 = j mod 8" by auto
    moreover have "\<not> bit b (8 + j)" using bit_imp_le_length [of b "8 + j"] by auto
    ultimately show ?thesis using Cons.IH [of j]
      by (simp add: bit_or_iff bit_push_bit_iff bit_unsigned_iff) auto
  qed
qed

lemma from_le_to_le: "from_le (to_le n w) = take_bit (8 * n) (w :: 'a::len word)"
proof (rule bit_word_eqI)
  fix k assume k: "k < LENGTH('a)"
  have "k div 8 < n \<longleftrightarrow> k < 8 * n" by (simp add: div_less_iff_less_mult mult.commute)
  moreover have "8 * (k div 8) + k mod 8 = k" by simp
  ultimately show "bit (from_le (to_le n w) :: 'a word) k \<longleftrightarrow> bit (take_bit (8 * n) w) k"
    using k by (auto simp: bit_from_le to_le_def bit_take_bit_iff bit_unsigned_iff bit_drop_bit_eq)
qed

lemma from_le_to_le_full [simp]:
  "LENGTH('a) \<le> 8 * n \<Longrightarrow> from_le (to_le n w) = (w :: 'a::len word)"
  by (simp add: from_le_to_le take_bit_word_eq_self)

lemma to_le_from_le:
  assumes "length bs = n" and "8 * n \<le> LENGTH('a)"
  shows "to_le n (from_le bs :: 'a::len word) = bs"
proof (rule nth_equalityI)
  show "length (to_le n (from_le bs :: 'a word)) = length bs" using assms by simp
next
  fix i assume "i < length (to_le n (from_le bs :: 'a word))"
  then have i: "i < n" by simp
  show "to_le n (from_le bs :: 'a word) ! i = bs ! i"
  proof (rule bit_word_eqI)
    fix k :: nat assume k: "k < LENGTH(8)"
    then have "k < 8" by simp
    moreover have "8 * i + k < LENGTH('a)" using i \<open>k < 8\<close> assms(2) by linarith
    moreover have "(8 * i + k) div 8 = i" "(8 * i + k) mod 8 = k" using \<open>k < 8\<close> by auto
    ultimately show "bit (to_le n (from_le bs :: 'a word) ! i) k \<longleftrightarrow> bit (bs ! i) k"
      using i assms(1) by (simp add: to_le_def bit_unsigned_iff bit_drop_bit_eq bit_from_le)
  qed
qed

subsection \<open>Words and naturals\<close>

lemma unat_bound: "unat (x :: 'a::len word) < 2 ^ LENGTH('a)"
  by (rule unsigned_less)

lemma unat_of_nat_lt: "n < 2 ^ LENGTH('a) \<Longrightarrow> unat (of_nat n :: 'a::len word) = n"
  by (simp add: unat_of_nat take_bit_nat_eq_self_iff)

lemma unat_add_no_wrap:
  fixes a b :: "'a::len word"
  assumes "unat a + unat b < 2 ^ LENGTH('a)"
  shows "unat (a + b) = unat a + unat b"
  using assms by (simp add: unat_word_ariths)

lemma unat_add_of_nat:
  fixes a :: "'a::len word"
  assumes "unat a + n < 2 ^ LENGTH('a)"
  shows "unat (a + of_nat n) = unat a + n"
  using assms by (simp add: unat_add_no_wrap unat_of_nat_lt)

lemma unat_add_of_nat_mod:
  fixes a :: "'a::len word"
  shows "unat (a + of_nat n) = (unat a + n) mod 2 ^ LENGTH('a)"
  by (simp add: unat_word_ariths unat_of_nat take_bit_eq_mod mod_simps)

subsection \<open>Seven-bit groups\<close>

lemma and_7F: "v AND 0x7F = take_bit 7 (v::'a::len word)"
  by (simp add: take_bit_eq_mask mask_eq_exp_minus_1)

lemma take_bit_self: "unat v < 2 ^ n \<Longrightarrow> take_bit n (v::'a::len word) = v"
  by (simp add: word_eq_iff_unsigned [where ?'a = nat] unsigned_take_bit_eq take_bit_nat_eq_self)

lemma bit_0x80: "bit (0x80 :: u8) n \<longleftrightarrow> n = 7"
proof -
  have "(0x80 :: u8) = 2 ^ 7" by simp
  then show ?thesis by (auto simp only: bit_exp_iff) auto
qed

lemma bit_0x7F: "bit (0x7F :: u8) n \<longleftrightarrow> n < 7"
proof -
  have "(0x7F :: u8) = mask 7" by (simp add: mask_eq_exp_minus_1)
  then show ?thesis by (auto simp only: bit_mask_iff) auto
qed

lemma or_and_byte: "(b OR 0x80) AND 0x7F = (b :: u8) AND 0x7F"
  by (rule bit_word_eqI) (auto simp: bit_or_iff bit_and_iff bit_0x80 bit_0x7F simp del: bit_numeral_word_iff)

lemma and_80_eq: "(b :: u8) AND 0x80 = (if bit b 7 then 0x80 else 0)"
  by (rule bit_word_eqI) (auto simp: bit_and_iff bit_0x80 simp del: bit_numeral_word_iff)

lemma and_80_eq_0: "b AND 0x80 = 0 \<longleftrightarrow> \<not> bit (b::u8) 7"
  by (simp add: and_80_eq)

lemma or_80_bit7: "bit (b OR 0x80 :: u8) 7"
  by (simp add: bit_or_iff bit_0x80 del: bit_numeral_word_iff)

lemma ucast_take_bit7: "take_bit 7 (ucast (v::u64) :: u8) = ucast (take_bit 7 v)"
  by (rule bit_word_eqI) (auto simp: bit_take_bit_iff bit_unsigned_iff)

lemma drop_small: "v \<le> 0x7F \<Longrightarrow> drop_bit 7 (v::u64) = 0"
   by (simp add: drop_bit_eq_div word_le_nat_alt word_arith_nat_div)

lemma drop_large: "\<not> v \<le> 0x7F \<Longrightarrow> drop_bit 7 (v::u64) \<noteq> 0"
proof
  assume "drop_bit 7 v = 0" and a: "\<not> v \<le> 0x7F"
  moreover have "unat (drop_bit 7 v) = unat v div 128" by (simp add: drop_bit_eq_div unat_div)
  ultimately have "unat v div 128 = 0" by simp
  with a show False by (simp add: word_le_nat_alt)
qed

lemma unat_exp: "n < LENGTH('a) \<Longrightarrow> unat ((2::'a::len word) ^ n) = 2 ^ n"
  by (metis unat_of_nat_lt of_nat_power of_nat_numeral power_strict_increasing_iff one_less_numeral_iff semiring_norm(76))

end
