(* ===== verification/C_Memory.thy ===== *)
theory C_Memory
  imports Prelude
begin

text \<open>
  The C memory the message structures live in, on a 64-bit little-endian target
  (\<open>sizeof(void*) = 8\<close>): a byte for every address, and an allocator for
  \<^verbatim>\<open>pb_realloc\<close> / \<^verbatim>\<open>pb_free\<close> (the standard \<^verbatim>\<open>realloc\<close> and \<^verbatim>\<open>free\<close>). Address 0 is
  \<^verbatim>\<open>NULL\<close>. Negative addresses hold the local variables of the C functions whose address is
  taken. \<open>bad_free\<close> records whether a pointer that is not a live block was ever
  released or reallocated, which C leaves undefined.
\<close>

record cmem =
  bytes :: "addr \<Rightarrow> u8"
  heap_top :: addr
  heap_limit :: addr
  blocks :: "(addr \<times> nat) list"
  bad_free :: bool

definition NULL :: addr where
  "NULL = 0"

definition sizeof_ptr :: int where
  "sizeof_ptr = 8"

subsection \<open>Loads and stores\<close>

definition mload :: "cmem \<Rightarrow> addr \<Rightarrow> nat \<Rightarrow> u8 list" where
  "mload m a n = map (\<lambda>i. bytes m (a + int i)) [0..<n]"

definition mstore :: "cmem \<Rightarrow> addr \<Rightarrow> u8 list \<Rightarrow> cmem" where
  "mstore m a bs = m\<lparr>bytes := \<lambda>x. if a \<le> x \<and> x < a + int (length bs)
                                  then bs ! nat (x - a) else bytes m x\<rparr>"

definition load8 :: "cmem \<Rightarrow> addr \<Rightarrow> u8" where
  "load8 m a = bytes m a"

definition load16 :: "cmem \<Rightarrow> addr \<Rightarrow> u16" where
  "load16 m a = from_le (mload m a 2)"

definition load32 :: "cmem \<Rightarrow> addr \<Rightarrow> u32" where
  "load32 m a = from_le (mload m a 4)"

definition load64 :: "cmem \<Rightarrow> addr \<Rightarrow> u64" where
  "load64 m a = from_le (mload m a 8)"

definition load_ptr :: "cmem \<Rightarrow> addr \<Rightarrow> addr" where
  "load_ptr m a = uint (load64 m a)"

definition store8 :: "cmem \<Rightarrow> addr \<Rightarrow> u8 \<Rightarrow> cmem" where
  "store8 m a v = mstore m a [v]"

definition store16 :: "cmem \<Rightarrow> addr \<Rightarrow> u16 \<Rightarrow> cmem" where
  "store16 m a v = mstore m a (to_le 2 v)"

definition store32 :: "cmem \<Rightarrow> addr \<Rightarrow> u32 \<Rightarrow> cmem" where
  "store32 m a v = mstore m a (to_le 4 v)"

definition store64 :: "cmem \<Rightarrow> addr \<Rightarrow> u64 \<Rightarrow> cmem" where
  "store64 m a v = mstore m a (to_le 8 v)"

definition store_ptr :: "cmem \<Rightarrow> addr \<Rightarrow> addr \<Rightarrow> cmem" where
  "store_ptr m a p = store64 m a (word_of_int p)"

text \<open>The standard \<^verbatim>\<open>memset\<close> to zero and \<^verbatim>\<open>memcpy\<close>.\<close>

definition memset0 :: "cmem \<Rightarrow> addr \<Rightarrow> nat \<Rightarrow> cmem" where
  "memset0 m a n = mstore m a (replicate n 0)"

definition memcpy :: "cmem \<Rightarrow> addr \<Rightarrow> addr \<Rightarrow> nat \<Rightarrow> cmem" where
  "memcpy m dst src n = mstore m dst (mload m src n)"

subsection \<open>realloc and free\<close>

definition block_size :: "cmem \<Rightarrow> addr \<Rightarrow> nat option" where
  "block_size m p = map_of (blocks m) p"

definition drop_block :: "cmem \<Rightarrow> addr \<Rightarrow> cmem" where
  "drop_block m p = m\<lparr>blocks := filter (\<lambda>b. fst b \<noteq> p) (blocks m)\<rparr>"

text \<open>
  \<^verbatim>\<open>realloc(p, n)\<close>: a fresh block at the top of the arena that starts with the old
  contents, or \<^verbatim>\<open>NULL\<close> with the old block kept when the arena has no room.
\<close>

definition c_realloc :: "cmem \<Rightarrow> addr \<Rightarrow> nat \<Rightarrow> addr \<times> cmem" where
  "c_realloc m p n =
     (let old = (if p = NULL then Some 0 else block_size m p) in
      case old of
        None \<Rightarrow> (NULL, m\<lparr>bad_free := True\<rparr>)
      | Some k \<Rightarrow>
          if heap_top m + int n > heap_limit m then (NULL, m)
          else (let q = heap_top m;
                    m1 = memcpy m q p (min k n);
                    m2 = (drop_block m1 p)\<lparr>heap_top := q + int n\<rparr>
                in (q, m2\<lparr>blocks := (q, n) # blocks m2\<rparr>)))"

definition c_free :: "cmem \<Rightarrow> addr \<Rightarrow> cmem" where
  "c_free m p =
     (if p = NULL then m
      else case block_size m p of
             None \<Rightarrow> m\<lparr>bad_free := True\<rparr>
           | Some _ \<Rightarrow> drop_block m p)"

subsection \<open>Loads after stores\<close>

lemma length_mload [simp]: "length (mload m a n) = n"
  by (simp add: mload_def)

lemma nth_mload [simp]: "i < n \<Longrightarrow> mload m a n ! i = bytes m (a + int i)"
  by (simp add: mload_def)

lemma mstore_Nil [simp]: "mstore m a [] = m"
  by (rule cmem.equality) (auto simp: mstore_def fun_eq_iff)

lemma bytes_mstore:
  "bytes (mstore m a bs) x =
     (if a \<le> x \<and> x < a + int (length bs) then bs ! nat (x - a) else bytes m x)"
  by (simp add: mstore_def)

lemma bytes_mstore_outside [mem_simps]:
  "x < a \<or> a + int (length bs) \<le> x \<Longrightarrow> bytes (mstore m a bs) x = bytes m x"
  by (auto simp: bytes_mstore)

lemma mload_mstore_same [mem_simps]:
  "length bs = n \<Longrightarrow> mload (mstore m a bs) a n = bs"
  by (rule nth_equalityI) (auto simp: bytes_mstore)

lemma mload_mstore_disjoint [mem_simps]:
  "a + int n \<le> b \<or> b + int (length bs) \<le> a \<Longrightarrow> mload (mstore m b bs) a n = mload m a n"
  by (rule nth_equalityI) (auto simp: bytes_mstore)

lemma mload_cong:
  "(\<And>x. a \<le> x \<Longrightarrow> x < a + int n \<Longrightarrow> bytes m' x = bytes m x) \<Longrightarrow> mload m' a n = mload m a n"
  by (rule nth_equalityI) auto

lemma mload_append: "mload m a (i + j) = mload m a i @ mload m (a + int i) j"
  by (rule nth_equalityI) (auto simp: nth_append algebra_simps)

lemma load8_store8 [mem_simps]: "load8 (store8 m a v) a = v"
  by (simp add: load8_def store8_def bytes_mstore)

lemma load32_store32 [mem_simps]: "load32 (store32 m a v) a = v"
  by (simp add: load32_def store32_def mload_mstore_same)

lemma load64_store64 [mem_simps]: "load64 (store64 m a v) a = v"
  by (simp add: load64_def store64_def mload_mstore_same)

lemma load_ptr_store_ptr [mem_simps]:
  "0 \<le> p \<Longrightarrow> p < 2 ^ 64 \<Longrightarrow> load_ptr (store_ptr m a p) a = p"
  by (simp add: load_ptr_def store_ptr_def load64_store64 uint_word_of_int_eq take_bit_int_eq_self)

subsection \<open>Which bytes an operation can change\<close>

text \<open>\<open>unchanged_outside A m m'\<close>: every byte whose address is not in \<open>A\<close> is the same.\<close>

definition unchanged_outside :: "addr set \<Rightarrow> cmem \<Rightarrow> cmem \<Rightarrow> bool" where
  "unchanged_outside A m m' \<longleftrightarrow> (\<forall>x. x \<notin> A \<longrightarrow> bytes m' x = bytes m x)"

definition span :: "addr \<Rightarrow> int \<Rightarrow> addr set" where
  "span a n = {a..<a + n}"

lemma unchanged_refl [simp, intro]: "unchanged_outside A m m"
  by (simp add: unchanged_outside_def)

lemma unchanged_trans [trans]:
  "unchanged_outside A m m' \<Longrightarrow> unchanged_outside A m' m'' \<Longrightarrow> unchanged_outside A m m''"
  by (simp add: unchanged_outside_def)

lemma unchanged_mono:
  "unchanged_outside A m m' \<Longrightarrow> A \<subseteq> B \<Longrightarrow> unchanged_outside B m m'"
  by (auto simp: unchanged_outside_def)

lemma unchanged_mstore [frame_rules]:
  "span a (int (length bs)) \<subseteq> A \<Longrightarrow> unchanged_outside A m (mstore m a bs)"
  by (auto simp: unchanged_outside_def span_def bytes_mstore)

lemma unchanged_mload:
  assumes "unchanged_outside A m m'" and "span a (int n) \<inter> A = {}"
  shows "mload m' a n = mload m a n"
  using assms by (intro mload_cong) (auto simp: unchanged_outside_def span_def)

end
