(* ===== verification/Pb_Types.thy ===== *)
theory Pb_Types
  imports C_Memory
begin

text \<open>
  The types of nanopb (\<^verbatim>\<open>nanopb/pb.h\<close>, \<^verbatim>\<open>pb_encode.h\<close>, \<^verbatim>\<open>pb_decode.h\<close>): field
  descriptors, wire types, stream structures and the error macros. The configuration is the
  one the Firestore messages need: \<^verbatim>\<open>PB_FIELD_32BIT\<close> (so \<^verbatim>\<open>pb_size_t\<close> is 32 bits wide),
  \<^verbatim>\<open>PB_ENABLE_MALLOC\<close> (their repeated and bytes fields are pointers), custom streams and error
  messages enabled, 64-bit integers available.
\<close>

subsection \<open>Field types\<close>

definition PB_LTYPE_BOOL :: u8 where "PB_LTYPE_BOOL = 0x00"
definition PB_LTYPE_VARINT :: u8 where "PB_LTYPE_VARINT = 0x01"
definition PB_LTYPE_UVARINT :: u8 where "PB_LTYPE_UVARINT = 0x02"
definition PB_LTYPE_SVARINT :: u8 where "PB_LTYPE_SVARINT = 0x03"
definition PB_LTYPE_FIXED32 :: u8 where "PB_LTYPE_FIXED32 = 0x04"
definition PB_LTYPE_FIXED64 :: u8 where "PB_LTYPE_FIXED64 = 0x05"
definition PB_LTYPE_LAST_PACKABLE :: u8 where "PB_LTYPE_LAST_PACKABLE = 0x05"
definition PB_LTYPE_BYTES :: u8 where "PB_LTYPE_BYTES = 0x06"
definition PB_LTYPE_STRING :: u8 where "PB_LTYPE_STRING = 0x07"
definition PB_LTYPE_SUBMESSAGE :: u8 where "PB_LTYPE_SUBMESSAGE = 0x08"
definition PB_LTYPE_EXTENSION :: u8 where "PB_LTYPE_EXTENSION = 0x09"
definition PB_LTYPE_FIXED_LENGTH_BYTES :: u8 where "PB_LTYPE_FIXED_LENGTH_BYTES = 0x0A"

definition PB_HTYPE_REQUIRED :: u8 where "PB_HTYPE_REQUIRED = 0x00"
definition PB_HTYPE_OPTIONAL :: u8 where "PB_HTYPE_OPTIONAL = 0x10"
definition PB_HTYPE_REPEATED :: u8 where "PB_HTYPE_REPEATED = 0x20"
definition PB_HTYPE_ONEOF :: u8 where "PB_HTYPE_ONEOF = 0x30"

definition PB_ATYPE_STATIC :: u8 where "PB_ATYPE_STATIC = 0x00"
definition PB_ATYPE_POINTER :: u8 where "PB_ATYPE_POINTER = 0x80"
definition PB_ATYPE_CALLBACK :: u8 where "PB_ATYPE_CALLBACK = 0x40"

definition PB_ATYPE :: "u8 \<Rightarrow> u8" where "PB_ATYPE x = x AND 0xC0"
definition PB_HTYPE :: "u8 \<Rightarrow> u8" where "PB_HTYPE x = x AND 0x30"
definition PB_LTYPE :: "u8 \<Rightarrow> u8" where "PB_LTYPE x = x AND 0x0F"

lemmas ltype_defs =
  PB_LTYPE_BOOL_def PB_LTYPE_VARINT_def PB_LTYPE_UVARINT_def PB_LTYPE_SVARINT_def
  PB_LTYPE_FIXED32_def PB_LTYPE_FIXED64_def PB_LTYPE_LAST_PACKABLE_def PB_LTYPE_BYTES_def
  PB_LTYPE_STRING_def PB_LTYPE_SUBMESSAGE_def PB_LTYPE_EXTENSION_def
  PB_LTYPE_FIXED_LENGTH_BYTES_def

lemmas htype_defs =
  PB_HTYPE_REQUIRED_def PB_HTYPE_OPTIONAL_def PB_HTYPE_REPEATED_def PB_HTYPE_ONEOF_def

lemmas atype_defs = PB_ATYPE_STATIC_def PB_ATYPE_POINTER_def PB_ATYPE_CALLBACK_def

lemmas type_defs = ltype_defs htype_defs atype_defs PB_ATYPE_def PB_HTYPE_def PB_LTYPE_def

definition PB_SIZE_MAX :: u32 where
  "PB_SIZE_MAX = - 1"

definition PB_MAX_REQUIRED_FIELDS :: nat where
  "PB_MAX_REQUIRED_FIELDS = 64"

subsection \<open>Field descriptors\<close>

text \<open>
  \<^verbatim>\<open>struct pb_field_s\<close>. \<open>size_offset\<close> is a \<^verbatim>\<open>pb_ssize_t\<close>, read with \<^const>\<open>sint\<close>.
  \<open>fptr\<close> is the address of a submessage's descriptor array or of a default value.
\<close>

record pb_field =
  tag :: u32
  ftype :: u8
  data_offset :: u32
  size_offset :: u32
  data_size :: u32
  array_size :: u32
  fptr :: addr

definition PB_LAST_FIELD :: pb_field where
  "PB_LAST_FIELD = \<lparr>tag = 0, ftype = 0, data_offset = 0, size_offset = 0, data_size = 0,
                    array_size = 0, fptr = NULL\<rparr>"

abbreviation atype :: "pb_field \<Rightarrow> u8" where "atype f \<equiv> PB_ATYPE (ftype f)"
abbreviation htype :: "pb_field \<Rightarrow> u8" where "htype f \<equiv> PB_HTYPE (ftype f)"
abbreviation ltype :: "pb_field \<Rightarrow> u8" where "ltype f \<equiv> PB_LTYPE (ftype f)"

subsection \<open>Streams\<close>

text \<open>
  \<^verbatim>\<open>struct pb_ostream_s\<close>. The callback is \<^verbatim>\<open>NULL\<close> on a sizing stream, \<^verbatim>\<open>buf_write\<close> on a
  buffer stream, or a function of the application. \<open>o_state\<close> of a buffer stream is the
  part of the buffer in front of the \<^verbatim>\<open>state\<close> pointer, that is, the bytes stored so far; the
  buffer is an object of its own and does not overlap the message.
\<close>

datatype pb_ocallback = Ocb_NULL | Ocb_buf_write | Ocb_user nat

record pb_ostream =
  o_callback :: pb_ocallback
  o_state :: "u8 list"
  o_max_size :: u64
  o_bytes_written :: u64
  o_errmsg :: "string option"

text \<open>
  \<^verbatim>\<open>struct pb_istream_s\<close>. \<open>i_state\<close> of a buffer stream is what the \<^verbatim>\<open>state\<close> pointer
  points to: the input from there to the end of the buffer object. Every subtraction from
  \<^verbatim>\<open>bytes_left\<close> in the source is guarded by a comparison, so a natural number loses nothing.
\<close>

datatype pb_icallback = Icb_buf_read | Icb_user nat

record pb_istream =
  i_callback :: pb_icallback
  i_state :: "u8 list"
  i_bytes_left :: nat
  i_errmsg :: "string option"

subsection \<open>Wire types\<close>

text \<open>\<^verbatim>\<open>pb_wire_type_t\<close> is stored as the three bits of a tag, so it may hold other values.\<close>

definition PB_WT_VARINT :: u32 where "PB_WT_VARINT = 0"
definition PB_WT_64BIT :: u32 where "PB_WT_64BIT = 1"
definition PB_WT_STRING :: u32 where "PB_WT_STRING = 2"
definition PB_WT_32BIT :: u32 where "PB_WT_32BIT = 5"

lemmas wt_defs = PB_WT_VARINT_def PB_WT_64BIT_def PB_WT_STRING_def PB_WT_32BIT_def

subsection \<open>The rest of the program\<close>

text \<open>
  What nanopb reaches through pointers it does not own: the descriptor arrays of the generated
  code (\<open>fields_at\<close>, each without its \<^verbatim>\<open>PB_LAST_FIELD\<close> entry) and the functions of the
  application behind stream callbacks, field callbacks and extension handlers. They are
  parameters of the model. A stream callback works on the \<^verbatim>\<open>state\<close> of its stream only, as the
  rules in \<^verbatim>\<open>pb_encode.h\<close> and \<^verbatim>\<open>pb_decode.h\<close> ask; an encoding callback sees the message
  read-only.
\<close>

record pb_env =
  fields_at :: "addr \<Rightarrow> pb_field list"
  fn_write :: "nat \<Rightarrow> u8 list \<Rightarrow> u8 list \<Rightarrow> bool \<times> u8 list"
  fn_read :: "nat \<Rightarrow> u8 list \<Rightarrow> nat \<Rightarrow> bool \<times> u8 list \<times> u8 list"
  fn_encode :: "addr \<Rightarrow> cmem \<Rightarrow> pb_ostream \<Rightarrow> pb_field \<Rightarrow> addr \<Rightarrow> bool \<times> pb_ostream"
  fn_decode :: "addr \<Rightarrow> pb_istream \<Rightarrow> pb_field \<Rightarrow> addr \<Rightarrow> cmem \<Rightarrow> bool \<times> pb_istream \<times> cmem"
  fn_ext_encode :: "addr \<Rightarrow> cmem \<Rightarrow> pb_ostream \<Rightarrow> addr \<Rightarrow> bool \<times> pb_ostream"
  fn_ext_decode :: "addr \<Rightarrow> pb_istream \<Rightarrow> addr \<Rightarrow> u32 \<Rightarrow> u32 \<Rightarrow> cmem \<Rightarrow> bool \<times> pb_istream \<times> cmem"

text \<open>Entry \<open>i\<close> of a descriptor array; the entry after the last one is the terminator.\<close>

definition field_at :: "pb_env \<Rightarrow> addr \<Rightarrow> nat \<Rightarrow> pb_field" where
  "field_at env a i = (if i < length (fields_at env a) then fields_at env a ! i else PB_LAST_FIELD)"

text \<open>A descriptor array as the generator writes it: only the terminator has tag 0.\<close>

definition wf_fields :: "pb_field list \<Rightarrow> bool" where
  "wf_fields fs \<longleftrightarrow> (\<forall>f \<in> set fs. tag f \<noteq> 0)"

text \<open>A program whose descriptor arrays are all as generated.\<close>

definition wf_env :: "pb_env \<Rightarrow> bool" where
  "wf_env env \<longleftrightarrow> (\<forall>a. wf_fields (fields_at env a))"

subsection \<open>Errors\<close>

text \<open>\<^verbatim>\<open>PB_SET_ERROR\<close> keeps the first message; \<^verbatim>\<open>PB_RETURN_ERROR\<close> also returns false.\<close>

definition PB_SET_ERROR_o :: "pb_ostream \<Rightarrow> string \<Rightarrow> pb_ostream" where
  "PB_SET_ERROR_o s msg = s\<lparr>o_errmsg := (case o_errmsg s of None \<Rightarrow> Some msg | Some e \<Rightarrow> Some e)\<rparr>"

definition PB_SET_ERROR_i :: "pb_istream \<Rightarrow> string \<Rightarrow> pb_istream" where
  "PB_SET_ERROR_i s msg = s\<lparr>i_errmsg := (case i_errmsg s of None \<Rightarrow> Some msg | Some e \<Rightarrow> Some e)\<rparr>"

definition PB_RETURN_ERROR_o :: "pb_ostream \<Rightarrow> string \<Rightarrow> bool \<times> pb_ostream" where
  "PB_RETURN_ERROR_o s msg = (False, PB_SET_ERROR_o s msg)"

definition PB_RETURN_ERROR_i :: "pb_istream \<Rightarrow> string \<Rightarrow> bool \<times> pb_istream" where
  "PB_RETURN_ERROR_i s msg = (False, PB_SET_ERROR_i s msg)"

lemma PB_SET_ERROR_o_simps [simp]:
  "o_callback (PB_SET_ERROR_o s msg) = o_callback s"
  "o_state (PB_SET_ERROR_o s msg) = o_state s"
  "o_max_size (PB_SET_ERROR_o s msg) = o_max_size s"
  "o_bytes_written (PB_SET_ERROR_o s msg) = o_bytes_written s"
  by (simp_all add: PB_SET_ERROR_o_def)

lemma PB_SET_ERROR_i_simps [simp]:
  "i_callback (PB_SET_ERROR_i s msg) = i_callback s"
  "i_state (PB_SET_ERROR_i s msg) = i_state s"
  "i_bytes_left (PB_SET_ERROR_i s msg) = i_bytes_left s"
  by (simp_all add: PB_SET_ERROR_i_def)

end
