(* ===== verification/Pb_Common.thy ===== *)
theory Pb_Common
  imports Pb_Types
begin

text \<open>
  The field iterator of \<^verbatim>\<open>nanopb/pb_common.c\<close>. \<open>pos\<close> is the index of the current entry
  of the descriptor array at \<open>start\<close>; two iterator positions of one array are equal in C
  exactly when the indices are.
\<close>

record pb_field_iter =
  start :: addr
  pos :: nat
  required_field_index :: nat
  dest_struct :: addr
  pData :: addr
  pSize :: addr

definition iter_field :: "pb_env \<Rightarrow> pb_field_iter \<Rightarrow> pb_field" where
  "iter_field env it = field_at env (start it) (pos it)"

definition pb_field_iter_begin :: "pb_env \<Rightarrow> addr \<Rightarrow> addr \<Rightarrow> bool \<times> pb_field_iter" where
  "pb_field_iter_begin env a dest =
     (let f = field_at env a 0;
          d = (if dest = NULL then NULL else dest + uint (data_offset f));
          z = (if dest = NULL then NULL else d + sint (size_offset f))
      in (tag f \<noteq> 0,
          \<lparr>start = a, pos = 0, required_field_index = 0, dest_struct = dest,
           pData = d, pSize = z\<rparr>))"

definition pb_field_iter_next :: "pb_env \<Rightarrow> pb_field_iter \<Rightarrow> bool \<times> pb_field_iter" where
  "pb_field_iter_next env it =
     (let prev = iter_field env it in
      if tag prev = 0 then (False, it)
      else
        let it1 = it\<lparr>pos := Suc (pos it)\<rparr>; cur = iter_field env it1 in
        if tag cur = 0
        then (False, snd (pb_field_iter_begin env (start it) (dest_struct it)))
        else if htype prev = PB_HTYPE_ONEOF \<and> htype cur = PB_HTYPE_ONEOF \<and>
                data_offset cur = PB_SIZE_MAX
        then (True, it1)
        else
          let prev_size =
                (if atype prev = PB_ATYPE_STATIC \<and> htype prev = PB_HTYPE_REPEATED
                 then uint (data_size prev) * uint (array_size prev)
                 else if atype prev = PB_ATYPE_POINTER then sizeof_ptr
                 else uint (data_size prev));
              r = (if htype prev = PB_HTYPE_REQUIRED then Suc (required_field_index it)
                   else required_field_index it);
              d = pData it + prev_size + uint (data_offset cur)
          in (True, it1\<lparr>required_field_index := r, pData := d, pSize := d + sint (size_offset cur)\<rparr>))"

text \<open>
  The \<^verbatim>\<open>do ... while\<close> loop of \<^verbatim>\<open>pb_field_iter_find\<close>, which starts at entry \<open>k0\<close>. The fuel
  bounds the number of entries visited; \<^verbatim>\<open>None\<close> stands for a loop that has not stopped.
\<close>

fun pb_field_iter_find_loop ::
  "pb_env \<Rightarrow> nat \<Rightarrow> nat \<Rightarrow> pb_field_iter \<Rightarrow> u32 \<Rightarrow> (bool \<times> pb_field_iter) option" where
  "pb_field_iter_find_loop env 0 k0 it t = None"
| "pb_field_iter_find_loop env (Suc n) k0 it t =
     (if tag (iter_field env it) = t \<and> ltype (iter_field env it) \<noteq> PB_LTYPE_EXTENSION
      then Some (True, it)
      else
        let it' = snd (pb_field_iter_next env it) in
        if pos it' = k0 then Some (False, it') else pb_field_iter_find_loop env n k0 it' t)"

definition pb_field_iter_find ::
  "pb_env \<Rightarrow> pb_field_iter \<Rightarrow> u32 \<Rightarrow> (bool \<times> pb_field_iter) option" where
  "pb_field_iter_find env it t =
     pb_field_iter_find_loop env (Suc (length (fields_at env (start it)))) (pos it) it t"

subsection \<open>Where the fields of a message are\<close>

text \<open>
  The reference layout: the offset of the data and of the count or has-flag of entry
  \<open>k\<close>, and the number of required entries before it, as functions of the descriptor array
  alone.
\<close>

definition field_extent :: "pb_field \<Rightarrow> int" where
  "field_extent f =
     (if atype f = PB_ATYPE_STATIC \<and> htype f = PB_HTYPE_REPEATED
      then uint (data_size f) * uint (array_size f)
      else if atype f = PB_ATYPE_POINTER then sizeof_ptr
      else uint (data_size f))"

definition in_union :: "pb_field \<Rightarrow> pb_field \<Rightarrow> bool" where
  "in_union prev cur \<longleftrightarrow>
     htype prev = PB_HTYPE_ONEOF \<and> htype cur = PB_HTYPE_ONEOF \<and> data_offset cur = PB_SIZE_MAX"

fun data_pos :: "pb_field list \<Rightarrow> nat \<Rightarrow> int" where
  "data_pos fs 0 = uint (data_offset (fs ! 0))"
| "data_pos fs (Suc k) =
     (if in_union (fs ! k) (fs ! Suc k) then data_pos fs k
      else data_pos fs k + field_extent (fs ! k) + uint (data_offset (fs ! Suc k)))"

fun size_pos :: "pb_field list \<Rightarrow> nat \<Rightarrow> int" where
  "size_pos fs 0 = data_pos fs 0 + sint (size_offset (fs ! 0))"
| "size_pos fs (Suc k) =
     (if in_union (fs ! k) (fs ! Suc k) then size_pos fs k
      else data_pos fs (Suc k) + sint (size_offset (fs ! Suc k)))"

fun required_before :: "pb_field list \<Rightarrow> nat \<Rightarrow> nat" where
  "required_before fs 0 = 0"
| "required_before fs (Suc k) =
     required_before fs k + (if htype (fs ! k) = PB_HTYPE_REQUIRED then 1 else 0)"

text \<open>The iterator at entry \<open>k\<close> of a message at address \<open>d\<close>.\<close>

definition iter_at :: "pb_env \<Rightarrow> addr \<Rightarrow> addr \<Rightarrow> nat \<Rightarrow> pb_field_iter" where
  "iter_at env a d k =
     \<lparr>start = a, pos = k, required_field_index = required_before (fields_at env a) k,
      dest_struct = d, pData = d + data_pos (fields_at env a) k,
      pSize = d + size_pos (fields_at env a) k\<rparr>"

lemma iter_at_simps [simp]:
  "start (iter_at env a d k) = a"
  "pos (iter_at env a d k) = k"
  "dest_struct (iter_at env a d k) = d"
  "required_field_index (iter_at env a d k) = required_before (fields_at env a) k"
  "pData (iter_at env a d k) = d + data_pos (fields_at env a) k"
  "pSize (iter_at env a d k) = d + size_pos (fields_at env a) k"
  by (simp_all add: iter_at_def)

lemma field_at_less [simp]: "i < length (fields_at env a) \<Longrightarrow> field_at env a i = fields_at env a ! i"
  by (simp add: field_at_def)

lemma field_at_end [simp]: "length (fields_at env a) \<le> i \<Longrightarrow> field_at env a i = PB_LAST_FIELD"
  by (simp add: field_at_def)

lemma tag_PB_LAST_FIELD [simp]: "tag PB_LAST_FIELD = 0"
  by (simp add: PB_LAST_FIELD_def)

lemma tag_nth: "wf_fields fs \<Longrightarrow> k < length fs \<Longrightarrow> tag (fs ! k) \<noteq> 0"
  by (simp add: wf_fields_def)

lemma iter_field_iter_at [simp]:
  "k < length (fields_at env a) \<Longrightarrow> iter_field env (iter_at env a d k) = fields_at env a ! k"
  by (simp add: iter_field_def)

lemma not_required_in_union: "in_union p c \<Longrightarrow> htype p \<noteq> PB_HTYPE_REQUIRED"
  by (simp add: in_union_def htype_defs)

lemma begin_eq:
  assumes "wf_fields (fields_at env a)" and "d \<noteq> NULL" and "fields_at env a \<noteq> []"
  shows "pb_field_iter_begin env a d = (True, iter_at env a d 0)"
  using assms tag_nth [of "fields_at env a" 0]
  by (simp add: pb_field_iter_begin_def iter_at_def Let_def)

lemma begin_empty:
  assumes "fields_at env a = []"
  shows "\<not> fst (pb_field_iter_begin env a d)"
  using assms by (simp add: pb_field_iter_begin_def Let_def)

lemma next_inner:
  assumes "wf_fields (fields_at env a)" and "Suc k < length (fields_at env a)"
  shows "pb_field_iter_next env (iter_at env a d k) = (True, iter_at env a d (Suc k))"
proof -
  let ?fs = "fields_at env a"
  have k: "k < length ?fs" using assms by simp
  have tk: "tag (?fs ! k) \<noteq> 0" "tag (?fs ! Suc k) \<noteq> 0"
    using tag_nth [OF assms(1)] assms(2) k by simp_all
  show ?thesis
  proof (cases "in_union (?fs ! k) (?fs ! Suc k)")
    case True
    then show ?thesis using assms(2) k tk not_required_in_union [OF True]
      by (simp add: pb_field_iter_next_def Let_def in_union_def iter_at_def iter_field_def)
  next
    case False
    then show ?thesis using assms(2) k tk
      by (auto simp: pb_field_iter_next_def Let_def in_union_def iter_at_def iter_field_def
          field_extent_def)
  qed
qed

lemma next_wrap:
  assumes "wf_fields (fields_at env a)" and "d \<noteq> NULL" and "Suc k = length (fields_at env a)"
  shows "pb_field_iter_next env (iter_at env a d k) = (False, iter_at env a d 0)"
proof -
  have k: "k < length (fields_at env a)" using assms by simp
  have cur: "iter_field env ((iter_at env a d k)\<lparr>pos := Suc k\<rparr>) = PB_LAST_FIELD"
    using assms by (simp add: iter_field_def)
  have "fields_at env a \<noteq> []" using k by auto
  with k cur assms tag_nth [OF assms(1) k] show ?thesis
    by (simp add: pb_field_iter_next_def Let_def begin_eq)
qed

lemmas iter_next_simps = next_inner next_wrap

subsection \<open>Looping over the fields\<close>

text \<open>
  The shape of every loop over a message in the source,
  \<^verbatim>\<open>do { body } while (pb_field_iter_next(&iter))\<close>: the body returns the new state and
  whether to go on (false: the enclosing function returned), \<^verbatim>\<open>None\<close> if it did not return. The
  fuel bounds the number of rounds.
\<close>

fun do_while :: "('i \<Rightarrow> bool \<times> 'i) \<Rightarrow> nat \<Rightarrow> ('i \<Rightarrow> 's \<Rightarrow> ('s \<times> bool) option) \<Rightarrow> 'i \<Rightarrow> 's \<Rightarrow> 's option"
where
  "do_while nxt 0 body i st = None"
| "do_while nxt (Suc n) body i st =
     (case body i st of
        None \<Rightarrow> None
      | Some (st', go) \<Rightarrow>
          if \<not> go then Some st'
          else (case nxt i of (again, i') \<Rightarrow>
                  if again then do_while nxt n body i' st' else Some st'))"

text \<open>The reference: the body applied to a list of positions in order, until it says stop.\<close>

fun visit :: "('i \<Rightarrow> 's \<Rightarrow> ('s \<times> bool) option) \<Rightarrow> 'i list \<Rightarrow> 's \<Rightarrow> 's option" where
  "visit body [] st = Some st"
| "visit body (i # is) st =
     (case body i st of
        None \<Rightarrow> None
      | Some (st', go) \<Rightarrow> if go then visit body is st' else Some st')"

text \<open>
  The contract between the iterator and its clients (the encoder, the initialiser, the
  releaser): positions \<open>0, \<dots>, size c - 1\<close> in turn, then back to the first one.
\<close>

locale field_cursor =
  fixes ok :: "'c \<Rightarrow> bool"
    and count :: "'c \<Rightarrow> nat"
    and position :: "'c \<Rightarrow> nat \<Rightarrow> 'i"
    and advance :: "'c \<Rightarrow> 'i \<Rightarrow> bool \<times> 'i"
  assumes advance_inner:
      "ok c \<Longrightarrow> Suc k < count c \<Longrightarrow> advance c (position c k) = (True, position c (Suc k))"
    and advance_wrap:
      "ok c \<Longrightarrow> Suc k = count c \<Longrightarrow> advance c (position c k) = (False, position c 0)"
begin

lemma do_while_from:
  assumes "ok c" and "k < count c" and "n = count c - k"
  shows "do_while (advance c) n body (position c k) st =
         visit body (map (position c) [k..<count c]) st"
  using assms(2,3)
proof (induction n arbitrary: k st)
  case 0
  then show ?case by simp
next
  case (Suc n)
  have upt: "[k..<count c] = k # [Suc k..<count c]" using Suc.prems by (simp add: upt_rec)
  show ?case
  proof (cases "Suc k < count c")
    case True
    moreover have "n = count c - Suc k" using Suc.prems by simp
    ultimately show ?thesis
      using Suc.IH [of "Suc k"] advance_inner [OF assms(1) True]
      by (simp add: upt split: option.splits)
  next
    case False
    then have "Suc k = count c" using Suc.prems by simp
    then show ?thesis using advance_wrap [OF assms(1), of k]
      by (simp add: upt split: option.splits)
  qed
qed

lemma do_while_visits_all:
  "ok c \<Longrightarrow> 0 < count c \<Longrightarrow>
   do_while (advance c) (count c) body (position c 0) st = visit body (map (position c) [0..<count c]) st"
  by (rule do_while_from) simp_all

end

text \<open>The iterator of \<^verbatim>\<open>pb_common.c\<close> over the message of type \<open>a\<close> at \<open>d\<close> keeps the contract.\<close>

definition cursor_ok :: "pb_env \<times> addr \<times> addr \<Rightarrow> bool" where
  "cursor_ok = (\<lambda>(env, a, d). wf_fields (fields_at env a) \<and> d \<noteq> NULL)"

definition cursor_count :: "pb_env \<times> addr \<times> addr \<Rightarrow> nat" where
  "cursor_count = (\<lambda>(env, a, d). length (fields_at env a))"

definition cursor_at :: "pb_env \<times> addr \<times> addr \<Rightarrow> nat \<Rightarrow> pb_field_iter" where
  "cursor_at = (\<lambda>(env, a, d). iter_at env a d)"

definition cursor_next :: "pb_env \<times> addr \<times> addr \<Rightarrow> pb_field_iter \<Rightarrow> bool \<times> pb_field_iter" where
  "cursor_next = (\<lambda>(env, a, d). pb_field_iter_next env)"

lemmas cursor_defs = cursor_ok_def cursor_count_def cursor_at_def cursor_next_def

interpretation pb_iter: field_cursor cursor_ok cursor_count cursor_at cursor_next
  by unfold_locales (auto simp: cursor_defs iter_next_simps)

definition pb_field_loop ::
  "pb_env \<Rightarrow> addr \<Rightarrow> (pb_field_iter \<Rightarrow> 's \<Rightarrow> ('s \<times> bool) option) \<Rightarrow> pb_field_iter \<Rightarrow> 's \<Rightarrow> 's option"
where
  "pb_field_loop env a body it st =
     do_while (pb_field_iter_next env) (length (fields_at env a)) body it st"

lemma pb_field_loop_visits:
  assumes "wf_fields (fields_at env a)" and "d \<noteq> NULL" and "fields_at env a \<noteq> []"
  shows "pb_field_loop env a body (iter_at env a d 0) st =
         visit body (map (iter_at env a d) [0..<length (fields_at env a)]) st"
  using pb_iter.do_while_visits_all [of "(env, a, d)" body st] assms
  by (simp add: cursor_defs pb_field_loop_def)

subsection \<open>Searching for a tag\<close>

definition field_matches :: "pb_env \<Rightarrow> addr \<Rightarrow> u32 \<Rightarrow> nat \<Rightarrow> bool" where
  "field_matches env a t k \<longleftrightarrow>
     tag (fields_at env a ! k) = t \<and> ltype (fields_at env a ! k) \<noteq> PB_LTYPE_EXTENSION"

text \<open>The entries still to be looked at when the search that began at \<open>k0\<close> has reached \<open>j\<close>.\<close>

definition to_search :: "nat \<Rightarrow> nat \<Rightarrow> nat \<Rightarrow> nat set" where
  "to_search len k0 j = (if j < k0 then {j..<k0} else {j..<len} \<union> {0..<k0})"

definition search_steps :: "nat \<Rightarrow> nat \<Rightarrow> nat \<Rightarrow> nat" where
  "search_steps len k0 j = (if j < k0 then k0 - j else len - j + k0)"

lemma next_iter_at:
  assumes "wf_fields (fields_at env a)" and "d \<noteq> NULL" and "j < length (fields_at env a)"
  shows "snd (pb_field_iter_next env (iter_at env a d j)) =
         iter_at env a d (if Suc j < length (fields_at env a) then Suc j else 0)"
proof (cases "Suc j < length (fields_at env a)")
  case True
  then show ?thesis using assms by (simp add: next_inner)
next
  case False
  then have "Suc j = length (fields_at env a)" using assms by simp
  then show ?thesis using assms by (simp add: next_wrap)
qed

lemma find_loop_result:
  assumes wf: "wf_fields (fields_at env a)" "d \<noteq> NULL"
    and "len = length (fields_at env a)" and "k0 < len" and "j < len"
    and "search_steps len k0 j \<le> n"
  shows "(\<exists>i < len. field_matches env a t i \<and>
            pb_field_iter_find_loop env n k0 (iter_at env a d j) t = Some (True, iter_at env a d i)) \<or>
         (\<forall>i \<in> to_search len k0 j. \<not> field_matches env a t i) \<and>
            pb_field_iter_find_loop env n k0 (iter_at env a d j) t = Some (False, iter_at env a d k0)"
  using assms(3-)
proof (induction n arbitrary: j)
  case 0
  then show ?case by (auto simp: search_steps_def split: if_splits)
next
  case (Suc n)
  define j' where "j' = (if Suc j < len then Suc j else 0)"
  have nx: "snd (pb_field_iter_next env (iter_at env a d j)) = iter_at env a d j'"
    using wf Suc.prems by (simp add: next_iter_at j'_def)
  have it: "iter_field env (iter_at env a d j) = fields_at env a ! j" using Suc.prems by simp
  consider (found) "field_matches env a t j"
    | (stop) "\<not> field_matches env a t j" "j' = k0"
    | (go) "\<not> field_matches env a t j" "j' \<noteq> k0" by blast
  then show ?case
  proof cases
    case found
    then show ?thesis using it Suc.prems by (auto simp: field_matches_def)
  next
    case stop
    then have "to_search len k0 j = {j}"
      using Suc.prems by (auto simp: to_search_def j'_def split: if_splits)
    with stop it nx show ?thesis by (auto simp: field_matches_def Let_def)
  next
    case go
    have ts: "to_search len k0 j = insert j (to_search len k0 j')"
      and st: "search_steps len k0 j' \<le> n" and lt: "j' < len"
      using go Suc.prems by (auto simp: to_search_def search_steps_def j'_def split: if_splits)
    have eq: "pb_field_iter_find_loop env (Suc n) k0 (iter_at env a d j) t =
        pb_field_iter_find_loop env n k0 (iter_at env a d j') t"
      using go it nx by (auto simp: field_matches_def Let_def)
    show ?thesis using Suc.IH [OF Suc.prems(1,2) lt st] go(1) unfolding eq ts by blast
  qed
qed

lemma find_at_result:
  assumes "wf_fields (fields_at env a)" and "d \<noteq> NULL" and "k < length (fields_at env a)"
  shows "(\<exists>i < length (fields_at env a). field_matches env a t i \<and>
            pb_field_iter_find env (iter_at env a d k) t = Some (True, iter_at env a d i)) \<or>
         (\<forall>i < length (fields_at env a). \<not> field_matches env a t i) \<and>
            pb_field_iter_find env (iter_at env a d k) t = Some (False, iter_at env a d k)"
proof -
  let ?len = "length (fields_at env a)"
  have "to_search ?len k k = {0..<?len}" and "search_steps ?len k k \<le> Suc ?len"
    using assms(3) by (auto simp: to_search_def search_steps_def)
  then show ?thesis
    using find_loop_result [OF assms(1,2) refl assms(3) assms(3), of "Suc ?len" t]
    by (simp add: pb_field_iter_find_def Ball_def del: pb_field_iter_find_loop.simps)
qed

end
