(* ===== verification/Pb_Ostream.thy ===== *)
theory Pb_Ostream
  imports Pb_Common
begin

text \<open>
  Output streams and the wire-level helpers of \<^verbatim>\<open>nanopb/pb_encode.c\<close>: \<^verbatim>\<open>pb_write\<close>, varints,
  zig-zag integers, fixed-width integers, tags and length-prefixed strings.
\<close>

definition buf_write :: "pb_ostream \<Rightarrow> u8 list \<Rightarrow> u64 \<Rightarrow> bool \<times> pb_ostream" where
  "buf_write s buf count = (True, s\<lparr>o_state := o_state s @ take (unat count) buf\<rparr>)"

definition pb_ostream_from_buffer :: "u64 \<Rightarrow> pb_ostream" where
  "pb_ostream_from_buffer bufsize =
     \<lparr>o_callback = Ocb_buf_write, o_state = [], o_max_size = bufsize, o_bytes_written = 0,
      o_errmsg = None\<rparr>"

definition PB_OSTREAM_SIZING :: pb_ostream where
  "PB_OSTREAM_SIZING =
     \<lparr>o_callback = Ocb_NULL, o_state = [], o_max_size = 0, o_bytes_written = 0, o_errmsg = None\<rparr>"

text \<open>The call \<^verbatim>\<open>stream->callback(stream, buf, count)\<close>.\<close>

definition ostream_callback :: "pb_env \<Rightarrow> pb_ostream \<Rightarrow> u8 list \<Rightarrow> u64 \<Rightarrow> bool \<times> pb_ostream" where
  "ostream_callback env s buf count =
     (case o_callback s of
        Ocb_NULL \<Rightarrow> (False, s)
      | Ocb_buf_write \<Rightarrow> buf_write s buf count
      | Ocb_user f \<Rightarrow> (case fn_write env f (o_state s) (take (unat count) buf) of (ok, st) \<Rightarrow>
                        (ok, s\<lparr>o_state := st\<rparr>)))"

definition pb_write :: "pb_env \<Rightarrow> pb_ostream \<Rightarrow> u8 list \<Rightarrow> u64 \<Rightarrow> bool \<times> pb_ostream" where
  "pb_write env s buf count =
     (if count > 0 \<and> o_callback s \<noteq> Ocb_NULL then
        if o_bytes_written s + count < o_bytes_written s \<or> o_bytes_written s + count > o_max_size s
        then PB_RETURN_ERROR_o s ''stream full''
        else (case ostream_callback env s buf count of (ok, s') \<Rightarrow>
                if \<not> ok then PB_RETURN_ERROR_o s' ''io error''
                else (True, s'\<lparr>o_bytes_written := o_bytes_written s' + count\<rparr>))
      else (True, s\<lparr>o_bytes_written := o_bytes_written s + count\<rparr>))"

subsection \<open>Varints\<close>

text \<open>
  The loop \<^verbatim>\<open>while (value) { buffer[i] = (value & 0x7F) | 0x80; value >>= 7; i++; }\<close>: the bytes
  stored in \<^verbatim>\<open>buffer\<close>.
\<close>

function varint_loop :: "u64 \<Rightarrow> u8 list" where
  "varint_loop v = (if v = 0 then [] else (ucast (v AND 0x7F) OR 0x80) # varint_loop (drop_bit 7 v))"
  by pat_completeness auto
termination
proof (relation "measure unat")
  fix v :: u64 assume "v \<noteq> 0"
  then have "0 < unat v" by (simp add: unat_gt_0)
  then have "unat v div 128 < unat v" by simp
  then show "(drop_bit 7 v, v) \<in> measure unat" by (simp add: drop_bit_eq_div unat_div)
qed simp

declare varint_loop.simps [simp del]

definition pb_encode_varint :: "pb_env \<Rightarrow> pb_ostream \<Rightarrow> u64 \<Rightarrow> bool \<times> pb_ostream" where
  "pb_encode_varint env s v =
     (if v \<le> 0x7F then pb_write env s [ucast v] 1
      else let buffer = varint_loop v; i = length buffer;
               buffer' = buffer[i - 1 := buffer ! (i - 1) AND 0x7F]
           in pb_write env s buffer' (of_nat i))"

definition pb_encode_svarint :: "pb_env \<Rightarrow> pb_ostream \<Rightarrow> u64 \<Rightarrow> bool \<times> pb_ostream" where
  "pb_encode_svarint env s v =
     (let zigzagged = (if v <s 0 then NOT (push_bit 1 v) else push_bit 1 v)
      in pb_encode_varint env s zigzagged)"

subsection \<open>Fixed-width integers, tags and strings\<close>

definition pb_encode_fixed32 :: "pb_env \<Rightarrow> pb_ostream \<Rightarrow> u32 \<Rightarrow> bool \<times> pb_ostream" where
  "pb_encode_fixed32 env s v =
     pb_write env s
       [ucast (v AND 0xFF), ucast (drop_bit 8 v AND 0xFF), ucast (drop_bit 16 v AND 0xFF),
        ucast (drop_bit 24 v AND 0xFF)] 4"

definition pb_encode_fixed64 :: "pb_env \<Rightarrow> pb_ostream \<Rightarrow> u64 \<Rightarrow> bool \<times> pb_ostream" where
  "pb_encode_fixed64 env s v =
     pb_write env s
       [ucast (v AND 0xFF), ucast (drop_bit 8 v AND 0xFF), ucast (drop_bit 16 v AND 0xFF),
        ucast (drop_bit 24 v AND 0xFF), ucast (drop_bit 32 v AND 0xFF),
        ucast (drop_bit 40 v AND 0xFF), ucast (drop_bit 48 v AND 0xFF),
        ucast (drop_bit 56 v AND 0xFF)] 8"

definition pb_encode_tag :: "pb_env \<Rightarrow> pb_ostream \<Rightarrow> u32 \<Rightarrow> u32 \<Rightarrow> bool \<times> pb_ostream" where
  "pb_encode_tag env s wiretype field_number =
     pb_encode_varint env s (push_bit 3 (ucast field_number) OR ucast wiretype)"

text \<open>The \<^verbatim>\<open>switch\<close> of \<^verbatim>\<open>pb_encode_tag_for_field\<close>; \<^verbatim>\<open>None\<close> is its \<^verbatim>\<open>default\<close> case.\<close>

definition wire_type_of :: "u8 \<Rightarrow> u32 option" where
  "wire_type_of lt =
     (if lt = PB_LTYPE_BOOL \<or> lt = PB_LTYPE_VARINT \<or> lt = PB_LTYPE_UVARINT \<or> lt = PB_LTYPE_SVARINT
      then Some PB_WT_VARINT
      else if lt = PB_LTYPE_FIXED32 then Some PB_WT_32BIT
      else if lt = PB_LTYPE_FIXED64 then Some PB_WT_64BIT
      else if lt = PB_LTYPE_BYTES \<or> lt = PB_LTYPE_STRING \<or> lt = PB_LTYPE_SUBMESSAGE \<or>
              lt = PB_LTYPE_FIXED_LENGTH_BYTES
      then Some PB_WT_STRING
      else None)"

definition pb_encode_tag_for_field :: "pb_env \<Rightarrow> pb_ostream \<Rightarrow> pb_field \<Rightarrow> bool \<times> pb_ostream" where
  "pb_encode_tag_for_field env s f =
     (case wire_type_of (ltype f) of
        None \<Rightarrow> PB_RETURN_ERROR_o s ''invalid field type''
      | Some wt \<Rightarrow> pb_encode_tag env s wt (tag f))"

definition pb_encode_string :: "pb_env \<Rightarrow> pb_ostream \<Rightarrow> u8 list \<Rightarrow> u64 \<Rightarrow> bool \<times> pb_ostream" where
  "pb_encode_string env s buffer sz =
     (case pb_encode_varint env s sz of (ok, s') \<Rightarrow>
        if \<not> ok then (False, s') else pb_write env s' buffer sz)"


subsection \<open>What a writer emits\<close>

text \<open>
  A writer is a stream operation that may not return (\<^verbatim>\<open>None\<close>). \<open>ebind\<close> is the idiom
  \<^verbatim>\<open>if (!f(...)) return false;\<close>.
\<close>

type_synonym eres = "(bool \<times> pb_ostream) option"

definition ebind :: "eres \<Rightarrow> (pb_ostream \<Rightarrow> eres) \<Rightarrow> eres" where
  "ebind r k = (case r of None \<Rightarrow> None | Some (ok, s) \<Rightarrow> if ok then k s else Some (False, s))"

text \<open>Whether \<open>n\<close> more bytes fit below \<^verbatim>\<open>max_size\<close>.\<close>

definition room :: "pb_ostream \<Rightarrow> nat \<Rightarrow> bool" where
  "room s n \<longleftrightarrow> unat (o_bytes_written s) + n \<le> unat (o_max_size s)"

text \<open>The buffer behind \<open>s\<close> was only extended, and by no more than it has room for.\<close>

definition within_room :: "pb_ostream \<Rightarrow> pb_ostream \<Rightarrow> bool" where
  "within_room s s' \<longleftrightarrow>
     (\<exists>p. o_state s' = o_state s @ p \<and> length p \<le> unat (o_max_size s) - unat (o_bytes_written s))"

definition counted :: "pb_ostream \<Rightarrow> nat \<Rightarrow> pb_ostream" where
  "counted s n = s\<lparr>o_bytes_written := o_bytes_written s + of_nat n\<rparr>"

text \<open>
  A stream over a memory buffer that has not been overfilled or failed. C objects are smaller
  than \<open>2\<^sup>6\<^sup>3\<close> bytes.
\<close>

definition buffer_ok :: "pb_ostream \<Rightarrow> bool" where
  "buffer_ok s \<longleftrightarrow> o_callback s = Ocb_buf_write \<and> o_bytes_written s \<le> o_max_size s \<and>
                 o_max_size s < 2 ^ 63 \<and> o_errmsg s = None"

text \<open>
  \<open>emits f bs\<close>: on a sizing stream \<open>f\<close> counts \<open>length bs\<close> bytes; on a buffer stream it
  appends \<open>bs\<close> if they fit and fails if they do not; it never writes past the end.
  \<open>rejects f\<close>: it fails on both, again without writing past the end.
\<close>

definition emits :: "(pb_ostream \<Rightarrow> eres) \<Rightarrow> u8 list \<Rightarrow> bool" where
  "emits f bs \<longleftrightarrow>
     (\<forall>s. o_callback s = Ocb_NULL \<longrightarrow> f s = Some (True, counted s (length bs))) \<and>
     (\<forall>s. buffer_ok s \<longrightarrow> room s (length bs) \<longrightarrow>
        f s = Some (True, (counted s (length bs))\<lparr>o_state := o_state s @ bs\<rparr>)) \<and>
     (\<forall>s. buffer_ok s \<longrightarrow> \<not> room s (length bs) \<longrightarrow>
        (\<exists>s'. f s = Some (False, s') \<and> within_room s s'))"

definition rejects :: "(pb_ostream \<Rightarrow> eres) \<Rightarrow> bool" where
  "rejects f \<longleftrightarrow>
     (\<forall>s. o_callback s = Ocb_NULL \<longrightarrow> (\<exists>s'. f s = Some (False, s'))) \<and>
     (\<forall>s. buffer_ok s \<longrightarrow> (\<exists>s'. f s = Some (False, s') \<and> within_room s s'))"

lemma within_room_refl [simp]: "o_state s' = o_state s \<Longrightarrow> within_room s s'"
  by (simp add: within_room_def)

lemma buffer_ok_room_0 [simp]: "buffer_ok s \<Longrightarrow> room s 0"
  by (simp add: buffer_ok_def room_def word_le_nat_alt)

lemma counted_simps [simp]:
  "o_callback (counted s n) = o_callback s"
  "o_state (counted s n) = o_state s"
  "o_max_size (counted s n) = o_max_size s"
  "o_errmsg (counted s n) = o_errmsg s"
  "o_bytes_written (counted s n) = o_bytes_written s + of_nat n"
  by (simp_all add: counted_def)

lemma counted_0 [simp]: "counted s 0 = s"
  by (simp add: counted_def)

lemma counted_counted: "counted (counted s a) b = counted s (a + b)"
  by (simp add: counted_def add.assoc)

lemma unat_written: "room s n \<Longrightarrow> unat (o_bytes_written s + of_nat n) = unat (o_bytes_written s) + n"
  using unat_bound [of "o_max_size s"]
  by (intro unat_add_of_nat) (simp add: room_def)

lemma room_appended:
  "room s a \<Longrightarrow> room ((counted s a)\<lparr>o_state := bs\<rparr>) b \<longleftrightarrow> room s (a + b)"
  using unat_written [of s a] by (simp add: room_def add.assoc)

lemma buffer_ok_appended:
  "buffer_ok s \<Longrightarrow> room s a \<Longrightarrow> buffer_ok ((counted s a)\<lparr>o_state := bs\<rparr>)"
  using unat_written [of s a] by (simp add: buffer_ok_def room_def word_le_nat_alt)

lemma within_room_appended:
  assumes "room s (length bs)"
    and "within_room ((counted s (length bs))\<lparr>o_state := o_state s @ bs\<rparr>) s'"
  shows "within_room s s'"
proof -
  from assms(2) obtain p where "o_state s' = o_state s @ bs @ p"
    and "length p \<le> unat (o_max_size s) - (unat (o_bytes_written s) + length bs)"
    using unat_written [OF assms(1)] by (auto simp: within_room_def)
  then show ?thesis using assms(1) unfolding within_room_def room_def
    by (intro exI [of _ "bs @ p"]) auto
qed

lemma emits_Nil [enc_rules]: "emits (\<lambda>s. Some (True, s)) []"
  by (auto simp: emits_def)

lemma emits_bind:
  assumes f: "emits f a" and g: "emits g b"
  shows "emits (\<lambda>s. ebind (f s) g) (a @ b)"
  unfolding emits_def
proof (intro conjI allI impI)
  fix s :: pb_ostream assume "o_callback s = Ocb_NULL"
  then show "ebind (f s) g = Some (True, counted s (length (a @ b)))"
    using f g by (simp add: emits_def ebind_def counted_counted)
next
  fix s :: pb_ostream assume s: "buffer_ok s" and r: "room s (length (a @ b))"
  then have ra: "room s (length a)" by (simp add: room_def)
  let ?s = "(counted s (length a))\<lparr>o_state := o_state s @ a\<rparr>"
  have "f s = Some (True, ?s)" using f s ra by (simp add: emits_def)
  moreover have "g ?s = Some (True, (counted ?s (length b))\<lparr>o_state := o_state ?s @ b\<rparr>)"
    using g buffer_ok_appended [OF s ra] room_appended [OF ra] r by (simp add: emits_def)
  ultimately show "ebind (f s) g =
      Some (True, (counted s (length (a @ b)))\<lparr>o_state := o_state s @ a @ b\<rparr>)"
    by (simp add: ebind_def counted_def add.assoc)
next
  fix s :: pb_ostream assume s: "buffer_ok s" and r: "\<not> room s (length (a @ b))"
  show "\<exists>s'. ebind (f s) g = Some (False, s') \<and> within_room s s'"
  proof (cases "room s (length a)")
    case True
    let ?s = "(counted s (length a))\<lparr>o_state := o_state s @ a\<rparr>"
    have "f s = Some (True, ?s)" using f s True by (simp add: emits_def)
    moreover obtain s' where "g ?s = Some (False, s')" "within_room ?s s'"
      using g buffer_ok_appended [OF s True] room_appended [OF True] r
      by (simp add: emits_def) blast
    ultimately show ?thesis using within_room_appended [OF True] by (auto simp: ebind_def)
  next
    case False
    then show ?thesis using f s by (auto simp: emits_def ebind_def)
  qed
qed

lemma rejects_bind1: "rejects f \<Longrightarrow> rejects (\<lambda>s. ebind (f s) g)"
  by (fastforce simp: rejects_def ebind_def)

lemma rejects_bind2:
  assumes f: "emits f a" and g: "rejects g"
  shows "rejects (\<lambda>s. ebind (f s) g)"
  unfolding rejects_def
proof (intro conjI allI impI)
  fix s :: pb_ostream assume s: "o_callback s = Ocb_NULL"
  then show "\<exists>s'. ebind (f s) g = Some (False, s')"
    using f g by (simp add: emits_def rejects_def ebind_def)
next
  fix s :: pb_ostream assume s: "buffer_ok s"
  show "\<exists>s'. ebind (f s) g = Some (False, s') \<and> within_room s s'"
  proof (cases "room s (length a)")
    case True
    let ?s = "(counted s (length a))\<lparr>o_state := o_state s @ a\<rparr>"
    have "f s = Some (True, ?s)" using f s True by (simp add: emits_def)
    moreover obtain s' where "g ?s = Some (False, s')" "within_room ?s s'"
      using g buffer_ok_appended [OF s True] unfolding rejects_def by blast
    ultimately show ?thesis using within_room_appended [OF True] by (auto simp: ebind_def)
  next
    case False
    then show ?thesis using f s by (auto simp: emits_def ebind_def)
  qed
qed

lemma rejects_error [enc_rules]: "rejects (\<lambda>s. Some (PB_RETURN_ERROR_o s msg))"
  by (simp add: rejects_def PB_RETURN_ERROR_o_def)

text \<open>\<^verbatim>\<open>pb_write\<close> checks the wrapped sum and the limit; together they are \<^const>\<open>room\<close>.\<close>

lemma write_check:
  fixes w c mx :: u64
  shows "(w + c < w \<or> w + c > mx) \<longleftrightarrow> \<not> unat w + unat c \<le> unat mx"
proof (cases "unat w + unat c < 2 ^ 64")
  case True
  then have "unat (w + c) = unat w + unat c" by (simp add: unat_add_no_wrap)
  then show ?thesis by (auto simp: word_less_nat_alt word_le_nat_alt)
next
  case False
  moreover have b: "unat w < 2 ^ 64" "unat c < 2 ^ 64" "unat mx < 2 ^ 64"
    using unat_bound [of w] unat_bound [of c] unat_bound [of mx] by simp_all
  moreover have "(unat w + unat c) mod 2 ^ 64 = unat w + unat c - 2 ^ 64"
    using False b by (simp add: le_mod_geq)
  ultimately show ?thesis by (auto simp: word_less_nat_alt unat_word_ariths)
qed

lemma emits_write [enc_rules]:
  assumes "length bs < 2 ^ 64"
  shows "emits (\<lambda>s. Some (pb_write env s bs (of_nat (length bs)))) bs"
proof -
  have len: "unat (of_nat (length bs) :: u64) = length bs"
    using assms by (simp add: unat_of_nat_lt)
  have zero: "(of_nat (length bs) :: u64) = 0 \<longleftrightarrow> bs = []"
    using len by (metis length_0_conv unat_eq_zero)
  show ?thesis
    using write_check [of _ "of_nat (length bs)"] len zero
    unfolding emits_def
    by (auto simp: pb_write_def counted_def ostream_callback_def buf_write_def room_def
        buffer_ok_def PB_RETURN_ERROR_o_def word_gt_0 word_le_nat_alt)
qed

subsection \<open>The wire format\<close>

text \<open>The base-128 varint of the protocol buffers format, least significant group first.\<close>

function varint :: "u64 \<Rightarrow> u8 list" where
  "varint v = (if v \<le> 0x7F then [ucast v]
               else (ucast (v AND 0x7F) OR 0x80) # varint (drop_bit 7 v))"
  by pat_completeness auto
termination
proof (relation "measure unat")
  fix v :: u64 assume "\<not> v \<le> 0x7F"
  then have "0 < unat v" by (simp add: word_le_nat_alt)
  then have "unat v div 128 < unat v" by simp
  then show "(drop_bit 7 v, v) \<in> measure unat" by (simp add: drop_bit_eq_div unat_div)
qed simp

declare varint.simps [simp del]

definition zigzag :: "u64 \<Rightarrow> u64" where
  "zigzag v = (if v <s 0 then NOT (push_bit 1 v) else push_bit 1 v)"

definition tag_bytes :: "u32 \<Rightarrow> u32 \<Rightarrow> u8 list" where
  "tag_bytes wiretype field_number = varint (push_bit 3 (ucast field_number) OR ucast wiretype)"

definition string_bytes :: "u8 list \<Rightarrow> u8 list" where
  "string_bytes bs = varint (of_nat (length bs)) @ bs"

lemma length_varint: "length (varint v) \<le> Suc (unat v)"
proof (induction v rule: varint.induct)
  case (1 v)
  show ?case
  proof (cases "v \<le> 0x7F")
    case True
    then show ?thesis by (simp add: varint.simps)
  next
    case False
    then have "unat (drop_bit 7 v) < unat v"
      by (simp add: drop_bit_eq_div unat_div word_le_nat_alt)
    with 1 False show ?thesis by (simp add: varint.simps [of v])
  qed
qed

lemma varint_not_Nil [simp]: "varint v \<noteq> []"
  by (subst varint.simps) simp

lemma length_varint_shift: "v < 2 ^ (7 * Suc k) \<Longrightarrow> 7 * Suc k < 64 \<Longrightarrow> length (varint v) \<le> Suc k"
proof (induction k arbitrary: v)
  case 0
  then have "unat v < 128" by (simp add: word_less_nat_alt)
  then have "v \<le> 0x7F" by (simp add: word_le_nat_alt)
  then show ?case by (simp add: varint.simps)
next
  case (Suc k)
  have "unat v < 2 ^ (7 * Suc (Suc k))"
    using Suc.prems by (simp add: word_less_nat_alt unat_exp)
  then have "unat v div 128 < 2 ^ (7 * Suc k)"
    by (simp add: less_mult_imp_div_less power_add)
  then have "drop_bit 7 v < 2 ^ (7 * Suc k)"
    using Suc.prems by (simp add: word_less_nat_alt drop_bit_eq_div unat_div unat_exp)
  then have "length (varint (drop_bit 7 v)) \<le> Suc k"
    using Suc.prems by (intro Suc.IH) auto
  then show ?case by (subst varint.simps) simp
qed

lemma varint_loop_not_Nil: "v \<noteq> 0 \<Longrightarrow> varint_loop v \<noteq> []"
  by (subst varint_loop.simps) simp

lemma varint_loop_varint:
  assumes "v \<noteq> 0"
  shows "(varint_loop v)[length (varint_loop v) - 1 := last (varint_loop v) AND 0x7F] = varint v"
  using assms
proof (induction v rule: varint.induct)
  case (1 v)
  show ?case
  proof (cases "v \<le> 0x7F")
    case True
    have "take_bit 7 v = v" using True by (intro take_bit_self) (simp add: word_le_nat_alt)
    then have "(ucast (v AND 0x7F) OR 0x80) AND 0x7F = (ucast v :: u8)"
      by (simp add: or_and_byte and_7F ucast_take_bit7)
    with True 1 show ?thesis
      by (simp add: varint_loop.simps [of v] varint_loop.simps [of 0] varint.simps drop_small)
  next
    case False
    then have nz: "drop_bit 7 v \<noteq> 0" by (rule drop_large)
    let ?r = "varint_loop (drop_bit 7 v)"
    have ne: "?r \<noteq> []" using nz by (rule varint_loop_not_Nil)
    have eq: "varint_loop v = (ucast (v AND 0x7F) OR 0x80) # ?r"
      using 1(2) by (simp add: varint_loop.simps [of v])
    have "(varint_loop v)[length (varint_loop v) - 1 := last (varint_loop v) AND 0x7F] =
        (ucast (v AND 0x7F) OR 0x80) # ?r[length ?r - 1 := last ?r AND 0x7F]"
      using ne by (cases ?r) (simp_all add: eq)
    then show ?thesis using "1.IH" [OF False nz] False by (simp add: varint.simps [of v])
  qed
qed

lemma length_varint_loop: "v \<noteq> 0 \<Longrightarrow> length (varint_loop v) = length (varint v)"
  by (metis varint_loop_varint length_list_update)

lemma length_varint_le_10: "length (varint v) \<le> 10"
proof -
  have "unat (drop_bit 7 v) < 2 ^ 63"
    using unat_bound [of v] by (simp add: drop_bit_eq_div unat_div)
  then have "drop_bit 7 v < 2 ^ (7 * Suc 8)"
    by (simp add: word_less_nat_alt)
  then have "length (varint (drop_bit 7 v)) \<le> Suc 8" by (rule length_varint_shift) simp
  then show ?thesis by (subst varint.simps) simp
qed

lemma emits_encode_varint [enc_rules]:
  "emits (\<lambda>s. Some (pb_encode_varint env s v)) (varint v)"
proof (cases "v \<le> 0x7F")
  case True
  then show ?thesis using emits_write [of "[ucast v]" env]
    by (simp add: pb_encode_varint_def varint.simps [of v])
next
  case False
  then have "v \<noteq> 0" by auto
  have "length (varint v) < 2 ^ 64" using length_varint_le_10 [of v] by simp
  then show ?thesis
    using False emits_write [of "varint v" env] varint_loop_varint [OF \<open>v \<noteq> 0\<close>]
      varint_loop_not_Nil [OF \<open>v \<noteq> 0\<close>]
    by (simp add: pb_encode_varint_def Let_def length_varint_loop [OF \<open>v \<noteq> 0\<close>] last_conv_nth)
qed

lemma emits_encode_svarint [enc_rules]:
  "emits (\<lambda>s. Some (pb_encode_svarint env s v)) (varint (zigzag v))"
  using emits_encode_varint by (simp add: pb_encode_svarint_def zigzag_def Let_def)

lemma emits_encode_tag [enc_rules]:
  "emits (\<lambda>s. Some (pb_encode_tag env s wt n)) (tag_bytes wt n)"
  using emits_encode_varint by (simp add: pb_encode_tag_def tag_bytes_def)

lemma ucast_and_FF: "ucast ((w :: 'a::len word) AND 0xFF) = (ucast w :: u8)"
proof -
  have "w AND 0xFF = take_bit 8 w" by (simp add: take_bit_eq_mask mask_eq_exp_minus_1)
  then show ?thesis by (intro bit_word_eqI) (auto simp: bit_unsigned_iff bit_take_bit_iff)
qed

lemma emits_encode_fixed32 [enc_rules]:
  "emits (\<lambda>s. Some (pb_encode_fixed32 env s v)) (to_le 4 v)"
proof -
  have "to_le 4 v = [ucast v, ucast (drop_bit 8 v), ucast (drop_bit 16 v), ucast (drop_bit 24 v)]"
    by (simp add: to_le_def upt_rec)
  then show ?thesis using emits_write [of "to_le 4 v" env]
    by (simp add: pb_encode_fixed32_def ucast_and_FF)
qed

lemma emits_encode_fixed64 [enc_rules]:
  "emits (\<lambda>s. Some (pb_encode_fixed64 env s v)) (to_le 8 v)"
proof -
  have "to_le 8 v = [ucast v, ucast (drop_bit 8 v), ucast (drop_bit 16 v), ucast (drop_bit 24 v),
      ucast (drop_bit 32 v), ucast (drop_bit 40 v), ucast (drop_bit 48 v), ucast (drop_bit 56 v)]"
    by (simp add: to_le_def upt_rec)
  then show ?thesis using emits_write [of "to_le 8 v" env]
    by (simp add: pb_encode_fixed64_def ucast_and_FF)
qed

lemma encode_string_bind:
  "Some (pb_encode_string env s bs n) =
   ebind (Some (pb_encode_varint env s n)) (\<lambda>s. Some (pb_write env s bs n))"
  by (simp add: pb_encode_string_def ebind_def split: prod.splits)

lemma emits_encode_string [enc_rules]:
  "length bs < 2 ^ 64 \<Longrightarrow>
   emits (\<lambda>s. Some (pb_encode_string env s bs (of_nat (length bs)))) (string_bytes bs)"
  unfolding encode_string_bind string_bytes_def
  by (intro emits_bind emits_encode_varint emits_write)

definition tag_for_field :: "pb_field \<Rightarrow> u8 list option" where
  "tag_for_field f = map_option (\<lambda>wt. tag_bytes wt (tag f)) (wire_type_of (ltype f))"

lemma emits_tag_for_field [enc_rules]:
  "tag_for_field f = Some bs \<Longrightarrow> emits (\<lambda>s. Some (pb_encode_tag_for_field env s f)) bs"
  using emits_encode_tag by (auto simp: tag_for_field_def pb_encode_tag_for_field_def)

lemma rejects_tag_for_field [enc_rules]:
  "tag_for_field f = None \<Longrightarrow> rejects (\<lambda>s. Some (pb_encode_tag_for_field env s f))"
  using rejects_error by (simp add: tag_for_field_def pb_encode_tag_for_field_def)

end
