(* ===== verification/Pb_Encode.thy ===== *)
theory Pb_Encode
  imports Pb_Ostream
begin

text \<open>
  The message encoder of \<^verbatim>\<open>nanopb/pb_encode.c\<close>. The message is read from memory \<open>m\<close>, which
  the encoder does not change. \<^verbatim>\<open>pb_encode\<close> calls itself through \<^verbatim>\<open>pb_enc_submessage\<close>: the
  functions in between take the recursive call as the parameter \<open>enc\<close>, and \<open>pb_encode\<close> ties
  the knot with a bound on the nesting depth (\<^verbatim>\<open>None\<close>: the bound was too small, or the code calls a
  null function pointer, and the call does not return).
\<close>

subsection \<open>Field encoders\<close>

text \<open>\<^verbatim>\<open>sizeof(bool)\<close> is 1, so the loop of \<^verbatim>\<open>safe_read_bool\<close> looks at one byte.\<close>

definition safe_read_bool :: "cmem \<Rightarrow> addr \<Rightarrow> bool" where
  "safe_read_bool m p = (load8 m p \<noteq> 0)"

definition pb_enc_bool :: "pb_env \<Rightarrow> cmem \<Rightarrow> pb_ostream \<Rightarrow> pb_field \<Rightarrow> addr \<Rightarrow> bool \<times> pb_ostream" where
  "pb_enc_bool env m s f src = pb_encode_varint env s (if safe_read_bool m src then 1 else 0)"

text \<open>The integer at \<open>src\<close> widened to 64 bits, with or without sign; \<^verbatim>\<open>None\<close>: no such width.\<close>

definition read_signed :: "cmem \<Rightarrow> u32 \<Rightarrow> addr \<Rightarrow> u64 option" where
  "read_signed m sz src =
     (if sz = 1 then Some (scast (load8 m src))
      else if sz = 2 then Some (scast (load16 m src))
      else if sz = 4 then Some (scast (load32 m src))
      else if sz = 8 then Some (load64 m src)
      else None)"

definition read_unsigned :: "cmem \<Rightarrow> u32 \<Rightarrow> addr \<Rightarrow> u64 option" where
  "read_unsigned m sz src =
     (if sz = 1 then Some (ucast (load8 m src))
      else if sz = 2 then Some (ucast (load16 m src))
      else if sz = 4 then Some (ucast (load32 m src))
      else if sz = 8 then Some (load64 m src)
      else None)"

definition pb_enc_varint :: "pb_env \<Rightarrow> cmem \<Rightarrow> pb_ostream \<Rightarrow> pb_field \<Rightarrow> addr \<Rightarrow> bool \<times> pb_ostream" where
  "pb_enc_varint env m s f src =
     (case read_signed m (data_size f) src of
        None \<Rightarrow> PB_RETURN_ERROR_o s ''invalid data_size''
      | Some v \<Rightarrow> pb_encode_varint env s v)"

definition pb_enc_uvarint :: "pb_env \<Rightarrow> cmem \<Rightarrow> pb_ostream \<Rightarrow> pb_field \<Rightarrow> addr \<Rightarrow> bool \<times> pb_ostream" where
  "pb_enc_uvarint env m s f src =
     (case read_unsigned m (data_size f) src of
        None \<Rightarrow> PB_RETURN_ERROR_o s ''invalid data_size''
      | Some v \<Rightarrow> pb_encode_varint env s v)"

definition pb_enc_svarint :: "pb_env \<Rightarrow> cmem \<Rightarrow> pb_ostream \<Rightarrow> pb_field \<Rightarrow> addr \<Rightarrow> bool \<times> pb_ostream" where
  "pb_enc_svarint env m s f src =
     (case read_signed m (data_size f) src of
        None \<Rightarrow> PB_RETURN_ERROR_o s ''invalid data_size''
      | Some v \<Rightarrow> pb_encode_svarint env s v)"

definition pb_enc_fixed32 :: "pb_env \<Rightarrow> cmem \<Rightarrow> pb_ostream \<Rightarrow> pb_field \<Rightarrow> addr \<Rightarrow> bool \<times> pb_ostream" where
  "pb_enc_fixed32 env m s f src = pb_encode_fixed32 env s (load32 m src)"

definition pb_enc_fixed64 :: "pb_env \<Rightarrow> cmem \<Rightarrow> pb_ostream \<Rightarrow> pb_field \<Rightarrow> addr \<Rightarrow> bool \<times> pb_ostream" where
  "pb_enc_fixed64 env m s f src = pb_encode_fixed64 env s (load64 m src)"

text \<open>\<^verbatim>\<open>pb_bytes_array_t\<close> is a 32-bit size followed by the bytes, so \<^verbatim>\<open>offsetof(..., bytes)\<close> is 4.\<close>

definition pb_enc_bytes :: "pb_env \<Rightarrow> cmem \<Rightarrow> pb_ostream \<Rightarrow> pb_field \<Rightarrow> addr \<Rightarrow> bool \<times> pb_ostream" where
  "pb_enc_bytes env m s f src =
     (if src = NULL then pb_encode_string env s [] 0
      else if atype f = PB_ATYPE_STATIC \<and> ucast (load32 m src) > (ucast (data_size f) - 4 :: u64)
      then PB_RETURN_ERROR_o s ''bytes size exceeded''
      else pb_encode_string env s (mload m (src + 4) (unat (load32 m src))) (ucast (load32 m src)))"

text \<open>The loop \<^verbatim>\<open>while (size < max_size && *p != 0)\<close>.\<close>

function strnlen_loop :: "cmem \<Rightarrow> addr \<Rightarrow> nat \<Rightarrow> nat \<Rightarrow> nat" where
  "strnlen_loop m p mx n =
     (if n < mx \<and> load8 m (p + int n) \<noteq> 0 then strnlen_loop m p mx (Suc n) else n)"
  by pat_completeness auto
termination
  by (relation "measure (\<lambda>(m, p, mx, n). mx - n)") auto

declare strnlen_loop.simps [simp del]

definition pb_enc_string :: "pb_env \<Rightarrow> cmem \<Rightarrow> pb_ostream \<Rightarrow> pb_field \<Rightarrow> addr \<Rightarrow> bool \<times> pb_ostream" where
  "pb_enc_string env m s f src =
     (let max_size = (if atype f = PB_ATYPE_POINTER then 2 ^ 64 - 1 else unat (data_size f));
          n = (if src = NULL then 0 else strnlen_loop m src max_size 0)
      in pb_encode_string env s (mload m src n) (of_nat n))"

definition pb_enc_fixed_length_bytes ::
  "pb_env \<Rightarrow> cmem \<Rightarrow> pb_ostream \<Rightarrow> pb_field \<Rightarrow> addr \<Rightarrow> bool \<times> pb_ostream" where
  "pb_enc_fixed_length_bytes env m s f src =
     pb_encode_string env s (mload m src (unat (data_size f))) (ucast (data_size f))"

subsection \<open>Submessages\<close>

type_synonym msg_encoder = "pb_ostream \<Rightarrow> addr \<Rightarrow> addr \<Rightarrow> eres"

definition pb_encode_submessage :: "pb_env \<Rightarrow> msg_encoder \<Rightarrow> pb_ostream \<Rightarrow> addr \<Rightarrow> addr \<Rightarrow> eres" where
  "pb_encode_submessage env enc s a src =
     (case enc PB_OSTREAM_SIZING a src of
        None \<Rightarrow> None
      | Some (ok, sub) \<Rightarrow>
          if \<not> ok then Some (False, s\<lparr>o_errmsg := o_errmsg sub\<rparr>)
          else
            let sz = o_bytes_written sub in
            ebind (Some (pb_encode_varint env s sz)) (\<lambda>s.
              if o_callback s = Ocb_NULL then Some (pb_write env s [] sz)
              else if o_bytes_written s + sz > o_max_size s
              then Some (PB_RETURN_ERROR_o s ''stream full'')
              else
                (case enc (sub\<lparr>o_callback := o_callback s, o_state := o_state s, o_max_size := sz,
                               o_bytes_written := 0, o_errmsg := None\<rparr>) a src of
                   None \<Rightarrow> None
                 | Some (status, sub') \<Rightarrow>
                     let s' = s\<lparr>o_bytes_written := o_bytes_written s + o_bytes_written sub',
                                o_state := o_state sub', o_errmsg := o_errmsg sub'\<rparr>
                     in if o_bytes_written sub' \<noteq> sz
                        then Some (PB_RETURN_ERROR_o s' ''submsg size changed'')
                        else Some (status, s'))))"

definition pb_enc_submessage ::
  "pb_env \<Rightarrow> msg_encoder \<Rightarrow> pb_ostream \<Rightarrow> pb_field \<Rightarrow> addr \<Rightarrow> eres" where
  "pb_enc_submessage env enc s f src =
     (if fptr f = NULL then Some (PB_RETURN_ERROR_o s ''invalid field descriptor'')
      else pb_encode_submessage env enc s (fptr f) src)"

text \<open>The table \<^verbatim>\<open>PB_ENCODERS\<close>, applied; extensions have no entry.\<close>

definition PB_ENCODERS ::
  "pb_env \<Rightarrow> cmem \<Rightarrow> msg_encoder \<Rightarrow> pb_ostream \<Rightarrow> pb_field \<Rightarrow> addr \<Rightarrow> eres" where
  "PB_ENCODERS env m enc s f src =
     (let lt = ltype f in
      if lt = PB_LTYPE_BOOL then Some (pb_enc_bool env m s f src)
      else if lt = PB_LTYPE_VARINT then Some (pb_enc_varint env m s f src)
      else if lt = PB_LTYPE_UVARINT then Some (pb_enc_uvarint env m s f src)
      else if lt = PB_LTYPE_SVARINT then Some (pb_enc_svarint env m s f src)
      else if lt = PB_LTYPE_FIXED32 then Some (pb_enc_fixed32 env m s f src)
      else if lt = PB_LTYPE_FIXED64 then Some (pb_enc_fixed64 env m s f src)
      else if lt = PB_LTYPE_BYTES then Some (pb_enc_bytes env m s f src)
      else if lt = PB_LTYPE_STRING then Some (pb_enc_string env m s f src)
      else if lt = PB_LTYPE_SUBMESSAGE then pb_enc_submessage env enc s f src
      else if lt = PB_LTYPE_FIXED_LENGTH_BYTES then Some (pb_enc_fixed_length_bytes env m s f src)
      else None)"

subsection \<open>Arrays\<close>

text \<open>The loop \<^verbatim>\<open>for (i = 0; i < count; i++) { ...; p += field->data_size; }\<close>.\<close>

fun encode_items :: "(pb_ostream \<Rightarrow> addr \<Rightarrow> eres) \<Rightarrow> int \<Rightarrow> nat \<Rightarrow> addr \<Rightarrow> pb_ostream \<Rightarrow> eres" where
  "encode_items g sz 0 p s = Some (True, s)"
| "encode_items g sz (Suc n) p s = ebind (g s p) (encode_items g sz n (p + sz))"

definition encode_array ::
  "pb_env \<Rightarrow> cmem \<Rightarrow> msg_encoder \<Rightarrow> pb_ostream \<Rightarrow> pb_field \<Rightarrow> addr \<Rightarrow> u32 \<Rightarrow> eres" where
  "encode_array env m enc s f p count =
     (let func = (\<lambda>s p. PB_ENCODERS env m enc s f p);
          items = (\<lambda>g. encode_items g (uint (data_size f)) (unat count) p)
      in
      if count = 0 then Some (True, s)
      else if atype f \<noteq> PB_ATYPE_POINTER \<and> count > array_size f
      then Some (PB_RETURN_ERROR_o s ''array max size exceeded'')
      else if ltype f \<le> PB_LTYPE_LAST_PACKABLE then
        ebind (Some (pb_encode_tag env s PB_WT_STRING (tag f))) (\<lambda>s.
          let sized = (if ltype f = PB_LTYPE_FIXED32 then Some (True, 4 * ucast count)
                       else if ltype f = PB_LTYPE_FIXED64 then Some (True, 8 * ucast count)
                       else map_option (\<lambda>(ok, z). (ok, o_bytes_written z)) (items func PB_OSTREAM_SIZING))
          in case sized of
               None \<Rightarrow> None
             | Some (ok, sz) \<Rightarrow>
                 if \<not> ok then Some (False, s)
                 else ebind (Some (pb_encode_varint env s sz)) (\<lambda>s.
                        if o_callback s = Ocb_NULL then Some (pb_write env s [] sz)
                        else items func s))
      else
        items (\<lambda>s p. ebind (Some (pb_encode_tag_for_field env s f)) (\<lambda>s.
                 func s (if atype f = PB_ATYPE_POINTER \<and>
                            (ltype f = PB_LTYPE_STRING \<or> ltype f = PB_LTYPE_BYTES)
                         then load_ptr m p else p))) s)"

subsection \<open>Single fields\<close>

fun pb_check_proto3_default_value :: "pb_env \<Rightarrow> cmem \<Rightarrow> nat \<Rightarrow> pb_field \<Rightarrow> addr \<Rightarrow> bool option" where
  "pb_check_proto3_default_value env m 0 f p = None"
| "pb_check_proto3_default_value env m (Suc n) f p =
     (let psize = p + sint (size_offset f) in
      if htype f = PB_HTYPE_REQUIRED then Some False
      else if htype f = PB_HTYPE_REPEATED \<and> size_offset f \<noteq> 0 then Some (load32 m psize = 0)
      else if htype f = PB_HTYPE_REPEATED \<and> atype f = PB_ATYPE_STATIC then Some False
      else if htype f = PB_HTYPE_ONEOF then Some (load32 m psize = 0)
      else if htype f = PB_HTYPE_OPTIONAL \<and> size_offset f \<noteq> 0 then Some (\<not> safe_read_bool m psize)
      else if atype f = PB_ATYPE_STATIC \<and> ltype f = PB_LTYPE_BYTES then Some (load32 m p = 0)
      else if atype f = PB_ATYPE_STATIC \<and> ltype f = PB_LTYPE_STRING then Some (load8 m p = 0)
      else if atype f = PB_ATYPE_STATIC \<and> ltype f = PB_LTYPE_FIXED_LENGTH_BYTES
      then Some (data_size f = 0)
      else if atype f = PB_ATYPE_STATIC \<and> ltype f = PB_LTYPE_SUBMESSAGE then
        (case pb_field_iter_begin env (fptr f) p of (nonempty, it) \<Rightarrow>
           if nonempty
           then pb_field_loop env (fptr f)
                  (\<lambda>it st. map_option (\<lambda>b. (b, b))
                     (pb_check_proto3_default_value env m n (iter_field env it) (pData it))) it True
           else Some True)
      else if atype f = PB_ATYPE_POINTER \<and> ltype f > PB_LTYPE_LAST_PACKABLE
      then Some (load_ptr m p = NULL)
      else Some (\<forall>b \<in> set (mload m p (unat (data_size f))). b = 0))"

definition encode_basic_field ::
  "pb_env \<Rightarrow> cmem \<Rightarrow> nat \<Rightarrow> msg_encoder \<Rightarrow> pb_ostream \<Rightarrow> pb_field \<Rightarrow> addr \<Rightarrow> eres" where
  "encode_basic_field env m n enc s f p =
     (let psize = p + sint (size_offset f);
          implicit = (if size_offset f \<noteq> 0 then Some True
                      else if htype f = PB_HTYPE_OPTIONAL
                      then map_option Not (pb_check_proto3_default_value env m n f p)
                      else Some True);
          ptr = (atype f = PB_ATYPE_POINTER);
          d = (if ptr then load_ptr m p else p);
          put = ebind (Some (pb_encode_tag_for_field env s f)) (\<lambda>s. PB_ENCODERS env m enc s f d)
      in case implicit of
           None \<Rightarrow> None
         | Some imp \<Rightarrow>
             let implicit_has = (if ptr then d \<noteq> NULL else imp) in
             if htype f = PB_HTYPE_REQUIRED then
               if d = NULL then Some (PB_RETURN_ERROR_o s ''missing required field'') else put
             else if htype f = PB_HTYPE_OPTIONAL then
               if (if size_offset f \<noteq> 0 then safe_read_bool m psize else implicit_has) then put
               else Some (True, s)
             else if htype f = PB_HTYPE_REPEATED then
               encode_array env m enc s f d (if size_offset f \<noteq> 0 then load32 m psize else array_size f)
             else if (if size_offset f \<noteq> 0 then load32 m psize else of_bool implicit_has) = tag f then put
             else Some (True, s))"

text \<open>\<^verbatim>\<open>pb_callback_t\<close> is the function pointer followed by \<^verbatim>\<open>arg\<close>, each 8 bytes wide.\<close>

definition encode_callback_field ::
  "pb_env \<Rightarrow> cmem \<Rightarrow> pb_ostream \<Rightarrow> pb_field \<Rightarrow> addr \<Rightarrow> bool \<times> pb_ostream" where
  "encode_callback_field env m s f p =
     (let fn = load_ptr m p in
      if fn \<noteq> NULL then
        (case fn_encode env fn m s f (p + 8) of (ok, s') \<Rightarrow>
           if \<not> ok then PB_RETURN_ERROR_o s' ''callback error'' else (True, s'))
      else (True, s))"

definition encode_field ::
  "pb_env \<Rightarrow> cmem \<Rightarrow> nat \<Rightarrow> msg_encoder \<Rightarrow> pb_ostream \<Rightarrow> pb_field \<Rightarrow> addr \<Rightarrow> eres" where
  "encode_field env m n enc s f p =
     (if atype f = PB_ATYPE_STATIC \<or> atype f = PB_ATYPE_POINTER then encode_basic_field env m n enc s f p
      else if atype f = PB_ATYPE_CALLBACK then Some (encode_callback_field env m s f p)
      else Some (PB_RETURN_ERROR_o s ''invalid field type''))"

text \<open>
  \<^verbatim>\<open>pb_extension_t\<close> holds \<^verbatim>\<open>type\<close>, \<^verbatim>\<open>dest\<close>, \<^verbatim>\<open>next\<close> and \<^verbatim>\<open>found\<close> at offsets 0, 8, 16, 24;
  \<^verbatim>\<open>pb_extension_type_t\<close> holds \<^verbatim>\<open>decode\<close>, \<^verbatim>\<open>encode\<close> and \<^verbatim>\<open>arg\<close> at 0, 8, 16.
\<close>

definition ext_type :: "cmem \<Rightarrow> addr \<Rightarrow> addr" where "ext_type m e = load_ptr m e"
definition ext_next :: "cmem \<Rightarrow> addr \<Rightarrow> addr" where "ext_next m e = load_ptr m (e + 16)"
definition ext_arg :: "cmem \<Rightarrow> addr \<Rightarrow> addr" where "ext_arg m e = load_ptr m (ext_type m e + 16)"

definition default_extension_encoder ::
  "pb_env \<Rightarrow> cmem \<Rightarrow> nat \<Rightarrow> msg_encoder \<Rightarrow> pb_ostream \<Rightarrow> addr \<Rightarrow> eres" where
  "default_extension_encoder env m n enc s e =
     (let f = field_at env (ext_arg m e) 0 in
      if atype f = PB_ATYPE_POINTER then encode_field env m n enc s f (e + 8)
      else encode_field env m n enc s f (load_ptr m (e + 8)))"

fun encode_extension_field ::
  "pb_env \<Rightarrow> cmem \<Rightarrow> nat \<Rightarrow> msg_encoder \<Rightarrow> nat \<Rightarrow> pb_ostream \<Rightarrow> addr \<Rightarrow> eres" where
  "encode_extension_field env m n enc 0 s e = None"
| "encode_extension_field env m n enc (Suc k) s e =
     (if e = NULL then Some (True, s)
      else
        ebind (let fn = load_ptr m (ext_type m e + 8) in
               if fn \<noteq> NULL then Some (fn_ext_encode env fn m s e)
               else default_extension_encoder env m n enc s e)
          (\<lambda>s. encode_extension_field env m n enc k s (ext_next m e)))"

subsection \<open>Whole messages\<close>

definition encode_one ::
  "pb_env \<Rightarrow> cmem \<Rightarrow> nat \<Rightarrow> msg_encoder \<Rightarrow> pb_field_iter \<Rightarrow> pb_ostream \<Rightarrow> eres" where
  "encode_one env m n enc it s =
     (if ltype (iter_field env it) = PB_LTYPE_EXTENSION
      then encode_extension_field env m n enc n s (load_ptr m (pData it))
      else encode_field env m n enc s (iter_field env it) (pData it))"

fun pb_encode :: "pb_env \<Rightarrow> cmem \<Rightarrow> nat \<Rightarrow> pb_ostream \<Rightarrow> addr \<Rightarrow> addr \<Rightarrow> eres" where
  "pb_encode env m 0 s a src = None"
| "pb_encode env m (Suc n) s a src =
     (case pb_field_iter_begin env a src of (nonempty, it) \<Rightarrow>
        if \<not> nonempty then Some (True, s)
        else pb_field_loop env a
               (\<lambda>it (ok, s). map_option (\<lambda>(ok, s). ((ok, s), ok))
                  (encode_one env m n (pb_encode env m n) it s)) it (True, s))"

definition pb_encode_delimited :: "pb_env \<Rightarrow> cmem \<Rightarrow> nat \<Rightarrow> pb_ostream \<Rightarrow> addr \<Rightarrow> addr \<Rightarrow> eres" where
  "pb_encode_delimited env m n s a src = pb_encode_submessage env (pb_encode env m n) s a src"

definition pb_encode_nullterminated :: "pb_env \<Rightarrow> cmem \<Rightarrow> nat \<Rightarrow> pb_ostream \<Rightarrow> addr \<Rightarrow> addr \<Rightarrow> eres" where
  "pb_encode_nullterminated env m n s a src =
     ebind (pb_encode env m n s a src) (\<lambda>s. Some (pb_write env s [0] 1))"

text \<open>The size on success, \<^verbatim>\<open>Some None\<close> on failure.\<close>

definition pb_get_encoded_size :: "pb_env \<Rightarrow> cmem \<Rightarrow> nat \<Rightarrow> addr \<Rightarrow> addr \<Rightarrow> u64 option option" where
  "pb_get_encoded_size env m n a src =
     (case pb_encode env m n PB_OSTREAM_SIZING a src of
        None \<Rightarrow> None
      | Some (ok, s) \<Rightarrow> Some (if ok then Some (o_bytes_written s) else None))"

end
