(* ===== verification/Pb_Wire.thy ===== *)
theory Pb_Wire
  imports Pb_Encode
begin

text \<open>
  What the encoder promises: the bytes of a message as a function of the message alone, without
  streams, sizes or substreams, and the refinement proof that \<^verbatim>\<open>pb_encode\<close> produces exactly these
  bytes on every stream (counts them on a sizing stream, stores them in a buffer that has room, fails
  on one that has not).

  A specification result is \<^verbatim>\<open>None\<close> where nothing is promised (application callbacks are involved,
  the depth bound is too small, the output reaches \<open>2\<^sup>6\<^sup>3\<close> bytes), \<open>Some None\<close> for an encoding
  error, \<open>Some (Some bs)\<close> for output \<open>bs\<close>.
\<close>

type_synonym sres = "u8 list option option"

definition s_ok :: "u8 list \<Rightarrow> sres" where
  "s_ok bs = (if length bs < 2 ^ 63 then Some (Some bs) else None)"

lemma s_ok_code [code]: "s_ok bs = (if int (length bs) < 9223372036854775808 then Some (Some bs) else None)"
  by (simp add: s_ok_def)

definition s_err :: sres where
  "s_err = Some None"

definition sseq :: "sres \<Rightarrow> sres \<Rightarrow> sres" where
  "sseq x y = (case x of
     None \<Rightarrow> None
   | Some None \<Rightarrow> Some None
   | Some (Some a) \<Rightarrow> (case y of None \<Rightarrow> None | Some None \<Rightarrow> Some None | Some (Some b) \<Rightarrow> s_ok (a @ b)))"

definition s_string :: "sres \<Rightarrow> sres" where
  "s_string r = (case r of Some (Some bs) \<Rightarrow> s_ok (string_bytes bs) | _ \<Rightarrow> r)"

definition s_opt :: "u8 list option \<Rightarrow> sres" where
  "s_opt r = (case r of None \<Rightarrow> s_err | Some bs \<Rightarrow> s_ok bs)"

subsection \<open>Specification of the encoder\<close>

definition string_length :: "cmem \<Rightarrow> pb_field \<Rightarrow> addr \<Rightarrow> nat" where
  "string_length m f src =
     (if src = NULL then 0
      else strnlen_loop m src (if atype f = PB_ATYPE_POINTER then 2 ^ 64 - 1 else unat (data_size f)) 0)"

definition spec_value :: "cmem \<Rightarrow> (addr \<Rightarrow> addr \<Rightarrow> sres) \<Rightarrow> pb_field \<Rightarrow> addr \<Rightarrow> sres" where
  "spec_value m sub f src =
     (let lt = ltype f in
      if lt = PB_LTYPE_BOOL then s_ok (varint (if safe_read_bool m src then 1 else 0))
      else if lt = PB_LTYPE_VARINT then s_opt (map_option varint (read_signed m (data_size f) src))
      else if lt = PB_LTYPE_UVARINT then s_opt (map_option varint (read_unsigned m (data_size f) src))
      else if lt = PB_LTYPE_SVARINT
      then s_opt (map_option (\<lambda>v. varint (zigzag v)) (read_signed m (data_size f) src))
      else if lt = PB_LTYPE_FIXED32 then s_ok (mload m src 4)
      else if lt = PB_LTYPE_FIXED64 then s_ok (mload m src 8)
      else if lt = PB_LTYPE_BYTES then
        if src = NULL then s_ok (string_bytes [])
        else if atype f = PB_ATYPE_STATIC \<and> ucast (load32 m src) > (ucast (data_size f) - 4 :: u64)
        then s_err
        else s_ok (string_bytes (mload m (src + 4) (unat (load32 m src))))
      else if lt = PB_LTYPE_STRING then s_ok (string_bytes (mload m src (string_length m f src)))
      else if lt = PB_LTYPE_SUBMESSAGE then
        if fptr f = NULL then s_err else s_string (sub (fptr f) src)
      else if lt = PB_LTYPE_FIXED_LENGTH_BYTES
      then s_ok (string_bytes (mload m src (unat (data_size f))))
      else None)"

fun spec_items :: "(addr \<Rightarrow> sres) \<Rightarrow> int \<Rightarrow> nat \<Rightarrow> addr \<Rightarrow> sres" where
  "spec_items g sz 0 p = s_ok []"
| "spec_items g sz (Suc n) p = sseq (g p) (spec_items g sz n (p + sz))"

definition spec_array :: "cmem \<Rightarrow> (addr \<Rightarrow> addr \<Rightarrow> sres) \<Rightarrow> pb_field \<Rightarrow> addr \<Rightarrow> u32 \<Rightarrow> sres" where
  "spec_array m sub f p count =
     (if count = 0 then s_ok []
      else if atype f \<noteq> PB_ATYPE_POINTER \<and> count > array_size f then s_err
      else if ltype f \<le> PB_LTYPE_LAST_PACKABLE
      then sseq (s_ok (tag_bytes PB_WT_STRING (tag f)))
             (s_string (spec_items (spec_value m sub f) (uint (data_size f)) (unat count) p))
      else spec_items (\<lambda>p. sseq (s_opt (tag_for_field f))
             (spec_value m sub f (if atype f = PB_ATYPE_POINTER \<and>
                                     (ltype f = PB_LTYPE_STRING \<or> ltype f = PB_LTYPE_BYTES)
                                  then load_ptr m p else p)))
             (uint (data_size f)) (unat count) p)"

text \<open>Whether the field is present: its has-flag, its oneof selector, or being non-default.\<close>

definition spec_basic_field ::
  "pb_env \<Rightarrow> cmem \<Rightarrow> nat \<Rightarrow> (addr \<Rightarrow> addr \<Rightarrow> sres) \<Rightarrow> pb_field \<Rightarrow> addr \<Rightarrow> sres" where
  "spec_basic_field env m n sub f p =
     (let psize = p + sint (size_offset f);
          implicit = (if size_offset f \<noteq> 0 then Some True
                      else if htype f = PB_HTYPE_OPTIONAL
                      then map_option Not (pb_check_proto3_default_value env m n f p)
                      else Some True);
          ptr = (atype f = PB_ATYPE_POINTER);
          d = (if ptr then load_ptr m p else p);
          put = sseq (s_opt (tag_for_field f)) (spec_value m sub f d)
      in case implicit of
           None \<Rightarrow> None
         | Some imp \<Rightarrow>
             let implicit_has = (if ptr then d \<noteq> NULL else imp) in
             if htype f = PB_HTYPE_REQUIRED then if d = NULL then s_err else put
             else if htype f = PB_HTYPE_OPTIONAL then
               if (if size_offset f \<noteq> 0 then safe_read_bool m psize else implicit_has) then put
               else s_ok []
             else if htype f = PB_HTYPE_REPEATED then
               spec_array m sub f d (if size_offset f \<noteq> 0 then load32 m psize else array_size f)
             else if (if size_offset f \<noteq> 0 then load32 m psize else of_bool implicit_has) = tag f then put
             else s_ok [])"

definition spec_field ::
  "pb_env \<Rightarrow> cmem \<Rightarrow> nat \<Rightarrow> (addr \<Rightarrow> addr \<Rightarrow> sres) \<Rightarrow> pb_field \<Rightarrow> addr \<Rightarrow> sres" where
  "spec_field env m n sub f p =
     (if atype f = PB_ATYPE_STATIC \<or> atype f = PB_ATYPE_POINTER then spec_basic_field env m n sub f p
      else if atype f = PB_ATYPE_CALLBACK then (if load_ptr m p = NULL then s_ok [] else None)
      else s_err)"

fun spec_extensions ::
  "pb_env \<Rightarrow> cmem \<Rightarrow> nat \<Rightarrow> (addr \<Rightarrow> addr \<Rightarrow> sres) \<Rightarrow> nat \<Rightarrow> addr \<Rightarrow> sres" where
  "spec_extensions env m n sub 0 e = None"
| "spec_extensions env m n sub (Suc k) e =
     (if e = NULL then s_ok []
      else if load_ptr m (ext_type m e + 8) \<noteq> NULL then None
      else let f = field_at env (ext_arg m e) 0
           in sseq (spec_field env m n sub f (if atype f = PB_ATYPE_POINTER then e + 8 else load_ptr m (e + 8)))
                (spec_extensions env m n sub k (ext_next m e)))"

definition spec_one ::
  "pb_env \<Rightarrow> cmem \<Rightarrow> nat \<Rightarrow> (addr \<Rightarrow> addr \<Rightarrow> sres) \<Rightarrow> pb_field_iter \<Rightarrow> sres" where
  "spec_one env m n sub it =
     (if ltype (iter_field env it) = PB_LTYPE_EXTENSION
      then spec_extensions env m n sub n (load_ptr m (pData it))
      else spec_field env m n sub (iter_field env it) (pData it))"

fun sconcat :: "sres list \<Rightarrow> sres" where
  "sconcat [] = s_ok []"
| "sconcat (r # rs) = sseq r (sconcat rs)"

text \<open>
  The bytes of the message of type \<open>a\<close> at \<open>src\<close>: its fields in descriptor order. Reading a
  message through a null pointer is undefined.
\<close>

fun spec_message :: "pb_env \<Rightarrow> cmem \<Rightarrow> nat \<Rightarrow> addr \<Rightarrow> addr \<Rightarrow> sres" where
  "spec_message env m 0 a src = None"
| "spec_message env m (Suc n) a src =
     (if src = NULL then None
      else sconcat (map (spec_one env m n (spec_message env m n))
                (map (iter_at env a src) [0..<length (fields_at env a)])))"

subsection \<open>Refinement\<close>

definition implements :: "(pb_ostream \<Rightarrow> eres) \<Rightarrow> sres \<Rightarrow> bool" where
  "implements f r = (case r of
     None \<Rightarrow> True
   | Some None \<Rightarrow> rejects f
   | Some (Some bs) \<Rightarrow> emits f bs \<and> length bs < 2 ^ 63)"

lemma implements_None [simp]: "implements f None"
  by (simp add: implements_def)

lemma implements_ok: "emits f bs \<Longrightarrow> implements f (s_ok bs)"
  by (simp add: implements_def s_ok_def)

lemma implements_err: "rejects f \<Longrightarrow> implements f s_err"
  by (simp add: implements_def s_err_def)

lemma implements_bind:
  assumes "implements f x" and "implements g y"
  shows "implements (\<lambda>s. ebind (f s) g) (sseq x y)"
  using assms
  by (auto simp: implements_def sseq_def s_ok_def split: option.splits
      intro: emits_bind rejects_bind1 rejects_bind2)

lemma implements_opt:
  "(\<And>bs. r = Some bs \<Longrightarrow> emits f bs) \<Longrightarrow> (r = None \<Longrightarrow> rejects f) \<Longrightarrow> implements f (s_opt r)"
  by (auto simp: s_opt_def intro: implements_ok implements_err split: option.splits)

lemma implements_if:
  "(b \<Longrightarrow> implements f x) \<Longrightarrow> (\<not> b \<Longrightarrow> implements g y) \<Longrightarrow>
   implements (\<lambda>s. if b then f s else g s) (if b then x else y)"
  by simp

lemma implements_tag_for_field:
  "implements (\<lambda>s. Some (pb_encode_tag_for_field env s f)) (s_opt (tag_for_field f))"
  by (intro implements_opt emits_tag_for_field rejects_tag_for_field)

lemma sizing_callback [simp]: "o_callback PB_OSTREAM_SIZING = Ocb_NULL"
  by (simp add: PB_OSTREAM_SIZING_def)

text \<open>A length prefix followed by data that a sizing pass has measured.\<close>

definition size_then :: "pb_env \<Rightarrow> u64 \<Rightarrow> (pb_ostream \<Rightarrow> eres) \<Rightarrow> pb_ostream \<Rightarrow> eres" where
  "size_then env sz g s =
     ebind (Some (pb_encode_varint env s sz)) (\<lambda>s.
       if o_callback s = Ocb_NULL then Some (pb_write env s [] sz) else g s)"

lemma write_sizing:
  "o_callback s = Ocb_NULL \<Longrightarrow> pb_write env s bs (of_nat n) = (True, counted s n)"
  by (simp add: pb_write_def counted_def)

lemma emits_size_then:
  assumes fits: "\<And>s. buffer_ok s \<Longrightarrow> room s (length bs) \<Longrightarrow>
      g s = Some (True, (counted s (length bs))\<lparr>o_state := o_state s @ bs\<rparr>)"
    and full: "\<And>s. buffer_ok s \<Longrightarrow> \<not> room s (length bs) \<Longrightarrow> \<exists>s'. g s = Some (False, s') \<and> within_room s s'"
  shows "emits (size_then env (of_nat (length bs)) g) (string_bytes bs)"
proof -
  have cb: "buffer_ok s \<Longrightarrow> o_callback s \<noteq> Ocb_NULL" for s by (simp add: buffer_ok_def)
  have "emits (\<lambda>s. if o_callback s = Ocb_NULL then Some (pb_write env s [] (of_nat (length bs))) else g s) bs"
    unfolding emits_def using fits full cb by (simp add: write_sizing)
  then show ?thesis
    unfolding size_then_def string_bytes_def by (intro emits_bind emits_encode_varint)
qed

lemma length_size_then: "emits g bs \<Longrightarrow> emits (size_then env (of_nat (length bs)) g) (string_bytes bs)"
  by (rule emits_size_then) (simp_all add: emits_def)

text \<open>The substream check of \<^verbatim>\<open>pb_encode_submessage\<close>: the second pass writes what the first counted.\<close>

definition submessage_data :: "msg_encoder \<Rightarrow> u64 \<Rightarrow> pb_ostream \<Rightarrow> addr \<Rightarrow> addr \<Rightarrow> pb_ostream \<Rightarrow> eres" where
  "submessage_data enc sz sub a src s =
     (if o_bytes_written s + sz > o_max_size s then Some (PB_RETURN_ERROR_o s ''stream full'')
      else
        (case enc (sub\<lparr>o_callback := o_callback s, o_state := o_state s, o_max_size := sz,
                       o_bytes_written := 0, o_errmsg := None\<rparr>) a src of
           None \<Rightarrow> None
         | Some (status, sub') \<Rightarrow>
             let s' = s\<lparr>o_bytes_written := o_bytes_written s + o_bytes_written sub',
                        o_state := o_state sub', o_errmsg := o_errmsg sub'\<rparr>
             in if o_bytes_written sub' \<noteq> sz
                then Some (PB_RETURN_ERROR_o s' ''submsg size changed'')
                else Some (status, s')))"

lemma encode_submessage_ok:
  "enc PB_OSTREAM_SIZING a src = Some (True, sub) \<Longrightarrow>
   pb_encode_submessage env enc s a src =
     size_then env (o_bytes_written sub) (submessage_data enc (o_bytes_written sub) sub a src) s"
  unfolding pb_encode_submessage_def size_then_def submessage_data_def Let_def by simp

lemma submessage_data_fits:
  assumes enc: "emits (\<lambda>s. enc s a src) bs" and len: "length bs < 2 ^ 63"
    and s: "buffer_ok s" and r: "room s (length bs)"
  shows "submessage_data enc (of_nat (length bs)) sub a src s =
         Some (True, (counted s (length bs))\<lparr>o_state := o_state s @ bs\<rparr>)"
proof -
  let ?sz = "of_nat (length bs) :: u64"
  let ?t = "sub\<lparr>o_callback := o_callback s, o_state := o_state s, o_max_size := ?sz,
               o_bytes_written := 0, o_errmsg := None\<rparr>"
  have sz: "unat ?sz = length bs" using len by (simp add: unat_of_nat_lt)
  have t: "buffer_ok ?t" "room ?t (length bs)"
    using s len sz by (simp_all add: buffer_ok_def room_def word_less_nat_alt)
  have "enc ?t a src = Some (True, (counted ?t (length bs))\<lparr>o_state := o_state ?t @ bs\<rparr>)"
    using enc t by (simp add: emits_def)
  moreover have "\<not> o_bytes_written s + ?sz > o_max_size s"
    using write_check [of "o_bytes_written s" ?sz "o_max_size s"] r sz by (simp add: room_def)
  ultimately show ?thesis using s
    by (simp add: submessage_data_def Let_def counted_def buffer_ok_def)
qed

lemma submessage_data_full:
  assumes len: "length bs < 2 ^ 63" and s: "buffer_ok s" and r: "\<not> room s (length bs)"
  shows "\<exists>s'. submessage_data enc (of_nat (length bs)) sub a src s = Some (False, s') \<and> within_room s s'"
proof -
  let ?sz = "of_nat (length bs) :: u64"
  have sz: "unat ?sz = length bs" using len by (simp add: unat_of_nat_lt)
  have "unat (o_bytes_written s) < 2 ^ 63"
    using s by (simp add: buffer_ok_def word_less_nat_alt word_le_nat_alt)
  then have "unat (o_bytes_written s + ?sz) = unat (o_bytes_written s) + length bs"
    using len sz by (subst unat_add_no_wrap) simp_all
  then have "o_bytes_written s + ?sz > o_max_size s"
    using r by (simp add: room_def word_less_nat_alt)
  then show ?thesis by (simp add: submessage_data_def PB_RETURN_ERROR_o_def)
qed

lemma implements_submessage:
  assumes enc: "implements (\<lambda>s. enc s a src) r"
  shows "implements (\<lambda>s. pb_encode_submessage env enc s a src) (s_string r)"
proof -
  note sizing = sizing_callback
  consider (none) "r = None" | (err) "r = Some None" | (ok) bs where "r = Some (Some bs)"
    by (metis option.exhaust)
  then show ?thesis
  proof cases
    case none
    then show ?thesis by (simp add: s_string_def)
  next
    case err
    then obtain sub where "enc PB_OSTREAM_SIZING a src = Some (False, sub)"
      using enc sizing unfolding implements_def rejects_def by fastforce
    with err show ?thesis
      by (simp add: s_string_def implements_def rejects_def pb_encode_submessage_def)
  next
    case ok
    then have e: "emits (\<lambda>s. enc s a src) bs" and len: "length bs < 2 ^ 63"
      using enc by (auto simp: implements_def)
    define sub where "sub = counted PB_OSTREAM_SIZING (length bs)"
    have one: "enc PB_OSTREAM_SIZING a src = Some (True, sub)"
      using e sizing by (simp add: emits_def sub_def)
    have "emits (size_then env (of_nat (length bs))
        (submessage_data enc (of_nat (length bs)) sub a src)) (string_bytes bs)"
      by (rule emits_size_then) (rule submessage_data_fits submessage_data_full; use e len in simp)+
    moreover have "o_bytes_written sub = of_nat (length bs)"
      by (simp add: sub_def PB_OSTREAM_SIZING_def)
    ultimately have "emits (\<lambda>s. pb_encode_submessage env enc s a src) (string_bytes bs)"
      using encode_submessage_ok [of enc a src sub env, OF one] by simp
    then show ?thesis using ok by (simp add: s_string_def implements_ok)
  qed
qed

subsubsection \<open>Field values\<close>

lemma strnlen_loop_le: "n \<le> mx \<Longrightarrow> strnlen_loop m p mx n \<le> mx"
proof (induction m p mx n rule: strnlen_loop.induct)
  case (1 m p mx n)
  then show ?case by (subst strnlen_loop.simps) auto
qed

lemma string_length_lt: "string_length m f src < 2 ^ 64"
proof -
  have "unat (data_size f) < 2 ^ 64" using unat_bound [of "data_size f"] by simp
  then show ?thesis
    using strnlen_loop_le [of 0 "2 ^ 64 - 1" m src] strnlen_loop_le [of 0 "unat (data_size f)" m src]
    by (auto simp: string_length_def)
qed

lemma enc_string_eq:
  "pb_enc_string env m s f src =
   pb_encode_string env s (mload m src (string_length m f src)) (of_nat (string_length m f src))"
  by (simp add: pb_enc_string_def string_length_def Let_def)

lemma emits_string_at:
  "n < 2 ^ 64 \<Longrightarrow> of_nat n = w \<Longrightarrow>
   emits (\<lambda>s. Some (pb_encode_string env s (mload m a n) w)) (string_bytes (mload m a n))"
  using emits_encode_string [of "mload m a n" env] by simp

lemma ucast_unat: "of_nat (unat (w :: u32)) = (ucast w :: u64)"
  by simp

lemma unat_lt_64: "unat (w :: u32) < 2 ^ 64"
  using unat_bound [of w] by simp

lemma implements_value:
  assumes sub: "\<And>a src. implements (\<lambda>s. enc s a src) (sub a src)"
  shows "implements (\<lambda>s. PB_ENCODERS env m enc s f src) (spec_value m sub f src)"
proof -
  have int: "implements (\<lambda>s. Some (case x of None \<Rightarrow> PB_RETURN_ERROR_o s msg | Some v \<Rightarrow> k s v))
      (s_opt (map_option b x))" if "\<And>v. emits (\<lambda>s. Some (k s v)) (b v)" for x msg k and b :: "u64 \<Rightarrow> u8 list"
    using that by (cases x) (auto intro!: implements_opt rejects_error)
  have fixed: "emits (\<lambda>s. Some (pb_encode_fixed32 env s (load32 m src))) (mload m src 4)"
    "emits (\<lambda>s. Some (pb_encode_fixed64 env s (load64 m src))) (mload m src 8)"
    using emits_encode_fixed32 [of env "load32 m src"] emits_encode_fixed64 [of env "load64 m src"]
    by (simp_all add: load32_def load64_def to_le_from_le)
  have nil: "emits (\<lambda>s. Some (pb_encode_string env s [] 0)) (string_bytes [])"
    using emits_encode_string [of "[]" env] by simp
  show ?thesis
    unfolding PB_ENCODERS_def spec_value_def Let_def pb_enc_bool_def pb_enc_varint_def
      pb_enc_uvarint_def pb_enc_svarint_def pb_enc_fixed32_def pb_enc_fixed64_def pb_enc_bytes_def
      enc_string_eq pb_enc_submessage_def pb_enc_fixed_length_bytes_def if_distrib [of Some]
    by (intro implements_if int implements_ok implements_err emits_encode_varint emits_encode_svarint
        fixed emits_string_at nil rejects_error string_length_lt
        unat_lt_64 ucast_unat implements_submessage sub implements_None refl)
qed

subsubsection \<open>Arrays and fields\<close>

lemma implements_items:
  assumes "\<And>p. implements (\<lambda>s. g s p) (h p)"
  shows "implements (encode_items g sz n p) (spec_items h sz n p)"
proof (induction n arbitrary: p)
  case 0
  have "encode_items g sz 0 p = (\<lambda>s. Some (True, s))" by (rule ext) simp
  then show ?case by (simp add: implements_ok emits_Nil)
next
  case (Suc n)
  have "encode_items g sz (Suc n) p = (\<lambda>s. ebind (g s p) (encode_items g sz n (p + sz)))"
    by (rule ext) simp
  then show ?case using implements_bind [OF assms Suc.IH] by simp
qed

lemma spec_items_length:
  assumes "\<And>p. \<exists>bs. g p = Some (Some bs) \<and> length bs = k" and "n * k < 2 ^ 63"
  shows "\<exists>bs. spec_items g sz n p = Some (Some bs) \<and> length bs = n * k"
  using assms(2)
proof (induction n arbitrary: p)
  case 0
  then show ?case by (simp add: s_ok_def)
next
  case (Suc n)
  obtain a where a: "g p = Some (Some a)" "length a = k" using assms(1) by blast
  obtain b where b: "spec_items g sz n (p + sz) = Some (Some b)" "length b = n * k"
    using Suc by fastforce
  show ?case using a b Suc.prems by (simp add: sseq_def s_ok_def)
qed

text \<open>The size computed for a packed array is the length of what the second loop writes.\<close>

definition packed_size :: "pb_field \<Rightarrow> u32 \<Rightarrow> (pb_ostream \<Rightarrow> eres) \<Rightarrow> (bool \<times> u64) option" where
  "packed_size f count items =
     (if ltype f = PB_LTYPE_FIXED32 then Some (True, 4 * ucast count)
      else if ltype f = PB_LTYPE_FIXED64 then Some (True, 8 * ucast count)
      else map_option (\<lambda>(ok, z). (ok, o_bytes_written z)) (items PB_OSTREAM_SIZING))"

lemma implements_sized:
  assumes items: "implements items r"
    and size: "\<And>bs. r = Some (Some bs) \<Longrightarrow> sized = Some (True, of_nat (length bs))"
    and fail: "r = Some None \<Longrightarrow> \<exists>z. sized = Some (False, z)"
  shows "implements (\<lambda>s. case sized of
            None \<Rightarrow> None
          | Some (ok, sz) \<Rightarrow> if \<not> ok then Some (False, s) else size_then env sz items s)
         (s_string r)"
proof -
  consider (none) "r = None" | (err) "r = Some None" | (ok) bs where "r = Some (Some bs)"
    by (metis option.exhaust)
  then show ?thesis
  proof cases
    case none
    then show ?thesis by (simp add: s_string_def)
  next
    case err
    then show ?thesis using fail by (auto simp: s_string_def implements_def rejects_def)
  next
    case ok
    then have "emits (size_then env (of_nat (length bs)) items) (string_bytes bs)"
      using items by (intro length_size_then) (simp add: implements_def)
    then show ?thesis using size [OF ok] ok by (simp add: s_string_def implements_ok)
  qed
qed

lemma packed_size_counts:
  assumes items: "implements items (spec_items (spec_value m sub f) sz (unat count) p)"
    and r: "spec_items (spec_value m sub f) sz (unat count) p = Some (Some bs)"
  shows "packed_size f count items = Some (True, of_nat (length bs))"
proof -
  have fixed: "length bs = unat count * k"
    if "\<And>q. \<exists>v. spec_value m sub f q = Some (Some v) \<and> length v = k" "k \<le> 8" for k
  proof -
    have "unat count * k < 2 ^ 63"
      using unat_bound [of count] mult_le_mono [of "unat count" "2 ^ 32" k 8] that(2) by simp
    from spec_items_length [of "spec_value m sub f" k "unat count" sz p, OF that(1) this]
    show ?thesis using r by simp
  qed
  have "ltype f = PB_LTYPE_FIXED32 \<Longrightarrow> length bs = unat count * 4"
    by (rule fixed) (simp_all add: spec_value_def ltype_defs s_ok_def)
  moreover have "ltype f = PB_LTYPE_FIXED64 \<Longrightarrow> length bs = unat count * 8"
    by (rule fixed) (simp_all add: spec_value_def ltype_defs s_ok_def)
  moreover have "items PB_OSTREAM_SIZING = Some (True, counted PB_OSTREAM_SIZING (length bs))"
    using items r by (simp add: implements_def emits_def PB_OSTREAM_SIZING_def)
  ultimately show ?thesis
    by (simp add: packed_size_def PB_OSTREAM_SIZING_def mult.commute)
qed

lemma packed_size_fails:
  assumes items: "implements items (spec_items (spec_value m sub f) sz (unat count) p)"
    and r: "spec_items (spec_value m sub f) sz (unat count) p = Some None"
  shows "\<exists>z. packed_size f count items = Some (False, z)"
proof -
  have fixed: False if "\<And>q. \<exists>v. spec_value m sub f q = Some (Some v) \<and> length v = k" "k \<le> 8" for k
  proof -
    have "unat count * k < 2 ^ 63"
      using unat_bound [of count] mult_le_mono [of "unat count" "2 ^ 32" k 8] that(2) by simp
    from spec_items_length [of "spec_value m sub f" k "unat count" sz p, OF that(1) this]
    show ?thesis using r by simp
  qed
  have "ltype f \<noteq> PB_LTYPE_FIXED32"
    by (rule notI, rule fixed [of 4]) (simp_all add: spec_value_def ltype_defs s_ok_def)
  moreover have "ltype f \<noteq> PB_LTYPE_FIXED64"
    by (rule notI, rule fixed [of 8]) (simp_all add: spec_value_def ltype_defs s_ok_def)
  moreover obtain z where "items PB_OSTREAM_SIZING = Some (False, z)"
    using items r sizing_callback unfolding implements_def rejects_def by fastforce
  ultimately show ?thesis by (simp add: packed_size_def)
qed

lemma implements_array:
  assumes sub: "\<And>a src. implements (\<lambda>s. enc s a src) (sub a src)"
  shows "implements (\<lambda>s. encode_array env m enc s f p count) (spec_array m sub f p count)"
proof -
  let ?items = "encode_items (\<lambda>s p. PB_ENCODERS env m enc s f p) (uint (data_size f)) (unat count) p"
  let ?r = "spec_items (spec_value m sub f) (uint (data_size f)) (unat count) p"
  have items: "implements ?items ?r" by (intro implements_items implements_value sub)
  have packed: "implements (\<lambda>s. case packed_size f count ?items of
        None \<Rightarrow> None
      | Some (ok, sz) \<Rightarrow> if \<not> ok then Some (False, s) else size_then env sz ?items s) (s_string ?r)"
    by (rule implements_sized [OF items packed_size_counts [OF items] packed_size_fails [OF items]])
  show ?thesis
    unfolding encode_array_def spec_array_def Let_def
    unfolding packed_size_def [symmetric] size_then_def [symmetric]
    by (intro implements_if implements_ok implements_err emits_Nil rejects_error implements_bind
        emits_encode_tag packed implements_items implements_tag_for_field implements_value sub)
qed

lemma implements_case_option:
  "(\<And>v. x = Some v \<Longrightarrow> implements (\<lambda>s. f s v) (r v)) \<Longrightarrow>
   implements (\<lambda>s. case x of None \<Rightarrow> None | Some v \<Rightarrow> f s v) (case x of None \<Rightarrow> None | Some v \<Rightarrow> r v)"
  by (cases x) simp_all

lemma implements_basic_field:
  assumes sub: "\<And>a src. implements (\<lambda>s. enc s a src) (sub a src)"
  shows "implements (\<lambda>s. encode_basic_field env m n enc s f p) (spec_basic_field env m n sub f p)"
  unfolding encode_basic_field_def spec_basic_field_def Let_def
  by (intro implements_case_option implements_if implements_ok implements_err emits_Nil rejects_error
      implements_bind implements_tag_for_field implements_value implements_array sub)

lemma implements_field:
  assumes sub: "\<And>a src. implements (\<lambda>s. enc s a src) (sub a src)"
  shows "implements (\<lambda>s. encode_field env m n enc s f p) (spec_field env m n sub f p)"
proof -
  have cb: "implements (\<lambda>s. Some (encode_callback_field env m s f p))
      (if load_ptr m p = NULL then s_ok [] else None)"
    using implements_ok [OF emits_Nil] by (simp add: encode_callback_field_def)
  show ?thesis
    unfolding encode_field_def spec_field_def
    by (intro implements_if implements_basic_field sub cb implements_err rejects_error)
qed

lemma implements_extensions:
  assumes sub: "\<And>a src. implements (\<lambda>s. enc s a src) (sub a src)"
  shows "implements (\<lambda>s. encode_extension_field env m n enc k s e) (spec_extensions env m n sub k e)"
proof (induction k arbitrary: e)
  case 0
  then show ?case by simp
next
  case (Suc k)
  let ?f = "field_at env (ext_arg m e) 0"
  have "implements (\<lambda>s. default_extension_encoder env m n enc s e)
      (spec_field env m n sub ?f (if atype ?f = PB_ATYPE_POINTER then e + 8 else load_ptr m (e + 8)))"
    using implements_field [OF sub] by (simp add: default_extension_encoder_def Let_def)
  from implements_bind [OF this Suc.IH [of "ext_next m e"]] show ?case
    using implements_ok [OF emits_Nil] by (simp add: Let_def)
qed

lemma implements_one:
  assumes sub: "\<And>a src. implements (\<lambda>s. enc s a src) (sub a src)"
  shows "implements (\<lambda>s. encode_one env m n enc it s) (spec_one env m n sub it)"
  unfolding encode_one_def spec_one_def
  by (intro implements_if implements_extensions implements_field sub)

subsubsection \<open>Messages\<close>

definition encode_body ::
  "pb_env \<Rightarrow> cmem \<Rightarrow> nat \<Rightarrow> pb_field_iter \<Rightarrow> bool \<times> pb_ostream \<Rightarrow> ((bool \<times> pb_ostream) \<times> bool) option" where
  "encode_body env m n it =
     (\<lambda>(ok, s). map_option (\<lambda>(ok, s). ((ok, s), ok)) (encode_one env m n (pb_encode env m n) it s))"

lemma implements_visit:
  assumes "\<And>i s. body i (True, s) = map_option (\<lambda>(ok, s). ((ok, s), ok)) (g i s)"
    and "\<And>i. i \<in> set is \<Longrightarrow> implements (g i) (h i)"
  shows "implements (\<lambda>s. visit body is (True, s)) (sconcat (map h is))"
  using assms(2)
proof (induction "is")
  case Nil
  then show ?case by (simp add: implements_ok emits_Nil)
next
  case (Cons i "is")
  have "visit body (i # is) (True, s) = ebind (g i s) (\<lambda>s. visit body is (True, s))" for s
    by (auto simp: assms(1) ebind_def split: option.splits)
  then show ?case using Cons by (simp add: implements_bind)
qed

lemma encode_as_visit:
  assumes "wf_fields (fields_at env a)" and "src \<noteq> NULL"
  shows "pb_encode env m (Suc n) s a src =
         visit (encode_body env m n) (map (iter_at env a src) [0..<length (fields_at env a)]) (True, s)"
proof (cases "fields_at env a = []")
  case True
  then show ?thesis using begin_empty [OF True, of src]
    by (cases "pb_field_iter_begin env a src") simp
next
  case False
  then show ?thesis using assms
    by (simp add: begin_eq encode_body_def [abs_def] pb_field_loop_visits)
qed

lemma implements_message:
  assumes wf: "wf_env env"
  shows "implements (\<lambda>s. pb_encode env m n s a src) (spec_message env m n a src)"
proof (induction n arbitrary: a src)
  case 0
  then show ?case by simp
next
  case (Suc n)
  show ?case
  proof (cases "src = NULL")
    case True
    then show ?thesis by simp
  next
    case False
    have "implements (\<lambda>s. visit (encode_body env m n)
           (map (iter_at env a src) [0..<length (fields_at env a)]) (True, s))
        (sconcat (map (spec_one env m n (spec_message env m n))
           (map (iter_at env a src) [0..<length (fields_at env a)])))"
      by (rule implements_visit [where g = "encode_one env m n (pb_encode env m n)"])
         (simp_all add: encode_body_def implements_one Suc.IH)
    then show ?thesis
      using wf False encode_as_visit [of env a src m n] by (simp add: wf_env_def)
  qed
qed

end
