(* ===== verification/Pb_Istream.thy ===== *)
theory Pb_Istream
  imports Pb_Ostream
begin

text \<open>
  Input streams and the wire-level helpers of \<^verbatim>\<open>nanopb/pb_decode.c\<close>: \<^verbatim>\<open>pb_read\<close>, varints,
  tags, skipping, substreams and fixed-width integers. A read returns the bytes it stores in the
  caller's buffer; the value that comes with a failing call is never stored.
\<close>

definition buf_read :: "pb_istream \<Rightarrow> nat \<Rightarrow> bool \<times> u8 list \<times> pb_istream" where
  "buf_read s count = (True, take count (i_state s), s\<lparr>i_state := drop count (i_state s)\<rparr>)"

text \<open>The call \<^verbatim>\<open>stream->callback(stream, buf, count)\<close>.\<close>

definition istream_callback :: "pb_env \<Rightarrow> pb_istream \<Rightarrow> nat \<Rightarrow> bool \<times> u8 list \<times> pb_istream" where
  "istream_callback env s count =
     (case i_callback s of
        Icb_buf_read \<Rightarrow> buf_read s count
      | Icb_user f \<Rightarrow> (case fn_read env f (i_state s) count of (ok, bs, st) \<Rightarrow>
                        (ok, bs, s\<lparr>i_state := st\<rparr>)))"

text \<open>\<^verbatim>\<open>pb_read\<close> from the length check on: the case of a buffer, or of skipping with \<^verbatim>\<open>buf_read\<close>.\<close>

definition pb_read_direct :: "pb_env \<Rightarrow> pb_istream \<Rightarrow> nat \<Rightarrow> bool \<times> u8 list \<times> pb_istream" where
  "pb_read_direct env s count =
     (if count = 0 then (True, [], s)
      else if i_bytes_left s < count then (False, [], PB_SET_ERROR_i s ''end-of-stream'')
      else (case istream_callback env s count of (ok, bs, s') \<Rightarrow>
              if \<not> ok then (False, bs, PB_SET_ERROR_i s' ''io error'')
              else (True, bs, s'\<lparr>i_bytes_left := i_bytes_left s' - count\<rparr>)))"

text \<open>The loop that skips input of a custom stream 16 bytes at a time.\<close>

fun pb_read_skip :: "pb_env \<Rightarrow> pb_istream \<Rightarrow> nat \<Rightarrow> bool \<times> pb_istream" where
  "pb_read_skip env s count =
     (if count > 16
      then (case pb_read_direct env s 16 of (ok, bs, s') \<Rightarrow>
              if \<not> ok then (False, s') else pb_read_skip env s' (count - 16))
      else (case pb_read_direct env s count of (ok, bs, s') \<Rightarrow> (ok, s')))"

declare pb_read_skip.simps [simp del]

definition pb_read :: "pb_env \<Rightarrow> pb_istream \<Rightarrow> nat \<Rightarrow> bool \<times> u8 list \<times> pb_istream" where
  "pb_read env s count = pb_read_direct env s count"

text \<open>\<^verbatim>\<open>pb_read(stream, NULL, count)\<close>.\<close>

definition pb_read_null :: "pb_env \<Rightarrow> pb_istream \<Rightarrow> nat \<Rightarrow> bool \<times> pb_istream" where
  "pb_read_null env s count =
     (if count = 0 then (True, s)
      else if i_callback s \<noteq> Icb_buf_read then pb_read_skip env s count
      else (case pb_read_direct env s count of (ok, bs, s') \<Rightarrow> (ok, s')))"

definition pb_readbyte :: "pb_env \<Rightarrow> pb_istream \<Rightarrow> bool \<times> u8 \<times> pb_istream" where
  "pb_readbyte env s =
     (if i_bytes_left s = 0 then (False, 0, PB_SET_ERROR_i s ''end-of-stream'')
      else (case istream_callback env s 1 of (ok, bs, s') \<Rightarrow>
              if \<not> ok then (False, 0, PB_SET_ERROR_i s' ''io error'')
              else (True, (case bs of [] \<Rightarrow> 0 | b # _ \<Rightarrow> b),
                    s'\<lparr>i_bytes_left := i_bytes_left s' - 1\<rparr>)))"

definition pb_istream_from_buffer :: "u8 list \<Rightarrow> nat \<Rightarrow> pb_istream" where
  "pb_istream_from_buffer buf bufsize =
     \<lparr>i_callback = Icb_buf_read, i_state = buf, i_bytes_left = bufsize, i_errmsg = None\<rparr>"

lemma callback_bytes_left: "istream_callback env s n = (ok, bs, s') \<Longrightarrow> i_bytes_left s' = i_bytes_left s"
  by (auto simp: istream_callback_def buf_read_def split: pb_icallback.splits prod.splits)

lemma readbyte_left: "pb_readbyte env s = (True, b, s') \<Longrightarrow> Suc (i_bytes_left s') = i_bytes_left s"
  by (auto simp: pb_readbyte_def callback_bytes_left split: if_splits prod.splits)

lemma read_left: "pb_read env s n = (True, bs, s') \<Longrightarrow> i_bytes_left s = i_bytes_left s' + n"
  by (auto simp: pb_read_def pb_read_direct_def callback_bytes_left split: if_splits prod.splits)

subsection \<open>Varints\<close>

text \<open>
  The loop of \<^verbatim>\<open>pb_decode_varint32_eof\<close>. \<^verbatim>\<open>bitpos\<close> is a \<^verbatim>\<open>uint_fast8_t\<close>, eight bits wide on the
  target, so it wraps around on very long encodings.
\<close>

function varint32_loop :: "pb_env \<Rightarrow> pb_istream \<Rightarrow> u8 \<Rightarrow> u32 \<Rightarrow> bool \<times> u32 \<times> pb_istream" where
  "varint32_loop env s bitpos result =
     (case pb_readbyte env s of (ok, byte, s') \<Rightarrow>
        if \<not> ok then (False, result, s')
        else if bitpos \<ge> 32 \<and> byte AND 0x7F \<noteq> 0 \<and>
                (drop_bit 31 result = 0 \<or> byte \<noteq> (if bitpos < 63 then 0xFF else 0x01))
        then (False, result, PB_SET_ERROR_i s' ''varint overflow'')
        else
          let result' = (if bitpos \<ge> 32 then result
                         else result OR push_bit (unat bitpos) (ucast (byte AND 0x7F)));
              bitpos' = bitpos + 7
          in if byte AND 0x80 \<noteq> 0 then varint32_loop env s' bitpos' result'
             else if bitpos' = 35 \<and> byte AND 0x70 \<noteq> 0
             then (False, result', PB_SET_ERROR_i s' ''varint overflow'')
             else (True, result', s'))"
  by pat_completeness auto
termination
  by (relation "measure (\<lambda>(env, s, b, r). i_bytes_left s)")
     (auto dest!: sym [of _ "pb_readbyte _ _"] readbyte_left)

declare varint32_loop.simps [simp del]

text \<open>The result is \<open>(ok, *dest, *eof, stream)\<close>; \<open>*eof\<close> is only ever set to true.\<close>

definition pb_decode_varint32_eof :: "pb_env \<Rightarrow> pb_istream \<Rightarrow> bool \<times> u32 \<times> bool \<times> pb_istream" where
  "pb_decode_varint32_eof env s =
     (case pb_readbyte env s of (ok, byte, s') \<Rightarrow>
        if \<not> ok then (False, 0, i_bytes_left s' = 0, s')
        else if byte AND 0x80 = 0 then (True, ucast byte, False, s')
        else (case varint32_loop env s' 7 (ucast (byte AND 0x7F)) of (ok, v, s'') \<Rightarrow> (ok, v, False, s'')))"

definition pb_decode_varint32 :: "pb_env \<Rightarrow> pb_istream \<Rightarrow> bool \<times> u32 \<times> pb_istream" where
  "pb_decode_varint32 env s =
     (case pb_decode_varint32_eof env s of (ok, v, eof, s') \<Rightarrow> (ok, v, s'))"

function varint_dec_loop :: "pb_env \<Rightarrow> pb_istream \<Rightarrow> u8 \<Rightarrow> u64 \<Rightarrow> bool \<times> u64 \<times> pb_istream" where
  "varint_dec_loop env s bitpos result =
     (if bitpos \<ge> 64 then (False, result, PB_SET_ERROR_i s ''varint overflow'')
      else (case pb_readbyte env s of (ok, byte, s') \<Rightarrow>
        if \<not> ok then (False, result, s')
        else
          let result' = result OR push_bit (unat bitpos) (ucast (byte AND 0x7F))
          in if byte AND 0x80 \<noteq> 0 then varint_dec_loop env s' (bitpos + 7) result'
             else (True, result', s')))"
  by pat_completeness auto
termination
  by (relation "measure (\<lambda>(env, s, b, r). i_bytes_left s)")
     (auto dest!: sym [of _ "pb_readbyte _ _"] readbyte_left)

declare varint_dec_loop.simps [simp del]

definition pb_decode_varint :: "pb_env \<Rightarrow> pb_istream \<Rightarrow> bool \<times> u64 \<times> pb_istream" where
  "pb_decode_varint env s = varint_dec_loop env s 0 0"

definition pb_decode_svarint :: "pb_env \<Rightarrow> pb_istream \<Rightarrow> bool \<times> u64 \<times> pb_istream" where
  "pb_decode_svarint env s =
     (case pb_decode_varint env s of (ok, v, s') \<Rightarrow>
        if \<not> ok then (False, 0, s')
        else (True, if v AND 1 \<noteq> 0 then NOT (drop_bit 1 v) else drop_bit 1 v, s'))"

subsection \<open>Tags and skipping\<close>

function pb_skip_varint :: "pb_env \<Rightarrow> pb_istream \<Rightarrow> bool \<times> pb_istream" where
  "pb_skip_varint env s =
     (case pb_read env s 1 of (ok, bs, s') \<Rightarrow>
        if \<not> ok then (False, s')
        else if (case bs of [] \<Rightarrow> 0 | b # _ \<Rightarrow> b) AND 0x80 \<noteq> 0 then pb_skip_varint env s'
        else (True, s'))"
  by pat_completeness auto
termination
  by (relation "measure (\<lambda>(env, s). i_bytes_left s)")
     (auto dest!: sym [of _ "pb_read _ _ _"] read_left)

declare pb_skip_varint.simps [simp del]

definition pb_skip_string :: "pb_env \<Rightarrow> pb_istream \<Rightarrow> bool \<times> pb_istream" where
  "pb_skip_string env s =
     (case pb_decode_varint32 env s of (ok, len, s') \<Rightarrow>
        if \<not> ok then (False, s') else pb_read_null env s' (unat len))"

text \<open>The result is \<open>(ok, *wire_type, *tag, *eof, stream)\<close>.\<close>

definition pb_decode_tag :: "pb_env \<Rightarrow> pb_istream \<Rightarrow> bool \<times> u32 \<times> u32 \<times> bool \<times> pb_istream" where
  "pb_decode_tag env s =
     (case pb_decode_varint32_eof env s of (ok, temp, eof, s') \<Rightarrow>
        if \<not> ok then (False, 0, 0, eof, s')
        else if temp = 0 then (False, 0, 0, True, s')
        else (True, temp AND 7, drop_bit 3 temp, False, s'))"

definition pb_skip_field :: "pb_env \<Rightarrow> pb_istream \<Rightarrow> u32 \<Rightarrow> bool \<times> pb_istream" where
  "pb_skip_field env s wire_type =
     (if wire_type = PB_WT_VARINT then pb_skip_varint env s
      else if wire_type = PB_WT_64BIT then pb_read_null env s 8
      else if wire_type = PB_WT_STRING then pb_skip_string env s
      else if wire_type = PB_WT_32BIT then pb_read_null env s 4
      else PB_RETURN_ERROR_i s ''invalid wire_type'')"

text \<open>
  The varint case of \<^verbatim>\<open>read_raw_value\<close>: \<open>acc\<close> is what the buffer holds, at most \<open>mx\<close> bytes. On
  return the buffer content is the raw value, whose length is the new \<^verbatim>\<open>*size\<close>.
\<close>

function read_raw_varint :: "pb_env \<Rightarrow> pb_istream \<Rightarrow> nat \<Rightarrow> u8 list \<Rightarrow> bool \<times> u8 list \<times> pb_istream" where
  "read_raw_varint env s mx acc =
     (if Suc (length acc) > mx then (False, acc, s)
      else (case pb_read env s 1 of (ok, bs, s') \<Rightarrow>
        if \<not> ok then (False, acc, s')
        else let b = (case bs of [] \<Rightarrow> 0 | b # _ \<Rightarrow> b) in
          if b AND 0x80 \<noteq> 0 then read_raw_varint env s' mx (acc @ [b]) else (True, acc @ [b], s')))"
  by pat_completeness auto
termination
  by (relation "measure (\<lambda>(env, s, mx, acc). mx - length acc)") auto

declare read_raw_varint.simps [simp del]

definition read_raw_value :: "pb_env \<Rightarrow> pb_istream \<Rightarrow> u32 \<Rightarrow> nat \<Rightarrow> bool \<times> u8 list \<times> pb_istream" where
  "read_raw_value env s wire_type max_size =
     (if wire_type = PB_WT_VARINT then read_raw_varint env s max_size []
      else if wire_type = PB_WT_64BIT then pb_read env s 8
      else if wire_type = PB_WT_32BIT then pb_read env s 4
      else (False, [], PB_SET_ERROR_i s ''invalid wire_type''))"

subsection \<open>Substreams\<close>

text \<open>The result is \<open>(ok, stream, substream)\<close>.\<close>

definition pb_make_string_substream :: "pb_env \<Rightarrow> pb_istream \<Rightarrow> bool \<times> pb_istream \<times> pb_istream" where
  "pb_make_string_substream env s =
     (case pb_decode_varint32 env s of (ok, len, s') \<Rightarrow>
        if \<not> ok then (False, s', s')
        else if i_bytes_left s' < unat len
        then (False, PB_SET_ERROR_i s' ''parent stream too short'', s')
        else (True, s'\<lparr>i_bytes_left := i_bytes_left s' - unat len\<rparr>, s'\<lparr>i_bytes_left := unat len\<rparr>))"

definition pb_close_string_substream :: "pb_env \<Rightarrow> pb_istream \<Rightarrow> pb_istream \<Rightarrow> bool \<times> pb_istream" where
  "pb_close_string_substream env s sub =
     (case (if i_bytes_left sub \<noteq> 0 then pb_read_null env sub (i_bytes_left sub) else (True, sub)) of
        (ok, sub') \<Rightarrow>
          if \<not> ok then (False, s)
          else (True, s\<lparr>i_state := i_state sub', i_errmsg := i_errmsg sub'\<rparr>))"

subsection \<open>Fixed-width integers\<close>

definition pb_decode_fixed32 :: "pb_env \<Rightarrow> pb_istream \<Rightarrow> bool \<times> u32 \<times> pb_istream" where
  "pb_decode_fixed32 env s =
     (case pb_read env s 4 of (ok, bs, s') \<Rightarrow>
        if \<not> ok then (False, 0, s')
        else (True, push_bit 0 (ucast (bs ! 0)) OR push_bit 8 (ucast (bs ! 1)) OR
             push_bit 16 (ucast (bs ! 2)) OR push_bit 24 (ucast (bs ! 3)), s'))"

definition pb_decode_fixed64 :: "pb_env \<Rightarrow> pb_istream \<Rightarrow> bool \<times> u64 \<times> pb_istream" where
  "pb_decode_fixed64 env s =
     (case pb_read env s 8 of (ok, bs, s') \<Rightarrow>
        if \<not> ok then (False, 0, s')
        else (True, push_bit 0 (ucast (bs ! 0)) OR push_bit 8 (ucast (bs ! 1)) OR
             push_bit 16 (ucast (bs ! 2)) OR push_bit 24 (ucast (bs ! 3)) OR
             push_bit 32 (ucast (bs ! 4)) OR push_bit 40 (ucast (bs ! 5)) OR
             push_bit 48 (ucast (bs ! 6)) OR push_bit 56 (ucast (bs ! 7)), s'))"

subsection \<open>Reading back what was written\<close>

text \<open>A buffer stream that starts with \<open>bs\<close>, all of it inside the limit; and the stream after it.\<close>

definition feeds :: "pb_istream \<Rightarrow> u8 list \<Rightarrow> bool" where
  "feeds s bs \<longleftrightarrow> i_callback s = Icb_buf_read \<and> (\<exists>rest. i_state s = bs @ rest) \<and> length bs \<le> i_bytes_left s"

definition consume :: "pb_istream \<Rightarrow> nat \<Rightarrow> pb_istream" where
  "consume s n = s\<lparr>i_state := drop n (i_state s), i_bytes_left := i_bytes_left s - n\<rparr>"

lemma consume_simps [simp]:
  "i_callback (consume s n) = i_callback s"
  "i_state (consume s n) = drop n (i_state s)"
  "i_bytes_left (consume s n) = i_bytes_left s - n"
  "i_errmsg (consume s n) = i_errmsg s"
  by (simp_all add: consume_def)

lemma consume_0 [simp]: "consume s 0 = s"
  by (simp add: consume_def)

lemma consume_consume [simp]: "consume (consume s a) b = consume s (a + b)"
  by (simp add: consume_def add.commute)

lemma feeds_append: "feeds s (a @ b) \<longleftrightarrow> feeds s a \<and> feeds (consume s (length a)) b"
  by (auto simp: feeds_def)

lemma feeds_Cons: "feeds s (b # bs) \<longleftrightarrow> feeds s [b] \<and> feeds (consume s 1) bs"
  using feeds_append [of s "[b]" bs] by simp

lemma readbyte_feeds [dec_rules]: "feeds s (b # bs) \<Longrightarrow> pb_readbyte env s = (True, b, consume s 1)"
  by (auto simp: feeds_def pb_readbyte_def istream_callback_def buf_read_def consume_def)

lemma read_feeds [dec_rules]:
  "feeds s bs \<Longrightarrow> pb_read env s (length bs) = (True, bs, consume s (length bs))"
  by (auto simp: feeds_def pb_read_def pb_read_direct_def istream_callback_def buf_read_def consume_def)

lemma read_null_feeds [dec_rules]:
  "feeds s bs \<Longrightarrow> pb_read_null env s (length bs) = (True, consume s (length bs))"
  by (auto simp: feeds_def pb_read_null_def pb_read_direct_def istream_callback_def buf_read_def consume_def)

text \<open>Adding the next seven bits of \<open>v\<close>.\<close>

lemma add_group:
  fixes v :: "'a::len word"
  assumes "b AND 0x7F = (ucast (drop_bit i v) :: u8) AND 0x7F"
  shows "take_bit i v OR push_bit i (ucast (b AND 0x7F)) = take_bit (i + 7) v"
proof (rule bit_word_eqI)
  fix k assume k: "k < LENGTH('a)"
  show "bit (take_bit i v OR push_bit i (ucast (b AND 0x7F))) k \<longleftrightarrow> bit (take_bit (i + 7) v) k"
    using k unfolding assms
    by (auto simp: bit_or_iff bit_take_bit_iff bit_push_bit_iff bit_unsigned_iff and_7F bit_drop_bit_eq)
qed

lemma varint_group: "(ucast ((x :: u64) AND 0x7F) OR 0x80) AND 0x7F = (ucast x :: u8) AND 0x7F"
proof -
  have "take_bit 7 (ucast (take_bit 7 x) :: u8) = take_bit 7 (ucast x)"
    by (simp add: ucast_take_bit7)
  then show ?thesis by (simp add: or_and_byte and_7F)
qed

lemma small_group_bit7: "x \<le> 0x7F \<Longrightarrow> (ucast (x :: u64) :: u8) AND 0x80 = 0"
proof -
  assume "x \<le> 0x7F"
  then have "take_bit 7 x = x" by (intro take_bit_self) (simp add: word_le_nat_alt)
  then have "\<not> bit x 7" by (metis bit_take_bit_iff less_irrefl)
  then show ?thesis by (simp add: and_80_eq_0 bit_unsigned_iff)
qed

lemma large_group_bit7: "(ucast ((x :: u64) AND 0x7F) OR 0x80) AND (0x80 :: u8) \<noteq> 0"
  using or_80_bit7 by (simp add: and_80_eq_0)

lemma take_bit_all:
  assumes "drop_bit i v \<le> (0x7F :: u64)"
  shows "take_bit (i + 7) v = v"
proof (rule bit_word_eqI)
  fix k assume "k < LENGTH(64)"
  have "take_bit 7 (drop_bit i v) = drop_bit i v"
    using assms by (intro take_bit_self) (simp add: word_le_nat_alt)
  then have "bit (drop_bit i v) (k - i) \<Longrightarrow> k - i < 7" by (metis bit_take_bit_iff)
  then show "bit (take_bit (i + 7) v) k \<longleftrightarrow> bit v k"
    by (cases "i \<le> k") (auto simp: bit_take_bit_iff bit_drop_bit_eq)
qed

lemma bitpos_u8: "7 * k < 256 \<Longrightarrow> unat (of_nat (7 * k) :: u8) = 7 * k"
  by (rule unat_of_nat_lt) simp

lemma varint_dec_step:
  assumes "feeds s (b # bs)" and "k \<le> 9" and "b AND 0x7F = (ucast (drop_bit (7 * k) v) :: u8) AND 0x7F"
  shows "varint_dec_loop env s (of_nat (7 * k)) (take_bit (7 * k) v) =
         (if b AND 0x80 \<noteq> 0 then varint_dec_loop env (consume s 1) (of_nat (7 * Suc k)) (take_bit (7 * Suc k) v)
          else (True, take_bit (7 * k + 7) v, consume s 1))"
proof -
  have u: "unat (of_nat (7 * k) :: u8) = 7 * k" using assms(2) by (intro bitpos_u8) simp
  have lt: "\<not> (of_nat (7 * k) :: u8) \<ge> 64" using u assms(2) by (simp add: word_le_nat_alt)
  have nx: "(of_nat (7 * k) :: u8) + 7 = of_nat (7 * Suc k)" by simp
  have g: "take_bit (7 * k) v OR push_bit (7 * k) (ucast (b AND 0x7F)) = take_bit (7 * k + 7) v"
    using assms(3) by (rule add_group)
  have e: "7 * Suc k = 7 * k + 7" by simp
  show ?thesis
    unfolding varint_dec_loop.simps [of env s "of_nat (7 * k)"] readbyte_feeds [OF assms(1)]
    using lt by (simp only: u g nx e if_False prod.case Let_def) simp
qed

lemma varint_dec_loop_feeds:
  assumes "feeds s (varint (drop_bit (7 * k) v))" and "k \<le> 9"
  shows "varint_dec_loop env s (of_nat (7 * k)) (take_bit (7 * k) v) =
         (True, v, consume s (length (varint (drop_bit (7 * k) v))))"
  using assms
proof (induction "9 - k" arbitrary: k s rule: less_induct)
  case less
  let ?x = "drop_bit (7 * k) v"
  show ?case
  proof (cases "?x \<le> 0x7F")
    case True
    then have "varint ?x = [ucast ?x]" by (simp add: varint.simps)
    with less.prems show ?thesis
      using varint_dec_step [of s "ucast ?x" "[]" k v env] small_group_bit7 [OF True] take_bit_all [OF True]
      by simp
  next
    case False
    let ?b = "ucast (?x AND 0x7F) OR 0x80 :: u8"
    have dd: "drop_bit 7 ?x = drop_bit (7 * Suc k) v" by (simp add: add.commute)
    have vx: "varint ?x = ?b # varint (drop_bit (7 * Suc k) v)"
      using False unfolding dd [symmetric] by (simp add: varint.simps [of ?x])
    have "k \<noteq> 9"
    proof
      assume "k = 9"
      then have "unat ?x = unat v div 2 ^ 63" by (simp add: drop_bit_eq_div unat_div)
      then have "unat ?x \<le> 1" using unat_bound [of v] by simp
      with False show False by (simp add: word_le_nat_alt)
    qed
    have f: "feeds (consume s 1) (varint (drop_bit (7 * Suc k) v))"
      using less.prems(1) feeds_Cons [of s ?b "varint (drop_bit (7 * Suc k) v)"] unfolding vx by blast
    have "varint_dec_loop env (consume s 1) (of_nat (7 * Suc k)) (take_bit (7 * Suc k) v) =
        (True, v, consume (consume s 1) (length (varint (drop_bit (7 * Suc k) v))))"
      using f less.prems(2) \<open>k \<noteq> 9\<close> by (intro less.hyps) auto
    moreover have "feeds s (?b # varint (drop_bit (7 * Suc k) v))" using less.prems(1) vx by simp
    ultimately show ?thesis
      using varint_dec_step [of s ?b _ k v env, OF _ less.prems(2) varint_group] large_group_bit7 [of ?x]
      by (simp add: vx)
  qed
qed

lemma decode_varint_feeds [dec_rules]:
  "feeds s (varint v) \<Longrightarrow> pb_decode_varint env s = (True, v, consume s (length (varint v)))"
  using varint_dec_loop_feeds [of s 0 v env] by (simp add: pb_decode_varint_def)

lemma zigzag_inverse:
  "(if zigzag v AND 1 \<noteq> 0 then NOT (drop_bit 1 (zigzag v)) else drop_bit 1 (zigzag v)) = v"
proof -
  define w where "w = push_bit 1 v"
  have w: "bit w j \<longleftrightarrow> 1 \<le> j \<and> j < 64 \<and> bit v (j - 1)" for j
    unfolding w_def bit_push_bit_iff by auto
  have sgn: "v <s 0 \<longleftrightarrow> bit v 63" using bit_last_iff [of v] by (simp add: word_sless_alt)
  have odd: "(x AND 1 \<noteq> 0) = bit x 0" for x :: u64
    by (simp add: and_one_eq odd_iff_mod_2_eq_one bit_0)
  have 63: "k < 64 \<Longrightarrow> Suc k < 64 \<or> k = 63" for k :: nat by linarith
  show ?thesis
  proof (cases "bit v 63")
    case True
    then have z: "zigzag v = NOT w" by (simp add: zigzag_def sgn w_def)
    have "NOT (drop_bit 1 (NOT w)) = v"
    proof (rule bit_word_eqI)
      fix k assume "k < LENGTH(64)"
      then show "bit (NOT (drop_bit 1 (NOT w))) k = bit v k"
        using True 63 [of k] by (auto simp: w bit_not_iff bit_drop_bit_eq)
    qed
    then show ?thesis using w [of 0] by (simp add: odd z bit_not_iff)
  next
    case False
    then have z: "zigzag v = w" by (simp add: zigzag_def sgn w_def)
    have "drop_bit 1 w = v"
    proof (rule bit_word_eqI)
      fix k assume "k < LENGTH(64)"
      then show "bit (drop_bit 1 w) k = bit v k"
        using False 63 [of k] by (auto simp: w bit_drop_bit_eq)
    qed
    then show ?thesis using w [of 0] by (simp add: odd z)
  qed
qed

lemma decode_svarint_feeds [dec_rules]:
  "feeds s (varint (zigzag v)) \<Longrightarrow>
   pb_decode_svarint env s = (True, v, consume s (length (varint (zigzag v))))"
  using zigzag_inverse [of v] by (simp add: pb_decode_svarint_def decode_varint_feeds)

lemma list_of_4: "length bs = 4 \<Longrightarrow> bs = [bs ! 0, bs ! 1, bs ! 2, bs ! 3]"
  by (auto simp: numeral_eq_Suc length_Suc_conv)

lemma list_of_8:
  "length bs = 8 \<Longrightarrow> bs = [bs ! 0, bs ! 1, bs ! 2, bs ! 3, bs ! 4, bs ! 5, bs ! 6, bs ! 7]"
  by (auto simp: numeral_eq_Suc length_Suc_conv)

lemmas from_le_flat = from_le.simps push_bit_or push_bit_push_bit push_bit_of_0 or.right_neutral
  push_bit_0_id id_apply numeral_plus_numeral or.assoc add_num_simps

lemma from_le_4:
  assumes "length bs = 4"
  shows "push_bit 0 (ucast (bs ! 0)) OR push_bit 8 (ucast (bs ! 1)) OR push_bit 16 (ucast (bs ! 2)) OR
         push_bit 24 (ucast (bs ! 3)) = (from_le bs :: u32)"
  by (subst (5) list_of_4 [OF assms]) (simp only: from_le_flat)

lemma decode_fixed32_feeds [dec_rules]:
  "feeds s (to_le 4 v) \<Longrightarrow> pb_decode_fixed32 env s = (True, v, consume s 4)"
  using read_feeds [of s "to_le 4 v" env] from_le_4 [of "to_le 4 v"]
  by (simp add: pb_decode_fixed32_def)

lemma from_le_8:
  assumes "length bs = 8"
  shows "push_bit 0 (ucast (bs ! 0)) OR push_bit 8 (ucast (bs ! 1)) OR push_bit 16 (ucast (bs ! 2)) OR
         push_bit 24 (ucast (bs ! 3)) OR push_bit 32 (ucast (bs ! 4)) OR push_bit 40 (ucast (bs ! 5)) OR
         push_bit 48 (ucast (bs ! 6)) OR push_bit 56 (ucast (bs ! 7)) = (from_le bs :: u64)"
  by (subst (9) list_of_8 [OF assms]) (simp only: from_le_flat)

lemma decode_fixed64_feeds [dec_rules]:
  "feeds s (to_le 8 v) \<Longrightarrow> pb_decode_fixed64 env s = (True, v, consume s 8)"
  using read_feeds [of s "to_le 8 v" env] from_le_8 [of "to_le 8 v"]
  by (simp add: pb_decode_fixed64_def)

subsection \<open>32-bit varints and tags\<close>

lemma ucast_drop_bit_u32: "(ucast (drop_bit i (ucast (v :: u32) :: u64)) :: u8) = ucast (drop_bit i v)"
  by (rule bit_word_eqI) (auto simp: bit_unsigned_iff bit_drop_bit_eq dest: bit_imp_le_length)

lemma unat_ucast_u32: "unat (ucast (v :: u32) :: u64) = unat v"
  by (simp add: unsigned_ucast_eq take_bit_nat_eq_self_iff) (use unat_bound [of v] in simp)

lemma varint32_step:
  assumes "feeds s (b # bs)" and "k \<le> 4" and "b AND 0x7F = (ucast (drop_bit (7 * k) v) :: u8) AND 0x7F"
  shows "varint32_loop env s (of_nat (7 * k)) (take_bit (7 * k) v) =
         (if b AND 0x80 \<noteq> 0 then varint32_loop env (consume s 1) (of_nat (7 * Suc k)) (take_bit (7 * Suc k) v)
          else if k = 4 \<and> b AND 0x70 \<noteq> 0
          then (False, take_bit (7 * k + 7) v, PB_SET_ERROR_i (consume s 1) ''varint overflow'')
          else (True, take_bit (7 * k + 7) v, consume s 1))"
proof -
  have u: "unat (of_nat (7 * k) :: u8) = 7 * k" using assms(2) by (intro bitpos_u8) simp
  have lt: "\<not> (of_nat (7 * k) :: u8) \<ge> 32" using u assms(2) by (simp add: word_le_nat_alt)
  have nx: "(of_nat (7 * k) :: u8) + 7 = of_nat (7 * Suc k)" by simp
  have u': "unat (of_nat (7 * Suc k) :: u8) = 7 * Suc k" using assms(2) by (intro bitpos_u8) simp
  have l: "(of_nat (7 * Suc k) :: u8) = 35 \<longleftrightarrow> k = 4"
    using u' by (auto simp: word_unat_eq_iff)
  have g: "take_bit (7 * k) v OR push_bit (7 * k) (ucast (b AND 0x7F)) = take_bit (7 * k + 7) v"
    using assms(3) by (rule add_group)
  have e: "7 * Suc k = 7 * k + 7" by simp
  show ?thesis
    unfolding varint32_loop.simps [of env s "of_nat (7 * k)"] readbyte_feeds [OF assms(1)]
    using lt l by (simp only: u g nx if_False prod.case Let_def simp_thms) (simp add: add.commute)
qed

lemma top_group_70: "x \<le> 0xF \<Longrightarrow> (ucast (x :: u64) :: u8) AND 0x70 = 0"
proof -
  assume "x \<le> 0xF"
  then have "take_bit 4 x = x" by (intro take_bit_self) (simp add: word_le_nat_alt)
  then have x: "bit x k \<Longrightarrow> k < 4" for k by (metis bit_take_bit_iff)
  have "bit (0x70 :: u8) k \<Longrightarrow> 4 \<le> k" for k
    by (auto simp: bit_numeral_word_iff bit_numeral_rec split: nat.splits)
  with x show ?thesis by (intro bit_word_eqI) (force simp: bit_and_iff bit_unsigned_iff)
qed

lemma take_bit_all32:
  assumes "drop_bit i (ucast (v :: u32) :: u64) \<le> 0x7F"
  shows "take_bit (i + 7) v = v"
proof -
  have "take_bit (i + 7) (ucast v :: u64) = ucast v" using assms by (rule take_bit_all)
  then have "bit (ucast v :: u64) k \<Longrightarrow> k < i + 7" for k by (metis bit_take_bit_iff)
  then show ?thesis
    by (intro bit_word_eqI) (auto simp: bit_take_bit_iff bit_unsigned_iff)
qed

lemma varint32_loop_feeds:
  assumes "feeds s (varint (drop_bit (7 * k) (ucast v)))" and "k \<le> 4"
  shows "varint32_loop env s (of_nat (7 * k)) (take_bit (7 * k) v) =
         (True, v, consume s (length (varint (drop_bit (7 * k) (ucast v)))))"
  using assms
proof (induction "4 - k" arbitrary: k s rule: less_induct)
  case less
  let ?x = "drop_bit (7 * k) (ucast v) :: u64"
  have small: "k = 4 \<Longrightarrow> ?x \<le> 0xF"
  proof -
    assume "k = 4"
    then have "unat ?x = unat v div 2 ^ 28" by (simp add: drop_bit_eq_div unat_div unat_ucast_u32)
    then have "unat ?x \<le> 15" using unat_bound [of v] by simp
    then show "?x \<le> 0xF" by (simp add: word_le_nat_alt)
  qed
  show ?case
  proof (cases "?x \<le> 0x7F")
    case True
    then have "varint ?x = [ucast ?x]" by (simp add: varint.simps)
    with less.prems show ?thesis
      using varint32_step [of s "ucast ?x" "[]" k v env] small_group_bit7 [OF True] take_bit_all32 [OF True]
        top_group_70 [OF small]
      by (simp add: ucast_drop_bit_u32)
  next
    case False
    let ?b = "ucast (?x AND 0x7F) OR 0x80 :: u8"
    have dd: "drop_bit 7 ?x = drop_bit (7 * Suc k) (ucast v)" by (simp add: add.commute)
    have vx: "varint ?x = ?b # varint (drop_bit (7 * Suc k) (ucast v))"
      using False unfolding dd [symmetric] by (simp add: varint.simps [of ?x])
    have "k \<noteq> 4" using small False by (auto simp: word_le_nat_alt)
    have f: "feeds s (?b # varint (drop_bit (7 * Suc k) (ucast v)))"
      using less.prems(1) vx by simp
    then have "feeds (consume s 1) (varint (drop_bit (7 * Suc k) (ucast v)))"
      using feeds_Cons [of s ?b] by blast
    then have "varint32_loop env (consume s 1) (of_nat (7 * Suc k)) (take_bit (7 * Suc k) v) =
        (True, v, consume (consume s 1) (length (varint (drop_bit (7 * Suc k) (ucast v)))))"
      using less.prems(2) \<open>k \<noteq> 4\<close> by (intro less.hyps) auto
    moreover have "?b AND 0x7F = ucast (drop_bit (7 * k) v) AND 0x7F"
      using varint_group [of ?x] by (simp add: ucast_drop_bit_u32)
    ultimately show ?thesis
      using varint32_step [OF f less.prems(2), of v env] large_group_bit7 [of ?x]
      by (simp add: vx)
  qed
qed

lemma decode_varint32_eof_feeds [dec_rules]:
  assumes "feeds s (varint (ucast (v :: u32)))"
  shows "pb_decode_varint32_eof env s = (True, v, False, consume s (length (varint (ucast v))))"
proof (cases "(ucast v :: u64) \<le> 0x7F")
  case True
  have "take_bit 7 v = v" using take_bit_all32 [of 0 v] True by simp
  then have low_bits: "bit v k \<Longrightarrow> k < 7" for k by (metis bit_take_bit_iff)
  have "(ucast (ucast (ucast v :: u64) :: u8) :: u32) = v"
    by (intro bit_word_eqI) (force simp: bit_unsigned_iff dest: low_bits)
  with True assms show ?thesis
    using small_group_bit7 [OF True]
    by (simp add: pb_decode_varint32_eof_def varint.simps readbyte_feeds)
next
  case False
  let ?b = "ucast ((ucast v :: u64) AND 0x7F) OR 0x80 :: u8"
  have vx: "varint (ucast v) = ?b # varint (drop_bit 7 (ucast v))"
    using False by (simp add: varint.simps [of "ucast v"])
  have f: "feeds s (?b # varint (drop_bit 7 (ucast v)))" using assms vx by simp
  then have f1: "feeds (consume s 1) (varint (drop_bit (7 * 1) (ucast v)))"
    using feeds_Cons [of s ?b "varint (drop_bit 7 (ucast v))"] by (simp only: mult_1_right)
  have "?b AND 0x7F = (ucast (drop_bit 0 v) :: u8) AND 0x7F"
    using varint_group [of "ucast v"] ucast_drop_bit_u32 [of 0 v] by simp
  then have "ucast (?b AND 0x7F) = take_bit 7 v"
    using add_group [of ?b 0 v] by simp
  with varint32_loop_feeds [OF f1, of env] show ?thesis
    using large_group_bit7 [of "ucast v"]
    by (simp add: pb_decode_varint32_eof_def readbyte_feeds [OF f] vx)
qed

lemma decode_varint32_feeds [dec_rules]:
  "feeds s (varint (ucast v)) \<Longrightarrow> pb_decode_varint32 env s = (True, v, consume s (length (varint (ucast v))))"
  by (simp add: pb_decode_varint32_def decode_varint32_eof_feeds)

lemma decode_tag_feeds [dec_rules]:
  assumes "feeds s (tag_bytes wt n)" and "wt < 8" and "n < 2 ^ 29" and "n \<noteq> 0"
  shows "pb_decode_tag env s = (True, wt, n, False, consume s (length (tag_bytes wt n)))"
proof -
  let ?t = "push_bit 3 n OR wt :: u32"
  have wt: "bit wt k \<Longrightarrow> k < 3" for k
  proof -
    have "take_bit 3 wt = wt" using assms(2) by (intro take_bit_self) (simp add: word_less_nat_alt)
    then show "bit wt k \<Longrightarrow> k < 3" by (metis bit_take_bit_iff)
  qed
  have n: "bit n k \<Longrightarrow> k < 29" for k
  proof -
    have "take_bit 29 n = n" using assms(3) by (intro take_bit_self) (simp add: word_less_nat_alt)
    then show "bit n k \<Longrightarrow> k < 29" by (metis bit_take_bit_iff)
  qed
  have "push_bit 3 (ucast n) OR ucast wt = (ucast ?t :: u64)"
    by (rule bit_word_eqI) (auto simp: bit_or_iff bit_push_bit_iff bit_unsigned_iff dest: wt n)
  then have tb: "tag_bytes wt n = varint (ucast ?t)" by (simp add: tag_bytes_def)
  have "(7 :: u32) = mask 3" by (simp add: mask_eq_exp_minus_1)
  then have 7: "bit (7 :: u32) k \<longleftrightarrow> k < 3" for k by (auto simp only: bit_mask_iff) auto
  have "?t AND 7 = wt"
    by (rule bit_word_eqI) (auto simp: bit_and_iff bit_or_iff bit_push_bit_iff 7 dest: wt
        simp del: bit_numeral_word_iff)
  moreover have nn: "drop_bit 3 ?t = n"
    by (rule bit_word_eqI) (auto simp: bit_drop_bit_eq bit_or_iff bit_push_bit_iff dest: wt n)
  moreover have "?t \<noteq> 0" using nn assms(4) by (metis drop_bit_of_0)
  ultimately show ?thesis
    using assms(1) by (simp only: pb_decode_tag_def tb decode_varint32_eof_feeds prod.case simp_thms if_False)
qed

subsection \<open>Skipping and substreams consume exactly one value\<close>

lemma skip_varint_feeds [dec_rules]:
  "feeds s (varint v) \<Longrightarrow> pb_skip_varint env s = (True, consume s (length (varint v)))"
proof (induction v arbitrary: s rule: varint.induct)
  case (1 v)
  have one: "feeds s (b # bs) \<Longrightarrow> pb_read env s 1 = (True, [b], consume s 1)" for b bs
    using read_feeds [of s "[b]" env] feeds_Cons [of s b bs] by simp
  show ?case
  proof (cases "v \<le> 0x7F")
    case True
    then have "varint v = [ucast v]" by (simp add: varint.simps)
    with 1(2) show ?thesis
      using small_group_bit7 [OF True] one [of "ucast v" "[]"]
      by (simp add: pb_skip_varint.simps [of env s])
  next
    case False
    then have vx: "varint v = (ucast (v AND 0x7F) OR 0x80) # varint (drop_bit 7 v)"
      by (simp add: varint.simps [of v])
    with 1(2) have f: "feeds s ((ucast (v AND 0x7F) OR 0x80) # varint (drop_bit 7 v))" by simp
    then have "feeds (consume s 1) (varint (drop_bit 7 v))"
      using feeds_Cons [of s "ucast (v AND 0x7F) OR 0x80" "varint (drop_bit 7 v)"] by blast
    from 1(1) [OF False this] show ?thesis
      using large_group_bit7 [of v] one [OF f]
      by (simp add: vx pb_skip_varint.simps [of env s])
  qed
qed

lemma length_u32: "length bs < 2 ^ 32 \<Longrightarrow> (of_nat (length bs) :: u64) = ucast (of_nat (length bs) :: u32)"
  by (simp add: word_unat_eq_iff unat_ucast_u32 unat_of_nat_lt)

lemma string_bytes_u32:
  "length bs < 2 ^ 32 \<Longrightarrow> string_bytes bs = varint (ucast (of_nat (length bs) :: u32)) @ bs"
  by (simp add: string_bytes_def length_u32)

lemma skip_string_feeds [dec_rules]:
  assumes "feeds s (string_bytes bs)" and "length bs < 2 ^ 32"
  shows "pb_skip_string env s = (True, consume s (length (string_bytes bs)))"
proof -
  let ?v = "varint (ucast (of_nat (length bs) :: u32))"
  have f: "feeds s ?v" "feeds (consume s (length ?v)) bs"
    using assms(1) unfolding string_bytes_u32 [OF assms(2)] feeds_append by auto
  show ?thesis
    using decode_varint32_feeds [OF f(1), of env] read_null_feeds [OF f(2), of env] assms(2)
    by (simp add: pb_skip_string_def string_bytes_u32 unat_of_nat_lt)
qed

lemma make_substream_feeds [dec_rules]:
  assumes "feeds s (string_bytes bs)" and "length bs < 2 ^ 32"
  shows "pb_make_string_substream env s =
           (let c = consume s (length (string_bytes bs) - length bs)
            in (True, c\<lparr>i_bytes_left := i_bytes_left c - length bs\<rparr>, c\<lparr>i_bytes_left := length bs\<rparr>))"
proof -
  let ?v = "varint (ucast (of_nat (length bs) :: u32))"
  have f: "feeds s ?v" "feeds (consume s (length ?v)) bs"
    using assms(1) unfolding string_bytes_u32 [OF assms(2)] feeds_append by auto
  then have "length bs \<le> i_bytes_left (consume s (length ?v))" by (simp add: feeds_def)
  then show ?thesis
    using decode_varint32_feeds [OF f(1), of env] assms(2)
    by (simp add: pb_make_string_substream_def string_bytes_u32 unat_of_nat_lt Let_def)
qed

lemma close_substream_feeds [dec_rules]:
  assumes "feeds s (string_bytes bs)" and "length bs < 2 ^ 32" and "k \<le> length bs"
    and "pb_make_string_substream env s = (True, s', sub)"
  shows "pb_close_string_substream env s' (consume sub k) = (True, consume s (length (string_bytes bs)))"
proof -
  let ?h = "length (string_bytes bs) - length bs"
  have s': "s' = (consume s ?h)\<lparr>i_bytes_left := i_bytes_left s - ?h - length bs\<rparr>"
    and sub: "sub = (consume s ?h)\<lparr>i_bytes_left := length bs\<rparr>"
    using assms(4) by (auto simp: make_substream_feeds [OF assms(1,2)] Let_def)
  have fb: "feeds (consume s ?h) bs" and h: "length (string_bytes bs) = ?h + length bs"
    using assms(1) by (auto simp: string_bytes_def feeds_append)
  then have "feeds (consume sub k) (drop k bs)"
    using assms(3) by (auto simp: feeds_def sub simp flip: drop_drop)
  from read_null_feeds [OF this, of env] show ?thesis
    using assms(3) h
    by (auto simp: pb_close_string_substream_def sub s' consume_def add.commute add.left_commute)
qed

end
