(* ===== verification/Pb_Release.thy ===== *)
theory Pb_Release
  imports Pb_Encode Pb_Istream
begin

text \<open>
  The storage of a decoded message, from \<^verbatim>\<open>nanopb/pb_decode.c\<close>: setting the fields to their
  defaults, allocating the memory of pointer fields, and releasing it. The functions call each
  other through submessages and extensions; the recursive call on a submessage is the parameter
  \<open>sub\<close>, and a natural number bounds the nesting and the length of an extension list
  (\<^verbatim>\<open>None\<close>: the bound was too small).
\<close>

subsection \<open>Extensions\<close>

text \<open>\<^verbatim>\<open>ext->found\<close> is a \<^verbatim>\<open>bool\<close> at offset 24 of \<^verbatim>\<open>pb_extension_t\<close>, \<^verbatim>\<open>ext->dest\<close> is at offset 8.\<close>

definition iter_from_extension :: "pb_env \<Rightarrow> cmem \<Rightarrow> addr \<Rightarrow> pb_field_iter" where
  "iter_from_extension env m e =
     (let a = ext_arg m e;
          it = snd (pb_field_iter_begin env a (load_ptr m (e + 8)))
      in it\<lparr>pData := (if atype (field_at env a 0) = PB_ATYPE_POINTER then e + 8 else load_ptr m (e + 8)),
            pSize := e + 24\<rparr>)"

text \<open>The loop \<^verbatim>\<open>while (ext != NULL) { ...; ext = ext->next; }\<close>.\<close>

fun extension_loop :: "nat \<Rightarrow> (addr \<Rightarrow> cmem \<Rightarrow> cmem option) \<Rightarrow> addr \<Rightarrow> cmem \<Rightarrow> cmem option" where
  "extension_loop 0 body e m = None"
| "extension_loop (Suc k) body e m =
     (if e = NULL then Some m
      else (case body e m of
              None \<Rightarrow> None
            | Some m' \<Rightarrow> extension_loop k body (ext_next m' e) m'))"

subsection \<open>Defaults\<close>

type_synonym msg_action = "addr \<Rightarrow> addr \<Rightarrow> cmem \<Rightarrow> cmem option"

definition set_static_default ::
  "msg_action \<Rightarrow> pb_field \<Rightarrow> pb_field_iter \<Rightarrow> cmem \<Rightarrow> cmem option" where
  "set_static_default sub f it m =
     (let counted = (htype f = PB_HTYPE_REPEATED \<or> htype f = PB_HTYPE_ONEOF);
          m1 = (if htype f = PB_HTYPE_OPTIONAL \<and> pSize it \<noteq> pData it then store8 m (pSize it) 0
                else if counted then store32 m (pSize it) 0 else m);
          init_data = \<not> counted
      in if \<not> init_data then Some m1
         else if ltype f = PB_LTYPE_SUBMESSAGE then sub (fptr f) (pData it) m1
         else if fptr f \<noteq> NULL then Some (memcpy m1 (pData it) (fptr f) (unat (data_size f)))
         else Some (memset0 m1 (pData it) (unat (data_size f))))"

fun pb_field_set_to_default ::
  "pb_env \<Rightarrow> msg_action \<Rightarrow> nat \<Rightarrow> pb_field_iter \<Rightarrow> cmem \<Rightarrow> cmem option" where
  "pb_field_set_to_default env sub 0 it m = None"
| "pb_field_set_to_default env sub (Suc n) it m =
     (let f = iter_field env it in
      if ltype f = PB_LTYPE_EXTENSION then
        extension_loop n
          (\<lambda>e m. let m1 = store8 m (e + 24) 0
                 in pb_field_set_to_default env sub n (iter_from_extension env m1 e) m1)
          (load_ptr m (pData it)) m
      else if atype f = PB_ATYPE_STATIC then set_static_default sub f it m
      else if atype f = PB_ATYPE_POINTER then
        let m1 = store_ptr m (pData it) NULL
        in Some (if htype f = PB_HTYPE_REPEATED \<or> htype f = PB_HTYPE_ONEOF
                 then store32 m1 (pSize it) 0 else m1)
      else Some m)"

fun pb_message_set_to_defaults :: "pb_env \<Rightarrow> nat \<Rightarrow> msg_action" where
  "pb_message_set_to_defaults env 0 a d m = None"
| "pb_message_set_to_defaults env (Suc n) a d m =
     (case pb_field_iter_begin env a d of (nonempty, it) \<Rightarrow>
        if \<not> nonempty then Some m
        else pb_field_loop env a
               (\<lambda>it m. map_option (\<lambda>m. (m, True))
                  (pb_field_set_to_default env (pb_message_set_to_defaults env n) n it m)) it m)"

subsection \<open>Allocation\<close>

text \<open>\<^verbatim>\<open>size_t\<close> is 64 bits wide, so \<^verbatim>\<open>check_limit\<close> is \<open>2\<^sup>3\<^sup>2\<close>.\<close>

definition allocate_field ::
  "pb_istream \<Rightarrow> addr \<Rightarrow> u64 \<Rightarrow> u64 \<Rightarrow> cmem \<Rightarrow> bool \<times> pb_istream \<times> cmem" where
  "allocate_field s p data_sz array_sz m =
     (let ptr = load_ptr m p in
      if data_sz = 0 \<or> array_sz = 0 then (False, PB_SET_ERROR_i s ''invalid size'', m)
      else
        let check_limit = 2 ^ 32; size_max = - 1 in
        if (data_sz \<ge> check_limit \<or> array_sz \<ge> check_limit) \<and> size_max div array_sz < data_sz
        then (False, PB_SET_ERROR_i s ''size too large'', m)
        else (case c_realloc m ptr (unat (array_sz * data_sz)) of (ptr', m') \<Rightarrow>
                if ptr' = NULL then (False, PB_SET_ERROR_i s ''realloc failed'', m')
                else (True, s, store_ptr m' p ptr')))"

definition initialize_pointer_field ::
  "msg_action \<Rightarrow> addr \<Rightarrow> pb_field \<Rightarrow> cmem \<Rightarrow> cmem option" where
  "initialize_pointer_field sub pItem f m =
     (if ltype f = PB_LTYPE_STRING \<or> ltype f = PB_LTYPE_BYTES then Some (store_ptr m pItem NULL)
      else if ltype f = PB_LTYPE_SUBMESSAGE
      then sub (fptr f) pItem (memset0 m pItem (unat (data_size f)))
      else Some m)"

subsection \<open>Release\<close>

text \<open>The two \<^verbatim>\<open>for (; count > 0; count--)\<close> loops.\<close>

fun release_items :: "(addr \<Rightarrow> cmem \<Rightarrow> cmem option) \<Rightarrow> int \<Rightarrow> nat \<Rightarrow> addr \<Rightarrow> cmem \<Rightarrow> cmem option" where
  "release_items rel sz 0 p m = Some m"
| "release_items rel sz (Suc n) p m =
     (case rel p m of None \<Rightarrow> None | Some m' \<Rightarrow> release_items rel sz n (p + sz) m')"

fun release_entries :: "nat \<Rightarrow> addr \<Rightarrow> cmem \<Rightarrow> cmem" where
  "release_entries 0 p m = m"
| "release_entries (Suc n) p m =
     release_entries n (p + sizeof_ptr) (store_ptr (c_free m (load_ptr m p)) p NULL)"

definition release_contents ::
  "msg_action \<Rightarrow> pb_field \<Rightarrow> pb_field_iter \<Rightarrow> cmem \<Rightarrow> cmem option" where
  "release_contents sub f it m =
     (let pItem = (if atype f = PB_ATYPE_POINTER then load_ptr m (pData it) else pData it);
          count =
            (if htype f = PB_HTYPE_REPEATED then
               let c = (if atype f = PB_ATYPE_STATIC \<and> pSize it = pData it then array_size f
                        else load32 m (pSize it))
               in if atype f = PB_ATYPE_STATIC \<and> c > array_size f then array_size f else c
             else 1)
      in if pItem \<noteq> NULL
         then release_items (sub (fptr f)) (uint (data_size f)) (unat count) pItem m
         else Some m)"

definition release_pointer :: "pb_field \<Rightarrow> pb_field_iter \<Rightarrow> cmem \<Rightarrow> cmem" where
  "release_pointer f it m =
     (let m1 = (if htype f = PB_HTYPE_REPEATED \<and> (ltype f = PB_LTYPE_STRING \<or> ltype f = PB_LTYPE_BYTES)
                then release_entries (unat (load32 m (pSize it))) (load_ptr m (pData it)) m
                else m);
          m2 = (if htype f = PB_HTYPE_REPEATED then store32 m1 (pSize it) 0 else m1);
          m3 = c_free m2 (load_ptr m2 (pData it))
      in store_ptr m3 (pData it) NULL)"

fun pb_release_single_field ::
  "pb_env \<Rightarrow> msg_action \<Rightarrow> nat \<Rightarrow> pb_field_iter \<Rightarrow> cmem \<Rightarrow> cmem option" where
  "pb_release_single_field env sub 0 it m = None"
| "pb_release_single_field env sub (Suc n) it m =
     (let f = iter_field env it in
      if htype f = PB_HTYPE_ONEOF \<and> load32 m (pSize it) \<noteq> tag f then Some m
      else
        map_option (\<lambda>m. if atype f = PB_ATYPE_POINTER then release_pointer f it m else m)
          (if ltype f = PB_LTYPE_EXTENSION then
             extension_loop n
               (\<lambda>e m. pb_release_single_field env sub n (iter_from_extension env m e) m)
               (load_ptr m (pData it)) m
           else if ltype f = PB_LTYPE_SUBMESSAGE \<and> atype f \<noteq> PB_ATYPE_CALLBACK
           then release_contents sub f it m
           else Some m))"

fun pb_release :: "pb_env \<Rightarrow> nat \<Rightarrow> msg_action" where
  "pb_release env 0 a d m = None"
| "pb_release env (Suc n) a d m =
     (if d = NULL then Some m
      else case pb_field_iter_begin env a d of (nonempty, it) \<Rightarrow>
        if \<not> nonempty then Some m
        else pb_field_loop env a
               (\<lambda>it m. map_option (\<lambda>m. (m, True))
                  (pb_release_single_field env (pb_release env n) n it m)) it m)"

text \<open>The result is \<open>(ok, iter, stream, memory)\<close>.\<close>

definition pb_release_union_field ::
  "pb_env \<Rightarrow> nat \<Rightarrow> pb_istream \<Rightarrow> pb_field_iter \<Rightarrow> cmem \<Rightarrow>
   (bool \<times> pb_field_iter \<times> pb_istream \<times> cmem) option" where
  "pb_release_union_field env n s it m =
     (let old_tag = load32 m (pSize it); new_tag = tag (iter_field env it) in
      if old_tag = 0 then Some (True, it, s, m)
      else if old_tag = new_tag then Some (True, it, s, m)
      else case pb_field_iter_find env it old_tag of
             None \<Rightarrow> None
           | Some (False, it1) \<Rightarrow> Some (False, it1, PB_SET_ERROR_i s ''invalid union tag'', m)
           | Some (True, it1) \<Rightarrow>
               (case pb_release_single_field env (pb_release env n) n it1 m of
                  None \<Rightarrow> None
                | Some m1 \<Rightarrow>
                    (case pb_field_iter_find env it1 new_tag of
                       None \<Rightarrow> None
                     | Some (False, it2) \<Rightarrow> Some (False, it2, PB_SET_ERROR_i s ''iterator error'', m1)
                     | Some (True, it2) \<Rightarrow>
                         Some (True, it2, s,
                               if atype (iter_field env it2) = PB_ATYPE_POINTER
                               then store_ptr m1 (pData it2) NULL else m1))))"

end
