(* ===== verification/Pb_Decode.thy ===== *)
theory Pb_Decode
  imports Pb_Release
begin

text \<open>
  The message decoder of \<^verbatim>\<open>nanopb/pb_decode.c\<close>. Every function takes the memory and returns
  it changed. \<^verbatim>\<open>pb_decode\<close> and \<^verbatim>\<open>pb_decode_noinit\<close> are called again for submessages; the
  functions in between take that call as the parameter \<open>dec\<close>, and \<open>pb_decode_noinit\<close> ties
  the knot with a bound on the nesting depth, on the length of an extension list and on the calls of
  one field callback (\<^verbatim>\<open>None\<close>: the bound was too small, or the code divides by zero or calls a
  null function pointer, and the call does not return). The loops over the input need no such
  bound: each round consumes a byte.
\<close>

type_synonym dres = "(bool \<times> pb_istream \<times> cmem) option"

text \<open>A call of the message decoder; the first argument tells \<^verbatim>\<open>pb_decode\<close> from \<^verbatim>\<open>pb_decode_noinit\<close>.\<close>

type_synonym msg_decoder = "bool \<Rightarrow> pb_istream \<Rightarrow> addr \<Rightarrow> addr \<Rightarrow> cmem \<Rightarrow> dres"

text \<open>\<^verbatim>\<open>pb_read(stream, dest, count)\<close> with \<open>dest\<close> in memory.\<close>

definition pb_read_mem :: "pb_env \<Rightarrow> pb_istream \<Rightarrow> addr \<Rightarrow> nat \<Rightarrow> cmem \<Rightarrow> bool \<times> pb_istream \<times> cmem" where
  "pb_read_mem env s dest count m =
     (case pb_read env s count of (ok, bs, s') \<Rightarrow> (ok, s', mstore m dest bs))"

subsection \<open>Field decoders\<close>

definition pb_dec_bool ::
  "pb_env \<Rightarrow> pb_istream \<Rightarrow> addr \<Rightarrow> cmem \<Rightarrow> bool \<times> pb_istream \<times> cmem" where
  "pb_dec_bool env s dest m =
     (case pb_decode_varint32 env s of (ok, v, s') \<Rightarrow>
        if \<not> ok then (False, s', m) else (True, s', store8 m dest (if v \<noteq> 0 then 1 else 0)))"

definition pb_decode_bool ::
  "pb_env \<Rightarrow> pb_istream \<Rightarrow> addr \<Rightarrow> cmem \<Rightarrow> bool \<times> pb_istream \<times> cmem" where
  "pb_decode_bool env s dest m = pb_dec_bool env s dest m"

text \<open>
  The assignment \<^verbatim>\<open>clamped = *(intN_t* )dest = (intN_t)v\<close> for the width of the field, and the same
  for unsigned integers: the new memory and \<^verbatim>\<open>clamped\<close>.
\<close>

definition store_signed :: "u32 \<Rightarrow> addr \<Rightarrow> u64 \<Rightarrow> cmem \<Rightarrow> (cmem \<times> u64) option" where
  "store_signed sz dest v m =
     (if sz = 8 then Some (store64 m dest v, v)
      else if sz = 4 then Some (store32 m dest (ucast v), scast (ucast v :: u32))
      else if sz = 2 then Some (store16 m dest (ucast v), scast (ucast v :: u16))
      else if sz = 1 then Some (store8 m dest (ucast v), scast (ucast v :: u8))
      else None)"

definition store_unsigned :: "u32 \<Rightarrow> addr \<Rightarrow> u64 \<Rightarrow> cmem \<Rightarrow> (cmem \<times> u64) option" where
  "store_unsigned sz dest v m =
     (if sz = 8 then Some (store64 m dest v, v)
      else if sz = 4 then Some (store32 m dest (ucast v), ucast (ucast v :: u32))
      else if sz = 2 then Some (store16 m dest (ucast v), ucast (ucast v :: u16))
      else if sz = 1 then Some (store8 m dest (ucast v), ucast (ucast v :: u8))
      else None)"

definition store_checked ::
  "(cmem \<times> u64) option \<Rightarrow> u64 \<Rightarrow> pb_istream \<Rightarrow> cmem \<Rightarrow> bool \<times> pb_istream \<times> cmem" where
  "store_checked r v s m =
     (case r of
        None \<Rightarrow> (False, PB_SET_ERROR_i s ''invalid data_size'', m)
      | Some (m', clamped) \<Rightarrow>
          if clamped \<noteq> v then (False, PB_SET_ERROR_i s ''integer too large'', m') else (True, s, m'))"

definition pb_dec_varint ::
  "pb_env \<Rightarrow> pb_istream \<Rightarrow> pb_field \<Rightarrow> addr \<Rightarrow> cmem \<Rightarrow> bool \<times> pb_istream \<times> cmem" where
  "pb_dec_varint env s f dest m =
     (case pb_decode_varint env s of (ok, v, s') \<Rightarrow>
        if \<not> ok then (False, s', m)
        else let svalue = (if data_size f = 8 then v else scast (ucast v :: u32))
             in store_checked (store_signed (data_size f) dest svalue m) svalue s' m)"

definition pb_dec_uvarint ::
  "pb_env \<Rightarrow> pb_istream \<Rightarrow> pb_field \<Rightarrow> addr \<Rightarrow> cmem \<Rightarrow> bool \<times> pb_istream \<times> cmem" where
  "pb_dec_uvarint env s f dest m =
     (case pb_decode_varint env s of (ok, v, s') \<Rightarrow>
        if \<not> ok then (False, s', m)
        else store_checked (store_unsigned (data_size f) dest v m) v s' m)"

definition pb_dec_svarint ::
  "pb_env \<Rightarrow> pb_istream \<Rightarrow> pb_field \<Rightarrow> addr \<Rightarrow> cmem \<Rightarrow> bool \<times> pb_istream \<times> cmem" where
  "pb_dec_svarint env s f dest m =
     (case pb_decode_svarint env s of (ok, v, s') \<Rightarrow>
        if \<not> ok then (False, s', m)
        else store_checked (store_signed (data_size f) dest v m) v s' m)"

definition pb_dec_fixed32 ::
  "pb_env \<Rightarrow> pb_istream \<Rightarrow> addr \<Rightarrow> cmem \<Rightarrow> bool \<times> pb_istream \<times> cmem" where
  "pb_dec_fixed32 env s dest m =
     (case pb_decode_fixed32 env s of (ok, v, s') \<Rightarrow> (ok, s', if ok then store32 m dest v else m))"

definition pb_dec_fixed64 ::
  "pb_env \<Rightarrow> pb_istream \<Rightarrow> addr \<Rightarrow> cmem \<Rightarrow> bool \<times> pb_istream \<times> cmem" where
  "pb_dec_fixed64 env s dest m =
     (case pb_decode_fixed64 env s of (ok, v, s') \<Rightarrow> (ok, s', if ok then store64 m dest v else m))"

text \<open>\<^verbatim>\<open>PB_BYTES_ARRAY_T_ALLOCSIZE(n)\<close> is \<open>n\<close> plus the offset 4 of the bytes.\<close>

definition pb_dec_bytes ::
  "pb_env \<Rightarrow> pb_istream \<Rightarrow> pb_field \<Rightarrow> addr \<Rightarrow> cmem \<Rightarrow> bool \<times> pb_istream \<times> cmem" where
  "pb_dec_bytes env s f dest m =
     (case pb_decode_varint32 env s of (ok, sz, s') \<Rightarrow>
        if \<not> ok then (False, s', m)
        else if sz > PB_SIZE_MAX then (False, PB_SET_ERROR_i s' ''bytes overflow'', m)
        else
          let alloc_size = ucast sz + 4 :: u64;
              fill = (\<lambda>s bdest m. pb_read_mem env s (bdest + 4) (unat sz) (store32 m bdest sz))
          in
          if ucast sz > alloc_size then (False, PB_SET_ERROR_i s' ''size too large'', m)
          else if atype f = PB_ATYPE_POINTER then
            if i_bytes_left s' < unat sz then (False, PB_SET_ERROR_i s' ''end-of-stream'', m)
            else (case allocate_field s' dest alloc_size 1 m of (ok, s'', m') \<Rightarrow>
                    if \<not> ok then (False, s'', m') else fill s'' (load_ptr m' dest) m')
          else if alloc_size > ucast (data_size f) then (False, PB_SET_ERROR_i s' ''bytes overflow'', m)
          else fill s' dest m)"

text \<open>\<^verbatim>\<open>size + 1\<close> is computed in 32 bits.\<close>

definition pb_dec_string ::
  "pb_env \<Rightarrow> pb_istream \<Rightarrow> pb_field \<Rightarrow> addr \<Rightarrow> cmem \<Rightarrow> bool \<times> pb_istream \<times> cmem" where
  "pb_dec_string env s f dest m =
     (case pb_decode_varint32 env s of (ok, sz, s') \<Rightarrow>
        if \<not> ok then (False, s', m)
        else
          let alloc_size = ucast (sz + 1) :: u64;
              fill = (\<lambda>s dest m. case pb_read_mem env s dest (unat sz) m of (status, s, m) \<Rightarrow>
                                  (status, s, store8 m (dest + uint sz) 0))
          in
          if alloc_size < ucast sz then (False, PB_SET_ERROR_i s' ''size too large'', m)
          else if atype f = PB_ATYPE_POINTER then
            if i_bytes_left s' < unat sz then (False, PB_SET_ERROR_i s' ''end-of-stream'', m)
            else (case allocate_field s' dest alloc_size 1 m of (ok, s'', m') \<Rightarrow>
                    if \<not> ok then (False, s'', m') else fill s'' (load_ptr m' dest) m')
          else if alloc_size > ucast (data_size f) then (False, PB_SET_ERROR_i s' ''string overflow'', m)
          else fill s' dest m)"

definition pb_dec_fixed_length_bytes ::
  "pb_env \<Rightarrow> pb_istream \<Rightarrow> pb_field \<Rightarrow> addr \<Rightarrow> cmem \<Rightarrow> bool \<times> pb_istream \<times> cmem" where
  "pb_dec_fixed_length_bytes env s f dest m =
     (case pb_decode_varint32 env s of (ok, sz, s') \<Rightarrow>
        if \<not> ok then (False, s', m)
        else if sz > PB_SIZE_MAX then (False, PB_SET_ERROR_i s' ''bytes overflow'', m)
        else if sz = 0 then (True, s', memset0 m dest (unat (data_size f)))
        else if sz \<noteq> data_size f
        then (False, PB_SET_ERROR_i s' ''incorrect fixed length bytes size'', m)
        else pb_read_mem env s' dest (unat (data_size f)) m)"

text \<open>The end of every function that decodes from a substream.\<close>

definition close_with ::
  "pb_env \<Rightarrow> pb_istream \<Rightarrow> bool \<times> pb_istream \<times> cmem \<Rightarrow> bool \<times> pb_istream \<times> cmem" where
  "close_with env s r =
     (case r of (status, sub, m) \<Rightarrow>
        (case pb_close_string_substream env s sub of (ok, s') \<Rightarrow> (ok \<and> status, s', m)))"

definition pb_dec_submessage ::
  "pb_env \<Rightarrow> msg_decoder \<Rightarrow> pb_istream \<Rightarrow> pb_field \<Rightarrow> addr \<Rightarrow> cmem \<Rightarrow> dres" where
  "pb_dec_submessage env dec s f dest m =
     (case pb_make_string_substream env s of (ok, s', sub) \<Rightarrow>
        if \<not> ok then Some (False, s', m)
        else if fptr f = NULL then Some (False, PB_SET_ERROR_i s' ''invalid field descriptor'', m)
        else map_option (close_with env s') (dec (htype f = PB_HTYPE_REPEATED) sub (fptr f) dest m))"

text \<open>The table \<^verbatim>\<open>PB_DECODERS\<close>, applied; extensions have no entry.\<close>

definition PB_DECODERS ::
  "pb_env \<Rightarrow> msg_decoder \<Rightarrow> pb_istream \<Rightarrow> pb_field \<Rightarrow> addr \<Rightarrow> cmem \<Rightarrow> dres" where
  "PB_DECODERS env dec s f dest m =
     (let lt = ltype f in
      if lt = PB_LTYPE_BOOL then Some (pb_dec_bool env s dest m)
      else if lt = PB_LTYPE_VARINT then Some (pb_dec_varint env s f dest m)
      else if lt = PB_LTYPE_UVARINT then Some (pb_dec_uvarint env s f dest m)
      else if lt = PB_LTYPE_SVARINT then Some (pb_dec_svarint env s f dest m)
      else if lt = PB_LTYPE_FIXED32 then Some (pb_dec_fixed32 env s dest m)
      else if lt = PB_LTYPE_FIXED64 then Some (pb_dec_fixed64 env s dest m)
      else if lt = PB_LTYPE_BYTES then Some (pb_dec_bytes env s f dest m)
      else if lt = PB_LTYPE_STRING then Some (pb_dec_string env s f dest m)
      else if lt = PB_LTYPE_SUBMESSAGE then pb_dec_submessage env dec s f dest m
      else if lt = PB_LTYPE_FIXED_LENGTH_BYTES then Some (pb_dec_fixed_length_bytes env s f dest m)
      else None)"

subsection \<open>Static fields\<close>

type_synonym item_decoder = "pb_istream \<Rightarrow> addr \<Rightarrow> cmem \<Rightarrow> dres"

text \<open>\<^verbatim>\<open>iter->pos->data_size * ( *size)\<close> is computed in 32 bits.\<close>

definition item_addr :: "addr \<Rightarrow> pb_field \<Rightarrow> u32 \<Rightarrow> addr" where
  "item_addr base f i = base + uint (data_size f * i)"

text \<open>
  The loop over a packed array, started with one round more than the substream has bytes: an item takes
  at least one byte.
\<close>

fun static_packed_loop ::
  "item_decoder \<Rightarrow> pb_field \<Rightarrow> pb_field_iter \<Rightarrow> nat \<Rightarrow> pb_istream \<Rightarrow> cmem \<Rightarrow> dres" where
  "static_packed_loop func f it 0 sub m = None"
| "static_packed_loop func f it (Suc k) sub m =
     (if i_bytes_left sub > 0 \<and> load32 m (pSize it) < array_size f then
        (case func sub (item_addr (pData it) f (load32 m (pSize it))) m of
           None \<Rightarrow> None
         | Some (ok, sub', m') \<Rightarrow>
             if \<not> ok then Some (False, sub', m')
             else static_packed_loop func f it k sub' (store32 m' (pSize it) (load32 m' (pSize it) + 1)))
      else Some (True, sub, m))"

definition decode_static_repeated ::
  "pb_env \<Rightarrow> item_decoder \<Rightarrow> pb_istream \<Rightarrow> u32 \<Rightarrow> pb_field \<Rightarrow> pb_field_iter \<Rightarrow> cmem \<Rightarrow> dres" where
  "decode_static_repeated env func s wire_type f it m =
     (if wire_type = PB_WT_STRING \<and> ltype f \<le> PB_LTYPE_LAST_PACKABLE then
        (case pb_make_string_substream env s of (ok, s', sub) \<Rightarrow>
           if \<not> ok then Some (False, s', m)
           else
             (case static_packed_loop func f it (Suc (i_bytes_left sub)) sub m of
                None \<Rightarrow> None
              | Some (status, sub', m') \<Rightarrow>
                  if i_bytes_left sub' \<noteq> 0 then Some (False, PB_SET_ERROR_i s' ''array overflow'', m')
                  else Some (close_with env s' (status, sub', m'))))
      else
        let n = load32 m (pSize it);
            m' = store32 m (pSize it) (n + 1)
        in if n \<ge> array_size f then Some (False, PB_SET_ERROR_i s ''array overflow'', m')
           else func s (item_addr (pData it) f n) m')"

definition decode_static_field ::
  "pb_env \<Rightarrow> msg_decoder \<Rightarrow> msg_action \<Rightarrow> pb_istream \<Rightarrow> u32 \<Rightarrow> pb_field_iter \<Rightarrow> cmem \<Rightarrow> dres" where
  "decode_static_field env dec dfl s wire_type it m =
     (let f = iter_field env it;
          func = (\<lambda>s dest m. PB_DECODERS env dec s f dest m)
      in
      if htype f = PB_HTYPE_REQUIRED then func s (pData it) m
      else if htype f = PB_HTYPE_OPTIONAL then
        func s (pData it) (if pSize it \<noteq> pData it then store8 m (pSize it) 1 else m)
      else if htype f = PB_HTYPE_REPEATED then decode_static_repeated env func s wire_type f it m
      else
        (case (if ltype f = PB_LTYPE_SUBMESSAGE \<and> load32 m (pSize it) \<noteq> tag f
               then dfl (fptr f) (pData it) (memset0 m (pData it) (unat (data_size f)))
               else Some m) of
           None \<Rightarrow> None
         | Some m1 \<Rightarrow> func s (pData it) (store32 m1 (pSize it) (tag f))))"

subsection \<open>Pointer fields\<close>

text \<open>The number of entries to allocate when \<open>n\<close> bytes of packed input are left.\<close>

definition grow_packed :: "u64 \<Rightarrow> nat \<Rightarrow> u32 \<Rightarrow> u64" where
  "grow_packed allocated n data_sz =
     (let remain = (of_nat n - 1) div ucast data_sz + 1
      in if remain < ucast PB_SIZE_MAX - allocated then allocated + remain else allocated + 1)"

text \<open>The result is \<open>(status, stream, substream, memory)\<close>.\<close>

fun pointer_packed_loop ::
  "item_decoder \<Rightarrow> msg_action \<Rightarrow> pb_field \<Rightarrow> pb_field_iter \<Rightarrow> nat \<Rightarrow>
   pb_istream \<Rightarrow> pb_istream \<Rightarrow> cmem \<Rightarrow> u64 \<Rightarrow> (bool \<times> pb_istream \<times> pb_istream \<times> cmem) option" where
  "pointer_packed_loop func dfl f it 0 s sub m allocated = None"
| "pointer_packed_loop func dfl f it (Suc k) s sub m allocated =
     (if i_bytes_left sub = 0 then Some (True, s, sub, m)
      else
        let n = load32 m (pSize it) in
        if n = PB_SIZE_MAX then Some (False, s\<lparr>i_errmsg := Some ''too many array entries''\<rparr>, sub, m)
        else
          let full = (ucast n + 1 > allocated);
              allocated' = (if full then grow_packed allocated (i_bytes_left sub) (data_size f) else allocated)
          in
          if full \<and> data_size f = 0 then None
          else
            (case (if full then allocate_field sub (pData it) (ucast (data_size f)) allocated' m
                   else (True, sub, m)) of (ok, sub1, m1) \<Rightarrow>
               if \<not> ok then Some (False, s, sub1, m1)
               else
                 let pItem = item_addr (load_ptr m1 (pData it)) f (load32 m1 (pSize it)) in
                 if pItem = NULL then Some (False, s, sub1, m1)
                 else
                   (case initialize_pointer_field dfl pItem f m1 of
                      None \<Rightarrow> None
                    | Some m2 \<Rightarrow>
                        (case func sub1 pItem m2 of
                           None \<Rightarrow> None
                         | Some (ok, sub2, m3) \<Rightarrow>
                             if \<not> ok then Some (False, s, sub2, m3)
                             else pointer_packed_loop func dfl f it k s sub2
                                    (store32 m3 (pSize it) (load32 m3 (pSize it) + 1)) allocated'))))"

definition decode_pointer_repeated ::
  "pb_env \<Rightarrow> item_decoder \<Rightarrow> msg_action \<Rightarrow> pb_istream \<Rightarrow> u32 \<Rightarrow> pb_field \<Rightarrow> pb_field_iter \<Rightarrow> cmem \<Rightarrow> dres"
where
  "decode_pointer_repeated env func dfl s wire_type f it m =
     (if wire_type = PB_WT_STRING \<and> ltype f \<le> PB_LTYPE_LAST_PACKABLE then
        (case pb_make_string_substream env s of (ok, s', sub) \<Rightarrow>
           if \<not> ok then Some (False, s', m)
           else map_option (\<lambda>(status, s'', sub', m'). close_with env s'' (status, sub', m'))
                  (pointer_packed_loop func dfl f it (Suc (i_bytes_left sub)) s' sub m
                     (ucast (load32 m (pSize it)))))
      else
        let n = load32 m (pSize it) in
        if n = PB_SIZE_MAX then Some (False, PB_SET_ERROR_i s ''too many array entries'', m)
        else
          (case allocate_field s (pData it) (ucast (data_size f)) (ucast (n + 1)) m of (ok, s', m1) \<Rightarrow>
             if \<not> ok then Some (False, s', m1)
             else
               let pItem = item_addr (load_ptr m1 (pData it)) f (load32 m1 (pSize it));
                   m2 = store32 m1 (pSize it) (load32 m1 (pSize it) + 1)
               in (case initialize_pointer_field dfl pItem f m2 of
                     None \<Rightarrow> None
                   | Some m3 \<Rightarrow> func s' pItem m3)))"

definition decode_pointer_field ::
  "pb_env \<Rightarrow> msg_decoder \<Rightarrow> nat \<Rightarrow> pb_istream \<Rightarrow> u32 \<Rightarrow> pb_field_iter \<Rightarrow> cmem \<Rightarrow> dres" where
  "decode_pointer_field env dec n s wire_type it m =
     (let f = iter_field env it;
          func = (\<lambda>s dest m. PB_DECODERS env dec s f dest m);
          dfl = pb_message_set_to_defaults env n
      in
      if htype f = PB_HTYPE_REPEATED then decode_pointer_repeated env func dfl s wire_type f it m
      else
        (case (if ltype f = PB_LTYPE_SUBMESSAGE \<and> load_ptr m (pData it) \<noteq> NULL
               then pb_release_single_field env (pb_release env n) n it m else Some m) of
           None \<Rightarrow> None
         | Some m1 \<Rightarrow>
             let m2 = (if htype f = PB_HTYPE_ONEOF then store32 m1 (pSize it) (tag f) else m1) in
             if ltype f = PB_LTYPE_STRING \<or> ltype f = PB_LTYPE_BYTES then func s (pData it) m2
             else
               (case allocate_field s (pData it) (ucast (data_size f)) 1 m2 of (ok, s', m3) \<Rightarrow>
                  if \<not> ok then Some (False, s', m3)
                  else
                    (case initialize_pointer_field dfl (load_ptr m3 (pData it)) f m3 of
                       None \<Rightarrow> None
                     | Some m4 \<Rightarrow> func s' (load_ptr m4 (pData it)) m4))))"

subsection \<open>Callback fields\<close>

fun decode_callback_loop ::
  "pb_env \<Rightarrow> nat \<Rightarrow> pb_field \<Rightarrow> addr \<Rightarrow> pb_istream \<Rightarrow> cmem \<Rightarrow> dres" where
  "decode_callback_loop env 0 f p sub m = None"
| "decode_callback_loop env (Suc k) f p sub m =
     (if load_ptr m p = NULL then None
      else (case fn_decode env (load_ptr m p) sub f (p + 8) m of (ok, sub', m') \<Rightarrow>
              if \<not> ok then Some (False, sub', m')
              else if i_bytes_left sub' \<noteq> 0 then decode_callback_loop env k f p sub' m'
              else Some (True, sub', m')))"

definition decode_callback_field ::
  "pb_env \<Rightarrow> nat \<Rightarrow> pb_istream \<Rightarrow> u32 \<Rightarrow> pb_field_iter \<Rightarrow> cmem \<Rightarrow> dres" where
  "decode_callback_field env n s wire_type it m =
     (let f = iter_field env it; p = pData it in
      if p = NULL \<or> load_ptr m p = NULL
      then Some (case pb_skip_field env s wire_type of (ok, s') \<Rightarrow> (ok, s', m))
      else if wire_type = PB_WT_STRING then
        (case pb_make_string_substream env s of (ok, s', sub) \<Rightarrow>
           if \<not> ok then Some (False, s', m)
           else (case decode_callback_loop env n f p sub m of
                   None \<Rightarrow> None
                 | Some (ok, sub', m') \<Rightarrow>
                     if \<not> ok then Some (False, PB_SET_ERROR_i s' ''callback failed'', m')
                     else Some (close_with env s' (True, sub', m'))))
      else
        (case read_raw_value env s wire_type 10 of (ok, buffer, s') \<Rightarrow>
           if \<not> ok then Some (False, s', m)
           else (case fn_decode env (load_ptr m p) (pb_istream_from_buffer buffer (length buffer)) f (p + 8) m of
                   (ok, sub', m') \<Rightarrow> Some (ok, s', m'))))"

subsection \<open>Any field\<close>

text \<open>The result carries the iterator, which the release of an old union member can move.\<close>

definition decode_field ::
  "pb_env \<Rightarrow> msg_decoder \<Rightarrow> nat \<Rightarrow> pb_istream \<Rightarrow> u32 \<Rightarrow> pb_field_iter \<Rightarrow> cmem \<Rightarrow>
   (bool \<times> pb_field_iter \<times> pb_istream \<times> cmem) option" where
  "decode_field env dec n s wire_type it m =
     (case (if htype (iter_field env it) = PB_HTYPE_ONEOF then pb_release_union_field env n s it m
            else Some (True, it, s, m)) of
        None \<Rightarrow> None
      | Some (ok, it, s, m) \<Rightarrow>
          if \<not> ok then Some (False, it, s, m)
          else
            let at = atype (iter_field env it) in
            map_option (\<lambda>(ok, s, m). (ok, it, s, m))
              (if at = PB_ATYPE_STATIC
               then decode_static_field env dec (pb_message_set_to_defaults env n) s wire_type it m
               else if at = PB_ATYPE_POINTER then decode_pointer_field env dec n s wire_type it m
               else if at = PB_ATYPE_CALLBACK then decode_callback_field env n s wire_type it m
               else Some (False, PB_SET_ERROR_i s ''invalid field type'', m)))"

subsection \<open>Extensions\<close>

definition default_extension_decoder ::
  "pb_env \<Rightarrow> msg_decoder \<Rightarrow> nat \<Rightarrow> pb_istream \<Rightarrow> addr \<Rightarrow> u32 \<Rightarrow> u32 \<Rightarrow> cmem \<Rightarrow> dres" where
  "default_extension_decoder env dec n s e t wire_type m =
     (if tag (field_at env (ext_arg m e) 0) \<noteq> t then Some (True, s, m)
      else map_option (\<lambda>(ok, it, s, m). (ok, s, m))
             (decode_field env dec n s wire_type (iter_from_extension env m e) (store8 m (e + 24) 1)))"

fun decode_extension_loop ::
  "pb_env \<Rightarrow> msg_decoder \<Rightarrow> nat \<Rightarrow> nat \<Rightarrow> nat \<Rightarrow> pb_istream \<Rightarrow> u32 \<Rightarrow> u32 \<Rightarrow> addr \<Rightarrow> cmem \<Rightarrow> dres" where
  "decode_extension_loop env dec n 0 p s t wire_type e m = None"
| "decode_extension_loop env dec n (Suc k) p s t wire_type e m =
     (if e \<noteq> NULL \<and> p = i_bytes_left s then
        (case (let fn = load_ptr m (ext_type m e) in
               if fn \<noteq> NULL then Some (fn_ext_decode env fn s e t wire_type m)
               else default_extension_decoder env dec n s e t wire_type m) of
           None \<Rightarrow> None
         | Some (ok, s', m') \<Rightarrow>
             if \<not> ok then Some (False, s', m')
             else decode_extension_loop env dec n k p s' t wire_type (ext_next m' e) m')
      else Some (True, s, m))"

definition decode_extension ::
  "pb_env \<Rightarrow> msg_decoder \<Rightarrow> nat \<Rightarrow> pb_istream \<Rightarrow> u32 \<Rightarrow> u32 \<Rightarrow> pb_field_iter \<Rightarrow> cmem \<Rightarrow> dres" where
  "decode_extension env dec n s t wire_type it m =
     decode_extension_loop env dec n n (i_bytes_left s) s t wire_type (load_ptr m (pData it)) m"

fun find_extension_loop :: "pb_env \<Rightarrow> nat \<Rightarrow> nat \<Rightarrow> pb_field_iter \<Rightarrow> (bool \<times> pb_field_iter) option" where
  "find_extension_loop env 0 k0 it = None"
| "find_extension_loop env (Suc k) k0 it =
     (if ltype (iter_field env it) = PB_LTYPE_EXTENSION then Some (True, it)
      else
        let it' = snd (pb_field_iter_next env it) in
        if pos it' = k0 then Some (False, it') else find_extension_loop env k k0 it')"

definition find_extension_field :: "pb_env \<Rightarrow> pb_field_iter \<Rightarrow> (bool \<times> pb_field_iter) option" where
  "find_extension_field env it = find_extension_loop env (Suc (length (fields_at env (start it)))) (pos it) it"

subsection \<open>Whole messages\<close>

text \<open>
  The local variables of \<^verbatim>\<open>pb_decode_noinit\<close>. \<open>fixed_count_field\<close> is the index of the entry the C
  pointer refers to. \<^verbatim>\<open>fixed_count_size\<close> has its address taken: it lives at \<open>local_addr n\<close>, below
  all objects and different for every nesting depth.
\<close>

record decode_locals =
  l_iter :: pb_field_iter
  fields_seen :: "u32 list"
  extension_range_start :: u32
  fixed_count_field :: "nat option"

definition local_addr :: "nat \<Rightarrow> addr" where
  "local_addr n = - 8 * (int n + 1)"

datatype loop_exit = L_continue | L_break | L_return bool

type_synonym step_result = "(loop_exit \<times> decode_locals \<times> pb_istream \<times> cmem) option"

text \<open>The branch for a tag that no entry has.\<close>

definition decode_unknown ::
  "pb_env \<Rightarrow> msg_decoder \<Rightarrow> nat \<Rightarrow> u32 \<Rightarrow> u32 \<Rightarrow> decode_locals \<Rightarrow> pb_istream \<Rightarrow> cmem \<Rightarrow> step_result" where
  "decode_unknown env dec n t wire_type l s m =
     (let skip = (\<lambda>l s m. case pb_skip_field env s wire_type of (ok, s') \<Rightarrow>
                    Some (if ok then L_continue else L_return False, l, s', m))
      in
      if t \<ge> extension_range_start l then
        (case find_extension_field env (l_iter l) of
           None \<Rightarrow> None
         | Some (found, it) \<Rightarrow>
             let start_tag = (if found then tag (iter_field env it) else - 1);
                 l1 = l\<lparr>l_iter := it, extension_range_start := start_tag\<rparr>
             in
             if t \<ge> start_tag then
               (case decode_extension env dec n s t wire_type it m of
                  None \<Rightarrow> None
                | Some (ok, s', m') \<Rightarrow>
                    if \<not> ok then Some (L_return False, l1, s', m')
                    else if i_bytes_left s \<noteq> i_bytes_left s' then Some (L_continue, l1, s', m')
                    else skip l1 s' m')
             else skip l1 s m)
      else skip l s m)"

text \<open>The element count of the fixed count field whose decoding is under way is right.\<close>

definition fixed_count_ok :: "pb_env \<Rightarrow> addr \<Rightarrow> nat \<Rightarrow> decode_locals \<Rightarrow> cmem \<Rightarrow> bool" where
  "fixed_count_ok env a n l m =
     (case fixed_count_field l of
        None \<Rightarrow> True
      | Some i \<Rightarrow> load32 m (local_addr n) = array_size (field_at env a i))"

definition mark_seen :: "pb_env \<Rightarrow> pb_field_iter \<Rightarrow> u32 list \<Rightarrow> u32 list" where
  "mark_seen env it seen =
     (let r = required_field_index it in
      if htype (iter_field env it) = PB_HTYPE_REQUIRED \<and> r < PB_MAX_REQUIRED_FIELDS
      then seen[r div 32 := seen ! (r div 32) OR push_bit (r mod 32) 1]
      else seen)"

text \<open>The branch for a tag found at \<open>l_iter l\<close>.\<close>

definition decode_known ::
  "pb_env \<Rightarrow> msg_decoder \<Rightarrow> nat \<Rightarrow> addr \<Rightarrow> u32 \<Rightarrow> decode_locals \<Rightarrow> pb_istream \<Rightarrow> cmem \<Rightarrow> step_result" where
  "decode_known env dec n a wire_type l s m =
     (let it = l_iter l;
          fixed = (htype (iter_field env it) = PB_HTYPE_REPEATED \<and> pSize it = pData it);
          switch = (fixed \<and> fixed_count_field l \<noteq> Some (pos it))
      in
      if switch \<and> \<not> fixed_count_ok env a n l m
      then Some (L_return False, l, PB_SET_ERROR_i s ''wrong size for fixed count field'', m)
      else
        let m1 = (if switch then store32 m (local_addr n) 0 else m);
            it1 = (if fixed then it\<lparr>pSize := local_addr n\<rparr> else it);
            l1 = l\<lparr>l_iter := it1, fields_seen := mark_seen env it (fields_seen l),
                   fixed_count_field := (if switch then Some (pos it) else fixed_count_field l)\<rparr>
        in
        map_option (\<lambda>(ok, it2, s', m'). (if ok then L_continue else L_return False, l1\<lparr>l_iter := it2\<rparr>, s', m'))
          (decode_field env dec n s wire_type it1 m1))"

definition decode_step ::
  "pb_env \<Rightarrow> msg_decoder \<Rightarrow> nat \<Rightarrow> addr \<Rightarrow> decode_locals \<Rightarrow> pb_istream \<Rightarrow> cmem \<Rightarrow> step_result" where
  "decode_step env dec n a l s m =
     (case pb_decode_tag env s of (ok, wire_type, t, eof, s') \<Rightarrow>
        if \<not> ok then Some (if eof then L_break else L_return False, l, s', m)
        else
          (case pb_field_iter_find env (l_iter l) t of
             None \<Rightarrow> None
           | Some (found, it) \<Rightarrow>
               if found then decode_known env dec n a wire_type (l\<lparr>l_iter := it\<rparr>) s' m
               else decode_unknown env dec n t wire_type (l\<lparr>l_iter := it\<rparr>) s' m))"

text \<open>
  The loop \<^verbatim>\<open>while (stream->bytes_left)\<close>, started with one round more than the stream has bytes: a
  round reads a tag. The result of a \<^verbatim>\<open>return\<close> inside is \<open>L_return\<close>.
\<close>

fun decode_loop ::
  "pb_env \<Rightarrow> msg_decoder \<Rightarrow> nat \<Rightarrow> addr \<Rightarrow> nat \<Rightarrow> decode_locals \<Rightarrow> pb_istream \<Rightarrow> cmem \<Rightarrow> step_result" where
  "decode_loop env dec n a 0 l s m = None"
| "decode_loop env dec n a (Suc k) l s m =
     (if i_bytes_left s = 0 then Some (L_break, l, s, m)
      else
        (case decode_step env dec n a l s m of
           None \<Rightarrow> None
         | Some (e, l', s', m') \<Rightarrow>
             if e = L_continue then decode_loop env dec n a k l' s' m' else Some (e, l', s', m')))"

text \<open>
  The loop to the end of the descriptor array: \<^verbatim>\<open>req_field_count\<close>, \<^verbatim>\<open>last_type\<close> and the iterator.
\<close>

fun required_count_loop :: "pb_env \<Rightarrow> nat \<Rightarrow> pb_field_iter \<Rightarrow> (nat \<times> u8 \<times> pb_field_iter) option" where
  "required_count_loop env 0 it = None"
| "required_count_loop env (Suc k) it =
     (case pb_field_iter_next env it of (again, it') \<Rightarrow>
        if again then required_count_loop env k it'
        else Some (required_field_index it, ftype (iter_field env it), it'))"

definition required_count :: "pb_env \<Rightarrow> pb_field_iter \<Rightarrow> nat option" where
  "required_count env it =
     (case required_count_loop env (Suc (length (fields_at env (start it)))) it of
        None \<Rightarrow> None
      | Some (c, last_type, it') \<Rightarrow>
          let c' = (if PB_HTYPE last_type = PB_HTYPE_REQUIRED \<and> tag (iter_field env it') \<noteq> 0 then Suc c else c)
          in Some (if c' > PB_MAX_REQUIRED_FIELDS then PB_MAX_REQUIRED_FIELDS else c'))"

text \<open>The first \<open>c\<close> bits of \<^verbatim>\<open>fields_seen\<close>: whole words, then the rest.\<close>

definition required_all_seen :: "nat \<Rightarrow> u32 list \<Rightarrow> bool" where
  "required_all_seen c seen =
     (c > 0 \<longrightarrow>
        (\<forall>i \<in> set [0..<c div 32]. seen ! i = - 1) \<and>
        (c mod 32 \<noteq> 0 \<longrightarrow> seen ! (c div 32) = drop_bit (32 - c mod 32) (- 1)))"

fun pb_decode_noinit :: "pb_env \<Rightarrow> nat \<Rightarrow> pb_istream \<Rightarrow> addr \<Rightarrow> addr \<Rightarrow> cmem \<Rightarrow> dres"
and pb_decode :: "pb_env \<Rightarrow> nat \<Rightarrow> pb_istream \<Rightarrow> addr \<Rightarrow> addr \<Rightarrow> cmem \<Rightarrow> dres" where
  "pb_decode_noinit env 0 s a d m = None"
| "pb_decode_noinit env (Suc n) s a d m =
     (let dec = (\<lambda>init s a d m. if init then pb_decode env n s a d m else pb_decode_noinit env n s a d m);
          l = \<lparr>l_iter = snd (pb_field_iter_begin env a d), fields_seen = [0, 0],
               extension_range_start = 0, fixed_count_field = None\<rparr>
      in case decode_loop env dec n a (Suc (i_bytes_left s)) l s m of
           None \<Rightarrow> None
         | Some (e, l', s', m') \<Rightarrow>
             (case e of
                L_return b \<Rightarrow> Some (b, s', m')
              | _ \<Rightarrow>
                  if \<not> fixed_count_ok env a n l' m'
                  then Some (False, PB_SET_ERROR_i s' ''wrong size for fixed count field'', m')
                  else
                    (case required_count env (l_iter l') of
                       None \<Rightarrow> None
                     | Some c \<Rightarrow>
                         if required_all_seen c (fields_seen l') then Some (True, s', m')
                         else Some (False, PB_SET_ERROR_i s' ''missing required field'', m'))))"
| "pb_decode env 0 s a d m = None"
| "pb_decode env (Suc n) s a d m =
     (case pb_message_set_to_defaults env (Suc n) a d m of
        None \<Rightarrow> None
      | Some m1 \<Rightarrow>
          (case pb_decode_noinit env n s a d m1 of
             None \<Rightarrow> None
           | Some (status, s', m2) \<Rightarrow>
               if status then Some (True, s', m2)
               else map_option (\<lambda>m3. (False, s', m3)) (pb_release env (Suc n) a d m2)))"

definition pb_decode_delimited_noinit :: "pb_env \<Rightarrow> nat \<Rightarrow> pb_istream \<Rightarrow> addr \<Rightarrow> addr \<Rightarrow> cmem \<Rightarrow> dres" where
  "pb_decode_delimited_noinit env n s a d m =
     (case pb_make_string_substream env s of (ok, s', sub) \<Rightarrow>
        if \<not> ok then Some (False, s', m)
        else map_option (close_with env s') (pb_decode_noinit env n sub a d m))"

definition pb_decode_delimited :: "pb_env \<Rightarrow> nat \<Rightarrow> pb_istream \<Rightarrow> addr \<Rightarrow> addr \<Rightarrow> cmem \<Rightarrow> dres" where
  "pb_decode_delimited env n s a d m =
     (case pb_make_string_substream env s of (ok, s', sub) \<Rightarrow>
        if \<not> ok then Some (False, s', m)
        else map_option (close_with env s') (pb_decode env n sub a d m))"

definition pb_decode_nullterminated :: "pb_env \<Rightarrow> nat \<Rightarrow> pb_istream \<Rightarrow> addr \<Rightarrow> addr \<Rightarrow> cmem \<Rightarrow> dres" where
  "pb_decode_nullterminated env n s a d m = pb_decode env n s a d m"

end
