(* ===== verification/Pb_Example.thy ===== *)
theory Pb_Example
  imports Pb_Wire Pb_Decode
begin

text \<open>
  A small program to evaluate the theorems on: a message type with a required 32-bit unsigned field
  (tag 1) and an optional string of at most seven characters with a has-flag (tag 2), and one message
  of it in memory at address 100.
\<close>

definition example_fields :: "pb_field list" where
  "example_fields =
     [\<lparr>tag = 1, ftype = 0x02, data_offset = 0, size_offset = 0, data_size = 4, array_size = 0, fptr = NULL\<rparr>,
      \<lparr>tag = 2, ftype = 0x17, data_offset = 1, size_offset = - 1, data_size = 8, array_size = 0, fptr = NULL\<rparr>]"

definition example_env :: pb_env where
  "example_env =
     \<lparr>fields_at = (\<lambda>a. if a = 1000 then example_fields else []),
      fn_write = (\<lambda>_ st bs. (True, st)), fn_read = (\<lambda>_ st n. (False, [], st)),
      fn_encode = (\<lambda>_ _ s _ _. (True, s)), fn_decode = (\<lambda>_ s _ _ m. (True, s, m)),
      fn_ext_encode = (\<lambda>_ _ s _. (True, s)), fn_ext_decode = (\<lambda>_ s _ _ _ m. (True, s, m))\<rparr>"

definition example_bytes :: "u8 list" where
  "example_bytes = [0x2C, 0x01, 0, 0, 1, 0x68, 0x69, 0, 0, 0, 0, 0, 0]"

definition example_mem :: cmem where
  "example_mem =
     \<lparr>bytes = (\<lambda>x. if 100 \<le> x \<and> x < 113 then example_bytes ! nat (x - 100) else 0),
      heap_top = 10000, heap_limit = 20000, blocks = [], bad_free = False\<rparr>"

lemma example_env_simps [simp]:
  "fields_at example_env a = (if a = 1000 then example_fields else [])"
  by (simp add: example_env_def)

lemma wf_example [simp]: "wf_env example_env"
  by (simp add: wf_env_def wf_fields_def example_fields_def)

definition example_wire :: "u8 list" where
  "example_wire = [0x08, 0xAC, 0x02, 0x12, 0x02, 0x68, 0x69]"

lemma example_spec [simp]:
  "spec_message example_env example_mem 2 1000 100 = Some (Some example_wire)"
  by code_simp

end
