(* ===== verification/Pb_Safety.thy ===== *)
theory Pb_Safety
  imports Pb_Decode
begin

text \<open>
  Memory safety of the decoder on arbitrary input. For a message type without pointer, callback and
  extension fields, decoding writes only into the destination structure (and into local
  variables), whatever the input stream delivers: the array counters, string lengths and
  submessage contents that the input controls cannot make it write elsewhere, and the heap is not used.
\<close>

subsection \<open>Footprints\<close>

definition touches :: "addr set \<Rightarrow> cmem \<Rightarrow> cmem \<Rightarrow> bool" where
  "touches A m m' \<longleftrightarrow> unchanged_outside A m m' \<and> heap_top m' = heap_top m \<and>
                    heap_limit m' = heap_limit m \<and> blocks m' = blocks m \<and> bad_free m' = bad_free m"

lemma touches_refl [simp, intro]: "touches A m m"
  by (simp add: touches_def)

lemma touches_trans [trans]: "touches A m m' \<Longrightarrow> touches A m' m'' \<Longrightarrow> touches A m m''"
  by (auto simp: touches_def elim: unchanged_trans)

lemma touches_mono: "touches A m m' \<Longrightarrow> A \<subseteq> B \<Longrightarrow> touches B m m'"
  by (auto simp: touches_def elim: unchanged_mono)

lemma touches_mstore [frame_rules]: "span a (int (length bs)) \<subseteq> A \<Longrightarrow> touches A m (mstore m a bs)"
  by (simp add: touches_def unchanged_mstore) (simp add: mstore_def)

lemma touches_store [frame_rules]:
  "span a 1 \<subseteq> A \<Longrightarrow> touches A m (store8 m a b)"
  "span a 2 \<subseteq> A \<Longrightarrow> touches A m (store16 m a w)"
  "span a 4 \<subseteq> A \<Longrightarrow> touches A m (store32 m a x)"
  "span a 8 \<subseteq> A \<Longrightarrow> touches A m (store64 m a y)"
  by (simp_all add: store8_def store16_def store32_def store64_def touches_mstore)

lemma touches_copy [frame_rules]:
  "span a (int n) \<subseteq> A \<Longrightarrow> touches A m (memset0 m a n)"
  "span a (int n) \<subseteq> A \<Longrightarrow> touches A m (memcpy m a b n)"
  by (simp_all add: memset0_def memcpy_def touches_mstore)

lemma span_mono: "a \<le> b \<Longrightarrow> b + n \<le> a + k \<Longrightarrow> span b n \<subseteq> span a k"
  by (auto simp: span_def)

lemma span_sub: "0 \<le> p \<Longrightarrow> p + n \<le> sz \<Longrightarrow> span (d + p) n \<subseteq> span d sz"
  by (rule span_mono) auto

text \<open>The same for a result with a status and a stream.\<close>

definition dtouches :: "addr set \<Rightarrow> cmem \<Rightarrow> bool \<times> pb_istream \<times> cmem \<Rightarrow> bool" where
  "dtouches A m r \<longleftrightarrow> touches A m (snd (snd r))"

definition dtouches_opt :: "addr set \<Rightarrow> cmem \<Rightarrow> dres \<Rightarrow> bool" where
  "dtouches_opt A m r \<longleftrightarrow> (\<forall>x. r = Some x \<longrightarrow> dtouches A m x)"

lemma dtouches_simps [simp]:
  "dtouches A m (ok, s, m') \<longleftrightarrow> touches A m m'"
  "dtouches_opt A m None"
  "dtouches_opt A m (Some x) \<longleftrightarrow> dtouches A m x"
  by (simp_all add: dtouches_def dtouches_opt_def)

text \<open>
  What the documentation of \<^verbatim>\<open>pb_istream_t\<close> asks of an application's stream callback: it stores the
  bytes that were asked for, no more.
\<close>

definition reads_bounded :: "pb_env \<Rightarrow> bool" where
  "reads_bounded env \<longleftrightarrow> (\<forall>f st n. length (fst (snd (fn_read env f st n))) \<le> n)"

lemma read_length: "reads_bounded env \<Longrightarrow> pb_read env s n = (ok, bs, s') \<Longrightarrow> length bs \<le> n"
  by (auto simp: reads_bounded_def pb_read_def pb_read_direct_def istream_callback_def buf_read_def
      split: if_splits prod.splits pb_icallback.splits) (metis fst_conv snd_conv)+

lemma read_mem_touches [frame_rules]:
  assumes "reads_bounded env" and "span dest (int n) \<subseteq> A"
  shows "dtouches A m (pb_read_mem env s dest n m)"
proof (cases "pb_read env s n")
  case (fields ok bs s')
  then have "span dest (int (length bs)) \<subseteq> A"
    using read_length [OF assms(1), of s n] assms(2) by (force simp: span_def)
  with fields show ?thesis by (simp add: pb_read_mem_def touches_mstore)
qed

subsection \<open>Field decoders\<close>

text \<open>The smallest field size that holds what the decoder of the type stores.\<close>

definition min_width :: "u8 \<Rightarrow> int" where
  "min_width lt = (if lt = PB_LTYPE_BOOL then 1 else if lt = PB_LTYPE_FIXED32 then 4
                   else if lt = PB_LTYPE_FIXED64 then 8 else 0)"

lemma store_checked_touches:
  assumes "\<And>m' c. r = Some (m', c) \<Longrightarrow> touches A m m'"
  shows "dtouches A m (store_checked r v s m)"
  using assms by (auto simp: store_checked_def split: option.splits)

lemma store_signed_touches:
  "span dest (uint sz) \<subseteq> A \<Longrightarrow> store_signed sz dest v m = Some (m', c) \<Longrightarrow> touches A m m'"
  by (auto simp: store_signed_def intro!: frame_rules split: if_splits)

lemma store_unsigned_touches:
  "span dest (uint sz) \<subseteq> A \<Longrightarrow> store_unsigned sz dest v m = Some (m', c) \<Longrightarrow> touches A m m'"
  by (auto simp: store_unsigned_def intro!: frame_rules split: if_splits)

lemma dec_int_touches:
  assumes "span dest (uint (data_size f)) \<subseteq> A"
  shows "dtouches A m (pb_dec_varint env s f dest m)"
    and "dtouches A m (pb_dec_uvarint env s f dest m)"
    and "dtouches A m (pb_dec_svarint env s f dest m)"
  using assms
  by (auto simp: pb_dec_varint_def pb_dec_uvarint_def pb_dec_svarint_def Let_def split: prod.splits
      intro!: store_checked_touches dest: store_signed_touches store_unsigned_touches)

lemma dec_fixed_touches:
  "span dest 1 \<subseteq> A \<Longrightarrow> dtouches A m (pb_dec_bool env s dest m)"
  "span dest 4 \<subseteq> A \<Longrightarrow> dtouches A m (pb_dec_fixed32 env s dest m)"
  "span dest 8 \<subseteq> A \<Longrightarrow> dtouches A m (pb_dec_fixed64 env s dest m)"
  by (auto simp: pb_dec_bool_def pb_dec_fixed32_def pb_dec_fixed64_def split: prod.splits intro!: frame_rules)

lemma dtouches_after:
  "touches A m m1 \<Longrightarrow> dtouches A m1 r \<Longrightarrow> dtouches A m r"
  by (auto simp: dtouches_def elim: touches_trans)

lemma dtouches_opt_after:
  "touches A m m1 \<Longrightarrow> dtouches_opt A m1 r \<Longrightarrow> dtouches_opt A m r"
  by (cases r) (auto elim: touches_trans)

lemma dtouches_opt_mono: "dtouches_opt A m r \<Longrightarrow> A \<subseteq> B \<Longrightarrow> dtouches_opt B m r"
  by (cases r) (auto elim: touches_mono)

lemma alloc_le: "\<not> ucast d < (ucast x + 4 :: u64) \<Longrightarrow> uint (x :: u32) + 4 \<le> uint (d :: u32)"
proof -
  have x: "unat (ucast x + 4 :: u64) = unat x + 4"
    using unat_bound [of x] by (subst unat_add_no_wrap) (simp_all add: unat_ucast_u32)
  assume "\<not> ucast d < (ucast x + 4 :: u64)"
  then have "unat x + 4 \<le> unat d"
    by (simp add: word_less_nat_alt x unat_ucast_u32 linorder_not_less)
  then show ?thesis using uint_nat [of x] uint_nat [of d] by linarith
qed

lemma dec_bytes_touches:
  assumes "reads_bounded env" and "span dest (uint (data_size f)) \<subseteq> A" and "atype f \<noteq> PB_ATYPE_POINTER"
  shows "dtouches A m (pb_dec_bytes env s f dest m)"
proof (cases "pb_decode_varint32 env s")
  case (fields ok sz s')
  show ?thesis
  proof (cases "ucast (data_size f) < (ucast sz + 4 :: u64)")
    case True
    then show ?thesis using fields assms(3) by (simp add: pb_dec_bytes_def Let_def)
  next
    case False
    from alloc_le [OF this] have fit: "int (unat sz) + 4 \<le> uint (data_size f)" by simp
    then have a: "span dest 4 \<subseteq> A" by (intro order_trans [OF span_mono assms(2)]) linarith+
    have b: "span (dest + 4) (int (unat sz)) \<subseteq> A"
      using fit by (intro order_trans [OF span_mono assms(2)]) auto
    have "dtouches A m (pb_read_mem env s' (dest + 4) (unat sz) (store32 m dest sz))"
      by (rule dtouches_after [OF touches_store(3) [OF a] read_mem_touches [OF assms(1) b]])
    then show ?thesis using fields assms(3) by (simp add: pb_dec_bytes_def Let_def)
  qed
qed

lemma terminator_fits:
  assumes "\<not> ucast (x + 1 :: u32) < (ucast x :: u64)" and "\<not> ucast d < (ucast (x + 1) :: u64)"
  shows "uint (x :: u32) + 1 \<le> uint (d :: u32)"
proof -
  have le: "unat x \<le> unat (x + 1)" and d: "unat (x + 1) \<le> unat d"
    using assms by (simp_all add: word_less_nat_alt unat_ucast_u32 linorder_not_less)
  have "x + 1 \<noteq> 0"
  proof
    assume z: "x + 1 = 0"
    then have "unat x = 0" using le by simp
    then have "x = 0" by (simp add: unat_eq_zero)
    with z show False by simp
  qed
  then have "unat (x + 1) = unat x + 1" by (metis Suc_eq_plus1 add.commute unatSuc)
  with d show ?thesis using uint_nat [of x] uint_nat [of d] by linarith
qed

lemma dec_string_touches:
  assumes "reads_bounded env" and "span dest (uint (data_size f)) \<subseteq> A" and "atype f \<noteq> PB_ATYPE_POINTER"
  shows "dtouches A m (pb_dec_string env s f dest m)"
proof (cases "pb_decode_varint32 env s")
  case (fields ok sz s')
  let ?over = "ucast (sz + 1) < (ucast sz :: u64) \<or> ucast (data_size f) < (ucast (sz + 1) :: u64)"
  show ?thesis
  proof (cases ?over)
    case True
    then show ?thesis using fields assms(3) by (auto simp: pb_dec_string_def Let_def)
  next
    case False
    then have fit: "uint sz + 1 \<le> uint (data_size f)" by (intro terminator_fits) auto
    have end_in: "span (dest + uint sz) 1 \<subseteq> A"
      using fit by (intro order_trans [OF span_mono assms(2)]) auto
    have "span dest (int (unat sz)) \<subseteq> A"
      using fit by (intro order_trans [OF span_mono assms(2)]) auto
    then have "dtouches A m (pb_read_mem env s' dest (unat sz) m)"
      by (intro read_mem_touches assms(1))
    then show ?thesis
      using fields assms(3) False touches_store(1) [OF end_in]
      by (auto simp: pb_dec_string_def Let_def dtouches_def split: prod.splits elim: touches_trans)
  qed
qed

lemma dec_fixed_length_touches:
  assumes "reads_bounded env" and "span dest (uint (data_size f)) \<subseteq> A"
  shows "dtouches A m (pb_dec_fixed_length_bytes env s f dest m)"
  using assms read_mem_touches [of env dest "unat (data_size f)" A m]
  by (auto simp: pb_dec_fixed_length_bytes_def split: prod.splits intro!: frame_rules)

lemma close_with_touches: "dtouches A m r \<Longrightarrow> dtouches A m (close_with env s r)"
  by (cases r) (auto simp: close_with_def split: prod.splits)

lemma close_with_touches_opt: "dtouches_opt A m r \<Longrightarrow> dtouches_opt A m (map_option (close_with env s) r)"
  by (cases r) (simp_all add: close_with_touches)

definition msg_decoder_touches :: "msg_decoder \<Rightarrow> addr \<Rightarrow> addr \<Rightarrow> addr set \<Rightarrow> bool" where
  "msg_decoder_touches dec a d A \<longleftrightarrow> (\<forall>init s m. dtouches_opt A m (dec init s a d m))"

lemma dec_submessage_touches:
  assumes "msg_decoder_touches dec (fptr f) dest A"
  shows "dtouches_opt A m (pb_dec_submessage env dec s f dest m)"
  using assms
  by (auto simp: pb_dec_submessage_def msg_decoder_touches_def close_with_touches_opt split: prod.splits)

text \<open>A decoder writes inside the field.\<close>

lemma decoders_touch:
  assumes "reads_bounded env" and "span dest (uint (data_size f)) \<subseteq> A" and "atype f \<noteq> PB_ATYPE_POINTER"
    and "span dest (min_width (ltype f)) \<subseteq> A"
    and "ltype f = PB_LTYPE_SUBMESSAGE \<Longrightarrow> msg_decoder_touches dec (fptr f) dest A"
  shows "dtouches_opt A m (PB_DECODERS env dec s f dest m)"
proof -
  have 1: "span dest 1 \<subseteq> A" if "ltype f = PB_LTYPE_BOOL"
    using assms(4) that by (simp add: min_width_def)
  have 4: "span dest 4 \<subseteq> A" if "ltype f = PB_LTYPE_FIXED32"
    using assms(4) that by (simp add: min_width_def ltype_defs)
  have 8: "span dest 8 \<subseteq> A" if "ltype f = PB_LTYPE_FIXED64"
    using assms(4) that by (simp add: min_width_def ltype_defs)
  show ?thesis
    using assms 1 4 8
    by (simp add: PB_DECODERS_def Let_def dec_int_touches dec_fixed_touches dec_bytes_touches
        dec_string_touches dec_fixed_length_touches dec_submessage_touches)
qed

subsection \<open>Layouts\<close>

text \<open>
  \<open>layout_fits env k a sz\<close>: every entry of the descriptor array at \<open>a\<close> is a static field that lies,
  with its count or has-flag, in a structure of \<open>sz\<close> bytes; submessages nest at most \<open>k\<close> deep. It is
  what the generator guarantees of the structure it declares (an empty message type still
  has a one-byte structure).
\<close>

definition field_fits :: "(addr \<Rightarrow> int \<Rightarrow> bool) \<Rightarrow> int \<Rightarrow> pb_field \<Rightarrow> int \<Rightarrow> int \<Rightarrow> bool" where
  "field_fits sub sz f dp sp \<longleftrightarrow>
     atype f = PB_ATYPE_STATIC \<and> ltype f \<noteq> PB_LTYPE_EXTENSION \<and>
     ltype f \<le> PB_LTYPE_FIXED_LENGTH_BYTES \<and> min_width (ltype f) \<le> uint (data_size f) \<and>
     0 \<le> dp \<and> dp + field_extent f \<le> sz \<and>
     (ltype f = PB_LTYPE_SUBMESSAGE \<longrightarrow> sub (fptr f) (uint (data_size f))) \<and>
     (htype f = PB_HTYPE_OPTIONAL \<longrightarrow> sp \<noteq> dp \<longrightarrow> 0 \<le> sp \<and> sp + 1 \<le> sz) \<and>
     (htype f = PB_HTYPE_REPEATED \<or> htype f = PB_HTYPE_ONEOF \<longrightarrow> 0 \<le> sp \<and> sp + 4 \<le> sz)"

fun layout_fits :: "pb_env \<Rightarrow> nat \<Rightarrow> addr \<Rightarrow> int \<Rightarrow> bool" where
  "layout_fits env 0 a sz = False"
| "layout_fits env (Suc k) a sz =
     (1 \<le> sz \<and> sz < 2 ^ 32 \<and>
      (\<forall>i \<in> set [0..<length (fields_at env a)].
         field_fits (layout_fits env k) sz (fields_at env a ! i)
           (data_pos (fields_at env a) i) (size_pos (fields_at env a) i)))"

text \<open>The iterator's current field, with its count or has-flag, lies in \<open>A\<close>.\<close>

definition iter_safe :: "pb_env \<Rightarrow> (addr \<Rightarrow> int \<Rightarrow> bool) \<Rightarrow> addr set \<Rightarrow> pb_field_iter \<Rightarrow> bool" where
  "iter_safe env sub A it \<longleftrightarrow>
     (let f = iter_field env it in
      atype f = PB_ATYPE_STATIC \<and> ltype f \<noteq> PB_LTYPE_EXTENSION \<and>
      ltype f \<le> PB_LTYPE_FIXED_LENGTH_BYTES \<and>
      (htype f = PB_HTYPE_REPEATED \<longrightarrow> min_width (ltype f) \<le> uint (data_size f)) \<and>
      (htype f \<noteq> PB_HTYPE_REPEATED \<longrightarrow> span (pData it) (min_width (ltype f)) \<subseteq> A) \<and>
      0 < pData it \<and> span (pData it) (field_extent f) \<subseteq> A \<and> field_extent f < 2 ^ 32 \<and>
      (ltype f = PB_LTYPE_SUBMESSAGE \<longrightarrow> sub (fptr f) (uint (data_size f))) \<and>
      (htype f = PB_HTYPE_OPTIONAL \<longrightarrow> pSize it \<noteq> pData it \<longrightarrow> span (pSize it) 1 \<subseteq> A) \<and>
      (htype f = PB_HTYPE_REPEATED \<or> htype f = PB_HTYPE_ONEOF \<longrightarrow> span (pSize it) 4 \<subseteq> A))"

lemma iter_at_safe:
  assumes "layout_fits env (Suc k) a sz" and "0 < d" and "i < length (fields_at env a)"
  shows "iter_safe env (layout_fits env k) (span d sz) (iter_at env a d i)"
proof -
  have "field_fits (layout_fits env k) sz (fields_at env a ! i)
          (data_pos (fields_at env a) i) (size_pos (fields_at env a) i)"
    using assms by simp
  moreover have "sz < 2 ^ 32" using assms(1) by simp
  moreover have "field_extent f = uint (data_size f)"
    if "atype f = PB_ATYPE_STATIC" "htype f \<noteq> PB_HTYPE_REPEATED" for f
    using that by (simp add: field_extent_def atype_defs)
  ultimately show ?thesis
    using assms(2,3) unfolding iter_safe_def field_fits_def Let_def
    by (simp add: span_sub) (intro impI span_sub, auto)
qed

lemma iter_safe_mono: "iter_safe env sub A it \<Longrightarrow> A \<subseteq> B \<Longrightarrow> iter_safe env sub B it"
  unfolding iter_safe_def Let_def by blast

subsection \<open>Defaults and release\<close>

lemma visit_touches:
  assumes "\<forall>i \<in> set is. \<forall>m m' go. body i m = Some (m', go) \<longrightarrow> touches A m m'"
    and "visit body is m = Some m'"
  shows "touches A m m'"
  using assms
  by (induction "is" arbitrary: m) (fastforce split: option.splits if_splits elim: touches_trans)+

lemma static_default_touches:
  assumes "iter_safe env sub A it" and "f = iter_field env it" and "set_static_default dfl f it m = Some m'"
    and dfl: "\<And>a d sz m m'. sub a sz \<Longrightarrow> 0 < d \<Longrightarrow> dfl a d m = Some m' \<Longrightarrow> touches (span d sz) m m'"
  shows "touches A m m'"
proof -
  let ?m1 = "if htype f = PB_HTYPE_OPTIONAL \<and> pSize it \<noteq> pData it then store8 m (pSize it) 0
             else if htype f = PB_HTYPE_REPEATED \<or> htype f = PB_HTYPE_ONEOF then store32 m (pSize it) 0 else m"
  have m1: "touches A m ?m1"
    using assms(1,2) unfolding iter_safe_def Let_def by (auto intro!: frame_rules)
  have ext: "span (pData it) (uint (data_size f)) \<subseteq> A"
    if "htype f \<noteq> PB_HTYPE_REPEATED"
    using assms(1,2) that unfolding iter_safe_def Let_def field_extent_def
    by (auto simp: atype_defs split: if_splits)
  have "touches A ?m1 m'"
    using assms(1,2,3) ext dfl [of "fptr f" "uint (data_size f)" "pData it" ?m1 m']
    unfolding set_static_default_def iter_safe_def Let_def
    by (auto split: if_splits intro!: frame_rules elim: touches_mono)
  with m1 show ?thesis by (rule touches_trans)
qed

lemma loop_iters:
  assumes "wf_env env" and "d \<noteq> NULL"
  shows "(case pb_field_iter_begin env a d of (nonempty, it) \<Rightarrow>
            if \<not> nonempty then Some st else pb_field_loop env a body it st) =
         visit body (map (iter_at env a d) [0..<length (fields_at env a)]) st"
proof (cases "fields_at env a = []")
  case True
  then show ?thesis using begin_empty [OF True, of d] by (cases "pb_field_iter_begin env a d") simp
next
  case False
  then show ?thesis using assms by (simp add: begin_eq wf_env_def pb_field_loop_visits)
qed

lemma defaults_touch:
  assumes "wf_env env"
  shows "layout_fits env k a sz \<Longrightarrow> 0 < d \<Longrightarrow> pb_message_set_to_defaults env n a d m = Some m' \<Longrightarrow>
         touches (span d sz) m m'"
proof (induction n arbitrary: k a sz d m m')
  case 0
  then show ?case by simp
next
  case (Suc n)
  from Suc.prems(1) obtain k' where k: "k = Suc k'" by (cases k) auto
  let ?body = "\<lambda>it m. map_option (\<lambda>m. (m, True))
                 (pb_field_set_to_default env (pb_message_set_to_defaults env n) n it m)"
  have "visit ?body (map (iter_at env a d) [0..<length (fields_at env a)]) m = Some m'"
    using Suc.prems(2,3) loop_iters [OF assms, where d = d and a = a and st = m and body = ?body] by (simp add: NULL_def)
  moreover have "touches (span d sz) m m'"
    if i: "i < length (fields_at env a)"
      and b: "pb_field_set_to_default env (pb_message_set_to_defaults env n) n (iter_at env a d i) m = Some m'"
    for i m m'
  proof -
    have safe: "iter_safe env (layout_fits env k') (span d sz) (iter_at env a d i)"
      using Suc.prems(1,2) i unfolding k by (rule iter_at_safe)
    then have "set_static_default (pb_message_set_to_defaults env n) (iter_field env (iter_at env a d i))
        (iter_at env a d i) m = Some m'"
      using b by (cases n) (auto simp: iter_safe_def Let_def)
    with safe show ?thesis by (intro static_default_touches [OF safe refl _ Suc.IH])
  qed
  ultimately show ?case by (intro visit_touches [of _ ?body]) auto
qed

text \<open>Releasing a message without pointers changes nothing.\<close>

lemma release_items_same:
  assumes "\<And>p m m'. q \<le> p \<Longrightarrow> rel p m = Some m' \<Longrightarrow> m' = m" and "0 \<le> sz" and "q \<le> p"
    and "release_items rel sz c p m = Some m'"
  shows "m' = m"
  using assms(3,4)
proof (induction c arbitrary: p m)
  case 0
  then show ?case by simp
next
  case (Suc c)
  then obtain m1 where "rel p m = Some m1" and r: "release_items rel sz c (p + sz) m1 = Some m'"
    by (auto split: option.splits)
  then have "m1 = m" using assms(1) Suc.prems(1) by blast
  then show ?case using Suc.IH [of "p + sz" m] r Suc.prems(1) assms(2) by simp
qed

lemma visit_same:
  assumes "\<forall>i \<in> set is. \<forall>m m' go. body i m = Some (m', go) \<longrightarrow> m' = m" and "visit body is m = Some m'"
  shows "m' = m"
  using assms by (induction "is" arbitrary: m) (fastforce split: option.splits if_splits)+

lemma release_single_same:
  assumes "iter_safe env sub A it" and "pb_release_single_field env rel n it m = Some m'"
    and rel: "\<And>a d sz m m'. sub a sz \<Longrightarrow> 0 < d \<Longrightarrow> rel a d m = Some m' \<Longrightarrow> m' = m"
  shows "m' = m"
proof -
  obtain n' where n: "n = Suc n'" using assms(2) by (cases n) auto
  let ?f = "iter_field env it"
  have safe: "atype ?f = PB_ATYPE_STATIC" "ltype ?f \<noteq> PB_LTYPE_EXTENSION" "0 < pData it"
    "ltype ?f = PB_LTYPE_SUBMESSAGE \<Longrightarrow> sub (fptr ?f) (uint (data_size ?f))"
    using assms(1) by (auto simp: iter_safe_def Let_def)
  have "m' = m" if s: "ltype ?f = PB_LTYPE_SUBMESSAGE" and c: "release_contents rel ?f it m = Some m'"
  proof -
    have r: "0 < p \<Longrightarrow> rel (fptr ?f) p m = Some m' \<Longrightarrow> m' = m" for p m m'
      using rel safe(4) [OF s] by blast
    obtain c where items: "release_items (rel (fptr ?f)) (uint (data_size ?f)) c (pData it) m = Some m'"
      using c safe by (auto simp: release_contents_def Let_def atype_defs NULL_def)
    show ?thesis
    proof (rule release_items_same [OF _ _ order_refl items])
      fix p m m' assume "pData it \<le> p" and "rel (fptr ?f) p m = Some m'"
      then show "m' = m" using r safe(3) by (meson order_less_le_trans)
    qed simp
  qed
  then show ?thesis using assms(2) safe unfolding n
    by (auto simp: Let_def atype_defs split: if_splits)
qed

lemma release_same:
  assumes "wf_env env"
  shows "layout_fits env k a sz \<Longrightarrow> 0 < d \<Longrightarrow> pb_release env n a d m = Some m' \<Longrightarrow> m' = m"
proof (induction n arbitrary: k a sz d m m')
  case 0
  then show ?case by simp
next
  case (Suc n)
  from Suc.prems(1) obtain k' where k: "k = Suc k'" by (cases k) auto
  let ?body = "\<lambda>it m. map_option (\<lambda>m. (m, True)) (pb_release_single_field env (pb_release env n) n it m)"
  have "visit ?body (map (iter_at env a d) [0..<length (fields_at env a)]) m = Some m'"
    using Suc.prems(2,3) loop_iters [OF assms, where d = d and a = a and st = m and body = ?body] by (simp add: NULL_def)
  moreover have "m' = m"
    if i: "i < length (fields_at env a)"
      and b: "pb_release_single_field env (pb_release env n) n (iter_at env a d i) m = Some m'" for i m m'
    using iter_at_safe [OF Suc.prems(1) [unfolded k] Suc.prems(2) i] b Suc.IH
    by (rule release_single_same)
  ultimately show ?case by (intro visit_same [of _ ?body]) auto
qed

subsection \<open>Iterators during decoding\<close>

text \<open>
  The iterator of \<^verbatim>\<open>pb_decode_noinit\<close> stands at an entry of the array; at a repeated entry its
  \<^verbatim>\<open>pSize\<close> may have been redirected to the local variable at \<open>x\<close>.
\<close>

definition decode_iter :: "pb_env \<Rightarrow> addr \<Rightarrow> addr \<Rightarrow> addr \<Rightarrow> pb_field_iter \<Rightarrow> bool" where
  "decode_iter env a d x it \<longleftrightarrow>
     (if fields_at env a = [] then it = snd (pb_field_iter_begin env a d)
      else \<exists>k < length (fields_at env a).
             it = iter_at env a d k \<or>
             htype (fields_at env a ! k) = PB_HTYPE_REPEATED \<and> it = (iter_at env a d k)\<lparr>pSize := x\<rparr>)"

lemma decode_iter_begin: "wf_env env \<Longrightarrow> d \<noteq> NULL \<Longrightarrow> decode_iter env a d x (snd (pb_field_iter_begin env a d))"
  by (auto simp: decode_iter_def begin_eq wf_env_def)

lemma next_redirected:
  assumes "tag (iter_field env it) \<noteq> 0" and "htype (iter_field env it) \<noteq> PB_HTYPE_ONEOF"
  shows "pb_field_iter_next env (it\<lparr>pSize := x\<rparr>) = pb_field_iter_next env it"
  using assms by (simp add: pb_field_iter_next_def iter_field_def Let_def)

lemma decode_iter_next:
  assumes "wf_env env" and "d \<noteq> NULL" and "decode_iter env a d x it"
  shows "decode_iter env a d x (snd (pb_field_iter_next env it))"
proof (cases "fields_at env a = []")
  case True
  then have "it = snd (pb_field_iter_begin env a d)" using assms(3) by (simp add: decode_iter_def)
  then have "pb_field_iter_next env it = (False, it)"
    using True by (simp add: pb_field_iter_next_def pb_field_iter_begin_def iter_field_def Let_def)
  then show ?thesis using assms(3) by simp
next
  case False
  then obtain k where k: "k < length (fields_at env a)"
    and it: "it = iter_at env a d k \<or>
             htype (fields_at env a ! k) = PB_HTYPE_REPEATED \<and> it = (iter_at env a d k)\<lparr>pSize := x\<rparr>"
    using assms(3) by (auto simp: decode_iter_def)
  have wf: "wf_fields (fields_at env a)" using assms(1) by (simp add: wf_env_def)
  have "pb_field_iter_next env it = pb_field_iter_next env (iter_at env a d k)"
    using it k tag_nth [OF wf k] by (auto simp: htype_defs intro!: next_redirected)
  then have "snd (pb_field_iter_next env it) =
      iter_at env a d (if Suc k < length (fields_at env a) then Suc k else 0)"
    using next_iter_at [OF wf assms(2) k] by simp
  then show ?thesis using False by (auto simp: decode_iter_def)
qed

lemma decode_iter_find:
  assumes "wf_env env" and "d \<noteq> NULL" and "decode_iter env a d x it"
    and "pb_field_iter_find env it t = Some (found, it')"
  shows "decode_iter env a d x it'"
proof -
  have "pb_field_iter_find_loop env n k0 it t = Some (found, it') \<Longrightarrow> decode_iter env a d x it'" for n k0
    using assms(3)
    by (induction n arbitrary: it)
       (auto simp: Let_def decode_iter_next [OF assms(1,2)] split: if_splits)
  then show ?thesis using assms(4) by (simp only: pb_field_iter_find_def)
qed

lemma decode_iter_find_extension:
  assumes "wf_env env" and "d \<noteq> NULL" and "decode_iter env a d x it"
    and "find_extension_field env it = Some (found, it')"
  shows "decode_iter env a d x it'"
proof -
  have "find_extension_loop env n k0 it = Some (found, it') \<Longrightarrow> decode_iter env a d x it'" for n k0
    using assms(3)
    by (induction n arbitrary: it)
       (auto simp: Let_def decode_iter_next [OF assms(1,2)] split: if_splits)
  then show ?thesis using assms(4) by (simp only: find_extension_field_def)
qed

text \<open>Redirecting \<^verbatim>\<open>pSize\<close> of a fixed count field to the local variable.\<close>

lemma redirect_iter:
  assumes l: "decode_iter env a d x it"
  shows "decode_iter env a d x
           (if htype (iter_field env it) = PB_HTYPE_REPEATED \<and> pSize it = pData it then it\<lparr>pSize := x\<rparr> else it)"
proof (cases "htype (iter_field env it) = PB_HTYPE_REPEATED \<and> pSize it = pData it")
  case True
  have "fields_at env a \<noteq> []"
  proof
    assume e: "fields_at env a = []"
    then have "it = snd (pb_field_iter_begin env a d)" using l by (simp add: decode_iter_def)
    then have "iter_field env it = PB_LAST_FIELD"
      using e by (simp add: iter_field_def pb_field_iter_begin_def Let_def)
    then show False using True by (simp add: PB_LAST_FIELD_def type_defs)
  qed
  then obtain j where "j < length (fields_at env a)"
    and "it = iter_at env a d j \<or> it = (iter_at env a d j)\<lparr>pSize := x\<rparr>"
    using l by (auto simp: decode_iter_def)
  moreover from this have "iter_field env it = fields_at env a ! j" by (auto simp: iter_field_def)
  ultimately show ?thesis using True unfolding decode_iter_def by auto
next
  case False
  then show ?thesis using l by (simp only: if_False)
qed

text \<open>Wherever it stands, the field is inside the structure or the local variable.\<close>

lemma decode_iter_safe:
  assumes "layout_fits env (Suc k) a sz" and "0 < d" and "x < - 4" and "decode_iter env a d x it"
  shows "iter_safe env (layout_fits env k) (span d sz \<union> {..<0}) it"
proof (cases "fields_at env a = []")
  case True
  then have it: "it = snd (pb_field_iter_begin env a d)" using assms(4) by (simp add: decode_iter_def)
  show ?thesis
    using assms(1,2) True unfolding it
    by (auto simp: iter_safe_def pb_field_iter_begin_def iter_field_def PB_LAST_FIELD_def NULL_def
        field_extent_def type_defs min_width_def span_def)
next
  case False
  then obtain i where i: "i < length (fields_at env a)"
    and it: "it = iter_at env a d i \<or>
             htype (fields_at env a ! i) = PB_HTYPE_REPEATED \<and> it = (iter_at env a d i)\<lparr>pSize := x\<rparr>"
    using assms(4) by (auto simp: decode_iter_def)
  have safe: "iter_safe env (layout_fits env k) (span d sz \<union> {..<0}) (iter_at env a d i)"
    by (rule iter_safe_mono [OF iter_at_safe [OF assms(1,2) i]]) simp
  show ?thesis
  proof (cases "it = iter_at env a d i")
    case False
    moreover have "span x 4 \<subseteq> span d sz \<union> {..<0}" using assms(3) by (auto simp: span_def)
    ultimately show ?thesis
      using it i safe by (simp add: iter_safe_def Let_def iter_field_def htype_defs)
  qed (use safe in simp)
qed

subsection \<open>Static fields\<close>

text \<open>The 32-bit product in the item address does not wrap, and the item lies in the array.\<close>

lemma item_in_array:
  assumes "n < array_size f" and "uint (data_size f) * uint (array_size f) < 2 ^ 32"
    and "w \<le> uint (data_size f)"
  shows "span (item_addr base f n) w \<subseteq> span base (uint (data_size f) * uint (array_size f))"
    and "base \<le> item_addr base f n"
proof -
  let ?s = "uint (data_size f)" and ?c = "uint (array_size f)"
  have n: "uint n + 1 \<le> ?c" using assms(1) by (simp add: word_less_def)
  then have le: "?s * (uint n + 1) \<le> ?s * ?c" by (intro mult_left_mono) auto
  then have "?s * uint n < 2 ^ 32" using assms(2) uint_ge_0 [of "data_size f"]
    unfolding distrib_left by linarith
  then have "uint (data_size f * n) = ?s * uint n"
    by (simp add: uint_word_arith_bintrs take_bit_int_eq_self)
  moreover have "0 \<le> ?s * uint n" by simp
  moreover have "?s * uint n + w \<le> ?s * ?c" using le assms(3) unfolding distrib_left by linarith
  ultimately show "span (item_addr base f n) w \<subseteq> span base (?s * ?c)" and "base \<le> item_addr base f n"
    unfolding item_addr_def by (simp_all add: span_sub)
qed

definition item_touches :: "item_decoder \<Rightarrow> addr \<Rightarrow> addr set \<Rightarrow> bool" where
  "item_touches func p A \<longleftrightarrow> (\<forall>s m. dtouches_opt A m (func s p m))"

lemma packed_loop_touches:
  assumes "\<And>n. n < array_size f \<Longrightarrow> item_touches func (item_addr (pData it) f n) A"
    and "span (pSize it) 4 \<subseteq> A"
  shows "dtouches_opt A m (static_packed_loop func f it k sub m)"
proof (induction k arbitrary: sub m)
  case 0
  then show ?case by simp
next
  case (Suc k)
  show ?case
  proof (cases "i_bytes_left sub > 0 \<and> load32 m (pSize it) < array_size f")
    case True
    let ?r = "func sub (item_addr (pData it) f (load32 m (pSize it))) m"
    have func: "dtouches_opt A m ?r"
      using assms(1) [of "load32 m (pSize it)"] True unfolding item_touches_def by blast
    show ?thesis
    proof (cases ?r)
      case (Some x)
      obtain ok sub' m' where x: "x = (ok, sub', m')" by (cases x)
      then have m': "touches A m m'" using func Some by simp
      have "dtouches_opt A m (static_packed_loop func f it k sub'
              (store32 m' (pSize it) (load32 m' (pSize it) + 1)))"
        by (rule dtouches_opt_after [OF m' dtouches_opt_after [OF touches_store(3) [OF assms(2)] Suc.IH]])
      then show ?thesis using True Some m' by (simp add: x)
    qed (use True in simp)
  qed auto
qed

lemma static_repeated_touches:
  assumes "\<And>n. n < array_size f \<Longrightarrow> item_touches func (item_addr (pData it) f n) A"
    and "span (pSize it) 4 \<subseteq> A"
  shows "dtouches_opt A m (decode_static_repeated env func s wt f it m)"
proof -
  have packed: "dtouches_opt A m (static_packed_loop func f it k sub m)" for k sub m
    using assms by (rule packed_loop_touches)
  have single: "dtouches_opt A m (func s (item_addr (pData it) f (load32 m (pSize it)))
                  (store32 m (pSize it) (load32 m (pSize it) + 1)))"
    if "load32 m (pSize it) < array_size f"
  proof (rule dtouches_opt_after)
    show "touches A m (store32 m (pSize it) (load32 m (pSize it) + 1))" by (rule touches_store(3) [OF assms(2)])
  qed (use assms(1) [OF that] in \<open>simp add: item_touches_def\<close>)
  show ?thesis
  proof (cases "wt = PB_WT_STRING \<and> ltype f \<le> PB_LTYPE_LAST_PACKABLE")
    case True
    obtain ok s' sub where mk: "pb_make_string_substream env s = (ok, s', sub)"
      by (cases "pb_make_string_substream env s")
    show ?thesis
      using True mk packed [of m "Suc (i_bytes_left sub)" sub]
      by (cases "static_packed_loop func f it (Suc (i_bytes_left sub)) sub m")
         (auto simp: decode_static_repeated_def close_with_touches simp del: static_packed_loop.simps)
  next
    case False
    have "touches A m (store32 m (pSize it) (load32 m (pSize it) + 1))"
      by (rule touches_store(3) [OF assms(2)])
    then show ?thesis
      using False single unfolding decode_static_repeated_def Let_def by auto
  qed
qed

lemma and_two_power: "(x :: u8) AND 2 ^ n = (if bit x n then 2 ^ n else 0)"
  by (rule bit_word_eqI) (auto simp: bit_and_iff bit_exp_iff)

lemma htype_cases:
  "PB_HTYPE x = PB_HTYPE_REQUIRED \<or> PB_HTYPE x = PB_HTYPE_OPTIONAL \<or> PB_HTYPE x = PB_HTYPE_REPEATED \<or>
   PB_HTYPE x = PB_HTYPE_ONEOF"
proof -
  have "x AND 0x30 = (x AND 2 ^ 4) OR (x AND 2 ^ 5)"
    by (simp flip: bit.conj_disj_distrib)
  then show ?thesis using and_two_power [of x 4] and_two_power [of x 5]
    by (auto simp: PB_HTYPE_def htype_defs split: if_splits)
qed

text \<open>The contract of the recursive call on a submessage.\<close>

definition decoder_safe :: "(addr \<Rightarrow> int \<Rightarrow> bool) \<Rightarrow> msg_decoder \<Rightarrow> bool" where
  "decoder_safe sub dec \<longleftrightarrow>
     (\<forall>a sz d. sub a sz \<longrightarrow> 0 < d \<longrightarrow> msg_decoder_touches dec a d (span d sz \<union> {..<0}))"

lemma field_decoder_touches:
  assumes env: "reads_bounded env" and safe: "iter_safe env sub A it" and neg: "{..<0} \<subseteq> A"
    and dec: "decoder_safe sub dec" and f: "f = iter_field env it"
    and p: "0 < p" "span p (uint (data_size f)) \<subseteq> A" "span p (min_width (ltype f)) \<subseteq> A"
  shows "item_touches (\<lambda>s dest m. PB_DECODERS env dec s f dest m) p A"
proof -
  have "msg_decoder_touches dec (fptr f) p A" if "ltype f = PB_LTYPE_SUBMESSAGE"
  proof -
    have "sub (fptr f) (uint (data_size f))" using safe that f by (simp add: iter_safe_def Let_def)
    then have "msg_decoder_touches dec (fptr f) p (span p (uint (data_size f)) \<union> {..<0})"
      using dec p(1) by (simp add: decoder_safe_def)
    moreover have "span p (uint (data_size f)) \<union> {..<0} \<subseteq> A" using p(2) neg by blast
    ultimately show ?thesis
      unfolding msg_decoder_touches_def by (blast intro: dtouches_opt_mono)
  qed
  moreover have "atype f \<noteq> PB_ATYPE_POINTER" using safe f by (simp add: iter_safe_def Let_def atype_defs)
  ultimately show ?thesis
    using env p by (auto simp: item_touches_def intro!: decoders_touch)
qed

lemma static_field_touches:
  assumes env: "reads_bounded env" and safe: "iter_safe env sub A it" and neg: "{..<0} \<subseteq> A"
    and dec: "decoder_safe sub dec"
    and dfl: "\<And>a d sz m m'. sub a sz \<Longrightarrow> 0 < d \<Longrightarrow> dfl a d m = Some m' \<Longrightarrow> touches (span d sz) m m'"
  shows "dtouches_opt A m (decode_static_field env dec dfl s wt it m)"
proof -
  define f where "f = iter_field env it"
  let ?func = "\<lambda>s dest m. PB_DECODERS env dec s f dest m"
  note s = safe [unfolded iter_safe_def Let_def, folded f_def]
  have ext: "field_extent f = (if htype f = PB_HTYPE_REPEATED then uint (data_size f) * uint (array_size f)
                                else uint (data_size f))"
    using s by (simp add: field_extent_def atype_defs)
  have one: "dtouches_opt A m1 (?func s (pData it) m1)" if "htype f \<noteq> PB_HTYPE_REPEATED" for m1
    using field_decoder_touches [OF env safe neg dec f_def, of "pData it"] s ext that
    by (simp add: item_touches_def)
  have items: "item_touches ?func (item_addr (pData it) f n) A"
    if "htype f = PB_HTYPE_REPEATED" and n: "n < array_size f" for n
  proof (rule field_decoder_touches [OF env safe neg dec f_def])
    have lt: "uint (data_size f) * uint (array_size f) < 2 ^ 32" using s ext that by simp
    have A: "span (pData it) (uint (data_size f) * uint (array_size f)) \<subseteq> A" using s ext that by simp
    show "span (item_addr (pData it) f n) (uint (data_size f)) \<subseteq> A"
      using item_in_array(1) [OF n lt order_refl] A by blast
    show "span (item_addr (pData it) f n) (min_width (ltype f)) \<subseteq> A"
      using item_in_array(1) [OF n lt] A s that by blast
    show "0 < item_addr (pData it) f n" using item_in_array(2) [OF n lt order_refl, of "pData it"] s by simp
  qed
  have union: "touches A m m1"
    if "htype f = PB_HTYPE_ONEOF" and "ltype f = PB_LTYPE_SUBMESSAGE" and d: "dfl (fptr f) (pData it) (memset0 m (pData it) (unat (data_size f))) = Some m1" for m1
  proof -
    have A: "span (pData it) (uint (data_size f)) \<subseteq> A" using s ext that by (simp add: htype_defs)
    then have "touches A m (memset0 m (pData it) (unat (data_size f)))" by (intro touches_copy) simp
    also have "touches A (memset0 m (pData it) (unat (data_size f))) m1"
      using s that(2) by (intro touches_mono [OF dfl [OF _ _ d] A]) simp_all
    finally show ?thesis .
  qed
  consider (req) "htype f = PB_HTYPE_REQUIRED" | (opt) "htype f = PB_HTYPE_OPTIONAL"
    | (rep) "htype f = PB_HTYPE_REPEATED"
    | (oneof) "htype f = PB_HTYPE_ONEOF"
    using htype_cases [of "ftype f"] by blast
  then show ?thesis
  proof cases
    case req
    then show ?thesis using one by (simp add: decode_static_field_def f_def [symmetric] htype_defs)
  next
    case opt
    have "touches A m (if pSize it \<noteq> pData it then store8 m (pSize it) 1 else m)"
      using s opt by (auto intro!: frame_rules)
    then show ?thesis using opt dtouches_opt_after [OF _ one]
      by (simp add: decode_static_field_def f_def [symmetric] htype_defs)
  next
    case rep
    then show ?thesis using static_repeated_touches [of f ?func it A] items s
      by (simp add: decode_static_field_def f_def [symmetric] htype_defs)
  next
    case oneof
    let ?r = "if ltype f = PB_LTYPE_SUBMESSAGE \<and> load32 m (pSize it) \<noteq> tag f
              then dfl (fptr f) (pData it) (memset0 m (pData it) (unat (data_size f))) else Some m"
    have "dtouches_opt A m (?func s (pData it) (store32 m1 (pSize it) (tag f)))" if r: "?r = Some m1" for m1
    proof (rule dtouches_opt_after [OF _ dtouches_opt_after [OF touches_store(3) one]])
      show "touches A m m1" using r union [OF oneof] by (auto split: if_splits)
      show "span (pSize it) 4 \<subseteq> A" using s oneof by simp
      show "htype f \<noteq> PB_HTYPE_REPEATED" using oneof by (simp add: htype_defs)
    qed
    then show ?thesis using oneof unfolding decode_static_field_def f_def [symmetric]
      by (auto simp: htype_defs Let_def split: option.splits)
  qed
qed

subsection \<open>Whole messages\<close>

text \<open>What the steps of \<^verbatim>\<open>pb_decode_noinit\<close> on a message of type \<open>a\<close> at \<open>d\<close> share.\<close>

definition decode_frame :: "pb_env \<Rightarrow> nat \<Rightarrow> addr \<Rightarrow> int \<Rightarrow> addr \<Rightarrow> nat \<Rightarrow> msg_decoder \<Rightarrow> bool" where
  "decode_frame env k a sz d n dec \<longleftrightarrow>
     wf_env env \<and> reads_bounded env \<and> layout_fits env (Suc k) a sz \<and> 0 < d \<and>
     decoder_safe (layout_fits env k) dec"

lemma local_addr_neg: "local_addr n < - 4"
  by (simp add: local_addr_def)

lemma frame_iter_safe:
  assumes "decode_frame env k a sz d n dec" and "decode_iter env a d (local_addr n) it"
  shows "iter_safe env (layout_fits env k) (span d sz \<union> {..<0}) it"
  using assms decode_iter_safe [OF _ _ local_addr_neg] unfolding decode_frame_def by blast

lemma release_union_safe:
  assumes fr: "decode_frame env k a sz d n dec" and it: "decode_iter env a d (local_addr n) it"
    and r: "pb_release_union_field env n s it m = Some (ok, it', s', m')"
  shows "decode_iter env a d (local_addr n) it' \<and> m' = m"
proof -
  have wf: "wf_env env" "d \<noteq> NULL" using fr by (auto simp: decode_frame_def NULL_def)
  have static: "atype (iter_field env i) \<noteq> PB_ATYPE_POINTER" if "decode_iter env a d (local_addr n) i" for i
    using frame_iter_safe [OF fr that] by (simp add: iter_safe_def Let_def atype_defs)
  have rel: "m1 = m" if "decode_iter env a d (local_addr n) i"
      and "pb_release_single_field env (pb_release env n) n i m = Some m1" for i m1
    using frame_iter_safe [OF fr that(1)] that(2) release_same [OF wf(1)]
    by (rule release_single_same)
  let ?old = "load32 m (pSize it)" and ?new = "tag (iter_field env it)"
  show ?thesis
  proof (cases "?old = 0 \<or> ?old = ?new")
    case True
    then show ?thesis using r it by (auto simp: pb_release_union_field_def Let_def split: if_splits)
  next
    case False
    then obtain b1 it1 where f1: "pb_field_iter_find env it ?old = Some (b1, it1)"
      using r by (auto simp: pb_release_union_field_def Let_def split: option.splits)
    note it1 = decode_iter_find [OF wf it f1]
    show ?thesis
    proof (cases b1)
      case b1: False
      then show ?thesis using r False f1 it1 by (auto simp: pb_release_union_field_def Let_def)
    next
      case b1: True
      then obtain m1 b2 it2 where m1: "pb_release_single_field env (pb_release env n) n it1 m = Some m1"
        and f2: "pb_field_iter_find env it1 ?new = Some (b2, it2)"
        using r False f1 by (auto simp: pb_release_union_field_def Let_def split: option.splits)
      note it2 = decode_iter_find [OF wf it1 f2]
      show ?thesis using r False f1 b1 m1 f2 it2 static [OF it2] rel [OF it1 m1]
        by (cases b2) (auto simp: pb_release_union_field_def Let_def)
    qed
  qed
qed

lemma decode_field_safe:
  assumes fr: "decode_frame env k a sz d n dec" and it: "decode_iter env a d (local_addr n) it"
    and r: "decode_field env dec n s wt it m = Some (ok, it', s', m')"
  shows "decode_iter env a d (local_addr n) it' \<and> touches (span d sz \<union> {..<0}) m m'"
proof -
  let ?A = "span d sz \<union> {..<0}"
  have wf: "wf_env env" "reads_bounded env" "decoder_safe (layout_fits env k) dec"
    using fr by (auto simp: decode_frame_def)
  have static: "dtouches_opt ?A m (decode_static_field env dec (pb_message_set_to_defaults env n) s wt i m)"
    if "decode_iter env a d (local_addr n) i" for i s
    by (rule static_field_touches [OF wf(2) frame_iter_safe [OF fr that] _ wf(3) defaults_touch [OF wf(1)]])
       auto
  have at: "atype (iter_field env i) = PB_ATYPE_STATIC" if "decode_iter env a d (local_addr n) i" for i
    using frame_iter_safe [OF fr that] by (simp add: iter_safe_def Let_def)
  obtain ok1 it1 s1 m1 where
    u: "(if htype (iter_field env it) = PB_HTYPE_ONEOF then pb_release_union_field env n s it m
         else Some (True, it, s, m)) = Some (ok1, it1, s1, m1)"
    using r unfolding decode_field_def by (auto split: option.splits)
  then have it1: "decode_iter env a d (local_addr n) it1" and m1: "m1 = m"
    using release_union_safe [OF fr it] it by (auto split: if_splits)
  show ?thesis
    using r u it1 m1 at [OF it1] static [OF it1, of s1] unfolding decode_field_def
    by (auto split: if_splits)
qed

lemma decode_tag_bound: "pb_decode_tag env s = (True, wt, t, eof, s') \<Longrightarrow> t \<noteq> - 1"
proof -
  assume "pb_decode_tag env s = (True, wt, t, eof, s')"
  then obtain v where "t = drop_bit 3 v"
    by (auto simp: pb_decode_tag_def split: prod.splits if_splits)
  then have "unat t = unat v div 8" by (simp add: drop_bit_eq_div unat_div)
  then have "unat t < 2 ^ 32 - 1" using unat_bound [of v] by simp
  moreover have "unat (- 1 :: u32) = 2 ^ 32 - 1" by (simp add: unsigned_minus_1_eq_mask mask_eq_exp_minus_1)
  ultimately show ?thesis by auto
qed

lemma no_extension_found:
  assumes "decode_frame env k a sz d n dec" and "decode_iter env a d (local_addr n) it"
    and "find_extension_field env it = Some (found, it')"
  shows "\<not> found"
proof -
  have "decode_iter env a d (local_addr n) it'"
    using assms by (auto simp: decode_frame_def NULL_def intro: decode_iter_find_extension)
  then have "ltype (iter_field env it') \<noteq> PB_LTYPE_EXTENSION"
    using frame_iter_safe [OF assms(1)] by (simp add: iter_safe_def Let_def)
  moreover have "find_extension_loop env j k0 i = Some (True, it') \<Longrightarrow>
      ltype (iter_field env it') = PB_LTYPE_EXTENSION" for j k0 i
    by (induction j arbitrary: i) (auto simp: Let_def split: if_splits)
  ultimately show ?thesis using assms(3) unfolding find_extension_field_def by metis
qed

lemma known_safe:
  assumes fr: "decode_frame env k a sz d n dec" and l: "decode_iter env a d (local_addr n) (l_iter l)"
    and r: "decode_known env dec n a wt l s m = Some (e, l', s', m')"
  shows "decode_iter env a d (local_addr n) (l_iter l') \<and> touches (span d sz \<union> {..<0}) m m'"
proof -
  let ?A = "span d sz \<union> {..<0}" and ?it = "l_iter l"
  let ?fixed = "htype (iter_field env ?it) = PB_HTYPE_REPEATED \<and> pSize ?it = pData ?it"
  define it1 where "it1 = (if ?fixed then ?it\<lparr>pSize := local_addr n\<rparr> else ?it)"
  have it1: "decode_iter env a d (local_addr n) it1" unfolding it1_def by (rule redirect_iter [OF l])
  have st: "touches ?A m (if b then store32 m (local_addr n) 0 else m)" for b
    using local_addr_neg [of n] by (auto simp: span_def intro!: touches_store(3))
  show ?thesis
  proof (cases "decode_field env dec n s wt it1
      (if ?fixed \<and> fixed_count_field l \<noteq> Some (pos ?it) then store32 m (local_addr n) 0 else m)")
    case None
    then show ?thesis using r l unfolding decode_known_def Let_def it1_def by (auto split: if_splits)
  next
    case (Some x)
    obtain ok it2 s2 m2 where x: "x = (ok, it2, s2, m2)" by (cases x)
    note fs = decode_field_safe [OF fr it1 Some [unfolded x]]
    then have "touches ?A m m2" using st touches_trans by blast
    then show ?thesis using r l fs Some unfolding decode_known_def Let_def it1_def x
      by (auto split: if_splits)
  qed
qed

lemma unknown_safe:
  assumes fr: "decode_frame env k a sz d n dec" and l: "decode_iter env a d (local_addr n) (l_iter l)"
    and t: "t \<noteq> - 1" and r: "decode_unknown env dec n t wt l s m = Some (e, l', s', m')"
  shows "decode_iter env a d (local_addr n) (l_iter l') \<and> m' = m"
proof -
  have wf: "wf_env env" "d \<noteq> NULL" using fr by (auto simp: decode_frame_def NULL_def)
  have "\<not> - 1 \<le> t" using t by (metis word_order.extremum_unique)
  then show ?thesis
    using r l unfolding decode_unknown_def Let_def
    by (auto split: if_splits option.splits prod.splits
        dest: no_extension_found [OF fr] decode_iter_find_extension [OF wf])
qed

lemma step_safe:
  assumes fr: "decode_frame env k a sz d n dec" and l: "decode_iter env a d (local_addr n) (l_iter l)"
    and r: "decode_step env dec n a l s m = Some (e, l', s', m')"
  shows "decode_iter env a d (local_addr n) (l_iter l') \<and> touches (span d sz \<union> {..<0}) m m'"
proof -
  let ?A = "span d sz \<union> {..<0}"
  have wf: "wf_env env" "d \<noteq> NULL" using fr by (auto simp: decode_frame_def NULL_def)
  obtain ok wt t eof s1 where tg: "pb_decode_tag env s = (ok, wt, t, eof, s1)"
    by (cases "pb_decode_tag env s")
  show ?thesis
  proof (cases ok)
    case False
    then show ?thesis using r l tg by (auto simp: decode_step_def)
  next
    case True
    then have t: "t \<noteq> - 1" using tg by (intro decode_tag_bound [of env s wt t eof s1]) simp
    obtain found it where f: "pb_field_iter_find env (l_iter l) t = Some (found, it)"
      using r tg True by (auto simp: decode_step_def split: option.splits)
    have it: "decode_iter env a d (local_addr n) it" by (rule decode_iter_find [OF wf l f])
    show ?thesis
    proof (cases found)
      case True
      then have "decode_known env dec n a wt (l\<lparr>l_iter := it\<rparr>) s1 m = Some (e, l', s', m')"
        using r tg f \<open>ok\<close> by (simp add: decode_step_def)
      then show ?thesis by (intro known_safe [OF fr]) (simp_all add: it)
    next
      case False
      then have "decode_unknown env dec n t wt (l\<lparr>l_iter := it\<rparr>) s1 m = Some (e, l', s', m')"
        using r tg f \<open>ok\<close> by (simp add: decode_step_def)
      then show ?thesis using unknown_safe [OF fr _ t] it by force
    qed
  qed
qed

lemma loop_safe:
  assumes fr: "decode_frame env k a sz d n dec" and l: "decode_iter env a d (local_addr n) (l_iter l)"
    and r: "decode_loop env dec n a j l s m = Some (e, l', s', m')"
  shows "decode_iter env a d (local_addr n) (l_iter l') \<and> touches (span d sz \<union> {..<0}) m m'"
  using l r
proof (induction j arbitrary: l s m)
  case 0
  then show ?case by simp
next
  case (Suc j)
  show ?case
  proof (cases "i_bytes_left s = 0")
    case True
    then show ?thesis using Suc.prems by simp
  next
    case False
    then obtain e1 l1 s1 m1 where st: "decode_step env dec n a l s m = Some (e1, l1, s1, m1)"
      using Suc.prems(2) by (auto split: option.splits)
    note step = step_safe [OF fr Suc.prems(1) st]
    show ?thesis
    proof (cases "e1 = L_continue")
      case True
      then have "decode_loop env dec n a j l1 s1 m1 = Some (e, l', s', m')"
        using Suc.prems(2) False st by simp
      then show ?thesis using Suc.IH [of l1 s1 m1] step by (auto elim: touches_trans)
    next
      case False
      then show ?thesis using Suc.prems(2) \<open>i_bytes_left s \<noteq> 0\<close> st step by simp
    qed
  qed
qed

text \<open>
  The decoder writes only into the structure and into local variables, on every input and on every exit.
\<close>

lemma decode_touches:
  assumes "wf_env env" and "reads_bounded env"
  shows "(\<forall>k a sz d s m. layout_fits env k a sz \<longrightarrow> 0 < d \<longrightarrow>
            dtouches_opt (span d sz \<union> {..<0}) m (pb_decode_noinit env n s a d m)) \<and>
         (\<forall>k a sz d s m. layout_fits env k a sz \<longrightarrow> 0 < d \<longrightarrow>
            dtouches_opt (span d sz \<union> {..<0}) m (pb_decode env n s a d m))"
proof (induction n)
  case 0
  then show ?case by simp
next
  case (Suc n)
  let ?dec = "\<lambda>init s a d m. if init then pb_decode env n s a d m else pb_decode_noinit env n s a d m"
  have noinit: "dtouches_opt (span d sz \<union> {..<0}) m (pb_decode_noinit env (Suc n) s a d m)"
    if fits: "layout_fits env k a sz" and d: "0 < d" for k a sz d s m
  proof -
    obtain k' where k: "k = Suc k'" using fits by (cases k) auto
    have fr: "decode_frame env k' a sz d n ?dec"
      using assms fits d Suc.IH unfolding decode_frame_def k decoder_safe_def msg_decoder_touches_def by simp
    let ?l = "\<lparr>l_iter = snd (pb_field_iter_begin env a d), fields_seen = [0, 0],
               extension_range_start = 0, fixed_count_field = None\<rparr>"
    have it: "decode_iter env a d (local_addr n) (l_iter ?l)"
      using assms(1) d by (simp add: decode_iter_begin NULL_def)
    show ?thesis
    proof (cases "decode_loop env ?dec n a (Suc (i_bytes_left s)) ?l s m")
      case (Some x)
      obtain e l' s' m' where x: "x = (e, l', s', m')" by (cases x)
      have "touches (span d sz \<union> {..<0}) m m'" using loop_safe [OF fr it Some [unfolded x]] by blast
      then show ?thesis using Some unfolding x
        by (simp add: Let_def del: decode_loop.simps split: loop_exit.split option.split)
    qed (simp add: Let_def del: decode_loop.simps)
  qed
  have "dtouches_opt (span d sz \<union> {..<0}) m (pb_decode env (Suc n) s a d m)"
    if fits: "layout_fits env k a sz" and d: "0 < d" for k a sz d s m
  proof (cases "pb_message_set_to_defaults env (Suc n) a d m")
    case (Some m1)
    have m1: "touches (span d sz \<union> {..<0}) m m1"
      by (rule touches_mono [OF defaults_touch [OF assms(1) fits d Some]]) simp
    show ?thesis
    proof (cases "pb_decode_noinit env n s a d m1")
      case None
      then show ?thesis using Some by (simp del: pb_message_set_to_defaults.simps)
    next
      case (Some y)
      obtain ok s' m2 where y: "y = (ok, s', m2)" by (cases y)
      have "dtouches_opt (span d sz \<union> {..<0}) m1 (pb_decode_noinit env n s a d m1)"
        using Suc.IH fits d by blast
      then have m2: "touches (span d sz \<union> {..<0}) m m2"
        using Some y m1 by (auto elim: touches_trans)
      have "pb_release env (Suc n) a d m2 = Some m3 \<Longrightarrow> m3 = m2" for m3
        using assms(1) fits d by (rule release_same)
      then show ?thesis
        using \<open>pb_message_set_to_defaults env (Suc n) a d m = Some m1\<close> Some y m2
        by (auto simp del: pb_message_set_to_defaults.simps pb_release.simps simp: dtouches_opt_def)
    qed
  qed (simp del: pb_message_set_to_defaults.simps)
  with noinit show ?case by blast
qed

end
