(* ===== verification/Pb_Total.thy ===== *)
theory Pb_Total
  imports Pb_Safety
begin

text \<open>
  Termination of the decoder on arbitrary input. The loops over the input consume bytes, so the
  number of rounds they are started with is always enough; the recursion follows the nesting of
  the message type. For a static message type whose submessages nest \<open>k\<close> deep, \<^verbatim>\<open>pb_decode\<close>
  returns as soon as its bound exceeds \<open>2 * k\<close>.
\<close>

definition returns :: "'a option \<Rightarrow> bool" where
  "returns r \<longleftrightarrow> r \<noteq> None"

lemma returns_simps [simp]:
  "returns (Some x)"
  "\<not> returns None"
  "returns (map_option g r) = returns r"
  by (simp_all add: returns_def)

lemma returnsE: "returns r \<Longrightarrow> (\<And>x. r = Some x \<Longrightarrow> P) \<Longrightarrow> P"
  by (auto simp: returns_def)

lemma returns_bind: "returns r \<Longrightarrow> (\<And>x. r = Some x \<Longrightarrow> returns (g x)) \<Longrightarrow>
  returns (case r of None \<Rightarrow> None | Some x \<Rightarrow> g x)"
  by (cases r) auto

subsection \<open>Bytes left never grow\<close>

lemma PB_SET_ERROR_i_left [simp]: "i_bytes_left (PB_SET_ERROR_i s msg) = i_bytes_left s"
  by (simp add: PB_SET_ERROR_i_def)

lemma readbyte_le: "pb_readbyte env s = (ok, b, s') \<Longrightarrow> i_bytes_left s' \<le> i_bytes_left s"
  by (auto simp: pb_readbyte_def callback_bytes_left split: if_splits prod.splits)

lemma read_direct_le: "pb_read_direct env s n = (ok, bs, s') \<Longrightarrow> i_bytes_left s' \<le> i_bytes_left s"
  by (auto simp: pb_read_direct_def callback_bytes_left split: if_splits prod.splits)

lemma read_le: "pb_read env s n = (ok, bs, s') \<Longrightarrow> i_bytes_left s' \<le> i_bytes_left s"
  by (simp add: pb_read_def read_direct_le)

lemma read_skip_le: "pb_read_skip env s n = (ok, s') \<Longrightarrow> i_bytes_left s' \<le> i_bytes_left s"
proof (induction env s n rule: pb_read_skip.induct)
  case (1 env s n)
  show ?case
  proof (cases "n > 16")
    case True
    obtain ok1 bs s1 where r: "pb_read_direct env s 16 = (ok1, bs, s1)" by (cases "pb_read_direct env s 16")
    note le = read_direct_le [OF r]
    show ?thesis
      using 1(2) True r le 1(1) [OF True r [symmetric] refl]
      by (simp add: pb_read_skip.simps [of env s] split: if_splits)
  next
    case False
    then show ?thesis using 1(2) by (auto simp: pb_read_skip.simps [of env s] dest: read_direct_le split: prod.splits)
  qed
qed

lemma read_null_le: "pb_read_null env s n = (ok, s') \<Longrightarrow> i_bytes_left s' \<le> i_bytes_left s"
  by (auto simp: pb_read_null_def dest: read_skip_le read_direct_le split: if_splits prod.splits)

lemma varint32_loop_le: "varint32_loop env s b r = (ok, v, s') \<Longrightarrow> i_bytes_left s' \<le> i_bytes_left s"
proof (induction env s b r rule: varint32_loop.induct)
  case (1 env s b r)
  obtain ok1 byte s1 where rb: "pb_readbyte env s = (ok1, byte, s1)" by (cases "pb_readbyte env s")
  note le = readbyte_le [OF rb]
  have IH: "varint32_loop env s1 (b + 7) r' = (ok, v, s') \<Longrightarrow> i_bytes_left s' \<le> i_bytes_left s1"
    if "ok1" "\<not> (b \<ge> 32 \<and> byte AND 0x7F \<noteq> 0 \<and> (drop_bit 31 r = 0 \<or> byte \<noteq> (if b < 63 then 0xFF else 0x01)))"
      "r' = (if b \<ge> 32 then r else r OR push_bit (unat b) (ucast (byte AND 0x7F)))" "byte AND 0x80 \<noteq> 0" for r'
    using 1(1) [OF rb [symmetric] refl] that by simp
  show ?case
    using 1(2) le IH unfolding varint32_loop.simps [of env s] rb prod.case Let_def
    by (auto split: if_splits)
qed

lemma varint_dec_loop_le: "varint_dec_loop env s b r = (ok, v, s') \<Longrightarrow> i_bytes_left s' \<le> i_bytes_left s"
proof (induction env s b r rule: varint_dec_loop.induct)
  case (1 env s b r)
  obtain ok1 byte s1 where rb: "pb_readbyte env s = (ok1, byte, s1)" by (cases "pb_readbyte env s")
  note le = readbyte_le [OF rb]
  have IH: "varint_dec_loop env s1 (b + 7) (r OR push_bit (unat b) (ucast (byte AND 0x7F))) = (ok, v, s') \<Longrightarrow>
      i_bytes_left s' \<le> i_bytes_left s1" if "\<not> b \<ge> 64" "ok1" "byte AND 0x80 \<noteq> 0"
    using 1(1) [OF that(1) rb [symmetric] refl] that by simp
  show ?case
    using 1(2) le IH unfolding varint_dec_loop.simps [of env s] rb prod.case Let_def
    by (auto split: if_splits)
qed

text \<open>A varint that was read took at least one byte.\<close>

lemma varint32_eof_less:
  assumes "pb_decode_varint32_eof env s = (ok, v, eof, s')"
  shows "i_bytes_left s' \<le> i_bytes_left s" and "ok \<Longrightarrow> i_bytes_left s' < i_bytes_left s"
proof -
  obtain ok1 byte s1 where rb: "pb_readbyte env s = (ok1, byte, s1)" by (cases "pb_readbyte env s")
  obtain ok2 v2 s2 where lp: "varint32_loop env s1 7 (ucast (byte AND 0x7F)) = (ok2, v2, s2)"
    by (cases "varint32_loop env s1 7 (ucast (byte AND 0x7F))")
  show "i_bytes_left s' \<le> i_bytes_left s" "ok \<Longrightarrow> i_bytes_left s' < i_bytes_left s"
    using assms rb lp readbyte_le [OF rb] readbyte_left [of env s byte s1] varint32_loop_le [OF lp]
    unfolding pb_decode_varint32_eof_def by (auto split: if_splits)
qed

lemma varint32_less:
  assumes "pb_decode_varint32 env s = (ok, v, s')"
  shows "i_bytes_left s' \<le> i_bytes_left s" and "ok \<Longrightarrow> i_bytes_left s' < i_bytes_left s"
  using assms varint32_eof_less [of env s] unfolding pb_decode_varint32_def
  by (auto split: prod.splits)

lemma varint_less:
  assumes "pb_decode_varint env s = (ok, v, s')"
  shows "i_bytes_left s' \<le> i_bytes_left s" and "ok \<Longrightarrow> i_bytes_left s' < i_bytes_left s"
proof -
  obtain ok1 byte s1 where rb: "pb_readbyte env s = (ok1, byte, s1)" by (cases "pb_readbyte env s")
  obtain ok2 v2 s2 where lp: "varint_dec_loop env s1 7 (ucast (byte AND 0x7F)) = (ok2, v2, s2)"
    by (cases "varint_dec_loop env s1 7 (ucast (byte AND 0x7F))")
  show "i_bytes_left s' \<le> i_bytes_left s" "ok \<Longrightarrow> i_bytes_left s' < i_bytes_left s"
    using assms rb lp readbyte_le [OF rb] readbyte_left [of env s byte s1] varint_dec_loop_le [OF lp]
    unfolding pb_decode_varint_def varint_dec_loop.simps [of env s] Let_def by (auto split: if_splits)
qed

lemma svarint_less:
  assumes "pb_decode_svarint env s = (ok, v, s')"
  shows "i_bytes_left s' \<le> i_bytes_left s" and "ok \<Longrightarrow> i_bytes_left s' < i_bytes_left s"
  using assms varint_less [of env s] unfolding pb_decode_svarint_def
  by (auto split: prod.splits if_splits)

lemma fixed_less:
  shows "pb_decode_fixed32 env s = (ok, v, s') \<Longrightarrow> i_bytes_left s' \<le> i_bytes_left s \<and> (ok \<longrightarrow> i_bytes_left s' < i_bytes_left s)"
    and "pb_decode_fixed64 env s = (ok, w, s') \<Longrightarrow> i_bytes_left s' \<le> i_bytes_left s \<and> (ok \<longrightarrow> i_bytes_left s' < i_bytes_left s)"
  by (auto simp: pb_decode_fixed32_def pb_decode_fixed64_def dest: read_le read_left split: prod.splits if_splits)

lemma skip_varint_le: "pb_skip_varint env s = (ok, s') \<Longrightarrow> i_bytes_left s' \<le> i_bytes_left s"
proof (induction env s rule: pb_skip_varint.induct)
  case (1 env s)
  obtain ok1 bs s1 where rb: "pb_read env s 1 = (ok1, bs, s1)" by (cases "pb_read env s 1")
  note le = read_le [OF rb]
  have IH: "pb_skip_varint env s1 = (ok, s') \<Longrightarrow> i_bytes_left s' \<le> i_bytes_left s1"
    if "ok1" "(case bs of [] \<Rightarrow> 0 | b # _ \<Rightarrow> b) AND 0x80 \<noteq> 0"
    using 1(1) [OF rb [symmetric] refl] that by simp
  show ?case
    using 1(2) le IH unfolding pb_skip_varint.simps [of env s] rb prod.case
    by (auto split: if_splits)
qed

lemma skip_field_le: "pb_skip_field env s wt = (ok, s') \<Longrightarrow> i_bytes_left s' \<le> i_bytes_left s"
  by (auto simp: pb_skip_field_def pb_skip_string_def PB_RETURN_ERROR_i_def
      dest: skip_varint_le read_null_le varint32_less(1) split: if_splits prod.splits
      dest: order_trans)

lemma tag_less:
  assumes "pb_decode_tag env s = (ok, wt, t, eof, s')"
  shows "i_bytes_left s' \<le> i_bytes_left s" and "ok \<Longrightarrow> i_bytes_left s' < i_bytes_left s"
  using assms varint32_eof_less [of env s] unfolding pb_decode_tag_def
  by (auto split: prod.splits if_splits)

lemma substream_le:
  assumes "pb_make_string_substream env s = (ok, s', sub)"
  shows "i_bytes_left s' \<le> i_bytes_left s"
  using assms varint32_less(1) [of env s] unfolding pb_make_string_substream_def
  by (fastforce split: prod.splits if_splits)

lemma close_substream_same: "pb_close_string_substream env s sub = (ok, s') \<Longrightarrow> i_bytes_left s' = i_bytes_left s"
  by (auto simp: pb_close_string_substream_def split: prod.splits if_splits)

subsection \<open>Field decoders\<close>

lemma read_mem_le: "pb_read_mem env s dest n m = (ok, s', m') \<Longrightarrow> i_bytes_left s' \<le> i_bytes_left s"
  by (auto simp: pb_read_mem_def dest: read_le split: prod.splits)

lemma allocate_left: "allocate_field s p ds as m = (ok, s', m') \<Longrightarrow> i_bytes_left s' = i_bytes_left s"
  by (auto simp: allocate_field_def Let_def split: if_splits prod.splits)

lemma store_checked_left: "store_checked r v s m = (ok, s', m') \<Longrightarrow> i_bytes_left s' = i_bytes_left s"
  by (auto simp: store_checked_def split: option.splits prod.splits if_splits)

lemma dec_int_left:
  "pb_dec_varint env s f dest m = (ok, s', m') \<Longrightarrow> i_bytes_left s' \<le> i_bytes_left s \<and> (ok \<longrightarrow> i_bytes_left s' < i_bytes_left s)"
  "pb_dec_uvarint env s f dest m = (ok, s', m') \<Longrightarrow> i_bytes_left s' \<le> i_bytes_left s \<and> (ok \<longrightarrow> i_bytes_left s' < i_bytes_left s)"
  "pb_dec_svarint env s f dest m = (ok, s', m') \<Longrightarrow> i_bytes_left s' \<le> i_bytes_left s \<and> (ok \<longrightarrow> i_bytes_left s' < i_bytes_left s)"
  "pb_dec_bool env s dest m = (ok, s', m') \<Longrightarrow> i_bytes_left s' \<le> i_bytes_left s \<and> (ok \<longrightarrow> i_bytes_left s' < i_bytes_left s)"
  "pb_dec_fixed32 env s dest m = (ok, s', m') \<Longrightarrow> i_bytes_left s' \<le> i_bytes_left s \<and> (ok \<longrightarrow> i_bytes_left s' < i_bytes_left s)"
  "pb_dec_fixed64 env s dest m = (ok, s', m') \<Longrightarrow> i_bytes_left s' \<le> i_bytes_left s \<and> (ok \<longrightarrow> i_bytes_left s' < i_bytes_left s)"
  using varint_less [of env s] svarint_less [of env s] varint32_less [of env s] fixed_less [of env s]
  by (fastforce simp: pb_dec_varint_def pb_dec_uvarint_def pb_dec_svarint_def pb_dec_bool_def
      pb_dec_fixed32_def pb_dec_fixed64_def Let_def split: prod.splits if_splits dest!: store_checked_left)+

lemma dec_bytes_left: "pb_dec_bytes env s f dest m = (ok, s', m') \<Longrightarrow> i_bytes_left s' \<le> i_bytes_left s"
  using varint32_less(1) [of env s]
  by (fastforce simp: pb_dec_bytes_def Let_def split: prod.splits if_splits
      dest!: read_mem_le allocate_left)

lemma dec_string_left: "pb_dec_string env s f dest m = (ok, s', m') \<Longrightarrow> i_bytes_left s' \<le> i_bytes_left s"
  using varint32_less(1) [of env s]
  by (fastforce simp: pb_dec_string_def Let_def split: prod.splits if_splits
      dest!: read_mem_le allocate_left)

lemma dec_fixed_length_left:
  "pb_dec_fixed_length_bytes env s f dest m = (ok, s', m') \<Longrightarrow> i_bytes_left s' \<le> i_bytes_left s"
  using varint32_less(1) [of env s]
  by (fastforce simp: pb_dec_fixed_length_bytes_def split: prod.splits if_splits dest!: read_mem_le)

lemma close_with_left: "close_with env s r = (ok, s', m') \<Longrightarrow> i_bytes_left s' = i_bytes_left s"
  by (auto simp: close_with_def split: prod.splits dest: close_substream_same)

lemma dec_submessage_left:
  "pb_dec_submessage env dec s f dest m = Some (ok, s', m') \<Longrightarrow> i_bytes_left s' \<le> i_bytes_left s"
  using substream_le [of env s]
  by (fastforce simp: pb_dec_submessage_def split: prod.splits if_splits dest!: close_with_left)

lemma decoders_left:
  assumes "PB_DECODERS env dec s f dest m = Some (ok, s', m')"
  shows "i_bytes_left s' \<le> i_bytes_left s"
    and "ltype f \<le> PB_LTYPE_LAST_PACKABLE \<Longrightarrow> ok \<Longrightarrow> i_bytes_left s' < i_bytes_left s"
proof -
  show "i_bytes_left s' \<le> i_bytes_left s"
    using assms dec_int_left(1-3) [of env s f dest m ok s' m'] dec_int_left(4-6) [of env s dest m ok s' m']
      dec_bytes_left [of env s f dest m ok s' m'] dec_string_left [of env s f dest m ok s' m']
      dec_submessage_left [of env dec s f dest m ok s' m'] dec_fixed_length_left [of env s f dest m ok s' m']
    by (auto simp: PB_DECODERS_def Let_def split: if_splits)
  show "i_bytes_left s' < i_bytes_left s" if "ltype f \<le> PB_LTYPE_LAST_PACKABLE" and ok
    using assms that dec_int_left(1-3) [of env s f dest m ok s' m'] dec_int_left(4-6) [of env s dest m ok s' m']
    by (auto simp: PB_DECODERS_def Let_def ltype_defs split: if_splits)
qed

lemma ltype_cases:
  assumes "lt \<le> PB_LTYPE_FIXED_LENGTH_BYTES"
  shows "lt \<in> {0, 1, 2, 3, 4, 5, 6, 7, 8, 9, 10}"
proof -
  have "unat lt \<le> 10" using assms by (simp add: word_le_nat_alt PB_LTYPE_FIXED_LENGTH_BYTES_def)
  then have "unat lt \<in> {0, 1, 2, 3, 4, 5, 6, 7, 8, 9, 10}" by (simp only: insert_iff empty_iff) arith
  then show ?thesis by (auto simp: word_unat_eq_iff)
qed

lemma decoders_some:
  assumes "ltype f \<le> PB_LTYPE_FIXED_LENGTH_BYTES" and "ltype f \<noteq> PB_LTYPE_EXTENSION"
    and "ltype f = PB_LTYPE_SUBMESSAGE \<Longrightarrow> \<forall>init s. returns (dec init s (fptr f) dest m)"
  shows "returns (PB_DECODERS env dec s f dest m)"
proof -
  have "returns (pb_dec_submessage env dec s f dest m)" if "ltype f = PB_LTYPE_SUBMESSAGE"
    using assms(3) [OF that] unfolding pb_dec_submessage_def
    by (cases "pb_make_string_substream env s") simp
  then show ?thesis
    using ltype_cases [OF assms(1)] assms(2) by (auto simp: PB_DECODERS_def Let_def ltype_defs)
qed

subsection \<open>Static fields\<close>

lemma packed_loop_some:
  assumes "\<And>n s m. n < array_size f \<Longrightarrow> returns (func s (item_addr (pData it) f n) m)"
    and "\<And>p s m s' m'. func s p m = Some (True, s', m') \<Longrightarrow> i_bytes_left s' < i_bytes_left s"
    and "i_bytes_left sub < k"
  shows "returns (static_packed_loop func f it k sub m)"
  using assms(3)
proof (induction k arbitrary: sub m)
  case 0
  then show ?case by simp
next
  case (Suc k)
  show ?case
  proof (cases "i_bytes_left sub > 0 \<and> load32 m (pSize it) < array_size f")
    case True
    then obtain ok s' m' where r: "func sub (item_addr (pData it) f (load32 m (pSize it))) m = Some (ok, s', m')"
      using assms(1) [of "load32 m (pSize it)" sub m] by (auto elim: returnsE)
    show ?thesis
    proof (cases ok)
      case True
      then have "i_bytes_left s' < k" using assms(2) r Suc.prems by fastforce
      then show ?thesis using Suc.IH r True by simp
    qed (use r True in simp)
  qed auto
qed

lemma static_repeated_some:
  assumes "\<And>n s m. n < array_size f \<Longrightarrow> returns (func s (item_addr (pData it) f n) m)"
    and "\<And>p s m s' m'. ltype f \<le> PB_LTYPE_LAST_PACKABLE \<Longrightarrow> func s p m = Some (True, s', m') \<Longrightarrow>
           i_bytes_left s' < i_bytes_left s"
  shows "returns (decode_static_repeated env func s wt f it m)"
proof (cases "wt = PB_WT_STRING \<and> ltype f \<le> PB_LTYPE_LAST_PACKABLE")
  case True
  obtain ok s' sub where mk: "pb_make_string_substream env s = (ok, s', sub)"
    by (cases "pb_make_string_substream env s")
  have "returns (static_packed_loop func f it (Suc (i_bytes_left sub)) sub m)"
    using assms True by (intro packed_loop_some) auto
  then show ?thesis
    using True mk by (auto simp: decode_static_repeated_def simp del: static_packed_loop.simps elim!: returnsE)
next
  case False
  then show ?thesis using assms(1) [of "load32 m (pSize it)"]
    by (auto simp: decode_static_repeated_def Let_def)
qed

text \<open>The contract of the recursive calls on a submessage.\<close>

definition decoder_total :: "(addr \<Rightarrow> int \<Rightarrow> bool) \<Rightarrow> msg_decoder \<Rightarrow> bool" where
  "decoder_total sub dec \<longleftrightarrow> (\<forall>a sz d init s m. sub a sz \<longrightarrow> 0 < d \<longrightarrow> returns (dec init s a d m))"

definition action_total :: "(addr \<Rightarrow> int \<Rightarrow> bool) \<Rightarrow> msg_action \<Rightarrow> bool" where
  "action_total sub act \<longleftrightarrow> (\<forall>a sz d m. sub a sz \<longrightarrow> 0 < d \<longrightarrow> returns (act a d m))"

lemma static_field_some:
  assumes safe: "iter_safe env sub A it" and dec: "decoder_total sub dec" and dfl: "action_total sub dfl"
  shows "returns (decode_static_field env dec dfl s wt it m)"
proof -
  define f where "f = iter_field env it"
  let ?func = "\<lambda>s dest m. PB_DECODERS env dec s f dest m"
  note s = safe [unfolded iter_safe_def Let_def, folded f_def]
  have one: "returns (?func s p m1)" if "0 < p" for s p m1
    using s dec that unfolding decoder_total_def by (intro decoders_some) blast+
  have items: "returns (?func s (item_addr (pData it) f n) m1)"
    if "htype f = PB_HTYPE_REPEATED" and n: "n < array_size f" for n s m1
  proof (rule one)
    have "uint (data_size f) * uint (array_size f) < 2 ^ 32"
      using s that(1) by (auto simp: field_extent_def)
    then show "0 < item_addr (pData it) f n" using item_in_array(2) [OF n _ order_refl, of "pData it"] s by simp
  qed
  have rep: "returns (decode_static_repeated env ?func s wt f it m)" if "htype f = PB_HTYPE_REPEATED"
    using items [OF that] decoders_left(2) by (intro static_repeated_some) blast+
  have "ltype f = PB_LTYPE_SUBMESSAGE \<Longrightarrow> returns (dfl (fptr f) (pData it) m1)" for m1
    using s dfl unfolding action_total_def by blast
  then show ?thesis
    using one s rep unfolding decode_static_field_def f_def [symmetric] Let_def
    by (auto intro!: returns_bind)
qed

subsection \<open>Searches in the descriptor array\<close>

text \<open>Any search that steps through the array comes back to its start within one round.\<close>

lemma decode_iter_pos:
  "decode_iter env a d x it \<Longrightarrow> start it = a \<and> (fields_at env a = [] \<or> pos it < length (fields_at env a))"
  by (auto simp: decode_iter_def pb_field_iter_begin_def Let_def split: if_splits)

lemma decode_iter_next_pos:
  assumes "wf_env env" and "d \<noteq> NULL" and "decode_iter env a d x it" and "fields_at env a \<noteq> []"
  shows "pos (snd (pb_field_iter_next env it)) = (if Suc (pos it) < length (fields_at env a) then Suc (pos it) else 0)"
    and "fst (pb_field_iter_next env it) \<longleftrightarrow> Suc (pos it) < length (fields_at env a)"
proof -
  have wf: "wf_fields (fields_at env a)" using assms(1) by (simp add: wf_env_def)
  obtain k where k: "k < length (fields_at env a)"
    and it: "it = iter_at env a d k \<or>
             htype (fields_at env a ! k) = PB_HTYPE_REPEATED \<and> it = (iter_at env a d k)\<lparr>pSize := x\<rparr>"
    using assms(3,4) by (auto simp: decode_iter_def)
  have eq: "pb_field_iter_next env it = pb_field_iter_next env (iter_at env a d k)"
    using it k tag_nth [OF wf k] by (auto simp: htype_defs intro!: next_redirected)
  have p: "pos it = k" using it by auto
  show "pos (snd (pb_field_iter_next env it)) = (if Suc (pos it) < length (fields_at env a) then Suc (pos it) else 0)"
    using next_iter_at [OF wf assms(2) k] by (simp add: eq p)
  show "fst (pb_field_iter_next env it) \<longleftrightarrow> Suc (pos it) < length (fields_at env a)"
  proof (cases "Suc k < length (fields_at env a)")
    case True
    then show ?thesis using next_inner [OF wf True] by (simp add: eq p)
  next
    case False
    then have "Suc k = length (fields_at env a)" using k by simp
    then show ?thesis using next_wrap [OF wf assms(2)] by (simp add: eq p)
  qed
qed

lemma next_empty:
  assumes "fields_at env a = []" and "decode_iter env a d x it"
  shows "pb_field_iter_next env it = (False, it)"
  using assms
  by (simp add: decode_iter_def pb_field_iter_next_def pb_field_iter_begin_def iter_field_def Let_def)

lemma search_step_less:
  assumes "wf_env env" and "d \<noteq> NULL" and "decode_iter env a d x it" and "fields_at env a \<noteq> []"
    and "k0 < length (fields_at env a)" and "pos (snd (pb_field_iter_next env it)) \<noteq> k0"
  shows "search_steps (length (fields_at env a)) k0 (pos (snd (pb_field_iter_next env it))) <
         search_steps (length (fields_at env a)) k0 (pos it)"
  using assms decode_iter_next_pos(1) [OF assms(1-4)] decode_iter_pos [OF assms(3)]
  by (auto simp: search_steps_def split: if_splits)

lemma find_returns:
  assumes "wf_env env" and "d \<noteq> NULL" and "decode_iter env a d x it"
  shows "returns (pb_field_iter_find env it t)"
proof (cases "fields_at env a = []")
  case True
  then have "pb_field_iter_next env it = (False, it)" using assms(3) by (rule next_empty)
  then show ?thesis by (simp add: pb_field_iter_find_def Let_def)
next
  case False
  let ?len = "length (fields_at env a)"
  have "returns (pb_field_iter_find_loop env n k0 i t)"
    if "decode_iter env a d x i" "k0 < ?len" "search_steps ?len k0 (pos i) \<le> n" for n k0 i
    using that
  proof (induction n arbitrary: i)
    case 0
    then show ?case using decode_iter_pos [OF 0(1)] False by (auto simp: search_steps_def split: if_splits)
  next
    case (Suc n)
    let ?i = "snd (pb_field_iter_next env i)"
    have i: "decode_iter env a d x ?i" by (rule decode_iter_next [OF assms(1,2) Suc.prems(1)])
    have "pos ?i \<noteq> k0 \<Longrightarrow> search_steps ?len k0 (pos ?i) \<le> n"
      using search_step_less [OF assms(1,2) Suc.prems(1) False Suc.prems(2)] Suc.prems(3) by simp
    then show ?case using Suc.IH [OF i Suc.prems(2)] by (simp add: Let_def)
  qed
  then show ?thesis
    using assms(3) decode_iter_pos [OF assms(3)] False unfolding pb_field_iter_find_def
    by (simp add: search_steps_def del: pb_field_iter_find_loop.simps)
qed

lemma find_extension_returns:
  assumes "wf_env env" and "d \<noteq> NULL" and "decode_iter env a d x it"
  shows "returns (find_extension_field env it)"
proof (cases "fields_at env a = []")
  case True
  then have "pb_field_iter_next env it = (False, it)" using assms(3) by (rule next_empty)
  then show ?thesis by (simp add: find_extension_field_def Let_def)
next
  case False
  let ?len = "length (fields_at env a)"
  have "returns (find_extension_loop env n k0 i)"
    if "decode_iter env a d x i" "k0 < ?len" "search_steps ?len k0 (pos i) \<le> n" for n k0 i
    using that
  proof (induction n arbitrary: i)
    case 0
    then show ?case using decode_iter_pos [OF 0(1)] False by (auto simp: search_steps_def split: if_splits)
  next
    case (Suc n)
    let ?i = "snd (pb_field_iter_next env i)"
    have i: "decode_iter env a d x ?i" by (rule decode_iter_next [OF assms(1,2) Suc.prems(1)])
    have "pos ?i \<noteq> k0 \<Longrightarrow> search_steps ?len k0 (pos ?i) \<le> n"
      using search_step_less [OF assms(1,2) Suc.prems(1) False Suc.prems(2)] Suc.prems(3) by simp
    then show ?case using Suc.IH [OF i Suc.prems(2)] by (simp add: Let_def)
  qed
  then show ?thesis
    using assms(3) decode_iter_pos [OF assms(3)] False unfolding find_extension_field_def
    by (simp add: search_steps_def del: find_extension_loop.simps)
qed

lemma required_count_returns:
  assumes "wf_env env" and "d \<noteq> NULL" and "decode_iter env a d x it"
  shows "returns (required_count env it)"
proof -
  have "returns (required_count_loop env (Suc (length (fields_at env a))) it)"
  proof (cases "fields_at env a = []")
    case True
    then have "pb_field_iter_next env it = (False, it)" using assms(3) by (rule next_empty)
    then show ?thesis by simp
  next
    case False
    have "returns (required_count_loop env n i)"
      if "decode_iter env a d x i" "length (fields_at env a) - pos i \<le> n" for n i
      using that
    proof (induction n arbitrary: i)
      case 0
      then show ?case using decode_iter_pos [OF 0(1)] False by simp
    next
      case (Suc n)
      have i: "decode_iter env a d x (snd (pb_field_iter_next env i))"
        by (rule decode_iter_next [OF assms(1,2) Suc.prems(1)])
      show ?case
        using Suc.IH [OF i] Suc.prems decode_iter_next_pos [OF assms(1,2) Suc.prems(1) False]
        by (cases "pb_field_iter_next env i") auto
    qed
    then show ?thesis using assms(3) by (simp del: required_count_loop.simps)
  qed
  then show ?thesis using decode_iter_pos [OF assms(3)]
    by (auto simp: required_count_def Let_def simp del: required_count_loop.simps elim!: returnsE)
qed

subsection \<open>Defaults and release\<close>

lemma visit_returns:
  assumes "\<And>i st. i \<in> set is \<Longrightarrow> returns (body i st)"
  shows "returns (visit body is st)"
  using assms
proof (induction "is" arbitrary: st)
  case (Cons i "is")
  then obtain st' go where "body i st = Some (st', go)"
    by (metis list.set_intros(1) returnsE surj_pair)
  then show ?case using Cons by simp
qed simp

lemma defaults_return:
  assumes "wf_env env"
  shows "layout_fits env k a sz \<Longrightarrow> 0 < d \<Longrightarrow> k < n \<Longrightarrow> returns (pb_message_set_to_defaults env n a d m)"
proof (induction k arbitrary: n a sz d m)
  case 0
  then show ?case by simp
next
  case (Suc k)
  then obtain n' where n: "n = Suc (Suc n')" by (cases n; cases "n - 1") auto
  let ?n = "Suc n'"
  let ?body = "\<lambda>it m. map_option (\<lambda>m. (m, True))
                 (pb_field_set_to_default env (pb_message_set_to_defaults env ?n) ?n it m)"
  have "returns (pb_field_set_to_default env (pb_message_set_to_defaults env ?n) ?n (iter_at env a d i) m)"
    if i: "i < length (fields_at env a)" for i m
  proof -
    have safe: "iter_safe env (layout_fits env k) (span d sz) (iter_at env a d i)"
      using Suc.prems(1,2) i by (rule iter_at_safe)
    have "layout_fits env k b sz' \<Longrightarrow> 0 < e \<Longrightarrow> returns (pb_message_set_to_defaults env ?n b e m')" for b sz' e m'
      using Suc.prems(3) n by (intro Suc.IH) auto
    then show ?thesis
      using safe unfolding iter_safe_def Let_def
      by (auto simp: set_static_default_def Let_def simp del: pb_message_set_to_defaults.simps)
  qed
  then have "returns (visit ?body (map (iter_at env a d) [0..<length (fields_at env a)]) m)"
    by (intro visit_returns) (auto simp del: pb_field_set_to_default.simps)
  then show ?case
    using Suc.prems(2) loop_iters [OF assms, where d = d and a = a and st = m and body = ?body]
    by (simp add: n NULL_def del: pb_field_set_to_default.simps)
qed

lemma release_items_returns:
  assumes "\<And>p m. q \<le> p \<Longrightarrow> returns (rel p m)" and "0 \<le> sz" and "q \<le> p"
  shows "returns (release_items rel sz c p m)"
  using assms(3)
proof (induction c arbitrary: p m)
  case (Suc c)
  then show ?case using assms(1) [of p m] assms(2) by (auto elim!: returnsE)
qed simp

lemma release_single_returns:
  assumes "iter_safe env sub A it" and "0 < n"
    and rel: "action_total sub rel"
  shows "returns (pb_release_single_field env rel n it m)"
proof -
  obtain n' where n: "n = Suc n'" using assms(2) by (cases n) auto
  let ?f = "iter_field env it"
  have "returns (release_contents rel ?f it m)" if "ltype ?f = PB_LTYPE_SUBMESSAGE" for m
  proof -
    have r: "0 < p \<Longrightarrow> returns (rel (fptr ?f) p m)" for p m
      using rel assms(1) that by (auto simp: action_total_def iter_safe_def Let_def)
    have st: "atype ?f = PB_ATYPE_STATIC" "0 < pData it" using assms(1) by (auto simp: iter_safe_def Let_def)
    then have "returns (release_items (rel (fptr ?f)) (uint (data_size ?f)) c (pData it) m)" for c m
      using r by (intro release_items_returns [of "pData it"]) auto
    then show ?thesis
      using st by (auto simp: release_contents_def Let_def atype_defs simp del: release_items.simps)
  qed
  then show ?thesis using assms(1) unfolding n iter_safe_def Let_def by (auto simp: Let_def)
qed

lemma release_returns:
  assumes "wf_env env"
  shows "layout_fits env k a sz \<Longrightarrow> 0 < d \<Longrightarrow> k < n \<Longrightarrow> returns (pb_release env n a d m)"
proof (induction k arbitrary: n a sz d m)
  case 0
  then show ?case by simp
next
  case (Suc k)
  then obtain n' where n: "n = Suc (Suc n')" by (cases n; cases "n - 1") auto
  let ?n = "Suc n'"
  let ?body = "\<lambda>it m. map_option (\<lambda>m. (m, True)) (pb_release_single_field env (pb_release env ?n) ?n it m)"
  have "action_total (layout_fits env k) (pb_release env ?n)"
    using Suc.prems(3) n Suc.IH [of _ _ _ ?n] unfolding action_total_def by auto
  then have "returns (pb_release_single_field env (pb_release env ?n) ?n (iter_at env a d i) m)"
    if i: "i < length (fields_at env a)" for i m
    by (rule release_single_returns [OF iter_at_safe [OF Suc.prems(1,2) i], rotated]) simp
  then have "returns (visit ?body (map (iter_at env a d) [0..<length (fields_at env a)]) m)"
    by (intro visit_returns) (auto simp del: pb_release_single_field.simps)
  then show ?case
    using Suc.prems(2) loop_iters [OF assms, where d = d and a = a and st = m and body = ?body]
    by (simp add: n NULL_def del: pb_release_single_field.simps)
qed

subsection \<open>Whole messages\<close>

text \<open>The frame of \<^const>\<open>decode_frame\<close>, with recursive calls that return and enough fuel for one field.\<close>

definition total_frame :: "pb_env \<Rightarrow> nat \<Rightarrow> addr \<Rightarrow> int \<Rightarrow> addr \<Rightarrow> nat \<Rightarrow> msg_decoder \<Rightarrow> bool" where
  "total_frame env k a sz d n dec \<longleftrightarrow>
     decode_frame env k a sz d n dec \<and> decoder_total (layout_fits env k) dec \<and> k < n"

lemma total_frame_facts:
  assumes "total_frame env k a sz d n dec"
  shows "wf_env env" "d \<noteq> NULL" "0 < n" "decode_frame env k a sz d n dec"
    "decoder_total (layout_fits env k) dec"
    "action_total (layout_fits env k) (pb_message_set_to_defaults env n)"
    "action_total (layout_fits env k) (pb_release env n)"
  using assms defaults_return [of env k] release_returns [of env k]
  by (auto simp: total_frame_def decode_frame_def NULL_def action_total_def)

lemma release_union_returns:
  assumes fr: "total_frame env k a sz d n dec" and it: "decode_iter env a d (local_addr n) it"
  shows "returns (pb_release_union_field env n s it m)"
proof -
  note F = total_frame_facts [OF fr]
  have find: "returns (pb_field_iter_find env i t)" if "decode_iter env a d (local_addr n) i" for i t
    by (rule find_returns [OF F(1,2) that])
  have rel: "returns (pb_release_single_field env (pb_release env n) n i m)"
    if "decode_iter env a d (local_addr n) i" for i m
    by (rule release_single_returns [OF frame_iter_safe [OF F(4) that] F(3,7)])
  obtain b1 it1 where f1: "pb_field_iter_find env it (load32 m (pSize it)) = Some (b1, it1)"
    using find [OF it, of "load32 m (pSize it)"] by (auto elim: returnsE)
  note it1 = decode_iter_find [OF F(1,2) it f1]
  obtain m1 where m1: "pb_release_single_field env (pb_release env n) n it1 m = Some m1"
    using rel [OF it1] by (auto elim: returnsE)
  obtain b2 it2 where "pb_field_iter_find env it1 (tag (iter_field env it)) = Some (b2, it2)"
    using find [OF it1, of "tag (iter_field env it)"] by (auto elim: returnsE)
  then show ?thesis using f1 m1
    by (cases b1; cases b2) (simp_all add: pb_release_union_field_def Let_def)
qed

lemma decode_field_returns:
  assumes fr: "total_frame env k a sz d n dec" and it: "decode_iter env a d (local_addr n) it"
  shows "returns (decode_field env dec n s wt it m)"
proof -
  note F = total_frame_facts [OF fr]
  let ?u = "if htype (iter_field env it) = PB_HTYPE_ONEOF then pb_release_union_field env n s it m
            else Some (True, it, s, m)"
  have "returns ?u" using release_union_returns [OF fr it] by simp
  then obtain ok1 it1 s1 m1 where u: "?u = Some (ok1, it1, s1, m1)" by (auto elim: returnsE)
  then have it1: "decode_iter env a d (local_addr n) it1"
    using release_union_safe [OF F(4) it] it by (auto split: if_splits)
  have "returns (decode_static_field env dec (pb_message_set_to_defaults env n) s1 wt it1 m1)"
    by (rule static_field_some [OF frame_iter_safe [OF F(4) it1] F(5,6)])
  moreover have "atype (iter_field env it1) = PB_ATYPE_STATIC"
    using frame_iter_safe [OF F(4) it1] by (simp add: iter_safe_def Let_def)
  ultimately show ?thesis unfolding decode_field_def u by (simp add: Let_def)
qed

lemma decode_static_left:
  "decode_static_field env dec dfl s wt it m = Some (ok, s', m') \<Longrightarrow> i_bytes_left s' \<le> i_bytes_left s"
  using substream_le [of env s]
  by (fastforce simp: decode_static_field_def decode_static_repeated_def Let_def
      dest: decoders_left(1) close_with_left split: if_splits option.splits prod.splits)

lemma decode_field_left:
  assumes fr: "total_frame env k a sz d n dec" and it: "decode_iter env a d (local_addr n) it"
    and r: "decode_field env dec n s wt it m = Some (ok, it', s', m')"
  shows "i_bytes_left s' \<le> i_bytes_left s"
proof -
  note F = total_frame_facts [OF fr]
  let ?u = "if htype (iter_field env it) = PB_HTYPE_ONEOF then pb_release_union_field env n s it m
            else Some (True, it, s, m)"
  obtain ok1 it1 s1 m1 where u: "?u = Some (ok1, it1, s1, m1)"
    using r unfolding decode_field_def by (auto split: option.splits)
  then have s1: "i_bytes_left s1 = i_bytes_left s"
    by (auto simp: pb_release_union_field_def Let_def split: if_splits option.splits bool.splits)
  have it1: "decode_iter env a d (local_addr n) it1"
    using u release_union_safe [OF F(4) it] it by (auto split: if_splits)
  have "atype (iter_field env it1) = PB_ATYPE_STATIC"
    using frame_iter_safe [OF F(4) it1] by (simp add: iter_safe_def Let_def)
  then show ?thesis
    using r s1 unfolding decode_field_def u by (auto simp: Let_def dest: decode_static_left split: if_splits)
qed

lemma known_returns:
  assumes fr: "total_frame env k a sz d n dec" and l: "decode_iter env a d (local_addr n) (l_iter l)"
  shows "returns (decode_known env dec n a wt l s m)"
    and "decode_known env dec n a wt l s m = Some (e, l', s', m') \<Longrightarrow> i_bytes_left s' \<le> i_bytes_left s"
proof -
  let ?it = "l_iter l"
  let ?fixed = "htype (iter_field env ?it) = PB_HTYPE_REPEATED \<and> pSize ?it = pData ?it"
  let ?it1 = "if ?fixed then ?it\<lparr>pSize := local_addr n\<rparr> else ?it"
  note it1 = redirect_iter [OF l]
  show "returns (decode_known env dec n a wt l s m)"
    using decode_field_returns [OF fr it1] unfolding decode_known_def Let_def
    by (auto simp del: if_image_distrib)
  show "i_bytes_left s' \<le> i_bytes_left s" if "decode_known env dec n a wt l s m = Some (e, l', s', m')"
    using that decode_field_left [OF fr it1] unfolding decode_known_def Let_def
    by (auto split: if_splits)
qed

lemma unknown_returns:
  assumes fr: "total_frame env k a sz d n dec" and l: "decode_iter env a d (local_addr n) (l_iter l)"
    and t: "t \<noteq> - 1"
  shows "returns (decode_unknown env dec n t wt l s m)"
    and "decode_unknown env dec n t wt l s m = Some (e, l', s', m') \<Longrightarrow> i_bytes_left s' \<le> i_bytes_left s"
proof -
  note F = total_frame_facts [OF fr]
  have t': "\<not> - 1 \<le> t" using t by (metis word_order.extremum_unique)
  obtain found it where f: "find_extension_field env (l_iter l) = Some (found, it)"
    using find_extension_returns [OF F(1,2) l] by (auto elim: returnsE)
  have nf: "\<not> found" by (rule no_extension_found [OF F(4) l f])
  obtain ok s1 where sk: "pb_skip_field env s wt = (ok, s1)" by (cases "pb_skip_field env s wt")
  show "returns (decode_unknown env dec n t wt l s m)"
    using f nf t' sk by (simp add: decode_unknown_def Let_def)
  show "i_bytes_left s' \<le> i_bytes_left s" if "decode_unknown env dec n t wt l s m = Some (e, l', s', m')"
    using that f nf t' sk skip_field_le [OF sk] by (auto simp: decode_unknown_def Let_def split: if_splits)
qed

lemma step_returns:
  assumes fr: "total_frame env k a sz d n dec" and l: "decode_iter env a d (local_addr n) (l_iter l)"
  shows "returns (decode_step env dec n a l s m)"
    and "decode_step env dec n a l s m = Some (L_continue, l', s', m') \<Longrightarrow> i_bytes_left s' < i_bytes_left s"
proof -
  note F = total_frame_facts [OF fr]
  obtain ok wt t eof s1 where tg: "pb_decode_tag env s = (ok, wt, t, eof, s1)"
    by (cases "pb_decode_tag env s")
  obtain found it where f: "pb_field_iter_find env (l_iter l) t = Some (found, it)"
    using find_returns [OF F(1,2) l, of t] by (auto elim: returnsE)
  have it: "decode_iter env a d (local_addr n) (l_iter (l\<lparr>l_iter := it\<rparr>))"
    using decode_iter_find [OF F(1,2) l f] by simp
  have t: "ok \<Longrightarrow> t \<noteq> - 1" using tg by (intro decode_tag_bound [of env s wt t eof s1]) simp
  note kn = known_returns [OF fr it] and un = unknown_returns [OF fr it t]
  show "returns (decode_step env dec n a l s m)"
    using tg f kn(1) un(1) by (auto simp: decode_step_def)
  show "i_bytes_left s' < i_bytes_left s"
    if "decode_step env dec n a l s m = Some (L_continue, l', s', m')"
    using that tg f kn(2) un(2) tag_less(2) [OF tg]
    by (fastforce simp: decode_step_def split: if_splits)
qed

lemma loop_returns:
  assumes fr: "total_frame env k a sz d n dec" and l: "decode_iter env a d (local_addr n) (l_iter l)"
    and "i_bytes_left s < j"
  shows "returns (decode_loop env dec n a j l s m)"
  using l assms(3)
proof (induction j arbitrary: l s m)
  case (Suc j)
  note F = total_frame_facts [OF fr]
  obtain e l1 s1 m1 where st: "decode_step env dec n a l s m = Some (e, l1, s1, m1)"
    using step_returns(1) [OF fr Suc.prems(1), of s m] by (auto elim: returnsE)
  have l1: "decode_iter env a d (local_addr n) (l_iter l1)"
    using step_safe [OF F(4) Suc.prems(1) st] by simp
  have "e = L_continue \<Longrightarrow> i_bytes_left s1 < j"
    using step_returns(2) [OF fr Suc.prems(1)] st Suc.prems(2) by fastforce
  then show ?case using st Suc.IH [OF l1] by simp
qed simp

lemma decode_returns:
  assumes "wf_env env" and "reads_bounded env"
  shows "(\<forall>a sz d s m. layout_fits env k a sz \<longrightarrow> 0 < d \<longrightarrow> 2 * k \<le> n \<longrightarrow> returns (pb_decode_noinit env n s a d m)) \<and>
         (\<forall>a sz d s m. layout_fits env k a sz \<longrightarrow> 0 < d \<longrightarrow> 2 * k < n \<longrightarrow> returns (pb_decode env n s a d m))"
proof (induction k arbitrary: n)
  case 0
  then show ?case by simp
next
  case (Suc k)
  have noinit: "returns (pb_decode_noinit env n s a d m)"
    if fits: "layout_fits env (Suc k) a sz" and d: "0 < d" and n: "2 * Suc k \<le> n" for n a sz d s m
  proof -
    obtain n' where n': "n = Suc n'" using n by (cases n) auto
    let ?dec = "\<lambda>init s a d m. if init then pb_decode env n' s a d m else pb_decode_noinit env n' s a d m"
    have "decoder_safe (layout_fits env k) ?dec"
      using decode_touches [OF assms, of n'] unfolding decoder_safe_def msg_decoder_touches_def by simp
    moreover have "decoder_total (layout_fits env k) ?dec"
      using Suc.IH [of n'] n n' unfolding decoder_total_def by auto
    ultimately have fr: "total_frame env k a sz d n' ?dec"
      using assms fits d n n' unfolding total_frame_def decode_frame_def by auto
    let ?l = "\<lparr>l_iter = snd (pb_field_iter_begin env a d), fields_seen = [0, 0],
               extension_range_start = 0, fixed_count_field = None\<rparr>"
    have it: "decode_iter env a d (local_addr n') (l_iter ?l)"
      using assms(1) d by (simp add: decode_iter_begin NULL_def)
    obtain e l' s' m' where lp: "decode_loop env ?dec n' a (Suc (i_bytes_left s)) ?l s m = Some (e, l', s', m')"
      using loop_returns [OF fr it, of s "Suc (i_bytes_left s)" m]
      by (auto elim: returnsE simp del: decode_loop.simps)
    have "returns (required_count env (l_iter l'))"
      using loop_safe [OF total_frame_facts(4) [OF fr] it lp]
      by (intro required_count_returns [OF total_frame_facts(1,2) [OF fr]]) blast
    then show ?thesis using lp unfolding n'
      by (auto simp: Let_def simp del: decode_loop.simps split: loop_exit.split elim!: returnsE)
  qed
  moreover have "returns (pb_decode env n s a d m)"
    if fits: "layout_fits env (Suc k) a sz" and d: "0 < d" and n: "2 * Suc k < n" for a sz d s m
  proof -
    obtain n' where n': "n = Suc n'" using n by (cases n) auto
    obtain m1 where m1: "pb_message_set_to_defaults env n a d m = Some m1"
      using defaults_return [OF assms(1) fits d, of n m] n by (auto elim: returnsE)
    obtain ok s' m2 where "pb_decode_noinit env n' s a d m1 = Some (ok, s', m2)"
      using noinit [OF fits d, of n' s m1] n n' by (auto elim: returnsE)
    moreover have "returns (pb_release env n a d m2)"
      using release_returns [OF assms(1) fits d] n by simp
    ultimately show ?thesis using m1 unfolding n'
      by (simp del: pb_message_set_to_defaults.simps pb_release.simps)
  qed
  ultimately show ?case by blast
qed

end
