(* ===== verification/Pb_Required.thy ===== *)
theory Pb_Required
  imports Pb_Total
begin

text \<open>
  The check of required fields in \<^verbatim>\<open>pb_decode_noinit\<close>: what it computes from the descriptor array
  and from the bit set of the fields seen.
\<close>

subsection \<open>How many bits are checked\<close>

definition required_total :: "pb_field list \<Rightarrow> nat" where
  "required_total fs = length (filter (\<lambda>f. htype f = PB_HTYPE_REQUIRED) fs)"

lemma required_before_take: "k \<le> length fs \<Longrightarrow> required_before fs k = required_total (take k fs)"
  by (induction k) (simp_all add: required_total_def take_Suc_conv_app_nth)

lemma required_count_loop_at:
  assumes "wf_fields (fields_at env a)" and "d \<noteq> NULL" and "k < length (fields_at env a)"
    and "length (fields_at env a) - k \<le> n"
  shows "required_count_loop env n (iter_at env a d k) =
         Some (required_before (fields_at env a) (length (fields_at env a) - 1),
               ftype (last (fields_at env a)), iter_at env a d 0)"
  using assms(3,4)
proof (induction n arbitrary: k)
  case 0
  then show ?case by simp
next
  case (Suc n)
  show ?case
  proof (cases "Suc k < length (fields_at env a)")
    case True
    then show ?thesis using Suc next_inner [OF assms(1) True] by simp
  next
    case False
    then have k: "Suc k = length (fields_at env a)" using Suc.prems by simp
    then have "fields_at env a ! k = last (fields_at env a)"
      by (metis Suc.prems(1) diff_Suc_1 last_conv_nth list.size(3) not_less_zero)
    moreover have "length (fields_at env a) - 1 = k" using k by simp
    ultimately show ?thesis using Suc.prems next_wrap [OF assms(1,2) k] by simp
  qed
qed

lemma required_total_butlast:
  "fs \<noteq> [] \<Longrightarrow> required_total fs =
     required_before fs (length fs - 1) + (if htype (last fs) = PB_HTYPE_REQUIRED then 1 else 0)"
  by (cases fs rule: rev_cases) (auto simp: required_before_take required_total_def)

lemma required_count_eq:
  assumes "wf_env env" and "d \<noteq> NULL" and "decode_iter env a d x it"
  shows "required_count env it = Some (min (required_total (fields_at env a)) PB_MAX_REQUIRED_FIELDS)"
proof (cases "fields_at env a = []")
  case True
  then have n: "pb_field_iter_next env it = (False, it)" using assms(3) by (rule next_empty)
  have "it = snd (pb_field_iter_begin env a d)" using assms(3) True by (simp add: decode_iter_def)
  then have "tag (iter_field env it) = 0" "required_field_index it = 0"
    using True by (simp_all add: iter_field_def pb_field_iter_begin_def Let_def)
  then show ?thesis using n True by (simp add: required_count_def required_total_def Let_def)
next
  case False
  have wf: "wf_fields (fields_at env a)" using assms(1) by (simp add: wf_env_def)
  obtain k where k: "k < length (fields_at env a)"
    and it: "it = iter_at env a d k \<or>
             htype (fields_at env a ! k) = PB_HTYPE_REPEATED \<and> it = (iter_at env a d k)\<lparr>pSize := x\<rparr>"
    using assms(3) False by (auto simp: decode_iter_def)
  have nx: "pb_field_iter_next env it = pb_field_iter_next env (iter_at env a d k)"
    using it k tag_nth [OF wf k] by (auto simp: htype_defs intro!: next_redirected)
  have "required_count_loop env (Suc (length (fields_at env a))) it =
        required_count_loop env (Suc (length (fields_at env a))) (iter_at env a d k)"
    using it nx by (auto simp: iter_field_def split: prod.split)
  moreover have "start it = a" using it by auto
  moreover have "tag (fields_at env a ! 0) \<noteq> 0" using tag_nth [OF wf, of 0] False by simp
  ultimately show ?thesis
    using required_count_loop_at [OF wf assms(2) k, of "Suc (length (fields_at env a))"] False k
      required_total_butlast [OF False]
    by (auto simp: required_count_def Let_def simp del: required_count_loop.simps)
qed

subsection \<open>What the bit set says\<close>

definition seen_bit :: "u32 list \<Rightarrow> nat \<Rightarrow> bool" where
  "seen_bit seen i \<longleftrightarrow> bit (seen ! (i div 32)) (i mod 32)"

lemma all_ones: "(w :: u32) = - 1 \<longleftrightarrow> (\<forall>k < 32. bit w k)"
  by (auto intro!: bit_word_eqI simp: bit_minus_1_iff)

lemma low_ones:
  assumes "0 < r" and "r < 32"
  shows "(w :: u32) = drop_bit (32 - r) (- 1) \<longleftrightarrow> (\<forall>k < 32. bit w k \<longleftrightarrow> k < r)"
proof -
  have "bit (drop_bit (32 - r) (- 1 :: u32)) k \<longleftrightarrow> k < r" if "k < 32" for k
    using that assms by (auto simp: bit_drop_bit_eq bit_minus_1_iff bit_mask_iff)
  then show ?thesis by (auto intro!: bit_word_eqI)
qed

lemma required_all_seen_iff:
  assumes "length seen = 2" and "c \<le> 64" and unseen: "\<And>i. c \<le> i \<Longrightarrow> i < 64 \<Longrightarrow> \<not> seen_bit seen i"
  shows "required_all_seen c seen \<longleftrightarrow> (\<forall>i < c. seen_bit seen i)"
proof -
  have whole: "(\<forall>i \<in> set [0..<c div 32]. seen ! i = - 1) \<longleftrightarrow> (\<forall>i < c div 32 * 32. seen_bit seen i)"
  proof -
    have "(\<forall>i < n * 32. seen_bit seen i) \<longleftrightarrow> (\<forall>i < n. \<forall>k < 32. seen_bit seen (i * 32 + k))" for n
    proof safe
      fix i assume h: "\<forall>i<n. \<forall>k<32. seen_bit seen (i * 32 + k)" and "i < n * 32"
      then have "i div 32 < n" by (simp add: less_mult_imp_div_less)
      with h have "seen_bit seen (i div 32 * 32 + i mod 32)" by (metis mod_less_divisor zero_less_numeral)
      then show "seen_bit seen i" by simp
    qed auto
    then show ?thesis by (auto simp: all_ones seen_bit_def)
  qed
  have rest: "seen ! (c div 32) = drop_bit (32 - c mod 32) (- 1) \<longleftrightarrow> (\<forall>i < c. c div 32 * 32 \<le> i \<longrightarrow> seen_bit seen i)"
    if r: "c mod 32 \<noteq> 0"
  proof -
    let ?b = "c div 32 * 32"
    have c: "c = ?b + c mod 32" by simp
    have sb: "bit (seen ! (c div 32)) k = seen_bit seen (?b + k)" if "k < 32" for k
      using that by (simp add: seen_bit_def)
    have top: "\<not> seen_bit seen (?b + k)" if "c mod 32 \<le> k" "k < 32" for k
    proof (rule unseen)
      have "c div 32 < 2" using assms(2) r by (cases "c = 64") (auto simp: less_mult_imp_div_less)
      then show "?b + k < 64" using that(2) by linarith
    qed (use that c in linarith)
    have "seen ! (c div 32) = drop_bit (32 - c mod 32) (- 1) \<longleftrightarrow> (\<forall>k < c mod 32. seen_bit seen (?b + k))"
      using low_ones [of "c mod 32" "seen ! (c div 32)"] r sb top by (auto simp: not_less)
    also have "\<dots> \<longleftrightarrow> (\<forall>i < c. ?b \<le> i \<longrightarrow> seen_bit seen i)"
    proof safe
      fix i assume h: "\<forall>k<c mod 32. seen_bit seen (?b + k)" and i: "i < c" "?b \<le> i"
      then have "i - ?b < c mod 32" using c by linarith
      then have "seen_bit seen (?b + (i - ?b))" by (rule h [rule_format])
      then show "seen_bit seen i" using i by simp
    next
      fix k assume h: "\<forall>i<c. ?b \<le> i \<longrightarrow> seen_bit seen i" and "k < c mod 32"
      then have "?b + k < c" using c by linarith
      then show "seen_bit seen (?b + k)" using h by simp
    qed
    finally show ?thesis .
  qed
  show ?thesis
  proof (cases "c mod 32 = 0")
    case True
    then have "c div 32 * 32 = c" by auto
    then show ?thesis using whole True by (auto simp: required_all_seen_def)
  next
    case False
    then show ?thesis using whole rest by (auto simp: required_all_seen_def not_le)
  qed
qed

text \<open>The bit set of a decoding loop never has a bit that belongs to no required field.\<close>

definition seen_ok :: "pb_field list \<Rightarrow> u32 list \<Rightarrow> bool" where
  "seen_ok fs seen \<longleftrightarrow> length seen = 2 \<and> (\<forall>i < 64. seen_bit seen i \<longrightarrow> i < required_total fs)"

lemma required_index_less:
  assumes "k < length fs" and "htype (fs ! k) = PB_HTYPE_REQUIRED"
  shows "required_before fs k < required_total fs"
proof -
  have "required_total (take (Suc k) fs) \<le> required_total fs"
    unfolding required_total_def by (metis append_take_drop_id filter_append le_add1 length_append)
  then show ?thesis using assms required_before_take [of "Suc k" fs] by simp
qed

lemma mark_seen_bits:
  assumes "length seen = 2" and "i < 64"
  shows "seen_bit (mark_seen env it seen) i \<longleftrightarrow>
         seen_bit seen i \<or> htype (iter_field env it) = PB_HTYPE_REQUIRED \<and> required_field_index it = i"
proof -
  let ?r = "required_field_index it"
  have "seen_bit (seen[?r div 32 := seen ! (?r div 32) OR push_bit (?r mod 32) 1]) i \<longleftrightarrow>
        seen_bit seen i \<or> ?r = i" if "?r < 64"
  proof (cases "i div 32 = ?r div 32")
    case True
    then have "?r = i \<longleftrightarrow> ?r mod 32 = i mod 32" by (metis div_mult_mod_eq)
    then show ?thesis using True that assms
      by (auto simp: seen_bit_def bit_or_iff bit_push_bit_iff bit_1_iff bit_exp_iff)
  next
    case False
    then show ?thesis using that by (auto simp: seen_bit_def)
  qed
  then show ?thesis using assms(2) by (auto simp: mark_seen_def Let_def PB_MAX_REQUIRED_FIELDS_def)
qed

lemma required_check_iff:
  assumes "seen_ok fs seen"
  shows "required_all_seen (min (required_total fs) PB_MAX_REQUIRED_FIELDS) seen \<longleftrightarrow>
         (\<forall>i < min (required_total fs) 64. seen_bit seen i)"
  unfolding PB_MAX_REQUIRED_FIELDS_def
  by (rule required_all_seen_iff) (use assms in \<open>fastforce simp: seen_ok_def\<close>)+

text \<open>The steps of the loop keep the bit set well-formed.\<close>

lemma mark_seen_ok:
  assumes "wf_env env" and "decode_iter env a d x it" and "seen_ok (fields_at env a) seen"
    and "fields_at env a \<noteq> []"
  shows "seen_ok (fields_at env a) (mark_seen env it seen)"
proof -
  obtain k where k: "k < length (fields_at env a)" and "iter_field env it = fields_at env a ! k"
    and "required_field_index it = required_before (fields_at env a) k"
    using assms(2,4) by (auto simp: decode_iter_def iter_field_def)
  then have "htype (iter_field env it) = PB_HTYPE_REQUIRED \<Longrightarrow>
      required_field_index it < required_total (fields_at env a)"
    using required_index_less [OF k] by simp
  moreover have "length (mark_seen env it seen) = 2"
    using assms(3) by (simp add: mark_seen_def seen_ok_def Let_def)
  ultimately show ?thesis
    using assms(3) mark_seen_bits [of seen _ env it] by (auto simp: seen_ok_def)
qed

lemma step_seen_ok:
  assumes fr: "total_frame env k a sz d n dec" and l: "decode_iter env a d (local_addr n) (l_iter l)"
    and seen: "seen_ok (fields_at env a) (fields_seen l)" and ne: "fields_at env a \<noteq> []"
    and r: "decode_step env dec n a l s m = Some (e, l', s', m')"
  shows "seen_ok (fields_at env a) (fields_seen l')"
proof -
  note F = total_frame_facts [OF fr]
  obtain ok wt t eof s1 where tg: "pb_decode_tag env s = (ok, wt, t, eof, s1)"
    by (cases "pb_decode_tag env s")
  obtain found it where f: "pb_field_iter_find env (l_iter l) t = Some (found, it)"
    using find_returns [OF F(1,2) l, of t] by (auto elim: returnsE)
  have mk: "seen_ok (fields_at env a) (mark_seen env it (fields_seen l))"
    by (rule mark_seen_ok [OF F(1) decode_iter_find [OF F(1,2) l f] seen ne])
  have kn: "seen_ok (fields_at env a) (fields_seen l')"
    if "decode_known env dec n a wt (l\<lparr>l_iter := it\<rparr>) s1 m = Some (e, l', s', m')"
    using that mk seen unfolding decode_known_def Let_def by (auto split: if_splits)
  have un: "seen_ok (fields_at env a) (fields_seen l')"
    if "decode_unknown env dec n t wt (l\<lparr>l_iter := it\<rparr>) s1 m = Some (e, l', s', m')"
    using that seen unfolding decode_unknown_def Let_def
    by (auto split: if_splits option.splits prod.splits)
  show ?thesis using r tg f kn un seen by (auto simp: decode_step_def split: if_splits)
qed

lemma loop_seen_ok:
  assumes fr: "total_frame env k a sz d n dec" and ne: "fields_at env a \<noteq> []"
  shows "decode_iter env a d (local_addr n) (l_iter l) \<Longrightarrow> seen_ok (fields_at env a) (fields_seen l) \<Longrightarrow>
         decode_loop env dec n a j l s m = Some (e, l', s', m') \<Longrightarrow> seen_ok (fields_at env a) (fields_seen l')"
proof (induction j arbitrary: l s m)
  case (Suc j)
  show ?case
  proof (cases "i_bytes_left s = 0")
    case False
    then obtain e1 l1 s1 m1 where st: "decode_step env dec n a l s m = Some (e1, l1, s1, m1)"
      using Suc.prems(3) by (auto split: option.splits)
    have "decode_iter env a d (local_addr n) (l_iter l1)"
      using step_safe [OF total_frame_facts(4) [OF fr] Suc.prems(1) st] by simp
    moreover have "seen_ok (fields_at env a) (fields_seen l1)"
      by (rule step_seen_ok [OF fr Suc.prems(1,2) ne st])
    ultimately show ?thesis using Suc.prems(3) False st Suc.IH [of l1 s1 m1] by (auto split: if_splits)
  qed (use Suc.prems in simp)
qed simp

subsection \<open>The tags a message must contain\<close>

text \<open>The tags of the fields the loop has decoded or skipped before it ended.\<close>

fun loop_tags ::
  "pb_env \<Rightarrow> msg_decoder \<Rightarrow> nat \<Rightarrow> addr \<Rightarrow> nat \<Rightarrow> decode_locals \<Rightarrow> pb_istream \<Rightarrow> cmem \<Rightarrow> u32 list" where
  "loop_tags env dec n a 0 l s m = []"
| "loop_tags env dec n a (Suc k) l s m =
     (if i_bytes_left s = 0 then []
      else (case decode_step env dec n a l s m of
              Some (L_continue, l', s', m') \<Rightarrow>
                (case pb_decode_tag env s of (ok, wt, t, eof, s1) \<Rightarrow> t # loop_tags env dec n a k l' s' m')
            | _ \<Rightarrow> []))"

definition message_tags :: "pb_env \<Rightarrow> nat \<Rightarrow> pb_istream \<Rightarrow> addr \<Rightarrow> addr \<Rightarrow> cmem \<Rightarrow> u32 list" where
  "message_tags env n s a d m =
     loop_tags env (\<lambda>init s a d m. if init then pb_decode env n s a d m else pb_decode_noinit env n s a d m) n a
       (Suc (i_bytes_left s))
       \<lparr>l_iter = snd (pb_field_iter_begin env a d), fields_seen = [0, 0], extension_range_start = 0,
        fixed_count_field = None\<rparr> s m"

lemma find_decode_iter:
  assumes "wf_env env" and "d \<noteq> NULL" and "decode_iter env a d x it" and "fields_at env a \<noteq> []"
    and "pb_field_iter_find env it t = Some (found, it')"
  shows "if found then pos it' < length (fields_at env a) \<and> field_matches env a t (pos it')
         else \<forall>i < length (fields_at env a). \<not> field_matches env a t i"
proof -
  have wf: "wf_fields (fields_at env a)" using assms(1) by (simp add: wf_env_def)
  obtain k where k: "k < length (fields_at env a)"
    and it: "it = iter_at env a d k \<or>
             htype (fields_at env a ! k) = PB_HTYPE_REPEATED \<and> it = (iter_at env a d k)\<lparr>pSize := x\<rparr>"
    using assms(3,4) by (auto simp: decode_iter_def)
  have nx: "pb_field_iter_next env it = pb_field_iter_next env (iter_at env a d k)"
    using it k tag_nth [OF wf k] by (auto simp: htype_defs intro!: next_redirected)
  have f: "iter_field env it = fields_at env a ! k" "pos it = k" "start it = a"
    using it k by (auto simp: iter_field_def)
  show ?thesis
  proof (cases "field_matches env a t k")
    case True
    then have "found" "it' = it" using assms(5) f by (auto simp: pb_field_iter_find_def field_matches_def)
    then show ?thesis using True k f by simp
  next
    case False
    then have "pb_field_iter_find env it t = pb_field_iter_find env (iter_at env a d k) t"
      using f nx k by (auto simp: pb_field_iter_find_def field_matches_def)
    then show ?thesis using find_at_result [OF wf assms(2) k, of t] assms(5) by auto
  qed
qed

text \<open>The required entries whose tag is \<open>t\<close>.\<close>

definition required_with :: "pb_field list \<Rightarrow> u32 \<Rightarrow> nat \<Rightarrow> bool" where
  "required_with fs t i \<longleftrightarrow>
     (\<exists>k < length fs. htype (fs ! k) = PB_HTYPE_REQUIRED \<and> tag (fs ! k) = t \<and> required_before fs k = i)"

lemma required_with_found:
  assumes "distinct (map tag fs)" and "j < length fs" and "tag (fs ! j) = t"
  shows "required_with fs t i \<longleftrightarrow> htype (fs ! j) = PB_HTYPE_REQUIRED \<and> required_before fs j = i"
proof -
  have "k = j" if "k < length fs" "tag (fs ! k) = t" for k
  proof -
    have "map tag fs ! k = map tag fs ! j" using that assms(2,3) by simp
    then show ?thesis using nth_eq_iff_index_eq [OF assms(1), of k j] that(1) assms(2) by simp
  qed
  then show ?thesis using assms(2,3) unfolding required_with_def by blast
qed

lemma step_seen_bits:
  assumes fr: "total_frame env k a sz d n dec" and l: "decode_iter env a d (local_addr n) (l_iter l)"
    and ne: "fields_at env a \<noteq> []" and dt: "distinct (map tag (fields_at env a))"
    and len: "length (fields_seen l) = 2" and i: "i < 64"
    and r: "decode_step env dec n a l s m = Some (L_continue, l', s', m')"
    and tg: "pb_decode_tag env s = (ok, wt, t, eof, s1)"
  shows "seen_bit (fields_seen l') i \<longleftrightarrow> seen_bit (fields_seen l) i \<or> required_with (fields_at env a) t i"
proof -
  note F = total_frame_facts [OF fr]
  have ext: "ltype (fields_at env a ! j) \<noteq> PB_LTYPE_EXTENSION" if "j < length (fields_at env a)" for j
    using F(4) that by (auto simp: decode_frame_def field_fits_def)
  have ok: "ok" using r tg by (auto simp: decode_step_def split: if_splits)
  obtain found it where f: "pb_field_iter_find env (l_iter l) t = Some (found, it)"
    using find_returns [OF F(1,2) l, of t] by (auto elim: returnsE)
  note fd = find_decode_iter [OF F(1,2) l ne f]
  show ?thesis
  proof (cases found)
    case True
    have "decode_iter env a d (local_addr n) it" by (rule decode_iter_find [OF F(1,2) l f])
    then have it: "iter_field env it = fields_at env a ! pos it"
        "required_field_index it = required_before (fields_at env a) (pos it)"
      using ne by (auto simp: decode_iter_def iter_field_def)
    have "decode_known env dec n a wt (l\<lparr>l_iter := it\<rparr>) s1 m = Some (L_continue, l', s', m')"
      using r tg f True ok by (simp add: decode_step_def)
    then have "fields_seen l' = mark_seen env it (fields_seen l)"
      unfolding decode_known_def Let_def by (auto split: if_splits)
    then show ?thesis
      using mark_seen_bits [OF len i, of env it] it fd True required_with_found [OF dt, of "pos it" t i]
      by (auto simp: field_matches_def)
  next
    case False
    have "decode_unknown env dec n t wt (l\<lparr>l_iter := it\<rparr>) s1 m = Some (L_continue, l', s', m')"
      using r tg f False ok by (simp add: decode_step_def)
    then have "fields_seen l' = fields_seen l"
      unfolding decode_unknown_def Let_def by (auto split: if_splits option.splits prod.splits)
    then show ?thesis using fd False ext by (auto simp: required_with_def field_matches_def)
  qed
qed

lemma loop_seen_bits:
  assumes fr: "total_frame env k a sz d n dec" and ne: "fields_at env a \<noteq> []"
    and dt: "distinct (map tag (fields_at env a))" and i: "i < 64"
  shows "decode_iter env a d (local_addr n) (l_iter l) \<Longrightarrow> seen_ok (fields_at env a) (fields_seen l) \<Longrightarrow>
         decode_loop env dec n a j l s m = Some (L_break, l', s', m') \<Longrightarrow>
         seen_bit (fields_seen l') i \<longleftrightarrow>
           seen_bit (fields_seen l) i \<or> (\<exists>t \<in> set (loop_tags env dec n a j l s m). required_with (fields_at env a) t i)"
proof (induction j arbitrary: l s m)
  case (Suc j)
  show ?case
  proof (cases "i_bytes_left s = 0")
    case True
    then show ?thesis using Suc.prems(3) by simp
  next
    case False
    then obtain e1 l1 s1 m1 where st: "decode_step env dec n a l s m = Some (e1, l1, s1, m1)"
      using Suc.prems(3) by (auto split: option.splits)
    obtain ok wt t eof s0 where tg: "pb_decode_tag env s = (ok, wt, t, eof, s0)" by (cases "pb_decode_tag env s")
    show ?thesis
    proof (cases "e1 = L_continue")
      case True
      note st = st [unfolded True]
      have it: "decode_iter env a d (local_addr n) (l_iter l1)"
        using step_safe [OF total_frame_facts(4) [OF fr] Suc.prems(1) st] by simp
      have seen: "seen_ok (fields_at env a) (fields_seen l1)"
        by (rule step_seen_ok [OF fr Suc.prems(1,2) ne st])
      have len: "length (fields_seen l) = 2" using Suc.prems(2) by (simp add: seen_ok_def)
      have lp: "decode_loop env dec n a j l1 s1 m1 = Some (L_break, l', s', m')"
        using Suc.prems(3) False st by simp
      have "loop_tags env dec n a (Suc j) l s m = t # loop_tags env dec n a j l1 s1 m1"
        using False st tg by simp
      then show ?thesis
        using Suc.IH [OF it seen lp] step_seen_bits [OF fr Suc.prems(1) ne dt len i st tg] by auto
    next
      case no: False
      then have "l' = l1" "e1 = L_break" using Suc.prems(3) False st by auto
      moreover have "l1 = l" if "e1 = L_break"
        using st that tg unfolding decode_step_def decode_known_def decode_unknown_def Let_def
        by (auto split: if_splits option.splits prod.splits)
      ultimately show ?thesis using False st by simp
    qed
  qed
qed simp

lemma required_total_pos:
  "i < required_total fs \<Longrightarrow> \<exists>k < length fs. htype (fs ! k) = PB_HTYPE_REQUIRED \<and> required_before fs k = i"
proof (induction fs rule: rev_induct)
  case (snoc f fs)
  have rb: "required_before (fs @ [f]) k = required_before fs k" if "k \<le> length fs" for k
    using that by (simp add: required_before_take)
  show ?case
  proof (cases "i < required_total fs")
    case True
    then obtain k where k: "k < length fs" "htype (fs ! k) = PB_HTYPE_REQUIRED" "required_before fs k = i"
      using snoc.IH by blast
    then show ?thesis using rb [of k] by (intro exI [of _ k]) (simp add: nth_append)
  next
    case False
    then have "htype f = PB_HTYPE_REQUIRED" "i = required_total fs"
      using snoc.prems by (auto simp: required_total_def split: if_splits)
    then show ?thesis using rb [of "length fs"] by (intro exI [of _ "length fs"]) (simp add: required_before_take)
  qed
qed (simp add: required_total_def)

lemma required_bits_tags:
  assumes "\<And>i. i < 64 \<Longrightarrow> seen_bit seen i \<longleftrightarrow> (\<exists>t \<in> T. required_with fs t i)" and dt: "distinct (map tag fs)"
  shows "(\<forall>i < min (required_total fs) 64. seen_bit seen i) \<longleftrightarrow>
         (\<forall>k < length fs. htype (fs ! k) = PB_HTYPE_REQUIRED \<longrightarrow> required_before fs k < 64 \<longrightarrow> tag (fs ! k) \<in> T)"
proof safe
  fix k assume a: "\<forall>i < min (required_total fs) 64. seen_bit seen i" "k < length fs"
    "htype (fs ! k) = PB_HTYPE_REQUIRED" "required_before fs k < 64"
  then have "seen_bit seen (required_before fs k)" using required_index_less by simp
  then obtain t j where j: "t \<in> T" "j < length fs" "htype (fs ! j) = PB_HTYPE_REQUIRED" "tag (fs ! j) = t"
      "required_before fs j = required_before fs k"
    using assms(1) a(4) by (auto simp: required_with_def)
  have mono: "required_before fs x < required_before fs y" if "x < y" "htype (fs ! x) = PB_HTYPE_REQUIRED" for x y
    using that by (induction y) (auto simp: less_Suc_eq)
  have "j = k" using j(5) mono [of j k] mono [of k j] j(3) a(3) by (cases j k rule: linorder_cases) auto
  then show "tag (fs ! k) \<in> T" using j by simp
next
  fix i assume a: "\<forall>k<length fs. htype (fs ! k) = PB_HTYPE_REQUIRED \<longrightarrow> required_before fs k < 64 \<longrightarrow> tag (fs ! k) \<in> T"
    and i: "i < min (required_total fs) 64"
  then obtain k where "k < length fs" "htype (fs ! k) = PB_HTYPE_REQUIRED" "required_before fs k = i"
    using required_total_pos [of i fs] by auto
  then show "seen_bit seen i" using a i assms(1) by (auto simp: required_with_def)
qed

text \<open>What \<^verbatim>\<open>pb_decode_noinit\<close> returns when its loop reached the end of the input.\<close>

definition all_required :: "pb_field list \<Rightarrow> u32 list \<Rightarrow> bool" where
  "all_required fs ts \<longleftrightarrow>
     (\<forall>k < length fs. htype (fs ! k) = PB_HTYPE_REQUIRED \<longrightarrow> required_before fs k < 64 \<longrightarrow> tag (fs ! k) \<in> set ts)"

lemma frame_of_layout:
  assumes "wf_env env" and "reads_bounded env" and "layout_fits env (Suc k) a sz" and "0 < d" and "2 * Suc k \<le> Suc n"
  shows "total_frame env k a sz d n (\<lambda>init s a d m. if init then pb_decode env n s a d m else pb_decode_noinit env n s a d m)"
proof -
  let ?dec = "\<lambda>init s a d m. if init then pb_decode env n s a d m else pb_decode_noinit env n s a d m"
  have "decoder_safe (layout_fits env k) ?dec"
    using decode_touches [OF assms(1,2), of n] unfolding decoder_safe_def msg_decoder_touches_def by simp
  moreover have "decoder_total (layout_fits env k) ?dec"
    using decode_returns [OF assms(1,2), of k n] assms(5) unfolding decoder_total_def by auto
  ultimately show ?thesis using assms unfolding total_frame_def decode_frame_def by auto
qed

text \<open>The required fields at the end of the loop.\<close>

lemma loop_required:
  assumes fr: "total_frame env k a sz d n dec" and ne: "fields_at env a \<noteq> []" and dt: "distinct (map tag (fields_at env a))"
    and l: "l_iter l = snd (pb_field_iter_begin env a d)" "fields_seen l = [0, 0]"
    and lp: "decode_loop env dec n a r l s m = Some (L_break, l', s', m')"
  shows "required_all_seen (min (required_total (fields_at env a)) PB_MAX_REQUIRED_FIELDS) (fields_seen l') \<longleftrightarrow>
         all_required (fields_at env a) (loop_tags env dec n a r l s m)"
proof -
  note F = total_frame_facts [OF fr]
  have it: "decode_iter env a d (local_addr n) (l_iter l)" using F(1,2) l(1) by (simp add: decode_iter_begin)
  have s0: "seen_ok (fields_at env a) (fields_seen l)" using l(2) by (auto simp: seen_ok_def seen_bit_def nth_Cons')
  have b: "seen_bit (fields_seen l') i \<longleftrightarrow> (\<exists>t \<in> set (loop_tags env dec n a r l s m). required_with (fields_at env a) t i)"
    if "i < 64" for i
  proof -
    have "\<not> seen_bit (fields_seen l) i" using that l(2) by (simp add: seen_bit_def nth_Cons')
    then show ?thesis using loop_seen_bits [OF fr ne dt that it s0 lp] by blast
  qed
  show ?thesis
    unfolding required_check_iff [OF loop_seen_ok [OF fr ne it s0 lp]] all_required_def
    by (rule required_bits_tags [of "fields_seen l'", OF b dt])
qed

lemma decode_noinit_required:
  assumes env: "wf_env env" "reads_bounded env" "layout_fits env k a sz" "0 < d" "2 * k \<le> Suc n"
    and ne: "fields_at env a \<noteq> []" and dt: "distinct (map tag (fields_at env a))"
    and r: "pb_decode_noinit env (Suc n) s a d m = Some (True, s', m')"
  shows "all_required (fields_at env a) (message_tags env n s a d m)"
proof -
  let ?dec = "\<lambda>init s a d m. if init then pb_decode env n s a d m else pb_decode_noinit env n s a d m"
  let ?l = "\<lparr>l_iter = snd (pb_field_iter_begin env a d), fields_seen = [0, 0], extension_range_start = 0,
        fixed_count_field = None\<rparr>"
  obtain k' where k: "k = Suc k'" using env(3) by (cases k) auto
  note fr = frame_of_layout [OF env [unfolded k]]
  note F = total_frame_facts [OF fr]
  have it: "decode_iter env a d (local_addr n) (l_iter ?l)" using F(1,2) by (simp add: decode_iter_begin)
  have nr: "e \<noteq> L_return True" if "decode_loop env ?dec n a j l s m = Some (e, l', s', m')" for e j l s m l' s' m'
    using that
    by (induction j arbitrary: l s m)
       (auto simp: decode_step_def decode_known_def decode_unknown_def Let_def split: if_splits option.splits prod.splits)
  have nc: "e \<noteq> L_continue" if "decode_loop env ?dec n a j l s m = Some (e, l', s', m')" for e j l s m l' s' m'
    using that by (induction j arbitrary: l s m) (auto split: if_splits option.splits)
  obtain e l1 s1 m1 where lp: "decode_loop env ?dec n a (Suc (i_bytes_left s)) ?l s m = Some (e, l1, s1, m1)"
    using r by (auto simp: Let_def simp del: decode_loop.simps split: option.splits)
  then have e: "e = L_break" using nr [OF lp] nc [OF lp] r by (cases e) (auto simp: Let_def simp del: decode_loop.simps)
  note lp = lp [unfolded e]
  have "decode_iter env a d (local_addr n) (l_iter l1)" using loop_safe [OF F(4) it lp] by blast
  then have rc: "required_count env (l_iter l1) = Some (min (required_total (fields_at env a)) PB_MAX_REQUIRED_FIELDS)"
    by (rule required_count_eq [OF F(1,2)])
  have "required_all_seen (min (required_total (fields_at env a)) PB_MAX_REQUIRED_FIELDS) (fields_seen l1)"
    using r lp rc by (auto simp: Let_def simp del: decode_loop.simps split: if_splits)
  then show ?thesis using loop_required [OF fr ne dt _ _ lp] unfolding message_tags_def by simp
qed

end
