(* ===== verification/Pb_Codec.thy ===== *)
theory Pb_Codec
  imports Pb_Istream
begin

text \<open>
  The contract between \<^verbatim>\<open>pb_encode.c\<close> and \<^verbatim>\<open>pb_decode.c\<close> on one kind of wire value: the encoder
  emits the value's wire form, the decoder reads that form back and stops right behind it. What
  follows from the contract alone (round trips of one value and of a sequence, unique decoding) is
  proved once and holds for every pair of functions of the library that keeps it.
\<close>

fun encode_all :: "(pb_ostream \<Rightarrow> 'v \<Rightarrow> bool \<times> pb_ostream) \<Rightarrow> pb_ostream \<Rightarrow> 'v list \<Rightarrow> eres" where
  "encode_all enc s [] = Some (True, s)"
| "encode_all enc s (v # vs) = ebind (Some (enc s v)) (\<lambda>s. encode_all enc s vs)"

fun decode_all :: "(pb_istream \<Rightarrow> bool \<times> 'v \<times> pb_istream) \<Rightarrow> nat \<Rightarrow> pb_istream \<Rightarrow> bool \<times> 'v list \<times> pb_istream"
where
  "decode_all dec 0 s = (True, [], s)"
| "decode_all dec (Suc n) s =
     (case dec s of (ok, v, s') \<Rightarrow>
        if \<not> ok then (False, [], s')
        else (case decode_all dec n s' of (ok, vs, s'') \<Rightarrow> (ok, v # vs, s'')))"

lemma buffer_stream_ok: "n < 2 ^ 63 \<Longrightarrow> buffer_ok (pb_ostream_from_buffer n)"
  by (simp add: buffer_ok_def pb_ostream_from_buffer_def)

lemma buffer_stream_room [simp]: "room (pb_ostream_from_buffer n) k \<longleftrightarrow> k \<le> unat n"
  by (simp add: room_def pb_ostream_from_buffer_def)

lemma emits_buffer:
  assumes "emits f bs" and "n < 2 ^ 63" and "length bs \<le> unat n"
  shows "f (pb_ostream_from_buffer n) =
         Some (True, (pb_ostream_from_buffer n)\<lparr>o_state := bs, o_bytes_written := of_nat (length bs)\<rparr>)"
  using assms buffer_stream_ok [of n]
  by (simp add: emits_def counted_def) (simp add: pb_ostream_from_buffer_def)

lemma feeds_buffer: "feeds (pb_istream_from_buffer (bs @ rest) (length bs + k)) bs"
  by (simp add: feeds_def pb_istream_from_buffer_def)

lemma consume_buffer:
  "consume (pb_istream_from_buffer (bs @ rest) (length bs + k)) (length bs) = pb_istream_from_buffer rest k"
  by (simp add: consume_def pb_istream_from_buffer_def)

locale wire_codec =
  fixes enc :: "pb_env \<Rightarrow> pb_ostream \<Rightarrow> 'v \<Rightarrow> bool \<times> pb_ostream"
    and dec :: "pb_env \<Rightarrow> pb_istream \<Rightarrow> bool \<times> 'v \<times> pb_istream"
    and wire :: "'v \<Rightarrow> u8 list"
  assumes enc_emits: "emits (\<lambda>s. Some (enc env s v)) (wire v)"
    and dec_feeds: "feeds s (wire v) \<Longrightarrow> dec env s = (True, v, consume s (length (wire v)))"
begin

lemma enc_all_emits: "emits (\<lambda>s. encode_all (enc env) s vs) (concat (map wire vs))"
proof (induction vs)
  case Nil
  then show ?case by (simp add: emits_Nil)
next
  case (Cons v vs)
  from emits_bind [OF enc_emits Cons.IH] show ?case by simp
qed

lemma dec_all_feeds:
  "feeds s (concat (map wire vs)) \<Longrightarrow>
   decode_all (dec env) (length vs) s = (True, vs, consume s (length (concat (map wire vs))))"
proof (induction vs arbitrary: s)
  case Nil
  then show ?case by simp
next
  case (Cons v vs)
  then have "dec env s = (True, v, consume s (length (wire v)))"
    by (intro dec_feeds) (simp add: feeds_append)
  with Cons show ?case by (simp add: feeds_append)
qed

lemma round_trip:
  assumes "n < 2 ^ 63" and "length (wire v) \<le> unat n"
  shows "\<exists>s'. enc env (pb_ostream_from_buffer n) v = (True, s') \<and>
              dec env (pb_istream_from_buffer (o_state s' @ rest) (length (o_state s') + k)) =
                (True, v, pb_istream_from_buffer rest k)"
  using emits_buffer [OF enc_emits [of env v] assms] dec_feeds [OF feeds_buffer [of "wire v" rest k], of env]
  by (simp add: consume_buffer)

lemma round_trip_all:
  assumes "n < 2 ^ 63" and "length (concat (map wire vs)) \<le> unat n"
  shows "\<exists>s'. encode_all (enc env) (pb_ostream_from_buffer n) vs = Some (True, s') \<and>
              decode_all (dec env) (length vs)
                (pb_istream_from_buffer (o_state s' @ rest) (length (o_state s') + k)) =
                (True, vs, pb_istream_from_buffer rest k)"
  using emits_buffer [OF enc_all_emits [of env vs] assms]
    dec_all_feeds [OF feeds_buffer [of "concat (map wire vs)" rest k], of env]
  by (simp add: consume_buffer)

lemma unique_decoding:
  assumes "wire v @ x = wire w @ y"
  shows "v = w \<and> x = y"
proof -
  let ?s = "pb_istream_from_buffer (wire v @ x) (length (wire v @ x))"
  have f: "feeds ?s (wire v)" by (simp add: feeds_def pb_istream_from_buffer_def)
  have g: "feeds ?s (wire w)" unfolding assms by (simp add: feeds_def pb_istream_from_buffer_def)
  from dec_feeds [OF f, of undefined] dec_feeds [OF g, of undefined]
  have "v = w" by simp
  with assms show ?thesis by simp
qed

end

interpretation varint_codec: wire_codec pb_encode_varint pb_decode_varint varint
  by unfold_locales (rule emits_encode_varint, rule decode_varint_feeds)

interpretation svarint_codec: wire_codec pb_encode_svarint pb_decode_svarint "\<lambda>v. varint (zigzag v)"
  by unfold_locales (rule emits_encode_svarint, rule decode_svarint_feeds)

interpretation fixed32_codec: wire_codec pb_encode_fixed32 pb_decode_fixed32 "to_le 4"
  by unfold_locales (rule emits_encode_fixed32, simp add: decode_fixed32_feeds)

interpretation fixed64_codec: wire_codec pb_encode_fixed64 pb_decode_fixed64 "to_le 8"
  by unfold_locales (rule emits_encode_fixed64, simp add: decode_fixed64_feeds)

end
