(* ===== verification/Pb_Values.thy ===== *)
theory Pb_Values
  imports Pb_Decode Pb_Wire
begin

text \<open>
  Decoding single values. When the stream holds the bytes the encoder specification gives for a value, the decoder
  of that type accepts them, consumes exactly these bytes, and the field it has filled in has the same wire form.
\<close>

subsection \<open>Integers\<close>

lemma load16_store16 [mem_simps]: "load16 (store16 m a v) a = v"
  by (simp add: load16_def store16_def mload_mstore_same)

lemma widen_narrow:
  "ucast (scast (x :: 'a::len word) :: u64) = x" if "LENGTH('a) \<le> 64"
  by (rule bit_word_eqI) (use that in \<open>auto simp: bit_unsigned_iff bit_signed_iff\<close>)

lemma widen_narrow_unsigned:
  "ucast (ucast (x :: 'a::len word) :: u64) = x" if "LENGTH('a) \<le> 64"
  by (rule bit_word_eqI) (use that in \<open>auto simp: bit_unsigned_iff\<close>)

lemma sign_32:
  "scast (ucast (scast (x :: 'a::len word) :: u64) :: u32) = (scast x :: u64)" if "LENGTH('a) \<le> 32"
  by (rule bit_word_eqI) (use that in \<open>auto simp: bit_unsigned_iff bit_signed_iff min_def\<close>)

lemma store_signed_reads:
  assumes "read_signed m0 sz src = Some v"
  shows "\<exists>m'. store_signed sz dest v m = Some (m', v) \<and> read_signed m' sz dest = Some v"
  using assms
  by (auto simp: read_signed_def store_signed_def load8_store8 load16_store16 load32_store32 load64_store64
      widen_narrow split: if_splits)

lemma store_unsigned_reads:
  assumes "read_unsigned m0 sz src = Some v"
  shows "\<exists>m'. store_unsigned sz dest v m = Some (m', v) \<and> read_unsigned m' sz dest = Some v"
  using assms
  by (auto simp: read_unsigned_def store_unsigned_def load8_store8 load16_store16 load32_store32 load64_store64
      widen_narrow_unsigned split: if_splits)

lemma read_signed_32: "read_signed m0 sz src = Some v \<Longrightarrow> sz \<noteq> 8 \<Longrightarrow> scast (ucast v :: u32) = v"
  by (auto simp: read_signed_def sign_32 split: if_splits)

subsection \<open>Values\<close>

lemma dec_bool_reads:
  assumes "feeds s (varint (if b then 1 else 0))"
  shows "\<exists>m'. pb_dec_bool env s dest m = (True, consume s (length (varint (if b then 1 else 0))), m') \<and>
              safe_read_bool m' dest = b"
proof -
  have "varint (if b then 1 else 0) = varint (ucast (if b then 1 else 0 :: u32))" by simp
  then show ?thesis using decode_varint32_feeds [of s "if b then 1 else 0" env] assms
    by (auto simp: pb_dec_bool_def safe_read_bool_def load8_store8)
qed

lemma dec_varint_reads:
  assumes "feeds s (varint v)" and "read_signed m0 (data_size f) src = Some v"
  shows "\<exists>m'. pb_dec_varint env s f dest m = (True, consume s (length (varint v)), m') \<and>
              read_signed m' (data_size f) dest = Some v"
  using decode_varint_feeds [OF assms(1), of env] store_signed_reads [OF assms(2), of dest m]
    read_signed_32 [OF assms(2)]
  by (auto simp: pb_dec_varint_def store_checked_def)

lemma dec_uvarint_reads:
  assumes "feeds s (varint v)" and "read_unsigned m0 (data_size f) src = Some v"
  shows "\<exists>m'. pb_dec_uvarint env s f dest m = (True, consume s (length (varint v)), m') \<and>
              read_unsigned m' (data_size f) dest = Some v"
  using decode_varint_feeds [OF assms(1), of env] store_unsigned_reads [OF assms(2), of dest m]
  by (auto simp: pb_dec_uvarint_def store_checked_def)

lemma dec_svarint_reads:
  assumes "feeds s (varint (zigzag v))" and "read_signed m0 (data_size f) src = Some v"
  shows "\<exists>m'. pb_dec_svarint env s f dest m = (True, consume s (length (varint (zigzag v))), m') \<and>
              read_signed m' (data_size f) dest = Some v"
  using decode_svarint_feeds [OF assms(1), of env] store_signed_reads [OF assms(2), of dest m]
  by (auto simp: pb_dec_svarint_def store_checked_def)

lemma dec_fixed_reads:
  assumes "feeds s bs"
  shows "length bs = 4 \<Longrightarrow> \<exists>m'. pb_dec_fixed32 env s dest m = (True, consume s 4, m') \<and> mload m' dest 4 = bs"
    and "length bs = 8 \<Longrightarrow> \<exists>m'. pb_dec_fixed64 env s dest m = (True, consume s 8, m') \<and> mload m' dest 8 = bs"
proof -
  assume l: "length bs = 4"
  then have "feeds s (to_le 4 (from_le bs :: u32))" using assms by (simp add: to_le_from_le)
  then show "\<exists>m'. pb_dec_fixed32 env s dest m = (True, consume s 4, m') \<and> mload m' dest 4 = bs"
    using decode_fixed32_feeds [of s "from_le bs" env] l
    by (auto simp: pb_dec_fixed32_def store32_def mload_mstore_same to_le_from_le)
next
  assume l: "length bs = 8"
  then have "feeds s (to_le 8 (from_le bs :: u64))" using assms by (simp add: to_le_from_le)
  then show "\<exists>m'. pb_dec_fixed64 env s dest m = (True, consume s 8, m') \<and> mload m' dest 8 = bs"
    using decode_fixed64_feeds [of s "from_le bs" env] l
    by (auto simp: pb_dec_fixed64_def store64_def mload_mstore_same to_le_from_le)
qed

lemma read_mem_feeds:
  "feeds s bs \<Longrightarrow> pb_read_mem env s dest (length bs) m = (True, consume s (length bs), mstore m dest bs)"
  using read_feeds [of s bs env] by (simp add: pb_read_mem_def)

text \<open>Reading the length prefix.\<close>

lemma string_prefix:
  assumes "feeds s (string_bytes bs)" and "length bs < 2 ^ 32"
  shows "\<exists>k. pb_decode_varint32 env s = (True, of_nat (length bs), consume s k) \<and> feeds (consume s k) bs \<and>
             length (string_bytes bs) = k + length bs"
proof -
  let ?v = "varint (ucast (of_nat (length bs) :: u32))"
  have f: "feeds s ?v" "feeds (consume s (length ?v)) bs"
    using assms(1) unfolding string_bytes_u32 [OF assms(2)] feeds_append by auto
  then show ?thesis using decode_varint32_feeds [OF f(1), of env] string_bytes_u32 [OF assms(2)]
    by (intro exI [of _ "length ?v"]) simp
qed

lemma dec_bytes_reads:
  assumes "feeds s (string_bytes bs)" and "length bs + 4 \<le> unat (data_size f)" and "atype f \<noteq> PB_ATYPE_POINTER"
  shows "\<exists>m'. pb_dec_bytes env s f dest m = (True, consume s (length (string_bytes bs)), m') \<and>
              unat (load32 m' dest) = length bs \<and> mload m' (dest + 4) (length bs) = bs"
proof -
  have len: "length bs < 2 ^ 32 - 4" using assms(2) unat_bound [of "data_size f"] by simp
  then have len32: "length bs < 2 ^ 32" by simp
  obtain k where k: "pb_decode_varint32 env s = (True, of_nat (length bs), consume s k)"
      "feeds (consume s k) bs" "length (string_bytes bs) = k + length bs"
    using string_prefix [OF assms(1) len32] by blast
  let ?n = "of_nat (length bs) :: u32"
  have n: "unat ?n = length bs" using len32 by (simp add: unat_of_nat_lt)
  have a: "unat (ucast ?n + 4 :: u64) = length bs + 4"
    using len n by (subst unat_add_no_wrap) (simp_all add: unat_ucast_u32)
  have c1: "\<not> ucast ?n > (ucast ?n + 4 :: u64)" using a n by (simp add: word_less_nat_alt unat_ucast_u32)
  have c2: "\<not> ucast ?n + 4 > (ucast (data_size f) :: u64)"
    using a assms(2) by (simp add: word_less_nat_alt unat_ucast_u32)
  have c3: "\<not> ?n > PB_SIZE_MAX" by (simp add: PB_SIZE_MAX_def word_order.extremum_strict)
  let ?m = "mstore (store32 m dest ?n) (dest + 4) bs"
  have "pb_dec_bytes env s f dest m = (True, consume s (length (string_bytes bs)), ?m)"
    using k(1) c1 c2 c3 assms(3) read_mem_feeds [OF k(2), of env "dest + 4" "store32 m dest ?n"] n k(3)
    by (simp add: pb_dec_bytes_def Let_def)
  moreover have "load32 ?m dest = ?n"
    by (simp add: load32_def store32_def mload_mstore_disjoint mload_mstore_same)
  ultimately show ?thesis using n by (simp add: mload_mstore_same)
qed

lemma strnlen_loop_value:
  assumes "n \<le> k" and "k \<le> mx" and "\<And>i. n \<le> i \<Longrightarrow> i < k \<Longrightarrow> load8 m (p + int i) \<noteq> 0"
    and "k = mx \<or> load8 m (p + int k) = 0"
  shows "strnlen_loop m p mx n = k"
  using assms
proof (induction "k - n" arbitrary: n)
  case 0
  then show ?case by (subst strnlen_loop.simps) auto
next
  case (Suc x)
  then have "n < k" by simp
  moreover have "strnlen_loop m p mx (Suc n) = k" using Suc by (intro Suc.hyps) auto
  ultimately show ?case using Suc.prems by (subst strnlen_loop.simps) simp
qed

lemma strnlen_loop_stops:
  assumes "n \<le> mx"
  shows "n \<le> strnlen_loop m p mx n \<and> (\<forall>i. n \<le> i \<longrightarrow> i < strnlen_loop m p mx n \<longrightarrow> load8 m (p + int i) \<noteq> 0) \<and>
         (strnlen_loop m p mx n = mx \<or> load8 m (p + int (strnlen_loop m p mx n)) = 0)"
  using assms
proof (induction "mx - n" arbitrary: n)
  case 0
  then have n: "n = mx" by simp
  then have "strnlen_loop m p mx n = n" by (subst strnlen_loop.simps) simp
  then show ?case using n by simp
next
  case (Suc x)
  show ?case
  proof (cases "load8 m (p + int n) \<noteq> 0")
    case True
    have "n < mx" using Suc.hyps(2) by simp
    then have e: "strnlen_loop m p mx n = strnlen_loop m p mx (Suc n)" using True by (subst strnlen_loop.simps) simp
    have "Suc n \<le> strnlen_loop m p mx (Suc n) \<and>
       (\<forall>i. Suc n \<le> i \<longrightarrow> i < strnlen_loop m p mx (Suc n) \<longrightarrow> load8 m (p + int i) \<noteq> 0) \<and>
       (strnlen_loop m p mx (Suc n) = mx \<or> load8 m (p + int (strnlen_loop m p mx (Suc n))) = 0)"
      using Suc by (intro Suc.hyps) auto
    then show ?thesis unfolding e
    proof (intro conjI allI impI)
      fix i assume "n \<le> i" "i < strnlen_loop m p mx (Suc n)"
        "Suc n \<le> strnlen_loop m p mx (Suc n) \<and>
         (\<forall>i. Suc n \<le> i \<longrightarrow> i < strnlen_loop m p mx (Suc n) \<longrightarrow> load8 m (p + int i) \<noteq> 0) \<and>
         (strnlen_loop m p mx (Suc n) = mx \<or> load8 m (p + int (strnlen_loop m p mx (Suc n))) = 0)"
      then show "load8 m (p + int i) \<noteq> 0" using True by (cases "i = n") auto
    qed auto
  next
    case False
    then have "strnlen_loop m p mx n = n" by (subst strnlen_loop.simps) simp
    then show ?thesis using False by simp
  qed
qed

lemma dec_string_reads:
  assumes "feeds s (string_bytes bs)" and "length bs < unat (data_size f)" and "atype f = PB_ATYPE_STATIC"
    and "0 \<notin> set bs" and "dest \<noteq> NULL"
  shows "\<exists>m'. pb_dec_string env s f dest m = (True, consume s (length (string_bytes bs)), m') \<and>
              string_length m' f dest = length bs \<and> mload m' dest (length bs) = bs"
proof -
  have len: "Suc (length bs) < 2 ^ 32" using assms(2) unat_bound [of "data_size f"] by simp
  then have len32: "length bs < 2 ^ 32" by simp
  obtain k where k: "pb_decode_varint32 env s = (True, of_nat (length bs), consume s k)"
      "feeds (consume s k) bs" "length (string_bytes bs) = k + length bs"
    using string_prefix [OF assms(1) len32] by blast
  let ?n = "of_nat (length bs) :: u32"
  have n: "unat ?n = length bs" using len32 by (simp add: unat_of_nat_lt)
  have a: "unat (?n + 1) = Suc (length bs)" using len n by (subst unat_add_no_wrap) simp_all
  have c1: "\<not> ucast (?n + 1) < (ucast ?n :: u64)" using a n by (simp add: word_less_nat_alt unat_ucast_u32)
  have c2: "\<not> ucast (?n + 1) > (ucast (data_size f) :: u64)"
    using a assms(2) by (simp add: word_less_nat_alt unat_ucast_u32)
  have at: "atype f \<noteq> PB_ATYPE_POINTER" using assms(3) by (simp add: atype_defs)
  have un: "uint ?n = int (length bs)" using n by (simp add: uint_nat)
  let ?m = "store8 (mstore m dest bs) (dest + int (length bs)) 0"
  have "pb_dec_string env s f dest m = (True, consume s (length (string_bytes bs)), ?m)"
    using k(1) c1 c2 at read_mem_feeds [OF k(2), of env dest m] n k(3) un
    by (simp add: pb_dec_string_def Let_def)
  moreover have l: "mload ?m dest (length bs) = bs"
    by (simp add: store8_def mload_mstore_disjoint mload_mstore_same)
  moreover have "string_length ?m f dest = length bs"
  proof -
    have "load8 ?m (dest + int i) \<noteq> 0" if "i < length bs" for i
      using arg_cong [OF l, of "\<lambda>xs. xs ! i"] that assms(4) by (simp add: load8_def) (metis nth_mem)
    moreover have "load8 ?m (dest + int (length bs)) = 0" by (simp add: load8_store8)
    ultimately have "strnlen_loop ?m dest (unat (data_size f)) 0 = length bs"
      using assms(2) by (intro strnlen_loop_value) auto
    then show ?thesis using assms(3,5) by (simp add: string_length_def atype_defs)
  qed
  ultimately show ?thesis by blast
qed

lemma dec_fixed_length_reads:
  assumes "feeds s (string_bytes bs)" and "length bs = unat (data_size f)"
  shows "\<exists>m'. pb_dec_fixed_length_bytes env s f dest m = (True, consume s (length (string_bytes bs)), m') \<and>
              mload m' dest (unat (data_size f)) = bs"
proof -
  have len32: "length bs < 2 ^ 32" using assms(2) unat_bound [of "data_size f"] by simp
  obtain k where k: "pb_decode_varint32 env s = (True, of_nat (length bs), consume s k)"
      "feeds (consume s k) bs" "length (string_bytes bs) = k + length bs"
    using string_prefix [OF assms(1) len32] by blast
  have n: "of_nat (length bs) = data_size f" using assms(2) by simp
  have c: "\<not> data_size f > PB_SIZE_MAX" by (simp add: PB_SIZE_MAX_def word_order.extremum_strict)
  show ?thesis
  proof (cases "data_size f = 0")
    case True
    then show ?thesis using k n c assms(2) by (simp add: pb_dec_fixed_length_bytes_def PB_SIZE_MAX_def mload_def)
  next
    case False
    then show ?thesis
      using k n c read_mem_feeds [OF k(2), of env dest m] assms(2)
      by (auto simp: pb_dec_fixed_length_bytes_def mload_mstore_same)
  qed
qed

lemma s_ok_value: "s_ok bs = Some (Some cs) \<longleftrightarrow> cs = bs \<and> length bs < 2 ^ 63"
  by (auto simp: s_ok_def)

lemma s_opt_value: "s_opt r = Some (Some cs) \<longleftrightarrow> r = Some cs \<and> length cs < 2 ^ 63"
  by (auto simp: s_opt_def s_err_def s_ok_value split: option.splits)

lemma s_string_value: "s_string r = Some (Some cs) \<longleftrightarrow> (\<exists>bs. r = Some (Some bs) \<and> cs = string_bytes bs \<and> length cs < 2 ^ 63)"
  by (auto simp: s_string_def s_ok_value split: option.splits)

text \<open>A submessage decoder that restores the message with bytes \<open>bs\<close>, for a substream that holds just these.\<close>

definition restores :: "msg_decoder \<Rightarrow> bool \<Rightarrow> addr \<Rightarrow> addr \<Rightarrow> cmem \<Rightarrow> (cmem \<Rightarrow> addr \<Rightarrow> addr \<Rightarrow> sres) \<Rightarrow> u8 list \<Rightarrow> bool" where
  "restores dec init a d m spec bs \<longleftrightarrow>
     (\<forall>s. feeds s bs \<and> i_bytes_left s = length bs \<longrightarrow>
        (\<exists>m'. dec init s a d m = Some (True, consume s (length bs), m') \<and> spec m' a d = Some (Some bs)))"

lemma dec_submessage_reads:
  assumes "feeds s (string_bytes bs)" and "length bs < 2 ^ 32" and "fptr f \<noteq> NULL"
    and "restores dec (htype f = PB_HTYPE_REPEATED) (fptr f) dest m spec bs"
  shows "\<exists>m'. pb_dec_submessage env dec s f dest m = Some (True, consume s (length (string_bytes bs)), m') \<and>
              spec m' (fptr f) dest = Some (Some bs)"
proof -
  obtain s' sub where mk: "pb_make_string_substream env s = (True, s', sub)"
      "feeds sub bs" "i_bytes_left sub = length bs"
  proof -
    have "feeds (consume s (length (string_bytes bs) - length bs)) bs"
      using assms(1) by (simp add: string_bytes_def feeds_append)
    then show ?thesis using that make_substream_feeds [OF assms(1,2), of env] by (simp add: Let_def feeds_def)
  qed
  obtain m' where m': "dec (htype f = PB_HTYPE_REPEATED) sub (fptr f) dest m = Some (True, consume sub (length bs), m')"
      "spec m' (fptr f) dest = Some (Some bs)"
    using assms(4) mk(2,3) by (auto simp: restores_def)
  have "pb_close_string_substream env s' (consume sub (length bs)) = (True, consume s (length (string_bytes bs)))"
    by (rule close_substream_feeds [OF assms(1,2) le_refl mk(1)])
  then show ?thesis using mk(1) m' assms(3) by (simp add: pb_dec_submessage_def close_with_def)
qed

lemma value_bytes_reads:
  assumes v: "spec_value m0 sub0 f src = Some (Some vb)" and s: "feeds s vb" and lt: "ltype f = PB_LTYPE_BYTES"
    and f: "atype f = PB_ATYPE_STATIC" and nn: "src \<noteq> NULL" "dest \<noteq> NULL" and bytes: "4 \<le> unat (data_size f)"
  shows "\<exists>m'. pb_dec_bytes env s f dest m = (True, consume s (length vb), m') \<and>
              (\<forall>sub1. spec_value m' sub1 f dest = Some (Some vb))"
proof -
  let ?bs = "mload m0 (src + 4) (unat (load32 m0 src))"
  have vb: "vb = string_bytes ?bs" "length vb < 2 ^ 63" and le: "\<not> ucast (load32 m0 src) > (ucast (data_size f) - 4 :: u64)"
    using v lt nn(1) f by (auto simp: spec_value_def s_ok_value s_err_def ltype_defs split: if_splits)
  have u: "unat (ucast (data_size f) - 4 :: u64) = unat (data_size f) - 4"
    using bytes by (subst unat_sub) (simp_all add: word_le_nat_alt unat_ucast_u32)
  then have "length ?bs + 4 \<le> unat (data_size f)" using le bytes by (simp add: word_less_nat_alt unat_ucast_u32)
  moreover have "atype f \<noteq> PB_ATYPE_POINTER" using f by (simp add: atype_defs)
  ultimately obtain m' where m': "pb_dec_bytes env s f dest m = (True, consume s (length vb), m')"
      "unat (load32 m' dest) = length ?bs" "mload m' (dest + 4) (length ?bs) = ?bs"
    using dec_bytes_reads [of s ?bs f env dest m] s vb(1) by auto
  then have "load32 m' dest = load32 m0 src" by (simp add: word_unat_eq_iff)
  then show ?thesis using m' lt le nn(2) f vb by (auto simp: spec_value_def s_ok_value ltype_defs)
qed

lemma value_string_reads:
  assumes v: "spec_value m0 sub0 f src = Some (Some vb)" and s: "feeds s vb" and lt: "ltype f = PB_LTYPE_STRING"
    and f: "atype f = PB_ATYPE_STATIC" and nn: "src \<noteq> NULL" "dest \<noteq> NULL"
    and str: "string_length m0 f src < unat (data_size f)"
  shows "\<exists>m'. pb_dec_string env s f dest m = (True, consume s (length vb), m') \<and>
              (\<forall>sub1. spec_value m' sub1 f dest = Some (Some vb))"
proof -
  let ?bs = "mload m0 src (string_length m0 f src)"
  have vb: "vb = string_bytes ?bs" "length vb < 2 ^ 63" using v lt by (auto simp: spec_value_def s_ok_value ltype_defs)
  have "string_length m0 f src = strnlen_loop m0 src (unat (data_size f)) 0"
    using nn(1) f by (simp add: string_length_def atype_defs)
  then have "load8 m0 (src + int i) \<noteq> 0" if "i < string_length m0 f src" for i
    using strnlen_loop_stops [of 0 "unat (data_size f)" m0 src] that by auto
  then have "0 \<notin> set ?bs" by (auto simp: in_set_conv_nth load8_def)
  then show ?thesis using dec_string_reads [of s ?bs f dest env m] s str f nn(2) lt vb
    by (auto simp: spec_value_def s_ok_value ltype_defs)
qed

lemma value_reads:
  assumes v: "spec_value m0 sub0 f src = Some (Some vb)" and s: "feeds s vb" and len: "length vb < 2 ^ 32"
    and f: "atype f = PB_ATYPE_STATIC" and nn: "src \<noteq> NULL" "dest \<noteq> NULL"
    and bytes: "ltype f = PB_LTYPE_BYTES \<Longrightarrow> 4 \<le> unat (data_size f)"
    and str: "ltype f = PB_LTYPE_STRING \<Longrightarrow> string_length m0 f src < unat (data_size f)"
    and sub: "\<And>bs. ltype f = PB_LTYPE_SUBMESSAGE \<Longrightarrow> sub0 (fptr f) src = Some (Some bs) \<Longrightarrow> length bs < 2 ^ 32 \<Longrightarrow>
                restores dec (htype f = PB_HTYPE_REPEATED) (fptr f) dest m spec bs"
  shows "\<exists>m'. PB_DECODERS env dec s f dest m = Some (True, consume s (length vb), m') \<and>
              spec_value m' (spec m') f dest = Some (Some vb)"
proof -
  consider "ltype f = PB_LTYPE_BOOL" | "ltype f = PB_LTYPE_VARINT" | "ltype f = PB_LTYPE_UVARINT"
    | "ltype f = PB_LTYPE_SVARINT" | "ltype f = PB_LTYPE_FIXED32" | "ltype f = PB_LTYPE_FIXED64"
    | "ltype f = PB_LTYPE_BYTES" | "ltype f = PB_LTYPE_STRING" | "ltype f = PB_LTYPE_SUBMESSAGE"
    | "ltype f = PB_LTYPE_FIXED_LENGTH_BYTES"
    using v by (auto simp: spec_value_def Let_def split: if_splits)
  then show ?thesis
  proof cases
    case 1
    then have vb: "vb = varint (if safe_read_bool m0 src then 1 else 0)" using v by (simp add: spec_value_def s_ok_value)
    show ?thesis using dec_bool_reads [of s "safe_read_bool m0 src" env dest m] s 1 len
      by (auto simp: vb PB_DECODERS_def spec_value_def s_ok_value)
  next
    case 2
    then obtain w where w: "read_signed m0 (data_size f) src = Some w" "vb = varint w"
      using v by (auto simp: spec_value_def s_opt_value ltype_defs)
    show ?thesis using dec_varint_reads [of s w m0 f src env dest m] s 2 len w
      by (auto simp: PB_DECODERS_def spec_value_def s_opt_value ltype_defs)
  next
    case 3
    then obtain w where w: "read_unsigned m0 (data_size f) src = Some w" "vb = varint w"
      using v by (auto simp: spec_value_def s_opt_value ltype_defs)
    show ?thesis using dec_uvarint_reads [of s w m0 f src env dest m] s 3 len w
      by (auto simp: PB_DECODERS_def spec_value_def s_opt_value ltype_defs)
  next
    case 4
    then obtain w where w: "read_signed m0 (data_size f) src = Some w" "vb = varint (zigzag w)"
      using v by (auto simp: spec_value_def s_opt_value ltype_defs)
    show ?thesis using dec_svarint_reads [of s w m0 f src env dest m] s 4 len w
      by (auto simp: PB_DECODERS_def spec_value_def s_opt_value ltype_defs)
  next
    case 5
    then have "length vb = 4" using v by (auto simp: spec_value_def s_ok_value ltype_defs)
    then show ?thesis using dec_fixed_reads(1) [OF s, of env dest m] 5 len
      by (auto simp: PB_DECODERS_def spec_value_def s_ok_value ltype_defs)
  next
    case 6
    then have "length vb = 8" using v by (auto simp: spec_value_def s_ok_value ltype_defs)
    then show ?thesis using dec_fixed_reads(2) [OF s, of env dest m] 6 len
      by (auto simp: PB_DECODERS_def spec_value_def s_ok_value ltype_defs)
  next
    case 7
    then show ?thesis using value_bytes_reads [OF v s 7 f nn bytes [OF 7], of env m] by (auto simp add: PB_DECODERS_def ltype_defs)
  next
    case 8
    then show ?thesis using value_string_reads [OF v s 8 f nn str [OF 8], of env m] by (auto simp add: PB_DECODERS_def ltype_defs)
  next
    case 9
    then obtain bs where b: "sub0 (fptr f) src = Some (Some bs)" "vb = string_bytes bs" "fptr f \<noteq> NULL"
      using v by (auto simp: spec_value_def s_string_value s_err_def ltype_defs split: if_splits)
    have l: "length bs < 2 ^ 32" using len b(2) by (simp add: string_bytes_def)
    show ?thesis using dec_submessage_reads [of s bs f dec dest m spec env] s l b sub [OF 9 b(1) l] 9 len
      by (auto simp: PB_DECODERS_def spec_value_def s_string_value ltype_defs)
  next
    case 10
    then have vb: "vb = string_bytes (mload m0 src (unat (data_size f)))"
      using v by (auto simp: spec_value_def s_ok_value ltype_defs)
    show ?thesis using dec_fixed_length_reads [of s "mload m0 src (unat (data_size f))" f env dest m] s 10 vb len
      by (auto simp: PB_DECODERS_def spec_value_def s_ok_value ltype_defs)
  qed
qed

end
