(* ===== verification/Pb_Roundtrip.thy ===== *)
theory Pb_Roundtrip
  imports Pb_Required Pb_Codec Pb_Values
begin

text \<open>
  Decoding what was encoded. A message of static required and optional fields, nested to any depth, is
  encoded and the bytes are decoded into another structure: the decoder accepts them, consumes them all, and the
  structure it has filled in has the same wire form.
\<close>

subsection \<open>Plain messages\<close>

text \<open>
  The part of the structure at \<open>d\<close> that belongs to entry \<open>i\<close>: its data and its has-flag. In a plain layout every field
  is required or has a has-flag, the fields do not overlap, and tags are distinct 29-bit numbers.
\<close>

definition field_slot :: "pb_field list \<Rightarrow> addr \<Rightarrow> nat \<Rightarrow> addr set" where
  "field_slot fs d i =
     span (d + data_pos fs i) (uint (data_size (fs ! i))) \<union>
     (if htype (fs ! i) = PB_HTYPE_OPTIONAL then {d + size_pos fs i} else {})"

definition plain_field :: "(addr \<Rightarrow> bool) \<Rightarrow> pb_field list \<Rightarrow> nat \<Rightarrow> bool" where
  "plain_field sub fs i \<longleftrightarrow>
     (let f = fs ! i in
      (htype f = PB_HTYPE_REQUIRED \<or>
       htype f = PB_HTYPE_OPTIONAL \<and> size_offset f \<noteq> 0 \<and> size_pos fs i = data_pos fs i + sint (size_offset f) \<and>
       size_pos fs i \<noteq> data_pos fs i \<and> size_pos fs i \<notin> span (data_pos fs i) (uint (data_size f))) \<and>
      tag f < 2 ^ 29 \<and> (ltype f = PB_LTYPE_BYTES \<longrightarrow> 4 \<le> unat (data_size f)) \<and>
      (ltype f = PB_LTYPE_SUBMESSAGE \<longrightarrow> sub (fptr f)))"

fun plain_layout :: "pb_env \<Rightarrow> nat \<Rightarrow> addr \<Rightarrow> bool" where
  "plain_layout env 0 a = False"
| "plain_layout env (Suc k) a =
     (distinct (map tag (fields_at env a)) \<and>
      (\<forall>i < length (fields_at env a). plain_field (plain_layout env k) (fields_at env a) i) \<and>
      (\<forall>i < length (fields_at env a). \<forall>j < i. field_slot (fields_at env a) 0 i \<inter> field_slot (fields_at env a) 0 j = {}))"

lemma plain_htype:
  "plain_field sub fs i \<Longrightarrow> htype (fs ! i) = PB_HTYPE_REQUIRED \<or> htype (fs ! i) = PB_HTYPE_OPTIONAL \<and> size_offset (fs ! i) \<noteq> 0"
  by (auto simp: plain_field_def Let_def)

text \<open>What a field contributes to the message.\<close>

definition present :: "cmem \<Rightarrow> pb_field list \<Rightarrow> addr \<Rightarrow> nat \<Rightarrow> bool" where
  "present m fs d i \<longleftrightarrow> htype (fs ! i) = PB_HTYPE_REQUIRED \<or> safe_read_bool m (d + size_pos fs i)"

definition plain_part :: "cmem \<Rightarrow> (addr \<Rightarrow> addr \<Rightarrow> sres) \<Rightarrow> pb_field list \<Rightarrow> addr \<Rightarrow> nat \<Rightarrow> sres" where
  "plain_part m sub fs d i =
     (if present m fs d i then sseq (s_opt (tag_for_field (fs ! i))) (spec_value m sub (fs ! i) (d + data_pos fs i)) else s_ok [])"

lemma spec_one_plain:
  assumes "plain_field sub0 (fields_at env a) i" and "field_fits sub1 sz (fields_at env a ! i) (data_pos (fields_at env a) i) sp"
    and "i < length (fields_at env a)" and "0 < d"
  shows "spec_one env m n sub (iter_at env a d i) = plain_part m sub (fields_at env a) d i"
proof -
  have st: "atype (fields_at env a ! i) = PB_ATYPE_STATIC" "ltype (fields_at env a ! i) \<noteq> PB_LTYPE_EXTENSION"
      "0 \<le> data_pos (fields_at env a) i"
    using assms(2) by (auto simp: field_fits_def)
  then have nn: "d + data_pos (fields_at env a) i \<noteq> NULL" using assms(4) by (simp add: NULL_def)
  have d: "PB_HTYPE_OPTIONAL \<noteq> PB_HTYPE_REQUIRED" "PB_ATYPE_STATIC \<noteq> PB_ATYPE_POINTER" by (simp_all add: type_defs)
  from plain_htype [OF assms(1)] show ?thesis
  proof
    assume "htype (fields_at env a ! i) = PB_HTYPE_REQUIRED"
    then show ?thesis using assms(3) st nn d
      by (simp add: spec_one_def spec_field_def spec_basic_field_def plain_part_def present_def Let_def)
  next
    assume h: "htype (fields_at env a ! i) = PB_HTYPE_OPTIONAL \<and> size_offset (fields_at env a ! i) \<noteq> 0"
    then have "size_pos (fields_at env a) i = data_pos (fields_at env a) i + sint (size_offset (fields_at env a ! i))"
      using assms(1) d by (auto simp: plain_field_def Let_def)
    then show ?thesis using assms(3) st nn d h
      by (simp add: spec_one_def spec_field_def spec_basic_field_def plain_part_def present_def Let_def add.assoc)
  qed
qed

subsection \<open>The wire form depends on the structure only\<close>

definition agree :: "addr set \<Rightarrow> cmem \<Rightarrow> cmem \<Rightarrow> bool" where
  "agree A m m' \<longleftrightarrow> (\<forall>x \<in> A. bytes m' x = bytes m x)"

lemma agree_mono: "agree A m m' \<Longrightarrow> B \<subseteq> A \<Longrightarrow> agree B m m'"
  by (auto simp: agree_def)

lemma agree_outside: "touches A m m' \<Longrightarrow> A \<inter> B = {} \<Longrightarrow> agree B m m'"
  by (auto simp: agree_def touches_def unchanged_outside_def)

lemma agree_mload: "agree (span p k) m m' \<Longrightarrow> int n \<le> k \<Longrightarrow> mload m' p n = mload m p n"
  by (rule mload_cong) (auto simp: agree_def span_def)

lemma agree_mload_at: "agree (span p k) m m' \<Longrightarrow> 0 \<le> o' \<Longrightarrow> o' + int n \<le> k \<Longrightarrow> mload m' (p + o') n = mload m (p + o') n"
  by (rule mload_cong) (auto simp: agree_def span_def)

lemma agree_load:
  assumes "agree (span p k) m m'"
  shows "1 \<le> k \<Longrightarrow> load8 m' p = load8 m p" "2 \<le> k \<Longrightarrow> load16 m' p = load16 m p"
    "4 \<le> k \<Longrightarrow> load32 m' p = load32 m p" "8 \<le> k \<Longrightarrow> load64 m' p = load64 m p"
  using assms agree_mload [OF assms]
  by (auto simp: load8_def load16_def load32_def load64_def agree_def span_def)

lemma strnlen_agree:
  assumes "agree (span p (int mx)) m m'"
  shows "strnlen_loop m' p mx n = strnlen_loop m p mx n"
proof (induction "mx - n" arbitrary: n)
  case 0
  then show ?case by (simp add: strnlen_loop.simps [of _ p mx n])
next
  case (Suc x)
  have "load8 m' (p + int n) = load8 m (p + int n)"
    using assms Suc.hyps(2) by (auto simp: load8_def agree_def span_def)
  moreover have "strnlen_loop m' p mx (Suc n) = strnlen_loop m p mx (Suc n)" using Suc by (intro Suc.hyps) auto
  ultimately show ?case by (simp add: strnlen_loop.simps [of _ p mx n])
qed

lemma string_length_agree:
  assumes "agree (span p (uint (data_size f))) m m'" and "atype f = PB_ATYPE_STATIC"
  shows "string_length m' f p = string_length m f p"
  using strnlen_agree [of p "unat (data_size f)" m m'] assms by (simp add: string_length_def atype_defs)

lemma string_length_le: "atype f = PB_ATYPE_STATIC \<Longrightarrow> string_length m f p \<le> unat (data_size f)"
  using strnlen_loop_le [of 0 "unat (data_size f)" m p] by (simp add: string_length_def atype_defs)

lemma read_agree:
  assumes "agree (span p (uint sz)) m m'"
  shows "read_signed m' sz p = read_signed m sz p" "read_unsigned m' sz p = read_unsigned m sz p"
  using agree_load [OF assms] by (auto simp: read_signed_def read_unsigned_def)

lemma bytes_agree:
  assumes a: "agree (span p (uint (data_size f))) m m'" and f: "ltype f = PB_LTYPE_BYTES" "atype f = PB_ATYPE_STATIC" "4 \<le> unat (data_size f)"
  shows "spec_value m' sub' f p = spec_value m sub f p"
proof -
  have u: "uint (data_size f) = int (unat (data_size f))" by simp
  then have "4 \<le> uint (data_size f)" using f(3) by linarith
  then have l: "load32 m' p = load32 m p" by (rule agree_load(3) [OF a])
  have "mload m' (p + 4) (unat (load32 m p)) = mload m (p + 4) (unat (load32 m p))"
    if "\<not> ucast (load32 m p) > (ucast (data_size f) - 4 :: u64)"
  proof -
    have "unat (ucast (data_size f) - 4 :: u64) = unat (data_size f) - 4"
      using f(3) by (subst unat_sub) (simp_all add: word_le_nat_alt unat_ucast_u32)
    then have "4 + unat (load32 m p) \<le> unat (data_size f)"
      using that f(3) by (simp add: word_less_nat_alt unat_ucast_u32)
    then have "4 + int (unat (load32 m p)) \<le> uint (data_size f)" using u by linarith
    then show ?thesis using agree_mload_at [OF a, of 4] by simp
  qed
  then show ?thesis using f l by (auto simp: spec_value_def ltype_defs)
qed

lemma value_agree:
  assumes a: "agree (span p (uint (data_size f))) m m'" and f: "atype f = PB_ATYPE_STATIC"
    and w: "min_width (ltype f) \<le> uint (data_size f)" and b: "ltype f = PB_LTYPE_BYTES \<Longrightarrow> 4 \<le> unat (data_size f)"
    and sub: "ltype f = PB_LTYPE_SUBMESSAGE \<Longrightarrow> sub' (fptr f) p = sub (fptr f) p"
  shows "spec_value m' sub' f p = spec_value m sub f p"
proof (cases "ltype f = PB_LTYPE_BYTES")
  case True
  then show ?thesis using bytes_agree [OF a True f b [OF True]] by simp
next
  case False
  have 1: "ltype f = PB_LTYPE_BOOL \<Longrightarrow> safe_read_bool m' p = safe_read_bool m p"
    using agree_load(1) [OF a] w by (simp add: min_width_def safe_read_bool_def)
  have 4: "ltype f = PB_LTYPE_FIXED32 \<Longrightarrow> mload m' p 4 = mload m p 4"
    using agree_mload [OF a, of 4] w by (simp add: min_width_def ltype_defs)
  have 8: "ltype f = PB_LTYPE_FIXED64 \<Longrightarrow> mload m' p 8 = mload m p 8"
    using agree_mload [OF a, of 8] w by (simp add: min_width_def ltype_defs)
  have s: "mload m' p (string_length m f p) = mload m p (string_length m f p)"
  proof (rule agree_mload [OF a])
    have "uint (data_size f) = int (unat (data_size f))" by simp
    then show "int (string_length m f p) \<le> uint (data_size f)" using string_length_le [OF f, of m p] by linarith
  qed
  have l: "mload m' p (unat (data_size f)) = mload m p (unat (data_size f))"
    by (rule agree_mload [OF a]) simp
  show ?thesis
    using False 1 4 8 s l sub read_agree [OF a] string_length_agree [OF a f]
    by (simp add: spec_value_def Let_def cong: if_cong)
qed

lemma slots_disjoint:
  assumes "plain_layout env (Suc k) a" and "i < length (fields_at env a)" and "j < length (fields_at env a)" and "i \<noteq> j"
  shows "field_slot (fields_at env a) d i \<inter> field_slot (fields_at env a) d j = {}"
proof -
  have shift: "x \<in> field_slot fs d i \<longleftrightarrow> x - d \<in> field_slot fs 0 i" for x fs i
    by (auto simp: field_slot_def span_def)
  have "field_slot (fields_at env a) 0 i \<inter> field_slot (fields_at env a) 0 j = {}"
    using assms by (cases i j rule: linorder_cases) auto
  then show ?thesis using shift by blast
qed

lemma slot_inside:
  assumes "layout_fits env (Suc k) a sz" and "plain_layout env k' a" and "i < length (fields_at env a)"
  shows "field_slot (fields_at env a) d i \<subseteq> span d sz"
proof -
  obtain k'' where "plain_field (plain_layout env k'') (fields_at env a) i" using assms(2,3) by (cases k') auto
  moreover have "field_fits (layout_fits env k) sz (fields_at env a ! i) (data_pos (fields_at env a) i) (size_pos (fields_at env a) i)"
    using assms(1,3) by simp
  ultimately show ?thesis
    by (auto simp: field_slot_def span_def plain_field_def field_fits_def field_extent_def Let_def type_defs split: if_splits)
qed

lemma part_agree:
  assumes p: "plain_field sub0 fs i" and f: "field_fits sub1 sz (fs ! i) dp sp" and a: "agree (field_slot fs d i) m m'"
    and sub: "ltype (fs ! i) = PB_LTYPE_SUBMESSAGE \<Longrightarrow> sub' (fptr (fs ! i)) (d + data_pos fs i) = sub (fptr (fs ! i)) (d + data_pos fs i)"
  shows "plain_part m' sub' fs d i = plain_part m sub fs d i" and "present m' fs d i = present m fs d i"
proof -
  have "agree (span (d + data_pos fs i) (uint (data_size (fs ! i)))) m m'"
    using a by (rule agree_mono) (simp add: field_slot_def)
  then have v: "spec_value m' sub' (fs ! i) (d + data_pos fs i) = spec_value m sub (fs ! i) (d + data_pos fs i)"
    using p f sub by (intro value_agree) (auto simp: plain_field_def field_fits_def Let_def)
  have "htype (fs ! i) = PB_HTYPE_OPTIONAL \<Longrightarrow> bytes m' (d + size_pos fs i) = bytes m (d + size_pos fs i)"
    using a by (simp add: agree_def field_slot_def)
  then show pr: "present m' fs d i = present m fs d i"
    using plain_htype [OF p] by (auto simp: present_def safe_read_bool_def load8_def)
  show "plain_part m' sub' fs d i = plain_part m sub fs d i" by (simp add: plain_part_def v pr)
qed

lemma spec_message_plain:
  assumes "layout_fits env k a sz" and "plain_layout env k a" and "0 < d"
  shows "spec_message env m (Suc n) a d =
         sconcat (map (plain_part m (spec_message env m n) (fields_at env a) d) [0..<length (fields_at env a)])"
proof -
  obtain k' where k: "k = Suc k'" using assms(1) by (cases k) auto
  have "map (spec_one env m n (spec_message env m n)) (map (iter_at env a d) [0..<length (fields_at env a)]) =
        map (plain_part m (spec_message env m n) (fields_at env a) d) [0..<length (fields_at env a)]"
    unfolding map_map
  proof (rule map_cong [OF refl])
    fix i assume "i \<in> set [0..<length (fields_at env a)]"
    then show "(spec_one env m n (spec_message env m n) \<circ> iter_at env a d) i = plain_part m (spec_message env m n) (fields_at env a) d i"
      using assms unfolding k comp_def by (intro spec_one_plain) auto
  qed
  then have "sconcat (map (spec_one env m n (spec_message env m n)) (map (iter_at env a d) [0..<length (fields_at env a)])) =
      sconcat (map (plain_part m (spec_message env m n) (fields_at env a) d) [0..<length (fields_at env a)])"
    by (rule arg_cong)
  then show ?thesis using assms(3) unfolding spec_message.simps by (simp only: NULL_def Let_def if_False less_irrefl split: if_split) auto
qed

lemma message_agree:
  "layout_fits env k a sz \<Longrightarrow> plain_layout env k a \<Longrightarrow> 0 < d \<Longrightarrow> agree (span d sz) m m' \<Longrightarrow>
   spec_message env m' n a d = spec_message env m n a d"
proof (induction n arbitrary: k a sz d)
  case (Suc n)
  obtain k' where k: "k = Suc k'" using Suc.prems(1) by (cases k) auto
  let ?fs = "fields_at env a"
  have "plain_part m' (spec_message env m' n) ?fs d i = plain_part m (spec_message env m n) ?fs d i" if i: "i < length ?fs" for i
  proof (rule part_agree)
    show p: "plain_field (plain_layout env k') ?fs i" using Suc.prems(2) i k by simp
    show f: "field_fits (layout_fits env k') sz (?fs ! i) (data_pos ?fs i) (size_pos ?fs i)" using Suc.prems(1) i k by simp
    show a: "agree (field_slot ?fs d i) m m'"
      using Suc.prems(4) slot_inside [of env k' a sz k i d] Suc.prems(1,2) i k by (auto intro: agree_mono)
    assume l: "ltype (?fs ! i) = PB_LTYPE_SUBMESSAGE"
    have "agree (span (d + data_pos ?fs i) (uint (data_size (?fs ! i)))) m m'"
      using a by (rule agree_mono) (simp add: field_slot_def)
    then show "spec_message env m' n (fptr (?fs ! i)) (d + data_pos ?fs i) = spec_message env m n (fptr (?fs ! i)) (d + data_pos ?fs i)"
      using p f l Suc.prems(3) by (intro Suc.IH [of k' _ "uint (data_size (?fs ! i))"]) (auto simp: plain_field_def field_fits_def Let_def)
  qed
  then have "map (plain_part m' (spec_message env m' n) ?fs d) [0..<length ?fs] = map (plain_part m (spec_message env m n) ?fs d) [0..<length ?fs]"
    by simp
  then show ?case unfolding spec_message_plain [OF Suc.prems(1-3)] by (rule arg_cong)
qed simp

lemma sconcat_value:
  "sconcat rs = Some (Some bs) \<longleftrightarrow>
     (\<exists>bss. rs = map (\<lambda>b. Some (Some b)) bss \<and> bs = concat bss \<and> length bs < 2 ^ 63)"
proof (induction rs arbitrary: bs)
  case Nil
  then show ?case by (auto simp: s_ok_value)
next
  case (Cons r rs)
  have c: "sconcat (r # rs) = Some (Some bs) \<longleftrightarrow>
      (\<exists>b c. r = Some (Some b) \<and> sconcat rs = Some (Some c) \<and> bs = b @ c \<and> length bs < 2 ^ 63)"
    by (auto simp: sseq_def s_ok_value split: option.splits)
  show ?case unfolding c Cons.IH
  proof (intro iffI; elim exE conjE)
    fix b c bss assume "r = Some (Some b)" "bs = b @ c" "length bs < 2 ^ 63" "rs = map (\<lambda>b. Some (Some b)) bss" "c = concat bss"
    then show "\<exists>bss. r # rs = map (\<lambda>b. Some (Some b)) bss \<and> bs = concat bss \<and> length bs < 2 ^ 63"
      by (intro exI [of _ "b # bss"]) simp
  next
    fix bss assume "r # rs = map (\<lambda>b. Some (Some b)) bss" "bs = concat bss" "length bs < 2 ^ 63"
    then show "\<exists>b c. r = Some (Some b) \<and> (\<exists>bss. rs = map (\<lambda>b. Some (Some b)) bss \<and> c = concat bss \<and> length c < 2 ^ 63) \<and>
        bs = b @ c \<and> length bs < 2 ^ 63"
      by (cases bss) auto
  qed
qed

subsection \<open>Fresh and terminated structures\<close>

text \<open>
  \<open>fresh\<close>: no has-flag is set, at any depth, as after \<^verbatim>\<open>pb_message_set_to_defaults\<close>. \<open>terminated\<close>: every string that is
  encoded has its terminator inside its field (the decoder insists on room for it).
\<close>

definition fresh_field :: "(addr \<Rightarrow> addr \<Rightarrow> bool) \<Rightarrow> cmem \<Rightarrow> pb_field list \<Rightarrow> addr \<Rightarrow> nat \<Rightarrow> bool" where
  "fresh_field sub m fs d i \<longleftrightarrow>
     (htype (fs ! i) = PB_HTYPE_OPTIONAL \<longrightarrow> \<not> safe_read_bool m (d + size_pos fs i)) \<and>
     (ltype (fs ! i) = PB_LTYPE_SUBMESSAGE \<longrightarrow> sub (fptr (fs ! i)) (d + data_pos fs i))"

fun fresh :: "pb_env \<Rightarrow> nat \<Rightarrow> cmem \<Rightarrow> addr \<Rightarrow> addr \<Rightarrow> bool" where
  "fresh env 0 m a d = True"
| "fresh env (Suc k) m a d = (\<forall>i < length (fields_at env a). fresh_field (fresh env k m) m (fields_at env a) d i)"

definition terminated_field :: "(addr \<Rightarrow> addr \<Rightarrow> bool) \<Rightarrow> cmem \<Rightarrow> pb_field list \<Rightarrow> addr \<Rightarrow> nat \<Rightarrow> bool" where
  "terminated_field sub m fs d i \<longleftrightarrow>
     (present m fs d i \<longrightarrow>
       (ltype (fs ! i) = PB_LTYPE_STRING \<longrightarrow> string_length m (fs ! i) (d + data_pos fs i) < unat (data_size (fs ! i))) \<and>
       (ltype (fs ! i) = PB_LTYPE_SUBMESSAGE \<longrightarrow> sub (fptr (fs ! i)) (d + data_pos fs i)))"

fun terminated :: "pb_env \<Rightarrow> nat \<Rightarrow> cmem \<Rightarrow> addr \<Rightarrow> addr \<Rightarrow> bool" where
  "terminated env 0 m a d = True"
| "terminated env (Suc k) m a d = (\<forall>i < length (fields_at env a). terminated_field (terminated env k m) m (fields_at env a) d i)"

lemma plain_fits:
  assumes "layout_fits env (Suc k) a sz" and "plain_layout env (Suc k) a" and "i < length (fields_at env a)"
  shows "plain_field (plain_layout env k) (fields_at env a) i"
    "field_fits (layout_fits env k) sz (fields_at env a ! i) (data_pos (fields_at env a) i) (size_pos (fields_at env a) i)"
    "atype (fields_at env a ! i) = PB_ATYPE_STATIC" "0 \<le> data_pos (fields_at env a) i"
    "ltype (fields_at env a ! i) = PB_LTYPE_SUBMESSAGE \<Longrightarrow> layout_fits env k (fptr (fields_at env a ! i)) (uint (data_size (fields_at env a ! i)))"
    "ltype (fields_at env a ! i) = PB_LTYPE_SUBMESSAGE \<Longrightarrow> plain_layout env k (fptr (fields_at env a ! i))"
  using assms by (auto simp: field_fits_def plain_field_def Let_def)

lemma fresh_agree:
  "layout_fits env k a sz \<Longrightarrow> plain_layout env k a \<Longrightarrow> agree (span d sz) m m' \<Longrightarrow> fresh env k m a d \<Longrightarrow> fresh env k m' a d"
proof (induction k arbitrary: a sz d)
  case (Suc k)
  let ?fs = "fields_at env a"
  have "fresh_field (fresh env k m') m' ?fs d i" if i: "i < length ?fs" for i
  proof -
    have a: "agree (field_slot ?fs d i) m m'"
      using Suc.prems(3) slot_inside [OF Suc.prems(1,2) i] by (rule agree_mono)
    have f: "fresh_field (fresh env k m) m ?fs d i" using Suc.prems(4) i by simp
    have "fresh env k m' (fptr (?fs ! i)) (d + data_pos ?fs i)" if l: "ltype (?fs ! i) = PB_LTYPE_SUBMESSAGE"
    proof (rule Suc.IH [OF plain_fits(5,6) [OF Suc.prems(1,2) i l]])
      show "agree (span (d + data_pos ?fs i) (uint (data_size (?fs ! i)))) m m'"
        using a by (rule agree_mono) (simp add: field_slot_def)
      show "fresh env k m (fptr (?fs ! i)) (d + data_pos ?fs i)" using f l by (simp add: fresh_field_def)
    qed
    then show ?thesis using f a by (auto simp: fresh_field_def safe_read_bool_def load8_def agree_def field_slot_def)
  qed
  then show ?case by simp
qed simp

subsection \<open>One field\<close>

lemma static_restores:
  assumes fr: "total_frame env k a sz d n dec" and pl: "plain_layout env (Suc k) a" and i: "i < length (fields_at env a)"
    and v: "spec_value m0 sub0 (fields_at env a ! i) (src + data_pos (fields_at env a) i) = Some (Some vb)"
    and src: "0 < src" and s: "feeds s vb" and len: "length vb < 2 ^ 32"
    and str: "ltype (fields_at env a ! i) = PB_LTYPE_STRING \<Longrightarrow>
       string_length m0 (fields_at env a ! i) (src + data_pos (fields_at env a) i) < unat (data_size (fields_at env a ! i))"
    and sub: "\<And>m1 bs. ltype (fields_at env a ! i) = PB_LTYPE_SUBMESSAGE \<Longrightarrow>
       agree (span (d + data_pos (fields_at env a) i) (uint (data_size (fields_at env a ! i)))) m m1 \<Longrightarrow>
       sub0 (fptr (fields_at env a ! i)) (src + data_pos (fields_at env a) i) = Some (Some bs) \<Longrightarrow> length bs < 2 ^ 32 \<Longrightarrow>
       restores dec False (fptr (fields_at env a ! i)) (d + data_pos (fields_at env a) i) m1 spec bs"
  shows "\<exists>m'. decode_static_field env dec dfl s wt (iter_at env a d i) m = Some (True, consume s (length vb), m') \<and>
      spec_value m' (spec m') (fields_at env a ! i) (d + data_pos (fields_at env a) i) = Some (Some vb) \<and>
      present m' (fields_at env a) d i \<and> touches (field_slot (fields_at env a) d i \<union> {..<0}) m m'"
proof -
  let ?fs = "fields_at env a" and ?p = "d + data_pos (fields_at env a) i" and ?q = "d + size_pos (fields_at env a) i"
  have F: "reads_bounded env" "layout_fits env (Suc k) a sz" "0 < d" "decoder_safe (layout_fits env k) dec"
    using fr by (auto simp: total_frame_def decode_frame_def)
  note P = plain_fits [OF F(2) pl i]
  let ?A = "span ?p (uint (data_size (?fs ! i))) \<union> {..<0}"
  let ?m = "if htype (?fs ! i) = PB_HTYPE_OPTIONAL then store8 m ?q 1 else m"
  have p: "0 < ?p" "src + data_pos ?fs i \<noteq> NULL" "?p \<noteq> NULL" using F(3) P(4) src by (auto simp: NULL_def)
  have h: "htype (?fs ! i) = PB_HTYPE_REQUIRED \<or> htype (?fs ! i) = PB_HTYPE_OPTIONAL \<and> ?q \<noteq> ?p \<and>
      ?q \<notin> span ?p (uint (data_size (?fs ! i)))" "htype (?fs ! i) \<noteq> PB_HTYPE_REPEATED"
    "ltype (?fs ! i) = PB_LTYPE_BYTES \<Longrightarrow> 4 \<le> unat (data_size (?fs ! i))"
    using P(1) by (auto simp: plain_field_def Let_def span_def type_defs)
  have q: "0 < ?q" if "htype (?fs ! i) = PB_HTYPE_OPTIONAL"
    using P(2) h that F(3) by (auto simp: field_fits_def type_defs)
  have ag: "agree (span ?p (uint (data_size (?fs ! i)))) m ?m"
    using h by (auto simp: agree_def store8_def mstore_def type_defs)
  obtain m' where m': "PB_DECODERS env dec s (?fs ! i) ?p ?m = Some (True, consume s (length vb), m')"
      "spec_value m' (spec m') (?fs ! i) ?p = Some (Some vb)"
    using value_reads [OF v s len P(3) p(2,3) h(3) str, of dec ?m spec env] sub [OF _ ag] h(2) by auto
  have "dtouches_opt ?A ?m (PB_DECODERS env dec s (?fs ! i) ?p ?m)"
  proof (rule decoders_touch [OF F(1)])
    show "atype (?fs ! i) \<noteq> PB_ATYPE_POINTER" using P(3) by (simp add: type_defs)
    show "span ?p (min_width (ltype (?fs ! i))) \<subseteq> ?A" using P(2) by (auto simp: field_fits_def span_def)
    show "msg_decoder_touches dec (fptr (?fs ! i)) ?p ?A" if "ltype (?fs ! i) = PB_LTYPE_SUBMESSAGE"
      using F(4) P(5) [OF that] p(1) by (simp add: decoder_safe_def)
  qed auto
  then have t: "touches ?A ?m m'" using m'(1) by (simp add: dtouches_opt_def dtouches_def)
  have "bytes m' ?q = bytes ?m ?q" if "htype (?fs ! i) = PB_HTYPE_OPTIONAL"
  proof -
    have "?q \<notin> ?A" using h q [OF that] that by (auto simp: type_defs)
    then show ?thesis using t by (auto simp: touches_def unchanged_outside_def)
  qed
  then have "present m' ?fs d i" using h by (auto simp: present_def safe_read_bool_def load8_def store8_def mstore_def)
  moreover have "touches (field_slot ?fs d i \<union> {..<0}) m ?m"
    by (auto simp: field_slot_def span_def intro!: touches_store)
  then have "touches (field_slot ?fs d i \<union> {..<0}) m m'"
    by (rule touches_trans) (rule touches_mono [OF t], auto simp: field_slot_def)
  moreover have "decode_static_field env dec dfl s wt (iter_at env a d i) m = Some (True, consume s (length vb), m')"
    using m'(1) h i by (auto simp: decode_static_field_def Let_def type_defs)
  ultimately show ?thesis using m'(2) by blast
qed

lemma find_plain:
  assumes "wf_env env" and "d \<noteq> NULL" and "distinct (map tag (fields_at env a))" and "j < length (fields_at env a)"
    and "i < length (fields_at env a)" and "ltype (fields_at env a ! i) \<noteq> PB_LTYPE_EXTENSION"
  shows "pb_field_iter_find env (iter_at env a d j) (tag (fields_at env a ! i)) = Some (True, iter_at env a d i)"
proof -
  let ?fs = "fields_at env a"
  have "x = i" if "x < length ?fs" "tag (?fs ! x) = tag (?fs ! i)" for x
    using nth_eq_iff_index_eq [OF assms(3), of x i] that assms(5) by simp
  then show ?thesis
    using find_at_result [of env a d j "tag (?fs ! i)"] assms by (auto simp: wf_env_def field_matches_def)
qed

lemma wire_type_less: "wire_type_of lt = Some wt \<Longrightarrow> wt < 8"
  by (auto simp: wire_type_of_def PB_WT_VARINT_def PB_WT_32BIT_def PB_WT_64BIT_def PB_WT_STRING_def split: if_splits)

text \<open>What the recursive call promises for submessages.\<close>

definition restoring :: "pb_env \<Rightarrow> nat \<Rightarrow> cmem \<Rightarrow> nat \<Rightarrow> msg_decoder \<Rightarrow> bool" where
  "restoring env k m0 n0 dec \<longleftrightarrow>
     (\<forall>b sz d src m bs. layout_fits env k b sz \<longrightarrow> plain_layout env k b \<longrightarrow> 0 < d \<longrightarrow> 0 < src \<longrightarrow> fresh env k m b d \<longrightarrow>
        terminated env k m0 b src \<longrightarrow> spec_message env m0 n0 b src = Some (Some bs) \<longrightarrow> length bs < 2 ^ 32 \<longrightarrow>
        restores dec False b d m (\<lambda>m. spec_message env m n0) bs)"

text \<open>One round of the loop: tag, field, value.\<close>

lemma known_plain:
  assumes "atype (iter_field env it) = PB_ATYPE_STATIC"
    and "htype (iter_field env it) = PB_HTYPE_REQUIRED \<or> htype (iter_field env it) = PB_HTYPE_OPTIONAL"
    and "decode_static_field env dec (pb_message_set_to_defaults env n) s wt it m = Some (True, s', m')"
  shows "decode_known env dec n a wt (l\<lparr>l_iter := it\<rparr>) s m =
           Some (L_continue, l\<lparr>l_iter := it, fields_seen := mark_seen env it (fields_seen l)\<rparr>, s', m')"
proof -
  have "htype (iter_field env it) \<noteq> PB_HTYPE_REPEATED" "htype (iter_field env it) \<noteq> PB_HTYPE_ONEOF"
    using assms(2) by (auto simp: type_defs)
  then show ?thesis using assms by (simp add: decode_known_def decode_field_def Let_def)
qed

lemma part_present:
  assumes "plain_part m0 sub0 fs src i = Some (Some bs)" and "present m0 fs src i"
  obtains wt vb where "wire_type_of (ltype (fs ! i)) = Some wt" "bs = tag_bytes wt (tag (fs ! i)) @ vb"
    "spec_value m0 sub0 (fs ! i) (src + data_pos fs i) = Some (Some vb)"
  using assms by (auto simp: plain_part_def sseq_def s_opt_def s_err_def s_ok_value tag_for_field_def split: option.splits)

lemma part_of_value:
  assumes "present m fs d i" and "spec_value m sub (fs ! i) (d + data_pos fs i) = Some (Some vb)"
    and "wire_type_of (ltype (fs ! i)) = Some wt" and "length (tag_bytes wt (tag (fs ! i)) @ vb) < 2 ^ 63"
  shows "plain_part m sub fs d i = Some (Some (tag_bytes wt (tag (fs ! i)) @ vb))"
  using assms by (simp add: plain_part_def sseq_def s_opt_def s_ok_def tag_for_field_def)

lemma step_restores:
  assumes fr: "total_frame env k a sz d n dec" and pl: "plain_layout env (Suc k) a" and i: "i < length (fields_at env a)"
    and rs: "restoring env k m0 n0 dec" and src: "0 < src"
    and part: "plain_part m0 (spec_message env m0 n0) (fields_at env a) src i = Some (Some bs)" "present m0 (fields_at env a) src i"
    and s: "feeds s bs" and len: "length bs < 2 ^ 32" and l: "l_iter l = iter_at env a d j" "j < length (fields_at env a)"
    and te: "terminated_field (terminated env k m0) m0 (fields_at env a) src i"
    and fe: "fresh_field (fresh env k m) m (fields_at env a) d i"
  shows "\<exists>l' m' wt s1. decode_step env dec n a l s m = Some (L_continue, l', consume s (length bs), m') \<and>
      pb_decode_tag env s = (True, wt, tag (fields_at env a ! i), False, s1) \<and> bs \<noteq> [] \<and>
      l_iter l' = iter_at env a d i \<and> fixed_count_field l' = fixed_count_field l \<and>
      plain_part m' (spec_message env m' n0) (fields_at env a) d i = Some (Some bs) \<and>
      touches (field_slot (fields_at env a) d i \<union> {..<0}) m m'"
proof -
  let ?fs = "fields_at env a"
  have F: "wf_env env" "layout_fits env (Suc k) a sz" "0 < d" "d \<noteq> NULL"
    using fr total_frame_facts [OF fr] by (auto simp: total_frame_def decode_frame_def)
  note P = plain_fits [OF F(2) pl i]
  obtain wt vb where w: "wire_type_of (ltype (?fs ! i)) = Some wt" "bs = tag_bytes wt (tag (?fs ! i)) @ vb"
      "spec_value m0 (spec_message env m0 n0) (?fs ! i) (src + data_pos ?fs i) = Some (Some vb)"
    using part by (rule part_present)
  let ?t = "tag_bytes wt (tag (?fs ! i))"
  have s2: "feeds s ?t" "feeds (consume s (length ?t)) vb" using s by (auto simp: w(2) feeds_append)
  have tg: "pb_decode_tag env s = (True, wt, tag (?fs ! i), False, consume s (length ?t))"
    using P(1) F(1) i by (intro decode_tag_feeds [OF s2(1) wire_type_less [OF w(1)]])
      (auto simp: plain_field_def Let_def wf_env_def tag_nth)
  have sub: "restores dec False (fptr (?fs ! i)) (d + data_pos ?fs i) m1 (\<lambda>m. spec_message env m n0) bs'"
    if "ltype (?fs ! i) = PB_LTYPE_SUBMESSAGE" "agree (span (d + data_pos ?fs i) (uint (data_size (?fs ! i)))) m m1"
      "spec_message env m0 n0 (fptr (?fs ! i)) (src + data_pos ?fs i) = Some (Some bs')" "length bs' < 2 ^ 32" for m1 bs'
    using rs P(4,5,6) that src F(3) te part(2) fe fresh_agree [OF P(5,6) that(2)]
    unfolding restoring_def terminated_field_def fresh_field_def by (meson add_pos_nonneg)
  have lv: "length vb < 2 ^ 32" using len w(2) by simp
  have str: "ltype (?fs ! i) = PB_LTYPE_STRING \<Longrightarrow> string_length m0 (?fs ! i) (src + data_pos ?fs i) < unat (data_size (?fs ! i))"
    using te part(2) by (simp add: terminated_field_def)
  obtain m' where m': "decode_static_field env dec (pb_message_set_to_defaults env n) (consume s (length ?t)) wt (iter_at env a d i) m =
        Some (True, consume (consume s (length ?t)) (length vb), m')"
      "spec_value m' (spec_message env m' n0) (?fs ! i) (d + data_pos ?fs i) = Some (Some vb)"
      "present m' ?fs d i" "touches (field_slot ?fs d i \<union> {..<0}) m m'"
    using static_restores [OF fr pl i w(3) src s2(2) lv str sub, where wt = wt and dfl = "pb_message_set_to_defaults env n"] by blast
  have "ltype (?fs ! i) \<noteq> PB_LTYPE_EXTENSION" using P(2) by (simp add: field_fits_def)
  then have fd: "pb_field_iter_find env (l_iter l) (tag (?fs ! i)) = Some (True, iter_at env a d i)"
    using pl unfolding l(1) by (intro find_plain [OF F(1,4) _ l(2) i]) auto
  have "decode_known env dec n a wt (l\<lparr>l_iter := iter_at env a d i\<rparr>) (consume s (length ?t)) m =
     Some (L_continue, l\<lparr>l_iter := iter_at env a d i, fields_seen := mark_seen env (iter_at env a d i) (fields_seen l)\<rparr>, consume s (length bs), m')"
    using m'(1) P(3) plain_htype [OF P(1)] i w(2) by (intro known_plain) auto
  then have st: "decode_step env dec n a l s m =
     Some (L_continue, l\<lparr>l_iter := iter_at env a d i, fields_seen := mark_seen env (iter_at env a d i) (fields_seen l)\<rparr>, consume s (length bs), m')"
    using tg fd by (simp add: decode_step_def)
  have "plain_part m' (spec_message env m' n0) ?fs d i = Some (Some bs)"
    using part_of_value [OF m'(3,2) w(1)] w(2) len by simp
  then show ?thesis using st tg m'(4) w(2) by (auto simp: tag_bytes_def)
qed

subsection \<open>The loop\<close>

text \<open>The fields before \<open>j\<close> are restored, the others are still fresh.\<close>

definition restored :: "pb_env \<Rightarrow> nat \<Rightarrow> nat \<Rightarrow> addr \<Rightarrow> addr \<Rightarrow> u8 list list \<Rightarrow> nat \<Rightarrow> cmem \<Rightarrow> bool" where
  "restored env k n0 a d bss j m \<longleftrightarrow>
     (\<forall>i < j. plain_part m (spec_message env m n0) (fields_at env a) d i = Some (Some (bss ! i))) \<and>
     (\<forall>i. j \<le> i \<longrightarrow> i < length (fields_at env a) \<longrightarrow> fresh_field (fresh env k m) m (fields_at env a) d i)"

lemma other_slot_agrees:
  assumes "layout_fits env (Suc k) a sz" and "plain_layout env (Suc k) a" and "0 < d"
    and "i < length (fields_at env a)" and "j < length (fields_at env a)" and "i \<noteq> j"
    and "touches (field_slot (fields_at env a) d j \<union> {..<0}) m m'"
  shows "agree (field_slot (fields_at env a) d i) m m'"
proof (rule agree_outside [OF assms(7)])
  have "field_slot (fields_at env a) d i \<inter> {..<0} = {}"
    using slot_inside [OF assms(1,2,4), of d] assms(3) by (auto simp: span_def)
  then show "(field_slot (fields_at env a) d j \<union> {..<0}) \<inter> field_slot (fields_at env a) d i = {}"
    using slots_disjoint [OF assms(2,4,5,6), of d] by blast
qed

lemma slot_kept:
  assumes lay: "layout_fits env (Suc k) a sz" "plain_layout env (Suc k) a" "0 < d" "i < length (fields_at env a)"
    and a: "agree (field_slot (fields_at env a) d i) m m'"
  shows "plain_part m' (spec_message env m' n0) (fields_at env a) d i = plain_part m (spec_message env m n0) (fields_at env a) d i"
    and "fresh_field (fresh env k m) m (fields_at env a) d i \<Longrightarrow> fresh_field (fresh env k m') m' (fields_at env a) d i"
proof -
  let ?fs = "fields_at env a"
  note P = plain_fits [OF lay(1,2,4)]
  have sub: "agree (span (d + data_pos ?fs i) (uint (data_size (?fs ! i)))) m m'"
    using a by (rule agree_mono) (simp add: field_slot_def)
  show "plain_part m' (spec_message env m' n0) ?fs d i = plain_part m (spec_message env m n0) ?fs d i"
    using message_agree [OF P(5,6) _ sub] P(4) lay(3) by (intro part_agree [OF P(1,2) a]) auto
  show "fresh_field (fresh env k m) m ?fs d i \<Longrightarrow> fresh_field (fresh env k m') m' ?fs d i"
    using fresh_agree [OF P(5,6) sub] a
    by (auto simp: fresh_field_def safe_read_bool_def load8_def agree_def field_slot_def)
qed

lemma restored_step:
  assumes "layout_fits env (Suc k) a sz" "plain_layout env (Suc k) a" "0 < d" "j < length (fields_at env a)"
    and "restored env k n0 a d bss j m" and "touches (field_slot (fields_at env a) d j \<union> {..<0}) m m'"
    and "plain_part m' (spec_message env m' n0) (fields_at env a) d j = Some (Some (bss ! j))"
  shows "restored env k n0 a d bss (Suc j) m'"
  unfolding restored_def
proof (intro conjI allI impI)
  fix i assume "i < Suc j"
  then consider "i = j" | "i < j" "i < length (fields_at env a)" using assms(4) by (auto simp: less_Suc_eq)
  then show "plain_part m' (spec_message env m' n0) (fields_at env a) d i = Some (Some (bss ! i))"
  proof cases
    case 2
    then show ?thesis
      using slot_kept(1) [OF assms(1-3) _ other_slot_agrees [OF assms(1-3) _ assms(4) _ assms(6)], of i] assms(5)
      by (simp add: restored_def)
  qed (use assms(7) in simp)
next
  fix i assume "Suc j \<le> i" "i < length (fields_at env a)"
  then show "fresh_field (fresh env k m') m' (fields_at env a) d i"
    using slot_kept(2) [OF assms(1-3) _ other_slot_agrees [OF assms(1-3) _ assms(4) _ assms(6)], of i] assms(5)
    by (simp add: restored_def)
qed

lemma absent_part:
  assumes "plain_field sub fs j" and "\<not> present m0 fs src j" and "plain_part m0 sub0 fs src j = Some (Some b)"
    and "fresh_field fr m fs d j"
  shows "b = []" and "plain_part m sub1 fs d j = Some (Some [])"
  using assms plain_htype [OF assms(1)]
  by (auto simp: plain_part_def fresh_field_def present_def s_ok_def type_defs)

lemma all_from: "(\<forall>i. j \<le> i \<longrightarrow> Q i) \<longleftrightarrow> Q j \<and> (\<forall>i. Suc j \<le> i \<longrightarrow> Q i)"
  by (metis Suc_leD Suc_leI le_neq_implies_less order_refl)

lemma loop_restores:
  assumes fr: "total_frame env k a sz d n dec" and pl: "plain_layout env (Suc k) a" and rs: "restoring env k m0 n0 dec" and src: "0 < src"
    and bss: "length bss = length (fields_at env a)"
      "\<And>i. i < length (fields_at env a) \<Longrightarrow> plain_part m0 (spec_message env m0 n0) (fields_at env a) src i = Some (Some (bss ! i))"
      "length (concat bss) < 2 ^ 32"
    and te: "terminated env (Suc k) m0 a src"
  shows "j \<le> length (fields_at env a) \<Longrightarrow> restored env k n0 a d bss j m \<Longrightarrow> feeds s (concat (drop j bss)) \<Longrightarrow>
     i_bytes_left s = length (concat (drop j bss)) \<Longrightarrow> i_bytes_left s < r \<Longrightarrow> l_iter l = iter_at env a d x \<Longrightarrow>
     x < length (fields_at env a) \<Longrightarrow>
     \<exists>l' m'. decode_loop env dec n a r l s m = Some (L_break, l', consume s (length (concat (drop j bss))), m') \<and>
       fixed_count_field l' = fixed_count_field l \<and> restored env k n0 a d bss (length (fields_at env a)) m' \<and>
       (\<forall>i. j \<le> i \<longrightarrow> i < length (fields_at env a) \<longrightarrow> present m0 (fields_at env a) src i \<longrightarrow>
          tag (fields_at env a ! i) \<in> set (loop_tags env dec n a r l s m))"
proof (induction "length (fields_at env a) - j" arbitrary: j m s r l x)
  case 0
  then have j: "j = length (fields_at env a)" by simp
  then show ?case using 0 bss(1) by (cases r) auto
next
  case (Suc y)
  let ?fs = "fields_at env a"
  have j: "j < length ?fs" and y: "y = length ?fs - Suc j" using Suc.hyps(2) by auto
  have dr: "drop j bss = bss ! j # drop (Suc j) bss" using j bss(1) by (simp add: Cons_nth_drop_Suc)
  have lay: "layout_fits env (Suc k) a sz" "0 < d" using fr by (auto simp: total_frame_def decode_frame_def)
  note P = plain_fits [OF lay(1) pl j] and B = bss(2) [OF j]
  have fe: "fresh_field (fresh env k m) m ?fs d j" using Suc.prems(2) j by (simp add: restored_def)
  show ?case
  proof (cases "present m0 ?fs src j")
    case False
    note ab = absent_part [OF P(1) False B fe]
    have "restored env k n0 a d bss (Suc j) m"
      by (rule restored_step [OF lay(1) pl lay(2) j Suc.prems(2) touches_refl]) (simp add: ab)
    then show ?thesis
      using Suc.hyps(1) [OF y, of m s r l x] Suc.prems(3-7) j ab(1) dr False
      unfolding all_from [of j] by simp
  next
    case True
    have f: "feeds s (bss ! j)" "feeds (consume s (length (bss ! j))) (concat (drop (Suc j) bss))"
      using Suc.prems(3) by (auto simp: dr feeds_append)
    have "bss = take j bss @ bss ! j # drop (Suc j) bss" using dr by (metis append_take_drop_id)
    then have "length (concat bss) = length (concat (take j bss)) + length (bss ! j) + length (concat (drop (Suc j) bss))"
      by (metis add.assoc concat.simps(2) concat_append length_append)
    then have "length (bss ! j) < 2 ^ 32" using bss(3) by simp
    then obtain l' m' wt s1 where st: "decode_step env dec n a l s m = Some (L_continue, l', consume s (length (bss ! j)), m')"
        "pb_decode_tag env s = (True, wt, tag (?fs ! j), False, s1)" "bss ! j \<noteq> []" "l_iter l' = iter_at env a d j"
        "fixed_count_field l' = fixed_count_field l"
        "plain_part m' (spec_message env m' n0) ?fs d j = Some (Some (bss ! j))"
        "touches (field_slot ?fs d j \<union> {..<0}) m m'"
      using step_restores [OF fr pl j rs src B True f(1) _ Suc.prems(6,7) _ fe] te j by auto
    have left: "i_bytes_left s = length (bss ! j) + length (concat (drop (Suc j) bss))" using Suc.prems(4) dr by simp
    then obtain r' where r: "r = Suc r'" "i_bytes_left s \<noteq> 0" using Suc.prems(5) st(3) by (cases r) auto
    have "restored env k n0 a d bss (Suc j) m'"
      by (rule restored_step [OF lay(1) pl lay(2) j Suc.prems(2) st(7,6)])
    moreover have "i_bytes_left (consume s (length (bss ! j))) < r'" using Suc.prems(5) st(3) r left by (cases "bss ! j") auto
    ultimately show ?thesis
      using Suc.hyps(1) [OF y, of m' "consume s (length (bss ! j))" r' l' j] f(2) j left st(1,2,4,5) r dr
      unfolding all_from [of j] by (auto simp: add.commute)
  qed
qed

subsection \<open>Whole messages\<close>

lemma message_parts:
  assumes "layout_fits env k a sz" and "plain_layout env k a" and "0 < src"
    and "spec_message env m0 n a src = Some (Some bs)"
  obtains n0 bss where "n = Suc n0" "length bss = length (fields_at env a)" "bs = concat bss"
    "\<And>i. i < length (fields_at env a) \<Longrightarrow> plain_part m0 (spec_message env m0 n0) (fields_at env a) src i = Some (Some (bss ! i))"
proof -
  obtain n0 where n: "n = Suc n0" using assms(4) by (cases n) auto
  then obtain bss where b: "map (plain_part m0 (spec_message env m0 n0) (fields_at env a) src) [0..<length (fields_at env a)] =
      map (\<lambda>b. Some (Some b)) bss" "bs = concat bss"
    using assms(4) spec_message_plain [OF assms(1-3)] by (auto simp: sconcat_value)
  have len: "length bss = length (fields_at env a)" using arg_cong [OF b(1), of length] by simp
  have "plain_part m0 (spec_message env m0 n0) (fields_at env a) src i = Some (Some (bss ! i))" if "i < length (fields_at env a)" for i
    using arg_cong [OF b(1), of "\<lambda>xs. xs ! i"] that len by simp
  then show ?thesis using that n b(2) len by blast
qed

lemma message_of_parts:
  assumes "layout_fits env k a sz" and "plain_layout env k a" and "0 < d" and "length bss = length (fields_at env a)"
    and "\<And>i. i < length (fields_at env a) \<Longrightarrow> plain_part m (spec_message env m n0) (fields_at env a) d i = Some (Some (bss ! i))"
    and "length (concat bss) < 2 ^ 63"
  shows "spec_message env m (Suc n0) a d = Some (Some (concat bss))"
proof -
  have "map (plain_part m (spec_message env m n0) (fields_at env a) d) [0..<length (fields_at env a)] = map (\<lambda>b. Some (Some b)) bss"
    using assms(4,5) by (intro nth_equalityI) auto
  then show ?thesis unfolding spec_message_plain [OF assms(1-3)] sconcat_value using assms(6) by blast
qed

lemma noinit_after_loop:
  assumes fr: "total_frame env k a sz d n dec"
    and dec: "dec = (\<lambda>init s a d m. if init then pb_decode env n s a d m else pb_decode_noinit env n s a d m)"
    and l: "l = \<lparr>l_iter = snd (pb_field_iter_begin env a d), fields_seen = [0, 0], extension_range_start = 0, fixed_count_field = None\<rparr>"
    and lp: "decode_loop env dec n a (Suc (i_bytes_left s)) l s m = Some (L_break, l', s', m')" "fixed_count_field l' = None"
    and rq: "required_all_seen (min (required_total (fields_at env a)) PB_MAX_REQUIRED_FIELDS) (fields_seen l')"
  shows "pb_decode_noinit env (Suc n) s a d m = Some (True, s', m')"
proof -
  note F = total_frame_facts [OF fr]
  have "decode_iter env a d (local_addr n) (l_iter l)" using F(1,2) l by (simp add: decode_iter_begin)
  then have "decode_iter env a d (local_addr n) (l_iter l')" using loop_safe [OF F(4) _ lp(1)] by blast
  then have "required_count env (l_iter l') = Some (min (required_total (fields_at env a)) PB_MAX_REQUIRED_FIELDS)"
    by (rule required_count_eq [OF F(1,2)])
  then show ?thesis using lp rq unfolding pb_decode_noinit.simps Let_def dec l
    by (simp add: fixed_count_ok_def del: decode_loop.simps)
qed

lemma message_restores:
  assumes fr: "total_frame env k a sz d n dec"
    and dec: "dec = (\<lambda>init s a d m. if init then pb_decode env n s a d m else pb_decode_noinit env n s a d m)"
    and pl: "plain_layout env (Suc k) a" and rs: "restoring env k m0 n0 dec" and src: "0 < src"
    and bs: "spec_message env m0 (Suc n0) a src = Some (Some bs)" "length bs < 2 ^ 32"
    and te: "terminated env (Suc k) m0 a src" and fe: "fresh env (Suc k) m a d"
    and s: "feeds s bs" "i_bytes_left s = length bs"
  shows "\<exists>m'. pb_decode_noinit env (Suc n) s a d m = Some (True, consume s (length bs), m') \<and>
              spec_message env m' (Suc n0) a d = Some (Some bs)"
proof -
  let ?fs = "fields_at env a"
  let ?l = "\<lparr>l_iter = snd (pb_field_iter_begin env a d), fields_seen = [0, 0], extension_range_start = 0, fixed_count_field = None\<rparr>"
  have lay: "layout_fits env (Suc k) a sz" "0 < d" "wf_env env" "d \<noteq> NULL"
    using fr total_frame_facts [OF fr] by (auto simp: total_frame_def decode_frame_def)
  obtain bss where b: "length bss = length ?fs" "bs = concat bss"
      "\<And>i. i < length ?fs \<Longrightarrow> plain_part m0 (spec_message env m0 n0) ?fs src i = Some (Some (bss ! i))"
    using message_parts [OF lay(1) pl src bs(1)] by auto
  have i0: "restored env k n0 a d bss 0 m" using fe by (simp add: restored_def)
  obtain l' m' where lp: "decode_loop env dec n a (Suc (i_bytes_left s)) ?l s m = Some (L_break, l', consume s (length bs), m')"
      "fixed_count_field l' = None" "restored env k n0 a d bss (length ?fs) m'"
      "required_all_seen (min (required_total ?fs) PB_MAX_REQUIRED_FIELDS) (fields_seen l')"
  proof (cases "?fs = []")
    case True
    then have "bs = []" using b by simp
    then show ?thesis using that [of ?l m] s(2) i0 True by (simp add: required_total_def required_all_seen_def)
  next
    case False
    then have it: "l_iter ?l = iter_at env a d 0" using lay(3,4) by (simp add: begin_eq wf_env_def)
    obtain l' m' where r: "decode_loop env dec n a (Suc (i_bytes_left s)) ?l s m = Some (L_break, l', consume s (length bs), m')"
        "fixed_count_field l' = None" "restored env k n0 a d bss (length ?fs) m'"
        "\<forall>i. i < length ?fs \<longrightarrow> present m0 ?fs src i \<longrightarrow> tag (?fs ! i) \<in> set (loop_tags env dec n a (Suc (i_bytes_left s)) ?l s m)"
      using loop_restores [OF fr pl rs src b(1,3) _ te _ i0, of s "Suc (i_bytes_left s)" ?l 0] bs(2) b(2) s it False
      by (auto simp del: decode_loop.simps loop_tags.simps)
    have dt: "distinct (map tag ?fs)" using pl by simp
    have "all_required ?fs (loop_tags env dec n a (Suc (i_bytes_left s)) ?l s m)"
      using r(4) unfolding all_required_def present_def by blast
    then show ?thesis using that [OF r(1-3)] loop_required [OF fr False dt _ _ r(1)] by simp
  qed
  have "spec_message env m' (Suc n0) a d = Some (Some bs)"
    unfolding b(2) using lp(3) bs(2) b(2) by (intro message_of_parts [OF lay(1) pl lay(2) b(1)]) (auto simp: restored_def)
  then show ?thesis using noinit_after_loop [OF fr dec refl lp(1,2,4)] by blast
qed

lemma noinit_restores:
  assumes "wf_env env" and "reads_bounded env"
  shows "layout_fits env k a sz \<Longrightarrow> plain_layout env k a \<Longrightarrow> 0 < d \<Longrightarrow> 0 < src \<Longrightarrow> fresh env k m a d \<Longrightarrow>
     terminated env k m0 a src \<Longrightarrow> spec_message env m0 n0 a src = Some (Some bs) \<Longrightarrow> length bs < 2 ^ 32 \<Longrightarrow> 2 * k \<le> n \<Longrightarrow>
     feeds s bs \<Longrightarrow> i_bytes_left s = length bs \<Longrightarrow>
     \<exists>m'. pb_decode_noinit env n s a d m = Some (True, consume s (length bs), m') \<and> spec_message env m' n0 a d = Some (Some bs)"
proof (induction k arbitrary: a sz d src m n0 bs n s)
  case (Suc k)
  obtain n1 where n: "n = Suc n1" "2 * k \<le> n1" "2 * Suc k \<le> Suc n1" using Suc.prems(9) by (cases n) auto
  obtain n0' where n0: "n0 = Suc n0'" using Suc.prems(7) by (cases n0) auto
  have "restoring env k m0 n0' (\<lambda>init s a d m. if init then pb_decode env n1 s a d m else pb_decode_noinit env n1 s a d m)"
    unfolding restoring_def restores_def
  proof (intro allI impI, elim conjE)
    fix b sz d src m bs s
    assume "layout_fits env k b sz" "plain_layout env k b" "0 < d" "0 < src" "fresh env k m b d" "terminated env k m0 b src"
      "spec_message env m0 n0' b src = Some (Some bs)" "length bs < 2 ^ 32" "feeds s bs" "i_bytes_left s = length bs"
    then show "\<exists>m'. (if False then pb_decode env n1 s b d m else pb_decode_noinit env n1 s b d m) =
        Some (True, consume s (length bs), m') \<and> spec_message env m' n0' b d = Some (Some bs)"
      using Suc.IH [of b sz d src m n0' bs n1 s] n(2) by auto
  qed
  then show ?case unfolding n(1) n0
    using Suc.prems unfolding n0
    by (intro message_restores [OF frame_of_layout [OF assms Suc.prems(1,3) n(3)] refl]) auto
qed simp

subsection \<open>Defaults are fresh\<close>

lemma slot_iter_safe:
  assumes "layout_fits env (Suc k) a sz" and "plain_layout env (Suc k) a" and "0 < d" and "i < length (fields_at env a)"
  shows "iter_safe env (layout_fits env k) (field_slot (fields_at env a) d i) (iter_at env a d i)"
proof -
  let ?f = "fields_at env a ! i"
  note P = plain_fits [OF assms(1,2,4)]
  have h: "htype ?f = PB_HTYPE_REQUIRED \<or> htype ?f = PB_HTYPE_OPTIONAL" using plain_htype [OF P(1)] by blast
  then have "htype ?f \<noteq> PB_HTYPE_REPEATED" "htype ?f \<noteq> PB_HTYPE_ONEOF" by (auto simp: type_defs)
  moreover have "field_extent ?f = uint (data_size ?f)"
    using P(3) \<open>htype ?f \<noteq> PB_HTYPE_REPEATED\<close> by (simp add: field_extent_def type_defs)
  moreover have "uint (data_size ?f) < 2 ^ 32" using uint_bounded [of "data_size ?f"] by simp
  ultimately show ?thesis using P(2,4) assms(3,4)
    by (auto simp: iter_safe_def field_fits_def Let_def field_slot_def span_def)
qed

lemma default_fresh:
  assumes lay: "layout_fits env (Suc k) a sz" "plain_layout env (Suc k) a" "0 < d" "i < length (fields_at env a)"
    and b: "set_static_default dfl (fields_at env a ! i) (iter_at env a d i) m = Some m'"
    and t: "\<And>a d sz m m'. layout_fits env k a sz \<Longrightarrow> 0 < d \<Longrightarrow> dfl a d m = Some m' \<Longrightarrow> touches (span d sz) m m'"
    and f: "\<And>a d sz m m'. layout_fits env k a sz \<Longrightarrow> plain_layout env k a \<Longrightarrow> 0 < d \<Longrightarrow> dfl a d m = Some m' \<Longrightarrow> fresh env k m' a d"
  shows "touches (field_slot (fields_at env a) d i) m m' \<and> fresh_field (fresh env k m') m' (fields_at env a) d i"
proof
  let ?fs = "fields_at env a" and ?p = "d + data_pos (fields_at env a) i" and ?q = "d + size_pos (fields_at env a) i"
  note P = plain_fits [OF lay(1,2,4)]
  show "touches (field_slot ?fs d i) m m'"
    by (rule static_default_touches [OF slot_iter_safe [OF lay] _ b t]) (simp_all add: lay(4))
  let ?m1 = "if htype (?fs ! i) = PB_HTYPE_OPTIONAL then store8 m ?q 0 else m"
  have h: "htype (?fs ! i) = PB_HTYPE_REQUIRED \<or> htype (?fs ! i) = PB_HTYPE_OPTIONAL \<and> ?q \<noteq> ?p \<and>
      ?q \<notin> span ?p (uint (data_size (?fs ! i)))"
    using P(1) by (auto simp: plain_field_def Let_def span_def)
  have c: "\<not> (htype (?fs ! i) = PB_HTYPE_REPEATED \<or> htype (?fs ! i) = PB_HTYPE_ONEOF)" using h by (auto simp: type_defs)
  have ro: "PB_HTYPE_OPTIONAL \<noteq> PB_HTYPE_REQUIRED" by (simp add: type_defs)
  have b1: "(if ltype (?fs ! i) = PB_LTYPE_SUBMESSAGE then dfl (fptr (?fs ! i)) ?p ?m1
       else if fptr (?fs ! i) \<noteq> NULL then Some (memcpy ?m1 ?p (fptr (?fs ! i)) (unat (data_size (?fs ! i))))
       else Some (memset0 ?m1 ?p (unat (data_size (?fs ! i))))) = Some m'"
    using b c h ro lay(4) by (auto simp: set_static_default_def Let_def)
  have p: "0 < ?p" using P(4) lay(3) by simp
  have "touches (span ?p (uint (data_size (?fs ! i)))) ?m1 m'"
    using b1 t [OF P(5) p] by (auto split: if_splits intro!: touches_copy)
  then have "htype (?fs ! i) = PB_HTYPE_OPTIONAL \<Longrightarrow> bytes m' ?q = 0"
    using h by (auto simp: touches_def unchanged_outside_def store8_def mstore_def type_defs)
  then show "fresh_field (fresh env k m') m' ?fs d i"
    using b1 f [OF P(5,6) p] by (auto simp: fresh_field_def safe_read_bool_def load8_def)
qed

lemma visit_fresh:
  assumes lay: "layout_fits env (Suc k) a sz" "plain_layout env (Suc k) a" "0 < d"
    and step: "\<And>i m m1 go. i < length (fields_at env a) \<Longrightarrow> body (iter_at env a d i) m = Some (m1, go) \<Longrightarrow>
        go \<and> touches (field_slot (fields_at env a) d i) m m1 \<and> fresh_field (fresh env k m1) m1 (fields_at env a) d i"
  shows "j \<le> length (fields_at env a) \<Longrightarrow> \<forall>i < j. fresh_field (fresh env k m) m (fields_at env a) d i \<Longrightarrow>
     visit body (map (iter_at env a d) [j..<length (fields_at env a)]) m = Some m' \<Longrightarrow> fresh env (Suc k) m' a d"
proof (induction "length (fields_at env a) - j" arbitrary: j m)
  case 0
  then show ?case by simp
next
  case (Suc y)
  have j: "j < length (fields_at env a)" and y: "y = length (fields_at env a) - Suc j" using Suc.hyps(2) by auto
  then obtain m1 go where b: "body (iter_at env a d j) m = Some (m1, go)"
    using Suc.prems(3) by (auto simp: upt_conv_Cons split: option.splits)
  note st = step [OF j b]
  have t: "touches (field_slot (fields_at env a) d j \<union> {..<0}) m m1" using st by (blast intro: touches_mono)
  have "fresh_field (fresh env k m1) m1 (fields_at env a) d i" if i: "i < Suc j" for i
  proof (cases "i = j")
    case False
    then have "i < length (fields_at env a)" "fresh_field (fresh env k m) m (fields_at env a) d i" using i j Suc.prems(2) by auto
    then show ?thesis using slot_kept(2) [OF lay _ other_slot_agrees [OF lay _ j False t]] by blast
  qed (use st in simp)
  then show ?case using Suc.hyps(1) [OF y, of m1] j Suc.prems(3) b st by (simp add: upt_conv_Cons)
qed

lemma defaults_fresh:
  assumes "wf_env env"
  shows "layout_fits env k a sz \<Longrightarrow> plain_layout env k a \<Longrightarrow> 0 < d \<Longrightarrow> pb_message_set_to_defaults env n a d m = Some m' \<Longrightarrow>
         fresh env k m' a d"
proof (induction k arbitrary: n a sz d m m')
  case (Suc k)
  obtain n1 where n: "n = Suc n1" using Suc.prems(4) by (cases n) auto
  let ?dfl = "pb_message_set_to_defaults env n1"
  let ?body = "\<lambda>it m. map_option (\<lambda>m. (m, True)) (pb_field_set_to_default env ?dfl n1 it m)"
  have "visit ?body (map (iter_at env a d) [0..<length (fields_at env a)]) m = Some m'"
    using Suc.prems(3,4) loop_iters [OF assms, where d = d and a = a and st = m and body = ?body] by (simp add: n NULL_def)
  moreover have "go \<and> touches (field_slot (fields_at env a) d i) m m1 \<and> fresh_field (fresh env k m1) m1 (fields_at env a) d i"
    if i: "i < length (fields_at env a)" and b: "?body (iter_at env a d i) m = Some (m1, go)" for i m m1 go
  proof -
    have ft: "field_fits (layout_fits env k) sz (fields_at env a ! i) (data_pos (fields_at env a) i) (size_pos (fields_at env a) i)"
      using Suc.prems(1) i by simp
    have "pb_field_set_to_default env ?dfl n1 (iter_at env a d i) m = Some m1" using b by auto
    then have "set_static_default ?dfl (fields_at env a ! i) (iter_at env a d i) m = Some m1"
      using ft i by (cases n1) (auto simp: field_fits_def)
    then show ?thesis
      using default_fresh [OF Suc.prems(1-3) i _ defaults_touch [OF assms] Suc.IH] b by auto
  qed
  ultimately show ?case by (intro visit_fresh [OF Suc.prems(1-3), of ?body 0]) auto
qed simp

lemma decode_restores:
  assumes "wf_env env" and "reads_bounded env" and "layout_fits env k a sz" and "plain_layout env k a"
    and "0 < d" and "0 < src" and "terminated env k m0 a src" and "spec_message env m0 n0 a src = Some (Some bs)"
    and "length bs < 2 ^ 32" and "2 * k < n" and "feeds s bs" and "i_bytes_left s = length bs"
  shows "\<exists>m'. pb_decode env n s a d m = Some (True, consume s (length bs), m') \<and> spec_message env m' n0 a d = Some (Some bs)"
proof -
  obtain n1 where n: "n = Suc n1" "2 * k \<le> n1" using assms(10) by (cases n) auto
  obtain m1 where m1: "pb_message_set_to_defaults env (Suc n1) a d m = Some m1"
    using defaults_return [OF assms(1,3,5), of "Suc n1" m] n by (auto elim: returnsE)
  then have "fresh env k m1 a d" by (rule defaults_fresh [OF assms(1,3,4,5)])
  then obtain m' where "pb_decode_noinit env n1 s a d m1 = Some (True, consume s (length bs), m')" "spec_message env m' n0 a d = Some (Some bs)"
    using noinit_restores [OF assms(1-6) _ assms(7-9) n(2) assms(11,12)] by blast
  then show ?thesis using m1 unfolding n(1) by simp
qed

end
