(* ===== verification/Uv_Base.thy ===== *)
theory Uv_Base
  imports Prelude
begin

text \<open>
  What the components of libuv share: error codes (\<^verbatim>\<open>UV_E...\<close>; a function that returns \<^verbatim>\<open>int\<close>
  gives \<^const>\<open>None\<close> for 0) and C strings, modelled by the characters in front of the
  terminating null character.
\<close>

datatype uv_error =
    UV_EINVAL | UV_ENOSPC | UV_EAFNOSUPPORT | UV_E2BIG | UV_EBUSY | UV_ECANCELED | UV_ENOMEM
  | UV_EBADF | UV_ENOSYS | UV_EEXIST | UV_ENOTTY

abbreviation NUL :: char where
  "NUL \<equiv> CHR 0x00"

text \<open>The character at index \<open>i\<close> of a C string; the one behind the last is the terminator.\<close>

definition c_at :: "string \<Rightarrow> nat \<Rightarrow> char" where
  "c_at s i = (if i < length s then s ! i else NUL)"

definition c_string :: "string \<Rightarrow> bool" where
  "c_string s \<longleftrightarrow> NUL \<notin> set s"

text \<open>\<^verbatim>\<open>strchr(s, ch) - s\<close> for a character other than the terminator; \<^const>\<open>None\<close>: a null pointer.\<close>

fun strchr_index :: "string \<Rightarrow> char \<Rightarrow> nat option" where
  "strchr_index [] ch = None"
| "strchr_index (c # cs) ch = (if c = ch then Some 0 else map_option Suc (strchr_index cs ch))"

subsection \<open>uv\_\_strscpy\<close>

text \<open>
  The loop of \<^verbatim>\<open>uv__strscpy\<close> from index \<open>i\<close>; \<open>d\<close> holds what was stored in the destination. The
  result is the content of the destination buffer (its terminator included) and the return value.
  Sizes are below \<^verbatim>\<open>SSIZE_MAX\<close>.
\<close>

function strscpy_loop :: "string \<Rightarrow> nat \<Rightarrow> nat \<Rightarrow> string \<Rightarrow> string \<times> (uv_error + nat)" where
  "strscpy_loop s n i d =
     (if i < n then
        let d' = d @ [c_at s i] in
        if c_at s i = NUL then (d', Inr i) else strscpy_loop s n (Suc i) d'
      else if i = 0 then (d, Inr 0)
      else (d[i - 1 := NUL], Inl UV_E2BIG))"
  by pat_completeness auto
termination
  by (relation "measure (\<lambda>(s, n, i, d). n - i)") auto

declare strscpy_loop.simps [simp del]

definition uv__strscpy :: "string \<Rightarrow> nat \<Rightarrow> string \<times> (uv_error + nat)" where
  "uv__strscpy s n = strscpy_loop s n 0 []"

lemma strscpy_loop_eq:
  assumes "c_string s" and "i \<le> length s" and "i \<le> n"
  shows "strscpy_loop s n i (take i s) =
         (if length s < n then (s @ [NUL], Inr (length s))
          else if n = 0 then ([], Inr 0)
          else (take (n - 1) s @ [NUL], Inl UV_E2BIG))"
  using assms(2,3)
proof (induction "n - i" arbitrary: i)
  case 0
  then have i: "i = n" by simp
  show ?case
  proof (cases n)
    case (Suc k)
    then have "(take n s)[k := NUL] = take k s @ [NUL]"
      using 0 i by (simp add: take_Suc_conv_app_nth list_update_append)
    then show ?thesis using 0 i Suc by (simp add: strscpy_loop.simps)
  qed (use 0 i in \<open>simp add: strscpy_loop.simps\<close>)
next
  case (Suc k)
  show ?case
  proof (cases "i = length s")
    case True
    moreover have "length s < n" using True Suc.hyps(2) by simp
    ultimately show ?thesis by (simp add: strscpy_loop.simps [of s n "length s"] c_at_def)
  next
    case False
    then have lt: "i < length s" using Suc.prems by simp
    then have c: "c_at s i = s ! i" by (simp add: c_at_def)
    have "s ! i \<noteq> NUL" using assms(1) nth_mem [OF lt] unfolding c_string_def by metis
    have "take i s @ [s ! i] = take (Suc i) s" using lt by (simp add: take_Suc_conv_app_nth)
    moreover have "i < n" using Suc.hyps(2) by simp
    ultimately show ?thesis
      using Suc.hyps(1) [of "Suc i"] Suc.hyps(2) lt c Suc.prems \<open>s ! i \<noteq> NUL\<close>
      by (simp add: strscpy_loop.simps [of s n i])
  qed
qed

text \<open>\<^verbatim>\<open>uv__strscpy\<close> copies the whole string if it fits with its terminator, and truncates it if not.\<close>

lemma strscpy_eq:
  assumes "c_string s"
  shows "uv__strscpy s n =
         (if length s < n then (s @ [NUL], Inr (length s))
          else if n = 0 then ([], Inr 0)
          else (take (n - 1) s @ [NUL], Inl UV_E2BIG))"
  using strscpy_loop_eq [OF assms, of 0 n] by (simp add: uv__strscpy_def)

text \<open>
  \<^verbatim>\<open>uv__strscpy\<close> copies a string with its terminator when it fits and returns its length; a string that does
  not fit is cut off and still terminated, with the error \<^verbatim>\<open>UV_E2BIG\<close>; an empty buffer is not touched.
\<close>

lemma uv__strscpy_spec:
  assumes "c_string s"
  shows "uv__strscpy s n =
         (if length s < n then (s @ [NUL], Inr (length s))
          else if n = 0 then ([], Inr 0)
          else (take (n - 1) s @ [NUL], Inl UV_E2BIG))"
  by (rule strscpy_eq [OF assms])

end
