(* ===== verification/Uv_Inet.thy ===== *)
theory Uv_Inet
  imports Uv_Base
begin

text \<open>
  Internet addresses as text, \<^verbatim>\<open>src/inet.c\<close>: printing and parsing of IPv4 and IPv6 addresses. A
  conversion that stores characters gives the status and the characters stored.
\<close>

definition UV__INET_ADDRSTRLEN :: nat where "UV__INET_ADDRSTRLEN = 16"
definition UV__INET6_ADDRSTRLEN :: nat where "UV__INET6_ADDRSTRLEN = 46"

datatype address_family = AF_INET | AF_INET6 | AF_other

subsection \<open>Printing\<close>

text \<open>The conversions \<^verbatim>\<open>%u\<close> and \<^verbatim>\<open>%x\<close> of \<^verbatim>\<open>printf\<close>.\<close>

definition xdigits_l :: string where "xdigits_l = ''0123456789abcdef''"
definition xdigits_u :: string where "xdigits_u = ''0123456789ABCDEF''"
definition digits :: string where "digits = ''0123456789''"

fun print_nat :: "nat \<Rightarrow> nat \<Rightarrow> string" where
  "print_nat base n =
     (if base < 2 \<or> n < base then [xdigits_l ! n] else print_nat base (n div base) @ [xdigits_l ! (n mod base)])"

declare print_nat.simps [simp del]

definition print_u :: "nat \<Rightarrow> string" where "print_u = print_nat 10"
definition print_x :: "nat \<Rightarrow> string" where "print_x = print_nat 16"

text \<open>\<^verbatim>\<open>snprintf(tmp, sizeof(tmp), "%u.%u.%u.%u", ...)\<close>; at most 15 characters, so nothing is cut off.\<close>

definition ntop4_text :: "u8 list \<Rightarrow> string" where
  "ntop4_text src =
     print_u (unat (src ! 0)) @ ''.'' @ print_u (unat (src ! 1)) @ ''.'' @
     print_u (unat (src ! 2)) @ ''.'' @ print_u (unat (src ! 3))"

definition inet_ntop4 :: "u8 list \<Rightarrow> nat \<Rightarrow> uv_error option \<times> string" where
  "inet_ntop4 src sz =
     (let tmp = ntop4_text src; l = length tmp in
      if l \<le> 0 \<or> l \<ge> sz then (Some UV_ENOSPC, [])
      else (None, fst (uv__strscpy tmp sz)))"

text \<open>The words of an IPv6 address, most significant byte first.\<close>

definition in6_words :: "u8 list \<Rightarrow> nat list" where
  "in6_words src = map (\<lambda>i. unat (src ! (2 * i)) * 256 + unat (src ! (2 * i + 1))) [0..<8]"

text \<open>
  The search for the longest run of zero words; a run is its base and length, \<^const>\<open>None\<close> stands
  for \<^verbatim>\<open>base == -1\<close>.
\<close>

type_synonym zero_run = "(nat \<times> nat) option"

definition better_run :: "zero_run \<Rightarrow> zero_run \<Rightarrow> zero_run" where
  "better_run best cur =
     (case cur of
        None \<Rightarrow> best
      | Some (cb, cl) \<Rightarrow> (case best of None \<Rightarrow> cur | Some (bb, bl) \<Rightarrow> if cl > bl then cur else best))"

fun scan_runs :: "nat list \<Rightarrow> nat \<Rightarrow> zero_run \<Rightarrow> zero_run \<Rightarrow> zero_run" where
  "scan_runs [] i best cur = better_run best cur"
| "scan_runs (w # ws) i best cur =
     (if w = 0
      then scan_runs ws (Suc i) best (case cur of None \<Rightarrow> Some (i, 1) | Some (b, l) \<Rightarrow> Some (b, Suc l))
      else scan_runs ws (Suc i) (better_run best cur) None)"

definition best_run :: "nat list \<Rightarrow> zero_run" where
  "best_run ws =
     (case scan_runs ws 0 None None of Some (b, l) \<Rightarrow> if l < 2 then None else Some (b, l) | None \<Rightarrow> None)"

text \<open>
  The formatting loop from word \<open>i\<close>; \<open>tp\<close> holds the characters stored in \<^verbatim>\<open>tmp\<close>. The \<^verbatim>\<open>break\<close>
  after an encapsulated IPv4 address ends it.
\<close>

definition encapsulates_v4 :: "nat list \<Rightarrow> zero_run \<Rightarrow> nat \<Rightarrow> bool" where
  "encapsulates_v4 words best i \<longleftrightarrow>
     i = 6 \<and> (case best of
                 None \<Rightarrow> False
               | Some (b, l) \<Rightarrow> b = 0 \<and> (l = 6 \<or> l = 7 \<and> words ! 7 \<noteq> 0x0001 \<or> l = 5 \<and> words ! 5 = 0xffff))"

function ntop6_loop :: "u8 list \<Rightarrow> nat list \<Rightarrow> zero_run \<Rightarrow> nat \<Rightarrow> string \<Rightarrow> uv_error + string" where
  "ntop6_loop src words best i tp =
     (if i \<ge> 8 then Inr tp
      else if (case best of None \<Rightarrow> False | Some (b, l) \<Rightarrow> b \<le> i \<and> i < b + l)
      then ntop6_loop src words best (Suc i) (if best \<noteq> None \<and> i = fst (the best) then tp @ '':'' else tp)
      else
        let tp1 = (if i \<noteq> 0 then tp @ '':'' else tp) in
        if encapsulates_v4 words best i then
          (case inet_ntop4 (drop 12 src) (UV__INET6_ADDRSTRLEN - length tp1) of
             (Some err, _) \<Rightarrow> Inl err
           | (None, out) \<Rightarrow> Inr (tp1 @ butlast out))
        else ntop6_loop src words best (Suc i) (tp1 @ print_x (words ! i)))"
  by pat_completeness auto
termination
  by (relation "measure (\<lambda>(src, words, best, i, tp). 8 - i)") auto

declare ntop6_loop.simps [simp del]

definition inet_ntop6 :: "u8 list \<Rightarrow> nat \<Rightarrow> uv_error option \<times> string" where
  "inet_ntop6 src sz =
     (let words = in6_words src; best = best_run words in
      case ntop6_loop src words best 0 [] of
        Inl err \<Rightarrow> (Some err, [])
      | Inr tp \<Rightarrow>
          let tmp = (case best of Some (b, l) \<Rightarrow> if b + l = 8 then tp @ '':'' else tp | None \<Rightarrow> tp) in
          (case uv__strscpy tmp sz of
             (out, Inl UV_E2BIG) \<Rightarrow> (Some UV_ENOSPC, out)
           | (out, _) \<Rightarrow> (None, out)))"

definition uv_inet_ntop :: "address_family \<Rightarrow> u8 list \<Rightarrow> nat \<Rightarrow> uv_error option \<times> string" where
  "uv_inet_ntop af src sz =
     (case af of
        AF_INET \<Rightarrow> inet_ntop4 src sz
      | AF_INET6 \<Rightarrow> inet_ntop6 src sz
      | AF_other \<Rightarrow> (Some UV_EAFNOSUPPORT, []))"

subsection \<open>Parsing\<close>

text \<open>
  The loop of \<^verbatim>\<open>inet_pton4\<close>: \<open>bs\<close> are the octets before the current one, \<open>cur\<close> is \<^verbatim>\<open>*tp\<close>. The text is
  a C string; the result of the loop is \<^verbatim>\<open>tmp\<close> up to the current octet and \<^verbatim>\<open>octets\<close>.
\<close>

fun pton4_loop :: "string \<Rightarrow> bool \<Rightarrow> nat \<Rightarrow> u8 list \<Rightarrow> nat \<Rightarrow> uv_error + (u8 list \<times> nat)" where
  "pton4_loop [] saw_digit octets bs cur = Inr (bs @ [of_nat cur], octets)"
| "pton4_loop (ch # src) saw_digit octets bs cur =
     (case strchr_index digits ch of
        Some v \<Rightarrow>
          let nw = cur * 10 + v in
          if saw_digit \<and> cur = 0 then Inl UV_EINVAL
          else if nw > 255 then Inl UV_EINVAL
          else if \<not> saw_digit \<and> Suc octets > 4 then Inl UV_EINVAL
          else pton4_loop src True (if saw_digit then octets else Suc octets) bs nw
      | None \<Rightarrow>
          if ch = CHR ''.'' \<and> saw_digit then
            if octets = 4 then Inl UV_EINVAL
            else pton4_loop src False octets (bs @ [of_nat cur]) 0
          else Inl UV_EINVAL)"

definition inet_pton4 :: "string \<Rightarrow> uv_error + u8 list" where
  "inet_pton4 src =
     (case pton4_loop src False 0 [] 0 of
        Inl e \<Rightarrow> Inl e
      | Inr (tmp, octets) \<Rightarrow> if octets < 4 then Inl UV_EINVAL else Inr tmp)"

text \<open>The value of a hexadecimal digit: the index in \<^verbatim>\<open>xdigits_l\<close>, else in \<^verbatim>\<open>xdigits_u\<close>.\<close>

definition xdigit_value :: "char \<Rightarrow> nat option" where
  "xdigit_value ch = (case strchr_index xdigits_l ch of Some v \<Rightarrow> Some v | None \<Rightarrow> strchr_index xdigits_u ch)"

text \<open>
  The loop of \<^verbatim>\<open>inet_pton6\<close>: \<open>tp\<close> are the bytes stored so far, \<open>colonp\<close> the offset of the \<^verbatim>\<open>::\<close>. The
  result is \<open>(tp, colonp, seen_xdigits, val)\<close> when the loop ends without a return.
\<close>

fun pton6_loop ::
  "string \<Rightarrow> u8 list \<Rightarrow> nat option \<Rightarrow> string \<Rightarrow> nat \<Rightarrow> nat \<Rightarrow> uv_error + (u8 list \<times> nat option \<times> nat \<times> nat)" where
  "pton6_loop [] tp colonp curtok seen_xdigits val = Inr (tp, colonp, seen_xdigits, val)"
| "pton6_loop (ch # src) tp colonp curtok seen_xdigits val =
     (case xdigit_value ch of
        Some v \<Rightarrow>
          if Suc seen_xdigits > 4 then Inl UV_EINVAL
          else pton6_loop src tp colonp curtok (Suc seen_xdigits) (val * 16 + v)
      | None \<Rightarrow>
          if ch = CHR '':'' then
            if seen_xdigits = 0 then
              if colonp \<noteq> None then Inl UV_EINVAL
              else pton6_loop src tp (Some (length tp)) src seen_xdigits val
            else if src = [] then Inl UV_EINVAL
            else if length tp + 2 > 16 then Inl UV_EINVAL
            else pton6_loop src (tp @ [of_nat (val div 256), of_nat val]) colonp src 0 0
          else if ch = CHR ''.'' \<and> length tp + 4 \<le> 16 then
            (case inet_pton4 curtok of
               Inr bs \<Rightarrow> Inr (tp @ bs, colonp, 0, val)
             | Inl _ \<Rightarrow> Inl UV_EINVAL)
          else Inl UV_EINVAL)"

text \<open>The shift by hand: \<open>for (i = 1; i <= n; i++) \<dots>\<close> on the 16 bytes of \<^verbatim>\<open>tmp\<close>.\<close>

fun shift_tail :: "u8 list \<Rightarrow> nat \<Rightarrow> nat \<Rightarrow> nat \<Rightarrow> u8 list" where
  "shift_tail tmp c n 0 = tmp"
| "shift_tail tmp c n (Suc k) =
     (let tmp' = shift_tail tmp c n k
      in (tmp'[16 - Suc k := tmp' ! (c + n - Suc k)])[c + n - Suc k := 0])"

definition inet_pton6 :: "string \<Rightarrow> uv_error + u8 list" where
  "inet_pton6 src =
     (if src \<noteq> [] \<and> hd src = CHR '':'' \<and> c_at src 1 \<noteq> CHR '':'' then Inl UV_EINVAL
      else
        let start = (if src \<noteq> [] \<and> hd src = CHR '':'' then tl src else src) in
        (case pton6_loop start [] None start 0 0 of
           Inl e \<Rightarrow> Inl e
         | Inr (tp, colonp, seen_xdigits, val) \<Rightarrow>
             if seen_xdigits > 0 \<and> length tp + 2 > 16 then Inl UV_EINVAL
             else
               let tp1 = (if seen_xdigits > 0 then tp @ [of_nat (val div 256), of_nat val] else tp) in
               (case colonp of
                  None \<Rightarrow> if length tp1 \<noteq> 16 then Inl UV_EINVAL else Inr tp1
                | Some c \<Rightarrow>
                    if length tp1 = 16 then Inl UV_EINVAL
                    else let n = length tp1 - c
                         in Inr (shift_tail (tp1 @ replicate (16 - length tp1) 0) c n n))))"

text \<open>\<^verbatim>\<open>src\<close> and \<^verbatim>\<open>dst\<close> may be null pointers; the scope after a percent sign is dropped.\<close>

definition uv_inet_pton :: "address_family \<Rightarrow> string option \<Rightarrow> bool \<Rightarrow> uv_error + u8 list" where
  "uv_inet_pton af src dst_null =
     (case src of
        None \<Rightarrow> Inl UV_EINVAL
      | Some s \<Rightarrow>
          if dst_null then Inl UV_EINVAL
          else
            (case af of
               AF_INET \<Rightarrow> inet_pton4 s
             | AF_INET6 \<Rightarrow>
                 (case strchr_index s (CHR ''%'') of
                    None \<Rightarrow> inet_pton6 s
                  | Some len \<Rightarrow>
                      if len > UV__INET6_ADDRSTRLEN - 1 then Inl UV_EINVAL else inet_pton6 (take len s))
             | AF_other \<Rightarrow> Inl UV_EAFNOSUPPORT))"

subsection \<open>Digits\<close>

lemma strchr_index_digits: "v < 10 \<Longrightarrow> strchr_index digits (xdigits_l ! v) = Some v"
  by (simp add: digits_def xdigits_l_def less_Suc_eq_0_disj numeral_eq_Suc) auto

lemma xdigit_value_nth: "v < 16 \<Longrightarrow> xdigit_value (xdigits_l ! v) = Some v"
  by (simp add: xdigit_value_def xdigits_l_def less_Suc_eq_0_disj numeral_eq_Suc) auto

lemma strchr_index_nth: "strchr_index cs ch = Some i \<Longrightarrow> i < length cs \<and> cs ! i = ch"
  by (induction cs arbitrary: i) (auto split: if_splits)

subsection \<open>IPv4\<close>

abbreviation digit :: "nat \<Rightarrow> char" where
  "digit v \<equiv> xdigits_l ! v"

lemma print_u_step: "0 < n \<Longrightarrow> v < 10 \<Longrightarrow> print_u (n * 10 + v) = print_u n @ [digit v]"
  unfolding print_u_def by (subst print_nat.simps) simp

lemma print_u_digit: "v < 10 \<Longrightarrow> print_u v = [digit v]"
  unfolding print_u_def by (subst print_nat.simps) simp

lemma print_u_cases:
  assumes "n < 256"
  obtains (one) "n < 10" "print_u n = [digit n]"
    | (two) a b where "0 < a" "a < 10" "b < 10" "n = a * 10 + b" "print_u n = [digit a, digit b]"
    | (three) a b c where "0 < a" "a < 10" "b < 10" "c < 10" "n = (a * 10 + b) * 10 + c"
        "print_u n = [digit a, digit b, digit c]"
proof (cases "n < 10")
  case True
  then show ?thesis using one print_u_digit by blast
next
  case F1: False
  show ?thesis
  proof (cases "n < 100")
    case True
    have "print_u (n div 10 * 10 + n mod 10) = print_u (n div 10) @ [digit (n mod 10)]"
      using F1 by (intro print_u_step) auto
    then show ?thesis using two [of "n div 10" "n mod 10"] True F1 print_u_digit [of "n div 10"] by auto
  next
    case False
    let ?q = "n div 10"
    have "print_u (?q * 10 + n mod 10) = print_u ?q @ [digit (n mod 10)]"
      using F1 by (intro print_u_step) auto
    moreover have "print_u (?q div 10 * 10 + ?q mod 10) = print_u (?q div 10) @ [digit (?q mod 10)]"
      using False by (intro print_u_step) auto
    ultimately show ?thesis
      using three [of "?q div 10" "?q mod 10" "n mod 10"] False assms print_u_digit [of "?q div 10"] by auto
  qed
qed

lemma pton4_digit:
  "v < 10 \<Longrightarrow> pton4_loop (digit v # rest) saw octets bs cur =
     (if saw \<and> cur = 0 \<or> cur * 10 + v > 255 \<or> \<not> saw \<and> octets \<ge> 4 then Inl UV_EINVAL
      else pton4_loop rest True (if saw then octets else Suc octets) bs (cur * 10 + v))"
  by (simp add: strchr_index_digits Let_def)

lemma pton4_octet:
  assumes "n < 256" and "octets < 4"
  shows "pton4_loop (print_u n @ rest) False octets bs 0 = pton4_loop rest True (Suc octets) bs n"
  using assms(1)
  by (cases rule: print_u_cases) (use assms in \<open>auto simp: pton4_digit simp del: pton4_loop.simps\<close>)

lemma strchr_index_dot: "strchr_index digits CHR ''.'' = None"
  by (simp add: digits_def)

lemma pton4_dot:
  "octets < 4 \<Longrightarrow> pton4_loop (CHR ''.'' # rest) True octets bs cur = pton4_loop rest False octets (bs @ [of_nat cur]) 0"
  by (simp add: strchr_index_dot)

lemma octet_less: "unat (b :: u8) < 256"
  using unat_bound [of b] by simp

text \<open>Parsing reads back what was printed.\<close>

lemma pton4_ntop4:
  assumes "length src = 4"
  shows "inet_pton4 (ntop4_text src) = Inr src"
proof -
  obtain a b c d where src: "src = [a, b, c, d]"
    using assms by (auto simp: numeral_eq_Suc length_Suc_conv)
  have "pton4_loop (print_u (unat d) @ []) False (Suc (Suc (Suc 0))) [a, b, c] 0 = Inr ([a, b, c, d], 4)"
    by (subst pton4_octet) (simp_all add: octet_less)
  then have "pton4_loop (ntop4_text src) False 0 [] 0 = Inr (src, 4)"
    unfolding ntop4_text_def src
    by (simp add: pton4_octet pton4_dot octet_less del: pton4_loop.simps)
  then show ?thesis by (simp add: inet_pton4_def)
qed

text \<open>Conversely, every text that is accepted is the printed form of the result: no other spelling.\<close>

definition dots :: "u8 list \<Rightarrow> string" where
  "dots bs = concat (map (\<lambda>b. print_u (unat b) @ ''.'') bs)"

lemma strchr_digits_value: "strchr_index digits ch = Some v \<Longrightarrow> v < 10 \<and> ch = digit v"
proof -
  assume "strchr_index digits ch = Some v"
  then have "v < length digits" "digits ! v = ch" using strchr_index_nth by blast+
  then show ?thesis
    by (simp add: digits_def xdigits_l_def less_Suc_eq_0_disj numeral_eq_Suc) auto
qed

lemma pton4_loop_text:
  assumes "pton4_loop s saw octets bs cur = Inr (out, 4)"
    and "octets = length bs + of_bool saw" and "length bs \<le> 3" and "cur \<le> 255" and "\<not> saw \<Longrightarrow> cur = 0"
  shows "length out = 4 \<and> dots bs @ (if saw then print_u cur else []) @ s @ ''.'' = dots out"
  using assms
proof (induction s saw octets bs cur rule: pton4_loop.induct)
  case (1 saw octets bs cur)
  then have "saw" by (cases saw) auto
  moreover have "unat (of_nat cur :: u8) = cur" using 1 by (intro unat_of_nat_lt) simp
  ultimately show ?case using 1 by (auto simp: dots_def)
next
  case (2 ch src saw octets bs cur)
  show ?case
  proof (cases "strchr_index digits ch")
    case (Some v)
    then have v: "v < 10" "ch = digit v" using strchr_digits_value by blast+
    let ?nw = "cur * 10 + v"
    have ok: "\<not> (saw \<and> cur = 0)" "\<not> ?nw > 255" "\<not> (\<not> saw \<and> Suc octets > 4)"
      using 2(3) Some by (auto simp: Let_def split: if_splits)
    have p: "(if saw then print_u cur else []) @ [ch] = print_u ?nw"
      using v ok(1) 2(7) print_u_step [of cur v] print_u_digit [of v] by auto
    have "pton4_loop src True (if saw then octets else Suc octets) bs ?nw = Inr (out, 4)"
      using 2(3) Some ok by (auto simp: Let_def split: if_splits)
    then have "length out = 4 \<and> dots bs @ print_u ?nw @ src @ ''.'' = dots out"
      using 2(2) [OF Some refl ok] 2(4,5) ok(2) by (cases saw) auto
    then show ?thesis using p by (metis append.assoc append_Cons append_Nil)
  next
    case None
    then have d: "ch = CHR ''.''" "saw" "octets \<noteq> 4"
      and l: "pton4_loop src False octets (bs @ [of_nat cur]) 0 = Inr (out, 4)"
      using 2(3) by (auto split: if_splits)
    have "unat (of_nat cur :: u8) = cur" using 2(6) by (intro unat_of_nat_lt) simp
    moreover have "length out = 4 \<and> dots (bs @ [of_nat cur]) @ src @ ''.'' = dots out"
      using 2(1) [OF None] d l 2(4,5) by auto
    ultimately show ?thesis using d by (simp add: dots_def)
  qed
qed

lemma ntop4_text_dots: "length src = 4 \<Longrightarrow> ntop4_text src @ ''.'' = dots src"
  by (auto simp: numeral_eq_Suc length_Suc_conv ntop4_text_def dots_def)

lemma pton4_octets_le:
  "pton4_loop s saw octets bs cur = Inr (out, n) \<Longrightarrow> octets \<le> 4 \<Longrightarrow> n \<le> 4"
  by (induction s saw octets bs cur rule: pton4_loop.induct)
     (auto simp: Let_def split: option.splits if_splits)

lemma pton4_canonical:
  assumes "inet_pton4 s = Inr bs"
  shows "length bs = 4 \<and> s = ntop4_text bs"
proof -
  obtain octets where l: "pton4_loop s False 0 [] 0 = Inr (bs, octets)" and "\<not> octets < 4"
    using assms by (auto simp: inet_pton4_def split: sum.splits if_splits)
  moreover have "octets \<le> 4" by (rule pton4_octets_le [OF l]) simp
  ultimately have "length bs = 4 \<and> s @ ''.'' = dots bs"
    using pton4_loop_text [of s False 0 "[]" 0 bs] by (simp add: dots_def)
  then show ?thesis using ntop4_text_dots [of bs] by (metis append_same_eq)
qed

subsection \<open>IPv6\<close>

text \<open>The run that is abbreviated consists of zero words.\<close>

definition zero_at :: "nat list \<Rightarrow> nat \<times> nat \<Rightarrow> bool" where
  "zero_at ws r \<longleftrightarrow> fst r + snd r \<le> length ws \<and> (\<forall>j. fst r \<le> j \<longrightarrow> j < fst r + snd r \<longrightarrow> ws ! j = 0)"

lemma better_run_cases: "better_run best cur = best \<or> better_run best cur = cur"
  by (auto simp: better_run_def split: option.splits)

lemma scan_runs_zero:
  assumes "\<And>r. best = Some r \<Longrightarrow> zero_at (ps @ ws) r"
    and "\<And>r. cur = Some r \<Longrightarrow> zero_at (ps @ ws) r \<and> fst r + snd r = length ps"
    and "scan_runs ws (length ps) best cur = Some r"
  shows "zero_at (ps @ ws) r"
  using assms
proof (induction ws arbitrary: ps best cur)
  case Nil
  then show ?case using better_run_cases [of best cur] by (metis append_Nil2 scan_runs.simps(1))
next
  case (Cons w ws)
  show ?case
  proof (cases "w = 0")
    case True
    let ?cur = "case cur of None \<Rightarrow> Some (length ps, 1) | Some (b, l) \<Rightarrow> Some (b, Suc l)"
    have c: "zero_at ((ps @ [w]) @ ws) q \<and> fst q + snd q = length (ps @ [w])" if "?cur = Some q" for q
      using that Cons.prems(2) True
      by (cases cur) (auto simp: zero_at_def nth_append less_Suc_eq)
    show ?thesis
      using Cons.IH [of best "ps @ [w]" ?cur] Cons.prems(1,3) c True by simp
  next
    case False
    have b: "better_run best cur = Some q \<Longrightarrow> zero_at ((ps @ [w]) @ ws) q" for q
      using better_run_cases [of best cur] Cons.prems(1,2) by (cases q) auto
    show ?thesis
      using Cons.IH [of "better_run best cur" "ps @ [w]" None] Cons.prems(3) b False by simp
  qed
qed

lemma best_run_zero:
  assumes "best_run ws = Some (b, l)"
  shows "2 \<le> l" and "b + l \<le> length ws" and "\<And>j. b \<le> j \<Longrightarrow> j < b + l \<Longrightarrow> ws ! j = 0"
proof -
  have s: "scan_runs ws (length []) None None = Some (b, l)" and "2 \<le> l"
    using assms by (auto simp: best_run_def split: option.splits if_splits)
  then show "2 \<le> l" by simp
  have "zero_at ([] @ ws) (b, l)" by (rule scan_runs_zero [OF _ _ s]) auto
  then show "b + l \<le> length ws" and "\<And>j. b \<le> j \<Longrightarrow> j < b + l \<Longrightarrow> ws ! j = 0"
    by (auto simp: zero_at_def)
qed

text \<open>Words joined by colons, and the bytes of words.\<close>

fun join_x :: "nat list \<Rightarrow> string" where
  "join_x [] = []"
| "join_x [w] = print_x w"
| "join_x (w # v # ws) = print_x w @ '':'' @ join_x (v # ws)"

definition word_bytes :: "nat \<Rightarrow> u8 list" where
  "word_bytes w = [of_nat (w div 256), of_nat w]"

definition words_bytes :: "nat list \<Rightarrow> u8 list" where
  "words_bytes ws = concat (map word_bytes ws)"

lemma length_words_bytes [simp]: "length (words_bytes ws) = 2 * length ws"
  by (induction ws) (simp_all add: words_bytes_def word_bytes_def)

lemma words_bytes_append [simp]: "words_bytes (us @ vs) = words_bytes us @ words_bytes vs"
  by (simp add: words_bytes_def)

lemma print_x_step: "print_x n = (if n < 16 then [digit n] else print_x (n div 16) @ [digit (n mod 16)])"
  unfolding print_x_def by (subst print_nat.simps) simp

lemma print_x_length: "n < 16 ^ Suc k \<Longrightarrow> 0 < length (print_x n) \<and> length (print_x n) \<le> Suc k"
proof (induction k arbitrary: n)
  case 0
  then show ?case by (simp add: print_x_step [of n])
next
  case (Suc k)
  then have "n div 16 < 16 ^ Suc k" by (simp add: less_mult_imp_div_less)
  then show ?case using Suc.IH [of "n div 16"] by (subst (1 2) print_x_step) auto
qed

lemma pton6_digits:
  "length (print_x w) \<le> 4 \<Longrightarrow>
   pton6_loop (print_x w @ rest) tp cp ct 0 0 = pton6_loop rest tp cp ct (length (print_x w)) w"
proof (induction w arbitrary: rest rule: less_induct)
  case (less w)
  show ?case
  proof (cases "w < 16")
    case True
    then show ?thesis by (simp add: print_x_step [of w] xdigit_value_nth)
  next
    case False
    then have p: "print_x w = print_x (w div 16) @ [digit (w mod 16)]" by (simp add: print_x_step [of w])
    have "pton6_loop (print_x (w div 16) @ digit (w mod 16) # rest) tp cp ct 0 0 =
          pton6_loop (digit (w mod 16) # rest) tp cp ct (length (print_x (w div 16))) (w div 16)"
      using less.prems False p by (intro less.IH) auto
    then show ?thesis using less.prems p by (simp add: xdigit_value_nth)
  qed
qed

lemma xdigit_colon [simp]: "xdigit_value CHR '':'' = None" "xdigit_value CHR ''.'' = None"
  by (simp_all add: xdigit_value_def xdigits_l_def xdigits_u_def)

lemma pton6_colon:
  assumes "0 < seen" and "rest \<noteq> []" and "length tp \<le> 14"
  shows "pton6_loop (CHR '':'' # rest) tp cp ct seen val = pton6_loop rest (tp @ word_bytes val) cp rest 0 0"
  using assms by (simp add: word_bytes_def)

lemma pton6_double:
  "pton6_loop (CHR '':'' # rest) tp None ct 0 val = pton6_loop rest tp (Some (length tp)) rest 0 val"
  by simp

lemma print_x_word: "w < 65536 \<Longrightarrow> 0 < length (print_x w) \<and> length (print_x w) \<le> 4"
  using print_x_length [of w 3] by simp

lemma join_x_not_Nil: "ws \<noteq> [] \<Longrightarrow> \<forall>w \<in> set ws. w < 65536 \<Longrightarrow> join_x ws \<noteq> []"
  by (induction ws rule: join_x.induct) (auto dest: print_x_word)

text \<open>Reading words joined by colons leaves the last one in \<^verbatim>\<open>val\<close>.\<close>

lemma pton6_join:
  assumes "ws \<noteq> []" and "\<forall>w \<in> set ws. w < 65536" and "length tp + 2 * length ws \<le> 16"
  shows "\<exists>ct'. pton6_loop (join_x ws @ rest) tp cp ct 0 0 =
           pton6_loop rest (tp @ words_bytes (butlast ws)) cp ct' (length (print_x (last ws))) (last ws)"
  using assms
proof (induction ws arbitrary: tp ct rule: join_x.induct)
  case (2 w)
  then show ?case using print_x_word [of w] pton6_digits [of w rest tp cp ct] by (auto simp: words_bytes_def)
next
  case (3 w v ws)
  let ?r = "join_x (v # ws) @ rest"
  have w: "0 < length (print_x w)" "length (print_x w) \<le> 4" using 3(3) print_x_word by auto
  have "?r \<noteq> []" using 3(3) join_x_not_Nil [of "v # ws"] by auto
  then have "pton6_loop (join_x (w # v # ws) @ rest) tp cp ct 0 0 = pton6_loop ?r (tp @ word_bytes w) cp ?r 0 0"
    using pton6_digits [OF w(2), of "CHR '':'' # ?r"] pton6_colon [OF w(1), of ?r tp] 3(4) by simp
  moreover obtain ct' where "pton6_loop ?r (tp @ word_bytes w) cp ?r 0 0 =
      pton6_loop rest ((tp @ word_bytes w) @ words_bytes (butlast (v # ws))) cp ct'
        (length (print_x (last (v # ws)))) (last (v # ws))"
    using 3(1) [of "tp @ word_bytes w" ?r] 3(3,4) by (auto simp: word_bytes_def)
  ultimately show ?case by (auto simp: words_bytes_def)
qed simp


subsection \<open>The shift by hand\<close>

lemma shift_tail_step:
  fixes A B1 B2 :: "u8 list"
  assumes "length A + length B1 + Suc k' + length B2 = 15"
  shows "((A @ B1 @ [x] @ replicate (Suc k') 0 @ B2)[length A + length B1 + Suc k' := x])
           [length A + length B1 := 0] = A @ B1 @ replicate (Suc k') 0 @ x # B2"
proof -
  have "A @ B1 @ [x] @ replicate (Suc k') 0 @ B2 = (A @ B1 @ x # replicate k' 0) @ 0 # B2"
    by (simp add: replicate_append_same flip: replicate_Suc)
  then have "(A @ B1 @ [x] @ replicate (Suc k') 0 @ B2)[length A + length B1 + Suc k' := x] =
             (A @ B1) @ x # (replicate k' 0 @ x # B2)"
    by (simp add: list_update_append)
  then show ?thesis by (simp add: list_update_append)
qed

lemma shift_tail_inv:
  assumes "length A + length B + Suc k' = 16" and "j \<le> length B"
  shows "shift_tail (A @ B @ replicate (Suc k') 0) (length A) (length B) j =
         A @ take (length B - j) B @ replicate (Suc k') 0 @ drop (length B - j) B"
  using assms(2)
proof (induction j)
  case (Suc j)
  let ?i = "length B - Suc j"
  let ?t = "A @ take ?i B @ [B ! ?i] @ replicate (Suc k') 0 @ drop (Suc ?i) B"
  have i: "length B - j = Suc ?i" "?i < length B" using Suc.prems by auto
  have "shift_tail (A @ B @ replicate (Suc k') 0) (length A) (length B) j = ?t"
    using Suc i by (simp add: take_Suc_conv_app_nth)
  moreover have "?t ! (length A + ?i) = B ! ?i" using i by (simp add: nth_append del: Nat.add_diff_assoc diff_Suc_Suc)
  moreover have "16 - Suc j = length A + length (take ?i B) + Suc k'" using assms(1) i by simp
  moreover have "length A + length B - Suc j = length A + length (take ?i B)" "length (take ?i B) = ?i" using i by auto
  moreover have "(?t[length A + length (take ?i B) + Suc k' := B ! ?i])[length A + length (take ?i B) := 0] =
        A @ take ?i B @ replicate (Suc k') 0 @ B ! ?i # drop (Suc ?i) B"
    using assms(1) i by (intro shift_tail_step) simp
  ultimately show ?case
    using i by (simp only: shift_tail.simps Let_def Cons_nth_drop_Suc)
qed simp

lemma shift_tail_eq:
  assumes "length A + length B < 16"
  shows "shift_tail ((A @ B) @ replicate (16 - length (A @ B)) 0) (length A) (length B) (length B) =
         A @ replicate (16 - length (A @ B)) 0 @ B"
proof -
  obtain k' where "16 - length (A @ B) = Suc k'" using assms by (metis Suc_diff_Suc length_append)
  then show ?thesis using shift_tail_inv [of A B k' "length B"] assms by simp
qed


subsection \<open>The text of an IPv6 address\<close>

definition colon_words :: "nat list \<Rightarrow> string" where
  "colon_words ws = concat (map (\<lambda>w. CHR '':'' # print_x w) ws)"

lemma colon_words_Nil [simp]: "colon_words [] = []"
  by (simp add: colon_words_def)

lemma colon_words_Cons [simp]: "colon_words (w # ws) = '':'' @ print_x w @ colon_words ws"
  by (simp add: colon_words_def)

lemma join_x_Cons: "join_x (w # ws) = print_x w @ colon_words ws"
  by (induction ws arbitrary: w) simp_all

lemma colon_join: "ws \<noteq> [] \<Longrightarrow> colon_words ws = '':'' @ join_x ws"
  by (cases ws) (simp_all add: join_x_Cons)

abbreviation in_run :: "zero_run \<Rightarrow> nat \<Rightarrow> bool" where
  "in_run best i \<equiv> (case best of None \<Rightarrow> False | Some (b, l) \<Rightarrow> b \<le> i \<and> i < b + l)"

lemma ntop6_word:
  assumes "\<not> in_run best i" and "\<not> encapsulates_v4 ws best i" and "i < 8"
  shows "ntop6_loop src ws best i tp =
         ntop6_loop src ws best (Suc i) ((if i \<noteq> 0 then tp @ '':'' else tp) @ print_x (ws ! i))"
proof -
  have "\<not> 8 \<le> i" using assms(3) by simp
  then show ?thesis by (subst ntop6_loop.simps) (simp only: assms Let_def if_False)
qed

text \<open>Outside the run and without an encapsulated address the loop prints one word after the other.\<close>

lemma ntop6_words:
  assumes "\<forall>j. i \<le> j \<and> j < i + n \<longrightarrow> \<not> in_run best j \<and> \<not> encapsulates_v4 ws best j"
    and "0 < i" and "i + n \<le> 8" and "length ws = 8"
  shows "ntop6_loop src ws best i tp = ntop6_loop src ws best (i + n) (tp @ colon_words (take n (drop i ws)))"
  using assms(1-3)
proof (induction n arbitrary: i tp)
  case (Suc n)
  have i: "\<not> in_run best i" "\<not> encapsulates_v4 ws best i" using Suc.prems(1) by auto
  have d: "drop i ws = ws ! i # drop (Suc i) ws"
    using Suc.prems(3) assms(4) by (simp add: Cons_nth_drop_Suc)
  have "ntop6_loop src ws best i tp = ntop6_loop src ws best (Suc i) (tp @ '':'' @ print_x (ws ! i))"
    using ntop6_word [OF i] Suc.prems(2,3) by simp
  also have "\<dots> = ntop6_loop src ws best (Suc i + n)
                   ((tp @ '':'' @ print_x (ws ! i)) @ colon_words (take n (drop (Suc i) ws)))"
    by (rule Suc.IH) (use Suc.prems in auto)
  finally show ?case by (simp add: d)
qed simp

lemma ntop6_run:
  assumes "b < i" and "i \<le> b + l" and "b + l \<le> 8"
  shows "ntop6_loop src ws (Some (b, l)) i tp = ntop6_loop src ws (Some (b, l)) (b + l) tp"
  using assms
proof (induction "b + l - i" arbitrary: i)
  case (Suc k)
  have "ntop6_loop src ws (Some (b, l)) i tp = ntop6_loop src ws (Some (b, l)) (Suc i) tp"
  proof -
    have "i < b + l" "i < 8" "i \<noteq> b" using Suc.prems Suc.hyps(2) by auto
    then show ?thesis using Suc.prems(1) by (subst ntop6_loop.simps) simp
  qed
  also have "\<dots> = ntop6_loop src ws (Some (b, l)) (b + l) tp"
    by (rule Suc.hyps(1)) (use Suc.hyps(2) Suc.prems in auto)
  finally show ?case .
qed simp

lemma ntop6_run_start:
  assumes "0 < l" and "b + l \<le> 8"
  shows "ntop6_loop src ws (Some (b, l)) b tp = ntop6_loop src ws (Some (b, l)) (b + l) (tp @ '':'')"
proof -
  have "ntop6_loop src ws (Some (b, l)) b tp = ntop6_loop src ws (Some (b, l)) (Suc b) (tp @ '':'')"
    using assms by (subst ntop6_loop.simps) simp
  then show ?thesis using ntop6_run [of b "Suc b" l] assms by simp
qed

lemma ntop6_end [simp]: "ntop6_loop src ws best 8 tp = Inr tp"
  by (subst ntop6_loop.simps) simp

lemma ntop6_first:
  assumes "\<not> in_run best 0"
  shows "ntop6_loop src ws best 0 [] = ntop6_loop src ws best 1 (print_x (ws ! 0))"
  using assms by (subst ntop6_loop.simps) (simp add: encapsulates_v4_def Let_def)

text \<open>The words before the run.\<close>

lemma ntop6_prefix:
  assumes "length ws = 8" and "b \<le> 8" and "\<forall>j < b. \<not> in_run best j \<and> \<not> encapsulates_v4 ws best j"
  shows "ntop6_loop src ws best 0 [] = ntop6_loop src ws best b (join_x (take b ws))"
proof (cases b)
  case (Suc k)
  obtain w us where ws: "ws = w # us" using assms(1) by (cases ws) auto
  have "ntop6_loop src ws best 0 [] = ntop6_loop src ws best 1 (print_x w)"
    using ntop6_first [of best src ws] assms(3) Suc ws by auto
  also have "\<dots> = ntop6_loop src ws best (1 + k) (print_x w @ colon_words (take k (drop 1 ws)))"
    by (rule ntop6_words) (use assms Suc in auto)
  finally show ?thesis using Suc ws by (simp add: join_x_Cons)
qed simp


definition has_v4 :: "nat list \<Rightarrow> bool" where
  "has_v4 ws \<longleftrightarrow> best_run ws = Some (0, 6) \<or> best_run ws = Some (0, 5) \<and> ws ! 5 = 0xffff"

definition ntop6_text :: "u8 list \<Rightarrow> string" where
  "ntop6_text src =
     (let ws = in6_words src in
      case best_run ws of
        None \<Rightarrow> join_x ws
      | Some (b, l) \<Rightarrow>
          if has_v4 ws then ''::'' @ (if l = 6 then [] else ''ffff:'') @ ntop4_text (drop 12 src)
          else join_x (take b ws) @ ''::'' @ join_x (drop (b + l) ws))"

lemma ntop6_loop_text:
  assumes "length ws = 8"
  shows "best_run ws = None \<Longrightarrow> ntop6_loop src ws (best_run ws) 0 [] = Inr (join_x ws)"
    and "best_run ws = Some (b, l) \<Longrightarrow> \<not> has_v4 ws \<Longrightarrow>
         ntop6_loop src ws (best_run ws) 0 [] = Inr (join_x (take b ws) @ '':'' @ colon_words (drop (b + l) ws))"
proof -
  assume "best_run ws = None"
  then show "ntop6_loop src ws (best_run ws) 0 [] = Inr (join_x ws)"
    using ntop6_prefix [OF assms, of 8 None src] assms by (simp add: encapsulates_v4_def)
next
  assume r: "best_run ws = Some (b, l)" and "\<not> has_v4 ws"
  have l: "2 \<le> l" "b + l \<le> 8" using best_run_zero(1,2) [OF r] assms by auto
  let ?r = "Some (b, l)"
  have e: "\<not> encapsulates_v4 ws ?r j" if "b + l \<le> j" for j
    using that \<open>\<not> has_v4 ws\<close> r by (auto simp: encapsulates_v4_def has_v4_def)
  have "ntop6_loop src ws ?r 0 [] = ntop6_loop src ws ?r b (join_x (take b ws))"
    by (rule ntop6_prefix) (use assms l in \<open>auto simp: encapsulates_v4_def\<close>)
  also have "\<dots> = ntop6_loop src ws ?r (b + l) (join_x (take b ws) @ '':'')"
    by (rule ntop6_run_start) (use l in auto)
  also have "\<dots> = ntop6_loop src ws ?r (b + l + (8 - (b + l)))
                   ((join_x (take b ws) @ '':'') @ colon_words (take (8 - (b + l)) (drop (b + l) ws)))"
    by (rule ntop6_words) (use assms l e in auto)
  finally show "ntop6_loop src ws (best_run ws) 0 [] =
                Inr (join_x (take b ws) @ '':'' @ colon_words (drop (b + l) ws))"
    using l assms r by simp
qed

lemma print_u_length: "n < 256 \<Longrightarrow> 1 \<le> length (print_u n) \<and> length (print_u n) \<le> 3"
  by (erule print_u_cases) simp_all

lemma ntop4_text_length: "7 \<le> length (ntop4_text src) \<and> length (ntop4_text src) \<le> 15"
  unfolding ntop4_text_def
  using print_u_length [OF octet_less [of "src ! 0"]] print_u_length [OF octet_less [of "src ! 1"]]
    print_u_length [OF octet_less [of "src ! 2"]] print_u_length [OF octet_less [of "src ! 3"]]
  by simp


lemma inet_ntop4_eq:
  "c_string (ntop4_text src) \<Longrightarrow>
   inet_ntop4 src sz = (if length (ntop4_text src) < sz then (None, ntop4_text src @ [NUL]) else (Some UV_ENOSPC, []))"
  using ntop4_text_length [of src] by (auto simp: inet_ntop4_def Let_def strscpy_eq)

lemma digit_not_NUL: "v < 16 \<Longrightarrow> digit v \<noteq> NUL"
  by (simp add: xdigits_l_def less_Suc_eq_0_disj numeral_eq_Suc) auto

lemma c_string_print: "base \<in> {10, 16} \<Longrightarrow> c_string (print_nat base n)"
proof (induction n rule: less_induct)
  case (less n)
  show ?case
  proof (cases "n < base")
    case True
    then show ?thesis using digit_not_NUL [of n] less.prems by (subst print_nat.simps) (auto simp: c_string_def)
  next
    case False
    then have "n div base < n" "n mod base < 16" using less.prems by auto
    then show ?thesis
      using less digit_not_NUL [of "n mod base"] False by (subst print_nat.simps) (auto simp: c_string_def)
  qed
qed

lemma c_string_append [simp]: "c_string (s @ t) \<longleftrightarrow> c_string s \<and> c_string t"
  by (auto simp: c_string_def)

lemma c_string_Cons [simp]: "c_string (c # t) \<longleftrightarrow> c \<noteq> NUL \<and> c_string t"
  by (auto simp: c_string_def)

lemma c_string_Nil [simp]: "c_string []"
  by (simp add: c_string_def)

lemma c_string_print_ux [simp]: "c_string (print_u n)" "c_string (print_x n)"
  by (simp_all add: print_u_def print_x_def c_string_print)

lemma c_string_ntop4 [simp]: "c_string (ntop4_text src)"
  by (simp add: ntop4_text_def)

lemma c_string_join [simp]: "c_string (join_x ws)"
  by (induction ws rule: join_x.induct) simp_all

text \<open>The two forms with an encapsulated IPv4 address.\<close>

lemma ntop6_at_v4:
  assumes "encapsulates_v4 ws best 6" and "\<not> in_run best 6" and "length tp < 20"
  shows "ntop6_loop src ws best 6 tp = Inr (tp @ '':'' @ ntop4_text (drop 12 src))"
  by (subst ntop6_loop.simps)
     (use assms ntop4_text_length [of "drop 12 src"] in
      \<open>simp only: Let_def if_True if_False inet_ntop4_eq c_string_ntop4 UV__INET6_ADDRSTRLEN_def, auto\<close>)

lemma ntop6_loop_v4:
  assumes "length ws = 8" and "best_run ws = Some (b, l)" and "has_v4 ws"
  shows "ntop6_loop src ws (best_run ws) 0 [] =
         Inr (''::'' @ (if l = 6 then [] else ''ffff:'') @ ntop4_text (drop 12 src))"
proof -
  let ?r = "Some (0, l)"
  have b: "b = 0" "l = 6 \<or> l = 5 \<and> ws ! 5 = 0xffff" using assms by (auto simp: has_v4_def)
  have e: "encapsulates_v4 ws ?r 6" "\<not> in_run ?r 6" using b by (auto simp: encapsulates_v4_def)
  have s: "ntop6_loop src ws ?r 0 [] = ntop6_loop src ws ?r l '':''"
    using ntop6_run_start [of l 0 src ws "[]"] b by auto
  show ?thesis
  proof (cases "l = 6")
    case True
    then show ?thesis using s ntop6_at_v4 [OF e, of "'':''" src] assms(2) b by simp
  next
    case False
    then have l: "l = 5" "ws ! 5 = 0xffff" using b by auto
    have "\<not> in_run ?r 5" "\<not> encapsulates_v4 ws ?r 5" using l by (auto simp: encapsulates_v4_def)
    from ntop6_word [OF this, of src "'':''"]
    have "ntop6_loop src ws ?r 5 '':'' = ntop6_loop src ws ?r 6 (''::'' @ print_x (ws ! 5))" by simp
    moreover have "print_x (ws ! 5) = ''ffff''"
      unfolding l(2)
      by (simp add: print_x_step [of 65535] print_x_step [of 4095] print_x_step [of 255] print_x_step [of 15] xdigits_l_def)
    ultimately show ?thesis using s l ntop6_at_v4 [OF e, of "''::ffff''" src] assms(2) b by simp
  qed
qed

lemma length_in6_words [simp]: "length (in6_words src) = 8"
  by (simp add: in6_words_def)

lemma c_string_ntop6 [simp]: "c_string (ntop6_text src)"
  by (simp add: ntop6_text_def Let_def split: option.splits prod.splits)

lemma inet_ntop6_eq:
  "inet_ntop6 src sz =
     (if length (ntop6_text src) < sz then (None, ntop6_text src @ [NUL])
      else if sz = 0 then (None, [])
      else (Some UV_ENOSPC, take (sz - 1) (ntop6_text src) @ [NUL]))"
proof -
  let ?ws = "in6_words src"
  obtain tp where tp: "ntop6_loop src ?ws (best_run ?ws) 0 [] = Inr tp" and
    t: "(case best_run ?ws of Some (b, l) \<Rightarrow> if b + l = 8 then tp @ '':'' else tp | None \<Rightarrow> tp) = ntop6_text src"
  proof (cases "best_run ?ws")
    case None
    then show ?thesis using that ntop6_loop_text(1) [of ?ws src] by (simp add: ntop6_text_def Let_def)
  next
    case (Some r)
    obtain b l where r: "best_run ?ws = Some (b, l)" using Some by (cases r) auto
    have bl: "b + l \<le> 8" using best_run_zero(2) [OF r] by simp
    show ?thesis
    proof (cases "has_v4 ?ws")
      case True
      then have "b + l \<noteq> 8" using r by (auto simp: has_v4_def)
      then show ?thesis using that ntop6_loop_v4 [OF _ r True, of src] True r by (simp add: ntop6_text_def Let_def)
    next
      case False
      then show ?thesis
        using that ntop6_loop_text(2) [OF _ r False, of src] r bl colon_join [of "drop (b + l) ?ws"]
        by (cases "b + l = 8") (auto simp: ntop6_text_def Let_def)
    qed
  qed
  show ?thesis by (simp add: inet_ntop6_def Let_def tp t strscpy_eq)
qed


subsection \<open>Length of the text\<close>

lemma join_x_length:
  "\<forall>w \<in> set ws. w < 65536 \<Longrightarrow> ws \<noteq> [] \<Longrightarrow> length (join_x ws) < 5 * length ws"
  by (induction ws rule: join_x.induct) (use print_x_word in \<open>fastforce+\<close>)

lemma join_x_length_le: "\<forall>w \<in> set ws. w < 65536 \<Longrightarrow> length (join_x ws) \<le> 5 * length ws"
  using join_x_length by (cases "ws = []") fastforce+

lemma in6_words_bound: "\<forall>w \<in> set (in6_words src). w < 65536"
proof
  fix w assume "w \<in> set (in6_words src)"
  then obtain i where "w = unat (src ! (2 * i)) * 256 + unat (src ! (2 * i + 1))" by (auto simp: in6_words_def)
  then show "w < 65536" using octet_less [of "src ! (2 * i)"] octet_less [of "src ! (2 * i + 1)"] by linarith
qed

text \<open>The text and its terminator fit in the local buffer \<^verbatim>\<open>tmp\<close> of \<^verbatim>\<open>UV__INET6_ADDRSTRLEN\<close> bytes.\<close>

lemma ntop6_text_length: "length (ntop6_text src) < UV__INET6_ADDRSTRLEN"
proof (cases "best_run (in6_words src)")
  case None
  then show ?thesis
    using join_x_length_le [OF in6_words_bound, of src]
    by (simp add: ntop6_text_def Let_def UV__INET6_ADDRSTRLEN_def)
next
  case (Some r)
  obtain b l where r: "best_run (in6_words src) = Some (b, l)" using Some by (cases r) auto
  have bl: "2 \<le> l" "b + l \<le> 8" using best_run_zero(1,2) [OF r] by auto
  have "length (join_x (take b (in6_words src))) \<le> 5 * b"
    using join_x_length_le [of "take b (in6_words src)"] in6_words_bound [of src] bl by (force dest: in_set_takeD)
  moreover have "length (join_x (drop (b + l) (in6_words src))) \<le> 5 * (8 - (b + l))"
    using join_x_length_le [of "drop (b + l) (in6_words src)"] in6_words_bound [of src] by (force dest: in_set_dropD)
  ultimately have "length (join_x (take b (in6_words src))) + length (join_x (drop (b + l) (in6_words src))) \<le> 30"
    using bl by linarith
  then show ?thesis
    using ntop4_text_length [of "drop 12 src"] bl
    by (cases "has_v4 (in6_words src)") (auto simp: ntop6_text_def Let_def r UV__INET6_ADDRSTRLEN_def)
qed

subsection \<open>Reading back an IPv6 address\<close>

lemma words_bytes_in6:
  assumes "length src = 16"
  shows "words_bytes (in6_words src) = src"
proof -
  have w: "word_bytes (unat a * 256 + unat b) = [a, b]" for a b :: u8
  proof -
    have "(256 :: u8) = 0" by simp
    then have "a * 256 = 0" by (metis mult_zero_right)
    then show ?thesis using octet_less [of b] by (simp add: word_bytes_def)
  qed
  have "in6_words src = map (\<lambda>i. unat (src ! (2 * i)) * 256 + unat (src ! (2 * i + 1))) [0, 1, 2, 3, 4, 5, 6, 7]"
    by (simp add: in6_words_def upt_conv_Cons)
  moreover obtain a0 a1 a2 a3 a4 a5 a6 a7 b0 b1 b2 b3 b4 b5 b6 b7 where
    "src = [a0, a1, a2, a3, a4, a5, a6, a7, b0, b1, b2, b3, b4, b5, b6, b7]"
    using assms by (auto simp: numeral_eq_Suc length_Suc_conv)
  ultimately show ?thesis using w by (simp add: words_bytes_def)
qed

lemma words_bytes_zero: "\<forall>w \<in> set ws. w = 0 \<Longrightarrow> words_bytes ws = replicate (2 * length ws) 0"
  by (induction ws) (auto simp: words_bytes_def word_bytes_def)

text \<open>What the parser does after its loop.\<close>

definition pton6_finish :: "u8 list \<Rightarrow> nat option \<Rightarrow> nat \<Rightarrow> nat \<Rightarrow> uv_error + u8 list" where
  "pton6_finish tp colonp seen val =
     (if seen > 0 \<and> length tp + 2 > 16 then Inl UV_EINVAL
      else
        let tp1 = (if seen > 0 then tp @ word_bytes val else tp) in
        case colonp of
          None \<Rightarrow> if length tp1 \<noteq> 16 then Inl UV_EINVAL else Inr tp1
        | Some c \<Rightarrow>
            if length tp1 = 16 then Inl UV_EINVAL
            else let n = length tp1 - c in Inr (shift_tail (tp1 @ replicate (16 - length tp1) 0) c n n))"

lemma inet_pton6_finish:
  assumes "src \<noteq> [] \<and> hd src = CHR '':'' \<longrightarrow> c_at src 1 = CHR '':''"
  shows "inet_pton6 src =
     (let start = (if src \<noteq> [] \<and> hd src = CHR '':'' then tl src else src) in
      case pton6_loop start [] None start 0 0 of
        Inl e \<Rightarrow> Inl e
      | Inr (tp, colonp, seen, val) \<Rightarrow> pton6_finish tp colonp seen val)"
proof -
  have "\<not> (src \<noteq> [] \<and> hd src = CHR '':'' \<and> c_at src 1 \<noteq> CHR '':'')" using assms by auto
  then show ?thesis by (simp only: inet_pton6_def pton6_finish_def word_bytes_def if_False)
qed

lemma inet_pton6_run:
  assumes "src \<noteq> [] \<and> hd src = CHR '':'' \<longrightarrow> c_at src 1 = CHR '':''"
    and "start = (if src \<noteq> [] \<and> hd src = CHR '':'' then tl src else src)"
    and "pton6_loop start [] None start 0 0 = Inr (tp, colonp, seen, val)"
  shows "inet_pton6 src = pton6_finish tp colonp seen val"
  by (simp only: inet_pton6_finish [OF assms(1)] assms(2) [symmetric] Let_def assms(3) sum.case prod.case)

lemma pton6_finish_tail:
  assumes "length us + length vs < 16" and "val < 65536 \<or> seen = 0"
    and "vs = (if 0 < seen then ts @ word_bytes val else ts)"
  shows "pton6_finish (us @ ts) (Some (length us)) seen val =
         Inr (us @ replicate (16 - length (us @ vs)) 0 @ vs)"
proof -
  have tp: "(if seen > 0 then (us @ ts) @ word_bytes val else us @ ts) = us @ vs" using assms(3) by simp
  have l: "\<not> (seen > 0 \<and> length (us @ ts) + 2 > 16)" "length (us @ vs) \<noteq> 16" "length (us @ vs) - length us = length vs"
    using assms(1,3) by (auto simp: word_bytes_def)
  show ?thesis
    using shift_tail_eq [OF assms(1)] by (simp only: pton6_finish_def Let_def l tp if_False option.case)
qed


text \<open>A group of words, possibly empty, at the end of the text.\<close>

lemma pton6_join_end:
  assumes "\<forall>w \<in> set ws. w < 65536" and "length us + 2 * length ws < 16"
  shows "\<exists>ts seen val. pton6_loop (join_x ws) us (Some (length us)) ct 0 0 =
           Inr (us @ ts, Some (length us), seen, val) \<and>
         words_bytes ws = (if 0 < seen then ts @ word_bytes val else ts) \<and> (val < 65536 \<or> seen = 0)"
proof (cases "ws = []")
  case True
  then show ?thesis by (auto simp: words_bytes_def)
next
  case False
  obtain ct' where "pton6_loop (join_x ws @ []) us (Some (length us)) ct 0 0 =
      pton6_loop [] (us @ words_bytes (butlast ws)) (Some (length us)) ct' (length (print_x (last ws))) (last ws)"
    using pton6_join [OF False assms(1), of us "[]"] assms(2) by auto
  moreover have "words_bytes ws = words_bytes (butlast ws) @ word_bytes (last ws)"
    using words_bytes_append [of "butlast ws" "[last ws]"] False by (simp add: words_bytes_def)
  moreover have "last ws < 65536" "0 < length (print_x (last ws))" using assms(1) False print_x_word by auto
  ultimately show ?thesis by auto
qed

lemma join_x_first: "ws \<noteq> [] \<Longrightarrow> \<forall>w \<in> set ws. w < 65536 \<Longrightarrow> \<exists>v s. v < 16 \<and> join_x ws = digit v # s"
proof -
  have p: "\<exists>v s. v < 16 \<and> print_x w = digit v # s" for w
  proof (induction w rule: less_induct)
    case (less w)
    show ?case
    proof (cases "w < 16")
      case False
      then have "w div 16 < w" by simp
      then obtain v s where "v < 16" "print_x (w div 16) = digit v # s" using less by blast
      then show ?thesis using False by (simp add: print_x_step [of w]) blast
    qed (simp add: print_x_step [of w], blast)
  qed
  assume "ws \<noteq> []"
  then show ?thesis using p [of "hd ws"] by (cases ws) (auto simp: join_x_Cons)
qed

lemma digit_not_colon: "v < 16 \<Longrightarrow> digit v \<noteq> CHR '':''"
  using xdigit_value_nth [of v] by (metis option.distinct(1) xdigit_colon(1))

text \<open>The three forms of the text.\<close>

lemma pton6_full:
  assumes "\<forall>w \<in> set ws. w < 65536" and "length ws = 8"
  shows "inet_pton6 (join_x ws) = Inr (words_bytes ws)"
proof -
  have ne: "ws \<noteq> []" using assms(2) by auto
  obtain v s where "v < 16" and j: "join_x ws = digit v # s" using join_x_first [OF ne assms(1)] by blast
  then have nc: "hd (join_x ws) \<noteq> CHR '':''" using digit_not_colon by simp
  obtain ct' where "pton6_loop (join_x ws @ []) [] None (join_x ws) 0 0 =
      pton6_loop [] ([] @ words_bytes (butlast ws)) None ct' (length (print_x (last ws))) (last ws)"
    using pton6_join [OF ne assms(1), of "[]" "[]"] assms(2) by fastforce
  moreover have "words_bytes ws = words_bytes (butlast ws) @ word_bytes (last ws)"
    using words_bytes_append [of "butlast ws" "[last ws]"] ne by (simp add: words_bytes_def)
  moreover have "0 < length (print_x (last ws))" using assms(1) ne print_x_word by auto
  ultimately show ?thesis
    using nc assms(2) by (simp add: inet_pton6_finish pton6_finish_def Let_def word_bytes_def)
qed

lemma pton6_short:
  assumes "\<forall>w \<in> set us. w < 65536" and "\<forall>w \<in> set vs. w < 65536" and "length us + length vs < 8"
  shows "inet_pton6 (join_x us @ ''::'' @ join_x vs) =
         Inr (words_bytes us @ replicate (16 - 2 * length us - 2 * length vs) 0 @ words_bytes vs)"
proof -
  let ?t = "join_x us @ ''::'' @ join_x vs"
  let ?start = "if ?t \<noteq> [] \<and> hd ?t = CHR '':'' then tl ?t else ?t"
  have lead: "?t \<noteq> [] \<and> hd ?t = CHR '':'' \<longleftrightarrow> us = []"
    using join_x_first [of us] assms(1) digit_not_colon by (cases "us = []") auto
  have "\<exists>ct. pton6_loop ?start [] None ?start 0 0 =
             pton6_loop (join_x vs) (words_bytes us) (Some (length (words_bytes us))) ct 0 0"
  proof (cases "us = []")
    case True
    then show ?thesis by (auto simp: words_bytes_def)
  next
    case False
    obtain ct' where "pton6_loop ?t [] None ?t 0 0 =
        pton6_loop (''::'' @ join_x vs) ([] @ words_bytes (butlast us)) None ct' (length (print_x (last us))) (last us)"
      using pton6_join [OF False assms(1), of "[]" "''::'' @ join_x vs" None ?t] assms(3) by auto
    moreover have "words_bytes us = words_bytes (butlast us) @ word_bytes (last us)"
      using words_bytes_append [of "butlast us" "[last us]"] False by (simp add: words_bytes_def)
    moreover have "0 < length (print_x (last us))" using assms(1) False print_x_word by auto
    moreover have "length (words_bytes (butlast us)) \<le> 14" using assms(3) by simp
    ultimately show ?thesis
      using False lead by (simp add: pton6_colon pton6_double del: pton6_loop.simps) blast
  qed
  then obtain ct where "pton6_loop ?start [] None ?start 0 0 =
      pton6_loop (join_x vs) (words_bytes us) (Some (length (words_bytes us))) ct 0 0" ..
  moreover obtain ts seen val where
    "pton6_loop (join_x vs) (words_bytes us) (Some (length (words_bytes us))) ct 0 0 =
       Inr (words_bytes us @ ts, Some (length (words_bytes us)), seen, val)"
    and v: "words_bytes vs = (if 0 < seen then ts @ word_bytes val else ts)" "val < 65536 \<or> seen = 0"
    using pton6_join_end [OF assms(2), of "words_bytes us" ct] assms(3) by auto
  moreover have "?t \<noteq> [] \<and> hd ?t = CHR '':'' \<longrightarrow> c_at ?t 1 = CHR '':''"
    unfolding lead by (simp add: c_at_def)
  ultimately have "inet_pton6 ?t = pton6_finish (words_bytes us @ ts) (Some (length (words_bytes us))) seen val"
    by (intro inet_pton6_run [OF _ refl]) simp_all
  then show ?thesis using pton6_finish_tail [OF _ v(2,1), of "words_bytes us"] assms(3) by simp
qed

text \<open>An IPv4 address at the end: the digits of its first octet were read as hexadecimal ones.\<close>

lemma pton6_v4:
  assumes "length src = 4" and "length tp \<le> 12"
  shows "\<exists>val. pton6_loop (ntop4_text src) tp cp (ntop4_text src) 0 0 = Inr (tp @ src, cp, 0, val)"
proof -
  obtain rest where t: "ntop4_text src = print_u (unat (src ! 0)) @ CHR ''.'' # rest"
    by (simp add: ntop4_text_def)
  have "\<exists>seen val. pton6_loop (print_u n @ CHR ''.'' # rest) tp cp ct 0 0 =
          pton6_loop (CHR ''.'' # rest) tp cp ct seen val" if "n < 256" for n ct
    using that by (cases rule: print_u_cases) (auto simp: xdigit_value_nth simp del: pton6_loop.simps(2)
      simp add: pton6_loop.simps(2) [of "digit v" for v])
  from this [OF octet_less, of "src ! 0" "ntop4_text src"] show ?thesis
    using assms pton4_ntop4 [OF assms(1)] by (auto simp: t [symmetric] simp flip: t)
qed

lemma word_65535: "(65535 :: u8) = 255"
  by simp

lemma pton6_short_v4:
  assumes "length src = 4"
  shows "inet_pton6 (''::'' @ ntop4_text src) = Inr (replicate 12 0 @ src)"
    and "inet_pton6 (''::ffff:'' @ ntop4_text src) = Inr (replicate 10 0 @ [255, 255] @ src)"
proof -
  obtain val where "pton6_loop ('':'' @ ntop4_text src) [] None ('':'' @ ntop4_text src) 0 0 = Inr ([] @ src, Some 0, 0, val)"
    using pton6_v4 [OF assms, of "[]" "Some 0"] by auto
  then have "inet_pton6 (''::'' @ ntop4_text src) = pton6_finish ([] @ src) (Some (length [])) 0 val"
    by (intro inet_pton6_run [OF _ refl]) (simp_all add: c_at_def)
  then show "inet_pton6 (''::'' @ ntop4_text src) = Inr (replicate 12 0 @ src)"
    using pton6_finish_tail [of "[]" src val 0 src] assms by simp
next
  let ?w = "[255, 255] :: u8 list"
  obtain val where "pton6_loop (ntop4_text src) ?w (Some 0) (ntop4_text src) 0 0 = Inr (?w @ src, Some 0, 0, val)"
    using pton6_v4 [OF assms, of ?w "Some 0"] by auto
  moreover have "ntop4_text src \<noteq> []" using ntop4_text_length [of src] by auto
  moreover have "xdigit_value (CHR ''f'') = Some 15" by (simp add: xdigit_value_def xdigits_l_def)
  ultimately have "pton6_loop ('':ffff:'' @ ntop4_text src) [] None ('':ffff:'' @ ntop4_text src) 0 0 = Inr (?w @ src, Some 0, 0, val)"
    by (simp add: word_65535)
  then have "inet_pton6 (''::ffff:'' @ ntop4_text src) = pton6_finish ([] @ ?w @ src) (Some (length [])) 0 val"
    by (intro inet_pton6_run [OF _ refl]) (simp_all add: c_at_def)
  then show "inet_pton6 (''::ffff:'' @ ntop4_text src) = Inr (replicate 10 0 @ [255, 255] @ src)"
    using pton6_finish_tail [of "[]" "?w @ src" val 0 "?w @ src"] assms by simp
qed

text \<open>Splitting the address at the run of zero words.\<close>

lemma words_split:
  assumes "length src = 16" and r: "best_run (in6_words src) = Some (b, l)"
  shows "src = words_bytes (take b (in6_words src)) @ replicate (2 * l) 0 @ words_bytes (drop (b + l) (in6_words src))"
proof -
  let ?ws = "in6_words src"
  have bl: "b + l \<le> 8" using best_run_zero(2) [OF r] by simp
  have "?ws = take b ?ws @ take l (drop b ?ws) @ drop (b + l) ?ws"
    by (metis append_take_drop_id drop_drop add.commute)
  then have "src = words_bytes (take b ?ws @ take l (drop b ?ws) @ drop (b + l) ?ws)"
    using words_bytes_in6 [OF assms(1)] by simp
  moreover have "\<forall>w \<in> set (take l (drop b ?ws)). w = 0"
    using best_run_zero(3) [OF r] bl by (auto simp: set_conv_nth)
  moreover have "length (take l (drop b ?ws)) = l" using bl by simp
  ultimately show ?thesis using words_bytes_zero [of "take l (drop b ?ws)"] by simp
qed

lemma drop_12_words:
  assumes "length src = 16"
  shows "words_bytes (drop 6 (in6_words src)) = drop 12 src"
proof -
  have "words_bytes (take 6 (in6_words src)) @ words_bytes (drop 6 (in6_words src)) = src"
    using words_bytes_in6 [OF assms] words_bytes_append [of "take 6 (in6_words src)" "drop 6 (in6_words src)"]
    by simp
  moreover have "length (words_bytes (take 6 (in6_words src))) = 12" by simp
  ultimately show ?thesis by (metis append_eq_conv_conj)
qed

text \<open>Parsing reads back what was printed.\<close>

lemma pton6_ntop6:
  assumes "length src = 16"
  shows "inet_pton6 (ntop6_text src) = Inr src"
proof (cases "best_run (in6_words src)")
  case None
  then show ?thesis
    using pton6_full [OF in6_words_bound, of src] words_bytes_in6 [OF assms] by (simp add: ntop6_text_def Let_def)
next
  case (Some r)
  let ?ws = "in6_words src"
  obtain b l where r: "best_run ?ws = Some (b, l)" using Some by (cases r) auto
  have bl: "2 \<le> l" "b + l \<le> 8" using best_run_zero(1,2) [OF r] by auto
  note s = words_split [OF assms r]
  show ?thesis
  proof (cases "has_v4 ?ws")
    case False
    have "inet_pton6 (ntop6_text src) = inet_pton6 (join_x (take b ?ws) @ ''::'' @ join_x (drop (b + l) ?ws))"
      using r False by (simp add: ntop6_text_def Let_def)
    also have "\<dots> = Inr (words_bytes (take b ?ws) @ replicate (2 * l) 0 @ words_bytes (drop (b + l) ?ws))"
    proof -
      have "16 - 2 * b - 2 * (8 - (b + l)) = 2 * l" using bl by simp
      moreover have "\<forall>w \<in> set (take b ?ws). w < 65536" "\<forall>w \<in> set (drop (b + l) ?ws). w < 65536"
        using in6_words_bound [of src] by (auto dest: in_set_takeD in_set_dropD)
      moreover have "length (take b ?ws) = b" "length (drop (b + l) ?ws) = 8 - (b + l)" "b + (8 - (b + l)) < 8"
        using bl by auto
      ultimately show ?thesis using pton6_short [of "take b ?ws" "drop (b + l) ?ws"] by presburger
    qed
    finally show ?thesis using s by simp
  next
    case True
    then have "b = 0" and l: "l = 6 \<or> l = 5 \<and> ?ws ! 5 = 0xffff" using r by (auto simp: has_v4_def)
    show ?thesis
    proof (cases "l = 6")
      case True
      then have "src = replicate 12 0 @ drop 12 src" using s \<open>b = 0\<close> drop_12_words [OF assms] by (simp add: words_bytes_def)
      then show ?thesis
        using pton6_short_v4(1) [of "drop 12 src"] assms r True \<open>has_v4 ?ws\<close> by (simp add: ntop6_text_def Let_def)
    next
      case False
      then have "drop 5 ?ws = 0xffff # drop 6 ?ws" using l Cons_nth_drop_Suc [of 5 ?ws] by simp
      moreover have "words_bytes (0xffff # drop 6 ?ws) = [255, 255] @ words_bytes (drop 6 ?ws)"
        by (simp add: words_bytes_def word_bytes_def word_65535)
      ultimately have "src = replicate 10 0 @ [255, 255] @ drop 12 src"
        using s \<open>b = 0\<close> l False drop_12_words [OF assms] by (simp add: words_bytes_def)
      then show ?thesis
        using pton6_short_v4(2) [of "drop 12 src"] assms r False \<open>has_v4 ?ws\<close> by (simp add: ntop6_text_def Let_def)
    qed
  qed
qed

subsection \<open>Properties\<close>

lemma print_chars: "base \<in> {10, 16} \<Longrightarrow> set (print_nat base n) \<subseteq> set xdigits_l"
proof (induction n rule: less_induct)
  case (less n)
  have x: "v < 16 \<Longrightarrow> digit v \<in> set xdigits_l" for v by (rule nth_mem) (simp add: xdigits_l_def)
  show ?case
  proof (cases "n < base")
    case True
    then show ?thesis using x [of n] less.prems by (subst print_nat.simps) auto
  next
    case False
    then have "n div base < n" "n mod base < 16" using less.prems by auto
    then show ?thesis using less x [of "n mod base"] False by (subst print_nat.simps) auto
  qed
qed

lemma no_percent: "CHR ''%'' \<notin> set (print_u n)" "CHR ''%'' \<notin> set (print_x n)"
  using print_chars [of 10 n] print_chars [of 16 n] by (auto simp: print_u_def print_x_def xdigits_l_def)

lemma ntop6_no_percent: "CHR ''%'' \<notin> set (ntop6_text src)"
proof -
  have "CHR ''%'' \<notin> set (join_x ws)" for ws by (induction ws rule: join_x.induct) (simp_all add: no_percent)
  then show ?thesis
    by (simp add: ntop6_text_def ntop4_text_def no_percent Let_def split: option.splits)
qed

lemma strchr_index_None: "ch \<notin> set s \<Longrightarrow> strchr_index s ch = None"
  by (induction s) auto

text \<open>
  \<^verbatim>\<open>uv_inet_ntop\<close> prints an IPv4 address into a buffer of \<^verbatim>\<open>UV__INET_ADDRSTRLEN\<close> or more bytes as a
  terminated string that \<^verbatim>\<open>uv_inet_pton\<close> parses back to the same four octets.
\<close>

lemma inet_v4_round_trip:
  assumes "length src = 4" and "UV__INET_ADDRSTRLEN \<le> sz"
  shows "\<exists>str. uv_inet_ntop AF_INET src sz = (None, str @ [NUL]) \<and> uv_inet_pton AF_INET (Some str) False = Inr src"
  using assms pton4_ntop4 [OF assms(1)] inet_ntop4_eq [OF c_string_ntop4, of src sz] ntop4_text_length [of src]
  by (auto simp: uv_inet_ntop_def uv_inet_pton_def UV__INET_ADDRSTRLEN_def)

text \<open>
  C36: \<^verbatim>\<open>uv_inet_pton\<close> accepts exactly one text for every IPv4 address, the one \<^verbatim>\<open>uv_inet_ntop\<close> prints: four
  decimal octets below 256 without leading zeros, separated by dots, and nothing else.
\<close>

theorem inet_v4_canonical:
  "uv_inet_pton AF_INET (Some str) False = Inr bs \<longleftrightarrow> length bs = 4 \<and> str = ntop4_text bs"
  using pton4_canonical [of str bs] pton4_ntop4 [of bs] by (auto simp: uv_inet_pton_def)

text \<open>
  C34: \<^verbatim>\<open>uv_inet_ntop\<close> prints an IPv6 address into a buffer of \<^verbatim>\<open>UV__INET6_ADDRSTRLEN\<close> or more bytes, with
  its longest run of zero words shortened to \<open>::\<close> and an encapsulated IPv4 address in dotted form,
  as a terminated string that \<^verbatim>\<open>uv_inet_pton\<close> parses back to the same sixteen bytes.
\<close>

theorem inet_v6_round_trip:
  assumes "length src = 16" and "UV__INET6_ADDRSTRLEN \<le> sz"
  shows "\<exists>str. uv_inet_ntop AF_INET6 src sz = (None, str @ [NUL]) \<and> uv_inet_pton AF_INET6 (Some str) False = Inr src"
  using assms pton6_ntop6 [OF assms(1)] inet_ntop6_eq [of src sz] ntop6_text_length [of src]
    strchr_index_None [OF ntop6_no_percent, of src]
  by (auto simp: uv_inet_ntop_def uv_inet_pton_def)

theorem inet_v6_round_trip_witness:
  "\<exists>str. uv_inet_ntop AF_INET6 (0x20 # 0x01 # replicate 13 0 @ [1]) 46 = (None, str @ [NUL]) \<and>
         uv_inet_pton AF_INET6 (Some str) False = Inr (0x20 # 0x01 # replicate 13 0 @ [1])"
  by (rule inet_v6_round_trip) (simp_all add: UV__INET6_ADDRSTRLEN_def)

text \<open>
  C37: \<^verbatim>\<open>uv_inet_ntop\<close> never stores more bytes than the buffer has. For both families it succeeds with the whole terminated text when it fits. When it does not fit, it reports
  \<^verbatim>\<open>UV_ENOSPC\<close>, for IPv4 storing nothing and for IPv6 a terminated prefix, except for IPv6 and a buffer without a byte, where it reports success and stores nothing. The
  local buffers of \<^verbatim>\<open>UV__INET_ADDRSTRLEN\<close> and \<^verbatim>\<open>UV__INET6_ADDRSTRLEN\<close> bytes are always large enough.
\<close>

theorem inet_ntop_bounded:
  "uv_inet_ntop AF_INET src sz =
     (if length (ntop4_text src) < sz then (None, ntop4_text src @ [NUL]) else (Some UV_ENOSPC, [])) \<and>
   uv_inet_ntop AF_INET6 src sz =
     (if length (ntop6_text src) < sz then (None, ntop6_text src @ [NUL])
      else if sz = 0 then (None, []) else (Some UV_ENOSPC, take (sz - 1) (ntop6_text src) @ [NUL])) \<and>
   uv_inet_ntop AF_other src sz = (Some UV_EAFNOSUPPORT, []) \<and>
   length (ntop4_text src) < UV__INET_ADDRSTRLEN \<and> length (ntop6_text src) < UV__INET6_ADDRSTRLEN \<and> length (snd (uv_inet_ntop af src sz)) \<le> sz"
  using ntop6_text_length [of src] ntop4_text_length [of src]
  by (cases af) (auto simp: uv_inet_ntop_def inet_ntop4_eq inet_ntop6_eq UV__INET_ADDRSTRLEN_def)

end
