(* ===== verification/Uv_Idna.thy ===== *)
theory Uv_Idna
  imports Uv_Base
begin

text \<open>
  Internationalised domain names, \<^verbatim>\<open>src/idna.c\<close>: the decoder of UTF-8 and the Punycode encoder. The
  bytes of the memory around the text are a function of the address, so that a read behind the end
  of the text is visible as such: every decoder returns the address behind the last byte it read.
\<close>

type_synonym text_memory = "nat \<Rightarrow> u8"

abbreviation invalid_cp :: u32 where
  "invalid_cp \<equiv> - 1"

subsection \<open>UTF-8\<close>

definition byte_at :: "text_memory \<Rightarrow> nat \<Rightarrow> u32" where
  "byte_at mem p = ucast (mem p)"

text \<open>
  The \<^verbatim>\<open>switch\<close> of \<^verbatim>\<open>uv__utf8_decode1_slow\<close>, which falls through: \<open>(min, a, b, c, d, p)\<close>, or
  \<^const>\<open>None\<close> for the return of -1.
\<close>

definition decode1_switch ::
  "text_memory \<Rightarrow> nat \<Rightarrow> nat \<Rightarrow> u32 \<Rightarrow> (u32 \<times> u32 \<times> u32 \<times> u32 \<times> u32 \<times> nat) option" where
  "decode1_switch mem p pe a =
     (let k = int p - int pe in
      if k \<noteq> 1 \<and> k \<noteq> 2 \<and> a > 0xEF then
        Some (0x10000, a AND 7, byte_at mem p, byte_at mem (p + 1), byte_at mem (p + 2), p + 3)
      else if k \<noteq> 1 \<and> a > 0xDF then
        Some (0x800, 0, 0x80 OR (a AND 15), byte_at mem p, byte_at mem (p + 1), p + 2)
      else if a > 0xBF then
        Some (0x80, 0, 0x80, 0x80 OR (a AND 31), byte_at mem p, p + 1)
      else None)"

definition uv__utf8_decode1_slow :: "text_memory \<Rightarrow> nat \<Rightarrow> nat \<Rightarrow> u32 \<Rightarrow> u32 \<times> nat" where
  "uv__utf8_decode1_slow mem p pe a =
     (if a > 0xF7 then (invalid_cp, p)
      else
        (case decode1_switch mem p pe a of
           None \<Rightarrow> (invalid_cp, p)
         | Some (mn, a, b, c, d, p') \<Rightarrow>
             if 0x80 \<noteq> 0xC0 AND (b XOR c XOR d) then (invalid_cp, p')
             else
               let r = push_bit 18 a OR push_bit 12 (b AND 63) OR push_bit 6 (c AND 63) OR (d AND 63) in
               if r < mn then (invalid_cp, p')
               else if r > 0x10FFFF then (invalid_cp, p')
               else if r \<ge> 0xD800 \<and> r \<le> 0xDFFF then (invalid_cp, p')
               else (r, p')))"

definition uv__utf8_decode1 :: "text_memory \<Rightarrow> nat \<Rightarrow> nat \<Rightarrow> u32 \<times> nat" where
  "uv__utf8_decode1 mem p pe =
     (let a = byte_at mem p in
      if a < 128 then (a, p + 1) else uv__utf8_decode1_slow mem (p + 1) pe a)"

lemma decode1_advances: "p < snd (uv__utf8_decode1 mem p pe)"
  by (auto simp: uv__utf8_decode1_def uv__utf8_decode1_slow_def decode1_switch_def Let_def
      split: option.splits)

text \<open>The values \<^verbatim>\<open>c\<close> takes in the body of \<^verbatim>\<open>foreach_codepoint(c, &s, se)\<close>.\<close>

function codepoints :: "text_memory \<Rightarrow> nat \<Rightarrow> nat \<Rightarrow> u32 list" where
  "codepoints mem p pe =
     (if p \<le> pe then
        case uv__utf8_decode1 mem p pe of (c, p') \<Rightarrow> if p' \<le> pe then c # codepoints mem p' pe else []
      else [])"
  by pat_completeness auto
termination
proof (relation "measure (\<lambda>(mem, p, pe). pe + 1 - p)")
  fix mem p pe c p' assume "p \<le> pe" and "(c, p') = uv__utf8_decode1 mem p pe" and "p' \<le> pe"
  then show "((mem, p', pe), mem, p, pe) \<in> measure (\<lambda>(mem, p, pe). pe + 1 - p)"
    using decode1_advances [of p mem pe] by (simp add: prod_eq_iff)
qed simp

declare codepoints.simps [simp del]

subsection \<open>Punycode\<close>

definition alphabet :: "u8 list" where
  "alphabet = map of_char ''abcdefghijklmnopqrstuvwxyz0123456789''"

text \<open>\<^verbatim>\<open>if (*d < de) *(*d)++ = ch\<close>: \<open>cap\<close> is the size of the destination.\<close>

definition put :: "nat \<Rightarrow> u8 \<Rightarrow> u8 list \<Rightarrow> u8 list" where
  "put cap ch d = (if length d < cap then d @ [ch] else d)"

text \<open>The first loop counts the ASCII characters and the others.\<close>

fun label_count :: "u32 list \<Rightarrow> u32 \<Rightarrow> u32 \<Rightarrow> (u32 \<times> u32) option" where
  "label_count [] h todo = Some (h, todo)"
| "label_count (c # cs) h todo =
     (if c < 128 then label_count cs (h + 1) todo
      else if c = invalid_cp then None
      else label_count cs h (todo + 1))"

fun label_ascii :: "nat \<Rightarrow> u32 list \<Rightarrow> u32 \<Rightarrow> u32 \<Rightarrow> u8 list \<Rightarrow> u8 list" where
  "label_ascii cap [] h x d = d"
| "label_ascii cap (c # cs) h x d =
     (if c > 127 then label_ascii cap cs h x d
      else
        let d' = put cap (ucast c) d in
        if x + 1 = h then d' else label_ascii cap cs h (x + 1) d')"

fun label_min :: "u32 list \<Rightarrow> u32 \<Rightarrow> u32 \<Rightarrow> u32" where
  "label_min [] n m = m"
| "label_min (c # cs) n m = label_min cs n (if c \<ge> n \<and> c < m then c else m)"

definition threshold :: "u32 \<Rightarrow> u32 \<Rightarrow> u32" where
  "threshold k bias = (let t = (if k > bias then k - bias else 1) in if t > 26 then 26 else t)"

lemma threshold_range: "1 \<le> threshold k bias" "threshold k bias \<le> 26"
proof -
  have "k > bias \<Longrightarrow> k - bias \<noteq> 0" by auto
  then have "k > bias \<Longrightarrow> 0 < unat (k - bias)" by (simp add: unat_gt_0)
  then show "1 \<le> threshold k bias"
    by (auto simp: threshold_def Let_def word_le_nat_alt word_less_nat_alt Suc_le_eq)
  show "threshold k bias \<le> 26" by (auto simp: threshold_def Let_def)
qed

text \<open>The loop that writes \<^verbatim>\<open>delta\<close> as a variable-length integer.\<close>

function label_delta :: "nat \<Rightarrow> u32 \<Rightarrow> u32 \<Rightarrow> u32 \<Rightarrow> u8 list \<Rightarrow> u8 list" where
  "label_delta cap k q bias d =
     (let t = threshold k bias in
      if q < t then put cap (alphabet ! unat q) d
      else
        let x = q - t; y = 36 - t
        in label_delta cap (k + 36) (x div y) bias (put cap (alphabet ! unat (t + x mod y)) d))"
  by pat_completeness auto
termination
proof (relation "measure (\<lambda>(cap, k, q, bias, d). unat q)")
  fix cap :: nat and k q bias :: u32 and d :: "u8 list" and t x y :: u32
  assume t: "t = threshold k bias" and "\<not> q < t" and x: "x = q - t" and "y = 36 - t"
  have "unat x < unat q"
    using \<open>\<not> q < t\<close> threshold_range(1) [of k bias] t x
    by (simp add: unat_sub word_le_nat_alt not_less)
  moreover have "unat (x div y) \<le> unat x" by (simp add: unat_div)
  ultimately show "((cap, k + 36, x div y, bias, put cap (alphabet ! unat (t + x mod y)) d), cap, k, q, bias, d)
        \<in> measure (\<lambda>(cap, k, q, bias, d). unat q)" by simp
qed simp

declare label_delta.simps [simp del]

text \<open>\<^verbatim>\<open>for (bias = 0; delta > 35 * 26 / 2; bias += 36) delta /= 35\<close>\<close>

function label_bias :: "u32 \<Rightarrow> u32 \<Rightarrow> u32 \<times> u32" where
  "label_bias bias delta = (if delta > 455 then label_bias (bias + 36) (delta div 35) else (bias, delta))"
  by pat_completeness auto
termination
  by (relation "measure (\<lambda>(bias, delta). unat delta)") (auto simp: unat_div word_less_nat_alt)

declare label_bias.simps [simp del]

record label_state =
  l_d :: "u8 list"
  l_bias :: u32
  l_delta :: u32
  l_first :: bool
  l_h :: u32
  l_todo :: u32

text \<open>What the loop does with a code point equal to \<^verbatim>\<open>n\<close>.\<close>

definition label_emit :: "nat \<Rightarrow> label_state \<Rightarrow> label_state" where
  "label_emit cap s =
     (let d = label_delta cap 36 (l_delta s) (l_bias s) (l_d s);
          delta1 = l_delta s div 2;
          delta2 = (if l_first s then delta1 div 350 else delta1);
          h = l_h s + 1;
          delta3 = delta2 + delta2 div h;
          (bias, delta4) = label_bias 0 delta3
      in s\<lparr>l_d := d, l_bias := bias + 36 * delta4 div (delta4 + 38), l_delta := 0, l_first := False,
           l_h := h, l_todo := l_todo s - 1\<rparr>)"

fun label_scan :: "nat \<Rightarrow> u32 list \<Rightarrow> u32 \<Rightarrow> label_state \<Rightarrow> label_state option" where
  "label_scan cap [] n s = Some s"
| "label_scan cap (c # cs) n s =
     (let delta = (if c < n then l_delta s + 1 else l_delta s) in
      if c < n \<and> delta = 0 then None
      else
        let s1 = s\<lparr>l_delta := delta\<rparr> in
        if c \<noteq> n then label_scan cap cs n s1 else label_scan cap cs n (label_emit cap s1))"

text \<open>
  The loop \<^verbatim>\<open>while (todo > 0)\<close>. The first argument bounds the number of iterations; \<^const>\<open>None\<close>: the
  bound was too small. An overflow ends it with an error.
\<close>

fun label_loop :: "nat \<Rightarrow> nat \<Rightarrow> u32 list \<Rightarrow> u32 \<Rightarrow> label_state \<Rightarrow> (uv_error + u8 list) option" where
  "label_loop fuel cap cs n s =
     (if l_todo s = 0 then Some (Inr (l_d s))
      else
        (case fuel of
           0 \<Rightarrow> None
         | Suc fuel' \<Rightarrow>
             let m = label_min cs n (- 1); x = m - n; y = l_h s + 1 in
             if x > NOT (l_delta s) div y then Some (Inl UV_E2BIG)
             else
               (case label_scan cap cs m (s\<lparr>l_delta := l_delta s + x * y\<rparr>) of
                  None \<Rightarrow> Some (Inl UV_E2BIG)
                | Some s' \<Rightarrow> label_loop fuel' cap cs (m + 1) (s'\<lparr>l_delta := l_delta s' + 1\<rparr>))))"

declare label_loop.simps [simp del]

definition uv__idna_toascii_label ::
  "nat \<Rightarrow> text_memory \<Rightarrow> nat \<Rightarrow> nat \<Rightarrow> nat \<Rightarrow> u8 list \<Rightarrow> (uv_error + u8 list) option" where
  "uv__idna_toascii_label fuel mem s se cap d =
     (let cs = codepoints mem s se in
      case label_count cs 0 0 of
        None \<Rightarrow> Some (Inl UV_EINVAL)
      | Some (h, todo) \<Rightarrow>
          let d1 = (if todo > 0
                    then put cap (of_char CHR ''-'') (put cap (of_char CHR ''-'')
                           (put cap (of_char CHR ''n'') (put cap (of_char CHR ''x'') d)))
                    else d);
              d2 = label_ascii cap cs h 0 d1
          in if todo = 0 then Some (Inr d2)
             else
               let d3 = (if h > 0 then put cap (of_char CHR ''-'') d2 else d2)
               in label_loop fuel cap cs 128
                    \<lparr>l_d = d3, l_bias = 72, l_delta = 0, l_first = True, l_h = h, l_todo = todo\<rparr>)"

subsection \<open>Host names\<close>

definition is_dot :: "u32 \<Rightarrow> bool" where
  "is_dot c \<longleftrightarrow> c = 0x2E \<or> c = 0x3002 \<or> c = 0xFF0E \<or> c = 0xFF61"

function toascii_loop ::
  "nat \<Rightarrow> text_memory \<Rightarrow> nat \<Rightarrow> nat \<Rightarrow> nat \<Rightarrow> nat \<Rightarrow> u8 list \<Rightarrow> (uv_error + (nat \<times> u8 list)) option" where
  "toascii_loop fuel mem s si se cap d =
     (if si < se then
        case uv__utf8_decode1 mem si se of (c, si') \<Rightarrow>
          if \<not> is_dot c then toascii_loop fuel mem s si' se cap d
          else
            (case uv__idna_toascii_label fuel mem s si cap d of
               None \<Rightarrow> None
             | Some (Inl rc) \<Rightarrow> Some (Inl rc)
             | Some (Inr d') \<Rightarrow> toascii_loop fuel mem si' si' se cap (put cap (of_char CHR ''.'') d'))
      else Some (Inr (s, d)))"
  by pat_completeness auto
termination
proof (relation "measure (\<lambda>(fuel, mem, s, si, se, cap, d). se - si)", goal_cases)
  case (2 fuel mem s si se cap d c si')
  then show ?case using decode1_advances [of si mem se] by (simp add: prod_eq_iff)
next
  case (3 fuel mem s si se cap d c si')
  then show ?case using decode1_advances [of si mem se] by (simp add: prod_eq_iff)
qed simp

declare toascii_loop.simps [simp del]

definition uv__idna_toascii :: "nat \<Rightarrow> text_memory \<Rightarrow> nat \<Rightarrow> nat \<Rightarrow> nat \<Rightarrow> (uv_error + u8 list) option" where
  "uv__idna_toascii fuel mem s se cap =
     (case toascii_loop fuel mem s s se cap [] of
        None \<Rightarrow> None
      | Some (Inl rc) \<Rightarrow> Some (Inl rc)
      | Some (Inr (s', d)) \<Rightarrow>
          (case (if s' < se then uv__idna_toascii_label fuel mem s' se cap d else Some (Inr d)) of
             None \<Rightarrow> None
           | Some (Inl rc) \<Rightarrow> Some (Inl rc)
           | Some (Inr d') \<Rightarrow> Some (Inr (put cap 0 d'))))"


subsection \<open>The decoder on well-formed text\<close>

definition scalar :: "nat \<Rightarrow> bool" where
  "scalar c \<longleftrightarrow> c \<le> 0x10FFFF \<and> \<not> (0xD800 \<le> c \<and> c \<le> 0xDFFF)"

definition utf8 :: "nat \<Rightarrow> nat list" where
  "utf8 c =
     (if c < 0x80 then [c]
      else if c < 0x800 then [0xC0 + c div 64, 0x80 + c mod 64]
      else if c < 0x10000 then [0xE0 + c div 4096, 0x80 + c div 64 mod 64, 0x80 + c mod 64]
      else [0xF0 + c div 262144, 0x80 + c div 4096 mod 64, 0x80 + c div 64 mod 64, 0x80 + c mod 64])"

definition holds_text :: "text_memory \<Rightarrow> nat \<Rightarrow> nat list \<Rightarrow> bool" where
  "holds_text mem p bs \<longleftrightarrow> (\<forall>i < length bs. unat (mem (p + i)) = bs ! i)"

lemma nat_or_add:
  fixes a b :: nat
  assumes "b < 2 ^ k"
  shows "push_bit k a OR b = a * 2 ^ k + b"
proof -
  have "take_bit k b = b" using assms by (simp add: take_bit_nat_eq_self_iff)
  then have "\<not> bit b n" if "k \<le> n" for n using that by (metis bit_take_bit_iff not_le)
  then have "push_bit k a AND b = 0" by (intro bit_eqI) (auto simp: bit_simps)
  then show ?thesis by (simp add: push_bit_eq_mult flip: disjunctive_add_eq_or)
qed

lemma utf8_value:
  assumes "b < 64" and "c < 64" and "d < 64"
  shows "push_bit 18 (of_nat a :: u32) OR push_bit 12 (of_nat b) OR push_bit 6 (of_nat c) OR of_nat d =
         of_nat (a * 262144 + b * 4096 + c * 64 + d)"
proof -
  have "push_bit 18 a OR push_bit 12 b OR push_bit 6 c OR d = a * 262144 + (b * 4096 + (c * 64 + d))"
    using assms by (simp add: nat_or_add [of _ 6] nat_or_add [of _ 12] nat_or_add [of _ 18])
  then show ?thesis by (simp flip: of_nat_push_bit of_nat_or_eq)
qed

lemma continuation_bits:
  assumes "b < 64"
  shows "0xC0 AND (of_nat (0x80 + b) :: u32) = 0x80" and "(of_nat (0x80 + b) :: u32) AND 63 = of_nat b"
proof -
  have "\<forall>b \<in> {..<64}. 0xC0 AND (of_nat (0x80 + b) :: u32) = 0x80 \<and> (of_nat (0x80 + b) :: u32) AND 63 = of_nat b"
    by code_simp
  then show "0xC0 AND (of_nat (0x80 + b) :: u32) = 0x80" and "(of_nat (0x80 + b) :: u32) AND 63 = of_nat b"
    using assms by simp_all
qed

lemma lead_bits:
  "x < 32 \<Longrightarrow> 0x80 OR ((of_nat (0xC0 + x) :: u32) AND 31) = of_nat (0x80 + x)"
  "x < 16 \<Longrightarrow> 0x80 OR ((of_nat (0xE0 + x) :: u32) AND 15) = of_nat (0x80 + x)"
  "x < 8 \<Longrightarrow> (of_nat (0xF0 + x) :: u32) AND 7 = of_nat x"
proof -
  have "\<forall>x \<in> {..<32}. 0x80 OR ((of_nat (0xC0 + x) :: u32) AND 31) = of_nat (0x80 + x)" by code_simp
  then show "x < 32 \<Longrightarrow> 0x80 OR ((of_nat (0xC0 + x) :: u32) AND 31) = of_nat (0x80 + x)" by simp
  have "\<forall>x \<in> {..<16}. 0x80 OR ((of_nat (0xE0 + x) :: u32) AND 15) = of_nat (0x80 + x)" by code_simp
  then show "x < 16 \<Longrightarrow> 0x80 OR ((of_nat (0xE0 + x) :: u32) AND 15) = of_nat (0x80 + x)" by simp
  have "\<forall>x \<in> {..<8}. (of_nat (0xF0 + x) :: u32) AND 7 = of_nat x" by code_simp
  then show "x < 8 \<Longrightarrow> (of_nat (0xF0 + x) :: u32) AND 7 = of_nat x" by simp
qed

lemma continuation_xor:
  assumes "b < 64" and "c < 64" and "d < 64"
  shows "0xC0 AND ((of_nat (0x80 + b) :: u32) XOR of_nat (0x80 + c) XOR of_nat (0x80 + d)) = 0x80"
  using assms by (simp only: bit.conj_xor_distrib continuation_bits) simp

text \<open>The part of the decoder behind the \<^verbatim>\<open>switch\<close>, when it has three well-formed continuation bytes.\<close>

lemma of_nat_u32_cmp:
  "x < 2 ^ 32 \<Longrightarrow> y < 2 ^ 32 \<Longrightarrow> (of_nat x :: u32) < of_nat y \<longleftrightarrow> x < y"
  "x < 2 ^ 32 \<Longrightarrow> y < 2 ^ 32 \<Longrightarrow> (of_nat x :: u32) \<le> of_nat y \<longleftrightarrow> x \<le> y"
  by (simp_all add: word_less_nat_alt word_le_nat_alt unat_of_nat_lt)

lemma decode1_slow_value:
  assumes "decode1_switch mem p pe a = Some (of_nat mn, of_nat a', of_nat (0x80 + b), of_nat (0x80 + c), of_nat (0x80 + d), p')"
    and "\<not> a > 0xF7" and "b < 64" and "c < 64" and "d < 64"
    and "v = a' * 262144 + b * 4096 + c * 64 + d" and "scalar v" and "mn \<le> v"
  shows "uv__utf8_decode1_slow mem p pe a = (of_nat v, p')"
proof -
  have v: "v < 2 ^ 32" "mn < 2 ^ 32" "\<not> v < mn" "\<not> v > 0x10FFFF" "\<not> (0xD800 \<le> v \<and> v \<le> 0xDFFF)"
    using assms(7,8) by (auto simp: scalar_def)
  have "\<not> (of_nat v :: u32) < of_nat mn" "\<not> (of_nat v :: u32) > 0x10FFFF"
    "\<not> ((of_nat v :: u32) \<ge> 0xD800 \<and> (of_nat v :: u32) \<le> 0xDFFF)"
    using v of_nat_u32_cmp [of v mn] of_nat_u32_cmp [of "0x10FFFF" v] of_nat_u32_cmp [of "0xD800" v] of_nat_u32_cmp [of v "0xDFFF"]
    by simp_all
  then show ?thesis
    using assms(2)
    by (simp only: uv__utf8_decode1_slow_def assms(1) if_False option.case prod.case continuation_xor [OF assms(3-5)]
        continuation_bits [OF assms(3)] continuation_bits [OF assms(4)] continuation_bits [OF assms(5)]
        utf8_value [OF assms(3-5)] Let_def assms(6) [symmetric] simp_thms)
qed

lemma holds_text_Cons [simp]: "holds_text mem p (b # bs) \<longleftrightarrow> unat (mem p) = b \<and> holds_text mem (Suc p) bs"
  by (auto simp: holds_text_def nth_Cons split: nat.splits)

lemma holds_text_Nil [simp]: "holds_text mem p []"
  by (simp add: holds_text_def)

lemma holds_text_append: "holds_text mem p (bs @ cs) \<longleftrightarrow> holds_text mem p bs \<and> holds_text mem (p + length bs) cs"
  by (induction bs arbitrary: p) simp_all

lemma byte_at_text: "unat (mem p) = b \<Longrightarrow> byte_at mem p = of_nat b"
  by (auto simp: byte_at_def)

lemma split64:
  "c = c div 4096 * 4096 + c div 64 mod 64 * 64 + c mod 64"
  "c = c div 262144 * 262144 + c div 4096 mod 64 * 4096 + c div 64 mod 64 * 64 + c mod 64" for c :: nat
proof -
  have a: "c = c div 64 * 64 + c mod 64" "c div 64 = c div 4096 * 64 + c div 64 mod 64"
    "c div 4096 = c div 262144 * 64 + c div 4096 mod 64"
    using div_mult_mod_eq [of c 64] div_mult_mod_eq [of "c div 64" 64] div_mult_mod_eq [of "c div 4096" 64]
    by (simp_all add: div_mult2_eq [symmetric])
  then show "c = c div 4096 * 4096 + c div 64 mod 64 * 64 + c mod 64" by linarith
  then show "c = c div 262144 * 262144 + c div 4096 mod 64 * 4096 + c div 64 mod 64 * 64 + c mod 64" using a by linarith
qed

text \<open>The decoder returns the code point and the address behind its encoding.\<close>

lemma decode1_utf8:
  assumes "scalar c" and "holds_text mem p (utf8 c)" and "p < pe"
  shows "uv__utf8_decode1 mem p pe = (of_nat c, p + length (utf8 c))"
proof -
  have k: "int (p + 1) - int pe \<noteq> 1" "int (p + 1) - int pe \<noteq> 2" using assms(3) by auto
  have c: "c \<le> 0x10FFFF" using assms(1) by (simp add: scalar_def)
  consider "c < 0x80" | "0x80 \<le> c" "c < 0x800" | "0x800 \<le> c" "c < 0x10000" | "0x10000 \<le> c" by linarith
  then show ?thesis
  proof cases
    case 1
    then show ?thesis using assms(2) of_nat_u32_cmp(1) [of c 128] by (simp add: uv__utf8_decode1_def utf8_def byte_at_text)
  next
    case 2
    let ?a = "0xC0 + c div 64"
    have a: "c div 64 < 32" using 2 by simp
    have b: "byte_at mem p = of_nat ?a" "byte_at mem (p + 1) = of_nat (0x80 + c mod 64)"
      using assms(2) 2 by (simp_all add: utf8_def byte_at_text)
    have cmp: "\<not> (of_nat ?a :: u32) < 128" "\<not> (of_nat ?a :: u32) > 0xF7" "\<not> (of_nat ?a :: u32) > 0xEF"
        "\<not> (of_nat ?a :: u32) > 0xDF" "(of_nat ?a :: u32) > 0xBF"
      using a of_nat_u32_cmp(1) [of ?a 128] of_nat_u32_cmp(1) [of "0xF7" ?a] of_nat_u32_cmp(1) [of "0xEF" ?a]
        of_nat_u32_cmp(1) [of "0xDF" ?a] of_nat_u32_cmp(1) [of "0xBF" ?a] by simp_all
    have "uv__utf8_decode1_slow mem (p + 1) pe (of_nat ?a) = (of_nat c, p + 1 + 1)"
    proof (rule decode1_slow_value)
      show "decode1_switch mem (p + 1) pe (of_nat ?a) =
            Some (of_nat 0x80, of_nat 0, of_nat (0x80 + 0), of_nat (0x80 + c div 64), of_nat (0x80 + c mod 64), p + 1 + 1)"
        using cmp by (simp only: decode1_switch_def Let_def k if_False if_True simp_thms b lead_bits(1) [OF a]) simp
    qed (use 2 a assms(1) cmp in auto)
    then show ?thesis using cmp 2 by (simp only: uv__utf8_decode1_def Let_def b if_False) (simp add: utf8_def)
  next
    case 3
    let ?a = "0xE0 + c div 4096"
    have a: "c div 4096 < 16" using 3 by simp
    have b: "byte_at mem p = of_nat ?a" "byte_at mem (p + 1) = of_nat (0x80 + c div 64 mod 64)"
        "byte_at mem (p + 1 + 1) = of_nat (0x80 + c mod 64)"
      using assms(2) 3 by (simp_all add: utf8_def byte_at_text)
    have cmp: "\<not> (of_nat ?a :: u32) < 128" "\<not> (of_nat ?a :: u32) > 0xF7" "\<not> (of_nat ?a :: u32) > 0xEF"
        "(of_nat ?a :: u32) > 0xDF"
      using a of_nat_u32_cmp(1) [of ?a 128] of_nat_u32_cmp(1) [of "0xF7" ?a] of_nat_u32_cmp(1) [of "0xEF" ?a]
        of_nat_u32_cmp(1) [of "0xDF" ?a] by simp_all
    have "uv__utf8_decode1_slow mem (p + 1) pe (of_nat ?a) = (of_nat c, p + 1 + 2)"
    proof (rule decode1_slow_value)
      show "decode1_switch mem (p + 1) pe (of_nat ?a) =
            Some (of_nat 0x800, of_nat 0, of_nat (0x80 + c div 4096), of_nat (0x80 + c div 64 mod 64), of_nat (0x80 + c mod 64), p + 1 + 2)"
        using cmp by (simp only: decode1_switch_def Let_def k if_False if_True simp_thms b lead_bits(2) [OF a]) simp
    qed (use 3 a assms(1) cmp split64 [of c] in auto)
    then show ?thesis using cmp 3 by (simp only: uv__utf8_decode1_def Let_def b if_False) (simp add: utf8_def)
  next
    case 4
    let ?a = "0xF0 + c div 262144"
    have a: "c div 262144 < 8" using c by simp
    have b: "byte_at mem p = of_nat ?a" "byte_at mem (p + 1) = of_nat (0x80 + c div 4096 mod 64)"
        "byte_at mem (p + 1 + 1) = of_nat (0x80 + c div 64 mod 64)" "byte_at mem (p + 1 + 2) = of_nat (0x80 + c mod 64)"
      using assms(2) 4 by (simp_all add: utf8_def byte_at_text)
    have cmp: "\<not> (of_nat ?a :: u32) < 128" "\<not> (of_nat ?a :: u32) > 0xF7" "(of_nat ?a :: u32) > 0xEF"
      using a of_nat_u32_cmp(1) [of ?a 128] of_nat_u32_cmp(1) [of "0xF7" ?a] of_nat_u32_cmp(1) [of "0xEF" ?a]
      by simp_all
    have "uv__utf8_decode1_slow mem (p + 1) pe (of_nat ?a) = (of_nat c, p + 1 + 3)"
    proof (rule decode1_slow_value)
      show "decode1_switch mem (p + 1) pe (of_nat ?a) =
            Some (of_nat 0x10000, of_nat (c div 262144), of_nat (0x80 + c div 4096 mod 64), of_nat (0x80 + c div 64 mod 64),
                  of_nat (0x80 + c mod 64), p + 1 + 3)"
        using cmp by (simp only: decode1_switch_def Let_def k if_True simp_thms b lead_bits(3) [OF a]) simp
    qed (use 4 a assms(1) cmp split64 [of c] in auto)
    then show ?thesis using cmp 4 by (simp only: uv__utf8_decode1_def Let_def b if_False) (simp add: utf8_def)
  qed
qed

lemma utf8_length: "0 < length (utf8 c)"
  by (simp add: utf8_def)

definition utf8_text :: "nat list \<Rightarrow> nat list" where
  "utf8_text cps = concat (map utf8 cps)"

lemma codepoints_step:
  "p \<le> pe \<Longrightarrow> uv__utf8_decode1 mem p pe = (c, p') \<Longrightarrow> p' \<le> pe \<Longrightarrow> codepoints mem p pe = c # codepoints mem p' pe"
  by (subst codepoints.simps) simp

text \<open>On well-formed text the loops see exactly its code points, whatever follows the text.\<close>

lemma codepoints_utf8:
  assumes "\<forall>c \<in> set cps. scalar c" and "holds_text mem p (utf8_text cps)"
  shows "codepoints mem p (p + length (utf8_text cps)) = map of_nat cps"
  using assms
proof (induction cps arbitrary: p)
  case Nil
  show ?case
    using decode1_advances [of p mem p] by (auto simp: codepoints.simps [of mem p p] utf8_text_def split: prod.splits)
next
  case (Cons c cps)
  let ?pe = "p + length (utf8_text (c # cps))"
  have t: "utf8_text (c # cps) = utf8 c @ utf8_text cps" by (simp add: utf8_text_def)
  have "uv__utf8_decode1 mem p ?pe = (of_nat c, p + length (utf8 c))"
    using Cons.prems utf8_length [of c] by (intro decode1_utf8) (simp_all add: t holds_text_append)
  then have "codepoints mem p ?pe = of_nat c # codepoints mem (p + length (utf8 c)) ?pe"
    by (rule codepoints_step [rotated]) (simp_all add: t)
  moreover have "codepoints mem (p + length (utf8 c)) (p + length (utf8 c) + length (utf8_text cps)) = map of_nat cps"
    using Cons.prems by (intro Cons.IH) (simp_all add: t holds_text_append)
  ultimately show ?case by (simp add: t add.assoc)
qed

end
