(* ===== verification/Uv_Punycode.thy ===== *)
theory Uv_Punycode
  imports Uv_Idna
begin

text \<open>
  The Punycode encoder of \<^verbatim>\<open>src/idna.c\<close> against the decoding procedure of RFC 3492 (section 6.2),
  written over the natural numbers: what the encoder writes for a label decodes to that label, and
  neither its arithmetic on \<^verbatim>\<open>unsigned\<close> nor its loops fail on labels of less than 2048 code points.
\<close>

subsection \<open>The decoder of RFC 3492\<close>

definition puny_threshold :: "nat \<Rightarrow> nat \<Rightarrow> nat" where
  "puny_threshold k bias = (if k \<le> bias then 1 else min 26 (k - bias))"

definition puny_digit :: "u8 \<Rightarrow> nat option" where
  "puny_digit b = map_of (zip alphabet [0..<36]) b"

fun puny_delta :: "nat \<Rightarrow> nat \<Rightarrow> nat \<Rightarrow> nat \<Rightarrow> u8 list \<Rightarrow> (nat \<times> u8 list) option" where
  "puny_delta bias k w acc [] = None"
| "puny_delta bias k w acc (b # bs) =
     (case puny_digit b of
        None \<Rightarrow> None
      | Some v \<Rightarrow>
          let t = puny_threshold k bias in
          if v < t then Some (acc + v * w, bs)
          else puny_delta bias (k + 36) (w * (36 - t)) (acc + v * w) bs)"

lemma puny_delta_shorter: "puny_delta bias k w acc bs = Some (d, rest) \<Longrightarrow> length rest < length bs"
  by (induction bias k w acc bs rule: puny_delta.induct)
     (fastforce simp: Let_def less_Suc_eq split: option.splits if_splits)+

fun puny_bias :: "nat \<Rightarrow> nat \<Rightarrow> nat \<times> nat" where
  "puny_bias k d = (if d > 455 then puny_bias (k + 36) (d div 35) else (k, d))"

declare puny_bias.simps [simp del]

definition puny_adapt :: "nat \<Rightarrow> nat \<Rightarrow> bool \<Rightarrow> nat" where
  "puny_adapt delta numpoints first =
     (let d1 = (if first then delta div 700 else delta div 2);
          (k, d) = puny_bias 0 (d1 + d1 div numpoints)
      in k + 36 * d div (d + 38))"

definition insert_at :: "nat \<Rightarrow> 'a \<Rightarrow> 'a list \<Rightarrow> 'a list" where
  "insert_at i x xs = take i xs @ x # drop i xs"

function puny_loop :: "nat \<Rightarrow> nat \<Rightarrow> nat \<Rightarrow> bool \<Rightarrow> nat list \<Rightarrow> u8 list \<Rightarrow> nat list option" where
  "puny_loop n i bias first out bs =
     (if bs = [] then Some out
      else
        (case puny_delta bias 36 1 0 bs of
           None \<Rightarrow> None
         | Some (delta, rest) \<Rightarrow>
             let len = length out + 1;
                 n' = n + (i + delta) div len;
                 pos = (i + delta) mod len
             in puny_loop n' (pos + 1) (puny_adapt delta len first) False (insert_at pos n' out) rest))"
  by pat_completeness auto
termination
  by (relation "measure (\<lambda>(n, i, bias, first, out, bs). length bs)") (auto dest: puny_delta_shorter)

declare puny_loop.simps [simp del]

abbreviation hyphen :: u8 where
  "hyphen \<equiv> 0x2D"

text \<open>The basic code points are in front of the last hyphen.\<close>

definition puny_decode :: "u8 list \<Rightarrow> nat list option" where
  "puny_decode bs =
     (let tail = rev (takeWhile (\<lambda>b. b \<noteq> hyphen) (rev bs));
          basic = take (length bs - length tail - 1) bs
      in puny_loop 128 0 72 True (map unat basic) tail)"

subsection \<open>Stores into the destination\<close>

definition stores :: "nat \<Rightarrow> u8 list \<Rightarrow> u8 list \<Rightarrow> u8 list \<Rightarrow> bool" where
  "stores cap d bs d' \<longleftrightarrow> d' = d @ take (cap - length d) bs"

lemma stores_put [simp]: "stores cap d [ch] (put cap ch d)"
  by (simp add: stores_def put_def)

lemma stores_refl [simp]: "stores cap d [] d"
  by (simp add: stores_def)

lemma stores_snoc: "stores cap d bs d1 \<Longrightarrow> stores cap d (bs @ [ch]) (put cap ch d1)"
  by (auto simp: stores_def put_def min_def)

lemma stores_trans: "stores cap d bs d1 \<Longrightarrow> stores cap d1 cs d2 \<Longrightarrow> stores cap d (bs @ cs) d2"
  by (auto simp: stores_def min_def)

subsection \<open>Variable-length integers\<close>

function delta_digits :: "u32 \<Rightarrow> u32 \<Rightarrow> u32 \<Rightarrow> u8 list" where
  "delta_digits k q bias =
     (let t = threshold k bias in
      if q < t then [alphabet ! unat q]
      else alphabet ! unat (t + (q - t) mod (36 - t)) # delta_digits (k + 36) ((q - t) div (36 - t)) bias)"
  by pat_completeness auto
termination
proof (relation "measure (\<lambda>(k, q, bias). unat q)")
  fix k q bias :: u32 and t :: u32
  assume "t = threshold k bias" and "\<not> q < t"
  then have "unat (q - t) < unat q"
    using threshold_range(1) [of k bias] by (simp add: unat_sub word_le_nat_alt not_less)
  then show "((k + 36, (q - t) div (36 - t), bias), k, q, bias) \<in> measure (\<lambda>(k, q, bias). unat q)"
    using div_le_dividend [of "unat (q - t)" "unat (36 - t)"]
    by (simp add: unat_div del: div_le_dividend)
qed simp

declare delta_digits.simps [simp del]

lemma label_delta_stores: "stores cap d (delta_digits k q bias) (label_delta cap k q bias d)"
proof (induction cap k q bias d rule: label_delta.induct)
  case (1 cap k q bias d)
  let ?t = "threshold k bias"
  show ?case
  proof (cases "q < ?t")
    case True
    then show ?thesis by (simp add: label_delta.simps [of cap k] delta_digits.simps [of k])
  next
    case False
    let ?ch = "alphabet ! unat (?t + (q - ?t) mod (36 - ?t))"
    have "stores cap (put cap ?ch d) (delta_digits (k + 36) ((q - ?t) div (36 - ?t)) bias)
            (label_delta cap (k + 36) ((q - ?t) div (36 - ?t)) bias (put cap ?ch d))"
      using 1 False by (simp add: Let_def)
    from stores_trans [OF stores_put this]
    show ?thesis using False by (simp add: label_delta.simps [of cap k] delta_digits.simps [of k] Let_def)
  qed
qed

lemma alphabet_digit: "i < 36 \<Longrightarrow> puny_digit (alphabet ! i) = Some i"
proof -
  have "\<forall>i \<in> {..<36}. puny_digit (alphabet ! i) = Some i" by code_simp
  then show "i < 36 \<Longrightarrow> puny_digit (alphabet ! i) = Some i" by simp
qed

lemma threshold_nat: "unat (threshold k bias) = puny_threshold (unat k) (unat bias)"
  by (auto simp: threshold_def puny_threshold_def Let_def word_less_nat_alt unat_sub word_le_nat_alt min_def not_le)

lemma delta_digits_decode:
  assumes "unat q < 10 ^ j" and "unat k + 36 * j < 2 ^ 32"
  shows "puny_delta (unat bias) (unat k) w acc (delta_digits k q bias @ rest) = Some (acc + unat q * w, rest)"
  using assms
proof (induction j arbitrary: k q w acc)
  case 0
  then have "q = 0" by (simp add: unat_eq_0)
  moreover have "0 < threshold k bias" using threshold_range(1) [of k bias] by (simp add: word_less_nat_alt word_le_nat_alt)
  ultimately show ?case
    by (simp add: delta_digits.simps [of k] alphabet_digit word_less_nat_alt flip: threshold_nat)
next
  case (Suc j)
  let ?t = "threshold k bias"
  have t: "1 \<le> unat ?t" "unat ?t \<le> 26" using threshold_range [of k bias] by (simp_all add: word_le_nat_alt)
  show ?case
  proof (cases "q < ?t")
    case True
    then have "unat q < unat ?t" by (simp add: word_less_nat_alt)
    then show ?thesis
      using True t by (simp add: delta_digits.simps [of k] alphabet_digit flip: threshold_nat)
  next
    case False
    let ?x = "unat q - unat ?t" and ?y = "36 - unat ?t"
    have q: "unat ?t \<le> unat q" using False by (simp add: word_less_nat_alt)
    have xy: "unat (q - ?t) = ?x" "unat (36 - ?t) = ?y"
      using q t by (simp_all add: unat_sub word_le_nat_alt)
    have m: "?x mod ?y < ?y" using t by simp
    have d: "unat (?t + (q - ?t) mod (36 - ?t)) = unat ?t + ?x mod ?y"
    proof -
      have "unat ?t + ?x mod ?y < 36" using m t by linarith
      then show ?thesis by (subst unat_add_lem [THEN iffD1]) (simp_all add: unat_mod xy)
    qed
    have "?x div ?y \<le> ?x div 10" using t by (intro div_le_mono2) auto
    moreover have "?x < 10 * 10 ^ j" using Suc.prems(1) by simp
    ultimately have "unat ((q - ?t) div (36 - ?t)) < 10 ^ j" by (simp add: unat_div xy less_mult_imp_div_less)
    moreover have k: "unat (k + 36) = unat k + 36"
      using Suc.prems(2) by (subst unat_add_lem [THEN iffD1]) simp_all
    ultimately have "puny_delta (unat bias) (unat k + 36) (w * ?y) (acc + (unat ?t + ?x mod ?y) * w)
        (delta_digits (k + 36) ((q - ?t) div (36 - ?t)) bias @ rest) =
        Some (acc + (unat ?t + ?x mod ?y) * w + unat ((q - ?t) div (36 - ?t)) * (w * ?y), rest)"
      using Suc.IH [of "(q - ?t) div (36 - ?t)" "k + 36"] Suc.prems(2) by simp
    moreover have "acc + (unat ?t + ?x mod ?y) * w + unat ((q - ?t) div (36 - ?t)) * (w * ?y) = acc + unat q * w"
    proof -
      have "unat ?t + ?x mod ?y + ?x div ?y * ?y = unat q" using q div_mult_mod_eq [of ?x ?y] by linarith
      then have "acc + (unat ?t + ?x mod ?y + ?x div ?y * ?y) * w = acc + unat q * w" by simp
      then show ?thesis by (simp add: unat_div xy algebra_simps)
    qed
    moreover have "puny_digit (alphabet ! (unat ?t + ?x mod ?y)) = Some (unat ?t + ?x mod ?y)"
      using m t by (intro alphabet_digit) linarith
    ultimately show ?thesis
      using False by (simp add: delta_digits.simps [of k] Let_def d flip: threshold_nat)
  qed
qed

subsection \<open>The bias\<close>

lemma label_bias_nat:
  assumes "unat d < 35 ^ j" and "unat b + 36 * j < 2 ^ 32"
  shows "\<exists>b' d'. label_bias b d = (b', d') \<and> puny_bias (unat b) (unat d) = (unat b', unat d') \<and>
                 unat d' \<le> 455 \<and> unat b' \<le> unat b + 36 * j"
  using assms
proof (induction j arbitrary: b d)
  case 0
  then show ?case by (simp add: label_bias.simps [of b] puny_bias.simps [of "unat b"] unat_eq_0)
next
  case (Suc j)
  show ?case
  proof (cases "d > 455")
    case True
    have b: "unat (b + 36) = unat b + 36" using Suc.prems(2) by (subst unat_add_lem [THEN iffD1]) simp_all
    have d: "unat (d div 35) = unat d div 35" by (simp add: unat_div)
    have "unat d div 35 < 35 ^ j" using Suc.prems(1) by (simp add: less_mult_imp_div_less)
    then show ?thesis
      using Suc.IH [of "d div 35" "b + 36"] Suc.prems(2) b d True
      by (auto simp: label_bias.simps [of b] puny_bias.simps [of "unat b"] word_less_nat_alt)
  next
    case False
    then show ?thesis
      by (simp add: label_bias.simps [of b] puny_bias.simps [of "unat b"] word_less_nat_alt)
  qed
qed

definition label_adapt :: "u32 \<Rightarrow> bool \<Rightarrow> u32 \<Rightarrow> u32" where
  "label_adapt delta first h =
     (let delta1 = delta div 2;
          delta2 = (if first then delta1 div 350 else delta1);
          (bias, delta4) = label_bias 0 (delta2 + delta2 div h)
      in bias + 36 * delta4 div (delta4 + 38))"

lemma label_emit_eq:
  "label_emit cap s = s\<lparr>l_d := label_delta cap 36 (l_delta s) (l_bias s) (l_d s),
      l_bias := label_adapt (l_delta s) (l_first s) (l_h s + 1), l_delta := 0, l_first := False,
      l_h := l_h s + 1, l_todo := l_todo s - 1\<rparr>"
  by (simp add: label_emit_def label_adapt_def Let_def split: prod.splits)

text \<open>The adaptation of the bias agrees with the specification and stays small.\<close>

lemma label_adapt_nat:
  assumes "0 < unat h"
  shows "unat (label_adapt delta first h) = puny_adapt (unat delta) (unat h) first"
proof -
  let ?d2 = "if first then delta div 2 div 350 else delta div 2"
  let ?n2 = "if first then unat delta div 700 else unat delta div 2"
  have d2: "unat ?d2 = ?n2" using div_mult2_eq [of "unat delta" 2 350] by (simp add: unat_div)
  have le: "?n2 \<le> 2147483647"
    using unat_bound [of delta] by (auto intro: order_trans [of _ "unat delta div 2"] div_le_mono2)
  have "?n2 div unat h \<le> ?n2" by simp
  then have "?n2 + ?n2 div unat h < 4294967296" using le by linarith
  then have d3: "unat (?d2 + ?d2 div h) = ?n2 + ?n2 div unat h"
    by (subst unat_add_lem [THEN iffD1]) (simp_all only: d2 unat_div, simp)
  obtain b' d' where lb: "label_bias 0 (?d2 + ?d2 div h) = (b', d')"
    and pb: "puny_bias 0 (?n2 + ?n2 div unat h) = (unat b', unat d')" and "unat d' \<le> 455" "unat b' \<le> 288"
    using label_bias_nat [of "?d2 + ?d2 div h" 8 0] unat_bound [of "?d2 + ?d2 div h"] d3 by auto
  have "unat (36 * d') = 36 * unat d'"
    using \<open>unat d' \<le> 455\<close> by (subst unat_mult_lem [THEN iffD1]) simp_all
  moreover have "unat (d' + 38) = unat d' + 38"
    using \<open>unat d' \<le> 455\<close> by (subst unat_add_lem [THEN iffD1]) simp_all
  ultimately have x: "unat (36 * d' div (d' + 38)) = 36 * unat d' div (unat d' + 38)" by (simp add: unat_div)
  have "36 * unat d' div (unat d' + 38) \<le> 36 * unat d'" by simp
  then have "unat b' + 36 * unat d' div (unat d' + 38) < 4294967296"
    using \<open>unat d' \<le> 455\<close> \<open>unat b' \<le> 288\<close> by linarith
  then have "unat (b' + 36 * d' div (d' + 38)) = unat b' + 36 * unat d' div (unat d' + 38)"
    by (subst unat_add_lem [THEN iffD1]) (simp_all only: x, simp)
  then show ?thesis by (simp add: label_adapt_def puny_adapt_def Let_def lb pb)
qed

subsection \<open>One scan of the label\<close>

text \<open>
  The encoder and the decoder at the same point: the decoder has \<open>out\<close>, its next insertion is counted
  from \<open>(nd, i)\<close>; the encoder has reached \<open>(m, pos)\<close> and owes the decoder \<^verbatim>\<open>delta\<close>.
\<close>

definition linked :: "label_state \<Rightarrow> nat \<Rightarrow> nat \<Rightarrow> nat list \<Rightarrow> nat \<Rightarrow> nat \<Rightarrow> bool" where
  "linked s nd i out m pos \<longleftrightarrow>
     unat (l_h s) = length out \<and>
     nd * (length out + 1) + i + unat (l_delta s) = m * (length out + 1) + pos"

lemma div_mod_sum:
  fixes k len pos :: nat
  assumes "pos < len"
  shows "(k * len + pos) div len = k" and "(k * len + pos) mod len = pos"
  using assms by (simp_all add: div_add1_eq)

lemma puny_loop_step:
  assumes "puny_delta bias 36 1 0 (ds @ rest) = Some (delta, rest)" and "ds \<noteq> []"
    and "nd * (length out + 1) + i + delta = m * (length out + 1) + pos" and "pos \<le> length out"
    and "nd \<le> m"
  shows "puny_loop nd i bias first out (ds @ rest) =
         puny_loop m (pos + 1) (puny_adapt delta (length out + 1) first) False (insert_at pos m out) rest"
proof -
  let ?len = "length out + 1"
  have "i + delta = (m - nd) * ?len + pos"
  proof -
    have "m * ?len = nd * ?len + (m - nd) * ?len" using assms(5) by (simp flip: distrib_right)
    then show ?thesis using assms(3) by linarith
  qed
  then have "(i + delta) div ?len = m - nd" "(i + delta) mod ?len = pos"
    using assms(4) div_mod_sum [of pos ?len "m - nd"] by simp_all
  then show ?thesis using assms(1,2,5) by (subst puny_loop.simps) (simp add: Let_def)
qed

lemma delta_digits_set: "set (delta_digits k q bias) \<subseteq> set alphabet"
proof (induction k q bias rule: delta_digits.induct)
  case (1 k q bias)
  let ?t = "threshold k bias"
  have t: "1 \<le> unat ?t" "unat ?t \<le> 26" using threshold_range [of k bias] by (simp_all add: word_le_nat_alt)
  have l: "length alphabet = 36" by (simp add: alphabet_def)
  show ?case
  proof (cases "q < ?t")
    case True
    then have "unat q < length alphabet" using t l by (simp add: word_less_nat_alt)
    then show ?thesis using True by (simp add: delta_digits.simps [of k])
  next
    case False
    have "unat (36 - ?t) = 36 - unat ?t" using t by (simp add: unat_sub word_le_nat_alt)
    moreover have "unat ((q - ?t) mod (36 - ?t)) < unat (36 - ?t)"
      using t calculation by (simp add: unat_mod)
    moreover have "unat (?t + (q - ?t) mod (36 - ?t)) \<le> unat ?t + unat ((q - ?t) mod (36 - ?t))"
      by (simp add: unat_word_ariths)
    ultimately have "unat (?t + (q - ?t) mod (36 - ?t)) < length alphabet" using t l by linarith
    then show ?thesis using 1 False by (simp add: delta_digits.simps [of k] Let_def)
  qed
qed

lemma delta_digits_not_Nil [simp]: "delta_digits k q bias \<noteq> []"
  by (simp add: delta_digits.simps [of k] Let_def)

text \<open>A code point that is written: the decoder inserts it.\<close>

lemma label_emit_step:
  assumes "linked s nd i out m pos" and "pos \<le> length out" and "nd \<le> m" and "length out + 1 < 2 ^ 32"
  shows "linked (label_emit cap s) m (pos + 1) (insert_at pos m out) m (pos + 1)"
    and "\<exists>bs. stores cap (l_d s) bs (l_d (label_emit cap s)) \<and> set bs \<subseteq> set alphabet \<and>
           (\<forall>rest. puny_loop nd i (unat (l_bias s)) (l_first s) out (bs @ rest) =
                   puny_loop m (pos + 1) (unat (l_bias (label_emit cap s))) (l_first (label_emit cap s))
                     (insert_at pos m out) rest)"
proof -
  have h: "unat (l_h s + 1) = length out + 1"
    using assms(1,4) by (subst unat_add_lem [THEN iffD1]) (simp_all add: linked_def)
  then show "linked (label_emit cap s) m (pos + 1) (insert_at pos m out) m (pos + 1)"
    using assms(2) by (simp add: linked_def label_emit_eq insert_at_def)
  let ?ds = "delta_digits 36 (l_delta s) (l_bias s)"
  have "unat (l_delta s) < 10 ^ 10" using unat_bound [of "l_delta s"] by simp
  then have "puny_delta (unat (l_bias s)) 36 1 0 (?ds @ rest) = Some (unat (l_delta s), rest)" for rest
    using delta_digits_decode [of "l_delta s" 10 36 "l_bias s" 1 0 rest] by simp
  then have "puny_loop nd i (unat (l_bias s)) (l_first s) out (?ds @ rest) =
      puny_loop m (pos + 1) (puny_adapt (unat (l_delta s)) (length out + 1) (l_first s)) False (insert_at pos m out) rest"
    for rest
    by (rule puny_loop_step) (use assms in \<open>auto simp: linked_def\<close>)
  moreover have "puny_adapt (unat (l_delta s)) (length out + 1) (l_first s) = unat (l_bias (label_emit cap s))"
    using label_adapt_nat [of "l_h s + 1" "l_delta s" "l_first s"] h by (simp add: label_emit_eq)
  moreover have "l_first (label_emit cap s) = False" by (simp add: label_emit_eq)
  moreover have "stores cap (l_d s) ?ds (l_d (label_emit cap s))" by (simp add: label_emit_eq label_delta_stores)
  moreover have "set ?ds \<subseteq> set alphabet" by (rule delta_digits_set)
  ultimately show "\<exists>bs. stores cap (l_d s) bs (l_d (label_emit cap s)) \<and> set bs \<subseteq> set alphabet \<and>
           (\<forall>rest. puny_loop nd i (unat (l_bias s)) (l_first s) out (bs @ rest) =
                   puny_loop m (pos + 1) (unat (l_bias (label_emit cap s))) (l_first (label_emit cap s))
                     (insert_at pos m out) rest)"
    by (intro exI [of _ ?ds]) auto
qed

text \<open>The part of a label the decoder has when the scan for \<open>m\<close> has passed \<open>pre\<close>.\<close>

definition passed :: "nat \<Rightarrow> nat list \<Rightarrow> nat list \<Rightarrow> nat list" where
  "passed m pre post = [c \<leftarrow> pre. c \<le> m] @ [c \<leftarrow> post. c < m]"

lemma passed_emit: "passed m (pre @ [m]) post = insert_at (length [c \<leftarrow> pre. c \<le> m]) m (passed m pre (m # post))"
  by (simp add: passed_def insert_at_def)

lemma passed_skip: "c \<noteq> m \<Longrightarrow> passed m (pre @ [c]) post = passed m pre (c # post)"
  by (auto simp: passed_def)

definition small_label :: "nat list \<Rightarrow> bool" where
  "small_label cps \<longleftrightarrow> length cps < 2048 \<and> (\<forall>c \<in> set cps. c \<le> 0x10FFFF)"

lemma linked_bound:
  assumes "linked s nd i out m pos" and "m \<le> 0x10FFFF" and "pos \<le> length out" and "length out < 2048"
  shows "unat (l_delta s) + 1 < 2 ^ 32"
proof -
  have "unat (l_delta s) \<le> m * (length out + 1) + pos" using assms(1) by (simp add: linked_def)
  moreover have "m * (length out + 1) \<le> 0x10FFFF * 2048" using assms by (intro mult_le_mono) auto
  ultimately show ?thesis using assms(3,4) by simp
qed

lemma label_scan_step:
  assumes "linked s nd i (passed m pre post) m (length [c \<leftarrow> pre. c \<le> m])" and "nd \<le> m"
    and "small_label (pre @ post)" and "m \<le> 0x10FFFF"
  shows "\<exists>s' bs nd' i'. label_scan cap (map of_nat post) (of_nat m) s = Some s' \<and>
           stores cap (l_d s) bs (l_d s') \<and> set bs \<subseteq> set alphabet \<and> nd' \<le> m \<and>
           linked s' nd' i' [c \<leftarrow> pre @ post. c \<le> m] m (length [c \<leftarrow> pre @ post. c \<le> m]) \<and>
           l_todo s' = l_todo s - of_nat (count_list post m) \<and>
           (\<forall>rest. puny_loop nd i (unat (l_bias s)) (l_first s) (passed m pre post) (bs @ rest) =
                   puny_loop nd' i' (unat (l_bias s')) (l_first s') [c \<leftarrow> pre @ post. c \<le> m] rest)"
  using assms
proof (induction post arbitrary: pre s nd i)
  case Nil
  then show ?case by (intro exI [of _ s] exI [of _ "[]"] exI [of _ nd] exI [of _ i]) (simp add: passed_def)
next
  case (Cons c post)
  let ?pos = "length [c \<leftarrow> pre. c \<le> m]"
  let ?out = "passed m pre (c # post)"
  have len: "length ?out < 2048" "?pos \<le> length ?out"
    using Cons.prems(3) length_filter_le [of "\<lambda>c. c \<le> m" pre] length_filter_le [of "\<lambda>d. d < m" "c # post"]
    by (auto simp: passed_def small_label_def simp del: length_filter_le)
  have small: "small_label ((pre @ [c]) @ post)" using Cons.prems(3) by simp
  have c: "(of_nat c :: u32) < of_nat m \<longleftrightarrow> c < m" "(of_nat c :: u32) = of_nat m \<longleftrightarrow> c = m"
    using Cons.prems(3,4) of_nat_u32_cmp(1) [of c m] of_nat_u32_cmp(1) [of m c]
    by (auto simp: small_label_def)
  show ?case
  proof (cases "c = m")
    case True
    note e = label_emit_step [OF Cons.prems(1) len(2) Cons.prems(2), of cap]
    have o: "passed m (pre @ [c]) post = insert_at ?pos m ?out" using True by (simp add: passed_emit)
    have "linked (label_emit cap s) m (?pos + 1) (passed m (pre @ [c]) post) m (length [c \<leftarrow> pre @ [c]. c \<le> m])"
      using e(1) len(1) True o by simp
    from Cons.IH [OF this order_refl small Cons.prems(4)] obtain s' bs nd' i' where
      IH: "label_scan cap (map of_nat post) (of_nat m) (label_emit cap s) = Some s'"
        "stores cap (l_d (label_emit cap s)) bs (l_d s')" "set bs \<subseteq> set alphabet" "nd' \<le> m"
        "linked s' nd' i' [c \<leftarrow> (pre @ [c]) @ post. c \<le> m] m (length [c \<leftarrow> (pre @ [c]) @ post. c \<le> m])"
        "l_todo s' = l_todo (label_emit cap s) - of_nat (count_list post m)"
        "\<And>rest. puny_loop m (?pos + 1) (unat (l_bias (label_emit cap s))) (l_first (label_emit cap s))
               (passed m (pre @ [c]) post) (bs @ rest) =
             puny_loop nd' i' (unat (l_bias s')) (l_first s') [c \<leftarrow> (pre @ [c]) @ post. c \<le> m] rest"
      by blast
    obtain bs0 where b0: "stores cap (l_d s) bs0 (l_d (label_emit cap s))" "set bs0 \<subseteq> set alphabet"
      "\<And>rest. puny_loop nd i (unat (l_bias s)) (l_first s) ?out (bs0 @ rest) =
             puny_loop m (?pos + 1) (unat (l_bias (label_emit cap s))) (l_first (label_emit cap s)) (insert_at ?pos m ?out) rest"
      using e(2) len(1) by auto
    have "label_scan cap (map of_nat (c # post)) (of_nat m) s = Some s'" using IH(1) c True by (simp add: Let_def)
    moreover have "stores cap (l_d s) (bs0 @ bs) (l_d s')" using stores_trans b0(1) IH(2) by blast
    moreover have "l_todo s' = l_todo s - of_nat (count_list (c # post) m)"
      using IH(6) True by (simp add: label_emit_eq)
    moreover have "puny_loop nd i (unat (l_bias s)) (l_first s) ?out ((bs0 @ bs) @ rest) =
          puny_loop nd' i' (unat (l_bias s')) (l_first s') [c \<leftarrow> pre @ c # post. c \<le> m] rest" for rest
      using b0(3) IH(7) o by simp
    ultimately show ?thesis using IH(3-5) b0(2)
      by (intro exI [of _ s'] exI [of _ "bs0 @ bs"] exI [of _ nd'] exI [of _ i']) simp
  next
    case False
    let ?s1 = "s\<lparr>l_delta := (if c < m then l_delta s + 1 else l_delta s)\<rparr>"
    have d: "unat (l_delta s + 1) = unat (l_delta s) + 1"
      using linked_bound [OF Cons.prems(1,4) len(2,1)] by (subst unat_add_lem [THEN iffD1]) simp_all
    then have nz: "l_delta s + 1 \<noteq> 0" by auto
    have "linked ?s1 nd i (passed m (pre @ [c]) post) m (length [c \<leftarrow> pre @ [c]. c \<le> m])"
      using Cons.prems(1) False d by (auto simp: linked_def passed_skip)
    from Cons.IH [OF this Cons.prems(2) small Cons.prems(4)]
    show ?thesis using False c nz by (simp add: Let_def passed_skip)
  qed
qed

subsection \<open>All scans\<close>

lemma label_min_nat:
  assumes "\<forall>c \<in> set cps. c < 2 ^ 32" and "n < 2 ^ 32" and "a < 2 ^ 32"
  shows "\<exists>m. label_min (map of_nat cps) (of_nat n) (of_nat a) = of_nat m \<and> m \<le> a \<and>
             (m = a \<or> m \<in> set cps \<and> n \<le> m) \<and> (\<forall>c \<in> set cps. n \<le> c \<longrightarrow> m \<le> c)"
  using assms
proof (induction cps arbitrary: a)
  case (Cons c cps)
  let ?a = "if n \<le> c \<and> c < a then c else a"
  have "?a < 2 ^ 32" using Cons.prems by simp
  then obtain m where m: "label_min (map of_nat cps) (of_nat n) (of_nat ?a) = of_nat m" "m \<le> ?a"
    "m = ?a \<or> m \<in> set cps \<and> n \<le> m" "\<forall>c \<in> set cps. n \<le> c \<longrightarrow> m \<le> c"
    using Cons.IH [of ?a] Cons.prems by auto
  moreover have "label_min (map of_nat (c # cps)) (of_nat n) (of_nat a) = label_min (map of_nat cps) (of_nat n) (of_nat ?a)"
    using Cons.prems of_nat_u32_cmp(1) [of c a] of_nat_u32_cmp(2) [of n c] by simp
  ultimately show ?case by (intro exI [of _ m]) (auto split: if_splits)
qed simp

lemma unat_not_u32: "unat (NOT (w :: u32)) = 2 ^ 32 - 1 - unat w"
proof -
  have "NOT w = - 1 - w" by (simp add: not_eq_complement)
  moreover have "unat (- 1 - w) = unat (- 1 :: u32) - unat w" by (rule unat_sub) simp
  moreover have "unat (- 1 :: u32) = 2 ^ 32 - 1" by (simp add: unsigned_minus_1_eq_mask mask_eq_exp_minus_1)
  ultimately show ?thesis by simp
qed

lemma filter_gap:
  assumes "\<forall>c \<in> set cps. n \<le> c \<longrightarrow> m \<le> c" and "n \<le> m"
  shows "[c \<leftarrow> cps. c < m] = [c \<leftarrow> cps. c < (n :: nat)]"
  using assms by (intro filter_cong) force+

lemma filter_next:
  assumes "\<forall>c \<in> set cps. n \<le> c \<longrightarrow> m \<le> c" and "n \<le> (m :: nat)"
  shows "length [c \<leftarrow> cps. n \<le> c] = count_list cps m + length [c \<leftarrow> cps. m + 1 \<le> c]"
  using assms(1) by (induction cps) (use assms(2) in auto)

lemma label_overflow_check:
  assumes "linked s nd i out n 0" and "n \<le> m" and "m \<le> 0x10FFFF" and "length out < 2048"
  shows "\<not> of_nat m - of_nat n > NOT (l_delta s) div (l_h s + 1)"
    and "linked (s\<lparr>l_delta := l_delta s + (of_nat m - of_nat n) * (l_h s + 1)\<rparr>) nd i out m 0"
proof -
  let ?x = "of_nat m - of_nat n :: u32" and ?y = "l_h s + 1"
  have x: "unat ?x = m - n"
    using assms(2,3) by (subst unat_sub) (simp_all add: word_le_nat_alt unat_of_nat_lt)
  have y: "unat ?y = length out + 1"
    using assms(1,4) by (subst unat_add_lem [THEN iffD1]) (simp_all add: linked_def)
  have mn: "m * (length out + 1) = n * (length out + 1) + (m - n) * (length out + 1)"
    using assms(2) by (simp flip: distrib_right)
  have mb: "m * (length out + 1) \<le> 0x10FFFF * 2048" using assms(3,4) by (intro mult_le_mono) auto
  have le: "unat (l_delta s) + (m - n) * (length out + 1) \<le> m * (length out + 1)"
    using assms(1) mn by (simp add: linked_def)
  then have s: "unat (l_delta s) + (m - n) * (length out + 1) < 4294967296" using mb by linarith
  have "(m - n) * (length out + 1) \<le> 2 ^ 32 - 1 - unat (l_delta s)" using s by simp
  then have "m - n \<le> unat (NOT (l_delta s) div ?y)"
    by (simp add: unat_div unat_not_u32 y less_eq_div_iff_mult_less_eq del: mult_Suc_right)
  then show "\<not> ?x > NOT (l_delta s) div ?y" using x by (simp add: word_less_nat_alt)
  have "unat (?x * ?y) = (m - n) * (length out + 1)"
    using s by (subst unat_mult_lem [THEN iffD1]) (simp_all only: x y, simp)
  then have "unat (l_delta s + ?x * ?y) = unat (l_delta s) + (m - n) * (length out + 1)"
    using s by (subst unat_add_lem [THEN iffD1]) simp_all
  then show "linked (s\<lparr>l_delta := l_delta s + ?x * ?y\<rparr>) nd i out m 0"
    using assms(1) mn by (simp add: linked_def)
qed

lemma label_loop_ok:
  assumes "small_label cps" and "linked s nd i [c \<leftarrow> cps. c < n] n 0" and "nd \<le> n" and "n \<le> 0x110000"
    and "l_todo s = of_nat (length [c \<leftarrow> cps. n \<le> c])" and "length [c \<leftarrow> cps. n \<le> c] \<le> fuel"
  shows "\<exists>d' bs. label_loop fuel cap (map of_nat cps) (of_nat n) s = Some (Inr d') \<and>
           stores cap (l_d s) bs d' \<and> set bs \<subseteq> set alphabet \<and>
           puny_loop nd i (unat (l_bias s)) (l_first s) [c \<leftarrow> cps. c < n] bs = Some cps"
  using assms(2-)
proof (induction fuel arbitrary: s nd i n)
  case 0
  then have "[c \<leftarrow> cps. c < n] = cps" by (simp add: filter_empty_conv not_le)
  then show ?case using 0 by (auto simp: label_loop.simps [of 0] puny_loop.simps intro!: exI [of _ "[]"])
next
  case (Suc fuel)
  let ?rem = "[c \<leftarrow> cps. n \<le> c]"
  have len: "length ?rem < 2048" "length [c \<leftarrow> cps. c < n] < 2048"
    using assms(1) length_filter_le le_less_trans unfolding small_label_def by blast+
  show ?case
  proof (cases "?rem = []")
    case True
    then have "[c \<leftarrow> cps. c < n] = cps" by (simp add: filter_empty_conv not_le)
    then show ?thesis
      using Suc.prems(4) True by (auto simp: label_loop.simps [of "Suc fuel"] puny_loop.simps intro!: exI [of _ "[]"])
  next
    case False
    have "length ?rem < 2 ^ 32" using len(1) by simp
    then have "unat (l_todo s) = length ?rem" using Suc.prems(4) by (simp add: unat_of_nat_lt)
    then have todo: "l_todo s \<noteq> 0" using False by (metis length_0_conv unat_0)
    have cb: "\<forall>c \<in> set cps. c < 2 ^ 32" "n < 2 ^ 32" using assms(1) Suc.prems(3) by (auto simp: small_label_def)
    obtain m where lm: "label_min (map of_nat cps) (of_nat n) (of_nat (2 ^ 32 - 1)) = of_nat m"
      and m0: "m = 2 ^ 32 - 1 \<or> m \<in> set cps \<and> n \<le> m" and mc: "\<forall>c \<in> set cps. n \<le> c \<longrightarrow> m \<le> c"
      using label_min_nat [OF cb, of "2 ^ 32 - 1"] by auto
    obtain c where "c \<in> set cps" "n \<le> c" using False by (auto simp: filter_empty_conv)
    then have "m \<le> 0x10FFFF" using mc assms(1) unfolding small_label_def by (meson order_trans)
    then have m: "m \<in> set cps" "n \<le> m" "m \<le> 0x10FFFF" using m0 by auto
    have gap: "[c \<leftarrow> cps. c < m] = [c \<leftarrow> cps. c < n]" using filter_gap [OF mc m(2)] .
    let ?s1 = "s\<lparr>l_delta := l_delta s + (of_nat m - of_nat n) * (l_h s + 1)\<rparr>"
    note chk = label_overflow_check [OF Suc.prems(1) m(2,3) len(2)]
    have "linked ?s1 nd i (passed m [] cps) m (length [c \<leftarrow> []. c \<le> m])"
      using chk(2) gap by (simp add: passed_def)
    moreover have "nd \<le> m" "small_label ([] @ cps)" using Suc.prems(2) m(2) assms(1) by simp_all
    ultimately obtain s' bs nd' i' where
      sc: "label_scan cap (map of_nat cps) (of_nat m) ?s1 = Some s'"
        "stores cap (l_d ?s1) bs (l_d s')" "set bs \<subseteq> set alphabet" "nd' \<le> m"
        "linked s' nd' i' [c \<leftarrow> [] @ cps. c \<le> m] m (length [c \<leftarrow> [] @ cps. c \<le> m])"
        "l_todo s' = l_todo ?s1 - of_nat (count_list cps m)"
        "\<And>rest. puny_loop nd i (unat (l_bias ?s1)) (l_first ?s1) (passed m [] cps) (bs @ rest) =
             puny_loop nd' i' (unat (l_bias s')) (l_first s') [c \<leftarrow> [] @ cps. c \<le> m] rest"
      using label_scan_step [OF _ _ _ m(3)] by blast
    let ?s2 = "s'\<lparr>l_delta := l_delta s' + 1\<rparr>"
    have le: "[c \<leftarrow> cps. c \<le> m] = [c \<leftarrow> cps. c < m + 1]" by (intro filter_cong) auto
    have "length [c \<leftarrow> cps. c \<le> m] < 2048"
      using assms(1) length_filter_le le_less_trans unfolding small_label_def by blast
    then have "unat (l_delta s') + 1 < 2 ^ 32" using linked_bound [OF sc(5) m(3)] by simp
    then have "unat (l_delta s' + 1) = unat (l_delta s') + 1" by (subst unat_add_lem [THEN iffD1]) simp_all
    then have "linked ?s2 nd' i' [c \<leftarrow> cps. c < m + 1] (m + 1) 0" using sc(5) le by (simp add: linked_def)
    moreover have cnt: "length ?rem = count_list cps m + length [c \<leftarrow> cps. m + 1 \<le> c]" by (rule filter_next [OF mc m(2)])
    then have "l_todo ?s2 = of_nat (length [c \<leftarrow> cps. m + 1 \<le> c])" using sc(6) Suc.prems(4) by simp
    moreover have "0 < count_list cps m" using m(1) by (simp add: count_list_0_iff neq0_conv [symmetric] del: neq0_conv)
    then have "length [c \<leftarrow> cps. m + 1 \<le> c] \<le> fuel" using Suc.prems(5) cnt by simp
    ultimately obtain d' bs' where IH:
        "label_loop fuel cap (map of_nat cps) (of_nat (m + 1)) ?s2 = Some (Inr d')"
        "stores cap (l_d ?s2) bs' d'" "set bs' \<subseteq> set alphabet"
        "puny_loop nd' i' (unat (l_bias ?s2)) (l_first ?s2) [c \<leftarrow> cps. c < m + 1] bs' = Some cps"
      using Suc.IH [of ?s2 nd' i' "m + 1"] sc(4) m(3) by auto
    have minus1: "(of_nat (2 ^ 32 - 1) :: u32) = - 1" by simp
    have "label_loop (Suc fuel) cap (map of_nat cps) (of_nat n) s = Some (Inr d')"
      using lm todo chk(1) sc(1) IH(1) unfolding minus1
      by (subst label_loop.simps) (simp add: Let_def add.commute)
    moreover have "stores cap (l_d s) (bs @ bs') d'" using stores_trans [of cap "l_d s" bs "l_d s'"] sc(2) IH(2) by simp
    moreover have "puny_loop nd i (unat (l_bias s)) (l_first s) [c \<leftarrow> cps. c < n] (bs @ bs') = Some cps"
      using sc(7) [of bs'] IH(4) gap le by (simp add: passed_def)
    ultimately show ?thesis using sc(3) IH(3) by (intro exI [of _ d'] exI [of _ "bs @ bs'"]) simp
  qed
qed

subsection \<open>A label\<close>

lemma of_nat_small:
  "c < 128 \<longleftrightarrow> (of_nat c :: u32) < 128" "(of_nat c :: u32) > 127 \<longleftrightarrow> 128 \<le> c" "(of_nat c :: u32) \<noteq> - 1"
  if "c \<le> 0x10FFFF" for c
proof -
  show "c < 128 \<longleftrightarrow> (of_nat c :: u32) < 128" using of_nat_u32_cmp(1) [of c 128] that by simp
  show "(of_nat c :: u32) > 127 \<longleftrightarrow> 128 \<le> c" using of_nat_u32_cmp(1) [of 127 c] that by auto
  have "unat (of_nat c :: u32) = c" using that by (simp add: unat_of_nat_lt)
  moreover have "unat (- 1 :: u32) = 2 ^ 32 - 1" by (simp add: unsigned_minus_1_eq_mask mask_eq_exp_minus_1)
  ultimately show "(of_nat c :: u32) \<noteq> - 1" using that by fastforce
qed

lemma label_count_nat:
  assumes "\<forall>c \<in> set cps. c \<le> 0x10FFFF"
  shows "label_count (map of_nat cps) h todo =
         Some (h + of_nat (length [c \<leftarrow> cps. c < 128]), todo + of_nat (length [c \<leftarrow> cps. 128 \<le> c]))"
  using assms
proof (induction cps arbitrary: h todo)
  case (Cons c cps)
  then show ?case using of_nat_small [of c] by (cases "c < 128") auto
qed simp

lemma label_ascii_stores:
  assumes "\<forall>c \<in> set cps. c \<le> 0x10FFFF" and "unat h = unat x + length [c \<leftarrow> cps. c < 128]"
  shows "stores cap d (map of_nat [c \<leftarrow> cps. c < 128]) (label_ascii cap (map of_nat cps) h x d)"
  using assms
proof (induction cps arbitrary: x d)
  case (Cons c cps)
  show ?case
  proof (cases "c < 128")
    case True
    have c: "\<not> (of_nat c :: u32) > 127" using of_nat_small(2) [of c] Cons.prems(1) True by simp
    have b: "ucast (of_nat c :: u32) = (of_nat c :: u8)"
      using True by (simp add: word_unat_eq_iff unsigned_ucast_eq take_bit_eq_mod unat_of_nat)
    have "unat x + 1 < 2 ^ 32 \<or> unat x + 1 = 2 ^ 32" using unat_bound [of x] by auto
    then have x1: "unat (x + 1) = unat x + 1"
      using Cons.prems(2) True unat_bound [of h] by (subst unat_add_lem [THEN iffD1]) auto
    show ?thesis
    proof (cases "x + 1 = h")
      case e: True
      then have "[c \<leftarrow> cps. c < 128] = []" using Cons.prems(2) x1 True by auto
      then show ?thesis using c b e True by (simp add: Let_def)
    next
      case False
      have "stores cap (put cap (of_nat c) d) (map of_nat [c \<leftarrow> cps. c < 128])
              (label_ascii cap (map of_nat cps) h (x + 1) (put cap (of_nat c) d))"
        using Cons.prems True x1 by (intro Cons.IH) simp_all
      from stores_trans [OF stores_put this] show ?thesis using c b False True by (simp add: Let_def)
    qed
  next
    case False
    then show ?thesis using Cons of_nat_small(2) [of c] by simp
  qed
qed simp

definition label_form :: "nat list \<Rightarrow> u8 list \<Rightarrow> bool" where
  "label_form cps bs \<longleftrightarrow>
     (if \<forall>c \<in> set cps. c < 128 then bs = map of_nat cps
      else take 4 bs = map of_char ''xn--'' \<and> puny_decode (drop 4 bs) = Some cps)"

lemma hyphen_not_digit: "hyphen \<notin> set alphabet"
  by code_simp

lemma puny_decode_split:
  assumes "set ds \<subseteq> set alphabet"
  shows "puny_decode (basic @ (if basic = [] then [] else [hyphen]) @ ds) =
         puny_loop 128 0 72 True (map unat basic) ds"
proof -
  have "\<forall>b \<in> set (rev ds). b \<noteq> hyphen" using assms hyphen_not_digit by auto
  then have "takeWhile (\<lambda>b. b \<noteq> hyphen) (rev ds @ xs) = rev ds @ takeWhile (\<lambda>b. b \<noteq> hyphen) xs" for xs
    by (intro takeWhile_append2) auto
  note tw = this
  have "takeWhile (\<lambda>b. b \<noteq> hyphen) (rev ds) = rev ds" using tw [of "[]"] by (simp only: append_Nil2 takeWhile.simps)
  from this tw [of "hyphen # rev basic"] show ?thesis
    by (cases "basic = []") (simp_all only: puny_decode_def Let_def rev_append rev.simps append_Nil append.simps
        takeWhile.simps if_True if_False simp_thms rev_rev_ident append_Nil2, simp_all)
qed

text \<open>
  A label of scalar values, encoded in UTF-8: the function succeeds, and what it stores (as far as it
  fits) is the label itself if it is ASCII, else \<^verbatim>\<open>xn--\<close> and a text that decodes to the label.
\<close>

lemma toascii_label_ok:
  assumes "\<forall>c \<in> set cps. scalar c" and "length cps < 2048" and "holds_text mem p (utf8_text cps)"
    and "length cps \<le> fuel"
  shows "\<exists>bs. uv__idna_toascii_label fuel mem p (p + length (utf8_text cps)) cap d =
                Some (Inr (d @ take (cap - length d) bs)) \<and> label_form cps bs"
proof -
  let ?a = "[c \<leftarrow> cps. c < 128]" and ?t = "[c \<leftarrow> cps. 128 \<le> c]"
  have small: "small_label cps" and le: "\<forall>c \<in> set cps. c \<le> 0x10FFFF"
    using assms(1,2) by (auto simp: small_label_def scalar_def)
  have cs: "codepoints mem p (p + length (utf8_text cps)) = map of_nat cps" by (rule codepoints_utf8 [OF assms(1,3)])
  have cnt: "label_count (map of_nat cps) 0 0 = Some (of_nat (length ?a), of_nat (length ?t))"
    using label_count_nat [OF le, of 0 0] by simp
  have len: "length ?a < 2048" "length ?t < 2048"
    using assms(2) length_filter_le le_less_trans by blast+
  then have u: "unat (of_nat (length ?a) :: u32) = length ?a" "unat (of_nat (length ?t) :: u32) = length ?t"
    by (simp_all add: unat_of_nat_lt)
  show ?thesis
  proof (cases "?t = []")
    case True
    then have a: "?a = cps" by (simp add: filter_empty_conv not_le)
    have "stores cap d (map of_nat ?a) (label_ascii cap (map of_nat cps) (of_nat (length ?a)) 0 d)"
      by (rule label_ascii_stores [OF le]) (simp add: u)
    then show ?thesis
      using True a
      by (intro exI [of _ "map of_nat cps"])
         (auto simp: uv__idna_toascii_label_def Let_def cs cnt stores_def label_form_def filter_empty_conv not_le)
  next
    case False
    let ?x = "put cap hyphen (put cap hyphen (put cap 0x6E (put cap 0x78 d)))"
    let ?d2 = "label_ascii cap (map of_nat cps) (of_nat (length ?a)) 0 ?x"
    let ?d3 = "if (of_nat (length ?a) :: u32) > 0 then put cap hyphen ?d2 else ?d2"
    let ?s = "\<lparr>l_d = ?d3, l_bias = 72, l_delta = 0, l_first = True, l_h = of_nat (length ?a), l_todo = of_nat (length ?t)\<rparr>"
    let ?sep = "if map of_nat ?a = ([] :: u8 list) then [] else [hyphen]"
    have todo: "(of_nat (length ?t) :: u32) \<noteq> 0" using False u(2) by (metis length_0_conv unat_0)
    have h0: "(of_nat (length ?a) :: u32) > 0 \<longleftrightarrow> ?a \<noteq> []" using u(1) by (auto simp: word_less_nat_alt)
    have "stores cap d ((([0x78] @ [0x6E]) @ [hyphen]) @ [hyphen]) ?x"
      by (intro stores_snoc stores_put)
    then have x: "stores cap d (map of_char ''xn--'') ?x" by simp
    have "stores cap ?x (map of_nat ?a) ?d2" by (rule label_ascii_stores [OF le]) (simp add: u)
    moreover have "stores cap ?d2 ?sep ?d3" using h0 by (simp add: filter_empty_conv)
    ultimately have d3: "stores cap d (map of_char ''xn--'' @ map of_nat ?a @ ?sep) ?d3"
      using stores_trans x by blast
    have "linked ?s 128 0 ?a 128 0" by (simp add: linked_def u)
    from label_loop_ok [OF small this order_refl, where cap = cap and fuel = fuel]
    obtain d' ds where l: "label_loop fuel cap (map of_nat cps) (of_nat 128) ?s = Some (Inr d')"
      "stores cap ?d3 ds d'" "set ds \<subseteq> set alphabet" "puny_loop 128 0 72 True ?a ds = Some cps"
      using assms(4) length_filter_le [of "\<lambda>c. 128 \<le> c" cps] by auto
    let ?bs = "map of_char ''xn--'' @ map of_nat ?a @ ?sep @ ds"
    have "stores cap d ?bs d'" using stores_trans [OF d3 l(2)] by simp
    moreover have "uv__idna_toascii_label fuel mem p (p + length (utf8_text cps)) cap d = Some (Inr d')"
      using l(1) todo
      by (cases "(of_nat (length ?a) :: u32) = 0") (simp_all add: uv__idna_toascii_label_def Let_def cs cnt word_gt_0)
    moreover have "map unat (map of_nat ?a :: u8 list) = ?a"
      by (auto simp: unat_of_nat_lt intro!: map_idI)
    then have "puny_decode (map of_nat ?a @ ?sep @ ds) = Some cps"
      using puny_decode_split [OF l(3), of "map of_nat ?a"] l(4) by simp
    moreover have "\<not> (\<forall>c \<in> set cps. c < 128)" using False by (auto simp: filter_empty_conv not_less)
    ultimately show ?thesis
      by (intro exI [of _ ?bs]) (auto simp: stores_def label_form_def filter_empty_conv)
  qed
qed

subsection \<open>A host name\<close>

fun join_dot :: "'a \<Rightarrow> 'a list list \<Rightarrow> 'a list" where
  "join_dot dot [] = []"
| "join_dot dot [l] = l"
| "join_dot dot (l # k # ls) = l @ dot # join_dot dot (k # ls)"

lemma utf8_text_append: "utf8_text (as @ bs) = utf8_text as @ utf8_text bs"
  by (simp add: utf8_text_def)

definition no_dot :: "nat list \<Rightarrow> bool" where
  "no_dot cps \<longleftrightarrow> (\<forall>c \<in> set cps. scalar c \<and> \<not> is_dot (of_nat c))"

lemma toascii_loop_skip:
  assumes "no_dot cps" and "holds_text mem si (utf8_text cps)" and "si + length (utf8_text cps) \<le> se"
  shows "toascii_loop fuel mem s si se cap d = toascii_loop fuel mem s (si + length (utf8_text cps)) se cap d"
  using assms
proof (induction cps arbitrary: si)
  case (Cons c cps)
  have t: "utf8_text (c # cps) = utf8 c @ utf8_text cps" by (simp add: utf8_text_def)
  have lt: "si < se" using Cons.prems(3) utf8_length [of c] unfolding t length_append by linarith
  have "uv__utf8_decode1 mem si se = (of_nat c, si + length (utf8 c))"
    using Cons.prems lt by (intro decode1_utf8) (auto simp: t no_dot_def holds_text_append)
  then have "toascii_loop fuel mem s si se cap d = toascii_loop fuel mem s (si + length (utf8 c)) se cap d"
    using Cons.prems(1) lt by (subst toascii_loop.simps) (simp add: no_dot_def)
  also have "\<dots> = toascii_loop fuel mem s (si + length (utf8 c) + length (utf8_text cps)) se cap d"
    using Cons.prems by (intro Cons.IH) (simp_all add: t no_dot_def holds_text_append)
  finally show ?case by (simp add: t add.assoc)
qed (simp add: utf8_text_def)

lemma toascii_loop_dot:
  assumes "unat (mem si) = 0x2E" and "si < se"
    and "uv__idna_toascii_label fuel mem s si cap d = Some (Inr d')"
  shows "toascii_loop fuel mem s si se cap d = toascii_loop fuel mem (si + 1) (si + 1) se cap (put cap 0x2E d')"
proof -
  have "uv__utf8_decode1 mem si se = (of_nat 0x2E, si + length (utf8 0x2E))"
    using assms by (intro decode1_utf8) (simp_all add: scalar_def utf8_def)
  then show ?thesis using assms by (subst toascii_loop.simps) (simp add: utf8_def is_dot_def)
qed

definition toascii_rest :: "nat \<Rightarrow> text_memory \<Rightarrow> nat \<Rightarrow> nat \<Rightarrow> nat \<Rightarrow> u8 list \<Rightarrow> (uv_error + u8 list) option" where
  "toascii_rest fuel mem s se cap d =
     (case toascii_loop fuel mem s s se cap d of
        None \<Rightarrow> None
      | Some (Inl rc) \<Rightarrow> Some (Inl rc)
      | Some (Inr (s', d)) \<Rightarrow>
          (case (if s' < se then uv__idna_toascii_label fuel mem s' se cap d else Some (Inr d)) of
             None \<Rightarrow> None
           | Some (Inl rc) \<Rightarrow> Some (Inl rc)
           | Some (Inr d') \<Rightarrow> Some (Inr (put cap 0 d'))))"

lemma utf8_text_Nil_iff: "utf8_text l = [] \<longleftrightarrow> l = []"
  using utf8_length by (cases l) (auto simp: utf8_text_def)

lemma toascii_rest_ok:
  assumes "\<forall>l \<in> set labels. no_dot l \<and> length l < 2048 \<and> length l \<le> fuel" and "labels \<noteq> []"
    and "holds_text mem s (utf8_text (join_dot 0x2E labels))" and "se = s + length (utf8_text (join_dot 0x2E labels))"
  shows "\<exists>bss d'. list_all2 label_form labels bss \<and> toascii_rest fuel mem s se cap d = Some (Inr d') \<and>
                  stores cap d (join_dot 0x2E bss @ [0]) d'"
  using assms
proof (induction labels arbitrary: s d)
  case (Cons l labels)
  have l: "no_dot l" "length l < 2048" "length l \<le> fuel" "\<forall>c \<in> set l. scalar c"
    using Cons.prems(1) by (auto simp: no_dot_def)
  let ?e = "s + length (utf8_text l)"
  show ?case
  proof (cases labels)
    case Nil
    then have m: "holds_text mem s (utf8_text l)" "se = ?e" using Cons.prems(3,4) by simp_all
    have lp: "toascii_loop fuel mem s s se cap d = Some (Inr (s, d))"
      using toascii_loop_skip [OF l(1) m(1), of se] m(2) by (simp add: toascii_loop.simps [of fuel mem s ?e])
    obtain bs where bs: "uv__idna_toascii_label fuel mem s ?e cap d = Some (Inr (d @ take (cap - length d) bs))"
      "label_form l bs" using toascii_label_ok [OF l(4,2) m(1) l(3)] by blast
    show ?thesis
    proof (cases "s < se")
      case True
      then have "toascii_rest fuel mem s se cap d = Some (Inr (put cap 0 (d @ take (cap - length d) bs)))"
        using lp bs(1) m(2) by (simp add: toascii_rest_def)
      then show ?thesis
        using bs(2) Nil stores_snoc [of cap d bs "d @ take (cap - length d) bs" 0]
        by (intro exI [of _ "[bs]"]) (auto simp: stores_def)
    next
      case False
      then have "l = []" using m(2) utf8_text_Nil_iff by simp
      moreover have "toascii_rest fuel mem s se cap d = Some (Inr (put cap 0 d))" using lp False by (simp add: toascii_rest_def)
      ultimately show ?thesis using Nil by (intro exI [of _ "[[]]"]) (auto simp: label_form_def)
    qed
  next
    case (Cons k ls)
    then have j: "join_dot 0x2E (l # labels) = l @ [0x2E] @ join_dot 0x2E labels" by simp
    have t: "utf8_text (join_dot 0x2E (l # labels)) = utf8_text l @ [0x2E] @ utf8_text (join_dot 0x2E labels)"
      unfolding j by (simp add: utf8_text_append utf8_text_def utf8_def)
    have m: "holds_text mem s (utf8_text l)" "unat (mem ?e) = 0x2E"
        "holds_text mem (?e + 1) (utf8_text (join_dot 0x2E labels))"
      using Cons.prems(3) unfolding t by (simp_all add: holds_text_append)
    have se: "se = ?e + 1 + length (utf8_text (join_dot 0x2E labels))" using Cons.prems(4) unfolding t by simp
    obtain bs where bs: "uv__idna_toascii_label fuel mem s ?e cap d = Some (Inr (d @ take (cap - length d) bs))"
      "label_form l bs" using toascii_label_ok [OF l(4,2) m(1) l(3)] by blast
    let ?d = "put cap 0x2E (d @ take (cap - length d) bs)"
    have "toascii_loop fuel mem s s se cap d = toascii_loop fuel mem s ?e se cap d"
      using toascii_loop_skip [OF l(1) m(1), of se] se by simp
    also have "\<dots> = toascii_loop fuel mem (?e + 1) (?e + 1) se cap ?d"
      by (rule toascii_loop_dot [OF m(2) _ bs(1)]) (simp add: se)
    finally have r: "toascii_rest fuel mem s se cap d = toascii_rest fuel mem (?e + 1) se cap ?d"
      by (simp add: toascii_rest_def)
    obtain bss d' where IH: "list_all2 label_form labels bss" "toascii_rest fuel mem (?e + 1) se cap ?d = Some (Inr d')"
      "stores cap ?d (join_dot 0x2E bss @ [0]) d'"
      using Cons.IH [OF _ _ m(3) se] Cons.prems(1) \<open>labels = k # ls\<close> by fastforce
    have "stores cap d (bs @ [0x2E]) ?d" by (rule stores_snoc) (simp add: stores_def)
    from stores_trans [OF this IH(3)] have "stores cap d (join_dot 0x2E (bs # bss) @ [0]) d'"
      using IH(1) \<open>labels = k # ls\<close> by (cases bss) auto
    then show ?thesis using IH(1,2) bs(2) r by (intro exI [of _ "bs # bss"] exI [of _ d']) simp
  qed
qed simp

lemma toascii_ok:
  assumes "\<forall>l \<in> set labels. no_dot l \<and> length l < 2048 \<and> length l \<le> fuel" and "labels \<noteq> []"
    and "holds_text mem s (utf8_text (join_dot 0x2E labels))"
  shows "\<exists>bss. list_all2 label_form labels bss \<and>
           uv__idna_toascii fuel mem s (s + length (utf8_text (join_dot 0x2E labels))) cap =
             Some (Inr (take cap (join_dot 0x2E bss @ [0])))"
  using toascii_rest_ok [OF assms refl, of cap "[]"]
  by (auto simp: toascii_rest_def uv__idna_toascii_def stores_def)

subsection \<open>Properties\<close>

lemma holds_text_eq: "holds_text mem p bs \<longleftrightarrow> map (\<lambda>i. unat (mem (p + i))) [0..<length bs] = bs"
  unfolding holds_text_def by (subst list_eq_iff_nth_eq) simp

lemma decode1_scalar:
  assumes "uv__utf8_decode1 mem p pe = (c, p')" and "c \<noteq> invalid_cp"
  shows "scalar (unat c)"
proof -
  have "c \<le> 0x10FFFF \<and> \<not> (0xD800 \<le> c \<and> c \<le> 0xDFFF)"
    using assms
    by (auto simp: uv__utf8_decode1_def uv__utf8_decode1_slow_def Let_def word_le_nat_alt word_less_nat_alt
        split: if_splits option.splits prod.splits)
  then show ?thesis by (simp add: scalar_def word_le_nat_alt)
qed

text \<open>
  \<^verbatim>\<open>uv__utf8_decode1\<close> decodes the UTF-8 form of every Unicode scalar value (one to four bytes) that starts
  inside the input, returns the value, and moves the pointer right behind it.
\<close>

lemma utf8_decode1_correct:
  assumes "scalar c" and "holds_text mem p (utf8 c)" and "p < pe"
  shows "uv__utf8_decode1 mem p pe = (of_nat c, p + length (utf8 c)) \<and> unat (of_nat c :: u32) = c"
proof -
  have "c < 2 ^ 32" using assms(1) by (simp add: scalar_def)
  then show ?thesis using decode1_utf8 [OF assms] by (simp add: unat_of_nat_lt)
qed

text \<open>
  C38: On any memory contents \<^verbatim>\<open>uv__utf8_decode1\<close> returns -1 or a Unicode scalar value: never a surrogate, never
  a value above U+10FFFF.
\<close>

theorem utf8_decode1_range:
  "fst (uv__utf8_decode1 mem p pe) = - 1 \<or> scalar (unat (fst (uv__utf8_decode1 mem p pe)))"
  using decode1_scalar by (metis prod.collapse)

text \<open>
  C33: \<^verbatim>\<open>uv__idna_toascii\<close> on the UTF-8 text of a host name (labels of fewer than 2048 scalar values without dots,
  joined by dots) returns the labels joined by dots and a terminator, cut off at the size of the buffer: an
  ASCII label unchanged, any other label as \<open>xn--\<close> followed by a string that the decoder of RFC 3492 maps
  back to the label. No overflow error occurs, and the loops end within the number of code points of a label.
\<close>

theorem idna_toascii_correct:
  assumes "\<forall>l \<in> set labels. no_dot l \<and> length l < 2048 \<and> length l \<le> fuel" and "labels \<noteq> []"
    and "holds_text mem s (utf8_text (join_dot 0x2E labels))"
  shows "\<exists>bss. list_all2 label_form labels bss \<and>
           uv__idna_toascii fuel mem s (s + length (utf8_text (join_dot 0x2E labels))) cap =
             Some (Inr (take cap (join_dot 0x2E bss @ [0])))"
  by (rule toascii_ok [OF assms])

theorem idna_toascii_correct_witness:
  "\<exists>bss. list_all2 label_form [[0x61, 0xFC], [0x64]] bss \<and>
     uv__idna_toascii 5 (\<lambda>i. [0x61, 0xC3, 0xBC, 0x2E, 0x64] ! i) 0 (0 + length (utf8_text (join_dot 0x2E [[0x61, 0xFC], [0x64]]))) 30 =
       Some (Inr (take 30 (join_dot 0x2E bss @ [0])))"
  by (rule idna_toascii_correct)
     (simp_all add: no_dot_def scalar_def is_dot_def holds_text_eq utf8_text_def utf8_def upt_rec)

text \<open>
  C39: The limit of the input is not respected: with the lead byte of a four-byte sequence as the last byte of the
  input, \<^verbatim>\<open>uv__utf8_decode1\<close> moves the pointer three bytes past the end, because the operands of the subtraction in
  its \<^verbatim>\<open>switch\<close> are reversed.
\<close>

theorem utf8_decode1_overread:
  assumes "0xF0 \<le> mem p" and "mem p \<le> 0xF7"
  shows "snd (uv__utf8_decode1 mem p (p + 1)) = p + 1 + 3"
proof -
  have "unat (byte_at mem p) = unat (mem p)"
    using unat_bound [of "mem p"] by (simp add: byte_at_def unsigned_ucast_eq take_bit_nat_eq_self_iff)
  then have "0xF0 \<le> byte_at mem p" "byte_at mem p \<le> 0xF7" using assms by (simp_all add: word_le_nat_alt)
  then have "\<not> byte_at mem p < 128" "byte_at mem p > 0xEF" "\<not> byte_at mem p > 0xF7"
    by (simp_all add: word_le_nat_alt word_less_nat_alt)
  then show ?thesis
    by (simp add: uv__utf8_decode1_def uv__utf8_decode1_slow_def decode1_switch_def Let_def)
qed

theorem utf8_decode1_overread_witness: "snd (uv__utf8_decode1 (\<lambda>_. 0xF0) 0 (0 + 1)) = 0 + 1 + 3"
  by (rule utf8_decode1_overread) simp_all

text \<open>The check of the continuation bytes looks only at their exclusive or.\<close>

lemma decode1_xor_check: "uv__utf8_decode1 (\<lambda>i. [0xE1, 0x41, 0x41] ! i) 0 3 = (0x1041, 3)"
  by code_simp

end
