(* ===== verification/Uv_Queue.thy ===== *)
theory Uv_Queue
  imports Uv_Base
begin

text \<open>
  The intrusive doubly linked ring of \<^verbatim>\<open>src/queue.h\<close>, over an arbitrary type of addresses. A ring
  \<open>ring m h xs\<close> with head \<open>h\<close> has the elements \<open>xs\<close>; the macros are related to operations on lists.
\<close>

record 'a queue_mem =
  q_next :: "'a \<Rightarrow> 'a"
  q_prev :: "'a \<Rightarrow> 'a"

definition set_next :: "'a \<Rightarrow> 'a \<Rightarrow> 'a queue_mem \<Rightarrow> 'a queue_mem" where
  "set_next q v m = m\<lparr>q_next := (q_next m)(q := v)\<rparr>"

definition set_prev :: "'a \<Rightarrow> 'a \<Rightarrow> 'a queue_mem \<Rightarrow> 'a queue_mem" where
  "set_prev q v m = m\<lparr>q_prev := (q_prev m)(q := v)\<rparr>"

definition QUEUE_NEXT :: "'a queue_mem \<Rightarrow> 'a \<Rightarrow> 'a" where "QUEUE_NEXT m q = q_next m q"
definition QUEUE_PREV :: "'a queue_mem \<Rightarrow> 'a \<Rightarrow> 'a" where "QUEUE_PREV m q = q_prev m q"
definition QUEUE_EMPTY :: "'a queue_mem \<Rightarrow> 'a \<Rightarrow> bool" where "QUEUE_EMPTY m q \<longleftrightarrow> q = QUEUE_NEXT m q"
definition QUEUE_HEAD :: "'a queue_mem \<Rightarrow> 'a \<Rightarrow> 'a" where "QUEUE_HEAD m q = QUEUE_NEXT m q"

definition QUEUE_INIT :: "'a \<Rightarrow> 'a queue_mem \<Rightarrow> 'a queue_mem" where
  "QUEUE_INIT q m = set_prev q q (set_next q q m)"

text \<open>\<^verbatim>\<open>QUEUE_PREV_NEXT(q) = v\<close> and \<^verbatim>\<open>QUEUE_NEXT_PREV(q) = v\<close>\<close>

definition set_prev_next :: "'a \<Rightarrow> 'a \<Rightarrow> 'a queue_mem \<Rightarrow> 'a queue_mem" where
  "set_prev_next q v m = set_next (QUEUE_PREV m q) v m"

definition set_next_prev :: "'a \<Rightarrow> 'a \<Rightarrow> 'a queue_mem \<Rightarrow> 'a queue_mem" where
  "set_next_prev q v m = set_prev (QUEUE_NEXT m q) v m"

definition QUEUE_ADD :: "'a \<Rightarrow> 'a \<Rightarrow> 'a queue_mem \<Rightarrow> 'a queue_mem" where
  "QUEUE_ADD h n m =
     (let m1 = set_prev_next h (QUEUE_NEXT m n) m;
          m2 = set_next_prev n (QUEUE_PREV m1 h) m1;
          m3 = set_prev h (QUEUE_PREV m2 n) m2
      in set_prev_next h h m3)"

definition QUEUE_SPLIT :: "'a \<Rightarrow> 'a \<Rightarrow> 'a \<Rightarrow> 'a queue_mem \<Rightarrow> 'a queue_mem" where
  "QUEUE_SPLIT h q n m =
     (let m1 = set_prev n (QUEUE_PREV m h) m;
          m2 = set_prev_next n n m1;
          m3 = set_next n q m2;
          m4 = set_prev h (QUEUE_PREV m3 q) m3;
          m5 = set_prev_next h h m4
      in set_prev q n m5)"

definition QUEUE_MOVE :: "'a \<Rightarrow> 'a \<Rightarrow> 'a queue_mem \<Rightarrow> 'a queue_mem" where
  "QUEUE_MOVE h n m = (if QUEUE_EMPTY m h then QUEUE_INIT n m else QUEUE_SPLIT h (QUEUE_HEAD m h) n m)"

definition QUEUE_INSERT_HEAD :: "'a \<Rightarrow> 'a \<Rightarrow> 'a queue_mem \<Rightarrow> 'a queue_mem" where
  "QUEUE_INSERT_HEAD h q m =
     (let m1 = set_next q (QUEUE_NEXT m h) m;
          m2 = set_prev q h m1;
          m3 = set_next_prev q q m2
      in set_next h q m3)"

definition QUEUE_INSERT_TAIL :: "'a \<Rightarrow> 'a \<Rightarrow> 'a queue_mem \<Rightarrow> 'a queue_mem" where
  "QUEUE_INSERT_TAIL h q m =
     (let m1 = set_next q h m;
          m2 = set_prev q (QUEUE_PREV m1 h) m1;
          m3 = set_prev_next q q m2
      in set_prev h q m3)"

definition QUEUE_REMOVE :: "'a \<Rightarrow> 'a queue_mem \<Rightarrow> 'a queue_mem" where
  "QUEUE_REMOVE q m =
     (let m1 = set_prev_next q (QUEUE_NEXT m q) m
      in set_next_prev q (QUEUE_PREV m1 q) m1)"

subsection \<open>Rings\<close>

text \<open>Neighbours in the list are linked in both directions.\<close>

fun chain :: "'a queue_mem \<Rightarrow> 'a list \<Rightarrow> bool" where
  "chain m [] \<longleftrightarrow> True"
| "chain m [x] \<longleftrightarrow> True"
| "chain m (x # y # ys) \<longleftrightarrow> q_next m x = y \<and> q_prev m y = x \<and> chain m (y # ys)"

definition ring :: "'a queue_mem \<Rightarrow> 'a \<Rightarrow> 'a list \<Rightarrow> bool" where
  "ring m h xs \<longleftrightarrow> distinct (h # xs) \<and> chain m (h # xs @ [h])"

lemma chain_append: "chain m (xs @ y # ys) \<longleftrightarrow> chain m (xs @ [y]) \<and> chain m (y # ys)"
  by (induction m xs rule: chain.induct) (auto simp: neq_Nil_conv)

lemma chain_Cons: "ys \<noteq> [] \<Longrightarrow> chain m (x # ys) \<longleftrightarrow> q_next m x = hd ys \<and> q_prev m (hd ys) = x \<and> chain m ys"
  by (cases ys) auto

text \<open>A chain depends only on the links between its elements.\<close>

lemma chain_cong:
  assumes "\<And>x. x \<in> set (butlast xs) \<Longrightarrow> q_next m' x = q_next m x"
    and "\<And>x. x \<in> set (tl xs) \<Longrightarrow> q_prev m' x = q_prev m x"
  shows "chain m' xs = chain m xs"
  using assms by (induction m xs rule: chain.induct) auto

lemma ring_cong:
  assumes "ring m h xs" and "\<And>x. x \<in> set (h # xs) \<Longrightarrow> q_next m' x = q_next m x \<and> q_prev m' x = q_prev m x"
  shows "ring m' h xs"
proof -
  have "chain m' (h # xs @ [h]) = chain m (h # xs @ [h])"
    by (rule chain_cong) (use assms(2) in auto)
  then show ?thesis using assms(1) by (simp add: ring_def)
qed

lemma sel_set [simp]:
  "q_next (set_next q v m) = (q_next m)(q := v)" "q_prev (set_next q v m) = q_prev m"
  "q_prev (set_prev q v m) = (q_prev m)(q := v)" "q_next (set_prev q v m) = q_next m"
  by (simp_all add: set_next_def set_prev_def)

lemmas queue_ops =
  QUEUE_NEXT_def QUEUE_PREV_def set_prev_next_def set_next_prev_def Let_def

lemma ring_empty: "ring m h xs \<Longrightarrow> QUEUE_EMPTY m h \<longleftrightarrow> xs = []"
  by (cases xs) (auto simp: ring_def QUEUE_EMPTY_def QUEUE_NEXT_def)

lemma ring_head: "ring m h (x # xs) \<Longrightarrow> QUEUE_HEAD m h = x"
  by (simp add: ring_def QUEUE_HEAD_def QUEUE_NEXT_def)

lemma ring_init: "ring (QUEUE_INIT h m) h []"
  by (simp add: ring_def QUEUE_INIT_def)

text \<open>The ring cut open behind its last element.\<close>

lemma ring_open:
  assumes "ring m h xs"
  obtains bs t where "h # xs = bs @ [t]" "distinct (bs @ [t])" "chain m (bs @ [t])" "q_next m t = h" "q_prev m h = t"
proof -
  obtain bs t where b: "h # xs = bs @ [t]" by (metis list.distinct(1) rev_exhaust)
  then have e: "h # xs @ [h] = bs @ t # [h]" by (metis append.assoc append_Cons append_Nil)
  have "chain m (h # xs @ [h])" "distinct (h # xs)" using assms by (simp_all add: ring_def)
  then have "chain m (bs @ t # [h])" "distinct (bs @ [t])" by (simp_all only: e b)
  then show ?thesis using that b chain_append [of m bs t "[h]"] by simp
qed

lemma ring_close:
  assumes "h # xs = bs @ [t]" and "distinct (bs @ [t])" and "chain m (bs @ [t])" and "q_next m t = h" and "q_prev m h = t"
  shows "ring m h xs"
proof -
  have "chain m (bs @ t # [h])" unfolding chain_append [of m bs t "[h]"] using assms(3-5) by simp
  moreover have "bs @ t # [h] = h # xs @ [h]" using assms(1) by (metis append.assoc append_Cons append_Nil)
  ultimately show ?thesis using assms(1,2) unfolding ring_def by metis
qed

lemma ring_insert_tail:
  assumes r: "ring m h xs" and q: "q \<notin> set (h # xs)"
  shows "ring (QUEUE_INSERT_TAIL h q m) h (xs @ [q])"
proof -
  let ?m = "QUEUE_INSERT_TAIL h q m"
  obtain bs t where b: "h # xs = bs @ [t]" "distinct (bs @ [t])" "chain m (bs @ [t])" "q_next m t = h" "q_prev m h = t"
    by (rule ring_open [OF r])
  have tq: "t \<noteq> q" "q \<notin> set (bs @ [t])" using q b(1) by auto
  have n: "q_next ?m = (q_next m)(q := h, t := q)" and p: "q_prev ?m = (q_prev m)(q := t, h := q)"
    using b tq q by (auto simp: QUEUE_INSERT_TAIL_def queue_ops)
  have "chain ?m (bs @ [t]) = chain m (bs @ [t])"
  proof (rule chain_cong)
    fix x assume "x \<in> set (butlast (bs @ [t]))"
    then show "q_next ?m x = q_next m x" using b(2) tq by (auto simp: n)
  next
    fix x assume "x \<in> set (tl (bs @ [t]))"
    then have "x \<in> set xs" using b(1) by (metis list.sel(3))
    then show "q_prev ?m x = q_prev m x" using r q by (auto simp: p ring_def)
  qed
  moreover have "chain ?m [t, q]" using tq q by (auto simp: n p)
  ultimately have "chain ?m ((bs @ [t]) @ [q])" using b(3) chain_append [of ?m bs t "[q]"] by simp
  then show ?thesis
    by (rule ring_close [rotated 2]) (use b tq q in \<open>auto simp: n p\<close>)
qed

lemma ring_insert_head:
  assumes r: "ring m h xs" and q: "q \<notin> set (h # xs)"
  shows "ring (QUEUE_INSERT_HEAD h q m) h (q # xs)"
proof -
  let ?m = "QUEUE_INSERT_HEAD h q m" and ?f = "hd (xs @ [h])"
  have c: "q_next m h = ?f" "q_prev m ?f = h" "chain m (xs @ [h])" and d: "distinct (h # xs)"
    using r chain_Cons [of "xs @ [h]" m h] by (auto simp: ring_def)
  have "?f \<in> set (xs @ [h])" by (rule hd_in_set) simp
  then have fq: "?f \<noteq> q" using q by auto
  have n: "q_next ?m = (q_next m)(q := ?f, h := q)" and p: "q_prev ?m = (q_prev m)(q := h, ?f := q)"
    using c fq q by (auto simp: QUEUE_INSERT_HEAD_def queue_ops)
  have "chain ?m (xs @ [h]) = chain m (xs @ [h])"
  proof (rule chain_cong)
    fix x assume "x \<in> set (butlast (xs @ [h]))"
    then show "q_next ?m x = q_next m x" using d q by (auto simp: n)
  next
    fix x assume x: "x \<in> set (tl (xs @ [h]))"
    then have "x \<noteq> ?f" using d by (cases xs) auto
    moreover have "x \<noteq> q" using x q by (cases xs) auto
    ultimately show "q_prev ?m x = q_prev m x" by (simp add: p)
  qed
  then have "chain ?m (q # xs @ [h])" using c fq q by (simp add: chain_Cons n p)
  then have "chain ?m (h # q # xs @ [h])" using fq q by (auto simp: n p)
  then show ?thesis using d q by (auto simp: ring_def)
qed

lemma ring_remove:
  assumes r: "ring m h (xs @ q # ys)"
  shows "ring (QUEUE_REMOVE q m) h (xs @ ys)"
proof -
  let ?m = "QUEUE_REMOVE q m"
  obtain bs t where b: "h # xs = bs @ [t]" by (metis list.distinct(1) rev_exhaust)
  obtain f zs where f: "ys @ [h] = f # zs" by (cases "ys @ [h]") auto
  have "h # (xs @ q # ys) @ [h] = bs @ t # q # f # zs" using b f by (metis append.assoc append_Cons append_Nil)
  then have c: "chain m (bs @ [t])" "q_next m t = q" "q_prev m q = t" "q_next m q = f" "q_prev m f = q" "chain m (f # zs)"
    using r chain_append [of m bs t "q # f # zs"] by (auto simp: ring_def)
  have D: "distinct (h # xs)" "q \<notin> set (h # xs)" "distinct (ys @ [h])" "q \<notin> set (ys @ [h])" "set (h # xs) \<inter> set ys = {}"
    using r by (auto simp: ring_def)
  have d: "distinct (bs @ [t])" "q \<notin> set (bs @ [t])" "distinct (f # zs)" "q \<notin> set (f # zs)" "t \<notin> set ys"
    using D b f by (metis, metis, metis, metis) (metis D(5) b disjoint_iff in_set_conv_decomp)
  have ff: "f \<in> set ys \<union> {h}" using f by (metis Un_iff in_set_conv_decomp append_Nil list.set_intros(1) set_append list.simps(15) list.set(1))
  have n: "q_next ?m = (q_next m)(t := f)" and p: "q_prev ?m = (q_prev m)(f := t)"
    using c d by (auto simp: QUEUE_REMOVE_def queue_ops)
  have "chain ?m (bs @ [t]) = chain m (bs @ [t])"
  proof (rule chain_cong)
    fix x assume "x \<in> set (butlast (bs @ [t]))"
    then show "q_next ?m x = q_next m x" using d(1) by (auto simp: n)
  next
    fix x assume "x \<in> set (tl (bs @ [t]))"
    then have "x \<in> set xs" using b by (metis list.sel(3))
    then show "q_prev ?m x = q_prev m x" using D(1,5) ff by (auto simp: p)
  qed
  moreover have "chain ?m (f # zs) = chain m (f # zs)"
  proof (rule chain_cong)
    fix x assume "x \<in> set (butlast (f # zs))"
    then have "x \<in> set ys" using f by (metis butlast_snoc)
    then show "q_next ?m x = q_next m x" using d(5) by (auto simp: n)
  next
    fix x assume "x \<in> set (tl (f # zs))"
    then show "q_prev ?m x = q_prev m x" using d(3) by (auto simp: p)
  qed
  ultimately have "chain ?m (bs @ t # f # zs)" using c by (simp add: chain_append [of _ bs t "f # zs"] n p)
  moreover have "bs @ t # f # zs = h # (xs @ ys) @ [h]" using b f by (metis append.assoc append_Cons append_Nil)
  ultimately show ?thesis using r by (simp add: ring_def)
qed

text \<open>\<^verbatim>\<open>QUEUE_MOVE\<close> leaves the old head empty.\<close>

lemma ring_move:
  assumes r: "ring m h xs" and n: "n \<notin> set (h # xs)"
  shows "ring (QUEUE_MOVE h n m) n xs" and "xs \<noteq> [] \<Longrightarrow> ring (QUEUE_MOVE h n m) h []"
    and "xs = [] \<Longrightarrow> ring (QUEUE_MOVE h n m) h []"
proof -
  let ?m = "QUEUE_MOVE h n m"
  show "xs = [] \<Longrightarrow> ring ?m h []"
    using r n by (auto simp: QUEUE_MOVE_def ring_empty [OF r] QUEUE_INIT_def ring_def)
  have "ring ?m n xs \<and> (xs \<noteq> [] \<longrightarrow> ring ?m h [])"
  proof (cases "xs = []")
    case True
    then show ?thesis using ring_empty [OF r] ring_init by (simp add: QUEUE_MOVE_def)
  next
    case False
    then obtain f fs where xs: "xs = f # fs" by (cases xs) auto
    obtain bs t where b: "xs = bs @ [t]" using False by (metis rev_exhaust)
    have e: "h # xs @ [h] = (h # bs) @ t # [h]" using b by simp
    have "chain m ((h # bs) @ t # [h])" using r unfolding ring_def e by simp
    then have th: "q_next m t = h" "q_prev m h = t" using chain_append [of m "h # bs" t "[h]"] by simp_all
    have hf: "q_next m h = f" "q_prev m f = h" "chain m (xs @ [h])" using r xs by (simp_all add: ring_def)
    then have cx: "chain m xs" using chain_append [of m bs t "[h]"] b by simp
    have d0: "distinct xs" "h \<notin> set xs" "n \<notin> set xs" "n \<noteq> h" using r n by (auto simp: ring_def)
    have "t \<in> set xs" "t \<notin> set bs" using d0(1) unfolding b by auto
    moreover have "f \<in> set xs" "f \<notin> set fs" using d0(1) unfolding xs by auto
    ultimately have d: "distinct xs" "h \<notin> set xs" "n \<notin> set xs" "n \<noteq> h" "t \<in> set xs" "f \<in> set xs" "t \<notin> set bs" "f \<notin> set fs"
      using d0 by simp_all
    have m: "?m = QUEUE_SPLIT h f n m" using ring_empty [OF r] ring_head [of m h f fs] r xs by (simp add: QUEUE_MOVE_def)
    have nx: "q_next ?m = (q_next m)(t := n, n := f, h := h)" and pv: "q_prev ?m = (q_prev m)(n := t, h := h, f := n)"
      using th hf d unfolding m by (auto simp: QUEUE_SPLIT_def queue_ops)
    have "chain ?m xs = chain m xs"
    proof (rule chain_cong)
      fix x assume "x \<in> set (butlast xs)"
      then show "q_next ?m x = q_next m x" using d b by (auto simp: nx)
    next
      fix x assume "x \<in> set (tl xs)"
      then show "q_prev ?m x = q_prev m x" using d xs by (auto simp: pv)
    qed
    then have "chain ?m (bs @ t # [n])" using cx b d by (simp add: chain_append [of ?m bs t "[n]"] nx pv) auto
    then have "chain ?m (xs @ [n])" using b by simp
    moreover have "hd (xs @ [n]) = f" "q_next ?m n = f" "q_prev ?m f = n" using xs d by (auto simp: nx pv)
    ultimately have "chain ?m (n # xs @ [n])" using chain_Cons [of "xs @ [n]" ?m n] by simp
    then have "ring ?m n xs" using d by (simp add: ring_def)
    moreover have "ring ?m h []" using d by (auto simp: ring_def nx pv)
    ultimately show ?thesis by simp
  qed
  then show "ring ?m n xs" and "xs \<noteq> [] \<Longrightarrow> ring ?m h []" by auto
qed

subsection \<open>What the macros leave alone\<close>

definition same_at :: "'a queue_mem \<Rightarrow> 'a queue_mem \<Rightarrow> 'a \<Rightarrow> bool" where
  "same_at m m' x \<longleftrightarrow> q_next m' x = q_next m x \<and> q_prev m' x = q_prev m x"

lemma ring_links_in:
  assumes "ring m h xs" and "x \<in> set (h # xs)"
  shows "q_next m x \<in> set (h # xs)" and "q_prev m x \<in> set (h # xs)"
proof -
  have chain_in: "chain m ys \<Longrightarrow> x \<in> set (butlast ys) \<Longrightarrow> q_next m x \<in> set ys"
    "chain m ys \<Longrightarrow> x \<in> set (tl ys) \<Longrightarrow> q_prev m x \<in> set ys" for ys
    by (induction m ys rule: chain.induct) (auto split: if_splits)
  have c: "chain m (h # xs @ [h])" using assms(1) by (simp add: ring_def)
  show "q_next m x \<in> set (h # xs)" using chain_in(1) [OF c] assms(2) by (auto simp: butlast_append)
  show "q_prev m x \<in> set (h # xs)" using chain_in(2) [OF c] assms(2) by auto
qed

lemma insert_tail_frame:
  assumes "ring m h xs" and "x \<notin> set (h # xs)" and "x \<noteq> q" and "q \<notin> set (h # xs)"
  shows "same_at m (QUEUE_INSERT_TAIL h q m) x"
  using ring_links_in [OF assms(1), of h] assms(2-) by (auto simp: same_at_def QUEUE_INSERT_TAIL_def queue_ops)

lemma insert_head_frame:
  assumes "ring m h xs" and "x \<notin> set (h # xs)" and "x \<noteq> q" and "q \<notin> set (h # xs)"
  shows "same_at m (QUEUE_INSERT_HEAD h q m) x"
  using ring_links_in [OF assms(1), of h] assms(2-) by (auto simp: same_at_def QUEUE_INSERT_HEAD_def queue_ops)

lemma remove_frame:
  assumes "ring m h xs" and "x \<notin> set (h # xs)" and "q \<in> set xs"
  shows "same_at m (QUEUE_REMOVE q m) x"
proof -
  have "q_next m q \<in> set (h # xs)" "q_prev m q \<in> set (h # xs)" using ring_links_in [OF assms(1), of q] assms(3) by auto
  then show ?thesis using assms(2) by (auto simp: same_at_def QUEUE_REMOVE_def queue_ops)
qed

lemma init_frame: "x \<noteq> q \<Longrightarrow> same_at m (QUEUE_INIT q m) x"
  by (simp add: same_at_def QUEUE_INIT_def)

lemma move_frame:
  assumes "ring m h xs" and "x \<notin> set (h # xs)" and "x \<noteq> n" and "n \<notin> set (h # xs)"
  shows "same_at m (QUEUE_MOVE h n m) x"
proof (cases "QUEUE_EMPTY m h")
  case True
  then show ?thesis using assms(3) by (simp add: QUEUE_MOVE_def init_frame)
next
  case False
  have l: "q_next m h \<in> set (h # xs)" "q_prev m h \<in> set (h # xs)" using ring_links_in [OF assms(1), of h] by auto
  then have "q_prev m (q_next m h) \<in> set (h # xs)" using ring_links_in(2) [OF assms(1)] by blast
  then show ?thesis
    using False l assms(2-) by (auto simp: QUEUE_MOVE_def same_at_def QUEUE_SPLIT_def QUEUE_HEAD_def queue_ops)
qed

lemma ring_frame: "ring m h xs \<Longrightarrow> (\<And>x. x \<in> set (h # xs) \<Longrightarrow> same_at m m' x) \<Longrightarrow> ring m' h xs"
  by (rule ring_cong) (auto simp: same_at_def)

subsection \<open>First in, first out\<close>

text \<open>What the clients rely on: a queue that gives its elements back in the order of insertion.\<close>

locale fifo =
  fixes holds :: "'m \<Rightarrow> 'a list \<Rightarrow> bool"
    and fits :: "'a \<Rightarrow> bool"
    and is_empty :: "'m \<Rightarrow> bool"
    and first :: "'m \<Rightarrow> 'a"
    and enqueue :: "'a \<Rightarrow> 'm \<Rightarrow> 'm"
    and unlink :: "'a \<Rightarrow> 'm \<Rightarrow> 'm"
  assumes empty_iff: "holds m xs \<Longrightarrow> is_empty m \<longleftrightarrow> xs = []"
    and first_Cons: "holds m (x # xs) \<Longrightarrow> first m = x"
    and enqueue_holds: "holds m xs \<Longrightarrow> fits q \<Longrightarrow> q \<notin> set xs \<Longrightarrow> holds (enqueue q m) (xs @ [q])"
    and unlink_holds: "holds m (xs @ q # ys) \<Longrightarrow> holds (unlink q m) (xs @ ys)"
begin

lemma enqueue_all:
  assumes "holds m xs" and "\<forall>q \<in> set qs. fits q" and "distinct qs" and "set qs \<inter> set xs = {}"
  shows "holds (fold enqueue qs m) (xs @ qs)"
  using assms
proof (induction qs arbitrary: m xs)
  case (Cons q qs)
  then have "holds (enqueue q m) (xs @ [q])" by (intro enqueue_holds) auto
  then show ?case using Cons.IH [of "enqueue q m" "xs @ [q]"] Cons.prems by auto
qed simp

lemma dequeue_first: "holds m (x # xs) \<Longrightarrow> \<not> is_empty m \<and> first m = x \<and> holds (unlink (first m) m) xs"
  using empty_iff [of m "x # xs"] first_Cons unlink_holds [of m "[]" x xs] by auto

end

text \<open>The ring with a given head is such a queue.\<close>

interpretation ring_fifo: fifo "\<lambda>m. ring m h" "\<lambda>q. q \<noteq> h" "\<lambda>m. QUEUE_EMPTY m h" "\<lambda>m. QUEUE_HEAD m h"
    "QUEUE_INSERT_TAIL h" QUEUE_REMOVE for h
  by unfold_locales (auto simp: ring_empty ring_head ring_insert_tail ring_remove)

subsection \<open>Joining queues\<close>

text \<open>\<^verbatim>\<open>QUEUE_ADD\<close> appends the elements of the ring \<open>n\<close>; its head is no longer part of a ring.\<close>

lemma ring_add:
  assumes r: "ring m h xs" and s: "ring m n ys" and d: "set (h # xs) \<inter> set (n # ys) = {}" and ne: "ys \<noteq> []"
  shows "ring (QUEUE_ADD h n m) h (xs @ ys)"
proof -
  let ?m = "QUEUE_ADD h n m"
  obtain f fs where ys: "ys = f # fs" using ne by (cases ys) auto
  obtain bs t where b: "h # xs = bs @ [t]" "distinct (bs @ [t])" "chain m (bs @ [t])" "q_next m t = h" "q_prev m h = t"
    by (rule ring_open [OF r])
  obtain cs u where c: "n # ys = cs @ [u]" "distinct (cs @ [u])" "chain m (cs @ [u])" "q_next m u = n" "q_prev m n = u"
    by (rule ring_open [OF s])
  have "chain m (n # f # fs)" using c(1,3) ys by simp
  then have nf: "q_next m n = f" "q_prev m f = n" "chain m ys" using ys by auto
  have t: "t \<in> set (h # xs)" using b(1) by (metis in_set_conv_decomp)
  have u: "u \<in> set ys" "ys = butlast ys @ [u]" using c(1) ne by (metis last.simps last_in_set last_snoc, metis append_butlast_last_id last.simps last_snoc)
  have nx: "q_next ?m = (q_next m)(t := f, u := h)" and pv: "q_prev ?m = (q_prev m)(f := t, h := u)"
    using t u d nf b c ys by (auto simp: QUEUE_ADD_def queue_ops)
  have D: "distinct (h # xs)" "distinct ys" using r s by (auto simp: ring_def)
  have "chain ?m (bs @ [t]) = chain m (bs @ [t])"
  proof (rule chain_cong)
    fix x assume "x \<in> set (butlast (bs @ [t]))"
    then have "x \<in> set (bs @ [t])" "x \<noteq> t" using b(2) by auto
    then have "x \<in> set (h # xs)" "x \<noteq> t" unfolding b(1) by blast+
    then show "q_next ?m x = q_next m x" using d u by (auto simp: nx)
  next
    fix x assume "x \<in> set (tl (bs @ [t]))"
    then have "x \<in> set xs" using b(1) by (metis list.sel(3))
    then show "q_prev ?m x = q_prev m x" using d D ys by (auto simp: pv)
  qed
  moreover have "chain ?m ys = chain m ys"
  proof (rule chain_cong)
    fix x assume x: "x \<in> set (butlast ys)"
    then have "x \<in> set ys" by (rule in_set_butlastD)
    moreover have "u \<notin> set (butlast ys)" using D(2) u(2) by (metis distinct_append disjoint_iff list.set_intros(1))
    then have "x \<noteq> u" using x by blast
    ultimately show "q_next ?m x = q_next m x" using d t by (auto simp: nx)
  next
    fix x assume "x \<in> set (tl ys)"
    then show "q_prev ?m x = q_prev m x" using d D ys by (auto simp: pv)
  qed
  moreover have L: "q_next ?m t = f" "q_prev ?m f = t" "q_next ?m u = h" "q_prev ?m h = u"
  proof -
    have "u \<noteq> t" "f \<noteq> h" using t u(1) d ys by auto
    then show "q_next ?m t = f" "q_prev ?m f = t" "q_next ?m u = h" "q_prev ?m h = u" by (simp_all add: nx pv)
  qed
  ultimately have c1: "chain ?m (bs @ [t])" and c2: "chain ?m (butlast ys @ [u])" using b(3) nf(3) u(2) by simp_all
  have "chain ?m (butlast ys @ u # [h])" unfolding chain_append [of ?m "butlast ys" u "[h]"] using c2 L by simp
  then have "chain ?m (ys @ [h])" using u(2) by (metis append.assoc append_Cons append_Nil)
  then have "chain ?m (t # ys @ [h])" using L chain_Cons [of "ys @ [h]" ?m t] ys by simp
  then have "chain ?m (bs @ t # ys @ [h])" using c1 chain_append [of ?m bs t "ys @ [h]"] by blast
  moreover have "bs @ t # ys @ [h] = h # (xs @ ys) @ [h]" using b(1) by (metis append.assoc append_Cons append_Nil)
  ultimately show ?thesis using r s d by (auto simp: ring_def)
qed

text \<open>
  The intrusive queue is first in, first out: nodes inserted at the tail come out at the head in the order of
  insertion, behind the nodes that were there before.
\<close>

lemma queue_fifo:
  assumes "ring m h xs" and "distinct qs" and "set qs \<inter> set (h # xs) = {}" and "xs @ qs = y # ys"
  shows "ring (fold (QUEUE_INSERT_TAIL h) qs m) h (xs @ qs) \<and>
         QUEUE_HEAD (fold (QUEUE_INSERT_TAIL h) qs m) h = y \<and>
         ring (QUEUE_REMOVE y (fold (QUEUE_INSERT_TAIL h) qs m)) h ys"
proof -
  have r: "ring (fold (QUEUE_INSERT_TAIL h) qs m) h (xs @ qs)"
    by (rule ring_fifo.enqueue_all [OF assms(1)]) (use assms(2,3) in auto)
  then show ?thesis using ring_fifo.dequeue_first [of _ h y ys] assms(4) by auto
qed

definition example_queue :: "nat queue_mem" where
  "example_queue = QUEUE_INIT 0 \<lparr>q_next = (\<lambda>x. x), q_prev = (\<lambda>x. x)\<rparr>"

text \<open>
  \<^verbatim>\<open>QUEUE_MOVE\<close> hands all nodes of a queue to another head in the same order and leaves the old head empty,
  without touching any other queue; \<^verbatim>\<open>QUEUE_ADD\<close> appends all nodes of one queue to another.
\<close>

lemma queue_move_add:
  assumes "ring m h xs" and "n \<notin> set (h # xs)" and "ring m k ys" and "set (k # ys) \<inter> set (n # h # xs) = {}" and "xs \<noteq> []"
  shows "ring (QUEUE_MOVE h n m) n xs \<and> ring (QUEUE_MOVE h n m) h [] \<and> ring (QUEUE_MOVE h n m) k ys \<and>
         ring (QUEUE_ADD k n (QUEUE_MOVE h n m)) k (ys @ xs)"
proof -
  have k: "ring (QUEUE_MOVE h n m) k ys"
    by (rule ring_frame [OF assms(3)]) (use assms in \<open>auto intro!: move_frame [OF assms(1)]\<close>)
  moreover have "ring (QUEUE_ADD k n (QUEUE_MOVE h n m)) k (ys @ xs)"
    by (rule ring_add [OF k ring_move(1) [OF assms(1,2)]]) (use assms(4,5) in auto)
  ultimately show ?thesis using ring_move [OF assms(1,2)] assms(5) by blast
qed

end
