(* ===== verification/Uv_Rings.thy ===== *)
theory Uv_Rings
  imports Uv_Queue
begin

text \<open>
  Several queues in one memory: the heads \<open>H\<close> with the lists \<open>q h\<close>, no node in two of them. A node that is linked to itself
  only is a head with an empty list.
\<close>

definition rings :: "'a queue_mem \<Rightarrow> 'a set \<Rightarrow> ('a \<Rightarrow> 'a list) \<Rightarrow> bool" where
  "rings m H q \<longleftrightarrow>
     (\<forall>h \<in> H. ring m h (q h)) \<and> (\<forall>h \<in> H. \<forall>k \<in> H. h \<noteq> k \<longrightarrow> set (h # q h) \<inter> set (k # q k) = {})"

definition linked :: "'a set \<Rightarrow> ('a \<Rightarrow> 'a list) \<Rightarrow> 'a set" where
  "linked H q = (\<Union>h \<in> H. set (h # q h))"

lemma rings_subset: "rings m H q \<Longrightarrow> H' \<subseteq> H \<Longrightarrow> rings m H' q"
  unfolding rings_def by (meson subsetD)

lemma rings_cong: "rings m H q \<Longrightarrow> (\<And>h. h \<in> H \<Longrightarrow> q' h = q h) \<Longrightarrow> rings m H q'"
  by (simp add: rings_def)

lemma rings_ring: "rings m H q \<Longrightarrow> h \<in> H \<Longrightarrow> ring m h (q h)"
  by (simp add: rings_def)

lemma rings_apart: "rings m H q \<Longrightarrow> h \<in> H \<Longrightarrow> k \<in> H \<Longrightarrow> h \<noteq> k \<Longrightarrow> set (h # q h) \<inter> set (k # q k) = {}"
  by (simp add: rings_def)

lemma rings_distinct: "rings m H q \<Longrightarrow> h \<in> H \<Longrightarrow> distinct (h # q h)"
  using rings_ring by (force simp: ring_def)

lemma rings_member: "rings m H q \<Longrightarrow> h \<in> H \<Longrightarrow> k \<in> H \<Longrightarrow> x \<in> set (q h) \<Longrightarrow> x \<in> set (q k) \<Longrightarrow> h = k"
  unfolding rings_def by (metis disjoint_iff list.set_intros(2))

lemma rings_member_head: "rings m H q \<Longrightarrow> h \<in> H \<Longrightarrow> x \<in> set (q h) \<Longrightarrow> x \<notin> H"
proof
  assume r: "rings m H q" "h \<in> H" "x \<in> set (q h)" "x \<in> H"
  then have "x \<noteq> h" using rings_distinct [OF r(1,2)] by auto
  then show False using rings_apart [OF r(1,2,4)] r(3) by auto
qed

lemma rings_empty: "rings m H q \<Longrightarrow> h \<in> H \<Longrightarrow> QUEUE_EMPTY m h \<longleftrightarrow> q h = []"
  using ring_empty rings_ring by metis

lemma rings_head: "rings m H q \<Longrightarrow> h \<in> H \<Longrightarrow> q h \<noteq> [] \<Longrightarrow> QUEUE_HEAD m h = hd (q h)"
  using rings_ring [of m H q h] ring_head [of m h "hd (q h)" "tl (q h)"] by simp

text \<open>A node in a queue is not linked to itself.\<close>

lemma chain_succ:
  "chain m (xs @ x # y # ys) \<Longrightarrow> q_next m x = y"
  using chain_append [of m xs x "y # ys"] by simp

lemma rings_in_queue:
  assumes "rings m H q" and "h \<in> H" and "x \<in> set (q h)"
  shows "\<not> QUEUE_EMPTY m x"
proof -
  obtain ys zs where q: "q h = ys @ x # zs" using assms(3) by (meson split_list)
  have r: "ring m h (ys @ x # zs)" using rings_ring [OF assms(1,2)] q by simp
  then have c: "chain m ((h # ys) @ x # hd (zs @ [h]) # tl (zs @ [h]))" by (cases zs) (simp_all add: ring_def)
  have "hd (zs @ [h]) \<noteq> x" using r by (cases zs) (auto simp: ring_def)
  then show ?thesis using chain_succ [OF c] by (auto simp: QUEUE_EMPTY_def QUEUE_NEXT_def)
qed

lemma rings_first_next:
  assumes "rings m H q" and "h \<in> H" and "q h = x # zs"
  shows "QUEUE_NEXT m x = h \<longleftrightarrow> zs = []"
proof -
  have r: "ring m h (x # zs)" using rings_ring [OF assms(1,2)] assms(3) by simp
  then show ?thesis by (cases zs) (auto simp: ring_def QUEUE_NEXT_def)
qed

subsection \<open>Operations\<close>

lemma rings_frame:
  assumes "rings m H q" and "h \<in> H" and "ring m' h xs" and "\<And>k x. k \<in> H \<Longrightarrow> k \<noteq> h \<Longrightarrow> x \<in> set (k # q k) \<Longrightarrow> same_at m m' x"
    and "\<And>k. k \<in> H \<Longrightarrow> k \<noteq> h \<Longrightarrow> set xs \<inter> set (k # q k) = {}"
  shows "rings m' H (q(h := xs))"
proof -
  have "ring m' k (q k)" if "k \<in> H" "k \<noteq> h" for k
    by (rule ring_frame [OF rings_ring [OF assms(1) that(1)]]) (rule assms(4) [OF that])
  moreover have "set (k # (q(h := xs)) k) \<inter> set (k' # (q(h := xs)) k') = {}" if k: "k \<in> H" "k' \<in> H" "k \<noteq> k'" for k k'
    using assms(5) [OF k(1)] assms(5) [OF k(2)] rings_apart [OF assms(1) k] k
    by (cases "k = h"; cases "k' = h") auto
  ultimately show ?thesis using assms(3) by (simp add: rings_def)
qed

lemma rings_insert_tail:
  assumes r: "rings m H q" and h: "h \<in> H" and x: "x \<notin> linked H q"
  shows "rings (QUEUE_INSERT_TAIL h x m) H (q(h := q h @ [x]))"
proof (rule rings_frame [OF r h])
  note R = rings_ring [OF r h]
  have xh: "x \<notin> set (h # q h)" using x h by (auto simp: linked_def)
  show "ring (QUEUE_INSERT_TAIL h x m) h (q h @ [x])" by (rule ring_insert_tail [OF R xh])
  fix k assume k: "k \<in> H" "k \<noteq> h"
  show "set (q h @ [x]) \<inter> set (k # q k) = {}"
    using rings_apart [OF r h k(1)] k x by (auto simp: linked_def)
  fix y assume y: "y \<in> set (k # q k)"
  then have "y \<notin> set (h # q h)" "y \<noteq> x" using rings_apart [OF r h k(1)] k x by (auto simp: linked_def)
  then show "same_at m (QUEUE_INSERT_TAIL h x m) y" by (rule insert_tail_frame [OF R _ _ xh])
qed

lemma rings_remove:
  assumes r: "rings m H q" and h: "h \<in> H" and x: "q h = ys @ x # zs"
  shows "rings (QUEUE_REMOVE x m) H (q(h := ys @ zs))"
proof (rule rings_frame [OF r h])
  note R = rings_ring [OF r h]
  show "ring (QUEUE_REMOVE x m) h (ys @ zs)" using R x by (intro ring_remove) simp
  fix k assume k: "k \<in> H" "k \<noteq> h"
  show "set (ys @ zs) \<inter> set (k # q k) = {}" using rings_apart [OF r h k(1)] k x by auto
  fix y assume "y \<in> set (k # q k)"
  then have "y \<notin> set (h # q h)" using rings_apart [OF r h k(1)] k by auto
  then show "same_at m (QUEUE_REMOVE x m) y" by (rule remove_frame [OF R]) (simp add: x)
qed

lemma rings_init:
  assumes r: "rings m H q" and x: "x \<notin> linked H q"
  shows "rings (QUEUE_INIT x m) (insert x H) (q(x := []))"
proof -
  have xH: "x \<notin> H" using x by (auto simp: linked_def)
  have "ring (QUEUE_INIT x m) k (q k)" if "k \<in> H" for k
    by (rule ring_frame [OF rings_ring [OF r that]]) (use x that in \<open>auto intro!: init_frame simp: linked_def\<close>)
  moreover have "set (k # q k) \<inter> set [x] = {}" if "k \<in> H" for k using x that by (auto simp: linked_def)
  ultimately show ?thesis using r xH ring_init [of x m] by (auto simp: rings_def)
qed

text \<open>A removed node is in no queue.\<close>

lemma removed_unlinked:
  assumes "rings m H q" and "h \<in> H" and "q h = ys @ x # zs"
  shows "x \<notin> linked H (q(h := ys @ zs))"
proof
  assume "x \<in> linked H (q(h := ys @ zs))"
  then obtain k where k: "k \<in> H" "x \<in> set (k # (q(h := ys @ zs)) k)" by (auto simp: linked_def)
  have "distinct (h # ys @ x # zs)" using rings_distinct [OF assms(1,2)] assms(3) by simp
  then show False using k rings_apart [OF assms(1,2) k(1)] assms(3) by (cases "k = h") auto
qed

lemma rings_add_head:
  assumes "rings m (H - {n}) q" and "ring m n (q n)" and "\<And>k. k \<in> H \<Longrightarrow> k \<noteq> n \<Longrightarrow> set (n # q n) \<inter> set (k # q k) = {}"
  shows "rings m (insert n H) q"
  unfolding rings_def
proof (intro conjI ballI impI)
  fix h assume "h \<in> insert n H"
  then show "ring m h (q h)" using assms(1,2) by (cases "h = n") (auto simp: rings_def)
  fix k assume "k \<in> insert n H" "h \<noteq> k"
  with \<open>h \<in> insert n H\<close> show "set (h # q h) \<inter> set (k # q k) = {}"
    using assms(3) [of h] assms(3) [of k] rings_apart [OF assms(1), of h k] by (cases "h = n"; cases "k = n") auto
qed

lemma rings_move:
  assumes r: "rings m H q" and h: "h \<in> H" and n: "n \<in> H" "n \<noteq> h" "q n = []"
  shows "rings (QUEUE_MOVE h n m) H (q(h := [], n := q h))"
proof -
  note R = rings_ring [OF r h]
  have nh: "n \<notin> set (h # q h)" using rings_apart [OF r h n(1)] n(2) by auto
  have mv: "ring (QUEUE_MOVE h n m) n (q h)" "ring (QUEUE_MOVE h n m) h []"
    using ring_move [OF R nh] by (cases "q h = []"; simp)+
  have "rings (QUEUE_MOVE h n m) (H - {n}) (q(h := []))"
  proof (rule rings_frame [OF rings_subset [OF r]])
    fix k x assume k: "k \<in> H - {n}" "k \<noteq> h" and "x \<in> set (k # q k)"
    then have "x \<notin> set (h # q h)" "x \<noteq> n" using rings_apart [OF r h, of k] rings_apart [OF r n(1), of k] by auto
    then show "same_at m (QUEUE_MOVE h n m) x" by (rule move_frame [OF R _ _ nh])
  qed (use h n mv in auto)
  then have a: "rings (QUEUE_MOVE h n m) (H - {n}) (q(h := [], n := q h))" by (rule rings_cong) auto
  have "set (n # q h) \<inter> set (k # (q(h := [], n := q h)) k) = {}" if "k \<in> H" "k \<noteq> n" for k
    using rings_apart [OF r h that(1)] rings_apart [OF r n(1) that(1)] rings_distinct [OF r h] nh that n(2) by (cases "k = h") auto
  then show ?thesis using rings_add_head [OF a] mv(1) n(1) by (simp add: insert_absorb)
qed

end
