(* ===== verification/Uv_Pool.thy ===== *)
theory Uv_Pool
  imports Uv_Rings
begin

text \<open>
  The thread pool, \<^verbatim>\<open>src/threadpool.c\<close>. Everything between taking and releasing a mutex is one step; the mutexes, the
  condition variable and the creation of threads come from the system. What a worker thread does next is its \<open>pc\<close>.
\<close>

subsection \<open>State\<close>

text \<open>
  The nodes that queues link: the heads \<^verbatim>\<open>wq\<close>, \<^verbatim>\<open>slow_io_pending_wq\<close>, \<^verbatim>\<open>loop->wq\<close> and the local variable \<^verbatim>\<open>wq\<close> of
  \<^verbatim>\<open>uv__work_done\<close>, the messages, and the node of a \<^verbatim>\<open>struct uv__work\<close>.
\<close>

datatype pool_addr = Wq | Slow_wq | Loop_wq nat | Done_wq nat | Run_slow | Exit_msg | Work nat

text \<open>The function pointer \<^verbatim>\<open>w->work\<close>: null, \<^verbatim>\<open>uv__cancelled\<close>, or a function of the application.\<close>

datatype work_fn = Fn_NULL | Fn_cancelled | Fn nat

datatype work_kind = UV__WORK_CPU | UV__WORK_FAST_IO | UV__WORK_SLOW_IO

text \<open>
  A worker is about to lock the mutex (\<open>W_start\<close>), in \<^verbatim>\<open>uv_cond_wait\<close> (\<open>W_wait\<close>), woken but not yet back in possession of the mutex
  (\<open>W_woken\<close>), about to call \<^verbatim>\<open>w->work(w)\<close> (\<open>W_run\<close>), back from it (\<open>W_finish\<close>), about to lock the mutex for the next round
  (\<open>W_relock\<close>), or it has ended. The flag is \<^verbatim>\<open>is_slow_work\<close>.
\<close>

datatype worker_pc = W_start | W_wait | W_woken | W_run nat bool | W_finish nat bool | W_relock bool | W_exit

text \<open>Calls of functions of the application; \<^verbatim>\<open>None\<close> is status 0.\<close>

datatype pool_call = Call_work nat work_fn | Call_done nat "uv_error option"

record pool =
  p_queue :: "pool_addr queue_mem"
  idle_threads :: u32
  slow_io_work_running :: u32
  nthreads :: u32
  wk_work :: "nat \<Rightarrow> work_fn"
  wk_loop :: "nat \<Rightarrow> nat"
  pc :: "nat \<Rightarrow> worker_pc"
  async_sent :: "nat \<Rightarrow> bool"
  calls :: "pool_call list"

definition on_queue :: "(pool_addr queue_mem \<Rightarrow> pool_addr queue_mem) \<Rightarrow> pool \<Rightarrow> pool" where
  "on_queue f p = p\<lparr>p_queue := f (p_queue p)\<rparr>"

subsection \<open>Workers\<close>

definition slow_work_thread_threshold :: "pool \<Rightarrow> u32" where
  "slow_work_thread_threshold p = (nthreads p + 1) div 2"

text \<open>\<^verbatim>\<open>uv_cond_signal\<close> wakes a waiting thread if there is one; \<open>t\<close> is the thread the system chooses.\<close>

definition cond_signal :: "nat \<Rightarrow> pool \<Rightarrow> pool" where
  "cond_signal t p = (if pc p t = W_wait then p\<lparr>pc := (pc p)(t := W_woken)\<rparr> else p)"

text \<open>The condition of the inner \<^verbatim>\<open>while\<close>.\<close>

definition must_wait :: "pool \<Rightarrow> bool" where
  "must_wait p \<longleftrightarrow>
     QUEUE_EMPTY (p_queue p) Wq \<or>
     QUEUE_HEAD (p_queue p) Wq = Run_slow \<and> QUEUE_NEXT (p_queue p) Run_slow = Wq \<and>
     slow_io_work_running p \<ge> slow_work_thread_threshold p"

text \<open>
  The part of the loop in \<^verbatim>\<open>worker\<close> that holds the mutex, up to the next \<^verbatim>\<open>uv_cond_wait\<close> or \<^verbatim>\<open>uv_mutex_unlock\<close>. The
  \<^verbatim>\<open>continue\<close> statements are the recursive calls.
\<close>

datatype section_exit = S_wait | S_exit | S_run nat bool

definition take_work :: "pool_addr \<Rightarrow> bool \<Rightarrow> pool \<Rightarrow> (section_exit \<times> pool) option" where
  "take_work q slow p = (case q of Work w \<Rightarrow> Some (S_run w slow, p) | _ \<Rightarrow> None)"

fun worker_section :: "nat \<Rightarrow> nat \<Rightarrow> pool \<Rightarrow> (section_exit \<times> pool) option" where
  "worker_section 0 t p = None"
| "worker_section (Suc n) t p =
     (if must_wait p then Some (S_wait, p\<lparr>idle_threads := idle_threads p + 1\<rparr>)
      else
        let q = QUEUE_HEAD (p_queue p) Wq in
        if q = Exit_msg then Some (S_exit, cond_signal t p)
        else
          let p1 = on_queue (QUEUE_INIT q) (on_queue (QUEUE_REMOVE q) p) in
          if q = Run_slow then
            if slow_io_work_running p1 \<ge> slow_work_thread_threshold p1
            then worker_section n t (on_queue (QUEUE_INSERT_TAIL Wq q) p1)
            else if QUEUE_EMPTY (p_queue p1) Slow_wq then worker_section n t p1
            else
              let p2 = p1\<lparr>slow_io_work_running := slow_io_work_running p1 + 1\<rparr>;
                  q' = QUEUE_HEAD (p_queue p2) Slow_wq;
                  p3 = on_queue (QUEUE_INIT q') (on_queue (QUEUE_REMOVE q') p2);
                  p4 = (if \<not> QUEUE_EMPTY (p_queue p3) Slow_wq
                        then let p' = on_queue (QUEUE_INSERT_TAIL Wq Run_slow) p3
                             in if idle_threads p' > 0 then cond_signal t p' else p'
                        else p3)
              in take_work q' True p4
          else take_work q False p1)"

text \<open>Two rounds are enough: a section meets the message for slow work at most once.\<close>

definition run_section :: "nat \<Rightarrow> nat \<Rightarrow> pool \<Rightarrow> pool option" where
  "run_section i t p =
     (case worker_section 2 t p of
        None \<Rightarrow> None
      | Some (S_wait, p') \<Rightarrow> Some (p'\<lparr>pc := (pc p')(i := W_wait)\<rparr>)
      | Some (S_exit, p') \<Rightarrow> Some (p'\<lparr>pc := (pc p')(i := W_exit)\<rparr>)
      | Some (S_run w slow, p') \<Rightarrow> Some (p'\<lparr>pc := (pc p')(i := W_run w slow)\<rparr>))"

text \<open>\<^verbatim>\<open>uv_async_send(&loop->wq_async)\<close>\<close>

definition pool_async_send :: "nat \<Rightarrow> pool \<Rightarrow> pool" where
  "pool_async_send l p = p\<lparr>async_sent := (async_sent p)(l := True)\<rparr>"

text \<open>One step of the worker thread \<open>i\<close>; waiting and ended threads have none.\<close>

definition worker_step :: "nat \<Rightarrow> nat \<Rightarrow> pool \<Rightarrow> pool option" where
  "worker_step i t p =
     (case pc p i of
        W_start \<Rightarrow> run_section i t p
      | W_woken \<Rightarrow> run_section i t (p\<lparr>idle_threads := idle_threads p - 1\<rparr>)
      | W_run w slow \<Rightarrow> Some (p\<lparr>calls := calls p @ [Call_work w (wk_work p w)], pc := (pc p)(i := W_finish w slow)\<rparr>)
      | W_finish w slow \<Rightarrow>
          let l = wk_loop p w;
              p1 = p\<lparr>wk_work := (wk_work p)(w := Fn_NULL)\<rparr>;
              p2 = on_queue (QUEUE_INSERT_TAIL (Loop_wq l) (Work w)) p1
          in Some ((pool_async_send l p2)\<lparr>pc := (pc p)(i := W_relock slow)\<rparr>)
      | W_relock slow \<Rightarrow>
          run_section i t (if slow then p\<lparr>slow_io_work_running := slow_io_work_running p - 1\<rparr> else p)
      | _ \<Rightarrow> None)"

subsection \<open>Submission, cancellation, completion\<close>

definition post :: "pool_addr \<Rightarrow> work_kind \<Rightarrow> nat \<Rightarrow> pool \<Rightarrow> pool" where
  "post q kind t p =
     (let put = (\<lambda>q p. let p' = on_queue (QUEUE_INSERT_TAIL Wq q) p
                        in if idle_threads p' > 0 then cond_signal t p' else p')
      in if kind = UV__WORK_SLOW_IO then
           let p1 = on_queue (QUEUE_INSERT_TAIL Slow_wq q) p
           in if \<not> QUEUE_EMPTY (p_queue p1) Run_slow then p1 else put Run_slow p1
         else put q p)"

definition uv__work_submit :: "nat \<Rightarrow> nat \<Rightarrow> work_kind \<Rightarrow> nat \<Rightarrow> nat \<Rightarrow> pool \<Rightarrow> pool" where
  "uv__work_submit l w kind work t p =
     post (Work w) kind t (p\<lparr>wk_loop := (wk_loop p)(w := l), wk_work := (wk_work p)(w := Fn work)\<rparr>)"

text \<open>
  \<^verbatim>\<open>uv__work_cancel\<close> releases both mutexes before it puts the request into the queue of its loop: the part before that
  gives the value of \<^verbatim>\<open>cancelled\<close>.
\<close>

definition work_cancel_begin :: "nat \<Rightarrow> pool \<Rightarrow> bool \<times> pool" where
  "work_cancel_begin w p =
     (let cancelled = (\<not> QUEUE_EMPTY (p_queue p) (Work w) \<and> wk_work p w \<noteq> Fn_NULL)
      in (cancelled, if cancelled then on_queue (QUEUE_REMOVE (Work w)) p else p))"

definition work_cancel_end :: "nat \<Rightarrow> nat \<Rightarrow> pool \<Rightarrow> pool" where
  "work_cancel_end l w p =
     (let p1 = p\<lparr>wk_work := (wk_work p)(w := Fn_cancelled)\<rparr>
      in pool_async_send l (on_queue (QUEUE_INSERT_TAIL (Loop_wq l) (Work w)) p1))"

text \<open>Without another thread in between.\<close>

definition uv__work_cancel :: "nat \<Rightarrow> nat \<Rightarrow> pool \<Rightarrow> uv_error option \<times> pool" where
  "uv__work_cancel l w p =
     (case work_cancel_begin w p of (cancelled, p1) \<Rightarrow>
        if \<not> cancelled then (Some UV_EBUSY, p1) else (None, work_cancel_end l w p1))"

text \<open>\<^verbatim>\<open>uv__work_done\<close>: the queue of the loop is taken over as a whole, then its requests are completed in turn.\<close>

definition work_done_begin :: "nat \<Rightarrow> pool \<Rightarrow> pool" where
  "work_done_begin l p = on_queue (QUEUE_MOVE (Loop_wq l) (Done_wq l)) p"

definition work_done_next :: "nat \<Rightarrow> pool \<Rightarrow> pool option" where
  "work_done_next l p =
     (if QUEUE_EMPTY (p_queue p) (Done_wq l) then None
      else
        let q = QUEUE_HEAD (p_queue p) (Done_wq l);
            p1 = on_queue (QUEUE_REMOVE q) p
        in (case q of
              Work w \<Rightarrow>
                let err = (if wk_work p1 w = Fn_cancelled then Some UV_ECANCELED else None)
                in Some (p1\<lparr>calls := calls p1 @ [Call_done w err]\<rparr>)
            | _ \<Rightarrow> None))"

subsection \<open>Start and end\<close>

definition MAX_THREADPOOL_SIZE :: u32 where "MAX_THREADPOOL_SIZE = 1024"

text \<open>
  \<^verbatim>\<open>init_threads\<close>: \<open>val\<close> is \<^verbatim>\<open>atoi\<close> of the environment variable if it is set, \<open>malloc_ok\<close> whether memory for the thread identifiers
  was available.
\<close>

definition pool_size :: "u32 option \<Rightarrow> bool \<Rightarrow> u32" where
  "pool_size val malloc_ok =
     (let n0 = 4;
          n1 = (case val of None \<Rightarrow> n0 | Some v \<Rightarrow> v);
          n2 = (if n1 = 0 then 1 else n1);
          n3 = (if n2 > MAX_THREADPOOL_SIZE then MAX_THREADPOOL_SIZE else n2)
      in if n3 > 4 \<and> \<not> malloc_ok then 4 else n3)"

definition init_threads :: "u32 option \<Rightarrow> bool \<Rightarrow> pool \<Rightarrow> pool" where
  "init_threads val malloc_ok p =
     (let p1 = p\<lparr>nthreads := pool_size val malloc_ok\<rparr>;
          p2 = on_queue (QUEUE_INIT Run_slow) (on_queue (QUEUE_INIT Slow_wq) (on_queue (QUEUE_INIT Wq) p1))
      in p2\<lparr>pc := (\<lambda>i. if i < unat (nthreads p2) then W_start else W_exit)\<rparr>)"

text \<open>\<^verbatim>\<open>cleanup\<close>, up to joining the threads.\<close>

definition pool_cleanup :: "nat \<Rightarrow> pool \<Rightarrow> pool" where
  "pool_cleanup t p = (if nthreads p = 0 then p else post Exit_msg UV__WORK_CPU t p)"

subsection \<open>Work requests\<close>

text \<open>
  \<^verbatim>\<open>uv_queue_work\<close> and \<^verbatim>\<open>uv_cancel\<close>: the requests with their types and callbacks, the number of active requests of each
  loop, and the calls of the callbacks. The function of the request is \<^verbatim>\<open>uv__queue_work\<close>, here number 0.
\<close>

datatype req_type =
  UV_REQ | UV_CONNECT | UV_WRITE | UV_SHUTDOWN | UV_UDP_SEND | UV_FS | UV_WORK | UV_GETADDRINFO | UV_GETNAMEINFO | UV_RANDOM

datatype req_call = Call_work_cb nat nat | Call_after_work_cb nat nat "uv_error option"

record work_reqs =
  wr_pool :: pool
  req_type_of :: "nat \<Rightarrow> req_type"
  req_loop :: "nat \<Rightarrow> nat"
  work_cb :: "nat \<Rightarrow> nat option"
  after_work_cb :: "nat \<Rightarrow> nat option"
  active_reqs :: "nat \<Rightarrow> u32"
  req_calls :: "req_call list"

definition uv__queue_work_fn :: nat where "uv__queue_work_fn = 0"

definition uv__req_init :: "nat \<Rightarrow> nat \<Rightarrow> req_type \<Rightarrow> work_reqs \<Rightarrow> work_reqs" where
  "uv__req_init l r ty s =
     s\<lparr>req_type_of := (req_type_of s)(r := ty), active_reqs := (active_reqs s)(l := active_reqs s l + 1)\<rparr>"

text \<open>\<^const>\<open>None\<close>: an assertion fails, or a null pointer is called.\<close>

definition uv__req_unregister :: "nat \<Rightarrow> work_reqs \<Rightarrow> work_reqs option" where
  "uv__req_unregister l s =
     (if active_reqs s l > 0 then Some (s\<lparr>active_reqs := (active_reqs s)(l := active_reqs s l - 1)\<rparr>) else None)"

definition uv__queue_work :: "nat \<Rightarrow> work_reqs \<Rightarrow> work_reqs option" where
  "uv__queue_work r s =
     (case work_cb s r of None \<Rightarrow> None | Some cb \<Rightarrow> Some (s\<lparr>req_calls := req_calls s @ [Call_work_cb r cb]\<rparr>))"

definition uv__queue_done :: "nat \<Rightarrow> uv_error option \<Rightarrow> work_reqs \<Rightarrow> work_reqs option" where
  "uv__queue_done r err s =
     (case uv__req_unregister (req_loop s r) s of
        None \<Rightarrow> None
      | Some s1 \<Rightarrow>
          (case after_work_cb s1 r of
             None \<Rightarrow> Some s1
           | Some cb \<Rightarrow> Some (s1\<lparr>req_calls := req_calls s1 @ [Call_after_work_cb r cb err]\<rparr>)))"

definition uv_queue_work ::
  "nat \<Rightarrow> nat \<Rightarrow> nat option \<Rightarrow> nat option \<Rightarrow> nat \<Rightarrow> work_reqs \<Rightarrow> uv_error option \<times> work_reqs" where
  "uv_queue_work l r wcb acb t s =
     (if wcb = None then (Some UV_EINVAL, s)
      else
        let s1 = uv__req_init l r UV_WORK s;
            s2 = s1\<lparr>req_loop := (req_loop s1)(r := l), work_cb := (work_cb s1)(r := wcb), after_work_cb := (after_work_cb s1)(r := acb)\<rparr>
        in (None, s2\<lparr>wr_pool := uv__work_submit l r UV__WORK_CPU uv__queue_work_fn t (wr_pool s2)\<rparr>))"

definition uv_cancel :: "nat \<Rightarrow> work_reqs \<Rightarrow> uv_error option \<times> work_reqs" where
  "uv_cancel r s =
     (if req_type_of s r \<in> {UV_FS, UV_GETADDRINFO, UV_GETNAMEINFO, UV_RANDOM, UV_WORK}
      then (case uv__work_cancel (req_loop s r) r (wr_pool s) of (e, p) \<Rightarrow> (e, s\<lparr>wr_pool := p\<rparr>))
      else (Some UV_EINVAL, s))"

end
