(* ===== verification/Uv_Pool_Inv.thy ===== *)
theory Uv_Pool_Inv
  imports Uv_Pool
begin

text \<open>
  The queues of the pool as lists, and what one critical section of a worker does to them.
\<close>

record pool_view =
  v_wq :: "pool_addr list"
  v_slow :: "nat list"
  v_loop :: "nat \<Rightarrow> nat list"
  v_done :: "nat \<Rightarrow> nat list"

fun queue_of :: "pool_view \<Rightarrow> pool_addr \<Rightarrow> pool_addr list" where
  "queue_of v Wq = v_wq v"
| "queue_of v Slow_wq = map Work (v_slow v)"
| "queue_of v (Loop_wq l) = map Work (v_loop v l)"
| "queue_of v (Done_wq l) = map Work (v_done v l)"
| "queue_of v _ = []"

text \<open>The heads, the message for slow work when it is not queued, and the requests \<open>E\<close> that are being executed.\<close>

definition pool_heads :: "nat set \<Rightarrow> pool_view \<Rightarrow> pool_addr set" where
  "pool_heads E v =
     {Wq, Slow_wq} \<union> range Loop_wq \<union> range Done_wq \<union> (if Run_slow \<in> set (v_wq v) then {} else {Run_slow}) \<union> Work ` E"

definition views :: "nat set \<Rightarrow> pool_addr queue_mem \<Rightarrow> pool_view \<Rightarrow> bool" where
  "views E m v \<longleftrightarrow>
     rings m (pool_heads E v) (queue_of v) \<and> set (v_wq v) \<subseteq> range Work \<union> {Run_slow, Exit_msg}"

text \<open>The requests in some queue.\<close>

definition queued :: "pool_view \<Rightarrow> nat set" where
  "queued v = {w. Work w \<in> set (v_wq v)} \<union> set (v_slow v)"

definition returned :: "pool_view \<Rightarrow> nat set" where
  "returned v = (\<Union>l. set (v_loop v l) \<union> set (v_done v l))"

lemma heads_simps [simp]:
  "Wq \<in> pool_heads E v" "Slow_wq \<in> pool_heads E v" "Loop_wq l \<in> pool_heads E v" "Done_wq l \<in> pool_heads E v"
  "Exit_msg \<notin> pool_heads E v" "Work w \<in> pool_heads E v \<longleftrightarrow> w \<in> E"
  "Run_slow \<in> pool_heads E v \<longleftrightarrow> Run_slow \<notin> set (v_wq v)"
  by (auto simp: pool_heads_def)

lemma linked_pool:
  "Work w \<in> linked (pool_heads E v) (queue_of v) \<longleftrightarrow> w \<in> E \<union> queued v \<union> returned v"
  by (auto simp: linked_def pool_heads_def queued_def returned_def split: if_splits)

lemma views_simps:
  assumes "views E m v"
  shows "QUEUE_EMPTY m Wq \<longleftrightarrow> v_wq v = []" "QUEUE_EMPTY m Slow_wq \<longleftrightarrow> v_slow v = []"
    "QUEUE_EMPTY m (Done_wq l) \<longleftrightarrow> v_done v l = []" "QUEUE_EMPTY m Run_slow \<longleftrightarrow> Run_slow \<notin> set (v_wq v)"
    "v_wq v \<noteq> [] \<Longrightarrow> QUEUE_HEAD m Wq = hd (v_wq v)" "v_slow v \<noteq> [] \<Longrightarrow> QUEUE_HEAD m Slow_wq = Work (hd (v_slow v))"
    "v_done v l \<noteq> [] \<Longrightarrow> QUEUE_HEAD m (Done_wq l) = Work (hd (v_done v l))"
    "v_wq v = Run_slow # xs \<Longrightarrow> QUEUE_NEXT m Run_slow = Wq \<longleftrightarrow> xs = []"
    "w \<in> queued v \<union> returned v \<Longrightarrow> \<not> QUEUE_EMPTY m (Work w)" "w \<in> E \<Longrightarrow> QUEUE_EMPTY m (Work w)"
proof -
  have r: "rings m (pool_heads E v) (queue_of v)" using assms by (simp add: views_def)
  show "QUEUE_EMPTY m Wq \<longleftrightarrow> v_wq v = []" "QUEUE_EMPTY m Slow_wq \<longleftrightarrow> v_slow v = []"
    "QUEUE_EMPTY m (Done_wq l) \<longleftrightarrow> v_done v l = []"
    using rings_empty [OF r, of Wq] rings_empty [OF r, of Slow_wq] rings_empty [OF r, of "Done_wq l"] by simp_all
  show "QUEUE_EMPTY m Run_slow \<longleftrightarrow> Run_slow \<notin> set (v_wq v)"
    using rings_empty [OF r, of Run_slow] rings_in_queue [OF r, of Wq Run_slow] by auto
  show "v_wq v \<noteq> [] \<Longrightarrow> QUEUE_HEAD m Wq = hd (v_wq v)" using rings_head [OF r, of Wq] by simp
  show "v_slow v \<noteq> [] \<Longrightarrow> QUEUE_HEAD m Slow_wq = Work (hd (v_slow v))"
    using rings_head [OF r, of Slow_wq] by (simp add: hd_map)
  show "v_done v l \<noteq> [] \<Longrightarrow> QUEUE_HEAD m (Done_wq l) = Work (hd (v_done v l))"
    using rings_head [OF r, of "Done_wq l"] by (simp add: hd_map)
  show "v_wq v = Run_slow # xs \<Longrightarrow> QUEUE_NEXT m Run_slow = Wq \<longleftrightarrow> xs = []"
    using rings_first_next [OF r, of Wq Run_slow xs] by simp
  show "w \<in> queued v \<union> returned v \<Longrightarrow> \<not> QUEUE_EMPTY m (Work w)"
    using rings_in_queue [OF r, of Wq "Work w"] rings_in_queue [OF r, of Slow_wq "Work w"]
      rings_in_queue [OF r, of "Loop_wq l" "Work w" for l] rings_in_queue [OF r, of "Done_wq l" "Work w" for l]
    by (fastforce simp: queued_def returned_def)
  show "w \<in> E \<Longrightarrow> QUEUE_EMPTY m (Work w)" using rings_empty [OF r, of "Work w"] by simp
qed

text \<open>A request is in one place.\<close>

lemma views_places:
  assumes "views E m v"
  shows "E \<inter> (queued v \<union> returned v) = {}" "queued v \<inter> returned v = {}" "distinct (v_wq v)" "distinct (v_slow v)"
    "w \<in> set (v_slow v) \<Longrightarrow> Work w \<notin> set (v_wq v)"
    "distinct (v_loop v l)" "distinct (v_done v l)" "w \<in> set (v_loop v l) \<Longrightarrow> w \<notin> set (v_done v l')"
    "w \<in> set (v_loop v l) \<Longrightarrow> w \<in> set (v_loop v l') \<Longrightarrow> l = l'" "w \<in> set (v_done v l) \<Longrightarrow> w \<in> set (v_done v l') \<Longrightarrow> l = l'"
proof -
  have r: "rings m (pool_heads E v) (queue_of v)" using assms by (simp add: views_def)
  note mem = rings_member [OF r] and mh = rings_member_head [OF r]
  have m: "x \<in> set (queue_of v h) \<Longrightarrow> x \<in> set (queue_of v k) \<Longrightarrow> h \<in> pool_heads E v \<Longrightarrow> k \<in> pool_heads E v \<Longrightarrow> h = k" for x h k
    using mem by blast
  show "E \<inter> (queued v \<union> returned v) = {}"
    using mh [of Wq] mh [of Slow_wq] mh [of "Loop_wq l" for l] mh [of "Done_wq l" for l]
    by (fastforce simp: queued_def returned_def)
  show "queued v \<inter> returned v = {}"
    using m [of _ Wq "Loop_wq l" for l] m [of _ Wq "Done_wq l" for l] m [of _ Slow_wq "Loop_wq l" for l]
      m [of _ Slow_wq "Done_wq l" for l]
    by (fastforce simp: queued_def returned_def)
  show "distinct (v_wq v)" "distinct (v_slow v)" "distinct (v_loop v l)" "distinct (v_done v l)"
    using rings_distinct [OF r, of Wq] rings_distinct [OF r, of Slow_wq] rings_distinct [OF r, of "Loop_wq l"]
      rings_distinct [OF r, of "Done_wq l"] by (simp_all add: distinct_map)
  show "w \<in> set (v_slow v) \<Longrightarrow> Work w \<notin> set (v_wq v)" using m [of "Work w" Wq Slow_wq] by auto
  show "w \<in> set (v_loop v l) \<Longrightarrow> w \<notin> set (v_done v l')" using m [of "Work w" "Loop_wq l" "Done_wq l'"] by auto
  show "w \<in> set (v_loop v l) \<Longrightarrow> w \<in> set (v_loop v l') \<Longrightarrow> l = l'" using m [of "Work w" "Loop_wq l" "Loop_wq l'"] by auto
  show "w \<in> set (v_done v l) \<Longrightarrow> w \<in> set (v_done v l') \<Longrightarrow> l = l'" using m [of "Work w" "Done_wq l" "Done_wq l'"] by auto
qed

subsection \<open>Operations on the queues\<close>

lemma queue_of_upd:
  "queue_of (v\<lparr>v_wq := xs\<rparr>) = (queue_of v)(Wq := xs)"
  "queue_of (v\<lparr>v_slow := ws\<rparr>) = (queue_of v)(Slow_wq := map Work ws)"
  "queue_of (v\<lparr>v_loop := (v_loop v)(l := ws)\<rparr>) = (queue_of v)(Loop_wq l := map Work ws)"
  "queue_of (v\<lparr>v_done := (v_done v)(l := ws)\<rparr>) = (queue_of v)(Done_wq l := map Work ws)"
  by (rule ext, rename_tac h, case_tac h; simp)+

lemma heads_upd [simp]:
  "pool_heads E (v\<lparr>v_slow := ws\<rparr>) = pool_heads E v"
  "pool_heads E (v\<lparr>v_loop := f\<rparr>) = pool_heads E v"
  "pool_heads E (v\<lparr>v_done := f\<rparr>) = pool_heads E v"
  by (simp_all add: pool_heads_def)

lemma heads_insert: "pool_heads (insert w E) v = insert (Work w) (pool_heads E v)"
  by (auto simp: pool_heads_def)

text \<open>Taking the first node off \<^verbatim>\<open>wq\<close> and linking it to itself.\<close>

lemma views_take:
  assumes v: "views E m v" and x: "v_wq v = x # xs"
  shows "x = Work w \<Longrightarrow> views (insert w E) (QUEUE_INIT x (QUEUE_REMOVE x m)) (v\<lparr>v_wq := xs\<rparr>)"
    and "x = Run_slow \<Longrightarrow> views E (QUEUE_INIT x (QUEUE_REMOVE x m)) (v\<lparr>v_wq := xs\<rparr>)"
proof -
  let ?H = "pool_heads E v" and ?q = "(queue_of v)(Wq := xs)"
  have r: "rings m ?H (queue_of v)" and s: "set xs \<subseteq> range Work \<union> {Run_slow, Exit_msg}"
    using v x by (auto simp: views_def)
  have "rings (QUEUE_REMOVE x m) ?H ((queue_of v)(Wq := [] @ xs))" by (rule rings_remove [OF r]) (simp_all add: x)
  then have r1: "rings (QUEUE_REMOVE x m) ?H ?q" by simp
  have u: "x \<notin> linked ?H ?q" using removed_unlinked [OF r, of Wq "[]" x xs] x by simp
  have r2: "rings (QUEUE_INIT x (QUEUE_REMOVE x m)) (insert x ?H) (?q(x := []))" by (rule rings_init [OF r1 u])
  have d: "x \<notin> set xs" using views_places(3) [OF v] x by simp
  {
    assume w: "x = Work w"
    have "rings (QUEUE_INIT x (QUEUE_REMOVE x m)) (pool_heads (insert w E) (v\<lparr>v_wq := xs\<rparr>)) (queue_of (v\<lparr>v_wq := xs\<rparr>))"
      unfolding queue_of_upd(1) using r2 x w
      by (intro rings_cong [OF rings_subset [OF r2]]) (auto simp: pool_heads_def)
    then show "views (insert w E) (QUEUE_INIT x (QUEUE_REMOVE x m)) (v\<lparr>v_wq := xs\<rparr>)" using s by (simp add: views_def)
  next
    assume w: "x = Run_slow"
    have "rings (QUEUE_INIT x (QUEUE_REMOVE x m)) (pool_heads E (v\<lparr>v_wq := xs\<rparr>)) (queue_of (v\<lparr>v_wq := xs\<rparr>))"
      unfolding queue_of_upd(1) using r2 x w d
      by (intro rings_cong [OF rings_subset [OF r2]]) (auto simp: pool_heads_def)
    then show "views E (QUEUE_INIT x (QUEUE_REMOVE x m)) (v\<lparr>v_wq := xs\<rparr>)" using s by (simp add: views_def)
  }
qed

lemma views_take_slow:
  assumes v: "views E m v" and x: "v_slow v = w # ws"
  shows "views (insert w E) (QUEUE_INIT (Work w) (QUEUE_REMOVE (Work w) m)) (v\<lparr>v_slow := ws\<rparr>)"
proof -
  let ?H = "pool_heads E v" and ?q = "(queue_of v)(Slow_wq := map Work ws)"
  have r: "rings m ?H (queue_of v)" using v by (simp add: views_def)
  have "rings (QUEUE_REMOVE (Work w) m) ?H ((queue_of v)(Slow_wq := [] @ map Work ws))"
    by (rule rings_remove [OF r]) (simp_all add: x)
  then have r1: "rings (QUEUE_REMOVE (Work w) m) ?H ?q" by simp
  have u: "Work w \<notin> linked ?H ?q" using removed_unlinked [OF r, of Slow_wq "[]" "Work w" "map Work ws"] x by simp
  have "rings (QUEUE_INIT (Work w) (QUEUE_REMOVE (Work w) m)) (insert (Work w) ?H) (?q(Work w := []))"
    by (rule rings_init [OF r1 u])
  then have "rings (QUEUE_INIT (Work w) (QUEUE_REMOVE (Work w) m)) (insert (Work w) ?H) ?q" by (rule rings_cong) auto
  then show ?thesis using v by (simp add: views_def queue_of_upd heads_insert)
qed

lemma views_put:
  assumes v: "views E m v"
  shows "w \<notin> E \<union> queued v \<union> returned v \<Longrightarrow> views E (QUEUE_INSERT_TAIL Wq (Work w) m) (v\<lparr>v_wq := v_wq v @ [Work w]\<rparr>)"
    and "w \<notin> E \<union> queued v \<union> returned v \<Longrightarrow> views E (QUEUE_INSERT_TAIL Slow_wq (Work w) m) (v\<lparr>v_slow := v_slow v @ [w]\<rparr>)"
    and "Exit_msg \<notin> set (v_wq v) \<Longrightarrow> views E (QUEUE_INSERT_TAIL Wq Exit_msg m) (v\<lparr>v_wq := v_wq v @ [Exit_msg]\<rparr>)"
    and "Run_slow \<notin> set (v_wq v) \<Longrightarrow> views E (QUEUE_INSERT_TAIL Wq Run_slow m) (v\<lparr>v_wq := v_wq v @ [Run_slow]\<rparr>)"
    and "w \<notin> E \<union> queued v \<union> returned v \<Longrightarrow>
         views E (QUEUE_INSERT_TAIL (Loop_wq l) (Work w) m) (v\<lparr>v_loop := (v_loop v)(l := v_loop v l @ [w])\<rparr>)"
proof -
  let ?H = "pool_heads E v"
  have r: "rings m ?H (queue_of v)" and s: "set (v_wq v) \<subseteq> range Work \<union> {Run_slow, Exit_msg}"
    using v by (auto simp: views_def)
  have h: "pool_heads E (v\<lparr>v_wq := v_wq v @ [x]\<rparr>) = pool_heads E v" if "x \<noteq> Run_slow" for x
    using that by (auto simp: pool_heads_def)
  show "views E (QUEUE_INSERT_TAIL Wq (Work w) m) (v\<lparr>v_wq := v_wq v @ [Work w]\<rparr>)" if "w \<notin> E \<union> queued v \<union> returned v"
    using rings_insert_tail [OF r, of Wq "Work w"] that s by (simp add: views_def queue_of_upd linked_pool h)
  show "views E (QUEUE_INSERT_TAIL Slow_wq (Work w) m) (v\<lparr>v_slow := v_slow v @ [w]\<rparr>)" if "w \<notin> E \<union> queued v \<union> returned v"
    using rings_insert_tail [OF r, of Slow_wq "Work w"] that s by (simp add: views_def queue_of_upd linked_pool)
  show "views E (QUEUE_INSERT_TAIL (Loop_wq l) (Work w) m) (v\<lparr>v_loop := (v_loop v)(l := v_loop v l @ [w])\<rparr>)"
    if "w \<notin> E \<union> queued v \<union> returned v"
    using rings_insert_tail [OF r, of "Loop_wq l" "Work w"] that s by (simp add: views_def queue_of_upd linked_pool)
  show "views E (QUEUE_INSERT_TAIL Wq Exit_msg m) (v\<lparr>v_wq := v_wq v @ [Exit_msg]\<rparr>)" if "Exit_msg \<notin> set (v_wq v)"
  proof -
    have "Exit_msg \<notin> linked ?H (queue_of v)" using that by (auto simp: linked_def pool_heads_def split: if_splits)
    then show ?thesis using rings_insert_tail [OF r, of Wq Exit_msg] s by (simp add: views_def queue_of_upd h)
  qed
  show "views E (QUEUE_INSERT_TAIL Wq Run_slow m) (v\<lparr>v_wq := v_wq v @ [Run_slow]\<rparr>)" if n: "Run_slow \<notin> set (v_wq v)"
  proof -
    let ?H' = "pool_heads E (v\<lparr>v_wq := v_wq v @ [Run_slow]\<rparr>)"
    have "rings m ?H' (queue_of v)" by (rule rings_subset [OF r]) (auto simp: pool_heads_def)
    moreover have "Run_slow \<notin> linked ?H' (queue_of v)" using n by (auto simp: linked_def pool_heads_def)
    ultimately show ?thesis using rings_insert_tail [of m ?H' "queue_of v" Wq Run_slow] s by (simp add: views_def queue_of_upd)
  qed
qed


subsection \<open>A critical section of a worker\<close>

text \<open>Whether a worker waits, seen on the lists.\<close>

definition idle_view :: "bool \<Rightarrow> pool_view \<Rightarrow> bool" where
  "idle_view full v \<longleftrightarrow> v_wq v = [] \<or> v_wq v = [Run_slow] \<and> full"

abbreviation slow_full :: "pool \<Rightarrow> bool" where
  "slow_full p \<equiv> slow_io_work_running p \<ge> slow_work_thread_threshold p"

lemma must_wait_view: "views E (p_queue p) v \<Longrightarrow> must_wait p \<longleftrightarrow> idle_view (slow_full p) v"
  using views_simps [of E "p_queue p" v] unfolding must_wait_def idle_view_def
  by (cases "v_wq v") auto

definition slow_announced :: "pool_view \<Rightarrow> bool" where
  "slow_announced v \<longleftrightarrow> (v_slow v \<noteq> [] \<longrightarrow> Run_slow \<in> set (v_wq v))"

text \<open>The nodes other than the message, in their order.\<close>

definition no_msg :: "pool_view \<Rightarrow> pool_addr list" where
  "no_msg v = filter (\<lambda>x. x \<noteq> Run_slow) (v_wq v)"

definition rest_same :: "pool_view \<Rightarrow> pool_view \<Rightarrow> bool" where
  "rest_same v v' \<longleftrightarrow> v_loop v' = v_loop v \<and> v_done v' = v_done v"

definition signal_if_idle :: "nat \<Rightarrow> pool \<Rightarrow> pool" where
  "signal_if_idle t p = (if idle_threads p > 0 then cond_signal t p else p)"

definition wake :: "nat \<Rightarrow> (nat \<Rightarrow> worker_pc) \<Rightarrow> nat \<Rightarrow> worker_pc" where
  "wake t f = (if f t = W_wait then f(t := W_woken) else f)"

lemma wake_exit [simp]: "wake t f i = W_exit \<longleftrightarrow> f i = W_exit"
  by (simp add: wake_def)

lemma cond_signal_wake: "cond_signal t p = p\<lparr>pc := wake t (pc p)\<rparr>"
  by (simp add: cond_signal_def wake_def)

text \<open>Only the queues, the counters and the threads change.\<close>

definition effect :: "pool \<Rightarrow> pool \<Rightarrow> u32 \<Rightarrow> u32 \<Rightarrow> (nat \<Rightarrow> worker_pc) \<Rightarrow> bool" where
  "effect p p' idle running f \<longleftrightarrow>
     idle_threads p' = idle \<and> slow_io_work_running p' = running \<and> pc p' = f \<and>
     nthreads p' = nthreads p \<and> wk_work p' = wk_work p \<and> wk_loop p' = wk_loop p \<and> calls p' = calls p"

text \<open>What the section has done when it ends.\<close>

definition section_done :: "nat set \<Rightarrow> nat \<Rightarrow> pool \<Rightarrow> pool_view \<Rightarrow> section_exit \<Rightarrow> pool \<Rightarrow> pool_view \<Rightarrow> bool" where
  "section_done E t p v r p' v' \<longleftrightarrow>
     rest_same v v' \<and> slow_announced v' \<and>
     (case r of
        S_wait \<Rightarrow> views E (p_queue p') v' \<and> idle_view (slow_full p) v' \<and> no_msg v' = no_msg v \<and> v_slow v' = v_slow v \<and>
          effect p p' (idle_threads p + 1) (slow_io_work_running p) (pc p)
      | S_exit \<Rightarrow> views E (p_queue p') v' \<and> v_wq v' \<noteq> [] \<and> hd (v_wq v') = Exit_msg \<and> no_msg v' = no_msg v \<and> v_slow v' = v_slow v \<and>
          effect p p' (idle_threads p) (slow_io_work_running p) (wake t (pc p))
      | S_run w slow \<Rightarrow> views (insert w E) (p_queue p') v' \<and>
          (if slow then \<not> slow_full p \<and> no_msg v' = no_msg v \<and> v_slow v = w # v_slow v' \<and>
             effect p p' (idle_threads p) (slow_io_work_running p + 1)
               (if v_slow v' \<noteq> [] \<and> idle_threads p > 0 then wake t (pc p) else pc p)
           else no_msg v = Work w # no_msg v' \<and> v_slow v' = v_slow v \<and>
             effect p p' (idle_threads p) (slow_io_work_running p) (pc p)))"

lemma on_queue_simps [simp]:
  "p_queue (on_queue f p) = f (p_queue p)" "idle_threads (on_queue f p) = idle_threads p"
  "slow_io_work_running (on_queue f p) = slow_io_work_running p" "nthreads (on_queue f p) = nthreads p"
  "wk_work (on_queue f p) = wk_work p" "wk_loop (on_queue f p) = wk_loop p" "pc (on_queue f p) = pc p"
  "calls (on_queue f p) = calls p" "async_sent (on_queue f p) = async_sent p"
  "slow_work_thread_threshold (on_queue f p) = slow_work_thread_threshold p"
  by (simp_all add: on_queue_def slow_work_thread_threshold_def)

lemma section_done_later:
  assumes "section_done E t (on_queue f p) v1 r p' v'" and "rest_same v v1" and "no_msg v1 = no_msg v" and "v_slow v1 = v_slow v"
  shows "section_done E t p v r p' v'"
  using assms by (auto simp: section_done_def rest_same_def effect_def
      split: section_exit.splits if_splits)

text \<open>The rounds that do not meet the message.\<close>

lemma section_round:
  assumes v: "views E (p_queue p) v" and a: "slow_announced v" and x: "v_wq v \<noteq> []" "hd (v_wq v) \<noteq> Run_slow"
  shows "\<exists>r p' v'. worker_section (Suc n) t p = Some (r, p') \<and> section_done E t p v r p' v'"
proof -
  obtain y ys where y: "v_wq v = y # ys" "y \<noteq> Run_slow" using x by (cases "v_wq v") auto
  note V = views_simps [OF v]
  have nw: "\<not> must_wait p" using must_wait_view [OF v] y by (auto simp: idle_view_def)
  have hd: "QUEUE_HEAD (p_queue p) Wq = y" using V(5) y by simp
  consider w where "y = Work w" | "y = Exit_msg" using v y by (auto simp: views_def)
  then show ?thesis
  proof cases
    case 1
    let ?p = "on_queue (QUEUE_INIT y) (on_queue (QUEUE_REMOVE y) p)" and ?v = "v\<lparr>v_wq := ys\<rparr>"
    have "worker_section (Suc n) t p = Some (S_run w False, ?p)" using nw hd 1 by (simp add: take_work_def Let_def)
    moreover have "section_done E t p v (S_run w False) ?p ?v"
      using views_take(1) [OF v y(1) 1] a y 1
      by (auto simp: section_done_def rest_same_def slow_announced_def no_msg_def effect_def)
    ultimately show ?thesis by blast
  next
    case 2
    have "worker_section (Suc n) t p = Some (S_exit, cond_signal t p)" using nw hd 2 by simp
    moreover have "section_done E t p v S_exit (cond_signal t p) v"
      using v a y 2 by (auto simp: section_done_def rest_same_def cond_signal_wake effect_def)
    ultimately show ?thesis by blast
  qed
qed

lemma section_wait:
  assumes v: "views E (p_queue p) v" and a: "slow_announced v" and i: "idle_view (slow_full p) v"
  shows "\<exists>p'. worker_section (Suc n) t p = Some (S_wait, p') \<and> section_done E t p v S_wait p' v"
  using must_wait_view [OF v] assms by (auto simp: section_done_def rest_same_def effect_def)

lemma section_slow:
  assumes v: "views E (p_queue p) v" and a: "slow_announced v" and y: "v_wq v = Run_slow # ys"
    and nf: "\<not> slow_full p" and s: "v_slow v = w # ws"
  shows "\<exists>p' v'. worker_section (Suc n) t p = Some (S_run w True, p') \<and> section_done E t p v (S_run w True) p' v'"
proof -
  note V = views_simps [OF v]
  have nw: "\<not> must_wait p" using must_wait_view [OF v] y nf by (auto simp: idle_view_def)
  have hd: "QUEUE_HEAD (p_queue p) Wq = Run_slow" using V(5) y by simp
  let ?p1 = "on_queue (QUEUE_INIT Run_slow) (on_queue (QUEUE_REMOVE Run_slow) p)" and ?v1 = "v\<lparr>v_wq := ys\<rparr>"
  have v1: "views E (p_queue ?p1) ?v1" using views_take(2) [OF v y] by simp
  note V1 = views_simps [OF v1]
  let ?p2 = "?p1\<lparr>slow_io_work_running := slow_io_work_running ?p1 + 1\<rparr>"
  let ?p3 = "on_queue (QUEUE_INIT (Work w)) (on_queue (QUEUE_REMOVE (Work w)) ?p2)" and ?v3 = "v\<lparr>v_wq := ys, v_slow := ws\<rparr>"
  have v3: "views (insert w E) (p_queue ?p3) ?v3" using views_take_slow [OF v1, of w ws] s by simp
  have nr: "Run_slow \<notin> set ys" using views_places(3) [OF v] y by simp
  let ?p5 = "on_queue (QUEUE_INSERT_TAIL Wq Run_slow) ?p3" and ?v5 = "v\<lparr>v_slow := ws, v_wq := ys @ [Run_slow]\<rparr>"
  have v5: "views (insert w E) (p_queue ?p5) ?v5" using views_put(4) [OF v3] nr by simp
  have e: "worker_section (Suc n) t p = Some (S_run w True, if ws \<noteq> [] then signal_if_idle t ?p5 else ?p3)"
    using nw hd nf V1(2,6) s views_simps(2) [OF v3] by (simp add: take_work_def Let_def signal_if_idle_def)
  have nm: "no_msg ?v5 = no_msg v" "no_msg ?v3 = no_msg v" by (simp_all add: no_msg_def y)
  have q: "p_queue (signal_if_idle t ?p5) = p_queue ?p5" by (simp add: signal_if_idle_def cond_signal_def)
  show ?thesis
  proof (cases "ws = []")
    case True
    then have "section_done E t p v (S_run w True) ?p3 ?v3"
      using v3 nm nf s by (simp add: section_done_def rest_same_def slow_announced_def effect_def)
    then show ?thesis using e True by auto
  next
    case False
    then have "section_done E t p v (S_run w True) (signal_if_idle t ?p5) ?v5"
      using v5 nm nf s q False
      by (simp add: section_done_def rest_same_def slow_announced_def effect_def signal_if_idle_def cond_signal_wake)
    then show ?thesis using e False by auto
  qed
qed

text \<open>Meeting the message with nothing to do for it: it goes to the end, or away.\<close>

lemma section_msg:
  assumes v: "views E (p_queue p) v" and y: "v_wq v = Run_slow # ys" and nw: "\<not> idle_view (slow_full p) v"
    and c: "slow_full p \<or> v_slow v = []"
  obtains f v1 where "worker_section (Suc n) t p = worker_section n t (on_queue f p)" "views E (p_queue (on_queue f p)) v1"
    "rest_same v v1" "no_msg v1 = no_msg v" "v_slow v1 = v_slow v" "slow_announced v1"
    "v_wq v1 = (if slow_full p then ys @ [Run_slow] else ys)"
proof -
  have nr: "Run_slow \<notin> set ys" using views_places(3) [OF v] y by simp
  have hd: "QUEUE_HEAD (p_queue p) Wq = Run_slow" using views_simps(5) [OF v] y by simp
  have w: "\<not> must_wait p" using must_wait_view [OF v] nw by simp
  let ?f = "QUEUE_INIT Run_slow \<circ> QUEUE_REMOVE Run_slow"
  have o: "on_queue (QUEUE_INIT Run_slow) (on_queue (QUEUE_REMOVE Run_slow) p) = on_queue ?f p" by (simp add: on_queue_def)
  have v1: "views E (?f (p_queue p)) (v\<lparr>v_wq := ys\<rparr>)" using views_take(2) [OF v y refl] by simp
  note V1 = views_simps(2) [OF v1]
  show ?thesis
  proof (cases "slow_full p")
    case True
    let ?g = "QUEUE_INSERT_TAIL Wq Run_slow \<circ> ?f"
    have "worker_section (Suc n) t p = worker_section n t (on_queue ?g p)"
      using w hd True by (simp add: Let_def o) (simp add: on_queue_def)
    moreover have "views E (p_queue (on_queue ?g p)) (v\<lparr>v_wq := ys @ [Run_slow]\<rparr>)" using views_put(4) [OF v1] nr by simp
    ultimately show ?thesis
      by (rule that) (use True y in \<open>auto simp: rest_same_def no_msg_def slow_announced_def\<close>)
  next
    case False
    have "worker_section (Suc n) t p = worker_section n t (on_queue ?f p)"
      using w hd False V1 c by (simp add: Let_def o)
    moreover have "views E (p_queue (on_queue ?f p)) (v\<lparr>v_wq := ys\<rparr>)" using v1 by simp
    ultimately show ?thesis
      by (rule that) (use False y c nr in \<open>auto simp: rest_same_def no_msg_def slow_announced_def\<close>)
  qed
qed

lemma section_returns:
  assumes v: "views E (p_queue p) v" and a: "slow_announced v"
  shows "\<exists>r p' v'. worker_section 2 t p = Some (r, p') \<and> section_done E t p v r p' v'"
proof -
  have two: "worker_section 2 t p = worker_section (Suc (Suc 0)) t p" by (simp add: numeral_2_eq_2)
  consider "idle_view (slow_full p) v" | "v_wq v \<noteq> []" "hd (v_wq v) \<noteq> Run_slow"
    | ys where "v_wq v = Run_slow # ys" "\<not> idle_view (slow_full p) v" "slow_full p \<or> v_slow v = []"
    | ys w ws where "v_wq v = Run_slow # ys" "\<not> slow_full p" "v_slow v = w # ws"
    unfolding idle_view_def by (cases "v_wq v"; cases "v_slow v") auto
  then have "\<exists>r p' v'. worker_section (Suc (Suc 0)) t p = Some (r, p') \<and> section_done E t p v r p' v'"
  proof cases
    case 1
    then show ?thesis using section_wait [OF v a] by blast
  next
    case 2
    then show ?thesis using section_round [OF v a] by blast
  next
    case 3
    obtain f v1 where f: "worker_section (Suc (Suc 0)) t p = worker_section (Suc 0) t (on_queue f p)" "views E (p_queue (on_queue f p)) v1"
      "rest_same v v1" "no_msg v1 = no_msg v" "v_slow v1 = v_slow v" "slow_announced v1"
      "v_wq v1 = (if slow_full p then ys @ [Run_slow] else ys)"
      by (rule section_msg [OF v 3])
    have nr: "Run_slow \<notin> set ys" using views_places(3) [OF v] 3(1) by simp
    have "idle_view (slow_full (on_queue f p)) v1 \<or> v_wq v1 \<noteq> [] \<and> hd (v_wq v1) \<noteq> Run_slow"
      using 3(1,2) f(7) nr by (cases ys) (auto simp: idle_view_def)
    then obtain r p' v' where "worker_section (Suc 0) t (on_queue f p) = Some (r, p')" "section_done E t (on_queue f p) v1 r p' v'"
      using section_wait [OF f(2,6)] section_round [OF f(2,6)] by blast
    then show ?thesis unfolding f(1) using section_done_later [OF _ f(3-5)] by blast
  next
    case 4
    then show ?thesis using section_slow [OF v a] by blast
  qed
  then show ?thesis unfolding two .
qed

end
