(* ===== verification/Uv_Pool_Steps.thy ===== *)
theory Uv_Pool_Steps
  imports Uv_Pool_Inv
begin

text \<open>
  The pool as a transition system: steps of the workers, wake-ups without a signal, submissions, cancellations and
  completions in any order. The invariant of its reachable states.
\<close>

text \<open>
  \<open>submitted\<close> maps the requests to their functions, \<open>cancelling\<close> are the requests between the two parts of \<^verbatim>\<open>uv__work_cancel\<close>,
  \<open>exiting\<close> whether \<^verbatim>\<open>cleanup\<close> was called.
\<close>

record pool_sys =
  sp :: pool
  submitted :: "nat \<Rightarrow> nat option"
  cancelling :: "nat set"
  exiting :: bool

text \<open>The system wakes some waiting thread if there is one.\<close>

definition valid_pick :: "nat \<Rightarrow> pool \<Rightarrow> bool" where
  "valid_pick t p \<longleftrightarrow> pc p t = W_wait \<or> (\<forall>i. pc p i \<noteq> W_wait)"

fun about :: "pool_call \<Rightarrow> nat" where
  "about (Call_work w f) = w"
| "about (Call_done w e) = w"

definition log_of :: "nat \<Rightarrow> pool \<Rightarrow> pool_call list" where
  "log_of w p = filter (\<lambda>c. about c = w) (calls p)"

inductive pool_step :: "pool_sys \<Rightarrow> pool_sys \<Rightarrow> bool" where
  Worker: "valid_pick t (sp s) \<Longrightarrow> worker_step i t (sp s) = Some p \<Longrightarrow> pool_step s (s\<lparr>sp := p\<rparr>)"
| Spurious: "pc (sp s) i = W_wait \<Longrightarrow> pool_step s (s\<lparr>sp := cond_signal i (sp s)\<rparr>)"
| Submit: "valid_pick t (sp s) \<Longrightarrow> submitted s w = None \<Longrightarrow>
    pool_step s (s\<lparr>sp := uv__work_submit l w kind f t (sp s), submitted := (submitted s)(w := Some f)\<rparr>)"
| Cancel: "submitted s w \<noteq> None \<Longrightarrow> w \<notin> cancelling s \<Longrightarrow> \<forall>e. Call_done w e \<notin> set (calls (sp s)) \<Longrightarrow>
    work_cancel_begin w (sp s) = (b, p) \<Longrightarrow>
    pool_step s (s\<lparr>sp := p, cancelling := (if b then insert w (cancelling s) else cancelling s)\<rparr>)"
| Cancelled: "w \<in> cancelling s \<Longrightarrow>
    pool_step s (s\<lparr>sp := work_cancel_end (wk_loop (sp s) w) w (sp s), cancelling := cancelling s - {w}\<rparr>)"
| Done: "QUEUE_EMPTY (p_queue (sp s)) (Done_wq l) \<Longrightarrow> pool_step s (s\<lparr>sp := work_done_begin l (sp s)\<rparr>)"
| Next: "work_done_next l (sp s) = Some p \<Longrightarrow> pool_step s (s\<lparr>sp := p\<rparr>)"
| Cleanup: "valid_pick t (sp s) \<Longrightarrow> \<not> exiting s \<Longrightarrow> pool_step s (s\<lparr>sp := pool_cleanup t (sp s), exiting := True\<rparr>)"

text \<open>Before \<^verbatim>\<open>init_threads\<close>: static storage is zero, and the loops have initialised their queues.\<close>

definition raw_pool :: pool where
  "raw_pool = \<lparr>p_queue = \<lparr>q_next = (\<lambda>x. x), q_prev = (\<lambda>x. x)\<rparr>, idle_threads = 0, slow_io_work_running = 0, nthreads = 0,
     wk_work = (\<lambda>_. Fn_NULL), wk_loop = (\<lambda>_. 0), pc = (\<lambda>_. W_exit), async_sent = (\<lambda>_. False), calls = []\<rparr>"

definition pool_start :: "u32 option \<Rightarrow> bool \<Rightarrow> pool_sys" where
  "pool_start val ok = \<lparr>sp = init_threads val ok raw_pool, submitted = (\<lambda>_. None), cancelling = {}, exiting = False\<rparr>"

inductive pool_reach :: "pool_sys \<Rightarrow> bool" where
  start: "pool_reach (pool_start val ok)"
| step: "pool_reach s \<Longrightarrow> pool_step s s' \<Longrightarrow> pool_reach s'"

subsection \<open>Counting threads\<close>

definition cnt :: "('b \<Rightarrow> bool) \<Rightarrow> (nat \<Rightarrow> 'b) \<Rightarrow> nat" where
  "cnt P f = card {i. P (f i)}"

lemma cnt_upd:
  assumes "finite {i. P (f i)}"
  shows "cnt P (f(i := x)) + (if P (f i) then 1 else 0) = cnt P f + (if P x then 1 else 0)"
proof -
  have e: "{j. P ((f(i := x)) j)} = (if P x then insert i {j. P (f j)} else {j. P (f j)} - {i})" by auto
  show ?thesis unfolding cnt_def e using assms card_Suc_Diff1 [OF assms, of i]
    by (cases "P (f i)") (auto simp: card_insert_if)
qed

lemma cnt_same: "(\<And>i. P (g i) = P (f i)) \<Longrightarrow> cnt P g = cnt P f"
  by (simp add: cnt_def)

lemma cnt_pos: "finite {i. P (f i)} \<Longrightarrow> 0 < cnt P f \<longleftrightarrow> (\<exists>i. P (f i))"
  by (auto simp: cnt_def card_gt_0_iff)

fun idle_pc :: "worker_pc \<Rightarrow> bool" where
  "idle_pc W_wait = True"
| "idle_pc W_woken = True"
| "idle_pc _ = False"

fun slow_pc :: "worker_pc \<Rightarrow> bool" where
  "slow_pc (W_run w b) = b"
| "slow_pc (W_finish w b) = b"
| "slow_pc (W_relock b) = b"
| "slow_pc _ = False"

text \<open>The counters count, for threads at \<open>f\<close>; there are at most 1024 threads.\<close>

definition counters_ok :: "pool \<Rightarrow> (nat \<Rightarrow> worker_pc) \<Rightarrow> bool" where
  "counters_ok p f \<longleftrightarrow>
     0 < nthreads p \<and> nthreads p \<le> 1024 \<and> (\<forall>i \<ge> unat (nthreads p). f i = W_exit) \<and>
     unat (idle_threads p) = cnt idle_pc f \<and> unat (slow_io_work_running p) = cnt slow_pc f \<and>
     cnt slow_pc f \<le> (unat (nthreads p) + 1) div 2"

lemma counters_finite:
  assumes "counters_ok p f" and "\<not> P W_exit"
  shows "finite {i. P (f i)}" "cnt P f \<le> 1024"
proof -
  have s: "{i. P (f i)} \<subseteq> {..<unat (nthreads p)}"
  proof
    fix i assume "i \<in> {i. P (f i)}"
    then show "i \<in> {..<unat (nthreads p)}"
      using assms by (cases "unat (nthreads p) \<le> i") (auto simp: counters_ok_def)
  qed
  then show "finite {i. P (f i)}" by (rule finite_subset) simp
  have "card {i. P (f i)} \<le> unat (nthreads p)" using card_mono [OF _ s] by simp
  then show "cnt P f \<le> 1024" using assms(1) by (simp add: cnt_def counters_ok_def word_le_nat_alt)
qed

lemma slow_threshold_nat: "nthreads p \<le> 1024 \<Longrightarrow> unat (slow_work_thread_threshold p) = (unat (nthreads p) + 1) div 2"
  by (simp add: slow_work_thread_threshold_def unat_div word_le_nat_alt unat_add_no_wrap)

lemma wake_cnt [simp]: "cnt idle_pc (wake t f) = cnt idle_pc f" "cnt slow_pc (wake t f) = cnt slow_pc f"
  by (auto intro!: cnt_same simp: wake_def split: if_splits)

lemma wake_other: "f j \<noteq> W_wait \<Longrightarrow> wake t f j = f j"
  by (auto simp: wake_def)

lemma counters_wake: "counters_ok p f \<Longrightarrow> counters_ok p (wake t f)"
  by (simp add: counters_ok_def wake_other)

lemma counters_cong:
  "counters_ok p f \<Longrightarrow> nthreads p' = nthreads p \<Longrightarrow> idle_threads p' = idle_threads p \<Longrightarrow>
   slow_io_work_running p' = slow_io_work_running p \<Longrightarrow> counters_ok p' f"
  by (simp add: counters_ok_def)


subsection \<open>The requests\<close>

definition runs :: "(nat \<Rightarrow> worker_pc) \<Rightarrow> nat set" where
  "runs f = {w. \<exists>i b. f i = W_run w b}"

definition ends :: "(nat \<Rightarrow> worker_pc) \<Rightarrow> nat set" where
  "ends f = {w. \<exists>i b. f i = W_finish w b}"

abbreviation exec :: "(nat \<Rightarrow> worker_pc) \<Rightarrow> nat set" where
  "exec f \<equiv> runs f \<union> ends f"

text \<open>The request a thread works on; no two threads work on the same.\<close>

fun busy_with :: "worker_pc \<Rightarrow> nat option" where
  "busy_with (W_run w b) = Some w"
| "busy_with (W_finish w b) = Some w"
| "busy_with _ = None"

definition one_thread :: "(nat \<Rightarrow> worker_pc) \<Rightarrow> bool" where
  "one_thread f \<longleftrightarrow> (\<forall>i j w. busy_with (f i) = Some w \<longrightarrow> busy_with (f j) = Some w \<longrightarrow> i = j)"

lemma busy_exec: "w \<in> exec f \<longleftrightarrow> (\<exists>i. busy_with (f i) = Some w)"
proof -
  have "busy_with c = Some w \<longleftrightarrow> (\<exists>b. c = W_run w b) \<or> (\<exists>b. c = W_finish w b)" for c by (cases c) auto
  then show ?thesis by (auto simp: runs_def ends_def)
qed

text \<open>The part of the other threads.\<close>

definition runs_but :: "nat \<Rightarrow> (nat \<Rightarrow> worker_pc) \<Rightarrow> nat set" where
  "runs_but i f = {w. \<exists>j b. j \<noteq> i \<and> f j = W_run w b}"

definition ends_but :: "nat \<Rightarrow> (nat \<Rightarrow> worker_pc) \<Rightarrow> nat set" where
  "ends_but i f = {w. \<exists>j b. j \<noteq> i \<and> f j = W_finish w b}"

lemma runs_at: "runs f = {w. \<exists>b. f i = W_run w b} \<union> runs_but i f" "ends f = {w. \<exists>b. f i = W_finish w b} \<union> ends_but i f"
proof -
  have "(\<exists>j b. f j = X b) \<longleftrightarrow> (\<exists>b. f i = X b) \<or> (\<exists>j b. j \<noteq> i \<and> f j = X b)" for X :: "bool \<Rightarrow> worker_pc" by metis
  then show "runs f = {w. \<exists>b. f i = W_run w b} \<union> runs_but i f" "ends f = {w. \<exists>b. f i = W_finish w b} \<union> ends_but i f"
    by (auto simp: runs_def ends_def runs_but_def ends_but_def)
qed

lemma runs_upd:
  "runs (f(i := c)) = {w. \<exists>b. c = W_run w b} \<union> runs_but i f" "ends (f(i := c)) = {w. \<exists>b. c = W_finish w b} \<union> ends_but i f"
  unfolding runs_def ends_def runs_but_def ends_but_def by (auto split: if_splits)

lemma exec_upd:
  assumes "busy_with (f i) = None"
  shows "busy_with c = None \<Longrightarrow> runs (f(i := c)) = runs f \<and> ends (f(i := c)) = ends f"
    and "runs (f(i := W_run w b)) = insert w (runs f)" "ends (f(i := W_run w b)) = ends f"
proof -
  have n: "\<And>w b. f i \<noteq> W_run w b" "\<And>w b. f i \<noteq> W_finish w b" using assms by (cases "f i"; simp)+
  show "busy_with c = None \<Longrightarrow> runs (f(i := c)) = runs f \<and> ends (f(i := c)) = ends f"
    unfolding runs_upd runs_at [of f i] using n by (cases c) auto
  show "runs (f(i := W_run w b)) = insert w (runs f)" "ends (f(i := W_run w b)) = ends f"
    unfolding runs_upd runs_at [of f i] using n by auto
qed

lemma exec_wake [simp]: "runs (wake t f) = runs f" "ends (wake t f) = ends f" "one_thread (wake t f) = one_thread f"
proof -
  have b: "busy_with (wake t f i) = busy_with (f i)" for i by (simp add: wake_def)
  have "wake t f i = W_run w b \<longleftrightarrow> f i = W_run w b" "wake t f i = W_finish w b \<longleftrightarrow> f i = W_finish w b" for i w b
    by (auto simp: wake_def)
  then show "runs (wake t f) = runs f" "ends (wake t f) = ends f" by (simp_all add: runs_def ends_def)
  show "one_thread (wake t f) = one_thread f" by (simp add: one_thread_def b)
qed

lemma one_thread_upd:
  assumes "one_thread f" and "busy_with c = None \<or> busy_with c = Some w \<and> (w \<notin> exec f \<or> busy_with (f i) = Some w)"
  shows "one_thread (f(i := c))"
  using assms unfolding one_thread_def busy_exec by (auto split: if_splits)

text \<open>
  Where a request is, what its function pointer holds then, and which calls were made for it: its function at most once,
  and the completion once, with \<^verbatim>\<open>UV_ECANCELED\<close> exactly when the function was not called.
\<close>

definition work_ok :: "pool \<Rightarrow> pool_view \<Rightarrow> (nat \<Rightarrow> nat option) \<Rightarrow> nat set \<Rightarrow> nat \<Rightarrow> bool" where
  "work_ok p v S C w \<longleftrightarrow>
     (case S w of
        None \<Rightarrow> w \<notin> exec (pc p) \<union> queued v \<union> returned v \<union> C \<and> log_of w p = []
      | Some f \<Rightarrow>
          w \<in> queued v \<and> wk_work p w = Fn f \<and> log_of w p = [] \<or>
          w \<in> runs (pc p) \<and> wk_work p w = Fn f \<and> log_of w p = [] \<or>
          w \<in> ends (pc p) \<and> log_of w p = [Call_work w (Fn f)] \<or>
          w \<in> C \<and> log_of w p = [] \<or>
          w \<in> returned v \<and> (wk_work p w = Fn_NULL \<and> log_of w p = [Call_work w (Fn f)] \<or>
                                wk_work p w = Fn_cancelled \<and> log_of w p = []) \<or>
          w \<notin> exec (pc p) \<union> queued v \<union> returned v \<union> C \<and>
            (log_of w p = [Call_work w (Fn f), Call_done w None] \<or> log_of w p = [Call_done w (Some UV_ECANCELED)]))"

lemma work_ok_cong:
  assumes "work_ok p v S C w" and "w \<in> queued v' \<longleftrightarrow> w \<in> queued v" and "w \<in> returned v' \<longleftrightarrow> w \<in> returned v"
    and "w \<in> runs (pc p') \<longleftrightarrow> w \<in> runs (pc p)" and "w \<in> ends (pc p') \<longleftrightarrow> w \<in> ends (pc p)" and "w \<in> C' \<longleftrightarrow> w \<in> C"
    and "S' w = S w" and "wk_work p' w = wk_work p w" and "log_of w p' = log_of w p"
  shows "work_ok p' v' S' C' w"
  using assms unfolding work_ok_def Un_iff by (cases "S w") simp_all

definition works_ok :: "pool \<Rightarrow> pool_view \<Rightarrow> (nat \<Rightarrow> nat option) \<Rightarrow> nat set \<Rightarrow> bool" where
  "works_ok p v S C \<longleftrightarrow> (\<forall>w. work_ok p v S C w) \<and> C \<inter> (exec (pc p) \<union> queued v \<union> returned v) = {}"

lemma works_ok_cong:
  "works_ok p v S C \<Longrightarrow> pc p' = pc p \<Longrightarrow> wk_work p' = wk_work p \<Longrightarrow> calls p' = calls p \<Longrightarrow> works_ok p' v S C"
  using work_ok_cong [of p v S C _ v p' C S] by (simp add: works_ok_def log_of_def)

text \<open>Work that can be done is not left to sleeping threads.\<close>

definition wake_ok :: "pool \<Rightarrow> pool_view \<Rightarrow> bool" where
  "wake_ok p v \<longleftrightarrow>
     idle_view (slow_full p) v \<or> (\<exists>i. pc p i \<noteq> W_wait \<and> pc p i \<noteq> W_exit) \<or> (\<forall>i. pc p i = W_exit)"

text \<open>No thread ends before \<^verbatim>\<open>cleanup\<close>.\<close>

definition none_ended :: "pool \<Rightarrow> bool" where
  "none_ended p \<longleftrightarrow> (\<forall>i < unat (nthreads p). pc p i \<noteq> W_exit)"

definition sys_ok :: "pool_sys \<Rightarrow> pool_view \<Rightarrow> bool" where
  "sys_ok s v \<longleftrightarrow>
     counters_ok (sp s) (pc (sp s)) \<and> views (exec (pc (sp s))) (p_queue (sp s)) v \<and> slow_announced v \<and> one_thread (pc (sp s)) \<and>
     wake_ok (sp s) v \<and> works_ok (sp s) v (submitted s) (cancelling s) \<and> (Exit_msg \<in> set (v_wq v) \<longleftrightarrow> exiting s) \<and>
     (exiting s \<or> none_ended (sp s))"

lemma sys_okD:
  assumes "sys_ok s v"
  shows "counters_ok (sp s) (pc (sp s))" "views (exec (pc (sp s))) (p_queue (sp s)) v" "slow_announced v" "one_thread (pc (sp s))"
    "wake_ok (sp s) v" "works_ok (sp s) v (submitted s) (cancelling s)" "Exit_msg \<in> set (v_wq v) \<longleftrightarrow> exiting s"
    "work_ok (sp s) v (submitted s) (cancelling s) w"
    "cancelling s \<inter> (exec (pc (sp s)) \<union> queued v \<union> returned v) = {}" "exiting s \<or> none_ended (sp s)"
  using assms by (auto simp: sys_ok_def works_ok_def)

lemma runs_ends_disjoint: "one_thread f \<Longrightarrow> runs f \<inter> ends f = {}"
proof -
  assume o: "one_thread f"
  have False if "f i = W_run w b" "f j = W_finish w c" for i j w b c
  proof -
    have "busy_with (f i) = Some w" "busy_with (f j) = Some w" using that by simp_all
    then have "i = j" using o unfolding one_thread_def by blast
    then show False using that by simp
  qed
  then show ?thesis by (fastforce simp: runs_def ends_def)
qed

subsection \<open>The critical section keeps the invariant\<close>

fun exit_pc :: "section_exit \<Rightarrow> worker_pc" where
  "exit_pc S_wait = W_wait"
| "exit_pc S_exit = W_exit"
| "exit_pc (S_run w b) = W_run w b"

lemma run_section_eq: "run_section i t p = map_option (\<lambda>(r, p'). p'\<lparr>pc := (pc p')(i := exit_pc r)\<rparr>) (worker_section 2 t p)"
  by (auto simp: run_section_def split: option.splits section_exit.splits)

text \<open>Thread \<open>i\<close> counts for nothing while it holds the mutex.\<close>

lemma counters_enter:
  assumes c: "counters_ok p f"
  shows "f i = W_start \<Longrightarrow> counters_ok p (f(i := W_start))"
    and "f i = W_woken \<Longrightarrow> counters_ok (p\<lparr>idle_threads := idle_threads p - 1\<rparr>) (f(i := W_start))"
    and "f i = W_relock True \<Longrightarrow> counters_ok (p\<lparr>slow_io_work_running := slow_io_work_running p - 1\<rparr>) (f(i := W_start))"
    and "f i = W_relock False \<Longrightarrow> counters_ok p (f(i := W_start))"
proof -
  have I: "cnt idle_pc (f(i := W_start)) + (if idle_pc (f i) then 1 else 0) = cnt idle_pc f"
    using cnt_upd [of idle_pc f i W_start] counters_finite(1) [OF c, of idle_pc] by simp
  have S: "cnt slow_pc (f(i := W_start)) + (if slow_pc (f i) then 1 else 0) = cnt slow_pc f"
    using cnt_upd [of slow_pc f i W_start] counters_finite(1) [OF c, of slow_pc] by simp
  have u: "unat ((x :: u32) - 1) = unat x - 1" if "0 < unat x" for x
    using that by (subst unat_sub) (auto simp: word_le_nat_alt)
  have n: "f i \<noteq> W_exit \<Longrightarrow> i < unat (nthreads p)" using c by (cases "i < unat (nthreads p)") (auto simp: counters_ok_def)
  show "f i = W_start \<Longrightarrow> counters_ok p (f(i := W_start))" using c by (simp add: fun_upd_idem)
  show "f i = W_woken \<Longrightarrow> counters_ok (p\<lparr>idle_threads := idle_threads p - 1\<rparr>) (f(i := W_start))"
    using c I S n by (auto simp: counters_ok_def u)
  show "f i = W_relock True \<Longrightarrow> counters_ok (p\<lparr>slow_io_work_running := slow_io_work_running p - 1\<rparr>) (f(i := W_start))"
    using c I S n by (auto simp: counters_ok_def u)
  show "f i = W_relock False \<Longrightarrow> counters_ok p (f(i := W_start))" using c I S n by (auto simp: counters_ok_def)
qed

lemma counters_leave:
  assumes c: "counters_ok p (f(i := W_start))" and i: "i < unat (nthreads p)" and n: "nthreads p' = nthreads p"
  shows "idle_threads p' = idle_threads p + 1 \<Longrightarrow> slow_io_work_running p' = slow_io_work_running p \<Longrightarrow> counters_ok p' (f(i := W_wait))"
    and "idle_threads p' = idle_threads p \<Longrightarrow> slow_io_work_running p' = slow_io_work_running p \<Longrightarrow> counters_ok p' (f(i := W_exit))"
    and "idle_threads p' = idle_threads p \<Longrightarrow> slow_io_work_running p' = slow_io_work_running p \<Longrightarrow> counters_ok p' (f(i := W_run w False))"
    and "idle_threads p' = idle_threads p \<Longrightarrow> slow_io_work_running p' = slow_io_work_running p + 1 \<Longrightarrow> \<not> slow_full p \<Longrightarrow>
         counters_ok p' (f(i := W_run w True))"
proof -
  let ?f = "f(i := W_start)"
  have u: "unat (idle_threads p + 1) = unat (idle_threads p) + 1" "unat (slow_io_work_running p + 1) = unat (slow_io_work_running p) + 1"
    using counters_finite(2) [OF c, of idle_pc] counters_finite(2) [OF c, of slow_pc] c
    by (simp_all add: counters_ok_def unat_add_no_wrap)
  have k: "cnt P (f(i := x)) = cnt P ?f + (if P x then 1 else 0)" if "\<not> P W_exit" "\<not> P W_start" for P x
    using cnt_upd [of P ?f i x] counters_finite(1) [OF c, of P] that by simp
  have t: "\<not> slow_full p \<Longrightarrow> unat (slow_io_work_running p) < (unat (nthreads p) + 1) div 2"
    using slow_threshold_nat [of p] c by (simp add: counters_ok_def word_le_nat_alt not_le)
  show "idle_threads p' = idle_threads p + 1 \<Longrightarrow> slow_io_work_running p' = slow_io_work_running p \<Longrightarrow> counters_ok p' (f(i := W_wait))"
    using c i n u k [of idle_pc W_wait] k [of slow_pc W_wait] by (auto simp: counters_ok_def)
  show "idle_threads p' = idle_threads p \<Longrightarrow> slow_io_work_running p' = slow_io_work_running p \<Longrightarrow> counters_ok p' (f(i := W_exit))"
    using c i n k [of idle_pc W_exit] k [of slow_pc W_exit] by (auto simp: counters_ok_def)
  show "idle_threads p' = idle_threads p \<Longrightarrow> slow_io_work_running p' = slow_io_work_running p \<Longrightarrow> counters_ok p' (f(i := W_run w False))"
    using c i n k [of idle_pc "W_run w False"] k [of slow_pc "W_run w False"] by (auto simp: counters_ok_def)
  show "idle_threads p' = idle_threads p \<Longrightarrow> slow_io_work_running p' = slow_io_work_running p + 1 \<Longrightarrow> \<not> slow_full p \<Longrightarrow>
         counters_ok p' (f(i := W_run w True))"
    using c i n u t k [of idle_pc "W_run w True"] k [of slow_pc "W_run w True"] by (auto simp: counters_ok_def)
qed


lemma queued_no_msg: "queued v = {w. Work w \<in> set (no_msg v)} \<union> set (v_slow v)"
  by (auto simp: queued_def no_msg_def)

lemma exit_no_msg: "Exit_msg \<in> set (v_wq v) \<longleftrightarrow> Exit_msg \<in> set (no_msg v)"
  by (auto simp: no_msg_def)

lemma section_moves:
  assumes "section_done E t p v r p' v'"
  shows "returned v' = returned v" "slow_announced v'" "Exit_msg \<in> set (v_wq v') \<longleftrightarrow> Exit_msg \<in> set (v_wq v)"
    "queued v = (case r of S_run w b \<Rightarrow> insert w (queued v') | _ \<Rightarrow> queued v')"
    "nthreads p' = nthreads p" "wk_work p' = wk_work p" "calls p' = calls p" "pc p' = pc p \<or> pc p' = wake t (pc p)"
  using assms unfolding exit_no_msg
  by (auto simp: section_done_def rest_same_def returned_def queued_no_msg effect_def split: section_exit.splits if_splits)

lemma section_counters:
  assumes d: "section_done E t p v r p' v'" and c: "counters_ok p ((pc p)(i := W_start))" and i: "i < unat (nthreads p)"
    and w: "pc p i \<noteq> W_wait"
  shows "counters_ok p' ((pc p')(i := exit_pc r))"
proof -
  have n: "nthreads p' = nthreads p" by (rule section_moves [OF d])
  have wk: "wake t ((pc p)(i := x)) = (wake t (pc p))(i := x)" if "x \<noteq> W_wait" for x
    using that w by (auto simp: wake_def fun_eq_iff)
  note L = counters_leave [OF c i n]
  show ?thesis
  proof (cases r)
    case S_wait
    then show ?thesis using d L(1) by (auto simp: section_done_def effect_def)
  next
    case S_exit
    then have "counters_ok p' ((pc p)(i := W_exit))" using d L(2) by (auto simp: section_done_def effect_def)
    then have "counters_ok p' ((wake t (pc p))(i := W_exit))" using counters_wake [of p' "(pc p)(i := W_exit)" t] wk by simp
    then show ?thesis using d S_exit by (auto simp: section_done_def effect_def)
  next
    case (S_run k b)
    then have "counters_ok p' ((pc p)(i := W_run k b))"
      using d L(3,4) by (cases b) (auto simp: section_done_def effect_def)
    moreover from this have "counters_ok p' ((wake t (pc p))(i := W_run k b))"
      using counters_wake [of p' "(pc p)(i := W_run k b)" t] wk by simp
    ultimately show ?thesis using S_run section_moves(8) [OF d] by auto
  qed
qed

lemma section_wakes:
  assumes d: "section_done E t p v r p' v'" and pick: "valid_pick t p" and w: "pc p i \<noteq> W_wait"
  shows "wake_ok (p'\<lparr>pc := (pc p')(i := exit_pc r)\<rparr>) v'"
proof (cases r)
  case S_wait
  then show ?thesis using d by (simp add: section_done_def wake_ok_def effect_def slow_work_thread_threshold_def)
next
  case (S_run k b)
  then show ?thesis by (auto simp: wake_ok_def)
next
  case S_exit
  then have pc: "pc p' = wake t (pc p)" using d by (simp add: section_done_def effect_def)
  consider "pc p t = W_wait" "t \<noteq> i" | "\<forall>j. pc p j \<noteq> W_wait" using pick w by (auto simp: valid_pick_def)
  then show ?thesis
  proof cases
    case 1
    then show ?thesis unfolding wake_ok_def using pc S_exit by (auto simp: wake_def intro!: exI [of _ t])
  next
    case 2
    then show ?thesis unfolding wake_ok_def using pc S_exit by (auto simp: wake_def)
  qed
qed

lemma section_works:
  assumes d: "section_done (exec (pc p)) t p v r p' v'" and w: "works_ok p v S C" and v: "views (exec (pc p)) (p_queue p) v"
    and b: "busy_with (pc p i) = None" "pc p i \<noteq> W_wait" and q: "p'' = p'\<lparr>pc := (pc p')(i := exit_pc r)\<rparr>"
  shows "works_ok p'' v' S C" and "views (exec (pc p'')) (p_queue p'') v'" and "one_thread (pc p) \<Longrightarrow> one_thread (pc p'')"
proof -
  note M = section_moves [OF d]
  have gi: "busy_with (pc p' i) = None" using M(8) b by (auto simp: wake_other)
  have re: "runs (pc p') = runs (pc p)" "ends (pc p') = ends (pc p)" using M(8) by auto
  have lg: "log_of k p'' = log_of k p" for k using M(7) q by (simp add: log_of_def)
  have "works_ok p'' v' S C \<and> views (exec (pc p'')) (p_queue p'') v' \<and> (one_thread (pc p) \<longrightarrow> one_thread (pc p''))"
  proof (cases "\<exists>k bb. r = S_run k bb")
    case False
    then have x: "busy_with (exit_pc r) = None" by (cases r) auto
    then have e: "runs (pc p'') = runs (pc p)" "ends (pc p'') = ends (pc p)" using exec_upd(1) [of "pc p'" i "exit_pc r"] gi x re q by auto
    have k: "queued v' = queued v" using M(4) False by (cases r) auto
    have "works_ok p'' v' S C"
      using w work_ok_cong [of p v S C _ v' p'' C S] e k M(1,6) lg q by (auto simp: works_ok_def)
    moreover have "views (exec (pc p'')) (p_queue p'') v'" using d False e q by (cases r) (auto simp: section_done_def)
    moreover have "one_thread (pc p) \<longrightarrow> one_thread (pc p'')" using one_thread_upd [of "pc p'" "exit_pc r"] x M(8) q by auto
    ultimately show ?thesis by blast
  next
    case True
    then obtain k bb where r: "r = S_run k bb" by blast
    have e: "runs (pc p'') = insert k (runs (pc p))" "ends (pc p'') = ends (pc p)"
      using exec_upd(2,3) [of "pc p'" i k bb] gi re q r by auto
    have vv: "views (insert k (exec (pc p))) (p_queue p') v'" using d r by (simp add: section_done_def)
    have nk: "k \<notin> queued v'" "k \<notin> returned v'" using views_places(1) [OF vv] by auto
    have qk: "queued v = insert k (queued v')" using M(4) r by simp
    then have ne: "k \<notin> exec (pc p)" "k \<notin> returned v" using views_places(1,2) [OF v] by auto
    have kC: "k \<notin> C" using w qk by (auto simp: works_ok_def)
    have ok: "work_ok p v S C j" for j using w by (simp add: works_ok_def)
    have "work_ok p'' v' S C j" for j
    proof (cases "j = k")
      case True
      then show ?thesis using ok [of k] e nk qk ne kC lg M(6) q by (auto simp: work_ok_def split: option.splits)
    next
      case False
      then show ?thesis using e qk M(1,6) lg q by (intro work_ok_cong [OF ok [of j]]) auto
    qed
    moreover have "C \<inter> (exec (pc p'') \<union> queued v' \<union> returned v') = {}" using w e qk kC M(1) by (auto simp: works_ok_def)
    moreover have "one_thread (pc p) \<longrightarrow> one_thread (pc p'')"
      using one_thread_upd [of "pc p'" "exit_pc r" k i] M(8) q r ne re by auto
    moreover have "views (exec (pc p'')) (p_queue p'') v'" using vv e q by simp
    ultimately show ?thesis by (auto simp: works_ok_def)
  qed
  then show "works_ok p'' v' S C" and "views (exec (pc p'')) (p_queue p'') v'" and "one_thread (pc p) \<Longrightarrow> one_thread (pc p'')"
    by auto
qed

text \<open>What is left to do, as a number that every step of a worker decreases.\<close>

fun weight :: "worker_pc \<Rightarrow> nat" where
  "weight W_exit = 0"
| "weight W_wait = 1"
| "weight (W_run w b) = 4"
| "weight (W_finish w b) = 3"
| "weight _ = 2"

definition load :: "pool \<Rightarrow> pool_view \<Rightarrow> nat" where
  "load p v = 4 * card (queued v) + (\<Sum>i < unat (nthreads p). weight (pc p i))"

lemma weight_upd:
  fixes f :: "nat \<Rightarrow> worker_pc"
  assumes "i < n"
  shows "(\<Sum>j < n. weight ((f(i := c)) j)) + weight (f i) = (\<Sum>j < n. weight (f j)) + weight c"
proof -
  have "(\<Sum>j < n. weight (g j)) = weight (g i) + (\<Sum>j \<in> {..<n} - {i}. weight (g j))" for g :: "nat \<Rightarrow> worker_pc"
    using assms by (simp add: sum.remove)
  from this [of f] this [of "f(i := c)"] show ?thesis by simp
qed

lemma weight_wake: "(\<Sum>j < n. weight (wake t f j)) \<le> (\<Sum>j < n. weight (f j)) + 1"
proof (cases "t < n \<and> f t = W_wait")
  case True
  then show ?thesis using weight_upd [of t n f W_woken] by (simp add: wake_def)
next
  case False
  then have "wake t f j = f j" if "j < n" for j using that by (auto simp: wake_def)
  then show ?thesis by simp
qed

lemma queued_finite [simp]: "finite (queued v)"
proof -
  have "queued v \<subseteq> (\<Union>x \<in> set (v_wq v). case x of Work w \<Rightarrow> {w} | _ \<Rightarrow> {}) \<union> set (v_slow v)" by (force simp: queued_def)
  then show ?thesis by (rule finite_subset) (auto split: pool_addr.splits)
qed

lemma section_load:
  assumes d: "section_done E t p v r p' v'" and i: "i < unat (nthreads p)" and w: "weight (pc p i) = 2"
  shows "load (p'\<lparr>pc := (pc p')(i := exit_pc r)\<rparr>) v' < load p v"
proof -
  note M = section_moves [OF d]
  let ?W = "\<lambda>f. \<Sum>j < unat (nthreads p). weight (f j)"
  have "pc p i \<noteq> W_wait" using w by auto
  then have pi: "pc p' i = pc p i" using M(8) by (auto simp: wake_other)
  have u: "?W ((pc p')(i := exit_pc r)) + 2 = ?W (pc p') + weight (exit_pc r)" using weight_upd [OF i, of "pc p'" "exit_pc r"] w pi by simp
  have l: "?W (pc p') \<le> ?W (pc p) + 1" using M(8) weight_wake [of t "pc p" "unat (nthreads p)"] by auto
  show ?thesis
  proof (cases r)
    case S_wait
    then have "pc p' = pc p" using d by (simp add: section_done_def effect_def)
    then show ?thesis using M(4,5) S_wait u by (simp add: load_def)
  next
    case S_exit
    then show ?thesis using M(4,5) u l by (simp add: load_def)
  next
    case (S_run k b)
    then have "k \<notin> queued v'" using d views_places(1) [of "insert k E" "p_queue p'" v'] by (auto simp: section_done_def)
    then have "card (queued v) = Suc (card (queued v'))" using M(4) S_run by simp
    then show ?thesis using M(5) S_run u l by (simp add: load_def)
  qed
qed

lemma section_ended:
  assumes d: "section_done E t p v r p' v'" and x: "Exit_msg \<in> set (v_wq v) \<or> none_ended p"
  shows "Exit_msg \<in> set (v_wq v) \<or> none_ended (p'\<lparr>pc := (pc p')(i := exit_pc r)\<rparr>)"
proof (cases "r = S_exit")
  case True
  then have "v_wq v' \<noteq> [] \<and> hd (v_wq v') = Exit_msg" using d by (simp add: section_done_def)
  then have "Exit_msg \<in> set (v_wq v')" by (metis hd_in_set)
  then show ?thesis using section_moves(3) [OF d] by blast
next
  case False
  then have "exit_pc r \<noteq> W_exit" by (cases r) auto
  then show ?thesis using x section_moves(5,8) [OF d] by (auto simp: none_ended_def split: if_splits)
qed

lemma section_keeps:
  assumes ok: "sys_ok s v" and b: "busy_with (pc (sp s) i) = None" "pc (sp s) i \<noteq> W_wait" "pc (sp s) i \<noteq> W_exit"
    and wt: "weight (pc (sp s) i) = 2" and c: "counters_ok p ((pc p)(i := W_start))" and p: "effect (sp s) p (idle_threads p) (slow_io_work_running p) (pc (sp s))"
    "p_queue p = p_queue (sp s)" and pick: "valid_pick t (sp s)"
  shows "\<exists>p' v'. run_section i t p = Some p' \<and> sys_ok (s\<lparr>sp := p'\<rparr>) v' \<and> load p' v' < load (sp s) v"
proof -
  note K = sys_okD [OF ok]
  have pc: "pc p = pc (sp s)" "nthreads p = nthreads (sp s)" "wk_work p = wk_work (sp s)" "calls p = calls (sp s)"
    using p(1) by (simp_all add: effect_def)
  have v: "views (exec (pc p)) (p_queue p) v" using K(2) pc p(2) by simp
  have w: "works_ok p v (submitted s) (cancelling s)"
    using K(6) pc by (intro works_ok_cong [OF K(6)])
  obtain r p1 v' where r: "worker_section 2 t p = Some (r, p1)" "section_done (exec (pc p)) t p v r p1 v'"
    using section_returns [OF v K(3)] by blast
  let ?p = "p1\<lparr>pc := (pc p1)(i := exit_pc r)\<rparr>"
  have run: "run_section i t p = Some ?p" using r(1) by (simp add: run_section_eq)
  have i: "i < unat (nthreads p)" using K(1) b(3) pc by (cases "i < unat (nthreads p)") (auto simp: counters_ok_def)
  have b': "busy_with (pc p i) = None" "pc p i \<noteq> W_wait" using b pc by simp_all
  note W = section_works [OF r(2) w v b' refl]
  have "counters_ok ?p (pc ?p)" using section_counters [OF r(2) c i b'(2)] by (simp add: counters_ok_def)
  moreover have "wake_ok ?p v'" using section_wakes [OF r(2) _ b'(2)] pick pc by (simp add: valid_pick_def)
  moreover have "exiting s \<or> none_ended ?p" using section_ended [OF r(2)] K(7,10) pc by (simp add: none_ended_def)
  ultimately have "sys_ok (s\<lparr>sp := ?p\<rparr>) v'"
    using W section_moves(2,3) [OF r(2)] K(4,7) pc by (simp add: sys_ok_def)
  moreover have "load ?p v' < load (sp s) v" using section_load [OF r(2) i] wt pc by (simp add: load_def)
  ultimately show ?thesis using run by blast
qed


subsection \<open>Steps of a worker\<close>

lemma views_drop: "views E m v \<Longrightarrow> E' \<subseteq> E \<Longrightarrow> views E' m v"
proof -
  assume "views E m v" "E' \<subseteq> E"
  moreover from this have "pool_heads E' v \<subseteq> pool_heads E v" by (auto simp: pool_heads_def)
  ultimately show ?thesis using rings_subset by (auto simp: views_def)
qed

lemma one_thread_but:
  assumes "one_thread f" and "busy_with (f i) = Some w"
  shows "w \<notin> runs_but i f" "w \<notin> ends_but i f"
proof -
  have "j = i" if "busy_with (f j) = Some w" for j using assms that unfolding one_thread_def by blast
  then show "w \<notin> runs_but i f" "w \<notin> ends_but i f" by (fastforce simp: runs_but_def ends_but_def)+
qed

lemma exec_finish:
  assumes "one_thread f" and "f i = W_run w b"
  shows "runs (f(i := W_finish w c)) = runs f - {w}" "ends (f(i := W_finish w c)) = insert w (ends f)"
  unfolding runs_upd runs_at [of f i] using one_thread_but [OF assms(1), of i w] assms(2) by auto

lemma exec_relock:
  assumes "one_thread f" and "f i = W_finish w b"
  shows "ends (f(i := W_relock c)) = ends f - {w}" "runs (f(i := W_relock c)) = runs f"
  unfolding runs_upd runs_at [of f i] using one_thread_but [OF assms(1), of i w] assms(2) by auto

lemma thread_index: "counters_ok p f \<Longrightarrow> f i \<noteq> W_exit \<Longrightarrow> i < unat (nthreads p)"
  by (cases "i < unat (nthreads p)") (auto simp: counters_ok_def)

lemma counters_same:
  assumes "counters_ok p f" and "idle_pc c = idle_pc (f i)" and "slow_pc c = slow_pc (f i)" and "f i \<noteq> W_exit"
  shows "counters_ok p (f(i := c))"
proof -
  have "i < unat (nthreads p)" using assms(1,4) by (cases "i < unat (nthreads p)") (auto simp: counters_ok_def)
  moreover have "cnt idle_pc (f(i := c)) = cnt idle_pc f" "cnt slow_pc (f(i := c)) = cnt slow_pc f"
    using assms(2,3) by (auto intro!: cnt_same split: if_splits)
  ultimately show ?thesis using assms(1) by (simp add: counters_ok_def)
qed

lemma run_keeps:
  assumes ok: "sys_ok s v" and i: "pc (sp s) i = W_run w b"
  shows "\<exists>p'. worker_step i t (sp s) = Some p' \<and> sys_ok (s\<lparr>sp := p'\<rparr>) v \<and> load p' v < load (sp s) v"
proof -
  note K = sys_okD [OF ok]
  let ?p = "(sp s)\<lparr>calls := calls (sp s) @ [Call_work w (wk_work (sp s) w)], pc := (pc (sp s))(i := W_finish w b)\<rparr>"
  have st: "worker_step i t (sp s) = Some ?p" using i by (simp add: worker_step_def)
  note X = exec_finish [OF K(4) i, of b]
  have wr: "w \<in> runs (pc (sp s))" using i by (auto simp: runs_def)
  then have nw: "w \<notin> ends (pc (sp s))" "w \<notin> queued v" "w \<notin> returned v" "w \<notin> cancelling s"
    using runs_ends_disjoint [OF K(4)] views_places(1) [OF K(2)] K(9) by auto
  have lg: "log_of k ?p = (if k = w then log_of w (sp s) @ [Call_work w (wk_work (sp s) w)] else log_of k (sp s))" for k
    by (simp add: log_of_def)
  have "work_ok ?p v (submitted s) (cancelling s) k" for k
  proof (cases "k = w")
    case True
    then show ?thesis using K(8) [of w] X wr nw lg [of w] by (auto simp: work_ok_def split: option.splits)
  next
    case False
    then show ?thesis using X lg by (intro work_ok_cong [OF K(8) [of k]]) auto
  qed
  moreover have e: "exec (pc ?p) = exec (pc (sp s))" using X wr by auto
  ultimately have "works_ok ?p v (submitted s) (cancelling s)" using K(6) unfolding works_ok_def e by auto
  moreover have "counters_ok ?p (pc ?p)" using counters_same [OF K(1), of "W_finish w b" i] i by (simp add: counters_ok_def)
  moreover have "one_thread (pc ?p)" using one_thread_upd [OF K(4), of "W_finish w b" w i] i by simp
  ultimately have "sys_ok (s\<lparr>sp := ?p\<rparr>) v"
    using K(2,3,7,10) e by (auto simp: sys_ok_def wake_ok_def none_ended_def)
  moreover have "load ?p v < load (sp s) v"
    using weight_upd [OF thread_index [OF K(1)], of i "pc (sp s)" "W_finish w b"] i by (simp add: load_def)
  ultimately show ?thesis using st by blast
qed

lemma returned_put: "returned (v\<lparr>v_loop := (v_loop v)(l := v_loop v l @ [w])\<rparr>) = insert w (returned v)"
  by (auto simp: returned_def split: if_splits)

lemma queued_put [simp]: "queued (v\<lparr>v_loop := g\<rparr>) = queued v" "queued (v\<lparr>v_done := g\<rparr>) = queued v"
  by (simp_all add: queued_def)

lemma view_put [simp]: "slow_announced (v\<lparr>v_loop := g\<rparr>) = slow_announced v" "slow_announced (v\<lparr>v_done := g\<rparr>) = slow_announced v"
  "idle_view b (v\<lparr>v_loop := g\<rparr>) = idle_view b v" "idle_view b (v\<lparr>v_done := g\<rparr>) = idle_view b v"
  by (simp_all add: slow_announced_def idle_view_def)

lemma finish_keeps:
  assumes ok: "sys_ok s v" and i: "pc (sp s) i = W_finish w b"
  shows "\<exists>p' v'. worker_step i t (sp s) = Some p' \<and> sys_ok (s\<lparr>sp := p'\<rparr>) v' \<and> load p' v' < load (sp s) v"
proof -
  note K = sys_okD [OF ok]
  let ?l = "wk_loop (sp s) w"
  let ?p = "(pool_async_send ?l (on_queue (QUEUE_INSERT_TAIL (Loop_wq ?l) (Work w)) ((sp s)\<lparr>wk_work := (wk_work (sp s))(w := Fn_NULL)\<rparr>)))
      \<lparr>pc := (pc (sp s))(i := W_relock b)\<rparr>"
  let ?v = "v\<lparr>v_loop := (v_loop v)(?l := v_loop v ?l @ [w])\<rparr>"
  have st: "worker_step i t (sp s) = Some ?p" using i by (simp add: worker_step_def Let_def)
  note X = exec_relock [OF K(4) i, of b]
  have wr: "w \<in> ends (pc (sp s))" using i by (auto simp: ends_def)
  then have nw: "w \<notin> runs (pc (sp s))" "w \<notin> queued v" "w \<notin> returned v" "w \<notin> cancelling s"
    using runs_ends_disjoint [OF K(4)] views_places(1) [OF K(2)] K(9) by auto
  have f: "wk_work ?p = (wk_work (sp s))(w := Fn_NULL)" "log_of k ?p = log_of k (sp s)" for k
    by (simp_all add: pool_async_send_def log_of_def)
  have "work_ok ?p ?v (submitted s) (cancelling s) k" for k
  proof (cases "k = w")
    case True
    then show ?thesis using K(8) [of w] X wr nw f by (auto simp: work_ok_def returned_put split: option.splits)
  next
    case False
    then show ?thesis using X f by (intro work_ok_cong [OF K(8) [of k]]) (auto simp: returned_put)
  qed
  moreover have e: "exec (pc ?p) = exec (pc (sp s)) - {w}" using X nw by auto
  ultimately have "works_ok ?p ?v (submitted s) (cancelling s)"
    using K(9) nw unfolding works_ok_def e by (auto simp: returned_put)
  moreover have "counters_ok ?p (pc ?p)"
    using counters_same [OF K(1), of "W_relock b" i] i by (simp add: counters_ok_def pool_async_send_def)
  moreover have "one_thread (pc ?p)" using one_thread_upd [OF K(4), of "W_relock b" w i] by simp
  moreover have "views (exec (pc ?p)) (p_queue ?p) ?v"
    using views_put(5) [OF views_drop [OF K(2), of "exec (pc (sp s)) - {w}"], of w ?l] nw unfolding e
    by (simp add: pool_async_send_def)
  ultimately have "sys_ok (s\<lparr>sp := ?p\<rparr>) ?v" using K(3,7,10) by (auto simp: sys_ok_def wake_ok_def none_ended_def pool_async_send_def)
  moreover have "load ?p ?v < load (sp s) v"
    using weight_upd [OF thread_index [OF K(1)], of i "pc (sp s)" "W_relock b"] i by (simp add: load_def pool_async_send_def)
  ultimately show ?thesis using st by blast
qed

lemma worker_keeps:
  assumes ok: "sys_ok s v" and pick: "valid_pick t (sp s)" and i: "pc (sp s) i \<noteq> W_wait" "pc (sp s) i \<noteq> W_exit"
  shows "\<exists>p' v'. worker_step i t (sp s) = Some p' \<and> sys_ok (s\<lparr>sp := p'\<rparr>) v' \<and> load p' v' < load (sp s) v"
proof -
  note c = counters_enter [OF sys_okD(1) [OF ok], of i]
  consider "pc (sp s) i = W_start" | "pc (sp s) i = W_woken" | w b where "pc (sp s) i = W_run w b"
    | w b where "pc (sp s) i = W_finish w b" | "pc (sp s) i = W_relock True" | "pc (sp s) i = W_relock False"
    using i by (cases "pc (sp s) i") auto
  then show ?thesis
  proof cases
    case 1
    then show ?thesis using section_keeps [OF ok _ _ _ _ _ _ _ pick, of i "sp s"] c(1) by (simp add: worker_step_def effect_def)
  next
    case 2
    then show ?thesis using section_keeps [OF ok _ _ _ _ _ _ _ pick, of i "(sp s)\<lparr>idle_threads := idle_threads (sp s) - 1\<rparr>"] c(2)
      by (simp add: worker_step_def effect_def)
  next
    case 3
    then show ?thesis using run_keeps [OF ok] by blast
  next
    case 4
    then show ?thesis using finish_keeps [OF ok] by blast
  next
    case 5
    then show ?thesis
      using section_keeps [OF ok _ _ _ _ _ _ _ pick, of i "(sp s)\<lparr>slow_io_work_running := slow_io_work_running (sp s) - 1\<rparr>"] c(3)
      by (simp add: worker_step_def effect_def)
  next
    case 6
    then show ?thesis using section_keeps [OF ok _ _ _ _ _ _ _ pick, of i "sp s"] c(4) by (simp add: worker_step_def effect_def)
  qed
qed


subsection \<open>Steps of the loops\<close>

lemma none_ended_wake [simp]: "none_ended (p\<lparr>pc := wake t (pc p)\<rparr>) = none_ended p"
proof -
  have "wake t (pc p) i = W_exit \<longleftrightarrow> pc p i = W_exit" for i by (simp add: wake_def)
  then show ?thesis by (simp add: none_ended_def)
qed

lemma spurious_keeps:
  assumes ok: "sys_ok s v" and i: "pc (sp s) i = W_wait"
  shows "sys_ok (s\<lparr>sp := cond_signal i (sp s)\<rparr>) v"
proof -
  note K = sys_okD [OF ok]
  let ?p = "cond_signal i (sp s)"
  have "counters_ok ?p (pc ?p)" using counters_wake [OF K(1), of i] by (simp add: cond_signal_wake counters_ok_def)
  moreover have "works_ok ?p v (submitted s) (cancelling s)"
    unfolding works_ok_def using K(9) work_ok_cong [OF K(8)] by (auto simp: cond_signal_wake log_of_def)
  moreover have "wake_ok ?p v" unfolding wake_ok_def using i by (auto simp: cond_signal_wake wake_def intro!: exI [of _ i])
  ultimately show ?thesis using K(2-4,7,10) by (simp add: sys_ok_def cond_signal_wake none_ended_wake)
qed

text \<open>A signal after an insertion leaves no work to sleeping threads.\<close>

lemma put_wakes:
  assumes c: "counters_ok p (pc p)" and pick: "valid_pick t p"
  shows "wake_ok (signal_if_idle t p) v"
proof -
  have z: "idle_threads p > 0 \<longleftrightarrow> (\<exists>i. idle_pc (pc p i))"
    using cnt_pos [of idle_pc "pc p"] counters_finite(1) [OF c, of idle_pc] c by (simp add: counters_ok_def word_less_nat_alt)
  consider "pc p t = W_wait" "idle_threads p > 0" | i where "pc p i = W_woken" "\<forall>j. pc p j \<noteq> W_wait" | "\<forall>j. \<not> idle_pc (pc p j)"
    using pick z unfolding valid_pick_def by (metis idle_pc.elims(2) idle_pc.simps(1))
  then show ?thesis
  proof cases
    case 1
    then show ?thesis unfolding wake_ok_def
      by (auto simp: signal_if_idle_def cond_signal_wake wake_def intro!: exI [of _ t])
  next
    case 2
    then show ?thesis unfolding wake_ok_def
      by (auto simp: signal_if_idle_def cond_signal_wake wake_def intro!: exI [of _ i])
  next
    case 3
    then have "\<forall>j. pc p j \<noteq> W_wait" by (metis idle_pc.simps(1))
    then show ?thesis using 3 z unfolding wake_ok_def by (auto simp: signal_if_idle_def)
  qed
qed

lemma signal_fields:
  "p_queue (signal_if_idle t p) = p_queue p" "calls (signal_if_idle t p) = calls p" "wk_work (signal_if_idle t p) = wk_work p"
  "runs (pc (signal_if_idle t p)) = runs (pc p)" "ends (pc (signal_if_idle t p)) = ends (pc p)"
  "one_thread (pc (signal_if_idle t p)) = one_thread (pc p)"
  "counters_ok p (pc p) \<Longrightarrow> counters_ok (signal_if_idle t p) (pc (signal_if_idle t p))"
proof -
  show "counters_ok p (pc p) \<Longrightarrow> counters_ok (signal_if_idle t p) (pc (signal_if_idle t p))"
    using counters_wake [of p "pc p" t] by (simp add: signal_if_idle_def cond_signal_wake counters_ok_def)
qed (simp_all add: signal_if_idle_def cond_signal_wake)

lemma post_eq:
  "post q kind t p =
     (if kind = UV__WORK_SLOW_IO then
        let p1 = on_queue (QUEUE_INSERT_TAIL Slow_wq q) p
        in if \<not> QUEUE_EMPTY (p_queue p1) Run_slow then p1 else signal_if_idle t (on_queue (QUEUE_INSERT_TAIL Wq Run_slow) p1)
      else signal_if_idle t (on_queue (QUEUE_INSERT_TAIL Wq q) p))"
  by (simp add: post_def signal_if_idle_def Let_def)

lemma queued_wq: "queued (v\<lparr>v_wq := xs\<rparr>) = {w. Work w \<in> set xs} \<union> set (v_slow v)" "returned (v\<lparr>v_wq := xs\<rparr>) = returned v"
  "queued (v\<lparr>v_slow := ws\<rparr>) = {w. Work w \<in> set (v_wq v)} \<union> set ws" "returned (v\<lparr>v_slow := ws\<rparr>) = returned v"
  by (simp_all add: queued_def returned_def)

text \<open>What a submission does to the queues.\<close>

lemma post_work:
  assumes v: "views E (p_queue p) v" and a: "slow_announced v" and w: "w \<notin> E \<union> queued v \<union> returned v"
  obtains v' p1 where "post (Work w) kind t p = p1 \<and> idle_view (slow_full p1) v' = idle_view (slow_full p) v \<or> post (Work w) kind t p = signal_if_idle t p1"
    "effect p p1 (idle_threads p) (slow_io_work_running p) (pc p)" "views E (p_queue p1) v'" "slow_announced v'"
    "queued v' = insert w (queued v)" "returned v' = returned v" "Exit_msg \<in> set (v_wq v') \<longleftrightarrow> Exit_msg \<in> set (v_wq v)"
proof (cases "kind = UV__WORK_SLOW_IO")
  case False
  show ?thesis
  proof (rule that [of "on_queue (QUEUE_INSERT_TAIL Wq (Work w)) p" "v\<lparr>v_wq := v_wq v @ [Work w]\<rparr>"])
    show "views E (p_queue (on_queue (QUEUE_INSERT_TAIL Wq (Work w)) p)) (v\<lparr>v_wq := v_wq v @ [Work w]\<rparr>)"
      using views_put(1) [OF v w] by simp
  qed (use False a in \<open>auto simp: post_eq effect_def queued_wq queued_def slow_announced_def\<close>)
next
  case True
  let ?p1 = "on_queue (QUEUE_INSERT_TAIL Slow_wq (Work w)) p" and ?v1 = "v\<lparr>v_slow := v_slow v @ [w]\<rparr>"
  have v1: "views E (p_queue ?p1) ?v1" using views_put(2) [OF v w] by simp
  have q: "queued ?v1 = insert w (queued v)" "returned ?v1 = returned v" by (auto simp: queued_wq queued_def)
  show ?thesis
  proof (cases "Run_slow \<in> set (v_wq v)")
    case r: True
    then have "post (Work w) kind t p = ?p1" using True views_simps(4) [OF v1] by (simp add: post_eq)
    then show ?thesis using r v1 q by (intro that [of ?p1 ?v1]) (auto simp: effect_def slow_announced_def idle_view_def)
  next
    case r: False
    let ?p2 = "on_queue (QUEUE_INSERT_TAIL Wq Run_slow) ?p1" and ?v2 = "v\<lparr>v_slow := v_slow v @ [w], v_wq := v_wq v @ [Run_slow]\<rparr>"
    have "post (Work w) kind t p = signal_if_idle t ?p2" using True r views_simps(4) [OF v1] by (simp add: post_eq)
    moreover have "views E (p_queue ?p2) ?v2" using views_put(4) [OF v1] r by simp
    ultimately show ?thesis using q by (intro that [of ?p2 ?v2]) (auto simp: effect_def slow_announced_def queued_def returned_def)
  qed
qed


text \<open>A change of the queues and requests only.\<close>

lemma sys_okI:
  assumes ok: "sys_ok s v" and e: "effect (sp s) p (idle_threads (sp s)) (slow_io_work_running (sp s)) (pc (sp s))"
    "\<And>w. log_of w p = log_of w (sp s) \<or> w = k" and i: "views (exec (pc (sp s))) (p_queue p) v'" "slow_announced v'"
    and x: "Exit_msg \<in> set (v_wq v') \<longleftrightarrow> exiting s" and w: "works_ok p v' S C" "idle_view (slow_full (sp s)) v \<Longrightarrow> idle_view (slow_full (sp s)) v'"
  shows "sys_ok (s\<lparr>sp := p, submitted := S, cancelling := C\<rparr>) v'"
proof -
  note K = sys_okD [OF ok]
  have "counters_ok p (pc p)" using K(1) e(1) by (simp add: counters_ok_def effect_def)
  moreover have "wake_ok p v'" using K(5) w(2) e(1) by (auto simp: wake_ok_def effect_def slow_work_thread_threshold_def)
  ultimately show ?thesis using K(4,10) i x w(1) e(1) by (simp add: sys_ok_def effect_def none_ended_def)
qed

lemma submit_keeps:
  assumes ok: "sys_ok s v" and pick: "valid_pick t (sp s)" and n: "submitted s w = None"
  shows "\<exists>v'. sys_ok (s\<lparr>sp := uv__work_submit l w kind f t (sp s), submitted := (submitted s)(w := Some f)\<rparr>) v'"
proof -
  note K = sys_okD [OF ok]
  let ?p = "(sp s)\<lparr>wk_loop := (wk_loop (sp s))(w := l), wk_work := (wk_work (sp s))(w := Fn f)\<rparr>" and ?S = "(submitted s)(w := Some f)"
  have fr: "w \<notin> exec (pc (sp s)) \<union> queued v \<union> returned v \<union> cancelling s" "log_of w (sp s) = []"
    using K(8) [of w] n by (simp_all add: work_ok_def)
  have v: "views (exec (pc (sp s))) (p_queue ?p) v" using K(2) by simp
  obtain v' p1 where p1: "post (Work w) kind t ?p = p1 \<and> idle_view (slow_full p1) v' = idle_view (slow_full ?p) v \<or> post (Work w) kind t ?p = signal_if_idle t p1"
      "effect ?p p1 (idle_threads ?p) (slow_io_work_running ?p) (pc ?p)" "views (exec (pc (sp s))) (p_queue p1) v'" "slow_announced v'"
      "queued v' = insert w (queued v)" "returned v' = returned v" "Exit_msg \<in> set (v_wq v') \<longleftrightarrow> Exit_msg \<in> set (v_wq v)"
    by (rule post_work [OF v K(3)]) (use fr in auto)
  let ?q = "uv__work_submit l w kind f t (sp s)"
  have q: "?q = p1 \<and> idle_view (slow_full p1) v' = idle_view (slow_full ?p) v \<or> ?q = signal_if_idle t p1"
    using p1(1) by (simp add: uv__work_submit_def)
  have c1: "counters_ok p1 (pc p1)" using K(1) p1(2) by (simp add: counters_ok_def effect_def)
  have pk: "valid_pick t p1" using pick p1(2) by (simp add: valid_pick_def effect_def)
  have fld: "p_queue ?q = p_queue p1" "calls ?q = calls (sp s)" "wk_work ?q = (wk_work (sp s))(w := Fn f)"
    "runs (pc ?q) = runs (pc (sp s))" "ends (pc ?q) = ends (pc (sp s))" "one_thread (pc ?q) = one_thread (pc (sp s))" "counters_ok ?q (pc ?q)"
    using q signal_fields [where t = t and p = p1] c1 p1(2) by (auto simp: effect_def)
  have wk: "wake_ok ?q v'" using q put_wakes [OF c1 pk, of v'] K(5) p1(2) by (auto simp: wake_ok_def effect_def slow_work_thread_threshold_def)
  have "work_ok ?q v' ?S (cancelling s) k" for k
  proof (cases "k = w")
    case True
    then show ?thesis using fr p1(5) fld by (simp add: work_ok_def log_of_def)
  next
    case False
    then show ?thesis using p1(5,6) fld by (intro work_ok_cong [OF K(8) [of k]]) (auto simp: log_of_def)
  qed
  then have "works_ok ?q v' ?S (cancelling s)" using K(9) fr p1(5,6) fld by (auto simp: works_ok_def)
  moreover have "exiting s \<or> none_ended ?q"
    using K(10) q p1(2) by (auto simp: none_ended_def effect_def signal_if_idle_def cond_signal_wake split: if_splits)
  ultimately show ?thesis using K(4,7) fld p1(3,4,7) wk by (auto simp: sys_ok_def)
qed

lemma cleanup_keeps:
  assumes ok: "sys_ok s v" and pick: "valid_pick t (sp s)" and n: "\<not> exiting s"
  shows "\<exists>v'. sys_ok (s\<lparr>sp := pool_cleanup t (sp s), exiting := True\<rparr>) v'"
proof -
  note K = sys_okD [OF ok]
  let ?p1 = "on_queue (QUEUE_INSERT_TAIL Wq Exit_msg) (sp s)" and ?v = "v\<lparr>v_wq := v_wq v @ [Exit_msg]\<rparr>"
  have q: "pool_cleanup t (sp s) = signal_if_idle t ?p1" using K(1) by (auto simp: pool_cleanup_def post_eq counters_ok_def)
  have v1: "views (exec (pc (sp s))) (p_queue ?p1) ?v" using views_put(3) [OF K(2)] K(7) n by simp
  have c1: "counters_ok ?p1 (pc ?p1)" using K(1) by (simp add: counters_ok_def)
  have pk: "valid_pick t ?p1" using pick by (simp add: valid_pick_def)
  have qr: "queued ?v = queued v" "returned ?v = returned v" by (auto simp: queued_def returned_def)
  have "work_ok (signal_if_idle t ?p1) ?v (submitted s) (cancelling s) k" for k
    using qr by (intro work_ok_cong [OF K(8) [of k]]) (auto simp: signal_fields log_of_def)
  then have "works_ok (signal_if_idle t ?p1) ?v (submitted s) (cancelling s)" using K(9) qr by (simp add: works_ok_def signal_fields)
  then show ?thesis unfolding q using K(3,4) v1 signal_fields [where t = t and p = ?p1] c1 put_wakes [OF c1 pk, of ?v]
    by (intro exI [of _ ?v]) (simp add: sys_ok_def slow_announced_def)
qed


text \<open>The queues of the loops other than \<open>l\<close>.\<close>

lemma returned_at:
  "returned (v\<lparr>v_loop := (v_loop v)(l := xs)\<rparr>) = set xs \<union> ({x. \<exists>l'. l' \<noteq> l \<and> x \<in> set (v_loop v l')} \<union> {x. \<exists>l'. x \<in> set (v_done v l')})"
  "returned (v\<lparr>v_done := (v_done v)(l := xs)\<rparr>) = set xs \<union> ({x. \<exists>l'. l' \<noteq> l \<and> x \<in> set (v_done v l')} \<union> {x. \<exists>l'. x \<in> set (v_loop v l')})"
  "returned v = set (v_loop v l) \<union> ({x. \<exists>l'. l' \<noteq> l \<and> x \<in> set (v_loop v l')} \<union> {x. \<exists>l'. x \<in> set (v_done v l')})"
  "returned v = set (v_done v l) \<union> ({x. \<exists>l'. l' \<noteq> l \<and> x \<in> set (v_done v l')} \<union> {x. \<exists>l'. x \<in> set (v_loop v l')})"
  unfolding returned_def by (auto split: if_splits)

lemma views_remove:
  assumes v: "views E m v" and w: "w \<in> queued v \<union> returned v" and an: "slow_announced v"
  obtains v' where "views E (QUEUE_REMOVE (Work w) m) v'" "queued v' = queued v - {w}" "returned v' = returned v - {w}"
    "slow_announced v'" "Exit_msg \<in> set (v_wq v') \<longleftrightarrow> Exit_msg \<in> set (v_wq v)" "\<forall>b. idle_view b v \<longrightarrow> idle_view b v'"
proof -
  note P = views_places [OF v]
  have r: "rings m (pool_heads E v) (queue_of v)" and sub: "set (v_wq v) \<subseteq> range Work \<union> {Run_slow, Exit_msg}" using v by (auto simp: views_def)
  consider ys zs where "v_wq v = ys @ Work w # zs" | ys zs where "v_slow v = ys @ w # zs" | l ys zs where "v_loop v l = ys @ w # zs"
    | l ys zs where "v_done v l = ys @ w # zs"
    using w by (auto simp: queued_def returned_def dest!: split_list)
  then show ?thesis
  proof cases
    case 1
    let ?v = "v\<lparr>v_wq := ys @ zs\<rparr>"
    have h: "pool_heads E ?v = pool_heads E v" using 1 by (auto simp: pool_heads_def)
    have "views E (QUEUE_REMOVE (Work w) m) ?v" using rings_remove [OF r, of Wq ys "Work w" zs] 1 sub by (auto simp: views_def queue_of_upd h)
    moreover have "w \<notin> set (v_slow v)" "w \<notin> returned v" "Work w \<notin> set (ys @ zs)" using P(2,3,5) 1 by (auto simp: queued_def)
    ultimately show ?thesis using 1 an
      by (intro that [of ?v]) (auto simp: queued_def returned_def slow_announced_def idle_view_def append_eq_Cons_conv)
  next
    case 2
    let ?v = "v\<lparr>v_slow := ys @ zs\<rparr>"
    have "views E (QUEUE_REMOVE (Work w) m) ?v"
      using rings_remove [OF r, of Slow_wq "map Work ys" "Work w" "map Work zs"] 2 sub by (auto simp: views_def queue_of_upd)
    moreover have "w \<notin> set (ys @ zs)" "w \<notin> returned v" "Work w \<notin> set (v_wq v)" using P(2,4) P(5) [of w] 2 by (auto simp: queued_def)
    ultimately show ?thesis using 2 an
      by (intro that [of ?v]) (auto simp: queued_def returned_def slow_announced_def idle_view_def)
  next
    case 3
    let ?v = "v\<lparr>v_loop := (v_loop v)(l := ys @ zs)\<rparr>"
    have "views E (QUEUE_REMOVE (Work w) m) ?v"
      using rings_remove [OF r, of "Loop_wq l" "map Work ys" "Work w" "map Work zs"] 3 sub by (auto simp: views_def queue_of_upd)
    moreover have "w \<in> set (v_loop v l)" using 3 by simp
    moreover have "w \<notin> set (ys @ zs)" using P(6) [of l] 3 by simp
    moreover have "returned ?v = returned v - {w}"
      using returned_at(1) [of v l "ys @ zs"] returned_at(3) [of v l] 3 P(8) [of w l] P(9) [of w l] calculation(3) by auto
    moreover have "w \<notin> queued v" using P(2) calculation(2) by (auto simp: returned_def)
    ultimately show ?thesis using an by (intro that [of ?v]) auto
  next
    case 4
    let ?v = "v\<lparr>v_done := (v_done v)(l := ys @ zs)\<rparr>"
    have "views E (QUEUE_REMOVE (Work w) m) ?v"
      using rings_remove [OF r, of "Done_wq l" "map Work ys" "Work w" "map Work zs"] 4 sub by (auto simp: views_def queue_of_upd)
    moreover have "w \<in> set (v_done v l)" using 4 by simp
    moreover have "w \<notin> set (ys @ zs)" using P(7) [of l] 4 by simp
    moreover have "returned ?v = returned v - {w}"
      using returned_at(2) [of v l "ys @ zs"] returned_at(4) [of v l] 4 P(8) [of w _ l] P(10) [of w l] calculation(3) by auto
    moreover have "w \<notin> queued v" using P(2) calculation(2) by (auto simp: returned_def)
    ultimately show ?thesis using an by (intro that [of ?v]) auto
  qed
qed

lemma cancel_keeps:
  assumes ok: "sys_ok s v" and w: "submitted s w \<noteq> None" "w \<notin> cancelling s" "\<forall>e. Call_done w e \<notin> set (calls (sp s))"
    and b: "work_cancel_begin w (sp s) = (b, p)"
  shows "\<exists>v'. sys_ok (s\<lparr>sp := p, cancelling := (if b then insert w (cancelling s) else cancelling s)\<rparr>) v'"
proof -
  note K = sys_okD [OF ok]
  have nd: "log_of w (sp s) \<noteq> [Call_work w (Fn f), Call_done w None]" "log_of w (sp s) \<noteq> [Call_done w (Some UV_ECANCELED)]" for f
  proof -
    have "Call_done w e \<notin> set (log_of w (sp s))" for e using w(3) by (simp add: log_of_def)
    from this [of None] this [of "Some UV_ECANCELED"] show "log_of w (sp s) \<noteq> [Call_work w (Fn f), Call_done w None]" "log_of w (sp s) \<noteq> [Call_done w (Some UV_ECANCELED)]"
      by auto
  qed
  show ?thesis
  proof (cases b)
    case False
    then have "p = sp s" using b by (auto simp: work_cancel_begin_def Let_def)
    then show ?thesis using ok False by (intro exI [of _ v]) simp
  next
    case True
    then have p: "p = on_queue (QUEUE_REMOVE (Work w)) (sp s)" and c: "\<not> QUEUE_EMPTY (p_queue (sp s)) (Work w)" "wk_work (sp s) w \<noteq> Fn_NULL"
      using b by (auto simp: work_cancel_begin_def Let_def split: if_splits)
    have ne: "w \<notin> exec (pc (sp s))" using views_simps(10) [OF K(2)] c(1) by blast
    then have wq: "w \<in> queued v \<union> returned v" and lg: "log_of w (sp s) = []"
      using K(8) [of w] w(1,2) nd c(2) by (auto simp: work_ok_def split: option.splits)
    obtain v' where v': "views (exec (pc (sp s))) (QUEUE_REMOVE (Work w) (p_queue (sp s))) v'" "queued v' = queued v - {w}" "returned v' = returned v - {w}"
        "slow_announced v'" "Exit_msg \<in> set (v_wq v') \<longleftrightarrow> Exit_msg \<in> set (v_wq v)" "\<forall>b. idle_view b v \<longrightarrow> idle_view b v'"
      by (rule views_remove [OF K(2) wq K(3)])
    have "work_ok p v' (submitted s) (insert w (cancelling s)) k" for k
    proof (cases "k = w")
      case True
      then show ?thesis using lg w(1) p by (auto simp: work_ok_def log_of_def)
    next
      case False
      then show ?thesis using v' p by (intro work_ok_cong [OF K(8) [of k]]) (auto simp: log_of_def)
    qed
    then have "works_ok p v' (submitted s) (insert w (cancelling s))" using K(9) v'(2,3) ne p by (auto simp: works_ok_def)
    then have "sys_ok (s\<lparr>sp := p, submitted := submitted s, cancelling := insert w (cancelling s)\<rparr>) v'"
      using v' K(7) by (intro sys_okI [OF ok, where k = w]) (auto simp: p effect_def log_of_def)
    then show ?thesis using True by (intro exI [of _ v']) simp
  qed
qed

lemma cancelled_keeps:
  assumes ok: "sys_ok s v" and w: "w \<in> cancelling s"
  shows "\<exists>v'. sys_ok (s\<lparr>sp := work_cancel_end (wk_loop (sp s) w) w (sp s), cancelling := cancelling s - {w}\<rparr>) v'"
proof -
  note K = sys_okD [OF ok]
  let ?l = "wk_loop (sp s) w"
  let ?p = "work_cancel_end ?l w (sp s)" and ?v = "v\<lparr>v_loop := (v_loop v)(?l := v_loop v ?l @ [w])\<rparr>"
  have nw: "w \<notin> exec (pc (sp s)) \<union> queued v \<union> returned v" using K(9) w by auto
  have f: "p_queue ?p = QUEUE_INSERT_TAIL (Loop_wq ?l) (Work w) (p_queue (sp s))" "wk_work ?p = (wk_work (sp s))(w := Fn_cancelled)"
    "calls ?p = calls (sp s)" "pc ?p = pc (sp s)"
    by (simp_all add: work_cancel_end_def pool_async_send_def Let_def)
  have v1: "views (exec (pc (sp s))) (p_queue ?p) ?v" using views_put(5) [OF K(2) nw] f by simp
  have "work_ok ?p ?v (submitted s) (cancelling s - {w}) k" for k
  proof (cases "k = w")
    case True
    then show ?thesis using K(8) [of w] w nw f by (auto simp: work_ok_def log_of_def returned_put split: option.splits)
  next
    case False
    then show ?thesis using f by (intro work_ok_cong [OF K(8) [of k]]) (auto simp: log_of_def returned_put)
  qed
  then have "works_ok ?p ?v (submitted s) (cancelling s - {w})" using K(9) nw f by (auto simp: works_ok_def returned_put)
  then show ?thesis using K(1,3-5,7,10) v1 f
    by (intro exI [of _ ?v]) (auto simp: sys_ok_def none_ended_def wake_ok_def counters_ok_def work_cancel_end_def pool_async_send_def Let_def slow_work_thread_threshold_def)
qed


lemma done_keeps:
  assumes ok: "sys_ok s v" and e: "QUEUE_EMPTY (p_queue (sp s)) (Done_wq l)"
  shows "\<exists>v'. sys_ok (s\<lparr>sp := work_done_begin l (sp s)\<rparr>) v'"
proof -
  note K = sys_okD [OF ok]
  let ?v = "v\<lparr>v_loop := (v_loop v)(l := []), v_done := (v_done v)(l := v_loop v l)\<rparr>" and ?p = "work_done_begin l (sp s)"
  have d: "v_done v l = []" using e views_simps(3) [OF K(2)] by simp
  have r: "rings (p_queue (sp s)) (pool_heads (exec (pc (sp s))) v) (queue_of v)" using K(2) by (simp add: views_def)
  have q: "queue_of ?v = (queue_of v)(Loop_wq l := [], Done_wq l := map Work (v_loop v l))"
    by (rule ext, rename_tac h, case_tac h) auto
  have "rings (p_queue ?p) (pool_heads (exec (pc (sp s))) v) ((queue_of v)(Loop_wq l := [], Done_wq l := queue_of v (Loop_wq l)))"
    using rings_move [OF r, of "Loop_wq l" "Done_wq l"] d by (simp add: work_done_begin_def)
  then have v1: "views (exec (pc (sp s))) (p_queue ?p) ?v" using K(2) by (simp add: views_def q)
  have rt: "returned ?v = returned v" using d by (auto simp: returned_def split: if_splits)
  have qd: "queued ?v = queued v" by simp
  have "work_ok ?p ?v (submitted s) (cancelling s) k" for k
    using rt qd by (intro work_ok_cong [OF K(8) [of k]]) (auto simp: log_of_def work_done_begin_def)
  then have "works_ok ?p ?v (submitted s) (cancelling s)" using K(9) rt qd by (simp add: works_ok_def work_done_begin_def)
  then show ?thesis using K(1,3-5,7,10) v1
    by (intro exI [of _ ?v]) (auto simp: sys_ok_def none_ended_def wake_ok_def counters_ok_def work_done_begin_def slow_announced_def idle_view_def)
qed

lemma next_keeps:
  assumes ok: "sys_ok s v" and n: "work_done_next l (sp s) = Some p"
  shows "\<exists>v'. sys_ok (s\<lparr>sp := p\<rparr>) v'"
proof -
  note K = sys_okD [OF ok]
  have ne: "v_done v l \<noteq> []" using n views_simps(3) [OF K(2)] by (auto simp: work_done_next_def split: if_splits)
  let ?w = "hd (v_done v l)"
  let ?e = "if wk_work (sp s) ?w = Fn_cancelled then Some UV_ECANCELED else None"
  have p: "p = (on_queue (QUEUE_REMOVE (Work ?w)) (sp s))\<lparr>calls := calls (sp s) @ [Call_done ?w ?e]\<rparr>"
    using n ne views_simps(3,7) [OF K(2)] by (simp add: work_done_next_def Let_def)
  have w: "?w \<in> returned v" using ne by (auto simp: returned_def intro!: exI [of _ l])
  obtain v' where v': "views (exec (pc (sp s))) (QUEUE_REMOVE (Work ?w) (p_queue (sp s))) v'" "queued v' = queued v - {?w}"
      "returned v' = returned v - {?w}" "slow_announced v'" "Exit_msg \<in> set (v_wq v') \<longleftrightarrow> Exit_msg \<in> set (v_wq v)" "\<forall>b. idle_view b v \<longrightarrow> idle_view b v'"
    by (rule views_remove [OF K(2) _ K(3), of ?w]) (use w in auto)
  have nw: "?w \<notin> exec (pc (sp s))" "?w \<notin> queued v" "?w \<notin> cancelling s" using views_places(1,2) [OF K(2)] K(9) w by auto
  have lg: "log_of k p = (if k = ?w then log_of ?w (sp s) @ [Call_done ?w ?e] else log_of k (sp s))" for k by (simp add: log_of_def p)
  have "work_ok p v' (submitted s) (cancelling s) k" for k
  proof (cases "k = ?w")
    case True
    have sb: "submitted s ?w \<noteq> None" using K(8) [of ?w] w by (auto simp: work_ok_def split: option.splits)
    then obtain f where f: "submitted s ?w = Some f" by blast
    then have "wk_work (sp s) ?w = Fn_NULL \<and> log_of ?w (sp s) = [Call_work ?w (Fn f)] \<or> wk_work (sp s) ?w = Fn_cancelled \<and> log_of ?w (sp s) = []"
      using K(8) [of ?w] w nw by (auto simp: work_ok_def)
    then have "log_of ?w p = [Call_work ?w (Fn f), Call_done ?w None] \<or> log_of ?w p = [Call_done ?w (Some UV_ECANCELED)]"
      using lg [of ?w] by auto
    then show ?thesis using True f nw v'(2,3) p by (simp add: work_ok_def)
  next
    case False
    then show ?thesis using v' lg [of k] p by (intro work_ok_cong [OF K(8) [of k]]) auto
  qed
  then have "works_ok p v' (submitted s) (cancelling s)" using K(9) v'(2,3) p by (auto simp: works_ok_def)
  then show ?thesis using K(1,4,5,7,10) v' p
    by (intro exI [of _ v']) (auto simp: sys_ok_def none_ended_def wake_ok_def counters_ok_def slow_work_thread_threshold_def)
qed

subsection \<open>Reachable states\<close>

lemma pool_size_range: "0 < pool_size val ok" "pool_size val ok \<le> 1024"
  by (auto simp: pool_size_def Let_def MAX_THREADPOOL_SIZE_def word_neq_0_conv not_less split: option.splits)

lemma start_ok: "sys_ok (pool_start val ok) \<lparr>v_wq = [], v_slow = [], v_loop = (\<lambda>_. []), v_done = (\<lambda>_. [])\<rparr>"
proof -
  let ?s = "pool_start val ok" and ?v = "\<lparr>v_wq = [], v_slow = [], v_loop = (\<lambda>_. []), v_done = (\<lambda>_. [])\<rparr>"
  let ?p = "sp ?s"
  have pc: "pc ?p = (\<lambda>i. if i < unat (pool_size val ok) then W_start else W_exit)"
    by (simp add: pool_start_def init_threads_def Let_def)
  then have e: "runs (pc ?p) = {}" "ends (pc ?p) = {}" by (auto simp: runs_def ends_def)
  have "q_next (p_queue ?p) = (\<lambda>x. x)" "q_prev (p_queue ?p) = (\<lambda>x. x)"
    by (auto simp: pool_start_def init_threads_def Let_def raw_pool_def QUEUE_INIT_def)
  then have "ring (p_queue ?p) h []" for h by (simp add: ring_def)
  moreover have "queue_of ?v h = []" for h by (cases h) auto
  ultimately have v: "views {} (p_queue ?p) ?v" by (auto simp: views_def rings_def)
  have c: "cnt idle_pc (pc ?p) = 0" "cnt slow_pc (pc ?p) = 0" by (simp_all add: cnt_def pc)
  have f: "idle_threads ?p = 0" "slow_io_work_running ?p = 0" "nthreads ?p = pool_size val ok" "calls ?p = []"
    by (simp_all add: pool_start_def init_threads_def Let_def raw_pool_def)
  have "counters_ok ?p (pc ?p)" using pool_size_range f c by (auto simp: counters_ok_def pc)
  moreover have "one_thread (pc ?p)" by (simp add: one_thread_def pc)
  moreover have "works_ok ?p ?v (submitted ?s) (cancelling ?s)"
    using e f by (auto simp: works_ok_def work_ok_def log_of_def queued_def returned_def pool_start_def)
  ultimately show ?thesis using v e
    using f(3) by (simp add: sys_ok_def wake_ok_def idle_view_def slow_announced_def none_ended_def pc) (simp add: pool_start_def)
qed

lemma step_keeps:
  assumes "pool_step s s'" and "sys_ok s v"
  shows "\<exists>v'. sys_ok s' v'"
  using assms(1)
proof cases
  case (Worker t i p)
  then have "pc (sp s) i \<noteq> W_wait" "pc (sp s) i \<noteq> W_exit" by (auto simp: worker_step_def)
  then show ?thesis using worker_keeps [OF assms(2) Worker(2), of i] Worker(1,3) by auto
next
  case (Spurious i)
  then show ?thesis using spurious_keeps [OF assms(2)] by blast
next
  case (Submit t w l kind f)
  then show ?thesis using submit_keeps [OF assms(2)] by simp
next
  case (Cancel w b p)
  then show ?thesis using cancel_keeps [OF assms(2)] by simp
next
  case (Cancelled w)
  then show ?thesis using cancelled_keeps [OF assms(2)] by simp
next
  case (Done l)
  then show ?thesis using done_keeps [OF assms(2)] by simp
next
  case (Next l p)
  then show ?thesis using next_keeps [OF assms(2)] by simp
next
  case (Cleanup t)
  then show ?thesis using cleanup_keeps [OF assms(2)] by simp
qed

lemma reach_ok: "pool_reach s \<Longrightarrow> \<exists>v. sys_ok s v"
  by (induction rule: pool_reach.induct) (use start_ok in blast, use step_keeps in blast)

end
