(* ===== verification/Uv_Pool_Live.thy ===== *)
theory Uv_Pool_Live
  imports Uv_Pool_Steps
begin

text \<open>What the thread pool promises: counters, calls, cancellation, and that submitted work gets done.\<close>

subsection \<open>Runs of the workers\<close>

inductive worker_run :: "nat \<Rightarrow> pool_sys \<Rightarrow> pool_sys \<Rightarrow> bool" where
  stop: "worker_run 0 s s"
| more: "valid_pick t (sp s) \<Longrightarrow> worker_step i t (sp s) = Some p \<Longrightarrow> worker_run n (s\<lparr>sp := p\<rparr>) s' \<Longrightarrow> worker_run (Suc n) s s'"

definition workers_stuck :: "pool_sys \<Rightarrow> bool" where
  "workers_stuck s \<longleftrightarrow> (\<forall>i t. valid_pick t (sp s) \<longrightarrow> worker_step i t (sp s) = None)"

lemma run_decreases:
  "worker_run n s s' \<Longrightarrow> sys_ok s v \<Longrightarrow> \<exists>v'. sys_ok s' v' \<and> n + load (sp s') v' \<le> load (sp s) v"
proof (induction arbitrary: v rule: worker_run.induct)
  case (more t s i p n s')
  have "pc (sp s) i \<noteq> W_wait" "pc (sp s) i \<noteq> W_exit" using more(2) by (auto simp: worker_step_def)
  then obtain v1 where v1: "sys_ok (s\<lparr>sp := p\<rparr>) v1" "load p v1 < load (sp s) v"
    using worker_keeps [OF more(5,1), of i] more(2) by auto
  then obtain v' where "sys_ok s' v'" "n + load (sp s') v' \<le> load p v1" using more(4) [OF v1(1)] by auto
  then show ?case using v1(2) by (intro exI [of _ v']) simp
qed (metis add_0 order_refl)

lemma run_same: "worker_run n s s' \<Longrightarrow> submitted s' = submitted s \<and> cancelling s' = cancelling s \<and> exiting s' = exiting s"
  by (induction rule: worker_run.induct) auto

lemma some_pick: "\<exists>t. valid_pick t p"
  unfolding valid_pick_def by blast

lemma stuck_sleeping:
  assumes "sys_ok s v" and "workers_stuck s"
  shows "pc (sp s) i = W_wait \<or> pc (sp s) i = W_exit"
  using worker_keeps [OF assms(1), of _ i] assms(2) some_pick [of "sp s"] unfolding workers_stuck_def by fastforce

lemma stuck_drained:
  assumes ok: "sys_ok s v" and st: "workers_stuck s" and ex: "\<not> exiting s"
  shows "queued v = {}" and "exec (pc (sp s)) = {}" and "v_wq v = []" and "v_slow v = []"
proof -
  note K = sys_okD [OF ok] and sl = stuck_sleeping [OF ok st]
  show e: "exec (pc (sp s)) = {}" using sl by (auto simp: runs_def ends_def) (metis worker_pc.distinct)+
  have n: "0 < unat (nthreads (sp s))" "nthreads (sp s) \<le> 1024" using K(1) by (auto simp: counters_ok_def word_less_nat_alt)
  have "\<not> (\<forall>i. pc (sp s) i = W_exit)" using K(10) ex n(1) by (auto simp: none_ended_def)
  then have iv: "idle_view (slow_full (sp s)) v" using K(5) sl by (auto simp: wake_ok_def)
  have "\<not> slow_pc (pc (sp s) i)" for i using sl [of i] by auto
  then have "cnt slow_pc (pc (sp s)) = 0" by (simp add: cnt_def)
  then have "unat (slow_io_work_running (sp s)) = 0" using K(1) by (simp add: counters_ok_def)
  moreover have "0 < unat (slow_work_thread_threshold (sp s))" using slow_threshold_nat [OF n(2)] n(1) by simp
  ultimately have "\<not> slow_full (sp s)" by (simp add: word_le_nat_alt)
  then show w: "v_wq v = []" using iv by (simp add: idle_view_def)
  then show sw: "v_slow v = []" using K(3) by (simp add: slow_announced_def)
  show "queued v = {}" using w sw by (simp add: queued_def)
qed

lemma run_ends: "sys_ok s v \<Longrightarrow> \<exists>n s'. worker_run n s s' \<and> workers_stuck s'"
proof (induction "load (sp s) v" arbitrary: s v rule: less_induct)
  case less
  show ?case
  proof (cases "workers_stuck s")
    case False
    then obtain i t p where p: "valid_pick t (sp s)" "worker_step i t (sp s) = Some p" by (auto simp: workers_stuck_def)
    then have "pc (sp s) i \<noteq> W_wait" "pc (sp s) i \<noteq> W_exit" by (auto simp: worker_step_def)
    then obtain v1 where "sys_ok (s\<lparr>sp := p\<rparr>) v1" "load p v1 < load (sp s) v"
      using worker_keeps [OF less(2) p(1), of i] p(2) by auto
    then obtain n s' where "worker_run n (s\<lparr>sp := p\<rparr>) s'" "workers_stuck s'" using less(1) [of "s\<lparr>sp := p\<rparr>" v1] by auto
    then show ?thesis using worker_run.more [OF p] by blast
  qed (use worker_run.stop in blast)
qed

subsection \<open>Properties\<close>

definition example_pool :: pool_sys where
  "example_pool =
     (pool_start (Some 1) True)
       \<lparr>sp := uv__work_submit 0 7 UV__WORK_SLOW_IO 3 0 (sp (pool_start (Some 1) True)), submitted := [7 \<mapsto> 3]\<rparr>"

lemma example_pool_reach: "pool_reach example_pool"
proof -
  have "pool_step (pool_start (Some 1) True) example_pool"
    using pool_step.Submit [where t = 0 and s = "pool_start (Some 1) True" and w = 7 and l = 0 and kind = UV__WORK_SLOW_IO and f = 3]
    by (simp add: example_pool_def pool_start_def valid_pick_def init_threads_def Let_def)
  then show ?thesis using pool_reach.start pool_reach.step by blast
qed

lemma example_pool_facts:
  "submitted example_pool = [7 \<mapsto> 3]" "cancelling example_pool = {}" "\<not> exiting example_pool" "calls (sp example_pool) = []"
  "busy_with (pc (sp example_pool) i) = None"
  by (auto simp: example_pool_def pool_start_def init_threads_def raw_pool_def uv__work_submit_def post_def cond_signal_def Let_def)



text \<open>
  C19: For a request that was submitted with the function \<open>f\<close>, whatever the interleaving of workers, submissions,
  cancellations and completions: \<open>f\<close> is called at most once, no other function is (\<^verbatim>\<open>uv__cancelled\<close>, which aborts, is never
  called), and the completion is called at most once, with status 0 after \<open>f\<close>, and with \<^verbatim>\<open>UV_ECANCELED\<close> when \<open>f\<close> was not called.
\<close>

theorem pool_calls:
  assumes "pool_reach s"
  shows "case submitted s w of
           None \<Rightarrow> log_of w (sp s) = []
         | Some f \<Rightarrow>
             log_of w (sp s) \<in> {[], [Call_work w (Fn f)], [Call_work w (Fn f), Call_done w None], [Call_done w (Some UV_ECANCELED)]}"
proof -
  obtain v where "sys_ok s v" using reach_ok [OF assms] by blast
  then show ?thesis using sys_okD(8) [of s v w] by (auto simp: work_ok_def split: option.splits)
qed

theorem pool_calls_witness:
  "log_of 7 (sp example_pool) \<in>
     {[], [Call_work 7 (Fn 3)], [Call_work 7 (Fn 3), Call_done 7 None], [Call_done 7 (Some UV_ECANCELED)]}"
  using pool_calls [OF example_pool_reach, of 7] by (simp add: example_pool_facts)

text \<open>
  C20: As long as \<^verbatim>\<open>cleanup\<close> has not been called, the workers left to themselves make a bounded number of steps and reach a state in
  which none of them can make a step, and in such a state the two queues are empty and every submitted request (but those that \<^verbatim>\<open>uv_cancel\<close> is just taking
  out) has been run or cancelled: no wake-up is lost, and slow work is not left behind.
\<close>

theorem pool_drains:
  assumes "pool_reach s" and "\<not> exiting s"
  shows "(\<exists>N. \<forall>n s'. worker_run n s s' \<longrightarrow> n \<le> N) \<and> (\<exists>n s'. worker_run n s s' \<and> workers_stuck s') \<and>
         (\<forall>n s' w f. worker_run n s s' \<longrightarrow> workers_stuck s' \<longrightarrow>
            QUEUE_EMPTY (p_queue (sp s')) Wq \<and> QUEUE_EMPTY (p_queue (sp s')) Slow_wq \<and>
            (submitted s w = Some f \<longrightarrow> w \<notin> cancelling s \<longrightarrow>
               Call_work w (Fn f) \<in> set (calls (sp s')) \<or> wk_work (sp s') w = Fn_cancelled \<or>
               Call_done w (Some UV_ECANCELED) \<in> set (calls (sp s'))))"
proof -
  obtain v where v: "sys_ok s v" using reach_ok [OF assms(1)] by blast
  have "n \<le> load (sp s) v" if "worker_run n s s'" for n s' using run_decreases [OF that v] by auto
  moreover have "QUEUE_EMPTY (p_queue (sp s')) Wq \<and> QUEUE_EMPTY (p_queue (sp s')) Slow_wq \<and>
      (submitted s w = Some f \<longrightarrow> w \<notin> cancelling s \<longrightarrow>
         Call_work w (Fn f) \<in> set (calls (sp s')) \<or> wk_work (sp s') w = Fn_cancelled \<or> Call_done w (Some UV_ECANCELED) \<in> set (calls (sp s')))"
    if r: "worker_run n s s'" and st: "workers_stuck s'" for n s' w f
  proof -
    obtain v' where v': "sys_ok s' v'" using run_decreases [OF r v] by auto
    have e: "submitted s' = submitted s" "cancelling s' = cancelling s" "\<not> exiting s'" using run_same [OF r] assms(2) by auto
    note D = stuck_drained [OF v' st e(3)]
    have "x \<in> set (log_of w (sp s')) \<Longrightarrow> x \<in> set (calls (sp s'))" for x by (simp add: log_of_def)
    then show ?thesis using views_simps(1,2) [OF sys_okD(2) [OF v']] sys_okD(8) [OF v', of w] D e
      by (auto simp: work_ok_def split: option.splits)
  qed
  ultimately show ?thesis using run_ends [OF v] by blast
qed

theorem pool_drains_witness:
  "\<exists>n s. worker_run n example_pool s \<and> workers_stuck s \<and> QUEUE_EMPTY (p_queue (sp s)) Wq \<and> QUEUE_EMPTY (p_queue (sp s)) Slow_wq \<and>
     (Call_work 7 (Fn 3) \<in> set (calls (sp s)) \<or> wk_work (sp s) 7 = Fn_cancelled \<or> Call_done 7 (Some UV_ECANCELED) \<in> set (calls (sp s)))"
proof -
  note D = pool_drains [OF example_pool_reach example_pool_facts(3)]
  obtain n s where r: "worker_run n example_pool s" "workers_stuck s" using D by blast
  have "submitted example_pool 7 = Some 3" "7 \<notin> cancelling example_pool" by (simp_all add: example_pool_facts)
  then show ?thesis using D r by blast
qed

text \<open>
  \<^verbatim>\<open>uv_cancel\<close> of a submitted request that has not been completed, in any reachable state: \<^verbatim>\<open>UV_EINVAL\<close> for a request of
  another kind; otherwise it succeeds if and only if no thread has taken the request, and \<^verbatim>\<open>UV_EBUSY\<close> otherwise.
\<close>

lemma uv_cancel_result:
  assumes "pool_reach s" and "submitted s w = Some f" and "w \<notin> cancelling s" and "\<forall>e. Call_done w e \<notin> set (calls (sp s))"
    and "wr_pool r = sp s"
  shows "fst (uv_cancel w r) =
           (if req_type_of r w \<notin> {UV_FS, UV_GETADDRINFO, UV_GETNAMEINFO, UV_RANDOM, UV_WORK} then Some UV_EINVAL
            else if (\<exists>i. busy_with (pc (sp s) i) = Some w) \<or> Call_work w (Fn f) \<in> set (calls (sp s)) then Some UV_EBUSY
            else None)"
proof -
  obtain v where v: "sys_ok s v" using reach_ok [OF assms(1)] by blast
  note K = sys_okD [OF v]
  let ?c = "\<not> QUEUE_EMPTY (p_queue (sp s)) (Work w) \<and> wk_work (sp s) w \<noteq> Fn_NULL"
  have lg: "x \<in> set (log_of w (sp s)) \<longleftrightarrow> x \<in> set (calls (sp s)) \<and> about x = w" for x by (auto simp: log_of_def)
  have nd: "Call_done w e \<notin> set (log_of w (sp s))" for e using assms(4) lg by blast
  have "?c \<longleftrightarrow> w \<notin> exec (pc (sp s)) \<and> Call_work w (Fn f) \<notin> set (log_of w (sp s))"
    using K(8) [of w] assms(2,3) nd [of None] nd [of "Some UV_ECANCELED"] views_simps(9,10) [OF K(2), of w] views_places(1,2) [OF K(2)]
    by (auto simp: work_ok_def)
  then have "?c \<longleftrightarrow> \<not> ((\<exists>i. busy_with (pc (sp s) i) = Some w) \<or> Call_work w (Fn f) \<in> set (calls (sp s)))"
    unfolding busy_exec [symmetric] lg by simp
  then show ?thesis using assms(5) by (simp add: uv_cancel_def uv__work_cancel_def work_cancel_begin_def Let_def)
qed

definition example_reqs :: work_reqs where
  "example_reqs = \<lparr>wr_pool = sp example_pool, req_type_of = (\<lambda>_. UV_WORK), req_loop = (\<lambda>_. 0), work_cb = (\<lambda>_. Some 1),
     after_work_cb = (\<lambda>_. None), active_reqs = (\<lambda>_. 1), req_calls = []\<rparr>"

end
