(* ===== verification/Uv_Heap.thy ===== *)
theory Uv_Heap
  imports Uv_Base
begin

text \<open>
  The intrusive binary heap of \<^verbatim>\<open>src/heap-inl.h\<close> at the level of its pointers. A node is identified by
  its address; the memory of the nodes is part of the state. The heap is related to a numbered
  complete tree: position 1 is the root, the children of position \<open>m\<close> are \<open>2m\<close> and \<open>2m + 1\<close>.
\<close>

type_synonym node = nat

record heap_node =
  left :: "node option"
  right :: "node option"
  parent :: "node option"

record heap =
  hmin :: "node option"
  nelts :: u32
  nodes :: "node \<Rightarrow> heap_node"

subsection \<open>Operations\<close>

definition heap_init :: "heap \<Rightarrow> heap" where
  "heap_init h = h\<lparr>hmin := None, nelts := 0\<rparr>"

definition heap_min :: "heap \<Rightarrow> node option" where
  "heap_min h = hmin h"

definition upd_node :: "node \<Rightarrow> (heap_node \<Rightarrow> heap_node) \<Rightarrow> heap \<Rightarrow> heap" where
  "upd_node a f h = h\<lparr>nodes := (nodes h)(a := f (nodes h a))\<rparr>"

definition set_parent :: "node option \<Rightarrow> node \<Rightarrow> heap \<Rightarrow> heap" where
  "set_parent a p h = (case a of None \<Rightarrow> h | Some a \<Rightarrow> upd_node a (\<lambda>n. n\<lparr>parent := Some p\<rparr>) h)"

text \<open>Replaces the child \<open>old\<close> of the node \<open>pp\<close>, or the root.\<close>

definition relink :: "node option \<Rightarrow> node \<Rightarrow> node \<Rightarrow> heap \<Rightarrow> heap" where
  "relink pp old new h =
     (case pp of
        None \<Rightarrow> h\<lparr>hmin := Some new\<rparr>
      | Some g \<Rightarrow>
          if left (nodes h g) = Some old then upd_node g (\<lambda>n. n\<lparr>left := Some new\<rparr>) h
          else upd_node g (\<lambda>n. n\<lparr>right := Some new\<rparr>) h)"

definition heap_node_swap :: "node \<Rightarrow> node \<Rightarrow> heap \<Rightarrow> heap" where
  "heap_node_swap p c h =
     (let t = nodes h p;
          h1 = h\<lparr>nodes := (nodes h)(p := nodes h c)\<rparr>;
          h2 = h1\<lparr>nodes := (nodes h1)(c := t)\<rparr>;
          h3 = upd_node p (\<lambda>n. n\<lparr>parent := Some c\<rparr>) h2;
          (h4, sibling) =
            (if left (nodes h3 c) = Some c
             then (upd_node c (\<lambda>n. n\<lparr>left := Some p\<rparr>) h3, right (nodes h3 c))
             else (upd_node c (\<lambda>n. n\<lparr>right := Some p\<rparr>) h3, left (nodes h3 c)));
          h5 = set_parent sibling c h4;
          h6 = set_parent (left (nodes h5 p)) p h5;
          h7 = set_parent (right (nodes h6 p)) p h6
      in relink (parent (nodes h7 c)) p c h7)"

text \<open>The path from the root to the node with number \<open>n\<close>: \<open>(path, k)\<close>.\<close>

function heap_path :: "u32 \<Rightarrow> nat \<Rightarrow> u32 \<Rightarrow> u32 \<times> nat" where
  "heap_path path k n =
     (if n \<ge> 2 then heap_path (push_bit 1 path OR (n AND 1)) (k + 1) (n div 2) else (path, k))"
  by pat_completeness auto
termination
  by (relation "measure (\<lambda>(path, k, n). unat n)") (auto simp: unat_div word_le_nat_alt)

declare heap_path.simps [simp del]

text \<open>A \<^verbatim>\<open>struct heap_node**\<close>.\<close>

datatype link = Min_link | Left_link node | Right_link node

fun read_link :: "heap \<Rightarrow> link \<Rightarrow> node option" where
  "read_link h Min_link = hmin h"
| "read_link h (Left_link a) = left (nodes h a)"
| "read_link h (Right_link a) = right (nodes h a)"

fun write_link :: "link \<Rightarrow> node option \<Rightarrow> heap \<Rightarrow> heap" where
  "write_link Min_link v h = h\<lparr>hmin := v\<rparr>"
| "write_link (Left_link a) v h = upd_node a (\<lambda>n. n\<lparr>left := v\<rparr>) h"
| "write_link (Right_link a) v h = upd_node a (\<lambda>n. n\<lparr>right := v\<rparr>) h"

text \<open>
  The traversal: \<open>(parent, child)\<close>, both starting at \<^verbatim>\<open>&heap->min\<close>; \<^const>\<open>None\<close> if a null pointer is
  followed.
\<close>

fun heap_walk :: "heap \<Rightarrow> u32 \<Rightarrow> nat \<Rightarrow> link \<Rightarrow> link \<Rightarrow> (link \<times> link) option" where
  "heap_walk h path 0 p c = Some (p, c)"
| "heap_walk h path (Suc k) p c =
     (case read_link h c of
        None \<Rightarrow> None
      | Some a \<Rightarrow>
          heap_walk h (drop_bit 1 path) k c (if path AND 1 \<noteq> 0 then Right_link a else Left_link a))"

text \<open>
  \<^verbatim>\<open>while (newnode->parent != NULL && lt(newnode, newnode->parent))\<close>. The first argument of the
  loops bounds the number of iterations.
\<close>

fun sift_up :: "nat \<Rightarrow> (node \<Rightarrow> node \<Rightarrow> bool) \<Rightarrow> node \<Rightarrow> heap \<Rightarrow> heap option" where
  "sift_up fuel lt a h =
     (case parent (nodes h a) of
        None \<Rightarrow> Some h
      | Some p \<Rightarrow>
          if lt a p then
            (case fuel of 0 \<Rightarrow> None | Suc f \<Rightarrow> sift_up f lt a (heap_node_swap p a h))
          else Some h)"

declare sift_up.simps [simp del]

definition smallest_child :: "(node \<Rightarrow> node \<Rightarrow> bool) \<Rightarrow> node \<Rightarrow> heap \<Rightarrow> node" where
  "smallest_child lt a h =
     (let s1 = (case left (nodes h a) of None \<Rightarrow> a | Some l \<Rightarrow> if lt l a then l else a)
      in case right (nodes h a) of None \<Rightarrow> s1 | Some r \<Rightarrow> if lt r s1 then r else s1)"

fun sift_down :: "nat \<Rightarrow> (node \<Rightarrow> node \<Rightarrow> bool) \<Rightarrow> node \<Rightarrow> heap \<Rightarrow> heap option" where
  "sift_down fuel lt a h =
     (let smallest = smallest_child lt a h in
      if smallest = a then Some h
      else (case fuel of 0 \<Rightarrow> None | Suc f \<Rightarrow> sift_down f lt a (heap_node_swap a smallest h)))"

declare sift_down.simps [simp del]

definition heap_insert :: "nat \<Rightarrow> (node \<Rightarrow> node \<Rightarrow> bool) \<Rightarrow> node \<Rightarrow> heap \<Rightarrow> heap option" where
  "heap_insert fuel lt newnode h =
     (let h1 = upd_node newnode (\<lambda>n. n\<lparr>left := None, right := None, parent := None\<rparr>) h;
          (path, k) = heap_path 0 0 (1 + nelts h1)
      in case heap_walk h1 path k Min_link Min_link of
           None \<Rightarrow> None
         | Some (p, c) \<Rightarrow>
             let h2 = upd_node newnode (\<lambda>n. n\<lparr>parent := read_link h1 p\<rparr>) h1;
                 h3 = write_link c (Some newnode) h2;
                 h4 = h3\<lparr>nelts := nelts h3 + 1\<rparr>
             in sift_up fuel lt newnode h4)"

definition heap_remove :: "nat \<Rightarrow> (node \<Rightarrow> node \<Rightarrow> bool) \<Rightarrow> node \<Rightarrow> heap \<Rightarrow> heap option" where
  "heap_remove fuel lt a h =
     (if nelts h = 0 then Some h
      else
        let (path, k) = heap_path 0 0 (nelts h) in
        case heap_walk h path k Min_link Min_link of
          None \<Rightarrow> None
        | Some (_, mx) \<Rightarrow>
            let h1 = h\<lparr>nelts := nelts h - 1\<rparr> in
            (case read_link h1 mx of
               None \<Rightarrow> None
             | Some child \<Rightarrow>
                 let h2 = write_link mx None h1 in
                 if child = a then Some (if Some child = hmin h2 then h2\<lparr>hmin := None\<rparr> else h2)
                 else
                   let h3 = upd_node child (\<lambda>n. n\<lparr>left := left (nodes h2 a)\<rparr>) h2;
                       h4 = upd_node child (\<lambda>n. n\<lparr>right := right (nodes h3 a)\<rparr>) h3;
                       h5 = upd_node child (\<lambda>n. n\<lparr>parent := parent (nodes h4 a)\<rparr>) h4;
                       h6 = set_parent (left (nodes h5 child)) child h5;
                       h7 = set_parent (right (nodes h6 child)) child h6;
                       h8 = relink (parent (nodes h7 a)) a child h7
                   in (case sift_down fuel lt child h8 of
                         None \<Rightarrow> None
                       | Some h9 \<Rightarrow> sift_up fuel lt child h9)))"

definition heap_dequeue :: "nat \<Rightarrow> (node \<Rightarrow> node \<Rightarrow> bool) \<Rightarrow> heap \<Rightarrow> heap option" where
  "heap_dequeue fuel lt h =
     (case hmin h of None \<Rightarrow> Some h | Some a \<Rightarrow> heap_remove fuel lt a h)"

subsection \<open>The numbered tree\<close>

text \<open>\<open>T m\<close> is the node at position \<open>m\<close>.\<close>

definition tree_node :: "(nat \<rightharpoonup> node) \<Rightarrow> nat \<Rightarrow> heap_node" where
  "tree_node T m = \<lparr>left = T (2 * m), right = T (2 * m + 1), parent = T (m div 2)\<rparr>"

definition links :: "heap \<Rightarrow> (nat \<rightharpoonup> node) \<Rightarrow> bool" where
  "links h T \<longleftrightarrow> hmin h = T 1 \<and> T 0 = None \<and> (\<forall>m x. T m = Some x \<longrightarrow> nodes h x = tree_node T m)"

definition inj_tree :: "(nat \<rightharpoonup> node) \<Rightarrow> bool" where
  "inj_tree T \<longleftrightarrow> (\<forall>m n x. T m = Some x \<longrightarrow> T n = Some x \<longrightarrow> m = n)"

lemma links_root: "links h T \<Longrightarrow> hmin h = T 1"
  by (simp add: links_def)

lemma links_zero: "links h T \<Longrightarrow> T 0 = None"
  by (simp add: links_def)

lemma links_node: "links h T \<Longrightarrow> T m = Some x \<Longrightarrow> nodes h x = tree_node T m"
  by (simp add: links_def)

lemma tree_node_sel [simp]:
  "left (tree_node T m) = T (2 * m)" "right (tree_node T m) = T (Suc (2 * m))" "parent (tree_node T m) = T (m div 2)"
  by (simp_all add: tree_node_def)

lemma inj_treeD: "inj_tree T \<Longrightarrow> T m = Some x \<Longrightarrow> T n = Some x \<Longrightarrow> m = n"
  unfolding inj_tree_def by blast

lemma nodes_upd_node [simp]: "nodes (upd_node a f h) = (nodes h)(a := f (nodes h a))"
  by (simp add: upd_node_def)

lemma hmin_upd_node [simp]: "hmin (upd_node a f h) = hmin h" "nelts (upd_node a f h) = nelts h"
  by (simp_all add: upd_node_def)

lemma hmin_set_parent [simp]: "hmin (set_parent a p h) = hmin h" "nelts (set_parent a p h) = nelts h"
  by (simp_all add: set_parent_def split: option.splits)

lemma nodes_set_parent:
  "nodes (set_parent a p h) x = (if a = Some x then (nodes h x)\<lparr>parent := Some p\<rparr> else nodes h x)"
  by (auto simp: set_parent_def split: option.splits)

lemma nodes_relink:
  "nodes (relink pp old new h) x =
     (if pp = Some x
      then if left (nodes h x) = Some old then (nodes h x)\<lparr>left := Some new\<rparr> else (nodes h x)\<lparr>right := Some new\<rparr>
      else nodes h x)"
  by (auto simp: relink_def split: option.splits)

lemma hmin_relink: "hmin (relink pp old new h) = (if pp = None then Some new else hmin h)"
  "nelts (relink pp old new h) = nelts h"
  by (auto simp: relink_def split: option.splits)

definition swap_tree :: "nat \<Rightarrow> nat \<Rightarrow> (nat \<rightharpoonup> node) \<Rightarrow> (nat \<rightharpoonup> node)" where
  "swap_tree i j T = T(i := T j, j := T i)"

text \<open>What a swap does with each node.\<close>

lemma swap_nodes:
  assumes l: "links h T" and inj: "inj_tree T" and i: "T i = Some p" and j: "T j = Some c" and ij: "i = j div 2"
  shows "nodes (heap_node_swap p c h) x =
     (if x = c then (if 2 * i = j then (tree_node T i)\<lparr>left := Some p\<rparr> else (tree_node T i)\<lparr>right := Some p\<rparr>)
      else if x = p then (tree_node T j)\<lparr>parent := Some c\<rparr>
      else
        let n1 = (if (if 2 * i = j then T (Suc (2 * i)) else T (2 * i)) = Some x then (nodes h x)\<lparr>parent := Some c\<rparr> else nodes h x);
            n2 = (if T (2 * j) = Some x \<or> T (Suc (2 * j)) = Some x then n1\<lparr>parent := Some p\<rparr> else n1)
        in if T (i div 2) = Some x
           then if left n2 = Some p then n2\<lparr>left := Some c\<rparr> else n2\<lparr>right := Some c\<rparr>
           else n2)"
    and "hmin (heap_node_swap p c h) = (if T (i div 2) = None then Some c else hmin h)"
    and "nelts (heap_node_swap p c h) = nelts h"
proof -
  have "i \<noteq> 0" "j \<noteq> 0" using i j l by (auto simp: links_def intro: ccontr)
  have Tp: "T a = Some p \<longleftrightarrow> a = i" and Tc: "T a = Some c \<longleftrightarrow> a = j" for a
    using inj_treeD [OF inj] i j by auto
  have pc: "p \<noteq> c" "c \<noteq> p" using Tp [of j] j ij \<open>j \<noteq> 0\<close> by auto
  have ne: "2 * j \<noteq> i" "2 * j \<noteq> j" "Suc (2 * j) \<noteq> i" "Suc (2 * j) \<noteq> j" "i div 2 \<noteq> i" "i div 2 \<noteq> j"
      "2 * i \<noteq> i" "Suc (2 * i) \<noteq> i"
    using ij \<open>i \<noteq> 0\<close> \<open>j \<noteq> 0\<close> by auto
  have np: "nodes h p = tree_node T i" and nc: "nodes h c = tree_node T j" using links_node [OF l] i j by auto
  have odd: "Suc (2 * i) = j \<longleftrightarrow> 2 * i \<noteq> j" using ij by auto
  note facts = Tp Tc pc ne np nc odd nodes_set_parent nodes_relink hmin_relink
  show "hmin (heap_node_swap p c h) = (if T (i div 2) = None then Some c else hmin h)"
    and "nelts (heap_node_swap p c h) = nelts h"
    by (simp_all add: heap_node_swap_def Let_def facts)
  show "nodes (heap_node_swap p c h) x =
     (if x = c then (if 2 * i = j then (tree_node T i)\<lparr>left := Some p\<rparr> else (tree_node T i)\<lparr>right := Some p\<rparr>)
      else if x = p then (tree_node T j)\<lparr>parent := Some c\<rparr>
      else
        let n1 = (if (if 2 * i = j then T (Suc (2 * i)) else T (2 * i)) = Some x then (nodes h x)\<lparr>parent := Some c\<rparr> else nodes h x);
            n2 = (if T (2 * j) = Some x \<or> T (Suc (2 * j)) = Some x then n1\<lparr>parent := Some p\<rparr> else n1)
        in if T (i div 2) = Some x
           then if left n2 = Some p then n2\<lparr>left := Some c\<rparr> else n2\<lparr>right := Some c\<rparr>
           else n2)"
    by (cases "2 * i = j"; cases "x = c"; cases "x = p") (simp_all add: heap_node_swap_def Let_def facts)
qed

lemma div2_iff: "m div 2 = k \<longleftrightarrow> m = 2 * k \<or> m = Suc (2 * k)" for m k :: nat
  by auto

lemma swap_other:
  assumes "m \<noteq> i" and "m \<noteq> j" and "i = j div 2" and "i \<noteq> 0"
  shows "swap_tree i j T (2 * m) = (if i = 2 * m then T j else T (2 * m))"
    and "swap_tree i j T (Suc (2 * m)) = (if i = Suc (2 * m) then T j else T (Suc (2 * m)))"
    and "swap_tree i j T (m div 2) = (if m div 2 = i then T j else if m div 2 = j then T i else T (m div 2))"
  using assms by (auto simp: swap_tree_def)

lemma swap_links:
  assumes l: "links h T" and inj: "inj_tree T" and i: "T i = Some p" and j: "T j = Some c" and ij: "i = j div 2"
    and dom: "dom T = {1..n}"
  shows "links (heap_node_swap p c h) (swap_tree i j T)"
proof -
  have i0: "i \<noteq> 0" and j0: "j \<noteq> 0" using i j l by (auto simp: links_def intro: ccontr)
  have Tp: "T a = Some p \<longleftrightarrow> a = i" and Tc: "T a = Some c \<longleftrightarrow> a = j" for a
    using inj_treeD [OF inj] i j by auto
  have jc: "j = 2 * i \<or> j = Suc (2 * i)" using ij by auto
  note sn = swap_nodes [OF l inj i j ij]
  have "hmin (heap_node_swap p c h) = swap_tree i j T 1"
  proof (cases "i = 1")
    case True
    then show ?thesis using links_zero [OF l] j by (simp add: sn(2) swap_tree_def)
  next
    case False
    have "i \<in> dom T" using i by blast
    then have "i div 2 \<in> dom T" using False i0 unfolding dom by auto
    then obtain g where "T (i div 2) = Some g" by blast
    moreover have "1 \<noteq> j" using ij i0 by auto
    ultimately show ?thesis using False links_root [OF l] by (simp add: sn(2) swap_tree_def)
  qed
  moreover have "swap_tree i j T 0 = None" using i0 j0 links_zero [OF l] by (simp add: swap_tree_def)
  moreover have "nodes (heap_node_swap p c h) x = tree_node (swap_tree i j T) m" if m: "swap_tree i j T m = Some x" for m x
  proof (cases "m = i \<or> m = j")
    case True
    then show ?thesis
    proof
      assume "m = i"
      then have "x = c" using m i0 ij j by (auto simp: swap_tree_def split: if_splits)
      then show ?thesis using jc i0 \<open>m = i\<close> i by (auto simp: sn(1) tree_node_def swap_tree_def)
    next
      assume "m = j"
      then have "x = p" "p \<noteq> c" using m i Tp [of j] ij j0 j by (auto simp: swap_tree_def)
      then show ?thesis using i0 j0 ij \<open>m = j\<close> j by (auto simp: sn(1) tree_node_def swap_tree_def)
    qed
  next
    case False
    then have Tm: "T m = Some x" using m by (simp add: swap_tree_def)
    then have Tx: "T a = Some x \<longleftrightarrow> a = m" for a using inj_treeD [OF inj] by auto
    have x: "x \<noteq> p" "x \<noteq> c" using Tm False Tp Tc by auto
    have nx: "nodes h x = tree_node T m" using links_node [OF l Tm] .
    have m0: "m \<noteq> 0" using Tm links_zero [OF l] by (auto intro: ccontr)
    have "tree_node (swap_tree i j T) m =
        \<lparr>left = (if i = 2 * m then Some c else T (2 * m)), right = (if i = Suc (2 * m) then Some c else T (Suc (2 * m))),
         parent = (if m div 2 = i then Some c else if m div 2 = j then Some p else T (m div 2))\<rparr>"
      using False i j by (auto simp: tree_node_def swap_other [OF _ _ ij i0])
    moreover have "nodes (heap_node_swap p c h) x =
        \<lparr>left = (if i = 2 * m then Some c else T (2 * m)), right = (if i = Suc (2 * m) then Some c else T (Suc (2 * m))),
         parent = (if m div 2 = i then Some c else if m div 2 = j then Some p else T (m div 2))\<rparr>"
    proof -
      have A: "(if 2 * i = j then T (Suc (2 * i)) else T (2 * i)) = Some x \<longleftrightarrow> m div 2 = i"
        unfolding div2_iff using jc False by (cases "2 * i = j") (auto simp: Tx)
      have B: "T (2 * j) = Some x \<or> T (Suc (2 * j)) = Some x \<longleftrightarrow> m div 2 = j" unfolding div2_iff by (auto simp: Tx)
      have C: "T (i div 2) = Some x \<longleftrightarrow> i = 2 * m \<or> i = Suc (2 * m)" unfolding Tx div2_iff ..
      have ne: "i \<noteq> j" "2 * m = i \<longleftrightarrow> i = 2 * m" using ij i0 by auto
      show ?thesis
        using ne(1) x unfolding sn(1) A B C nx Let_def
        by (cases "m div 2 = i"; cases "m div 2 = j"; cases "i = 2 * m"; cases "i = Suc (2 * m)")
           (simp_all add: tree_node_def Tp ne(2))
    qed
    ultimately show ?thesis by simp
  qed
  ultimately show ?thesis by (simp add: links_def)
qed

text \<open>The whole relation: the tree has the positions \<open>1, \<dots>, n\<close>.\<close>

definition heap_rep :: "heap \<Rightarrow> (nat \<rightharpoonup> node) \<Rightarrow> nat \<Rightarrow> bool" where
  "heap_rep h T n \<longleftrightarrow> links h T \<and> inj_tree T \<and> dom T = {1..n} \<and> unat (nelts h) = n"

lemma inj_swap: "inj_tree T \<Longrightarrow> inj_tree (swap_tree i j T)"
  unfolding inj_tree_def swap_tree_def by (auto split: if_splits)

lemma dom_swap: "T i = Some a \<Longrightarrow> T j = Some b \<Longrightarrow> dom (swap_tree i j T) = dom T"
  by (auto simp: swap_tree_def)

lemma ran_swap: "T i = Some a \<Longrightarrow> T j = Some b \<Longrightarrow> ran (swap_tree i j T) = ran T"
  unfolding ran_def swap_tree_def by (auto) (metis option.inject)+

lemma swap_rep:
  assumes "heap_rep h T n" and "T (j div 2) = Some p" and "T j = Some c"
  shows "heap_rep (heap_node_swap p c h) (swap_tree (j div 2) j T) n"
  using assms swap_links [OF _ _ assms(2,3) refl] swap_nodes(3) [OF _ _ assms(2,3) refl]
  by (auto simp: heap_rep_def inj_swap dom_swap)

lemma rep_parent:
  assumes "heap_rep h T n" and "T k = Some a"
  shows "parent (nodes h a) = T (k div 2)" and "left (nodes h a) = T (2 * k)" and "right (nodes h a) = T (Suc (2 * k))"
  using assms links_node [of h T k a] by (auto simp: heap_rep_def)

lemma rep_zero: "heap_rep h T n \<Longrightarrow> T 0 = None"
  by (simp add: heap_rep_def links_def)

lemma rep_dom: "heap_rep h T n \<Longrightarrow> T k \<noteq> None \<longleftrightarrow> 1 \<le> k \<and> k \<le> n"
  unfolding heap_rep_def by (metis atLeastAtMost_iff domIff)

subsection \<open>The order of the heap\<close>

definition ordered_at :: "(node \<Rightarrow> node \<Rightarrow> bool) \<Rightarrow> (nat \<rightharpoonup> node) \<Rightarrow> nat \<Rightarrow> bool" where
  "ordered_at lt T m \<longleftrightarrow> (\<forall>x p. T m = Some x \<longrightarrow> T (m div 2) = Some p \<longrightarrow> \<not> lt x p)"

definition heap_ordered :: "(node \<Rightarrow> node \<Rightarrow> bool) \<Rightarrow> (nat \<rightharpoonup> node) \<Rightarrow> bool" where
  "heap_ordered lt T \<longleftrightarrow> (\<forall>m. ordered_at lt T m)"

definition over_ok :: "(node \<Rightarrow> node \<Rightarrow> bool) \<Rightarrow> (nat \<rightharpoonup> node) \<Rightarrow> nat \<Rightarrow> bool" where
  "over_ok lt T k \<longleftrightarrow> (\<forall>m x g. m div 2 = k \<longrightarrow> T m = Some x \<longrightarrow> T (k div 2) = Some g \<longrightarrow> \<not> lt x g)"

text \<open>Ordered but for position \<open>k\<close> and its parent; but for \<open>k\<close> and its neighbours.\<close>

definition up_inv :: "(node \<Rightarrow> node \<Rightarrow> bool) \<Rightarrow> (nat \<rightharpoonup> node) \<Rightarrow> nat \<Rightarrow> bool" where
  "up_inv lt T k \<longleftrightarrow> (\<forall>m. m \<noteq> k \<longrightarrow> ordered_at lt T m) \<and> over_ok lt T k"

definition down_inv :: "(node \<Rightarrow> node \<Rightarrow> bool) \<Rightarrow> (nat \<rightharpoonup> node) \<Rightarrow> nat \<Rightarrow> bool" where
  "down_inv lt T k \<longleftrightarrow> (\<forall>m. m \<noteq> k \<longrightarrow> m div 2 \<noteq> k \<longrightarrow> ordered_at lt T m) \<and> over_ok lt T k"

subsection \<open>Finding a position\<close>

definition path_bits :: "u32 \<Rightarrow> nat \<Rightarrow> bool list" where
  "path_bits path k = map (bit path) [0..<k]"

fun go :: "nat \<Rightarrow> bool list \<Rightarrow> nat" where
  "go m [] = m"
| "go m (b # bs) = go (2 * m + of_bool b) bs"

lemma path_bits_Suc: "path_bits path (Suc k) = bit path 0 # path_bits (drop_bit 1 path) k"
proof -
  have "map (bit path) [0..<Suc k] = bit path 0 # map (bit path) (map Suc [0..<k])"
    by (simp only: upt_rec [of 0 "Suc k"] map_Suc_upt) simp
  then show ?thesis by (simp add: path_bits_def bit_drop_bit_eq comp_def)
qed

lemma path_bits_push:
  assumes "k < 32"
  shows "path_bits (push_bit 1 path OR (n AND 1)) (Suc k) = odd (unat n) # path_bits path k"
proof -
  let ?p = "push_bit 1 path OR (n AND 1)"
  have "bit (unat n) 0 = bit n 0" by (simp only: bit_unsigned_iff) (simp add: possible_bit_def)
  then have "bit ?p 0 = odd (unat n)" by (simp add: bit_0 even_or_iff even_and_iff push_bit_eq_mult)
  moreover have "bit ?p (Suc i) = bit path i" if "i < k" for i
    using that assms
    by (simp only: bit_or_iff bit_and_iff bit_push_bit_iff bit_1_iff) (simp add: possible_bit_def)
  ultimately show ?thesis unfolding path_bits_def by (simp only: upt_rec [of 0 "Suc k"] map_Suc_upt [symmetric]) simp
qed

lemma heap_path_go:
  assumes "heap_path path k n = (path', k')" and "1 \<le> unat n" and "unat n < 2 ^ (32 - k)" and "k \<le> 32"
  shows "go 1 (path_bits path' k') = go (unat n) (path_bits path k)"
  using assms
proof (induction path k n rule: heap_path.induct)
  case (1 path k n)
  show ?case
  proof (cases "n \<ge> 2")
    case True
    then have n2: "2 \<le> unat n" by (simp add: word_le_nat_alt)
    then have "k \<noteq> 32" using 1(4) by auto
    then have k: "k < 32" using 1(5) by simp
    have d: "unat (n div 2) = unat n div 2" by (simp add: unat_div)
    have "2 ^ (32 - k) = 2 * (2 :: nat) ^ (32 - (k + 1))" using k by (simp flip: power_Suc add: Suc_diff_Suc)
    then have "unat n div 2 < 2 ^ (32 - (k + 1))" using 1(4) by linarith
    then have "go 1 (path_bits path' k') = go (unat n div 2) (path_bits (push_bit 1 path OR (n AND 1)) (k + 1))"
      using 1(1) [OF True] 1(2) True n2 k d by (simp add: heap_path.simps [of path])
    also have "\<dots> = go (2 * (unat n div 2) + of_bool (odd (unat n))) (path_bits path k)"
      using path_bits_push [OF k, of path n] by simp
    also have "2 * (unat n div 2) + of_bool (odd (unat n)) = unat n" by (cases "even (unat n)") auto
    finally show ?thesis .
  next
    case False
    then have "unat n = 1" using 1(3) by (simp add: word_le_nat_alt)
    then show ?thesis using 1(2) False by (simp add: heap_path.simps [of path])
  qed
qed

text \<open>The pointer that holds the node at position \<open>m\<close>.\<close>

definition link_of :: "(nat \<rightharpoonup> node) \<Rightarrow> nat \<Rightarrow> link" where
  "link_of T m =
     (if m = 1 then Min_link else if even m then Left_link (the (T (m div 2))) else Right_link (the (T (m div 2))))"

lemma read_link_of:
  assumes "links h T" and "m = 1 \<or> T (m div 2) \<noteq> None"
  shows "read_link h (link_of T m) = T m"
proof (cases "m = 1")
  case True
  then show ?thesis using links_root [OF assms(1)] by (simp add: link_of_def)
next
  case False
  then obtain p where p: "T (m div 2) = Some p" using assms(2) by auto
  have "nodes h p = tree_node T (m div 2)" by (rule links_node [OF assms(1) p])
  then show ?thesis using False p by (auto simp: link_of_def elim!: oddE)
qed

lemma go_ge: "m \<le> go m bs"
proof (induction bs arbitrary: m)
  case (Cons b bs)
  have "2 * m + of_bool b \<le> go (2 * m + of_bool b) bs" by (rule Cons)
  then show ?case by simp
qed simp

lemma go_half: "bs \<noteq> [] \<Longrightarrow> m \<le> go m bs div 2"
proof (cases bs)
  case (Cons b cs)
  have "2 * m + of_bool b \<le> go (2 * m + of_bool b) cs" by (rule go_ge)
  then have "2 * m \<le> go m bs" using Cons by simp
  then show ?thesis by linarith
qed simp

lemma heap_walk_ok:
  assumes "links h T" and "1 \<le> m" and "\<And>i. 1 \<le> i \<Longrightarrow> i \<le> go m (path_bits path k) div 2 \<Longrightarrow> T i \<noteq> None"
  shows "heap_walk h path k p (link_of T m) =
         Some (if k = 0 then p else link_of T (go m (path_bits path k) div 2), link_of T (go m (path_bits path k)))"
  using assms(2,3)
proof (induction k arbitrary: path m p)
  case 0
  then show ?case by (simp add: path_bits_def)
next
  case (Suc k)
  let ?m = "2 * m + of_bool (bit path 0)"
  have g: "go m (path_bits path (Suc k)) = go ?m (path_bits (drop_bit 1 path) k)" by (simp add: path_bits_Suc)
  have "m \<le> go m (path_bits path (Suc k)) div 2" by (rule go_half) (simp add: path_bits_Suc)
  then have "T m \<noteq> None" using Suc.prems by blast
  have "m = 1 \<or> 1 \<le> m div 2 \<and> m div 2 \<le> m" using Suc.prems(1) by linarith
  then have "m = 1 \<or> T (m div 2) \<noteq> None"
    using Suc.prems(2) [of "m div 2"] \<open>m \<le> go m (path_bits path (Suc k)) div 2\<close> by linarith
  then obtain a where a: "T m = Some a" and r: "read_link h (link_of T m) = Some a"
    using read_link_of [OF assms(1), of m] \<open>T m \<noteq> None\<close> by auto
  have odd: "path AND 1 \<noteq> 0 \<longleftrightarrow> bit path 0" by (simp add: bit_0 and_one_eq mod_2_eq_odd)
  have "link_of T ?m = (if bit path 0 then Right_link a else Left_link a)" using a Suc.prems(1) by (auto simp: link_of_def)
  then have "heap_walk h path (Suc k) p (link_of T m) = heap_walk h (drop_bit 1 path) k (link_of T m) (link_of T ?m)"
    using r odd by simp
  also have "\<dots> = Some (if k = 0 then link_of T m else link_of T (go ?m (path_bits (drop_bit 1 path) k) div 2),
                          link_of T (go ?m (path_bits (drop_bit 1 path) k)))"
    using Suc.prems g by (intro Suc.IH) auto
  finally show ?case unfolding g by (auto simp: path_bits_def)
qed

text \<open>The path computed for a number leads to the pointer of that position.\<close>

lemma heap_find_ok:
  assumes "links h T" and "1 \<le> unat n" and "\<And>i. 1 \<le> i \<Longrightarrow> i \<le> unat n div 2 \<Longrightarrow> T i \<noteq> None"
    and "heap_path 0 0 n = (path, k)"
  shows "heap_walk h path k Min_link Min_link =
         Some (if unat n = 1 then Min_link else link_of T (unat n div 2), link_of T (unat n))"
proof -
  have g: "go 1 (path_bits path k) = unat n"
    using heap_path_go [OF assms(4,2)] unat_bound [of n] by (simp add: path_bits_def)
  have "heap_walk h path k Min_link (link_of T 1) =
        Some (if k = 0 then Min_link else link_of T (unat n div 2), link_of T (unat n))"
    using heap_walk_ok [OF assms(1), of 1 path k Min_link] assms(3) g by simp
  moreover have "k = 0 \<longleftrightarrow> unat n = 1"
  proof
    assume "unat n = 1"
    then have "1 = go 1 (path_bits path k)" using g by simp
    then show "k = 0" using go_half [of "path_bits path k" 1] by (cases "k = 0") (auto simp: path_bits_def)
  qed (use g in \<open>simp add: path_bits_def\<close>)
  ultimately show ?thesis by (simp add: link_of_def)
qed

text \<open>What the heap needs of its comparison function: a strict weak order.\<close>

locale heap_order =
  fixes lt :: "node \<Rightarrow> node \<Rightarrow> bool"
  assumes lt_irrefl: "\<not> lt x x"
    and lt_trans: "lt x y \<Longrightarrow> lt y z \<Longrightarrow> lt x z"
    and lt_cotrans: "\<not> lt x y \<Longrightarrow> \<not> lt y z \<Longrightarrow> \<not> lt x z"
begin

lemma lt_asym: "lt x y \<Longrightarrow> \<not> lt y x"
  using lt_irrefl lt_trans by blast

lemma up_step:
  assumes "up_inv lt T k" and k: "T k = Some a" and p: "T (k div 2) = Some p" and "lt a p" and "T 0 = None"
  shows "up_inv lt (swap_tree (k div 2) k T) (k div 2)"
proof -
  let ?q = "k div 2" and ?T = "swap_tree (k div 2) k T"
  have "?q \<noteq> 0" using p assms(5) by (metis option.distinct(1))
  then have k0: "k \<noteq> 0" "?q \<noteq> 0" "?q \<noteq> k" "?q div 2 \<noteq> k" "?q div 2 \<noteq> ?q" by auto
  have o: "\<And>m. m \<noteq> k \<Longrightarrow> ordered_at lt T m" and ok: "over_ok lt T k" using assms(1) by (auto simp: up_inv_def)
  have "ordered_at lt ?T m" if "m \<noteq> ?q" for m
  proof (cases "m = k")
    case True
    then show ?thesis using lt_asym [OF assms(4)] k p k0 by (auto simp: ordered_at_def swap_tree_def)
  next
    case False
    consider "m div 2 = k" | "m div 2 = ?q" "m div 2 \<noteq> k" | "m div 2 \<noteq> k" "m div 2 \<noteq> ?q" by blast
    then show ?thesis
    proof cases
      case 1
      then show ?thesis using ok p k0 False that by (auto simp: ordered_at_def over_ok_def swap_tree_def)
    next
      case 2
      have "\<not> lt x a" if "T m = Some x" for x
        using o [OF False] 2 p that lt_trans [OF _ assms(4)] by (auto simp: ordered_at_def)
      then show ?thesis using 2 k False that by (auto simp: ordered_at_def swap_tree_def)
    next
      case 3
      then show ?thesis using o [OF False] False that by (auto simp: ordered_at_def swap_tree_def)
    qed
  qed
  moreover have "over_ok lt ?T ?q"
    unfolding over_ok_def
  proof (intro allI impI)
    fix m x g assume m: "m div 2 = ?q" and x: "?T m = Some x" and g: "?T (?q div 2) = Some g"
    have g: "T (?q div 2) = Some g" using g k0 by (simp add: swap_tree_def)
    then have pg: "\<not> lt p g" using o [of ?q] k0 p by (auto simp: ordered_at_def)
    show "\<not> lt x g"
    proof (cases "m = k")
      case True
      then show ?thesis using x p k0 pg by (auto simp: swap_tree_def)
    next
      case False
      have "m \<noteq> ?q" using m k0 by auto
      then have "T m = Some x" using x False by (simp add: swap_tree_def)
      then have "\<not> lt x p" using o [OF False] m p by (auto simp: ordered_at_def)
      then show ?thesis using pg lt_cotrans by blast
    qed
  qed
  ultimately show ?thesis by (simp add: up_inv_def)
qed

lemma sift_up_ok:
  assumes "heap_rep h T n" and "T k = Some a" and "up_inv lt T k" and "k \<le> fuel"
  shows "\<exists>h' T'. sift_up fuel lt a h = Some h' \<and> heap_rep h' T' n \<and> heap_ordered lt T' \<and> ran T' = ran T"
  using assms
proof (induction fuel arbitrary: h T k)
  case 0
  then show ?case using rep_zero by fastforce
next
  case (Suc fuel)
  show ?case
  proof (cases "T (k div 2)")
    case None
    then have "heap_ordered lt T"
      using Suc.prems(3) by (auto simp: heap_ordered_def up_inv_def ordered_at_def) (metis option.distinct(1))
    then show ?thesis using None Suc.prems rep_parent(1) by (auto simp: sift_up.simps)
  next
    case (Some p)
    show ?thesis
    proof (cases "lt a p")
      case True
      have "k \<noteq> 0" using Suc.prems(1,2) rep_zero by (metis option.distinct(1))
      then have "k div 2 \<le> fuel" using Suc.prems(4) by linarith
      moreover have "swap_tree (k div 2) k T (k div 2) = Some a"
        using Suc.prems(2) \<open>k \<noteq> 0\<close> by (simp add: swap_tree_def)
      ultimately obtain h' T' where "sift_up fuel lt a (heap_node_swap p a h) = Some h'" "heap_rep h' T' n"
          "heap_ordered lt T'" "ran T' = ran (swap_tree (k div 2) k T)"
        using Suc.IH [OF swap_rep [OF Suc.prems(1) Some Suc.prems(2)]]
          up_step [OF Suc.prems(3,2) Some True rep_zero [OF Suc.prems(1)]] by blast
      moreover have "sift_up (Suc fuel) lt a h = sift_up fuel lt a (heap_node_swap p a h)"
        using rep_parent(1) [OF Suc.prems(1,2)] Some True by (simp add: sift_up.simps [of "Suc fuel"])
      ultimately show ?thesis using ran_swap [OF Some Suc.prems(2)] by auto
    next
      case False
      then have "heap_ordered lt T"
        using Suc.prems(2,3) Some by (auto simp: heap_ordered_def up_inv_def ordered_at_def) (metis option.inject)
      then show ?thesis using False Some Suc.prems rep_parent(1) by (auto simp: sift_up.simps)
    qed
  qed
qed

lemma smallest_child_cases:
  assumes "heap_rep h T n" and "T k = Some a"
  obtains (stop) "smallest_child lt a h = a" "\<And>m x. m div 2 = k \<Longrightarrow> T m = Some x \<Longrightarrow> \<not> lt x a"
    | (step) j s where "smallest_child lt a h = s" "s \<noteq> a" "j div 2 = k" "T j = Some s" "lt s a"
        "\<And>m x. m div 2 = k \<Longrightarrow> T m = Some x \<Longrightarrow> \<not> lt x s"
proof -
  note ch = rep_parent(2,3) [OF assms]
  have m: "m div 2 = k \<longleftrightarrow> m = 2 * k \<or> m = Suc (2 * k)" for m by auto
  have asym: "lt x y \<Longrightarrow> \<not> lt y x" for x y by (rule lt_asym)
  have ne: "lt x y \<Longrightarrow> x \<noteq> y" for x y using lt_irrefl by blast
  define s1 where "s1 = (case left (nodes h a) of None \<Rightarrow> a | Some l \<Rightarrow> if lt l a then l else a)"
  have s: "smallest_child lt a h = (case right (nodes h a) of None \<Rightarrow> s1 | Some r \<Rightarrow> if lt r s1 then r else s1)"
    unfolding smallest_child_def Let_def s1_def ..
  have s1: "s1 = a \<and> (\<forall>x. T (2 * k) = Some x \<longrightarrow> \<not> lt x a) \<or> T (2 * k) = Some s1 \<and> lt s1 a"
    by (auto simp: s1_def ch(1) split: option.splits)
  show ?thesis
  proof (cases "\<exists>r. T (Suc (2 * k)) = Some r \<and> lt r s1")
    case True
    then obtain r where r: "T (Suc (2 * k)) = Some r" "lt r s1" by blast
    then have "smallest_child lt a h = r" by (simp add: s ch(2))
    moreover have ra: "lt r a" using s1 r(2) lt_trans by blast
    moreover have "\<not> lt x r" if "m div 2 = k" "T m = Some x" for m x
    proof (cases "m = Suc (2 * k)")
      case True
      then show ?thesis using that r(1) lt_irrefl by simp
    next
      case False
      then have x: "T (2 * k) = Some x" using that m by auto
      show ?thesis
      proof
        assume "lt x r"
        then have "lt x a" "lt x s1" using ra r(2) lt_trans by blast+
        then show False using s1 x lt_irrefl by auto
      qed
    qed
    ultimately show ?thesis using step [of r "Suc (2 * k)"] ne r(1) by auto
  next
    case False
    then have e: "smallest_child lt a h = s1" by (auto simp: s ch(2) split: option.splits)
    have none: "\<not> lt x s1" if "m div 2 = k" "T m = Some x" for m x
      using that m False s1 lt_irrefl by (metis option.inject)
    show ?thesis
    proof (cases "s1 = a")
      case True
      then show ?thesis using stop e none by simp
    next
      case ne1: False
      then show ?thesis using step [of s1 "2 * k"] e s1 none by auto
    qed
  qed
qed

lemma down_step:
  assumes "down_inv lt T k" and k: "T k = Some a" and j: "j div 2 = k" and s: "T j = Some s" and "lt s a"
    and min: "\<And>m x. m div 2 = k \<Longrightarrow> T m = Some x \<Longrightarrow> \<not> lt x s" and "T 0 = None"
  shows "down_inv lt (swap_tree k j T) j"
proof -
  let ?T = "swap_tree k j T"
  have "k \<noteq> 0" using k assms(7) by (metis option.distinct(1))
  then have k0: "k \<noteq> 0" "j \<noteq> 0" "k \<noteq> j" "k div 2 \<noteq> j" "k div 2 \<noteq> k" using j by auto
  have o: "\<And>m. m \<noteq> k \<Longrightarrow> m div 2 \<noteq> k \<Longrightarrow> ordered_at lt T m" and ok: "over_ok lt T k"
    using assms(1) by (auto simp: down_inv_def)
  have "ordered_at lt ?T m" if "m \<noteq> j" "m div 2 \<noteq> j" for m
  proof (cases "m = k")
    case True
    then show ?thesis using ok j s k0 by (auto simp: ordered_at_def over_ok_def swap_tree_def)
  next
    case False
    then show ?thesis
      using o [OF False] min s that by (cases "m div 2 = k") (auto simp: ordered_at_def swap_tree_def)
  qed
  moreover have "over_ok lt ?T j"
    unfolding over_ok_def
  proof (intro allI impI)
    fix m x g assume m: "m div 2 = j" and x: "?T m = Some x" and g: "?T (j div 2) = Some g"
    have "m \<noteq> k" "m \<noteq> j" using m j k0 by auto
    then have "T m = Some x" "g = s" using x g j s k0 by (auto simp: swap_tree_def)
    then show "\<not> lt x g" using o [of m] m \<open>m \<noteq> k\<close> k0 s by (auto simp: ordered_at_def)
  qed
  ultimately show ?thesis by (simp add: down_inv_def)
qed

lemma sift_down_ok:
  assumes "heap_rep h T n" and "T k = Some a" and "down_inv lt T k" and "n \<le> k + fuel"
  shows "\<exists>h' T' k'. sift_down fuel lt a h = Some h' \<and> heap_rep h' T' n \<and> T' k' = Some a \<and>
                    up_inv lt T' k' \<and> ran T' = ran T"
  using assms
proof (induction fuel arbitrary: h T k)
  case 0
  note rep = 0(1,2)
  show ?case
    using rep
  proof (cases rule: smallest_child_cases)
    case stop
    then have "up_inv lt T k" using 0(3) 0(2) by (auto simp: up_inv_def down_inv_def ordered_at_def)
    then show ?thesis using 0 stop by (auto simp: sift_down.simps)
  next
    case (step j s)
    have "k \<noteq> 0" using rep rep_zero by (metis option.distinct(1))
    then have "j > k" using step(3) by auto
    moreover have "j \<le> n" using rep_dom [OF rep(1), of j] step(4) by simp
    ultimately show ?thesis using 0(4) by simp
  qed
next
  case (Suc fuel)
  note rep = Suc.prems(1,2)
  have "k \<noteq> 0" using rep rep_zero by (metis option.distinct(1))
  show ?case
    using rep
  proof (cases rule: smallest_child_cases)
    case stop
    then have "up_inv lt T k" using Suc.prems(3,2) by (auto simp: up_inv_def down_inv_def ordered_at_def)
    then show ?thesis using Suc.prems stop by (auto simp: sift_down.simps)
  next
    case (step j s)
    have "heap_rep (heap_node_swap a s h) (swap_tree k j T) n" using swap_rep [of h T n j a s] rep step by simp
    moreover have "swap_tree k j T j = Some a" using rep by (simp add: swap_tree_def)
    moreover have "down_inv lt (swap_tree k j T) j"
      by (rule down_step [OF Suc.prems(3) rep(2) step(3,4,5,6) rep_zero [OF rep(1)]])
    moreover have "n \<le> j + fuel" using Suc.prems(4) step(3) \<open>k \<noteq> 0\<close> by auto
    ultimately obtain h' T' k' where "sift_down fuel lt a (heap_node_swap a s h) = Some h'" "heap_rep h' T' n"
        "T' k' = Some a" "up_inv lt T' k'" "ran T' = ran (swap_tree k j T)"
      using Suc.IH by blast
    moreover have "ran (swap_tree k j T) = ran T" using ran_swap rep(2) step(4) by blast
    ultimately show ?thesis using step(1,2) by (auto simp: sift_down.simps [of "Suc fuel"] Let_def)
  qed
qed

lemma ordered_root:
  assumes "heap_ordered lt T" and "dom T = {1..n}" and "T 1 = Some r"
  shows "T m = Some x \<Longrightarrow> \<not> lt x r"
proof (induction m arbitrary: x rule: less_induct)
  case (less m)
  have m: "1 \<le> m" "m \<le> n" using less.prems assms(2) by (metis atLeastAtMost_iff domI)+
  show ?case
  proof (cases "m = 1")
    case True
    then show ?thesis using less.prems assms(3) lt_irrefl by simp
  next
    case False
    then have "m div 2 \<in> dom T" using m unfolding assms(2) by auto
    then obtain p where p: "T (m div 2) = Some p" by blast
    then have "\<not> lt p r" using less.IH [of "m div 2"] m by simp
    moreover have "\<not> lt x p" using assms(1) less.prems p by (auto simp: heap_ordered_def ordered_at_def)
    ultimately show ?thesis using lt_cotrans by blast
  qed
qed

end

subsection \<open>Insertion\<close>

lemma link_of_neq_new: "x \<notin> ran T \<Longrightarrow> T (m div 2) \<noteq> None \<or> m = 1 \<Longrightarrow> link_of T m \<noteq> Left_link x \<and> link_of T m \<noteq> Right_link x"
  by (auto simp: link_of_def ran_def)

lemma links_other:
  assumes "links h T" and "x \<notin> ran T"
  shows "links (upd_node x f h) T"
  using assms unfolding links_def ran_def by auto

text \<open>Linking a new node behind the last position.\<close>

lemma links_append:
  assumes l: "links h T" and it: "inj_tree T" and new: "a \<notin> ran T" and d: "dom T = {1..n}"
    and na: "nodes h a = \<lparr>left = None, right = None, parent = T (Suc n div 2)\<rparr>"
  shows "links (write_link (link_of T (Suc n)) (Some a) h) (T(Suc n := Some a))"
proof -
  let ?T = "T(Suc n := Some a)"
  have dT: "T m = None \<longleftrightarrow> \<not> (1 \<le> m \<and> m \<le> n)" for m using d by (metis atLeastAtMost_iff domIff)
  have z: "T 0 = None" "hmin h = T 1" using l by (auto simp: links_def)
  have inj: "T i = Some x \<Longrightarrow> x \<noteq> a" for i x using new by (auto simp: ran_def)
  show ?thesis
  proof (cases "n = 0")
    case True
    then have e: "T m = None" for m using dT by auto
    then show ?thesis using True na by (auto simp: links_def link_of_def tree_node_def)
  next
    case False
    then obtain q where q: "T (Suc n div 2) = Some q" using dT [of "Suc n div 2"] by fastforce
    have ne: "Suc n \<noteq> 1" "Suc n div 2 \<noteq> Suc n" using False by auto
    let ?h = "write_link (link_of T (Suc n)) (Some a) h"
    have nodes: "nodes ?h x = (if x = q then if even (Suc n) then (nodes h x)\<lparr>left := Some a\<rparr> else (nodes h x)\<lparr>right := Some a\<rparr> else nodes h x)"
      for x using ne q by (auto simp: link_of_def)
    have "hmin ?h = ?T 1" using ne z by (auto simp: link_of_def)
    moreover have "nodes ?h x = tree_node ?T m" if m: "?T m = Some x" for m x
    proof (cases "m = Suc n")
      case True
      then have "x = a" using m by simp
      moreover have "a \<noteq> q" using inj [OF q] by simp
      moreover have "T (2 * Suc n) = None" "T (Suc (2 * Suc n)) = None" using dT by simp_all
      ultimately show ?thesis using True na ne q by (simp add: nodes tree_node_def)
    next
      case False
      then have Tm: "T m = Some x" using m by simp
      have nx: "nodes h x = tree_node T m" by (rule links_node [OF l Tm])
      have up: "m div 2 \<noteq> Suc n" using dT [of m] Tm by auto
      show ?thesis
      proof (cases "m = Suc n div 2")
        case True
        then have "x = q" using q Tm by simp
        moreover have "2 * m = Suc n \<longleftrightarrow> even (Suc n)" "Suc (2 * m) = Suc n \<longleftrightarrow> odd (Suc n)" using True by presburger+
        ultimately show ?thesis using nx up unfolding nodes by (auto simp: tree_node_def)
      next
        case False
        then have "x \<noteq> q" using inj_treeD [OF it Tm] q by auto
        moreover have "2 * m \<noteq> Suc n" "Suc (2 * m) \<noteq> Suc n" using False by auto
        ultimately show ?thesis using nx up unfolding nodes by (auto simp: tree_node_def)
      qed
    qed
    ultimately show ?thesis using z by (simp add: links_def)
  qed
qed

lemma node_all: "n\<lparr>left := x, right := y, parent := z\<rparr> = \<lparr>left = x, right = y, parent = z\<rparr>"
  by (cases n) simp

lemma ran_append: "T k = None \<Longrightarrow> ran (T(k := Some a)) = insert a (ran T)"
  by (auto simp: ran_def) (metis option.distinct(1))

lemma append_up_inv:
  assumes "heap_ordered lt T" and "dom T = {1..n}"
  shows "up_inv lt (T(Suc n := Some a)) (Suc n)"
proof -
  have dT: "T m = None \<longleftrightarrow> \<not> (1 \<le> m \<and> m \<le> n)" for m using assms(2) by (metis atLeastAtMost_iff domIff)
  have "ordered_at lt (T(Suc n := Some a)) m" if "m \<noteq> Suc n" for m
  proof (cases "m div 2 = Suc n")
    case True
    then have "T m = None" unfolding dT by auto
    then show ?thesis using that by (simp add: ordered_at_def)
  next
    case False
    then show ?thesis using assms(1) that by (simp add: heap_ordered_def ordered_at_def)
  qed
  moreover have "over_ok lt (T(Suc n := Some a)) (Suc n)"
    unfolding over_ok_def
  proof (intro allI impI)
    fix m x g assume "m div 2 = Suc n" and x: "(T(Suc n := Some a)) m = Some x"
    then have "m \<noteq> Suc n" "T m = None" unfolding dT by auto
    then show "\<not> lt x g" using x by simp
  qed
  ultimately show ?thesis by (simp add: up_inv_def)
qed

context heap_order
begin

lemma heap_insert_ok:
  assumes rep: "heap_rep h T n" and ord: "heap_ordered lt T" and new: "a \<notin> ran T" and n: "Suc n < 2 ^ 32"
    and fuel: "Suc n \<le> fuel"
  shows "\<exists>h' T'. heap_insert fuel lt a h = Some h' \<and> heap_rep h' T' (Suc n) \<and> heap_ordered lt T' \<and>
                 ran T' = insert a (ran T)"
proof -
  have l: "links h T" "inj_tree T" "dom T = {1..n}" "unat (nelts h) = n" using rep by (auto simp: heap_rep_def)
  have dT: "T m = None \<longleftrightarrow> \<not> (1 \<le> m \<and> m \<le> n)" for m using l(3) by (metis atLeastAtMost_iff domIff)
  let ?h1 = "upd_node a (\<lambda>n. n\<lparr>left := None, right := None, parent := None\<rparr>) h"
  have l1: "links ?h1 T" using links_other [OF l(1) new] .
  have un: "unat (1 + nelts ?h1) = Suc n"
    using n l(4) by (subst unat_add_lem [THEN iffD1]) simp_all
  obtain path k where pk: "heap_path 0 0 (1 + nelts ?h1) = (path, k)" by fastforce
  let ?p = "if Suc n = 1 then Min_link else link_of T (Suc n div 2)"
  have walk: "heap_walk ?h1 path k Min_link Min_link = Some (?p, link_of T (Suc n))"
    using heap_find_ok [OF l1, of "1 + nelts ?h1" path k] un pk dT by auto
  have par: "read_link ?h1 ?p = T (Suc n div 2)"
  proof (cases "n = 0")
    case True
    then have "T (Suc 0) = None" "T 0 = None" using dT by simp_all
    then show ?thesis using True links_root [OF l1] by simp
  next
    case False
    then have "Suc n div 2 = 1 \<or> T (Suc n div 2 div 2) \<noteq> None" using dT [of "Suc n div 2 div 2"] by fastforce
    then show ?thesis using False read_link_of [OF l1] by simp
  qed
  let ?h2 = "upd_node a (\<lambda>n. n\<lparr>parent := read_link ?h1 ?p\<rparr>) ?h1"
  let ?h3 = "write_link (link_of T (Suc n)) (Some a) ?h2"
  let ?h4 = "?h3\<lparr>nelts := nelts ?h3 + 1\<rparr>"
  let ?T = "T(Suc n := Some a)"
  have "links ?h2 T" by (rule links_other [OF l1 new])
  then have "links ?h3 ?T"
    using l(2) new l(3) by (rule links_append) (simp only: par, simp add: node_all)
  then have "links ?h4 ?T" by (simp add: links_def)
  moreover have "inj_tree ?T" using l(2) new unfolding inj_tree_def by (auto simp: ran_def)
  moreover have "dom ?T = {1..Suc n}" using l(3) by auto
  moreover have "nelts ?h3 = nelts h" by (cases "link_of T (Suc n)") simp_all
  then have "unat (nelts ?h4) = Suc n" using un by (simp add: add.commute)
  ultimately have "heap_rep ?h4 ?T (Suc n)" by (simp add: heap_rep_def)
  moreover have "?T (Suc n) = Some a" by simp
  ultimately obtain h' T' where "sift_up fuel lt a ?h4 = Some h'" "heap_rep h' T' (Suc n)" "heap_ordered lt T'"
      "ran T' = ran ?T"
    using sift_up_ok append_up_inv [OF ord l(3), of a] fuel by blast
  moreover have "heap_insert fuel lt a h = sift_up fuel lt a ?h4"
    using pk walk by (simp add: heap_insert_def Let_def)
  moreover have "ran ?T = insert a (ran T)" using dT by (intro ran_append) simp
  ultimately show ?thesis by auto
qed

end

subsection \<open>Removal\<close>

lemma links_unlink:
  assumes l: "links h T" and it: "inj_tree T" and d: "dom T = {1..n}" and n: "1 \<le> n"
  shows "links (write_link (link_of T n) None h) (T(n := None))"
proof -
  have dT: "T m = None \<longleftrightarrow> \<not> (1 \<le> m \<and> m \<le> n)" for m using d by (metis atLeastAtMost_iff domIff)
  have z: "T 0 = None" "hmin h = T 1" using l by (auto simp: links_def)
  let ?T = "T(n := None)" and ?h = "write_link (link_of T n) None h"
  show ?thesis
  proof (cases "n = 1")
    case True
    then have "?T m = None" for m using dT [of m] by auto
    then show ?thesis using True z by (auto simp: links_def link_of_def)
  next
    case False
    then obtain q where q: "T (n div 2) = Some q" using dT [of "n div 2"] n by fastforce
    have nodes: "nodes ?h x = (if x = q then if even n then (nodes h x)\<lparr>left := None\<rparr> else (nodes h x)\<lparr>right := None\<rparr> else nodes h x)"
      for x using False q by (auto simp: link_of_def)
    have "hmin ?h = ?T 1" using False z by (auto simp: link_of_def)
    moreover have "nodes ?h x = tree_node ?T m" if m: "?T m = Some x" for m x
    proof -
      have "m \<noteq> n" and Tm: "T m = Some x" using m by (auto split: if_splits)
      have nx: "nodes h x = tree_node T m" by (rule links_node [OF l Tm])
      have up: "m div 2 \<noteq> n" using dT [of m] Tm n by auto
      show ?thesis
      proof (cases "m = n div 2")
        case True
        then have "x = q" using q Tm by simp
        moreover have "2 * m = n \<longleftrightarrow> even n" "Suc (2 * m) = n \<longleftrightarrow> odd n" using True by presburger+
        ultimately show ?thesis using nx up unfolding nodes by (auto simp: tree_node_def)
      next
        case ne: False
        then have "x \<noteq> q" using inj_treeD [OF it Tm] q by auto
        moreover have "2 * m \<noteq> n" "Suc (2 * m) \<noteq> n" using ne by auto
        ultimately show ?thesis using nx up unfolding nodes by (auto simp: tree_node_def)
      qed
    qed
    ultimately show ?thesis using z by (simp add: links_def)
  qed
qed

text \<open>The node \<open>c\<close> takes the place of the node \<open>a\<close>.\<close>

definition replace_node :: "node \<Rightarrow> node \<Rightarrow> heap \<Rightarrow> heap" where
  "replace_node a child h2 =
     (let h3 = upd_node child (\<lambda>n. n\<lparr>left := left (nodes h2 a)\<rparr>) h2;
          h4 = upd_node child (\<lambda>n. n\<lparr>right := right (nodes h3 a)\<rparr>) h3;
          h5 = upd_node child (\<lambda>n. n\<lparr>parent := parent (nodes h4 a)\<rparr>) h4;
          h6 = set_parent (left (nodes h5 child)) child h5;
          h7 = set_parent (right (nodes h6 child)) child h6
      in relink (parent (nodes h7 a)) a child h7)"

lemma links_replace:
  assumes l: "links h T" and it: "inj_tree T" and k: "T k = Some a" and c: "c \<notin> ran T" and d: "dom T = {1..n}"
  shows "links (replace_node a c h) (T(k := Some c))" and "nelts (replace_node a c h) = nelts h"
proof -
  have k0: "k \<noteq> 0" using k links_zero [OF l] by (metis option.distinct(1))
  have ac: "a \<noteq> c" "c \<noteq> a" using c k by (auto simp: ran_def)
  have Tc: "T m \<noteq> Some c" for m using c by (auto simp: ran_def)
  have Ta: "T m = Some a \<longleftrightarrow> m = k" for m using inj_treeD [OF it] k by auto
  have na: "nodes h a = tree_node T k" by (rule links_node [OF l k])
  have ne: "2 * k \<noteq> k" "Suc (2 * k) \<noteq> k" "k div 2 \<noteq> k" using k0 by auto
  note facts = ac Tc Ta na ne nodes_set_parent nodes_relink hmin_relink
  show "nelts (replace_node a c h) = nelts h" by (simp add: replace_node_def Let_def facts)
  have nodes: "nodes (replace_node a c h) x =
      (if x = c then tree_node T k
       else
         let n1 = (if T (2 * k) = Some x \<or> T (Suc (2 * k)) = Some x then (nodes h x)\<lparr>parent := Some c\<rparr> else nodes h x)
         in if T (k div 2) = Some x
            then if left n1 = Some a then n1\<lparr>left := Some c\<rparr> else n1\<lparr>right := Some c\<rparr>
            else n1)" for x
    by (cases "x = c") (simp_all add: replace_node_def Let_def facts tree_node_def)
  have hm: "hmin (replace_node a c h) = (if T (k div 2) = None then Some c else hmin h)"
    by (simp add: replace_node_def Let_def facts)
  have "hmin (replace_node a c h) = (T(k := Some c)) 1"
  proof (cases "k = 1")
    case True
    then show ?thesis using links_zero [OF l] by (simp add: hm)
  next
    case False
    have "k \<in> dom T" using k by blast
    then have "k div 2 \<in> dom T" using False k0 unfolding d by auto
    then obtain g where "T (k div 2) = Some g" by blast
    then show ?thesis using False links_root [OF l] by (simp add: hm)
  qed
  moreover have "nodes (replace_node a c h) x = tree_node (T(k := Some c)) m" if m: "(T(k := Some c)) m = Some x" for m x
  proof (cases "m = k")
    case True
    then have "x = c" using m by simp
    then show ?thesis using True ne nodes [of c] by (simp add: tree_node_def)
  next
    case False
    then have Tm: "T m = Some x" using m by simp
    then have x: "x \<noteq> c" using Tc by auto
    have Tx: "T i = Some x \<longleftrightarrow> i = m" for i using inj_treeD [OF it] Tm by auto
    have nx: "nodes h x = tree_node T m" by (rule links_node [OF l Tm])
    have B: "T (2 * k) = Some x \<or> T (Suc (2 * k)) = Some x \<longleftrightarrow> m div 2 = k" unfolding div2_iff by (auto simp: Tx)
    have C: "T (k div 2) = Some x \<longleftrightarrow> k = 2 * m \<or> k = Suc (2 * m)" unfolding Tx div2_iff ..
    have E: "2 * m = k \<longleftrightarrow> k = 2 * m" "Suc (2 * m) = k \<longleftrightarrow> k = Suc (2 * m)" by auto
    show ?thesis
      using x unfolding nodes B C nx Let_def
      by (cases "m div 2 = k"; cases "k = 2 * m"; cases "k = Suc (2 * m)") (simp_all add: tree_node_def Ta E)
  qed
  ultimately show "links (replace_node a c h) (T(k := Some c))" using k0 links_zero [OF l] by (simp add: links_def)
qed

lemma remove_down_inv:
  assumes o: "heap_ordered lt T" and "T k = Some a" and "k < n"
    and cotrans: "\<And>x y z. \<not> lt x y \<Longrightarrow> \<not> lt y z \<Longrightarrow> \<not> lt x z" and "k \<noteq> 0"
  shows "down_inv lt (T(n := None, k := Some c)) k"
proof -
  let ?T = "T(n := None, k := Some c)"
  have T: "?T m = Some x \<Longrightarrow> m \<noteq> k \<Longrightarrow> T m = Some x" for m x by (auto split: if_splits)
  have "ordered_at lt ?T m" if "m \<noteq> k" "m div 2 \<noteq> k" for m
    using o T that unfolding heap_ordered_def ordered_at_def by blast
  moreover have "over_ok lt ?T k"
    unfolding over_ok_def
  proof (intro allI impI)
    fix m x g assume m: "m div 2 = k" "?T m = Some x" "?T (k div 2) = Some g"
    have "m \<noteq> k" "k div 2 \<noteq> k" using m(1) assms(5) by auto
    then have "T m = Some x" "T (k div 2) = Some g" using T m(2,3) by blast+
    then have "\<not> lt x a" "\<not> lt a g" using o m(1) assms(2) unfolding heap_ordered_def ordered_at_def by blast+
    then show "\<not> lt x g" by (rule cotrans)
  qed
  ultimately show ?thesis by (simp add: down_inv_def)
qed

lemma ran_unlink:
  assumes "inj_tree T" and "T n = Some c"
  shows "ran (T(n := None)) = ran T - {c}"
proof (intro equalityI subsetI)
  fix x assume "x \<in> ran (T(n := None))"
  then obtain m where "m \<noteq> n" "T m = Some x" by (auto simp: ran_def split: if_splits)
  then show "x \<in> ran T - {c}" using inj_treeD [OF assms(1)] assms(2) by (auto simp: ran_def)
next
  fix x assume "x \<in> ran T - {c}"
  then obtain m where "T m = Some x" "x \<noteq> c" by (auto simp: ran_def)
  then show "x \<in> ran (T(n := None))" using assms(2) by (auto simp: ran_def intro!: exI [of _ m])
qed

lemma ran_replace:
  assumes it: "inj_tree T" and "T k = Some a" and "T n = Some c" and "a \<noteq> c"
  shows "ran (T(n := None, k := Some c)) = ran T - {a}" and "ran (T(n := None)) = ran T - {c}"
    and "c \<notin> ran (T(n := None))"
proof -
  have T: "T m = Some a \<longleftrightarrow> m = k" "T m = Some c \<longleftrightarrow> m = n" for m using inj_treeD [OF it] assms by auto
  show "ran (T(n := None)) = ran T - {c}" by (rule ran_unlink [OF it assms(3)])
  then show "c \<notin> ran (T(n := None))" by simp
  show "ran (T(n := None, k := Some c)) = ran T - {a}"
  proof (intro equalityI subsetI)
    fix x assume "x \<in> ran (T(n := None, k := Some c))"
    then obtain m where "(T(n := None, k := Some c)) m = Some x" by (auto simp: ran_def)
    then show "x \<in> ran T - {a}" using T assms by (auto simp: ran_def split: if_splits)
  next
    fix x assume "x \<in> ran T - {a}"
    then obtain m where m: "T m = Some x" "x \<noteq> a" by (auto simp: ran_def)
    show "x \<in> ran (T(n := None, k := Some c))"
    proof (cases "m = n")
      case True
      then show ?thesis using m(1) assms(3) by (intro ranI [of _ k]) simp
    next
      case False
      moreover have "m \<noteq> k" using m assms(2) by auto
      ultimately show ?thesis using m(1) by (intro ranI [of _ m]) simp
    qed
  qed
qed

lemma inj_upd: "inj_tree T \<Longrightarrow> c \<notin> ran T \<Longrightarrow> inj_tree (T(k := Some c))"
  unfolding inj_tree_def by (auto simp: ran_def)

lemma heap_remove_eq:
  assumes "nelts h \<noteq> 0" and "heap_path 0 0 (nelts h) = (path, k)"
    and "heap_walk h path k Min_link Min_link = Some (p, mx)"
    and "read_link h mx = Some c"
  shows "heap_remove fuel lt a h =
     (let h2 = write_link mx None (h\<lparr>nelts := nelts h - 1\<rparr>) in
      if c = a then Some (if Some c = hmin h2 then h2\<lparr>hmin := None\<rparr> else h2)
      else case sift_down fuel lt c (replace_node a c h2) of None \<Rightarrow> None | Some h9 \<Rightarrow> sift_up fuel lt c h9)"
proof -
  have "read_link (h\<lparr>nelts := nelts h - 1\<rparr>) mx = Some c" using assms(4) by (cases mx) simp_all
  then show ?thesis using assms by (simp add: heap_remove_def replace_node_def Let_def)
qed

context heap_order
begin

lemma heap_remove_ok:
  assumes rep: "heap_rep h T n" and ord: "heap_ordered lt T" and k: "T k = Some a" and fuel: "n \<le> fuel"
  shows "\<exists>h' T'. heap_remove fuel lt a h = Some h' \<and> heap_rep h' T' (n - 1) \<and> heap_ordered lt T' \<and>
                 ran T' = ran T - {a}"
proof -
  have l: "links h T" "inj_tree T" "dom T = {1..n}" "unat (nelts h) = n" using rep by (auto simp: heap_rep_def)
  have dT: "T m = None \<longleftrightarrow> \<not> (1 \<le> m \<and> m \<le> n)" for m using l(3) by (metis atLeastAtMost_iff domIff)
  have kn: "1 \<le> k" "k \<le> n" using dT [of k] k by auto
  then obtain c where c: "T n = Some c" using dT [of n] by auto
  obtain path j where pj: "heap_path 0 0 (nelts h) = (path, j)" by fastforce
  have walk: "heap_walk h path j Min_link Min_link = Some (if n = 1 then Min_link else link_of T (n div 2), link_of T n)"
    using heap_find_ok [OF l(1), of "nelts h" path j] l(4) pj dT kn by auto
  have "n = 1 \<or> T (n div 2) \<noteq> None" using dT [of "n div 2"] kn by fastforce
  then have rd: "read_link h (link_of T n) = Some c" using read_link_of [OF l(1)] c by simp
  have ne: "nelts h \<noteq> 0" using l(4) kn by auto
  let ?h2 = "write_link (link_of T n) None (h\<lparr>nelts := nelts h - 1\<rparr>)"
  note eq = heap_remove_eq [OF ne pj walk rd, of fuel lt a]
  have "links (h\<lparr>nelts := nelts h - 1\<rparr>) T" using l(1) by (simp add: links_def)
  then have l2: "links ?h2 (T(n := None))" using links_unlink l(2,3) kn by (meson order_trans)
  have "nelts ?h2 = nelts h - 1" by (cases "link_of T n") simp_all
  then have n2: "unat (nelts ?h2) = n - 1" using l(4) kn by (simp add: unat_minus_one ne)
  have i2: "inj_tree (T(n := None))" using l(2) unfolding inj_tree_def by (auto split: if_splits)
  have d2: "dom (T(n := None)) = {1..n - 1}" using l(3) kn by auto
  show ?thesis
  proof (cases "c = a")
    case True
    then have kn: "k = n" using inj_treeD [OF l(2) k] c by simp
    have "hmin ?h2 \<noteq> Some c" using links_root [OF l2] inj_treeD [OF l(2) c, of 1] by (auto split: if_splits)
    then have "heap_remove fuel lt a h = Some ?h2" using eq True by (auto simp: Let_def)
    moreover have "heap_rep ?h2 (T(n := None)) (n - 1)" using l2 i2 d2 n2 by (simp add: heap_rep_def)
    moreover have "heap_ordered lt (T(n := None))"
      using ord unfolding heap_ordered_def ordered_at_def by (auto split: if_splits)
    moreover have "ran (T(n := None)) = ran T - {a}"
      using ran_unlink [OF l(2) c] True by simp
    ultimately show ?thesis by blast
  next
    case False
    then have "k \<noteq> n" using k c by auto
    then have kn': "k < n" "k \<noteq> 0" using kn by auto
    let ?T = "T(n := None, k := Some c)" and ?h8 = "replace_node a c ?h2"
    note r = ran_replace [OF l(2) k c] False
    have k2: "(T(n := None)) k = Some a" using k \<open>k \<noteq> n\<close> by simp
    have "n - 1 \<le> k + fuel" using fuel by simp
    have "links ?h8 ?T" "nelts ?h8 = nelts ?h2" using links_replace [OF l2 i2 k2 _ d2] r by auto
    moreover have "inj_tree ?T" by (rule inj_upd [OF i2]) (use r in blast)
    moreover have "dom ?T = {1..n - 1}" using d2 kn' by auto
    ultimately have "heap_rep ?h8 ?T (n - 1)" using n2 by (simp add: heap_rep_def)
    moreover have "?T k = Some c" by simp
    moreover have "down_inv lt ?T k" using remove_down_inv [OF ord k kn'(1) _ kn'(2)] lt_cotrans by blast
    ultimately obtain h9 T9 k9 where s9: "sift_down fuel lt c ?h8 = Some h9" "heap_rep h9 T9 (n - 1)" "T9 k9 = Some c"
        "up_inv lt T9 k9" "ran T9 = ran ?T"
      using sift_down_ok [of ?h8 ?T "n - 1" k c fuel] \<open>n - 1 \<le> k + fuel\<close> by blast
    have "k9 \<le> n - 1" using rep_dom [OF s9(2), of k9] s9(3) by simp
    then have "k9 \<le> fuel" using fuel by simp
    then obtain h' T' where "sift_up fuel lt c h9 = Some h'" "heap_rep h' T' (n - 1)" "heap_ordered lt T'" "ran T' = ran T9"
      using sift_up_ok [OF s9(2,3,4), of fuel] by blast
    moreover have "heap_remove fuel lt a h = sift_up fuel lt c h9" using eq False s9(1) by (simp add: Let_def)
    ultimately show ?thesis using r s9(5) False by auto
  qed
qed

end

subsection \<open>The heap as a priority queue\<close>

text \<open>The nodes in the heap, in an order given by the comparison function.\<close>

definition heap_holds :: "(node \<Rightarrow> node \<Rightarrow> bool) \<Rightarrow> heap \<Rightarrow> node set \<Rightarrow> bool" where
  "heap_holds lt h A \<longleftrightarrow> (\<exists>T n. heap_rep h T n \<and> heap_ordered lt T \<and> ran T = A)"

lemma heap_init_holds: "heap_holds lt (heap_init h) {}"
proof -
  have "heap_rep (heap_init h) Map.empty 0"
    by (simp add: heap_rep_def heap_init_def links_def inj_tree_def)
  then show ?thesis by (auto simp: heap_holds_def heap_ordered_def ordered_at_def intro!: exI [of _ Map.empty])
qed

lemma rep_card: "heap_rep h T n \<Longrightarrow> card (ran T) = n \<and> finite (ran T)"
proof -
  assume "heap_rep h T n"
  then have it: "inj_tree T" and d: "dom T = {1..n}" by (auto simp: heap_rep_def)
  have "inj_on (\<lambda>m. the (T m)) (dom T)" using inj_treeD [OF it] by (auto simp: inj_on_def)
  moreover have "ran T = (\<lambda>m. the (T m)) ` dom T" by (force simp: ran_def)
  ultimately show ?thesis using d by (simp add: card_image)
qed

lemma heap_holds_card: "heap_holds lt h A \<Longrightarrow> finite A \<and> card A = unat (nelts h)"
  using rep_card by (auto simp: heap_holds_def heap_rep_def)

lemma heap_holds_cong:
  assumes "heap_holds lt h A" and "\<And>x y. x \<in> A \<Longrightarrow> y \<in> A \<Longrightarrow> lt x y = lt' x y"
  shows "heap_holds lt' h A"
proof -
  obtain T n where T: "heap_rep h T n" "heap_ordered lt T" "ran T = A" using assms(1) by (auto simp: heap_holds_def)
  then have "T m = Some x \<Longrightarrow> x \<in> A" for m x by (auto simp: ran_def)
  then have "heap_ordered lt' T" using T(2) assms(2) unfolding heap_ordered_def ordered_at_def by metis
  then show ?thesis using T by (auto simp: heap_holds_def)
qed

context heap_order
begin

lemma heap_min_None: "heap_holds lt h A \<Longrightarrow> heap_min h = None \<longleftrightarrow> A = {}"
proof -
  assume "heap_holds lt h A"
  then obtain T n where T: "heap_rep h T n" "ran T = A" by (auto simp: heap_holds_def)
  then have d: "heap_min h = T 1" by (simp add: heap_min_def heap_rep_def links_def)
  have dT: "T m \<noteq> None \<longleftrightarrow> 1 \<le> m \<and> m \<le> n" for m by (rule rep_dom [OF T(1)])
  show ?thesis
  proof
    assume "heap_min h = None"
    then have "n = 0" using d dT [of 1] by auto
    then have "T m = None" for m using dT [of m] by auto
    then show "A = {}" using T(2) by (auto simp: ran_def)
  next
    assume "A = {}"
    then have "T 1 = None" using T(2) by (cases "T 1") (auto simp: ran_def)
    then show "heap_min h = None" using d by simp
  qed
qed

lemma heap_min_Some:
  assumes "heap_holds lt h A" and "heap_min h = Some a"
  shows "a \<in> A" and "b \<in> A \<Longrightarrow> \<not> lt b a"
proof -
  obtain T n where T: "heap_rep h T n" "heap_ordered lt T" "ran T = A" using assms(1) by (auto simp: heap_holds_def)
  have d: "T 1 = Some a" "dom T = {1..n}" using T(1) assms(2) by (auto simp: heap_min_def heap_rep_def links_def)
  then show "a \<in> A" using T(3) by (auto simp: ran_def)
  assume "b \<in> A"
  then obtain m where "T m = Some b" using T(3) by (auto simp: ran_def)
  then show "\<not> lt b a" by (rule ordered_root [OF T(2) d(2,1)])
qed

lemma heap_insert_holds:
  assumes "heap_holds lt h A" and "a \<notin> A" and "Suc (card A) < 2 ^ 32" and "Suc (card A) \<le> fuel"
  shows "\<exists>h'. heap_insert fuel lt a h = Some h' \<and> heap_holds lt h' (insert a A)"
proof -
  obtain T n where T: "heap_rep h T n" "heap_ordered lt T" "ran T = A" using assms(1) by (auto simp: heap_holds_def)
  then have "card A = n" using rep_card by blast
  then show ?thesis using heap_insert_ok [OF T(1,2), of a fuel] T(3) assms by (auto simp: heap_holds_def)
qed

lemma heap_remove_holds:
  assumes "heap_holds lt h A" and "a \<in> A" and "card A \<le> fuel"
  shows "\<exists>h'. heap_remove fuel lt a h = Some h' \<and> heap_holds lt h' (A - {a})"
proof -
  obtain T n where T: "heap_rep h T n" "heap_ordered lt T" "ran T = A" using assms(1) by (auto simp: heap_holds_def)
  moreover obtain k where "T k = Some a" using T(3) assms(2) by (auto simp: ran_def)
  moreover have "card A = n" using T rep_card by blast
  ultimately show ?thesis using heap_remove_ok [OF T(1,2), of k a fuel] assms(3) by (auto simp: heap_holds_def)
qed

end

end
