(* ===== verification/Uv_Handle.thy ===== *)
theory Uv_Handle
  imports Uv_Heap
begin

text \<open>
  Handles and the loop: the flags of a handle and the macros of \<^verbatim>\<open>src/uv-common.h\<close> that keep
  \<^verbatim>\<open>loop->active_handles\<close>, the number of handles that are active and referenced.
\<close>

datatype handle_type = UV_TIMER | UV_PREPARE | UV_CHECK | UV_IDLE | UV_ASYNC | UV_POLL | UV_other

definition UV_HANDLE_CLOSING :: u32 where "UV_HANDLE_CLOSING = 1"
definition UV_HANDLE_CLOSED :: u32 where "UV_HANDLE_CLOSED = 2"
definition UV_HANDLE_ACTIVE :: u32 where "UV_HANDLE_ACTIVE = 4"
definition UV_HANDLE_REF :: u32 where "UV_HANDLE_REF = 8"

record uv_handle =
  h_type :: handle_type
  flags :: u32

text \<open>The own fields of a \<^verbatim>\<open>uv_timer_t\<close>; a callback is a number, \<^const>\<open>None\<close> is the null pointer.\<close>

record uv_timer =
  timer_cb :: "nat option"
  timeout :: u64
  repeat :: u64
  start_id :: u64

record uv_loop =
  time :: u64
  timer_counter :: u64
  active_handles :: u32
  handle_queue :: "nat list"
  handles :: "nat \<Rightarrow> uv_handle"
  timers :: "nat \<Rightarrow> uv_timer"
  timer_heap :: heap

abbreviation flags_of :: "uv_loop \<Rightarrow> nat \<Rightarrow> u32" where
  "flags_of l h \<equiv> flags (handles l h)"

definition set_flags :: "nat \<Rightarrow> u32 \<Rightarrow> uv_loop \<Rightarrow> uv_loop" where
  "set_flags h f l = l\<lparr>handles := (handles l)(h := (handles l h)\<lparr>flags := f\<rparr>)\<rparr>"

definition uv__is_active :: "uv_loop \<Rightarrow> nat \<Rightarrow> bool" where
  "uv__is_active l h \<longleftrightarrow> flags_of l h AND UV_HANDLE_ACTIVE \<noteq> 0"

definition uv__is_closing :: "uv_loop \<Rightarrow> nat \<Rightarrow> bool" where
  "uv__is_closing l h \<longleftrightarrow> flags_of l h AND (UV_HANDLE_CLOSING OR UV_HANDLE_CLOSED) \<noteq> 0"

definition uv__has_ref :: "uv_loop \<Rightarrow> nat \<Rightarrow> bool" where
  "uv__has_ref l h \<longleftrightarrow> flags_of l h AND UV_HANDLE_REF \<noteq> 0"

definition uv__active_handle_add :: "uv_loop \<Rightarrow> uv_loop" where
  "uv__active_handle_add l = l\<lparr>active_handles := active_handles l + 1\<rparr>"

definition uv__active_handle_rm :: "uv_loop \<Rightarrow> uv_loop" where
  "uv__active_handle_rm l = l\<lparr>active_handles := active_handles l - 1\<rparr>"

definition uv__handle_start :: "nat \<Rightarrow> uv_loop \<Rightarrow> uv_loop" where
  "uv__handle_start h l =
     (if flags_of l h AND UV_HANDLE_ACTIVE \<noteq> 0 then l
      else
        let l1 = set_flags h (flags_of l h OR UV_HANDLE_ACTIVE) l in
        if flags_of l1 h AND UV_HANDLE_REF \<noteq> 0 then uv__active_handle_add l1 else l1)"

definition uv__handle_stop :: "nat \<Rightarrow> uv_loop \<Rightarrow> uv_loop" where
  "uv__handle_stop h l =
     (if flags_of l h AND UV_HANDLE_ACTIVE = 0 then l
      else
        let l1 = set_flags h (flags_of l h AND NOT UV_HANDLE_ACTIVE) l in
        if flags_of l1 h AND UV_HANDLE_REF \<noteq> 0 then uv__active_handle_rm l1 else l1)"

definition uv__handle_ref :: "nat \<Rightarrow> uv_loop \<Rightarrow> uv_loop" where
  "uv__handle_ref h l =
     (if flags_of l h AND UV_HANDLE_REF \<noteq> 0 then l
      else
        let l1 = set_flags h (flags_of l h OR UV_HANDLE_REF) l in
        if flags_of l1 h AND UV_HANDLE_CLOSING \<noteq> 0 then l1
        else if flags_of l1 h AND UV_HANDLE_ACTIVE \<noteq> 0 then uv__active_handle_add l1 else l1)"

definition uv__handle_unref :: "nat \<Rightarrow> uv_loop \<Rightarrow> uv_loop" where
  "uv__handle_unref h l =
     (if flags_of l h AND UV_HANDLE_REF = 0 then l
      else
        let l1 = set_flags h (flags_of l h AND NOT UV_HANDLE_REF) l in
        if flags_of l1 h AND UV_HANDLE_CLOSING \<noteq> 0 then l1
        else if flags_of l1 h AND UV_HANDLE_ACTIVE \<noteq> 0 then uv__active_handle_rm l1 else l1)"

definition uv__handle_init :: "nat \<Rightarrow> handle_type \<Rightarrow> uv_loop \<Rightarrow> uv_loop" where
  "uv__handle_init h ty l =
     l\<lparr>handles := (handles l)(h := \<lparr>h_type = ty, flags = UV_HANDLE_REF\<rparr>), handle_queue := handle_queue l @ [h]\<rparr>"

text \<open>\<^verbatim>\<open>uv_ref\<close>, \<^verbatim>\<open>uv_unref\<close>, \<^verbatim>\<open>uv_has_ref\<close> and \<^verbatim>\<open>uv_now\<close> of \<^verbatim>\<open>src/uv-common.c\<close>.\<close>

definition uv_ref :: "nat \<Rightarrow> uv_loop \<Rightarrow> uv_loop" where "uv_ref = uv__handle_ref"
definition uv_unref :: "nat \<Rightarrow> uv_loop \<Rightarrow> uv_loop" where "uv_unref = uv__handle_unref"
definition uv_has_ref :: "uv_loop \<Rightarrow> nat \<Rightarrow> bool" where "uv_has_ref = uv__has_ref"
definition uv_now :: "uv_loop \<Rightarrow> u64" where "uv_now l = time l"

subsection \<open>Flags as bits\<close>

lemma and_bit: "(w :: u32) AND 1 \<noteq> 0 \<longleftrightarrow> bit w 0" "(w :: u32) AND 2 \<noteq> 0 \<longleftrightarrow> bit w 1"
  "(w :: u32) AND 4 \<noteq> 0 \<longleftrightarrow> bit w 2" "(w :: u32) AND 8 \<noteq> 0 \<longleftrightarrow> bit w 3"
  using and_exp_eq_0_iff_not_bit [of w 0] and_exp_eq_0_iff_not_bit [of w 1]
    and_exp_eq_0_iff_not_bit [of w 2] and_exp_eq_0_iff_not_bit [of w 3] by simp_all

lemma bit_const: "bit (4 :: u32) n \<longleftrightarrow> n = 2" "bit (8 :: u32) n \<longleftrightarrow> n = 3"
  using bit_exp_iff [where 'a = "32 word", of 2 n] bit_exp_iff [where 'a = "32 word", of 3 n]
  by (auto simp: possible_bit_def)

definition f_closing :: "u32 \<Rightarrow> bool" where "f_closing f = bit f 0"
definition f_closed :: "u32 \<Rightarrow> bool" where "f_closed f = bit f 1"
definition f_active :: "u32 \<Rightarrow> bool" where "f_active f = bit f 2"
definition f_ref :: "u32 \<Rightarrow> bool" where "f_ref f = bit f 3"

lemma flag_tests [simp]:
  "f AND UV_HANDLE_ACTIVE \<noteq> 0 \<longleftrightarrow> f_active f" "f AND UV_HANDLE_ACTIVE = 0 \<longleftrightarrow> \<not> f_active f"
  "f AND UV_HANDLE_REF \<noteq> 0 \<longleftrightarrow> f_ref f" "f AND UV_HANDLE_REF = 0 \<longleftrightarrow> \<not> f_ref f"
  "f AND UV_HANDLE_CLOSING \<noteq> 0 \<longleftrightarrow> f_closing f" "f AND UV_HANDLE_CLOSING = 0 \<longleftrightarrow> \<not> f_closing f"
  using and_bit [of f]
  by (auto simp: UV_HANDLE_ACTIVE_def UV_HANDLE_REF_def UV_HANDLE_CLOSING_def f_active_def f_ref_def f_closing_def)

lemma flag_updates [simp]:
  "f_active (f OR UV_HANDLE_ACTIVE)" "\<not> f_active (f AND NOT UV_HANDLE_ACTIVE)"
  "f_ref (f OR UV_HANDLE_ACTIVE) = f_ref f" "f_ref (f AND NOT UV_HANDLE_ACTIVE) = f_ref f"
  "f_closing (f OR UV_HANDLE_ACTIVE) = f_closing f" "f_closing (f AND NOT UV_HANDLE_ACTIVE) = f_closing f"
  "f_closed (f OR UV_HANDLE_ACTIVE) = f_closed f" "f_closed (f AND NOT UV_HANDLE_ACTIVE) = f_closed f"
  "f_ref (f OR UV_HANDLE_REF)" "\<not> f_ref (f AND NOT UV_HANDLE_REF)"
  "f_active (f OR UV_HANDLE_REF) = f_active f" "f_active (f AND NOT UV_HANDLE_REF) = f_active f"
  "f_closing (f OR UV_HANDLE_REF) = f_closing f" "f_closing (f AND NOT UV_HANDLE_REF) = f_closing f"
  "f_active UV_HANDLE_REF = False" "f_ref UV_HANDLE_REF" "f_closing UV_HANDLE_REF = False"
  unfolding UV_HANDLE_ACTIVE_def UV_HANDLE_REF_def f_active_def f_ref_def f_closing_def f_closed_def
  by (simp_all only: bit_or_iff bit_and_iff bit_not_iff bit_const) (simp_all add: possible_bit_def)

lemma is_active_flag [simp]: "uv__is_active l h \<longleftrightarrow> f_active (flags_of l h)"
  by (simp add: uv__is_active_def)

lemma has_ref_flag [simp]: "uv__has_ref l h \<longleftrightarrow> f_ref (flags_of l h)"
  by (simp add: uv__has_ref_def)

lemma is_closing_flags: "uv__is_closing l h \<longleftrightarrow> f_closing (flags_of l h) \<or> f_closed (flags_of l h)"
proof -
  have "flags_of l h AND (UV_HANDLE_CLOSING OR UV_HANDLE_CLOSED) = 0 \<longleftrightarrow>
        flags_of l h AND UV_HANDLE_CLOSING = 0 \<and> flags_of l h AND UV_HANDLE_CLOSED = 0"
    unfolding bit.conj_disj_distrib or_eq_0_iff ..
  then show ?thesis
    using and_bit(2) [of "flags_of l h"] by (simp add: uv__is_closing_def f_closed_def) (simp add: UV_HANDLE_CLOSED_def)
qed

subsection \<open>The number of active handles\<close>

text \<open>
  The handles of a loop that are active and referenced. (A closing handle is not counted anew when
  its reference changes, so \<^verbatim>\<open>uv_ref\<close> and \<^verbatim>\<open>uv_unref\<close> keep the number right for handles that are not closing.)
\<close>

definition counted_handles :: "uv_loop \<Rightarrow> nat set" where
  "counted_handles l = {h \<in> set (handle_queue l). f_active (flags_of l h) \<and> f_ref (flags_of l h)}"

definition active_ok :: "uv_loop \<Rightarrow> bool" where
  "active_ok l \<longleftrightarrow> unat (active_handles l) = card (counted_handles l) \<and> length (handle_queue l) < 2 ^ 32"

lemma counted_finite [simp]: "finite (counted_handles l)"
  by (simp add: counted_handles_def)

lemma counted_bound: "card (counted_handles l) \<le> length (handle_queue l)"
proof -
  have "card (counted_handles l) \<le> card (set (handle_queue l))" by (intro card_mono) (auto simp: counted_handles_def)
  then show ?thesis using card_length order_trans by blast
qed

lemma active_add:
  assumes "active_ok l" and "counted_handles l' = insert h (counted_handles l)" and "h \<notin> counted_handles l"
    and "active_handles l' = active_handles l + 1" and "handle_queue l' = handle_queue l"
  shows "active_ok l'"
proof -
  have "card (counted_handles l') = Suc (card (counted_handles l))" using assms(2,3) by simp
  moreover have "card (counted_handles l') \<le> length (handle_queue l)" using counted_bound [of l'] assms(5) by simp
  moreover have "unat (active_handles l + 1) = unat (active_handles l) + 1"
    using assms(1) calculation by (subst unat_add_lem [THEN iffD1]) (auto simp: active_ok_def)
  ultimately show ?thesis using assms by (simp add: active_ok_def)
qed

lemma active_rm:
  assumes "active_ok l" and "counted_handles l' = counted_handles l - {h}" and "h \<in> counted_handles l"
    and "active_handles l' = active_handles l - 1" and "handle_queue l' = handle_queue l"
  shows "active_ok l'"
proof -
  have "card (counted_handles l') = card (counted_handles l) - 1" using assms(2,3) by simp
  moreover have "0 < card (counted_handles l)" using assms(3) by (auto simp: card_gt_0_iff)
  then have "active_handles l \<noteq> 0" using assms(1) by (auto simp: active_ok_def)
  then have "unat (active_handles l - 1) = unat (active_handles l) - 1" by (simp add: unat_minus_one)
  ultimately show ?thesis using assms by (simp add: active_ok_def)
qed

lemma active_same:
  assumes "active_ok l" and "counted_handles l' = counted_handles l"
    and "active_handles l' = active_handles l" and "handle_queue l' = handle_queue l"
  shows "active_ok l'"
  using assms by (simp add: active_ok_def)

lemma set_flags_sel [simp]:
  "handles (set_flags h f l) = (handles l)(h := (handles l h)\<lparr>flags := f\<rparr>)"
  "active_handles (set_flags h f l) = active_handles l" "handle_queue (set_flags h f l) = handle_queue l"
  "timers (set_flags h f l) = timers l" "timer_heap (set_flags h f l) = timer_heap l" "time (set_flags h f l) = time l"
  "timer_counter (set_flags h f l) = timer_counter l"
  by (simp_all add: set_flags_def)

lemma active_handle_sel [simp]:
  "handles (uv__active_handle_add l) = handles l" "active_handles (uv__active_handle_add l) = active_handles l + 1"
  "handle_queue (uv__active_handle_add l) = handle_queue l" "timers (uv__active_handle_add l) = timers l"
  "timer_heap (uv__active_handle_add l) = timer_heap l" "time (uv__active_handle_add l) = time l"
  "timer_counter (uv__active_handle_add l) = timer_counter l"
  "handles (uv__active_handle_rm l) = handles l" "active_handles (uv__active_handle_rm l) = active_handles l - 1"
  "handle_queue (uv__active_handle_rm l) = handle_queue l" "timers (uv__active_handle_rm l) = timers l"
  "timer_heap (uv__active_handle_rm l) = timer_heap l" "time (uv__active_handle_rm l) = time l"
  "timer_counter (uv__active_handle_rm l) = timer_counter l"
  by (simp_all add: uv__active_handle_add_def uv__active_handle_rm_def)

lemma handle_start_active_ok:
  assumes "active_ok l" and "h \<in> set (handle_queue l)"
  shows "active_ok (uv__handle_start h l)"
proof -
  let ?l1 = "set_flags h (flags_of l h OR UV_HANDLE_ACTIVE) l"
  consider "f_active (flags_of l h)" | "\<not> f_active (flags_of l h)" "f_ref (flags_of l h)"
    | "\<not> f_active (flags_of l h)" "\<not> f_ref (flags_of l h)" by blast
  then show ?thesis
  proof cases
    case 1
    then show ?thesis using assms by (simp add: uv__handle_start_def)
  next
    case 2
    then have "uv__handle_start h l = uv__active_handle_add ?l1" by (simp add: uv__handle_start_def Let_def)
    moreover have "counted_handles (uv__active_handle_add ?l1) = insert h (counted_handles l)" "h \<notin> counted_handles l"
      using 2 assms(2) by (auto simp: counted_handles_def)
    ultimately show ?thesis using active_add [OF assms(1)] by simp
  next
    case 3
    then have "uv__handle_start h l = ?l1" by (simp add: uv__handle_start_def Let_def)
    moreover have "counted_handles ?l1 = counted_handles l" using 3 by (auto simp: counted_handles_def)
    ultimately show ?thesis using active_same [OF assms(1)] by simp
  qed
qed

lemma handle_stop_active_ok:
  assumes "active_ok l" and "h \<in> set (handle_queue l)"
  shows "active_ok (uv__handle_stop h l)"
proof -
  let ?l1 = "set_flags h (flags_of l h AND NOT UV_HANDLE_ACTIVE) l"
  consider "\<not> f_active (flags_of l h)" | "f_active (flags_of l h)" "f_ref (flags_of l h)"
    | "f_active (flags_of l h)" "\<not> f_ref (flags_of l h)" by blast
  then show ?thesis
  proof cases
    case 1
    then show ?thesis using assms by (simp add: uv__handle_stop_def)
  next
    case 2
    then have "uv__handle_stop h l = uv__active_handle_rm ?l1" by (simp add: uv__handle_stop_def Let_def)
    moreover have "counted_handles (uv__active_handle_rm ?l1) = counted_handles l - {h}" "h \<in> counted_handles l"
      using 2 assms(2) by (auto simp: counted_handles_def)
    ultimately show ?thesis using active_rm [OF assms(1)] by simp
  next
    case 3
    then have "uv__handle_stop h l = ?l1" by (simp add: uv__handle_stop_def Let_def)
    moreover have "counted_handles ?l1 = counted_handles l" using 3 by (auto simp: counted_handles_def)
    ultimately show ?thesis using active_same [OF assms(1)] by simp
  qed
qed

lemma handle_ref_active_ok:
  assumes "active_ok l" and "h \<in> set (handle_queue l)" and "\<not> f_closing (flags_of l h)"
  shows "active_ok (uv__handle_ref h l)" and "active_ok (uv__handle_unref h l)"
proof -
  let ?l1 = "set_flags h (flags_of l h OR UV_HANDLE_REF) l" and ?l2 = "set_flags h (flags_of l h AND NOT UV_HANDLE_REF) l"
  show "active_ok (uv__handle_ref h l)"
  proof (cases "f_ref (flags_of l h)")
    case False
    show ?thesis
    proof (cases "f_active (flags_of l h)")
      case True
      then have "uv__handle_ref h l = uv__active_handle_add ?l1" using False assms(3) by (simp add: uv__handle_ref_def Let_def)
      moreover have "counted_handles (uv__active_handle_add ?l1) = insert h (counted_handles l)" "h \<notin> counted_handles l"
        using False True assms(2) by (auto simp: counted_handles_def)
      ultimately show ?thesis using active_add [OF assms(1)] by simp
    next
      case na: False
      then have "uv__handle_ref h l = ?l1" using False assms(3) by (simp add: uv__handle_ref_def Let_def)
      moreover have "counted_handles ?l1 = counted_handles l" using False na by (auto simp: counted_handles_def)
      ultimately show ?thesis using active_same [OF assms(1)] by simp
    qed
  qed (use assms in \<open>simp add: uv__handle_ref_def\<close>)
  show "active_ok (uv__handle_unref h l)"
  proof (cases "f_ref (flags_of l h)")
    case True
    show ?thesis
    proof (cases "f_active (flags_of l h)")
      case a: True
      then have "uv__handle_unref h l = uv__active_handle_rm ?l2" using True assms(3) by (simp add: uv__handle_unref_def Let_def)
      moreover have "counted_handles (uv__active_handle_rm ?l2) = counted_handles l - {h}" "h \<in> counted_handles l"
        using True a assms(2) by (auto simp: counted_handles_def)
      ultimately show ?thesis using active_rm [OF assms(1)] by simp
    next
      case False
      then have "uv__handle_unref h l = ?l2" using True assms(3) by (simp add: uv__handle_unref_def Let_def)
      moreover have "counted_handles ?l2 = counted_handles l" using True False by (auto simp: counted_handles_def)
      ultimately show ?thesis using active_same [OF assms(1)] by simp
    qed
  qed (use assms in \<open>simp add: uv__handle_unref_def\<close>)
qed

text \<open>
  C40: Starting, stopping, referencing and unreferencing a handle of the loop keep \<^verbatim>\<open>active_handles\<close> equal to the number
  of handles that are active and referenced (referencing: unless the handle is closing), without wrap-around.
\<close>

theorem active_handles_exact:
  assumes "active_ok l" and "h \<in> set (handle_queue l)"
  shows "active_ok (uv__handle_start h l) \<and> active_ok (uv__handle_stop h l) \<and>
         (f_closing (flags_of l h) \<or> active_ok (uv_ref h l) \<and> active_ok (uv_unref h l))"
  using assms handle_start_active_ok handle_stop_active_ok handle_ref_active_ok
  unfolding uv_ref_def uv_unref_def by blast

definition example_handles :: uv_loop where
  "example_handles =
     uv__handle_init 1 UV_ASYNC
       \<lparr>time = 0, timer_counter = 0, active_handles = 0, handle_queue = [], handles = (\<lambda>_. \<lparr>h_type = UV_other, flags = 0\<rparr>),
        timers = (\<lambda>_. \<lparr>timer_cb = None, timeout = 0, repeat = 0, start_id = 0\<rparr>),
        timer_heap = \<lparr>hmin = None, nelts = 0, nodes = (\<lambda>_. \<lparr>left = None, right = None, parent = None\<rparr>)\<rparr>\<rparr>"

theorem active_handles_exact_witness:
  "active_ok (uv__handle_start 1 example_handles) \<and> active_ok (uv__handle_stop 1 example_handles) \<and>
   (f_closing (flags_of example_handles 1) \<or> active_ok (uv_ref 1 example_handles) \<and> active_ok (uv_unref 1 example_handles))"
  by (rule active_handles_exact)
     (simp_all add: example_handles_def uv__handle_init_def active_ok_def counted_handles_def f_active_def UV_HANDLE_REF_def)

end
