(* ===== verification/Uv_Timer.thy ===== *)
theory Uv_Timer
  imports Uv_Handle
begin

text \<open>
  Timers, \<^verbatim>\<open>src/timer.c\<close>: a heap of the active timers ordered by their expiry, and among equal expiries
  by the order in which they were started. Callbacks act on the loop and on a state of their own
  (type \<open>'u\<close>); an operation gives \<^const>\<open>None\<close> where the C code would follow a null pointer.
\<close>

subsection \<open>Operations\<close>

definition timer_less_than :: "(nat \<Rightarrow> uv_timer) \<Rightarrow> nat \<Rightarrow> nat \<Rightarrow> bool" where
  "timer_less_than tm a b =
     (if timeout (tm a) < timeout (tm b) then True
      else if timeout (tm b) < timeout (tm a) then False
      else start_id (tm a) < start_id (tm b))"

definition upd_timer :: "nat \<Rightarrow> (uv_timer \<Rightarrow> uv_timer) \<Rightarrow> uv_loop \<Rightarrow> uv_loop" where
  "upd_timer h f l = l\<lparr>timers := (timers l)(h := f (timers l h))\<rparr>"

definition uv_timer_init :: "nat \<Rightarrow> uv_loop \<Rightarrow> uv_loop" where
  "uv_timer_init h l = upd_timer h (\<lambda>t. t\<lparr>timer_cb := None, repeat := 0\<rparr>) (uv__handle_init h UV_TIMER l)"

text \<open>The loops of the heap run at most as often as there are nodes.\<close>

definition heap_fuel :: "uv_loop \<Rightarrow> nat" where
  "heap_fuel l = Suc (unat (nelts (timer_heap l)))"

definition uv_timer_stop :: "nat \<Rightarrow> uv_loop \<Rightarrow> uv_loop option" where
  "uv_timer_stop h l =
     (if \<not> uv__is_active l h then Some l
      else
        (case heap_remove (heap_fuel l) (timer_less_than (timers l)) h (timer_heap l) of
           None \<Rightarrow> None
         | Some hp \<Rightarrow> Some (uv__handle_stop h (l\<lparr>timer_heap := hp\<rparr>))))"

definition clamped :: "u64 \<Rightarrow> u64 \<Rightarrow> u64" where
  "clamped now tmo = (let c = now + tmo in if c < tmo then - 1 else c)"

definition uv_timer_start :: "nat \<Rightarrow> nat option \<Rightarrow> u64 \<Rightarrow> u64 \<Rightarrow> uv_loop \<Rightarrow> (uv_error option \<times> uv_loop) option" where
  "uv_timer_start h cb tmo rpt l =
     (if uv__is_closing l h \<or> cb = None then Some (Some UV_EINVAL, l)
      else
        (case (if uv__is_active l h then uv_timer_stop h l else Some l) of
           None \<Rightarrow> None
         | Some l1 \<Rightarrow>
             let l2 = upd_timer h (\<lambda>t. t\<lparr>timer_cb := cb, timeout := clamped (time l1) tmo, repeat := rpt,
                                          start_id := timer_counter l1\<rparr>) l1;
                 l3 = l2\<lparr>timer_counter := timer_counter l2 + 1\<rparr>
             in (case heap_insert (heap_fuel l3) (timer_less_than (timers l3)) h (timer_heap l3) of
                   None \<Rightarrow> None
                 | Some hp \<Rightarrow> Some (None, uv__handle_start h (l3\<lparr>timer_heap := hp\<rparr>)))))"

definition uv_timer_again :: "nat \<Rightarrow> uv_loop \<Rightarrow> (uv_error option \<times> uv_loop) option" where
  "uv_timer_again h l =
     (if timer_cb (timers l h) = None then Some (Some UV_EINVAL, l)
      else if repeat (timers l h) \<noteq> 0 then
        (case uv_timer_stop h l of
           None \<Rightarrow> None
         | Some l1 \<Rightarrow>
             (case uv_timer_start h (timer_cb (timers l1 h)) (repeat (timers l1 h)) (repeat (timers l1 h)) l1 of
                None \<Rightarrow> None
              | Some (_, l2) \<Rightarrow> Some (None, l2)))
      else Some (None, l))"

definition uv_timer_set_repeat :: "nat \<Rightarrow> u64 \<Rightarrow> uv_loop \<Rightarrow> uv_loop" where
  "uv_timer_set_repeat h r l = upd_timer h (\<lambda>t. t\<lparr>repeat := r\<rparr>) l"

definition uv_timer_get_repeat :: "uv_loop \<Rightarrow> nat \<Rightarrow> u64" where
  "uv_timer_get_repeat l h = repeat (timers l h)"

definition INT_MAX :: u64 where "INT_MAX = 0x7FFFFFFF"

definition uv__next_timeout :: "uv_loop \<Rightarrow> int" where
  "uv__next_timeout l =
     (case heap_min (timer_heap l) of
        None \<Rightarrow> - 1
      | Some h \<Rightarrow>
          if timeout (timers l h) \<le> time l then 0
          else
            let diff = timeout (timers l h) - time l
            in uint (if diff > INT_MAX then INT_MAX else diff))"

text \<open>\<^verbatim>\<open>handle->timer_cb(handle)\<close>: \<open>run k h\<close> is what callback number \<open>k\<close> does.\<close>

type_synonym 'u callbacks = "nat \<Rightarrow> nat \<Rightarrow> 'u \<times> uv_loop \<Rightarrow> 'u \<times> uv_loop"

fun uv__run_timers :: "nat \<Rightarrow> 'u callbacks \<Rightarrow> 'u \<times> uv_loop \<Rightarrow> ('u \<times> uv_loop) option" where
  "uv__run_timers fuel run (u, l) =
     (case heap_min (timer_heap l) of
        None \<Rightarrow> Some (u, l)
      | Some h \<Rightarrow>
          if timeout (timers l h) > time l then Some (u, l)
          else
            (case fuel of
               0 \<Rightarrow> None
             | Suc f \<Rightarrow>
                 (case uv_timer_stop h l of
                    None \<Rightarrow> None
                  | Some l1 \<Rightarrow>
                      (case uv_timer_again h l1 of
                         None \<Rightarrow> None
                       | Some (_, l2) \<Rightarrow>
                           (case timer_cb (timers l2 h) of
                              None \<Rightarrow> None
                            | Some k \<Rightarrow> uv__run_timers f run (run k h (u, l2)))))))"

declare uv__run_timers.simps [simp del]

definition uv__timer_close :: "nat \<Rightarrow> uv_loop \<Rightarrow> uv_loop option" where
  "uv__timer_close h l = uv_timer_stop h l"

subsection \<open>The order of the timers\<close>

lemma timer_less_than_iff:
  "timer_less_than tm a b \<longleftrightarrow>
     timeout (tm a) < timeout (tm b) \<or> timeout (tm a) = timeout (tm b) \<and> start_id (tm a) < start_id (tm b)"
  by (auto simp: timer_less_than_def)

interpretation timer_order: heap_order "timer_less_than tm" for tm
  by unfold_locales (auto simp: timer_less_than_iff)

subsection \<open>Invariant\<close>

definition active_timers :: "uv_loop \<Rightarrow> nat set" where
  "active_timers l = {h \<in> set (handle_queue l). h_type (handles l h) = UV_TIMER \<and> f_active (flags_of l h)}"

definition is_timer :: "uv_loop \<Rightarrow> nat \<Rightarrow> bool" where
  "is_timer l h \<longleftrightarrow> h \<in> set (handle_queue l) \<and> h_type (handles l h) = UV_TIMER"

definition timer_inv :: "uv_loop \<Rightarrow> bool" where
  "timer_inv l \<longleftrightarrow>
     heap_holds (timer_less_than (timers l)) (timer_heap l) (active_timers l) \<and> active_ok l \<and>
     (\<forall>h \<in> active_timers l. timer_cb (timers l h) \<noteq> None)"

lemma active_timers_card:
  assumes "timer_inv l"
  shows "card (active_timers l) = unat (nelts (timer_heap l))" and "card (active_timers l) < 2 ^ 32"
    and "is_timer l h \<Longrightarrow> h \<notin> active_timers l \<Longrightarrow> Suc (card (active_timers l)) < 2 ^ 32"
proof -
  show n: "card (active_timers l) = unat (nelts (timer_heap l))"
    using assms heap_holds_card unfolding timer_inv_def by blast
  then show "card (active_timers l) < 2 ^ 32" using unat_bound [of "nelts (timer_heap l)"] by simp
  assume "is_timer l h" and "h \<notin> active_timers l"
  then have "card (insert h (active_timers l)) \<le> card (set (handle_queue l))"
    by (intro card_mono) (auto simp: active_timers_def is_timer_def)
  moreover have "card (insert h (active_timers l)) = Suc (card (active_timers l))"
    using \<open>h \<notin> active_timers l\<close> by (simp add: active_timers_def)
  moreover have "card (set (handle_queue l)) < 2 ^ 32"
    using assms card_length le_less_trans unfolding timer_inv_def active_ok_def by blast
  ultimately show "Suc (card (active_timers l)) < 2 ^ 32" by simp
qed

lemma handle_start_sel [simp]:
  "timers (uv__handle_start h l) = timers l" "timer_heap (uv__handle_start h l) = timer_heap l"
  "time (uv__handle_start h l) = time l" "handle_queue (uv__handle_start h l) = handle_queue l"
  "timer_counter (uv__handle_start h l) = timer_counter l"
  "h_type (handles (uv__handle_start h l) k) = h_type (handles l k)"
  "f_active (flags_of (uv__handle_start h l) k) \<longleftrightarrow> k = h \<or> f_active (flags_of l k)"
  "f_closing (flags_of (uv__handle_start h l) k) = f_closing (flags_of l k)"
  "f_closed (flags_of (uv__handle_start h l) k) = f_closed (flags_of l k)"
  by (auto simp: uv__handle_start_def Let_def)

lemma handle_stop_sel [simp]:
  "timers (uv__handle_stop h l) = timers l" "timer_heap (uv__handle_stop h l) = timer_heap l"
  "time (uv__handle_stop h l) = time l" "handle_queue (uv__handle_stop h l) = handle_queue l"
  "timer_counter (uv__handle_stop h l) = timer_counter l"
  "h_type (handles (uv__handle_stop h l) k) = h_type (handles l k)"
  "f_active (flags_of (uv__handle_stop h l) k) \<longleftrightarrow> k \<noteq> h \<and> f_active (flags_of l k)"
  "f_closing (flags_of (uv__handle_stop h l) k) = f_closing (flags_of l k)"
  "f_closed (flags_of (uv__handle_stop h l) k) = f_closed (flags_of l k)"
  by (auto simp: uv__handle_stop_def Let_def)

lemma active_ok_cong:
  "active_handles l' = active_handles l \<Longrightarrow> handle_queue l' = handle_queue l \<Longrightarrow> handles l' = handles l \<Longrightarrow>
   active_ok l' = active_ok l"
  by (simp add: active_ok_def counted_handles_def)

text \<open>\<^verbatim>\<open>uv_timer_stop\<close> removes the timer and changes nothing else.\<close>

lemma timer_stop_ok:
  assumes inv: "timer_inv l" and h: "is_timer l h"
  obtains l' where "uv_timer_stop h l = Some l'" "timer_inv l'" "active_timers l' = active_timers l - {h}"
    "timers l' = timers l" "time l' = time l" "timer_counter l' = timer_counter l" "is_timer l' = is_timer l"
    "uv__is_closing l' = uv__is_closing l"
proof (cases "f_active (flags_of l h)")
  case False
  then have "uv_timer_stop h l = Some l" by (simp add: uv_timer_stop_def)
  moreover have "active_timers l = active_timers l - {h}" using False by (auto simp: active_timers_def)
  ultimately show ?thesis using that inv by simp
next
  case True
  let ?lt = "timer_less_than (timers l)"
  have hA: "h \<in> active_timers l" using True h by (simp add: active_timers_def is_timer_def)
  have holds: "heap_holds ?lt (timer_heap l) (active_timers l)" using inv by (simp add: timer_inv_def)
  moreover have "card (active_timers l) \<le> heap_fuel l" using active_timers_card(1) [OF inv] by (simp add: heap_fuel_def)
  ultimately obtain hp where hp: "heap_remove (heap_fuel l) ?lt h (timer_heap l) = Some hp"
      "heap_holds ?lt hp (active_timers l - {h})"
    using timer_order.heap_remove_holds [OF _ hA] by blast
  let ?l = "uv__handle_stop h (l\<lparr>timer_heap := hp\<rparr>)"
  have "uv_timer_stop h l = Some ?l" using True hp(1) by (simp add: uv_timer_stop_def)
  moreover have a: "active_timers ?l = active_timers l - {h}" by (auto simp: active_timers_def)
  moreover have "active_ok (l\<lparr>timer_heap := hp\<rparr>)" using inv active_ok_cong [of "l\<lparr>timer_heap := hp\<rparr>" l] by (simp add: timer_inv_def)
  then have "active_ok ?l" using handle_stop_active_ok [of "l\<lparr>timer_heap := hp\<rparr>" h] h by (simp add: is_timer_def)
  then have "timer_inv ?l" using inv hp(2) a by (simp add: timer_inv_def)
  moreover have "is_timer ?l = is_timer l" by (auto simp: is_timer_def)
  moreover have "uv__is_closing ?l = uv__is_closing l" by (auto simp: is_closing_flags)
  ultimately show ?thesis using that by simp
qed

subsection \<open>Starting a timer\<close>

lemma clamped_saturates: "unat (clamped now tmo) = min (unat now + unat tmo) (2 ^ 64 - 1)"
proof (cases "unat now + unat tmo < 2 ^ 64")
  case True
  then have "unat (now + tmo) = unat now + unat tmo" by (subst unat_add_lem [THEN iffD1]) simp_all
  then show ?thesis using True by (simp add: clamped_def Let_def word_less_nat_alt)
next
  case False
  then have "unat (now + tmo) = unat now + unat tmo - 2 ^ 64"
    using unat_bound [of now] unat_bound [of tmo] by (simp add: unat_word_ariths mod_if)
  moreover have "unat (- 1 :: u64) = 2 ^ 64 - 1" by (simp add: unsigned_minus_1_eq_mask mask_eq_exp_minus_1)
  ultimately show ?thesis
    using False unat_bound [of now] by (simp add: clamped_def Let_def word_less_nat_alt)
qed

lemma timer_less_than_upd:
  "x \<noteq> h \<Longrightarrow> y \<noteq> h \<Longrightarrow> timer_less_than (tm(h := t)) x y = timer_less_than tm x y"
  by (simp add: timer_less_than_def)

lemma timer_start_inactive:
  assumes inv: "timer_inv l" and h: "is_timer l h" and "\<not> f_active (flags_of l h)" and "\<not> uv__is_closing l h"
  obtains l' where "uv_timer_start h (Some k) tmo rpt l = Some (None, l')" "timer_inv l'"
    "active_timers l' = insert h (active_timers l)"
    "timers l' = (timers l)(h := (timers l h)\<lparr>timer_cb := Some k, timeout := clamped (time l) tmo, repeat := rpt,
                                              start_id := timer_counter l\<rparr>)"
    "time l' = time l" "timer_counter l' = timer_counter l + 1" "is_timer l' = is_timer l"
    "uv__is_closing l' = uv__is_closing l"
proof -
  let ?t = "(timers l h)\<lparr>timer_cb := Some k, timeout := clamped (time l) tmo, repeat := rpt, start_id := timer_counter l\<rparr>"
  let ?l3 = "l\<lparr>timers := (timers l)(h := ?t), timer_counter := timer_counter l + 1\<rparr>"
  let ?lt = "timer_less_than (timers ?l3)"
  have hA: "h \<notin> active_timers l" using assms(3) by (simp add: active_timers_def)
  have "heap_holds (timer_less_than (timers l)) (timer_heap l) (active_timers l)" using inv by (simp add: timer_inv_def)
  then have "heap_holds ?lt (timer_heap l) (active_timers l)"
    by (rule heap_holds_cong) (use hA timer_less_than_upd in \<open>simp, metis\<close>)
  moreover have "Suc (card (active_timers l)) \<le> heap_fuel ?l3" using active_timers_card(1) [OF inv] by (simp add: heap_fuel_def)
  ultimately obtain hp where hp: "heap_insert (heap_fuel ?l3) ?lt h (timer_heap l) = Some hp"
      "heap_holds ?lt hp (insert h (active_timers l))"
    using timer_order.heap_insert_holds [OF _ hA active_timers_card(3) [OF inv h hA]] by blast
  let ?l = "uv__handle_start h (?l3\<lparr>timer_heap := hp\<rparr>)"
  have "uv_timer_start h (Some k) tmo rpt l = Some (None, ?l)"
    using assms(3,4) hp(1) by (simp add: uv_timer_start_def upd_timer_def Let_def)
  moreover have a: "active_timers ?l = insert h (active_timers l)"
    using h by (auto simp: active_timers_def is_timer_def)
  moreover have "active_ok (?l3\<lparr>timer_heap := hp\<rparr>)"
    using inv active_ok_cong [of "?l3\<lparr>timer_heap := hp\<rparr>" l] by (simp add: timer_inv_def)
  then have "active_ok ?l" using handle_start_active_ok [of "?l3\<lparr>timer_heap := hp\<rparr>" h] h by (simp add: is_timer_def)
  then have "timer_inv ?l" using inv hp(2) a by (simp add: timer_inv_def)
  moreover have "is_timer ?l = is_timer l" by (auto simp: is_timer_def)
  moreover have "uv__is_closing ?l = uv__is_closing l" by (auto simp: is_closing_flags)
  ultimately show ?thesis using that by simp
qed

text \<open>\<^verbatim>\<open>uv_timer_start\<close> stops a running timer first; the new expiry saturates.\<close>

lemma timer_start_ok:
  assumes inv: "timer_inv l" and h: "is_timer l h" and "\<not> uv__is_closing l h"
  obtains l' where "uv_timer_start h (Some k) tmo rpt l = Some (None, l')" "timer_inv l'"
    "active_timers l' = insert h (active_timers l)"
    "timers l' = (timers l)(h := (timers l h)\<lparr>timer_cb := Some k, timeout := clamped (time l) tmo, repeat := rpt,
                                              start_id := timer_counter l\<rparr>)"
    "time l' = time l" "timer_counter l' = timer_counter l + 1" "is_timer l' = is_timer l"
    "uv__is_closing l' = uv__is_closing l"
proof (cases "f_active (flags_of l h)")
  case False
  then show ?thesis using timer_start_inactive [OF inv h False assms(3), of k tmo rpt] that by blast
next
  case True
  obtain l1 where l1: "uv_timer_stop h l = Some l1" "timer_inv l1" "active_timers l1 = active_timers l - {h}"
    "timers l1 = timers l" "time l1 = time l" "timer_counter l1 = timer_counter l" "is_timer l1 = is_timer l"
    "uv__is_closing l1 = uv__is_closing l"
    by (rule timer_stop_ok [OF inv h])
  have na: "\<not> f_active (flags_of l1 h)" using l1(3,7) h by (auto simp: active_timers_def is_timer_def fun_eq_iff)
  obtain l' where l': "uv_timer_start h (Some k) tmo rpt l1 = Some (None, l')" "timer_inv l'"
    "active_timers l' = insert h (active_timers l1)"
    "timers l' = (timers l1)(h := (timers l1 h)\<lparr>timer_cb := Some k, timeout := clamped (time l1) tmo, repeat := rpt,
                                              start_id := timer_counter l1\<rparr>)"
    "time l' = time l1" "timer_counter l' = timer_counter l1 + 1" "is_timer l' = is_timer l1"
    "uv__is_closing l' = uv__is_closing l1"
    using timer_start_inactive [OF l1(2) _ na, of k tmo rpt] h assms(3) l1(7,8) by metis
  have "uv_timer_start h (Some k) tmo rpt l = uv_timer_start h (Some k) tmo rpt l1"
    using True na l1 assms(3) by (simp add: uv_timer_start_def)
  then show ?thesis using that l' l1 by (simp add: insert_absorb)
qed

text \<open>Restarting from the repeat value.\<close>

lemma timer_again_ok:
  assumes inv: "timer_inv l" and h: "is_timer l h" and "timer_cb (timers l h) = Some k" and "\<not> f_active (flags_of l h)"
  obtains l' where "uv_timer_again h l = Some (None, l')" "timer_inv l'"
    "active_timers l' = (if repeat (timers l h) \<noteq> 0 \<and> \<not> uv__is_closing l h then insert h (active_timers l) else active_timers l)"
    "timer_cb (timers l' h) = Some k" "\<And>x. x \<noteq> h \<Longrightarrow> timers l' x = timers l x"
    "h \<in> active_timers l' \<Longrightarrow> timeout (timers l' h) = clamped (time l) (repeat (timers l h))"
    "time l' = time l" "is_timer l' = is_timer l"
proof (cases "repeat (timers l h) \<noteq> 0 \<and> \<not> uv__is_closing l h")
  case True
  have st: "uv_timer_stop h l = Some l" using assms(4) by (simp add: uv_timer_stop_def)
  obtain l' where l': "uv_timer_start h (Some k) (repeat (timers l h)) (repeat (timers l h)) l = Some (None, l')" "timer_inv l'"
    "active_timers l' = insert h (active_timers l)"
    "timers l' = (timers l)(h := (timers l h)\<lparr>timer_cb := Some k, timeout := clamped (time l) (repeat (timers l h)),
        repeat := repeat (timers l h), start_id := timer_counter l\<rparr>)"
    "time l' = time l" "timer_counter l' = timer_counter l + 1" "is_timer l' = is_timer l"
    "uv__is_closing l' = uv__is_closing l"
    using timer_start_ok [OF inv h, of k "repeat (timers l h)" "repeat (timers l h)"] True by metis
  then have "uv_timer_again h l = Some (None, l')" using assms(3) st True by (simp add: uv_timer_again_def)
  then show ?thesis using that l' True by simp
next
  case False
  have "uv_timer_stop h l = Some l" using assms(4) by (simp add: uv_timer_stop_def)
  then have "uv_timer_again h l = Some (None, l)" using assms(3) False by (auto simp: uv_timer_again_def uv_timer_start_def)
  moreover have "h \<notin> active_timers l" using assms(4) by (simp add: active_timers_def)
  ultimately show ?thesis using that [of l] inv assms(3) False by auto
qed

subsection \<open>The next expiry\<close>

lemma heap_min_timer:
  assumes "timer_inv l"
  shows "heap_min (timer_heap l) = None \<longleftrightarrow> active_timers l = {}"
    and "heap_min (timer_heap l) = Some h \<Longrightarrow> h \<in> active_timers l"
    and "heap_min (timer_heap l) = Some h \<Longrightarrow> k \<in> active_timers l \<Longrightarrow> \<not> timer_less_than (timers l) k h"
    and "heap_min (timer_heap l) = Some h \<Longrightarrow> k \<in> active_timers l \<Longrightarrow> timeout (timers l h) \<le> timeout (timers l k)"
proof -
  have H: "heap_holds (timer_less_than (timers l)) (timer_heap l) (active_timers l)" using assms by (simp add: timer_inv_def)
  show "heap_min (timer_heap l) = None \<longleftrightarrow> active_timers l = {}" by (rule timer_order.heap_min_None [OF H])
  show "heap_min (timer_heap l) = Some h \<Longrightarrow> h \<in> active_timers l" by (rule timer_order.heap_min_Some(1) [OF H])
  show *: "heap_min (timer_heap l) = Some h \<Longrightarrow> k \<in> active_timers l \<Longrightarrow> \<not> timer_less_than (timers l) k h"
    by (rule timer_order.heap_min_Some(2) [OF H])
  show "heap_min (timer_heap l) = Some h \<Longrightarrow> k \<in> active_timers l \<Longrightarrow> timeout (timers l h) \<le> timeout (timers l k)"
    using * by (auto simp: timer_less_than_iff)
qed

text \<open>The time until the first expiry, 0 if one has passed, -1 if there is none; at most \<^verbatim>\<open>INT_MAX\<close>.\<close>

lemma next_timeout_eq:
  assumes inv: "timer_inv l"
  shows "uv__next_timeout l =
     (if active_timers l = {} then - 1
      else min (int (Min ((\<lambda>h. unat (timeout (timers l h))) ` active_timers l) - unat (time l))) (2 ^ 31 - 1))"
proof (cases "heap_min (timer_heap l)")
  case None
  then show ?thesis using heap_min_timer(1) [OF inv] by (simp add: uv__next_timeout_def)
next
  case (Some h)
  let ?f = "\<lambda>h. unat (timeout (timers l h))"
  have hA: "h \<in> active_timers l" by (rule heap_min_timer(2) [OF inv Some])
  have fin: "finite (active_timers l)" by (simp add: active_timers_def)
  have "Min (?f ` active_timers l) = ?f h"
    using heap_min_timer(4) [OF inv Some] hA fin by (intro Min_eqI) (auto simp: word_le_nat_alt)
  moreover have "uv__next_timeout l = min (int (?f h - unat (time l))) (2 ^ 31 - 1)"
  proof (cases "timeout (timers l h) \<le> time l")
    case True
    then show ?thesis using Some by (simp add: uv__next_timeout_def word_le_nat_alt)
  next
    case False
    then have d: "unat (timeout (timers l h) - time l) = ?f h - unat (time l)"
      by (intro unat_sub) simp
    have ui: "uint (timeout (timers l h) - time l) = int (?f h - unat (time l))" using d by (metis of_nat_unat)
    show ?thesis
      using False Some d
      by (auto simp: uv__next_timeout_def Let_def INT_MAX_def word_less_nat_alt min_def ui)
  qed
  ultimately show ?thesis using hA by auto
qed

subsection \<open>Running the timers\<close>

definition due_timers :: "uv_loop \<Rightarrow> nat set" where
  "due_timers l = {h \<in> active_timers l. timeout (timers l h) \<le> time l}"

lemma due_none:
  assumes "timer_inv l" and "heap_min (timer_heap l) = None \<or> (\<exists>h. heap_min (timer_heap l) = Some h \<and> timeout (timers l h) > time l)"
  shows "due_timers l = {}"
  using assms(2)
proof
  assume "heap_min (timer_heap l) = None"
  then show ?thesis using heap_min_timer(1) [OF assms(1)] by (simp add: due_timers_def)
next
  assume "\<exists>h. heap_min (timer_heap l) = Some h \<and> timeout (timers l h) > time l"
  then show ?thesis using heap_min_timer(4) [OF assms(1)] by (force simp: due_timers_def)
qed

text \<open>One round: the first timer stops, starts again if it repeats, and is due no more.\<close>

lemma run_timers_round:
  assumes inv: "timer_inv l" and m: "heap_min (timer_heap l) = Some h" and due: "\<not> timeout (timers l h) > time l"
    and now: "time l < - 1"
  obtains l' k where "uv__run_timers (Suc f) run (u, l) = uv__run_timers f run (run k h (u, l'))"
    "timer_inv l'" "timer_cb (timers l h) = Some k" "due_timers l' = due_timers l - {h}" "time l' = time l"
    "\<And>x. x \<noteq> h \<Longrightarrow> timers l' x = timers l x" "is_timer l' = is_timer l"
proof -
  have hA: "h \<in> active_timers l" by (rule heap_min_timer(2) [OF inv m])
  then have h: "is_timer l h" by (simp add: active_timers_def is_timer_def)
  obtain k where k: "timer_cb (timers l h) = Some k" using inv hA by (auto simp: timer_inv_def)
  obtain l1 where l1: "uv_timer_stop h l = Some l1" "timer_inv l1" "active_timers l1 = active_timers l - {h}"
    "timers l1 = timers l" "time l1 = time l" "timer_counter l1 = timer_counter l" "is_timer l1 = is_timer l"
    "uv__is_closing l1 = uv__is_closing l"
    by (rule timer_stop_ok [OF inv h])
  have na: "\<not> f_active (flags_of l1 h)" using l1(3,7) h by (auto simp: active_timers_def is_timer_def fun_eq_iff)
  obtain l2 where l2: "uv_timer_again h l1 = Some (None, l2)" "timer_inv l2"
    "active_timers l2 = (if repeat (timers l1 h) \<noteq> 0 \<and> \<not> uv__is_closing l1 h then insert h (active_timers l1) else active_timers l1)"
    "timer_cb (timers l2 h) = Some k" "\<And>x. x \<noteq> h \<Longrightarrow> timers l2 x = timers l1 x"
    "h \<in> active_timers l2 \<Longrightarrow> timeout (timers l2 h) = clamped (time l1) (repeat (timers l1 h))"
    "time l2 = time l1" "is_timer l2 = is_timer l1"
    using timer_again_ok [OF l1(2) _ _ na, of k] h k l1(4,7) by metis
  have r: "uv__run_timers (Suc f) run (u, l) = uv__run_timers f run (run k h (u, l2))"
    using m due l1(1) l2(1,4) by (simp add: uv__run_timers.simps [of "Suc f"])
  have nd: "h \<notin> due_timers l2"
  proof
    assume "h \<in> due_timers l2"
    then have a: "h \<in> active_timers l2" and t: "timeout (timers l2 h) \<le> time l" by (auto simp: due_timers_def l2(7) l1(5))
    then have "repeat (timers l h) \<noteq> 0" using l2(3) l1(3,4) by (auto split: if_splits)
    then have "0 < unat (repeat (timers l h))" by (simp add: unat_gt_0)
    moreover have "unat (time l) < 2 ^ 64 - 1"
      using now by (simp add: word_less_nat_alt unsigned_minus_1_eq_mask mask_eq_exp_minus_1)
    ultimately have "unat (time l) < unat (timeout (timers l2 h))"
      using l2(6) [OF a] clamped_saturates [of "time l" "repeat (timers l h)"] l1(4,5) by simp
    then show False using t by (simp add: word_le_nat_alt)
  qed
  have eq: "x \<in> due_timers l2 \<longleftrightarrow> x \<in> due_timers l" if "x \<noteq> h" for x
    using that l2(3,5,7) l1(3,4,5) by (auto simp: due_timers_def)
  have d: "due_timers l2 = due_timers l - {h}"
  proof (rule set_eqI)
    fix x
    show "x \<in> due_timers l2 \<longleftrightarrow> x \<in> due_timers l - {h}" using nd eq [of x] by (cases "x = h") auto
  qed
  show ?thesis by (rule that [OF r l2(2) k d]) (simp_all add: l1 l2)
qed

text \<open>
  The callbacks of a test harness: they note the timer and leave the loop alone. With them exactly the
  due timers run, each once, ordered by expiry and then by the order in which they were started, and
  no timer is due afterwards.
\<close>

definition note_timer :: "(nat list) callbacks" where
  "note_timer k h s = (fst s @ [h], snd s)"

lemma run_timers_order:
  assumes "timer_inv l" and "time l < - 1" and "card (due_timers l) \<le> fuel"
  shows "\<exists>ran l'. uv__run_timers fuel note_timer (seen, l) = Some (seen @ ran, l') \<and> timer_inv l' \<and> due_timers l' = {} \<and>
           set ran = due_timers l \<and> distinct ran \<and> sorted_wrt (\<lambda>a b. \<not> timer_less_than (timers l) b a) ran"
  using assms
proof (induction fuel arbitrary: l seen)
  case 0
  have "finite (due_timers l)" by (simp add: due_timers_def active_timers_def)
  then have "due_timers l = {}" using 0(3) by simp
  have "uv__run_timers 0 note_timer (seen, l) = Some (seen, l)"
  proof (cases "heap_min (timer_heap l)")
    case (Some h)
    then have "h \<in> active_timers l" by (rule heap_min_timer(2) [OF 0(1)])
    then have "timeout (timers l h) > time l" using \<open>due_timers l = {}\<close> by (auto simp: due_timers_def)
    then show ?thesis using Some by (simp add: uv__run_timers.simps)
  qed (simp add: uv__run_timers.simps)
  then show ?case using 0(1) \<open>due_timers l = {}\<close> by (intro exI [of _ "[]"] exI [of _ l]) simp
next
  case (Suc fuel)
  show ?case
  proof (cases "heap_min (timer_heap l) = None \<or> (\<exists>h. heap_min (timer_heap l) = Some h \<and> timeout (timers l h) > time l)")
    case True
    then have "uv__run_timers (Suc fuel) note_timer (seen, l) = Some (seen, l)" by (auto simp: uv__run_timers.simps)
    then show ?thesis using Suc.prems(1) due_none [OF Suc.prems(1) True] by (intro exI [of _ "[]"] exI [of _ l]) simp
  next
    case False
    then obtain h where m: "heap_min (timer_heap l) = Some h" and nd: "\<not> timeout (timers l h) > time l" by auto
    obtain l1 k where r: "uv__run_timers (Suc fuel) note_timer (seen, l) = uv__run_timers fuel note_timer (note_timer k h (seen, l1))"
      "timer_inv l1" "timer_cb (timers l h) = Some k" "due_timers l1 = due_timers l - {h}" "time l1 = time l"
      "\<And>x. x \<noteq> h \<Longrightarrow> timers l1 x = timers l x" "is_timer l1 = is_timer l"
      by (rule run_timers_round [OF Suc.prems(1) m nd Suc.prems(2), where f = fuel and run = note_timer and u = seen]) (rule that; assumption)
    have hd: "h \<in> due_timers l" using heap_min_timer(2) [OF Suc.prems(1) m] nd by (simp add: due_timers_def)
    have fin: "finite (due_timers l)" by (simp add: due_timers_def active_timers_def)
    then have "card (due_timers l1) \<le> fuel" using Suc.prems(3) hd by (simp add: r(4))
    then obtain ran l' where IH: "uv__run_timers fuel note_timer (seen @ [h], l1) = Some ((seen @ [h]) @ ran, l')" "timer_inv l'"
      "due_timers l' = {}" "set ran = due_timers l1" "distinct ran" "sorted_wrt (\<lambda>a b. \<not> timer_less_than (timers l1) b a) ran"
      using Suc.IH [OF r(2), of "seen @ [h]"] Suc.prems(2) r(5) by auto
    have nh: "x \<in> set ran \<Longrightarrow> x \<noteq> h" for x using IH(4) r(4) by auto
    have "sorted_wrt (\<lambda>a b. \<not> timer_less_than (timers l) b a) ran"
    proof (rule sorted_wrt_mono_rel [OF _ IH(6)])
      fix a b assume "a \<in> set ran" "b \<in> set ran" "\<not> timer_less_than (timers l1) b a"
      then show "\<not> timer_less_than (timers l) b a" using nh r(6) by (simp add: timer_less_than_iff)
    qed
    moreover have "\<forall>x \<in> set ran. \<not> timer_less_than (timers l) x h"
      using IH(4) r(4) heap_min_timer(3) [OF Suc.prems(1) m] by (auto simp: due_timers_def)
    ultimately have "sorted_wrt (\<lambda>a b. \<not> timer_less_than (timers l) b a) (h # ran)" by simp
    moreover have "set (h # ran) = due_timers l" "distinct (h # ran)" using IH(4,5) r(4) hd by auto
    moreover have "uv__run_timers (Suc fuel) note_timer (seen, l) = Some (seen @ (h # ran), l')"
      using r(1) IH(1) by (simp add: note_timer_def)
    ultimately show ?thesis using IH(2,3) by blast
  qed
qed

lemma finite_due: "finite (due_timers l)"
  by (simp add: due_timers_def active_timers_def)

text \<open>Callbacks that keep the invariant and the time and make no timer due, and are logged.\<close>

definition well_behaved :: "'u callbacks \<Rightarrow> ('u \<Rightarrow> nat list) \<Rightarrow> bool" where
  "well_behaved run log \<longleftrightarrow>
     (\<forall>k h u l. timer_inv l \<longrightarrow> time l < - 1 \<longrightarrow>
        (case run k h (u, l) of (u', l') \<Rightarrow> timer_inv l' \<and> time l' = time l \<and> due_timers l' \<subseteq> due_timers l \<and> log u' = log u @ [h]))"

lemma run_timers_drains:
  assumes cb: "well_behaved run log"
  shows "timer_inv l \<Longrightarrow> time l < - 1 \<Longrightarrow> card (due_timers l) \<le> fuel \<Longrightarrow>
    \<exists>u' l' ran. uv__run_timers fuel run (u, l) = Some (u', l') \<and> timer_inv l' \<and> time l' = time l \<and> due_timers l' = {} \<and>
      log u' = log u @ ran \<and> distinct ran \<and> set ran \<subseteq> due_timers l"
proof (induction fuel arbitrary: u l)
  case 0
  then have d: "due_timers l = {}" using finite_due by simp
  have "uv__run_timers 0 run (u, l) = Some (u, l)"
  proof (cases "heap_min (timer_heap l)")
    case (Some h)
    then have "timeout (timers l h) > time l" using heap_min_timer(2) [OF 0(1) Some] d by (auto simp: due_timers_def)
    then show ?thesis using Some by (simp add: uv__run_timers.simps)
  qed (simp add: uv__run_timers.simps)
  then show ?case using 0(1) d by simp
next
  case (Suc fuel)
  show ?case
  proof (cases "heap_min (timer_heap l) = None \<or> (\<exists>h. heap_min (timer_heap l) = Some h \<and> timeout (timers l h) > time l)")
    case True
    then have "uv__run_timers (Suc fuel) run (u, l) = Some (u, l)" by (auto simp: uv__run_timers.simps)
    then show ?thesis using Suc.prems(1) due_none [OF Suc.prems(1) True] by simp
  next
    case False
    then obtain h where m: "heap_min (timer_heap l) = Some h" and nd: "\<not> timeout (timers l h) > time l" by auto
    obtain l1 k where r: "uv__run_timers (Suc fuel) run (u, l) = uv__run_timers fuel run (run k h (u, l1))"
      "timer_inv l1" "timer_cb (timers l h) = Some k" "due_timers l1 = due_timers l - {h}" "time l1 = time l"
      "\<And>x. x \<noteq> h \<Longrightarrow> timers l1 x = timers l x" "is_timer l1 = is_timer l"
      by (rule run_timers_round [OF Suc.prems(1) m nd Suc.prems(2), where f = fuel and run = run and u = u]) (rule that; assumption)
    have hd: "h \<in> due_timers l" using heap_min_timer(2) [OF Suc.prems(1) m] nd by (simp add: due_timers_def)
    obtain u2 l2 where c: "run k h (u, l1) = (u2, l2)" by fastforce
    then have c2: "timer_inv l2" "time l2 = time l" "due_timers l2 \<subseteq> due_timers l - {h}" "log u2 = log u @ [h]"
      using cb [unfolded well_behaved_def, rule_format, OF r(2), where k = k and h = h and u = u] r(4,5) Suc.prems(2) by auto
    have "card (due_timers l2) \<le> card (due_timers l - {h})" by (rule card_mono [OF _ c2(3)]) (simp add: finite_due)
    then have "card (due_timers l2) \<le> fuel" using hd Suc.prems(3) finite_due [of l] by simp
    then obtain u' l' ran where "uv__run_timers fuel run (u2, l2) = Some (u', l')" "timer_inv l'" "time l' = time l" "due_timers l' = {}"
        "log u' = log u @ h # ran" "distinct ran" "set ran \<subseteq> due_timers l2"
      using Suc.IH [OF c2(1), of u2] Suc.prems(2) c2(2,4) by auto
    then show ?thesis using r(1) c c2(3) hd by (intro exI [of _ u'] exI [of _ l'] exI [of _ "h # ran"]) auto
  qed
qed

subsection \<open>Initialisation\<close>

lemma timer_init_ok:
  assumes "timer_inv l" and "h \<notin> set (handle_queue l)" and "Suc (length (handle_queue l)) < 2 ^ 32"
  shows "timer_inv (uv_timer_init h l)" and "is_timer (uv_timer_init h l) h"
    and "active_timers (uv_timer_init h l) = active_timers l" and "\<not> uv__is_closing (uv_timer_init h l) h"
    and "time (uv_timer_init h l) = time l"
proof -
  let ?l = "uv_timer_init h l"
  have hA: "h \<notin> active_timers l" using assms(2) by (simp add: active_timers_def)
  have a: "active_timers ?l = active_timers l"
    using assms(2) by (auto simp: active_timers_def uv_timer_init_def uv__handle_init_def upd_timer_def)
  have c: "counted_handles ?l = counted_handles l"
    using assms(2) by (auto simp: counted_handles_def uv_timer_init_def uv__handle_init_def upd_timer_def)
  have "heap_holds (timer_less_than (timers l)) (timer_heap l) (active_timers l)" using assms(1) by (simp add: timer_inv_def)
  then have "heap_holds (timer_less_than (timers ?l)) (timer_heap l) (active_timers l)"
  proof (rule heap_holds_cong)
    fix x y assume "x \<in> active_timers l" "y \<in> active_timers l"
    then have "x \<noteq> h" "y \<noteq> h" using hA by auto
    then show "timer_less_than (timers l) x y = timer_less_than (timers ?l) x y"
      by (simp add: timer_less_than_iff uv_timer_init_def uv__handle_init_def upd_timer_def)
  qed
  moreover have "active_ok ?l"
    using assms(1,3) c by (simp add: timer_inv_def active_ok_def uv_timer_init_def uv__handle_init_def upd_timer_def)
  moreover have "\<forall>x \<in> active_timers ?l. timer_cb (timers ?l x) \<noteq> None"
    using assms(1) hA a by (auto simp: timer_inv_def uv_timer_init_def uv__handle_init_def upd_timer_def)
  moreover have "timer_heap ?l = timer_heap l" by (simp add: uv_timer_init_def uv__handle_init_def upd_timer_def)
  ultimately show "timer_inv ?l" using a by (simp add: timer_inv_def)
  show "is_timer ?l h" by (simp add: is_timer_def uv_timer_init_def uv__handle_init_def upd_timer_def)
  show "active_timers ?l = active_timers l" by (rule a)
  have "f_closed UV_HANDLE_REF = False" by (simp add: f_closed_def UV_HANDLE_REF_def bit_const)
  then show "\<not> uv__is_closing ?l h"
    by (simp add: is_closing_flags uv_timer_init_def uv__handle_init_def upd_timer_def)
  show "time ?l = time l" by (simp add: uv_timer_init_def uv__handle_init_def upd_timer_def)
qed

text \<open>An empty loop.\<close>

definition empty_loop :: "u64 \<Rightarrow> uv_loop" where
  "empty_loop now =
     \<lparr>time = now, timer_counter = 0, active_handles = 0, handle_queue = [],
      handles = (\<lambda>_. \<lparr>h_type = UV_other, flags = 0\<rparr>),
      timers = (\<lambda>_. \<lparr>timer_cb = None, timeout = 0, repeat = 0, start_id = 0\<rparr>),
      timer_heap = \<lparr>hmin = None, nelts = 0, nodes = (\<lambda>_. \<lparr>left = None, right = None, parent = None\<rparr>)\<rparr>\<rparr>"

lemma empty_loop_inv: "timer_inv (empty_loop now)"
proof -
  have "timer_heap (empty_loop now) = heap_init (timer_heap (empty_loop now))" by (simp add: empty_loop_def heap_init_def)
  then have "heap_holds lt (timer_heap (empty_loop now)) {}" for lt by (metis heap_init_holds)
  moreover have "active_timers (empty_loop now) = {}" by (simp add: active_timers_def empty_loop_def)
  ultimately show ?thesis by (simp add: timer_inv_def active_ok_def counted_handles_def) (simp add: empty_loop_def)
qed

subsection \<open>Draining a heap\<close>

fun heap_insert_all :: "nat \<Rightarrow> (node \<Rightarrow> node \<Rightarrow> bool) \<Rightarrow> node list \<Rightarrow> heap \<Rightarrow> heap option" where
  "heap_insert_all fuel lt [] h = Some h"
| "heap_insert_all fuel lt (a # as) h =
     (case heap_insert fuel lt a h of None \<Rightarrow> None | Some h' \<Rightarrow> heap_insert_all fuel lt as h')"

fun heap_drain :: "nat \<Rightarrow> (node \<Rightarrow> node \<Rightarrow> bool) \<Rightarrow> nat \<Rightarrow> heap \<Rightarrow> node list option" where
  "heap_drain fuel lt 0 h = Some []"
| "heap_drain fuel lt (Suc n) h =
     (case heap_min h of
        None \<Rightarrow> Some []
      | Some a \<Rightarrow> (case heap_dequeue fuel lt h of
                     None \<Rightarrow> None
                   | Some h' \<Rightarrow> map_option (Cons a) (heap_drain fuel lt n h')))"

context heap_order
begin

lemma insert_all_holds:
  assumes "heap_holds lt h A" and "distinct as" and "set as \<inter> A = {}" and "card A + length as < 2 ^ 32"
    and "card A + length as \<le> fuel"
  shows "\<exists>h'. heap_insert_all fuel lt as h = Some h' \<and> heap_holds lt h' (A \<union> set as)"
  using assms
proof (induction as arbitrary: h A)
  case (Cons a as)
  have fin: "finite A" using Cons.prems(1) heap_holds_card by blast
  obtain h1 where h1: "heap_insert fuel lt a h = Some h1" "heap_holds lt h1 (insert a A)"
    using heap_insert_holds [OF Cons.prems(1), of a fuel] Cons.prems by auto
  have "card (insert a A) = Suc (card A)" using fin Cons.prems(3) by simp
  then show ?case using Cons.IH [OF h1(2)] Cons.prems h1(1) by auto
qed simp

lemma drain_sorted:
  assumes "heap_holds lt h A" and "card A \<le> n" and "card A \<le> fuel"
  shows "\<exists>xs. heap_drain fuel lt n h = Some xs \<and> set xs = A \<and> distinct xs \<and> sorted_wrt (\<lambda>a b. \<not> lt b a) xs"
  using assms
proof (induction n arbitrary: h A)
  case 0
  then have "A = {}" using heap_holds_card by fastforce
  then show ?case by simp
next
  case (Suc n)
  show ?case
  proof (cases "heap_min h")
    case None
    then show ?thesis using heap_min_None [OF Suc.prems(1)] by simp
  next
    case (Some a)
    have a: "a \<in> A" "\<And>b. b \<in> A \<Longrightarrow> \<not> lt b a" using heap_min_Some [OF Suc.prems(1) Some] by auto
    have fin: "finite A" using Suc.prems(1) heap_holds_card by blast
    obtain h1 where h1: "heap_remove fuel lt a h = Some h1" "heap_holds lt h1 (A - {a})"
      using heap_remove_holds [OF Suc.prems(1) a(1) Suc.prems(3)] by blast
    have "card (A - {a}) \<le> n" "card (A - {a}) \<le> fuel" using a(1) fin Suc.prems(2,3) by auto
    then obtain xs where xs: "heap_drain fuel lt n h1 = Some xs" "set xs = A - {a}" "distinct xs" "sorted_wrt (\<lambda>a b. \<not> lt b a) xs"
      using Suc.IH [OF h1(2)] by blast
    have "heap_dequeue fuel lt h = Some h1" using Some h1(1) by (simp add: heap_dequeue_def heap_min_def)
    then show ?thesis using Some xs a by auto
  qed
qed

end

text \<open>
  C32: The binary heap of \<^verbatim>\<open>heap-inl.h\<close>, ordered as the timers are: inserting any distinct nodes into an empty heap
  and taking the minimum out until the heap is empty returns every node exactly once, in order. Every operation
  returns within as many steps of its loops as there are nodes.
\<close>

theorem heap_sorts:
  assumes "distinct as" and "length as < 2 ^ 32"
  shows "\<exists>h' xs. heap_insert_all (length as) (timer_less_than tm) as (heap_init h) = Some h' \<and>
                 heap_drain (length as) (timer_less_than tm) (length as) h' = Some xs \<and>
                 set xs = set as \<and> distinct xs \<and> sorted_wrt (\<lambda>a b. \<not> timer_less_than tm b a) xs"
proof -
  obtain h' where h': "heap_insert_all (length as) (timer_less_than tm) as (heap_init h) = Some h'"
      "heap_holds (timer_less_than tm) h' (set as)"
    using timer_order.insert_all_holds [OF heap_init_holds, of as "length as" tm h] assms by auto
  then show ?thesis
    using timer_order.drain_sorted [OF h'(2), of "length as" "length as"] distinct_card [OF assms(1)] by auto
qed

definition example_timers :: "nat \<Rightarrow> uv_timer" where
  "example_timers h = \<lparr>timer_cb = Some h, timeout = of_nat (10 * (h mod 3)), repeat = 0, start_id = of_nat h\<rparr>"

definition example_heap :: heap where
  "example_heap = \<lparr>hmin = None, nelts = 0, nodes = (\<lambda>_. \<lparr>left = None, right = None, parent = None\<rparr>)\<rparr>"

theorem heap_sorts_witness:
  "\<exists>h' xs. heap_insert_all (length [5, 2, 7, 3 :: node]) (timer_less_than example_timers) [5, 2, 7, 3] (heap_init example_heap) = Some h' \<and>
     heap_drain (length [5, 2, 7, 3 :: node]) (timer_less_than example_timers) (length [5, 2, 7, 3 :: node]) h' = Some xs \<and>
     set xs = set [5, 2, 7, 3] \<and> distinct xs \<and> sorted_wrt (\<lambda>a b. \<not> timer_less_than example_timers b a) xs"
  by (rule heap_sorts) simp_all

text \<open>
  \<^verbatim>\<open>heap_remove\<close> takes any node out of the heap, not only the minimum: the other nodes stay, the links, the
  completeness of the tree and the heap order hold again, and \<^verbatim>\<open>nelts\<close> is one less.
\<close>

lemma heap_remove_any:
  assumes "heap_holds (timer_less_than tm) h A" and "a \<in> A"
  shows "\<exists>h'. heap_remove (card A) (timer_less_than tm) a h = Some h' \<and>
              heap_holds (timer_less_than tm) h' (A - {a}) \<and> nelts h' = nelts h - 1"
proof -
  obtain h' where h': "heap_remove (card A) (timer_less_than tm) a h = Some h'" "heap_holds (timer_less_than tm) h' (A - {a})"
    using timer_order.heap_remove_holds [OF assms le_refl] by blast
  have c: "finite A" "card A = unat (nelts h)" "card (A - {a}) = unat (nelts h')"
    using heap_holds_card [OF assms(1)] heap_holds_card [OF h'(2)] by auto
  then have "unat (nelts h') = unat (nelts h) - 1" "unat (nelts h) \<noteq> 0"
    using assms(2) card_gt_0_iff [of A] by auto
  then have "nelts h' = nelts h - 1" by (metis unat_minus_one unat_eq_zero word_unat_eq_iff)
  then show ?thesis using h' by blast
qed

text \<open>
  \<^verbatim>\<open>uv_timer_start\<close> on a timer that is not closing succeeds, running or not: the timer is active afterwards, it
  expires at the loop time plus the timeout, saturated at \<open>2\<^sup>6\<^sup>4 - 1\<close> instead of wrapping around, no other timer
  changes, and the invariant of the loop holds (the heap holds exactly the active timers, and
  \<^verbatim>\<open>active_handles\<close> is their number together with the other active handles).
\<close>

lemma uv_timer_start_spec:
  assumes "timer_inv l" and "is_timer l h" and "\<not> uv__is_closing l h"
  shows "\<exists>l'. uv_timer_start h (Some k) tmo rpt l = Some (None, l') \<and> timer_inv l' \<and>
              active_timers l' = insert h (active_timers l) \<and> timer_cb (timers l' h) = Some k \<and>
              unat (timeout (timers l' h)) = min (unat (time l) + unat tmo) (2 ^ 64 - 1) \<and>
              repeat (timers l' h) = rpt \<and> (\<forall>x. x = h \<or> timers l' x = timers l x)"
  by (rule timer_start_ok [OF assms, of k tmo rpt]) (auto simp: clamped_saturates)

definition one_timer :: uv_loop where
  "one_timer = uv_timer_init 1 (empty_loop 5)"

lemma one_timer_ok: "timer_inv one_timer" "is_timer one_timer 1" "\<not> uv__is_closing one_timer 1" "time one_timer = 5"
  using timer_init_ok [OF empty_loop_inv [of 5], of 1] by (simp_all add: one_timer_def empty_loop_def)

text \<open>
  \<^verbatim>\<open>uv_timer_stop\<close> on any timer, running or not, leaves it inactive and out of the heap, changes no other
  timer and keeps the invariant of the loop.
\<close>

lemma uv_timer_stop_spec:
  assumes "timer_inv l" and "is_timer l h"
  shows "\<exists>l'. uv_timer_stop h l = Some l' \<and> timer_inv l' \<and> active_timers l' = active_timers l - {h} \<and>
              \<not> uv__is_active l' h \<and> timers l' = timers l"
proof (rule timer_stop_ok [OF assms])
  fix l' assume "uv_timer_stop h l = Some l'" "timer_inv l'" "active_timers l' = active_timers l - {h}"
    "timers l' = timers l" "is_timer l' = is_timer l"
  moreover then have "\<not> uv__is_active l' h" using assms(2) by (auto simp: active_timers_def is_timer_def fun_eq_iff)
  ultimately show ?thesis by blast
qed


lemma started_timer:
  obtains l where "uv_timer_start 1 (Some 7) 0 2 one_timer = Some (None, l)" "timer_inv l" "time l < - 1"
    "due_timers l = {1}"
proof (rule timer_start_ok [OF one_timer_ok(1-3), of 7 0 2])
  fix l assume l: "uv_timer_start 1 (Some 7) 0 2 one_timer = Some (None, l)" "timer_inv l"
    "active_timers l = insert 1 (active_timers one_timer)"
    "timers l = (timers one_timer)(1 := (timers one_timer 1)\<lparr>timer_cb := Some 7, timeout := clamped (time one_timer) 0, repeat := 2,
                                              start_id := timer_counter one_timer\<rparr>)"
    "time l = time one_timer"
  have "active_timers one_timer = {}"
    using timer_init_ok(3) [OF empty_loop_inv [of 5], of 1] by (simp add: one_timer_def empty_loop_def active_timers_def)
  then have "due_timers l = {1}" using l by (auto simp: due_timers_def one_timer_ok(4) clamped_def)
  then show ?thesis using that l by (simp add: one_timer_ok(4))
qed


lemma start_not_due:
  assumes "timer_inv l" and "is_timer l h" and "\<not> uv__is_closing l h" and "time l < - 1" and "0 < tmo"
  shows "\<exists>l'. uv_timer_start h (Some k) tmo rpt l = Some (None, l') \<and> timer_inv l' \<and> time l' = time l \<and> due_timers l' \<subseteq> due_timers l"
proof (rule timer_start_ok [OF assms(1-3), of k tmo rpt])
  fix l' assume l: "uv_timer_start h (Some k) tmo rpt l = Some (None, l')" "timer_inv l'" "active_timers l' = insert h (active_timers l)"
    "timers l' = (timers l)(h := (timers l h)\<lparr>timer_cb := Some k, timeout := clamped (time l) tmo, repeat := rpt, start_id := timer_counter l\<rparr>)"
    "time l' = time l"
  have "unat (time l) < 2 ^ 64 - 1" using assms(4) by (simp add: word_less_nat_alt unsigned_minus_1_eq_mask mask_eq_exp_minus_1)
  then have "time l < clamped (time l) tmo" using clamped_saturates [of "time l" tmo] assms(5) by (simp add: word_less_nat_alt)
  then have "due_timers l' \<subseteq> due_timers l" using l by (auto simp: due_timers_def split: if_splits)
  then show ?thesis using l by blast
qed

lemma stop_not_due:
  assumes "timer_inv l" and "is_timer l h"
  shows "\<exists>l'. uv_timer_stop h l = Some l' \<and> timer_inv l' \<and> time l' = time l \<and> due_timers l' \<subseteq> due_timers l"
  by (rule timer_stop_ok [OF assms]) (auto simp: due_timers_def)

text \<open>A program of three timers: the callback of the first starts the second ten milliseconds later and stops the third.\<close>

definition chain_start :: "uv_loop \<Rightarrow> uv_loop" where
  "chain_start l =
     (if is_timer l 2 \<and> \<not> uv__is_closing l 2 then case uv_timer_start 2 (Some 8) 10 0 l of Some (_, l') \<Rightarrow> l' | None \<Rightarrow> l else l)"

definition chain_stop :: "uv_loop \<Rightarrow> uv_loop" where
  "chain_stop l = (if is_timer l 3 then case uv_timer_stop 3 l of Some l' \<Rightarrow> l' | None \<Rightarrow> l else l)"

definition chain_cb :: "nat list callbacks" where
  "chain_cb k h s = (fst s @ [h], if h = 1 then chain_stop (chain_start (snd s)) else snd s)"

lemma chain_well_behaved: "well_behaved chain_cb (\<lambda>u. u)"
proof -
  have a: "timer_inv (chain_start l) \<and> time (chain_start l) = time l \<and> due_timers (chain_start l) \<subseteq> due_timers l" if i: "timer_inv l" and t: "time l < - 1" for l
  proof (cases "is_timer l 2 \<and> \<not> uv__is_closing l 2")
    case True
    then obtain l' where "uv_timer_start 2 (Some 8) 10 0 l = Some (None, l')" "timer_inv l'" "time l' = time l" "due_timers l' \<subseteq> due_timers l"
      using start_not_due [OF i _ _ t, of 2 10 8 0] by auto
    then show ?thesis using True by (simp add: chain_start_def)
  qed (use i in \<open>auto simp: chain_start_def\<close>)
  have b: "timer_inv (chain_stop l) \<and> time (chain_stop l) = time l \<and> due_timers (chain_stop l) \<subseteq> due_timers l" if i: "timer_inv l" for l
  proof (cases "is_timer l 3")
    case True
    then obtain l' where "uv_timer_stop 3 l = Some l'" "timer_inv l'" "time l' = time l" "due_timers l' \<subseteq> due_timers l"
      using stop_not_due [OF i True] by auto
    then show ?thesis using True by (simp add: chain_stop_def)
  qed (use i in \<open>auto simp: chain_stop_def\<close>)
  have "timer_inv (chain_stop (chain_start l)) \<and> time (chain_stop (chain_start l)) = time l \<and> due_timers (chain_stop (chain_start l)) \<subseteq> due_timers l"
    if "timer_inv l" "time l < - 1" for l
    using a [OF that] b [of "chain_start l"] by auto
  then show ?thesis by (simp add: well_behaved_def chain_cb_def)
qed

text \<open>
  C35: Callbacks may start, stop and restart timers, as long as each keeps the invariant of the loop and its time and makes no timer due at once (\<^verbatim>\<open>uv_timer_start\<close> with a
  positive timeout and \<^verbatim>\<open>uv_timer_stop\<close> do not). Then \<^verbatim>\<open>uv__run_timers\<close> returns after at most as many rounds as there are due timers; every timer that is active then
  expires later than the loop time; and the timers that were called were due at the start and are called at most once.
\<close>

theorem uv__run_timers_drains:
  assumes "timer_inv l" and "time l < - 1" and "card (due_timers l) \<le> fuel" and "well_behaved run log"
  shows "\<exists>u' l' ran. uv__run_timers fuel run (u, l) = Some (u', l') \<and> timer_inv l' \<and> time l' = time l \<and>
           (\<forall>h \<in> active_timers l'. time l' < timeout (timers l' h)) \<and>
           log u' = log u @ ran \<and> distinct ran \<and> set ran \<subseteq> due_timers l"
proof -
  obtain u' l' ran where "uv__run_timers fuel run (u, l) = Some (u', l')" "timer_inv l'" "time l' = time l" "due_timers l' = {}"
      "log u' = log u @ ran" "distinct ran" "set ran \<subseteq> due_timers l"
    using run_timers_drains [OF assms(4,1-3), of u] by blast
  then show ?thesis by (intro exI [of _ u'] exI [of _ l'] exI [of _ ran]) (auto simp: due_timers_def not_le)
qed


definition three_timers :: uv_loop where
  "three_timers =
     snd (the (uv_timer_start 3 (Some 9) 0 0 (snd (the (uv_timer_start 1 (Some 7) 0 2
       (uv_timer_init 3 (uv_timer_init 2 (uv_timer_init 1 (empty_loop 5)))))))))"

lemma three_timers_ok: "timer_inv three_timers" "time three_timers < - 1" "card (due_timers three_timers) \<le> 2"
proof -
  let ?l0 = "uv_timer_init 3 (uv_timer_init 2 (uv_timer_init 1 (empty_loop 5)))"
  have q: "handle_queue (empty_loop 5) = []" "handle_queue (uv_timer_init 1 (empty_loop 5)) = [1]"
    "handle_queue (uv_timer_init 2 (uv_timer_init 1 (empty_loop 5))) = [1, 2]" by code_simp+
  have i1: "timer_inv (uv_timer_init 1 (empty_loop 5))" using timer_init_ok(1) [OF empty_loop_inv] q(1) by simp
  have i2: "timer_inv (uv_timer_init 2 (uv_timer_init 1 (empty_loop 5)))" using timer_init_ok(1) [OF i1] q(2) by simp
  have i0: "timer_inv ?l0" using timer_init_ok(1) [OF i2] q(3) by simp
  have t: "is_timer ?l0 1" "\<not> uv__is_closing ?l0 1" by (unfold is_timer_def) code_simp+
  obtain l1 where l1: "uv_timer_start 1 (Some 7) 0 2 ?l0 = Some (None, l1)" "timer_inv l1"
    by (rule timer_start_ok [OF i0 t, of 7 0 2]) blast
  have e1: "l1 = snd (the (uv_timer_start 1 (Some 7) 0 2 ?l0))" using l1(1) by simp
  have "is_timer l1 3" "\<not> uv__is_closing l1 3" unfolding e1 by (unfold is_timer_def) code_simp+
  then obtain l2 where l2: "uv_timer_start 3 (Some 9) 0 0 l1 = Some (None, l2)" "timer_inv l2"
    by (rule timer_start_ok [OF l1(2), of 3 9 0 0]) blast
  have e: "three_timers = l2" unfolding three_timers_def e1 [symmetric] l2(1) by simp
  then show "timer_inv three_timers" using l2(2) by simp
  show "time three_timers < - 1" by code_simp
  have "handle_queue three_timers = [1, 2, 3]" "\<not> f_active (flags_of three_timers 2)" by code_simp+
  then have "due_timers three_timers \<subseteq> {1, 3}" by (auto simp: due_timers_def active_timers_def)
  then show "card (due_timers three_timers) \<le> 2" using card_mono [of "{1 :: nat, 3}" "due_timers three_timers"] by simp
qed

lemma chain_runs: "map_option fst (uv__run_timers 2 chain_cb ([], three_timers)) = Some [1]"
  "map_option (\<lambda>s. filter (uv__is_active (snd s)) [1, 2, 3]) (uv__run_timers 2 chain_cb ([], three_timers)) = Some [1, 2]"
  unfolding chain_cb_def chain_start_def chain_stop_def is_timer_def by code_simp+

theorem uv__run_timers_drains_witness:
  "\<exists>l'. uv__run_timers 2 chain_cb ([], three_timers) = Some ([1], l') \<and> filter (uv__is_active l') [1, 2, 3] = [1, 2] \<and>
     timer_inv l' \<and> (\<forall>h \<in> active_timers l'. time l' < timeout (timers l' h)) \<and> 1 \<in> due_timers three_timers"
proof -
  obtain u' l' ran where r: "uv__run_timers 2 chain_cb ([], three_timers) = Some (u', l')" "timer_inv l'"
      "\<forall>h \<in> active_timers l'. time l' < timeout (timers l' h)" "u' = [] @ ran" "set ran \<subseteq> due_timers three_timers"
    using uv__run_timers_drains [OF three_timers_ok chain_well_behaved, of "[]"] by blast
  have "u' = [1]" using chain_runs(1) unfolding r(1) by simp
  moreover have "filter (uv__is_active l') [1, 2, 3] = [1, 2]" using chain_runs(2) unfolding r(1) option.map option.inject snd_conv .
  ultimately show ?thesis using r by auto
qed

text \<open>
  \<^verbatim>\<open>uv__next_timeout\<close> is -1 without active timers; otherwise the time until the earliest expiry among all active
  timers, 0 when it has passed and at most \<^verbatim>\<open>INT_MAX\<close>.
\<close>

lemma uv__next_timeout_spec:
  assumes "timer_inv l"
  shows "uv__next_timeout l =
     (if active_timers l = {} then - 1
      else min (int (Min ((\<lambda>h. unat (timeout (timers l h))) ` active_timers l) - unat (time l))) (2 ^ 31 - 1))"
  by (rule next_timeout_eq [OF assms])

end
