(* ===== verification/Uv_Watcher.thy ===== *)
theory Uv_Watcher
  imports Uv_Timer Uv_Queue
begin

text \<open>
  Prepare, check and idle watchers, \<^verbatim>\<open>src/unix/loop-watcher.c\<close>: one macro expanded for three handle
  types. The queues of the loop, the queue node in each handle and the local variable \<^verbatim>\<open>queue\<close> of
  \<^verbatim>\<open>uv__run_...\<close> are addresses of one memory of queue nodes.
\<close>

datatype watch_addr = Watch_head handle_type | Watch_local | Watch_node nat

record watch_loop =
  w_loop :: uv_loop
  w_queue :: "watch_addr queue_mem"
  w_cb :: "nat \<Rightarrow> nat option"

subsection \<open>Operations\<close>

definition uv_watcher_init :: "handle_type \<Rightarrow> nat \<Rightarrow> watch_loop \<Rightarrow> watch_loop" where
  "uv_watcher_init ty h s = s\<lparr>w_loop := uv__handle_init h ty (w_loop s), w_cb := (w_cb s)(h := None)\<rparr>"

definition uv_watcher_start :: "handle_type \<Rightarrow> nat \<Rightarrow> nat option \<Rightarrow> watch_loop \<Rightarrow> uv_error option \<times> watch_loop" where
  "uv_watcher_start ty h cb s =
     (if uv__is_active (w_loop s) h then (None, s)
      else if cb = None then (Some UV_EINVAL, s)
      else (None, s\<lparr>w_queue := QUEUE_INSERT_HEAD (Watch_head ty) (Watch_node h) (w_queue s),
                    w_cb := (w_cb s)(h := cb), w_loop := uv__handle_start h (w_loop s)\<rparr>))"

definition uv_watcher_stop :: "nat \<Rightarrow> watch_loop \<Rightarrow> watch_loop" where
  "uv_watcher_stop h s =
     (if \<not> uv__is_active (w_loop s) h then s
      else s\<lparr>w_queue := QUEUE_REMOVE (Watch_node h) (w_queue s), w_loop := uv__handle_stop h (w_loop s)\<rparr>)"

definition uv__watcher_close :: "nat \<Rightarrow> watch_loop \<Rightarrow> watch_loop" where
  "uv__watcher_close h s = uv_watcher_stop h s"

type_synonym 'u watch_callbacks = "nat \<Rightarrow> nat \<Rightarrow> 'u \<times> watch_loop \<Rightarrow> 'u \<times> watch_loop"

fun watcher_loop :: "nat \<Rightarrow> handle_type \<Rightarrow> 'u watch_callbacks \<Rightarrow> 'u \<times> watch_loop \<Rightarrow> ('u \<times> watch_loop) option" where
  "watcher_loop fuel ty run (u, s) =
     (if QUEUE_EMPTY (w_queue s) Watch_local then Some (u, s)
      else
        (case fuel of
           0 \<Rightarrow> None
         | Suc f \<Rightarrow>
             (case QUEUE_HEAD (w_queue s) Watch_local of
                Watch_node h \<Rightarrow>
                  let q1 = QUEUE_REMOVE (Watch_node h) (w_queue s);
                      q2 = QUEUE_INSERT_TAIL (Watch_head ty) (Watch_node h) q1
                  in (case w_cb s h of
                        None \<Rightarrow> None
                      | Some k \<Rightarrow> watcher_loop f ty run (run k h (u, s\<lparr>w_queue := q2\<rparr>)))
              | _ \<Rightarrow> None)))"

declare watcher_loop.simps [simp del]

definition uv__run_watchers :: "nat \<Rightarrow> handle_type \<Rightarrow> 'u watch_callbacks \<Rightarrow> 'u \<times> watch_loop \<Rightarrow> ('u \<times> watch_loop) option" where
  "uv__run_watchers fuel ty run us =
     (case us of (u, s) \<Rightarrow>
        watcher_loop fuel ty run (u, s\<lparr>w_queue := QUEUE_MOVE (Watch_head ty) Watch_local (w_queue s)\<rparr>))"

subsection \<open>Invariant\<close>

definition active_watchers :: "handle_type \<Rightarrow> watch_loop \<Rightarrow> nat set" where
  "active_watchers ty s =
     {h \<in> set (handle_queue (w_loop s)). h_type (handles (w_loop s) h) = ty \<and> f_active (flags_of (w_loop s) h)}"

definition watch_ring :: "handle_type \<Rightarrow> watch_loop \<Rightarrow> nat list \<Rightarrow> bool" where
  "watch_ring ty s xs \<longleftrightarrow>
     ring (w_queue s) (Watch_head ty) (map Watch_node xs) \<and> set xs = active_watchers ty s \<and>
     (\<forall>h \<in> set xs. w_cb s h \<noteq> None)"

definition watch_types :: "handle_type set" where
  "watch_types = {UV_PREPARE, UV_CHECK, UV_IDLE}"

definition watch_inv :: "watch_loop \<Rightarrow> bool" where
  "watch_inv s \<longleftrightarrow> active_ok (w_loop s) \<and> (\<forall>ty \<in> watch_types. \<exists>xs. watch_ring ty s xs)"

lemma watch_ring_types:
  "watch_ring ty s xs \<Longrightarrow> h \<in> set xs \<Longrightarrow> h_type (handles (w_loop s) h) = ty"
  by (auto simp: watch_ring_def active_watchers_def)

definition is_watcher :: "watch_loop \<Rightarrow> handle_type \<Rightarrow> nat \<Rightarrow> bool" where
  "is_watcher s ty h \<longleftrightarrow> h \<in> set (handle_queue (w_loop s)) \<and> h_type (handles (w_loop s) h) = ty \<and> ty \<in> watch_types"

text \<open>A change of one queue and of handles of one type leaves the queues of the other types alone.\<close>

lemma other_ring:
  assumes "watch_ring ty' s xs'" and "ty' \<noteq> ty"
    and "\<And>x. x = Watch_head ty' \<or> (\<exists>k. x = Watch_node k \<and> h_type (handles (w_loop s) k) = ty') \<Longrightarrow> same_at (w_queue s) (w_queue s') x"
    and "active_watchers ty' s' = active_watchers ty' s"
    and "\<And>k. h_type (handles (w_loop s) k) = ty' \<Longrightarrow> w_cb s' k = w_cb s k"
  shows "watch_ring ty' s' xs'"
proof -
  have "ring (w_queue s') (Watch_head ty') (map Watch_node xs')"
  proof (rule ring_frame)
    show "ring (w_queue s) (Watch_head ty') (map Watch_node xs')" using assms(1) by (simp add: watch_ring_def)
    fix x assume "x \<in> set (Watch_head ty' # map Watch_node xs')"
    then have "x = Watch_head ty' \<or> (\<exists>k. x = Watch_node k \<and> h_type (handles (w_loop s) k) = ty')"
      using watch_ring_types [OF assms(1)] by auto
    then show "same_at (w_queue s) (w_queue s') x" by (rule assms(3))
  qed
  then show ?thesis using assms watch_ring_types [OF assms(1)] by (auto simp: watch_ring_def)
qed

lemma watcher_start_ok:
  assumes inv: "watch_inv s" and h: "is_watcher s ty h" and na: "\<not> f_active (flags_of (w_loop s) h)"
    and r: "watch_ring ty s xs"
  obtains s' where "uv_watcher_start ty h (Some k) s = (None, s')" "watch_inv s'" "watch_ring ty s' (h # xs)"
proof -
  let ?q = "QUEUE_INSERT_HEAD (Watch_head ty) (Watch_node h) (w_queue s)"
  let ?s = "s\<lparr>w_queue := ?q, w_cb := (w_cb s)(h := Some k), w_loop := uv__handle_start h (w_loop s)\<rparr>"
  have st: "uv_watcher_start ty h (Some k) s = (None, ?s)" using na by (simp add: uv_watcher_start_def)
  have hx: "h \<notin> set xs" using r na by (auto simp: watch_ring_def active_watchers_def)
  then have new: "Watch_node h \<notin> set (Watch_head ty # map Watch_node xs)" by auto
  have rg: "ring (w_queue s) (Watch_head ty) (map Watch_node xs)" using r by (simp add: watch_ring_def)
  have a: "active_watchers ty' ?s = (if ty' = ty then insert h (active_watchers ty s) else active_watchers ty' s)" for ty'
    using h by (auto simp: active_watchers_def is_watcher_def)
  have ring: "watch_ring ty ?s (h # xs)"
    using ring_insert_head [OF rg new] a [of ty] r by (auto simp: watch_ring_def)
  moreover have "\<exists>xs. watch_ring ty' ?s xs" if ty': "ty' \<in> watch_types" for ty'
  proof (cases "ty' = ty")
    case True
    then show ?thesis using ring by blast
  next
    case False
    obtain xs' where xs': "watch_ring ty' s xs'" using inv ty' by (auto simp: watch_inv_def)
    have "watch_ring ty' ?s xs'"
    proof (rule other_ring [OF xs' False])
      fix x assume "x = Watch_head ty' \<or> (\<exists>k. x = Watch_node k \<and> h_type (handles (w_loop s) k) = ty')"
      then have "x \<notin> set (Watch_head ty # map Watch_node xs)" "x \<noteq> Watch_node h"
        using False h watch_ring_types [OF r] by (auto simp: is_watcher_def)
      then show "same_at (w_queue s) (w_queue ?s) x" using insert_head_frame [OF rg _ _ new] by simp
    qed (use False h a [of ty'] in \<open>auto simp: is_watcher_def\<close>)
    then show ?thesis by blast
  qed
  moreover have "active_ok (w_loop ?s)"
    using inv h handle_start_active_ok by (auto simp: watch_inv_def is_watcher_def)
  ultimately show ?thesis using that st by (auto simp: watch_inv_def)
qed

lemma watcher_stop_ok:
  assumes inv: "watch_inv s" and h: "is_watcher s ty h" and r: "watch_ring ty s xs"
  shows "watch_inv (uv_watcher_stop h s)" and "watch_ring ty (uv_watcher_stop h s) (filter (\<lambda>x. x \<noteq> h) xs)"
proof -
  have "watch_inv (uv_watcher_stop h s) \<and> watch_ring ty (uv_watcher_stop h s) (filter (\<lambda>x. x \<noteq> h) xs)"
  proof (cases "f_active (flags_of (w_loop s) h)")
    case False
    then have "h \<notin> set xs" using r by (auto simp: watch_ring_def active_watchers_def)
    then have "filter (\<lambda>x. x \<noteq> h) xs = xs" by (auto simp: filter_id_conv)
    then show ?thesis using inv r False by (simp add: uv_watcher_stop_def)
  next
    case True
    let ?s = "s\<lparr>w_queue := QUEUE_REMOVE (Watch_node h) (w_queue s), w_loop := uv__handle_stop h (w_loop s)\<rparr>"
    have st: "uv_watcher_stop h s = ?s" using True by (simp add: uv_watcher_stop_def)
    have hx: "h \<in> set xs" using r h True by (auto simp: watch_ring_def active_watchers_def is_watcher_def)
    have rg: "ring (w_queue s) (Watch_head ty) (map Watch_node xs)" using r by (simp add: watch_ring_def)
    obtain ys zs where xs: "xs = ys @ h # zs" using hx by (meson split_list)
    have "distinct (map Watch_node xs)" using rg by (simp add: ring_def)
    then have "distinct xs" by (simp add: distinct_map)
    then have "filter (\<lambda>x. x \<noteq> h) ys = ys" "filter (\<lambda>x. x \<noteq> h) zs = zs"
      using xs by (auto intro!: filter_True)
    then have f: "filter (\<lambda>x. x \<noteq> h) xs = ys @ zs" using xs by simp
    have a: "active_watchers ty' ?s = (if ty' = ty then active_watchers ty s - {h} else active_watchers ty' s)" for ty'
      using h by (auto simp: active_watchers_def is_watcher_def)
    have "ring (QUEUE_REMOVE (Watch_node h) (w_queue s)) (Watch_head ty) (map Watch_node ys @ map Watch_node zs)"
      using rg xs by (intro ring_remove) simp
    then have "ring (w_queue ?s) (Watch_head ty) (map Watch_node (filter (\<lambda>x. x \<noteq> h) xs))" by (simp add: f)
    moreover have "set (filter (\<lambda>x. x \<noteq> h) xs) = active_watchers ty ?s"
      using a [of ty] r by (auto simp: watch_ring_def)
    moreover have "\<forall>k \<in> set (filter (\<lambda>x. x \<noteq> h) xs). w_cb ?s k \<noteq> None" using r by (simp add: watch_ring_def)
    ultimately have ring: "watch_ring ty ?s (filter (\<lambda>x. x \<noteq> h) xs)" by (simp add: watch_ring_def)
    moreover have "\<exists>xs. watch_ring ty' ?s xs" if ty': "ty' \<in> watch_types" for ty'
    proof (cases "ty' = ty")
      case True
      then show ?thesis using ring by blast
    next
      case False
      obtain xs' where xs': "watch_ring ty' s xs'" using inv ty' by (auto simp: watch_inv_def)
      have "watch_ring ty' ?s xs'"
      proof (rule other_ring [OF xs' False])
        fix x assume "x = Watch_head ty' \<or> (\<exists>k. x = Watch_node k \<and> h_type (handles (w_loop s) k) = ty')"
        then have "x \<notin> set (Watch_head ty # map Watch_node xs)" using False watch_ring_types [OF r] by auto
        then show "same_at (w_queue s) (w_queue ?s) x" using remove_frame [OF rg] hx by simp
      qed (use False a [of ty'] in auto)
      then show ?thesis by blast
    qed
    moreover have "active_ok (w_loop ?s)"
      using inv h handle_stop_active_ok by (auto simp: watch_inv_def is_watcher_def)
    ultimately show ?thesis using st by (simp add: watch_inv_def)
  qed
  then show "watch_inv (uv_watcher_stop h s)" and "watch_ring ty (uv_watcher_stop h s) (filter (\<lambda>x. x \<noteq> h) xs)"
    by auto
qed

subsection \<open>Running the watchers\<close>

definition note_watcher :: "(nat list) watch_callbacks" where
  "note_watcher k h us = (fst us @ [h], snd us)"

lemma watcher_loop_order:
  assumes "ring (w_queue s) Watch_local (map Watch_node ys)" and "ring (w_queue s) (Watch_head ty) (map Watch_node zs)"
    and "distinct (zs @ ys)" and "\<forall>h \<in> set ys. w_cb s h \<noteq> None" and "length ys \<le> fuel"
  shows "\<exists>q. watcher_loop fuel ty note_watcher (seen, s) = Some (seen @ ys, s\<lparr>w_queue := q\<rparr>) \<and>
             ring q (Watch_head ty) (map Watch_node (zs @ ys))"
  using assms
proof (induction ys arbitrary: s zs fuel seen)
  case Nil
  then have "QUEUE_EMPTY (w_queue s) Watch_local" using ring_empty by fastforce
  then show ?case using Nil by (intro exI [of _ "w_queue s"]) (simp add: watcher_loop.simps [of fuel])
next
  case (Cons h ys)
  obtain f where f: "fuel = Suc f" using Cons.prems(5) by (cases fuel) auto
  obtain k where k: "w_cb s h = Some k" using Cons.prems(4) by auto
  let ?q1 = "QUEUE_REMOVE (Watch_node h) (w_queue s)"
  let ?q2 = "QUEUE_INSERT_TAIL (Watch_head ty) (Watch_node h) ?q1"
  note rl = Cons.prems(1) and rh = Cons.prems(2)
  have ne: "\<not> QUEUE_EMPTY (w_queue s) Watch_local" using ring_empty [OF rl] by simp
  have hd: "QUEUE_HEAD (w_queue s) Watch_local = Watch_node h" using ring_head rl by simp
  have l1: "ring ?q1 Watch_local (map Watch_node ys)" using ring_remove [of "w_queue s" Watch_local "[]"] rl by simp
  have h1: "ring ?q1 (Watch_head ty) (map Watch_node zs)"
    by (rule ring_frame [OF rh]) (use Cons.prems(3) in \<open>auto intro!: remove_frame [OF rl]\<close>)
  have new: "Watch_node h \<notin> set (Watch_head ty # map Watch_node zs)" using Cons.prems(3) by auto
  have h2: "ring ?q2 (Watch_head ty) (map Watch_node (zs @ [h]))" using ring_insert_tail [OF h1 new] by simp
  have l2: "ring ?q2 Watch_local (map Watch_node ys)"
    by (rule ring_frame [OF l1]) (use Cons.prems(3) new in \<open>auto intro!: insert_tail_frame [OF h1]\<close>)
  let ?s = "s\<lparr>w_queue := ?q2\<rparr>"
  obtain q where q: "watcher_loop f ty note_watcher (seen @ [h], ?s) = Some ((seen @ [h]) @ ys, ?s\<lparr>w_queue := q\<rparr>)"
      "ring q (Watch_head ty) (map Watch_node ((zs @ [h]) @ ys))"
    using Cons.IH [of ?s "zs @ [h]" f "seen @ [h]"] l2 h2 Cons.prems(3-5) f by auto
  have "watcher_loop fuel ty note_watcher (seen, s) = watcher_loop f ty note_watcher (note_watcher k h (seen, ?s))"
    using ne hd k by (simp add: f watcher_loop.simps [of "Suc f"] Let_def)
  moreover have "note_watcher k h (seen, ?s) = (seen @ [h], ?s)" by (simp add: note_watcher_def)
  ultimately show ?case using q by auto
qed

text \<open>Every active watcher runs once, in the order of the queue, which is the same afterwards.\<close>

lemma run_watchers_order:
  assumes "watch_ring ty s xs" and "length xs \<le> fuel"
  shows "\<exists>s'. uv__run_watchers fuel ty note_watcher (seen, s) = Some (seen @ xs, s') \<and> watch_ring ty s' xs"
proof -
  have r: "ring (w_queue s) (Watch_head ty) (map Watch_node xs)" using assms(1) by (simp add: watch_ring_def)
  have n: "Watch_local \<notin> set (Watch_head ty # map Watch_node xs)" by auto
  let ?q = "QUEUE_MOVE (Watch_head ty) Watch_local (w_queue s)"
  have m: "ring ?q Watch_local (map Watch_node xs)" "ring ?q (Watch_head ty) (map Watch_node [])"
    using ring_move [OF r n] by (cases "xs = []"; simp)+
  have "distinct xs" using r by (simp add: ring_def distinct_map)
  then obtain q where "watcher_loop fuel ty note_watcher (seen, s\<lparr>w_queue := ?q\<rparr>) = Some (seen @ xs, s\<lparr>w_queue := ?q\<rparr>\<lparr>w_queue := q\<rparr>)"
      "ring q (Watch_head ty) (map Watch_node ([] @ xs))"
    using watcher_loop_order [of "s\<lparr>w_queue := ?q\<rparr>" xs ty "[]" fuel seen] m assms by (auto simp: watch_ring_def)
  then show ?thesis
    using assms(1) by (auto simp: uv__run_watchers_def watch_ring_def active_watchers_def)
qed

subsection \<open>Properties\<close>

text \<open>
  Starting an inactive prepare, check or idle watcher puts it at the front of the queue of its type,
  stopping one takes it out and keeps the order of the others, and both keep the invariant of the loop
  (one well-formed queue per type, holding exactly the active watchers, and the count of active handles).
  Starting without a callback fails with \<^verbatim>\<open>UV_EINVAL\<close> and changes nothing.
\<close>

lemma watcher_start_stop:
  assumes "watch_inv s" and "is_watcher s ty h" and "\<not> uv__is_active (w_loop s) h" and "watch_ring ty s xs"
  shows "\<exists>s'. uv_watcher_start ty h (Some k) s = (None, s') \<and> watch_inv s' \<and> watch_ring ty s' (h # xs) \<and>
              watch_inv (uv_watcher_stop h s') \<and> watch_ring ty (uv_watcher_stop h s') xs \<and>
              uv_watcher_start ty h None s = (Some UV_EINVAL, s)"
proof (rule watcher_start_ok [OF assms(1,2) _ assms(4)])
  show na: "\<not> f_active (flags_of (w_loop s) h)" using assms(3) by simp
  fix s' assume s': "uv_watcher_start ty h (Some k) s = (None, s')" "watch_inv s'" "watch_ring ty s' (h # xs)"
  have "h \<in> active_watchers ty s'" using s'(3) by (auto simp: watch_ring_def)
  then have w: "is_watcher s' ty h" using assms(2) by (auto simp: is_watcher_def active_watchers_def)
  have "h \<notin> set xs" using assms(4) na by (auto simp: watch_ring_def active_watchers_def)
  then have "filter (\<lambda>x. x \<noteq> h) (h # xs) = xs" by (auto simp: filter_id_conv)
  then show ?thesis
    using s' watcher_stop_ok [OF s'(2) w s'(3)] na by (auto simp: uv_watcher_start_def)
qed

text \<open>
  \<^verbatim>\<open>uv__run_idle\<close>, \<^verbatim>\<open>uv__run_check\<close> and \<^verbatim>\<open>uv__run_prepare\<close>, with callbacks that leave the loop alone, call every
  active watcher of the type exactly once, in queue order, and leave the queue as it was.
\<close>

lemma run_watchers_once:
  assumes "watch_ring ty s xs" and "length xs \<le> fuel"
  shows "\<exists>s'. uv__run_watchers fuel ty note_watcher ([], s) = Some (xs, s') \<and> watch_ring ty s' xs \<and>
              set xs = active_watchers ty s \<and> distinct xs"
proof -
  have "distinct (map Watch_node xs)" using assms(1) by (simp add: watch_ring_def ring_def)
  then have "distinct xs" by (simp add: distinct_map)
  then show ?thesis using run_watchers_order [OF assms, of "[]"] assms(1) by (auto simp: watch_ring_def)
qed

definition example_watch :: watch_loop where
  "example_watch =
     uv_watcher_init UV_IDLE 1
       \<lparr>w_loop = empty_loop 0,
        w_queue = QUEUE_INIT (Watch_head UV_IDLE) (QUEUE_INIT (Watch_head UV_CHECK) (QUEUE_INIT (Watch_head UV_PREPARE)
                    \<lparr>q_next = (\<lambda>x. x), q_prev = (\<lambda>x. x)\<rparr>)),
        w_cb = (\<lambda>_. None)\<rparr>"

lemma example_watch_ring: "ty \<in> watch_types \<Longrightarrow> watch_ring ty example_watch []"
  by (auto simp: watch_ring_def example_watch_def uv_watcher_init_def uv__handle_init_def active_watchers_def
      ring_def QUEUE_INIT_def empty_loop_def f_active_def UV_HANDLE_REF_def watch_types_def)

lemma example_watch_inv: "watch_inv example_watch"
proof -
  have "active_ok (w_loop example_watch)"
    by (simp add: example_watch_def uv_watcher_init_def uv__handle_init_def empty_loop_def active_ok_def counted_handles_def
        f_active_def UV_HANDLE_REF_def)
  then show ?thesis using example_watch_ring by (auto simp: watch_inv_def)
qed

lemma example_watch_facts:
  "is_watcher example_watch UV_IDLE 1" "\<not> uv__is_active (w_loop example_watch) 1"
  by (simp_all add: example_watch_def is_watcher_def watch_types_def uv_watcher_init_def uv__handle_init_def empty_loop_def
      f_active_def UV_HANDLE_REF_def)

end
