(* ===== verification/Uv_Io.thy ===== *)
theory Uv_Io
  imports Uv_Rings Uv_Base
begin

text \<open>
  I/O watchers, \<^verbatim>\<open>src/unix/core.c\<close>: the table of watchers by file descriptor, the queue of watchers whose events of interest
  changed, and the queue of watchers that were fed an event.
\<close>

subsection \<open>State\<close>

definition POLLIN :: u32 where "POLLIN = 0x0001"
definition POLLPRI :: u32 where "POLLPRI = 0x0002"
definition POLLOUT :: u32 where "POLLOUT = 0x0004"
definition POLLERR :: u32 where "POLLERR = 0x0008"
definition UV__POLLRDHUP :: u32 where "UV__POLLRDHUP = 0x2000"
definition UV__POLLPRI :: u32 where "UV__POLLPRI = POLLPRI"

definition POLL_ALL :: u32 where "POLL_ALL = POLLIN OR POLLOUT OR UV__POLLRDHUP OR UV__POLLPRI"

text \<open>The function pointer \<^verbatim>\<open>w->cb\<close>.\<close>

datatype io_fn = Fn_fs_event | Fn_async_io | Fn_poll_io | Fn_io nat

record uv__io_t =
  io_cb :: io_fn
  io_fd :: int
  pevents :: u32
  events :: u32
  rcount :: int
  wcount :: int

text \<open>
  The two queues, the local queue of \<^verbatim>\<open>uv__run_pending\<close>, and the two nodes in each watcher.
\<close>

datatype io_addr = Pending_head | Pending_local | Watcher_head | Pending_node nat | Watcher_node nat

text \<open>Events of the system, \<^verbatim>\<open>struct kevent\<close>.\<close>

datatype kfilter = EVFILT_READ | EVFILT_WRITE | EVFILT_VNODE | EV_OOBAND | EVFILT_other int

record kevent =
  ev_ident :: int
  ev_filter :: kfilter
  ev_flags :: u32
  ev_fflags :: u32
  ev_data :: int

text \<open>
  The array \<^verbatim>\<open>loop->watchers\<close> has \<^verbatim>\<open>nwatchers\<close> entries and two more, the list of events under way and its length; these two are
  \<open>polled\<close>.
\<close>

record io_loop =
  io_queue :: "io_addr queue_mem"
  io_ws :: "nat \<Rightarrow> uv__io_t"
  watchers :: "nat option list"
  nwatchers :: u32
  nfds :: u32
  polled :: "kevent list option"

definition upd_io :: "nat \<Rightarrow> (uv__io_t \<Rightarrow> uv__io_t) \<Rightarrow> io_loop \<Rightarrow> io_loop" where
  "upd_io w f s = s\<lparr>io_ws := (io_ws s)(w := f (io_ws s w))\<rparr>"

definition on_io_queue :: "(io_addr queue_mem \<Rightarrow> io_addr queue_mem) \<Rightarrow> io_loop \<Rightarrow> io_loop" where
  "on_io_queue f s = s\<lparr>io_queue := f (io_queue s)\<rparr>"

subsection \<open>Operations\<close>

definition next_power_of_two :: "u32 \<Rightarrow> u32" where
  "next_power_of_two val =
     (let v0 = val - 1;
          v1 = v0 OR drop_bit 1 v0;
          v2 = v1 OR drop_bit 2 v1;
          v3 = v2 OR drop_bit 4 v2;
          v4 = v3 OR drop_bit 8 v3;
          v5 = v4 OR drop_bit 16 v4
      in v5 + 1)"

text \<open>
  \<^const>\<open>None\<close> is a call of \<^verbatim>\<open>abort\<close>, or an assertion that fails. An allocation of no bytes gives the null pointer and the program
  aborts; other allocations succeed.
\<close>

definition maybe_resize :: "u32 \<Rightarrow> io_loop \<Rightarrow> io_loop option" where
  "maybe_resize len s =
     (if len \<le> nwatchers s then Some s
      else
        let n = next_power_of_two (len + 2) - 2 in
        if n + 2 = 0 then None
        else Some (s\<lparr>watchers := watchers s @ replicate (unat n - unat (nwatchers s)) None, nwatchers := n\<rparr>))"

definition uv__io_init :: "nat \<Rightarrow> io_fn \<Rightarrow> int \<Rightarrow> io_loop \<Rightarrow> io_loop option" where
  "uv__io_init w cb fd s =
     (if fd \<ge> - 1
      then Some (upd_io w (\<lambda>_. \<lparr>io_cb = cb, io_fd = fd, pevents = 0, events = 0, rcount = 0, wcount = 0\<rparr>)
                   (on_io_queue (QUEUE_INIT (Watcher_node w)) (on_io_queue (QUEUE_INIT (Pending_node w)) s)))
      else None)"

definition valid_events :: "u32 \<Rightarrow> bool" where
  "valid_events ev \<longleftrightarrow> ev AND NOT POLL_ALL = 0 \<and> ev \<noteq> 0"

definition uv__io_start :: "nat \<Rightarrow> u32 \<Rightarrow> io_loop \<Rightarrow> io_loop option" where
  "uv__io_start w ev s =
     (if \<not> (valid_events ev \<and> io_fd (io_ws s w) \<ge> 0 \<and> io_fd (io_ws s w) < 2 ^ 31 - 1) then None
      else
        (case maybe_resize (of_int (io_fd (io_ws s w) + 1)) (upd_io w (\<lambda>x. x\<lparr>pevents := pevents x OR ev\<rparr>) s) of
           None \<Rightarrow> None
         | Some s1 \<Rightarrow>
             if events (io_ws s1 w) = pevents (io_ws s1 w) then Some s1
             else
               let s2 = (if QUEUE_EMPTY (io_queue s1) (Watcher_node w)
                         then on_io_queue (QUEUE_INSERT_TAIL Watcher_head (Watcher_node w)) s1 else s1);
                   fd = nat (io_fd (io_ws s2 w))
               in if fd < length (watchers s2)
                  then Some (if watchers s2 ! fd = None
                             then s2\<lparr>watchers := (watchers s2)[fd := Some w], nfds := nfds s2 + 1\<rparr> else s2)
                  else None))"

definition uv__io_stop :: "nat \<Rightarrow> u32 \<Rightarrow> io_loop \<Rightarrow> io_loop option" where
  "uv__io_stop w ev s =
     (if \<not> valid_events ev then None
      else if io_fd (io_ws s w) = - 1 then Some s
      else if \<not> io_fd (io_ws s w) \<ge> 0 then None
      else if (of_int (io_fd (io_ws s w)) :: u32) \<ge> nwatchers s then Some s
      else
        let s1 = upd_io w (\<lambda>x. x\<lparr>pevents := pevents x AND NOT ev\<rparr>) s in
        if pevents (io_ws s1 w) = 0 then
          let s2 = on_io_queue (QUEUE_INIT (Watcher_node w)) (on_io_queue (QUEUE_REMOVE (Watcher_node w)) s1);
              fd = nat (io_fd (io_ws s2 w))
          in if \<not> fd < length (watchers s2) then None
             else if watchers s2 ! fd = None then Some s2
             else if watchers s2 ! fd = Some w \<and> nfds s2 > 0
             then Some (upd_io w (\<lambda>x. x\<lparr>events := 0\<rparr>) (s2\<lparr>watchers := (watchers s2)[fd := None], nfds := nfds s2 - 1\<rparr>))
             else None
        else if QUEUE_EMPTY (io_queue s1) (Watcher_node w)
        then Some (on_io_queue (QUEUE_INSERT_TAIL Watcher_head (Watcher_node w)) s1)
        else Some s1)"

text \<open>\<^verbatim>\<open>uv__platform_invalidate_fd\<close> of \<^verbatim>\<open>src/unix/kqueue.c\<close>; the array of watchers is there once it has entries.\<close>

definition uv__platform_invalidate_fd :: "int \<Rightarrow> io_loop \<Rightarrow> io_loop option" where
  "uv__platform_invalidate_fd fd s =
     (if watchers s \<noteq> [] \<and> fd \<ge> 0
      then Some (s\<lparr>polled := map_option (map (\<lambda>ev. if ev_ident ev = fd then ev\<lparr>ev_ident := - 1\<rparr> else ev)) (polled s)\<rparr>)
      else None)"

definition uv__io_close :: "nat \<Rightarrow> io_loop \<Rightarrow> io_loop option" where
  "uv__io_close w s =
     (case uv__io_stop w POLL_ALL s of
        None \<Rightarrow> None
      | Some s1 \<Rightarrow>
          let s2 = on_io_queue (QUEUE_REMOVE (Pending_node w)) s1 in
          if io_fd (io_ws s2 w) \<noteq> - 1 then uv__platform_invalidate_fd (io_fd (io_ws s2 w)) s2 else Some s2)"

definition uv__io_feed :: "nat \<Rightarrow> io_loop \<Rightarrow> io_loop" where
  "uv__io_feed w s =
     (if QUEUE_EMPTY (io_queue s) (Pending_node w)
      then on_io_queue (QUEUE_INSERT_TAIL Pending_head (Pending_node w)) s else s)"

definition uv__io_active :: "nat \<Rightarrow> u32 \<Rightarrow> io_loop \<Rightarrow> bool option" where
  "uv__io_active w ev s = (if valid_events ev then Some (pevents (io_ws s w) AND ev \<noteq> 0) else None)"

definition uv__fd_exists :: "int \<Rightarrow> io_loop \<Rightarrow> bool" where
  "uv__fd_exists fd s \<longleftrightarrow> (of_int fd :: u32) < nwatchers s \<and> watchers s ! unat (of_int fd :: u32) \<noteq> None"

subsection \<open>The next power of two\<close>

lemma smear:
  assumes "\<And>n. bit (a :: u32) n \<longleftrightarrow> (\<exists>k < c. bit v (n + k))"
  shows "bit (a OR drop_bit c a) n \<longleftrightarrow> (\<exists>k < 2 * c. bit v (n + k))"
proof -
  have "(\<exists>k < c. bit v (c + n + k)) \<longleftrightarrow> (\<exists>k < 2 * c. \<not> k < c \<and> bit v (n + k))"
  proof
    assume "\<exists>k < c. bit v (c + n + k)"
    then obtain k where "k < c" "bit v (c + n + k)" by blast
    then show "\<exists>k < 2 * c. \<not> k < c \<and> bit v (n + k)" by (intro exI [of _ "c + k"]) (simp add: ac_simps)
  next
    assume "\<exists>k < 2 * c. \<not> k < c \<and> bit v (n + k)"
    then obtain k where "k < 2 * c" "\<not> k < c" "bit v (n + k)" by blast
    then show "\<exists>k < c. bit v (c + n + k)" by (intro exI [of _ "k - c"]) (simp add: ac_simps)
  qed
  then show ?thesis using assms [of n] assms [of "c + n"]
    by (simp add: bit_or_iff bit_drop_bit_eq) (metis (no_types, lifting) mult_2 trans_less_add1)
qed

lemma bits_below:
  assumes "\<And>n. bit (a :: u32) n \<longleftrightarrow> (\<exists>k < 32. bit (v :: u32) (n + k))"
  obtains m where "a = mask m" "m \<le> 32" "unat v < 2 ^ m" "m = 0 \<or> 2 ^ (m - 1) \<le> unat v"
proof -
  define m where "m = (LEAST m. unat v < 2 ^ m)"
  have v32: "unat v < 2 ^ 32" using unat_bound [of v] by simp
  have v: "unat v < 2 ^ m" unfolding m_def by (rule LeastI [of "\<lambda>m. unat v < 2 ^ m" 32, OF v32])
  have le: "m \<le> 32" unfolding m_def by (rule Least_le [of "\<lambda>m. unat v < 2 ^ m", OF v32])
  have lo: "2 ^ (m - 1) \<le> unat v" if "m \<noteq> 0"
    using not_less_Least [of "m - 1" "\<lambda>m. unat v < 2 ^ m"] that by (simp add: m_def)
  have odd: "bit v i \<longleftrightarrow> odd (unat v div 2 ^ i)" for i
    using bit_iff_odd [of "unat v" i] by (simp add: bit_unsigned_iff)
  have hi: "\<not> bit v i" if "m \<le> i" for i
  proof -
    have "unat v < 2 ^ i" using v that by (meson less_le_trans one_le_numeral power_increasing)
    then show ?thesis by (simp add: odd)
  qed
  have top: "bit v (m - 1)" if "m \<noteq> 0"
  proof -
    have "unat v < 2 * 2 ^ (m - 1)" using v that by (simp flip: power_Suc)
    then have "unat v div 2 ^ (m - 1) = 1" using lo [OF that] by (simp add: div_nat_eqI)
    then show ?thesis by (simp add: odd)
  qed
  have "a = mask m"
  proof (rule bit_eqI)
    fix n
    have "bit a n \<longleftrightarrow> n < m"
    proof
      assume "bit a n"
      then obtain k where "bit v (n + k)" using assms by blast
      then show "n < m" using hi [of "n + k"] by linarith
    next
      assume "n < m"
      then show "bit a n" unfolding assms using top le by (intro exI [of _ "m - 1 - n"]) auto
    qed
    then show "bit a n \<longleftrightarrow> bit (mask m :: u32) n" using le by (auto simp: bit_mask_iff)
  qed
  then show ?thesis using le v lo by (intro that) auto
qed

lemma next_power_of_two_eq:
  assumes "0 < val" and "val \<le> 2 ^ 31"
  obtains m where "next_power_of_two val = 2 ^ m" "m \<le> 31" "unat val \<le> 2 ^ m" "2 ^ m < 2 * unat val"
proof -
  define v1 where "v1 = (val - 1) OR drop_bit 1 (val - 1)"
  define v2 where "v2 = v1 OR drop_bit 2 v1"
  define v3 where "v3 = v2 OR drop_bit 4 v2"
  define v4 where "v4 = v3 OR drop_bit 8 v3"
  define v5 where "v5 = v4 OR drop_bit 16 v4"
  have "bit v1 n \<longleftrightarrow> (\<exists>k < 2. bit (val - 1) (n + k))" for n using smear [of "val - 1" 1 "val - 1"] by (simp add: v1_def)
  then have "bit v2 n \<longleftrightarrow> (\<exists>k < 4. bit (val - 1) (n + k))" for n using smear [of v1 2 "val - 1"] by (simp add: v2_def)
  then have "bit v3 n \<longleftrightarrow> (\<exists>k < 8. bit (val - 1) (n + k))" for n using smear [of v2 4 "val - 1"] by (simp add: v3_def)
  then have "bit v4 n \<longleftrightarrow> (\<exists>k < 16. bit (val - 1) (n + k))" for n using smear [of v3 8 "val - 1"] by (simp add: v4_def)
  then have "bit v5 n \<longleftrightarrow> (\<exists>k < 32. bit (val - 1) (n + k))" for n using smear [of v4 16 "val - 1"] by (simp add: v5_def)
  then obtain m where m: "v5 = mask m" "m \<le> 32" "unat (val - 1) < 2 ^ m" "m = 0 \<or> 2 ^ (m - 1) \<le> unat (val - 1)"
    by (rule bits_below) blast
  have u: "unat (val - 1) = unat val - 1" "0 < unat val" "unat val \<le> 2 ^ 31"
    using assms unat_minus_one [of val] by (auto simp: word_gt_0 word_le_nat_alt unat_gt_0)
  have "m \<le> 31"
  proof (rule ccontr)
    assume "\<not> m \<le> 31"
    then have "m = 32" using m(2) by simp
    then show False using m(4) u by simp
  qed
  moreover have "2 ^ m < 2 * unat val" using m(4) u by (cases m) auto
  moreover have "next_power_of_two val = 2 ^ m"
    using m(1) by (simp add: next_power_of_two_def Let_def v1_def v2_def v3_def v4_def v5_def mask_eq_exp_minus_1)
  moreover have "unat val \<le> 2 ^ m" using m(3) u by simp
  ultimately show ?thesis using that by blast
qed

subsection \<open>Invariant\<close>

text \<open>The two queues as lists of watchers; \<open>W\<close> are the watchers that are initialised and not closed.\<close>

record io_view =
  v_pend :: "nat list"
  v_watch :: "nat list"

fun io_lists :: "io_view \<Rightarrow> io_addr \<Rightarrow> io_addr list" where
  "io_lists v Pending_head = map Pending_node (v_pend v)"
| "io_lists v Watcher_head = map Watcher_node (v_watch v)"
| "io_lists v _ = []"

definition io_heads :: "nat set \<Rightarrow> io_view \<Rightarrow> io_addr set" where
  "io_heads W v =
     {Pending_head, Watcher_head} \<union> Pending_node ` (W - set (v_pend v)) \<union> Watcher_node ` (W - set (v_watch v))"

definition io_queues :: "nat set \<Rightarrow> io_loop \<Rightarrow> io_view \<Rightarrow> bool" where
  "io_queues W s v \<longleftrightarrow> rings (io_queue s) (io_heads W v) (io_lists v) \<and> set (v_pend v) \<union> set (v_watch v) \<subseteq> W"

definition registered :: "io_loop \<Rightarrow> nat \<Rightarrow> bool" where
  "registered s w \<longleftrightarrow>
     0 \<le> io_fd (io_ws s w) \<and> nat (io_fd (io_ws s w)) < length (watchers s) \<and> watchers s ! nat (io_fd (io_ws s w)) = Some w"

text \<open>The table has \<^verbatim>\<open>nwatchers\<close> entries, \<^verbatim>\<open>nfds\<close> of them in use, and an entry is a watcher of that file descriptor.\<close>

definition used_fds :: "io_loop \<Rightarrow> nat set" where
  "used_fds s = {i. i < length (watchers s) \<and> watchers s ! i \<noteq> None}"

definition table_ok :: "nat set \<Rightarrow> io_loop \<Rightarrow> bool" where
  "table_ok W s \<longleftrightarrow>
     length (watchers s) = unat (nwatchers s) \<and> unat (nwatchers s) < 2 ^ 31 \<and> unat (nfds s) = card (used_fds s) \<and>
     (\<forall>i w. i < length (watchers s) \<longrightarrow> watchers s ! i = Some w \<longrightarrow> w \<in> W \<and> io_fd (io_ws s w) = int i)"

text \<open>
  A watcher is in the table exactly when it is interested in events; it is queued when the system does not yet know of its
  present interest, and only then when it is interested in something.
\<close>

definition interest_ok :: "io_loop \<Rightarrow> io_view \<Rightarrow> nat \<Rightarrow> bool" where
  "interest_ok s v w \<longleftrightarrow>
     (pevents (io_ws s w) \<noteq> 0 \<longleftrightarrow> registered s w) \<and> pevents (io_ws s w) AND NOT POLL_ALL = 0 \<and> - 1 \<le> io_fd (io_ws s w) \<and> io_fd (io_ws s w) < 2 ^ 31 - 2 \<and>
     (w \<in> set (v_watch v) \<longrightarrow> pevents (io_ws s w) \<noteq> 0) \<and> (events (io_ws s w) \<noteq> pevents (io_ws s w) \<longrightarrow> w \<in> set (v_watch v))"

definition io_ok :: "nat set \<Rightarrow> io_loop \<Rightarrow> io_view \<Rightarrow> bool" where
  "io_ok W s v \<longleftrightarrow> io_queues W s v \<and> table_ok W s \<and> (\<forall>w \<in> W. interest_ok s v w)"

definition io_inv :: "nat set \<Rightarrow> io_loop \<Rightarrow> bool" where
  "io_inv W s \<longleftrightarrow> (\<exists>v. io_ok W s v)"

lemma upd_io_sel [simp]:
  "io_queue (upd_io w f s) = io_queue s" "watchers (upd_io w f s) = watchers s" "nwatchers (upd_io w f s) = nwatchers s"
  "nfds (upd_io w f s) = nfds s" "polled (upd_io w f s) = polled s" "io_ws (upd_io w f s) = (io_ws s)(w := f (io_ws s w))"
  by (simp_all add: upd_io_def)

lemma on_io_queue_sel [simp]:
  "io_queue (on_io_queue f s) = f (io_queue s)" "watchers (on_io_queue f s) = watchers s" "nwatchers (on_io_queue f s) = nwatchers s"
  "nfds (on_io_queue f s) = nfds s" "polled (on_io_queue f s) = polled s" "io_ws (on_io_queue f s) = io_ws s"
  by (simp_all add: on_io_queue_def)

subsubsection \<open>Queues\<close>

lemma io_heads_simps [simp]:
  "Pending_head \<in> io_heads W v" "Watcher_head \<in> io_heads W v"
  "Pending_node w \<in> io_heads W v \<longleftrightarrow> w \<in> W \<and> w \<notin> set (v_pend v)" "Watcher_node w \<in> io_heads W v \<longleftrightarrow> w \<in> W \<and> w \<notin> set (v_watch v)"
  by (auto simp: io_heads_def)

lemma io_lists_upd:
  "io_lists (v\<lparr>v_pend := xs\<rparr>) = (io_lists v)(Pending_head := map Pending_node xs)"
  "io_lists (v\<lparr>v_watch := xs\<rparr>) = (io_lists v)(Watcher_head := map Watcher_node xs)"
  by (rule ext, rename_tac h, case_tac h; simp)+

lemma io_queue_empty:
  assumes "io_queues W s v"
  shows "QUEUE_EMPTY (io_queue s) Watcher_head \<longleftrightarrow> v_watch v = []" "QUEUE_EMPTY (io_queue s) Pending_head \<longleftrightarrow> v_pend v = []"
    and "w \<in> W \<Longrightarrow> QUEUE_EMPTY (io_queue s) (Watcher_node w) \<longleftrightarrow> w \<notin> set (v_watch v)"
    and "w \<in> W \<Longrightarrow> QUEUE_EMPTY (io_queue s) (Pending_node w) \<longleftrightarrow> w \<notin> set (v_pend v)"
    and "v_watch v \<noteq> [] \<Longrightarrow> QUEUE_HEAD (io_queue s) Watcher_head = Watcher_node (hd (v_watch v))"
    and "v_pend v \<noteq> [] \<Longrightarrow> QUEUE_HEAD (io_queue s) Pending_head = Pending_node (hd (v_pend v))"
    and "distinct (v_watch v)" "distinct (v_pend v)"
proof -
  have r: "rings (io_queue s) (io_heads W v) (io_lists v)" using assms by (simp add: io_queues_def)
  show "QUEUE_EMPTY (io_queue s) Watcher_head \<longleftrightarrow> v_watch v = []" "QUEUE_EMPTY (io_queue s) Pending_head \<longleftrightarrow> v_pend v = []"
    using rings_empty [OF r, of Watcher_head] rings_empty [OF r, of Pending_head] by simp_all
  show "w \<in> W \<Longrightarrow> QUEUE_EMPTY (io_queue s) (Watcher_node w) \<longleftrightarrow> w \<notin> set (v_watch v)"
    using rings_empty [OF r, of "Watcher_node w"] rings_in_queue [OF r, of Watcher_head "Watcher_node w"] by auto
  show "w \<in> W \<Longrightarrow> QUEUE_EMPTY (io_queue s) (Pending_node w) \<longleftrightarrow> w \<notin> set (v_pend v)"
    using rings_empty [OF r, of "Pending_node w"] rings_in_queue [OF r, of Pending_head "Pending_node w"] by auto
  show "v_watch v \<noteq> [] \<Longrightarrow> QUEUE_HEAD (io_queue s) Watcher_head = Watcher_node (hd (v_watch v))"
    "v_pend v \<noteq> [] \<Longrightarrow> QUEUE_HEAD (io_queue s) Pending_head = Pending_node (hd (v_pend v))"
    using rings_head [OF r, of Watcher_head] rings_head [OF r, of Pending_head] by (simp_all add: hd_map)
  show "distinct (v_watch v)" "distinct (v_pend v)"
    using rings_distinct [OF r, of Watcher_head] rings_distinct [OF r, of Pending_head] by (simp_all add: distinct_map)
qed

text \<open>A node that is a queue of its own is taken into another queue; a node of a queue becomes one of its own.\<close>

lemma rings_absorb:
  assumes r: "rings m H q" and h: "h \<in> H" "x \<in> H" "x \<noteq> h" "q x = []" and H': "H' = H - {x}"
  shows "rings (QUEUE_INSERT_TAIL h x m) H' (q(h := q h @ [x]))"
proof -
  have "x \<notin> linked H' q"
  proof
    assume "x \<in> linked H' q"
    then obtain k where "k \<in> H" "k \<noteq> x" "x \<in> set (k # q k)" by (auto simp: linked_def H')
    then show False using rings_apart [OF r h(2), of k] by auto
  qed
  then show ?thesis using rings_insert_tail [OF rings_subset [OF r], of H' h x] h by (auto simp: H')
qed

lemma rings_release:
  assumes r: "rings m H q" and h: "h \<in> H" and x: "q h = ys @ x # zs" and H': "H' = insert x H" and q: "q x = []"
  shows "rings (QUEUE_INIT x (QUEUE_REMOVE x m)) H' (q(h := ys @ zs))"
proof -
  have "x \<noteq> h" using rings_distinct [OF r h] x by auto
  then have "(q(h := ys @ zs))(x := []) = q(h := ys @ zs)" using q by auto
  then show ?thesis using rings_init [OF rings_remove [OF r h x] removed_unlinked [OF r h x]] H' by simp
qed

lemma rings_reinit:
  assumes r: "rings m H q" and x: "x \<in> H" "q x = []"
  shows "rings (QUEUE_INIT x (QUEUE_REMOVE x m)) H q"
proof -
  have "ring m x []" using rings_ring [OF r x(1)] x(2) by simp
  then have "q_next m x = x" "q_prev m x = x" by (simp_all add: ring_def)
  then have "QUEUE_INIT x (QUEUE_REMOVE x m) = m"
    by (simp add: QUEUE_INIT_def QUEUE_REMOVE_def queue_ops set_next_def set_prev_def fun_upd_idem)
  then show ?thesis using r by simp
qed

lemma io_queues_cong: "io_queues W s v \<Longrightarrow> io_queue s' = io_queue s \<Longrightarrow> io_queues W s' v"
  by (simp add: io_queues_def)

lemma io_queues_watch:
  assumes q: "io_queues W s v" and w: "w \<in> W" "w \<notin> set (v_watch v)"
  shows "io_queues W (on_io_queue (QUEUE_INSERT_TAIL Watcher_head (Watcher_node w)) s) (v\<lparr>v_watch := v_watch v @ [w]\<rparr>)"
proof -
  have r: "rings (io_queue s) (io_heads W v) (io_lists v)" using q by (simp add: io_queues_def)
  have "io_heads W (v\<lparr>v_watch := v_watch v @ [w]\<rparr>) = io_heads W v - {Watcher_node w}" by (auto simp: io_heads_def)
  then show ?thesis using rings_absorb [OF r, of Watcher_head "Watcher_node w"] w q by (simp add: io_queues_def io_lists_upd)
qed

lemma io_queues_feed:
  assumes q: "io_queues W s v" and w: "w \<in> W" "w \<notin> set (v_pend v)"
  shows "io_queues W (on_io_queue (QUEUE_INSERT_TAIL Pending_head (Pending_node w)) s) (v\<lparr>v_pend := v_pend v @ [w]\<rparr>)"
proof -
  have r: "rings (io_queue s) (io_heads W v) (io_lists v)" using q by (simp add: io_queues_def)
  have "io_heads W (v\<lparr>v_pend := v_pend v @ [w]\<rparr>) = io_heads W v - {Pending_node w}" by (auto simp: io_heads_def)
  then show ?thesis using rings_absorb [OF r, of Pending_head "Pending_node w"] w q by (simp add: io_queues_def io_lists_upd)
qed

lemma io_queues_unwatch:
  assumes q: "io_queues W s v" and w: "w \<in> W"
  shows "io_queues W (on_io_queue (QUEUE_INIT (Watcher_node w)) (on_io_queue (QUEUE_REMOVE (Watcher_node w)) s))
           (v\<lparr>v_watch := removeAll w (v_watch v)\<rparr>)"
proof -
  have r: "rings (io_queue s) (io_heads W v) (io_lists v)" using q by (simp add: io_queues_def)
  show ?thesis
  proof (cases "w \<in> set (v_watch v)")
    case True
    then obtain ys zs where x: "v_watch v = ys @ w # zs" by (meson split_list)
    then have "removeAll w (v_watch v) = ys @ zs" using io_queue_empty(7) [OF q] by (auto simp: removeAll_id)
    moreover have "io_heads W (v\<lparr>v_watch := ys @ zs\<rparr>) = insert (Watcher_node w) (io_heads W v)"
      using x io_queue_empty(7) [OF q] w by (auto simp: io_heads_def)
    ultimately show ?thesis
      using rings_release [OF r, of Watcher_head "map Watcher_node ys" "Watcher_node w" "map Watcher_node zs"] x q
      by (auto simp: io_queues_def io_lists_upd)
  next
    case False
    then show ?thesis using rings_reinit [OF r, of "Watcher_node w"] q w by (simp add: io_queues_def removeAll_id)
  qed
qed

subsubsection \<open>The table\<close>

lemma used_fds_finite [simp]: "finite (used_fds s)"
  by (simp add: used_fds_def)

lemma used_fds_card: "card (used_fds s) \<le> length (watchers s)"
proof -
  have "card (used_fds s) \<le> card {..<length (watchers s)}" by (rule card_mono) (auto simp: used_fds_def)
  then show ?thesis by simp
qed

lemma table_cong:
  "table_ok W s \<Longrightarrow> watchers s' = watchers s \<Longrightarrow> nwatchers s' = nwatchers s \<Longrightarrow> nfds s' = nfds s \<Longrightarrow>
   (\<And>w. io_fd (io_ws s' w) = io_fd (io_ws s w)) \<Longrightarrow> table_ok W s'"
  by (simp add: table_ok_def used_fds_def)

lemma table_enter:
  assumes t: "table_ok W s" and w: "w \<in> W" "io_fd (io_ws s w) = int i" "i < length (watchers s)" "watchers s ! i = None"
  shows "table_ok W (s\<lparr>watchers := (watchers s)[i := Some w], nfds := nfds s + 1\<rparr>)"
proof -
  let ?s = "s\<lparr>watchers := (watchers s)[i := Some w], nfds := nfds s + 1\<rparr>"
  have "used_fds ?s = insert i (used_fds s)" "i \<notin> used_fds s" using w by (auto simp: used_fds_def nth_list_update)
  then have c: "card (used_fds ?s) = Suc (card (used_fds s))" by simp
  have "card (used_fds s) < 2 ^ 31" using used_fds_card [of s] t by (simp add: table_ok_def)
  then have "unat (nfds s + 1) = unat (nfds s) + 1" using t unat_add_no_wrap [of "nfds s" 1] by (simp add: table_ok_def)
  then show ?thesis using t c w by (auto simp: table_ok_def nth_list_update)
qed

lemma table_leave:
  assumes t: "table_ok W s" and w: "i < length (watchers s)" "watchers s ! i = Some w"
  shows "table_ok W (s\<lparr>watchers := (watchers s)[i := None], nfds := nfds s - 1\<rparr>)" and "0 < nfds s"
proof -
  let ?s = "s\<lparr>watchers := (watchers s)[i := None], nfds := nfds s - 1\<rparr>"
  have "used_fds ?s = used_fds s - {i}" "i \<in> used_fds s" using w by (auto simp: used_fds_def nth_list_update)
  then have c: "card (used_fds s) = Suc (card (used_fds ?s))" by (metis card_Suc_Diff1 used_fds_finite)
  then have "0 < unat (nfds s)" using t by (simp add: table_ok_def)
  then show p: "0 < nfds s" by (simp add: word_less_nat_alt)
  then have "unat (nfds s - 1) = unat (nfds s) - 1" by (intro unat_minus_one) auto
  then show "table_ok W ?s" using t c w by (auto simp: table_ok_def nth_list_update)
qed

lemma resize_ok:
  assumes t: "table_ok W s" and len: "len \<le> 2 ^ 31 - 2" "0 < len"
  obtains s' where "maybe_resize len s = Some s'" "table_ok W s'" "unat len \<le> length (watchers s')"
    "io_queue s' = io_queue s" "io_ws s' = io_ws s" "polled s' = polled s" "nfds s' = nfds s"
    "\<And>i. i < length (watchers s) \<Longrightarrow> watchers s' ! i = watchers s ! i" "length (watchers s) \<le> length (watchers s')"
    "\<And>i. length (watchers s) \<le> i \<Longrightarrow> i < length (watchers s') \<Longrightarrow> watchers s' ! i = None"
proof (cases "len \<le> nwatchers s")
  case True
  then show ?thesis using t by (intro that [of s]) (auto simp: maybe_resize_def table_ok_def word_le_nat_alt)
next
  case False
  have l: "unat len \<le> 2 ^ 31 - 2" "0 < unat len" using len by (simp_all add: word_le_nat_alt word_less_nat_alt unat_gt_0)
  then have l2: "unat (len + 2) = unat len + 2" using unat_add_no_wrap [of len 2] by simp
  have "0 < len + 2" "len + 2 \<le> 2 ^ 31" using l l2 by (simp_all add: word_le_nat_alt word_less_nat_alt)
  then obtain m where m: "next_power_of_two (len + 2) = 2 ^ m" "m \<le> 31" "unat (len + 2) \<le> 2 ^ m"
    by (rule next_power_of_two_eq) blast
  define n where "n = next_power_of_two (len + 2) - 2"
  have p: "unat ((2 :: u32) ^ m) = 2 ^ m" using m(2) by (intro unat_exp) simp
  have n: "unat n = 2 ^ m - 2" using m(1,3) l2 p unfolding n_def by (subst unat_sub) (auto simp: word_le_nat_alt)
  have ub: "(2 :: nat) ^ m \<le> 2 ^ 31" using m(2) by (intro power_increasing) simp_all
  have "n + 2 = 2 ^ m" using m(1) by (simp add: n_def)
  moreover have "(2 :: u32) ^ m \<noteq> 0" using p by (metis unat_0 power_not_zero zero_neq_numeral)
  ultimately have "n + 2 \<noteq> 0" by simp
  then have r: "maybe_resize len s = Some (s\<lparr>watchers := watchers s @ replicate (unat n - unat (nwatchers s)) None, nwatchers := n\<rparr>)"
    using False by (simp add: maybe_resize_def Let_def n_def)
  let ?s = "s\<lparr>watchers := watchers s @ replicate (unat n - unat (nwatchers s)) None, nwatchers := n\<rparr>"
  have big: "unat len \<le> unat n" "unat (nwatchers s) < unat len" using n m(3) l2 False by (auto simp: word_le_nat_alt)
  have L: "length (watchers s) = unat (nwatchers s)" using t by (simp add: table_ok_def)
  have "i \<in> used_fds ?s \<longleftrightarrow> i \<in> used_fds s" for i by (cases "i < length (watchers s)") (auto simp: used_fds_def nth_append)
  then have "used_fds ?s = used_fds s" by blast
  moreover have "unat n < 2 ^ 31" using n ub l2 l(2) m(3) by linarith
  ultimately have "table_ok W ?s" using t big L by (auto simp: table_ok_def nth_append split: if_splits)
  then show ?thesis using r big L by (intro that [of ?s]) (auto simp: nth_append)
qed

subsubsection \<open>Operations\<close>

lemma POLL_ALL_valid [simp]: "valid_events POLL_ALL"
  by (simp add: valid_events_def POLL_ALL_def POLLIN_def POLLOUT_def UV__POLLRDHUP_def UV__POLLPRI_def POLLPRI_def)

lemma or_nonzero: "ev \<noteq> 0 \<Longrightarrow> (x :: u32) OR ev \<noteq> 0"
  by (metis or_eq_0_iff)

lemma or_within: "x AND NOT a = 0 \<Longrightarrow> y AND NOT a = 0 \<Longrightarrow> (x OR y) AND NOT a = (0 :: u32)"
  by (simp add: bit.conj_disj_distrib2)

lemma and_within: "x AND NOT a = 0 \<Longrightarrow> (x AND y) AND NOT a = (0 :: u32)"
proof -
  have "(x AND y) AND NOT a = y AND (x AND NOT a)" by (simp only: and.assoc and.left_commute)
  then show "x AND NOT a = 0 \<Longrightarrow> (x AND y) AND NOT a = 0" by simp
qed

text \<open>No other watcher has the file descriptor.\<close>

definition fd_free :: "io_loop \<Rightarrow> nat \<Rightarrow> bool" where
  "fd_free s w \<longleftrightarrow>
     (\<forall>k. nat (io_fd (io_ws s w)) < length (watchers s) \<longrightarrow> watchers s ! nat (io_fd (io_ws s w)) = Some k \<longrightarrow> k = w)"

lemma io_start_ok:
  assumes ok: "io_ok W s v" and w: "w \<in> W" "0 \<le> io_fd (io_ws s w)" "valid_events ev" "fd_free s w"
  obtains s' v' where "uv__io_start w ev s = Some s'" "io_ok W s' v'"
    "pevents (io_ws s' w) = pevents (io_ws s w) OR ev" "registered s' w" "polled s' = polled s"
    "\<And>k. k \<noteq> w \<Longrightarrow> io_ws s' k = io_ws s k"
proof -
  have q: "io_queues W s v" and t: "table_ok W s" and i: "\<And>k. k \<in> W \<Longrightarrow> interest_ok s v k" using ok by (auto simp: io_ok_def)
  let ?p = "pevents (io_ws s w) OR ev" and ?fd = "nat (io_fd (io_ws s w))"
  let ?s0 = "upd_io w (\<lambda>x. x\<lparr>pevents := pevents x OR ev\<rparr>) s"
  have pz: "?p \<noteq> 0" using or_nonzero w(3) by (simp add: valid_events_def)
  have wi: "?p AND NOT POLL_ALL = 0" using i [OF w(1)] w(3) by (intro or_within) (auto simp: valid_events_def interest_ok_def)
  have fd: "io_fd (io_ws s w) < 2 ^ 31 - 2" using i [OF w(1)] by (simp add: interest_ok_def)
  define len :: u32 where "len = of_int (io_fd (io_ws s w) + 1)"
  have "len = of_nat (Suc ?fd)" using w(2) by (simp add: len_def)
  then have len: "unat len = Suc ?fd" using fd w(2) by (simp add: unat_of_nat_lt del: of_nat_Suc)
  then have "len \<le> 2 ^ 31 - 2" "0 < len" using fd w(2) by (simp_all add: word_le_nat_alt word_less_nat_alt)
  then obtain s1 where s1: "maybe_resize len ?s0 = Some s1" "table_ok W s1" "unat len \<le> length (watchers s1)"
    "io_queue s1 = io_queue s" "io_ws s1 = io_ws ?s0" "polled s1 = polled s" "nfds s1 = nfds s"
    "\<And>i. i < length (watchers s) \<Longrightarrow> watchers s1 ! i = watchers s ! i" "length (watchers s) \<le> length (watchers s1)"
    "\<And>i. length (watchers s) \<le> i \<Longrightarrow> i < length (watchers s1) \<Longrightarrow> watchers s1 ! i = None"
    using resize_ok [of W ?s0 len] table_cong [OF t, of ?s0] by auto
  have q1: "io_queues W s1 v" using io_queues_cong [OF q s1(4)] .
  have reg: "registered s1 k \<longleftrightarrow> registered s k" if "k \<in> W" for k
  proof -
    have "registered s1 k \<longleftrightarrow> 0 \<le> io_fd (io_ws s k) \<and> nat (io_fd (io_ws s k)) < length (watchers s1) \<and>
        watchers s1 ! nat (io_fd (io_ws s k)) = Some k" using s1(5) by (auto simp: registered_def)
    then show ?thesis using s1(8-10) by (auto simp: registered_def) (metis not_le_imp_less option.distinct(1))+
  qed
  have start: "uv__io_start w ev s =
      (if events (io_ws s w) = ?p then Some s1
       else let s2 = (if QUEUE_EMPTY (io_queue s1) (Watcher_node w)
                      then on_io_queue (QUEUE_INSERT_TAIL Watcher_head (Watcher_node w)) s1 else s1)
            in Some (if watchers s2 ! ?fd = None then s2\<lparr>watchers := (watchers s2)[?fd := Some w], nfds := nfds s2 + 1\<rparr> else s2))"
    using s1(1,3,5) w(2,3) fd len unfolding uv__io_start_def len_def [symmetric] Let_def by simp
  show ?thesis
  proof (cases "events (io_ws s w) = ?p")
    case True
    then have "pevents (io_ws s w) \<noteq> 0" using i [OF w(1)] pz by (auto simp: interest_ok_def)
    then have r: "registered s w" using i [OF w(1)] by (simp add: interest_ok_def)
    have "interest_ok s1 v k" if "k \<in> W" for k
      using i [OF that] reg [OF that] s1(5) True pz wi r by (cases "k = w") (auto simp: interest_ok_def)
    then have "io_ok W s1 v" using q1 s1(2) by (simp add: io_ok_def)
    then show ?thesis using True start s1(5,6) reg [OF w(1)] r by (intro that [of s1 v]) auto
  next
    case False
    define v2 where "v2 = (if w \<in> set (v_watch v) then v else v\<lparr>v_watch := v_watch v @ [w]\<rparr>)"
    define s2 where "s2 = (if QUEUE_EMPTY (io_queue s1) (Watcher_node w)
                      then on_io_queue (QUEUE_INSERT_TAIL Watcher_head (Watcher_node w)) s1 else s1)"
    define s3 where "s3 = (if watchers s2 ! ?fd = None then s2\<lparr>watchers := (watchers s2)[?fd := Some w], nfds := nfds s2 + 1\<rparr> else s2)"
    have q2: "io_queues W s2 v2" using q1 io_queues_watch [OF q1 w(1)] io_queue_empty(3) [OF q1 w(1)] by (simp add: s2_def v2_def)
    have f2: "watchers s2 = watchers s1" "nwatchers s2 = nwatchers s1" "nfds s2 = nfds s1" "io_ws s2 = io_ws s1" "polled s2 = polled s1"
      by (simp_all add: s2_def)
    have ws: "set (v_watch v2) = insert w (set (v_watch v))" by (auto simp: v2_def)
    have t2: "table_ok W s2" using table_cong [OF s1(2)] f2 by simp
    have L: "?fd < length (watchers s2)" using s1(3) len f2 by simp
    have fdw: "io_fd (io_ws s2 w) = int ?fd" using f2 s1(5) w(2) by simp
    have ent: "watchers s2 ! ?fd = None \<or> watchers s2 ! ?fd = Some w"
    proof (cases "?fd < length (watchers s)")
      case True
      then show ?thesis using w(4) s1(8) f2 unfolding fd_free_def by (metis not_None_eq)
    next
      case False
      then show ?thesis using s1(10) L f2 by simp
    qed
    have t3: "table_ok W s3" using t2 table_enter [OF t2 w(1) fdw L] by (simp add: s3_def)
    have f3: "io_ws s3 = io_ws s1" "io_queue s3 = io_queue s2" "polled s3 = polled s1" "length (watchers s3) = length (watchers s2)"
      using f2 by (simp_all add: s3_def)
    have r3: "registered s3 w" using ent L w(2) f2 s1(5) by (auto simp: registered_def s3_def)
    have ro: "registered s3 k \<longleftrightarrow> registered s k" if "k \<in> W" "k \<noteq> w" for k
    proof -
      have "registered s3 k \<longleftrightarrow> registered s1 k"
        using ent f2 f3 that(2) L by (auto simp: registered_def s3_def nth_list_update split: if_splits)
      then show ?thesis using reg [OF that(1)] by simp
    qed
    have "interest_ok s3 v2 k" if "k \<in> W" for k
      using i [OF that] r3 ro [OF that] f3(1) s1(5) pz wi ws by (cases "k = w") (auto simp: interest_ok_def)
    then have "io_ok W s3 v2" using io_queues_cong [OF q2 f3(2)] t3 by (simp add: io_ok_def)
    then show ?thesis using start False f3 s1(5,6) r3 by (intro that [of s3 v2]) (auto simp: s3_def s2_def Let_def)
  qed
qed

lemma unat_fd: "0 \<le> x \<Longrightarrow> x < 2 ^ 32 \<Longrightarrow> unat (of_int x :: u32) = nat x"
  using unat_of_nat_lt [where 'a = 32, of "nat x"] by simp

lemma io_stop_ok:
  assumes ok: "io_ok W s v" and w: "w \<in> W" "valid_events ev" "fd_free s w"
  obtains s' v' where "uv__io_stop w ev s = Some s'" "io_ok W s' v'"
    "pevents (io_ws s' w) = pevents (io_ws s w) AND NOT ev" "polled s' = polled s" "\<And>k. k \<noteq> w \<Longrightarrow> io_ws s' k = io_ws s k"
    "v_pend v' = v_pend v" "io_fd (io_ws s' w) = io_fd (io_ws s w)" "length (watchers s') = length (watchers s)"
proof -
  have q: "io_queues W s v" and t: "table_ok W s" and i: "\<And>k. k \<in> W \<Longrightarrow> interest_ok s v k" using ok by (auto simp: io_ok_def)
  let ?p = "pevents (io_ws s w) AND NOT ev" and ?fd = "nat (io_fd (io_ws s w))"
  have fd: "- 1 \<le> io_fd (io_ws s w)" "io_fd (io_ws s w) < 2 ^ 31 - 2" using i [OF w(1)] by (auto simp: interest_ok_def)
  have L: "length (watchers s) = unat (nwatchers s)" using t by (simp add: table_ok_def)
  have wi: "?p AND NOT POLL_ALL = 0" using i [OF w(1)] by (intro and_within) (auto simp: interest_ok_def)
  show ?thesis
  proof (cases "0 \<le> io_fd (io_ws s w) \<and> ?fd < length (watchers s)")
    case False
    then have "pevents (io_ws s w) = 0" using i [OF w(1)] by (auto simp: interest_ok_def registered_def)
    moreover have "(of_int (io_fd (io_ws s w)) :: u32) \<ge> nwatchers s" if "0 \<le> io_fd (io_ws s w)"
      using fd that False L by (simp add: word_le_nat_alt unat_fd)
    then have "uv__io_stop w ev s = Some s" using w(2) fd by (cases "0 \<le> io_fd (io_ws s w)") (auto simp: uv__io_stop_def)
    ultimately show ?thesis using ok by (intro that [of s v]) auto
  next
    case True
    define s1 where "s1 = upd_io w (\<lambda>x. x\<lparr>pevents := pevents x AND NOT ev\<rparr>) s"
    have nt: "\<not> (of_int (io_fd (io_ws s w)) :: u32) \<ge> nwatchers s" "io_fd (io_ws s w) \<noteq> - 1"
      using fd True L by (simp_all add: word_le_nat_alt unat_fd)
    have q1: "io_queues W s1 v" using io_queues_cong [OF q] by (simp add: s1_def)
    have t1: "table_ok W s1" using table_cong [OF t, of s1] by (simp add: s1_def)
    show ?thesis
    proof (cases "?p = 0")
      case p0: True
      define s2 where "s2 = on_io_queue (QUEUE_INIT (Watcher_node w)) (on_io_queue (QUEUE_REMOVE (Watcher_node w)) s1)"
      let ?v = "v\<lparr>v_watch := removeAll w (v_watch v)\<rparr>"
      have q2: "io_queues W s2 ?v" unfolding s2_def by (rule io_queues_unwatch [OF q1 w(1)])
      have f2: "watchers s2 = watchers s" "nwatchers s2 = nwatchers s" "nfds s2 = nfds s" "polled s2 = polled s"
        "io_ws s2 = (io_ws s)(w := (io_ws s w)\<lparr>pevents := 0\<rparr>)"
        using p0 by (simp_all add: s2_def s1_def)
      have t2: "table_ok W s2" using table_cong [OF t1, of s2] by (simp add: s2_def)
      have io: "interest_ok s ?v k" if "k \<in> W" "k \<noteq> w" for k using i [OF that(1)] that(2) by (auto simp: interest_ok_def)
      have st: "uv__io_stop w ev s =
          (if watchers s ! ?fd = None then Some s2
           else if watchers s ! ?fd = Some w \<and> nfds s > 0
           then Some (upd_io w (\<lambda>x. x\<lparr>events := 0\<rparr>) (s2\<lparr>watchers := (watchers s)[?fd := None], nfds := nfds s - 1\<rparr>)) else None)"
        using w(2) nt True p0 f2 unfolding uv__io_stop_def s1_def [symmetric] s2_def [symmetric] Let_def
        by (simp add: s1_def)
      have "watchers s ! ?fd = None \<or> watchers s ! ?fd = Some w" using w(3) True unfolding fd_free_def by (metis not_None_eq)
      then show ?thesis
      proof
        assume e: "watchers s ! ?fd = None"
        then have n: "pevents (io_ws s w) = 0" using i [OF w(1)] by (auto simp: interest_ok_def registered_def)
        then have "events (io_ws s w) = 0" using i [OF w(1)] by (auto simp: interest_ok_def)
        then have "interest_ok s2 ?v k" if "k \<in> W" for k
          using io [OF that] f2 fd e by (cases "k = w") (auto simp: interest_ok_def registered_def)
        then show ?thesis using st e f2 q2 t2 p0 by (intro that [of s2 ?v]) (auto simp: io_ok_def)
      next
        assume e: "watchers s ! ?fd = Some w"
        let ?s = "upd_io w (\<lambda>x. x\<lparr>events := 0\<rparr>) (s2\<lparr>watchers := (watchers s)[?fd := None], nfds := nfds s - 1\<rparr>)"
        have "table_ok W (s2\<lparr>watchers := (watchers s)[?fd := None], nfds := nfds s - 1\<rparr>)" and n0: "0 < nfds s"
          using table_leave [OF t2, of ?fd w] True e f2 by simp_all
        then have "table_ok W ?s" using table_cong [of W "s2\<lparr>watchers := (watchers s)[?fd := None], nfds := nfds s - 1\<rparr>" ?s] by simp
        moreover have "io_queues W ?s ?v" using io_queues_cong [OF q2] by simp
        moreover have "registered ?s k \<longleftrightarrow> registered s k \<and> k \<noteq> w" for k
          using e True f2 by (auto simp: registered_def nth_list_update)
        then have "interest_ok ?s ?v k" if "k \<in> W" for k
          using io [OF that] f2 fd by (cases "k = w") (auto simp: interest_ok_def)
        ultimately show ?thesis using st e n0 f2 p0 by (intro that [of ?s ?v]) (auto simp: io_ok_def)
      qed
    next
      case pn: False
      then have r: "registered s w" using i [OF w(1)] by (auto simp: interest_ok_def)
      define s2 where "s2 = (if QUEUE_EMPTY (io_queue s1) (Watcher_node w)
        then on_io_queue (QUEUE_INSERT_TAIL Watcher_head (Watcher_node w)) s1 else s1)"
      define v2 where "v2 = (if w \<in> set (v_watch v) then v else v\<lparr>v_watch := v_watch v @ [w]\<rparr>)"
      have q2: "io_queues W s2 v2" using q1 io_queues_watch [OF q1 w(1)] io_queue_empty(3) [OF q1 w(1)] by (simp add: s2_def v2_def)
      have f2: "watchers s2 = watchers s" "nwatchers s2 = nwatchers s" "nfds s2 = nfds s" "polled s2 = polled s"
        "io_ws s2 = (io_ws s)(w := (io_ws s w)\<lparr>pevents := ?p\<rparr>)"
        by (simp_all add: s2_def s1_def)
      have t2: "table_ok W s2" using table_cong [OF t, of s2] f2 by simp
      have ws: "set (v_watch v2) = insert w (set (v_watch v))" by (auto simp: v2_def)
      have "registered s2 k \<longleftrightarrow> registered s k" for k using f2 by (auto simp: registered_def)
      then have "interest_ok s2 v2 k" if "k \<in> W" for k
        using i [OF that] f2 fd r pn wi ws by (cases "k = w") (auto simp: interest_ok_def)
      moreover have "uv__io_stop w ev s = Some s2"
        using w(2) nt True pn unfolding uv__io_stop_def s1_def [symmetric] Let_def by (auto simp: s2_def s1_def)
      ultimately show ?thesis using q2 t2 f2 by (intro that [of s2 v2]) (auto simp: io_ok_def v2_def)
    qed
  qed
qed

lemma io_feed_ok:
  assumes ok: "io_ok W s v" and w: "w \<in> W"
  shows "io_ok W (uv__io_feed w s) (if w \<in> set (v_pend v) then v else v\<lparr>v_pend := v_pend v @ [w]\<rparr>)"
proof -
  have q: "io_queues W s v" and t: "table_ok W s" and i: "\<forall>k \<in> W. interest_ok s v k" using ok by (auto simp: io_ok_def)
  have "table_ok W (uv__io_feed w s)" using table_cong [OF t] by (simp add: uv__io_feed_def)
  moreover have "\<forall>k \<in> W. interest_ok (uv__io_feed w s) (v\<lparr>v_pend := v_pend v @ [w]\<rparr>) k"
    using i by (simp add: interest_ok_def registered_def uv__io_feed_def)
  ultimately show ?thesis
    using ok io_queues_feed [OF q w] io_queue_empty(4) [OF q w] by (auto simp: io_ok_def uv__io_feed_def)
qed

lemma linked_io: "Pending_node w \<in> linked (io_heads W v) (io_lists v) \<Longrightarrow> w \<in> W \<union> set (v_pend v)"
  "Watcher_node w \<in> linked (io_heads W v) (io_lists v) \<Longrightarrow> w \<in> W \<union> set (v_watch v)"
  by (auto simp: linked_def io_heads_def)

lemma io_init_ok:
  assumes ok: "io_ok W s v" and w: "w \<notin> W" "- 1 \<le> fd" "fd < 2 ^ 31 - 2"
  shows "\<exists>s'. uv__io_init w cb fd s = Some s' \<and> io_ok (insert w W) s' v"
proof -
  have q: "io_queues W s v" and t: "table_ok W s" and i: "\<And>k. k \<in> W \<Longrightarrow> interest_ok s v k" using ok by (auto simp: io_ok_def)
  let ?x = "\<lparr>io_cb = cb, io_fd = fd, pevents = 0, events = 0, rcount = 0, wcount = 0\<rparr>"
  let ?s = "upd_io w (\<lambda>_. ?x) (on_io_queue (QUEUE_INIT (Watcher_node w)) (on_io_queue (QUEUE_INIT (Pending_node w)) s))"
  have r: "rings (io_queue s) (io_heads W v) (io_lists v)" and V: "set (v_pend v) \<union> set (v_watch v) \<subseteq> W"
    using q by (auto simp: io_queues_def)
  have u: "(io_lists v)(Pending_node w := []) = io_lists v" "(io_lists v)(Watcher_node w := []) = io_lists v" by auto
  have h: "io_heads (insert w W) v = insert (Watcher_node w) (insert (Pending_node w) (io_heads W v))"
    using w(1) V by (auto simp: io_heads_def)
  have "Pending_node w \<notin> linked (io_heads W v) (io_lists v)" using linked_io(1) [of w W v] w(1) V by auto
  then have r1: "rings (QUEUE_INIT (Pending_node w) (io_queue s)) (insert (Pending_node w) (io_heads W v)) (io_lists v)"
    using rings_init [OF r] u(1) by metis
  have "Watcher_node w \<notin> linked (insert (Pending_node w) (io_heads W v)) (io_lists v)"
    using linked_io(2) [of w W v] w(1) V by (auto simp: linked_def)
  then have "rings (io_queue ?s) (io_heads (insert w W) v) (io_lists v)" using rings_init [OF r1, of "Watcher_node w"] u(2) h by simp
  then have "io_queues (insert w W) ?s v" using V by (auto simp: io_queues_def)
  moreover have nw: "watchers s ! k \<noteq> Some w" if "k < length (watchers s)" for k using t that w(1) by (auto simp: table_ok_def)
  then have "table_ok (insert w W) ?s" using t by (auto simp: table_ok_def used_fds_def)
  moreover have "interest_ok ?s v k" if "k \<in> insert w W" for k
    using that i [of k] w nw V by (cases "k = w") (auto simp: interest_ok_def registered_def)
  ultimately show ?thesis using w(2) by (auto simp: uv__io_init_def io_ok_def)
qed

lemma remove_self: "ring m x [] \<Longrightarrow> QUEUE_REMOVE x m = m"
  by (simp add: ring_def QUEUE_REMOVE_def queue_ops set_next_def set_prev_def fun_upd_idem)

lemma io_close_ok:
  assumes ok: "io_ok W s v" and w: "w \<in> W" "fd_free s w" "watchers s \<noteq> []"
  obtains s' v' where "uv__io_close w s = Some s'" "io_ok (W - {w}) s' v'" "\<And>k. k \<noteq> w \<Longrightarrow> io_ws s' k = io_ws s k"
    "0 \<le> io_fd (io_ws s w) \<Longrightarrow> \<forall>evs ev. polled s' = Some evs \<longrightarrow> ev \<in> set evs \<longrightarrow> ev_ident ev \<noteq> io_fd (io_ws s w)"
proof -
  obtain s1 v1 where s1: "uv__io_stop w POLL_ALL s = Some s1" "io_ok W s1 v1" "pevents (io_ws s1 w) = pevents (io_ws s w) AND NOT POLL_ALL"
    "polled s1 = polled s" "\<And>k. k \<noteq> w \<Longrightarrow> io_ws s1 k = io_ws s k" "io_fd (io_ws s1 w) = io_fd (io_ws s w)" "length (watchers s1) = length (watchers s)"
    by (rule io_stop_ok [OF ok w(1) POLL_ALL_valid w(2)]) blast
  have q1: "io_queues W s1 v1" and t1: "table_ok W s1" and i1: "\<And>k. k \<in> W \<Longrightarrow> interest_ok s1 v1 k" using s1(2) by (auto simp: io_ok_def)
  have r: "rings (io_queue s1) (io_heads W v1) (io_lists v1)" and V: "set (v_pend v1) \<union> set (v_watch v1) \<subseteq> W"
    using q1 by (auto simp: io_queues_def)
  have "pevents (io_ws s1 w) = 0" using s1(3) ok w(1) by (simp add: io_ok_def interest_ok_def)
  then have nw: "w \<notin> set (v_watch v1)" "\<not> registered s1 w" using i1 [OF w(1)] by (auto simp: interest_ok_def)
  let ?s2 = "on_io_queue (QUEUE_REMOVE (Pending_node w)) s1" and ?v = "v1\<lparr>v_pend := removeAll w (v_pend v1)\<rparr>"
  have "rings (io_queue ?s2) (io_heads (W - {w}) ?v) (io_lists ?v)"
  proof (cases "w \<in> set (v_pend v1)")
    case True
    then obtain ys zs where x: "v_pend v1 = ys @ w # zs" by (meson split_list)
    then have e: "removeAll w (v_pend v1) = ys @ zs" using io_queue_empty(8) [OF q1] by (auto simp: removeAll_id)
    have "rings (io_queue ?s2) (io_heads W v1) ((io_lists v1)(Pending_head := map Pending_node (ys @ zs)))"
      using rings_remove [OF r, of Pending_head "map Pending_node ys" "Pending_node w" "map Pending_node zs"] x by simp
    then have "rings (io_queue ?s2) (io_heads (W - {w}) ?v) ((io_lists v1)(Pending_head := map Pending_node (ys @ zs)))"
      by (rule rings_subset) (use x nw in \<open>auto simp: io_heads_def\<close>)
    then show ?thesis using e by (simp add: io_lists_upd)
  next
    case False
    then have "QUEUE_REMOVE (Pending_node w) (io_queue s1) = io_queue s1"
      using rings_ring [OF r, of "Pending_node w"] w(1) by (intro remove_self) simp
    moreover have "rings (io_queue s1) (io_heads (W - {w}) v1) (io_lists v1)"
      by (rule rings_subset [OF r]) (auto simp: io_heads_def)
    ultimately show ?thesis using False by (simp add: removeAll_id)
  qed
  then have q2: "io_queues (W - {w}) ?s2 ?v" using V nw by (auto simp: io_queues_def)
  have tb: "\<not> watchers s1 ! k = Some w" if k: "k < length (watchers s1)" for k
  proof
    assume e: "watchers s1 ! k = Some w"
    then have "io_fd (io_ws s1 w) = int k" using t1 k unfolding table_ok_def by blast
    then show False using nw(2) e k by (simp add: registered_def)
  qed
  have "\<forall>i k. i < length (watchers s1) \<longrightarrow> watchers s1 ! i = Some k \<longrightarrow> k \<in> W - {w}" using t1 tb unfolding table_ok_def by blast
  then have t2: "table_ok (W - {w}) ?s2" using t1 by (simp add: table_ok_def used_fds_def)
  have i2: "interest_ok ?s2 ?v k" if "k \<in> W - {w}" for k
    using i1 [of k] that by (auto simp: interest_ok_def registered_def)
  define s3 where "s3 = (if io_fd (io_ws s w) \<noteq> - 1
    then ?s2\<lparr>polled := map_option (map (\<lambda>ev. if ev_ident ev = io_fd (io_ws s w) then ev\<lparr>ev_ident := - 1\<rparr> else ev)) (polled ?s2)\<rparr> else ?s2)"
  have "- 1 \<le> io_fd (io_ws s w)" using ok w(1) by (simp add: io_ok_def interest_ok_def)
  then have "uv__io_close w s = Some s3"
    using s1(1,6,7) w(3) by (auto simp: uv__io_close_def Let_def uv__platform_invalidate_fd_def s3_def)
  moreover have "io_ok (W - {w}) s3 ?v"
    using io_queues_cong [OF q2, of s3] table_cong [OF t2, of s3] i2 by (auto simp: io_ok_def s3_def interest_ok_def registered_def)
  moreover have "io_ws s3 k = io_ws s k" if "k \<noteq> w" for k using s1(5) [OF that] by (simp add: s3_def)
  moreover have "\<forall>evs ev. polled s3 = Some evs \<longrightarrow> ev \<in> set evs \<longrightarrow> ev_ident ev \<noteq> io_fd (io_ws s w)" if "0 \<le> io_fd (io_ws s w)"
    using that by (auto simp: s3_def)
  ultimately show ?thesis using that by blast
qed

subsection \<open>Properties\<close>

text \<open>
  \<^verbatim>\<open>next_power_of_two\<close> of a value between 1 and \<^verbatim>\<open>2^31\<close> is the least power of two that is not below it.
\<close>

lemma next_power_of_two_spec:
  assumes "0 < val" and "val \<le> 2 ^ 31"
  shows "\<exists>m. next_power_of_two val = 2 ^ m \<and> unat (next_power_of_two val) = 2 ^ m \<and> unat val \<le> 2 ^ m \<and> 2 ^ m < 2 * unat val"
proof -
  obtain m where m: "next_power_of_two val = 2 ^ m" "m \<le> 31" "unat val \<le> 2 ^ m" "2 ^ m < 2 * unat val"
    using next_power_of_two_eq [OF assms] by blast
  moreover have "unat ((2 :: u32) ^ m) = 2 ^ m" using m(2) by (intro unat_exp) simp
  ultimately show ?thesis by auto
qed

text \<open>
  C22: The operations on a watcher whose file descriptor no other watcher uses keep the table and the queues consistent, and none
  of their assertions fails: \<^verbatim>\<open>nfds\<close> is the number of table entries in use, a watcher is in the table exactly when it is interested in
  events, and it is in the watcher queue when its interest differs from what the system was told. After \<^verbatim>\<open>uv__io_close\<close> no event
  under way has the file descriptor any more.
\<close>

theorem io_watchers_exact:
  assumes "io_inv W s" and "w \<in> W" and "fd_free s w" and "valid_events ev"
  shows "(io_fd (io_ws s w) < 0 \<or>
            (\<exists>s'. uv__io_start w ev s = Some s' \<and> io_inv W s' \<and> pevents (io_ws s' w) = pevents (io_ws s w) OR ev)) \<and>
         (\<exists>s'. uv__io_stop w ev s = Some s' \<and> io_inv W s' \<and> pevents (io_ws s' w) = pevents (io_ws s w) AND NOT ev) \<and>
         io_inv W (uv__io_feed w s) \<and>
         (watchers s = [] \<or>
            (\<exists>s'. uv__io_close w s = Some s' \<and> io_inv (W - {w}) s' \<and>
               (io_fd (io_ws s w) < 0 \<or> io_fd (io_ws s w) \<notin> ev_ident ` set (case polled s' of None \<Rightarrow> [] | Some evs \<Rightarrow> evs))))"
proof -
  obtain v where ok: "io_ok W s v" using assms(1) by (auto simp: io_inv_def)
  have "\<exists>s'. uv__io_start w ev s = Some s' \<and> io_inv W s' \<and> pevents (io_ws s' w) = pevents (io_ws s w) OR ev" if "0 \<le> io_fd (io_ws s w)"
    by (rule io_start_ok [OF ok assms(2) that assms(4,3)]) (auto simp: io_inv_def)
  moreover have "\<exists>s'. uv__io_stop w ev s = Some s' \<and> io_inv W s' \<and> pevents (io_ws s' w) = pevents (io_ws s w) AND NOT ev"
    by (rule io_stop_ok [OF ok assms(2,4,3)]) (auto simp: io_inv_def)
  moreover have "io_inv W (uv__io_feed w s)" using io_feed_ok [OF ok assms(2)] by (auto simp: io_inv_def)
  moreover have "\<exists>s'. uv__io_close w s = Some s' \<and> io_inv (W - {w}) s' \<and>
      (io_fd (io_ws s w) < 0 \<or> io_fd (io_ws s w) \<notin> ev_ident ` set (case polled s' of None \<Rightarrow> [] | Some evs \<Rightarrow> evs))" if n: "watchers s \<noteq> []"
  proof -
    obtain s' v' where "uv__io_close w s = Some s'" "io_ok (W - {w}) s' v'"
      "0 \<le> io_fd (io_ws s w) \<Longrightarrow> \<forall>evs ev. polled s' = Some evs \<longrightarrow> ev \<in> set evs \<longrightarrow> ev_ident ev \<noteq> io_fd (io_ws s w)"
      by (rule io_close_ok [OF ok assms(2,3) n]) blast
    then show ?thesis by (intro exI [of _ s']) (force simp: io_inv_def split: option.splits)
  qed
  ultimately show ?thesis by force
qed

definition io_start_state :: io_loop where
  "io_start_state =
     \<lparr>io_queue = QUEUE_INIT Watcher_head (QUEUE_INIT Pending_head \<lparr>q_next = (\<lambda>x. x), q_prev = (\<lambda>x. x)\<rparr>),
      io_ws = (\<lambda>_. \<lparr>io_cb = Fn_io 0, io_fd = - 1, pevents = 0, events = 0, rcount = 0, wcount = 0\<rparr>),
      watchers = [], nwatchers = 0, nfds = 0, polled = None\<rparr>"

lemma io_start_state_ok: "io_ok {} io_start_state \<lparr>v_pend = [], v_watch = []\<rparr>"
proof -
  let ?v = "\<lparr>v_pend = [], v_watch = []\<rparr>"
  have "io_lists ?v h = []" for h by (cases h) auto
  moreover have "ring (io_queue io_start_state) h []" for h by (simp add: io_start_state_def QUEUE_INIT_def ring_def)
  ultimately have "rings (io_queue io_start_state) (io_heads {} ?v) (io_lists ?v)" by (simp add: rings_def)
  then show ?thesis by (simp add: io_ok_def io_queues_def table_ok_def used_fds_def) (simp add: io_start_state_def)
qed

definition example_io :: io_loop where
  "example_io = the (uv__io_init 1 (Fn_io 5) 7 io_start_state)"

theorem io_watchers_exact_witness:
  "\<exists>s'. uv__io_start 1 POLLIN example_io = Some s' \<and> io_inv {1} s' \<and> pevents (io_ws s' 1) = POLLIN"
proof -
  have "io_inv {1} example_io"
    using io_init_ok [OF io_start_state_ok, of 1 7 "Fn_io 5"] by (auto simp: example_io_def io_inv_def)
  moreover have "fd_free example_io 1" "io_fd (io_ws example_io 1) = 7" "pevents (io_ws example_io 1) = 0"
    by (simp_all add: example_io_def uv__io_init_def fd_free_def io_start_state_def)
  moreover have "valid_events POLLIN"
    by (simp add: valid_events_def POLL_ALL_def POLLIN_def POLLOUT_def UV__POLLRDHUP_def UV__POLLPRI_def POLLPRI_def)
  ultimately show ?thesis using io_watchers_exact [of "{1}" example_io 1 POLLIN] by simp
qed

end
