(* ===== verification/Uv_Event.thy ===== *)
theory Uv_Event
  imports Uv_Watcher Uv_Io "HOL-Library.Monad_Syntax"
begin

text \<open>
  The event loop: closing of handles and \<^verbatim>\<open>uv_run\<close> of \<^verbatim>\<open>src/unix/core.c\<close>, and \<^verbatim>\<open>uv__io_poll\<close> of \<^verbatim>\<open>src/unix/kqueue.c\<close>. The clock, the
  system call \<^verbatim>\<open>kevent\<close> and the callbacks are parameters; they act on the loop and on a state of their own (type \<open>'u\<close>).
\<close>

subsection \<open>State\<close>

text \<open>Calls of callbacks: of a timer, of a prepare, check or idle watcher, of an I/O watcher, of a closed handle.\<close>

datatype event_call = Timer_cb nat nat | Watcher_cb handle_type nat nat | Io_cb io_fn nat u32 | Close_cb nat nat

record event_loop =
  e_watch :: watch_loop
  e_io :: io_loop
  closing_handles :: "nat option"
  next_closing :: "nat \<Rightarrow> nat option"
  close_cb :: "nat \<Rightarrow> nat option"
  stop_flag :: u32
  active_reqs_count :: u32
  signal_io_watcher :: nat
  poll_io_watcher :: "nat \<Rightarrow> nat"
  poll_cb :: "nat \<Rightarrow> nat option"

abbreviation e_loop :: "event_loop \<Rightarrow> uv_loop" where
  "e_loop e \<equiv> w_loop (e_watch e)"

definition set_loop :: "uv_loop \<Rightarrow> event_loop \<Rightarrow> event_loop" where
  "set_loop l e = e\<lparr>e_watch := (e_watch e)\<lparr>w_loop := l\<rparr>\<rparr>"

datatype os_errno = EINTR | EBADF | ENOENT | E_other

datatype kevent_result = K_events "kevent list" | K_error os_errno

text \<open>
  What the system does: the clock in nanoseconds, \<^verbatim>\<open>kevent\<close> with changes only, \<^verbatim>\<open>kevent\<close> that waits (with an optional time in
  seconds and nanoseconds), and the callbacks.
\<close>

record 'u os =
  hrtime :: "'u \<Rightarrow> u64 \<times> 'u"
  kevent_change :: "kevent list \<Rightarrow> 'u \<Rightarrow> os_errno option \<times> 'u"
  kevent_wait :: "kevent list \<Rightarrow> (int \<times> int) option \<Rightarrow> 'u \<Rightarrow> kevent_result \<times> 'u"
  run_cb :: "event_call \<Rightarrow> 'u \<times> event_loop \<Rightarrow> 'u \<times> event_loop"

type_synonym 'u world = "'u \<times> event_loop"

definition uv__update_time :: "'u os \<Rightarrow> 'u world \<Rightarrow> 'u world" where
  "uv__update_time os w =
     (case w of (u, e) \<Rightarrow> case hrtime os u of (t, u') \<Rightarrow> (u', set_loop ((e_loop e)\<lparr>time := t div 1000000\<rparr>) e))"

subsection \<open>Timers and watchers of the loop\<close>

definition loop_timers :: "nat \<Rightarrow> 'u os \<Rightarrow> 'u world \<Rightarrow> 'u world option" where
  "loop_timers fuel os w =
     map_option (\<lambda>((u, e), l). (u, set_loop l e))
       (uv__run_timers fuel
          (\<lambda>k h ((u, e), l). case run_cb os (Timer_cb k h) (u, set_loop l e) of (u', e') \<Rightarrow> ((u', e'), e_loop e'))
          (w, e_loop (snd w)))"

definition loop_watchers :: "nat \<Rightarrow> 'u os \<Rightarrow> handle_type \<Rightarrow> 'u world \<Rightarrow> 'u world option" where
  "loop_watchers fuel os ty w =
     map_option (\<lambda>((u, e), s). (u, e\<lparr>e_watch := s\<rparr>))
       (uv__run_watchers fuel ty
          (\<lambda>k h ((u, e), s). case run_cb os (Watcher_cb ty k h) (u, e\<lparr>e_watch := s\<rparr>) of (u', e') \<Rightarrow> ((u', e'), e_watch e'))
          (w, e_watch (snd w)))"

text \<open>\<^verbatim>\<open>uv__run_pending\<close>\<close>

definition on_e_io :: "(io_loop \<Rightarrow> io_loop) \<Rightarrow> event_loop \<Rightarrow> event_loop" where
  "on_e_io f e = e\<lparr>e_io := f (e_io e)\<rparr>"

definition run_io_cb :: "'u os \<Rightarrow> nat \<Rightarrow> u32 \<Rightarrow> 'u world \<Rightarrow> 'u world" where
  "run_io_cb os i ev w = run_cb os (Io_cb (io_cb (io_ws (e_io (snd w)) i)) i ev) w"

fun pending_loop :: "nat \<Rightarrow> 'u os \<Rightarrow> 'u world \<Rightarrow> 'u world option" where
  "pending_loop fuel os (u, e) =
     (if QUEUE_EMPTY (io_queue (e_io e)) Pending_local then Some (u, e)
      else
        (case fuel of
           0 \<Rightarrow> None
         | Suc f \<Rightarrow>
             (case QUEUE_HEAD (io_queue (e_io e)) Pending_local of
                Pending_node i \<Rightarrow>
                  let e1 = on_e_io (on_io_queue (QUEUE_INIT (Pending_node i))) (on_e_io (on_io_queue (QUEUE_REMOVE (Pending_node i))) e)
                  in pending_loop f os (run_io_cb os i POLLOUT (u, e1))
              | _ \<Rightarrow> None)))"

declare pending_loop.simps [simp del]

definition uv__run_pending :: "nat \<Rightarrow> 'u os \<Rightarrow> 'u world \<Rightarrow> (bool \<times> 'u world) option" where
  "uv__run_pending fuel os w =
     (case w of (u, e) \<Rightarrow>
        if QUEUE_EMPTY (io_queue (e_io e)) Pending_head then Some (False, (u, e))
        else do {
          w' \<leftarrow> pending_loop fuel os (u, on_e_io (on_io_queue (QUEUE_MOVE Pending_head Pending_local)) e);
          Some (True, w')
        })"

subsection \<open>Closing\<close>

definition set_flag :: "nat \<Rightarrow> u32 \<Rightarrow> event_loop \<Rightarrow> event_loop" where
  "set_flag h f e = set_loop (set_flags h (flags_of (e_loop e) h OR f) (e_loop e)) e"

definition uv__make_close_pending :: "nat \<Rightarrow> event_loop \<Rightarrow> event_loop option" where
  "uv__make_close_pending h e =
     (if flags_of (e_loop e) h AND UV_HANDLE_CLOSING \<noteq> 0 \<and> flags_of (e_loop e) h AND UV_HANDLE_CLOSED = 0
      then Some (e\<lparr>next_closing := (next_closing e)(h := closing_handles e), closing_handles := Some h\<rparr>) else None)"

text \<open>\<^verbatim>\<open>uv__poll_stop\<close> of \<^verbatim>\<open>src/unix/poll.c\<close>\<close>

definition uv__poll_stop :: "nat \<Rightarrow> event_loop \<Rightarrow> event_loop option" where
  "uv__poll_stop h e =
     do {
       s1 \<leftarrow> uv__io_stop (poll_io_watcher e h) POLL_ALL (e_io e);
       let e1 = set_loop (uv__handle_stop h (e_loop e)) (e\<lparr>e_io := s1\<rparr>);
       s2 \<leftarrow> uv__platform_invalidate_fd (io_fd (io_ws (e_io e1) (poll_io_watcher e1 h))) (e_io e1);
       Some (e1\<lparr>e_io := s2\<rparr>)
     }"

text \<open>The part of \<^verbatim>\<open>uv_close\<close> that depends on the kind of the handle; other kinds of handles are outside of the model.\<close>

definition close_handle :: "nat \<Rightarrow> event_loop \<Rightarrow> event_loop option" where
  "close_handle h e =
     (case h_type (handles (e_loop e) h) of
        UV_TIMER \<Rightarrow> map_option (\<lambda>l. set_loop l e) (uv__timer_close h (e_loop e))
      | UV_PREPARE \<Rightarrow> Some (e\<lparr>e_watch := uv__watcher_close h (e_watch e)\<rparr>)
      | UV_CHECK \<Rightarrow> Some (e\<lparr>e_watch := uv__watcher_close h (e_watch e)\<rparr>)
      | UV_IDLE \<Rightarrow> Some (e\<lparr>e_watch := uv__watcher_close h (e_watch e)\<rparr>)
      | UV_POLL \<Rightarrow> uv__poll_stop h e
      | _ \<Rightarrow> None)"

definition uv_close :: "nat \<Rightarrow> nat option \<Rightarrow> event_loop \<Rightarrow> event_loop option" where
  "uv_close h cb e =
     (if uv__is_closing (e_loop e) h then None
      else do {
        e1 \<leftarrow> close_handle h ((set_flag h UV_HANDLE_CLOSING e)\<lparr>close_cb := (close_cb e)(h := cb)\<rparr>);
        uv__make_close_pending h e1
      })"

definition uv__finish_close :: "'u os \<Rightarrow> nat \<Rightarrow> 'u world \<Rightarrow> 'u world option" where
  "uv__finish_close os h w =
     (case w of (u, e) \<Rightarrow>
        if flags_of (e_loop e) h AND UV_HANDLE_CLOSING \<noteq> 0 \<and> flags_of (e_loop e) h AND UV_HANDLE_CLOSED = 0 \<and>
           h_type (handles (e_loop e) h) \<noteq> UV_other
        then
          let e1 = set_flag h UV_HANDLE_CLOSED e;
              l2 = uv__handle_unref h (e_loop e1);
              e3 = set_loop (l2\<lparr>handle_queue := removeAll h (handle_queue l2)\<rparr>) e1
          in (case close_cb e3 h of None \<Rightarrow> Some (u, e3) | Some k \<Rightarrow> Some (run_cb os (Close_cb k h) (u, e3)))
        else None)"

fun closing_loop :: "nat \<Rightarrow> 'u os \<Rightarrow> nat option \<Rightarrow> 'u world \<Rightarrow> 'u world option" where
  "closing_loop fuel os None w = Some w"
| "closing_loop 0 os (Some p) w = None"
| "closing_loop (Suc f) os (Some p) w =
     (let q = next_closing (snd w) p in do { w' \<leftarrow> uv__finish_close os p w; closing_loop f os q w' })"

definition uv__run_closing_handles :: "nat \<Rightarrow> 'u os \<Rightarrow> 'u world \<Rightarrow> 'u world option" where
  "uv__run_closing_handles fuel os w =
     (case w of (u, e) \<Rightarrow> closing_loop fuel os (closing_handles e) (u, e\<lparr>closing_handles := None\<rparr>))"

subsection \<open>Polling\<close>

definition EV_ADD :: u32 where "EV_ADD = 0x0001"
definition EV_DELETE :: u32 where "EV_DELETE = 0x0002"
definition EV_ONESHOT :: u32 where "EV_ONESHOT = 0x0010"
definition EV_ERROR :: u32 where "EV_ERROR = 0x4000"
definition EV_EOF :: u32 where "EV_EOF = 0x8000"

text \<open>\<^verbatim>\<open>NOTE_ATTRIB | NOTE_WRITE | NOTE_RENAME | NOTE_DELETE | NOTE_EXTEND | NOTE_REVOKE\<close>\<close>

definition NOTE_vnode :: u32 where "NOTE_vnode = 0x08 OR 0x02 OR 0x20 OR 0x01 OR 0x04 OR 0x40"

definition EV_SET :: "int \<Rightarrow> kfilter \<Rightarrow> u32 \<Rightarrow> u32 \<Rightarrow> kevent" where
  "EV_SET fd filt op ff = \<lparr>ev_ident = fd, ev_filter = filt, ev_flags = op, ev_fflags = ff, ev_data = 0\<rparr>"

text \<open>One more change; when the array is full the changes are handed to the system.\<close>

definition push_change :: "'u os \<Rightarrow> kevent \<Rightarrow> kevent list \<times> 'u \<Rightarrow> (kevent list \<times> 'u) option" where
  "push_change os ev cu =
     (case cu of (chs, u) \<Rightarrow>
        if length chs + 1 = 1024
        then (case kevent_change os (chs @ [ev]) u of (None, u') \<Rightarrow> Some ([], u') | (Some _, _) \<Rightarrow> None)
        else Some (chs @ [ev], u))"

definition newly :: "u32 \<Rightarrow> uv__io_t \<Rightarrow> bool" where
  "newly b x \<longleftrightarrow> events x AND b = 0 \<and> pevents x AND b \<noteq> 0"

text \<open>The changes for one watcher.\<close>

definition watcher_changes :: "uv__io_t \<Rightarrow> kevent list" where
  "watcher_changes x =
     (if newly POLLIN x
      then [if io_cb x = Fn_fs_event then EV_SET (io_fd x) EVFILT_VNODE (EV_ADD OR EV_ONESHOT) NOTE_vnode
            else EV_SET (io_fd x) EVFILT_READ EV_ADD 0] else []) @
     (if newly POLLOUT x then [EV_SET (io_fd x) EVFILT_WRITE EV_ADD 0] else []) @
     (if newly UV__POLLPRI x then [EV_SET (io_fd x) EV_OOBAND EV_ADD 0] else [])"

fun push_changes :: "'u os \<Rightarrow> kevent list \<Rightarrow> kevent list \<times> 'u \<Rightarrow> (kevent list \<times> 'u) option" where
  "push_changes os [] cu = Some cu"
| "push_changes os (ev # evs) cu = do { cu' \<leftarrow> push_change os ev cu; push_changes os evs cu' }"

fun register_loop :: "nat \<Rightarrow> 'u os \<Rightarrow> (kevent list \<times> 'u) \<times> io_loop \<Rightarrow> ((kevent list \<times> 'u) \<times> io_loop) option" where
  "register_loop fuel os (cu, s) =
     (if QUEUE_EMPTY (io_queue s) Watcher_head then Some (cu, s)
      else
        (case fuel of
           0 \<Rightarrow> None
         | Suc f \<Rightarrow>
             (case QUEUE_HEAD (io_queue s) Watcher_head of
                Watcher_node w \<Rightarrow>
                  let s1 = on_io_queue (QUEUE_INIT (Watcher_node w)) (on_io_queue (QUEUE_REMOVE (Watcher_node w)) s);
                      x = io_ws s1 w
                  in if pevents x \<noteq> 0 \<and> io_fd x \<ge> 0 \<and> io_fd x < sint (nwatchers s1)
                     then do {
                       cu' \<leftarrow> push_changes os (watcher_changes x) cu;
                       register_loop f os (cu', upd_io w (\<lambda>x. x\<lparr>events := pevents x\<rparr>) s1)
                     }
                     else None
              | _ \<Rightarrow> None)))"

declare register_loop.simps [simp del]

text \<open>Taking an event back from the system; the errors \<open>ok\<close> are ignored, others abort.\<close>

definition disarm :: "'u os \<Rightarrow> kevent \<Rightarrow> os_errno set \<Rightarrow> 'u \<Rightarrow> 'u option" where
  "disarm os ev ok u =
     (case kevent_change os [EV_SET (ev_ident ev) (ev_filter ev) EV_DELETE 0] u of
        (None, u') \<Rightarrow> Some u' | (Some e, u') \<Rightarrow> if e \<in> ok then Some u' else None)"

definition upd_e_io :: "nat \<Rightarrow> (uv__io_t \<Rightarrow> uv__io_t) \<Rightarrow> event_loop \<Rightarrow> event_loop" where
  "upd_e_io i f = on_e_io (upd_io i f)"

text \<open>\<^verbatim>\<open>revents\<close> as far as the filter of the event decides it.\<close>

definition filter_revents :: "'u os \<Rightarrow> kevent \<Rightarrow> nat \<Rightarrow> 'u world \<Rightarrow> (u32 \<times> 'u world) option" where
  "filter_revents os ev i w =
     (case w of (u, e) \<Rightarrow>
        let x = io_ws (e_io e) i;
            off = map_option (\<lambda>u'. (0, (u', e))) (disarm os ev {ENOENT} u)
        in (case ev_filter ev of
              EVFILT_READ \<Rightarrow>
                if pevents x AND POLLIN \<noteq> 0 then Some (POLLIN, (u, upd_e_io i (\<lambda>x. x\<lparr>rcount := ev_data ev\<rparr>) e)) else off
            | EV_OOBAND \<Rightarrow>
                if pevents x AND UV__POLLPRI \<noteq> 0 then Some (UV__POLLPRI, (u, upd_e_io i (\<lambda>x. x\<lparr>rcount := ev_data ev\<rparr>) e)) else off
            | EVFILT_WRITE \<Rightarrow>
                if pevents x AND POLLOUT \<noteq> 0 then Some (POLLOUT, (u, upd_e_io i (\<lambda>x. x\<lparr>wcount := ev_data ev\<rparr>) e)) else off
            | _ \<Rightarrow> Some (0, (u, e))))"

text \<open>The body of the loop over the events: \<^verbatim>\<open>have_signals\<close> and \<^verbatim>\<open>nevents\<close> are counted on.\<close>

definition dispatch_event :: "'u os \<Rightarrow> kevent \<Rightarrow> (bool \<times> nat) \<times> 'u world \<Rightarrow> ((bool \<times> nat) \<times> 'u world) option" where
  "dispatch_event os ev st =
     (case st of ((have_signals, nevents), (u, e)) \<Rightarrow>
        if ev_ident ev = - 1 then Some st
        else if \<not> (0 \<le> ev_ident ev \<and> nat (ev_ident ev) < length (watchers (e_io e))) then None
        else
          (case watchers (e_io e) ! nat (ev_ident ev) of
             None \<Rightarrow> map_option (\<lambda>u'. ((have_signals, nevents), (u', e))) (disarm os ev {EBADF, ENOENT} u)
           | Some i \<Rightarrow>
               if ev_filter ev = EVFILT_VNODE then
                 if events (io_ws (e_io e) i) = POLLIN \<and> pevents (io_ws (e_io e) i) = POLLIN
                 then Some ((have_signals, nevents + 1), run_io_cb os i (ev_fflags ev) (u, e)) else None
               else do {
                 (r0, w1) \<leftarrow> filter_revents os ev i (u, e);
                 let r1 = (if ev_flags ev AND EV_ERROR \<noteq> 0 then r0 OR POLLERR else r0);
                 let r2 = (if ev_flags ev AND EV_EOF \<noteq> 0 \<and> pevents (io_ws (e_io e) i) AND UV__POLLRDHUP \<noteq> 0
                           then r1 OR UV__POLLRDHUP else r1);
                 if r2 = 0 then Some ((have_signals, nevents), w1)
                 else if i = signal_io_watcher e then Some ((True, nevents + 1), w1)
                 else Some ((have_signals, nevents + 1), run_io_cb os i r2 w1)
               }))"

text \<open>The events are read from the array again and again: a callback may have invalidated some.\<close>

fun dispatch :: "nat \<Rightarrow> 'u os \<Rightarrow> nat \<Rightarrow> (bool \<times> nat) \<times> 'u world \<Rightarrow> ((bool \<times> nat) \<times> 'u world) option" where
  "dispatch 0 os i st = Some st"
| "dispatch (Suc n) os i st =
     (case polled (e_io (snd (snd st))) of
        None \<Rightarrow> None
      | Some evs \<Rightarrow> if i < length evs then do { st' \<leftarrow> dispatch_event os (evs ! i) st; dispatch n os (Suc i) st' } else None)"

definition set_polled :: "kevent list option \<Rightarrow> event_loop \<Rightarrow> event_loop" where
  "set_polled p = on_e_io (\<lambda>s. s\<lparr>polled := p\<rparr>)"

fun poll_loop :: "nat \<Rightarrow> 'u os \<Rightarrow> u64 \<Rightarrow> nat \<Rightarrow> kevent list \<Rightarrow> int \<Rightarrow> 'u world \<Rightarrow> 'u world option" where
  "poll_loop 0 os base count chs tmo w = None"
| "poll_loop (Suc f) os base count chs tmo (u, e) =
     (case kevent_wait os chs (if tmo = - 1 then None else Some (tmo div 1000, tmo mod 1000 * 1000000)) u of
        (r, u1) \<Rightarrow>
          let w2 = uv__update_time os (u1, e);
              update_timeout = (\<lambda>w :: 'u world.
                if tmo > 0 then
                  let diff = time (e_loop (snd w)) - base in
                  if diff \<ge> of_int tmo then Some w else poll_loop f os base count [] (tmo - uint diff) w
                else None)
          in (case r of
                K_error er \<Rightarrow>
                  if er \<noteq> EINTR then None
                  else if tmo = 0 then Some w2
                  else if tmo = - 1 then poll_loop f os base count [] tmo w2
                  else update_timeout w2
              | K_events [] \<Rightarrow> if tmo = - 1 then None else Some w2
              | K_events evs \<Rightarrow>
                  if watchers (e_io (snd w2)) = [] then None
                  else
                    (case dispatch (length evs) os 0 ((False, 0), (fst w2, set_polled (Some evs) (snd w2))) of
                       None \<Rightarrow> None
                     | Some ((have_signals, nevents), w3) \<Rightarrow>
                         let w4 = (if have_signals then run_io_cb os (signal_io_watcher (snd w3)) POLLIN w3 else w3);
                             w5 = (fst w4, set_polled None (snd w4))
                         in if have_signals then Some w5
                            else if nevents \<noteq> 0 then
                              if length evs = 1024 \<and> count - 1 \<noteq> 0 then poll_loop f os base (count - 1) [] 0 w5 else Some w5
                            else if tmo = 0 then Some w5
                            else if tmo = - 1 then poll_loop f os base count [] tmo w5
                            else update_timeout w5)))"

definition uv__io_poll :: "nat \<Rightarrow> 'u os \<Rightarrow> int \<Rightarrow> 'u world \<Rightarrow> 'u world option" where
  "uv__io_poll fuel os tmo w =
     (case w of (u, e) \<Rightarrow>
        if nfds (e_io e) = 0 then if QUEUE_EMPTY (io_queue (e_io e)) Watcher_head then Some (u, e) else None
        else do {
          ((chs, u1), s1) \<leftarrow> register_loop fuel os (([], u), e_io e);
          if tmo \<ge> - 1 then poll_loop fuel os (time (e_loop e)) 48 chs tmo (u1, e\<lparr>e_io := s1\<rparr>) else None
        })"

subsection \<open>Running\<close>

definition uv__has_active_handles :: "event_loop \<Rightarrow> bool" where
  "uv__has_active_handles e \<longleftrightarrow> active_handles (e_loop e) > 0"

definition uv__has_active_reqs :: "event_loop \<Rightarrow> bool" where
  "uv__has_active_reqs e \<longleftrightarrow> active_reqs_count e > 0"

definition uv_backend_timeout :: "event_loop \<Rightarrow> int" where
  "uv_backend_timeout e =
     (if stop_flag e \<noteq> 0 then 0
      else if \<not> uv__has_active_handles e \<and> \<not> uv__has_active_reqs e then 0
      else if \<not> QUEUE_EMPTY (w_queue (e_watch e)) (Watch_head UV_IDLE) then 0
      else if \<not> QUEUE_EMPTY (io_queue (e_io e)) Pending_head then 0
      else if closing_handles e \<noteq> None then 0
      else uv__next_timeout (e_loop e))"

definition uv__loop_alive :: "event_loop \<Rightarrow> bool" where
  "uv__loop_alive e \<longleftrightarrow> uv__has_active_handles e \<or> uv__has_active_reqs e \<or> closing_handles e \<noteq> None"

definition uv_stop :: "event_loop \<Rightarrow> event_loop" where
  "uv_stop e = e\<lparr>stop_flag := 1\<rparr>"

datatype uv_run_mode = UV_RUN_DEFAULT | UV_RUN_ONCE | UV_RUN_NOWAIT

text \<open>The body of the loop in \<^verbatim>\<open>uv_run\<close>.\<close>

definition run_iteration :: "nat \<Rightarrow> 'u os \<Rightarrow> uv_run_mode \<Rightarrow> 'u world \<Rightarrow> 'u world option" where
  "run_iteration fuel os mode w =
     do {
       w1 \<leftarrow> loop_timers fuel os (uv__update_time os w);
       (ran_pending, w2) \<leftarrow> uv__run_pending fuel os w1;
       w3 \<leftarrow> loop_watchers fuel os UV_IDLE w2;
       w4 \<leftarrow> loop_watchers fuel os UV_PREPARE w3;
       let tmo = (if mode = UV_RUN_ONCE \<and> \<not> ran_pending \<or> mode = UV_RUN_DEFAULT then uv_backend_timeout (snd w4) else 0);
       w5 \<leftarrow> uv__io_poll fuel os tmo w4;
       w6 \<leftarrow> loop_watchers fuel os UV_CHECK w5;
       w7 \<leftarrow> uv__run_closing_handles fuel os w6;
       if mode = UV_RUN_ONCE then loop_timers fuel os (uv__update_time os w7) else Some w7
     }"

fun run_loop :: "nat \<Rightarrow> nat \<Rightarrow> 'u os \<Rightarrow> uv_run_mode \<Rightarrow> bool \<Rightarrow> 'u world \<Rightarrow> (bool \<times> 'u world) option" where
  "run_loop n fuel os mode r w =
     (if r \<and> stop_flag (snd w) = 0 then
        (case n of
           0 \<Rightarrow> None
         | Suc n' \<Rightarrow> do {
             w' \<leftarrow> run_iteration fuel os mode w;
             let r' = uv__loop_alive (snd w');
             if mode = UV_RUN_ONCE \<or> mode = UV_RUN_NOWAIT then Some (r', w') else run_loop n' fuel os mode r' w'
           })
      else Some (r, w))"

declare run_loop.simps [simp del]

definition uv_run :: "nat \<Rightarrow> nat \<Rightarrow> 'u os \<Rightarrow> uv_run_mode \<Rightarrow> 'u world \<Rightarrow> (bool \<times> 'u world) option" where
  "uv_run n fuel os mode w =
     (let r = uv__loop_alive (snd w);
          w1 = (if \<not> r then uv__update_time os w else w)
      in do {
        (r', w2) \<leftarrow> run_loop n fuel os mode r w1;
        Some (r', (fst w2, if stop_flag (snd w2) \<noteq> 0 then (snd w2)\<lparr>stop_flag := 0\<rparr> else snd w2))
      })"

end
