(* ===== verification/Uv_Poll.thy ===== *)
theory Uv_Poll
  imports Uv_Event
begin

text \<open>Properties of \<^verbatim>\<open>uv__io_poll\<close>: what it registers with the system, and how long it polls.\<close>

subsection \<open>Registration\<close>

lemma sint_small: "unat (n :: u32) < 2 ^ 31 \<Longrightarrow> sint n = int (unat n)"
proof -
  assume "unat n < 2 ^ 31"
  then have u: "uint n < 2 ^ 31" by (metis int_ops(3) of_nat_less_iff of_nat_power of_nat_numeral of_nat_unat)
  have "signed_take_bit 31 (uint n) = uint n" by (rule signed_take_bit_int_eq_self [OF _ u]) (rule order_trans [OF _ uint_ge_0], simp)
  then show "sint n = int (unat n)" by (simp add: sint_uint)
qed

lemma push_changes_small:
  "length chs + length evs < 1024 \<Longrightarrow> push_changes os evs (chs, u) = Some (chs @ evs, u)"
  by (induction evs arbitrary: chs) (auto simp: push_change_def)

lemma register_one:
  assumes ok: "io_ok W s v" and v: "v_watch v = w # ws"
  shows "io_ok W (upd_io w (\<lambda>x. x\<lparr>events := pevents x\<rparr>)
                    (on_io_queue (QUEUE_INIT (Watcher_node w)) (on_io_queue (QUEUE_REMOVE (Watcher_node w)) s))) (v\<lparr>v_watch := ws\<rparr>)"
    and "pevents (io_ws s w) \<noteq> 0" "0 \<le> io_fd (io_ws s w)" "io_fd (io_ws s w) < sint (nwatchers s)" "w \<in> W" "w \<notin> set ws"
proof -
  have q: "io_queues W s v" and t: "table_ok W s" and i: "\<And>k. k \<in> W \<Longrightarrow> interest_ok s v k" using ok by (auto simp: io_ok_def)
  show w: "w \<in> W" using q v by (auto simp: io_queues_def)
  have d: "removeAll w (v_watch v) = ws" "w \<notin> set ws" using io_queue_empty(7) [OF q] v by (auto simp: removeAll_id)
  then show "w \<notin> set ws" by simp
  show p: "pevents (io_ws s w) \<noteq> 0" using i [OF w] v by (auto simp: interest_ok_def)
  then have r: "registered s w" using i [OF w] by (simp add: interest_ok_def)
  then show "0 \<le> io_fd (io_ws s w)" by (simp add: registered_def)
  show "io_fd (io_ws s w) < sint (nwatchers s)"
  proof -
    have "length (watchers s) = unat (nwatchers s)" "unat (nwatchers s) < 2 ^ 31" using t by (simp_all add: table_ok_def)
    then have "int (length (watchers s)) = sint (nwatchers s)" using sint_small by simp
    then show ?thesis using r unfolding registered_def by linarith
  qed
  let ?s1 = "on_io_queue (QUEUE_INIT (Watcher_node w)) (on_io_queue (QUEUE_REMOVE (Watcher_node w)) s)"
  let ?s = "upd_io w (\<lambda>x. x\<lparr>events := pevents x\<rparr>) ?s1"
  have "io_queues W ?s (v\<lparr>v_watch := ws\<rparr>)" using io_queues_cong [OF io_queues_unwatch [OF q w]] d by simp
  moreover have "table_ok W ?s" using table_cong [OF t] by simp
  moreover have "interest_ok ?s (v\<lparr>v_watch := ws\<rparr>) k" if "k \<in> W" for k
    using i [OF that] v d p r by (cases "k = w") (auto simp: interest_ok_def registered_def)
  ultimately show "io_ok W ?s (v\<lparr>v_watch := ws\<rparr>)" by (simp add: io_ok_def)
qed

lemma push_changes_append: "push_changes os (a @ b) cu = Option.bind (push_changes os a cu) (push_changes os b)"
proof (induction a arbitrary: cu)
  case (Cons ev a)
  then show ?case by (cases "push_change os ev cu") simp_all
qed simp

lemma register_queue:
  assumes "io_ok W s v" and "length (v_watch v) \<le> fuel"
  shows "\<exists>s'. (\<forall>cu. register_loop fuel os (cu, s) =
             map_option (\<lambda>cu'. (cu', s')) (push_changes os (concat (map (\<lambda>w. watcher_changes (io_ws s w)) (v_watch v))) cu)) \<and>
           io_ok W s' (v\<lparr>v_watch := []\<rparr>) \<and>
           (\<forall>w. io_ws s' w = (if w \<in> set (v_watch v) then (io_ws s w)\<lparr>events := pevents (io_ws s w)\<rparr> else io_ws s w)) \<and>
           watchers s' = watchers s \<and> polled s' = polled s"
  using assms
proof (induction "v_watch v" arbitrary: v s fuel)
  case Nil
  then have "QUEUE_EMPTY (io_queue s) Watcher_head" using io_queue_empty(1) [of W s v] by (auto simp: io_ok_def)
  moreover have "v\<lparr>v_watch := []\<rparr> = v" using Nil(1) by (cases v) simp
  then have "io_ok W s (v\<lparr>v_watch := []\<rparr>)" using Nil(2) by (simp only:)
  ultimately show ?case using Nil(1) [symmetric] by (intro exI [of _ s]) (simp add: register_loop.simps [of fuel])
next
  case (Cons w ws)
  note v = Cons(2) [symmetric]
  note R = register_one [OF Cons(3) v]
  have q: "io_queues W s v" using Cons(3) by (simp add: io_ok_def)
  obtain f where f: "fuel = Suc f" using Cons(4) v by (cases fuel) auto
  define s1 where "s1 = upd_io w (\<lambda>x. x\<lparr>events := pevents x\<rparr>)
    (on_io_queue (QUEUE_INIT (Watcher_node w)) (on_io_queue (QUEUE_REMOVE (Watcher_node w)) s))"
  let ?c = "watcher_changes (io_ws s w)" and ?C = "concat (map (\<lambda>k. watcher_changes (io_ws s k)) ws)"
  have f1: "io_ws s1 w = (io_ws s w)\<lparr>events := pevents (io_ws s w)\<rparr>" "\<And>k. k \<noteq> w \<Longrightarrow> io_ws s1 k = io_ws s k"
    "watchers s1 = watchers s" "polled s1 = polled s"
    by (simp_all add: s1_def)
  have "map (\<lambda>k. watcher_changes (io_ws s1 k)) ws = map (\<lambda>k. watcher_changes (io_ws s k)) ws"
  proof (intro map_cong refl)
    fix x assume "x \<in> set ws"
    then have "x \<noteq> w" using R(6) by blast
    then show "watcher_changes (io_ws s1 x) = watcher_changes (io_ws s x)" using f1(2) by simp
  qed
  then have C: "concat (map (\<lambda>k. watcher_changes (io_ws s1 k)) ws) = ?C" by (simp only:)
  have "\<not> QUEUE_EMPTY (io_queue s) Watcher_head" "QUEUE_HEAD (io_queue s) Watcher_head = Watcher_node w"
    using io_queue_empty(1,5) [OF q] v by simp_all
  then have step: "register_loop fuel os (cu, s) = Option.bind (push_changes os ?c cu) (\<lambda>cu'. register_loop f os (cu', s1))" for cu
    using R(2-4) by (simp add: f register_loop.simps [of "Suc f"] Let_def s1_def)
  have "\<exists>s'. (\<forall>cu. register_loop f os (cu, s1) = map_option (\<lambda>cu'. (cu', s')) (push_changes os ?C cu)) \<and> io_ok W s' (v\<lparr>v_watch := []\<rparr>) \<and>
      (\<forall>k. io_ws s' k = (if k \<in> set ws then (io_ws s1 k)\<lparr>events := pevents (io_ws s1 k)\<rparr> else io_ws s1 k)) \<and>
      watchers s' = watchers s1 \<and> polled s' = polled s1"
    using Cons(1) [of "v\<lparr>v_watch := ws\<rparr>" s1 f] R(1) Cons(4) v f unfolding s1_def [symmetric] by (simp add: C)
  then obtain s' where s': "\<And>cu. register_loop f os (cu, s1) = map_option (\<lambda>cu'. (cu', s')) (push_changes os ?C cu)"
      "io_ok W s' (v\<lparr>v_watch := []\<rparr>)" "watchers s' = watchers s" "polled s' = polled s"
      "\<And>k. io_ws s' k = (if k \<in> set ws then (io_ws s1 k)\<lparr>events := pevents (io_ws s1 k)\<rparr> else io_ws s1 k)"
    using f1(3,4) by auto
  have "register_loop fuel os (cu, s) = map_option (\<lambda>cu'. (cu', s')) (push_changes os (?c @ ?C) cu)" for cu
    unfolding step s'(1) push_changes_append by (cases "push_changes os ?c cu") simp_all
  moreover have "io_ws s' k = (if k \<in> set (v_watch v) then (io_ws s k)\<lparr>events := pevents (io_ws s k)\<rparr> else io_ws s k)" for k
    using s'(5) [of k] R(6) f1(1,2) v by (cases "k = w") auto
  ultimately show ?case using v s'(2-4) by (intro exI [of _ s']) simp
qed

lemma register_all:
  assumes "io_ok W s v" and "length (v_watch v) \<le> fuel"
    and "length chs + length (concat (map (\<lambda>w. watcher_changes (io_ws s w)) (v_watch v))) < 1024"
  shows "\<exists>s'. register_loop fuel os ((chs, u), s) =
           Some ((chs @ concat (map (\<lambda>w. watcher_changes (io_ws s w)) (v_watch v)), u), s') \<and>
           io_ok W s' (v\<lparr>v_watch := []\<rparr>) \<and>
           (\<forall>w. io_ws s' w = (if w \<in> set (v_watch v) then (io_ws s w)\<lparr>events := pevents (io_ws s w)\<rparr> else io_ws s w)) \<and>
           watchers s' = watchers s \<and> polled s' = polled s"
proof -
  let ?C = "concat (map (\<lambda>w. watcher_changes (io_ws s w)) (v_watch v))"
  obtain s' where s': "\<And>cu. register_loop fuel os (cu, s) = map_option (\<lambda>cu'. (cu', s')) (push_changes os ?C cu)" "io_ok W s' (v\<lparr>v_watch := []\<rparr>)"
      "\<And>w. io_ws s' w = (if w \<in> set (v_watch v) then (io_ws s w)\<lparr>events := pevents (io_ws s w)\<rparr> else io_ws s w)"
      "watchers s' = watchers s" "polled s' = polled s"
    using register_queue [OF assms(1,2), of os] by blast
  then show ?thesis using push_changes_small [OF assms(3), of os u] by (intro exI [of _ s']) simp
qed

subsection \<open>The environment\<close>

text \<open>
  What \<^verbatim>\<open>uv__io_poll\<close> relies on, for a property \<open>I\<close> of the system and the loop together that every step keeps: \<^verbatim>\<open>kevent\<close> fails with
  \<^verbatim>\<open>EINTR\<close> only, gives at most 1024 events, for file descriptors that are in the table, does not come back without an event when it has
  no time limit, and deletes an event or does not find it; a callback does not shrink the table and changes the list of events
  under way by invalidation only.
\<close>

definition events_fit :: "event_loop \<Rightarrow> kevent list \<Rightarrow> bool" where
  "events_fit e evs \<longleftrightarrow>
     length evs \<le> 1024 \<and>
     (\<forall>ev \<in> set evs. ev_ident ev = - 1 \<or> 0 \<le> ev_ident ev \<and> nat (ev_ident ev) < length (watchers (e_io e)) \<and> ev_filter ev \<noteq> EVFILT_VNODE)"

definition invalidated :: "kevent list option \<Rightarrow> kevent list option \<Rightarrow> bool" where
  "invalidated p p' \<longleftrightarrow>
     rel_option (list_all2 (\<lambda>a b. b = a \<or> b = a\<lparr>ev_ident := - 1\<rparr>)) p p'"

definition wait_ok :: "'u os \<Rightarrow> ('u world \<Rightarrow> bool) \<Rightarrow> bool" where
  "wait_ok os I \<longleftrightarrow>
     (\<forall>u e chs t. I (u, e) \<longrightarrow>
        (case kevent_wait os chs t u of
           (K_error er, u') \<Rightarrow> er = EINTR \<and> I (u', e)
         | (K_events evs, u') \<Rightarrow> events_fit e evs \<and> (t = None \<longrightarrow> evs \<noteq> []) \<and> I (u', e)))"

definition change_ok :: "'u os \<Rightarrow> ('u world \<Rightarrow> bool) \<Rightarrow> bool" where
  "change_ok os I \<longleftrightarrow>
     (\<forall>u e fd filt. I (u, e) \<longrightarrow>
        (case kevent_change os [EV_SET fd filt EV_DELETE 0] u of (r, u') \<Rightarrow> r \<in> {None, Some ENOENT} \<and> I (u', e)))"

definition callbacks_ok :: "'u os \<Rightarrow> ('u world \<Rightarrow> bool) \<Rightarrow> bool" where
  "callbacks_ok os I \<longleftrightarrow>
     (\<forall>fn i ev w. I w \<longrightarrow>
        (let w' = run_cb os (Io_cb fn i ev) w
         in I w' \<and> length (watchers (e_io (snd w))) \<le> length (watchers (e_io (snd w'))) \<and>
            invalidated (polled (e_io (snd w))) (polled (e_io (snd w')))))"

definition fields_ok :: "'u os \<Rightarrow> ('u world \<Rightarrow> bool) \<Rightarrow> bool" where
  "fields_ok os I \<longleftrightarrow>
     (\<forall>u e. I (u, e) \<longrightarrow>
        watchers (e_io e) \<noteq> [] \<and> I (uv__update_time os (u, e)) \<and> (\<forall>p. I (u, set_polled p e)) \<and>
        (\<forall>i d. I (u, upd_e_io i (\<lambda>x. x\<lparr>rcount := d\<rparr>) e) \<and> I (u, upd_e_io i (\<lambda>x. x\<lparr>wcount := d\<rparr>) e)))"

definition event_env :: "'u os \<Rightarrow> ('u world \<Rightarrow> bool) \<Rightarrow> bool" where
  "event_env os I \<longleftrightarrow> wait_ok os I \<and> change_ok os I \<and> callbacks_ok os I \<and> fields_ok os I"

lemma event_envD:
  assumes "event_env os I"
  shows "wait_ok os I" "change_ok os I" "callbacks_ok os I" "fields_ok os I"
  using assms by (simp_all add: event_env_def)

lemma disarm_ok:
  assumes "change_ok os I" and "I (u, e)" and "ENOENT \<in> ok"
  obtains u' where "disarm os ev ok u = Some u'" "I (u', e)"
proof -
  obtain r u' where k: "kevent_change os [EV_SET (ev_ident ev) (ev_filter ev) EV_DELETE 0] u = (r, u')" by (cases "kevent_change os [EV_SET (ev_ident ev) (ev_filter ev) EV_DELETE 0] u")
  then have "r \<in> {None, Some ENOENT}" "I (u', e)"
    using assms(1) [unfolded change_ok_def, rule_format, OF assms(2), of "ev_ident ev" "ev_filter ev"] by auto
  then show ?thesis using k assms(3) by (intro that [of u']) (auto simp: disarm_def)
qed

text \<open>The list of events under way and the table, as far as the dispatch of events may change them.\<close>

definition under_way :: "'u world \<Rightarrow> 'u world \<Rightarrow> bool" where
  "under_way w w' \<longleftrightarrow>
     length (watchers (e_io (snd w))) \<le> length (watchers (e_io (snd w'))) \<and>
     invalidated (polled (e_io (snd w))) (polled (e_io (snd w')))"

lemma invalidated_refl [simp]: "invalidated p p"
  by (auto simp: invalidated_def intro!: option.rel_refl list_all2_refl)

lemma invalidated_trans: "invalidated p p' \<Longrightarrow> invalidated p' p'' \<Longrightarrow> invalidated p p''"
proof -
  let ?R = "\<lambda>a b :: kevent. b = a \<or> b = a\<lparr>ev_ident := - 1\<rparr>"
  have "list_all2 ?R xs zs" if "list_all2 ?R xs ys" "list_all2 ?R ys zs" for xs ys zs
    by (rule list_all2_trans [OF _ that]) auto
  note tr = this
  assume a: "invalidated p p'" and b: "invalidated p' p''"
  show "invalidated p p''"
  proof (cases p)
    case None
    then show ?thesis using a b by (cases p'; cases p'') (simp_all add: invalidated_def)
  next
    case (Some xs)
    then obtain ys where y: "p' = Some ys" "list_all2 ?R xs ys" using a by (auto simp: invalidated_def option_rel_Some1)
    then obtain zs where "p'' = Some zs" "list_all2 ?R ys zs" using b by (auto simp: invalidated_def option_rel_Some1)
    then show ?thesis using tr [OF y(2)] Some by (simp add: invalidated_def)
  qed
qed

lemma under_way_refl: "watchers (e_io (snd w')) = watchers (e_io (snd w)) \<Longrightarrow> polled (e_io (snd w')) = polled (e_io (snd w)) \<Longrightarrow> under_way w w'"
  by (simp add: under_way_def)

lemma upd_e_io_sel [simp]:
  "watchers (e_io (upd_e_io i f e)) = watchers (e_io e)" "polled (e_io (upd_e_io i f e)) = polled (e_io e)"
  "pevents (io_ws (e_io (upd_e_io i f e)) j) = (if j = i then pevents (f (io_ws (e_io e) i)) else pevents (io_ws (e_io e) j))"
  by (simp_all add: upd_e_io_def on_e_io_def)

lemma filter_revents_ok:
  assumes env: "event_env os I" and i: "I (u, e)"
  obtains r w' where "filter_revents os ev k (u, e) = Some (r, w')" "I w'" "under_way (u, e) w'"
proof -
  note E = event_envD [OF env]
  obtain u' where u': "disarm os ev {ENOENT} u = Some u'" "I (u', e)" using disarm_ok [OF E(2) i, of "{ENOENT}" ev] by auto
  have f: "I (u, upd_e_io k (\<lambda>x. x\<lparr>rcount := ev_data ev\<rparr>) e)" "I (u, upd_e_io k (\<lambda>x. x\<lparr>wcount := ev_data ev\<rparr>) e)"
    using E(4) i by (simp_all add: fields_ok_def)
  have "\<exists>r w'. filter_revents os ev k (u, e) = Some (r, w') \<and> I w' \<and> under_way (u, e) w'"
    using u' f i by (cases "ev_filter ev") (auto simp: filter_revents_def Let_def intro!: under_way_refl)
  then show ?thesis using that by blast
qed

lemma dispatch_event_ok:
  assumes env: "event_env os I" and i: "I (u, e)"
    and ev: "ev_ident ev = - 1 \<or> 0 \<le> ev_ident ev \<and> nat (ev_ident ev) < length (watchers (e_io e)) \<and> ev_filter ev \<noteq> EVFILT_VNODE"
  obtains hn w' where "dispatch_event os ev (hn0, (u, e)) = Some (hn, w')" "I w'" "under_way (u, e) w'"
proof -
  note E = event_envD [OF env]
  obtain hs n where hn: "hn0 = (hs, n)" by (cases hn0)
  have "\<exists>hn w'. dispatch_event os ev (hn0, (u, e)) = Some (hn, w') \<and> I w' \<and> under_way (u, e) w'"
  proof (cases "ev_ident ev = - 1")
    case True
    then show ?thesis using i by (simp add: dispatch_event_def hn under_way_refl)
  next
    case False
    then have r: "0 \<le> ev_ident ev" "nat (ev_ident ev) < length (watchers (e_io e))" "ev_filter ev \<noteq> EVFILT_VNODE" using ev by auto
    show ?thesis
    proof (cases "watchers (e_io e) ! nat (ev_ident ev)")
      case None
      obtain u' where "disarm os ev {EBADF, ENOENT} u = Some u'" "I (u', e)" using disarm_ok [OF E(2) i, of "{EBADF, ENOENT}" ev] by auto
      then show ?thesis using None False r by (simp add: dispatch_event_def hn under_way_refl)
    next
      case (Some k)
      obtain r0 w1 where w1: "filter_revents os ev k (u, e) = Some (r0, w1)" "I w1" "under_way (u, e) w1"
        by (rule filter_revents_ok [OF env i])
      have cb: "I (run_io_cb os k r w1)" "under_way (u, e) (run_io_cb os k r w1)" for r
        using E(3) w1(2,3) invalidated_trans unfolding callbacks_ok_def run_io_cb_def under_way_def Let_def by (meson order_trans)+
      define r2 where "r2 = (let r1 = (if ev_flags ev AND EV_ERROR \<noteq> 0 then r0 OR POLLERR else r0)
        in if ev_flags ev AND EV_EOF \<noteq> 0 \<and> pevents (io_ws (e_io e) k) AND UV__POLLRDHUP \<noteq> 0 then r1 OR UV__POLLRDHUP else r1)"
      have "dispatch_event os ev (hn0, (u, e)) =
          (if r2 = 0 then Some ((hs, n), w1) else if k = signal_io_watcher e then Some ((True, n + 1), w1)
           else Some ((hs, n + 1), run_io_cb os k r2 w1))"
        using Some False r w1(1) unfolding dispatch_event_def hn r2_def Let_def by simp
      then show ?thesis using w1(2,3) cb by metis
    qed
  qed
  then show ?thesis using that by blast
qed

lemma under_way_trans: "under_way w w' \<Longrightarrow> under_way w' w'' \<Longrightarrow> under_way w w''"
  unfolding under_way_def using invalidated_trans by (metis order_trans)

lemma events_fit_later:
  assumes "events_fit e evs" and "under_way (u, e) (u', e')" and "polled (e_io e) = Some evs"
  obtains evs' where "polled (e_io e') = Some evs'" "events_fit e' evs'" "length evs' = length evs"
proof -
  obtain evs' where e: "polled (e_io e') = Some evs'" "list_all2 (\<lambda>a b. b = a \<or> b = a\<lparr>ev_ident := - 1\<rparr>) evs evs'"
    using assms(2,3) by (auto simp: under_way_def invalidated_def option_rel_Some1)
  have L: "length evs' = length evs" using e(2) by (simp add: list_all2_lengthD)
  have "events_fit e' evs'" unfolding events_fit_def
  proof (intro conjI ballI)
    show "length evs' \<le> 1024" using L assms(1) by (simp add: events_fit_def)
    fix b assume "b \<in> set evs'"
    then obtain i where i: "i < length evs" "b = evs' ! i" using L by (auto simp: in_set_conv_nth)
    then have "b = evs ! i \<or> b = (evs ! i)\<lparr>ev_ident := - 1\<rparr>" using e(2) by (auto simp: list_all2_conv_all_nth)
    moreover have "ev_ident (evs ! i) = - 1 \<or> 0 \<le> ev_ident (evs ! i) \<and> nat (ev_ident (evs ! i)) < length (watchers (e_io e)) \<and> ev_filter (evs ! i) \<noteq> EVFILT_VNODE"
      using assms(1) i(1) by (simp add: events_fit_def)
    ultimately show "ev_ident b = - 1 \<or> 0 \<le> ev_ident b \<and> nat (ev_ident b) < length (watchers (e_io e')) \<and> ev_filter b \<noteq> EVFILT_VNODE"
      using assms(2) by (auto simp: under_way_def)
  qed
  then show ?thesis using e(1) L that by blast
qed

lemma dispatch_ok:
  assumes env: "event_env os I" and "I w" and "polled (e_io (snd w)) = Some evs" and "events_fit (snd w) evs" and "i + n \<le> length evs"
  shows "\<exists>hn w'. dispatch n os i (hn0, w) = Some (hn, w') \<and> I w'"
  using assms(2-)
proof (induction n arbitrary: i hn0 w evs)
  case (Suc n)
  obtain u e where w: "w = (u, e)" by (cases w)
  have "evs ! i \<in> set evs" using Suc(5) by simp
  then have ev: "ev_ident (evs ! i) = - 1 \<or> 0 \<le> ev_ident (evs ! i) \<and> nat (ev_ident (evs ! i)) < length (watchers (e_io e)) \<and> ev_filter (evs ! i) \<noteq> EVFILT_VNODE"
    using Suc(4) w by (simp add: events_fit_def)
  have i: "I (u, e)" using Suc(2) w by simp
  obtain hn w1 where d: "dispatch_event os (evs ! i) (hn0, (u, e)) = Some (hn, w1)" "I w1" "under_way (u, e) w1"
    by (rule dispatch_event_ok [OF env i ev])
  obtain u1 e1 where w1: "w1 = (u1, e1)" by (cases w1)
  obtain evs1 where "polled (e_io e1) = Some evs1" "events_fit e1 evs1" "length evs1 = length evs"
    using events_fit_later [of e evs u u1 e1] Suc(3,4) d(3) w w1 by auto
  then show ?case using Suc(1) [OF d(2), of evs1 "Suc i" hn] Suc(3,5) d(1) w w1 by simp
qed simp

lemma update_time_io [simp]: "e_io (snd (uv__update_time os w)) = e_io (snd w)"
  by (simp add: uv__update_time_def set_loop_def split: prod.splits)

lemma poll_nonblocking:
  assumes env: "event_env os I" and "I w" and "0 < count" and "count \<le> fuel"
  shows "\<exists>w'. poll_loop fuel os base count chs 0 w = Some w' \<and> I w'"
  using assms(2-)
proof (induction fuel arbitrary: w count chs)
  case (Suc f)
  note E = event_envD [OF env]
  obtain u e where w: "w = (u, e)" by (cases w)
  obtain r u1 where k: "kevent_wait os chs (Some (0, 0)) u = (r, u1)" by (cases "kevent_wait os chs (Some (0, 0)) u")
  have W: "case r of K_error er \<Rightarrow> er = EINTR \<and> I (u1, e) | K_events evs \<Rightarrow> events_fit e evs \<and> I (u1, e)"
    using E(1) [unfolded wait_ok_def, rule_format, where u = u and e = e and chs = chs and t = "Some (0, 0)"] Suc(2) w k by (simp split: kevent_result.splits)
  then have i1: "I (u1, e)" by (cases r) auto
  let ?w2 = "uv__update_time os (u1, e)"
  have F: "watchers (e_io e) \<noteq> []" "I ?w2" "\<And>u e p. I (u, e) \<Longrightarrow> I (u, set_polled p e)"
    using E(4) i1 by (auto simp: fields_ok_def)
  show ?case
  proof (cases r)
    case (K_error er)
    then show ?thesis using W F(2) w k by simp
  next
    case (K_events evs)
    show ?thesis
    proof (cases evs)
      case Nil
      then show ?thesis using K_events F(2) w k by simp
    next
      case (Cons a as)
      obtain u2 e2 where w2: "?w2 = (u2, e2)" by (cases ?w2)
      let ?d = "(u2, set_polled (Some evs) e2)"
      have io2: "e_io e2 = e_io e" using w2 update_time_io [of os "(u1, e)"] by simp
      have "events_fit (set_polled (Some evs) e2) evs" using W K_events io2 by (simp add: events_fit_def set_polled_def on_e_io_def)
      then obtain hs n w3 where d: "dispatch (length evs) os 0 ((False, 0), ?d) = Some ((hs, n), w3)" "I w3"
        using dispatch_ok [OF env, of ?d evs 0 "length evs" "(False, 0)"] F(2,3) w2 by (auto simp: set_polled_def on_e_io_def)
      define w4 where "w4 = (if hs then run_io_cb os (signal_io_watcher (snd w3)) POLLIN w3 else w3)"
      define w5 where "w5 = (fst w4, set_polled None (snd w4))"
      have "I w4" using E(3) [unfolded callbacks_ok_def, rule_format, OF d(2)] d(2) by (simp add: w4_def run_io_cb_def Let_def)
      then have i5: "I w5" using F(3) [of "fst w4" "snd w4" None] by (simp add: w5_def)
      have st: "poll_loop (Suc f) os base count chs 0 w =
          (if hs then Some w5
           else if n \<noteq> 0 then if length evs = 1024 \<and> count - 1 \<noteq> 0 then poll_loop f os base (count - 1) [] 0 w5 else Some w5
           else Some w5)"
        using k K_events Cons w2 d(1) F(1) io2 by (simp add: w Let_def w5_def w4_def del: dispatch.simps)
      show ?thesis
      proof (cases "\<not> hs \<and> n \<noteq> 0 \<and> length evs = 1024 \<and> count - 1 \<noteq> 0")
        case True
        then have "poll_loop (Suc f) os base count chs 0 w = poll_loop f os base (count - 1) [] 0 w5" using st by simp
        then show ?thesis using Suc(1) [OF i5, of "count - 1" "[]"] Suc(4) True by simp
      next
        case False
        then have "poll_loop (Suc f) os base count chs 0 w = Some w5" using st by auto
        then show ?thesis using i5 by blast
      qed
    qed
  qed
qed simp

lemma io_poll_nonblocking:
  assumes "event_env os I" and "I (u, e)" and "io_ok W (e_io e) v" and "length (v_watch v) \<le> fuel" and "48 \<le> fuel"
    and "length (concat (map (\<lambda>w. watcher_changes (io_ws (e_io e) w)) (v_watch v))) < 1024"
    and "\<And>s. io_ok W s (v\<lparr>v_watch := []\<rparr>) \<Longrightarrow> watchers s = watchers (e_io e) \<Longrightarrow> I (u, e\<lparr>e_io := s\<rparr>)"
  shows "\<exists>w'. uv__io_poll fuel os 0 (u, e) = Some w' \<and> I w'"
proof (cases "nfds (e_io e) = 0")
  case True
  then have "used_fds (e_io e) = {}" using assms(3) by (auto simp: io_ok_def table_ok_def)
  then have "\<not> registered (e_io e) w" for w by (auto simp: used_fds_def registered_def)
  then have "v_watch v = []" using assms(3) by (cases "v_watch v") (auto simp: io_ok_def io_queues_def interest_ok_def)
  then have "QUEUE_EMPTY (io_queue (e_io e)) Watcher_head" using assms(3) io_queue_empty(1) by (auto simp: io_ok_def)
  then show ?thesis using True assms(2) by (simp add: uv__io_poll_def)
next
  case False
  obtain chs s1 where r: "register_loop fuel os (([], u), e_io e) = Some ((chs, u), s1)" "io_ok W s1 (v\<lparr>v_watch := []\<rparr>)"
      "watchers s1 = watchers (e_io e)"
    using register_all [OF assms(3,4), of "[]" os u] assms(6) by auto
  then have "I (u, e\<lparr>e_io := s1\<rparr>)" using assms(7) by blast
  then show ?thesis using poll_nonblocking [OF assms(1), of _ 48 fuel "time (e_loop e)" chs] r(1) False assms(5)
    by (simp add: uv__io_poll_def)
qed

subsection \<open>A scripted environment\<close>

text \<open>
  A system that follows a script: what \<^verbatim>\<open>kevent\<close> gives next and the time (in milliseconds) at which it returns; callbacks are
  logged. After the script, waiting with a time limit gives no events.
\<close>

type_synonym script = "(kevent_result \<times> u64) list \<times> u64 \<times> event_call list"

fun script_wait :: "kevent list \<Rightarrow> (int \<times> int) option \<Rightarrow> script \<Rightarrow> kevent_result \<times> script" where
  "script_wait chs t ([], now, log) = (if t = None then K_error EINTR else K_events [], ([], now, log))"
| "script_wait chs t ((r, now') # sc, now, log) = (r, (sc, now', log))"

fun script_time :: "script \<Rightarrow> u64 \<times> script" where
  "script_time (sc, now, log) = (now * 1000000, (sc, now, log))"

fun script_call :: "event_call \<Rightarrow> script world \<Rightarrow> script world" where
  "script_call c ((sc, now, log), e) = ((sc, now, log @ [c]), e)"

definition script_os :: "script os" where
  "script_os = \<lparr>hrtime = script_time, kevent_change = (\<lambda>_ u. (None, u)), kevent_wait = script_wait, run_cb = script_call\<rparr>"

text \<open>A loop at time 0 with a timer that expires at 100 and an I/O watcher for file descriptor 7.\<close>

definition example_event :: event_loop where
  "example_event =
     \<lparr>e_watch = \<lparr>w_loop = snd (the (uv_timer_start 1 (Some 7) 100 0 (uv_timer_init 1 (empty_loop 0)))),
        w_queue = \<lparr>q_next = (\<lambda>x. x), q_prev = (\<lambda>x. x)\<rparr>, w_cb = (\<lambda>_. None)\<rparr>,
      e_io = the (uv__io_start 1 POLLIN example_io), closing_handles = None, next_closing = (\<lambda>_. None), close_cb = (\<lambda>_. None),
      stop_flag = 0, active_reqs_count = 0, signal_io_watcher = 0, poll_io_watcher = (\<lambda>_. 0), poll_cb = (\<lambda>_. None)\<rparr>"

lemma example_event_io:
  "watchers (e_io example_event) \<noteq> []" "nfds (e_io example_event) \<noteq> 0" "\<exists>v. io_ok {1} (e_io example_event) v \<and> length (v_watch v) \<le> 1"
proof -
  show "watchers (e_io example_event) \<noteq> []" "nfds (e_io example_event) \<noteq> 0" by code_simp+
  have ok: "io_ok {1} example_io \<lparr>v_pend = [], v_watch = []\<rparr>"
    using io_init_ok [OF io_start_state_ok, of 1 7 "Fn_io 5"] by (auto simp: example_io_def)
  have f: "0 \<le> io_fd (io_ws example_io 1)" "valid_events POLLIN" "fd_free example_io 1"
    by (simp_all add: example_io_def uv__io_init_def fd_free_def io_start_state_def valid_events_def POLL_ALL_def POLLIN_def POLLOUT_def
        UV__POLLRDHUP_def UV__POLLPRI_def POLLPRI_def)
  obtain s v where s: "uv__io_start 1 POLLIN example_io = Some s" "io_ok {1} s v"
    by (rule io_start_ok [OF ok insertI1 f])
  have "distinct (v_watch v)" "set (v_watch v) \<subseteq> {1}" using s(2) io_queue_empty(7) [of "{1}" s v] by (auto simp: io_ok_def io_queues_def)
  then have "length (v_watch v) \<le> 1" using card_mono [of "{1 :: nat}" "set (v_watch v)"] by (simp add: distinct_card)
  then show "\<exists>v. io_ok {1} (e_io example_event) v \<and> length (v_watch v) \<le> 1" using s by (auto simp: example_event_def)
qed

definition has_table :: "script world \<Rightarrow> bool" where
  "has_table w \<longleftrightarrow> watchers (e_io (snd w)) \<noteq> [] \<and> fst (fst w) = []"

lemma script_env: "event_env script_os has_table"
proof -
  have "wait_ok script_os has_table" unfolding wait_ok_def
    by (auto simp: script_os_def has_table_def events_fit_def split: kevent_result.splits if_splits)
  moreover have "change_ok script_os has_table" by (auto simp: change_ok_def script_os_def has_table_def)
  moreover have "callbacks_ok script_os has_table" by (auto simp: callbacks_ok_def script_os_def has_table_def)
  moreover have "fields_ok script_os has_table"
    by (auto simp: fields_ok_def script_os_def has_table_def uv__update_time_def set_loop_def set_polled_def on_e_io_def)
  ultimately show ?thesis by (simp add: event_env_def)
qed

subsection \<open>Properties\<close>

text \<open>What the system is told, by calls of \<^verbatim>\<open>kevent\<close> that succeed.\<close>

definition tells :: "'u os \<Rightarrow> ('u \<Rightarrow> kevent list) \<Rightarrow> bool" where
  "tells os told \<longleftrightarrow> (\<forall>chs u. \<exists>u'. kevent_change os chs u = (None, u') \<and> told u' = told u @ chs)"

lemma push_changes_told:
  assumes "tells os told" and "length chs < 1024"
  shows "\<exists>chs' u'. push_changes os evs (chs, u) = Some (chs', u') \<and> told u' @ chs' = told u @ chs @ evs \<and> length chs' < 1024"
  using assms(2)
proof (induction evs arbitrary: chs u)
  case (Cons ev evs)
  obtain u1 where u1: "kevent_change os (chs @ [ev]) u = (None, u1)" "told u1 = told u @ chs @ [ev]" using assms(1) unfolding tells_def by blast
  show ?case
  proof (cases "length chs + 1 = 1024")
    case True
    then show ?thesis using Cons.IH [of "[]" u1] u1 by (simp add: push_change_def)
  next
    case False
    then show ?thesis using Cons.IH [of "chs @ [ev]" u] Cons.prems by (simp add: push_change_def)
  qed
qed simp

text \<open>The changes that a watcher asks for: one for each kind of event that it is interested in and that the system does not know of.\<close>

definition asks_for :: "uv__io_t \<Rightarrow> kevent \<Rightarrow> bool" where
  "asks_for x ev \<longleftrightarrow>
     ev_ident ev = io_fd x \<and> ev_data ev = 0 \<and>
     (pevents x AND POLLIN \<noteq> 0 \<and> events x AND POLLIN = 0 \<and> io_cb x \<noteq> Fn_fs_event \<and> ev_filter ev = EVFILT_READ \<and> ev_flags ev = EV_ADD \<and> ev_fflags ev = 0 \<or>
      pevents x AND POLLIN \<noteq> 0 \<and> events x AND POLLIN = 0 \<and> io_cb x = Fn_fs_event \<and> ev_filter ev = EVFILT_VNODE \<and> ev_flags ev = EV_ADD OR EV_ONESHOT \<and>
        ev_fflags ev = NOTE_vnode \<or>
      pevents x AND POLLOUT \<noteq> 0 \<and> events x AND POLLOUT = 0 \<and> ev_filter ev = EVFILT_WRITE \<and> ev_flags ev = EV_ADD \<and> ev_fflags ev = 0 \<or>
      pevents x AND UV__POLLPRI \<noteq> 0 \<and> events x AND UV__POLLPRI = 0 \<and> ev_filter ev = EV_OOBAND \<and> ev_flags ev = EV_ADD \<and> ev_fflags ev = 0)"

lemma watcher_changes_iff: "ev \<in> set (watcher_changes x) \<longleftrightarrow> asks_for x ev"
  by (cases ev) (auto simp: watcher_changes_def asks_for_def newly_def EV_SET_def)

lemma asks_new: "events x = pevents x \<Longrightarrow> \<not> asks_for x ev"
  by (auto simp: asks_for_def)

lemma watcher_changes_distinct: "distinct (map ev_filter (watcher_changes x))" "ev \<in> set (watcher_changes x) \<Longrightarrow> ev_ident ev = io_fd x"
  by (auto simp: watcher_changes_def EV_SET_def)

lemma queue_changes_distinct:
  assumes "distinct (map (\<lambda>w. io_fd (xs w)) ws)"
  shows "distinct (map (\<lambda>ev. (ev_ident ev, ev_filter ev)) (concat (map (\<lambda>w. watcher_changes (xs w)) ws)))"
  using assms
proof (induction ws)
  case (Cons w ws)
  have "distinct (map (\<lambda>ev. (ev_ident ev, ev_filter ev)) (watcher_changes (xs w)))"
    using watcher_changes_distinct(1) [of "xs w"] by (auto simp: distinct_map inj_on_def)
  moreover have "io_fd (xs w) \<noteq> ev_ident ev" if "k \<in> set ws" "ev \<in> set (watcher_changes (xs k))" for k ev
    using that Cons.prems watcher_changes_distinct(2) by fastforce
  ultimately show ?case using Cons watcher_changes_distinct(2) [of _ "xs w"] by fastforce
qed simp

text \<open>
  C24: The first loop of \<^verbatim>\<open>uv__io_poll\<close> empties the queue of watchers and none of its assertions fails. The system is told, by the calls of \<^verbatim>\<open>kevent\<close>
  each time the array of 1024 changes is full and by the changes that are left for the first wait, of exactly the events that watchers ask for: to read, to write or for
  out-of-band data, where the watcher is interested and the system does not know of it yet, and of each such event once. Afterwards the system knows the interest of every
  watcher.
\<close>

theorem poll_registers:
  assumes "io_ok W s v" and "length (v_watch v) \<le> fuel" and "tells os told"
  shows "\<exists>chs u' s' new. register_loop fuel os (([], u), s) = Some ((chs, u'), s') \<and> length chs < 1024 \<and> told u' @ chs = told u @ new \<and>
    distinct (map (\<lambda>ev. (ev_ident ev, ev_filter ev)) new) \<and> set new = {ev. \<exists>w \<in> W. asks_for (io_ws s w) ev} \<and>
    io_ok W s' (v\<lparr>v_watch := []\<rparr>) \<and> QUEUE_EMPTY (io_queue s') Watcher_head \<and>
    (\<forall>w \<in> W. pevents (io_ws s' w) = pevents (io_ws s w) \<and> events (io_ws s' w) = pevents (io_ws s w))"
proof -
  let ?new = "concat (map (\<lambda>w. watcher_changes (io_ws s w)) (v_watch v))"
  obtain s' where s': "\<And>cu. register_loop fuel os (cu, s) = map_option (\<lambda>cu'. (cu', s')) (push_changes os ?new cu)" "io_ok W s' (v\<lparr>v_watch := []\<rparr>)"
      "\<And>w. io_ws s' w = (if w \<in> set (v_watch v) then (io_ws s w)\<lparr>events := pevents (io_ws s w)\<rparr> else io_ws s w)"
    using register_queue [OF assms(1,2), of os] by blast
  obtain chs u' where p: "push_changes os ?new ([], u) = Some (chs, u')" "told u' @ chs = told u @ ?new" "length chs < 1024"
    using push_changes_told [OF assms(3), of "[]" ?new u] by auto
  have i: "interest_ok s v w" if "w \<in> W" for w using assms(1) that by (simp add: io_ok_def)
  have sub: "set (v_watch v) \<subseteq> W" "distinct (v_watch v)" using assms(1) io_queue_empty(7) [of W s v] by (auto simp: io_ok_def io_queues_def)
  have same: "events (io_ws s w) = pevents (io_ws s w)" if "w \<in> W" "w \<notin> set (v_watch v)" for w using i [OF that(1)] that(2) by (auto simp: interest_ok_def)
  have "set ?new = {ev. \<exists>w \<in> W. asks_for (io_ws s w) ev}"
  proof -
    have "w \<in> set (v_watch v)" if "w \<in> W" "asks_for (io_ws s w) ev" for w ev using that same [of w] asks_new by blast
    moreover have "set ?new = {ev. \<exists>w \<in> set (v_watch v). asks_for (io_ws s w) ev}" by (auto simp: watcher_changes_iff)
    ultimately show ?thesis using sub(1) by blast
  qed
  moreover have "distinct (map (\<lambda>w. io_fd (io_ws s w)) (v_watch v))"
  proof -
    have "registered s w" if "w \<in> set (v_watch v)" for w using i [of w] sub that by (auto simp: interest_ok_def)
    then have "inj_on (\<lambda>w. io_fd (io_ws s w)) (set (v_watch v))" by (intro inj_onI) (metis option.inject registered_def)
    then show ?thesis using sub(2) by (simp add: distinct_map)
  qed
  moreover have "QUEUE_EMPTY (io_queue s') Watcher_head" using io_queue_empty(1) s'(2) by (fastforce simp: io_ok_def)
  moreover have "pevents (io_ws s' w) = pevents (io_ws s w) \<and> events (io_ws s' w) = pevents (io_ws s w)" if "w \<in> W" for w
    using s'(3) [of w] same [OF that] by auto
  ultimately show ?thesis using p s'(1) [of "([], u)"] s'(2) queue_changes_distinct
    by (intro exI [of _ chs] exI [of _ u'] exI [of _ s'] exI [of _ ?new]) simp
qed

text \<open>A system that only keeps what it is told.\<close>

definition told_os :: "kevent list os" where
  "told_os = \<lparr>hrtime = Pair 0, kevent_change = (\<lambda>chs u. (None, u @ chs)), kevent_wait = (\<lambda>_ _. Pair (K_events [])), run_cb = (\<lambda>_ w. w)\<rparr>"

theorem poll_registers_witness:
  "\<exists>chs u' s'. register_loop 1 told_os (([], []), e_io example_event) = Some ((chs, u'), s') \<and> u' @ chs = [EV_SET 7 EVFILT_READ EV_ADD 0] \<and>
     events (io_ws s' 1) = POLLIN"
proof -
  obtain v where v: "io_ok {1} (e_io example_event) v" "length (v_watch v) \<le> 1" using example_event_io(3) by blast
  have "tells told_os (\<lambda>u. u)" by (simp add: tells_def told_os_def)
  from poll_registers [OF v this, of "[]"] obtain chs u' s' new where R: "register_loop 1 told_os (([], []), e_io example_event) = Some ((chs, u'), s')"
    "u' @ chs = new" "distinct (map (\<lambda>ev. (ev_ident ev, ev_filter ev)) new)" "set new = {ev. asks_for (io_ws (e_io example_event) 1) ev}"
    "events (io_ws s' 1) = pevents (io_ws (e_io example_event) 1)" by auto
  have p: "pevents (io_ws (e_io example_event) 1) = POLLIN" "watcher_changes (io_ws (e_io example_event) 1) = [EV_SET 7 EVFILT_READ EV_ADD 0]" by code_simp+
  have S: "set new = {EV_SET 7 EVFILT_READ EV_ADD 0}" using R(4) p(2) watcher_changes_iff [of _ "io_ws (e_io example_event) 1"] by auto
  have D: "distinct new" using R(3) by (simp add: distinct_map)
  have "new = [EV_SET 7 EVFILT_READ EV_ADD 0]"
  proof (cases new)
    case (Cons a as)
    then have "set as = {}" using S D by (cases as) auto
    then show ?thesis using Cons S by simp
  qed (use S in simp)
  then show ?thesis using R p(1) by auto
qed

text \<open>
  C25: In an environment that behaves as described, \<^verbatim>\<open>uv__io_poll\<close> with timeout 0 returns, after waiting for events at most 48 times,
  and nothing in it aborts; what the environment keeps still holds then.
\<close>

theorem poll_nonblocking_returns:
  assumes "event_env os I" and "I (u, e)" and "io_ok W (e_io e) v" and "length (v_watch v) \<le> fuel" and "48 \<le> fuel"
    and "length (concat (map (\<lambda>w. watcher_changes (io_ws (e_io e) w)) (v_watch v))) < 1024"
    and "\<And>s. io_ok W s (v\<lparr>v_watch := []\<rparr>) \<Longrightarrow> watchers s = watchers (e_io e) \<Longrightarrow> I (u, e\<lparr>e_io := s\<rparr>)"
  shows "\<exists>w'. uv__io_poll fuel os 0 (u, e) = Some w' \<and> I w'"
  by (rule io_poll_nonblocking [OF assms])

theorem poll_nonblocking_returns_witness:
  "\<exists>w'. uv__io_poll 48 script_os 0 (([], 0, []), example_event) = Some w' \<and> has_table w'"
proof -
  obtain v where v: "io_ok {1} (e_io example_event) v" "length (v_watch v) \<le> 1" using example_event_io(3) by blast
  have p: "length (watcher_changes (io_ws (e_io example_event) 1)) = 1" by code_simp
  have "v_watch v = [] \<or> v_watch v = [1]" using v by (cases "v_watch v") (auto simp: io_ok_def io_queues_def)
  then have "length (concat (map (\<lambda>w. watcher_changes (io_ws (e_io example_event) w)) (v_watch v))) < 1024" using p by auto
  then show ?thesis using v(2) example_event_io(1)
    by (intro poll_nonblocking_returns [OF script_env _ v(1)]) (auto simp: has_table_def)
qed

lemma script_clock: "t < 2 ^ 44 \<Longrightarrow> (t * 1000000 :: u64) div 1000000 = t"
proof -
  assume "t < 2 ^ 44"
  then have t: "unat t < 2 ^ 44" by (simp add: word_less_nat_alt)
  then have "unat (t * 1000000) = unat t * 1000000" by (simp add: unat_word_ariths)
  then have "unat (t * 1000000 div 1000000) = unat t" by (simp add: unat_div)
  then show ?thesis by (rule word_unat_eq_iff [THEN iffD2])
qed

text \<open>
  C26: a defect. \<^verbatim>\<open>uv__io_poll\<close> subtracts the whole time since its start from what is left of the timeout at every interruption. Whenever it is interrupted after \<open>t1\<close> and after
  \<open>t2\<close> milliseconds, both less than the timeout, and \<open>t1 + t2\<close> reaches the timeout, it returns at \<open>t2\<close>: before the timeout is over, without an event and without having called
  a callback.
\<close>

theorem poll_returns_early:
  assumes "io_ok W (e_io e) v" and "length (v_watch v) \<le> fuel" and "2 \<le> fuel" and "nfds (e_io e) \<noteq> 0"
    and "length (concat (map (\<lambda>w. watcher_changes (io_ws (e_io e) w)) (v_watch v))) < 1024"
    and "0 < tmo" and "t1 < tmo" and "t2 < tmo" and "tmo \<le> t1 + t2" and "unat (time (e_loop e)) + tmo < 2 ^ 44"
  shows "\<exists>e'. uv__io_poll fuel script_os (int tmo)
      (([(K_error EINTR, time (e_loop e) + of_nat t1), (K_error EINTR, time (e_loop e) + of_nat t2)], now, log), e) =
        Some (([], time (e_loop e) + of_nat t2, log), e') \<and> time (e_loop e') = time (e_loop e) + of_nat t2"
proof -
  let ?b = "time (e_loop e)"
  obtain f where f: "fuel = Suc (Suc f)" using assms(3) by (metis Suc_le_D numeral_2_eq_2 Suc_le_mono)
  let ?C = "concat (map (\<lambda>w. watcher_changes (io_ws (e_io e) w)) (v_watch v))"
  obtain s' where s': "\<And>cu. register_loop fuel script_os (cu, e_io e) = map_option (\<lambda>cu'. (cu', s')) (push_changes script_os ?C cu)"
    using register_queue [OF assms(1,2), of script_os] by blast
  have r: "register_loop fuel script_os (([], u), e_io e) = Some ((?C, u), s')" for u
    using s' [of "([], u)"] push_changes_small [of "[]" ?C script_os u] assms(5) by simp
  have "unat (?b + of_nat t) = unat ?b + t" if "t < tmo" for t using that assms(10) by (intro unat_add_of_nat) simp
  then have c: "(?b + of_nat t) * 1000000 div 1000000 = ?b + of_nat t" if "t < tmo" for t
    using that assms(10) by (intro script_clock) (simp add: word_less_nat_alt)
  let ?e = "\<lambda>t. set_loop ((e_loop e)\<lparr>time := ?b + of_nat t\<rparr>) (e\<lparr>e_io := s'\<rparr>)"
  have up: "uv__update_time script_os ((sc, ?b + of_nat t, log), e0) = ((sc, ?b + of_nat t, log), set_loop ((e_loop e0)\<lparr>time := ?b + of_nat t\<rparr>) e0)" if "t < tmo" for t sc log e0
    using c [OF that] by (simp add: uv__update_time_def script_os_def)
  have w: "kevent_wait script_os chs m ((r, t) # sc, now, log) = (r, (sc, t, log))" for chs m r t sc now log by (simp add: script_os_def)
  have l: "e_loop (set_loop l x) = l" for l x by (simp add: set_loop_def)
  have "unat (of_nat t :: u64) = t" if "t < tmo" for t using that assms(10) by (simp add: unat_of_nat_lt)
  then have "uint (of_nat t :: u64) = int t" if "t < tmo" for t using that by (metis of_nat_unat uint_nat)
  then have u1: "uint (of_nat t1 :: u64) = int t1" "uint (of_nat t2 :: u64) = int t2" "of_int (int tmo - int t1) = (of_nat (tmo - t1) :: u64)"
    using assms by (simp_all add: of_nat_diff)
  have d1: "\<not> (of_nat t1 :: u64) \<ge> of_nat tmo" using assms(7,10) by (simp add: word_le_nat_alt unat_of_nat_lt)
  have d2: "(of_nat t2 :: u64) \<ge> of_nat (tmo - t1)" using assms(8,9,10) by (simp add: word_le_nat_alt unat_of_nat_lt)
  have "poll_loop (Suc f) script_os ?b 48 [] (int tmo - int t1) (([(K_error EINTR, ?b + of_nat t2)], ?b + of_nat t1, log), e0) =
      Some (([], ?b + of_nat t2, log), set_loop ((e_loop e0)\<lparr>time := ?b + of_nat t2\<rparr>) e0)" for e0
    using assms(7) d2 by (simp add: w up [OF assms(8)] l u1 Let_def)
  then have "poll_loop fuel script_os ?b 48 ?C (int tmo) (([(K_error EINTR, ?b + of_nat t1), (K_error EINTR, ?b + of_nat t2)], now, log), e\<lparr>e_io := s'\<rparr>) =
      Some (([], ?b + of_nat t2, log), set_loop ((e_loop (?e t1))\<lparr>time := ?b + of_nat t2\<rparr>) (?e t1))"
    using assms(6) d1 by (simp add: f w up [OF assms(7)] l u1 Let_def)
  then show ?thesis using r assms(4,6) by (simp add: uv__io_poll_def l)
qed

theorem poll_returns_early_witness:
  "\<exists>e'. uv__io_poll 2 script_os 100 (([(K_error EINTR, 40), (K_error EINTR, 70)], 0, []), example_event) = Some (([], 70, []), e') \<and> time (e_loop e') = 70"
proof -
  obtain v where v: "io_ok {1} (e_io example_event) v" "length (v_watch v) \<le> 1" using example_event_io(3) by blast
  have p: "length (watcher_changes (io_ws (e_io example_event) 1)) = 1" "time (e_loop example_event) = 0" by code_simp+
  have "v_watch v = [] \<or> v_watch v = [1]" using v by (cases "v_watch v") (auto simp: io_ok_def io_queues_def)
  then have l: "length (concat (map (\<lambda>w. watcher_changes (io_ws (e_io example_event) w)) (v_watch v))) < 1024" using p by auto
  have "length (v_watch v) \<le> 2" using v(2) by simp
  from poll_returns_early [OF v(1) this _ example_event_io(2) l, of 100 40 70 0 "[]"] show ?thesis using p(2) by simp
qed

text \<open>In consequence \<^verbatim>\<open>UV_RUN_ONCE\<close> can return without having called a callback, although the timer for which it waits has not expired.\<close>

lemma run_once_without_callback:
  "case uv_run 1 50 script_os UV_RUN_ONCE (([(K_error EINTR, 40), (K_error EINTR, 70)], 0, []), example_event) of
     Some (r, ((sc, now, log), e)) \<Rightarrow>
       r \<and> sc = [] \<and> now = 70 \<and> log = [] \<and> active_handles (e_loop e) = 1 \<and> uv__next_timeout (e_loop e) = 30
   | None \<Rightarrow> False"
  by code_simp

end
