(* ===== verification/Uv_Run.thy ===== *)
theory Uv_Run
  imports Uv_Poll
begin

text \<open>
  Properties of the event loop: the time \<^verbatim>\<open>uv_run\<close> waits, the closing of handles, the order in which callbacks are called, and what
  \<^verbatim>\<open>uv_run\<close> returns.
\<close>

subsection \<open>Selectors\<close>

lemma set_loop_sel [simp]:
  "e_loop (set_loop l e) = l" "w_queue (e_watch (set_loop l e)) = w_queue (e_watch e)" "w_cb (e_watch (set_loop l e)) = w_cb (e_watch e)"
  "e_io (set_loop l e) = e_io e" "closing_handles (set_loop l e) = closing_handles e" "next_closing (set_loop l e) = next_closing e"
  "close_cb (set_loop l e) = close_cb e" "stop_flag (set_loop l e) = stop_flag e" "active_reqs_count (set_loop l e) = active_reqs_count e"
  "signal_io_watcher (set_loop l e) = signal_io_watcher e" "poll_io_watcher (set_loop l e) = poll_io_watcher e"
  "set_loop l' (set_loop l e) = set_loop l' e" "set_loop (e_loop e) e = e" "set_loop l (e\<lparr>closing_handles := c\<rparr>) = (set_loop l e)\<lparr>closing_handles := c\<rparr>"
  by (simp_all add: set_loop_def)

subsection \<open>How long to wait\<close>

lemma idle_queue:
  assumes "watch_inv s"
  shows "QUEUE_EMPTY (w_queue s) (Watch_head UV_IDLE) \<longleftrightarrow> active_watchers UV_IDLE s = {}"
proof -
  obtain xs where x: "watch_ring UV_IDLE s xs" using assms by (auto simp: watch_inv_def watch_types_def)
  then have "QUEUE_EMPTY (w_queue s) (Watch_head UV_IDLE) \<longleftrightarrow> map Watch_node xs = []" by (intro ring_empty) (simp add: watch_ring_def)
  then show ?thesis using x by (auto simp: watch_ring_def)
qed

lemma has_active:
  assumes "active_ok l"
  shows "0 < active_handles l \<longleftrightarrow> counted_handles l \<noteq> {}"
proof -
  have "0 < active_handles l \<longleftrightarrow> 0 < card (counted_handles l)" using assms by (simp add: active_ok_def word_less_nat_alt)
  then show ?thesis by (simp add: card_gt_0_iff)
qed

text \<open>
  The timeout for polling: 0 when the loop was stopped, when nothing is active, when an idle watcher is active, when an I/O
  watcher has been fed, or when handles are to be closed; otherwise -1 (no limit) when there is no active timer, and else the time
  until the first timer expires, 0 if that has passed, and at most \<^verbatim>\<open>INT_MAX\<close>.
\<close>

lemma uv_backend_timeout_spec:
  assumes "timer_inv (e_loop e)" and "watch_inv (e_watch e)" and "io_ok W (e_io e) v"
  shows "uv_backend_timeout e =
     (if stop_flag e \<noteq> 0 \<or> counted_handles (e_loop e) = {} \<and> active_reqs_count e = 0 \<or> active_watchers UV_IDLE (e_watch e) \<noteq> {} \<or>
         v_pend v \<noteq> [] \<or> closing_handles e \<noteq> None then 0
      else if active_timers (e_loop e) = {} then - 1
      else min (int (Min ((\<lambda>h. unat (timeout (timers (e_loop e) h))) ` active_timers (e_loop e)) - unat (time (e_loop e)))) (2 ^ 31 - 1))"
proof -
  have "QUEUE_EMPTY (io_queue (e_io e)) Pending_head \<longleftrightarrow> v_pend v = []" using assms(3) io_queue_empty(2) by (auto simp: io_ok_def)
  moreover have "active_ok (e_loop e)" using assms(1) by (simp add: timer_inv_def)
  ultimately show ?thesis
    using idle_queue [OF assms(2)] has_active [of "e_loop e"] next_timeout_eq [OF assms(1)]
    by (auto simp: uv_backend_timeout_def uv__has_active_handles_def uv__has_active_reqs_def word_neq_0_conv)
qed

subsection \<open>What \<^verbatim>\<open>uv_run\<close> returns\<close>

lemma run_loop_result:
  "run_loop n fuel os mode r w = Some (r', w') \<Longrightarrow> (r \<longleftrightarrow> uv__loop_alive (snd w)) \<Longrightarrow>
   (r' \<longleftrightarrow> uv__loop_alive (snd w')) \<and> (mode = UV_RUN_DEFAULT \<longrightarrow> r' \<longrightarrow> stop_flag (snd w') \<noteq> 0)"
proof (induction n arbitrary: r w)
  case 0
  then show ?case by (auto simp: run_loop.simps [of 0] split: if_splits)
next
  case (Suc n)
  show ?case
  proof (cases "r \<and> stop_flag (snd w) = 0")
    case False
    then show ?thesis using Suc.prems by (auto simp: run_loop.simps [of "Suc n"])
  next
    case True
    then obtain w1 where w1: "run_iteration fuel os mode w = Some w1"
      "(if mode = UV_RUN_ONCE \<or> mode = UV_RUN_NOWAIT then Some (uv__loop_alive (snd w1), w1)
        else run_loop n fuel os mode (uv__loop_alive (snd w1)) w1) = Some (r', w')"
      using Suc.prems(1) by (auto simp: run_loop.simps [of "Suc n"] Let_def bind_eq_Some_conv)
    then show ?thesis using Suc.IH [of "uv__loop_alive (snd w1)" w1] by (cases mode) auto
  qed
qed

lemma alive_stop [simp]: "uv__loop_alive (e\<lparr>stop_flag := s\<rparr>) = uv__loop_alive e"
  by (simp add: uv__loop_alive_def uv__has_active_handles_def uv__has_active_reqs_def)

subsection \<open>Closing\<close>

text \<open>The list of handles that are to be closed, linked by \<^verbatim>\<open>next_closing\<close>.\<close>

fun closing_chain :: "(nat \<Rightarrow> nat option) \<Rightarrow> nat option \<Rightarrow> nat list \<Rightarrow> bool" where
  "closing_chain nx p [] \<longleftrightarrow> p = None"
| "closing_chain nx p (h # hs) \<longleftrightarrow> p = Some h \<and> closing_chain nx (nx h) hs"

lemma closing_chain_cong: "(\<And>h. h \<in> set hs \<Longrightarrow> nx' h = nx h) \<Longrightarrow> closing_chain nx p hs \<Longrightarrow> closing_chain nx' p hs"
  by (induction hs arbitrary: p) auto

definition to_close :: "event_loop \<Rightarrow> nat \<Rightarrow> bool" where
  "to_close e h \<longleftrightarrow>
     f_closing (flags_of (e_loop e) h) \<and> \<not> f_closed (flags_of (e_loop e) h) \<and> h_type (handles (e_loop e) h) \<noteq> UV_other"

text \<open>Callbacks leave handles alone that are being closed, and are logged.\<close>

definition spares_closing :: "'u os \<Rightarrow> bool" where
  "spares_closing os \<longleftrightarrow>
     (\<forall>c u e h. to_close e h \<longrightarrow>
        (let e' = snd (run_cb os c (u, e))
         in handles (e_loop e') h = handles (e_loop e) h \<and> next_closing e' h = next_closing e h \<and> close_cb e' h = close_cb e h))"

definition logs_calls :: "'u os \<Rightarrow> ('u \<Rightarrow> event_call list) \<Rightarrow> bool" where
  "logs_calls os log \<longleftrightarrow> (\<forall>c w. log (fst (run_cb os c w)) = log (fst w) @ [c])"

definition close_calls :: "event_loop \<Rightarrow> nat list \<Rightarrow> event_call list" where
  "close_calls e hs = concat (map (\<lambda>h. case close_cb e h of None \<Rightarrow> [] | Some k \<Rightarrow> [Close_cb k h]) hs)"

lemma flag_closed_test [simp]: "f AND UV_HANDLE_CLOSED = 0 \<longleftrightarrow> \<not> f_closed f"
  using and_bit(2) [of f] by (auto simp: UV_HANDLE_CLOSED_def f_closed_def)

definition after_close :: "nat \<Rightarrow> event_loop \<Rightarrow> event_loop" where
  "after_close h e =
     (let e1 = set_flag h UV_HANDLE_CLOSED e; l2 = uv__handle_unref h (e_loop e1)
      in set_loop (l2\<lparr>handle_queue := removeAll h (handle_queue l2)\<rparr>) e1)"

lemma finish_close_eq:
  assumes "to_close e h"
  shows "uv__finish_close os h (u, e) =
           Some (case close_cb e h of None \<Rightarrow> (u, after_close h e) | Some k \<Rightarrow> run_cb os (Close_cb k h) (u, after_close h e))"
  using assms by (simp add: uv__finish_close_def after_close_def to_close_def Let_def set_flag_def split: option.splits)

lemma unref_other:
  "handles (uv__handle_unref h l) = (handles l)(h := (handles l h)\<lparr>flags := flags_of l h AND NOT UV_HANDLE_REF\<rparr>) \<or>
   handles (uv__handle_unref h l) = handles l"
  by (simp add: uv__handle_unref_def Let_def)

lemma after_close_other:
  assumes "k \<noteq> h"
  shows "handles (e_loop (after_close h e)) k = handles (e_loop e) k"
  using unref_other [of h "set_flags h (flags_of (e_loop e) h OR UV_HANDLE_CLOSED) (e_loop e)"] assms
  by (auto simp: after_close_def Let_def set_flag_def)

lemma after_close_sel [simp]:
  "next_closing (after_close h e) = next_closing e" "close_cb (after_close h e) = close_cb e"
  "closing_handles (after_close h e) = closing_handles e"
  by (simp_all add: after_close_def Let_def set_flag_def)

subsubsection \<open>\<^verbatim>\<open>uv_close\<close>\<close>

definition loop_inv :: "event_loop \<Rightarrow> bool" where
  "loop_inv e \<longleftrightarrow> timer_inv (e_loop e) \<and> watch_inv (e_watch e)"

text \<open>A handle of one of the kinds that \<^verbatim>\<open>close_handle\<close> covers without I/O.\<close>

definition plain_handle :: "event_loop \<Rightarrow> nat \<Rightarrow> bool" where
  "plain_handle e h \<longleftrightarrow>
     h \<in> set (handle_queue (e_loop e)) \<and> h_type (handles (e_loop e) h) \<in> insert UV_TIMER watch_types"

lemma closing_bits [simp]:
  "f_active (f OR UV_HANDLE_CLOSING) = f_active f" "f_ref (f OR UV_HANDLE_CLOSING) = f_ref f" "f_closing (f OR UV_HANDLE_CLOSING)"
  "f_closed (f OR UV_HANDLE_CLOSING) = f_closed f"
proof -
  have "bit (1 :: u32) n \<longleftrightarrow> n = 0" for n by (simp add: bit_1_iff)
  then show "f_active (f OR UV_HANDLE_CLOSING) = f_active f" "f_ref (f OR UV_HANDLE_CLOSING) = f_ref f" "f_closing (f OR UV_HANDLE_CLOSING)"
    "f_closed (f OR UV_HANDLE_CLOSING) = f_closed f"
    unfolding UV_HANDLE_CLOSING_def f_active_def f_ref_def f_closing_def f_closed_def by (simp_all only: bit_or_iff) simp_all
qed

text \<open>The invariants see of the handles their types and whether they are active and referenced.\<close>

definition same_activity :: "uv_loop \<Rightarrow> uv_loop \<Rightarrow> bool" where
  "same_activity l l' \<longleftrightarrow>
     handle_queue l' = handle_queue l \<and> active_handles l' = active_handles l \<and>
     (\<forall>h. h_type (handles l' h) = h_type (handles l h) \<and> f_active (flags_of l' h) = f_active (flags_of l h) \<and>
          f_ref (flags_of l' h) = f_ref (flags_of l h))"

lemma active_ok_same: "same_activity l l' \<Longrightarrow> active_ok l \<Longrightarrow> active_ok l'"
  by (simp add: active_ok_def counted_handles_def same_activity_def)

lemma timer_inv_same:
  "same_activity l l' \<Longrightarrow> timers l' = timers l \<Longrightarrow> timer_heap l' = timer_heap l \<Longrightarrow> timer_inv l \<Longrightarrow> timer_inv l'"
  using active_ok_same [of l l'] by (simp add: timer_inv_def active_timers_def same_activity_def)

lemma watch_inv_same:
  assumes "watch_inv s" and "active_ok (w_loop s')" and "w_queue s' = w_queue s" and "w_cb s' = w_cb s"
    and "\<And>ty. ty \<in> watch_types \<Longrightarrow> active_watchers ty s' = active_watchers ty s"
  shows "watch_inv s'"
  using assms by (auto simp: watch_inv_def watch_ring_def)

lemma set_closing_same: "same_activity l (set_flags h (flags_of l h OR UV_HANDLE_CLOSING) l)"
  by (simp add: same_activity_def)

lemma handle_stop_other [simp]: "k \<noteq> h \<Longrightarrow> handles (uv__handle_stop h l) k = handles l k"
  by (simp add: uv__handle_stop_def Let_def)

lemma timer_stop_frame:
  assumes "uv_timer_stop h l = Some l'"
  shows "handle_queue l' = handle_queue l" "k \<noteq> h \<Longrightarrow> handles l' k = handles l k" "h_type (handles l' h) = h_type (handles l h)"
    "\<not> f_active (flags_of l' h)" "f_closing (flags_of l' h) = f_closing (flags_of l h)" "f_closed (flags_of l' h) = f_closed (flags_of l h)"
  using assms by (auto simp: uv_timer_stop_def split: if_splits option.splits)

lemma watcher_stop_frame:
  "handle_queue (w_loop (uv_watcher_stop h s)) = handle_queue (w_loop s)" "k \<noteq> h \<Longrightarrow> handles (w_loop (uv_watcher_stop h s)) k = handles (w_loop s) k"
  "h_type (handles (w_loop (uv_watcher_stop h s)) h) = h_type (handles (w_loop s) h)" "\<not> f_active (flags_of (w_loop (uv_watcher_stop h s)) h)"
  "f_closing (flags_of (w_loop (uv_watcher_stop h s)) h) = f_closing (flags_of (w_loop s) h)"
  "f_closed (flags_of (w_loop (uv_watcher_stop h s)) h) = f_closed (flags_of (w_loop s) h)"
  "timers (w_loop (uv_watcher_stop h s)) = timers (w_loop s)" "timer_heap (w_loop (uv_watcher_stop h s)) = timer_heap (w_loop s)"
  by (simp_all add: uv_watcher_stop_def)

lemma close_handle_ok:
  assumes inv: "loop_inv e" and h: "plain_handle e h"
  obtains e' where "close_handle h e = Some e'" "loop_inv e'" "next_closing e' = next_closing e" "closing_handles e' = closing_handles e"
    "close_cb e' = close_cb e" "handle_queue (e_loop e') = handle_queue (e_loop e)"
    "\<And>k. k \<noteq> h \<Longrightarrow> handles (e_loop e') k = handles (e_loop e) k"
    "h_type (handles (e_loop e') h) = h_type (handles (e_loop e) h)" "\<not> f_active (flags_of (e_loop e') h)"
    "f_closing (flags_of (e_loop e') h) = f_closing (flags_of (e_loop e) h)" "f_closed (flags_of (e_loop e') h) = f_closed (flags_of (e_loop e) h)"
proof -
  let ?ty = "h_type (handles (e_loop e) h)"
  have ti: "timer_inv (e_loop e)" and wi: "watch_inv (e_watch e)" and hq: "h \<in> set (handle_queue (e_loop e))"
    using inv h by (simp_all add: loop_inv_def plain_handle_def)
  show ?thesis
  proof (cases "?ty = UV_TIMER")
    case True
    then have "is_timer (e_loop e) h" using hq by (simp add: is_timer_def)
    then obtain l' where l': "uv_timer_stop h (e_loop e) = Some l'" "timer_inv l'" using timer_stop_ok [OF ti] by blast
    note F = timer_stop_frame [OF l'(1)]
    have "active_watchers ty ((e_watch e)\<lparr>w_loop := l'\<rparr>) = active_watchers ty (e_watch e)" if "ty \<in> watch_types" for ty
    proof -
      have "h_type (handles l' k) = ty \<and> f_active (flags_of l' k) \<longleftrightarrow> h_type (handles (e_loop e) k) = ty \<and> f_active (flags_of (e_loop e) k)" for k
        using F(2) [of k] F(3) True that by (cases "k = h") (auto simp: watch_types_def)
      then show ?thesis using F(1) by (simp add: active_watchers_def)
    qed
    then have "watch_inv ((e_watch e)\<lparr>w_loop := l'\<rparr>)" using l'(2) by (intro watch_inv_same [OF wi]) (auto simp: timer_inv_def)
    then have "loop_inv (set_loop l' e)" using l'(2) by (simp add: loop_inv_def set_loop_def)
    moreover have "close_handle h e = Some (set_loop l' e)" using True l'(1) by (simp add: close_handle_def uv__timer_close_def)
    ultimately show ?thesis using F by (intro that [of "set_loop l' e"]) auto
  next
    case False
    then have ty: "?ty \<in> watch_types" using h by (simp add: plain_handle_def)
    let ?s = "uv_watcher_stop h (e_watch e)" and ?e = "e\<lparr>e_watch := uv_watcher_stop h (e_watch e)\<rparr>"
    obtain xs where xs: "watch_ring ?ty (e_watch e) xs" using wi ty by (auto simp: watch_inv_def)
    have "is_watcher (e_watch e) ?ty h" using hq ty by (simp add: is_watcher_def)
    then have ws: "watch_inv ?s" using watcher_stop_ok(1) [OF wi _ xs] by blast
    have "h_type (handles (w_loop ?s) k) = UV_TIMER \<and> f_active (flags_of (w_loop ?s) k) \<longleftrightarrow>
        h_type (handles (e_loop e) k) = UV_TIMER \<and> f_active (flags_of (e_loop e) k)" for k
      using watcher_stop_frame(2) [of k h "e_watch e"] watcher_stop_frame(3) [of h "e_watch e"] False by (cases "k = h") auto
    then have "active_timers (w_loop ?s) = active_timers (e_loop e)" using watcher_stop_frame(1) [of h "e_watch e"] by (simp add: active_timers_def)
    then have "timer_inv (w_loop ?s)" using ti ws watcher_stop_frame(7,8) [of h "e_watch e"] by (simp add: timer_inv_def watch_inv_def)
    then have "loop_inv ?e" using ws by (simp add: loop_inv_def)
    moreover have "close_handle h e = Some ?e" using ty by (auto simp: close_handle_def uv__watcher_close_def watch_types_def)
    ultimately show ?thesis using watcher_stop_frame [where h = h and s = "e_watch e"] by (intro that [of ?e]) auto
  qed
qed

lemma close_ok:
  assumes inv: "loop_inv e" and h: "plain_handle e h" "\<not> uv__is_closing (e_loop e) h"
    and ch: "closing_chain (next_closing e) (closing_handles e) hs" "\<forall>k \<in> set hs. to_close e k"
  obtains e' where "uv_close h cb e = Some e'" "loop_inv e'" "closing_chain (next_closing e') (closing_handles e') (h # hs)"
    "\<forall>k \<in> set (h # hs). to_close e' k" "\<not> f_active (flags_of (e_loop e') h)" "close_cb e' = (close_cb e)(h := cb)"
    "handle_queue (e_loop e') = handle_queue (e_loop e)" "\<And>k. k \<noteq> h \<Longrightarrow> handles (e_loop e') k = handles (e_loop e) k" "h \<notin> set hs"
proof -
  have nc: "\<not> f_closing (flags_of (e_loop e) h)" "\<not> f_closed (flags_of (e_loop e) h)" using h(2) by (simp_all add: is_closing_flags)
  then have nh: "h \<notin> set hs" using ch(2) by (auto simp: to_close_def)
  define e1 where "e1 = (set_flag h UV_HANDLE_CLOSING e)\<lparr>close_cb := (close_cb e)(h := cb)\<rparr>"
  have sl: "e_loop e1 = set_flags h (flags_of (e_loop e) h OR UV_HANDLE_CLOSING) (e_loop e)"
    "w_queue (e_watch e1) = w_queue (e_watch e)" "w_cb (e_watch e1) = w_cb (e_watch e)"
    "next_closing e1 = next_closing e" "closing_handles e1 = closing_handles e" "close_cb e1 = (close_cb e)(h := cb)"
    by (simp_all add: e1_def set_flag_def)
  have ti: "timer_inv (e_loop e)" and wi: "watch_inv (e_watch e)" using inv by (simp_all add: loop_inv_def)
  have t1: "timer_inv (e_loop e1)" unfolding sl(1) by (rule timer_inv_same [OF set_closing_same _ _ ti]) simp_all
  have aw: "active_watchers ty (e_watch e1) = active_watchers ty (e_watch e)" for ty
    using set_closing_same [of "e_loop e" h] unfolding active_watchers_def sl(1) same_activity_def by simp
  have "active_ok (e_loop e1)" using t1 by (simp add: timer_inv_def)
  then have "watch_inv (e_watch e1)" by (rule watch_inv_same [OF wi _ sl(2,3) aw])
  then have i1: "loop_inv e1" using t1 by (simp add: loop_inv_def)
  have p1: "plain_handle e1 h" using h(1) sl(1) by (simp add: plain_handle_def)
  obtain e2 where e2: "close_handle h e1 = Some e2" "loop_inv e2" "next_closing e2 = next_closing e1" "closing_handles e2 = closing_handles e1"
    "close_cb e2 = close_cb e1" "handle_queue (e_loop e2) = handle_queue (e_loop e1)"
    "\<And>k. k \<noteq> h \<Longrightarrow> handles (e_loop e2) k = handles (e_loop e1) k" "h_type (handles (e_loop e2) h) = h_type (handles (e_loop e1) h)"
    "\<not> f_active (flags_of (e_loop e2) h)"
    "f_closing (flags_of (e_loop e2) h) = f_closing (flags_of (e_loop e1) h)" "f_closed (flags_of (e_loop e2) h) = f_closed (flags_of (e_loop e1) h)"
    using close_handle_ok [OF i1 p1] by blast
  have c2: "f_closing (flags_of (e_loop e2) h)" "\<not> f_closed (flags_of (e_loop e2) h)" using e2(10,11) nc sl(1) by simp_all
  define e3 where "e3 = e2\<lparr>next_closing := (next_closing e2)(h := closing_handles e2), closing_handles := Some h\<rparr>"
  have w3: "e_watch e3 = e_watch e2" by (simp add: e3_def)
  have "uv_close h cb e = Some e3" using h(2) e2(1) c2 unfolding e1_def by (simp add: uv_close_def uv__make_close_pending_def e3_def)
  moreover have "loop_inv e3" using e2(2) w3 by (simp add: loop_inv_def)
  moreover have "closing_chain (next_closing e3) (closing_handles e3) (h # hs)"
    using ch(1) nh e2(3,4) sl(4,5) by (auto simp: e3_def intro: closing_chain_cong [of hs _ "next_closing e"])
  moreover have k: "handles (e_loop e3) k = handles (e_loop e) k" if "k \<noteq> h" for k using e2(7) [OF that] sl(1) that w3 by simp
  then have "to_close e3 k" if "k \<in> set (h # hs)" for k
    using that ch(2) nh c2 e2(8) sl(1) w3 h(1) k [of k] by (cases "k = h") (auto simp: to_close_def plain_handle_def watch_types_def)
  moreover have "close_cb e3 = (close_cb e)(h := cb)" using e2(5) sl(6) by (simp add: e3_def)
  moreover have "handle_queue (e_loop e3) = handle_queue (e_loop e)" using e2(6) sl(1) w3 by simp
  ultimately show ?thesis using e2(9) w3 nh k by (intro that [of e3]) simp_all
qed

text \<open>Closing one handle after the other.\<close>

fun uv_close_all :: "(nat \<times> nat option) list \<Rightarrow> event_loop \<Rightarrow> event_loop option" where
  "uv_close_all [] e = Some e"
| "uv_close_all ((h, cb) # hcs) e = do { e' \<leftarrow> uv_close h cb e; uv_close_all hcs e' }"

lemma close_all_ok:
  assumes "loop_inv e" and "\<forall>h \<in> fst ` set hcs. plain_handle e h \<and> \<not> uv__is_closing (e_loop e) h" and "distinct (map fst hcs)"
    and "closing_chain (next_closing e) (closing_handles e) hs" "\<forall>k \<in> set hs. to_close e k"
    and "\<forall>k \<in> set hs. \<not> f_active (flags_of (e_loop e) k)" "distinct hs"
  shows "\<exists>e'. uv_close_all hcs e = Some e' \<and> loop_inv e' \<and>
           closing_chain (next_closing e') (closing_handles e') (rev (map fst hcs) @ hs) \<and>
           (\<forall>k \<in> set (rev (map fst hcs) @ hs). to_close e' k \<and> \<not> f_active (flags_of (e_loop e') k)) \<and> distinct (rev (map fst hcs) @ hs) \<and>
           (\<forall>k. close_cb e' k = (case map_of hcs k of None \<Rightarrow> close_cb e k | Some cb \<Rightarrow> cb))"
  using assms
proof (induction hcs arbitrary: e hs)
  case Nil
  then show ?case by simp
next
  case (Cons hc hcs)
  obtain h cb where hc: "hc = (h, cb)" by (cases hc)
  have h: "plain_handle e h" "\<not> uv__is_closing (e_loop e) h" using Cons.prems(2) hc by auto
  obtain e1 where e1: "uv_close h cb e = Some e1" "loop_inv e1" "closing_chain (next_closing e1) (closing_handles e1) (h # hs)"
    "\<forall>k \<in> set (h # hs). to_close e1 k" "\<not> f_active (flags_of (e_loop e1) h)" "close_cb e1 = (close_cb e)(h := cb)"
    "handle_queue (e_loop e1) = handle_queue (e_loop e)" "\<And>k. k \<noteq> h \<Longrightarrow> handles (e_loop e1) k = handles (e_loop e) k" "h \<notin> set hs"
    by (rule close_ok [OF Cons.prems(1) h Cons.prems(4,5)]) blast
  have "plain_handle e1 k \<and> \<not> uv__is_closing (e_loop e1) k" if "k \<in> fst ` set hcs" for k
  proof -
    have "k \<noteq> h" using that Cons.prems(3) hc by auto
    moreover have "plain_handle e k" "\<not> uv__is_closing (e_loop e) k" using Cons.prems(2) that by auto
    ultimately show ?thesis using e1(7) e1(8) [of k] by (simp add: plain_handle_def is_closing_flags)
  qed
  moreover have "\<forall>k \<in> set (h # hs). \<not> f_active (flags_of (e_loop e1) k)" using Cons.prems(6) e1(5,8,9) by (metis set_ConsD)
  ultimately obtain e' where e': "uv_close_all hcs e1 = Some e'" "loop_inv e'"
      "closing_chain (next_closing e') (closing_handles e') (rev (map fst hcs) @ h # hs)"
      "\<forall>k \<in> set (rev (map fst hcs) @ h # hs). to_close e' k \<and> \<not> f_active (flags_of (e_loop e') k)" "distinct (rev (map fst hcs) @ h # hs)"
      "\<forall>k. close_cb e' k = (case map_of hcs k of None \<Rightarrow> close_cb e1 k | Some cb \<Rightarrow> cb)"
    using Cons.IH [OF e1(2) _ _ e1(3,4)] Cons.prems(3,7) e1(9) hc by auto
  have "map_of hcs h = None" using Cons.prems(3) hc by (simp add: map_of_eq_None_iff)
  then have "\<forall>k. close_cb e' k = (case map_of (hc # hcs) k of None \<Rightarrow> close_cb e k | Some cb \<Rightarrow> cb)"
    using e'(6) e1(6) hc by (simp split: option.splits)
  then show ?case using e' e1(1) hc by simp
qed

text \<open>
  Callbacks may close further handles: these are put in front of the list of handles to be closed. A handle that has been closed stays closed.
\<close>

definition closing_list :: "event_loop \<Rightarrow> nat list \<Rightarrow> bool" where
  "closing_list e hs \<longleftrightarrow> closing_chain (next_closing e) (closing_handles e) hs \<and> distinct hs \<and> (\<forall>k \<in> set hs. to_close e k)"

definition closes_only :: "'u os \<Rightarrow> bool" where
  "closes_only os \<longleftrightarrow>
     (\<forall>c u e cs. closing_list e cs \<longrightarrow>
        (let e' = snd (run_cb os c (u, e))
         in (\<exists>ns. closing_list e' (ns @ cs) \<and> (\<forall>k \<in> set ns. \<not> f_closing (flags_of (e_loop e) k))) \<and>
            (\<forall>k. f_closed (flags_of (e_loop e) k) \<longrightarrow> f_closed (flags_of (e_loop e') k))))"

lemma after_close_closed: "f_closed (flags_of (e_loop (after_close h e)) h)"
  by (simp add: after_close_def Let_def set_flag_def uv__handle_unref_def f_closed_def UV_HANDLE_CLOSED_def UV_HANDLE_REF_def bit_simps)

lemma closing_loop_all:
  assumes "spares_closing os" and "logs_calls os log" and "closes_only os"
  shows "closing_chain (next_closing e) p hs \<Longrightarrow> distinct hs \<Longrightarrow> \<forall>h \<in> set hs. to_close e h \<Longrightarrow> length hs \<le> fuel \<Longrightarrow>
    closing_list e cs \<Longrightarrow> set cs \<inter> set hs = {} \<Longrightarrow>
    \<exists>u' e' ns. closing_loop fuel os p (u, e) = Some (u', e') \<and> log u' = log u @ close_calls e hs \<and> closing_list e' ns \<and>
      (\<forall>k. k \<in> set hs \<or> f_closed (flags_of (e_loop e) k) \<longrightarrow> f_closed (flags_of (e_loop e') k))"
proof (induction hs arbitrary: p u e fuel cs)
  case Nil
  then show ?case by (cases fuel) (auto simp: close_calls_def)
next
  case (Cons h hs)
  obtain f where f: "fuel = Suc f" using Cons.prems(4) by (cases fuel) auto
  let ?e = "after_close h e"
  define w where "w = (case close_cb e h of None \<Rightarrow> (u, ?e) | Some k \<Rightarrow> run_cb os (Close_cb k h) (u, ?e))"
  obtain u1 e1 where w1: "w = (u1, e1)" by (cases w)
  have e1: "e1 = (case close_cb e h of None \<Rightarrow> ?e | Some k \<Rightarrow> snd (run_cb os (Close_cb k h) (u, ?e)))"
    using w1 by (simp add: w_def split: option.splits)
  have th: "to_close e h" using Cons.prems(3) by simp
  have tc: "to_close ?e k" "handles (e_loop e1) k = handles (e_loop e) k" "next_closing e1 k = next_closing e k" "close_cb e1 k = close_cb e k"
    if "k \<in> set hs" for k
  proof -
    have "k \<noteq> h" "to_close e k" using that Cons.prems(2,3) by auto
    then show t: "to_close ?e k" using after_close_other [of k h e] by (simp add: to_close_def)
    show "handles (e_loop e1) k = handles (e_loop e) k" "next_closing e1 k = next_closing e k" "close_cb e1 k = close_cb e k"
      using assms(1) [unfolded spares_closing_def Let_def, rule_format, OF t] after_close_other [OF \<open>k \<noteq> h\<close>, of e]
      by (simp_all add: e1 split: option.splits)
  qed
  have lg: "log u1 = log u @ close_calls e [h]"
    using assms(2) [unfolded logs_calls_def, rule_format, of "Close_cb (the (close_cb e h)) h" "(u, ?e)"] w1
    by (cases "close_cb e h") (simp_all add: w_def close_calls_def)
  have ch: "closing_chain (next_closing e1) (next_closing e h) hs"
    by (rule closing_chain_cong [of hs _ "next_closing e"]) (use Cons.prems(1) in \<open>simp_all add: tc(3)\<close>)
  have t1: "\<forall>k \<in> set hs. to_close e1 k" using Cons.prems(3) tc(2) by (simp add: to_close_def)
  have L: "closing_list ?e cs"
    using Cons.prems(5,6) after_close_other [of _ h e] unfolding closing_list_def to_close_def by fastforce
  have keep: "f_closed (flags_of (e_loop ?e) k)" if "k = h \<or> f_closed (flags_of (e_loop e) k)" for k
    using that after_close_closed [of h e] after_close_other [of k h e] by (cases "k = h") auto
  have "\<exists>ns. closing_list e1 (ns @ cs) \<and> (\<forall>k \<in> set ns. \<not> f_closing (flags_of (e_loop ?e) k)) \<and> (\<forall>k. f_closed (flags_of (e_loop ?e) k) \<longrightarrow> f_closed (flags_of (e_loop e1) k))"
    using assms(3) [unfolded closes_only_def Let_def, rule_format, OF L] L by (cases "close_cb e h") (auto simp: e1 intro: exI [of _ "[]"])
  then obtain ns where ns: "closing_list e1 (ns @ cs)" "\<forall>k \<in> set ns. \<not> f_closing (flags_of (e_loop ?e) k)"
    "\<forall>k. f_closed (flags_of (e_loop ?e) k) \<longrightarrow> f_closed (flags_of (e_loop e1) k)" by blast
  have "set (ns @ cs) \<inter> set hs = {}" using ns(2) tc(1) Cons.prems(6) by (auto simp: to_close_def)
  then obtain u' e' ns' where R: "closing_loop f os (next_closing e h) (u1, e1) = Some (u', e')" "log u' = log u1 @ close_calls e1 hs" "closing_list e' ns'"
    "\<forall>k. k \<in> set hs \<or> f_closed (flags_of (e_loop e1) k) \<longrightarrow> f_closed (flags_of (e_loop e') k)"
    using Cons.IH [OF ch _ t1 _ ns(1), of f u1] Cons.prems(2,4) f by auto
  moreover have "close_calls e1 hs = close_calls e hs" unfolding close_calls_def using tc(4) by (simp cong: map_cong)
  moreover have "closing_loop fuel os p (u, e) = closing_loop f os (next_closing e h) (u1, e1)"
    using Cons.prems(1) f finish_close_eq [OF th, of os u] w1 by (simp add: w_def)
  moreover have "\<forall>k. k \<in> set (h # hs) \<or> f_closed (flags_of (e_loop e) k) \<longrightarrow> f_closed (flags_of (e_loop e') k)" using R(4) ns(3) keep by auto
  ultimately show ?case using lg by (intro exI [of _ u'] exI [of _ e'] exI [of _ ns']) (auto simp: close_calls_def)
qed


lemma run_closing_all:
  assumes "spares_closing os" and "logs_calls os log" and "closes_only os" and "closing_list e hs" and "length hs \<le> fuel"
  shows "\<exists>u' e' ns. uv__run_closing_handles fuel os (u, e) = Some (u', e') \<and> log u' = log u @ close_calls e hs \<and> closing_list e' ns \<and>
      (\<forall>h \<in> set hs. f_closed (flags_of (e_loop e') h) \<and> h \<notin> set ns)"
proof -
  let ?e = "e\<lparr>closing_handles := None\<rparr>"
  have "closing_chain (next_closing ?e) (closing_handles e) hs" "distinct hs" "\<forall>h \<in> set hs. to_close ?e h" "closing_list ?e []"
    using assms(4) by (simp_all add: closing_list_def to_close_def)
  then obtain u' e' ns where "closing_loop fuel os (closing_handles e) (u, ?e) = Some (u', e')" "log u' = log u @ close_calls ?e hs"
      "closing_list e' ns" "\<forall>k. k \<in> set hs \<or> f_closed (flags_of (e_loop ?e) k) \<longrightarrow> f_closed (flags_of (e_loop e') k)"
    using closing_loop_all [OF assms(1-3), of ?e "closing_handles e" hs fuel "[]" u] assms(5) by auto
  moreover have "close_calls ?e hs = close_calls e hs" by (simp add: close_calls_def)
  moreover have "h \<notin> set ns" if "h \<in> set hs" for h using calculation(3,4) that by (auto simp: closing_list_def to_close_def)
  ultimately show ?thesis by (simp add: uv__run_closing_handles_def) blast
qed

text \<open>
  C23: When timers and prepare, check and idle watchers are closed one after the other, each is stopped at once and the loop stays
  consistent; the next \<^verbatim>\<open>uv__run_closing_handles\<close> calls each close callback exactly once, the last closed first, and handles closed
  without a callback are passed over. Afterwards these handles are closed and no longer in the list of handles to be closed: that list holds only handles that callbacks
  closed meanwhile, and the run after that calls their close callbacks and no others. This holds for any callbacks that leave the handles being closed alone, whether or not
  they close further handles.
\<close>

theorem close_callbacks_once:
  assumes "loop_inv e" and "closing_handles e = None" and "distinct (map fst hcs)"
    and "\<forall>h \<in> fst ` set hcs. plain_handle e h \<and> \<not> uv__is_closing (e_loop e) h"
    and "spares_closing os" and "logs_calls os log" and "closes_only os" and "length hcs \<le> fuel"
  shows "\<exists>e' u' e'' ns. uv_close_all hcs e = Some e' \<and> loop_inv e' \<and> (\<forall>h \<in> fst ` set hcs. \<not> uv__is_active (e_loop e') h) \<and>
           uv__run_closing_handles fuel os (u, e') = Some (u', e'') \<and>
           log u' = log u @ concat (map (\<lambda>(h, cb). case cb of None \<Rightarrow> [] | Some k \<Rightarrow> [Close_cb k h]) (rev hcs)) \<and>
           closing_list e'' ns \<and> (\<forall>h \<in> fst ` set hcs. f_closed (flags_of (e_loop e'') h) \<and> h \<notin> set ns) \<and>
           (\<forall>fuel2. length ns \<le> fuel2 \<longrightarrow>
              (\<exists>u2 e2. uv__run_closing_handles fuel2 os (u', e'') = Some (u2, e2) \<and> log u2 = log u' @ close_calls e'' ns))"
proof -
  obtain e' where e': "uv_close_all hcs e = Some e'" "loop_inv e'" "closing_chain (next_closing e') (closing_handles e') (rev (map fst hcs))"
      "\<forall>k \<in> set (rev (map fst hcs)). to_close e' k \<and> \<not> f_active (flags_of (e_loop e') k)"
      "\<forall>k. close_cb e' k = (case map_of hcs k of None \<Rightarrow> close_cb e k | Some cb \<Rightarrow> cb)"
    using close_all_ok [OF assms(1,4,3), of "[]"] assms(2) by auto
  have L: "closing_list e' (rev (map fst hcs))" using e'(3,4) assms(3) by (simp add: closing_list_def)
  obtain u' e'' ns where R: "uv__run_closing_handles fuel os (u, e') = Some (u', e'')" "log u' = log u @ close_calls e' (rev (map fst hcs))"
      "closing_list e'' ns" "\<forall>h \<in> set (rev (map fst hcs)). f_closed (flags_of (e_loop e'') h) \<and> h \<notin> set ns"
    using run_closing_all [OF assms(5-7) L, of fuel u] assms(8) by auto
  have "close_calls e' (rev (map fst hcs)) = concat (map (\<lambda>(h, cb). case cb of None \<Rightarrow> [] | Some k \<Rightarrow> [Close_cb k h]) (rev hcs))"
  proof -
    have "(case close_cb e' (fst x) of None \<Rightarrow> [] | Some k \<Rightarrow> [Close_cb k (fst x)]) = (case x of (h, cb) \<Rightarrow> case cb of None \<Rightarrow> [] | Some k \<Rightarrow> [Close_cb k h])"
      if x: "x \<in> set hcs" for x
    proof -
      obtain h cb where e: "x = (h, cb)" by (cases x)
      then show ?thesis using e'(5) assms(3) x unfolding e by (simp split: option.splits)
    qed
    then show ?thesis unfolding close_calls_def rev_map [symmetric] map_map by (auto intro!: arg_cong [of _ _ concat] map_cong)
  qed
  moreover have "\<exists>u2 e2. uv__run_closing_handles f os (u', e'') = Some (u2, e2) \<and> log u2 = log u' @ close_calls e'' ns" if "length ns \<le> f" for f
    using run_closing_all [OF assms(5-7) R(3) that, of u'] by blast
  ultimately show ?thesis using e'(1,2,4) R
    by (intro exI [of _ e'] exI [of _ u'] exI [of _ e''] exI [of _ ns]) simp
qed

lemma example_event_inv: "loop_inv example_event"
proof -
  let ?l0 = "uv_timer_init 1 (empty_loop 0)"
  have "timer_inv ?l0" "is_timer ?l0 1" "\<not> uv__is_closing ?l0 1"
    using timer_init_ok [OF empty_loop_inv [of 0], of 1] by (simp_all add: empty_loop_def)
  then obtain l where l: "uv_timer_start 1 (Some 7) 100 0 ?l0 = Some (None, l)" "timer_inv l" by (rule timer_start_ok) blast
  then have e: "e_loop example_event = l" by (simp add: example_event_def)
  have "active_watchers ty (e_watch example_event) = {}" if "ty \<in> watch_types" for ty
  proof -
    have "handle_queue (e_loop example_event) = [1]" "h_type (handles (e_loop example_event) 1) = UV_TIMER" by code_simp+
    then show ?thesis using that by (auto simp: active_watchers_def watch_types_def)
  qed
  then have "watch_ring ty (e_watch example_event) []" if "ty \<in> watch_types" for ty
    using that by (simp add: watch_ring_def ring_def) (simp add: example_event_def)
  moreover have "active_ok (e_loop example_event)" using e l(2) by (simp add: timer_inv_def)
  ultimately show ?thesis using e l(2) by (auto simp: loop_inv_def watch_inv_def)
qed

lemma script_calls: "spares_closing script_os" "logs_calls script_os (\<lambda>u. snd (snd u))"
  by (auto simp: spares_closing_def logs_calls_def script_os_def)

text \<open>What \<^verbatim>\<open>uv_close\<close> leaves alone, for any kind of handle.\<close>

lemma handle_stop_type: "h_type (handles (uv__handle_stop h l) h) = h_type (handles l h)"
  by (simp add: uv__handle_stop_def Let_def)

lemma close_handle_frame:
  assumes "close_handle h e = Some e'"
  shows "next_closing e' = next_closing e" "closing_handles e' = closing_handles e" "close_cb e' = close_cb e"
    "k \<noteq> h \<Longrightarrow> handles (e_loop e') k = handles (e_loop e) k" "h_type (handles (e_loop e') h) = h_type (handles (e_loop e) h)"
    "h_type (handles (e_loop e') h) \<noteq> UV_other"
  using assms timer_stop_frame [where h = h and l = "e_loop e"] watcher_stop_frame [where h = h and s = "e_watch e"]
  by (auto simp: close_handle_def uv__timer_close_def uv__watcher_close_def uv__poll_stop_def bind_eq_Some_conv Let_def handle_stop_type
      split: handle_type.splits)

lemma close_frame:
  assumes "uv_close h cb e = Some e'"
  shows "\<not> f_closing (flags_of (e_loop e) h)" "\<not> f_closed (flags_of (e_loop e) h)"
    "next_closing e' = (next_closing e)(h := closing_handles e)" "closing_handles e' = Some h" "close_cb e' = (close_cb e)(h := cb)"
    "k \<noteq> h \<Longrightarrow> handles (e_loop e') k = handles (e_loop e) k" "to_close e' h"
proof -
  show "\<not> f_closing (flags_of (e_loop e) h)" "\<not> f_closed (flags_of (e_loop e) h)"
    using assms by (simp_all add: uv_close_def is_closing_flags split: if_splits)
  let ?e1 = "(set_flag h UV_HANDLE_CLOSING e)\<lparr>close_cb := (close_cb e)(h := cb)\<rparr>"
  obtain e2 where e2: "close_handle h ?e1 = Some e2" "uv__make_close_pending h e2 = Some e'"
    using assms by (auto simp: uv_close_def bind_eq_Some_conv split: if_splits)
  note F = close_handle_frame [OF e2(1)]
  show "next_closing e' = (next_closing e)(h := closing_handles e)" "closing_handles e' = Some h" "close_cb e' = (close_cb e)(h := cb)" "to_close e' h"
    using e2(2) F(1-3,6) by (auto simp: uv__make_close_pending_def set_flag_def to_close_def split: if_splits)
  show "handles (e_loop e') k = handles (e_loop e) k" if "k \<noteq> h"
    using e2(2) F(4) [OF that] that by (auto simp: uv__make_close_pending_def set_flag_def split: if_splits)
qed

text \<open>A program whose close callback 9 of handle 1 closes handle 2.\<close>

definition closing_os :: "event_call list os" where
  "closing_os = \<lparr>hrtime = (\<lambda>u. (0, u)), kevent_change = (\<lambda>_ u. (None, u)), kevent_wait = (\<lambda>_ _ u. (K_events [], u)),
     run_cb = (\<lambda>c w. (fst w @ [c],
       if c = Close_cb 9 1 then (case uv_close 2 (Some 8) (snd w) of None \<Rightarrow> snd w | Some e' \<Rightarrow> e') else snd w))\<rparr>"

lemma closing_os_ok: "spares_closing closing_os" "logs_calls closing_os (\<lambda>u. u)" "closes_only closing_os"
proof -
  have r: "snd (run_cb closing_os c (u, e)) = e \<or> uv_close 2 (Some 8) e = Some (snd (run_cb closing_os c (u, e)))" for c u e
    by (simp add: closing_os_def split: option.splits)
  show "logs_calls closing_os (\<lambda>u. u)" by (simp add: logs_calls_def closing_os_def)
  show "spares_closing closing_os" unfolding spares_closing_def Let_def
  proof (intro allI impI)
    fix c u e h assume t: "to_close e h"
    let ?e = "snd (run_cb closing_os c (u, e))"
    consider "?e = e" | "uv_close 2 (Some 8) e = Some ?e" using r by blast
    then show "handles (e_loop ?e) h = handles (e_loop e) h \<and> next_closing ?e h = next_closing e h \<and> close_cb ?e h = close_cb e h"
    proof cases
      case 2
      note F = close_frame [OF 2]
      have "h \<noteq> 2" using F(1) t by (auto simp: to_close_def)
      then show ?thesis using F by simp
    qed simp
  qed
  show "closes_only closing_os" unfolding closes_only_def Let_def
  proof (intro allI impI)
    fix c u e cs assume L: "closing_list e cs"
    let ?e = "snd (run_cb closing_os c (u, e))"
    consider "?e = e" | "uv_close 2 (Some 8) e = Some ?e" using r by blast
    then show "(\<exists>ns. closing_list ?e (ns @ cs) \<and> (\<forall>k \<in> set ns. \<not> f_closing (flags_of (e_loop e) k))) \<and>
        (\<forall>k. f_closed (flags_of (e_loop e) k) \<longrightarrow> f_closed (flags_of (e_loop ?e) k))"
    proof cases
      case 1
      then show ?thesis using L by (intro conjI exI [of _ "[]"]) simp_all
    next
      case 2
      note F = close_frame [OF 2]
      have n: "2 \<notin> set cs" using F(1) L by (auto simp: to_close_def closing_list_def)
      have "closing_chain (next_closing ?e) (closing_handles e) cs"
        by (rule closing_chain_cong [of cs _ "next_closing e"]) (use n F(3) L in \<open>auto simp: closing_list_def\<close>)
      moreover have "to_close ?e k" if "k \<in> set cs" for k
        using that n F(6) [of k] L by (metis closing_list_def to_close_def)
      ultimately have "closing_list ?e ([2] @ cs)" using F n L by (auto simp: closing_list_def)
      moreover have "f_closed (flags_of (e_loop ?e) k)" if "f_closed (flags_of (e_loop e) k)" for k
        using that F(2) F(6) [of k] by (cases "k = 2") auto
      ultimately show ?thesis using F(1) by (intro conjI exI [of _ "[2]"]) auto
    qed
  qed
qed

definition example_pair :: event_loop where
  "example_pair = set_loop (uv_timer_init 2 (e_loop example_event)) example_event"

lemma example_pair_inv: "loop_inv example_pair"
proof -
  have i: "loop_inv example_event" by (rule example_event_inv)
  have q: "handle_queue (e_loop example_event) = [1]" "handle_queue (e_loop example_pair) = [1, 2]"
    "h_type (handles (e_loop example_pair) 1) = UV_TIMER" "h_type (handles (e_loop example_pair) 2) = UV_TIMER" by code_simp+
  have "timer_inv (e_loop example_pair)"
    using timer_init_ok [of "e_loop example_event" 2] i q(1) by (simp add: example_pair_def loop_inv_def)
  moreover have "watch_ring ty (e_watch example_pair) []" if "ty \<in> watch_types" for ty
    using that q(2-4) by (auto simp: watch_ring_def ring_def active_watchers_def watch_types_def) (simp_all add: example_pair_def example_event_def set_loop_def)
  ultimately show ?thesis by (auto simp: loop_inv_def watch_inv_def timer_inv_def)
qed

lemma closing_os_runs:
  "map_option fst (do { e' \<leftarrow> uv_close_all [(1, Some 9)] example_pair; w \<leftarrow> uv__run_closing_handles 1 closing_os ([], e');
     uv__run_closing_handles 1 closing_os w }) = Some [Close_cb 9 1, Close_cb 8 2]"
  by code_simp

theorem close_callbacks_once_witness:
  "\<exists>e' e'' ns. uv_close_all [(1, Some 9)] example_pair = Some e' \<and>
     uv__run_closing_handles 1 closing_os ([], e') = Some ([Close_cb 9 1], e'') \<and> 1 \<notin> set ns \<and>
     (\<exists>e2. uv__run_closing_handles (length ns) closing_os ([Close_cb 9 1], e'') = Some (Close_cb 9 1 # close_calls e'' ns, e2)) \<and>
     map_option fst (uv__run_closing_handles 1 closing_os ([Close_cb 9 1], e'')) = Some [Close_cb 9 1, Close_cb 8 2]"
proof -
  have p: "plain_handle example_pair 1" "\<not> uv__is_closing (e_loop example_pair) 1" "closing_handles example_pair = None"
    unfolding plain_handle_def watch_types_def by code_simp+
  obtain e' u' e'' ns where R: "uv_close_all [(1, Some 9)] example_pair = Some e'" "uv__run_closing_handles 1 closing_os ([], e') = Some (u', e'')"
      "u' = [] @ concat (map (\<lambda>(h, cb). case cb of None \<Rightarrow> [] | Some k \<Rightarrow> [Close_cb k h]) (rev [(1, Some 9)]))"
      "\<forall>h \<in> fst ` set [(1 :: nat, Some (9 :: nat))]. f_closed (flags_of (e_loop e'') h) \<and> h \<notin> set ns"
      "\<forall>fuel2. length ns \<le> fuel2 \<longrightarrow> (\<exists>u2 e2. uv__run_closing_handles fuel2 closing_os (u', e'') = Some (u2, e2) \<and> u2 = u' @ close_calls e'' ns)"
    using close_callbacks_once [OF example_pair_inv p(3) _ _ closing_os_ok, of "[(1, Some 9)]" 1 "[]"] p(1,2) by auto
  have u': "u' = [Close_cb 9 1]" using R(3) by simp
  have "map_option fst (uv__run_closing_handles 1 closing_os ([Close_cb 9 1], e'')) = Some [Close_cb 9 1, Close_cb 8 2]"
    using closing_os_runs unfolding R(1) bind.bind_lunit R(2) u' .
  moreover have "1 \<notin> set ns" using R(4) by simp
  moreover have "\<exists>e2. uv__run_closing_handles (length ns) closing_os ([Close_cb 9 1], e'') = Some (Close_cb 9 1 # close_calls e'' ns, e2)"
    using R(5) u' by auto
  ultimately show ?thesis using R(1,2) u' by blast
qed

end
