(* ===== verification/Uv_Order.thy ===== *)
theory Uv_Order
  imports Uv_Run
begin

text \<open>
  One iteration of \<^verbatim>\<open>uv_run\<close>: which callbacks are called, and in which order. The callbacks are logged and leave the loop alone.
\<close>

definition quiet :: "'u os \<Rightarrow> bool" where
  "quiet os \<longleftrightarrow> (\<forall>c w. snd (run_cb os c w) = snd w)"

definition observes :: "'u os \<Rightarrow> ('u \<Rightarrow> event_call list) \<Rightarrow> bool" where
  "observes os log \<longleftrightarrow>
     logs_calls os log \<and> (\<forall>u. log (snd (hrtime os u)) = log u) \<and> (\<forall>chs u. log (snd (kevent_change os chs u)) = log u) \<and>
     (\<forall>chs t u. log (snd (kevent_wait os chs t u)) = log u)"

lemma quiet_call:
  assumes "quiet os" and "observes os log"
  obtains u' where "run_cb os c (u, e) = (u', e)" "log u' = log u @ [c]"
  using assms unfolding quiet_def observes_def logs_calls_def by (metis fst_conv prod.collapse snd_conv)

lemma quiet_spares: "quiet os \<Longrightarrow> spares_closing os"
  by (simp add: quiet_def spares_closing_def Let_def)

lemma quiet_closes: "quiet os \<Longrightarrow> closes_only os"
  unfolding quiet_def closes_only_def Let_def by (metis append_Nil empty_iff list.set(1) snd_conv)

subsection \<open>Timers\<close>

lemma note_timer_eq: "note_timer k h (seen, l) = (seen @ [h], l)"
  by (simp add: note_timer_def)

lemma run_timers_sim:
  assumes cb: "\<And>k h x seen l. R seen x \<Longrightarrow> \<exists>x'. run k h (x, l) = (x', l) \<and> R (seen @ [h]) x'"
  shows "R seen x \<Longrightarrow> uv__run_timers f note_timer (seen, l) = Some (seen', l') \<Longrightarrow> \<exists>x'. uv__run_timers f run (x, l) = Some (x', l') \<and> R seen' x'"
proof (induction f arbitrary: seen x l)
  case 0
  then show ?case by (auto simp: uv__run_timers.simps [of 0] split: option.splits if_splits)
next
  case (Suc f)
  consider "heap_min (timer_heap l) = None \<or> (\<exists>h. heap_min (timer_heap l) = Some h \<and> timeout (timers l h) > time l)"
    | h where "heap_min (timer_heap l) = Some h" "\<not> timeout (timers l h) > time l" by (cases "heap_min (timer_heap l)") auto
  then show ?case
  proof cases
    case 1
    then show ?thesis using Suc.prems by (auto simp: uv__run_timers.simps [of "Suc f"])
  next
    case (2 h)
    then obtain l1 r l2 k where s: "uv_timer_stop h l = Some l1" "uv_timer_again h l1 = Some (r, l2)" "timer_cb (timers l2 h) = Some k"
      "uv__run_timers f note_timer (seen @ [h], l2) = Some (seen', l')"
      using Suc.prems(2) by (auto simp: uv__run_timers.simps [of "Suc f"] note_timer_eq split: option.splits)
    obtain x' where "run k h (x, l2) = (x', l2)" "R (seen @ [h]) x'" using cb [OF Suc.prems(1)] by blast
    then show ?thesis using Suc.IH [OF _ s(4)] 2 s(1-3) by (simp add: uv__run_timers.simps [of "Suc f"])
  qed
qed

text \<open>Running timers touches the handles of timers only, and not whether they are closing.\<close>

definition timer_frame :: "uv_loop \<Rightarrow> uv_loop \<Rightarrow> bool" where
  "timer_frame l l' \<longleftrightarrow>
     handle_queue l' = handle_queue l \<and> time l' = time l \<and>
     (\<forall>k. h_type (handles l' k) = h_type (handles l k) \<and> f_closing (flags_of l' k) = f_closing (flags_of l k) \<and>
          f_closed (flags_of l' k) = f_closed (flags_of l k) \<and> (h_type (handles l k) = UV_TIMER \<or> handles l' k = handles l k))"

lemma timer_frame_refl [simp]: "timer_frame l l"
  by (simp add: timer_frame_def)

lemma timer_frame_trans: "timer_frame l l' \<Longrightarrow> timer_frame l' l'' \<Longrightarrow> timer_frame l l''"
  unfolding timer_frame_def by metis

lemma handle_start_other [simp]: "k \<noteq> h \<Longrightarrow> handles (uv__handle_start h l) k = handles l k"
  by (simp add: uv__handle_start_def Let_def)

lemma timer_frameI:
  assumes "handle_queue l' = handle_queue l" and "time l' = time l" and "\<And>k. k \<noteq> h \<Longrightarrow> handles l' k = handles l k"
    and "h_type (handles l h) = UV_TIMER" and "h_type (handles l' h) = h_type (handles l h)"
    and "f_closing (flags_of l' h) = f_closing (flags_of l h)" and "f_closed (flags_of l' h) = f_closed (flags_of l h)"
  shows "timer_frame l l'"
  unfolding timer_frame_def
proof (intro conjI allI)
  fix k
  show "h_type (handles l' k) = h_type (handles l k)" "f_closing (flags_of l' k) = f_closing (flags_of l k)"
    "f_closed (flags_of l' k) = f_closed (flags_of l k)" "h_type (handles l k) = UV_TIMER \<or> handles l' k = handles l k"
    using assms(3) [of k] assms(4-7) by (cases "k = h"; simp)+
qed (rule assms(1,2))+

lemma stop_frame: "uv_timer_stop h l = Some l' \<Longrightarrow> h_type (handles l h) = UV_TIMER \<Longrightarrow> timer_frame l l'"
  by (rule timer_frameI [of _ _ h]) (auto simp: uv_timer_stop_def split: if_splits option.splits)

lemma start_frame: "uv_timer_start h cb tmo rpt l = Some (r, l') \<Longrightarrow> h_type (handles l h) = UV_TIMER \<Longrightarrow> timer_frame l l'"
proof -
  assume s: "uv_timer_start h cb tmo rpt l = Some (r, l')" and h: "h_type (handles l h) = UV_TIMER"
  show "timer_frame l l'"
  proof (cases "uv__is_closing l h \<or> cb = None")
    case True
    then show ?thesis using s by (auto simp: uv_timer_start_def)
  next
    case False
    then obtain l1 where l1: "(if uv__is_active l h then uv_timer_stop h l else Some l) = Some l1" "timer_frame l1 l'"
    proof -
      obtain l1 hp where a: "(if uv__is_active l h then uv_timer_stop h l else Some l) = Some l1"
        "l' = uv__handle_start h ((upd_timer h (\<lambda>t. t\<lparr>timer_cb := cb, timeout := clamped (time l1) tmo, repeat := rpt, start_id := timer_counter l1\<rparr>) l1)
                \<lparr>timer_counter := timer_counter l1 + 1, timer_heap := hp\<rparr>)"
        using s False by (auto simp: uv_timer_start_def Let_def upd_timer_def split: option.splits)
      have "timer_frame l l1" using a(1) h by (auto split: if_splits intro: stop_frame)
      then have "h_type (handles l1 h) = UV_TIMER" using h by (simp add: timer_frame_def)
      then have "timer_frame l1 l'" unfolding a(2) by (intro timer_frameI [of _ _ h]) (simp_all add: upd_timer_def)
      then show ?thesis using a(1) that by blast
    qed
    have "timer_frame l l1" using l1(1) h by (auto split: if_splits intro: stop_frame)
    then show ?thesis using l1(2) timer_frame_trans by blast
  qed
qed

lemma again_frame:
  assumes "uv_timer_again h l = Some (r, l')" and "h_type (handles l h) = UV_TIMER"
  shows "timer_frame l l'"
proof (cases "timer_cb (timers l h) = None \<or> repeat (timers l h) = 0")
  case True
  then show ?thesis using assms(1) by (auto simp: uv_timer_again_def split: if_splits)
next
  case False
  then obtain l1 r' where l1: "uv_timer_stop h l = Some l1" "uv_timer_start h (timer_cb (timers l1 h)) (repeat (timers l1 h)) (repeat (timers l1 h)) l1 = Some (r', l')"
    using assms(1) by (auto simp: uv_timer_again_def split: option.splits)
  have f: "timer_frame l l1" by (rule stop_frame [OF l1(1) assms(2)])
  then have "timer_frame l1 l'" using l1(2) assms(2) by (intro start_frame) (auto simp: timer_frame_def)
  then show ?thesis using f timer_frame_trans by blast
qed

lemma run_timers_frame:
  "timer_inv l \<Longrightarrow> uv__run_timers f note_timer (seen, l) = Some (seen', l') \<Longrightarrow> timer_frame l l'"
proof (induction f arbitrary: l seen)
  case 0
  then show ?case by (auto simp: uv__run_timers.simps [of 0] split: option.splits if_splits)
next
  case (Suc f)
  consider "heap_min (timer_heap l) = None \<or> (\<exists>h. heap_min (timer_heap l) = Some h \<and> timeout (timers l h) > time l)"
    | h where "heap_min (timer_heap l) = Some h" "\<not> timeout (timers l h) > time l" by (cases "heap_min (timer_heap l)") auto
  then show ?case
  proof cases
    case 1
    then show ?thesis using Suc.prems(2) by (auto simp: uv__run_timers.simps [of "Suc f"])
  next
    case (2 h)
    then obtain l1 r l2 k where s: "uv_timer_stop h l = Some l1" "uv_timer_again h l1 = Some (r, l2)" "timer_cb (timers l2 h) = Some k"
      "uv__run_timers f note_timer (seen @ [h], l2) = Some (seen', l')"
      using Suc.prems(2) by (auto simp: uv__run_timers.simps [of "Suc f"] note_timer_eq split: option.splits)
    have hA: "h \<in> active_timers l" by (rule heap_min_timer(2) [OF Suc.prems(1) 2(1)])
    then have h: "is_timer l h" "h_type (handles l h) = UV_TIMER" by (simp_all add: active_timers_def is_timer_def)
    obtain l1' where "uv_timer_stop h l = Some l1'" "timer_inv l1'" "timers l1' = timers l" "is_timer l1' = is_timer l"
      by (rule timer_stop_ok [OF Suc.prems(1) h(1)])
    then have l1: "timer_inv l1" "timers l1 = timers l" "is_timer l1 h" using s(1) h(1) by simp_all
    obtain k' where k': "timer_cb (timers l h) = Some k'" using Suc.prems(1) hA by (auto simp: timer_inv_def)
    have "timer_cb (timers l1 h) = Some k'" using k' l1(2) by simp
    then obtain l2' where "uv_timer_again h l1 = Some (None, l2')" "timer_inv l2'"
      by (rule timer_again_ok [OF l1(1,3) _ timer_stop_frame(4) [OF s(1)]])
    then have l2: "timer_inv l2" using s(2) by simp
    have f1: "timer_frame l l1" by (rule stop_frame [OF s(1) h(2)])
    then have "timer_frame l1 l2" using s(2) h(2) by (intro again_frame) (auto simp: timer_frame_def)
    then show ?thesis using f1 Suc.IH [OF l2 s(4)] timer_frame_trans by blast
  qed
qed

lemma loop_timers_order:
  assumes q: "quiet os" "observes os log" and i: "loop_inv e" and now: "time (e_loop e) < - 1" and f: "card (due_timers (e_loop e)) \<le> fuel"
  shows "\<exists>u' l' cs ran. loop_timers fuel os (u, e) = Some (u', set_loop l' e) \<and> log u' = log u @ cs \<and>
           list_all2 (\<lambda>c h. \<exists>k. c = Timer_cb k h) cs ran \<and> set ran = due_timers (e_loop e) \<and> distinct ran \<and>
           sorted_wrt (\<lambda>a b. \<not> timer_less_than (timers (e_loop e)) b a) ran \<and> timer_frame (e_loop e) l' \<and> loop_inv (set_loop l' e) \<and>
           (\<forall>ty \<in> watch_types. active_watchers ty (e_watch (set_loop l' e)) = active_watchers ty (e_watch e))"
proof -
  let ?l = "e_loop e"
  let ?run = "\<lambda>k h ((u, e), l). case run_cb os (Timer_cb k h) (u, set_loop l e) of (u', e') \<Rightarrow> ((u', e'), e_loop e')"
  have ti: "timer_inv ?l" and wi: "watch_inv (e_watch e)" using i by (simp_all add: loop_inv_def)
  obtain ran l' where r: "uv__run_timers fuel note_timer ([], ?l) = Some (ran, l')" "timer_inv l'" "set ran = due_timers ?l" "distinct ran"
      "sorted_wrt (\<lambda>a b. \<not> timer_less_than (timers ?l) b a) ran"
    using run_timers_order [OF ti now f, of "[]"] by auto
  have fr: "timer_frame ?l l'" by (rule run_timers_frame [OF ti r(1)])
  let ?R = "\<lambda>seen (x :: 'a \<times> event_loop). (\<forall>l. set_loop l (snd x) = set_loop l e) \<and>
    (\<exists>cs. log (fst x) = log u @ cs \<and> list_all2 (\<lambda>c h. \<exists>k. c = Timer_cb k h) cs seen)"
  have cb: "\<exists>x'. ?run k h (x, l) = (x', l) \<and> ?R (seen @ [h]) x'" if R: "?R seen x" for k h x seen l
  proof -
    obtain v d where x: "x = (v, d)" by (cases x)
    obtain cs where cs: "log v = log u @ cs" "list_all2 (\<lambda>c h. \<exists>k. c = Timer_cb k h) cs seen" using R x by auto
    obtain u' where u': "run_cb os (Timer_cb k h) (v, set_loop l d) = (u', set_loop l d)" "log u' = log v @ [Timer_cb k h]"
      by (rule quiet_call [OF q])
    have "list_all2 (\<lambda>c h. \<exists>k. c = Timer_cb k h) (cs @ [Timer_cb k h]) (seen @ [h])" using cs(2) by (intro list_all2_appendI) auto
    then show ?thesis using u' cs(1) R x by (intro exI [of _ "(u', set_loop l d)"]) auto
  qed
  have "?R [] (u, e)" by simp
  then obtain x' where x': "uv__run_timers fuel ?run ((u, e), ?l) = Some (x', l')" "?R ran x'"
    using run_timers_sim [where R = ?R and run = ?run, OF cb _ r(1)] by blast
  obtain u' e' where e': "x' = (u', e')" by (cases x')
  obtain cs where cs: "log u' = log u @ cs" "list_all2 (\<lambda>c h. \<exists>k. c = Timer_cb k h) cs ran" "set_loop l' e' = set_loop l' e" using x'(2) e' by auto
  have aw: "active_watchers ty (e_watch (set_loop l' e)) = active_watchers ty (e_watch e)" if "ty \<in> watch_types" for ty
  proof -
    have "h_type (handles l' k) = ty \<and> f_active (flags_of l' k) \<longleftrightarrow> h_type (handles ?l k) = ty \<and> f_active (flags_of ?l k)" for k
      using fr that unfolding timer_frame_def by (auto simp: watch_types_def) (metis handle_type.distinct)+
    then show ?thesis using fr by (simp add: active_watchers_def timer_frame_def)
  qed
  have "active_ok l'" using r(2) by (simp add: timer_inv_def)
  then have "watch_inv (e_watch (set_loop l' e))" using aw by (intro watch_inv_same [OF wi]) simp_all
  then have "loop_inv (set_loop l' e)" using r(2) by (simp add: loop_inv_def)
  moreover have "loop_timers fuel os (u, e) = Some (u', set_loop l' e)" using x'(1) e' cs(3) by (simp add: loop_timers_def)
  ultimately show ?thesis using cs(1,2) r(3-5) fr aw by blast
qed

subsection \<open>Watchers\<close>

lemma rings_move_fresh:
  assumes r: "rings m H q" and h: "h \<in> H" and n: "n \<notin> linked H q"
  shows "rings (QUEUE_MOVE h n m) (insert n H) (q(h := [], n := q h))"
proof -
  note R = rings_ring [OF r h]
  have nH: "n \<notin> H" and nh: "n \<notin> set (h # q h)" using n h by (auto simp: linked_def)
  have mv: "ring (QUEUE_MOVE h n m) n (q h)" "ring (QUEUE_MOVE h n m) h []"
    using ring_move [OF R nh] by (cases "q h = []"; simp)+
  have "rings (QUEUE_MOVE h n m) H (q(h := []))"
  proof (rule rings_frame [OF r h mv(2)])
    fix k x assume k: "k \<in> H" "k \<noteq> h" and x: "x \<in> set (k # q k)"
    then have "x \<notin> set (h # q h)" "x \<noteq> n" using rings_apart [OF r h k(1)] n by (auto simp: linked_def)
    then show "same_at m (QUEUE_MOVE h n m) x" by (rule move_frame [OF R _ _ nh])
  qed simp
  then have a: "rings (QUEUE_MOVE h n m) (H - {n}) (q(h := [], n := q h))" using nH by (auto intro: rings_cong)
  have "set (n # q h) \<inter> set (k # (q(h := [], n := q h)) k) = {}" if k: "k \<in> H" "k \<noteq> n" for k
  proof (cases "k = h")
    case True
    then show ?thesis using rings_distinct [OF r h] nh k by auto
  next
    case False
    then show ?thesis using rings_apart [OF r h k(1)] k n by (auto simp: linked_def)
  qed
  then show ?thesis using rings_add_head [OF a] mv(1) by simp
qed

definition watcher_run :: "'u os \<Rightarrow> handle_type \<Rightarrow> 'u world watch_callbacks" where
  "watcher_run os ty = (\<lambda>k h ((u, e), s). case run_cb os (Watcher_cb ty k h) (u, e\<lparr>e_watch := s\<rparr>) of (u', e') \<Rightarrow> ((u', e'), e_watch e'))"

abbreviation are_calls :: "handle_type \<Rightarrow> event_call list \<Rightarrow> nat list \<Rightarrow> bool" where
  "are_calls ty \<equiv> list_all2 (\<lambda>c h. \<exists>k. c = Watcher_cb ty k h)"

lemma watcher_loop_calls:
  assumes q: "quiet os" "observes os log"
  shows "rings (w_queue s) H qs \<Longrightarrow> {Watch_local, Watch_head ty} \<subseteq> H \<Longrightarrow> qs Watch_local = map Watch_node ys \<Longrightarrow>
    qs (Watch_head ty) = map Watch_node zs \<Longrightarrow> \<forall>h \<in> set ys. w_cb s h \<noteq> None \<Longrightarrow> length ys \<le> fuel \<Longrightarrow>
    \<exists>u' e' m cs. watcher_loop fuel ty (watcher_run os ty) ((u, e), s) = Some ((u', e'), s\<lparr>w_queue := m\<rparr>) \<and>
      (\<forall>x. e'\<lparr>e_watch := x\<rparr> = e\<lparr>e_watch := x\<rparr>) \<and> log u' = log u @ cs \<and> are_calls ty cs ys \<and>
      rings m H (qs(Watch_local := [], Watch_head ty := map Watch_node (zs @ ys)))"
proof (induction ys arbitrary: s qs zs fuel u e)
  case Nil
  then have "QUEUE_EMPTY (w_queue s) Watch_local" using rings_empty [OF Nil.prems(1), of Watch_local] by auto
  then have l: "watcher_loop fuel ty (watcher_run os ty) ((u, e), s) = Some ((u, e), s\<lparr>w_queue := w_queue s\<rparr>)" by (simp add: watcher_loop.simps [of fuel])
  have "qs(Watch_local := [], Watch_head ty := map Watch_node (zs @ [])) = qs" using Nil.prems(3,4) by auto
  then have r0: "rings (w_queue s) H (qs(Watch_local := [], Watch_head ty := map Watch_node (zs @ [])))" using Nil.prems(1) by (simp only:)
  show ?case by (intro exI [of _ u] exI [of _ e] exI [of _ "w_queue s"] exI [of _ "[]"] conjI; (rule l | rule r0 | simp))
next
  case (Cons h ys)
  obtain f where f: "fuel = Suc f" using Cons.prems(6) by (cases fuel) auto
  obtain k where k: "w_cb s h = Some k" using Cons.prems(5) by auto
  note r = Cons.prems(1)
  have H: "Watch_local \<in> H" "Watch_head ty \<in> H" using Cons.prems(2) by auto
  let ?m1 = "QUEUE_REMOVE (Watch_node h) (w_queue s)" and ?q1 = "qs(Watch_local := map Watch_node ys)"
  let ?m2 = "QUEUE_INSERT_TAIL (Watch_head ty) (Watch_node h) ?m1" and ?q2 = "?q1(Watch_head ty := map Watch_node (zs @ [h]))"
  have x: "qs Watch_local = [] @ Watch_node h # map Watch_node ys" using Cons.prems(3) by simp
  have r1: "rings ?m1 H ?q1" using rings_remove [OF r H(1) x] by simp
  have "rings ?m2 H (?q1(Watch_head ty := ?q1 (Watch_head ty) @ [Watch_node h]))"
    using rings_insert_tail [OF r1 H(2)] removed_unlinked [OF r H(1) x] by simp
  then have r2: "rings ?m2 H ?q2" using Cons.prems(4) by simp
  let ?s = "s\<lparr>w_queue := ?m2\<rparr>"
  obtain u1 where u1: "run_cb os (Watcher_cb ty k h) (u, e\<lparr>e_watch := ?s\<rparr>) = (u1, e\<lparr>e_watch := ?s\<rparr>)" "log u1 = log u @ [Watcher_cb ty k h]"
    by (rule quiet_call [OF q])
  have "\<exists>u' e' m cs. watcher_loop f ty (watcher_run os ty) ((u1, e\<lparr>e_watch := ?s\<rparr>), ?s) = Some ((u', e'), ?s\<lparr>w_queue := m\<rparr>) \<and>
      (\<forall>x. e'\<lparr>e_watch := x\<rparr> = (e\<lparr>e_watch := ?s\<rparr>)\<lparr>e_watch := x\<rparr>) \<and> log u' = log u1 @ cs \<and> are_calls ty cs ys \<and>
      rings m H (?q2(Watch_local := [], Watch_head ty := map Watch_node ((zs @ [h]) @ ys)))"
  proof (rule Cons.IH)
    show "rings (w_queue ?s) H ?q2" using r2 by simp
  qed (use Cons.prems(2,5,6) f in auto)
  then obtain u' e' m cs where IH: "watcher_loop f ty (watcher_run os ty) ((u1, e\<lparr>e_watch := ?s\<rparr>), ?s) = Some ((u', e'), ?s\<lparr>w_queue := m\<rparr>)"
      "\<forall>x. e'\<lparr>e_watch := x\<rparr> = (e\<lparr>e_watch := ?s\<rparr>)\<lparr>e_watch := x\<rparr>" "log u' = log u1 @ cs" "are_calls ty cs ys"
      "rings m H (?q2(Watch_local := [], Watch_head ty := map Watch_node ((zs @ [h]) @ ys)))"
    by blast
  have "\<not> QUEUE_EMPTY (w_queue s) Watch_local" "QUEUE_HEAD (w_queue s) Watch_local = Watch_node h"
    using rings_empty [OF r H(1)] rings_head [OF r H(1)] x by simp_all
  then have "watcher_loop fuel ty (watcher_run os ty) ((u, e), s) = watcher_loop f ty (watcher_run os ty) ((u1, e\<lparr>e_watch := ?s\<rparr>), ?s)"
    using k u1(1) by (simp add: f watcher_loop.simps [of "Suc f"] Let_def watcher_run_def)
  then have l: "watcher_loop fuel ty (watcher_run os ty) ((u, e), s) = Some ((u', e'), s\<lparr>w_queue := m\<rparr>)" using IH(1) by simp
  have "?q2(Watch_local := [], Watch_head ty := map Watch_node ((zs @ [h]) @ ys)) = qs(Watch_local := [], Watch_head ty := map Watch_node (zs @ h # ys))"
    by auto
  then have r0: "rings m H (qs(Watch_local := [], Watch_head ty := map Watch_node (zs @ h # ys)))" using IH(5) by (simp only:)
  show ?case
    by (intro exI [of _ u'] exI [of _ e'] exI [of _ m] exI [of _ "Watcher_cb ty k h # cs"] conjI; (rule l | rule r0 | simp add: IH u1(2)))
qed

text \<open>The queues of the loop as lists.\<close>

definition watch_lists :: "watch_loop \<Rightarrow> (handle_type \<Rightarrow> nat list) \<Rightarrow> bool" where
  "watch_lists s X \<longleftrightarrow> (\<forall>ty \<in> watch_types. watch_ring ty s (X ty))"

fun watch_queue_of :: "(handle_type \<Rightarrow> nat list) \<Rightarrow> watch_addr \<Rightarrow> watch_addr list" where
  "watch_queue_of X (Watch_head ty) = map Watch_node (X ty)"
| "watch_queue_of X _ = []"

lemma watch_lists_rings:
  assumes "watch_lists s X"
  shows "rings (w_queue s) (Watch_head ` watch_types) (watch_queue_of X)"
proof -
  have "set (map Watch_node (X a)) \<inter> set (map Watch_node (X b)) = {}" if "a \<in> watch_types" "b \<in> watch_types" "a \<noteq> b" for a b
    using assms watch_ring_types [of a s "X a"] watch_ring_types [of b s "X b"] that by (fastforce simp: watch_lists_def)
  then show ?thesis using assms by (fastforce simp: rings_def watch_lists_def watch_ring_def)
qed

lemma loop_watchers_order:
  assumes q: "quiet os" "observes os log" and X: "watch_lists (e_watch e) X" and ty: "ty \<in> watch_types" and f: "length (X ty) \<le> fuel"
  shows "\<exists>u' m cs. loop_watchers fuel os ty (u, e) = Some (u', e\<lparr>e_watch := (e_watch e)\<lparr>w_queue := m\<rparr>\<rparr>) \<and> log u' = log u @ cs \<and>
           are_calls ty cs (X ty) \<and> watch_lists ((e_watch e)\<lparr>w_queue := m\<rparr>) X"
proof -
  let ?s = "e_watch e" and ?H = "insert Watch_local (Watch_head ` watch_types)"
  let ?m = "QUEUE_MOVE (Watch_head ty) Watch_local (w_queue ?s)"
  note r = watch_lists_rings [OF X]
  have n: "Watch_local \<notin> linked (Watch_head ` watch_types) (watch_queue_of X)" by (auto simp: linked_def)
  have r1: "rings ?m ?H ((watch_queue_of X)(Watch_head ty := [], Watch_local := map Watch_node (X ty)))"
    using rings_move_fresh [OF r _ n, of "Watch_head ty"] ty by simp
  have cb: "\<forall>h \<in> set (X ty). w_cb ?s h \<noteq> None" using X ty by (simp add: watch_lists_def watch_ring_def)
  let ?q1 = "(watch_queue_of X)(Watch_head ty := [], Watch_local := map Watch_node (X ty))"
  have "\<exists>u' e' m cs. watcher_loop fuel ty (watcher_run os ty) ((u, e), ?s\<lparr>w_queue := ?m\<rparr>) = Some ((u', e'), ?s\<lparr>w_queue := ?m\<rparr>\<lparr>w_queue := m\<rparr>) \<and>
      (\<forall>x. e'\<lparr>e_watch := x\<rparr> = e\<lparr>e_watch := x\<rparr>) \<and> log u' = log u @ cs \<and> are_calls ty cs (X ty) \<and>
      rings m ?H (?q1(Watch_local := [], Watch_head ty := map Watch_node ([] @ X ty)))"
    by (rule watcher_loop_calls [OF q]) (use r1 ty cb f in auto)
  then obtain u' e' m cs where L: "watcher_loop fuel ty (watcher_run os ty) ((u, e), ?s\<lparr>w_queue := ?m\<rparr>) = Some ((u', e'), ?s\<lparr>w_queue := ?m\<rparr>\<lparr>w_queue := m\<rparr>)"
      "\<forall>x. e'\<lparr>e_watch := x\<rparr> = e\<lparr>e_watch := x\<rparr>" "log u' = log u @ cs" "are_calls ty cs (X ty)"
      "rings m ?H (?q1(Watch_local := [], Watch_head ty := map Watch_node ([] @ X ty)))"
    by blast
  have "ring m (Watch_head a) (map Watch_node (X a))" if "a \<in> watch_types" for a
    using rings_ring [OF L(5), of "Watch_head a"] that by (auto split: if_splits)
  then have "watch_lists (?s\<lparr>w_queue := m\<rparr>) X"
    using X by (simp add: watch_lists_def watch_ring_def active_watchers_def)
  moreover have "loop_watchers fuel os ty (u, e) = Some (u', e\<lparr>e_watch := ?s\<lparr>w_queue := m\<rparr>\<rparr>)"
    using L(1,2) by (simp add: loop_watchers_def uv__run_watchers_def watcher_run_def)
  ultimately show ?thesis using L(3,4) by blast
qed

subsection \<open>Pending watchers\<close>

abbreviation set_io_queue :: "io_addr queue_mem \<Rightarrow> event_loop \<Rightarrow> event_loop" where
  "set_io_queue m e \<equiv> e\<lparr>e_io := (e_io e)\<lparr>io_queue := m\<rparr>\<rparr>"

abbreviation are_pending_calls :: "event_call list \<Rightarrow> nat list \<Rightarrow> bool" where
  "are_pending_calls \<equiv> list_all2 (\<lambda>c i. \<exists>fn. c = Io_cb fn i POLLOUT)"

lemma pending_loop_calls:
  assumes q: "quiet os" "observes os log"
  shows "rings (io_queue (e_io e)) H qs \<Longrightarrow> Pending_local \<in> H \<Longrightarrow> qs Pending_local = map Pending_node ys \<Longrightarrow>
    \<forall>i. qs (Pending_node i) = [] \<Longrightarrow> length ys \<le> fuel \<Longrightarrow>
    \<exists>u' m cs. pending_loop fuel os (u, e) = Some (u', set_io_queue m e) \<and> log u' = log u @ cs \<and> are_pending_calls cs ys \<and>
      rings m (H \<union> Pending_node ` set ys) (qs(Pending_local := []))"
proof (induction ys arbitrary: H qs fuel u e)
  case Nil
  then have "QUEUE_EMPTY (io_queue (e_io e)) Pending_local" using rings_empty [OF Nil.prems(1)] by simp
  then have l: "pending_loop fuel os (u, e) = Some (u, set_io_queue (io_queue (e_io e)) e)" by (simp add: pending_loop.simps [of fuel])
  have "qs(Pending_local := []) = qs" using Nil.prems(3) by auto
  then have r0: "rings (io_queue (e_io e)) (H \<union> Pending_node ` set []) (qs(Pending_local := []))" using Nil.prems(1) by simp
  show ?case by (intro exI [of _ u] exI [of _ "io_queue (e_io e)"] exI [of _ "[]"] conjI; (rule l | rule r0 | simp))
next
  case (Cons i ys)
  obtain f where f: "fuel = Suc f" using Cons.prems(5) by (cases fuel) auto
  note r = Cons.prems(1) and H = Cons.prems(2)
  let ?m1 = "QUEUE_INIT (Pending_node i) (QUEUE_REMOVE (Pending_node i) (io_queue (e_io e)))"
  let ?q1 = "qs(Pending_local := map Pending_node ys)" and ?H1 = "insert (Pending_node i) H" and ?e1 = "set_io_queue ?m1 e"
  have x: "qs Pending_local = [] @ Pending_node i # map Pending_node ys" using Cons.prems(3) by simp
  have r1: "rings ?m1 ?H1 ?q1" using rings_release [OF r H x refl] Cons.prems(4) by simp
  obtain fn u1 where u1: "run_io_cb os i POLLOUT (u, ?e1) = (u1, ?e1)" "log u1 = log u @ [Io_cb fn i POLLOUT]"
  proof -
    obtain u1 where "run_cb os (Io_cb (io_cb (io_ws (e_io ?e1) i)) i POLLOUT) (u, ?e1) = (u1, ?e1)"
        "log u1 = log u @ [Io_cb (io_cb (io_ws (e_io ?e1) i)) i POLLOUT]"
      by (rule quiet_call [OF q])
    then show ?thesis using that by (simp add: run_io_cb_def)
  qed
  have "\<exists>u' m cs. pending_loop f os (u1, ?e1) = Some (u', set_io_queue m ?e1) \<and> log u' = log u1 @ cs \<and> are_pending_calls cs ys \<and>
      rings m (?H1 \<union> Pending_node ` set ys) (?q1(Pending_local := []))"
  proof (rule Cons.IH)
    show "rings (io_queue (e_io ?e1)) ?H1 ?q1" using r1 by simp
  qed (use H Cons.prems(4,5) f in auto)
  then obtain u' m cs where IH: "pending_loop f os (u1, ?e1) = Some (u', set_io_queue m ?e1)" "log u' = log u1 @ cs" "are_pending_calls cs ys"
      "rings m (?H1 \<union> Pending_node ` set ys) (?q1(Pending_local := []))"
    by blast
  have "\<not> QUEUE_EMPTY (io_queue (e_io e)) Pending_local" "QUEUE_HEAD (io_queue (e_io e)) Pending_local = Pending_node i"
    using rings_empty [OF r H] rings_head [OF r H] x by simp_all
  moreover have "on_e_io (on_io_queue (QUEUE_INIT (Pending_node i))) (on_e_io (on_io_queue (QUEUE_REMOVE (Pending_node i))) e) = ?e1"
    by (simp add: on_e_io_def on_io_queue_def)
  ultimately have "pending_loop fuel os (u, e) = pending_loop f os (u1, ?e1)"
    using u1(1) by (simp add: f pending_loop.simps [of "Suc f"] Let_def)
  then have l: "pending_loop fuel os (u, e) = Some (u', set_io_queue m e)" using IH(1) by simp
  have "?q1(Pending_local := []) = qs(Pending_local := [])" "?H1 \<union> Pending_node ` set ys = H \<union> Pending_node ` set (i # ys)" by auto
  then have r0: "rings m (H \<union> Pending_node ` set (i # ys)) (qs(Pending_local := []))" using IH(4) by (simp only:)
  show ?case
    by (intro exI [of _ u'] exI [of _ m] exI [of _ "Io_cb fn i POLLOUT # cs"] conjI; (rule l | rule r0 | simp add: IH u1(2)))
qed

lemma run_pending_order:
  assumes q: "quiet os" "observes os log" and ok: "io_ok W (e_io e) v" and f: "length (v_pend v) \<le> fuel"
  shows "\<exists>u' m cs. uv__run_pending fuel os (u, e) = Some (v_pend v \<noteq> [], (u', set_io_queue m e)) \<and> log u' = log u @ cs \<and>
           are_pending_calls cs (v_pend v) \<and> io_ok W ((e_io e)\<lparr>io_queue := m\<rparr>) (v\<lparr>v_pend := []\<rparr>)"
proof -
  have qu: "io_queues W (e_io e) v" and r: "rings (io_queue (e_io e)) (io_heads W v) (io_lists v)" using ok by (simp_all add: io_ok_def io_queues_def)
  have keep: "io_ok W ((e_io e)\<lparr>io_queue := m\<rparr>) (v\<lparr>v_pend := []\<rparr>)"
    if "rings m (io_heads W (v\<lparr>v_pend := []\<rparr>)) (io_lists (v\<lparr>v_pend := []\<rparr>))" for m
  proof -
    have "table_ok W ((e_io e)\<lparr>io_queue := m\<rparr>)" using ok table_cong [of W "e_io e"] by (simp add: io_ok_def)
    moreover have "\<forall>w \<in> W. interest_ok ((e_io e)\<lparr>io_queue := m\<rparr>) (v\<lparr>v_pend := []\<rparr>) w"
      using ok by (simp add: io_ok_def interest_ok_def registered_def)
    ultimately show ?thesis using that ok by (simp add: io_ok_def io_queues_def)
  qed
  show ?thesis
  proof (cases "v_pend v = []")
    case True
    then have "QUEUE_EMPTY (io_queue (e_io e)) Pending_head" using io_queue_empty(2) [OF qu] by simp
    then have l: "uv__run_pending fuel os (u, e) = Some (v_pend v \<noteq> [], (u, set_io_queue (io_queue (e_io e)) e))" using True by (simp add: uv__run_pending_def)
    have "v\<lparr>v_pend := []\<rparr> = v" using True by (cases v) simp
    then have "io_ok W ((e_io e)\<lparr>io_queue := io_queue (e_io e)\<rparr>) (v\<lparr>v_pend := []\<rparr>)" using ok by simp
    then show ?thesis using l True by (intro exI [of _ u] exI [of _ "io_queue (e_io e)"] exI [of _ "[]"]) simp
  next
    case False
    let ?m = "QUEUE_MOVE Pending_head Pending_local (io_queue (e_io e))" and ?H = "insert Pending_local (io_heads W v)"
    let ?q1 = "(io_lists v)(Pending_head := [], Pending_local := map Pending_node (v_pend v))" and ?e1 = "set_io_queue ?m e"
    have n: "Pending_local \<notin> linked (io_heads W v) (io_lists v)" by (auto simp: linked_def io_heads_def)
    have r1: "rings ?m ?H ?q1" using rings_move_fresh [OF r _ n, of Pending_head] by simp
    have "\<exists>u' m cs. pending_loop fuel os (u, ?e1) = Some (u', set_io_queue m ?e1) \<and> log u' = log u @ cs \<and> are_pending_calls cs (v_pend v) \<and>
        rings m (?H \<union> Pending_node ` set (v_pend v)) (?q1(Pending_local := []))"
    proof (rule pending_loop_calls [OF q])
      show "rings (io_queue (e_io ?e1)) ?H ?q1" using r1 by simp
    qed (use f in auto)
    then obtain u' m cs where L: "pending_loop fuel os (u, ?e1) = Some (u', set_io_queue m ?e1)" "log u' = log u @ cs" "are_pending_calls cs (v_pend v)"
        "rings m (?H \<union> Pending_node ` set (v_pend v)) (?q1(Pending_local := []))"
      by blast
    have "rings m (io_heads W (v\<lparr>v_pend := []\<rparr>)) (?q1(Pending_local := []))"
      by (rule rings_subset [OF L(4)]) (auto simp: io_heads_def)
    then have "rings m (io_heads W (v\<lparr>v_pend := []\<rparr>)) (io_lists (v\<lparr>v_pend := []\<rparr>))"
      by (rule rings_cong) (auto simp: io_lists_upd io_heads_def)
    moreover have "uv__run_pending fuel os (u, e) = Some (v_pend v \<noteq> [], (u', set_io_queue m e))"
      using False io_queue_empty(2) [OF qu] L(1) by (simp add: uv__run_pending_def on_e_io_def on_io_queue_def)
    ultimately show ?thesis using keep L(2,3) by blast
  qed
qed

end
