(* ===== verification/Uv_Iter.thy ===== *)
theory Uv_Iter
  imports Uv_Order
begin

text \<open>A whole iteration of \<^verbatim>\<open>uv_run\<close>: the phases of Uv\_Order, polling between them, and the order of all callbacks.\<close>

subsection \<open>Polling\<close>

lemma observes_same:
  assumes "observes os log"
  shows "hrtime os u = (t, u') \<Longrightarrow> log u' = log u" "kevent_change os chs u = (r, u') \<Longrightarrow> log u' = log u"
    "kevent_wait os chs tm u = (k, u') \<Longrightarrow> log u' = log u"
  using assms unfolding observes_def by (metis snd_conv)+

text \<open>
  The callbacks due for a batch of events that the system reports, read off the watchers: an event of file descriptor \<open>fd\<close> belongs to the
  watcher registered for \<open>fd\<close>; what the watcher is told are the bits for the filter, if it is interested in them, \<^verbatim>\<open>POLLERR\<close> for an error
  and \<^verbatim>\<open>UV__POLLRDHUP\<close> for the end of a file, if it is interested in that. A watcher that is told nothing is not called. The watcher for
  signals is called once, after the others.
\<close>

definition told_events :: "uv__io_t \<Rightarrow> kevent \<Rightarrow> u32" where
  "told_events x ev =
     (if ev_filter ev = EVFILT_READ then pevents x AND POLLIN else if ev_filter ev = EVFILT_WRITE then pevents x AND POLLOUT
      else if ev_filter ev = EV_OOBAND then pevents x AND UV__POLLPRI else 0) OR
     (if ev_flags ev AND EV_ERROR = 0 then 0 else POLLERR) OR
     (if ev_flags ev AND EV_EOF = 0 then 0 else pevents x AND UV__POLLRDHUP)"

definition watcher_of :: "event_loop \<Rightarrow> kevent \<Rightarrow> nat option" where
  "watcher_of e ev = (if ev_ident ev = - 1 then None else watchers (e_io e) ! nat (ev_ident ev))"

definition calls_for :: "event_loop \<Rightarrow> kevent \<Rightarrow> event_call list" where
  "calls_for e ev =
     (case watcher_of e ev of
        None \<Rightarrow> []
      | Some i \<Rightarrow> let r = told_events (io_ws (e_io e) i) ev in if r = 0 \<or> i = signal_io_watcher e then [] else [Io_cb (io_cb (io_ws (e_io e) i)) i r])"

definition for_signals :: "event_loop \<Rightarrow> kevent \<Rightarrow> bool" where
  "for_signals e ev \<longleftrightarrow> watcher_of e ev = Some (signal_io_watcher e) \<and> told_events (io_ws (e_io e) (signal_io_watcher e)) ev \<noteq> 0"

definition batch_calls :: "event_loop \<Rightarrow> kevent list \<Rightarrow> event_call list" where
  "batch_calls e evs =
     concat (map (calls_for e) evs) @
     (if \<exists>ev \<in> set evs. for_signals e ev then [Io_cb (io_cb (io_ws (e_io e) (signal_io_watcher e))) (signal_io_watcher e) POLLIN] else [])"

text \<open>The batches that the system reported, a failing call giving none.\<close>

definition reports :: "'u os \<Rightarrow> ('u \<Rightarrow> kevent list list) \<Rightarrow> bool" where
  "reports os rep \<longleftrightarrow>
     (\<forall>u. rep (snd (hrtime os u)) = rep u) \<and> (\<forall>chs u. rep (snd (kevent_change os chs u)) = rep u) \<and> (\<forall>c w. rep (fst (run_cb os c w)) = rep (fst w)) \<and>
     (\<forall>chs t u. rep (snd (kevent_wait os chs t u)) =
        rep u @ [case fst (kevent_wait os chs t u) of K_error _ \<Rightarrow> [] | K_events evs \<Rightarrow> evs])"

text \<open>What polling leaves alone when callbacks do.\<close>

definition poll_frame :: "event_loop \<Rightarrow> event_loop \<Rightarrow> bool" where
  "poll_frame e e' \<longleftrightarrow>
     (\<exists>t s. e' = (set_loop ((e_loop e)\<lparr>time := t\<rparr>) e)\<lparr>e_io := s\<rparr> \<and> watchers s = watchers (e_io e) \<and>
        (\<forall>i. pevents (io_ws s i) = pevents (io_ws (e_io e) i) \<and> io_cb (io_ws s i) = io_cb (io_ws (e_io e) i)))"

lemma poll_frame_trans:
  assumes "poll_frame e e'" and "poll_frame e' e''"
  shows "poll_frame e e''"
proof -
  obtain t s where 1: "e' = (set_loop ((e_loop e)\<lparr>time := t\<rparr>) e)\<lparr>e_io := s\<rparr>" "watchers s = watchers (e_io e)"
      "\<forall>i. pevents (io_ws s i) = pevents (io_ws (e_io e) i) \<and> io_cb (io_ws s i) = io_cb (io_ws (e_io e) i)"
    using assms(1) by (auto simp: poll_frame_def)
  obtain t' s' where 2: "e'' = (set_loop ((e_loop e')\<lparr>time := t'\<rparr>) e')\<lparr>e_io := s'\<rparr>" "watchers s' = watchers (e_io e')"
      "\<forall>i. pevents (io_ws s' i) = pevents (io_ws (e_io e') i) \<and> io_cb (io_ws s' i) = io_cb (io_ws (e_io e') i)"
    using assms(2) by (auto simp: poll_frame_def)
  have "e'' = (set_loop ((e_loop e)\<lparr>time := t'\<rparr>) e)\<lparr>e_io := s'\<rparr>" unfolding 2(1) unfolding 1(1) by (simp add: set_loop_def)
  then show ?thesis using 1(2,3) 2(2,3) unfolding poll_frame_def 1(1) by auto
qed

lemma poll_frame_io:
  assumes "watchers s = watchers (e_io e)" and "\<And>i. pevents (io_ws s i) = pevents (io_ws (e_io e) i)" and "\<And>i. io_cb (io_ws s i) = io_cb (io_ws (e_io e) i)"
  shows "poll_frame e (e\<lparr>e_io := s\<rparr>)"
  unfolding poll_frame_def using assms by (intro exI [of _ "time (e_loop e)"] exI [of _ s]) (simp add: set_loop_def)

lemma poll_frame_refl [simp]: "poll_frame e e"
  using poll_frame_io [of "e_io e" e] by simp

lemma poll_frame_polled [simp]: "poll_frame e (set_polled p e)"
  unfolding set_polled_def on_e_io_def by (rule poll_frame_io) simp_all

lemma poll_frame_count [simp]:
  "poll_frame e (upd_e_io i (\<lambda>x. x\<lparr>rcount := d\<rparr>) e)" "poll_frame e (upd_e_io i (\<lambda>x. x\<lparr>wcount := d\<rparr>) e)"
  unfolding upd_e_io_def on_e_io_def by (rule poll_frame_io; simp add: upd_io_def)+

lemma poll_frame_time [simp]: "poll_frame e (set_loop ((e_loop e)\<lparr>time := t\<rparr>) e)"
  unfolding poll_frame_def by (intro exI [of _ t] exI [of _ "e_io e"]) (simp add: set_loop_def)

lemma poll_frame_sel:
  assumes "poll_frame e e'"
  shows "watchers (e_io e') = watchers (e_io e)" "pevents (io_ws (e_io e') i) = pevents (io_ws (e_io e) i)"
    "io_cb (io_ws (e_io e') i) = io_cb (io_ws (e_io e) i)" "signal_io_watcher e' = signal_io_watcher e"
  using assms by (auto simp: poll_frame_def)

lemma told_cong: "pevents x' = pevents x \<Longrightarrow> told_events x' ev = told_events x ev"
  by (simp add: told_events_def)

lemma batch_calls_cong:
  assumes "watchers (e_io e') = watchers (e_io e)" and "\<And>i. pevents (io_ws (e_io e') i) = pevents (io_ws (e_io e) i)"
    and "\<And>i. io_cb (io_ws (e_io e') i) = io_cb (io_ws (e_io e) i)" and "signal_io_watcher e' = signal_io_watcher e"
  shows "calls_for e' = calls_for e" "for_signals e' = for_signals e" "batch_calls e' = batch_calls e"
proof -
  have w: "watcher_of e' ev = watcher_of e ev" and t: "told_events (io_ws (e_io e') i) ev = told_events (io_ws (e_io e) i) ev" for ev i
    using assms(1) told_cong [OF assms(2)] by (simp_all add: watcher_of_def)
  show c: "calls_for e' = calls_for e" and s: "for_signals e' = for_signals e"
    unfolding calls_for_def for_signals_def fun_eq_iff w t assms(3,4) by simp_all
  show "batch_calls e' = batch_calls e" unfolding batch_calls_def fun_eq_iff c s assms(3,4) by simp
qed

lemma poll_frame_calls:
  assumes "poll_frame e e'"
  shows "calls_for e' = calls_for e" "for_signals e' = for_signals e" "batch_calls e' = batch_calls e"
  using batch_calls_cong [OF poll_frame_sel [OF assms]] by blast+

lemma single_bit: "x AND 2 ^ n = 0 \<or> x AND 2 ^ n = (2 :: u32) ^ n"
proof -
  have "x AND 2 ^ n = (if bit x n then 2 ^ n else 0)" by (rule bit_word_eqI) (auto simp: bit_simps)
  then show ?thesis by simp
qed

lemma poll_bits:
  "x AND POLLIN = (if x AND POLLIN = 0 then 0 else POLLIN)" "x AND POLLOUT = (if x AND POLLOUT = 0 then 0 else POLLOUT)"
  "x AND UV__POLLPRI = (if x AND UV__POLLPRI = 0 then 0 else UV__POLLPRI)" "x AND UV__POLLRDHUP = (if x AND UV__POLLRDHUP = 0 then 0 else UV__POLLRDHUP)"
  using single_bit [of x 0] single_bit [of x 1] single_bit [of x 2] single_bit [of x 13]
  by (auto simp: POLLIN_def POLLOUT_def UV__POLLPRI_def POLLPRI_def UV__POLLRDHUP_def)

lemma reports_same:
  assumes "reports os rep"
  shows "hrtime os u = (t, u') \<Longrightarrow> rep u' = rep u" "kevent_change os chs u = (r, u') \<Longrightarrow> rep u' = rep u"
    "kevent_wait os chs tm u = (k, u') \<Longrightarrow> rep u' = rep u @ [case k of K_error _ \<Rightarrow> [] | K_events evs \<Rightarrow> evs]"
    "run_cb os c (u, e) = (u', e') \<Longrightarrow> rep u' = rep u"
  using assms unfolding reports_def by (metis fst_conv snd_conv)+

text \<open>A step of the dispatch, and the dispatch of a batch.\<close>

definition dispatched :: "('u \<Rightarrow> event_call list) \<Rightarrow> ('u \<Rightarrow> kevent list list) \<Rightarrow> 'u \<Rightarrow> event_loop \<Rightarrow> event_call list \<Rightarrow> 'u world \<Rightarrow> bool" where
  "dispatched log rep u e cs w \<longleftrightarrow>
     log (fst w) = log u @ cs \<and> rep (fst w) = rep u \<and> poll_frame e (snd w) \<and> polled (e_io (snd w)) = polled (e_io e)"

lemma filter_revents_told:
  assumes c: "change_ok os (\<lambda>w. watchers (e_io (snd w)) = ws)" "watchers (e_io e) = ws" and o: "observes os log" "reports os rep"
    and "ev_filter ev \<noteq> EVFILT_VNODE"
  obtains r w' where "filter_revents os ev k (u, e) = Some (r, w')" "dispatched log rep u e [] w'"
    "told_events (io_ws (e_io e) k) ev =
       (let r1 = (if ev_flags ev AND EV_ERROR \<noteq> 0 then r OR POLLERR else r)
        in if ev_flags ev AND EV_EOF \<noteq> 0 \<and> pevents (io_ws (e_io e) k) AND UV__POLLRDHUP \<noteq> 0 then r1 OR UV__POLLRDHUP else r1)"
proof -
  obtain u' where u': "disarm os ev {ENOENT} u = Some u'" using disarm_ok [OF c(1), of u e "{ENOENT}" ev] c(2) by auto
  then obtain x where "kevent_change os [EV_SET (ev_ident ev) (ev_filter ev) EV_DELETE 0] u = (x, u')"
    by (auto simp: disarm_def split: prod.splits option.splits if_splits)
  then have l: "log u' = log u" "rep u' = rep u" using observes_same(2) [OF o(1)] reports_same(2) [OF o(2)] by blast+
  let ?r = "if ev_filter ev = EVFILT_READ then pevents (io_ws (e_io e) k) AND POLLIN
    else if ev_filter ev = EVFILT_WRITE then pevents (io_ws (e_io e) k) AND POLLOUT
    else if ev_filter ev = EV_OOBAND then pevents (io_ws (e_io e) k) AND UV__POLLPRI else 0"
  have "\<exists>w'. filter_revents os ev k (u, e) = Some (?r, w') \<and> dispatched log rep u e [] w'"
    using u' l poll_bits [of "pevents (io_ws (e_io e) k)"] assms(5)
    by (cases "ev_filter ev") (auto simp: filter_revents_def Let_def dispatched_def)
  moreover have "told_events (io_ws (e_io e) k) ev =
      (let r1 = (if ev_flags ev AND EV_ERROR \<noteq> 0 then ?r OR POLLERR else ?r)
       in if ev_flags ev AND EV_EOF \<noteq> 0 \<and> pevents (io_ws (e_io e) k) AND UV__POLLRDHUP \<noteq> 0 then r1 OR UV__POLLRDHUP else r1)"
    using poll_bits(4) [of "pevents (io_ws (e_io e) k)"] unfolding told_events_def Let_def by (auto simp: or.assoc)
  ultimately show ?thesis using that by blast
qed

lemma dispatch_event_told:
  assumes q: "quiet os" and o: "observes os log" "reports os rep" and c: "change_ok os (\<lambda>w. watchers (e_io (snd w)) = ws)" "watchers (e_io e) = ws"
    and ev: "ev_ident ev = - 1 \<or> 0 \<le> ev_ident ev \<and> nat (ev_ident ev) < length (watchers (e_io e)) \<and> ev_filter ev \<noteq> EVFILT_VNODE"
  shows "\<exists>n' w'. dispatch_event os ev ((hs, n), (u, e)) = Some ((hs \<or> for_signals e ev, n'), w') \<and> dispatched log rep u e (calls_for e ev) w'"
proof (cases "ev_ident ev = - 1")
  case True
  then show ?thesis by (simp add: dispatch_event_def dispatched_def calls_for_def for_signals_def watcher_of_def)
next
  case False
  then have r: "0 \<le> ev_ident ev" "nat (ev_ident ev) < length (watchers (e_io e))" "ev_filter ev \<noteq> EVFILT_VNODE" using ev by auto
  have wo: "watcher_of e ev = watchers (e_io e) ! nat (ev_ident ev)" using False by (simp add: watcher_of_def)
  show ?thesis
  proof (cases "watcher_of e ev")
    case None
    obtain u' where u': "disarm os ev {EBADF, ENOENT} u = Some u'" using disarm_ok [OF c(1), of u e "{EBADF, ENOENT}" ev] c(2) by auto
    then obtain x where "kevent_change os [EV_SET (ev_ident ev) (ev_filter ev) EV_DELETE 0] u = (x, u')"
      by (auto simp: disarm_def split: prod.splits option.splits if_splits)
    then have "log u' = log u" "rep u' = rep u" using observes_same(2) [OF o(1)] reports_same(2) [OF o(2)] by blast+
    then show ?thesis using None u' False r wo by (simp add: dispatch_event_def dispatched_def calls_for_def for_signals_def)
  next
    case (Some k)
    obtain r0 u1 e1 where w1: "filter_revents os ev k (u, e) = Some (r0, (u1, e1))" "dispatched log rep u e [] (u1, e1)"
        and T: "told_events (io_ws (e_io e) k) ev =
          (let r1 = (if ev_flags ev AND EV_ERROR \<noteq> 0 then r0 OR POLLERR else r0)
           in if ev_flags ev AND EV_EOF \<noteq> 0 \<and> pevents (io_ws (e_io e) k) AND UV__POLLRDHUP \<noteq> 0 then r1 OR UV__POLLRDHUP else r1)"
      using filter_revents_told [OF c o r(3), of k u] by (metis prod.collapse)
    define t where "t = told_events (io_ws (e_io e) k) ev"
    obtain u2 where u2: "run_cb os (Io_cb (io_cb (io_ws (e_io e) k)) k t) (u1, e1) = (u2, e1)" "log u2 = log u1 @ [Io_cb (io_cb (io_ws (e_io e) k)) k t]"
      by (rule quiet_call [OF q o(1)])
    have F: "poll_frame e e1" using w1(2) by (simp add: dispatched_def)
    have run: "run_io_cb os k t (u1, e1) = (u2, e1)" "rep u2 = rep u1"
      using u2(1) poll_frame_sel(3) [OF F] reports_same(4) [OF o(2) u2(1)] by (simp_all add: run_io_cb_def)
    have "dispatch_event os ev ((hs, n), (u, e)) =
        (if t = 0 then Some ((hs, n), (u1, e1)) else if k = signal_io_watcher e then Some ((True, n + 1), (u1, e1))
         else Some ((hs, n + 1), run_io_cb os k t (u1, e1)))"
      using Some wo False r w1(1) T unfolding dispatch_event_def Let_def t_def by simp
    then show ?thesis using w1(2) u2(2) run Some by (auto simp: dispatched_def calls_for_def for_signals_def t_def Let_def)
  qed
qed


lemma dispatch_told:
  assumes q: "quiet os" and o: "observes os log" "reports os rep" and c: "change_ok os (\<lambda>w. watchers (e_io (snd w)) = ws)"
  shows "watchers (e_io e) = ws \<Longrightarrow> polled (e_io e) = Some evs \<Longrightarrow> events_fit e evs \<Longrightarrow> i + n = length evs \<Longrightarrow>
    \<exists>n' w'. dispatch n os i ((hs, m), (u, e)) = Some ((hs \<or> (\<exists>ev \<in> set (drop i evs). for_signals e ev), n'), w') \<and>
      dispatched log rep u e (concat (map (calls_for e) (drop i evs))) w'"
proof (induction n arbitrary: i hs m u e)
  case 0
  then show ?case by (simp add: dispatched_def)
next
  case (Suc n)
  let ?ev = "evs ! i"
  have d: "drop i evs = ?ev # drop (Suc i) evs" using Suc.prems(4) by (simp add: Cons_nth_drop_Suc)
  have "?ev \<in> set evs" using Suc.prems(4) by simp
  then have "ev_ident ?ev = - 1 \<or> 0 \<le> ev_ident ?ev \<and> nat (ev_ident ?ev) < length (watchers (e_io e)) \<and> ev_filter ?ev \<noteq> EVFILT_VNODE"
    using Suc.prems(3) by (simp add: events_fit_def)
  then obtain m1 u1 e1 where s: "dispatch_event os ?ev ((hs, m), (u, e)) = Some ((hs \<or> for_signals e ?ev, m1), (u1, e1))"
      "dispatched log rep u e (calls_for e ?ev) (u1, e1)"
    using dispatch_event_told [OF q o c Suc.prems(1), of ?ev hs m u] by (metis prod.collapse)
  have F: "poll_frame e e1" "polled (e_io e1) = Some evs" using s(2) Suc.prems(2) by (simp_all add: dispatched_def)
  note P = poll_frame_calls [OF F(1)] poll_frame_sel(1) [OF F(1)]
  have "events_fit e1 evs" using Suc.prems(3) P(4) by (simp add: events_fit_def)
  then obtain n' w' where r: "dispatch n os (Suc i) ((hs \<or> for_signals e ?ev, m1), (u1, e1)) =
        Some (((hs \<or> for_signals e ?ev) \<or> (\<exists>ev \<in> set (drop (Suc i) evs). for_signals e ev), n'), w')"
      "dispatched log rep u1 e1 (concat (map (calls_for e) (drop (Suc i) evs))) w'"
    using Suc.IH [of e1 "Suc i" "hs \<or> for_signals e ?ev" m1 u1] Suc.prems(1,4) F(2) P by auto
  have "dispatched log rep u e (concat (map (calls_for e) (drop i evs))) w'"
    using s(2) r(2) poll_frame_trans [OF F(1)] unfolding d by (auto simp: dispatched_def)
  moreover have "dispatch (Suc n) os i ((hs, m), (u, e)) = Some ((hs \<or> (\<exists>ev \<in> set (drop i evs). for_signals e ev), n'), w')"
    using s(1) r(1) Suc.prems(2,4) unfolding d by (simp add: disj_assoc)
  ultimately show ?case by blast
qed

text \<open>Polling without waiting: 48 batches at most, the next one only after a full one.\<close>

definition polled_batches :: "('u \<Rightarrow> event_call list) \<Rightarrow> ('u \<Rightarrow> kevent list list) \<Rightarrow> 'u \<Rightarrow> event_loop \<Rightarrow> kevent list list \<Rightarrow> 'u world \<Rightarrow> bool" where
  "polled_batches log rep u e bs w \<longleftrightarrow>
     log (fst w) = log u @ concat (map (batch_calls e) bs) \<and> rep (fst w) = rep u @ bs \<and> poll_frame e (snd w) \<and>
     (\<forall>b \<in> set (butlast bs). length b = 1024)"

lemma batch_calls_Nil [simp]: "batch_calls e [] = []"
  by (simp add: batch_calls_def)

lemma poll_told:
  assumes q: "quiet os" and o: "observes os log" "reports os rep" and env: "event_env os (\<lambda>w. watchers (e_io (snd w)) = ws)"
  shows "watchers (e_io e) = ws \<Longrightarrow> 0 < count \<Longrightarrow> count \<le> fuel \<Longrightarrow>
    \<exists>w' bs. poll_loop fuel os base count chs 0 (u, e) = Some w' \<and> polled_batches log rep u e bs w' \<and> bs \<noteq> [] \<and> length bs \<le> count"
proof (induction fuel arbitrary: u e count chs)
  case (Suc f)
  note E = event_envD [OF env]
  obtain r u1 where k: "kevent_wait os chs (Some (0, 0)) u = (r, u1)" by (cases "kevent_wait os chs (Some (0, 0)) u")
  have W: "case r of K_error er \<Rightarrow> er = EINTR | K_events evs \<Rightarrow> events_fit e evs"
    using E(1) [unfolded wait_ok_def, rule_format, where u = u and e = e and chs = chs and t = "Some (0, 0)"] Suc.prems(1) k
    by (simp split: kevent_result.splits)
  have n: "watchers (e_io e) \<noteq> []" using E(4) Suc.prems(1) by (auto simp: fields_ok_def)
  obtain t u2 where t: "hrtime os u1 = (t, u2)" by (cases "hrtime os u1")
  define e2 where "e2 = set_loop ((e_loop e)\<lparr>time := t div 1000000\<rparr>) e"
  have w2: "uv__update_time os (u1, e) = (u2, e2)" using t by (simp add: uv__update_time_def e2_def)
  have F2: "poll_frame e e2" by (simp add: e2_def)
  have l2: "log u2 = log u" "rep u2 = rep u @ [case r of K_error _ \<Rightarrow> [] | K_events evs \<Rightarrow> evs]"
    using observes_same(1,3) [OF o(1)] reports_same(1,3) [OF o(2)] k t by metis+
  show ?case
  proof (cases "r \<in> range K_error \<or> r = K_events []")
    case True
    then have "poll_loop (Suc f) os base count chs 0 (u, e) = Some (u2, e2)" using W k w2 by auto
    moreover have "polled_batches log rep u e [[]] (u2, e2)" using l2 F2 True by (auto simp: polled_batches_def)
    ultimately show ?thesis using Suc.prems(2) by (intro exI [of _ "(u2, e2)"] exI [of _ "[[]]"]) simp
  next
    case False
    then obtain a as where r: "r = K_events (a # as)" by (metis kevent_result.exhaust neq_Nil_conv rangeI)
    define evs where "evs = a # as"
    define e3 where "e3 = set_polled (Some evs) e2"
    have F3: "poll_frame e e3" using poll_frame_trans [OF F2] by (simp add: e3_def)
    have p3: "watchers (e_io e3) = ws" "polled (e_io e3) = Some evs" "events_fit e3 evs"
      using W r poll_frame_sel(1) [OF F3] Suc.prems(1) by (simp_all add: evs_def e3_def events_fit_def) (simp add: set_polled_def on_e_io_def)
    obtain hs m u4 e4 where D: "dispatch (length evs) os 0 ((False, 0), (u2, e3)) = Some ((hs, m), (u4, e4))"
        "hs \<longleftrightarrow> (\<exists>ev \<in> set evs. for_signals e ev)" "dispatched log rep u2 e3 (concat (map (calls_for e) evs)) (u4, e4)"
      using dispatch_told [OF q o E(2) p3, of 0 "length evs" False 0 u2] poll_frame_calls [OF F3] by auto
    have F4: "poll_frame e e4" using D(3) poll_frame_trans [OF F3] by (simp add: dispatched_def)
    obtain u5 where u5: "(if hs then run_io_cb os (signal_io_watcher e4) POLLIN (u4, e4) else (u4, e4)) = (u5, e4)"
        "log u5 = log u @ batch_calls e evs" "rep u5 = rep u @ [evs]"
    proof -
      let ?c = "Io_cb (io_cb (io_ws (e_io e) (signal_io_watcher e))) (signal_io_watcher e) POLLIN"
      obtain u' where u': "run_cb os ?c (u4, e4) = (u', e4)" "log u' = log u4 @ [?c]" by (rule quiet_call [OF q o(1)])
      have "log u4 = log u @ concat (map (calls_for e) evs)" "rep u4 = rep u @ [evs]" using D(3) l2 r by (simp_all add: dispatched_def evs_def)
      then show ?thesis using that [of "if hs then u' else u4"] u' D(2) reports_same(4) [OF o(2) u'(1)] poll_frame_sel(3,4) [OF F4]
        by (simp add: run_io_cb_def batch_calls_def split: if_splits)
    qed
    define e5 where "e5 = set_polled None e4"
    have F5: "poll_frame e e5" using poll_frame_trans [OF F4] by (simp add: e5_def)
    have b1: "polled_batches log rep u e [evs] (u5, e5)" using u5(2,3) F5 by (simp add: polled_batches_def)
    have st: "poll_loop (Suc f) os base count chs 0 (u, e) =
        (if hs then Some (u5, e5)
         else if m \<noteq> 0 then if length evs = 1024 \<and> count - 1 \<noteq> 0 then poll_loop f os base (count - 1) [] 0 (u5, e5) else Some (u5, e5)
         else Some (u5, e5))"
      using k r w2 n D(1) [unfolded evs_def e3_def] u5(1) poll_frame_sel(1) [OF F2] unfolding evs_def e5_def
      by (cases hs) (simp_all add: Let_def del: dispatch.simps)
    show ?thesis
    proof (cases "\<not> hs \<and> m \<noteq> 0 \<and> length evs = 1024 \<and> count - 1 \<noteq> 0")
      case True
      then obtain w' bs where R: "poll_loop f os base (count - 1) [] 0 (u5, e5) = Some w'" "polled_batches log rep u5 e5 bs w'" "bs \<noteq> []"
          "length bs \<le> count - 1"
        using Suc.IH [of e5 "count - 1" "[]" u5] poll_frame_sel(1) [OF F5] Suc.prems le_diff_conv [of count 1 f] by auto
      have "polled_batches log rep u e (evs # bs) w'"
        using R(2,3) b1 True poll_frame_calls(3) [OF F5] poll_frame_trans [OF F5] by (auto simp: polled_batches_def)
      moreover have "length (evs # bs) \<le> count" using R(4) Suc.prems(2) by simp
      moreover have "poll_loop (Suc f) os base count chs 0 (u, e) = Some w'" using R(1) st True by simp
      ultimately show ?thesis by blast
    next
      case False
      then have "poll_loop (Suc f) os base count chs 0 (u, e) = Some (u5, e5)" using st by auto
      then show ?thesis using b1 Suc.prems(2) by (intro exI [of _ "(u5, e5)"] exI [of _ "[evs]"]) simp
    qed
  qed
qed simp


lemma io_poll_told:
  assumes q: "quiet os" and o: "observes os log" "reports os rep" and env: "event_env os (\<lambda>w. watchers (e_io (snd w)) = watchers (e_io e))"
    and ok: "io_ok W (e_io e) v" and f: "length (v_watch v) \<le> fuel" "48 \<le> fuel"
    and ch: "length (concat (map (\<lambda>w. watcher_changes (io_ws (e_io e) w)) (v_watch v))) < 1024"
  shows "\<exists>w' bs. uv__io_poll fuel os 0 (u, e) = Some w' \<and> polled_batches log rep u e bs w' \<and> (bs = [] \<longleftrightarrow> nfds (e_io e) = 0) \<and> length bs \<le> 48"
proof (cases "nfds (e_io e) = 0")
  case True
  then have "used_fds (e_io e) = {}" using ok by (auto simp: io_ok_def table_ok_def)
  then have "\<not> registered (e_io e) w" for w by (auto simp: used_fds_def registered_def)
  then have "v_watch v = []" using ok by (cases "v_watch v") (auto simp: io_ok_def io_queues_def interest_ok_def)
  then have "QUEUE_EMPTY (io_queue (e_io e)) Watcher_head" using ok io_queue_empty(1) by (auto simp: io_ok_def)
  then show ?thesis using True by (intro exI [of _ "(u, e)"] exI [of _ "[]"]) (simp add: uv__io_poll_def polled_batches_def)
next
  case False
  obtain chs s where r: "register_loop fuel os (([], u), e_io e) = Some ((chs, u), s)" "watchers s = watchers (e_io e)"
      "\<forall>w. io_ws s w = (if w \<in> set (v_watch v) then (io_ws (e_io e) w)\<lparr>events := pevents (io_ws (e_io e) w)\<rparr> else io_ws (e_io e) w)"
    using register_all [OF ok f(1), of "[]" os u] ch by auto
  have F: "poll_frame e (e\<lparr>e_io := s\<rparr>)" by (rule poll_frame_io) (use r in auto)
  obtain w' bs where p: "poll_loop fuel os (time (e_loop e)) 48 chs 0 (u, e\<lparr>e_io := s\<rparr>) = Some w'"
      "polled_batches log rep u (e\<lparr>e_io := s\<rparr>) bs w'" "bs \<noteq> []" "length bs \<le> 48"
    using poll_told [OF q o env, of "e\<lparr>e_io := s\<rparr>" 48 fuel "time (e_loop e)" chs u] r(2) f(2) by auto
  have "polled_batches log rep u e bs w'"
    using p(2) poll_frame_calls(3) [OF F] poll_frame_trans [OF F] by (simp add: polled_batches_def)
  then show ?thesis using p r(1) False by (intro exI [of _ w'] exI [of _ bs]) (simp add: uv__io_poll_def)
qed

subsection \<open>Callbacks report nothing\<close>

definition unreported :: "'u os \<Rightarrow> ('u \<Rightarrow> 'a) \<Rightarrow> bool" where
  "unreported os rep \<longleftrightarrow> (\<forall>c w. rep (fst (run_cb os c w)) = rep (fst w))"

lemma run_timers_keep:
  assumes "\<And>k h s. f (fst (run k h s)) = f (fst s)"
  shows "uv__run_timers fuel run us = Some us' \<Longrightarrow> f (fst us') = f (fst us)"
proof (induction fuel arbitrary: us)
  case 0
  then show ?case by (cases us) (auto simp: uv__run_timers.simps [of 0] split: option.splits if_splits)
next
  case (Suc n)
  show ?case using Suc.prems
    by (cases us) (auto simp: uv__run_timers.simps [of "Suc n"] assms dest!: Suc.IH split: option.splits if_splits)
qed

lemma watcher_loop_keep:
  assumes "\<And>k h s. f (fst (run k h s)) = f (fst s)"
  shows "watcher_loop fuel ty run us = Some us' \<Longrightarrow> f (fst us') = f (fst us)"
proof (induction fuel arbitrary: us)
  case 0
  then show ?case by (cases us) (auto simp: watcher_loop.simps [of 0] split: if_splits)
next
  case (Suc n)
  show ?case using Suc.prems
    by (cases us) (auto simp: watcher_loop.simps [of "Suc n"] Let_def assms dest!: Suc.IH split: option.splits if_splits watch_addr.splits)
qed

lemma phases_keep:
  assumes "unreported os rep"
  shows "loop_timers fuel os w = Some w' \<Longrightarrow> rep (fst w') = rep (fst w)"
    and "loop_watchers fuel os ty w = Some w' \<Longrightarrow> rep (fst w') = rep (fst w)"
    and "uv__run_pending fuel os w = Some (b, w') \<Longrightarrow> rep (fst w') = rep (fst w)"
    and "uv__run_closing_handles fuel os w = Some w' \<Longrightarrow> rep (fst w') = rep (fst w)"
proof -
  have U: "run_cb os c (u, e) = (u', e') \<Longrightarrow> rep u' = rep u" for c u e u' e'
    using assms unfolding unreported_def by (metis fst_conv)
  let ?f = "\<lambda>x. rep (fst x)"
  have "?f (fst ((\<lambda>k h ((u, e), l). case run_cb os (Timer_cb k h) (u, set_loop l e) of (u', e') \<Rightarrow> ((u', e'), e_loop e')) k h s)) = ?f (fst s)" for k h s
    using U by (auto split: prod.splits)
  note T = run_timers_keep [where f = ?f, OF this]
  show "rep (fst w') = rep (fst w)" if "loop_timers fuel os w = Some w'"
    using that unfolding loop_timers_def by (auto dest!: T split: prod.splits)
  have "?f (fst ((\<lambda>k h ((u, e), s). case run_cb os (Watcher_cb ty k h) (u, e\<lparr>e_watch := s\<rparr>) of (u', e') \<Rightarrow> ((u', e'), e_watch e')) k h s)) = ?f (fst s)" for k h s
    using U by (auto split: prod.splits)
  note L = watcher_loop_keep [where f = ?f, OF this]
  show "rep (fst w') = rep (fst w)" if "loop_watchers fuel os ty w = Some w'"
    using that unfolding loop_watchers_def uv__run_watchers_def by (auto dest!: L split: prod.splits)
  have P: "pending_loop n os w = Some w' \<Longrightarrow> rep (fst w') = rep (fst w)" for n w w'
  proof (induction n arbitrary: w)
    case 0
    then show ?case by (cases w) (auto simp: pending_loop.simps [of 0] split: if_splits)
  next
    case (Suc n)
    show ?case using Suc.prems Suc.IH assms
      by (cases w) (auto simp: pending_loop.simps [of "Suc n"] Let_def run_io_cb_def unreported_def split: if_splits io_addr.splits)
  qed
  show "rep (fst w') = rep (fst w)" if "uv__run_pending fuel os w = Some (b, w')"
    using that by (cases w) (auto simp: uv__run_pending_def bind_eq_Some_conv dest!: P split: if_splits)
  have F: "uv__finish_close os h w = Some w' \<Longrightarrow> rep (fst w') = rep (fst w)" for h w w'
    using assms by (cases w) (auto simp: uv__finish_close_def Let_def unreported_def split: if_splits option.splits)
  have C: "closing_loop n os p w = Some w' \<Longrightarrow> rep (fst w') = rep (fst w)" for n p w w'
  proof (induction n arbitrary: p w)
    case 0
    then show ?case by (cases p) auto
  next
    case (Suc n)
    then show ?case using F by (cases p; cases w) (auto simp: bind_eq_Some_conv)
  qed
  show "rep (fst w') = rep (fst w)" if "uv__run_closing_handles fuel os w = Some w'"
    using that by (cases w) (auto simp: uv__run_closing_handles_def dest!: C)
qed


subsection \<open>The iteration\<close>

lemma watch_lists_cong:
  assumes "watch_lists s X" and "w_queue s' = w_queue s" and "w_cb s' = w_cb s"
    and "\<And>ty. ty \<in> watch_types \<Longrightarrow> active_watchers ty s' = active_watchers ty s"
  shows "watch_lists s' X"
  using assms by (simp add: watch_lists_def watch_ring_def)

lemma update_time_inv:
  assumes "loop_inv e"
  shows "loop_inv (set_loop ((e_loop e)\<lparr>time := t\<rparr>) e)"
proof -
  have "timer_inv ((e_loop e)\<lparr>time := t\<rparr>)" using assms
    by - (rule timer_inv_same [of "e_loop e"], simp_all add: same_activity_def loop_inv_def)
  moreover have "watch_inv (e_watch (set_loop ((e_loop e)\<lparr>time := t\<rparr>) e))" using assms calculation
    by - (rule watch_inv_same [of "e_watch e"], simp_all add: loop_inv_def active_watchers_def timer_inv_def)
  ultimately show ?thesis by (simp add: loop_inv_def)
qed

text \<open>The calls of the watchers of one kind and of the handles that are closed do not depend on the fields that other phases change.\<close>

lemma to_close_cong:
  assumes "timer_frame (e_loop e) l" and "to_close e h" and "e_loop e' = l\<lparr>time := t\<rparr>"
  shows "to_close e' h"
  using assms by (simp add: to_close_def timer_frame_def)

text \<open>The loop between the phases: the timers have run, the I/O state and the links of the queues may have changed.\<close>

definition between :: "event_loop \<Rightarrow> uv_loop \<Rightarrow> event_loop \<Rightarrow> bool" where
  "between e l e' \<longleftrightarrow>
     (\<exists>t. e_loop e' = l\<lparr>time := t\<rparr>) \<and> closing_handles e' = closing_handles e \<and> next_closing e' = next_closing e \<and> close_cb e' = close_cb e"

lemma closing_phase:
  assumes q: "quiet os" "observes os log" and b: "between e l e'" and l: "timer_frame (e_loop e) l"
    and ch: "closing_chain (next_closing e) (closing_handles e) hs" "\<forall>h \<in> set hs. to_close e h" "distinct hs" "length hs \<le> fuel"
  shows "\<exists>u' e''. uv__run_closing_handles fuel os (u, e') = Some (u', e'') \<and> log u' = log u @ close_calls e hs"
proof -
  obtain t where t: "e_loop e' = l\<lparr>time := t\<rparr>" using b by (auto simp: between_def)
  have L: "closing_list e' hs" using b ch to_close_cong [OF l _ t] by (simp add: closing_list_def between_def)
  have "logs_calls os log" using q(2) by (simp add: observes_def)
  moreover have "close_calls e' hs = close_calls e hs" using b by (simp add: close_calls_def between_def)
  ultimately show ?thesis using run_closing_all [OF quiet_spares [OF q(1)] _ quiet_closes [OF q(1)] L ch(4), of log u] by auto
qed

text \<open>The phases before polling.\<close>

lemma phases_before:
  assumes q: "quiet os" "observes os log" and i: "loop_inv e" and now: "time (e_loop e) < - 1" and X: "watch_lists (e_watch e) X"
    and ok: "io_ok W (e_io e) v"
    and f: "card (due_timers (e_loop e)) \<le> fuel" "length (v_pend v) \<le> fuel" "length (X UV_IDLE) \<le> fuel" "length (X UV_PREPARE) \<le> fuel"
  shows "\<exists>w1 w2 w3 u' e' l ts ran ps is pr. loop_timers fuel os (u, e) = Some w1 \<and> uv__run_pending fuel os w1 = Some (v_pend v \<noteq> [], w2) \<and>
    loop_watchers fuel os UV_IDLE w2 = Some w3 \<and> loop_watchers fuel os UV_PREPARE w3 = Some (u', e') \<and>
    log u' = log u @ ts @ ps @ is @ pr \<and> list_all2 (\<lambda>c h. \<exists>k. c = Timer_cb k h) ts ran \<and>
    set ran = due_timers (e_loop e) \<and> distinct ran \<and> sorted_wrt (\<lambda>a b. \<not> timer_less_than (timers (e_loop e)) b a) ran \<and>
    are_pending_calls ps (v_pend v) \<and> are_calls UV_IDLE is (X UV_IDLE) \<and> are_calls UV_PREPARE pr (X UV_PREPARE) \<and>
    timer_frame (e_loop e) l \<and> between e l e' \<and> watch_lists (e_watch e') X \<and> io_ok W (e_io e') (v\<lparr>v_pend := []\<rparr>) \<and>
    io_ws (e_io e') = io_ws (e_io e) \<and> watchers (e_io e') = watchers (e_io e) \<and> nfds (e_io e') = nfds (e_io e) \<and>
    signal_io_watcher e' = signal_io_watcher e"
proof -
  obtain u1 l ts ran where T: "loop_timers fuel os (u, e) = Some (u1, set_loop l e)" "log u1 = log u @ ts"
      "list_all2 (\<lambda>c h. \<exists>k. c = Timer_cb k h) ts ran" "set ran = due_timers (e_loop e)" "distinct ran"
      "sorted_wrt (\<lambda>a b. \<not> timer_less_than (timers (e_loop e)) b a) ran" "timer_frame (e_loop e) l"
      "\<forall>ty \<in> watch_types. active_watchers ty (e_watch (set_loop l e)) = active_watchers ty (e_watch e)"
    using loop_timers_order [OF q i now f(1), of u] by blast
  let ?e1 = "set_loop l e"
  have "io_ok W (e_io ?e1) v" using ok by simp
  then obtain u2 m ps where P: "uv__run_pending fuel os (u1, ?e1) = Some (v_pend v \<noteq> [], (u2, set_io_queue m ?e1))" "log u2 = log u1 @ ps"
      "are_pending_calls ps (v_pend v)" "io_ok W ((e_io ?e1)\<lparr>io_queue := m\<rparr>) (v\<lparr>v_pend := []\<rparr>)"
    using run_pending_order [OF q _ f(2), of W ?e1 u1] by blast
  let ?e2 = "set_io_queue m ?e1"
  have "watch_lists (e_watch ?e2) X" by (rule watch_lists_cong [OF X]) (use T(8) in simp_all)
  then obtain u3 m3 "is" where D: "loop_watchers fuel os UV_IDLE (u2, ?e2) = Some (u3, ?e2\<lparr>e_watch := (e_watch ?e2)\<lparr>w_queue := m3\<rparr>\<rparr>)"
      "log u3 = log u2 @ is" "are_calls UV_IDLE is (X UV_IDLE)" "watch_lists ((e_watch ?e2)\<lparr>w_queue := m3\<rparr>) X"
    using loop_watchers_order [OF q, of ?e2 X UV_IDLE fuel u2] f(3) by (auto simp: watch_types_def)
  let ?e3 = "?e2\<lparr>e_watch := (e_watch ?e2)\<lparr>w_queue := m3\<rparr>\<rparr>"
  have "watch_lists (e_watch ?e3) X" using D(4) by simp
  then obtain u4 m4 pr where R: "loop_watchers fuel os UV_PREPARE (u3, ?e3) = Some (u4, ?e3\<lparr>e_watch := (e_watch ?e3)\<lparr>w_queue := m4\<rparr>\<rparr>)"
      "log u4 = log u3 @ pr" "are_calls UV_PREPARE pr (X UV_PREPARE)" "watch_lists ((e_watch ?e3)\<lparr>w_queue := m4\<rparr>) X"
    using loop_watchers_order [OF q, of ?e3 X UV_PREPARE fuel u3] f(4) by (auto simp: watch_types_def)
  let ?e4 = "?e3\<lparr>e_watch := (e_watch ?e3)\<lparr>w_queue := m4\<rparr>\<rparr>"
  have "between e l ?e4" by (auto simp: between_def intro: exI [of _ "time l"])
  moreover have "log u4 = log u @ ts @ ps @ is @ pr" using T(2) P(2) D(2) R(2) by simp
  moreover have "watch_lists (e_watch ?e4) X" "io_ok W (e_io ?e4) (v\<lparr>v_pend := []\<rparr>)" "io_ws (e_io ?e4) = io_ws (e_io e)" "watchers (e_io ?e4) = watchers (e_io e)"
      "nfds (e_io ?e4) = nfds (e_io e)" "signal_io_watcher ?e4 = signal_io_watcher e"
    using R(4) P(4) by simp_all
  ultimately show ?thesis using T(1,3-7) P(1,3) D(1,3) R(1,3) by blast
qed

lemma update_time_eq:
  "uv__update_time os (u, e) = (snd (hrtime os u), set_loop ((e_loop e)\<lparr>time := fst (hrtime os u) div 1000000\<rparr>) e)"
  by (simp add: uv__update_time_def split: prod.splits)

text \<open>
  C18: One iteration of \<^verbatim>\<open>uv_run\<close> with \<^verbatim>\<open>UV_RUN_NOWAIT\<close>, for callbacks that are logged and leave the loop alone, returns and calls exactly these callbacks, in this order:
  the timers that are due at the time read at the start, in the order of their timeouts and start numbers; the I/O
  watchers that were fed, in the order in which they were; the idle and the prepare watchers, each kind in the order in its
  queue; for each batch of events that the system reports, the I/O watcher of each event, once for each event of which it is told something and with the bits that it is told,
  and at the end of a batch the signal watcher if it has events; the check watchers; the close callbacks. The system is asked for events if any file descriptor is watched, at
  most 48 times, and again only after a batch of 1024 events.
\<close>

theorem run_iteration_order:
  assumes "quiet os" and "observes os log" and "reports os rep" and "event_env os (\<lambda>w. watchers (e_io (snd w)) = watchers (e_io e))"
    and "loop_inv e" and "watch_lists (e_watch e) X" and "io_ok W (e_io e) v"
    and "closing_chain (next_closing e) (closing_handles e) hs" and "\<forall>h \<in> set hs. to_close e h" and "distinct hs"
    and "l0 = (e_loop e)\<lparr>time := fst (hrtime os u) div 1000000\<rparr>" and "time l0 < - 1"
    and "card (due_timers l0) \<le> fuel" and "length (v_pend v) \<le> fuel" and "length (v_watch v) \<le> fuel" and "length hs \<le> fuel"
    and "\<forall>ty \<in> watch_types. length (X ty) \<le> fuel" and "48 \<le> fuel"
    and "length (concat (map (\<lambda>w. watcher_changes (io_ws (e_io e) w)) (v_watch v))) < 1024"
  shows "\<exists>w' ts ran ps is pr bs ck. run_iteration fuel os UV_RUN_NOWAIT (u, e) = Some w' \<and>
           log (fst w') = log u @ ts @ ps @ is @ pr @ concat (map (batch_calls e) bs) @ ck @ close_calls e hs \<and>
           list_all2 (\<lambda>c h. \<exists>k. c = Timer_cb k h) ts ran \<and> set ran = due_timers l0 \<and> distinct ran \<and>
           sorted_wrt (\<lambda>a b. \<not> timer_less_than (timers l0) b a) ran \<and>
           list_all2 (\<lambda>c i. \<exists>fn. c = Io_cb fn i POLLOUT) ps (v_pend v) \<and>
           list_all2 (\<lambda>c h. \<exists>k. c = Watcher_cb UV_IDLE k h) is (X UV_IDLE) \<and>
           list_all2 (\<lambda>c h. \<exists>k. c = Watcher_cb UV_PREPARE k h) pr (X UV_PREPARE) \<and>
           rep (fst w') = rep u @ bs \<and> (bs = [] \<longleftrightarrow> nfds (e_io e) = 0) \<and> length bs \<le> 48 \<and> (\<forall>b \<in> set (butlast bs). length b = 1024) \<and>
           list_all2 (\<lambda>c h. \<exists>k. c = Watcher_cb UV_CHECK k h) ck (X UV_CHECK)"
proof -
  note q = assms(1,2)
  define u0 e0 where "u0 = snd (hrtime os u)" and "e0 = set_loop l0 e"
  have t0: "uv__update_time os (u, e) = (u0, e0)" by (simp add: u0_def e0_def assms(11) update_time_eq)
  have e0: "e_loop e0 = l0" "e_io e0 = e_io e" "close_cb e0 = close_cb e" "closing_handles e0 = closing_handles e" "next_closing e0 = next_closing e"
    by (simp_all add: e0_def)
  have lg0: "log u0 = log u" using observes_same(1) [OF q(2), of u "fst (hrtime os u)" u0] by (simp add: u0_def)
  have i0: "loop_inv e0" unfolding e0_def assms(11) by (rule update_time_inv [OF assms(5)])
  have X0: "watch_lists (e_watch e0) X" by (rule watch_lists_cong [OF assms(6)]) (simp_all add: e0_def assms(11) active_watchers_def)
  have f: "length (X UV_IDLE) \<le> fuel" "length (X UV_PREPARE) \<le> fuel" "length (X UV_CHECK) \<le> fuel" using assms(17) by (simp_all add: watch_types_def)
  have pre: "time (e_loop e0) < - 1" "io_ok W (e_io e0) v" "card (due_timers (e_loop e0)) \<le> fuel" using assms(7,12,13) e0(1,2) by simp_all
  obtain w1 w2 w3 u4 e4 l ts ran ps "is" pr where B: "loop_timers fuel os (u0, e0) = Some w1"
      "uv__run_pending fuel os w1 = Some (v_pend v \<noteq> [], w2)" "loop_watchers fuel os UV_IDLE w2 = Some w3"
      "loop_watchers fuel os UV_PREPARE w3 = Some (u4, e4)" "log u4 = log u0 @ ts @ ps @ is @ pr"
      "list_all2 (\<lambda>c h. \<exists>k. c = Timer_cb k h) ts ran" "set ran = due_timers (e_loop e0)" "distinct ran"
      "sorted_wrt (\<lambda>a b. \<not> timer_less_than (timers (e_loop e0)) b a) ran" "are_pending_calls ps (v_pend v)"
      "are_calls UV_IDLE is (X UV_IDLE)" "are_calls UV_PREPARE pr (X UV_PREPARE)" "timer_frame (e_loop e0) l" "between e0 l e4"
      "watch_lists (e_watch e4) X" "io_ok W (e_io e4) (v\<lparr>v_pend := []\<rparr>)" "io_ws (e_io e4) = io_ws (e_io e0)" "watchers (e_io e4) = watchers (e_io e0)"
      "nfds (e_io e4) = nfds (e_io e0)" "signal_io_watcher e4 = signal_io_watcher e0"
    using phases_before [OF q i0 pre(1) X0 pre(2,3) assms(14) f(1,2), of u0] by (elim exE conjE) (rule that)
  obtain u5 e5 bs where P: "uv__io_poll fuel os 0 (u4, e4) = Some (u5, e5)" "polled_batches log rep u4 e4 bs (u5, e5)" "bs = [] \<longleftrightarrow> nfds (e_io e) = 0" "length bs \<le> 48"
    using io_poll_told [OF q assms(3), of e4 W "v\<lparr>v_pend := []\<rparr>" fuel u4] assms(4,15,18,19) B(16-19) e0(2) by auto
  have "batch_calls e4 = batch_calls e" by (rule batch_calls_cong(3)) (use B(17,18,20) e0(2) in \<open>simp_all add: e0_def\<close>)
  then have l5: "log u5 = log u4 @ concat (map (batch_calls e) bs)" "rep u5 = rep u4 @ bs" "\<forall>b \<in> set (butlast bs). length b = 1024"
    using P(2) by (simp_all add: polled_batches_def)
  obtain t s where O: "e5 = (set_loop ((e_loop e4)\<lparr>time := t\<rparr>) e4)\<lparr>e_io := s\<rparr>"
    using P(2) by (auto simp: polled_batches_def poll_frame_def)
  have X5: "watch_lists (e_watch e5) X" by (rule watch_lists_cong [OF B(15)]) (simp_all add: O active_watchers_def)
  obtain u6 m ck where C: "loop_watchers fuel os UV_CHECK (u5, e5) = Some (u6, e5\<lparr>e_watch := (e_watch e5)\<lparr>w_queue := m\<rparr>\<rparr>)"
      "log u6 = log u5 @ ck" "are_calls UV_CHECK ck (X UV_CHECK)"
    using loop_watchers_order [OF q X5 _ f(3), of u5] by (auto simp: watch_types_def)
  let ?e6 = "e5\<lparr>e_watch := (e_watch e5)\<lparr>w_queue := m\<rparr>\<rparr>"
  have b6: "between e0 l ?e6" using B(14) by (auto simp: between_def O)
  have "\<forall>h \<in> set hs. to_close e0 h" using assms(9) by (simp add: to_close_def e0_def assms(11))
  then obtain u7 e7 where cl: "uv__run_closing_handles fuel os (u6, ?e6) = Some (u7, e7)" "log u7 = log u6 @ close_calls e0 hs"
    using closing_phase [OF q b6 B(13), of hs fuel u6] assms(8,10,16) e0(4,5) by auto
  have "run_iteration fuel os UV_RUN_NOWAIT (u, e) = Some (u7, e7)"
    unfolding run_iteration_def by (simp add: t0 B(1-4) P(1) C(1) cl(1))
  moreover have "log u7 = log u @ ts @ ps @ is @ pr @ concat (map (batch_calls e) bs) @ ck @ close_calls e hs"
    using lg0 B(5) l5(1) C(2) cl(2) e0(3) by (simp add: close_calls_def)
  moreover have "rep u7 = rep u @ bs"
  proof -
    have un: "unreported os rep" using assms(3) by (simp add: reports_def unreported_def)
    note K = phases_keep [OF un]
    have "rep u4 = rep u0" using K(1) [OF B(1)] K(3) [OF B(2)] K(2) [OF B(3)] K(2) [OF B(4)] by simp
    moreover have "rep u0 = rep u" using assms(3) by (simp add: reports_def u0_def)
    ultimately show ?thesis using l5(2) K(2) [OF C(1)] K(4) [OF cl(1)] by simp
  qed
  ultimately show ?thesis using B(6-12) P(3,4) l5(3) C(3) unfolding e0(1)
    by (intro exI [of _ "(u7, e7)"] exI [of _ ts] exI [of _ ran] exI [of _ ps] exI [of _ "is"] exI [of _ pr] exI [of _ bs] exI [of _ ck]) simp
qed


text \<open>A system at 150 milliseconds in which file descriptor 7 is always readable.\<close>

definition ready_event :: kevent where
  "ready_event = \<lparr>ev_ident = 7, ev_filter = EVFILT_READ, ev_flags = 0, ev_fflags = 0, ev_data = 5\<rparr>"

definition ready_os :: "(event_call list \<times> kevent list list) os" where
  "ready_os = \<lparr>hrtime = (\<lambda>u. (150000000, u)), kevent_change = (\<lambda>_ u. (None, u)),
     kevent_wait = (\<lambda>_ _ u. (K_events [ready_event], (fst u, snd u @ [[ready_event]]))),
     run_cb = (\<lambda>c w. ((fst (fst w) @ [c], snd (fst w)), snd w))\<rparr>"

lemma ready_os_ok:
  "quiet ready_os" "observes ready_os fst" "reports ready_os snd" "event_env ready_os (\<lambda>w. watchers (e_io (snd w)) = watchers (e_io example_event))"
proof -
  let ?I = "\<lambda>w :: (event_call list \<times> kevent list list) world. watchers (e_io (snd w)) = watchers (e_io example_event)"
  show "quiet ready_os" "observes ready_os fst" "reports ready_os snd"
    by (simp_all add: quiet_def observes_def logs_calls_def reports_def ready_os_def)
  have L: "7 < length (watchers (e_io example_event))" by code_simp
  have "wait_ok ready_os ?I" using L by (simp add: wait_ok_def ready_os_def events_fit_def ready_event_def)
  moreover have "change_ok ready_os ?I" by (simp add: change_ok_def ready_os_def)
  moreover have "callbacks_ok ready_os ?I" by (simp add: callbacks_ok_def ready_os_def)
  moreover have "fields_ok ready_os ?I" using example_event_io(1)
    by (simp add: fields_ok_def ready_os_def uv__update_time_def set_loop_def set_polled_def on_e_io_def)
  ultimately show "event_env ready_os ?I" by (simp add: event_env_def)
qed

lemma ready_os_log:
  "map_option fst (run_iteration 48 ready_os UV_RUN_NOWAIT (([], []), example_event)) =
     Some ([Timer_cb 7 1, Io_cb (Fn_io 5) 1 POLLIN], [[ready_event]])"
  by code_simp

theorem run_iteration_order_witness:
  "\<exists>w' bs. run_iteration 48 ready_os UV_RUN_NOWAIT (([], []), example_event) = Some w' \<and>
     fst w' = (Timer_cb 7 1 # concat (map (batch_calls example_event) bs), bs) \<and> bs = [[ready_event]] \<and>
     concat (map (batch_calls example_event) bs) = [Io_cb (Fn_io 5) 1 POLLIN]"
proof -
  let ?u = "([], []) :: event_call list \<times> kevent list list"
  let ?l0 = "(e_loop example_event)\<lparr>time := 150\<rparr>"
  obtain v where v: "io_ok {1} (e_io example_event) v" "length (v_watch v) \<le> 1" using example_event_io(3) by blast
  have c: "length (watcher_changes (io_ws (e_io example_event) 1)) = 1" "QUEUE_EMPTY (io_queue (e_io example_event)) Pending_head"
    "handle_queue ?l0 = [1]" "h_type (handles ?l0 1) = UV_TIMER" "f_active (flags_of ?l0 1)" "timeout (timers ?l0 1) \<le> 150"
    "closing_handles example_event = None" by code_simp+
  have "v_watch v = [] \<or> v_watch v = [1]" using v by (cases "v_watch v") (auto simp: io_ok_def io_queues_def)
  then have ch: "length (concat (map (\<lambda>w. watcher_changes (io_ws (e_io example_event) w)) (v_watch v))) < 1024" using c(1) by auto
  have p: "v_pend v = []" using v(1) c(2) io_queue_empty(2) by (auto simp: io_ok_def)
  have due: "due_timers ?l0 = {1}" using c(3-6) by (auto simp: due_timers_def active_timers_def)
  have "active_watchers ty (e_watch example_event) = {}" if "ty \<in> watch_types" for ty
    using c(3,4) that by (auto simp: active_watchers_def watch_types_def)
  then have X: "watch_lists (e_watch example_event) (\<lambda>_. [])"
    by (simp add: watch_lists_def watch_ring_def ring_def) (simp add: example_event_def)
  have "\<exists>w' ts ran ps is pr bs ck. run_iteration 48 ready_os UV_RUN_NOWAIT (?u, example_event) = Some w' \<and>
      fst (fst w') = fst ?u @ ts @ ps @ is @ pr @ concat (map (batch_calls example_event) bs) @ ck @ close_calls example_event [] \<and>
      list_all2 (\<lambda>c h. \<exists>k. c = Timer_cb k h) ts ran \<and> set ran = due_timers ?l0 \<and> distinct ran \<and>
      sorted_wrt (\<lambda>a b. \<not> timer_less_than (timers ?l0) b a) ran \<and>
      list_all2 (\<lambda>c i. \<exists>fn. c = Io_cb fn i POLLOUT) ps (v_pend v) \<and> list_all2 (\<lambda>c h. \<exists>k. c = Watcher_cb UV_IDLE k h) is [] \<and>
      list_all2 (\<lambda>c h. \<exists>k. c = Watcher_cb UV_PREPARE k h) pr [] \<and>
      snd (fst w') = snd ?u @ bs \<and> (bs = [] \<longleftrightarrow> nfds (e_io example_event) = 0) \<and> length bs \<le> 48 \<and> (\<forall>b \<in> set (butlast bs). length b = 1024) \<and>
      list_all2 (\<lambda>c h. \<exists>k. c = Watcher_cb UV_CHECK k h) ck []"
    using v(2) c(7) p due by (intro run_iteration_order [OF ready_os_ok example_event_inv X v(1) _ _ _ _ _ _ _ _ _ _ _ ch]) (simp_all add: ready_os_def)
  then obtain w' ts ran ps "is" pr bs ck where r: "run_iteration 48 ready_os UV_RUN_NOWAIT (?u, example_event) = Some w'"
      "fst (fst w') = fst ?u @ ts @ ps @ is @ pr @ concat (map (batch_calls example_event) bs) @ ck @ close_calls example_event []"
      "list_all2 (\<lambda>c h. \<exists>k. c = Timer_cb k h) ts ran" "set ran = due_timers ?l0" "distinct ran" "snd (fst w') = snd ?u @ bs"
      "ps = []" "is = []" "pr = []" "ck = []"
    unfolding p list_all2_Nil2 by (elim exE conjE) (rule that)
  have "fst (fst w') = ts @ concat (map (batch_calls example_event) bs)" using r(2,7-) by (simp add: close_calls_def)
  moreover have "ran = [1]"
  proof -
    have "length ran = 1" using distinct_card [OF r(5)] r(4) due by simp
    then show ?thesis using r(4) due by (cases ran) auto
  qed
  moreover have "fst w' = ([Timer_cb 7 1, Io_cb (Fn_io 5) 1 POLLIN], [[ready_event]])" using ready_os_log r(1) by simp
  ultimately show ?thesis using r(1,3,6) by (auto simp: list_all2_Cons2)
qed

end
