(* ===== verification/Ldb_Coding.thy ===== *)
theory Ldb_Coding
  imports Pb_Istream
begin

text \<open>
  Numbers and strings as bytes in LevelDB, \<^verbatim>\<open>util/coding.h\<close> and \<^verbatim>\<open>util/coding.cc\<close>. A \<^verbatim>\<open>Slice\<close> and the range between two pointers
  \<^verbatim>\<open>p\<close> and \<^verbatim>\<open>limit\<close> are lists of bytes; the functions that advance a pointer or a slice return the rest. Routines that append to a string
  return what is appended.
\<close>

type_synonym slice = "u8 list"

subsection \<open>Fixed width\<close>

text \<open>\<^verbatim>\<open>port::kLittleEndian\<close> on the machines that the application is built for; there the bytes of a number in memory are \<^const>\<open>to_le\<close>.\<close>

definition kLittleEndian :: bool where "kLittleEndian = True"

definition EncodeFixed32 :: "u32 \<Rightarrow> slice" where
  "EncodeFixed32 value =
     (if kLittleEndian then to_le 4 value
      else [ucast (value AND 0xff), ucast (drop_bit 8 value AND 0xff), ucast (drop_bit 16 value AND 0xff), ucast (drop_bit 24 value AND 0xff)])"

definition EncodeFixed64 :: "u64 \<Rightarrow> slice" where
  "EncodeFixed64 value =
     (if kLittleEndian then to_le 8 value
      else [ucast (value AND 0xff), ucast (drop_bit 8 value AND 0xff), ucast (drop_bit 16 value AND 0xff), ucast (drop_bit 24 value AND 0xff),
            ucast (drop_bit 32 value AND 0xff), ucast (drop_bit 40 value AND 0xff), ucast (drop_bit 48 value AND 0xff),
            ucast (drop_bit 56 value AND 0xff)])"

definition PutFixed32 :: "slice \<Rightarrow> u32 \<Rightarrow> slice" where
  "PutFixed32 dst value = dst @ EncodeFixed32 value"

definition PutFixed64 :: "slice \<Rightarrow> u64 \<Rightarrow> slice" where
  "PutFixed64 dst value = dst @ EncodeFixed64 value"

text \<open>The decoders read four or eight bytes at a pointer without a check; on a shorter list the model has no meaning.\<close>

definition DecodeFixed32 :: "slice \<Rightarrow> u32" where
  "DecodeFixed32 ptr =
     (if kLittleEndian then from_le (take 4 ptr)
      else ucast (ptr ! 0) OR push_bit 8 (ucast (ptr ! 1)) OR push_bit 16 (ucast (ptr ! 2)) OR push_bit 24 (ucast (ptr ! 3)))"

definition DecodeFixed64 :: "slice \<Rightarrow> u64" where
  "DecodeFixed64 ptr =
     (if kLittleEndian then from_le (take 8 ptr)
      else push_bit 32 (ucast (DecodeFixed32 (drop 4 ptr))) OR ucast (DecodeFixed32 ptr))"

lemma fixed_length [simp]: "length (EncodeFixed32 v) = 4" "length (EncodeFixed64 w) = 8"
  by (simp_all add: EncodeFixed32_def EncodeFixed64_def)

lemma fixed_bytes:
  "EncodeFixed32 v = to_le 4 v" "EncodeFixed64 w = to_le 8 w" "DecodeFixed32 bs = from_le (take 4 bs)" "DecodeFixed64 bs = from_le (take 8 bs)"
  by (simp_all add: EncodeFixed32_def EncodeFixed64_def DecodeFixed32_def DecodeFixed64_def kLittleEndian_def)

lemma fixed_decode [simp]: "DecodeFixed32 (EncodeFixed32 v @ rest) = v" "DecodeFixed64 (EncodeFixed64 w @ rest) = w"
  by (simp_all add: fixed_bytes)

lemma fixed_decode_only [simp]: "DecodeFixed32 (EncodeFixed32 v) = v" "DecodeFixed64 (EncodeFixed64 w) = w"
  using fixed_decode(1) [of v "[]"] fixed_decode(2) [of w "[]"] by simp_all

subsection \<open>Variable length\<close>

definition EncodeVarint32 :: "u32 \<Rightarrow> slice" where
  "EncodeVarint32 v =
     (let B = 128 in
      if v < push_bit 7 1 then [ucast v]
      else if v < push_bit 14 1 then [ucast (v OR B), ucast (drop_bit 7 v)]
      else if v < push_bit 21 1 then [ucast (v OR B), ucast (drop_bit 7 v OR B), ucast (drop_bit 14 v)]
      else if v < push_bit 28 1 then [ucast (v OR B), ucast (drop_bit 7 v OR B), ucast (drop_bit 14 v OR B), ucast (drop_bit 21 v)]
      else [ucast (v OR B), ucast (drop_bit 7 v OR B), ucast (drop_bit 14 v OR B), ucast (drop_bit 21 v OR B), ucast (drop_bit 28 v)])"

definition PutVarint32 :: "slice \<Rightarrow> u32 \<Rightarrow> slice" where
  "PutVarint32 dst v = dst @ EncodeVarint32 v"

lemma shift_less: "\<not> v < (128 :: u64) \<Longrightarrow> unat (drop_bit 7 v) < unat v"
proof -
  assume "\<not> v < 128"
  then have "0 < unat v" by (simp add: word_less_nat_alt)
  then show ?thesis by (simp add: drop_bit_eq_div unat_div)
qed

function EncodeVarint64 :: "u64 \<Rightarrow> slice" where
  "EncodeVarint64 v = (if v \<ge> 128 then ucast (v OR 128) # EncodeVarint64 (drop_bit 7 v) else [ucast v])"
  by pat_completeness auto
termination
  by (relation "measure unat") (simp_all add: shift_less not_less)

declare EncodeVarint64.simps [simp del]

definition PutVarint64 :: "slice \<Rightarrow> u64 \<Rightarrow> slice" where
  "PutVarint64 dst v = dst @ EncodeVarint64 v"

text \<open>The length is handed to \<^verbatim>\<open>PutVarint32\<close>, which takes 32 bits of it.\<close>

definition PutLengthPrefixedSlice :: "slice \<Rightarrow> slice \<Rightarrow> slice" where
  "PutLengthPrefixedSlice dst value = PutVarint32 dst (of_nat (length value)) @ value"

function VarintLength :: "u64 \<Rightarrow> nat" where
  "VarintLength v = (if v \<ge> 128 then Suc (VarintLength (drop_bit 7 v)) else 1)"
  by pat_completeness auto
termination
  by (relation "measure unat") (simp_all add: shift_less not_less)

declare VarintLength.simps [simp del]

text \<open>The loops of the decoders; \<open>shift\<close> and \<open>result\<close> are the local variables.\<close>

fun varint32_fallback :: "nat \<Rightarrow> u32 \<Rightarrow> slice \<Rightarrow> (u32 \<times> slice) option" where
  "varint32_fallback shift result p =
     (case p of
        [] \<Rightarrow> None
      | b # p' \<Rightarrow>
          if shift \<le> 28 then
            let byte = (ucast b :: u32) in
            if byte AND 128 \<noteq> 0 then varint32_fallback (shift + 7) (result OR push_bit shift (byte AND 127)) p'
            else Some (result OR push_bit shift byte, p')
          else None)"

declare varint32_fallback.simps [simp del]

definition GetVarint32PtrFallback :: "slice \<Rightarrow> (u32 \<times> slice) option" where
  "GetVarint32PtrFallback p = varint32_fallback 0 0 p"

definition GetVarint32Ptr :: "slice \<Rightarrow> (u32 \<times> slice) option" where
  "GetVarint32Ptr p =
     (case p of
        b # p' \<Rightarrow> if (ucast b :: u32) AND 128 = 0 then Some (ucast b, p') else GetVarint32PtrFallback p
      | [] \<Rightarrow> GetVarint32PtrFallback p)"

definition GetVarint32 :: "slice \<Rightarrow> (u32 \<times> slice) option" where
  "GetVarint32 input = GetVarint32Ptr input"

fun varint64_loop :: "nat \<Rightarrow> u64 \<Rightarrow> slice \<Rightarrow> (u64 \<times> slice) option" where
  "varint64_loop shift result p =
     (case p of
        [] \<Rightarrow> None
      | b # p' \<Rightarrow>
          if shift \<le> 63 then
            let byte = (ucast b :: u64) in
            if byte AND 128 \<noteq> 0 then varint64_loop (shift + 7) (result OR push_bit shift (byte AND 127)) p'
            else Some (result OR push_bit shift byte, p')
          else None)"

declare varint64_loop.simps [simp del]

definition GetVarint64Ptr :: "slice \<Rightarrow> (u64 \<times> slice) option" where
  "GetVarint64Ptr p = varint64_loop 0 0 p"

definition GetVarint64 :: "slice \<Rightarrow> (u64 \<times> slice) option" where
  "GetVarint64 input = GetVarint64Ptr input"

definition GetLengthPrefixedSlicePtr :: "slice \<Rightarrow> (slice \<times> slice) option" where
  "GetLengthPrefixedSlicePtr p =
     (case GetVarint32Ptr p of
        None \<Rightarrow> None
      | Some (len, p') \<Rightarrow> if unat len > length p' then None else Some (take (unat len) p', drop (unat len) p'))"

text \<open>The second component is the input afterwards: it may have been advanced although the call fails.\<close>

definition GetLengthPrefixedSlice :: "slice \<Rightarrow> slice option \<times> slice" where
  "GetLengthPrefixedSlice input =
     (case GetVarint32 input of
        None \<Rightarrow> (None, input)
      | Some (len, input') \<Rightarrow>
          if length input' \<ge> unat len then (Some (take (unat len) input'), drop (unat len) input') else (None, input'))"

subsection \<open>Varints are those of protocol buffers\<close>

lemma bit_128: "bit (128 :: 'a::len word) n \<longleftrightarrow> n = 7 \<and> n < LENGTH('a)"
proof -
  have "(128 :: 'a word) = 2 ^ 7" by simp
  then show ?thesis by (simp only: bit_exp_iff) auto
qed

lemma bit_127: "bit (127 :: 'a::len word) n \<longleftrightarrow> n < 7 \<and> n < LENGTH('a)"
proof -
  have "(127 :: 'a word) = mask 7" by (simp add: mask_eq_exp_minus_1)
  then show ?thesis by (simp only: bit_mask_iff) auto
qed

lemmas bits_7 = bit_128 bit_127 bit_unsigned_iff bit_or_iff bit_and_iff

lemma or_128: "8 \<le> LENGTH('a) \<Longrightarrow> (ucast (v OR 128) :: u8) = ucast (v AND 127) OR 128" for v :: "'a::len word"
proof (rule bit_word_eqI)
  fix n assume "8 \<le> LENGTH('a)" and n: "n < LENGTH(8)"
  then show "bit (ucast (v OR 128) :: u8) n \<longleftrightarrow> bit (ucast (v AND 127) OR 128 :: u8) n"
    using bit_imp_le_length [of v n] by (simp only: bits_7) auto
qed

lemma encode_varint64: "EncodeVarint64 v = varint v"
proof (induction v rule: varint.induct)
  case (1 v)
  show ?case
  proof (cases "v \<le> 0x7F")
    case True
    then have "\<not> 128 \<le> v" by (simp add: word_le_nat_alt)
    then show ?thesis using True by (simp add: EncodeVarint64.simps [of v] varint.simps [of v])
  next
    case False
    then have "128 \<le> v" by (simp add: word_le_nat_alt)
    then show ?thesis using False 1 by (simp add: EncodeVarint64.simps [of v] varint.simps [of v] or_128)
  qed
qed

lemma varint_length_64: "VarintLength v = length (EncodeVarint64 v)"
  by (induction v rule: VarintLength.induct) (simp add: VarintLength.simps EncodeVarint64.simps)

lemma group_32: "(ucast (ucast (w :: u32) AND 127 :: u64) :: u8) = ucast (w AND 127)"
  by (rule bit_word_eqI) (auto simp only: bits_7, simp_all)

text \<open>A group that is followed by others, and the last group.\<close>

lemma varint_more: "\<not> drop_bit i v < (128 :: u32) \<Longrightarrow>
    varint (drop_bit i (ucast v)) = ucast (drop_bit i v OR 128) # varint (drop_bit (i + 7) (ucast v))"
  and varint_last: "drop_bit i v < (128 :: u32) \<Longrightarrow> varint (drop_bit i (ucast v)) = [ucast (drop_bit i v)]"
proof -
  have u: "drop_bit i (ucast v :: u64) = ucast (drop_bit i v)"
    by (rule bit_word_eqI) (auto simp: bit_unsigned_iff bit_drop_bit_eq dest: bit_imp_le_length)
  have le: "(ucast (drop_bit i v) :: u64) \<le> 0x7F \<longleftrightarrow> drop_bit i v < 128"
    by (simp add: word_le_nat_alt word_less_nat_alt unat_ucast_u32) linarith
  show "varint (drop_bit i (ucast v)) = ucast (drop_bit i v OR 128) # varint (drop_bit (i + 7) (ucast v))" if n: "\<not> drop_bit i v < 128"
  proof -
    have "varint (drop_bit i (ucast v)) = (ucast (drop_bit i (ucast v :: u64) AND 0x7F) OR 0x80) # varint (drop_bit 7 (drop_bit i (ucast v)))"
      using n le u varint.simps [of "drop_bit i (ucast v)"] by simp
    moreover have "drop_bit 7 (drop_bit i (ucast v :: u64)) = drop_bit (i + 7) (ucast v)" by (simp add: drop_bit_drop_bit add.commute)
    moreover have "ucast (drop_bit i (ucast v :: u64) AND 0x7F) OR 0x80 = (ucast (drop_bit i v OR 128) :: u8)"
      unfolding u by (simp add: group_32 or_128)
    ultimately show ?thesis by simp
  qed
  show "varint (drop_bit i (ucast v)) = [ucast (drop_bit i v)]" if "drop_bit i v < 128"
  proof -
    have "(ucast (ucast (drop_bit i v) :: u64) :: u8) = ucast (drop_bit i v)"
      by (rule bit_word_eqI) (auto simp: bit_unsigned_iff dest: bit_imp_le_length)
    then show ?thesis using that le u varint.simps [of "drop_bit i (ucast v)"] by simp
  qed
qed

lemma encode_varint32: "EncodeVarint32 v = varint (ucast v)"
proof -
  have d: "drop_bit i v < 128 \<longleftrightarrow> v < push_bit (i + 7) 1" if "i \<in> {0, 7, 14, 21}" for i
    using that by (auto simp: word_less_nat_alt drop_bit_eq_div unat_div div_less_iff_less_mult)
  have top: "drop_bit 28 v < 128"
    using unat_bound [of v] by (simp add: word_less_nat_alt drop_bit_eq_div unat_div div_less_iff_less_mult)
  note D = d [of 0, simplified] d [of 7, simplified] d [of 14, simplified] d [of 21, simplified]
  note M = varint_more [of 0 v, simplified] varint_more [of 7 v, simplified] varint_more [of 14 v, simplified] varint_more [of 21 v, simplified]
  note L = varint_last [of 0 v, simplified] varint_last [of 7 v, simplified] varint_last [of 14 v, simplified] varint_last [of 21 v, simplified] varint_last [of 28 v, OF top]
  show ?thesis unfolding EncodeVarint32_def Let_def using D M L by (auto simp: not_less)
qed

subsection \<open>Reading back\<close>

lemma and_128: "(x :: 'a::len word) AND 128 = 0 \<longleftrightarrow> \<not> bit x 7"
  using and_exp_eq_0_iff_not_bit [of x 7] by simp

lemma byte_group: "(ucast (b :: u8) :: 'a::len word) AND 127 = ucast (b AND 127)"
  by (intro bit_word_eqI) (auto simp only: bits_7, simp_all)

lemma whole_byte: "\<not> bit b 7 \<Longrightarrow> (ucast (b :: u8) :: 'a::len word) = ucast (b AND 127)"
proof (rule bit_word_eqI)
  fix n assume b: "\<not> bit b 7" and "n < LENGTH('a)"
  have "bit b n \<Longrightarrow> n < 8" using bit_imp_le_length [of b n] by simp
  then have "bit b n \<Longrightarrow> n < 7" using b by (cases "n = 7") auto
  then show "bit (ucast b :: 'a word) n \<longleftrightarrow> bit (ucast (b AND 127) :: 'a word) n" by (auto simp only: bits_7) simp
qed

lemma byte_flag: "bit (ucast (b :: u8) :: 'a::len word) 7 \<longleftrightarrow> 7 < LENGTH('a) \<and> bit b 7"
  by (auto simp: bit_unsigned_iff)

text \<open>A round of the loops, on a byte that carries the group of \<open>v\<close> at the position \<open>i\<close>.\<close>

lemma varint64_round:
  assumes "i \<le> 63" and "b AND 127 = (ucast (drop_bit i v) :: u8) AND 127"
  shows "varint64_loop i (take_bit i v) (b # p) =
    (if bit b 7 then varint64_loop (i + 7) (take_bit (i + 7) v) p else Some (take_bit (i + 7) v, p))"
  using assms(1) add_group [OF assms(2)] whole_byte [of b, where 'a = 64]
  by (simp add: varint64_loop.simps [of i] Let_def and_128 byte_flag byte_group)

lemma varint32_round:
  assumes "i \<le> 28" and "b AND 127 = (ucast (drop_bit i v) :: u8) AND 127"
  shows "varint32_fallback i (take_bit i v) (b # p) =
    (if bit b 7 then varint32_fallback (i + 7) (take_bit (i + 7) v) p else Some (take_bit (i + 7) v, p))"
  using assms(1) add_group [OF assms(2)] whole_byte [of b, where 'a = 32]
  by (simp add: varint32_fallback.simps [of i] Let_def and_128 byte_flag byte_group)

lemma high_bit: "\<not> (x :: u64) \<le> 0x7F \<Longrightarrow> \<exists>k \<ge> 7. bit x k"
proof (rule ccontr)
  assume a: "\<not> x \<le> 0x7F" and n: "\<not> (\<exists>k \<ge> 7. bit x k)"
  have "take_bit 7 x = x" by (rule bit_word_eqI) (use n in \<open>auto simp: bit_take_bit_iff not_le\<close>)
  then have "unat x < 2 ^ 7" by (metis take_bit_nat_less_exp unsigned_take_bit_eq)
  then show False using a by (simp add: word_le_nat_alt)
qed

lemma varint64_ok:
  "7 dvd i \<Longrightarrow> i \<le> 63 \<Longrightarrow> varint64_loop i (take_bit i v) (varint (drop_bit i v) @ rest) = Some (v, rest)"
proof (induction "drop_bit i v" arbitrary: i rule: varint.induct)
  case 1
  let ?x = "drop_bit i v"
  show ?case
  proof (cases "?x \<le> 0x7F")
    case True
    have "\<not> bit (ucast ?x :: u8) 7" using small_group_bit7 [OF True] by (simp add: and_80_eq_0)
    then show ?thesis using True 1(3) take_bit_all [OF True] by (simp add: varint.simps [of ?x] varint64_round)
  next
    case False
    obtain k where "k \<ge> 7" "bit v (i + k)" using high_bit [OF False] by (auto simp: bit_drop_bit_eq)
    then have "i + 7 < 64" using bit_imp_le_length [of v "i + k"] by simp
    then have i: "i + 7 \<le> 63" "7 dvd i + 7" using 1(2) by auto
    have d: "drop_bit 7 ?x = drop_bit (i + 7) v" by (simp add: drop_bit_drop_bit add.commute)
    have g: "(ucast (?x AND 0x7F) OR 0x80) AND 127 = (ucast ?x :: u8) AND 127" using varint_group [of ?x] by simp
    have "bit (ucast (?x AND 0x7F) OR 0x80 :: u8) 7" by (rule or_80_bit7)
    then show ?thesis using False 1(1) [OF False d i(2,1)] varint64_round [OF 1(3) g] d by (simp add: varint.simps [of ?x])
  qed
qed

lemma varint32_ok:
  "7 dvd i \<Longrightarrow> i \<le> 28 \<Longrightarrow> varint32_fallback i (take_bit i v) (varint (drop_bit i (ucast v)) @ rest) = Some (v, rest)"
proof (induction "drop_bit i (ucast v :: u64)" arbitrary: i rule: varint.induct)
  case 1
  let ?x = "drop_bit i (ucast v :: u64)"
  have u: "(ucast ?x :: u8) = ucast (drop_bit i v)" by (rule ucast_drop_bit_u32)
  show ?case
  proof (cases "?x \<le> 0x7F")
    case True
    have "\<not> bit (ucast ?x :: u8) 7" using small_group_bit7 [OF True] by (simp add: and_80_eq_0)
    then show ?thesis using True 1(3) take_bit_all32 [OF True] u by (simp add: varint.simps [of ?x] varint32_round)
  next
    case False
    obtain k where "k \<ge> 7" "bit v (i + k)" using high_bit [OF False] by (auto simp: bit_drop_bit_eq bit_unsigned_iff)
    then have "i + 7 < 32" using bit_imp_le_length [of v "i + k"] by simp
    then have i: "i + 7 \<le> 28" "7 dvd i + 7" using 1(2) by auto
    have d: "drop_bit 7 ?x = drop_bit (i + 7) (ucast v)" by (simp add: drop_bit_drop_bit add.commute)
    have g: "(ucast (?x AND 0x7F) OR 0x80) AND 127 = (ucast (drop_bit i v) :: u8) AND 127" using varint_group [of ?x] u by simp
    have "bit (ucast (?x AND 0x7F) OR 0x80 :: u8) 7" by (rule or_80_bit7)
    then show ?thesis using False 1(1) [OF False d i(2,1)] varint32_round [OF 1(3) g] d by (simp add: varint.simps [of ?x])
  qed
qed

lemma get_varint64 [simp]: "GetVarint64 (EncodeVarint64 v @ rest) = Some (v, rest)"
  using varint64_ok [of 0 v rest] by (simp add: GetVarint64_def GetVarint64Ptr_def encode_varint64)

lemma get_varint32 [simp]: "GetVarint32 (EncodeVarint32 v @ rest) = Some (v, rest)"
proof -
  have f: "GetVarint32PtrFallback (EncodeVarint32 v @ rest) = Some (v, rest)"
    using varint32_ok [of 0 v rest] by (simp add: GetVarint32PtrFallback_def encode_varint32)
  obtain b p where bp: "EncodeVarint32 v @ rest = b # p" using varint_not_Nil [of "ucast v"] by (cases "EncodeVarint32 v @ rest") (auto simp: encode_varint32)
  show ?thesis
  proof (cases "bit b 7")
    case True
    then show ?thesis using f bp by (simp add: GetVarint32_def GetVarint32Ptr_def and_128 byte_flag)
  next
    case False
    then have "GetVarint32PtrFallback (b # p) = Some (ucast b, p)"
      by (simp add: GetVarint32PtrFallback_def varint32_fallback.simps [of 0] and_128 byte_flag Let_def)
    then show ?thesis using False f bp by (simp add: GetVarint32_def GetVarint32Ptr_def and_128 byte_flag)
  qed
qed

lemma get_length_prefixed [simp]:
  assumes "length value < 2 ^ 32"
  shows "GetLengthPrefixedSlice (PutLengthPrefixedSlice [] value @ rest) = (Some value, rest)"
  using assms by (simp add: GetLengthPrefixedSlice_def PutLengthPrefixedSlice_def PutVarint32_def unat_of_nat_lt)

lemma put_length_prefixed: "PutLengthPrefixedSlice dst value = dst @ PutLengthPrefixedSlice [] value"
  by (simp add: PutLengthPrefixedSlice_def PutVarint32_def)

end
