(* ===== verification/Ldb_Skiplist.thy ===== *)
theory Ldb_Skiplist
  imports Ldb_Coding "HOL-Library.Monad_Syntax"
begin

text \<open>
  The skip list of \<^verbatim>\<open>db/skiplist.h\<close>, and the random numbers of \<^verbatim>\<open>util/random.h\<close>. A pointer to a node is a natural number (\<^const>\<open>None\<close> for a null
  pointer), the memory of the nodes a partial map. A function returns \<^const>\<open>None\<close> where the code fails an assertion, follows a null or wild pointer, reads
  beyond the links of a node, or does not end.
\<close>

subsection \<open>Random numbers\<close>

definition new_Random :: "u32 \<Rightarrow> u32" where
  "new_Random s = (let seed = s AND 0x7fffffff in if seed = 0 \<or> seed = 2147483647 then 1 else seed)"

text \<open>The result of \<^verbatim>\<open>Next\<close> is the new seed.\<close>

definition Random_Next :: "u32 \<Rightarrow> u32" where
  "Random_Next seed =
     (let M = 2147483647;
          product = (ucast seed :: u64) * 16807;
          seed' = ucast (drop_bit 31 product + (product AND ucast (M :: u32))) :: u32
      in if seed' > M then seed' - M else seed')"

subsection \<open>Data\<close>

definition kMaxHeight :: nat where "kMaxHeight = 12"
definition kBranching :: u32 where "kBranching = 4"

record 'k skip_node =
  node_key :: 'k
  next_links :: "nat option list"

record 'k skip_list =
  nodes :: "nat \<rightharpoonup> 'k skip_node"
  node_end :: nat
  head_node :: nat
  max_height :: nat
  rnd :: u32

type_synonym 'k compare = "'k \<Rightarrow> 'k \<Rightarrow> int option"

definition Node_key :: "nat \<Rightarrow> 'k skip_list \<Rightarrow> 'k option" where
  "Node_key x l = map_option node_key (nodes l x)"

definition Node_Next :: "nat \<Rightarrow> nat \<Rightarrow> 'k skip_list \<Rightarrow> nat option option" where
  "Node_Next x n l =
     do { nd \<leftarrow> nodes l x; if n < length (next_links nd) then Some (next_links nd ! n) else None }"

definition Node_SetNext :: "nat \<Rightarrow> nat \<Rightarrow> nat option \<Rightarrow> 'k skip_list \<Rightarrow> 'k skip_list option" where
  "Node_SetNext x n y l =
     do {
       nd \<leftarrow> nodes l x;
       if n < length (next_links nd) then Some (l\<lparr>nodes := (nodes l)(x \<mapsto> nd\<lparr>next_links := (next_links nd)[n := y]\<rparr>)\<rparr>) else None
     }"

text \<open>The links of a new node are not initialised; here they are null until they are set.\<close>

definition NewNode :: "'k \<Rightarrow> nat \<Rightarrow> 'k skip_list \<Rightarrow> nat \<times> 'k skip_list" where
  "NewNode key height l =
     (let x = node_end l
      in (x, l\<lparr>nodes := (nodes l)(x \<mapsto> \<lparr>node_key = key, next_links = replicate height None\<rparr>), node_end := Suc x\<rparr>))"

text \<open>The key of the head node is of no importance.\<close>

definition new_SkipList :: "'k \<Rightarrow> 'k skip_list" where
  "new_SkipList any_key =
     (let (h, l) = NewNode any_key kMaxHeight \<lparr>nodes = Map.empty, node_end = 0, head_node = 0, max_height = 1, rnd = new_Random 0xdeadbeef\<rparr>
      in l\<lparr>head_node := h\<rparr>)"

function random_height :: "nat \<Rightarrow> u32 \<Rightarrow> nat \<times> u32" where
  "random_height height seed =
     (if height < kMaxHeight then
        let seed' = Random_Next seed in
        if seed' mod kBranching = 0 then random_height (Suc height) seed' else (height, seed')
      else (height, seed))"
  by pat_completeness auto
termination by (relation "measure (\<lambda>(h, s). kMaxHeight - h)") auto

declare random_height.simps [simp del]

definition RandomHeight :: "'k skip_list \<Rightarrow> nat \<times> 'k skip_list" where
  "RandomHeight l = (let (height, seed) = random_height 1 (rnd l) in (height, l\<lparr>rnd := seed\<rparr>))"

subsection \<open>Searching\<close>

definition Equal_key :: "'k compare \<Rightarrow> 'k \<Rightarrow> 'k \<Rightarrow> bool option" where
  "Equal_key cmp a b = map_option (\<lambda>r. r = 0) (cmp a b)"

definition KeyIsAfterNode :: "'k compare \<Rightarrow> 'k \<Rightarrow> nat option \<Rightarrow> 'k skip_list \<Rightarrow> bool option" where
  "KeyIsAfterNode cmp key n l =
     (case n of None \<Rightarrow> Some False | Some x \<Rightarrow> do { k \<leftarrow> Node_key x l; r \<leftarrow> cmp k key; Some (r < 0) })"

text \<open>\<open>prev\<close> is null, or an array of pointers of which some have been set.\<close>

partial_function (option) find_ge ::
  "'k compare \<Rightarrow> 'k skip_list \<Rightarrow> 'k \<Rightarrow> (nat \<rightharpoonup> nat) option \<Rightarrow> nat \<Rightarrow> nat \<Rightarrow> (nat option \<times> (nat \<rightharpoonup> nat) option) option" where
  "find_ge cmp l key prev x level =
     Option.bind (Node_Next x level l) (\<lambda>nxt.
     Option.bind (KeyIsAfterNode cmp key nxt l) (\<lambda>after.
       if after then find_ge cmp l key prev (the nxt) level
       else
         let prev' = map_option (\<lambda>p. p(level \<mapsto> x)) prev in
         if level = 0 then Some (nxt, prev') else find_ge cmp l key prev' x (level - 1)))"

definition FindGreaterOrEqual ::
  "'k compare \<Rightarrow> 'k \<Rightarrow> (nat \<rightharpoonup> nat) option \<Rightarrow> 'k skip_list \<Rightarrow> (nat option \<times> (nat \<rightharpoonup> nat) option) option" where
  "FindGreaterOrEqual cmp key prev l = find_ge cmp l key prev (head_node l) (max_height l - 1)"

partial_function (option) find_lt :: "'k compare \<Rightarrow> 'k skip_list \<Rightarrow> 'k \<Rightarrow> nat \<Rightarrow> nat \<Rightarrow> nat option" where
  "find_lt cmp l key x level =
     Option.bind (if x = head_node l then Some True else KeyIsAfterNode cmp key (Some x) l) (\<lambda>ok.
     if \<not> ok then None
     else
       Option.bind (Node_Next x level l) (\<lambda>nxt.
       Option.bind (KeyIsAfterNode cmp key nxt l) (\<lambda>after.
         if \<not> after then if level = 0 then Some x else find_lt cmp l key x (level - 1)
         else find_lt cmp l key (the nxt) level)))"

definition FindLessThan :: "'k compare \<Rightarrow> 'k \<Rightarrow> 'k skip_list \<Rightarrow> nat option" where
  "FindLessThan cmp key l = find_lt cmp l key (head_node l) (max_height l - 1)"

partial_function (option) find_last :: "'k skip_list \<Rightarrow> nat \<Rightarrow> nat \<Rightarrow> nat option" where
  "find_last l x level =
     Option.bind (Node_Next x level l) (\<lambda>nxt.
       case nxt of
         None \<Rightarrow> if level = 0 then Some x else find_last l x (level - 1)
       | Some y \<Rightarrow> find_last l y level)"

definition FindLast :: "'k skip_list \<Rightarrow> nat option" where
  "FindLast l = find_last l (head_node l) (max_height l - 1)"

subsection \<open>Inserting\<close>

text \<open>The two stores that link the node \<open>x\<close> at a level.\<close>

definition link_own :: "nat \<Rightarrow> (nat \<rightharpoonup> nat) \<Rightarrow> nat \<Rightarrow> 'k skip_list \<Rightarrow> 'k skip_list option" where
  "link_own x prev i l = do { p \<leftarrow> prev i; n \<leftarrow> Node_Next p i l; Node_SetNext x i n l }"

definition link_prev :: "nat \<Rightarrow> (nat \<rightharpoonup> nat) \<Rightarrow> nat \<Rightarrow> 'k skip_list \<Rightarrow> 'k skip_list option" where
  "link_prev x prev i l = do { p \<leftarrow> prev i; Node_SetNext p i (Some x) l }"

text \<open>The rounds \<open>i\<close> of the loop at the end of \<^verbatim>\<open>Insert\<close> up to \<open>height\<close>; \<open>n\<close> is the number of rounds left.\<close>

fun link_levels :: "nat \<Rightarrow> (nat \<rightharpoonup> nat) \<Rightarrow> nat \<Rightarrow> nat \<Rightarrow> 'k skip_list \<Rightarrow> 'k skip_list option" where
  "link_levels x prev i 0 l = Some l"
| "link_levels x prev i (Suc n) l = do { l \<leftarrow> link_own x prev i l; l \<leftarrow> link_prev x prev i l; link_levels x prev (Suc i) n l }"

definition raise_height :: "nat \<Rightarrow> (nat \<rightharpoonup> nat) \<times> 'k skip_list \<Rightarrow> (nat \<rightharpoonup> nat) \<times> 'k skip_list" where
  "raise_height height = (\<lambda>(prev, l).
     if height > max_height l
     then (\<lambda>i. if max_height l \<le> i \<and> i < height then Some (head_node l) else prev i, l\<lparr>max_height := height\<rparr>)
     else (prev, l))"

text \<open>The part of \<^verbatim>\<open>Insert\<close> before the loop: the new node, which is not linked yet, the predecessors and the height.\<close>

definition insert_prepare :: "'k compare \<Rightarrow> 'k \<Rightarrow> 'k skip_list \<Rightarrow> (nat \<times> (nat \<rightharpoonup> nat) \<times> nat \<times> 'k skip_list) option" where
  "insert_prepare cmp key l =
     do {
       (x, prev) \<leftarrow> FindGreaterOrEqual cmp key (Some Map.empty) l;
       dup \<leftarrow> (case x of None \<Rightarrow> Some False | Some y \<Rightarrow> do { k \<leftarrow> Node_key y l; Equal_key cmp key k });
       if dup then None
       else
         let (height, l) = RandomHeight l;
             (prev, l) = raise_height height (the prev, l);
             (x, l) = NewNode key height l
         in Some (x, prev, height, l)
     }"

definition skip_Insert :: "'k compare \<Rightarrow> 'k \<Rightarrow> 'k skip_list \<Rightarrow> 'k skip_list option" where
  "skip_Insert cmp key l = do { (x, prev, height, l) \<leftarrow> insert_prepare cmp key l; link_levels x prev 0 height l }"

definition Contains :: "'k compare \<Rightarrow> 'k \<Rightarrow> 'k skip_list \<Rightarrow> bool option" where
  "Contains cmp key l =
     do {
       (x, _) \<leftarrow> FindGreaterOrEqual cmp key None l;
       case x of None \<Rightarrow> Some False | Some y \<Rightarrow> do { k \<leftarrow> Node_key y l; Equal_key cmp key k }
     }"

subsection \<open>Iterators\<close>

text \<open>An iterator is its pointer to a node.\<close>

definition iter_Valid :: "nat option \<Rightarrow> bool" where
  "iter_Valid it \<longleftrightarrow> it \<noteq> None"

definition iter_key :: "nat option \<Rightarrow> 'k skip_list \<Rightarrow> 'k option" where
  "iter_key it l = do { x \<leftarrow> it; Node_key x l }"

definition iter_Next :: "nat option \<Rightarrow> 'k skip_list \<Rightarrow> nat option option" where
  "iter_Next it l = do { x \<leftarrow> it; Node_Next x 0 l }"

definition iter_Prev :: "'k compare \<Rightarrow> nat option \<Rightarrow> 'k skip_list \<Rightarrow> nat option option" where
  "iter_Prev cmp it l = do { x \<leftarrow> it; k \<leftarrow> Node_key x l; y \<leftarrow> FindLessThan cmp k l; Some (if y = head_node l then None else Some y) }"

definition iter_Seek :: "'k compare \<Rightarrow> 'k \<Rightarrow> 'k skip_list \<Rightarrow> nat option option" where
  "iter_Seek cmp target l = map_option fst (FindGreaterOrEqual cmp target None l)"

definition iter_SeekToFirst :: "'k skip_list \<Rightarrow> nat option option" where
  "iter_SeekToFirst l = Node_Next (head_node l) 0 l"

definition iter_SeekToLast :: "'k skip_list \<Rightarrow> nat option option" where
  "iter_SeekToLast l = do { y \<leftarrow> FindLast l; Some (if y = head_node l then None else Some y) }"

end
