(* ===== verification/Ldb_Skip_Ok.thy ===== *)
theory Ldb_Skip_Ok
  imports Ldb_Skiplist
begin

text \<open>
  The skip list is a sorted sequence of keys, and searching and inserting do to it what their names say.
\<close>

subsection \<open>Invariant\<close>

definition before :: "'k compare \<Rightarrow> 'k \<Rightarrow> 'k \<Rightarrow> bool" where
  "before cmp k x \<longleftrightarrow> (case cmp x k of Some r \<Rightarrow> r < 0 | None \<Rightarrow> False)"

definition key_at :: "'k skip_list \<Rightarrow> nat \<Rightarrow> 'k" where
  "key_at l x = node_key (the (nodes l x))"

text \<open>The nodes \<open>xs\<close> follow the node \<open>h\<close>, by the links \<open>N\<close>.\<close>

fun skip_chain :: "(nat \<Rightarrow> nat option option) \<Rightarrow> nat \<Rightarrow> nat list \<Rightarrow> bool" where
  "skip_chain N h [] \<longleftrightarrow> N h = Some None"
| "skip_chain N h (x # xs) \<longleftrightarrow> N h = Some (Some x) \<and> skip_chain N x xs"

text \<open>\<open>Ls\<close> gives the nodes on each level.\<close>

definition skip_inv :: "'k compare \<Rightarrow> 'k set \<Rightarrow> 'k skip_list \<Rightarrow> (nat \<Rightarrow> nat list) \<Rightarrow> bool" where
  "skip_inv cmp K l Ls \<longleftrightarrow>
     1 \<le> max_height l \<and> max_height l \<le> kMaxHeight \<and>
     (\<forall>lev < kMaxHeight. skip_chain (\<lambda>x. Node_Next x lev l) (head_node l) (Ls lev)) \<and>
     (\<forall>lev < kMaxHeight. sorted_wrt (\<lambda>x y. before cmp (key_at l y) (key_at l x)) (Ls lev)) \<and>
     (\<forall>lev. Suc lev < kMaxHeight \<longrightarrow> set (Ls (Suc lev)) \<subseteq> set (Ls lev)) \<and>
     (\<forall>lev < kMaxHeight. max_height l \<le> lev \<longrightarrow> Ls lev = []) \<and>
     head_node l \<notin> set (Ls 0) \<and> (\<forall>x \<in> set (Ls 0). key_at l x \<in> K) \<and> (\<forall>x. nodes l x \<noteq> None \<longrightarrow> x < node_end l)"

text \<open>The list \<open>l\<close> holds the keys \<open>ks\<close>, in order.\<close>

definition skip_holds :: "'k compare \<Rightarrow> 'k set \<Rightarrow> 'k skip_list \<Rightarrow> 'k list \<Rightarrow> bool" where
  "skip_holds cmp K l ks \<longleftrightarrow> (\<exists>Ls. skip_inv cmp K l Ls \<and> ks = map (key_at l) (Ls 0))"

definition first_of :: "'a list \<Rightarrow> 'a option" where
  "first_of xs = (case xs of [] \<Rightarrow> None | x # _ \<Rightarrow> Some x)"

lemma first_of_simps [simp]: "first_of [] = None" "first_of (x # xs) = Some x" "map_option f (first_of xs) = first_of (map f xs)"
  by (simp_all add: first_of_def split: list.split)

lemma skip_chain_next: "skip_chain N h (ps @ qs) \<Longrightarrow> N (last (h # ps)) = Some (first_of qs)"
  by (induction ps arbitrary: h) (auto simp: first_of_def split: list.split)

lemma skip_chain_cong: "(\<And>x. x \<in> set (h # xs) \<Longrightarrow> N x = N' x) \<Longrightarrow> skip_chain N h xs \<longleftrightarrow> skip_chain N' h xs"
  by (induction xs arbitrary: h) auto

lemma skip_chain_insert:
  "skip_chain N h (ps @ qs) \<Longrightarrow> distinct (h # ps @ qs) \<Longrightarrow> x \<notin> set (h # ps @ qs) \<Longrightarrow>
   skip_chain (N(x := Some (first_of qs), last (h # ps) := Some (Some x))) h (ps @ x # qs)"
proof (induction ps arbitrary: h)
  case Nil
  let ?N = "N(x := Some (first_of qs), h := Some (Some x))"
  show ?case
  proof (cases qs)
    case (Cons q qs')
    have "skip_chain ?N q qs' \<longleftrightarrow> skip_chain N q qs'" by (rule skip_chain_cong) (use Nil Cons in auto)
    then show ?thesis using Nil Cons by (simp add: fun_upd_def)
  qed (use Nil in auto)
next
  case (Cons p ps)
  have "last (p # ps) \<in> set (p # ps)" by (rule last_in_set) simp
  then have "last (p # ps) \<noteq> h" using Cons.prems(2) by (metis append_Cons distinct.simps(2) UnI1 set_append)
  then show ?case using Cons by simp
qed

lemma skip_chain_defined: "skip_chain N h xs \<Longrightarrow> x \<in> set (h # xs) \<Longrightarrow> N x \<noteq> None"
  by (induction xs arbitrary: h) auto

lemma next_node: "Node_Next x n l \<noteq> None \<Longrightarrow> \<exists>nd. nodes l x = Some nd"
  by (auto simp: Node_Next_def split: Option.bind_splits)

lemma sorted_split:
  assumes "sorted_wrt R xs" and "\<And>a b. R a b \<Longrightarrow> a \<in> set xs \<Longrightarrow> b \<in> set xs \<Longrightarrow> P b \<Longrightarrow> P a"
  shows "x \<in> set xs \<Longrightarrow> P x \<longleftrightarrow> x \<in> set (takeWhile P xs)" "filter P xs = takeWhile P xs" "filter (\<lambda>x. \<not> P x) xs = dropWhile P xs"
proof -
  have *: "filter P xs = takeWhile P xs \<and> filter (\<lambda>x. \<not> P x) xs = dropWhile P xs" using assms
  proof (induction xs)
    case (Cons x xs)
    show ?case
    proof (cases "P x")
      case True
      then show ?thesis using Cons by (metis (no_types, lifting) dropWhile.simps(2) filter.simps(2) list.set_intros(2) sorted_wrt.simps(2) takeWhile.simps(2))
    next
      case False
      then have "\<forall>y \<in> set xs. \<not> P y" using Cons.prems by auto
      then show ?thesis using False by (simp add: filter_empty_conv)
    qed
  qed simp
  then show "filter P xs = takeWhile P xs" "filter (\<lambda>x. \<not> P x) xs = dropWhile P xs" by simp_all
  then show "x \<in> set xs \<Longrightarrow> P x \<longleftrightarrow> x \<in> set (takeWhile P xs)" by (metis (mono_tags, lifting) filter_is_subset mem_Collect_eq set_filter set_takeWhileD)
qed

subsection \<open>Order\<close>

text \<open>What the list needs of the comparator: on the keys \<open>K\<close> it is defined and a total order.\<close>

locale key_order =
  fixes cmp :: "'k compare" and K :: "'k set"
  assumes cmp_defined: "a \<in> K \<Longrightarrow> b \<in> K \<Longrightarrow> \<exists>r. cmp a b = Some r"
    and cmp_swap: "a \<in> K \<Longrightarrow> b \<in> K \<Longrightarrow> cmp a b = Some r \<Longrightarrow> cmp b a = Some s \<Longrightarrow> r < 0 \<longleftrightarrow> 0 < s"
    and cmp_trans: "a \<in> K \<Longrightarrow> b \<in> K \<Longrightarrow> c \<in> K \<Longrightarrow> cmp a b = Some r \<Longrightarrow> cmp b c = Some s \<Longrightarrow> cmp a c = Some t \<Longrightarrow> r \<le> 0 \<Longrightarrow> s \<le> 0 \<Longrightarrow> t \<le> 0"
begin

lemma before_iff: "a \<in> K \<Longrightarrow> b \<in> K \<Longrightarrow> before cmp b a \<longleftrightarrow> the (cmp a b) < 0"
  using cmp_defined [of a b] by (auto simp: before_def)

lemma before_irrefl: "a \<in> K \<Longrightarrow> \<not> before cmp a a"
  using cmp_defined [of a a] cmp_swap [of a a] by (auto simp: before_iff)

lemma not_before: "a \<in> K \<Longrightarrow> b \<in> K \<Longrightarrow> \<not> before cmp b a \<longleftrightarrow> the (cmp b a) \<le> 0"
  using cmp_defined [of a b] cmp_defined [of b a] cmp_swap [of a b] by (fastforce simp: before_iff)

lemma before_trans1: "a \<in> K \<Longrightarrow> b \<in> K \<Longrightarrow> c \<in> K \<Longrightarrow> before cmp b a \<Longrightarrow> \<not> before cmp b c \<Longrightarrow> before cmp c a"
  \<comment> \<open>\<open>a < b\<close> and \<open>b \<le> c\<close> give \<open>a < c\<close>\<close>
proof (rule ccontr)
  assume K: "a \<in> K" "b \<in> K" "c \<in> K" and ab: "before cmp b a" and bc: "\<not> before cmp b c" and ac: "\<not> before cmp c a"
  have "the (cmp b c) \<le> 0" "the (cmp c a) \<le> 0" using bc ac K by (simp_all add: not_before)
  then have "the (cmp b a) \<le> 0" using cmp_trans [of b c a] cmp_defined [of b c] cmp_defined [of c a] cmp_defined [of b a] K by fastforce
  then show False using ab K by (simp add: not_before [symmetric])
qed

lemma before_asym: "a \<in> K \<Longrightarrow> b \<in> K \<Longrightarrow> before cmp b a \<Longrightarrow> \<not> before cmp a b"
  using cmp_defined [of a b] cmp_defined [of b a] cmp_swap [of a b] by (fastforce simp: before_iff)

lemma before_trans: "a \<in> K \<Longrightarrow> b \<in> K \<Longrightarrow> c \<in> K \<Longrightarrow> before cmp b a \<Longrightarrow> before cmp c b \<Longrightarrow> before cmp c a"
  using before_trans1 [of a b c] before_asym [of b c] by blast

lemma equal_iff: "a \<in> K \<Longrightarrow> b \<in> K \<Longrightarrow> Equal_key cmp a b = Some (\<not> before cmp b a \<and> \<not> before cmp a b)"
  using cmp_defined [of a b] cmp_defined [of b a] cmp_swap [of a b] cmp_swap [of b a] by (fastforce simp: before_iff Equal_key_def)

text \<open>Facts of the invariant.\<close>

lemma levels_subset: "skip_inv cmp K l Ls \<Longrightarrow> lev < kMaxHeight \<Longrightarrow> set (Ls lev) \<subseteq> set (Ls 0)"
proof (induction lev)
  case (Suc lev)
  then have "set (Ls (Suc lev)) \<subseteq> set (Ls lev)" unfolding skip_inv_def by blast
  then show ?case using Suc by auto
qed simp

lemma level_keys: "skip_inv cmp K l Ls \<Longrightarrow> lev < kMaxHeight \<Longrightarrow> x \<in> set (Ls lev) \<Longrightarrow> key_at l x \<in> K"
  using levels_subset [of l Ls lev] by (auto simp: skip_inv_def)

lemma level_distinct:
  assumes "skip_inv cmp K l Ls" and "lev < kMaxHeight"
  shows "distinct (head_node l # Ls lev)"
proof -
  have "sorted_wrt (\<lambda>x y. before cmp (key_at l y) (key_at l x)) (Ls lev)" using assms by (simp add: skip_inv_def)
  then have "sorted_wrt (\<noteq>) (Ls lev)"
    by (rule sorted_wrt_mono_rel [rotated]) (use level_keys [OF assms] before_irrefl in metis)
  then have "distinct (Ls lev)" by (simp add: distinct_conv_nth sorted_wrt_iff_nth_less) (metis linorder_neqE_nat)
  then show ?thesis using levels_subset [OF assms] assms(1) by (auto simp: skip_inv_def)
qed

lemma level_split:
  assumes "skip_inv cmp K l Ls" and "lev < kMaxHeight" and "k \<in> K"
  defines "P \<equiv> \<lambda>x. before cmp k (key_at l x)"
  shows "x \<in> set (Ls lev) \<Longrightarrow> P x \<longleftrightarrow> x \<in> set (takeWhile P (Ls lev))" "filter P (Ls lev) = takeWhile P (Ls lev)"
    "filter (\<lambda>x. \<not> P x) (Ls lev) = dropWhile P (Ls lev)"
proof -
  have s: "sorted_wrt (\<lambda>x y. before cmp (key_at l y) (key_at l x)) (Ls lev)" using assms by (simp add: skip_inv_def)
  have "P a" if "before cmp (key_at l b) (key_at l a)" "a \<in> set (Ls lev)" "b \<in> set (Ls lev)" "P b" for a b
    using that before_trans [of "key_at l a" "key_at l b" k] level_keys [OF assms(1,2)] assms(3) by (simp add: P_def)
  note S = sorted_split [OF s this]
  show "x \<in> set (Ls lev) \<Longrightarrow> P x \<longleftrightarrow> x \<in> set (takeWhile P (Ls lev))" by (rule S(1)) auto
  show "filter P (Ls lev) = takeWhile P (Ls lev)" by (rule S(2)) auto
  show "filter (\<lambda>x. \<not> P x) (Ls lev) = dropWhile P (Ls lev)" by (rule S(3)) auto
qed

lemma level_node:
  assumes "skip_inv cmp K l Ls" and "lev < kMaxHeight" and "x \<in> set (head_node l # Ls lev)"
  shows "\<exists>nd. nodes l x = Some nd" "Node_key x l = Some (key_at l x)"
proof -
  have "skip_chain (\<lambda>x. Node_Next x lev l) (head_node l) (Ls lev)" using assms by (simp add: skip_inv_def)
  from skip_chain_defined [OF this assms(3)] show "\<exists>nd. nodes l x = Some nd" by (rule next_node)
  then show "Node_key x l = Some (key_at l x)" by (auto simp: Node_key_def key_at_def)
qed

lemma after_iff:
  assumes "skip_inv cmp K l Ls" and "lev < kMaxHeight" and "k \<in> K" and "\<And>x. n = Some x \<Longrightarrow> x \<in> set (Ls lev)"
  shows "KeyIsAfterNode cmp k n l = Some (case n of None \<Rightarrow> False | Some x \<Rightarrow> before cmp k (key_at l x))"
proof (cases n)
  case (Some x)
  then have x: "x \<in> set (Ls lev)" using assms(4) by simp
  then obtain r where "cmp (key_at l x) k = Some r" using cmp_defined level_keys [OF assms(1,2)] assms(3) by blast
  then show ?thesis using Some x level_node(2) [OF assms(1,2), of x] by (simp add: KeyIsAfterNode_def before_def)
qed (simp add: KeyIsAfterNode_def)

end

text \<open>The place before and the place of a key, on a level.\<close>

definition pred_at :: "'k compare \<Rightarrow> 'k \<Rightarrow> 'k skip_list \<Rightarrow> nat list \<Rightarrow> nat" where
  "pred_at cmp k l xs = last (head_node l # takeWhile (\<lambda>x. before cmp k (key_at l x)) xs)"

definition succ_at :: "'k compare \<Rightarrow> 'k \<Rightarrow> 'k skip_list \<Rightarrow> nat list \<Rightarrow> nat option" where
  "succ_at cmp k l xs = first_of (dropWhile (\<lambda>x. before cmp k (key_at l x)) xs)"

text \<open>The nodes from which the search for a key can go on, at a level.\<close>

definition place :: "'k compare \<Rightarrow> 'k \<Rightarrow> 'k skip_list \<Rightarrow> nat list \<Rightarrow> nat \<Rightarrow> bool" where
  "place cmp k l xs x \<longleftrightarrow> x = head_node l \<or> x \<in> set xs \<and> before cmp k (key_at l x)"

context key_order
begin

lemma place_split:
  assumes "skip_inv cmp K l Ls" and "lev < kMaxHeight" and "k \<in> K" and "place cmp k l (Ls lev) x"
  shows "\<exists>ps qs. takeWhile (\<lambda>x. before cmp k (key_at l x)) (Ls lev) = ps @ qs \<and> x = last (head_node l # ps)"
proof (cases "x = head_node l")
  case True
  then show ?thesis by (intro exI [of _ "[]"] exI [of _ "takeWhile (\<lambda>x. before cmp k (key_at l x)) (Ls lev)"]) simp
next
  case False
  then have "x \<in> set (takeWhile (\<lambda>x. before cmp k (key_at l x)) (Ls lev))"
    using assms(4) level_split(1) [OF assms(1-3)] by (auto simp: place_def)
  then obtain ps qs where "takeWhile (\<lambda>x. before cmp k (key_at l x)) (Ls lev) = (ps @ [x]) @ qs" by (auto dest: split_list)
  then show ?thesis by (metis last.simps last_snoc snoc_eq_iff_butlast)
qed

text \<open>A round of the search: from a place to the next place on the level, or, at the end, the successor.\<close>

lemma place_next:
  assumes inv: "skip_inv cmp K l Ls" and lev: "lev < kMaxHeight" and k: "k \<in> K" and x: "place cmp k l (Ls lev) x"
  shows "\<exists>n. Node_Next x lev l = Some n \<and> (\<forall>y. n = Some y \<longrightarrow> y \<in> set (Ls lev)) \<and>
    (case n of None \<Rightarrow> x = pred_at cmp k l (Ls lev) \<and> succ_at cmp k l (Ls lev) = None
     | Some y \<Rightarrow> if before cmp k (key_at l y) then place cmp k l (Ls lev) y
                 else x = pred_at cmp k l (Ls lev) \<and> succ_at cmp k l (Ls lev) = Some y)"
proof -
  let ?P = "\<lambda>x. before cmp k (key_at l x)"
  obtain ps qs where pq: "takeWhile ?P (Ls lev) = ps @ qs" "x = last (head_node l # ps)" using place_split [OF assms] by blast
  have all: "Ls lev = ps @ (qs @ dropWhile ?P (Ls lev))" using pq(1) takeWhile_dropWhile_id [of ?P "Ls lev"] by simp
  have ch: "skip_chain (\<lambda>x. Node_Next x lev l) (head_node l) (Ls lev)" using inv lev by (simp add: skip_inv_def)
  then have n: "Node_Next x lev l = Some (first_of (qs @ dropWhile ?P (Ls lev)))"
    using skip_chain_next [of "\<lambda>x. Node_Next x lev l" "head_node l" ps "qs @ dropWhile ?P (Ls lev)"] all pq(2) by simp
  show ?thesis
  proof (cases qs)
    case Nil
    then have "x = pred_at cmp k l (Ls lev)" using pq by (simp add: pred_at_def)
    moreover have "\<not> ?P y \<and> y \<in> set (Ls lev)" if "dropWhile ?P (Ls lev) = y # ys" for y ys
      using that hd_dropWhile [of ?P "Ls lev"] set_dropWhileD [of y ?P "Ls lev"] by simp
    ultimately show ?thesis using n Nil by (cases "dropWhile ?P (Ls lev)") (auto simp: succ_at_def simp del: dropWhile_eq_Nil_conv)
  next
    case (Cons q qs')
    then have "q \<in> set (takeWhile ?P (Ls lev))" using pq(1) by simp
    then have "?P q" "q \<in> set (Ls lev)" by (auto dest: set_takeWhileD)
    then show ?thesis using n Cons by (simp add: place_def)
  qed
qed

lemma place_pred:
  assumes "skip_inv cmp K l Ls" and "lev < kMaxHeight" and "k \<in> K"
  shows "place cmp k l (Ls lev) (pred_at cmp k l (Ls lev))"
proof (cases "takeWhile (\<lambda>x. before cmp k (key_at l x)) (Ls lev) = []")
  case False
  then have "last (takeWhile (\<lambda>x. before cmp k (key_at l x)) (Ls lev)) \<in> set (takeWhile (\<lambda>x. before cmp k (key_at l x)) (Ls lev))" by simp
  then show ?thesis using False by (auto simp: place_def pred_at_def simp del: last_in_set takeWhile_eq_Nil_iff dest: set_takeWhileD)
qed (simp add: place_def pred_at_def)

lemma place_down:
  assumes "skip_inv cmp K l Ls" and "Suc lev < kMaxHeight" and "place cmp k l (Ls (Suc lev)) x"
  shows "place cmp k l (Ls lev) x"
proof -
  have "set (Ls (Suc lev)) \<subseteq> set (Ls lev)" using assms(1,2) unfolding skip_inv_def by blast
  then show ?thesis using assms(3) by (auto simp: place_def)
qed

lemma pred_next:
  assumes "skip_inv cmp K l Ls" and "lev < kMaxHeight" and "k \<in> K"
  shows "Node_Next (pred_at cmp k l (Ls lev)) lev l = Some (succ_at cmp k l (Ls lev))"
    "KeyIsAfterNode cmp k (succ_at cmp k l (Ls lev)) l = Some False"
proof -
  let ?P = "\<lambda>x. before cmp k (key_at l x)"
  have ch: "skip_chain (\<lambda>x. Node_Next x lev l) (head_node l) (takeWhile ?P (Ls lev) @ dropWhile ?P (Ls lev))" using assms by (simp add: skip_inv_def)
  show "Node_Next (pred_at cmp k l (Ls lev)) lev l = Some (succ_at cmp k l (Ls lev))" using skip_chain_next [OF ch] by (simp add: pred_at_def succ_at_def)
  have s: "y \<in> set (Ls lev) \<and> \<not> ?P y" if "succ_at cmp k l (Ls lev) = Some y" for y
  proof (cases "dropWhile ?P (Ls lev)")
    case (Cons z zs)
    then have "y = z" using that by (simp add: succ_at_def)
    then show ?thesis using Cons hd_dropWhile [of ?P "Ls lev"] set_dropWhileD [of y ?P "Ls lev"] by simp
  qed (use that in \<open>simp add: succ_at_def del: dropWhile_eq_Nil_conv\<close>)
  then show "KeyIsAfterNode cmp k (succ_at cmp k l (Ls lev)) l = Some False"
    using after_iff [OF assms, of "succ_at cmp k l (Ls lev)"] by (auto split: option.splits)
qed

text \<open>Induction along a search.\<close>

lemma search_induct:
  assumes inv: "skip_inv cmp K l Ls" and k: "k \<in> K" and lev: "lev < kMaxHeight" and x: "place cmp k l (Ls lev) x"
    and on: "\<And>x lev y. lev < kMaxHeight \<Longrightarrow> place cmp k l (Ls lev) x \<Longrightarrow> Node_Next x lev l = Some (Some y) \<Longrightarrow>
      KeyIsAfterNode cmp k (Some y) l = Some True \<Longrightarrow> Q y lev \<Longrightarrow> Q x lev"
    and down: "\<And>x lev n. Suc lev < kMaxHeight \<Longrightarrow> place cmp k l (Ls (Suc lev)) x \<Longrightarrow> Node_Next x (Suc lev) l = Some n \<Longrightarrow>
      KeyIsAfterNode cmp k n l = Some False \<Longrightarrow> x = pred_at cmp k l (Ls (Suc lev)) \<Longrightarrow> Q x lev \<Longrightarrow> Q x (Suc lev)"
    and found: "\<And>x. place cmp k l (Ls 0) x \<Longrightarrow> Node_Next x 0 l = Some (succ_at cmp k l (Ls 0)) \<Longrightarrow>
      KeyIsAfterNode cmp k (succ_at cmp k l (Ls 0)) l = Some False \<Longrightarrow> x = pred_at cmp k l (Ls 0) \<Longrightarrow> Q x 0"
  shows "Q x lev"
proof -
  define P where "P = (\<lambda>x. before cmp k (key_at l x))"
  have level: "Q x lev" if lev: "lev < kMaxHeight" and x: "place cmp k l (Ls lev) x"
    and last: "Q (pred_at cmp k l (Ls lev)) lev" for x lev
  proof -
    obtain ps qs where pq: "takeWhile P (Ls lev) = ps @ qs" "x = last (head_node l # ps)"
      using place_split [OF inv lev k x] unfolding P_def by blast
    then show ?thesis
    proof (induction qs arbitrary: ps x)
      case Nil
      then show ?case using last by (simp add: pred_at_def P_def)
    next
      case (Cons q qs)
      have pl: "place cmp k l (Ls lev) x"
      proof (cases ps rule: rev_cases)
        case (snoc ps' p)
        then have "x \<in> set (takeWhile P (Ls lev))" using Cons.prems by simp
        then show ?thesis by (auto simp: place_def P_def dest: set_takeWhileD)
      qed (use Cons.prems in \<open>simp add: place_def\<close>)
      have all: "Ls lev = ps @ (q # qs @ dropWhile P (Ls lev))" using Cons.prems(1) takeWhile_dropWhile_id [of P "Ls lev"] by simp
      have ch: "skip_chain (\<lambda>x. Node_Next x lev l) (head_node l) (Ls lev)" using inv lev by (simp add: skip_inv_def)
      then have n: "Node_Next x lev l = Some (Some q)"
        using skip_chain_next [of "\<lambda>x. Node_Next x lev l" "head_node l" ps "q # qs @ dropWhile P (Ls lev)"] all Cons.prems(2) by simp
      have "q \<in> set (takeWhile P (Ls lev))" using Cons.prems(1) by simp
      then have q: "P q" "q \<in> set (Ls lev)" by (auto dest: set_takeWhileD)
      then have "KeyIsAfterNode cmp k (Some q) l = Some True" using after_iff [OF inv lev k, of "Some q"] by (simp add: P_def)
      then show ?case using on [OF lev pl n] Cons.IH [of "ps @ [q]" q] Cons.prems(1) by simp
    qed
  qed
  show ?thesis using lev x
  proof (induction lev arbitrary: x)
    case 0
    show ?case by (rule level [OF 0], rule found) (use pred_next [OF inv 0(1) k] place_pred [OF inv 0(1) k] in simp_all)
  next
    case (Suc lev)
    let ?p = "pred_at cmp k l (Ls (Suc lev))"
    have pl: "place cmp k l (Ls (Suc lev)) ?p" using place_pred [OF inv Suc.prems(1) k] .
    have "Q ?p lev" using Suc.IH [of ?p] Suc.prems(1) place_down [OF inv Suc.prems(1) pl] by simp
    then have "Q ?p (Suc lev)" using down [OF Suc.prems(1) pl] pred_next [OF inv Suc.prems(1) k] by simp
    then show ?case by (rule level [OF Suc.prems])
  qed
qed

lemma find_ge_ok:
  assumes "skip_inv cmp K l Ls" and "k \<in> K" and "lev < kMaxHeight" and "place cmp k l (Ls lev) x"
  shows "find_ge cmp l k prev x lev =
    Some (succ_at cmp k l (Ls 0), map_option (\<lambda>p i. if i \<le> lev then Some (pred_at cmp k l (Ls i)) else p i) prev)"
proof -
  have "\<forall>prev. find_ge cmp l k prev x lev =
      Some (succ_at cmp k l (Ls 0), map_option (\<lambda>p i. if i \<le> lev then Some (pred_at cmp k l (Ls i)) else p i) prev)"
    using assms
  proof (rule search_induct [of l Ls k lev x], goal_cases)
    case (1 x lev y)
    then show ?case by (subst find_ge.simps) simp
  next
    case (2 x lev n)
    have f: "(\<lambda>i. if i \<le> lev then Some (pred_at cmp k l (Ls i)) else (p(Suc lev \<mapsto> pred_at cmp k l (Ls (Suc lev)))) i) =
        (\<lambda>i. if i \<le> Suc lev then Some (pred_at cmp k l (Ls i)) else p i)" for p :: "nat \<rightharpoonup> nat"
      by (auto simp: le_Suc_eq)
    show ?case unfolding 2(5) using 2(3,4,6) unfolding 2(5) by (subst find_ge.simps) (simp add: Let_def option.map_comp o_def f)
  next
    case (3 x)
    have f: "p(0 \<mapsto> pred_at cmp k l (Ls 0)) = (\<lambda>i. if i = 0 then Some (pred_at cmp k l (Ls i)) else p i)" for p :: "nat \<rightharpoonup> nat"
      by auto
    show ?case unfolding 3(4) using 3(2,3) unfolding 3(4) by (subst find_ge.simps) (simp add: Let_def f)
  qed
  then show ?thesis by blast
qed

lemma find_lt_ok:
  assumes "skip_inv cmp K l Ls" and "k \<in> K" and "lev < kMaxHeight" and "place cmp k l (Ls lev) x"
  shows "find_lt cmp l k x lev = Some (pred_at cmp k l (Ls 0))"
  using assms
proof (rule search_induct [of l Ls k lev x], goal_cases)
  have ok: "(if x = head_node l then Some True else KeyIsAfterNode cmp k (Some x) l) = Some True"
    if "lev < kMaxHeight" "place cmp k l (Ls lev) x" for x lev
    using that after_iff [OF assms(1) that(1) assms(2), of "Some x"] by (auto simp: place_def)
  {
    case (1 x lev y)
    then show ?case using ok [OF 1(1,2)] by (subst find_lt.simps) simp
  next
    case (2 x lev n)
    then show ?case using ok [OF 2(1,2)] by (subst find_lt.simps) simp
  next
    case (3 x)
    then show ?case using ok [OF _ 3(1)] by (subst find_lt.simps) (simp add: kMaxHeight_def)
  }
qed

lemma find_last_level:
  assumes "skip_inv cmp K l Ls" and "lev < kMaxHeight" and "x \<in> set (head_node l # Ls lev)"
  shows "find_last l x lev = find_last l (last (head_node l # Ls lev)) lev"
proof -
  have ch: "skip_chain (\<lambda>x. Node_Next x lev l) (head_node l) (Ls lev)" using assms by (simp add: skip_inv_def)
  have *: "find_last l (last (head_node l # ps)) lev = find_last l (last (head_node l # Ls lev)) lev" if "Ls lev = ps @ qs" for ps qs
    using that
  proof (induction qs arbitrary: ps)
    case (Cons q qs)
    have "Node_Next (last (head_node l # ps)) lev l = Some (Some q)"
      using skip_chain_next [of "\<lambda>x. Node_Next x lev l" "head_node l" ps "q # qs"] ch Cons.prems by simp
    then have "find_last l (last (head_node l # ps)) lev = find_last l q lev" by (subst find_last.simps) simp
    then show ?case using Cons.IH [of "ps @ [q]"] Cons.prems by simp
  qed simp
  have "\<exists>ps qs. Ls lev = ps @ qs \<and> x = last (head_node l # ps)"
  proof (cases "x = head_node l")
    case False
    then obtain ps qs where "Ls lev = ps @ x # qs" using assms(3) by (auto dest: split_list)
    then have "Ls lev = (ps @ [x]) @ qs \<and> x = last (head_node l # ps @ [x])" by simp
    then show ?thesis by blast
  qed auto
  then show ?thesis using * by blast
qed

lemma find_last_ok:
  assumes inv: "skip_inv cmp K l Ls"
  shows "lev < kMaxHeight \<Longrightarrow> x \<in> set (head_node l # Ls lev) \<Longrightarrow> find_last l x lev = Some (last (head_node l # Ls 0))"
proof (induction lev arbitrary: x)
  have end1: "Node_Next (last (head_node l # Ls lev)) lev l = Some None" if "lev < kMaxHeight" for lev
    using skip_chain_next [of "\<lambda>x. Node_Next x lev l" "head_node l" "Ls lev" "[]"] inv that by (simp add: skip_inv_def)
  {
    case 0
    then show ?case using find_last_level [OF inv 0] end1 [OF 0(1)] by (simp add: find_last.simps [of l "last (head_node l # Ls 0)"] del: last.simps)
  next
    case (Suc lev)
    let ?x = "last (head_node l # Ls (Suc lev))"
    have "set (Ls (Suc lev)) \<subseteq> set (Ls lev)" using inv Suc.prems(1) unfolding skip_inv_def by blast
    moreover have "?x \<in> set (head_node l # Ls (Suc lev))" by (rule last_in_set) simp
    ultimately have "find_last l ?x lev = Some (last (head_node l # Ls 0))" using Suc by (intro Suc.IH) auto
    then show ?case
      using find_last_level [OF inv Suc.prems] end1 [OF Suc.prems(1)] by (simp add: find_last.simps [of l ?x "Suc lev"] del: last.simps)
  }
qed

end

subsection \<open>Stores\<close>

lemma set_next:
  assumes "Node_Next x n l \<noteq> None"
  shows "\<exists>l'. Node_SetNext x n y l = Some l' \<and> (\<forall>a m. Node_Next a m l' = (if a = x \<and> m = n then Some y else Node_Next a m l)) \<and>
    (\<forall>a. key_at l' a = key_at l a) \<and> (\<forall>a. nodes l' a = None \<longleftrightarrow> nodes l a = None) \<and>
    head_node l' = head_node l \<and> max_height l' = max_height l \<and> node_end l' = node_end l"
proof -
  obtain nd where nd: "nodes l x = Some nd" "n < length (next_links nd)"
    using assms by (auto simp: Node_Next_def split: Option.bind_splits if_splits)
  then show ?thesis by (auto simp: Node_SetNext_def Node_Next_def key_at_def split: Option.bind_splits)
qed

text \<open>The new node \<open>x\<close> is linked at the levels below \<open>i\<close>, and \<open>prev\<close> holds the places for the others, up to \<open>height\<close>.\<close>

definition linking :: "'k compare \<Rightarrow> 'k set \<Rightarrow> 'k skip_list \<Rightarrow> (nat \<Rightarrow> nat list) \<Rightarrow> nat \<Rightarrow> (nat \<rightharpoonup> nat) \<Rightarrow> nat \<Rightarrow> nat \<Rightarrow> bool" where
  "linking cmp K l Ls x prev i height \<longleftrightarrow>
     skip_inv cmp K l Ls \<and> i \<le> height \<and> height \<le> max_height l \<and> x \<noteq> head_node l \<and> key_at l x \<in> K \<and>
     (\<forall>lev < height. Node_Next x lev l \<noteq> None) \<and>
     (\<forall>lev < kMaxHeight. x \<in> set (Ls lev) \<longleftrightarrow> lev < i) \<and>
     (\<forall>lev. i \<le> lev \<and> lev < height \<longrightarrow> prev lev = Some (pred_at cmp (key_at l x) l (Ls lev))) \<and>
     (\<forall>y \<in> set (Ls 0). y \<noteq> x \<longrightarrow> before cmp (key_at l x) (key_at l y) \<or> before cmp (key_at l y) (key_at l x))"

definition place_node :: "'k compare \<Rightarrow> 'k skip_list \<Rightarrow> nat \<Rightarrow> nat list \<Rightarrow> nat list" where
  "place_node cmp l x xs =
     takeWhile (\<lambda>y. before cmp (key_at l x) (key_at l y)) xs @ x # dropWhile (\<lambda>y. before cmp (key_at l x) (key_at l y)) xs"

lemma set_place_node [simp]: "set (place_node cmp l x xs) = insert x (set xs)"
proof -
  let ?P = "\<lambda>y. before cmp (key_at l x) (key_at l y)"
  have "set (takeWhile ?P xs) \<union> set (dropWhile ?P xs) = set xs" by (metis set_append takeWhile_dropWhile_id)
  then show ?thesis by (auto simp: place_node_def)
qed

context key_order
begin

lemma link_own_ok:
  assumes "linking cmp K l Ls x prev i height" and "i < height"
  shows "\<exists>l'. link_own x prev i l = Some l' \<and> linking cmp K l' Ls x prev i height \<and>
    Node_Next x i l' = Some (succ_at cmp (key_at l' x) l' (Ls i)) \<and> key_at l' = key_at l \<and> head_node l' = head_node l"
proof -
  have inv: "skip_inv cmp K l Ls" and i: "i < kMaxHeight" and kx: "key_at l x \<in> K"
    and x: "x \<notin> set (Ls i)" "x \<noteq> head_node l" and n: "Node_Next x i l \<noteq> None" and p: "prev i = Some (pred_at cmp (key_at l x) l (Ls i))"
    using assms by (auto simp: linking_def skip_inv_def)
  obtain l' where l': "Node_SetNext x i (succ_at cmp (key_at l x) l (Ls i)) l = Some l'"
      "\<And>a m. Node_Next a m l' = (if a = x \<and> m = i then Some (succ_at cmp (key_at l x) l (Ls i)) else Node_Next a m l)"
      "\<And>a. key_at l' a = key_at l a" "\<And>a. nodes l' a = None \<longleftrightarrow> nodes l a = None"
      "head_node l' = head_node l" "max_height l' = max_height l" "node_end l' = node_end l"
    using set_next [OF n] by blast
  have key: "key_at l' = key_at l" using l'(3) by blast
  have "skip_chain (\<lambda>y. Node_Next y lev l') (head_node l) (Ls lev)" if "lev < kMaxHeight" for lev
  proof -
    have "skip_chain (\<lambda>y. Node_Next y lev l') (head_node l) (Ls lev) \<longleftrightarrow> skip_chain (\<lambda>y. Node_Next y lev l) (head_node l) (Ls lev)"
      by (rule skip_chain_cong) (use x l'(2) in auto)
    then show ?thesis using inv that by (simp add: skip_inv_def)
  qed
  then have "skip_inv cmp K l' Ls" using inv unfolding skip_inv_def key l'(4-7) by blast
  moreover have "pred_at cmp k l' xs = pred_at cmp k l xs" "succ_at cmp k l' xs = succ_at cmp k l xs" for k xs
    by (simp_all add: pred_at_def succ_at_def key l'(5))
  ultimately have "linking cmp K l' Ls x prev i height \<and> Node_Next x i l' = Some (succ_at cmp (key_at l' x) l' (Ls i))"
    using assms(1) l'(2) unfolding linking_def key l'(5,6) by auto
  moreover have "link_own x prev i l = Some l'" using p pred_next(1) [OF inv i kx] l'(1) by (simp add: link_own_def)
  ultimately show ?thesis using key l'(5) by blast
qed

lemma sorted_place_node:
  assumes inv: "skip_inv cmp K l Ls" and lev: "lev < kMaxHeight" and x: "key_at l x \<in> K"
    and "\<forall>y \<in> set (Ls lev). before cmp (key_at l x) (key_at l y) \<or> before cmp (key_at l y) (key_at l x)"
  shows "sorted_wrt (\<lambda>x y. before cmp (key_at l y) (key_at l x)) (place_node cmp l x (Ls lev))"
proof -
  let ?R = "\<lambda>x y. before cmp (key_at l y) (key_at l x)" and ?P = "\<lambda>y. before cmp (key_at l x) (key_at l y)"
  note F = level_split(2,3) [OF inv lev x]
  have s: "sorted_wrt ?R (Ls lev)" using inv lev by (simp add: skip_inv_def)
  have low: "a \<in> set (Ls lev) \<and> ?P a" if "a \<in> set (takeWhile ?P (Ls lev))" for a using that unfolding F(1) [symmetric] by simp
  have high: "b \<in> set (Ls lev) \<and> ?R x b" if "b \<in> set (dropWhile ?P (Ls lev))" for b
    using that assms(4) unfolding F(2) [symmetric] by auto
  have both: "?R a b" if "a \<in> set (takeWhile ?P (Ls lev))" "b \<in> set (dropWhile ?P (Ls lev))" for a b
    using before_trans [of "key_at l a" "key_at l x" "key_at l b"] low [OF that(1)] high [OF that(2)] level_keys [OF inv lev] x by blast
  have "sorted_wrt ?R (takeWhile ?P (Ls lev))" "sorted_wrt ?R (dropWhile ?P (Ls lev))"
    using sorted_wrt_filter [OF s, of ?P] sorted_wrt_filter [OF s, of "\<lambda>y. \<not> ?P y"] unfolding F by simp_all
  moreover have "sorted_wrt ?R (x # dropWhile ?P (Ls lev))" unfolding sorted_wrt.simps using high calculation(2) by blast
  moreover have "\<forall>a \<in> set (takeWhile ?P (Ls lev)). \<forall>b \<in> set (x # dropWhile ?P (Ls lev)). ?R a b" using low both by (metis set_ConsD)
  ultimately show ?thesis unfolding place_node_def sorted_wrt_append by blast
qed

lemma link_prev_ok:
  assumes link: "linking cmp K l Ls x prev i height" and "i < height" and own: "Node_Next x i l = Some (succ_at cmp (key_at l x) l (Ls i))"
  shows "\<exists>l'. link_prev x prev i l = Some l' \<and> linking cmp K l' (Ls(i := place_node cmp l x (Ls i))) x prev (Suc i) height \<and>
    key_at l' = key_at l \<and> head_node l' = head_node l"
proof -
  let ?Ls = "Ls(i := place_node cmp l x (Ls i))" and ?p = "pred_at cmp (key_at l x) l (Ls i)" and ?P = "\<lambda>y. before cmp (key_at l x) (key_at l y)"
  have inv: "skip_inv cmp K l Ls" and i: "i < kMaxHeight" and kx: "key_at l x \<in> K" and x: "x \<notin> set (Ls i)" "x \<noteq> head_node l"
    and p: "prev i = Some ?p" and mem: "\<And>lev. lev < kMaxHeight \<Longrightarrow> x \<in> set (Ls lev) \<longleftrightarrow> lev < i"
    and cmpx: "\<And>y. y \<in> set (Ls 0) \<Longrightarrow> y \<noteq> x \<Longrightarrow> before cmp (key_at l x) (key_at l y) \<or> before cmp (key_at l y) (key_at l x)"
    using link assms(2) by (auto simp: linking_def skip_inv_def)
  have n: "Node_Next ?p i l \<noteq> None" using pred_next(1) [OF inv i kx] by simp
  obtain l' where l': "Node_SetNext ?p i (Some x) l = Some l'"
      "\<And>a m. Node_Next a m l' = (if a = ?p \<and> m = i then Some (Some x) else Node_Next a m l)"
      "\<And>a. key_at l' a = key_at l a" "\<And>a. nodes l' a = None \<longleftrightarrow> nodes l a = None"
      "head_node l' = head_node l" "max_height l' = max_height l" "node_end l' = node_end l"
    using set_next [OF n, of "Some x"] by blast
  have key: "key_at l' = key_at l" using l'(3) by blast
  have "skip_chain (\<lambda>y. Node_Next y lev l') (head_node l) (?Ls lev)" if lev: "lev < kMaxHeight" for lev
  proof (cases "lev = i")
    case False
    then have "(\<lambda>y. Node_Next y lev l') = (\<lambda>y. Node_Next y lev l)" using l'(2) by auto
    then show ?thesis using inv lev False by (simp add: skip_inv_def)
  next
    case True
    have "skip_chain ((\<lambda>y. Node_Next y i l)(x := Some (first_of (dropWhile ?P (Ls i))), ?p := Some (Some x))) (head_node l)
        (takeWhile ?P (Ls i) @ x # dropWhile ?P (Ls i))"
      unfolding pred_at_def by (rule skip_chain_insert) (use inv i level_distinct [OF inv i] x in \<open>simp_all add: skip_inv_def\<close>)
    moreover have "(\<lambda>y. Node_Next y i l)(x := Some (first_of (dropWhile ?P (Ls i))), ?p := Some (Some x)) = (\<lambda>y. Node_Next y i l')"
      using own l'(2) by (auto simp: succ_at_def)
    ultimately show ?thesis using True by (simp add: place_node_def)
  qed
  moreover have "sorted_wrt (\<lambda>x y. before cmp (key_at l y) (key_at l x)) (?Ls lev)" if lev: "lev < kMaxHeight" for lev
  proof (cases "lev = i")
    case True
    then show ?thesis using sorted_place_node [OF inv lev kx] cmpx levels_subset [OF inv lev] x by auto
  qed (use inv lev in \<open>simp add: skip_inv_def\<close>)
  moreover have "set (?Ls (Suc lev)) \<subseteq> set (?Ls lev)" if "Suc lev < kMaxHeight" for lev
  proof -
    have "set (Ls (Suc lev)) \<subseteq> set (Ls lev)" using inv that unfolding skip_inv_def by blast
    then show ?thesis using mem [of lev] that by auto
  qed
  ultimately have "skip_inv cmp K l' ?Ls" using inv link assms(2) x kx
    unfolding skip_inv_def key l'(4-7) by (auto simp: linking_def)
  moreover have "pred_at cmp k l' xs = pred_at cmp k l xs" for k xs by (simp add: pred_at_def key l'(5))
  ultimately have "linking cmp K l' ?Ls x prev (Suc i) height"
    using link assms(2) l'(2) mem unfolding linking_def key l'(5,6) by (auto simp: less_Suc_eq)
  then show ?thesis using p l'(1) key l'(5) by (auto simp: link_prev_def)
qed

end

subsection \<open>Insertion\<close>

lemma random_height_range: "1 \<le> h \<Longrightarrow> h \<le> kMaxHeight \<Longrightarrow> h \<le> fst (random_height h s) \<and> fst (random_height h s) \<le> kMaxHeight"
proof (induction h s rule: random_height.induct)
  case (1 h s)
  show ?case
  proof (cases "h < kMaxHeight \<and> Random_Next s mod kBranching = 0")
    case True
    then have "Suc h \<le> fst (random_height (Suc h) (Random_Next s)) \<and> fst (random_height (Suc h) (Random_Next s)) \<le> kMaxHeight"
      using 1(1) [OF _ refl] 1(2,3) by simp
    then show ?thesis using True by (simp add: random_height.simps [of h] Let_def)
  next
    case False
    then have "random_height h s = (h, Random_Next s) \<or> random_height h s = (h, s)"
      unfolding random_height.simps [of h s] Let_def by presburger
    then show ?thesis using 1(2,3) by auto
  qed
qed

text \<open>The sequence of keys after an insertion.\<close>

definition insert_key :: "'k compare \<Rightarrow> 'k \<Rightarrow> 'k list \<Rightarrow> 'k list" where
  "insert_key cmp k ks = takeWhile (before cmp k) ks @ k # dropWhile (before cmp k) ks"

lemma place_node_keys: "map (key_at l) (place_node cmp l x xs) = insert_key cmp (key_at l x) (map (key_at l) xs)"
  by (simp add: place_node_def insert_key_def takeWhile_map dropWhile_map o_def)

context key_order
begin

lemma find_ge_start:
  assumes "skip_inv cmp K l Ls" and "k \<in> K"
  shows "FindGreaterOrEqual cmp k prev l =
    Some (succ_at cmp k l (Ls 0), map_option (\<lambda>p i. if i \<le> max_height l - 1 then Some (pred_at cmp k l (Ls i)) else p i) prev)"
  unfolding FindGreaterOrEqual_def by (rule find_ge_ok [OF assms]) (use assms(1) in \<open>auto simp: skip_inv_def place_def\<close>)

lemma succ_found: "skip_inv cmp K l Ls \<Longrightarrow> succ_at cmp k l (Ls 0) = Some y \<Longrightarrow> y \<in> set (Ls 0) \<and> \<not> before cmp k (key_at l y)"
  by (auto simp: succ_at_def first_of_def dropWhile_eq_Cons_conv split: list.splits) (metis in_set_conv_decomp)

lemma fresh_node:
  fixes k :: 'k and s :: u32
  assumes inv: "skip_inv cmp K l Ls" and h: "1 \<le> h" "h \<le> kMaxHeight"
  defines "x \<equiv> node_end l"
  defines "l' \<equiv> l\<lparr>nodes := (nodes l)(x \<mapsto> \<lparr>node_key = k, next_links = replicate h None\<rparr>), node_end := Suc x, max_height := max h (max_height l), rnd := s\<rparr>"
  shows "skip_inv cmp K l' Ls" "key_at l' x = k" "\<And>y. y \<noteq> x \<Longrightarrow> key_at l' y = key_at l y" "x \<noteq> head_node l'" "head_node l' = head_node l"
    "\<And>lev. lev < kMaxHeight \<Longrightarrow> x \<notin> set (Ls lev)" "\<And>lev. lev < h \<Longrightarrow> Node_Next x lev l' \<noteq> None"
proof -
  have in1: "y \<noteq> x" if "lev < kMaxHeight" "y \<in> set (head_node l # Ls lev)" for y lev
    using level_node(1) [OF inv that] inv by (auto simp: skip_inv_def x_def)
  show hd: "head_node l' = head_node l" by (simp add: l'_def)
  show "x \<noteq> head_node l'" using in1 [of 0 "head_node l"] by (auto simp: kMaxHeight_def hd)
  show "x \<notin> set (Ls lev)" if "lev < kMaxHeight" for lev using in1 [OF that, of x] by auto
  show key: "key_at l' x = k" "\<And>y. y \<noteq> x \<Longrightarrow> key_at l' y = key_at l y" by (simp_all add: l'_def key_at_def)
  show "\<And>lev. lev < h \<Longrightarrow> Node_Next x lev l' \<noteq> None" by (simp add: l'_def Node_Next_def)
  have nn: "Node_Next y lev l' = Node_Next y lev l" if "y \<noteq> x" for y lev using that by (simp add: l'_def Node_Next_def)
  have "skip_chain (\<lambda>y. Node_Next y lev l') (head_node l) (Ls lev)" if "lev < kMaxHeight" for lev
  proof -
    have "skip_chain (\<lambda>y. Node_Next y lev l') (head_node l) (Ls lev) \<longleftrightarrow> skip_chain (\<lambda>y. Node_Next y lev l) (head_node l) (Ls lev)"
      by (rule skip_chain_cong) (use in1 [OF that] nn in blast)
    then show ?thesis using inv that by (simp add: skip_inv_def)
  qed
  moreover have "sorted_wrt (\<lambda>x y. before cmp (key_at l' y) (key_at l' x)) (Ls lev)" if "lev < kMaxHeight" for lev
  proof -
    have "sorted_wrt (\<lambda>x y. before cmp (key_at l y) (key_at l x)) (Ls lev)" using inv that by (simp add: skip_inv_def)
    then show ?thesis by (rule sorted_wrt_mono_rel [rotated]) (use in1 [OF that] key(2) in \<open>metis list.set_intros(2)\<close>)
  qed
  moreover have "key_at l' y \<in> K" if "y \<in> set (Ls 0)" for y using that in1 [of 0 y] key(2) [of y] inv by (simp add: skip_inv_def kMaxHeight_def)
  moreover have "y < Suc x" if "nodes l' y \<noteq> None" for y
    using that inv by (cases "y = x") (auto simp: l'_def skip_inv_def x_def dest: less_SucI)
  ultimately show "skip_inv cmp K l' Ls" using inv h unfolding skip_inv_def by (simp add: l'_def)
qed

lemma prepare_ok:
  assumes inv: "skip_inv cmp K l Ls" and k: "k \<in> K"
    and new: "\<forall>y \<in> set (Ls 0). before cmp k (key_at l y) \<or> before cmp (key_at l y) k"
  shows "\<exists>x prev h l'. insert_prepare cmp k l = Some (x, prev, h, l') \<and> 1 \<le> h \<and> linking cmp K l' Ls x prev 0 h \<and> key_at l' x = k \<and>
    map (key_at l') (Ls 0) = map (key_at l) (Ls 0) \<and> head_node l' = head_node l"
proof -
  have dup: "(case succ_at cmp k l (Ls 0) of None \<Rightarrow> Some False | Some y \<Rightarrow> Option.bind (Node_key y l) (\<lambda>k'. Equal_key cmp k k')) = Some False"
  proof (cases "succ_at cmp k l (Ls 0)")
    case (Some y)
    then have y: "y \<in> set (Ls 0)" using succ_found [OF inv] by blast
    have "Node_key y l = Some (key_at l y)" by (rule level_node(2) [OF inv, of 0]) (use y in \<open>simp_all add: kMaxHeight_def\<close>)
    moreover have "key_at l y \<in> K" by (rule level_keys [OF inv, of 0]) (use y in \<open>simp_all add: kMaxHeight_def\<close>)
    ultimately show ?thesis using Some equal_iff [OF k, of "key_at l y"] new y by auto
  qed simp
  obtain h s where rh: "random_height 1 (rnd l) = (h, s)" by fastforce
  have h: "1 \<le> h" "h \<le> kMaxHeight" using random_height_range [of 1 "rnd l"] rh by (simp_all add: kMaxHeight_def)
  let ?x = "node_end l"
  let ?l = "l\<lparr>nodes := (nodes l)(?x \<mapsto> \<lparr>node_key = k, next_links = replicate h None\<rparr>), node_end := Suc ?x, max_height := max h (max_height l), rnd := s\<rparr>"
  let ?p = "\<lambda>i. if max_height l \<le> i \<and> i < h then Some (head_node l) else if i \<le> max_height l - 1 then Some (pred_at cmp k l (Ls i)) else None"
  note F = fresh_node(1-5,7) [OF inv h, where k = k and s = s] fresh_node(6) [OF inv h]
  have mh: "1 \<le> max_height l" "max_height l \<le> kMaxHeight" using inv by (simp_all add: skip_inv_def)
  have "insert_prepare cmp k l = Some (?x, ?p, h, ?l)"
    using find_ge_start [OF inv k, of "Some Map.empty"] dup rh mh
    by (auto simp: insert_prepare_def RandomHeight_def raise_height_def NewNode_def Let_def max_def)
  moreover have pred: "?p i = Some (pred_at cmp k ?l (Ls i))" if i: "i < h" for i
  proof (cases "max_height l \<le> i")
    case True
    then have "Ls i = []" using inv i h by (simp add: skip_inv_def)
    then show ?thesis using True i by (simp add: pred_at_def)
  next
    case False
    then have lev: "i < kMaxHeight" using mh by simp
    have "takeWhile (\<lambda>x. before cmp k (key_at ?l x)) (Ls i) = takeWhile (\<lambda>x. before cmp k (key_at l x)) (Ls i)"
      by (rule takeWhile_cong) (use F(3,7) lev in metis)+
    then show ?thesis using False by (simp add: pred_at_def)
  qed
  moreover have keys: "key_at ?l y = key_at l y" if "y \<in> set (Ls 0)" for y using F(3,7) that by (metis kMaxHeight_def zero_less_numeral)
  moreover have "linking cmp K ?l Ls ?x ?p 0 h"
    using F k new pred keys unfolding linking_def by auto
  ultimately show ?thesis using h(1) F(2) by (intro exI [of _ ?x] exI [of _ ?p] exI [of _ h] exI [of _ ?l]) simp
qed

lemma link_levels_ok:
  "linking cmp K l Ls x prev i (i + n) \<Longrightarrow>
   \<exists>l' Ls'. link_levels x prev i n l = Some l' \<and> skip_inv cmp K l' Ls' \<and> key_at l' = key_at l \<and>
     Ls' 0 = (if i = 0 \<and> n > 0 then place_node cmp l x (Ls 0) else Ls 0)"
proof (induction n arbitrary: i l Ls)
  case 0
  then show ?case by (auto simp: linking_def)
next
  case (Suc n)
  obtain l1 where l1: "link_own x prev i l = Some l1" "linking cmp K l1 Ls x prev i (i + Suc n)"
      "Node_Next x i l1 = Some (succ_at cmp (key_at l1 x) l1 (Ls i))" "key_at l1 = key_at l" "head_node l1 = head_node l"
    using link_own_ok [OF Suc.prems] by auto
  obtain l2 where l2: "link_prev x prev i l1 = Some l2" "linking cmp K l2 (Ls(i := place_node cmp l1 x (Ls i))) x prev (Suc i) (Suc i + n)"
      "key_at l2 = key_at l1"
    using link_prev_ok [OF l1(2) _ l1(3)] by auto
  have "place_node cmp l1 x = place_node cmp l x" using l1(4) by (auto simp: place_node_def)
  then show ?case using Suc.IH [OF l2(2)] l1(1,4) l2(1,3) by auto
qed

lemma insert_ok:
  assumes "skip_holds cmp K l ks" and "k \<in> K" and "\<forall>y \<in> set ks. before cmp k y \<or> before cmp y k"
  shows "\<exists>l'. skip_Insert cmp k l = Some l' \<and> skip_holds cmp K l' (insert_key cmp k ks)"
proof -
  obtain Ls where inv: "skip_inv cmp K l Ls" and ks: "ks = map (key_at l) (Ls 0)" using assms(1) by (auto simp: skip_holds_def)
  obtain x prev h l1 where p: "insert_prepare cmp k l = Some (x, prev, h, l1)" "1 \<le> h" "linking cmp K l1 Ls x prev 0 h" "key_at l1 x = k"
      "map (key_at l1) (Ls 0) = map (key_at l) (Ls 0)"
    using prepare_ok [OF inv assms(2)] assms(3) ks by auto
  obtain l2 Ls2 where l2: "link_levels x prev 0 h l1 = Some l2" "skip_inv cmp K l2 Ls2" "key_at l2 = key_at l1" "Ls2 0 = place_node cmp l1 x (Ls 0)"
    using link_levels_ok [of l1 Ls x prev 0 h] p(2,3) by auto
  have "map (key_at l2) (Ls2 0) = insert_key cmp k ks" unfolding l2(3,4) place_node_keys p(4,5) ks ..
  then show ?thesis using p(1) l2(1,2) unfolding skip_holds_def skip_Insert_def by (auto intro!: exI [of _ Ls2])
qed

lemma new_ok: "skip_holds cmp K (new_SkipList k0) []"
  unfolding skip_holds_def
  by (rule exI [of _ "\<lambda>_. []"]) (simp add: skip_inv_def new_SkipList_def NewNode_def Node_Next_def kMaxHeight_def)

end

end
