(* ===== verification/Ldb_Format.thy ===== *)
theory Ldb_Format
  imports Ldb_Coding "HOL-Library.List_Lexorder" "HOL-Library.Monad_Syntax"
begin

text \<open>
  Keys and their order: \<^verbatim>\<open>include/leveldb/slice.h\<close>, \<^verbatim>\<open>util/comparator.cc\<close>, \<^verbatim>\<open>db/dbformat.h\<close> and \<^verbatim>\<open>db/dbformat.cc\<close>.
  \<^const>\<open>None\<close> is an assertion that fails.
\<close>

subsection \<open>Slices\<close>

text \<open>\<^verbatim>\<open>memcmp\<close> compares bytes as unsigned numbers; only the sign of its result is used.\<close>

fun memcmp :: "slice \<Rightarrow> slice \<Rightarrow> nat \<Rightarrow> int" where
  "memcmp (a # as) (b # bs) (Suc n) = (if a < b then - 1 else if a > b then 1 else memcmp as bs n)"
| "memcmp _ _ _ = 0"

definition slice_compare :: "slice \<Rightarrow> slice \<Rightarrow> int" where
  "slice_compare a b =
     (let min_len = (if length a < length b then length a else length b);
          r = memcmp a b min_len
      in if r = 0 then if length a < length b then - 1 else if length a > length b then 1 else r else r)"

text \<open>A \<^verbatim>\<open>Comparator\<close>. The last two return the string that they leave in their first argument.\<close>

record comparator =
  Compare :: "slice \<Rightarrow> slice \<Rightarrow> int option"
  FindShortestSeparator :: "slice \<Rightarrow> slice \<Rightarrow> slice option"
  FindShortSuccessor :: "slice \<Rightarrow> slice option"

fun common_prefix :: "slice \<Rightarrow> slice \<Rightarrow> nat" where
  "common_prefix (a # as) (b # bs) = (if a = b then Suc (common_prefix as bs) else 0)"
| "common_prefix _ _ = 0"

definition bytewise_separator :: "slice \<Rightarrow> slice \<Rightarrow> slice option" where
  "bytewise_separator start1 limit =
     (let min_length = min (length start1) (length limit);
          diff_index = common_prefix start1 limit
      in if diff_index \<ge> min_length then Some start1
         else
           let diff_byte = start1 ! diff_index in
           if diff_byte < 0xff \<and> unat diff_byte + 1 < unat (limit ! diff_index) then
             let start1' = take (diff_index + 1) (start1[diff_index := start1 ! diff_index + 1]) in
             if slice_compare start1' limit < 0 then Some start1' else None
           else Some start1)"

fun bytewise_successor :: "slice \<Rightarrow> slice" where
  "bytewise_successor [] = []"
| "bytewise_successor (b # bs) = (if b \<noteq> 0xff then [b + 1] else b # bytewise_successor bs)"

definition BytewiseComparator :: comparator where
  "BytewiseComparator =
     \<lparr>Compare = (\<lambda>a b. Some (slice_compare a b)), FindShortestSeparator = bytewise_separator,
      FindShortSuccessor = (\<lambda>key. Some (bytewise_successor key))\<rparr>"

subsection \<open>Internal keys\<close>

definition kTypeDeletion :: u8 where "kTypeDeletion = 0"
definition kTypeValue :: u8 where "kTypeValue = 1"
definition kValueTypeForSeek :: u8 where "kValueTypeForSeek = kTypeValue"
definition kMaxSequenceNumber :: u64 where "kMaxSequenceNumber = push_bit 56 1 - 1"

record ParsedInternalKey =
  user_key :: slice
  sequence :: u64
  vtype :: u8

definition PackSequenceAndType :: "u64 \<Rightarrow> u8 \<Rightarrow> u64 option" where
  "PackSequenceAndType seq t =
     (if \<not> seq \<le> kMaxSequenceNumber \<or> \<not> t \<le> kValueTypeForSeek then None else Some (push_bit 8 seq OR ucast t))"

definition AppendInternalKey :: "slice \<Rightarrow> ParsedInternalKey \<Rightarrow> slice option" where
  "AppendInternalKey result key =
     do { n \<leftarrow> PackSequenceAndType (sequence key) (vtype key); Some (PutFixed64 (result @ user_key key) n) }"

definition InternalKeyEncodingLength :: "ParsedInternalKey \<Rightarrow> nat" where
  "InternalKeyEncodingLength key = length (user_key key) + 8"

definition ExtractUserKey :: "slice \<Rightarrow> slice option" where
  "ExtractUserKey internal_key = (if length internal_key \<ge> 8 then Some (take (length internal_key - 8) internal_key) else None)"

text \<open>\<^const>\<open>None\<close> is the result false.\<close>

definition ParseInternalKey :: "slice \<Rightarrow> ParsedInternalKey option" where
  "ParseInternalKey internal_key =
     (let n = length internal_key in
      if n < 8 then None
      else
        let num = DecodeFixed64 (drop (n - 8) internal_key);
            c = ucast (num AND 0xff) :: u8
        in if c \<le> kTypeValue then Some \<lparr>user_key = take (n - 8) internal_key, sequence = drop_bit 8 num, vtype = c\<rparr> else None)"

definition internal_compare :: "comparator \<Rightarrow> slice \<Rightarrow> slice \<Rightarrow> int option" where
  "internal_compare user_comparator akey bkey =
     do {
       a \<leftarrow> ExtractUserKey akey;
       b \<leftarrow> ExtractUserKey bkey;
       r \<leftarrow> Compare user_comparator a b;
       Some (if r = 0 then
               let anum = DecodeFixed64 (drop (length akey - 8) akey);
                   bnum = DecodeFixed64 (drop (length bkey - 8) bkey)
               in if anum > bnum then - 1 else if anum < bnum then 1 else r
             else r)
     }"

definition internal_separator :: "comparator \<Rightarrow> slice \<Rightarrow> slice \<Rightarrow> slice option" where
  "internal_separator uc start1 limit =
     do {
       user_start \<leftarrow> ExtractUserKey start1;
       user_limit \<leftarrow> ExtractUserKey limit;
       tmp \<leftarrow> FindShortestSeparator uc user_start user_limit;
       shorter \<leftarrow> (if length tmp < length user_start then map_option (\<lambda>r. r < 0) (Compare uc user_start tmp) else Some False);
       if shorter then
         do {
           n \<leftarrow> PackSequenceAndType kMaxSequenceNumber kValueTypeForSeek;
           let tmp = PutFixed64 tmp n;
           r1 \<leftarrow> internal_compare uc start1 tmp;
           r2 \<leftarrow> internal_compare uc tmp limit;
           if r1 < 0 \<and> r2 < 0 then Some tmp else None
         }
       else Some start1
     }"

definition internal_successor :: "comparator \<Rightarrow> slice \<Rightarrow> slice option" where
  "internal_successor uc key =
     do {
       ukey \<leftarrow> ExtractUserKey key;
       tmp \<leftarrow> FindShortSuccessor uc ukey;
       shorter \<leftarrow> (if length tmp < length ukey then map_option (\<lambda>r. r < 0) (Compare uc ukey tmp) else Some False);
       if shorter then
         do {
           n \<leftarrow> PackSequenceAndType kMaxSequenceNumber kValueTypeForSeek;
           let tmp = PutFixed64 tmp n;
           r \<leftarrow> internal_compare uc key tmp;
           if r < 0 then Some tmp else None
         }
       else Some key
     }"

definition InternalKeyComparator :: "comparator \<Rightarrow> comparator" where
  "InternalKeyComparator uc =
     \<lparr>Compare = internal_compare uc, FindShortestSeparator = internal_separator uc, FindShortSuccessor = internal_successor uc\<rparr>"

text \<open>A \<^verbatim>\<open>LookupKey\<close>: the string at \<^verbatim>\<open>start_\<close> and the offset of \<^verbatim>\<open>kstart_\<close> in it.\<close>

record lookup_key =
  lk_start :: slice
  lk_kstart :: nat

definition LookupKey :: "slice \<Rightarrow> u64 \<Rightarrow> lookup_key option" where
  "LookupKey ukey s =
     do {
       let usize = length ukey;
       let dst = EncodeVarint32 (of_nat (usize + 8));
       n \<leftarrow> PackSequenceAndType s kValueTypeForSeek;
       Some \<lparr>lk_start = dst @ ukey @ EncodeFixed64 n, lk_kstart = length dst\<rparr>
     }"

definition memtable_key :: "lookup_key \<Rightarrow> slice" where
  "memtable_key k = lk_start k"

definition lk_internal_key :: "lookup_key \<Rightarrow> slice" where
  "lk_internal_key k = drop (lk_kstart k) (lk_start k)"

definition lk_user_key :: "lookup_key \<Rightarrow> slice" where
  "lk_user_key k = take (length (lk_start k) - lk_kstart k - 8) (drop (lk_kstart k) (lk_start k))"

subsection \<open>The order of slices\<close>

lemma slice_compare_Cons: "slice_compare (a # as) (b # bs) = (if a < b then - 1 else if b < a then 1 else slice_compare as bs)"
  by (auto simp: slice_compare_def Let_def)

lemma slice_compare_order: "slice_compare a b = (if a < b then - 1 else if a = b then 0 else 1)"
proof (induction a arbitrary: b)
  case Nil
  then show ?case by (cases b) (simp_all add: slice_compare_def)
next
  case (Cons x xs)
  then show ?case by (cases b) (auto simp: slice_compare_Cons, simp_all add: slice_compare_def)
qed

lemma bytewise_compare [simp]: "Compare BytewiseComparator a b = Some (if a < b then - 1 else if a = b then 0 else 1)"
  by (simp add: BytewiseComparator_def slice_compare_order)

lemma prefix_less [simp]: "p @ xs < p @ ys \<longleftrightarrow> xs < ys" for p xs ys :: slice
  by (induction p) simp_all

lemma common_prefix_split:
  "common_prefix u v < min (length u) (length v) \<Longrightarrow>
   \<exists>p a us b vs. u = p @ a # us \<and> v = p @ b # vs \<and> a \<noteq> b \<and> length p = common_prefix u v"
proof (induction u v rule: common_prefix.induct)
  case (1 a as b bs)
  show ?case
  proof (cases "a = b")
    case True
    then obtain p c us d vs where "as = p @ c # us \<and> bs = p @ d # vs \<and> c \<noteq> d \<and> length p = common_prefix as bs" using 1 by auto
    then show ?thesis using True by (intro exI [of _ "a # p"] exI [of _ c] exI [of _ us] exI [of _ d] exI [of _ vs]) simp
  qed (intro exI [of _ "[]"], simp)
qed simp_all

lemma byte_succ: "unat a + 1 < unat b \<Longrightarrow> a < a + 1 \<and> a + 1 < b" for a b :: u8
  using unat_bound [of b] by (simp add: word_less_nat_alt unat_word_ariths)

text \<open>A separator exists, is not longer, and lies between its arguments when they are in order.\<close>

lemma bytewise_separator_ok:
  "\<exists>w. bytewise_separator u v = Some w \<and> length w \<le> length u \<and> u \<le> w \<and> (w = u \<or> w < v)"
proof (cases "common_prefix u v < min (length u) (length v)")
  case True
  then obtain p a us b vs where uv: "u = p @ a # us" "v = p @ b # vs" "a \<noteq> b" "length p = common_prefix u v"
    using common_prefix_split [OF True] by blast
  show ?thesis
  proof (cases "a < 0xff \<and> unat a + 1 < unat b")
    case c: True
    then have ab: "a < a + 1" "a + 1 < b" using byte_succ by blast+
    have "bytewise_separator u v = Some (p @ [a + 1])"
      unfolding bytewise_separator_def uv(4) [symmetric] Let_def using uv(1,2) c ab by (simp add: slice_compare_order nth_append)
    then show ?thesis using uv(1,2) ab by (intro exI [of _ "p @ [a + 1]"]) (simp add: less_imp_le)
  next
    case False
    then have "bytewise_separator u v = Some u"
      unfolding bytewise_separator_def uv(4) [symmetric] Let_def using uv(1,2) by (auto simp: nth_append)
    then show ?thesis by simp
  qed
next
  case False
  then have "bytewise_separator u v = Some u" by (simp only: bytewise_separator_def Let_def not_less if_True)
  then show ?thesis by simp
qed

lemma bytewise_successor_ok: "k \<le> bytewise_successor k \<and> length (bytewise_successor k) \<le> length k"
proof (induction k)
  case (Cons b bs)
  have "b < b + 1" if "b \<noteq> 0xff"
  proof -
    have "unat b \<noteq> 255" using that by (simp add: word_unat_eq_iff)
    then show ?thesis using unat_bound [of b] by (simp add: word_less_nat_alt unat_word_ariths)
  qed
  then show ?case using Cons by (auto simp: less_imp_le)
qed simp

subsection \<open>The order of internal keys\<close>

definition ikey :: "slice \<Rightarrow> u64 \<Rightarrow> slice" where
  "ikey u n = u @ EncodeFixed64 n"

lemma extract_ikey [simp]: "ExtractUserKey (ikey u n) = Some u"
  by (simp add: ExtractUserKey_def ikey_def)

lemma tag_ikey [simp]: "DecodeFixed64 (drop (length (ikey u n) - 8) (ikey u n)) = n" "length (ikey u n) = length u + 8"
  by (simp_all add: ikey_def)

lemma ikey_inj [simp]: "ikey u n = ikey v m \<longleftrightarrow> u = v \<and> n = m"
  by (metis extract_ikey option.inject tag_ikey(1))

text \<open>Increasing user key, then decreasing sequence number and type.\<close>

definition ikey_less :: "slice \<times> u64 \<Rightarrow> slice \<times> u64 \<Rightarrow> bool" where
  "ikey_less = (\<lambda>(u, n) (v, m). u < v \<or> u = v \<and> m < n)"

lemma internal_compare_ikey:
  "internal_compare BytewiseComparator (ikey u n) (ikey v m) = Some (if ikey_less (u, n) (v, m) then - 1 else if u = v \<and> n = m then 0 else 1)"
  unfolding internal_compare_def tag_ikey(1) by (auto simp: ikey_less_def)

lemma pack_seek: "PackSequenceAndType kMaxSequenceNumber kValueTypeForSeek = Some (push_bit 8 kMaxSequenceNumber OR 1)"
  by (simp add: PackSequenceAndType_def kValueTypeForSeek_def kTypeValue_def)

text \<open>
  C16: the separators that an index of a table is built from. For internal keys \<open>a\<close> before \<open>b\<close>, \<^verbatim>\<open>FindShortestSeparator\<close> of the internal key comparator
  returns (no assertion fails) a key that is not longer, not before \<open>a\<close> and before \<open>b\<close>; \<^verbatim>\<open>FindShortSuccessor\<close> returns a key that is not before its argument
  and not longer.
\<close>

theorem internal_separator_correct:
  assumes "ikey_less (u, n) (v, m)"
  shows "(\<exists>w k. FindShortestSeparator (InternalKeyComparator BytewiseComparator) (ikey u n) (ikey v m) = Some (ikey w k) \<and> length w \<le> length u \<and>
      ((w, k) = (u, n) \<or> ikey_less (u, n) (w, k)) \<and> ikey_less (w, k) (v, m)) \<and>
    (\<exists>w k. FindShortSuccessor (InternalKeyComparator BytewiseComparator) (ikey u n) = Some (ikey w k) \<and> length w \<le> length u \<and>
      ((w, k) = (u, n) \<or> ikey_less (u, n) (w, k)))"
  (is "?sep \<and> ?suc")
proof
  let ?k = "push_bit 8 kMaxSequenceNumber OR 1"
  have put: "PutFixed64 w ?k = ikey w ?k" for w by (simp add: PutFixed64_def ikey_def)
  note defs = internal_separator_def internal_successor_def pack_seek put internal_compare_ikey
  obtain w where w: "bytewise_separator u v = Some w" "length w \<le> length u" "u \<le> w" "w = u \<or> w < v" using bytewise_separator_ok by blast
  have s: "FindShortestSeparator BytewiseComparator u v = Some w" using w(1) by (simp add: BytewiseComparator_def)
  show ?sep
  proof (cases "length w < length u")
    case True
    then have "w \<noteq> u" by auto
    then have "u < w" "w < v" using w(3,4) by auto
    then show ?thesis using True s by (intro exI [of _ w] exI [of _ ?k]) (simp add: InternalKeyComparator_def defs ikey_less_def)
  next
    case False
    then show ?thesis using s assms by (intro exI [of _ u] exI [of _ n]) (simp add: InternalKeyComparator_def defs)
  qed
  have t: "FindShortSuccessor BytewiseComparator u = Some (bytewise_successor u)" by (simp add: BytewiseComparator_def)
  show ?suc
  proof (cases "length (bytewise_successor u) < length u")
    case True
    then have "bytewise_successor u \<noteq> u" by auto
    then have "u < bytewise_successor u" using bytewise_successor_ok [of u] by auto
    then show ?thesis using True t
      by (intro exI [of _ "bytewise_successor u"] exI [of _ ?k]) (simp add: InternalKeyComparator_def defs ikey_less_def)
  next
    case False
    then show ?thesis using t by (intro exI [of _ u] exI [of _ n]) (simp add: InternalKeyComparator_def defs)
  qed
qed

theorem internal_separator_correct_witness:
  "(\<exists>w k. FindShortestSeparator (InternalKeyComparator BytewiseComparator) (ikey [1, 2, 3] 257) (ikey [1, 9] 513) = Some (ikey w k) \<and> length w \<le> 3 \<and>
      ((w, k) = ([1, 2, 3], 257) \<or> ikey_less ([1, 2, 3], 257) (w, k)) \<and> ikey_less (w, k) ([1, 9], 513)) \<and>
    (\<exists>w k. FindShortSuccessor (InternalKeyComparator BytewiseComparator) (ikey [1, 2, 3] 257) = Some (ikey w k) \<and> length w \<le> 3 \<and>
      ((w, k) = ([1, 2, 3], 257) \<or> ikey_less ([1, 2, 3], 257) (w, k)))"
proof -
  have "ikey_less ([1, 2, 3], 257) ([1, 9], 513)" by (simp add: ikey_less_def)
  from internal_separator_correct [OF this] show ?thesis by (simp add: numeral_3_eq_3)
qed

end
