(* ===== verification/Ldb_Skip_Conc.thy ===== *)
theory Ldb_Skip_Conc
  imports Ldb_Skip_Ok Ldb_Format
begin

text \<open>
  What clients rely on of the skip list: it implements a sorted sequence, its iterators walk along it, and readers may run while a node is being inserted.
\<close>

interpretation bytewise: key_order "Compare BytewiseComparator" UNIV
  by unfold_locales (auto split: if_splits)

subsection \<open>A sorted sequence\<close>

context key_order
begin

lemma holds_sorted:
  assumes "skip_holds cmp K l ks"
  shows "sorted_wrt (\<lambda>a b. before cmp b a) ks" "set ks \<subseteq> K"
  using assms by (auto simp: skip_holds_def skip_inv_def sorted_wrt_map kMaxHeight_def)

lemma sorted_found:
  assumes ks: "sorted_wrt (\<lambda>a b. before cmp b a) ks" "set ks \<subseteq> K" and k: "k \<in> K" and y: "y \<in> set ks" "\<not> before cmp k y" "\<not> before cmp y k"
  shows "first_of (dropWhile (before cmp k) ks) = Some y"
proof -
  obtain as bs where ab: "ks = as @ y # bs" using y(1) by (auto dest: split_list)
  have "before cmp k a" if "a \<in> set as" for a
    using before_trans1 [of a y k] ks ab that y k by (auto simp: sorted_wrt_append)
  then have "dropWhile (before cmp k) ks = y # bs" using ab y(2) by (simp add: dropWhile_append)
  then show ?thesis by simp
qed

lemma contains_ok:
  assumes "skip_holds cmp K l ks" and k: "k \<in> K"
  shows "Contains cmp k l = Some (\<exists>y \<in> set ks. \<not> before cmp k y \<and> \<not> before cmp y k)"
proof -
  obtain Ls where inv: "skip_inv cmp K l Ls" and ks: "ks = map (key_at l) (Ls 0)" using assms(1) by (auto simp: skip_holds_def)
  have s: "map_option (key_at l) (succ_at cmp k l (Ls 0)) = first_of (dropWhile (before cmp k) ks)"
    by (simp add: succ_at_def ks dropWhile_map o_def)
  note F = find_ge_start [OF inv k, of None] and S = sorted_found [OF holds_sorted [OF assms(1)] k]
  show ?thesis
  proof (cases "succ_at cmp k l (Ls 0)")
    case None
    then have "first_of (dropWhile (before cmp k) ks) = None" using s by simp
    then show ?thesis using F None S by (fastforce simp: Contains_def)
  next
    case (Some x)
    then have x: "x \<in> set (Ls 0)" "\<not> before cmp k (key_at l x)" using succ_found [OF inv] by blast+
    have kx: "Node_key x l = Some (key_at l x)" by (rule level_node(2) [OF inv, of 0]) (use x in \<open>simp_all add: kMaxHeight_def\<close>)
    have "key_at l x \<in> K" using x ks holds_sorted(2) [OF assms(1)] by auto
    then have "Contains cmp k l = Some (\<not> before cmp (key_at l x) k)" using F Some kx equal_iff [OF k] x by (simp add: Contains_def)
    moreover have "(\<not> before cmp (key_at l x) k) \<longleftrightarrow> (\<exists>y \<in> set ks. \<not> before cmp k y \<and> \<not> before cmp y k)"
      using x ks S s Some by fastforce
    ultimately show ?thesis by simp
  qed
qed

lemma iterators_ok:
  assumes "skip_holds cmp K l ks"
  shows "\<exists>pos. (\<forall>i. iter_key (pos i) l = (if i < length ks then Some (ks ! i) else None)) \<and> (\<forall>i. iter_Valid (pos i) \<longleftrightarrow> i < length ks) \<and>
    iter_SeekToFirst l = Some (pos 0) \<and> iter_SeekToLast l = Some (pos (length ks - 1)) \<and>
    (\<forall>k \<in> K. iter_Seek cmp k l = Some (pos (length (takeWhile (before cmp k) ks)))) \<and>
    (\<forall>i < length ks. iter_Next (pos i) l = Some (pos (Suc i))) \<and>
    (\<forall>i < length ks. iter_Prev cmp (pos i) l = Some (if i = 0 then None else pos (i - 1)))"
proof -
  obtain Ls where inv: "skip_inv cmp K l Ls" and ks: "ks = map (key_at l) (Ls 0)" using assms by (auto simp: skip_holds_def)
  have z: "0 < kMaxHeight" by (simp add: kMaxHeight_def)
  define pos where "pos i = (if i < length ks then Some (Ls 0 ! i) else None)" for i
  have ch: "skip_chain (\<lambda>x. Node_Next x 0 l) (head_node l) (Ls 0)" using inv z by (simp add: skip_inv_def)
  have fo: "first_of (drop i (Ls 0)) = pos i" for i by (cases "i < length ks") (auto simp: pos_def ks Cons_nth_drop_Suc [symmetric])
  have nxt: "Node_Next (last (head_node l # take i (Ls 0))) 0 l = Some (pos i)" for i
    using skip_chain_next [of "\<lambda>x. Node_Next x 0 l" "head_node l" "take i (Ls 0)" "drop i (Ls 0)"] ch by (simp add: fo del: last.simps)
  have hd: "head_node l \<notin> set (Ls 0)" and mh: "max_height l - 1 < kMaxHeight" using inv by (auto simp: skip_inv_def)
  have key: "Node_key (Ls 0 ! i) l = Some (ks ! i)" if "i < length ks" for i
    using level_node(2) [OF inv z, of "Ls 0 ! i"] that ks by simp
  have "iter_Seek cmp k l = Some (pos (length (takeWhile (before cmp k) ks)))" if "k \<in> K" for k
  proof -
    have "length (takeWhile (before cmp k) ks) = length (takeWhile (\<lambda>x. before cmp k (key_at l x)) (Ls 0))" by (simp add: ks takeWhile_map o_def)
    then show ?thesis using find_ge_start [OF inv that, of None] fo
      by (simp add: iter_Seek_def succ_at_def dropWhile_eq_drop)
  qed
  moreover have "iter_Next (pos i) l = Some (pos (Suc i))" if "i < length ks" for i
  proof -
    have "take (Suc i) (Ls 0) = take i (Ls 0) @ [Ls 0 ! i]" using that by (simp add: ks take_Suc_conv_app_nth)
    then have "Node_Next (Ls 0 ! i) 0 l = Some (pos (Suc i))" using nxt [of "Suc i"] by simp
    then show ?thesis using that by (simp add: pos_def iter_Next_def)
  qed
  moreover have "iter_Prev cmp (pos i) l = Some (if i = 0 then None else pos (i - 1))" if i: "i < length ks" for i
  proof -
    have kK: "ks ! i \<in> K" using holds_sorted(2) [OF assms] i nth_mem by blast
    have so: "sorted_wrt (\<lambda>a b. before cmp b a) ks" by (rule holds_sorted(1) [OF assms])
    have "before cmp (ks ! i) (ks ! j)" if "j < i" for j using sorted_wrt_nth_less [OF so that i] .
    then have "takeWhile (\<lambda>x. before cmp (ks ! i) (key_at l x)) (Ls 0) = take i (Ls 0)"
      by (intro takeWhile_eq_take_P_nth) (use i before_irrefl [OF kK] in \<open>auto simp: ks\<close>)
    then have "FindLessThan cmp (ks ! i) l = Some (last (head_node l # take i (Ls 0)))"
      using find_lt_ok [OF inv kK mh, of "head_node l"] by (simp add: FindLessThan_def place_def pred_at_def del: last.simps)
    moreover have "last (head_node l # take i (Ls 0)) = (if i = 0 then head_node l else Ls 0 ! (i - 1))"
      using i by (cases i) (auto simp: ks take_Suc_conv_app_nth)
    moreover have "Ls 0 ! (i - 1) \<noteq> head_node l" if "i \<noteq> 0"
      using hd i unfolding ks length_map by (metis diff_le_self le_less_trans nth_mem)
    moreover have "i - 1 < length ks" using i by simp
    ultimately show ?thesis using key [OF i] i by (simp add: iter_Prev_def pos_def)
  qed
  moreover have "iter_SeekToLast l = Some (pos (length ks - 1))"
  proof -
    have "FindLast l = Some (last (head_node l # Ls 0))" unfolding FindLast_def using find_last_ok [OF inv mh, of "head_node l"] by simp
    then show ?thesis using hd by (cases "Ls 0" rule: rev_cases) (auto simp: iter_SeekToLast_def pos_def ks nth_append)
  qed
  moreover have "iter_key (pos i) l = (if i < length ks then Some (ks ! i) else None)" "iter_Valid (pos i) \<longleftrightarrow> i < length ks" for i
    using key by (simp_all add: pos_def iter_key_def iter_Valid_def)
  moreover have "iter_SeekToFirst l = Some (pos 0)" using nxt [of 0] by (simp add: iter_SeekToFirst_def)
  ultimately show ?thesis by blast
qed

end

text \<open>
  C9: the skip list implements a sorted sequence. Over keys on which the comparator is a total order: a new list is empty; inserting a key to which no
  key in the list is equal ends, without a failed assertion or a wild access, and puts the key into its place in the order, whatever height the new node gets; and
  \<^verbatim>\<open>Contains\<close> tells whether an equal key is in the list.
\<close>

theorem skip_list_correct:
  assumes "key_order cmp K"
  shows "skip_holds cmp K (new_SkipList k0) [] \<and>
    (\<forall>l ks. skip_holds cmp K l ks \<longrightarrow>
       sorted_wrt (\<lambda>a b. before cmp b a) ks \<and>
       (\<forall>k \<in> K. (\<forall>y \<in> set ks. before cmp k y \<or> before cmp y k) \<longrightarrow>
          (\<exists>l'. skip_Insert cmp k l = Some l' \<and> skip_holds cmp K l' (insert_key cmp k ks))) \<and>
       (\<forall>k \<in> K. Contains cmp k l = Some (\<exists>y \<in> set ks. \<not> before cmp k y \<and> \<not> before cmp y k)))"
  using key_order.new_ok [OF assms] key_order.insert_ok [OF assms] key_order.contains_ok [OF assms] key_order.holds_sorted(1) [OF assms]
  by blast

theorem skip_list_correct_witness:
  "\<exists>l. skip_Insert (Compare BytewiseComparator) [7] (new_SkipList []) = Some l \<and> skip_holds (Compare BytewiseComparator) UNIV l [[7]] \<and>
    Contains (Compare BytewiseComparator) [7] l = Some True"
proof -
  note C = skip_list_correct [OF bytewise.key_order_axioms]
  have "skip_holds (Compare BytewiseComparator) UNIV (new_SkipList []) []" using C by blast
  then obtain l where l: "skip_Insert (Compare BytewiseComparator) [7] (new_SkipList []) = Some l"
      "skip_holds (Compare BytewiseComparator) UNIV l (insert_key (Compare BytewiseComparator) [7] [])"
    using C by fastforce
  then have "Contains (Compare BytewiseComparator) [7] l = Some (\<exists>y \<in> set (insert_key (Compare BytewiseComparator) [7] []).
      \<not> before (Compare BytewiseComparator) [7] y \<and> \<not> before (Compare BytewiseComparator) y [7])"
    using C by blast
  then show ?thesis using l by (simp add: insert_key_def before_def)
qed

text \<open>
  C15: the iterators of a skip list walk along its keys. There is a position for each index of the sequence \<open>ks\<close> of keys, and one after the end that is not
  valid: the first and the last position are found, \<^verbatim>\<open>Seek\<close> finds the first key that is not before its target, \<^verbatim>\<open>Next\<close> and \<^verbatim>\<open>Prev\<close> go one further
  and one back.
\<close>

theorem skip_iterator_correct:
  assumes "key_order cmp K" and "skip_holds cmp K l ks"
  shows "\<exists>pos. (\<forall>i. iter_key (pos i) l = (if i < length ks then Some (ks ! i) else None)) \<and> (\<forall>i. iter_Valid (pos i) \<longleftrightarrow> i < length ks) \<and>
    iter_SeekToFirst l = Some (pos 0) \<and> iter_SeekToLast l = Some (pos (length ks - 1)) \<and>
    (\<forall>k \<in> K. iter_Seek cmp k l = Some (pos (length (takeWhile (before cmp k) ks)))) \<and>
    (\<forall>i < length ks. iter_Next (pos i) l = Some (pos (Suc i))) \<and>
    (\<forall>i < length ks. iter_Prev cmp (pos i) l = Some (if i = 0 then None else pos (i - 1)))"
  by (rule key_order.iterators_ok [OF assms])

theorem skip_iterator_correct_witness:
  "\<exists>l it. skip_Insert (Compare BytewiseComparator) [7] (new_SkipList []) = Some l \<and> iter_SeekToFirst l = Some it \<and>
     iter_Seek (Compare BytewiseComparator) [3] l = Some it \<and> iter_key it l = Some [7] \<and> iter_Next it l = Some None \<and>
     iter_Prev (Compare BytewiseComparator) it l = Some None"
proof -
  let ?c = "Compare BytewiseComparator"
  have "skip_holds ?c UNIV (new_SkipList []) []" by (rule bytewise.new_ok)
  then obtain l where l: "skip_Insert ?c [7] (new_SkipList []) = Some l" "skip_holds ?c UNIV l (insert_key ?c [7] [])"
    using bytewise.insert_ok [of "new_SkipList []" "[]" "[7]"] by auto
  have k: "insert_key ?c [7] [] = [[7]]" by (simp add: insert_key_def)
  have b: "before ?c [3] [7] = False" by (unfold before_def) code_simp
  from skip_iterator_correct [OF bytewise.key_order_axioms l(2)] obtain pos where
    p: "\<forall>i. iter_key (pos i) l = (if i < length [[7 :: u8]] then Some ([[7]] ! i) else None)" "\<forall>i. iter_Valid (pos i) \<longleftrightarrow> i < length [[7 :: u8]]"
      "iter_SeekToFirst l = Some (pos 0)" "iter_Seek ?c [3] l = Some (pos (length (takeWhile (before ?c [3]) [[7]])))"
      "\<forall>i < length [[7 :: u8]]. iter_Next (pos i) l = Some (pos (Suc i))"
      "\<forall>i < length [[7 :: u8]]. iter_Prev ?c (pos i) l = Some (if i = 0 then None else pos (i - 1))"
    unfolding k by blast
  have "pos 1 = None" using p(2) [rule_format, of 1] by (simp add: iter_Valid_def)
  then show ?thesis using l(1) p b by auto
qed

subsection \<open>Readers beside a writer\<close>

text \<open>
  Insertions are synchronised with each other, but readers are not. The writer makes one store to the shared memory at a time: the height of the list, the
  links of the new node and the links to it. A reader makes one read at a time: the height, then a link in each round of \<^verbatim>\<open>FindGreaterOrEqual\<close>. Both
  alternate in any way. Reads and writes are taken to be sequentially consistent.
\<close>

datatype writer = Idle | Linking nat "nat \<rightharpoonup> nat" nat nat | Publishing nat "nat \<rightharpoonup> nat" nat nat

datatype reader = Begin | Reading nat nat | Found "nat option"

inductive writer_step :: "'k compare \<Rightarrow> 'k set \<Rightarrow> 'k skip_list \<times> writer \<Rightarrow> 'k skip_list \<times> writer \<Rightarrow> bool" for cmp K where
  start_insert: "k \<in> K \<Longrightarrow> Contains cmp k l = Some False \<Longrightarrow> insert_prepare cmp k l = Some (x, prev, h, l') \<Longrightarrow>
    writer_step cmp K (l, Idle) (l', Linking x prev 0 h)"
| store_own: "i < h \<Longrightarrow> link_own x prev i l = Some l' \<Longrightarrow> writer_step cmp K (l, Linking x prev i h) (l', Publishing x prev i h)"
| store_prev: "link_prev x prev i l = Some l' \<Longrightarrow> writer_step cmp K (l, Publishing x prev i h) (l', Linking x prev (Suc i) h)"
| end_insert: "writer_step cmp K (l, Linking x prev h h) (l, Idle)"

inductive reader_step :: "'k compare \<Rightarrow> 'k \<Rightarrow> 'k skip_list \<Rightarrow> reader \<Rightarrow> reader \<Rightarrow> bool" for cmp k l where
  read_height: "reader_step cmp k l Begin (Reading (head_node l) (max_height l - 1))"
| read_on: "Node_Next x lev l = Some (Some y) \<Longrightarrow> KeyIsAfterNode cmp k (Some y) l = Some True \<Longrightarrow>
    reader_step cmp k l (Reading x lev) (Reading y lev)"
| read_down: "Node_Next x (Suc lev) l = Some n \<Longrightarrow> KeyIsAfterNode cmp k n l = Some False \<Longrightarrow>
    reader_step cmp k l (Reading x (Suc lev)) (Reading x lev)"
| read_found: "Node_Next x 0 l = Some n \<Longrightarrow> KeyIsAfterNode cmp k n l = Some False \<Longrightarrow> reader_step cmp k l (Reading x 0) (Found n)"

inductive reachable_rw :: "'k compare \<Rightarrow> 'k set \<Rightarrow> 'k \<Rightarrow> 'k skip_list \<Rightarrow> writer \<Rightarrow> reader \<Rightarrow> bool" for cmp K k where
  rw_new: "reachable_rw cmp K k (new_SkipList k0) Idle Begin"
| rw_write: "reachable_rw cmp K k l w r \<Longrightarrow> writer_step cmp K (l, w) (l', w') \<Longrightarrow> reachable_rw cmp K k l' w' r"
| rw_read: "reachable_rw cmp K k l w r \<Longrightarrow> reader_step cmp k l r r' \<Longrightarrow> reachable_rw cmp K k l w r'"

text \<open>What holds of the three: the writer is in the middle of its work, and the reader is at a place from which its search can go on.\<close>

definition writer_ok :: "'k compare \<Rightarrow> 'k set \<Rightarrow> 'k skip_list \<Rightarrow> writer \<Rightarrow> (nat \<Rightarrow> nat list) \<Rightarrow> bool" where
  "writer_ok cmp K l w Ls \<longleftrightarrow>
     (case w of
        Idle \<Rightarrow> skip_inv cmp K l Ls
      | Linking x prev i h \<Rightarrow> linking cmp K l Ls x prev i h
      | Publishing x prev i h \<Rightarrow> linking cmp K l Ls x prev i h \<and> i < h \<and> Node_Next x i l = Some (succ_at cmp (key_at l x) l (Ls i)))"

definition reader_ok :: "'k compare \<Rightarrow> 'k \<Rightarrow> 'k skip_list \<Rightarrow> reader \<Rightarrow> (nat \<Rightarrow> nat list) \<Rightarrow> bool" where
  "reader_ok cmp k l r Ls \<longleftrightarrow> (case r of Reading x lev \<Rightarrow> lev < kMaxHeight \<and> place cmp k l (Ls lev) x | _ \<Rightarrow> True)"

lemma writer_ok_inv: "writer_ok cmp K l w Ls \<Longrightarrow> skip_inv cmp K l Ls"
  by (auto simp: writer_ok_def linking_def split: writer.splits)

context key_order
begin

lemma writer_moves:
  assumes "writer_ok cmp K l w Ls" and "writer_step cmp K (l, w) (l', w')"
  shows "\<exists>Ls'. writer_ok cmp K l' w' Ls' \<and> head_node l' = head_node l \<and> (\<forall>lev < kMaxHeight. set (Ls lev) \<subseteq> set (Ls' lev)) \<and>
    (\<forall>y \<in> set (Ls 0). key_at l' y = key_at l y) \<and>
    map (key_at l') (Ls' 0) = (case w of Publishing x prev 0 h \<Rightarrow> insert_key cmp (key_at l x) (map (key_at l) (Ls 0)) | _ \<Rightarrow> map (key_at l) (Ls 0))"
  using assms(2,1)
proof (cases cmp K "(l, w)" "(l', w')" rule: writer_step.cases)
  case (start_insert k x prev h)
  have inv: "skip_inv cmp K l Ls" using assms(1) start_insert by (simp add: writer_ok_def)
  then have "skip_holds cmp K l (map (key_at l) (Ls 0))" by (auto simp: skip_holds_def)
  from contains_ok [OF this start_insert(3)] start_insert(4)
  have "\<forall>y \<in> set (Ls 0). before cmp k (key_at l y) \<or> before cmp (key_at l y) k" by auto
  from prepare_ok [OF inv start_insert(3) this] show ?thesis using start_insert by (intro exI [of _ Ls]) (auto simp: writer_ok_def)
next
  case (store_own i h x prev)
  then have "linking cmp K l Ls x prev i h" using assms(1) by (simp add: writer_ok_def)
  from link_own_ok [OF this] show ?thesis using store_own by (intro exI [of _ Ls]) (auto simp: writer_ok_def)
next
  case (store_prev x prev i h)
  then have "linking cmp K l Ls x prev i h" "i < h" "Node_Next x i l = Some (succ_at cmp (key_at l x) l (Ls i))"
    using assms(1) by (simp_all add: writer_ok_def)
  from link_prev_ok [OF this] show ?thesis using store_prev
    by (intro exI [of _ "Ls(i := place_node cmp l x (Ls i))"]) (auto simp: writer_ok_def place_node_keys split: nat.splits)
next
  case (end_insert x prev h)
  then show ?thesis using assms(1) by (intro exI [of _ Ls]) (auto simp: writer_ok_def linking_def)
qed

lemma reader_stays:
  assumes "reader_ok cmp k l r Ls" and inv: "skip_inv cmp K l Ls" and "head_node l' = head_node l"
    and "\<forall>lev < kMaxHeight. set (Ls lev) \<subseteq> set (Ls' lev)" and "\<forall>y \<in> set (Ls 0). key_at l' y = key_at l y"
  shows "reader_ok cmp k l' r Ls'"
  using assms levels_subset [OF inv] by (fastforce simp: reader_ok_def place_def split: reader.splits)

lemma reader_moves:
  assumes inv: "skip_inv cmp K l Ls" and k: "k \<in> K" and "reader_ok cmp k l r Ls"
  shows "(\<forall>r'. reader_step cmp k l r r' \<longrightarrow> reader_ok cmp k l r' Ls \<and> (\<forall>n. r' = Found n \<longrightarrow> n = succ_at cmp k l (Ls 0))) \<and>
    ((\<exists>n. r = Found n) \<or> (\<exists>r'. reader_step cmp k l r r'))"
proof (cases r)
  case Begin
  have "max_height l - 1 < kMaxHeight" using inv by (auto simp: skip_inv_def)
  then show ?thesis using Begin by (auto simp: reader_ok_def place_def elim: reader_step.cases intro: read_height)
next
  case (Reading x lev)
  then have lev: "lev < kMaxHeight" and x: "place cmp k l (Ls lev) x" using assms(3) by (simp_all add: reader_ok_def)
  obtain n where n: "Node_Next x lev l = Some n" "\<And>y. n = Some y \<Longrightarrow> y \<in> set (Ls lev)"
      "case n of None \<Rightarrow> x = pred_at cmp k l (Ls lev) \<and> succ_at cmp k l (Ls lev) = None
       | Some y \<Rightarrow> if before cmp k (key_at l y) then place cmp k l (Ls lev) y else x = pred_at cmp k l (Ls lev) \<and> succ_at cmp k l (Ls lev) = Some y"
    using place_next [OF inv lev k x] by blast
  note A = after_iff [OF inv lev k n(2)]
  have "reader_ok cmp k l r' Ls \<and> (\<forall>n. r' = Found n \<longrightarrow> n = succ_at cmp k l (Ls 0))" if "reader_step cmp k l r r'" for r'
    using that unfolding Reading
  proof (cases rule: reader_step.cases)
    case (read_on y)
    then show ?thesis using n A lev by (auto simp: reader_ok_def split: if_splits)
  next
    case (read_down lev' n')
    then show ?thesis using lev x place_down [OF inv, of lev' k x] by (auto simp: reader_ok_def)
  next
    case (read_found n')
    then show ?thesis using n A by (auto simp: reader_ok_def split: option.splits if_splits)
  qed
  moreover have "\<exists>r'. reader_step cmp k l r r'"
  proof (cases "KeyIsAfterNode cmp k n l = Some True")
    case True
    then obtain y where "n = Some y" by (cases n) (simp_all add: KeyIsAfterNode_def)
    then show ?thesis using True n(1) Reading by (auto intro: read_on)
  next
    case False
    then have "KeyIsAfterNode cmp k n l = Some False" using A by (auto split: option.splits)
    then show ?thesis using n(1) Reading by (cases lev) (auto intro: read_down read_found)
  qed
  ultimately show ?thesis by blast
next
  case (Found n)
  then show ?thesis using assms(3) by (auto elim: reader_step.cases)
qed

lemma reachable_ok:
  assumes k: "k \<in> K"
  shows "reachable_rw cmp K k l w r \<Longrightarrow> \<exists>Ls. writer_ok cmp K l w Ls \<and> reader_ok cmp k l r Ls"
proof (induction rule: reachable_rw.induct)
  case (rw_new k0)
  obtain Ls where "skip_inv cmp K (new_SkipList k0) Ls" using new_ok unfolding skip_holds_def by blast
  then show ?case by (intro exI [of _ Ls]) (simp add: writer_ok_def reader_ok_def)
next
  case (rw_write l w r l' w')
  then obtain Ls where Ls: "writer_ok cmp K l w Ls" "reader_ok cmp k l r Ls" by blast
  obtain Ls' where Ls': "writer_ok cmp K l' w' Ls'" "head_node l' = head_node l" "\<forall>lev < kMaxHeight. set (Ls lev) \<subseteq> set (Ls' lev)"
      "\<forall>y \<in> set (Ls 0). key_at l' y = key_at l y"
    using writer_moves [OF Ls(1) rw_write(2)] by blast
  then show ?case using reader_stays [OF Ls(2) writer_ok_inv [OF Ls(1)] Ls'(2-4)] by blast
next
  case (rw_read l w r r')
  then obtain Ls where Ls: "writer_ok cmp K l w Ls" "reader_ok cmp k l r Ls" by blast
  then show ?case using reader_moves [OF writer_ok_inv [OF Ls(1)] k Ls(2)] rw_read(2) by blast
qed

end

text \<open>
  C6: a lookup that runs beside insertions is correct. In every state that a writer and a reader that searches for \<open>k\<close> reach by any alternation of their single
  memory accesses, the list holds a sorted sequence \<open>ks\<close> of keys; the sequence changes in one store only, the one that links a new node at level 0, and then gets its
  key; the reader can always go on until it is done; and if its next read ends the search, the node it returns is the first of the present sequence whose key is
  not before \<open>k\<close>.
\<close>

theorem concurrent_lookup:
  assumes "key_order cmp K" and "k \<in> K" and "reachable_rw cmp K k l w r"
  shows "\<exists>ks. skip_holds cmp K l ks \<and>
    (\<forall>l' w'. writer_step cmp K (l, w) (l', w') \<longrightarrow>
       skip_holds cmp K l' (case w of Publishing x prev 0 h \<Rightarrow> insert_key cmp (key_at l x) ks | _ \<Rightarrow> ks)) \<and>
    ((\<exists>n. r = Found n) \<or> (\<exists>r'. reader_step cmp k l r r')) \<and>
    (\<forall>n. reader_step cmp k l r (Found n) \<longrightarrow> map_option (key_at l) n = first_of (dropWhile (before cmp k) ks))"
proof -
  obtain Ls where Ls: "writer_ok cmp K l w Ls" "reader_ok cmp k l r Ls" using key_order.reachable_ok [OF assms] by blast
  have inv: "skip_inv cmp K l Ls" by (rule writer_ok_inv [OF Ls(1)])
  let ?ks = "map (key_at l) (Ls 0)"
  have "skip_holds cmp K l' (case w of Publishing x prev 0 h \<Rightarrow> insert_key cmp (key_at l x) ?ks | _ \<Rightarrow> ?ks)"
    if "writer_step cmp K (l, w) (l', w')" for l' w'
    using key_order.writer_moves [OF assms(1) Ls(1) that] writer_ok_inv unfolding skip_holds_def by metis
  moreover have "map_option (key_at l) (succ_at cmp k l (Ls 0)) = first_of (dropWhile (before cmp k) ?ks)"
    by (simp add: succ_at_def dropWhile_map o_def)
  ultimately show ?thesis using key_order.reader_moves [OF assms(1) inv assms(2) Ls(2)] inv
    by (intro exI [of _ ?ks]) (auto simp: skip_holds_def)
qed

theorem concurrent_lookup_witness:
  "\<exists>l x prev h y lev l' ks. reachable_rw (Compare BytewiseComparator) UNIV [7] l (Publishing x prev 0 h) (Reading y lev) \<and>
    writer_step (Compare BytewiseComparator) UNIV (l, Publishing x prev 0 h) (l', Linking x prev 1 h) \<and>
    skip_holds (Compare BytewiseComparator) UNIV l ks \<and> skip_holds (Compare BytewiseComparator) UNIV l' (insert_key (Compare BytewiseComparator) [7] ks) \<and>
    (\<exists>r'. reader_step (Compare BytewiseComparator) [7] l (Reading y lev) r')"
proof -
  let ?c = "Compare BytewiseComparator" and ?l = "new_SkipList ([] :: slice)"
  have new: "skip_holds ?c UNIV ?l []" by (rule bytewise.new_ok)
  then obtain Ls where Ls: "skip_inv ?c UNIV ?l Ls" "Ls 0 = []" by (auto simp: skip_holds_def)
  obtain x prev h l1 where p: "insert_prepare ?c [7] ?l = Some (x, prev, h, l1)" "1 \<le> h" "linking ?c UNIV l1 Ls x prev 0 h" "key_at l1 x = [7]"
    using bytewise.prepare_ok [OF Ls(1), of "[7]"] Ls(2) by auto
  have "Contains ?c [7] ?l = Some False" using bytewise.contains_ok [OF new, of "[7]"] by simp
  then have w1: "writer_step ?c UNIV (?l, Idle) (l1, Linking x prev 0 h)" using p(1) by (intro start_insert) simp_all
  obtain l2 where o: "link_own x prev 0 l1 = Some l2" "linking ?c UNIV l2 Ls x prev 0 h" "Node_Next x 0 l2 = Some (succ_at ?c (key_at l2 x) l2 (Ls 0))"
      "key_at l2 = key_at l1"
    using bytewise.link_own_ok [OF p(3)] p(2) by auto
  have w2: "writer_step ?c UNIV (l1, Linking x prev 0 h) (l2, Publishing x prev 0 h)" using p(2) o(1) by (intro store_own) simp_all
  obtain l3 where "link_prev x prev 0 l2 = Some l3" using bytewise.link_prev_ok [OF o(2) _ o(3)] p(2) by auto
  then have w3: "writer_step ?c UNIV (l2, Publishing x prev 0 h) (l3, Linking x prev 1 h)" by (metis One_nat_def store_prev)
  have "reachable_rw ?c UNIV [7] ?l Idle (Reading (head_node ?l) (max_height ?l - 1))" by (rule rw_read [OF rw_new read_height])
  from rw_write [OF rw_write [OF this w1] w2]
  have r: "reachable_rw ?c UNIV [7] l2 (Publishing x prev 0 h) (Reading (head_node ?l) (max_height ?l - 1))" .
  from concurrent_lookup [OF bytewise.key_order_axioms UNIV_I this] obtain ks where ks: "skip_holds ?c UNIV l2 ks"
      "\<forall>l' w'. writer_step ?c UNIV (l2, Publishing x prev 0 h) (l', w') \<longrightarrow> skip_holds ?c UNIV l' (insert_key ?c (key_at l2 x) ks)"
      "\<exists>r'. reader_step ?c [7] l2 (Reading (head_node ?l) (max_height ?l - 1)) r'"
    by auto
  have "skip_holds ?c UNIV l3 (insert_key ?c [7] ks)" using ks(2) w3 o(4) p(4) by metis
  then show ?thesis using r w3 ks(1,3) by blast
qed

end
