(* ===== verification/Ldb_Memtable.thy ===== *)
theory Ldb_Memtable
  imports Ldb_Skip_Conc
begin

text \<open>
  The memtable, \<^verbatim>\<open>db/memtable.h\<close> and \<^verbatim>\<open>db/memtable.cc\<close>: a skip list of entries. An entry is the string of its bytes. As elsewhere, \<^const>\<open>None\<close> is a
  failed assertion, a wild access, or no return.
\<close>

subsection \<open>Operations\<close>

text \<open>\<^verbatim>\<open>GetLengthPrefixedSlice\<close> on a pointer: the string that lies there, and what follows it.\<close>

definition mem_slice :: "slice \<Rightarrow> (slice \<times> slice) option" where
  "mem_slice data =
     do {
       (len, rest) \<leftarrow> GetVarint32Ptr (take 5 data);
       let p = drop (length (take 5 data) - length rest) data;
       if unat len \<le> length p then Some (take (unat len) p, drop (unat len) p) else None
     }"

definition mem_compare :: "comparator \<Rightarrow> slice compare" where
  "mem_compare uc aptr bptr = do { (a, _) \<leftarrow> mem_slice aptr; (b, _) \<leftarrow> mem_slice bptr; Compare (InternalKeyComparator uc) a b }"

record memtable =
  mem_comparator :: comparator
  mem_refs :: int
  mem_table :: "slice skip_list"

text \<open>The key of the head node of the table is the null pointer.\<close>

definition new_MemTable :: "comparator \<Rightarrow> memtable" where
  "new_MemTable uc = \<lparr>mem_comparator = uc, mem_refs = 0, mem_table = new_SkipList []\<rparr>"

definition mem_Ref :: "memtable \<Rightarrow> memtable" where
  "mem_Ref m = m\<lparr>mem_refs := mem_refs m + 1\<rparr>"

text \<open>The result is \<^term>\<open>Some None\<close> if the table has been deleted.\<close>

definition mem_Unref :: "memtable \<Rightarrow> memtable option option" where
  "mem_Unref m =
     (let m = m\<lparr>mem_refs := mem_refs m - 1\<rparr> in
      if \<not> mem_refs m \<ge> 0 then None else if mem_refs m \<le> 0 then Some None else Some (Some m))"

definition EncodeKey :: "slice \<Rightarrow> slice" where
  "EncodeKey target = PutVarint32 [] (of_nat (length target)) @ target"

definition mem_Add :: "u64 \<Rightarrow> u8 \<Rightarrow> slice \<Rightarrow> slice \<Rightarrow> memtable \<Rightarrow> memtable option" where
  "mem_Add s type key value m =
     do {
       let key_size = length key;
       let val_size = length value;
       let internal_key_size = key_size + 8;
       let encoded_len = VarintLength (of_nat internal_key_size) + internal_key_size + VarintLength (of_nat val_size) + val_size;
       let buf = EncodeVarint32 (of_nat internal_key_size) @ key @ EncodeFixed64 (push_bit 8 s OR ucast type) @
                 EncodeVarint32 (of_nat val_size) @ value;
       if length buf = encoded_len then
         do { t \<leftarrow> skip_Insert (mem_compare (mem_comparator m)) buf (mem_table m); Some (m\<lparr>mem_table := t\<rparr>) }
       else None
     }"

text \<open>What \<^verbatim>\<open>Get\<close> returns: false, or true with a value, or true with the status \<^verbatim>\<open>NotFound\<close>.\<close>

datatype get_result = Not_here | Value slice | Deleted

definition mem_Get :: "lookup_key \<Rightarrow> memtable \<Rightarrow> get_result option" where
  "mem_Get key m =
     do {
       let memkey = memtable_key key;
       iter \<leftarrow> iter_Seek (mem_compare (mem_comparator m)) memkey (mem_table m);
       if iter_Valid iter then
         do {
           entry \<leftarrow> iter_key iter (mem_table m);
           (key_length, rest) \<leftarrow> GetVarint32Ptr (take 5 entry);
           let key_ptr = drop (length (take 5 entry) - length rest) entry;
           r \<leftarrow> Compare (mem_comparator m) (take (unat (key_length - 8)) key_ptr) (lk_user_key key);
           if r = 0 then
             let tag = DecodeFixed64 (drop (unat (key_length - 8)) key_ptr);
                 c = ucast (tag AND 0xff) :: u8
             in if c = kTypeValue then do { (v, _) \<leftarrow> mem_slice (drop (unat key_length) key_ptr); Some (Value v) }
                else if c = kTypeDeletion then Some Deleted
                else Some Not_here
           else Some Not_here
         }
       else Some Not_here
     }"

text \<open>The iterators of a memtable.\<close>

definition mem_iter_Seek :: "slice \<Rightarrow> memtable \<Rightarrow> nat option option" where
  "mem_iter_Seek k m = iter_Seek (mem_compare (mem_comparator m)) (EncodeKey k) (mem_table m)"

definition mem_iter_key :: "nat option \<Rightarrow> memtable \<Rightarrow> slice option" where
  "mem_iter_key it m = do { e \<leftarrow> iter_key it (mem_table m); (k, _) \<leftarrow> mem_slice e; Some k }"

definition mem_iter_value :: "nat option \<Rightarrow> memtable \<Rightarrow> slice option" where
  "mem_iter_value it m = do { e \<leftarrow> iter_key it (mem_table m); (k, rest) \<leftarrow> mem_slice e; (v, _) \<leftarrow> mem_slice rest; Some v }"

subsection \<open>Entries\<close>

definition seq_tag :: "u64 \<Rightarrow> u8 \<Rightarrow> u64" where
  "seq_tag s t = push_bit 8 s OR ucast t"

text \<open>The strings that begin with a key of the memtable.\<close>

definition mem_key :: "slice \<Rightarrow> u64 \<Rightarrow> slice \<Rightarrow> slice" where
  "mem_key u n rest = EncodeVarint32 (of_nat (length u + 8)) @ ikey u n @ rest"

definition mem_keys :: "slice set" where
  "mem_keys = {mem_key u n rest | u n rest. length u + 8 < 2 ^ 32}"

lemma varint32_short: "length (EncodeVarint32 v) \<le> 5"
  by (simp add: EncodeVarint32_def Let_def)

lemma varint32_prefix: "GetVarint32Ptr (take 5 (EncodeVarint32 v @ rest)) = Some (v, take (5 - length (EncodeVarint32 v)) rest)"
proof -
  have "take 5 (EncodeVarint32 v @ rest) = EncodeVarint32 v @ take (5 - length (EncodeVarint32 v)) rest" using varint32_short [of v] by simp
  then show ?thesis using get_varint32 [of v "take (5 - length (EncodeVarint32 v)) rest"] by (simp add: GetVarint32_def)
qed

lemma varint32_rest:
  "drop (length (take 5 (EncodeVarint32 v @ rest)) - length (take (5 - length (EncodeVarint32 v)) rest)) (EncodeVarint32 v @ rest) = rest"
  using varint32_short [of v] by (auto simp: min_def)

lemma mem_slice_ok: "length x < 2 ^ 32 \<Longrightarrow> mem_slice (EncodeVarint32 (of_nat (length x)) @ x @ rest) = Some (x, rest)"
  unfolding mem_slice_def varint32_prefix Let_def bind.bind_lunit prod.case varint32_rest by (simp add: unat_of_nat_lt)

lemma mem_slice_key: "length u + 8 < 2 ^ 32 \<Longrightarrow> mem_slice (mem_key u n rest) = Some (ikey u n, rest)"
  using mem_slice_ok [of "ikey u n" rest] by (simp add: mem_key_def)

lemma mem_compare_key:
  assumes "length u + 8 < 2 ^ 32" and "length v + 8 < 2 ^ 32"
  shows "mem_compare BytewiseComparator (mem_key u n r) (mem_key v m r') =
    Some (if ikey_less (u, n) (v, m) then - 1 else if u = v \<and> n = m then 0 else 1)"
  using assms by (simp add: mem_compare_def mem_slice_key InternalKeyComparator_def internal_compare_ikey)

interpretation mem: key_order "mem_compare BytewiseComparator" mem_keys
proof
  show "\<exists>r. mem_compare BytewiseComparator a b = Some r" if "a \<in> mem_keys" "b \<in> mem_keys" for a b
    using that by (auto simp: mem_keys_def mem_compare_key)
  show "r < 0 \<longleftrightarrow> 0 < s"
    if "a \<in> mem_keys" "b \<in> mem_keys" "mem_compare BytewiseComparator a b = Some r" "mem_compare BytewiseComparator b a = Some s" for a b r s
    using that by (auto simp: mem_keys_def mem_compare_key ikey_less_def split: if_splits)
  show "t \<le> 0" if "a \<in> mem_keys" "b \<in> mem_keys" "c \<in> mem_keys" "mem_compare BytewiseComparator a b = Some r"
    "mem_compare BytewiseComparator b c = Some s" "mem_compare BytewiseComparator a c = Some t" "r \<le> 0" "s \<le> 0" for a b c r s t
    using that by (auto simp: mem_keys_def mem_compare_key ikey_less_def split: if_splits)
qed

text \<open>An entry: user key, sequence number, type and value.\<close>

type_synonym mem_entry = "slice \<times> u64 \<times> u8 \<times> slice"

definition entry_bytes :: "mem_entry \<Rightarrow> slice" where
  "entry_bytes = (\<lambda>(u, s, t, v). mem_key u (seq_tag s t) (EncodeVarint32 (of_nat (length v)) @ v))"

definition entry_ok :: "mem_entry \<Rightarrow> bool" where
  "entry_ok = (\<lambda>(u, s, t, v). length u + 8 < 2 ^ 32 \<and> length v < 2 ^ 32 \<and> s \<le> kMaxSequenceNumber \<and> t \<in> {kTypeDeletion, kTypeValue})"

definition entry_seq :: "mem_entry \<Rightarrow> u64" where
  "entry_seq = (\<lambda>(u, s, t, v). s)"

lemma unat_tag:
  assumes "s \<le> kMaxSequenceNumber"
  shows "unat (seq_tag s t) = unat s * 256 + unat t"
proof -
  have s: "unat s < 2 ^ 56" using assms by (simp add: kMaxSequenceNumber_def word_le_nat_alt)
  have "bit (push_bit 8 s) i \<Longrightarrow> \<not> bit (ucast t :: u64) i" for i using bit_imp_le_length [of t i] by (auto simp: bit_push_bit_iff bit_unsigned_iff)
  then have "push_bit 8 s AND ucast t = (0 :: u64)" by (auto intro!: bit_word_eqI simp: bit_and_iff)
  then have "seq_tag s t = push_bit 8 s + ucast t" unfolding seq_tag_def by (simp add: disjunctive_add_eq_or)
  moreover have "unat (push_bit 8 s) = unat s * 256" using s by (simp add: push_bit_eq_mult unat_word_ariths)
  moreover have "unat (ucast t :: u64) = unat t" by (simp add: unsigned_ucast_eq take_bit_nat_eq_self unat_bound less_trans [OF unat_bound])
  ultimately show ?thesis using s unat_bound [of t] by (simp add: unat_word_ariths)
qed

lemma tag_less_iff:
  assumes "s \<le> kMaxSequenceNumber" and "s' \<le> kMaxSequenceNumber"
  shows "seq_tag s t < seq_tag s' t' \<longleftrightarrow> s < s' \<or> s = s' \<and> t < t'"
proof -
  have "unat t < 256" "unat t' < 256" using unat_bound [of t] unat_bound [of t'] by simp_all
  moreover have "a * 256 + c < b * 256 + d \<longleftrightarrow> a < b \<or> a = b \<and> c < d" if "c < 256" "d < 256" for a b c d :: nat
    using that by (cases a b rule: linorder_cases) auto
  ultimately have "unat s * 256 + unat t < unat s' * 256 + unat t' \<longleftrightarrow> unat s < unat s' \<or> unat s = unat s' \<and> unat t < unat t'" by blast
  then show ?thesis using assms by (simp add: word_less_nat_alt unat_tag word_unat_eq_iff)
qed

lemma tag_type: "(ucast (seq_tag s t AND 0xff) :: u8) = t"
proof (rule bit_word_eqI)
  fix n assume n: "n < LENGTH(8)"
  have m: "(0xff :: u64) = mask 8" by (simp add: mask_eq_exp_minus_1)
  show "bit (ucast (seq_tag s t AND 0xff) :: u8) n \<longleftrightarrow> bit t n"
    unfolding m using n by (auto simp: seq_tag_def bit_unsigned_iff bit_and_iff bit_or_iff bit_push_bit_iff bit_mask_iff)
qed

lemma before_entry:
  assumes "length u + 8 < 2 ^ 32" and "length v + 8 < 2 ^ 32"
  shows "before (mem_compare BytewiseComparator) (mem_key v m r') (mem_key u n r) \<longleftrightarrow> ikey_less (u, n) (v, m)"
  using assms by (simp add: before_def mem_compare_key)

lemma entry_in_keys: "entry_ok e \<Longrightarrow> entry_bytes e \<in> mem_keys"
  by (auto simp: entry_ok_def entry_bytes_def mem_keys_def)

text \<open>The memtable holds the entries \<open>es\<close>, in the order in which they were added.\<close>

definition mem_holds :: "memtable \<Rightarrow> mem_entry list \<Rightarrow> bool" where
  "mem_holds m es \<longleftrightarrow>
     mem_comparator m = BytewiseComparator \<and> (\<forall>e \<in> set es. entry_ok e) \<and> sorted_wrt (\<lambda>a b. entry_seq a < entry_seq b) es \<and>
     (\<exists>ks. skip_holds (mem_compare BytewiseComparator) mem_keys (mem_table m) ks \<and> set ks = entry_bytes ` set es)"

lemma new_memtable_ok: "mem_holds (new_MemTable BytewiseComparator) []"
  using mem.new_ok [of "[]"] by (simp add: mem_holds_def new_MemTable_def)

lemma varint_length_32: "n < 2 ^ 32 \<Longrightarrow> VarintLength (of_nat n) = length (EncodeVarint32 (of_nat n))"
proof -
  assume "n < 2 ^ 32"
  then have "(ucast (of_nat n :: u32) :: u64) = of_nat n" by (simp add: word_unat_eq_iff unat_ucast_u32 unat_of_nat_lt)
  then show ?thesis by (simp add: varint_length_64 encode_varint32 encode_varint64)
qed

lemma set_insert_key [simp]: "set (insert_key cmp k ks) = insert k (set ks)"
proof -
  have "set (takeWhile (before cmp k) ks) \<union> set (dropWhile (before cmp k) ks) = set ks" by (metis set_append takeWhile_dropWhile_id)
  then show ?thesis by (auto simp: insert_key_def)
qed

lemma add_ok:
  assumes m: "mem_holds m es" and e: "entry_ok (u, s, t, v)" and new: "\<forall>e \<in> set es. entry_seq e < s"
  shows "\<exists>m'. mem_Add s t u v m = Some m' \<and> mem_holds m' (es @ [(u, s, t, v)])"
proof -
  let ?b = "entry_bytes (u, s, t, v)" and ?cmp = "mem_compare BytewiseComparator"
  obtain ks where ks: "skip_holds ?cmp mem_keys (mem_table m) ks" "set ks = entry_bytes ` set es" using m by (auto simp: mem_holds_def)
  have "before ?cmp ?b y \<or> before ?cmp y ?b" if "y \<in> set ks" for y
  proof -
    obtain u' s' t' v' where e': "(u', s', t', v') \<in> set es" "y = entry_bytes (u', s', t', v')" using \<open>y \<in> set ks\<close> ks(2) by auto
    have "s' < s" "entry_ok (u', s', t', v')" using e' new m by (auto simp: entry_seq_def mem_holds_def)
    then show ?thesis using e e'(2) by (auto simp: entry_bytes_def before_entry entry_ok_def ikey_less_def tag_less_iff)
  qed
  then obtain l where l: "skip_Insert ?cmp ?b (mem_table m) = Some l" "skip_holds ?cmp mem_keys l (insert_key ?cmp ?b ks)"
    using mem.insert_ok [OF ks(1) entry_in_keys [OF e]] by blast
  have b: "EncodeVarint32 (of_nat (length u + 8)) @ u @ EncodeFixed64 (push_bit 8 s OR ucast t) @ EncodeVarint32 (of_nat (length v)) @ v = ?b"
    by (simp add: entry_bytes_def mem_key_def ikey_def seq_tag_def)
  have len: "length ?b = VarintLength (of_nat (length u + 8)) + (length u + 8) + VarintLength (of_nat (length v)) + length v"
    using e varint_length_32 [of "length u + 8"] varint_length_32 [of "length v"]
    by (simp add: entry_ok_def entry_bytes_def mem_key_def ikey_def)
  have "mem_Add s t u v m = Some (m\<lparr>mem_table := l\<rparr>)"
    unfolding mem_Add_def Let_def b using l(1) len m by (simp add: mem_holds_def)
  moreover have "mem_holds (m\<lparr>mem_table := l\<rparr>) (es @ [(u, s, t, v)])"
    using m e new l(2) ks(2) by (auto simp: mem_holds_def sorted_wrt_append entry_seq_def intro!: exI [of _ "insert_key ?cmp ?b ks"])
  ultimately show ?thesis by blast
qed

subsection \<open>Lookup\<close>

text \<open>What a memtable holds for the user key \<open>u\<close> at the snapshot \<open>s\<close>: the last entry added for it with a sequence number up to \<open>s\<close>.\<close>

definition visible :: "mem_entry list \<Rightarrow> slice \<Rightarrow> u64 \<Rightarrow> get_result" where
  "visible es u s =
     (let xs = filter (\<lambda>(u', s', t, v). u' = u \<and> s' \<le> s) es
      in if xs = [] then Not_here else (case last xs of (_, _, t, v) \<Rightarrow> if t = kTypeValue then Value v else Deleted))"

lemma lookup_key_ok:
  assumes "s \<le> kMaxSequenceNumber"
  shows "\<exists>lk. LookupKey u s = Some lk \<and> memtable_key lk = mem_key u (seq_tag s kTypeValue) [] \<and> lk_user_key lk = u"
proof -
  have "PackSequenceAndType s kValueTypeForSeek = Some (seq_tag s kTypeValue)"
    using assms by (simp add: PackSequenceAndType_def seq_tag_def kValueTypeForSeek_def)
  then show ?thesis by (simp add: LookupKey_def memtable_key_def lk_user_key_def mem_key_def ikey_def Let_def)
qed

lemma last_filter_max:
  assumes "sorted_wrt (\<lambda>a b. entry_seq a < entry_seq b) es" and "xs = filter P es" and "xs \<noteq> []" and "a \<in> set xs"
  shows "entry_seq a \<le> entry_seq (last xs)" "entry_seq a = entry_seq (last xs) \<Longrightarrow> a = last xs"
proof -
  have s: "sorted_wrt (\<lambda>a b. entry_seq a < entry_seq b) xs" unfolding assms(2) by (rule sorted_wrt_filter [OF assms(1)])
  obtain ys z where ys: "xs = ys @ [z]" using assms(3) by (cases xs rule: rev_cases) auto
  then have "a = z \<or> entry_seq a < entry_seq z" using s assms(4) by (auto simp: sorted_wrt_append)
  then have "a = last xs \<or> entry_seq a < entry_seq (last xs)" using ys by simp
  then show "entry_seq a \<le> entry_seq (last xs)" "entry_seq a = entry_seq (last xs) \<Longrightarrow> a = last xs" by auto
qed

lemma get_entry:
  assumes m: "mem_comparator m = BytewiseComparator" and "iter_Seek (mem_compare BytewiseComparator) (memtable_key lk) (mem_table m) = Some it"
    and "iter_Valid it" and it: "iter_key it (mem_table m) = Some (entry_bytes (u, s, t, v))" and e: "entry_ok (u, s, t, v)"
  shows "mem_Get lk m = Some (if u = lk_user_key lk then if t = kTypeValue then Value v else Deleted else Not_here)"
proof -
  let ?L = "of_nat (length u + 8) :: u32" and ?r = "ikey u (seq_tag s t) @ EncodeVarint32 (of_nat (length v)) @ v"
  have l1: "unat ?L = length u + 8" by (rule unat_of_nat_lt) (use e in \<open>simp add: entry_ok_def\<close>)
  have l: "unat (?L - 8) = length u" "unat ?L = length u + 8" using e l1 by (simp_all add: entry_ok_def unat_of_nat_lt)
  have b: "entry_bytes (u, s, t, v) = EncodeVarint32 ?L @ ?r" by (simp add: entry_bytes_def mem_key_def)
  have d: "take (length u) ?r = u" "DecodeFixed64 (drop (length u) ?r) = seq_tag s t" "drop (length u + 8) ?r = EncodeVarint32 (of_nat (length v)) @ v"
    by (simp_all add: ikey_def)
  have v: "mem_slice (EncodeVarint32 (of_nat (length v)) @ v) = Some (v, [])" using mem_slice_ok [of v "[]"] e by (simp add: entry_ok_def)
  have t: "t = kTypeValue \<or> t = kTypeDeletion" "kTypeValue \<noteq> kTypeDeletion" using e by (auto simp: entry_ok_def kTypeValue_def kTypeDeletion_def)
  show ?thesis
    unfolding mem_Get_def Let_def m assms(2) bind.bind_lunit it b varint32_prefix prod.case varint32_rest l d tag_type
    using assms(3) v t by (auto simp: bytewise_compare)
qed

lemma get_ok:
  assumes m: "mem_holds m es" and lk: "memtable_key lk = mem_key u (seq_tag s kTypeValue) []" "lk_user_key lk = u"
    and u: "length u + 8 < 2 ^ 32" and s: "s \<le> kMaxSequenceNumber"
  shows "mem_Get lk m = Some (visible es u s)"
proof -
  let ?cmp = "mem_compare BytewiseComparator" and ?k = "mem_key u (seq_tag s kTypeValue) []"
  let ?P = "\<lambda>(u', s', t, v). u' = u \<and> s' \<le> s"
  obtain ks where ks: "skip_holds ?cmp mem_keys (mem_table m) ks" "set ks = entry_bytes ` set es" and uc: "mem_comparator m = BytewiseComparator"
    using m by (auto simp: mem_holds_def)
  have ok: "entry_ok e" if "e \<in> set es" for e using m that by (simp add: mem_holds_def)
  define n where "n = length (takeWhile (before ?cmp ?k) ks)"
  obtain pos where pos: "iter_key (pos n) (mem_table m) = (if n < length ks then Some (ks ! n) else None)" "iter_Valid (pos n) \<longleftrightarrow> n < length ks"
      "iter_Seek ?cmp ?k (mem_table m) = Some (pos n)"
    using mem.iterators_ok [OF ks(1)] u unfolding n_def mem_keys_def by blast
  have vis: "before ?cmp ?k (entry_bytes (u', s', t', v')) \<longleftrightarrow> u' < u \<or> u' = u \<and> s < s'" if "(u', s', t', v') \<in> set es" for u' s' t' v'
    using ok [OF that] u s by (auto simp: entry_bytes_def before_entry entry_ok_def ikey_less_def tag_less_iff kTypeValue_def kTypeDeletion_def)
  define xs where "xs = filter ?P es"
  have drop: "entry_bytes e \<in> set (dropWhile (before ?cmp ?k) ks)" if "e \<in> set xs" for e
  proof -
    obtain u' s' t' v' where e: "e = (u', s', t', v')" by (cases e)
    then have "\<not> before ?cmp ?k (entry_bytes e)" "entry_bytes e \<in> set ks" using that vis [of u' s' t' v'] ks(2) by (auto simp: xs_def)
    then show ?thesis using set_takeWhileD [of _ "before ?cmp ?k" ks] by (metis Un_iff set_append takeWhile_dropWhile_id)
  qed
  show ?thesis
  proof (cases "n < length ks")
    case False
    then have "dropWhile (before ?cmp ?k) ks = []" by (simp add: n_def dropWhile_eq_drop del: dropWhile_eq_Nil_conv)
    then have "xs = []" using drop by (metis empty_iff empty_set last_in_set)
    moreover have "mem_Get lk m = Some Not_here" using False pos by (simp add: mem_Get_def uc lk)
    ultimately show ?thesis by (simp add: visible_def xs_def)
  next
    case True
    then have dw: "dropWhile (before ?cmp ?k) ks = ks ! n # drop (Suc n) ks" by (simp add: n_def dropWhile_eq_drop Cons_nth_drop_Suc)
    then have nb: "\<not> before ?cmp ?k (ks ! n)" by (simp add: dropWhile_eq_Cons_conv)
    obtain u0 s0 t0 v0 where e0: "(u0, s0, t0, v0) \<in> set es" "ks ! n = entry_bytes (u0, s0, t0, v0)"
      using nth_mem [OF True] ks(2) by auto
    have g: "mem_Get lk m = Some (if u0 = u then if t0 = kTypeValue then Value v0 else Deleted else Not_here)"
      using get_entry [OF uc _ _ _ ok [OF e0(1)], of lk "pos n"] pos True e0(2) lk by simp
    have le: "u0 = u \<and> s' \<le> s0" if "(u, s', t', v') \<in> set xs" for s' t' v'
    proof -
      have e': "(u, s', t', v') \<in> set es" "entry_ok (u, s', t', v')" using that ok by (auto simp: xs_def)
      have "sorted_wrt (\<lambda>a b. before ?cmp b a) (dropWhile (before ?cmp ?k) ks)"
        using mem.holds_sorted(1) [OF ks(1)] by (metis sorted_wrt_append takeWhile_dropWhile_id)
      then have "entry_bytes (u, s', t', v') = ks ! n \<or> before ?cmp (entry_bytes (u, s', t', v')) (ks ! n)"
        using drop [OF that] unfolding dw by auto
      moreover have "ks ! n \<in> mem_keys" "entry_bytes (u, s', t', v') \<in> mem_keys" using entry_in_keys ok e0 e' by simp_all
      ultimately have "\<not> before ?cmp (ks ! n) (entry_bytes (u, s', t', v'))" using mem.before_asym mem.before_irrefl by metis
      then have "\<not> u < u0 \<and> (u = u0 \<longrightarrow> \<not> s0 < s')"
        using ok [OF e0(1)] e'(2) unfolding e0(2) by (auto simp: entry_bytes_def before_entry entry_ok_def ikey_less_def tag_less_iff)
      moreover have "\<not> u0 < u" using nb vis [OF e0(1)] e0(2) by simp
      ultimately show ?thesis by auto
    qed
    show ?thesis
    proof (cases "u0 = u")
      case u0: True
      then have in_xs: "(u0, s0, t0, v0) \<in> set xs" using e0 nb vis [OF e0(1)] by (auto simp: xs_def)
      then have ne: "xs \<noteq> []" by auto
      note M = last_filter_max [of es xs ?P, OF _ xs_def ne in_xs]
      have so: "sorted_wrt (\<lambda>a b. entry_seq a < entry_seq b) es" using m by (simp add: mem_holds_def)
      obtain u1 s1 t1 v1 where l: "last xs = (u1, s1, t1, v1)" by (cases "last xs")
      then have "(u1, s1, t1, v1) \<in> set xs" using last_in_set [OF ne] by simp
      then have "s1 \<le> s0" using le [of s1 t1 v1] by (auto simp: xs_def)
      then have "last xs = (u0, s0, t0, v0)" using M [OF so] l by (auto simp: entry_seq_def)
      then show ?thesis unfolding visible_def xs_def [symmetric] Let_def using g u0 ne by simp
    next
      case False
      have "xs = []"
      proof (rule ccontr)
        assume "xs \<noteq> []"
        then have in_xs: "last xs \<in> set xs" by simp
        obtain u1 s1 t1 v1 where "last xs = (u1, s1, t1, v1)" by (cases "last xs")
        then have "(u, s1, t1, v1) \<in> set xs" using in_xs by (auto simp: xs_def)
        then show False using le False by blast
      qed
      then show ?thesis using g False by (simp add: visible_def xs_def)
    qed
  qed
qed

text \<open>Adding entries one after the other.\<close>

fun mem_add_all :: "mem_entry list \<Rightarrow> memtable \<Rightarrow> memtable option" where
  "mem_add_all [] m = Some m"
| "mem_add_all ((u, s, t, v) # es) m = do { m \<leftarrow> mem_Add s t u v m; mem_add_all es m }"

lemma add_all_entries:
  "mem_holds m es \<Longrightarrow> \<forall>e \<in> set fs. entry_ok e \<Longrightarrow> sorted_wrt (\<lambda>a b. entry_seq a < entry_seq b) (es @ fs) \<Longrightarrow>
   \<exists>m'. mem_add_all fs m = Some m' \<and> mem_holds m' (es @ fs)"
proof (induction fs arbitrary: m es)
  case (Cons f fs)
  obtain u s t v where f: "f = (u, s, t, v)" by (cases f)
  have "\<forall>e \<in> set es. entry_seq e < s" using Cons.prems(3) f by (auto simp: sorted_wrt_append entry_seq_def)
  then obtain m1 where m1: "mem_Add s t u v m = Some m1" "mem_holds m1 (es @ [f])" using add_ok [OF Cons.prems(1), of u s t v] Cons.prems(2) f by auto
  then show ?case using Cons.IH [OF m1(2)] Cons.prems(2,3) f by simp
qed simp

text \<open>
  C8: a memtable answers for each snapshot. If entries with increasing sequence numbers are added to a new memtable, each addition succeeds, and
  afterwards \<^verbatim>\<open>Get\<close> for a key at any sequence number gives the value, or the deletion, of the last entry for this key up to that number, and says that there is
  nothing in the table if there is no such entry. Sizes fit into 32 bits, as the format of an entry requires.
\<close>

theorem memtable_get:
  assumes "\<forall>e \<in> set es. entry_ok e" and "sorted_wrt (\<lambda>a b. entry_seq a < entry_seq b) es" and "length u + 8 < 2 ^ 32" and "s \<le> kMaxSequenceNumber"
  shows "\<exists>m lk. mem_add_all es (new_MemTable BytewiseComparator) = Some m \<and> LookupKey u s = Some lk \<and> mem_Get lk m = Some (visible es u s)"
proof -
  obtain m where m: "mem_add_all es (new_MemTable BytewiseComparator) = Some m" "mem_holds m es"
    using add_all_entries [OF new_memtable_ok assms(1)] assms(2) by auto
  obtain lk where lk: "LookupKey u s = Some lk" "memtable_key lk = mem_key u (seq_tag s kTypeValue) []" "lk_user_key lk = u"
    using lookup_key_ok [OF assms(4)] by blast
  show ?thesis using m(1) lk(1) get_ok [OF m(2) lk(2,3) assms(3,4)] by blast
qed

theorem memtable_get_witness:
  "\<exists>m lk. mem_add_all [([1], 1, 1, [10]), ([1], 2, 0, []), ([1], 3, 1, [30])] (new_MemTable BytewiseComparator) = Some m \<and> LookupKey [1] 2 = Some lk \<and>
     mem_Get lk m = Some Deleted"
  using memtable_get [of "[([1], 1, 1, [10]), ([1], 2, 0, []), ([1], 3, 1, [30])]" "[1]" 2]
  by (simp add: entry_ok_def entry_seq_def kMaxSequenceNumber_def kTypeValue_def kTypeDeletion_def visible_def)

end
