(* ===== verification/Ldb_Batch.thy ===== *)
theory Ldb_Batch
  imports Ldb_Memtable
begin

text \<open>
  Batches of writes, \<^verbatim>\<open>db/write_batch.cc\<close> and \<^verbatim>\<open>db/write_batch_internal.h\<close>. A batch is its string \<^verbatim>\<open>rep_\<close>; \<^const>\<open>None\<close> is a failed assertion or a
  handler that does not return.
\<close>

datatype ldb_status = Ok_status | Corruption string

definition kHeader :: nat where "kHeader = 12"

definition Clear :: slice where
  "Clear = replicate kHeader 0"

definition ApproximateSize :: "slice \<Rightarrow> nat" where
  "ApproximateSize rep = length rep"

definition batch_Count :: "slice \<Rightarrow> u32" where
  "batch_Count rep = DecodeFixed32 (drop 8 rep)"

definition batch_SetCount :: "u32 \<Rightarrow> slice \<Rightarrow> slice" where
  "batch_SetCount n rep = take 8 rep @ EncodeFixed32 n @ drop 12 rep"

definition batch_Sequence :: "slice \<Rightarrow> u64" where
  "batch_Sequence rep = DecodeFixed64 rep"

definition batch_SetSequence :: "u64 \<Rightarrow> slice \<Rightarrow> slice" where
  "batch_SetSequence seq rep = EncodeFixed64 seq @ drop 8 rep"

definition batch_Put :: "slice \<Rightarrow> slice \<Rightarrow> slice \<Rightarrow> slice" where
  "batch_Put key value rep =
     (let rep = batch_SetCount (batch_Count rep + 1) rep;
          rep = rep @ [kTypeValue]
      in PutLengthPrefixedSlice (PutLengthPrefixedSlice rep key) value)"

definition batch_Delete :: "slice \<Rightarrow> slice \<Rightarrow> slice" where
  "batch_Delete key rep =
     (let rep = batch_SetCount (batch_Count rep + 1) rep;
          rep = rep @ [kTypeDeletion]
      in PutLengthPrefixedSlice rep key)"

definition batch_SetContents :: "slice \<Rightarrow> slice option" where
  "batch_SetContents contents = (if length contents \<ge> kHeader then Some contents else None)"

definition batch_Append :: "slice \<Rightarrow> slice \<Rightarrow> slice option" where
  "batch_Append dst src =
     (let dst = batch_SetCount (batch_Count dst + batch_Count src) dst in
      if length src \<ge> kHeader then Some (dst @ drop kHeader src) else None)"

text \<open>A \<^verbatim>\<open>Handler\<close> and its state.\<close>

record 'h batch_handler =
  h_Put :: "slice \<Rightarrow> slice \<Rightarrow> 'h \<Rightarrow> 'h option"
  h_Delete :: "slice \<Rightarrow> 'h \<Rightarrow> 'h option"

lemma varint32_rest_less: "varint32_fallback shift result p = Some (v, rest) \<Longrightarrow> length rest < length p"
proof (induction p arbitrary: shift result)
  case Nil
  then show ?case by (simp add: varint32_fallback.simps)
next
  case (Cons b p)
  then show ?case by (subst (asm) varint32_fallback.simps) (fastforce simp: Let_def less_Suc_eq split: if_splits)
qed

lemma get_varint32_less: "GetVarint32 p = Some (v, rest) \<Longrightarrow> length rest < length p"
  using varint32_rest_less [of 0 0 p v rest]
  by (auto simp: GetVarint32_def GetVarint32Ptr_def GetVarint32PtrFallback_def split: list.splits if_splits)

lemma length_prefixed_rest: "(x, rest) = GetLengthPrefixedSlice p \<Longrightarrow> length rest \<le> length p"
  by (drule sym) (auto simp: GetLengthPrefixedSlice_def dest!: get_varint32_less split: option.splits if_splits prod.splits)

text \<open>The loop of \<^verbatim>\<open>Iterate\<close>: the status of a record that cannot be read, or the number of records found.\<close>

function iterate_loop :: "'h batch_handler \<Rightarrow> u32 \<Rightarrow> slice \<Rightarrow> 'h \<Rightarrow> ((ldb_status + u32) \<times> 'h) option" where
  "iterate_loop H found [] h = Some (Inr found, h)"
| "iterate_loop H found (tag1 # input) h =
     (let found = found + 1 in
      if tag1 = kTypeValue then
        (case GetLengthPrefixedSlice input of
           (Some key, input) \<Rightarrow>
             (case GetLengthPrefixedSlice input of
                (Some value, input) \<Rightarrow> Option.bind (h_Put H key value h) (iterate_loop H found input)
              | (None, _) \<Rightarrow> Some (Inl (Corruption ''bad WriteBatch Put''), h))
         | (None, _) \<Rightarrow> Some (Inl (Corruption ''bad WriteBatch Put''), h))
      else if tag1 = kTypeDeletion then
        (case GetLengthPrefixedSlice input of
           (Some key, input) \<Rightarrow> Option.bind (h_Delete H key h) (iterate_loop H found input)
         | (None, _) \<Rightarrow> Some (Inl (Corruption ''bad WriteBatch Delete''), h))
      else Some (Inl (Corruption ''unknown WriteBatch tag''), h))"
  by pat_completeness auto
termination
  by (relation "measure (\<lambda>(H, f, i, h). length i)") (auto dest!: length_prefixed_rest)

definition batch_Iterate :: "'h batch_handler \<Rightarrow> slice \<Rightarrow> 'h \<Rightarrow> (ldb_status \<times> 'h) option" where
  "batch_Iterate H rep h =
     (if length rep < kHeader then Some (Corruption ''malformed WriteBatch (too small)'', h)
      else
        do {
          (r, h) \<leftarrow> iterate_loop H 0 (drop kHeader rep) h;
          Some (case r of
                  Inl s \<Rightarrow> (s, h)
                | Inr found \<Rightarrow> (if found \<noteq> batch_Count rep then Corruption ''WriteBatch has wrong count'' else Ok_status, h))
        })"

text \<open>The handler that inserts into a memtable; its state is \<^verbatim>\<open>sequence_\<close> and the table.\<close>

definition MemTableInserter :: "(u64 \<times> memtable) batch_handler" where
  "MemTableInserter =
     \<lparr>h_Put = (\<lambda>key value (seq, mem). do { mem \<leftarrow> mem_Add seq kTypeValue key value mem; Some (seq + 1, mem) }),
      h_Delete = (\<lambda>key (seq, mem). do { mem \<leftarrow> mem_Add seq kTypeDeletion key [] mem; Some (seq + 1, mem) })\<rparr>"

definition batch_InsertInto :: "slice \<Rightarrow> memtable \<Rightarrow> (ldb_status \<times> memtable) option" where
  "batch_InsertInto rep mem = do { (s, (seq, mem)) \<leftarrow> batch_Iterate MemTableInserter rep (batch_Sequence rep, mem); Some (s, mem) }"

subsection \<open>What is in a batch\<close>

datatype batch_op = Put_op slice slice | Delete_op slice

fun apply_op :: "batch_op \<Rightarrow> slice \<Rightarrow> slice" where
  "apply_op (Put_op k v) rep = batch_Put k v rep"
| "apply_op (Delete_op k) rep = batch_Delete k rep"

definition batch_of :: "u64 \<Rightarrow> batch_op list \<Rightarrow> slice" where
  "batch_of seq ops = batch_SetSequence seq (fold apply_op ops Clear)"

fun op_fits :: "batch_op \<Rightarrow> bool" where
  "op_fits (Put_op k v) \<longleftrightarrow> length k + 8 < 2 ^ 32 \<and> length v < 2 ^ 32"
| "op_fits (Delete_op k) \<longleftrightarrow> length k + 8 < 2 ^ 32"

fun op_bytes :: "batch_op \<Rightarrow> slice" where
  "op_bytes (Put_op k v) = kTypeValue # PutLengthPrefixedSlice [] k @ PutLengthPrefixedSlice [] v"
| "op_bytes (Delete_op k) = kTypeDeletion # PutLengthPrefixedSlice [] k"

definition batch_image :: "u64 \<Rightarrow> batch_op list \<Rightarrow> slice" where
  "batch_image seq ops = EncodeFixed64 seq @ EncodeFixed32 (of_nat (length ops)) @ concat (map op_bytes ops)"

lemma put_length_prefixed_append: "PutLengthPrefixedSlice (dst @ x) value = dst @ PutLengthPrefixedSlice x value"
  by (simp add: PutLengthPrefixedSlice_def PutVarint32_def)

lemma count_image [simp]: "batch_Count (batch_image seq ops) = of_nat (length ops)"
  by (simp add: batch_Count_def batch_image_def)

lemma sequence_image [simp]: "batch_Sequence (batch_image seq ops) = seq"
  by (simp add: batch_Sequence_def batch_image_def)

lemma set_count_image: "batch_SetCount n (batch_image seq ops) = EncodeFixed64 seq @ EncodeFixed32 n @ concat (map op_bytes ops)"
  by (simp add: batch_SetCount_def batch_image_def)

lemma apply_op_image: "apply_op op (batch_image seq ops) = batch_image seq (ops @ [op])"
proof (cases op)
  case (Put_op k v)
  have "batch_Put k v (batch_image seq ops) =
      PutLengthPrefixedSlice (PutLengthPrefixedSlice ((EncodeFixed64 seq @ EncodeFixed32 (of_nat (length ops) + 1) @ concat (map op_bytes ops)) @ [kTypeValue]) k) v"
    by (simp add: batch_Put_def Let_def set_count_image)
  also have "\<dots> = batch_image seq (ops @ [op])"
    unfolding put_length_prefixed_append put_length_prefixed [of "PutLengthPrefixedSlice [kTypeValue] k" v] put_length_prefixed [of "[kTypeValue]" k]
    using Put_op put_length_prefixed [of "PutLengthPrefixedSlice [] k" v] by (simp add: batch_image_def add.commute)
  finally show ?thesis using Put_op by simp
next
  case (Delete_op k)
  have "batch_Delete k (batch_image seq ops) =
      PutLengthPrefixedSlice ((EncodeFixed64 seq @ EncodeFixed32 (of_nat (length ops) + 1) @ concat (map op_bytes ops)) @ [kTypeDeletion]) k"
    by (simp add: batch_Delete_def Let_def set_count_image)
  also have "\<dots> = batch_image seq (ops @ [op])"
    unfolding put_length_prefixed_append put_length_prefixed [of "[kTypeDeletion]" k] using Delete_op by (simp add: batch_image_def add.commute)
  finally show ?thesis using Delete_op by simp
qed

lemma fold_apply_op: "fold apply_op ops' (batch_image seq ops) = batch_image seq (ops @ ops')"
  by (induction ops' arbitrary: ops) (simp_all add: apply_op_image)

lemma clear_image: "Clear = batch_image 0 []"
  by code_simp

lemma batch_of_image: "batch_of seq ops = batch_image seq ops"
  by (simp add: batch_of_def clear_image fold_apply_op) (simp add: batch_SetSequence_def batch_image_def)

lemma append_image: "batch_Append (batch_image seq ops) (batch_image seq' ops') = Some (batch_image seq (ops @ ops'))"
  unfolding batch_Append_def Let_def set_count_image count_image by (simp add: batch_image_def kHeader_def)

text \<open>Handing the operations to a handler.\<close>

fun run_ops :: "'h batch_handler \<Rightarrow> batch_op list \<Rightarrow> 'h \<Rightarrow> 'h option" where
  "run_ops H [] h = Some h"
| "run_ops H (Put_op k v # ops) h = do { h \<leftarrow> h_Put H k v h; run_ops H ops h }"
| "run_ops H (Delete_op k # ops) h = do { h \<leftarrow> h_Delete H k h; run_ops H ops h }"

lemma iterate_ops:
  "\<forall>op \<in> set ops. op_fits op \<Longrightarrow>
   iterate_loop H found (concat (map op_bytes ops)) h = map_option (\<lambda>h. (Inr (found + of_nat (length ops)), h)) (run_ops H ops h)"
proof (induction H ops h arbitrary: found rule: run_ops.induct)
  case (2 H k v ops h)
  then show ?case by (cases "h_Put H k v h") (simp_all add: Let_def add.assoc)
next
  case (3 H k ops h)
  then show ?case by (cases "h_Delete H k h") (simp_all add: Let_def add.assoc kTypeDeletion_def kTypeValue_def)
qed simp

lemma iterate_image: "\<forall>op \<in> set ops. op_fits op \<Longrightarrow> batch_Iterate H (batch_image seq ops) h = map_option (\<lambda>h. (Ok_status, h)) (run_ops H ops h)"
  using iterate_ops [of ops H 0 h] by (cases "run_ops H ops h") (simp_all add: batch_Iterate_def batch_image_def kHeader_def batch_Count_def)

text \<open>
  C11: a batch gives back what was put into it. A batch built by \<^verbatim>\<open>Put\<close> and \<^verbatim>\<open>Delete\<close> and another such batch that is appended to it give a batch that keeps the
  sequence number of the first, counts all operations, and whose \<^verbatim>\<open>Iterate\<close> hands exactly these operations to any handler, in order, with the status OK.
  Keys and values have lengths that fit into 32 bits.
\<close>

theorem batch_round_trip:
  assumes "\<forall>op \<in> set (ops @ ops'). op_fits op"
  shows "\<exists>b. batch_Append (batch_of seq ops) (batch_of seq' ops') = Some b \<and> batch_Sequence b = seq \<and> batch_Count b = of_nat (length (ops @ ops')) \<and>
    batch_Iterate H b h = map_option (\<lambda>h. (Ok_status, h)) (run_ops H (ops @ ops') h)"
  unfolding batch_of_image append_image using iterate_image [OF assms, of H seq h] by simp

theorem batch_round_trip_witness:
  "\<exists>b. batch_Append (batch_of 5 [Put_op [1] [2, 3]]) (batch_of 9 [Delete_op [4]]) = Some b \<and> batch_Sequence b = 5 \<and> batch_Count b = 2 \<and>
    batch_Iterate \<lparr>h_Put = (\<lambda>k v h. Some (h @ [Put_op k v])), h_Delete = (\<lambda>k h. Some (h @ [Delete_op k]))\<rparr> b [] =
      Some (Ok_status, [Put_op [1] [2, 3], Delete_op [4]])"
  using batch_round_trip [of "[Put_op [1] [2, 3]]" "[Delete_op [4]]" 5 9
      "\<lparr>h_Put = (\<lambda>k v h. Some (h @ [Put_op k v])), h_Delete = (\<lambda>k h. Some (h @ [Delete_op k]))\<rparr>" "[]"]
  by simp

subsection \<open>Inserting into a memtable\<close>

fun op_entry :: "u64 \<Rightarrow> batch_op \<Rightarrow> mem_entry" where
  "op_entry s (Put_op k v) = (k, s, kTypeValue, v)"
| "op_entry s (Delete_op k) = (k, s, kTypeDeletion, [])"

text \<open>The entries of operations, numbered from a sequence number on.\<close>

fun number_ops :: "u64 \<Rightarrow> batch_op list \<Rightarrow> mem_entry list" where
  "number_ops s [] = []"
| "number_ops s (op # ops) = op_entry s op # number_ops (s + 1) ops"

lemma run_inserter:
  "run_ops MemTableInserter ops (s, m) = map_option (\<lambda>m. (s + of_nat (length ops), m)) (mem_add_all (number_ops s ops) m)"
proof (induction ops arbitrary: s m)
  case (Cons op ops)
  show ?case
  proof (cases op)
    case (Put_op k v)
    then show ?thesis using Cons by (cases "mem_Add s kTypeValue k v m") (simp_all add: MemTableInserter_def add.assoc)
  next
    case (Delete_op k)
    then show ?thesis using Cons by (cases "mem_Add s kTypeDeletion k [] m") (simp_all add: MemTableInserter_def add.assoc)
  qed
qed simp

lemma insert_into_image:
  "\<forall>op \<in> set ops. op_fits op \<Longrightarrow> batch_InsertInto (batch_image s ops) m = map_option (\<lambda>m. (Ok_status, m)) (mem_add_all (number_ops s ops) m)"
  using iterate_image [of ops MemTableInserter s "(s, m)"]
  by (cases "mem_add_all (number_ops s ops) m") (simp_all add: batch_InsertInto_def run_inserter)

lemma number_ops_seq:
  "unat s + length ops \<le> unat kMaxSequenceNumber + 1 \<Longrightarrow> e \<in> set (number_ops s ops) \<Longrightarrow> unat s \<le> unat (entry_seq e) \<and> unat (entry_seq e) < unat s + length ops"
proof (induction ops arbitrary: s)
  case (Cons op ops)
  have k: "unat kMaxSequenceNumber = 2 ^ 56 - 1" by (simp add: kMaxSequenceNumber_def)
  then have s: "unat (s + 1) = unat s + 1" using Cons.prems(1) by (simp add: unat_word_ariths)
  have "entry_seq (op_entry s op) = s" by (cases op) (simp_all add: entry_seq_def)
  then show ?case using Cons.prems Cons.IH [of "s + 1"] s by fastforce
qed simp

lemma number_ops_ok:
  "unat s + length ops \<le> unat kMaxSequenceNumber + 1 \<Longrightarrow> \<forall>op \<in> set ops. op_fits op \<Longrightarrow>
   (\<forall>e \<in> set (number_ops s ops). entry_ok e) \<and> sorted_wrt (\<lambda>a b. entry_seq a < entry_seq b) (number_ops s ops)"
proof (induction ops arbitrary: s)
  case (Cons op ops)
  have k: "unat kMaxSequenceNumber = 2 ^ 56 - 1" by (simp add: kMaxSequenceNumber_def)
  then have s: "unat (s + 1) = unat s + 1" using Cons.prems(1) by (simp add: unat_word_ariths)
  have IH: "(\<forall>e \<in> set (number_ops (s + 1) ops). entry_ok e) \<and> sorted_wrt (\<lambda>a b. entry_seq a < entry_seq b) (number_ops (s + 1) ops)"
    using Cons.IH [of "s + 1"] Cons.prems s by simp
  have ok: "entry_ok (op_entry s op)" using Cons.prems by (cases op) (simp_all add: entry_ok_def word_le_nat_alt)
  have "entry_seq (op_entry s op) = s" by (cases op) (simp_all add: entry_seq_def)
  moreover have "s < entry_seq e" if "e \<in> set (number_ops (s + 1) ops)" for e
    using number_ops_seq [of "s + 1" ops e] that s Cons.prems(1) by (simp add: word_less_nat_alt)
  ultimately show ?case using IH ok by simp
qed simp

end
