(* ===== verification/Ldb_Crc.thy ===== *)
theory Ldb_Crc
  imports Ldb_Crc_Table
begin

text \<open>
  The checksum routine of \<^verbatim>\<open>util/crc32c.h\<close> and \<^verbatim>\<open>util/crc32c.cc\<close>, which is driven by tables and works on four strides of 32-bit words at a
  time, and that it computes the checksum.
\<close>

definition ReadUint32LE :: "slice \<Rightarrow> u32" where
  "ReadUint32LE buffer = DecodeFixed32 buffer"

subsection \<open>The routine\<close>

text \<open>
  \<^verbatim>\<open>port::AcceleratedCRC32C\<close> of \<^verbatim>\<open>port/port_stdcxx.h\<close>: the application is built without a library for hardware checksums.
\<close>

definition AcceleratedCRC32C :: "u32 \<Rightarrow> slice \<Rightarrow> u32" where
  "AcceleratedCRC32C crc buf = 0"

definition CanAccelerateCRC32C :: bool where
  "CanAccelerateCRC32C \<longleftrightarrow>
     AcceleratedCRC32C 0 [0x54, 0x65, 0x73, 0x74, 0x43, 0x52, 0x43, 0x42, 0x75, 0x66, 0x66, 0x65, 0x72] = 0xdcbc59fa"

text \<open>The address of the first byte that is aligned to four.\<close>

definition RoundUp4 :: "nat \<Rightarrow> nat" where
  "RoundUp4 pointer = (pointer + 3) div 4 * 4"

definition STEP1 :: "u8 \<Rightarrow> u32 \<Rightarrow> u32" where
  "STEP1 b l = kByteExtensionTable ! unat ((l AND 0xff) XOR ucast b) XOR drop_bit 8 l"

definition STEP4 :: "u32 \<Rightarrow> u32 \<Rightarrow> u32" where
  "STEP4 word crc =
     word XOR kStrideExtensionTable3 ! unat (crc AND 0xff) XOR kStrideExtensionTable2 ! unat (drop_bit 8 crc AND 0xff) XOR
     kStrideExtensionTable1 ! unat (drop_bit 16 crc AND 0xff) XOR kStrideExtensionTable0 ! unat (drop_bit 24 crc)"

definition STEP4W :: "u32 \<Rightarrow> u32 \<Rightarrow> u32" where
  "STEP4W w l = ((\<lambda>w. drop_bit 8 w XOR kByteExtensionTable ! unat (w AND 0xff)) ^^ 4) (w XOR l)"

type_synonym strides = "u32 \<times> u32 \<times> u32 \<times> u32"

fun STEP16 :: "slice \<Rightarrow> strides \<Rightarrow> strides" where
  "STEP16 p (crc0, crc1, crc2, crc3) =
     (STEP4 (ReadUint32LE p) crc0, STEP4 (ReadUint32LE (drop 4 p)) crc1, STEP4 (ReadUint32LE (drop 8 p)) crc2,
      STEP4 (ReadUint32LE (drop 12 p)) crc3)"

function swaths :: "slice \<Rightarrow> strides \<Rightarrow> slice \<times> strides" where
  "swaths p c = (if length p \<ge> 16 then swaths (drop 16 p) (STEP16 p c) else (p, c))"
  by pat_completeness auto
termination by (relation "measure (\<lambda>(p, c). length p)") auto

declare swaths.simps [simp del]

function single_words :: "slice \<Rightarrow> strides \<Rightarrow> slice \<times> strides" where
  "single_words p (crc0, crc1, crc2, crc3) =
     (if length p \<ge> 4 then single_words (drop 4 p) (crc1, crc2, crc3, STEP4 (ReadUint32LE p) crc0) else (p, (crc0, crc1, crc2, crc3)))"
  by pat_completeness auto
termination by (relation "measure (\<lambda>(p, c). length p)") auto

declare single_words.simps [simp del]

text \<open>The part of the routine for at least 16 bytes.\<close>

definition extend_words :: "slice \<Rightarrow> u32 \<Rightarrow> slice \<times> u32" where
  "extend_words p l =
     (let c = (ReadUint32LE p XOR l, ReadUint32LE (drop 4 p), ReadUint32LE (drop 8 p), ReadUint32LE (drop 12 p))
      in case swaths (drop 16 p) c of (p1, c1) \<Rightarrow>
           case single_words p1 c1 of (p2, (crc0, crc1, crc2, crc3)) \<Rightarrow>
             (p2, STEP4W crc3 (STEP4W crc2 (STEP4W crc1 (STEP4W crc0 0)))))"

text \<open>\<open>addr\<close> is the address of the first byte of the data.\<close>

definition Extend :: "u32 \<Rightarrow> nat \<Rightarrow> slice \<Rightarrow> u32" where
  "Extend crc addr data =
     (if CanAccelerateCRC32C then AcceleratedCRC32C crc data
      else
        let l = crc XOR kCRC32Xor;
            k = RoundUp4 addr - addr;
            (p, l) = (if k \<le> length data then (drop k data, fold STEP1 (take k data) l) else (data, l));
            (p, l) = (if length p \<ge> 16 then extend_words p l else (p, l));
            l = fold STEP1 p l
        in l XOR kCRC32Xor)"

definition Crc_Value :: "nat \<Rightarrow> slice \<Rightarrow> u32" where
  "Crc_Value addr data = Extend 0 addr data"

definition kMaskDelta :: u32 where "kMaskDelta = 0xa282ead8"

definition Mask :: "u32 \<Rightarrow> u32" where
  "Mask crc = (drop_bit 15 crc OR push_bit 17 crc) + kMaskDelta"

definition Unmask :: "u32 \<Rightarrow> u32" where
  "Unmask masked_crc = (let rot = masked_crc - kMaskDelta in drop_bit 17 rot OR push_bit 15 rot)"

subsection \<open>What the tables give\<close>

lemma crc_bits_power: "j \<le> n \<Longrightarrow> j < 32 \<Longrightarrow> crc_bits n (2 ^ j) = crc_bits (n - j) 1"
proof -
  assume j: "j \<le> n" "j < 32"
  have "take_bit (32 - j) (1 :: u32) = 1" using j(2) by (simp add: take_bit_of_1)
  then have "crc_bits j (push_bit j 1) = 1" using j(2) by (intro crc_bits_push) simp_all
  then show ?thesis using j(1) crc_bits_add [of j "n - j" "2 ^ j"] by (simp add: push_bit_of_1)
qed

lemma byte_entry: "a < 256 \<Longrightarrow> kByteExtensionTable ! a = crc_bits 8 (of_nat a)"
proof -
  assume a: "a < 256"
  have "byte_values = rev (map (\<lambda>i. crc_bits 8 (2 ^ i)) [0..<8])"
  proof (rule nth_equalityI)
    show l: "length byte_values = length (rev (map (\<lambda>i. crc_bits 8 (2 ^ i)) [0..<8]))" by (simp add: byte_values_def)
    fix i assume "i < length byte_values"
    then have i: "i < 8" using l by simp
    have "1 + i = 8 - (7 - i)" using i by simp
    then show "byte_values ! i = rev (map (\<lambda>i. crc_bits 8 (2 ^ i)) [0..<8]) ! i"
      using i crc_bits_power [of "7 - i" 8] crc_bits_add [of 1 i 1] by (simp add: byte_chain crc_chain_eq rev_nth)
  qed
  then have "kByteExtensionTable = map (\<lambda>a. crc_bits 8 (of_nat a)) [0..<2 ^ 8]"
    using table_of_values [of "crc_bits 8" 8] by (simp add: byte_table crc_bits_xor)
  then show ?thesis by (rule ssubst) (use a in simp)
qed

lemma stride_entry:
  assumes "a < 256" and "k \<le> 3"
  shows "table_of (take 8 (drop (24 - 8 * k) stride_values)) ! a = crc_bits 128 (push_bit (8 * k) (of_nat a))"
proof -
  have "take 8 (drop (24 - 8 * k) stride_values) = rev (map (\<lambda>i. crc_bits 128 (push_bit (8 * k) (2 ^ i))) [0..<8])"
  proof (rule nth_equalityI)
    show l: "length (take 8 (drop (24 - 8 * k) stride_values)) = length (rev (map (\<lambda>i. crc_bits 128 (push_bit (8 * k) (2 ^ i))) [0..<8]))"
      by (simp add: stride_chain crc_chain_eq)
    fix i assume "i < length (take 8 (drop (24 - 8 * k) stride_values))"
    then have i: "i < 8" using l by simp
    have "push_bit (8 * k) (2 ^ (7 - i)) = (2 :: u32) ^ (8 * k + (7 - i))" by (simp add: push_bit_eq_mult power_add)
    moreover have "97 + (24 - 8 * k + i) = 128 - (8 * k + (7 - i))" using assms(2) i by simp
    ultimately show "take 8 (drop (24 - 8 * k) stride_values) ! i = rev (map (\<lambda>i. crc_bits 128 (push_bit (8 * k) (2 ^ i))) [0..<8]) ! i"
      using i assms(2) crc_bits_power [of "8 * k + (7 - i)" 128] crc_bits_add [of 97 "24 - 8 * k + i" 1]
      by (simp add: stride_chain crc_chain_eq rev_nth)
  qed
  then have "table_of (take 8 (drop (24 - 8 * k) stride_values)) = map (\<lambda>a. crc_bits 128 (push_bit (8 * k) (of_nat a))) [0..<2 ^ 8]"
    using table_of_values [of "\<lambda>x. crc_bits 128 (push_bit (8 * k) x)" 8] by (simp add: crc_bits_xor push_bit_xor)
  then show ?thesis using assms(1) by simp
qed

lemma stride_entries:
  assumes "a < 256"
  shows "kStrideExtensionTable3 ! a = crc_bits 128 (of_nat a)" "kStrideExtensionTable2 ! a = crc_bits 128 (push_bit 8 (of_nat a))"
    "kStrideExtensionTable1 ! a = crc_bits 128 (push_bit 16 (of_nat a))" "kStrideExtensionTable0 ! a = crc_bits 128 (push_bit 24 (of_nat a))"
  using stride_entry [OF assms, of 0] stride_entry [OF assms, of 1] stride_entry [OF assms, of 2] stride_entry [OF assms, of 3]
  by (simp_all add: stride_tables) (simp add: stride_values_def)

lemma and_ff: "x AND 0xff = take_bit 8 (x :: u32)"
  by (simp add: take_bit_eq_mask mask_eq_exp_minus_1)

lemma unat_take_8: "unat (take_bit 8 (x :: u32)) < 256"
  using take_bit_nat_less_exp [of 8 "unat x"] by (simp add: unsigned_take_bit_eq)

lemma xor_byte_less: "unat (take_bit 8 x XOR ucast (b :: u8) :: u32) < 256"
proof -
  have "take_bit 8 (take_bit 8 x XOR ucast b :: u32) = take_bit 8 x XOR ucast b"
    by (rule bit_word_eqI) (auto simp: bit_take_bit_iff bit_xor_iff bit_unsigned_iff dest: bit_imp_le_length)
  then show ?thesis using unat_take_8 by metis
qed

lemma of_nat_unat_u32 [simp]: "(of_nat (unat (x :: u32)) :: u32) = x"
  by simp

text \<open>Splitting off the lowest byte.\<close>

lemma low_byte: "x = take_bit 8 x XOR push_bit 8 (drop_bit 8 (x :: u32))"
  by (rule bit_word_eqI) (auto simp: bit_xor_iff bit_take_bit_iff bit_push_bit_iff bit_drop_bit_eq)

lemma crc_byte_shift: "crc_bits 8 x = crc_bits 8 (take_bit 8 x) XOR drop_bit 8 x"
proof -
  have "take_bit (32 - 8) (drop_bit 8 x) = drop_bit 8 x"
    by (rule bit_word_eqI) (auto simp: bit_take_bit_iff bit_drop_bit_eq dest: bit_imp_le_length)
  then have "crc_bits 8 (push_bit 8 (drop_bit 8 x)) = drop_bit 8 x" by (intro crc_bits_push) simp_all
  then show ?thesis using crc_bits_xor [of 8 "take_bit 8 x" "push_bit 8 (drop_bit 8 x)"] low_byte [of x] by simp
qed

lemma STEP1_eq: "STEP1 b l = crc_byte b l"
proof -
  have "take_bit 8 (l XOR ucast b) = take_bit 8 l XOR (ucast b :: u32)" "drop_bit 8 (l XOR ucast b) = drop_bit 8 l"
    by (rule bit_word_eqI; auto simp: bit_take_bit_iff bit_xor_iff bit_unsigned_iff bit_drop_bit_eq dest: bit_imp_le_length)+
  then show ?thesis using crc_byte_shift [of "l XOR ucast b"] byte_entry [OF xor_byte_less [of l b]]
    by (simp add: STEP1_def crc_byte_def and_ff)
qed

lemma crc_bits_funpow: "(crc_bits m ^^ n) x = crc_bits (n * m) x"
  by (induction n) (simp_all add: crc_bits_add [symmetric] add.commute)

lemma STEP4W_eq: "STEP4W w l = crc_bits 32 (w XOR l)"
proof -
  have r: "(\<lambda>w. drop_bit 8 w XOR kByteExtensionTable ! unat (w AND 0xff)) = crc_bits 8"
  proof
    fix w
    show "drop_bit 8 w XOR kByteExtensionTable ! unat (w AND 0xff) = crc_bits 8 w"
      using crc_byte_shift [of w] byte_entry [OF unat_take_8 [of w]] by (simp only: and_ff xor.commute of_nat_unat_u32)
  qed
  show ?thesis unfolding STEP4W_def r crc_bits_funpow by simp
qed

lemma four_bytes:
  "x = take_bit 8 x XOR push_bit 8 (take_bit 8 (drop_bit 8 x)) XOR push_bit 16 (take_bit 8 (drop_bit 16 x)) XOR push_bit 24 (drop_bit 24 (x :: u32))"
    (is "x = ?y")
proof (rule bit_word_eqI)
  fix k assume "k < LENGTH(32)"
  moreover have "k - 8 < 8 \<longleftrightarrow> k < 16" "k - 16 < 8 \<longleftrightarrow> k < 24" by linarith+
  ultimately show "bit x k \<longleftrightarrow> bit ?y k"
    by (cases "k < 8"; cases "k < 16"; cases "k < 24") (simp_all add: bit_xor_iff bit_take_bit_iff bit_push_bit_iff bit_drop_bit_eq)
qed

lemma STEP4_eq: "STEP4 word crc = word XOR crc_bits 128 crc"
proof -
  have t: "unat (drop_bit 24 crc) < 256" using unat_bound [of crc] by (simp add: drop_bit_eq_div unat_div div_less_iff_less_mult)
  have "crc_bits 128 crc = crc_bits 128 (take_bit 8 crc) XOR crc_bits 128 (push_bit 8 (take_bit 8 (drop_bit 8 crc))) XOR
      crc_bits 128 (push_bit 16 (take_bit 8 (drop_bit 16 crc))) XOR crc_bits 128 (push_bit 24 (drop_bit 24 crc))"
    by (subst four_bytes [of crc]) (simp only: crc_bits_xor)
  then show ?thesis using stride_entries(1-3) [OF unat_take_8] stride_entries(4) [OF t] by (simp add: STEP4_def and_ff xor.assoc)
qed

subsection \<open>The routine computes the checksum\<close>

text \<open>The register that four strides stand for.\<close>

fun combined :: "strides \<Rightarrow> u32" where
  "combined (c0, c1, c2, c3) = crc_bits 128 c0 XOR crc_bits 96 c1 XOR crc_bits 64 c2 XOR crc_bits 32 c3"

lemma crc_bits_crc_bits: "crc_bits n (crc_bits m l) = crc_bits (m + n) l"
  by (simp add: crc_bits_add)

lemma combined_step: "combined (c1, c2, c3, STEP4 w c0) = crc_bits 32 (combined (c0, c1, c2, c3) XOR w)"
  by (simp add: STEP4_eq crc_bits_xor crc_bits_crc_bits xor.assoc xor.left_commute xor.commute del: crc_bits.simps)

lemma combined_end: "STEP4W c3 (STEP4W c2 (STEP4W c1 (STEP4W c0 0))) = combined (c0, c1, c2, c3)"
  by (simp add: STEP4W_eq crc_bits_xor crc_bits_crc_bits xor.assoc xor.left_commute xor.commute del: crc_bits.simps)

lemma zero_bytes:
  assumes "m + k = 32" and "k = 8 \<or> k = 16 \<or> k = 24"
  shows "crc_bits 32 (push_bit k (ucast (x :: u8))) = crc_bits m (ucast x)"
proof -
  have "take_bit (32 - k) (ucast x :: u32) = ucast x"
    using assms(2) by (intro bit_word_eqI) (auto simp: bit_take_bit_iff bit_unsigned_iff dest: bit_imp_le_length)
  then have "crc_bits k (push_bit k (ucast x)) = ucast x" using assms(2) by (intro crc_bits_push) auto
  then show ?thesis using assms(1) crc_bits_add [of k m "push_bit k (ucast x)"] by (simp add: add.commute)
qed

lemma fold_word:
  assumes "length p \<ge> 4"
  shows "crc_bits 32 (l XOR ReadUint32LE p) = fold crc_byte (take 4 p) l"
proof -
  have "length (take 4 p) = 4" using assms by simp
  then obtain a b c d where p: "take 4 p = [a, b, c, d]" by (metis list_of_4)
  have "from_le [a, b, c, d] = (ucast a XOR push_bit 8 (ucast b) XOR push_bit 16 (ucast c) XOR push_bit 24 (ucast d) :: u32)" (is "_ = ?w")
  proof (rule bit_word_eqI)
    fix k assume "k < LENGTH(32)"
    moreover have "\<not> bit (x :: u8) j" if "8 \<le> j" for x j using bit_imp_le_length [of x j] that by auto
    then have "8 \<le> k \<Longrightarrow> \<not> bit a k" "16 \<le> k \<Longrightarrow> \<not> bit b (k - 8)" "24 \<le> k \<Longrightarrow> \<not> bit c (k - 16)" by simp_all
    ultimately show "bit (from_le [a, b, c, d] :: u32) k \<longleftrightarrow> bit ?w k"
      by (cases "k < 8"; cases "k < 16"; cases "k < 24") (simp_all add: bit_xor_iff bit_push_bit_iff bit_unsigned_iff bit_or_iff)
  qed
  then have "ReadUint32LE p = ?w" by (simp add: ReadUint32LE_def fixed_bytes p)
  then show ?thesis using zero_bytes [of 24 8 b] zero_bytes [of 16 16 c] zero_bytes [of 8 24 d]
    by (simp add: p crc_byte_def crc_bits_xor crc_bits_crc_bits xor.assoc del: crc_bits.simps from_le.simps)
qed

lemma fold_split: "fold crc_byte p l = fold crc_byte (drop k p) (fold crc_byte (take k p) l)"
  using fold_append [of crc_byte "take k p" "drop k p"] by simp

lemma combined_word:
  assumes "length p \<ge> 4"
  shows "combined (c1, c2, c3, STEP4 (ReadUint32LE p) c0) = fold crc_byte (take 4 p) (combined (c0, c1, c2, c3))"
  using fold_word [OF assms] by (simp add: combined_step del: combined.simps)

lemma take_16: "take 16 p = take 4 p @ take 4 (drop 4 p) @ take 4 (drop 8 p) @ take 4 (drop 12 p)"
  using take_add [of 4 12 p] take_add [of 4 8 "drop 4 p"] take_add [of 4 4 "drop 8 p"] by simp

lemma combined_swath:
  assumes "length p \<ge> 16"
  shows "combined (STEP16 p c) = fold crc_byte (take 16 p) (combined c)"
proof -
  obtain c0 c1 c2 c3 where c: "c = (c0, c1, c2, c3)" by (cases c)
  show ?thesis
    using assms take_16 [of p] combined_word [of p c1 c2 c3 c0] combined_word [of "drop 4 p" c2 c3 "STEP4 (ReadUint32LE p) c0" c1]
      combined_word [of "drop 8 p" c3 "STEP4 (ReadUint32LE p) c0" "STEP4 (ReadUint32LE (drop 4 p)) c1" c2]
      combined_word [of "drop 12 p" "STEP4 (ReadUint32LE p) c0" "STEP4 (ReadUint32LE (drop 4 p)) c1" "STEP4 (ReadUint32LE (drop 8 p)) c2" c3]
    by (simp add: c del: combined.simps)
qed

lemma swaths_ok: "swaths p c = (p', c') \<Longrightarrow> fold crc_byte p' (combined c') = fold crc_byte p (combined c)"
proof (induction p c rule: swaths.induct)
  case (1 p c)
  show ?case
  proof (cases "length p \<ge> 16")
    case True
    then have "fold crc_byte p' (combined c') = fold crc_byte (drop 16 p) (combined (STEP16 p c))" using 1 by (simp add: swaths.simps [of p c])
    then show ?thesis using combined_swath [OF True, of c] fold_split [of p "combined c" 16] by simp
  next
    case False
    then show ?thesis using 1(2) by (simp add: swaths.simps [of p c])
  qed
qed

lemma single_words_ok: "single_words p c = (p', c') \<Longrightarrow> fold crc_byte p' (combined c') = fold crc_byte p (combined c)"
proof (induction p c rule: single_words.induct)
  case (1 p c0 c1 c2 c3)
  show ?case
  proof (cases "length p \<ge> 4")
    case True
    then have "fold crc_byte p' (combined c') = fold crc_byte (drop 4 p) (combined (c1, c2, c3, STEP4 (ReadUint32LE p) c0))"
      using 1 by (simp add: single_words.simps [of p] del: combined.simps)
    then show ?thesis using combined_word [OF True] fold_split [of p _ 4] by simp
  next
    case False
    then show ?thesis using 1(2) by (simp add: single_words.simps [of p] del: combined.simps)
  qed
qed

lemma extend_words_ok:
  assumes "length p \<ge> 16" and "extend_words p l = (p', l')"
  shows "fold crc_byte p' l' = fold crc_byte p l"
proof -
  let ?c = "(ReadUint32LE p XOR l, ReadUint32LE (drop 4 p), ReadUint32LE (drop 8 p), ReadUint32LE (drop 12 p))"
  obtain p1 c1 where s: "swaths (drop 16 p) ?c = (p1, c1)" by (cases "swaths (drop 16 p) ?c")
  obtain p2 c2 where t: "single_words p1 c1 = (p2, c2)" by (cases "single_words p1 c1")
  have e: "p' = p2" "l' = combined c2" using assms(2) s t by (auto simp: extend_words_def combined_end split: prod.splits)
  have w: "fold crc_byte (take 4 p) l = crc_bits 32 (l XOR ReadUint32LE p)" "fold crc_byte (take 4 (drop 4 p)) x = crc_bits 32 (x XOR ReadUint32LE (drop 4 p))"
      "fold crc_byte (take 4 (drop 8 p)) x = crc_bits 32 (x XOR ReadUint32LE (drop 8 p))"
      "fold crc_byte (take 4 (drop 12 p)) x = crc_bits 32 (x XOR ReadUint32LE (drop 12 p))" for x
    using assms(1) by (simp_all add: fold_word)
  have "combined ?c = fold crc_byte (take 16 p) l"
    by (simp add: take_16 w crc_bits_xor crc_bits_crc_bits xor.assoc xor.left_commute xor.commute del: crc_bits.simps)
  then show ?thesis using swaths_ok [OF s] single_words_ok [OF t] fold_split [of p l 16] e by simp
qed

lemma xor_ff: "x XOR kCRC32Xor = NOT x"
proof -
  have "kCRC32Xor = - 1" by (simp add: kCRC32Xor_def)
  moreover have "x XOR - 1 = NOT x" by (rule bit_word_eqI) (simp add: bit_xor_iff bit_not_iff)
  ultimately show ?thesis by simp
qed

lemma no_acceleration [simp]: "\<not> CanAccelerateCRC32C"
  by (simp add: CanAccelerateCRC32C_def AcceleratedCRC32C_def)

lemma extend_ok: "Extend crc addr data = crc32c crc data"
proof -
  define k where "k = RoundUp4 addr - addr"
  define l where "l = crc XOR kCRC32Xor"
  obtain p1 l1 where 1: "(if k \<le> length data then (drop k data, fold STEP1 (take k data) l) else (data, l)) = (p1, l1)" by fastforce
  obtain p2 l2 where 2: "(if length p1 \<ge> 16 then extend_words p1 l1 else (p1, l1)) = (p2, l2)" by fastforce
  have st: "STEP1 = crc_byte" by (simp add: fun_eq_iff STEP1_eq)
  have "fold crc_byte p1 l1 = fold crc_byte data l" using 1 fold_split [of data l k] by (auto simp: st split: if_splits)
  moreover have "fold crc_byte p2 l2 = fold crc_byte p1 l1" using 2 extend_words_ok [of p1 l1 p2 l2] by (auto split: if_splits)
  moreover have "Extend crc addr data = fold STEP1 p2 l2 XOR kCRC32Xor"
    using 1 2 unfolding Extend_def k_def l_def Let_def by (simp split: prod.splits)
  ultimately show ?thesis by (simp add: st xor_ff crc32c_def l_def)
qed

lemma crc32c_append: "crc32c (crc32c crc a) b = crc32c crc (a @ b)"
  by (simp add: crc32c_def)

lemma unmask_mask [simp]: "Unmask (Mask crc) = crc"
proof -
  have "drop_bit 17 (drop_bit 15 crc OR push_bit 17 crc) OR push_bit 15 (drop_bit 15 crc OR push_bit 17 crc) = crc"
  proof (rule bit_word_eqI)
    fix n assume n: "n < LENGTH(32)"
    then show "bit (drop_bit 17 (drop_bit 15 crc OR push_bit 17 crc) OR push_bit 15 (drop_bit 15 crc OR push_bit 17 crc)) n \<longleftrightarrow> bit crc n"
      by (cases "n < 15") (auto simp: bit_or_iff bit_drop_bit_eq bit_push_bit_iff dest: bit_imp_le_length)
  qed
  then show ?thesis by (simp add: Unmask_def Mask_def)
qed

subsection \<open>Properties\<close>

text \<open>
  C10: \<^verbatim>\<open>crc32c::Extend\<close> computes the CRC-32C of the data bit by bit, whatever the alignment and the length of the data, and it can be
  continued: extending the checksum of a string by another string gives the checksum of both together. Masking a checksum for
  storage is undone by \<^verbatim>\<open>Unmask\<close>.
\<close>

theorem crc_extend_correct:
  "Extend crc addr data = crc32c crc data \<and> Extend (Extend crc addr data) addr' data' = Extend crc addr'' (data @ data') \<and>
   Unmask (Mask crc) = crc"
  by (simp add: extend_ok crc32c_append)

end
