(* ===== verification/Ldb_Log.thy ===== *)
theory Ldb_Log
  imports Ldb_Crc
begin

text \<open>
  The write-ahead log, \<^verbatim>\<open>db/log_format.h\<close>, \<^verbatim>\<open>db/log_writer.cc\<close> and \<^verbatim>\<open>db/log_reader.cc\<close>. A file is divided into blocks; a record is written
  as one or several physical records, none of which crosses the end of a block. The files are parameters, and so is the function \<open>al\<close>
  that gives the address at which a string lies in memory (the checksum routine looks at it).
\<close>

subsection \<open>Format\<close>

definition kZeroType :: u32 where "kZeroType = 0"
definition kFullType :: u32 where "kFullType = 1"
definition kFirstType :: u32 where "kFirstType = 2"
definition kMiddleType :: u32 where "kMiddleType = 3"
definition kLastType :: u32 where "kLastType = 4"
definition kMaxRecordType :: u32 where "kMaxRecordType = kLastType"
definition kBlockSize :: nat where "kBlockSize = 32768"
definition kHeaderSize :: nat where "kHeaderSize = 4 + 2 + 1"
definition kEof :: u32 where "kEof = kMaxRecordType + 1"
definition kBadRecord :: u32 where "kBadRecord = kMaxRecordType + 2"

subsection \<open>Writer\<close>

text \<open>A \<^verbatim>\<open>WritableFile\<close>: appending and flushing give a status (true for success).\<close>

record 'f writable_file =
  Append :: "slice \<Rightarrow> 'f \<Rightarrow> bool \<times> 'f"
  Flush :: "'f \<Rightarrow> bool \<times> 'f"

record 'f log_writer =
  dest :: 'f
  block_offset :: nat
  type_crc :: "u32 list"

definition InitTypeCrc :: "(slice \<Rightarrow> nat) \<Rightarrow> u32 list" where
  "InitTypeCrc al = map (\<lambda>i. let t = [of_nat i] in Crc_Value (al t) t) [0..<Suc (unat kMaxRecordType)]"

definition new_Writer :: "(slice \<Rightarrow> nat) \<Rightarrow> 'f \<Rightarrow> 'f log_writer" where
  "new_Writer al f = \<lparr>dest = f, block_offset = 0, type_crc = InitTypeCrc al\<rparr>"

definition new_Writer_at :: "(slice \<Rightarrow> nat) \<Rightarrow> 'f \<Rightarrow> u64 \<Rightarrow> 'f log_writer" where
  "new_Writer_at al f dest_length = \<lparr>dest = f, block_offset = unat dest_length mod kBlockSize, type_crc = InitTypeCrc al\<rparr>"

text \<open>\<^const>\<open>None\<close> is an assertion that fails.\<close>

definition EmitPhysicalRecord ::
  "'f writable_file \<Rightarrow> (slice \<Rightarrow> nat) \<Rightarrow> u32 \<Rightarrow> slice \<Rightarrow> 'f log_writer \<Rightarrow> (bool \<times> 'f log_writer) option" where
  "EmitPhysicalRecord io al t ptr w =
     (let len = length ptr in
      if \<not> len \<le> 0xffff \<or> \<not> block_offset w + kHeaderSize + len \<le> kBlockSize then None
      else
        let crc = Mask (Extend (type_crc w ! unat t) (al ptr) ptr);
            buf = EncodeFixed32 crc @ [of_nat len AND 0xff, of_nat (len div 256), ucast t];
            (s, f) = Append io buf (dest w);
            (s, f) = (if s then case Append io ptr f of (s, f) \<Rightarrow> if s then Flush io f else (s, f) else (s, f))
        in Some (s, w\<lparr>dest := f, block_offset := block_offset w + kHeaderSize + len\<rparr>))"

text \<open>The start of a round of the loop in \<^verbatim>\<open>AddRecord\<close>: the trailer of a block is filled with zeros.\<close>

definition switch_block :: "'f writable_file \<Rightarrow> 'f log_writer \<Rightarrow> 'f log_writer" where
  "switch_block io w =
     (let leftover = kBlockSize - block_offset w in
      if leftover < kHeaderSize
      then w\<lparr>dest := (if leftover > 0 then snd (Append io (replicate leftover 0) (dest w)) else dest w), block_offset := 0\<rparr>
      else w)"

definition fragment_type :: "bool \<Rightarrow> bool \<Rightarrow> u32" where
  "fragment_type begin fin =
     (if begin \<and> fin then kFullType else if begin then kFirstType else if fin then kLastType else kMiddleType)"

lemma switch_offset [simp]: "block_offset (switch_block io w) = (if kBlockSize - block_offset w < kHeaderSize then 0 else block_offset w)"
  by (simp add: switch_block_def Let_def)

lemma emit_offset: "EmitPhysicalRecord io al t ptr w = Some (s, w') \<Longrightarrow> block_offset w' = block_offset w + kHeaderSize + length ptr"
  by (auto simp: EmitPhysicalRecord_def Let_def split: if_splits prod.splits)

function add_loop :: "'f writable_file \<Rightarrow> (slice \<Rightarrow> nat) \<Rightarrow> bool \<Rightarrow> slice \<Rightarrow> 'f log_writer \<Rightarrow> (bool \<times> 'f log_writer) option" where
  "add_loop io al begin ptr w =
     (if block_offset w > kBlockSize then None
      else
        let w1 = switch_block io w;
            avail = kBlockSize - block_offset w1 - kHeaderSize;
            n = (if length ptr < avail then length ptr else avail)
        in (case EmitPhysicalRecord io al (fragment_type begin (length ptr = n)) (take n ptr) w1 of
              None \<Rightarrow> None
            | Some (s, w2) \<Rightarrow> if s \<and> length ptr - n > 0 then add_loop io al False (drop n ptr) w2 else Some (s, w2)))"
  by pat_completeness auto
termination
proof (relation "measure (\<lambda>(io, al, begin, ptr, w). 2 * length ptr + (if block_offset w = kBlockSize - kHeaderSize then 1 else 0))", goal_cases)
  case (2 io al b ptr w w1 avail n p s w2)
  have o: "block_offset w2 = block_offset w1 + kHeaderSize + length (take n ptr)" using emit_offset 2 by metis
  show ?case using 2(1-4,7) o by (auto simp: kBlockSize_def kHeaderSize_def Let_def split: if_splits)
qed simp

declare add_loop.simps [simp del]

definition AddRecord :: "'f writable_file \<Rightarrow> (slice \<Rightarrow> nat) \<Rightarrow> slice \<Rightarrow> 'f log_writer \<Rightarrow> (bool \<times> 'f log_writer) option" where
  "AddRecord io al record w = add_loop io al True record w"


subsection \<open>Reader\<close>

text \<open>A \<^verbatim>\<open>SequentialFile\<close>: reading up to a number of bytes (\<^const>\<open>None\<close> for an error), and skipping.\<close>

record 'f sequential_file =
  Read :: "nat \<Rightarrow> 'f \<Rightarrow> slice option \<times> 'f"
  Skip :: "u64 \<Rightarrow> 'f \<Rightarrow> bool \<times> 'f"

text \<open>\<open>reporter\<close> says whether there is a reporter; \<open>reports\<close> are its calls, with the number of bytes and the reason.\<close>

record 'f log_reader =
  seq_file :: 'f
  reporter :: bool
  checksum :: bool
  buffer :: slice
  eof :: bool
  last_record_offset :: u64
  end_of_buffer_offset :: u64
  initial_offset :: u64
  resyncing :: bool
  reports :: "(u64 \<times> string) list"

definition new_Reader :: "'f \<Rightarrow> bool \<Rightarrow> bool \<Rightarrow> u64 \<Rightarrow> 'f log_reader" where
  "new_Reader f rep chk initial =
     \<lparr>seq_file = f, reporter = rep, checksum = chk, buffer = [], eof = False, last_record_offset = 0, end_of_buffer_offset = 0,
      initial_offset = initial, resyncing = (initial > 0), reports = []\<rparr>"

abbreviation size_t :: "slice \<Rightarrow> u64" where
  "size_t x \<equiv> of_nat (length x)"

definition ReportDrop :: "u64 \<Rightarrow> string \<Rightarrow> 'f log_reader \<Rightarrow> 'f log_reader" where
  "ReportDrop n reason r =
     (if reporter r \<and> end_of_buffer_offset r - size_t (buffer r) - n \<ge> initial_offset r
      then r\<lparr>reports := reports r @ [(n, reason)]\<rparr> else r)"

definition ReportCorruption :: "u64 \<Rightarrow> string \<Rightarrow> 'f log_reader \<Rightarrow> 'f log_reader" where
  "ReportCorruption n reason r = ReportDrop n reason r"

definition SkipToInitialBlock :: "'f sequential_file \<Rightarrow> 'f log_reader \<Rightarrow> bool \<times> 'f log_reader" where
  "SkipToInitialBlock io r =
     (let offset_in_block = initial_offset r mod of_nat kBlockSize;
          start0 = initial_offset r - offset_in_block;
          start = (if offset_in_block > of_nat (kBlockSize - 6) then start0 + of_nat kBlockSize else start0);
          r1 = r\<lparr>end_of_buffer_offset := start\<rparr>
      in if start > 0 then
           (case Skip io start (seq_file r1) of (s, f) \<Rightarrow>
              let r2 = r1\<lparr>seq_file := f\<rparr> in if \<not> s then (False, ReportDrop start ''skip'' r2) else (True, r2))
         else (True, r1))"

text \<open>
  The part of \<^verbatim>\<open>ReadPhysicalRecord\<close> for a buffer that holds a header. The result is the type, the argument \<^verbatim>\<open>result\<close> afterwards (it keeps
  its value on some paths) and the reader. The type byte is a signed character.
\<close>

definition parse_record :: "(slice \<Rightarrow> nat) \<Rightarrow> slice \<Rightarrow> 'f log_reader \<Rightarrow> u32 \<times> slice \<times> 'f log_reader" where
  "parse_record al result r =
     (let header = buffer r;
          a = ucast (header ! 4) AND 0xff :: u32;
          b = ucast (header ! 5) AND 0xff :: u32;
          type = scast (header ! 6) :: u32;
          len = a OR push_bit 8 b
      in if kHeaderSize + unat len > length (buffer r) then
           let drop_size = size_t (buffer r); r1 = r\<lparr>buffer := []\<rparr>
           in if \<not> eof r1 then (kBadRecord, result, ReportCorruption drop_size ''bad record length'' r1) else (kEof, result, r1)
         else if type = kZeroType \<and> len = 0 then (kBadRecord, result, r\<lparr>buffer := []\<rparr>)
         else
           let data = take (1 + unat len) (drop 6 header) in
           if checksum r \<and> Crc_Value (al data) data \<noteq> Unmask (DecodeFixed32 header) then
             let drop_size = size_t (buffer r); r1 = r\<lparr>buffer := []\<rparr>
             in (kBadRecord, result, ReportCorruption drop_size ''checksum mismatch'' r1)
           else
             let r1 = r\<lparr>buffer := drop (kHeaderSize + unat len) (buffer r)\<rparr> in
             if end_of_buffer_offset r1 - size_t (buffer r1) - of_nat kHeaderSize - ucast len < initial_offset r1
             then (kBadRecord, [], r1)
             else (type, take (unat len) (drop kHeaderSize header), r1))"

function ReadPhysicalRecord :: "'f sequential_file \<Rightarrow> (slice \<Rightarrow> nat) \<Rightarrow> slice \<Rightarrow> 'f log_reader \<Rightarrow> u32 \<times> slice \<times> 'f log_reader" where
  "ReadPhysicalRecord io al result r =
     (if length (buffer r) < kHeaderSize then
        if \<not> eof r then
          (case Read io kBlockSize (seq_file r) of
             (None, f) \<Rightarrow> (kEof, result, (ReportDrop (of_nat kBlockSize) ''read error'' (r\<lparr>seq_file := f, buffer := []\<rparr>))\<lparr>eof := True\<rparr>)
           | (Some bs, f) \<Rightarrow>
               let r1 = r\<lparr>seq_file := f, buffer := bs, end_of_buffer_offset := end_of_buffer_offset r + size_t bs\<rparr>;
                   r2 = (if length bs < kBlockSize then r1\<lparr>eof := True\<rparr> else r1)
               in ReadPhysicalRecord io al result r2)
        else (kEof, result, r\<lparr>buffer := []\<rparr>)
      else parse_record al result r)"
  by pat_completeness auto
termination
  by (relation "measure (\<lambda>(io, al, res, r). if eof r then 0 else if length (buffer r) < kHeaderSize then 2 else 1)")
     (auto simp: kBlockSize_def kHeaderSize_def Let_def)

declare ReadPhysicalRecord.simps [simp del]

text \<open>
  The loop of \<^verbatim>\<open>ReadRecord\<close>; the result is the record, or \<^const>\<open>None\<close> at the end. \<open>frag\<close>, \<open>scratch\<close>, \<open>in_fragmented_record\<close> and
  \<open>prospective\<close> are the local variables.
\<close>

fun read_loop ::
  "nat \<Rightarrow> 'f sequential_file \<Rightarrow> (slice \<Rightarrow> nat) \<Rightarrow> slice \<Rightarrow> slice \<Rightarrow> bool \<Rightarrow> u64 \<Rightarrow> 'f log_reader \<Rightarrow> (slice option \<times> 'f log_reader) option" where
  "read_loop 0 io al frag scratch in_frag prospective r = None"
| "read_loop (Suc fuel) io al frag scratch in_frag prospective r =
     (case ReadPhysicalRecord io al frag r of (type, frag, r) \<Rightarrow>
        let offset = end_of_buffer_offset r - size_t (buffer r) - of_nat kHeaderSize - size_t frag in
        if resyncing r \<and> type = kMiddleType then read_loop fuel io al frag scratch in_frag prospective r
        else if resyncing r \<and> type = kLastType then read_loop fuel io al frag scratch in_frag prospective (r\<lparr>resyncing := False\<rparr>)
        else
          let r = r\<lparr>resyncing := False\<rparr> in
          if type = kFullType then
            let r = (if in_frag \<and> scratch \<noteq> [] then ReportCorruption (size_t scratch) ''partial record without end(1)'' r else r)
            in Some (Some frag, r\<lparr>last_record_offset := offset\<rparr>)
          else if type = kFirstType then
            let r = (if in_frag \<and> scratch \<noteq> [] then ReportCorruption (size_t scratch) ''partial record without end(2)'' r else r)
            in read_loop fuel io al frag frag True offset r
          else if type = kMiddleType then
            if \<not> in_frag
            then read_loop fuel io al frag scratch in_frag prospective (ReportCorruption (size_t frag) ''missing start of fragmented record(1)'' r)
            else read_loop fuel io al frag (scratch @ frag) in_frag prospective r
          else if type = kLastType then
            if \<not> in_frag
            then read_loop fuel io al frag scratch in_frag prospective (ReportCorruption (size_t frag) ''missing start of fragmented record(2)'' r)
            else Some (Some (scratch @ frag), r\<lparr>last_record_offset := prospective\<rparr>)
          else if type = kEof then Some (None, r)
          else if type = kBadRecord then
            if in_frag
            then read_loop fuel io al frag [] False prospective (ReportCorruption (size_t scratch) ''error in middle of record'' r)
            else read_loop fuel io al frag scratch in_frag prospective r
          else
            read_loop fuel io al frag [] False prospective
              (ReportCorruption (size_t frag + (if in_frag then size_t scratch else 0)) ''unknown record type'' r))"

definition ReadRecord :: "nat \<Rightarrow> 'f sequential_file \<Rightarrow> (slice \<Rightarrow> nat) \<Rightarrow> 'f log_reader \<Rightarrow> (slice option \<times> 'f log_reader) option" where
  "ReadRecord fuel io al r =
     (if last_record_offset r < initial_offset r then
        (case SkipToInitialBlock io r of (ok, r1) \<Rightarrow> if \<not> ok then Some (None, r1) else read_loop fuel io al [] [] False 0 r1)
      else read_loop fuel io al [] [] False 0 r)"

end
