(* ===== verification/Ldb_Log_Ok.thy ===== *)
theory Ldb_Log_Ok
  imports Ldb_Log
begin

text \<open>
  What the log writer writes, and that the log reader gets it back, also from a file that was cut off at any place.
\<close>

subsection \<open>Files\<close>

text \<open>A file that takes everything that is appended, and a file that is read from its start; \<open>contents\<close> is what is in it, or left of it.\<close>

locale appendable =
  fixes io :: "'f writable_file" and contents :: "'f \<Rightarrow> slice"
  assumes append_ok: "fst (Append io bs f)" and append_contents: "contents (snd (Append io bs f)) = contents f @ bs"
    and flush_ok: "fst (Flush io f)" and flush_contents: "contents (snd (Flush io f)) = contents f"

locale readable =
  fixes io :: "'f sequential_file" and contents :: "'f \<Rightarrow> slice"
  assumes read_some: "fst (Read io n f) = Some (take n (contents f))" and read_rest: "contents (snd (Read io n f)) = drop n (contents f)"

text \<open>Files in memory.\<close>

definition memory_writer :: "slice writable_file" where
  "memory_writer = \<lparr>Append = (\<lambda>bs f. (True, f @ bs)), Flush = (\<lambda>f. (True, f))\<rparr>"

definition memory_reader :: "slice sequential_file" where
  "memory_reader = \<lparr>Read = (\<lambda>n f. (Some (take n f), drop n f)), Skip = (\<lambda>n f. (True, drop (unat n) f))\<rparr>"

interpretation memory_out: appendable memory_writer "\<lambda>f. f"
  by unfold_locales (simp_all add: memory_writer_def)

interpretation memory_in: readable memory_reader "\<lambda>f. f"
  by unfold_locales (simp_all add: memory_reader_def)

subsection \<open>Layout\<close>

lemmas log_sizes = kBlockSize_def kHeaderSize_def

definition phys :: "u32 \<Rightarrow> slice \<Rightarrow> slice" where
  "phys t d =
     EncodeFixed32 (Mask (crc32c 0 (ucast t # d))) @ [of_nat (length d) AND 0xff, of_nat (length d div 256), ucast t] @ d"

definition trailer :: "nat \<Rightarrow> slice" where
  "trailer o1 = (if kBlockSize - o1 < kHeaderSize then replicate (kBlockSize - o1) 0 else [])"

definition block_start :: "nat \<Rightarrow> nat" where
  "block_start o1 = (if kBlockSize - o1 < kHeaderSize then 0 else o1)"

text \<open>Physical records from the offset \<open>o1\<close> in a block, and the offset after them.\<close>

fun lay :: "nat \<Rightarrow> (u32 \<times> slice) list \<Rightarrow> slice" where
  "lay o1 [] = []"
| "lay o1 ((t, d) # ps) = trailer o1 @ phys t d @ lay (block_start o1 + kHeaderSize + length d) ps"

fun offset_after :: "nat \<Rightarrow> (u32 \<times> slice) list \<Rightarrow> nat" where
  "offset_after o1 [] = o1"
| "offset_after o1 ((t, d) # ps) = offset_after (block_start o1 + kHeaderSize + length d) ps"

fun fits :: "nat \<Rightarrow> (u32 \<times> slice) list \<Rightarrow> bool" where
  "fits o1 [] \<longleftrightarrow> o1 \<le> kBlockSize"
| "fits o1 ((t, d) # ps) \<longleftrightarrow>
     o1 \<le> kBlockSize \<and> t \<in> {1, 2, 3, 4} \<and> block_start o1 + kHeaderSize + length d \<le> kBlockSize \<and> fits (block_start o1 + kHeaderSize + length d) ps"

lemma lay_append: "lay o1 (ps @ qs) = lay o1 ps @ lay (offset_after o1 ps) qs"
  by (induction o1 ps rule: lay.induct) simp_all

lemma offset_append: "offset_after o1 (ps @ qs) = offset_after (offset_after o1 ps) qs"
  by (induction o1 ps rule: lay.induct) simp_all

lemma fits_append: "fits o1 (ps @ qs) \<longleftrightarrow> fits o1 ps \<and> fits (offset_after o1 ps) qs"
  by (induction o1 ps rule: lay.induct) (auto elim: fits.elims)

lemma length_phys [simp]: "length (phys t d) = kHeaderSize + length d"
  by (simp add: phys_def kHeaderSize_def)

text \<open>The physical records of a record.\<close>

function frags :: "bool \<Rightarrow> slice \<Rightarrow> nat \<Rightarrow> (u32 \<times> slice) list" where
  "frags b ptr o1 =
     (let avail = kBlockSize - block_start o1 - kHeaderSize;
          n = min (length ptr) avail
      in (fragment_type b (length ptr = n), take n ptr) # (if length ptr - n > 0 then frags False (drop n ptr) (block_start o1 + kHeaderSize + n) else []))"
  by pat_completeness auto
termination
  by (relation "measure (\<lambda>(b, ptr, o1). 2 * length ptr + (if o1 = kBlockSize - kHeaderSize then 1 else 0))")
     (auto simp: log_sizes block_start_def Let_def min_def split: if_splits)

declare frags.simps [simp del]

fun records :: "slice list \<Rightarrow> nat \<Rightarrow> (u32 \<times> slice) list" where
  "records [] o1 = []"
| "records (r # rs) o1 = frags True r o1 @ records rs (offset_after o1 (frags True r o1))"

definition log_image :: "slice list \<Rightarrow> slice" where
  "log_image rs = lay 0 (records rs 0)"

lemma frags_fit: "o1 \<le> kBlockSize \<Longrightarrow> fits o1 (frags b ptr o1)"
proof (induction b ptr o1 rule: frags.induct)
  case (1 b ptr o1)
  let ?n = "min (length ptr) (kBlockSize - block_start o1 - kHeaderSize)"
  have s: "block_start o1 + kHeaderSize + ?n \<le> kBlockSize" using 1(2) by (auto simp: block_start_def log_sizes min_def)
  have t: "fragment_type b x \<in> {1, 2, 3, 4}" for x
    by (auto simp: fragment_type_def kFullType_def kFirstType_def kMiddleType_def kLastType_def)
  show ?case
  proof (cases "length ptr - ?n > 0")
    case True
    then have "fits (block_start o1 + kHeaderSize + ?n) (frags False (drop ?n ptr) (block_start o1 + kHeaderSize + ?n))" using 1(1) s by simp
    then show ?thesis using True s t 1(2) by (simp add: frags.simps [of b ptr] Let_def)
  next
    case False
    then show ?thesis using s t 1(2) by (simp add: frags.simps [of b ptr] Let_def)
  qed
qed

lemma fits_offset: "fits o1 ps \<Longrightarrow> offset_after o1 ps \<le> kBlockSize"
  by (induction o1 ps rule: fits.induct) auto

lemma records_fit: "o1 \<le> kBlockSize \<Longrightarrow> fits o1 (records rs o1)"
proof (induction rs arbitrary: o1)
  case (Cons r rs)
  then show ?case using frags_fit [OF Cons.prems, of True r] fits_offset [of o1 "frags True r o1"] by (simp add: fits_append)
qed simp

subsection \<open>Writing\<close>

lemma type_crc_entry:
  fixes t :: u32
  assumes "t \<in> {1, 2, 3, 4}"
  shows "InitTypeCrc al ! unat t = crc32c 0 [ucast t]"
  using assms by (auto simp: InitTypeCrc_def kMaxRecordType_def kLastType_def Crc_Value_def extend_ok Let_def nth_append upt_rec)

context appendable
begin

lemma emit_ok:
  assumes "t \<in> {1, 2, 3, 4}" and "block_offset w + kHeaderSize + length d \<le> kBlockSize" and "type_crc w = InitTypeCrc al"
  shows "\<exists>f. EmitPhysicalRecord io al t d w = Some (True, w\<lparr>dest := f, block_offset := block_offset w + kHeaderSize + length d\<rparr>) \<and>
    contents f = contents (dest w) @ phys t d"
proof -
  have l: "length d \<le> 0xffff" using assms(2) by (simp add: log_sizes)
  let ?b = "EncodeFixed32 (Mask (crc32c 0 (ucast t # d))) @ [of_nat (length d) AND 0xff, of_nat (length d div 256), ucast t]"
  have c: "Mask (Extend (type_crc w ! unat t) (al d) d) = Mask (crc32c 0 (ucast t # d))"
    using crc32c_append [of 0 "[ucast t]" d] assms(1,3) by (simp add: extend_ok type_crc_entry)
  obtain f1 where f1: "Append io ?b (dest w) = (True, f1)" using append_ok [of ?b "dest w"] by (metis prod.collapse)
  obtain f2 where f2: "Append io d f1 = (True, f2)" using append_ok [of d f1] by (metis prod.collapse)
  obtain f3 where f3: "Flush io f2 = (True, f3)" using flush_ok [of f2] by (metis prod.collapse)
  have "contents f3 = contents (dest w) @ ?b @ d"
    using append_contents [of ?b "dest w"] append_contents [of d f1] flush_contents [of f2] f1 f2 f3 by simp
  then have "contents f3 = contents (dest w) @ phys t d" by (simp add: phys_def)
  then show ?thesis using l assms(2) c f1 f2 f3 unfolding EmitPhysicalRecord_def by (intro exI [of _ f3]) (simp add: Let_def)
qed

lemma switch_ok:
  "contents (dest (switch_block io w)) = contents (dest w) @ trailer (block_offset w)" "block_offset (switch_block io w) = block_start (block_offset w)"
  "type_crc (switch_block io w) = type_crc w"
  by (simp_all add: switch_block_def trailer_def block_start_def Let_def append_contents)

lemma add_loop_ok:
  "block_offset w \<le> kBlockSize \<Longrightarrow> type_crc w = InitTypeCrc al \<Longrightarrow>
   \<exists>w'. add_loop io al b ptr w = Some (True, w') \<and> contents (dest w') = contents (dest w) @ lay (block_offset w) (frags b ptr (block_offset w)) \<and>
     block_offset w' = offset_after (block_offset w) (frags b ptr (block_offset w)) \<and> type_crc w' = InitTypeCrc al"
proof (induction b ptr "block_offset w" arbitrary: w rule: frags.induct)
  case (1 b ptr w)
  let ?o = "block_offset w" and ?w = "switch_block io w"
  define n where "n = min (length ptr) (kBlockSize - block_start ?o - kHeaderSize)"
  let ?t = "fragment_type b (length ptr = n)"
  let ?o2 = "block_start ?o + kHeaderSize + n"
  have t: "?t \<in> {1, 2, 3, 4}" by (auto simp: fragment_type_def kFullType_def kFirstType_def kMiddleType_def kLastType_def)
  have s: "?o2 \<le> kBlockSize" using 1(2) by (auto simp: n_def block_start_def log_sizes min_def)
  have l: "length (take n ptr) = n" by (simp add: n_def)
  obtain f where f: "EmitPhysicalRecord io al ?t (take n ptr) ?w = Some (True, ?w\<lparr>dest := f, block_offset := ?o2\<rparr>)"
      "contents f = contents (dest w) @ trailer ?o @ phys ?t (take n ptr)"
    using emit_ok [of ?t ?w "take n ptr" al] t s 1(3) l by (auto simp: switch_ok simp del: switch_offset)
  let ?w2 = "?w\<lparr>dest := f, block_offset := ?o2\<rparr>"
  have n: "(if length ptr < kBlockSize - block_offset ?w - kHeaderSize then length ptr else kBlockSize - block_offset ?w - kHeaderSize) = n"
    by (simp add: switch_ok min_def n_def del: switch_offset)
  have e: "add_loop io al b ptr w = (if length ptr - n > 0 then add_loop io al False (drop n ptr) ?w2 else Some (True, ?w2))"
    using 1(2) f(1) unfolding add_loop.simps [of io al b ptr w] Let_def n by (simp del: switch_offset)
  have fr: "frags b ptr ?o = (?t, take n ptr) # (if length ptr - n > 0 then frags False (drop n ptr) ?o2 else [])"
    unfolding n_def using frags.simps [of b ptr ?o] by (simp only: Let_def)
  show ?case
  proof (cases "length ptr - n > 0")
    case True
    have "\<exists>w'. add_loop io al False (drop n ptr) ?w2 = Some (True, w') \<and>
        contents (dest w') = contents (dest ?w2) @ lay (block_offset ?w2) (frags False (drop n ptr) (block_offset ?w2)) \<and>
        block_offset w' = offset_after (block_offset ?w2) (frags False (drop n ptr) (block_offset ?w2)) \<and> type_crc w' = InitTypeCrc al"
      by (rule 1(1) [OF refl n_def True]) (use s 1(3) in \<open>simp_all add: switch_ok n_def del: switch_offset\<close>)
    then show ?thesis using e True f(2) l by (simp add: fr)
  next
    case False
    then show ?thesis using e f(2) 1(3) l by (simp add: fr switch_ok del: switch_offset)
  qed
qed

end

text \<open>Adding one record after the other.\<close>

fun add_all :: "'f writable_file \<Rightarrow> (slice \<Rightarrow> nat) \<Rightarrow> slice list \<Rightarrow> 'f log_writer \<Rightarrow> (bool \<times> 'f log_writer) option" where
  "add_all io al [] w = Some (True, w)"
| "add_all io al (r # rs) w =
     (case AddRecord io al r w of None \<Rightarrow> None | Some (s, w') \<Rightarrow> if s then add_all io al rs w' else Some (s, w'))"

lemma add_all_ok:
  assumes "appendable io contents"
  shows "block_offset w \<le> kBlockSize \<Longrightarrow> type_crc w = InitTypeCrc al \<Longrightarrow>
    \<exists>w'. add_all io al rs w = Some (True, w') \<and> contents (dest w') = contents (dest w) @ lay (block_offset w) (records rs (block_offset w))"
proof (induction rs arbitrary: w)
  case (Cons r rs)
  let ?o = "block_offset w"
  obtain w1 where w1: "AddRecord io al r w = Some (True, w1)" "contents (dest w1) = contents (dest w) @ lay ?o (frags True r ?o)"
      "block_offset w1 = offset_after ?o (frags True r ?o)" "type_crc w1 = InitTypeCrc al"
    using appendable.add_loop_ok [OF assms Cons.prems, of True r] by (auto simp: AddRecord_def)
  have "block_offset w1 \<le> kBlockSize" using w1(3) fits_offset [OF frags_fit [OF Cons.prems(1)]] by simp
  then show ?case using Cons.IH [OF _ w1(4)] w1 by (auto simp: lay_append)
qed simp

subsection \<open>Parsing\<close>

lemma u32_of_nat_or: "l \<le> 0xffff \<Longrightarrow>
    (ucast (of_nat l AND 0xff :: u8) AND 0xff :: u32) OR push_bit 8 (ucast (of_nat (l div 256) :: u8) AND 0xff) = of_nat l"
proof (rule bit_word_eqI)
  fix k assume l: "l \<le> 0xffff" and k: "k < LENGTH(32)"
  have ff: "x AND 0xff = take_bit 8 x" for x :: "'a::len word" by (simp add: take_bit_eq_mask mask_eq_exp_minus_1)
  have d: "l div 256 = drop_bit 8 l" by (simp add: drop_bit_eq_div)
  have hi: "\<not> bit l j" if "16 \<le> j" for j
  proof -
    have "l < 2 ^ j" using l that power_increasing [of 16 j "2 :: nat"] by simp
    then show ?thesis by (simp add: bit_iff_odd)
  qed
  show "bit ((ucast (of_nat l AND 0xff :: u8) AND 0xff :: u32) OR push_bit 8 (ucast (of_nat (l div 256) :: u8) AND 0xff)) k \<longleftrightarrow> bit (of_nat l :: u32) k"
    unfolding ff d using k hi [of k]
    by (cases "k < 8"; cases "k < 16") (auto simp: bit_or_iff bit_take_bit_iff bit_unsigned_iff bit_push_bit_iff bit_of_nat_iff bit_drop_bit_eq)
qed

lemma phys_nth:
  "phys t d ! 4 = of_nat (length d) AND 0xff" "phys t d ! 5 = of_nat (length d div 256)" "phys t d ! 6 = ucast t"
  "DecodeFixed32 (phys t d @ rest) = Mask (crc32c 0 (ucast t # d))" "drop 6 (phys t d) = ucast t # d" "drop kHeaderSize (phys t d) = d"
  by (simp_all add: phys_def nth_append kHeaderSize_def)

lemma scast_type: "t \<in> {1, 2, 3, 4} \<Longrightarrow> (scast (ucast t :: u8) :: u32) = t" for t :: u32
  by auto

lemma parse_whole:
  assumes b: "buffer r = phys t d @ rest" and t: "t \<in> {1, 2, 3, 4}" and l: "length d \<le> 0xffff" and i: "initial_offset r = 0"
  shows "parse_record al result r = (t, d, r\<lparr>buffer := rest\<rparr>)"
proof -
  have h: "buffer r ! 4 = of_nat (length d) AND 0xff" "buffer r ! 5 = of_nat (length d div 256)" "buffer r ! 6 = ucast t"
    using b phys_nth(1-3) [of t d] by (simp_all add: nth_append kHeaderSize_def)
  have n: "unat (of_nat (length d) :: u32) = length d" using l by (simp add: unat_of_nat_lt)
  have z: "t \<noteq> kZeroType" using t by (auto simp: kZeroType_def)
  have x: "take (Suc (length d)) (drop 6 (buffer r)) = ucast t # d" "take (length d) (drop kHeaderSize (buffer r)) = d"
    using b phys_nth(5,6) [of t d] by (simp_all add: kHeaderSize_def)
  show ?thesis unfolding parse_record_def h u32_of_nat_or [OF l] Let_def scast_type [OF t] n
    using b i z x phys_nth(4) [of t d rest] by (simp add: Crc_Value_def extend_ok)
qed

lemma parse_cut:
  assumes b: "buffer r = take k (phys t d)" and k: "kHeaderSize \<le> k" "k < kHeaderSize + length d" and l: "length d \<le> 0xffff" and e: "eof r"
  shows "parse_record al result r = (kEof, result, r\<lparr>buffer := []\<rparr>)"
proof -
  have h: "buffer r ! 4 = of_nat (length d) AND 0xff" "buffer r ! 5 = of_nat (length d div 256)"
    using b k(1) phys_nth(1,2) [of t d] by (simp_all add: kHeaderSize_def)
  have n: "unat (of_nat (length d) :: u32) = length d" using l by (simp add: unat_of_nat_lt)
  show ?thesis unfolding parse_record_def h u32_of_nat_or [OF l] Let_def n using b k e by simp
qed

subsection \<open>Reading physical records\<close>

text \<open>The reader stands at the offset \<open>o1\<close> of a block, and \<open>S\<close> is what is left to read.\<close>

definition stands :: "('f \<Rightarrow> slice) \<Rightarrow> 'f log_reader \<Rightarrow> nat \<Rightarrow> slice \<Rightarrow> bool" where
  "stands contents r o1 S \<longleftrightarrow>
     initial_offset r = 0 \<and> \<not> resyncing r \<and> o1 \<le> kBlockSize \<and>
     (if eof r then buffer r = S \<and> length S < kBlockSize - o1
      else buffer r @ contents (seq_file r) = S \<and> length (buffer r) = kBlockSize - o1)"

context readable
begin

lemma refill:
  assumes "stands contents r o1 S" and "kBlockSize - o1 < kHeaderSize" and "\<not> eof r"
  shows "\<exists>r2. ReadPhysicalRecord io al res r = ReadPhysicalRecord io al res r2 \<and> stands contents r2 0 (drop (kBlockSize - o1) S) \<and> reports r2 = reports r"
proof -
  let ?c = "contents (seq_file r)"
  obtain f where f: "Read io kBlockSize (seq_file r) = (Some (take kBlockSize ?c), f)" "contents f = drop kBlockSize ?c"
    using read_some [of kBlockSize "seq_file r"] read_rest [of kBlockSize "seq_file r"] by (metis prod.collapse)
  have S: "drop (kBlockSize - o1) S = ?c" using assms(1,3) by (auto simp: stands_def)
  define r1 where "r1 = r\<lparr>seq_file := f, buffer := take kBlockSize ?c, end_of_buffer_offset := end_of_buffer_offset r + size_t (take kBlockSize ?c)\<rparr>"
  define r2 where "r2 = (if length (take kBlockSize ?c) < kBlockSize then r1\<lparr>eof := True\<rparr> else r1)"
  have "ReadPhysicalRecord io al res r = ReadPhysicalRecord io al res r2"
    using assms f(1) unfolding r2_def r1_def by (subst ReadPhysicalRecord.simps) (simp add: stands_def Let_def)
  moreover have "stands contents r2 0 ?c" using assms(1,3) f(2) by (auto simp: stands_def r2_def r1_def kBlockSize_def)
  moreover have "reports r2 = reports r" by (simp add: r2_def r1_def)
  ultimately show ?thesis using S by auto
qed

lemma at_header:
  assumes S: "stands contents r o1 (take m (phys t d @ rest))" and o1: "kHeaderSize \<le> kBlockSize - o1" "o1 + kHeaderSize + length d \<le> kBlockSize"
    and t: "t \<in> {1, 2, 3, 4}"
  shows "if kHeaderSize + length d \<le> m
    then \<exists>r'. ReadPhysicalRecord io al res r = (t, d, r') \<and> stands contents r' (o1 + kHeaderSize + length d) (take (m - (kHeaderSize + length d)) rest) \<and> reports r' = reports r
    else \<exists>r'. ReadPhysicalRecord io al res r = (kEof, res, r') \<and> reports r' = reports r"
proof -
  let ?L = "kHeaderSize + length d"
  have l: "length d \<le> 0xffff" using o1(2) by (simp add: log_sizes)
  have whole: "\<exists>r'. ReadPhysicalRecord io al res r = (t, d, r') \<and> r' = r\<lparr>buffer := q\<rparr>" if "buffer r = phys t d @ q" for q
    using parse_whole [OF that t l] S that by (subst ReadPhysicalRecord.simps) (simp add: stands_def)
  show ?thesis
  proof (cases "eof r")
    case True
    then have b: "buffer r = take m (phys t d @ rest)" "length (buffer r) < kBlockSize - o1" using S by (simp_all add: stands_def)
    show ?thesis
    proof (cases "?L \<le> m")
      case m: True
      then have q: "buffer r = phys t d @ take (m - ?L) rest" using b(1) by simp
      then show ?thesis using whole [OF q] S True m b(2) by (auto simp: stands_def)
    next
      case m: False
      then have q: "buffer r = take m (phys t d)" "length (buffer r) = m" using b(1) by simp_all
      show ?thesis
      proof (cases "kHeaderSize \<le> m")
        case h: True
        then show ?thesis using parse_cut [OF q(1) h _ l True] m q(2) by (subst ReadPhysicalRecord.simps) simp
      next
        case h: False
        then show ?thesis using m q(2) True by (subst ReadPhysicalRecord.simps) simp
      qed
    qed
  next
    case False
    then have b: "buffer r @ contents (seq_file r) = take m (phys t d @ rest)" "length (buffer r) = kBlockSize - o1" using S by (simp_all add: stands_def)
    have "?L \<le> length (buffer r @ contents (seq_file r))" using b(2) o1(2) by simp
    then have m: "?L \<le> m" unfolding b(1) by simp
    then have e: "buffer r @ contents (seq_file r) = phys t d @ take (m - ?L) rest" using b(1) by simp
    have lb: "?L \<le> length (buffer r)" using b(2) o1(2) by simp
    define q where "q = drop ?L (buffer r)"
    have "take ?L (buffer r) = phys t d" "q @ contents (seq_file r) = take (m - ?L) rest"
      using arg_cong [OF e, of "take ?L"] arg_cong [OF e, of "drop ?L"] lb by (simp_all add: q_def)
    then have q: "buffer r = phys t d @ q" "q @ contents (seq_file r) = take (m - ?L) rest" by (metis q_def append_take_drop_id)+
    have "length q = kBlockSize - (o1 + ?L)" using b(2) q(1) by simp
    then show ?thesis using whole [OF q(1)] q(2) S False m o1(2) by (auto simp: stands_def add.assoc)
  qed
qed

lemma next_phys:
  assumes S: "stands contents r o1 (take m (lay o1 ((t, d) # ps)))" and fit: "fits o1 ((t, d) # ps)"
  shows "if length (lay o1 [(t, d)]) \<le> m
    then \<exists>r'. ReadPhysicalRecord io al res r = (t, d, r') \<and> reports r' = reports r \<and>
      stands contents r' (block_start o1 + kHeaderSize + length d) (take (m - length (lay o1 [(t, d)])) (lay (block_start o1 + kHeaderSize + length d) ps))
    else \<exists>r'. ReadPhysicalRecord io al res r = (kEof, res, r') \<and> reports r' = reports r"
proof (cases "kBlockSize - o1 < kHeaderSize")
  case False
  then have "trailer o1 = []" "block_start o1 = o1" by (simp_all add: trailer_def block_start_def)
  then show ?thesis using at_header [of r o1 m t d "lay (o1 + kHeaderSize + length d) ps" al res] S fit False by (auto split: if_splits)
next
  case True
  let ?rest = "lay (kHeaderSize + length d) ps"
  have s: "length (trailer o1) = kBlockSize - o1" "block_start o1 = 0" using True by (simp_all add: trailer_def block_start_def)
  show ?thesis
  proof (cases "eof r")
    case e: True
    then have b: "length (take m (lay o1 ((t, d) # ps))) < kBlockSize - o1" "buffer r = take m (lay o1 ((t, d) # ps))"
      using S unfolding stands_def by presburger+
    have "kBlockSize - o1 \<le> length (lay o1 ((t, d) # ps))" using s by simp
    then have "m < kBlockSize - o1" using b(1) unfolding length_take by linarith
    moreover have "ReadPhysicalRecord io al res r = (kEof, res, r\<lparr>buffer := []\<rparr>)"
      using e b True by (subst ReadPhysicalRecord.simps) (simp del: lay.simps length_take)
    ultimately show ?thesis using s by auto
  next
    case e: False
    obtain r2 where r2: "ReadPhysicalRecord io al res r = ReadPhysicalRecord io al res r2" "reports r2 = reports r"
        "stands contents r2 0 (drop (kBlockSize - o1) (take m (lay o1 ((t, d) # ps))))"
      using refill [OF S True e] by auto
    have "drop (kBlockSize - o1) (take m (lay o1 ((t, d) # ps))) = take (m - (kBlockSize - o1)) (phys t d @ ?rest)"
      using s unfolding drop_take by (simp del: take_append)
    then have "stands contents r2 0 (take (m - (kBlockSize - o1)) (phys t d @ ?rest))" using r2(3) by simp
    note H = at_header [OF this, of al res]
    have "buffer r @ contents (seq_file r) = take m (lay o1 ((t, d) # ps))" "length (buffer r) = kBlockSize - o1"
      using S e unfolding stands_def by presburger+
    then have "kBlockSize - o1 \<le> length (take m (lay o1 ((t, d) # ps)))" by (metis length_append le_add1)
    then have "kBlockSize - o1 \<le> m" unfolding length_take by linarith
    then show ?thesis using H r2(1,2) fit s by (auto simp: log_sizes split: if_splits)
  qed
qed

lemma next_end:
  assumes "stands contents r o1 []"
  shows "\<exists>r'. ReadPhysicalRecord io al res r = (kEof, res, r') \<and> reports r' = reports r"
proof -
  have end1: "\<exists>r'. ReadPhysicalRecord io al res r = (kEof, res, r') \<and> reports r' = reports r" if "stands contents r k []" "k < kBlockSize" for r k
    using that by (subst ReadPhysicalRecord.simps) (auto simp: stands_def log_sizes split: if_splits)
  show ?thesis
  proof (cases "o1 < kBlockSize")
    case False
    then have "\<not> eof r" "kBlockSize - o1 < kHeaderSize" using assms by (auto simp: stands_def log_sizes)
    then obtain r2 where "ReadPhysicalRecord io al res r = ReadPhysicalRecord io al res r2" "stands contents r2 0 []" "reports r2 = reports r"
      using refill [OF assms, of al res] by auto
    then show ?thesis using end1 [of r2 0] by (simp add: kBlockSize_def)
  qed (use end1 [OF assms] in blast)
qed

end

end
