(* ===== verification/Ldb_Log_Rec.thy ===== *)
theory Ldb_Log_Rec
  imports Ldb_Log_Ok
begin

text \<open>
  Reading a log: the records that were written come back, up to the place where the file was cut off; and reading any file ends.
\<close>

subsection \<open>One record\<close>

lemmas record_types = fragment_type_def kFullType_def kFirstType_def kMiddleType_def kLastType_def kZeroType_def kEof_def kBadRecord_def kMaxRecordType_def

lemma stands_update [simp]: "stands c (r\<lparr>last_record_offset := k\<rparr>) o1 S \<longleftrightarrow> stands c r o1 S"
  by (simp add: stands_def)

lemma stands_resync: "stands c r o1 S \<Longrightarrow> \<not> resyncing r \<and> r\<lparr>resyncing := False\<rparr> = r"
  by (simp add: stands_def)

context readable
begin

lemma loop_end:
  assumes "ReadPhysicalRecord io al frag r = (kEof, x, r')"
  shows "read_loop (Suc fuel) io al frag scratch in_frag p r = Some (None, r'\<lparr>resyncing := False\<rparr>)"
  using assms by (simp add: Let_def record_types)

lemma read_frags:
  "stands contents r o1 (take m (lay o1 (frags b ptr o1 @ qs))) \<Longrightarrow> fits o1 (frags b ptr o1 @ qs) \<Longrightarrow> m < fuel \<Longrightarrow>
   if length (lay o1 (frags b ptr o1)) \<le> m
   then \<exists>r'. read_loop fuel io al frag scratch (\<not> b) p r = Some (Some ((if b then [] else scratch) @ ptr), r') \<and> reports r' = reports r \<and>
     stands contents r' (offset_after o1 (frags b ptr o1)) (take (m - length (lay o1 (frags b ptr o1))) (lay (offset_after o1 (frags b ptr o1)) qs))
   else \<exists>r'. read_loop fuel io al frag scratch (\<not> b) p r = Some (None, r') \<and> reports r' = reports r"
proof (induction b ptr o1 arbitrary: r m fuel frag scratch p rule: frags.induct)
  case (1 b ptr o1)
  define n where "n = min (length ptr) (kBlockSize - block_start o1 - kHeaderSize)"
  let ?t = "fragment_type b (length ptr = n)" and ?d = "take n ptr"
  let ?o2 = "block_start o1 + kHeaderSize + n" and ?L = "length (lay o1 [(?t, ?d)])"
  have l: "length ?d = n" by (simp add: n_def)
  obtain fs where fs: "fs = (if length ptr - n > 0 then frags False (drop n ptr) ?o2 else [])" by simp
  have fr: "frags b ptr o1 = (?t, ?d) # fs"
    unfolding n_def fs using frags.simps [of b ptr o1] by (simp only: Let_def)
  obtain fuel' where fuel: "fuel = Suc fuel'" using 1(4) by (cases fuel) simp_all
  note N = next_phys [of r o1 m ?t ?d "fs @ qs" al frag]
  have lay: "length (lay o1 (frags b ptr o1)) = ?L + length (lay ?o2 fs)" using l by (simp add: fr)
  show ?case
  proof (cases "?L \<le> m")
    case False
    then obtain r' where r': "ReadPhysicalRecord io al frag r = (kEof, frag, r')" "reports r' = reports r" using N 1(2,3) fr by auto
    show ?thesis unfolding fuel loop_end [OF r'(1)] using lay False r'(2) by simp
  next
    case True
    then obtain r' where r': "ReadPhysicalRecord io al frag r = (?t, ?d, r')" "reports r' = reports r"
        "stands contents r' ?o2 (take (m - ?L) (lay ?o2 (fs @ qs)))"
      using N 1(2,3) fr l by (auto split: if_splits)
    note rs = stands_resync [OF r'(3)]
    show ?thesis
    proof (cases "length ptr - n > 0")
      case False
      then have "length ptr = n" "?d = ptr" "fs = []" using fs by (simp_all add: n_def)
      then show ?thesis using r' rs True l unfolding fuel by (auto simp: fr Let_def record_types)
    next
      case more: True
      then have f: "fs = frags False (drop n ptr) ?o2" "length ptr \<noteq> n" using fs by simp_all
      have fit: "fits ?o2 (fs @ qs)" using 1(3) l by (simp add: fr)
      have "?L > 0" by (simp add: kHeaderSize_def)
      then have m: "m - ?L < fuel'" using 1(4) fuel True by linarith
      have loop: "\<exists>p'. read_loop fuel io al frag scratch (\<not> b) p r = read_loop fuel' io al ?d ((if b then [] else scratch) @ ?d) (\<not> False) p' r'"
        unfolding fuel using r'(1) rs f(2) by (auto simp: Let_def record_types)
      then obtain p' where p': "read_loop fuel io al frag scratch (\<not> b) p r = read_loop fuel' io al ?d ((if b then [] else scratch) @ ?d) (\<not> False) p' r'" by blast
      have "if length (lay ?o2 fs) \<le> m - ?L
        then \<exists>r''. read_loop fuel' io al ?d ((if b then [] else scratch) @ ?d) (\<not> False) p' r' = 
               Some (Some ((if False then [] else (if b then [] else scratch) @ ?d) @ drop n ptr), r'') \<and> reports r'' = reports r' \<and>
               stands contents r'' (offset_after ?o2 fs) (take (m - ?L - length (lay ?o2 fs)) (lay (offset_after ?o2 fs) qs))
        else \<exists>r''. read_loop fuel' io al ?d ((if b then [] else scratch) @ ?d) (\<not> False) p' r' = Some (None, r'') \<and> reports r'' = reports r'"
        unfolding f(1) by (rule 1(1) [OF refl n_def more _ _ m]) (use r'(3) fit f(1) in simp_all)
      then show ?thesis using p' r'(2) True lay l by (auto simp: fr add.assoc split: if_splits)
    qed
  qed
qed

end

subsection \<open>All records\<close>

text \<open>Reading records until the end.\<close>

fun read_all :: "nat \<Rightarrow> 'f sequential_file \<Rightarrow> (slice \<Rightarrow> nat) \<Rightarrow> 'f log_reader \<Rightarrow> (slice list \<times> 'f log_reader) option" where
  "read_all 0 io al r = None"
| "read_all (Suc fuel) io al r =
     (case ReadRecord (Suc fuel) io al r of
        None \<Rightarrow> None
      | Some (None, r') \<Rightarrow> Some ([], r')
      | Some (Some rec, r') \<Rightarrow> map_option (\<lambda>(rs, r''). (rec # rs, r'')) (read_all fuel io al r'))"

lemma frags_pos: "0 < length (lay o1 (frags b ptr o1))"
  by (simp add: frags.simps [of b ptr] Let_def kHeaderSize_def)

lemma read_record_loop: "stands c r o1 S \<Longrightarrow> ReadRecord fuel io al r = read_loop fuel io al [] [] False 0 r"
  by (simp add: ReadRecord_def stands_def)

context readable
begin

lemma read_all_ok:
  "stands contents r o1 (take m (lay o1 (records rs o1))) \<Longrightarrow> o1 \<le> kBlockSize \<Longrightarrow> m < fuel \<Longrightarrow> k \<le> length rs \<Longrightarrow>
   length (lay o1 (records (take k rs) o1)) \<le> m \<Longrightarrow> k = length rs \<or> m < length (lay o1 (records (take (Suc k) rs) o1)) \<Longrightarrow>
   \<exists>r'. read_all fuel io al r = Some (take k rs, r') \<and> reports r' = reports r"
proof (induction rs arbitrary: r o1 m fuel k)
  case Nil
  obtain fuel' where fuel: "fuel = Suc fuel'" using Nil(3) by (cases fuel) simp_all
  have "stands contents r o1 []" using Nil(1) by simp
  then obtain r' where r': "ReadPhysicalRecord io al [] r = (kEof, [], r')" "reports r' = reports r" using next_end by blast
  show ?case unfolding fuel read_all.simps read_record_loop [OF Nil(1)] loop_end [OF r'(1)] using r'(2) by simp
next
  case (Cons rec rs)
  obtain fuel' where fuel: "fuel = Suc fuel'" using Cons.prems(3) by (cases fuel) simp_all
  let ?F = "frags True rec o1" let ?o2 = "offset_after o1 ?F"
  have fit: "fits o1 (?F @ records rs ?o2)" using records_fit [OF Cons.prems(2), of "rec # rs"] by simp
  have o2: "?o2 \<le> kBlockSize" using fits_offset [OF frags_fit [OF Cons.prems(2)]] .
  note R = read_frags [of r o1 m True rec "records rs ?o2" fuel al "[]" "[]" 0]
  note S = read_record_loop [OF Cons.prems(1), of fuel io al]
  show ?case
  proof (cases k)
    case 0
    then have "m < length (lay o1 ?F)" using Cons.prems(6) by simp
    then obtain r' where "ReadRecord fuel io al r = Some (None, r')" "reports r' = reports r" using R Cons.prems(1,3) fit S by auto
    then show ?thesis using 0 fuel by simp
  next
    case (Suc j)
    have L: "length (lay o1 ?F) \<le> m" using Cons.prems(5) Suc by (simp add: lay_append)
    then obtain r' where r': "ReadRecord fuel io al r = Some (Some rec, r')" "reports r' = reports r"
        "stands contents r' ?o2 (take (m - length (lay o1 ?F)) (lay ?o2 (records rs ?o2)))"
      using R Cons.prems(1,3) fit S by auto
    have "m - length (lay o1 ?F) < fuel'" using Cons.prems(3) fuel L frags_pos [of o1 True rec] by linarith
    moreover have "length (lay ?o2 (records (take j rs) ?o2)) \<le> m - length (lay o1 ?F)"
      using Cons.prems(5) Suc by (simp add: lay_append)
    moreover have "j = length rs \<or> m - length (lay o1 ?F) < length (lay ?o2 (records (take (Suc j) rs) ?o2))"
      using Cons.prems(6) Suc L by (simp add: lay_append less_diff_conv2 add.commute)
    ultimately obtain r'' where "read_all fuel' io al r' = Some (take j rs, r'')" "reports r'' = reports r'"
      using Cons.IH [OF r'(3) o2, of fuel' j] Cons.prems(4) Suc by auto
    then show ?thesis using r'(1,2) Suc fuel by auto
  qed
qed

end

lemma block_start_block: "block_start kBlockSize = 0" "block_start 0 = 0"
  by (simp_all add: block_start_def kHeaderSize_def)

lemma frags_block: "frags b ptr kBlockSize = frags b ptr 0"
  unfolding frags.simps [of b ptr kBlockSize] frags.simps [of b ptr 0] block_start_block ..

lemma lay_block: "lay kBlockSize ps = lay 0 ps" "ps \<noteq> [] \<Longrightarrow> offset_after kBlockSize ps = offset_after 0 ps"
  by (cases ps; force simp: block_start_def trailer_def log_sizes)+

lemma records_block: "records rs kBlockSize = records rs 0"
proof (cases rs)
  case (Cons r rs')
  have "frags True r 0 \<noteq> []" using frags_pos [of 0 True r] by auto
  then show ?thesis using Cons by (simp add: frags_block lay_block)
qed simp

lemma new_writer: "block_offset (new_Writer al f) = 0" "type_crc (new_Writer al f) = InitTypeCrc al" "dest (new_Writer al f) = f"
  by (simp_all add: new_Writer_def)

lemma writes_image:
  assumes "appendable io contents" "contents f = []"
  shows "\<exists>w. add_all io al rs (new_Writer al f) = Some (True, w) \<and> contents (dest w) = log_image rs"
  using add_all_ok [OF assms(1), of "new_Writer al f" al rs] assms(2) by (simp add: new_writer log_image_def)

lemma reads_image:
  assumes io: "readable io contents" and g: "contents g = take m (log_image rs)" and "m < fuel" and k: "k \<le> length rs"
    and lo: "length (log_image (take k rs)) \<le> m" and hi: "k = length rs \<or> m < length (log_image (take (Suc k) rs))"
  shows "\<exists>r'. read_all fuel io al (new_Reader g True True 0) = Some (take k rs, r') \<and> reports r' = []"
proof -
  have "stands contents (new_Reader g True True 0) kBlockSize (take m (lay kBlockSize (records rs kBlockSize)))"
    using g by (simp add: stands_def new_Reader_def lay_block records_block log_image_def)
  from readable.read_all_ok [OF io this, of fuel k al] show ?thesis
    using assms(3-6) by (simp add: lay_block records_block log_image_def new_Reader_def)
qed

text \<open>
  C7: the log survives a cut. Let a writer add the records \<open>rs\<close> to an empty file that takes what is appended, and let \<open>W j\<close> be the writer after the
  first \<open>j\<close> of them. If the file is then cut off after any number \<open>m\<close> of bytes, a reader that starts anew on what is left, with checksums verified,
  returns exactly the records that had been written completely within the first \<open>m\<close> bytes, in their order and with their contents, then the end,
  and reports no corruption. In particular the whole file gives all records. \<open>al\<close> and \<open>al'\<close> give the addresses of the strings the checksum routine
  looks at.
\<close>

theorem log_survives_cut:
  assumes "appendable out contents" and "contents f = []" and "readable inp contents'"
  shows "\<exists>W. (\<forall>j \<le> length rs. add_all out al (take j rs) (new_Writer al f) = Some (True, W j)) \<and>
    (\<forall>m g fuel k. contents' g = take m (contents (dest (W (length rs)))) \<and> m < fuel \<and> k \<le> length rs \<and>
       length (contents (dest (W k))) \<le> m \<and> (k = length rs \<or> m < length (contents (dest (W (Suc k)))))
       \<longrightarrow> (\<exists>r. read_all fuel inp al' (new_Reader g True True 0) = Some (take k rs, r) \<and> reports r = []))"
proof -
  have "\<forall>j. \<exists>w. add_all out al (take j rs) (new_Writer al f) = Some (True, w) \<and> contents (dest w) = log_image (take j rs)"
    using writes_image [OF assms(1,2)] by blast
  then obtain W where W: "add_all out al (take j rs) (new_Writer al f) = Some (True, W j)" "contents (dest (W j)) = log_image (take j rs)" for j
    by metis
  show ?thesis using W reads_image [OF assms(3)] by (intro exI [of _ W]) auto
qed

theorem log_survives_cut_witness:
  "\<exists>W. (\<forall>j \<le> 2. add_all memory_writer (\<lambda>_. 0) (take j [[1, 2], [3]]) (new_Writer (\<lambda>_. 0) []) = Some (True, W j)) \<and>
    (\<forall>m g fuel k. g = take m (dest (W 2)) \<and> m < fuel \<and> k \<le> 2 \<and> length (dest (W k)) \<le> m \<and> (k = 2 \<or> m < length (dest (W (Suc k))))
       \<longrightarrow> (\<exists>r. read_all fuel memory_reader (\<lambda>_. 0) (new_Reader g True True 0) = Some (take k [[1, 2], [3]], r) \<and> reports r = []))"
  using log_survives_cut [OF memory_out.appendable_axioms refl memory_in.readable_axioms, of "[[1, 2], [3]]" "\<lambda>_. 0" "\<lambda>_. 0"]
  by (simp only: list.size numeral_2_eq_2 add_0_right add_Suc_right add_Suc)

subsection \<open>Any file\<close>

text \<open>A file of which a finite amount \<open>left\<close> is left: what is read is taken from it, and skipping adds nothing.\<close>

locale finite_file =
  fixes io :: "'f sequential_file" and left :: "'f \<Rightarrow> nat"
  assumes read_left: "Read io n f = (Some bs, f') \<Longrightarrow> length bs + left f' \<le> left f"
    and skip_left: "left (snd (Skip io k f)) \<le> left f"
begin

definition todo :: "'f log_reader \<Rightarrow> nat" where
  "todo r = left (seq_file r) + length (buffer r) + (if eof r then 0 else 1)"

lemma todo_update [simp]:
  "todo (r\<lparr>resyncing := x\<rparr>) = todo r" "todo (r\<lparr>last_record_offset := y\<rparr>) = todo r" "todo (ReportCorruption z s r) = todo r" "todo (ReportDrop z s r) = todo r"
  by (simp_all add: todo_def ReportCorruption_def ReportDrop_def)

lemma parse_progress: "parse_record al res r = (t, x, r') \<Longrightarrow> kHeaderSize \<le> length (buffer r) \<Longrightarrow> t = kEof \<or> todo r' < todo r"
  by (auto simp: parse_record_def Let_def todo_def ReportCorruption_def ReportDrop_def kHeaderSize_def split: if_splits)

lemma filled_progress:
  "ReadPhysicalRecord io al res r = (t, x, r') \<Longrightarrow> kHeaderSize \<le> length (buffer r) \<or> eof r \<Longrightarrow> t = kEof \<or> todo r' < todo r"
  using parse_progress [of al res r t x r'] by (subst (asm) ReadPhysicalRecord.simps) (auto split: if_splits)

lemma physical_progress:
  assumes r: "ReadPhysicalRecord io al res r = (t, x, r')"
  shows "t = kEof \<or> todo r' < todo r"
proof (cases "kHeaderSize \<le> length (buffer r) \<or> eof r")
  case False
  obtain a f where R: "Read io kBlockSize (seq_file r) = (a, f)" by fastforce
  show ?thesis
  proof (cases a)
    case None
    then show ?thesis using r R False by (subst (asm) ReadPhysicalRecord.simps) (simp split: if_splits)
  next
    case (Some bs)
    define r1 where "r1 = r\<lparr>seq_file := f, buffer := bs, end_of_buffer_offset := end_of_buffer_offset r + size_t bs\<rparr>"
    define r2 where "r2 = (if length bs < kBlockSize then r1\<lparr>eof := True\<rparr> else r1)"
    have "ReadPhysicalRecord io al res r = ReadPhysicalRecord io al res r2"
      using R Some False unfolding r2_def r1_def by (subst ReadPhysicalRecord.simps) (simp add: Let_def)
    moreover have "kHeaderSize \<le> length (buffer r2) \<or> eof r2" by (auto simp: r2_def r1_def log_sizes)
    moreover have "todo r2 \<le> todo r" using read_left [of kBlockSize "seq_file r" bs f] R Some False by (auto simp: todo_def r2_def r1_def)
    ultimately show ?thesis using filled_progress [of al res r2 t x r'] r by auto
  qed
qed (use filled_progress [OF r] in blast)

lemma read_loop_returns:
  "todo r < fuel \<Longrightarrow> \<exists>y r'. read_loop fuel io al frag scratch in_frag p r = Some (y, r') \<and> (y \<noteq> None \<longrightarrow> todo r' < todo r)"
proof (induction fuel arbitrary: frag scratch in_frag p r)
  case (Suc fuel)
  obtain t x r1 where r1: "ReadPhysicalRecord io al frag r = (t, x, r1)" using prod_cases3 by blast
  show ?case
  proof (cases "t = kEof")
    case True
    then show ?thesis using r1 by (simp add: Let_def record_types)
  next
    case False
    then have less: "todo r1 < todo r" using physical_progress [OF r1] by blast
    define ok where "ok y \<longleftrightarrow> (\<exists>a r'. y = Some (a, r') \<and> (a \<noteq> None \<longrightarrow> todo r' < todo r))" for y :: "(slice option \<times> 'f log_reader) option"
    have iff: "ok (if c then A else B)" if "c \<Longrightarrow> ok A" "\<not> c \<Longrightarrow> ok B" for c A B using that by simp
    have IH: "ok (read_loop fuel io al f s i p' r2)" if "todo r2 = todo r1" for f s i p' r2
      using Suc.IH [of r2 f s i p'] Suc.prems less that unfolding ok_def by fastforce
    have fin: "ok (Some (a, r2))" if "todo r2 = todo r1" for a r2 using that less by (simp add: ok_def)
    have "ok (read_loop (Suc fuel) io al frag scratch in_frag p r)"
      unfolding read_loop.simps r1 prod.case Let_def by (intro iff IH fin) simp_all
    then show ?thesis by (simp only: ok_def)
  qed
qed simp

lemma skip_less: "Skip io k f = (s, f') \<Longrightarrow> left f' \<le> left f"
  using skip_left [of k f] by simp

lemma skip_todo: "todo (snd (SkipToInitialBlock io r)) \<le> todo r"
  by (auto simp: SkipToInitialBlock_def Let_def todo_def ReportDrop_def split: prod.splits dest!: skip_less)

lemma record_returns:
  assumes "todo r < fuel"
  shows "\<exists>y r'. ReadRecord fuel io al r = Some (y, r') \<and> (y \<noteq> None \<longrightarrow> todo r' < todo r)"
proof -
  obtain ok r1 where s: "SkipToInitialBlock io r = (ok, r1)" by fastforce
  have le: "todo r1 \<le> todo r" using skip_todo [of r] s by simp
  obtain y r' where "read_loop fuel io al [] [] False 0 r1 = Some (y, r')" "y \<noteq> None \<longrightarrow> todo r' < todo r1"
    using read_loop_returns [of r1 fuel] le assms by (metis le_less_trans)
  then show ?thesis using read_loop_returns [OF assms] s le by (auto simp: ReadRecord_def)
qed

lemma all_returns: "todo r < fuel \<Longrightarrow> \<exists>rs r'. read_all fuel io al r = Some (rs, r')"
proof (induction fuel arbitrary: r)
  case (Suc fuel)
  obtain y r' where y: "ReadRecord (Suc fuel) io al r = Some (y, r')" "y \<noteq> None \<longrightarrow> todo r' < todo r"
    using record_returns [OF Suc.prems] by blast
  then show ?case using Suc.IH [of r'] Suc.prems by (cases y) auto
qed simp

end

interpretation memory_finite: finite_file memory_reader length
  by unfold_locales (auto simp: memory_reader_def)

text \<open>
  C13: reading a log ends, whatever the file holds. From any state of the reader, with any initial offset, over a file with a finite amount left and
  whose reads may fail, both \<^verbatim>\<open>ReadRecord\<close> and reading records up to the end return; a fuel above the bytes left in the file and the buffer is
  enough for each.
\<close>

theorem ReadRecord_returns:
  assumes "finite_file io left" and "left (seq_file r) + length (buffer r) + 1 < fuel"
  shows "(\<exists>x. ReadRecord fuel io al r = Some x) \<and> (\<exists>x. read_all fuel io al r = Some x)"
proof -
  have "finite_file.todo left r < fuel" using assms(2) by (simp add: finite_file.todo_def [OF assms(1)])
  then show ?thesis using finite_file.record_returns [OF assms(1)] finite_file.all_returns [OF assms(1)] by blast
qed

theorem ReadRecord_returns_witness:
  "(\<exists>x. ReadRecord 11 memory_reader (\<lambda>_. 0) (new_Reader [1, 2, 3, 4, 5, 6, 7, 8, 9] True True 0) = Some x) \<and>
   (\<exists>x. read_all 11 memory_reader (\<lambda>_. 0) (new_Reader [1, 2, 3, 4, 5, 6, 7, 8, 9] True True 0) = Some x)"
  by (rule ReadRecord_returns [OF memory_finite.finite_file_axioms]) (simp add: new_Reader_def)

end
