(* ===== verification/Ldb_Recover.thy ===== *)
theory Ldb_Recover
  imports Ldb_Batch Ldb_Log_Rec
begin

text \<open>
  Recovery of a log file, the loop of \<^verbatim>\<open>DBImpl::RecoverLogFile\<close> in \<^verbatim>\<open>db/db_impl.cc\<close>: the batches in the log are inserted into a memtable again.
\<close>

subsection \<open>Operations\<close>

text \<open>
  The options of the database, whether a memtable is larger than the write buffer, and \<^verbatim>\<open>WriteLevel0Table\<close>, which writes a memtable to a table file
  (\<open>'e\<close> is the state of the files and of the edit).
\<close>

record 'e recover_env =
  paranoid_checks :: bool
  user_comparator :: comparator
  buffer_full :: "memtable \<Rightarrow> bool"
  WriteLevel0Table :: "memtable \<Rightarrow> 'e \<Rightarrow> ldb_status \<times> 'e"

record 'e recovery =
  rc_status :: ldb_status
  rc_mem :: "memtable option"
  rc_max_sequence :: u64
  rc_save_manifest :: bool
  rc_compactions :: nat
  rc_files :: 'e

definition MaybeIgnoreError :: "bool \<Rightarrow> ldb_status \<Rightarrow> ldb_status" where
  "MaybeIgnoreError paranoid s = (if s = Ok_status \<or> paranoid then s else Ok_status)"

text \<open>The \<^verbatim>\<open>LogReporter\<close>: it has a pointer to the status if checks are paranoid.\<close>

definition report_corruption :: "bool \<Rightarrow> string \<Rightarrow> ldb_status \<Rightarrow> ldb_status" where
  "report_corruption paranoid reason status = (if paranoid \<and> status = Ok_status then Corruption reason else status)"

text \<open>The body of the loop on a record; the flag says whether the loop goes on.\<close>

definition recover_record :: "'e recover_env \<Rightarrow> slice \<Rightarrow> 'e recovery \<Rightarrow> (bool \<times> 'e recovery) option" where
  "recover_record E record st =
     (if length record < 12 then
        Some (True, st\<lparr>rc_status := report_corruption (paranoid_checks E) ''log record too small'' (rc_status st)\<rparr>)
      else
        do {
          batch \<leftarrow> batch_SetContents record;
          let mem = (case rc_mem st of None \<Rightarrow> mem_Ref (new_MemTable (user_comparator E)) | Some m \<Rightarrow> m);
          (s, mem) \<leftarrow> batch_InsertInto batch mem;
          let s = MaybeIgnoreError (paranoid_checks E) s;
          let st = st\<lparr>rc_status := s, rc_mem := Some mem\<rparr>;
          if s \<noteq> Ok_status then Some (False, st)
          else
            let last_seq = batch_Sequence batch + scast (batch_Count batch) - 1;
                st = (if last_seq > rc_max_sequence st then st\<lparr>rc_max_sequence := last_seq\<rparr> else st)
            in if buffer_full E mem then
                 let (s, e) = WriteLevel0Table E mem (rc_files st);
                     st = st\<lparr>rc_compactions := Suc (rc_compactions st), rc_save_manifest := True, rc_status := s, rc_files := e\<rparr>
                 in do { _ \<leftarrow> mem_Unref mem; Some (s = Ok_status, st\<lparr>rc_mem := None\<rparr>) }
               else Some (True, st)
        })"

text \<open>Corruptions that the log reader reports while it looks for a record go to the reporter too.\<close>

fun recover_loop ::
  "nat \<Rightarrow> 'f sequential_file \<Rightarrow> (slice \<Rightarrow> nat) \<Rightarrow> 'e recover_env \<Rightarrow> 'f log_reader \<Rightarrow> 'e recovery \<Rightarrow> 'e recovery option" where
  "recover_loop 0 io al E r st = None"
| "recover_loop (Suc fuel) io al E r st =
     (case ReadRecord (Suc fuel) io al r of
        None \<Rightarrow> None
      | Some (record, r') \<Rightarrow>
          let st = st\<lparr>rc_status := fold (\<lambda>(_, reason). report_corruption (paranoid_checks E) reason) (drop (length (reports r)) (reports r')) (rc_status st)\<rparr>
          in (case record of
                None \<Rightarrow> Some st
              | Some rec \<Rightarrow>
                  if rc_status st \<noteq> Ok_status then Some st
                  else do { (go, st) \<leftarrow> recover_record E rec st; if go then recover_loop fuel io al E r' st else Some st }))"

definition RecoverLogFile_records ::
  "nat \<Rightarrow> 'f sequential_file \<Rightarrow> (slice \<Rightarrow> nat) \<Rightarrow> 'e recover_env \<Rightarrow> 'f \<Rightarrow> u64 \<Rightarrow> 'e \<Rightarrow> 'e recovery option" where
  "RecoverLogFile_records fuel io al E f max_sequence e =
     recover_loop fuel io al E (new_Reader f True True 0)
       \<lparr>rc_status = Ok_status, rc_mem = None, rc_max_sequence = max_sequence, rc_save_manifest = False, rc_compactions = 0, rc_files = e\<rparr>"

subsection \<open>Reports only grow\<close>

definition grows :: "'f log_reader \<Rightarrow> 'f log_reader \<Rightarrow> bool" where
  "grows r r' \<longleftrightarrow> (\<exists>xs. reports r' = reports r @ xs)"

lemma grows_refl [simp]: "grows r r" "reports r' = reports r \<Longrightarrow> grows r r'"
  by (simp_all add: grows_def)

lemma grows_trans: "grows r r' \<Longrightarrow> grows r' r'' \<Longrightarrow> grows r r''"
  by (auto simp: grows_def)

lemma grows_report: "grows r r' \<Longrightarrow> grows r (ReportCorruption n s r')" "grows r r' \<Longrightarrow> grows r (ReportDrop n s r')"
  by (auto simp: grows_def ReportCorruption_def ReportDrop_def)

lemma grows_fields [simp]:
  "grows r (r'\<lparr>resyncing := x\<rparr>) \<longleftrightarrow> grows r r'" "grows r (r'\<lparr>last_record_offset := y\<rparr>) \<longleftrightarrow> grows r r'"
  "grows r (r'\<lparr>buffer := b\<rparr>) \<longleftrightarrow> grows r r'" "grows r (r'\<lparr>eof := e\<rparr>) \<longleftrightarrow> grows r r'" "grows r (r'\<lparr>seq_file := f\<rparr>) \<longleftrightarrow> grows r r'"
  "grows r (r'\<lparr>end_of_buffer_offset := z\<rparr>) \<longleftrightarrow> grows r r'"
  by (simp_all add: grows_def)

lemma parse_grows: "parse_record al res r = (t, x, r') \<Longrightarrow> grows r r'"
  by (auto simp: parse_record_def Let_def intro!: grows_report split: if_splits)

lemma filled_grows:
  "ReadPhysicalRecord io al res r = (t, x, r') \<Longrightarrow> kHeaderSize \<le> length (buffer r) \<or> eof r \<Longrightarrow> grows r r'"
  by (subst (asm) ReadPhysicalRecord.simps) (auto split: if_splits dest: parse_grows)

lemma physical_grows:
  assumes r: "ReadPhysicalRecord io al res r = (t, x, r')"
  shows "grows r r'"
proof (cases "kHeaderSize \<le> length (buffer r) \<or> eof r")
  case False
  obtain a f where R: "Read io kBlockSize (seq_file r) = (a, f)" by fastforce
  show ?thesis
  proof (cases a)
    case None
    then show ?thesis using r False R by (subst (asm) ReadPhysicalRecord.simps) (auto intro!: grows_report)
  next
    case (Some bs)
    define r1 where "r1 = r\<lparr>seq_file := f, buffer := bs, end_of_buffer_offset := end_of_buffer_offset r + size_t bs\<rparr>"
    define r2 where "r2 = (if length bs < kBlockSize then r1\<lparr>eof := True\<rparr> else r1)"
    have "ReadPhysicalRecord io al res r = ReadPhysicalRecord io al res r2"
      using R Some False unfolding r2_def r1_def by (subst ReadPhysicalRecord.simps) (simp add: Let_def)
    moreover have "kHeaderSize \<le> length (buffer r2) \<or> eof r2" by (auto simp: r2_def r1_def log_sizes)
    moreover have "grows r r2" by (simp add: r2_def r1_def)
    ultimately show ?thesis using r filled_grows grows_trans by metis
  qed
qed (use filled_grows [OF r] in blast)

lemma loop_grows: "read_loop fuel io al frag scratch in_frag p r = Some (y, r') \<Longrightarrow> grows r r'"
proof (induction fuel arbitrary: frag scratch in_frag p r y r')
  case (Suc fuel)
  obtain t x r1 where r1: "ReadPhysicalRecord io al frag r = (t, x, r1)" using prod_cases3 by blast
  define ok where "ok z \<longleftrightarrow> (\<forall>a r'. z = Some (a, r') \<longrightarrow> grows r r')" for z :: "(slice option \<times> 'a log_reader) option"
  have g: "grows r r1" by (rule physical_grows [OF r1])
  have iff: "ok (if c then A else B)" if "c \<Longrightarrow> ok A" "\<not> c \<Longrightarrow> ok B" for c A B using that by simp
  have IH: "ok (read_loop fuel io al f s i p' r2)" if "grows r r2" for f s i p' r2
    using Suc.IH [of f s i p' r2] that grows_trans by (auto simp: ok_def)
  have fin: "ok (Some (a, r2))" if "grows r r2" for a r2 using that by (simp add: ok_def)
  have "ok (read_loop (Suc fuel) io al frag scratch in_frag p r)"
    unfolding read_loop.simps r1 prod.case Let_def by (intro iff IH fin) (simp_all add: g grows_report)
  then show ?case using Suc.prems by (simp only: ok_def)
qed simp

lemma record_grows:
  assumes "ReadRecord fuel io al r = Some (y, r')"
  shows "grows r r'"
proof -
  obtain ok r1 where s: "SkipToInitialBlock io r = (ok, r1)" by fastforce
  then have "grows r r1" by (auto simp: SkipToInitialBlock_def Let_def intro!: grows_report split: prod.splits if_splits)
  then show ?thesis using assms s loop_grows [of fuel io al "[]" "[]" False 0 _ y r'] grows_trans by (fastforce simp: ReadRecord_def split: if_splits)
qed

lemma all_grows: "read_all fuel io al r = Some (rs, r') \<Longrightarrow> grows r r'"
proof (induction fuel arbitrary: r rs)
  case (Suc fuel)
  then show ?case using record_grows grows_trans by (fastforce split: option.splits prod.splits)
qed simp

subsection \<open>Recovering a list of records\<close>

fun recover_all :: "'e recover_env \<Rightarrow> slice list \<Rightarrow> 'e recovery \<Rightarrow> 'e recovery option" where
  "recover_all E [] st = Some st"
| "recover_all E (rec # rs) st =
     (if rc_status st \<noteq> Ok_status then Some st
      else do { (go, st) \<leftarrow> recover_record E rec st; if go then recover_all E rs st else Some st })"

lemma loop_all:
  "read_all fuel io al r = Some (rs, r') \<Longrightarrow> reports r' = reports r \<Longrightarrow> recover_loop fuel io al E r st = recover_all E rs st"
proof (induction fuel arbitrary: r rs st)
  case (Suc fuel)
  obtain y r1 where y: "ReadRecord (Suc fuel) io al r = Some (y, r1)" using Suc.prems(1) by (auto split: option.splits)
  note g = record_grows [OF y]
  show ?case
  proof (cases y)
    case None
    then show ?thesis using y Suc.prems by simp
  next
    case (Some rec)
    then obtain rs' where rs': "read_all fuel io al r1 = Some (rs', r')" "rs = rec # rs'" using Suc.prems(1) y by (auto split: option.splits)
    obtain xs ys where "reports r1 = reports r @ xs" "reports r' = reports r1 @ ys" using g all_grows [OF rs'(1)] unfolding grows_def by blast
    then have same: "reports r1 = reports r" using Suc.prems(2) by (metis append.assoc append_is_Nil_conv append_self_conv)
    then have IH: "recover_loop fuel io al E r1 st = recover_all E rs' st" for st using Suc.IH [OF rs'(1)] Suc.prems(2) by simp
    have "recover_loop (Suc fuel) io al E r st =
        (if rc_status st \<noteq> Ok_status then Some st
         else do { (go, st) \<leftarrow> recover_record E rec st; if go then recover_loop fuel io al E r1 st else Some st })"
    proof -
      have "st\<lparr>rc_status := fold (\<lambda>(_, reason). report_corruption (paranoid_checks E) reason) (drop (length (reports r)) (reports r1)) (rc_status st)\<rparr> = st"
        using same by simp
      then show ?thesis by (simp only: recover_loop.simps y Some option.case prod.case Let_def)
    qed
    then show ?thesis unfolding rs'(2) IH by simp
  qed
qed simp

subsection \<open>Recovering batches\<close>

text \<open>The entries of numbered batches; each batch takes its numbers after those of the batch before it.\<close>

definition batch_entries :: "(u64 \<times> batch_op list) list \<Rightarrow> mem_entry list" where
  "batch_entries bs = concat (map (\<lambda>(s, ops). number_ops s ops) bs)"

fun batches_ok :: "nat \<Rightarrow> (u64 \<times> batch_op list) list \<Rightarrow> bool" where
  "batches_ok n [] \<longleftrightarrow> True"
| "batches_ok n ((s, ops) # bs) \<longleftrightarrow>
     n \<le> unat s \<and> unat s + length ops \<le> unat kMaxSequenceNumber + 1 \<and> ops \<noteq> [] \<and> length ops < 2 ^ 31 \<and> (\<forall>op \<in> set ops. op_fits op) \<and>
     batches_ok (unat s + length ops) bs"

lemma last_seq_ok:
  assumes "ops \<noteq> []" and "length ops < 2 ^ 31" and "unat s + length ops \<le> unat kMaxSequenceNumber + 1" and "e \<in> set (number_ops s ops)"
  shows "entry_seq e \<le> s + scast (of_nat (length ops) :: u32) - 1"
proof -
  have k: "unat kMaxSequenceNumber = 2 ^ 56 - 1" by (simp add: kMaxSequenceNumber_def)
  have c: "(scast (of_nat (length ops) :: u32) :: u64) = of_nat (length ops)" using assms(2) by (simp add: signed_of_nat signed_take_bit_int_eq_self)
  have n: "unat (of_nat (length ops) :: u64) = length ops" using assms(2) by (simp add: unat_of_nat_lt)
  have sum: "unat (s + of_nat (length ops)) = unat s + length ops" using assms(3) k n by (simp add: unat_word_ariths)
  have "1 \<le> s + of_nat (length ops)" using sum assms(1) by (simp add: word_le_nat_alt Suc_le_eq)
  then have "unat (s + of_nat (length ops) - 1) = unat s + length ops - 1" using sum by (simp add: unat_sub)
  then show ?thesis using number_ops_seq [OF assms(3,4)] unfolding c word_le_nat_alt by linarith
qed

lemma recover_batch:
  assumes st: "rc_status st = Ok_status" and full: "\<And>m. \<not> buffer_full E m" and uc: "user_comparator E = BytewiseComparator"
    and mem: "case rc_mem st of None \<Rightarrow> es = [] | Some m \<Rightarrow> mem_holds m es" and n: "\<forall>e \<in> set es. unat (entry_seq e) < n \<and> entry_seq e \<le> rc_max_sequence st"
    and b: "batches_ok n [(s, ops)]"
  shows "\<exists>st' m. recover_record E (batch_of s ops) st = Some (True, st') \<and> rc_status st' = Ok_status \<and> rc_mem st' = Some m \<and> mem_holds m (es @ number_ops s ops) \<and>
    (\<forall>e \<in> set (es @ number_ops s ops). unat (entry_seq e) < unat s + length ops \<and> entry_seq e \<le> rc_max_sequence st')"
proof -
  define m0 where "m0 = (case rc_mem st of None \<Rightarrow> mem_Ref (new_MemTable (user_comparator E)) | Some m \<Rightarrow> m)"
  have h0: "mem_holds m0 es"
    using mem new_memtable_ok uc by (auto simp: m0_def mem_holds_def mem_Ref_def split: option.splits)
  have b': "n \<le> unat s" "unat s + length ops \<le> unat kMaxSequenceNumber + 1" "ops \<noteq> []" "length ops < 2 ^ 31" "\<forall>op \<in> set ops. op_fits op" using b by simp_all
  note N = number_ops_ok [OF b'(2,5)] and S = number_ops_seq [OF b'(2)]
  have "entry_seq a < entry_seq e" if "a \<in> set es" "e \<in> set (number_ops s ops)" for a e
    using n that(1) S [OF that(2)] b'(1) by (fastforce simp: word_less_nat_alt)
  then have "sorted_wrt (\<lambda>a b. entry_seq a < entry_seq b) (es @ number_ops s ops)" using h0 N by (simp add: mem_holds_def sorted_wrt_append)
  then obtain m where m: "mem_add_all (number_ops s ops) m0 = Some m" "mem_holds m (es @ number_ops s ops)"
    using add_all_entries [OF h0] N by blast
  let ?b = "batch_of s ops" and ?last = "s + scast (of_nat (length ops) :: u32) - 1"
  have ins: "batch_InsertInto ?b m0 = Some (Ok_status, m)" using insert_into_image [OF b'(5)] m(1) by (simp add: batch_of_image)
  have len: "\<not> length ?b < 12" by (simp add: batch_of_image batch_image_def)
  have c: "batch_Sequence ?b = s" "batch_Count ?b = of_nat (length ops)" by (simp_all add: batch_of_image)
  define st1 where "st1 = st\<lparr>rc_status := Ok_status, rc_mem := Some m\<rparr>"
  define st2 where "st2 = (if ?last > rc_max_sequence st1 then st1\<lparr>rc_max_sequence := ?last\<rparr> else st1)"
  have "recover_record E ?b st = Some (True, st2)"
    unfolding recover_record_def batch_SetContents_def m0_def [symmetric] Let_def using len ins full
    by (simp add: kHeader_def MaybeIgnoreError_def c st2_def st1_def)
  moreover have "rc_max_sequence st \<le> rc_max_sequence st2" "?last \<le> rc_max_sequence st2" by (auto simp: st2_def st1_def)
  then have "\<forall>e \<in> set (es @ number_ops s ops). unat (entry_seq e) < unat s + length ops \<and> entry_seq e \<le> rc_max_sequence st2"
    using n S last_seq_ok [OF b'(3,4,2)] b'(1) by (fastforce intro: order_trans)
  moreover have "rc_status st2 = Ok_status" "rc_mem st2 = Some m" by (simp_all add: st2_def st1_def)
  ultimately show ?thesis using m(2) by blast
qed

lemma recover_batches:
  "rc_status st = Ok_status \<Longrightarrow> \<forall>m. \<not> buffer_full E m \<Longrightarrow> user_comparator E = BytewiseComparator \<Longrightarrow>
   case rc_mem st of None \<Rightarrow> es = [] | Some m \<Rightarrow> mem_holds m es \<Longrightarrow> \<forall>e \<in> set es. unat (entry_seq e) < n \<and> entry_seq e \<le> rc_max_sequence st \<Longrightarrow> batches_ok n bs \<Longrightarrow>
   \<exists>st'. recover_all E (map (\<lambda>(s, ops). batch_of s ops) bs) st = Some st' \<and> rc_status st' = Ok_status \<and>
     (case rc_mem st' of None \<Rightarrow> es @ batch_entries bs = [] | Some m \<Rightarrow> mem_holds m (es @ batch_entries bs)) \<and>
     (\<forall>e \<in> set (es @ batch_entries bs). entry_seq e \<le> rc_max_sequence st')"
proof (induction bs arbitrary: n es st)
  case Nil
  then show ?case by (simp add: batch_entries_def split: option.splits)
next
  case (Cons b bs)
  obtain s ops where b: "b = (s, ops)" by (cases b)
  have ok: "batches_ok n [(s, ops)]" "batches_ok (unat s + length ops) bs" using Cons.prems(6) b by simp_all
  obtain st1 m where st1: "recover_record E (batch_of s ops) st = Some (True, st1)" "rc_status st1 = Ok_status" "rc_mem st1 = Some m"
      "mem_holds m (es @ number_ops s ops)"
      "\<forall>e \<in> set (es @ number_ops s ops). unat (entry_seq e) < unat s + length ops \<and> entry_seq e \<le> rc_max_sequence st1"
    using recover_batch [OF Cons.prems(1) _ Cons.prems(3-5) ok(1)] Cons.prems(2) by blast
  have "\<exists>st'. recover_all E (map (\<lambda>(s, ops). batch_of s ops) bs) st1 = Some st' \<and> rc_status st' = Ok_status \<and>
     (case rc_mem st' of None \<Rightarrow> (es @ number_ops s ops) @ batch_entries bs = [] | Some m \<Rightarrow> mem_holds m ((es @ number_ops s ops) @ batch_entries bs)) \<and>
     (\<forall>e \<in> set ((es @ number_ops s ops) @ batch_entries bs). entry_seq e \<le> rc_max_sequence st')"
    by (rule Cons.IH [OF st1(2) Cons.prems(2,3) _ st1(5) ok(2)]) (use st1(3,4) in simp)
  moreover have app: "(es @ number_ops s ops) @ batch_entries bs = es @ batch_entries (b # bs)" by (simp add: batch_entries_def b)
  ultimately show ?case unfolding app using st1(1) Cons.prems(1) b by simp
qed

lemma batches_take: "batches_ok n bs \<Longrightarrow> batches_ok n (take k bs)"
  by (induction n bs arbitrary: k rule: batches_ok.induct) (auto simp: take_Cons split: nat.splits)

text \<open>
  C5: recovery after a crash. Let batches with consecutive ranges of sequence numbers be written to a new log, one record for each, and let the log be cut off
  after any number \<open>m\<close> of bytes. If \<open>k\<close> batches had been written completely by then, recovery reads the log to its end, with status OK also under
  paranoid checks, and afterwards a lookup at any sequence number gives what the entries of the first \<open>k\<close> batches say (there is no memtable if there is no batch);
  none of these entries has a number above the sequence number that recovery returns. The memtable stays below the size of the write buffer.
\<close>

theorem recovery_after_crash:
  assumes "appendable out contents" and "contents f = []" and "readable inp contents'" and "batches_ok 0 bs"
    and "user_comparator E = BytewiseComparator" and "\<forall>m. \<not> buffer_full E m"
  shows "\<exists>W. (\<forall>j \<le> length bs. add_all out al (map (\<lambda>(s, ops). batch_of s ops) (take j bs)) (new_Writer al f) = Some (True, W j)) \<and>
    (\<forall>m g fuel k. contents' g = take m (contents (dest (W (length bs)))) \<and> m < fuel \<and> k \<le> length bs \<and>
       length (contents (dest (W k))) \<le> m \<and> (k = length bs \<or> m < length (contents (dest (W (Suc k)))))
       \<longrightarrow> (\<exists>st. RecoverLogFile_records fuel inp al' E g 0 e = Some st \<and> rc_status st = Ok_status \<and>
             (\<forall>x \<in> set (batch_entries (take k bs)). entry_seq x \<le> rc_max_sequence st) \<and>
             (\<forall>u s. length u + 8 < 2 ^ 32 \<and> s \<le> kMaxSequenceNumber \<longrightarrow>
                (\<exists>lk. LookupKey u s = Some lk \<and>
                   (case rc_mem st of None \<Rightarrow> Some Not_here | Some mem \<Rightarrow> mem_Get lk mem) = Some (visible (batch_entries (take k bs)) u s)))))"
proof -
  let ?rs = "map (\<lambda>(s, ops). batch_of s ops) bs"
  have "\<forall>j. \<exists>w. add_all out al (take j ?rs) (new_Writer al f) = Some (True, w) \<and> contents (dest w) = log_image (take j ?rs)"
    using writes_image [OF assms(1,2)] by blast
  then obtain W where W: "add_all out al (take j ?rs) (new_Writer al f) = Some (True, W j)" "contents (dest (W j)) = log_image (take j ?rs)" for j
    by metis
  have main: "\<exists>st. RecoverLogFile_records fuel inp al' E g 0 e = Some st \<and> rc_status st = Ok_status \<and>
             (\<forall>x \<in> set (batch_entries (take k bs)). entry_seq x \<le> rc_max_sequence st) \<and>
             (\<forall>u s. length u + 8 < 2 ^ 32 \<and> s \<le> kMaxSequenceNumber \<longrightarrow>
                (\<exists>lk. LookupKey u s = Some lk \<and>
                   (case rc_mem st of None \<Rightarrow> Some Not_here | Some mem \<Rightarrow> mem_Get lk mem) = Some (visible (batch_entries (take k bs)) u s)))"
    if g: "contents' g = take m (log_image ?rs)" "m < fuel" "k \<le> length bs" "length (log_image (take k ?rs)) \<le> m"
      "k = length bs \<or> m < length (log_image (take (Suc k) ?rs))" for m g fuel k
  proof -
    obtain r' where r': "read_all fuel inp al' (new_Reader g True True 0) = Some (take k ?rs, r')" "reports r' = []"
      using reads_image [OF assms(3) g(1,2)] g(3-5) by auto
    let ?st = "\<lparr>rc_status = Ok_status, rc_mem = None, rc_max_sequence = 0, rc_save_manifest = False, rc_compactions = 0, rc_files = e\<rparr>"
    have "RecoverLogFile_records fuel inp al' E g 0 e = recover_all E (take k ?rs) ?st"
      unfolding RecoverLogFile_records_def by (rule loop_all [OF r'(1)]) (simp add: r'(2) new_Reader_def)
    then have rec: "RecoverLogFile_records fuel inp al' E g 0 e = recover_all E (map (\<lambda>(s, ops). batch_of s ops) (take k bs)) ?st" by (simp add: take_map)
    obtain st where st: "recover_all E (map (\<lambda>(s, ops). batch_of s ops) (take k bs)) ?st = Some st" "rc_status st = Ok_status"
        "case rc_mem st of None \<Rightarrow> [] @ batch_entries (take k bs) = [] | Some m \<Rightarrow> mem_holds m ([] @ batch_entries (take k bs))"
        "\<forall>x \<in> set ([] @ batch_entries (take k bs)). entry_seq x \<le> rc_max_sequence st"
      using recover_batches [OF _ assms(6,5) _ _ batches_take [OF assms(4), of k], of ?st "[]"] by auto
    have "\<exists>lk. LookupKey u s = Some lk \<and>
        (case rc_mem st of None \<Rightarrow> Some Not_here | Some mem \<Rightarrow> mem_Get lk mem) = Some (visible (batch_entries (take k bs)) u s)"
      if us: "length u + 8 < 2 ^ 32" "s \<le> kMaxSequenceNumber" for u s
    proof -
      obtain lk where lk: "LookupKey u s = Some lk" "memtable_key lk = mem_key u (seq_tag s kTypeValue) []" "lk_user_key lk = u"
        using lookup_key_ok [OF us(2)] by blast
      then show ?thesis using st(3) get_ok [OF _ lk(2,3) us] by (auto simp: visible_def split: option.splits)
    qed
    then show ?thesis using rec st by auto
  qed
  show ?thesis
    by (rule exI [of _ W]) (use W main in \<open>simp add: take_map\<close>)
qed

theorem recovery_after_crash_witness:
  "\<exists>W. (\<forall>j \<le> length [(1 :: u64, [Put_op [7] [8]]), (2, [Delete_op [7], Put_op [9] []])].
      add_all memory_writer (\<lambda>_. 0) (map (\<lambda>(s, ops). batch_of s ops) (take j [(1, [Put_op [7] [8]]), (2, [Delete_op [7], Put_op [9] []])])) (new_Writer (\<lambda>_. 0) [])
        = Some (True, W j)) \<and>
    (\<exists>st. RecoverLogFile_records (Suc (length (dest (W 2)))) memory_reader (\<lambda>_. 0)
         \<lparr>paranoid_checks = True, user_comparator = BytewiseComparator, buffer_full = (\<lambda>_. False), WriteLevel0Table = (\<lambda>m e. (Ok_status, e))\<rparr> (dest (W 2)) 0 ()
         = Some st \<and> rc_status st = Ok_status \<and>
       (\<exists>lk. LookupKey [7] 1 = Some lk \<and> (case rc_mem st of None \<Rightarrow> Some Not_here | Some mem \<Rightarrow> mem_Get lk mem) = Some (Value [8])))"
  (is "\<exists>W. (\<forall>j \<le> length ?bs. ?A W j) \<and> ?R W")
proof -
  let ?E = "\<lparr>paranoid_checks = True, user_comparator = BytewiseComparator, buffer_full = (\<lambda>_. False), WriteLevel0Table = (\<lambda>m e. (Ok_status, e))\<rparr> :: unit recover_env"
  have ok: "batches_ok 0 ?bs" by (simp add: kMaxSequenceNumber_def)
  from recovery_after_crash [OF memory_out.appendable_axioms refl memory_in.readable_axioms ok, of ?E "\<lambda>_. 0" "\<lambda>_. 0" "()"]
  obtain W where W: "\<forall>j \<le> length ?bs. ?A W j"
    and R: "\<forall>m g fuel k. g = take m (dest (W (length ?bs))) \<and> m < fuel \<and> k \<le> length ?bs \<and>
       length (dest (W k)) \<le> m \<and> (k = length ?bs \<or> m < length (dest (W (Suc k))))
       \<longrightarrow> (\<exists>st. RecoverLogFile_records fuel memory_reader (\<lambda>_. 0) ?E g 0 () = Some st \<and> rc_status st = Ok_status \<and>
             (\<forall>x \<in> set (batch_entries (take k ?bs)). entry_seq x \<le> rc_max_sequence st) \<and>
             (\<forall>u s. length u + 8 < 2 ^ 32 \<and> s \<le> kMaxSequenceNumber \<longrightarrow>
                (\<exists>lk. LookupKey u s = Some lk \<and>
                   (case rc_mem st of None \<Rightarrow> Some Not_here | Some mem \<Rightarrow> mem_Get lk mem) = Some (visible (batch_entries (take k ?bs)) u s))))"
    by auto
  have two: "length ?bs = 2" by simp
  have vis: "visible (batch_entries (take 2 ?bs)) [7] 1 = Value [8]"
    by (simp add: visible_def batch_entries_def kTypeValue_def kTypeDeletion_def word_le_nat_alt)
  have one: "(1 :: u64) \<le> kMaxSequenceNumber" by (simp add: kMaxSequenceNumber_def)
  obtain st where st: "RecoverLogFile_records (Suc (length (dest (W 2)))) memory_reader (\<lambda>_. 0) ?E (dest (W 2)) 0 () = Some st" "rc_status st = Ok_status"
      "\<forall>u s. length u + 8 < 2 ^ 32 \<and> s \<le> kMaxSequenceNumber \<longrightarrow>
         (\<exists>lk. LookupKey u s = Some lk \<and>
            (case rc_mem st of None \<Rightarrow> Some Not_here | Some mem \<Rightarrow> mem_Get lk mem) = Some (visible (batch_entries (take 2 ?bs)) u s))"
    using R [rule_format, of "dest (W 2)" "length (dest (W 2))" "Suc (length (dest (W 2)))" 2] unfolding two by auto
  have "\<exists>lk. LookupKey [7] 1 = Some lk \<and> (case rc_mem st of None \<Rightarrow> Some Not_here | Some mem \<Rightarrow> mem_Get lk mem) = Some (Value [8])"
    using st(3) [rule_format, of "[7]" 1] one unfolding vis by simp
  then show ?thesis using W st(1,2) by blast
qed

end
