(* ===== verification/Ldb_Bloom.thy ===== *)
theory Ldb_Bloom
  imports Ldb_Format
begin

text \<open>
  Bloom filters, \<^verbatim>\<open>util/hash.cc\<close>, \<^verbatim>\<open>util/bloom.cc\<close> and the filter policy for internal keys in \<^verbatim>\<open>db/dbformat.cc\<close>.
\<close>

subsection \<open>Hash\<close>

fun hash_words :: "u32 \<Rightarrow> slice \<Rightarrow> u32 \<times> slice" where
  "hash_words h data =
     (if length data < 4 then (h, data)
      else
        let w = DecodeFixed32 data;
            h = (h + w) * 0xc6a4a793
        in hash_words (h XOR drop_bit 16 h) (drop 4 data))"

declare hash_words.simps [simp del]

definition hash_tail :: "u32 \<Rightarrow> slice \<Rightarrow> u32" where
  "hash_tail h data =
     (let h = (if length data = 3 then h + push_bit 16 (ucast (data ! 2)) else h);
          h = (if length data = 3 \<or> length data = 2 then h + push_bit 8 (ucast (data ! 1)) else h)
      in if length data = 3 \<or> length data = 2 \<or> length data = 1
         then let h = (h + ucast (data ! 0)) * 0xc6a4a793 in h XOR drop_bit 24 h
         else h)"

definition Hash :: "slice \<Rightarrow> u32 \<Rightarrow> u32" where
  "Hash data seed = (let h = seed XOR (of_nat (length data) * 0xc6a4a793); (h, rest) = hash_words h data in hash_tail h rest)"

definition BloomHash :: "slice \<Rightarrow> u32" where
  "BloomHash key = Hash key 0xbc9f1d34"

subsection \<open>Filter policy\<close>

record bloom_policy =
  bits_per_key :: u64
  bloom_k :: nat

text \<open>
  The integer part of the product of \<open>b\<close> and 0.69, in double precision: 0.69 is the number with the mantissa 6214967485771284 and the exponent -53, the
  product is rounded to 53 bits, ties to even.
\<close>

definition round_even :: "nat \<Rightarrow> nat \<Rightarrow> nat" where
  "round_even p e =
     (let q = p div 2 ^ e; r = p mod 2 ^ e in if 2 * r > 2 ^ e \<or> 2 * r = 2 ^ e \<and> odd q then q + 1 else q)"

fun bit_length :: "nat \<Rightarrow> nat" where
  "bit_length n = (if n = 0 then 0 else Suc (bit_length (n div 2)))"

declare bit_length.simps [simp del]

definition times_069 :: "nat \<Rightarrow> nat" where
  "times_069 b = (let p = b * 6214967485771284; e = bit_length p - 53 in round_even p e * 2 ^ e div 2 ^ 53)"

definition new_BloomFilterPolicy :: "nat \<Rightarrow> bloom_policy" where
  "new_BloomFilterPolicy b =
     (let k = times_069 b; k = (if k < 1 then 1 else k); k = (if k > 30 then 30 else k) in \<lparr>bits_per_key = of_nat b, bloom_k = k\<rparr>)"

definition rotate17 :: "u32 \<Rightarrow> u32" where
  "rotate17 h = drop_bit 17 h OR push_bit 15 h"

text \<open>The bytes of the filter, while the bits of a key are set; \<open>j\<close> counts the probes left.\<close>

fun set_probes :: "nat \<Rightarrow> u32 \<Rightarrow> u32 \<Rightarrow> u64 \<Rightarrow> slice \<Rightarrow> slice" where
  "set_probes 0 h delta bits array = array"
| "set_probes (Suc j) h delta bits array =
     (let bitpos = ucast (ucast h mod bits) :: u32;
          i = unat (bitpos div 8)
      in set_probes j (h + delta) delta bits (array[i := array ! i OR ucast (push_bit (unat (bitpos mod 8)) (1 :: u32))]))"

definition CreateFilter :: "bloom_policy \<Rightarrow> slice list \<Rightarrow> slice \<Rightarrow> slice" where
  "CreateFilter P keys dst =
     (let bits = of_nat (length keys) * bits_per_key P;
          bits = (if bits < 64 then 64 else bits);
          bytes = (bits + 7) div 8;
          bits = bytes * 8;
          array = fold (\<lambda>key array. let h = BloomHash key in set_probes (bloom_k P) h (rotate17 h) bits array) keys (replicate (unat bytes) 0)
      in dst @ array @ [of_nat (bloom_k P)])"

fun test_probes :: "nat \<Rightarrow> u32 \<Rightarrow> u32 \<Rightarrow> u64 \<Rightarrow> slice \<Rightarrow> bool" where
  "test_probes 0 h delta bits array = True"
| "test_probes (Suc j) h delta bits array =
     (let bitpos = ucast (ucast h mod bits) :: u32 in
      if array ! unat (bitpos div 8) AND ucast (push_bit (unat (bitpos mod 8)) (1 :: u32)) = 0 then False
      else test_probes j (h + delta) delta bits array)"

text \<open>The number of probes is read as a signed character, and converted to \<^verbatim>\<open>size_t\<close>.\<close>

definition KeyMayMatch :: "slice \<Rightarrow> slice \<Rightarrow> bool" where
  "KeyMayMatch key bloom_filter =
     (let len = length bloom_filter in
      if len < 2 then False
      else
        let bits = of_nat (len - 1) * 8;
            k = scast (bloom_filter ! (len - 1)) :: u64
        in if k > 30 then True
           else let h = BloomHash key in test_probes (unat k) h (rotate17 h) bits bloom_filter)"

text \<open>The filter policy for internal keys.\<close>

definition internal_CreateFilter :: "bloom_policy \<Rightarrow> slice list \<Rightarrow> slice \<Rightarrow> slice option" where
  "internal_CreateFilter P keys dst = do { mkey \<leftarrow> those (map ExtractUserKey keys); Some (CreateFilter P mkey dst) }"

definition internal_KeyMayMatch :: "slice \<Rightarrow> slice \<Rightarrow> bool option" where
  "internal_KeyMayMatch key f = do { k \<leftarrow> ExtractUserKey key; Some (KeyMayMatch k f) }"

subsection \<open>No false negatives\<close>

text \<open>Bits are only set.\<close>

definition covers :: "slice \<Rightarrow> slice \<Rightarrow> bool" where
  "covers a b \<longleftrightarrow> length a \<le> length b \<and> (\<forall>i < length a. \<forall>k. bit (a ! i) k \<longrightarrow> bit (b ! i) k)"

lemma covers_refl [simp]: "covers a a"
  by (simp add: covers_def)

lemma covers_trans: "covers a b \<Longrightarrow> covers b c \<Longrightarrow> covers a c"
  unfolding covers_def by (meson le_trans less_le_trans)

lemma covers_or: "covers a (a[i := a ! i OR m])"
  by (cases "i < length a") (auto simp: covers_def nth_list_update bit_or_iff list_update_beyond)

lemma length_set_probes [simp]: "length (set_probes j h d bits a) = length a"
  by (induction j h d bits a rule: set_probes.induct) (simp_all add: Let_def)

lemma set_probes_covers: "covers a (set_probes j h d bits a)"
proof (induction j h d bits a rule: set_probes.induct)
  case (2 j h d bits a)
  show ?case unfolding set_probes.simps Let_def by (rule covers_trans [OF covers_or 2 [OF refl refl]])
qed simp

definition probe_byte :: "u32 \<Rightarrow> u64 \<Rightarrow> nat" where
  "probe_byte h bits = unat ((ucast (ucast h mod bits) :: u32) div 8)"

definition probe_mask :: "u32 \<Rightarrow> u64 \<Rightarrow> u8" where
  "probe_mask h bits = ucast (push_bit (unat ((ucast (ucast h mod bits) :: u32) mod 8)) (1 :: u32))"

lemma probe_byte_less:
  assumes "unat bits = 8 * n" and "0 < n"
  shows "probe_byte h bits < n"
proof -
  have "unat (ucast (ucast h mod bits) :: u32) \<le> unat (ucast h mod bits :: u64)" by (simp add: unsigned_ucast_eq take_bit_eq_mod)
  also have "\<dots> < 8 * n" using assms by (simp add: unat_mod)
  finally show ?thesis by (simp add: probe_byte_def unat_div less_mult_imp_div_less mult.commute)
qed

lemma probe_mask_bit: "\<exists>k. bit (probe_mask h bits) k"
proof
  let ?k = "unat ((ucast (ucast h mod bits) :: u32) mod 8)"
  have "?k < 8" by (simp add: unat_mod)
  then show "bit (probe_mask h bits) ?k" by (simp add: probe_mask_def bit_unsigned_iff bit_exp_iff)
qed

lemma probes_found:
  "unat bits = 8 * length a \<Longrightarrow> a \<noteq> [] \<Longrightarrow> covers (set_probes j h d bits a) b \<Longrightarrow> test_probes j h d bits b"
proof (induction j h d bits a rule: set_probes.induct)
  case (2 j h d bits a)
  let ?i = "probe_byte h bits" and ?m = "probe_mask h bits"
  let ?a = "a[?i := a ! ?i OR ?m]"
  have i: "?i < length a" by (rule probe_byte_less) (use 2(2,3) in auto)
  have s: "set_probes (Suc j) h d bits a = set_probes j (h + d) d bits ?a" by (simp add: Let_def probe_byte_def probe_mask_def)
  have t: "test_probes j (h + d) d bits b"
    using 2(1) [OF refl refl] 2(2-4) unfolding s by (simp add: probe_byte_def probe_mask_def)
  have "covers ?a b" using 2(4) unfolding s by (rule covers_trans [OF set_probes_covers])
  then have "bit ?m k \<longrightarrow> bit (b ! ?i) k" for k using i unfolding covers_def by (metis bit_or_iff length_list_update nth_list_update_eq)
  then have "\<exists>k. bit (b ! ?i AND ?m) k" using probe_mask_bit [of h bits] by (auto simp: bit_and_iff)
  then have "b ! ?i AND ?m \<noteq> 0" by auto
  then show ?case using t by (simp add: Let_def probe_byte_def probe_mask_def)
qed simp

lemma keys_covered:
  assumes "unat bits = 8 * length a" and "a \<noteq> []" and "key \<in> set keys"
    and "covers (fold (\<lambda>key array. let h = BloomHash key in set_probes k h (rotate17 h) bits array) keys a) b"
  shows "test_probes k (BloomHash key) (rotate17 (BloomHash key)) bits b"
  using assms
proof (induction keys arbitrary: a)
  case (Cons x keys)
  let ?a = "set_probes k (BloomHash x) (rotate17 (BloomHash x)) bits a"
  show ?case
  proof (cases "key = x")
    case True
    have "covers a (fold (\<lambda>key array. let h = BloomHash key in set_probes k h (rotate17 h) bits array) ks a)" for ks a
      by (induction ks arbitrary: a) (auto simp: Let_def intro: covers_trans [OF set_probes_covers])
    then have "covers ?a b" using Cons.prems(4) covers_trans by (fastforce simp: Let_def)
    then show ?thesis using probes_found [OF Cons.prems(1,2)] True by blast
  next
    case False
    have "?a \<noteq> []" using Cons.prems(2) by (metis length_0_conv length_set_probes)
    then show ?thesis using Cons.IH [of ?a] Cons.prems False by (simp add: Let_def)
  qed
qed simp

lemma probes_prefix: "unat bits = 8 * length a \<Longrightarrow> a \<noteq> [] \<Longrightarrow> test_probes j h d bits (a @ c) = test_probes j h d bits a"
proof (induction j h d bits a rule: test_probes.induct)
  case (2 j h d bits a)
  have "unat ((ucast (ucast h mod bits) :: u32) div 8) < length a"
    using probe_byte_less [of bits "length a" h] 2(2,3) by (simp add: probe_byte_def)
  then show ?case using 2 by (simp add: Let_def nth_append)
qed simp

lemma policy_k: "bloom_k (new_BloomFilterPolicy b) \<le> 30"
  by (simp add: new_BloomFilterPolicy_def Let_def)

lemma filter_matches:
  assumes key: "key \<in> set keys" and n: "length keys * b + 7 < 2 ^ 64"
  shows "KeyMayMatch key (drop (length dst) (CreateFilter (new_BloomFilterPolicy b) keys dst))"
proof -
  let ?P = "new_BloomFilterPolicy b" let ?k = "bloom_k ?P"
  have b: "bits_per_key ?P = of_nat b" by (simp add: new_BloomFilterPolicy_def Let_def)
  define bits0 :: u64 where "bits0 = of_nat (length keys) * of_nat b"
  define bits1 where "bits1 = (if bits0 < 64 then 64 else bits0)"
  define bytes where "bytes = (bits1 + 7) div 8"
  have "bits0 = of_nat (length keys * b)" by (simp add: bits0_def)
  moreover have "unat (of_nat (length keys * b) :: u64) = length keys * b" by (rule unat_of_nat_lt) (use n in simp)
  ultimately have u0: "unat bits0 = length keys * b" by simp
  have u1: "64 \<le> unat bits1" "unat bits1 + 7 < 2 ^ 64" using u0 n by (auto simp: bits1_def word_less_nat_alt)
  then have uby: "unat bytes = (unat bits1 + 7) div 8" by (simp add: bytes_def unat_div unat_word_ariths)
  have u2: "unat (bytes * 8) = 8 * unat bytes" "8 \<le> unat bytes" using uby u1 by (simp_all add: unat_word_ariths)
  define a where "a = fold (\<lambda>key array. let h = BloomHash key in set_probes ?k h (rotate17 h) (bytes * 8) array) keys (replicate (unat bytes) 0)"
  have la: "length a = unat bytes"
  proof -
    have "length (fold (\<lambda>key array. let h = BloomHash key in set_probes ?k h (rotate17 h) (bytes * 8) array) ks x) = length x" for ks x
      by (induction ks arbitrary: x) (simp_all add: Let_def)
    then show ?thesis by (simp add: a_def)
  qed
  have f: "drop (length dst) (CreateFilter ?P keys dst) = a @ [of_nat ?k]"
    by (simp add: CreateFilter_def Let_def b a_def bytes_def bits1_def bits0_def)
  have "test_probes ?k (BloomHash key) (rotate17 (BloomHash key)) (bytes * 8) a"
    by (rule keys_covered [of _ "replicate (unat bytes) 0" _ keys]) (use u2 key in \<open>auto simp: a_def\<close>)
  then have t: "test_probes ?k (BloomHash key) (rotate17 (BloomHash key)) (bytes * 8) (a @ [of_nat ?k])"
    using probes_prefix [of "bytes * 8" a] u2 la by (cases "a = []") simp_all
  have k: "(scast (of_nat ?k :: u8) :: u64) = of_nat ?k" "unat (of_nat ?k :: u64) = ?k" "\<not> (of_nat ?k :: u64) > 30"
    using policy_k [of b] by (simp_all add: signed_of_nat signed_take_bit_int_eq_self unat_of_nat_lt word_less_nat_alt)
  have "of_nat (unat bytes) * 8 = bytes * 8" by simp
  then show ?thesis using t k u2(2) la unfolding f KeyMayMatch_def by (simp add: Let_def nth_append)
qed

text \<open>
  C14: a bloom filter never misses a key. For any number of bits for each key, the filter that is built for a list of keys (and appended to any string)
  matches each of them; likewise for internal keys, whose user keys are hashed. The number of bits fits into \<^verbatim>\<open>size_t\<close>.
\<close>

theorem bloom_no_false_negatives:
  assumes "length keys * b + 7 < 2 ^ 64" and "key \<in> set keys"
  shows "KeyMayMatch key (drop (length dst) (CreateFilter (new_BloomFilterPolicy b) keys dst)) \<and>
    (\<exists>f. internal_CreateFilter (new_BloomFilterPolicy b) (map (\<lambda>k. ikey k n) keys) dst = Some f \<and> internal_KeyMayMatch (ikey key m) (drop (length dst) f) = Some True)"
proof -
  have "those (map ExtractUserKey (map (\<lambda>k. ikey k n) keys)) = Some keys" by (induction keys) simp_all
  then show ?thesis using filter_matches [OF assms(2,1)] by (simp add: internal_CreateFilter_def internal_KeyMayMatch_def)
qed

theorem bloom_no_false_negatives_witness:
  "KeyMayMatch [1, 2] (drop (length [9 :: u8]) (CreateFilter (new_BloomFilterPolicy 10) [[1, 2], [3]] [9])) \<and>
    (\<exists>f. internal_CreateFilter (new_BloomFilterPolicy 10) (map (\<lambda>k. ikey k 257) [[1, 2], [3]]) [9] = Some f \<and>
       internal_KeyMayMatch (ikey [1, 2] 513) (drop (length [9 :: u8]) f) = Some True)"
  by (rule bloom_no_false_negatives) simp_all

end
