(* ===== verification/Ldb_Block.thy ===== *)
theory Ldb_Block
  imports Ldb_Format
begin

text \<open>
  Blocks of a table, \<^verbatim>\<open>table/block_builder.cc\<close> and \<^verbatim>\<open>table/block.cc\<close>. Keys are stored without the prefix they share with the key before them, except at
  the restart points, whose offsets are stored behind the entries. \<^const>\<open>None\<close> is a failed assertion or an access outside the block.
\<close>

subsection \<open>Builder\<close>

record block_options =
  block_comparator :: comparator
  block_restart_interval :: nat

record block_builder =
  bb_buffer :: slice
  bb_restarts :: "u32 list"
  bb_counter :: nat
  bb_finished :: bool
  bb_last_key :: slice

definition new_BlockBuilder :: "block_options \<Rightarrow> block_builder option" where
  "new_BlockBuilder opt =
     (if block_restart_interval opt \<ge> 1
      then Some \<lparr>bb_buffer = [], bb_restarts = [0], bb_counter = 0, bb_finished = False, bb_last_key = []\<rparr> else None)"

definition bb_Reset :: "block_builder \<Rightarrow> block_builder" where
  "bb_Reset b = b\<lparr>bb_buffer := [], bb_restarts := [0], bb_counter := 0, bb_finished := False, bb_last_key := []\<rparr>"

definition CurrentSizeEstimate :: "block_builder \<Rightarrow> nat" where
  "CurrentSizeEstimate b = length (bb_buffer b) + length (bb_restarts b) * 4 + 4"

definition bb_empty :: "block_builder \<Rightarrow> bool" where
  "bb_empty b = (bb_buffer b = [])"

definition bb_Finish :: "block_builder \<Rightarrow> slice \<times> block_builder" where
  "bb_Finish b =
     (let buf = fold (\<lambda>x buf. PutFixed32 buf x) (bb_restarts b) (bb_buffer b);
          buf = PutFixed32 buf (of_nat (length (bb_restarts b)))
      in (buf, b\<lparr>bb_buffer := buf, bb_finished := True\<rparr>))"

definition bb_Add :: "block_options \<Rightarrow> slice \<Rightarrow> slice \<Rightarrow> block_builder \<Rightarrow> block_builder option" where
  "bb_Add opt key value b =
     do {
       let last_key_piece = bb_last_key b;
       greater \<leftarrow> (if bb_buffer b = [] then Some True else map_option (\<lambda>r. r > 0) (Compare (block_comparator opt) key last_key_piece));
       if bb_finished b \<or> \<not> bb_counter b \<le> block_restart_interval opt \<or> \<not> greater then None
       else
         let (shared, b) =
               (if bb_counter b < block_restart_interval opt then (common_prefix last_key_piece key, b)
                else (0, b\<lparr>bb_restarts := bb_restarts b @ [of_nat (length (bb_buffer b))], bb_counter := 0\<rparr>));
             non_shared = length key - shared;
             buf = PutVarint32 (bb_buffer b) (of_nat shared);
             buf = PutVarint32 buf (of_nat non_shared);
             buf = PutVarint32 buf (of_nat (length value));
             buf = buf @ drop shared key @ value;
             last_key = take shared (bb_last_key b) @ drop shared key
         in if last_key = key then Some (b\<lparr>bb_buffer := buf, bb_last_key := last_key, bb_counter := Suc (bb_counter b)\<rparr>) else None
     }"

subsection \<open>Reader\<close>

text \<open>A block; \<^verbatim>\<open>size_\<close> is 0 as a mark of an error. Offsets are 32 bits wide; a block has less than 2 to the power of 30 restart points, so that their indices never wrap.\<close>

record block =
  blk_data :: slice
  blk_size :: nat
  blk_restart_offset :: nat

abbreviation w32 :: "nat \<Rightarrow> nat" where
  "w32 n \<equiv> n mod 2 ^ 32"

definition NumRestarts :: "block \<Rightarrow> nat option" where
  "NumRestarts b = (if blk_size b \<ge> 4 then Some (unat (DecodeFixed32 (drop (blk_size b - 4) (blk_data b)))) else None)"

definition new_Block :: "slice \<Rightarrow> block option" where
  "new_Block contents =
     (let b = \<lparr>blk_data = contents, blk_size = length contents, blk_restart_offset = 0\<rparr> in
      if blk_size b < 4 then Some (b\<lparr>blk_size := 0\<rparr>)
      else
        let max_restarts_allowed = (blk_size b - 4) div 4 in
        do {
          n \<leftarrow> NumRestarts b;
          Some (if n > max_restarts_allowed then b\<lparr>blk_size := 0\<rparr> else b\<lparr>blk_restart_offset := w32 (blk_size b - w32 (1 + n) * 4)\<rparr>)
        })"

text \<open>The entry at the start of a range: the shared and the other length of the key, the length of the value, and the range behind these numbers.\<close>

definition DecodeEntry :: "slice \<Rightarrow> (u32 \<times> u32 \<times> u32 \<times> slice) option" where
  "DecodeEntry p =
     (if length p < 3 then None
      else
        do {
          let shared = ucast (p ! 0);
          let non_shared = ucast (p ! 1);
          let value_length = ucast (p ! 2);
          (shared, non_shared, value_length, p) \<leftarrow>
            (if shared OR non_shared OR value_length < (128 :: u32) then Some (shared, non_shared, value_length, drop 3 p)
             else
               do {
                 (shared, p) \<leftarrow> GetVarint32Ptr p;
                 (non_shared, p) \<leftarrow> GetVarint32Ptr p;
                 (value_length, p) \<leftarrow> GetVarint32Ptr p;
                 Some (shared, non_shared, value_length, p)
               });
          if of_nat (length p) < non_shared + value_length then None else Some (shared, non_shared, value_length, p)
        })"

text \<open>
  An iterator. \<^verbatim>\<open>value_\<close> is given by its offset in the block and its length; \<^const>\<open>None\<close> is a value that has been cleared and is no part of the block.
\<close>

record block_iter =
  bi_data :: slice
  bi_restarts :: nat
  bi_num_restarts :: nat
  bi_current :: nat
  bi_restart_index :: nat
  bi_key :: slice
  bi_value :: "(nat \<times> nat) option"
  bi_error :: bool

definition new_Iter :: "slice \<Rightarrow> nat \<Rightarrow> nat \<Rightarrow> block_iter option" where
  "new_Iter data restarts num =
     (if num > 0
      then Some \<lparr>bi_data = data, bi_restarts = restarts, bi_num_restarts = num, bi_current = restarts, bi_restart_index = num, bi_key = [], bi_value = None, bi_error = False\<rparr>
      else None)"

definition bi_Valid :: "block_iter \<Rightarrow> bool" where
  "bi_Valid it \<longleftrightarrow> bi_current it < bi_restarts it"

definition bi_get_key :: "block_iter \<Rightarrow> slice option" where
  "bi_get_key it = (if bi_Valid it then Some (bi_key it) else None)"

definition bi_get_value :: "block_iter \<Rightarrow> slice option" where
  "bi_get_value it =
     (if bi_Valid it then do { (off, len) \<leftarrow> bi_value it; if off + len \<le> length (bi_data it) then Some (take len (drop off (bi_data it))) else None } else None)"

definition NextEntryOffset :: "block_iter \<Rightarrow> nat option" where
  "NextEntryOffset it = map_option (\<lambda>(off, len). w32 (off + len)) (bi_value it)"

definition GetRestartPoint :: "nat \<Rightarrow> block_iter \<Rightarrow> nat option" where
  "GetRestartPoint index it =
     (let p = bi_restarts it + index * 4 in
      if index < bi_num_restarts it \<and> p + 4 \<le> length (bi_data it) then Some (unat (DecodeFixed32 (drop p (bi_data it)))) else None)"

definition SeekToRestartPoint :: "nat \<Rightarrow> block_iter \<Rightarrow> block_iter option" where
  "SeekToRestartPoint index it =
     do { offset \<leftarrow> GetRestartPoint index it; Some (it\<lparr>bi_key := [], bi_restart_index := index, bi_value := Some (offset, 0)\<rparr>) }"

definition CorruptionError :: "block_iter \<Rightarrow> block_iter" where
  "CorruptionError it =
     it\<lparr>bi_current := bi_restarts it, bi_restart_index := bi_num_restarts it, bi_error := True, bi_key := [], bi_value := None\<rparr>"

text \<open>The loop at the end of \<^verbatim>\<open>ParseNextKey\<close>.\<close>

function advance_restart :: "block_iter \<Rightarrow> block_iter option" where
  "advance_restart it =
     (if bi_restart_index it + 1 < bi_num_restarts it then
        (case GetRestartPoint (bi_restart_index it + 1) it of
           None \<Rightarrow> None
         | Some p \<Rightarrow> if p < bi_current it then advance_restart (it\<lparr>bi_restart_index := bi_restart_index it + 1\<rparr>) else Some it)
      else Some it)"
  by pat_completeness auto
termination by (relation "measure (\<lambda>it. bi_num_restarts it - bi_restart_index it)") auto

declare advance_restart.simps [simp del]

definition ParseNextKey :: "block_iter \<Rightarrow> (bool \<times> block_iter) option" where
  "ParseNextKey it =
     do {
       current \<leftarrow> NextEntryOffset it;
       let it = it\<lparr>bi_current := current\<rparr>;
       if current \<ge> bi_restarts it then
         Some (False, it\<lparr>bi_current := bi_restarts it, bi_restart_index := bi_num_restarts it\<rparr>)
       else
         (case DecodeEntry (take (bi_restarts it - current) (drop current (bi_data it))) of
            None \<Rightarrow> Some (False, CorruptionError it)
          | Some (shared, non_shared, value_length, p) \<Rightarrow>
              if length (bi_key it) < unat shared then Some (False, CorruptionError it)
              else if length p < unat non_shared then None
              else
                let off = bi_restarts it - length p + unat non_shared;
                    it = it\<lparr>bi_key := take (unat shared) (bi_key it) @ take (unat non_shared) p, bi_value := Some (off, unat value_length)\<rparr>
                in do { it \<leftarrow> advance_restart it; Some (True, it) })
     }"

definition bi_Next :: "block_iter \<Rightarrow> block_iter option" where
  "bi_Next it = (if bi_Valid it then map_option snd (ParseNextKey it) else None)"

definition bi_SeekToFirst :: "block_iter \<Rightarrow> block_iter option" where
  "bi_SeekToFirst it = do { it \<leftarrow> SeekToRestartPoint 0 it; (_, it) \<leftarrow> ParseNextKey it; Some it }"

partial_function (option) skip_to :: "nat \<Rightarrow> block_iter \<Rightarrow> block_iter option" where
  "skip_to limit it =
     Option.bind (ParseNextKey it) (\<lambda>(ok, it).
       if ok then Option.bind (NextEntryOffset it) (\<lambda>n. if n < limit then skip_to limit it else Some it) else Some it)"

definition bi_SeekToLast :: "block_iter \<Rightarrow> block_iter option" where
  "bi_SeekToLast it = do { it \<leftarrow> SeekToRestartPoint (bi_num_restarts it - 1) it; skip_to (bi_restarts it) it }"

text \<open>The scan backwards for a restart point before \<open>original\<close>; \<^const>\<open>None\<close> in the result says that there is none.\<close>

fun scan_back :: "nat \<Rightarrow> nat \<Rightarrow> block_iter \<Rightarrow> nat option option" where
  "scan_back original index it =
     (case GetRestartPoint index it of
        None \<Rightarrow> None
      | Some p \<Rightarrow> if p \<ge> original then if index = 0 then Some None else scan_back original (index - 1) it else Some (Some index))"

declare scan_back.simps [simp del]

definition bi_Prev :: "block_iter \<Rightarrow> block_iter option" where
  "bi_Prev it =
     (if bi_Valid it then
        let original = bi_current it in
        do {
          r \<leftarrow> scan_back original (bi_restart_index it) it;
          (case r of
             None \<Rightarrow> Some (it\<lparr>bi_current := bi_restarts it, bi_restart_index := bi_num_restarts it\<rparr>)
           | Some index \<Rightarrow> do { it \<leftarrow> SeekToRestartPoint index it; skip_to original it })
        }
      else None)"

text \<open>The binary search over the restart points; \<^term>\<open>Inl ()\<close> is a corrupt entry.\<close>

partial_function (option) restart_search :: "comparator \<Rightarrow> slice \<Rightarrow> block_iter \<Rightarrow> nat \<Rightarrow> nat \<Rightarrow> (unit + nat) option" where
  "restart_search cmp target it left right =
     (if left < right then
        let mid = w32 (left + right + 1) div 2 in
        Option.bind (GetRestartPoint mid it) (\<lambda>off.
          case DecodeEntry (take (bi_restarts it - off) (drop off (bi_data it))) of
            None \<Rightarrow> Some (Inl ())
          | Some (shared, non_shared, value_length, p) \<Rightarrow>
              if shared \<noteq> 0 then Some (Inl ())
              else if length p < unat non_shared then None
              else
                Option.bind (Compare cmp (take (unat non_shared) p) target) (\<lambda>r.
                  if r < 0 then restart_search cmp target it mid right else restart_search cmp target it left (mid - 1)))
      else Some (Inr left))"

partial_function (option) linear_search :: "comparator \<Rightarrow> slice \<Rightarrow> block_iter \<Rightarrow> block_iter option" where
  "linear_search cmp target it =
     Option.bind (ParseNextKey it) (\<lambda>(ok, it).
       if \<not> ok then Some it
       else Option.bind (Compare cmp (bi_key it) target) (\<lambda>r. if r \<ge> 0 then Some it else linear_search cmp target it))"

definition bi_Seek :: "comparator \<Rightarrow> slice \<Rightarrow> block_iter \<Rightarrow> block_iter option" where
  "bi_Seek cmp target it =
     do {
       r \<leftarrow> restart_search cmp target it 0 (bi_num_restarts it - 1);
       (case r of
          Inl _ \<Rightarrow> Some (CorruptionError it)
        | Inr left \<Rightarrow> do { it \<leftarrow> SeekToRestartPoint left it; linear_search cmp target it })
     }"

text \<open>The iterator of a block: an iterator with an error, one with no entry, or one that walks over the entries.\<close>

datatype block_iterator = Error_Iterator | Empty_Iterator | Block_Iterator block_iter

definition blk_NewIterator :: "block \<Rightarrow> block_iterator option" where
  "blk_NewIterator b =
     (if blk_size b < 4 then Some Error_Iterator
      else
        do {
          n \<leftarrow> NumRestarts b;
          if n = 0 then Some Empty_Iterator else map_option Block_Iterator (new_Iter (blk_data b) (blk_restart_offset b) n)
        })"

end
