(* ===== verification/Ldb_Block_Ok.thy ===== *)
theory Ldb_Block_Ok
  imports Ldb_Block Ldb_Skip_Conc
begin

text \<open>
  What a block is: the bytes its builder produces for a sequence of entries, and that its iterators walk along these entries.
\<close>

subsection \<open>The layout\<close>

text \<open>
  The entries \<open>es\<close> of a block with the restart interval \<open>R\<close>: the bytes of the entry with index \<open>i\<close> and its offset, the number of restart points, and the whole block.
\<close>

definition shared_at :: "nat \<Rightarrow> (slice \<times> slice) list \<Rightarrow> nat \<Rightarrow> nat" where
  "shared_at R es i = (if i mod R = 0 then 0 else common_prefix (fst (es ! (i - 1))) (fst (es ! i)))"

definition entry_form :: "nat \<Rightarrow> slice \<Rightarrow> slice \<Rightarrow> slice" where
  "entry_form s k v =
     EncodeVarint32 (of_nat s) @ EncodeVarint32 (of_nat (length k - s)) @ EncodeVarint32 (of_nat (length v)) @ drop s k @ v"

definition enc_at :: "nat \<Rightarrow> (slice \<times> slice) list \<Rightarrow> nat \<Rightarrow> slice" where
  "enc_at R es i = entry_form (shared_at R es i) (fst (es ! i)) (snd (es ! i))"

definition enc_upto :: "nat \<Rightarrow> (slice \<times> slice) list \<Rightarrow> nat \<Rightarrow> slice" where
  "enc_upto R es i = concat (map (enc_at R es) [0..<i])"

abbreviation off_at :: "nat \<Rightarrow> (slice \<times> slice) list \<Rightarrow> nat \<Rightarrow> nat" where
  "off_at R es i \<equiv> length (enc_upto R es i)"

definition restart_count :: "nat \<Rightarrow> nat \<Rightarrow> nat" where
  "restart_count R n = (n - 1) div R + 1"

definition restart_offsets :: "nat \<Rightarrow> (slice \<times> slice) list \<Rightarrow> u32 list" where
  "restart_offsets R es = map (\<lambda>j. of_nat (off_at R es (j * R))) [0..<restart_count R (length es)]"

definition block_bytes :: "nat \<Rightarrow> (slice \<times> slice) list \<Rightarrow> slice" where
  "block_bytes R es =
     enc_upto R es (length es) @ concat (map EncodeFixed32 (restart_offsets R es)) @ EncodeFixed32 (of_nat (restart_count R (length es)))"

lemma common_prefix_le: "common_prefix a b \<le> length a" "common_prefix a b \<le> length b"
  by (induction a b rule: common_prefix.induct) auto

lemma common_prefix_take: "take (common_prefix a b) a = take (common_prefix a b) b"
  by (induction a b rule: common_prefix.induct) auto

lemma enc_upto_Suc: "enc_upto R es (Suc i) = enc_upto R es i @ enc_at R es i"
  by (simp add: enc_upto_def)

lemma enc_upto_0 [simp]: "enc_upto R es 0 = []"
  by (simp add: enc_upto_def)

lemma shared_append: "i < length es \<Longrightarrow> shared_at R (es @ xs) i = shared_at R es i"
  by (auto simp: shared_at_def nth_append)

lemma enc_append: "i < length es \<Longrightarrow> enc_at R (es @ xs) i = enc_at R es i"
  by (simp add: enc_at_def shared_append nth_append)

lemma enc_upto_append: "i \<le> length es \<Longrightarrow> enc_upto R (es @ xs) i = enc_upto R es i"
  unfolding enc_upto_def by (intro arg_cong [of _ _ concat] map_cong) (auto simp: enc_append)

lemma varint32_pos: "1 \<le> length (EncodeVarint32 v)"
  by (simp add: EncodeVarint32_def Let_def)

lemma entry_length: "3 \<le> length (entry_form s k v)"
  using varint32_pos [of "of_nat s"] varint32_pos [of "of_nat (length k - s)"] varint32_pos [of "of_nat (length v)"]
  unfolding entry_form_def length_append by linarith

lemma off_mono: "i \<le> j \<Longrightarrow> off_at R es i \<le> off_at R es j"
  by (induction rule: dec_induct) (auto simp: enc_upto_Suc)

lemma off_strict: "i < j \<Longrightarrow> off_at R es i < off_at R es j"
  using off_mono [of "Suc i" j R es] entry_length [of "shared_at R es i" "fst (es ! i)" "snd (es ! i)"] by (simp add: enc_upto_Suc enc_at_def)

lemma off_less_iff [simp]: "off_at R es i < off_at R es j \<longleftrightarrow> i < j"
  using off_strict [of i j] off_mono [of j i] by (meson not_le)

lemma enc_upto_split: "i < n \<Longrightarrow> \<exists>r. enc_upto R es n = enc_upto R es i @ enc_at R es i @ r"
proof -
  assume "i < n"
  then have "[0..<n] = [0..<i] @ i # [Suc i..<n]" using upt_add_eq_append [of 0 i "n - i"] by (simp add: upt_conv_Cons)
  then show ?thesis by (simp add: enc_upto_def)
qed

text \<open>A key is not longer than the entries up to it.\<close>

lemma key_bounded: "i < length es \<Longrightarrow> length (fst (es ! i)) \<le> off_at R es (Suc i)"
proof (induction i)
  case 0
  then show ?case by (simp add: enc_upto_Suc enc_at_def entry_form_def shared_at_def)
next
  case (Suc i)
  have "shared_at R es (Suc i) \<le> length (fst (es ! i))" using common_prefix_le by (simp add: shared_at_def)
  then have "shared_at R es (Suc i) \<le> off_at R es (Suc i)" using Suc by simp
  then show ?case by (simp add: enc_upto_Suc [of R es "Suc i"] enc_at_def entry_form_def)
qed

lemma value_bounded: "length (snd (es ! i)) \<le> off_at R es (Suc i)"
  by (simp add: enc_upto_Suc enc_at_def entry_form_def)

lemma restart_before: "j < restart_count R (length es) \<Longrightarrow> 0 < R \<Longrightarrow> es \<noteq> [] \<Longrightarrow> j * R < length es"
proof -
  assume a: "j < restart_count R (length es)" "0 < R" "es \<noteq> []"
  then have "j * R \<le> (length es - 1) div R * R" by (simp add: restart_count_def)
  then show ?thesis using a by (metis One_nat_def Suc_pred div_times_less_eq_dividend le_less_trans length_greater_0_conv lessI order_le_less_trans)
qed

subsection \<open>The builder\<close>

fun build :: "block_options \<Rightarrow> (slice \<times> slice) list \<Rightarrow> block_builder \<Rightarrow> block_builder option" where
  "build opt [] b = Some b"
| "build opt ((k, v) # es) b = Option.bind (bb_Add opt k v b) (build opt es)"

definition built :: "block_options \<Rightarrow> (slice \<times> slice) list \<Rightarrow> block_builder \<Rightarrow> bool" where
  "built opt es b \<longleftrightarrow>
     (let R = block_restart_interval opt; n = length es in
      bb_buffer b = enc_upto R es n \<and> bb_restarts b = restart_offsets R es \<and> bb_counter b = (if n = 0 then 0 else (n - 1) mod R + 1) \<and>
      \<not> bb_finished b \<and> bb_last_key b = (if n = 0 then [] else fst (last es)))"

lemma built_new: "1 \<le> block_restart_interval opt \<Longrightarrow> \<exists>b. new_BlockBuilder opt = Some b \<and> built opt [] b"
  by (simp add: new_BlockBuilder_def built_def restart_offsets_def restart_count_def)

lemma built_Reset: "built opt [] (bb_Reset b)"
  by (simp add: bb_Reset_def built_def restart_offsets_def restart_count_def)

lemma built_Add:
  assumes b: "built opt es b" and R: "1 \<le> block_restart_interval opt"
    and k: "es \<noteq> [] \<longrightarrow> (\<exists>r. Compare (block_comparator opt) k (fst (last es)) = Some r \<and> 0 < r)"
  shows "\<exists>b'. bb_Add opt k v b = Some b' \<and> built opt (es @ [(k, v)]) b'"
proof -
  let ?R = "block_restart_interval opt" and ?n = "length es" and ?es = "es @ [(k, v)]"
  define s where "s = shared_at ?R ?es ?n"
  note B = b [unfolded built_def Let_def]
  have empty: "bb_buffer b = [] \<longleftrightarrow> es = []" using B off_less_iff [of ?R es 0 ?n] by auto
  have restart: "?n mod ?R = 0 \<longleftrightarrow> bb_counter b = ?R \<or> ?n = 0"
    using B R mod_Suc [of "?n - 1" ?R] by (cases "?n") auto
  have count: "bb_counter b \<le> ?R" using B R by (auto simp: Suc_le_eq)
  have cnt: "restart_count ?R (Suc ?n) = (if ?n \<noteq> 0 \<and> ?n mod ?R = 0 then Suc (restart_count ?R ?n) else restart_count ?R ?n)"
    using div_Suc [of "?n - 1" ?R] R by (cases "?n") (auto simp: restart_count_def)
  have off: "restart_offsets ?R ?es =
      (if ?n \<noteq> 0 \<and> ?n mod ?R = 0 then bb_restarts b @ [of_nat (length (bb_buffer b))] else bb_restarts b)"
  proof -
    have "enc_upto ?R ?es (j * ?R) = enc_upto ?R es (j * ?R)" if "j < restart_count ?R ?n" for j
      using that restart_before [of j ?R es] R by (intro enc_upto_append) (cases "es = []", auto simp: restart_count_def)
    moreover have "restart_count ?R ?n * ?R = ?n" if "?n \<noteq> 0" "?n mod ?R = 0"
      using that R minus_mod_eq_div_mult [of "?n - 1" ?R] div_Suc [of "?n - 1" ?R] by (cases "?n") (auto simp: restart_count_def split: if_splits)
    ultimately show ?thesis using B by (auto simp: restart_offsets_def cnt enc_upto_append cong: map_cong)
  qed
  have last: "shared_at ?R ?es ?n = (if bb_counter b < ?R then common_prefix (bb_last_key b) k else 0)"
    using restart B R count by (cases "es = []") (auto simp: shared_at_def nth_append last_conv_nth)
  then have "take s (bb_last_key b) @ drop s k = k" using common_prefix_take [of "bb_last_key b" k] by (simp add: s_def)
  then have "\<exists>b'. bb_Add opt k v b = Some b' \<and> bb_buffer b' = bb_buffer b @ entry_form s k v \<and> bb_last_key b' = k \<and> \<not> bb_finished b' \<and>
      bb_restarts b' = (if bb_counter b < ?R then bb_restarts b else bb_restarts b @ [of_nat (length (bb_buffer b))]) \<and>
      bb_counter b' = Suc (if bb_counter b < ?R then bb_counter b else 0)"
    using k count last B unfolding s_def
    by (cases "es = []") (auto simp: bb_Add_def empty Let_def PutVarint32_def entry_form_def)
  moreover have "enc_upto ?R ?es (Suc ?n) = bb_buffer b @ entry_form s k v"
    using B by (simp add: enc_upto_Suc enc_upto_append enc_at_def s_def)
  moreover have "Suc (if bb_counter b < ?R then bb_counter b else 0) = ?n mod ?R + 1"
    using restart B R count mod_Suc [of "?n - 1" ?R] by (cases "?n") (auto split: if_splits)
  moreover have "(?n \<noteq> 0 \<and> ?n mod ?R = 0) \<longleftrightarrow> \<not> bb_counter b < ?R" using restart B R count by auto
  ultimately show ?thesis using off by (auto simp: built_def)
qed

lemma built_build:
  assumes "built opt es b" and "1 \<le> block_restart_interval opt"
    and "\<And>i. Suc i < length (es @ fs) \<Longrightarrow> \<exists>r. Compare (block_comparator opt) (fst ((es @ fs) ! Suc i)) (fst ((es @ fs) ! i)) = Some r \<and> 0 < r"
  shows "\<exists>b'. build opt fs b = Some b' \<and> built opt (es @ fs) b'"
  using assms
proof (induction fs arbitrary: es b)
  case (Cons e fs)
  obtain k v where e: "e = (k, v)" by force
  have "es \<noteq> [] \<longrightarrow> (\<exists>r. Compare (block_comparator opt) k (fst (last es)) = Some r \<and> 0 < r)"
    using Cons.prems(3) [of "length es - 1"] by (cases "length es") (auto simp: e nth_append last_conv_nth)
  from built_Add [OF Cons.prems(1,2) this, of v] obtain b' where "bb_Add opt k v b = Some b'" "built opt (es @ [(k, v)]) b'" by blast
  then show ?case using Cons.IH [of "es @ [(k, v)]" b'] Cons.prems(2,3) e by auto
qed simp

lemma fold_PutFixed32: "fold (\<lambda>x buf. PutFixed32 buf x) xs buf = buf @ concat (map EncodeFixed32 xs)"
  by (induction xs arbitrary: buf) (simp_all add: PutFixed32_def)

lemma finish_bytes: "fst (bb_Finish b) = bb_buffer b @ concat (map EncodeFixed32 (bb_restarts b)) @ EncodeFixed32 (of_nat (length (bb_restarts b)))"
  by (simp add: bb_Finish_def Let_def fold_PutFixed32) (simp add: PutFixed32_def)

lemma built_Finish: "built opt es b \<Longrightarrow> fst (bb_Finish b) = block_bytes (block_restart_interval opt) es"
  by (simp add: built_def finish_bytes block_bytes_def Let_def) (simp add: restart_offsets_def)

text \<open>The estimate of the size is exact.\<close>

lemma size_exact: "CurrentSizeEstimate b = length (fst (bb_Finish b))"
  by (simp add: finish_bytes CurrentSizeEstimate_def length_concat o_def sum_list_triv)

subsection \<open>Decoding an entry\<close>

lemma byte_less_128: "(b :: u8) < 128 \<longleftrightarrow> \<not> bit b 7"
proof -
  have "b < 128 \<longleftrightarrow> unat b div 128 = 0" by (auto simp: word_less_nat_alt div_eq_0_iff)
  moreover have "unat b div 128 < 2" using unat_bound [of b] by (simp add: div_less_iff_less_mult)
  moreover have "bit b 7 \<longleftrightarrow> odd (unat b div 128)" using bit_unsigned_iff [of b 7, where 'a = nat] by (simp add: bit_iff_odd)
  ultimately show ?thesis by auto
qed

lemma or_small: "(ucast (a :: u8) OR ucast (b :: u8) OR ucast (c :: u8) :: u32) < 128 \<longleftrightarrow> a < 128 \<and> b < 128 \<and> c < 128"
proof -
  have "(ucast a OR ucast b OR ucast c :: u32) = ucast (a OR b OR c)" by (rule bit_word_eqI) (auto simp: bit_simps)
  moreover have "(ucast (a OR b OR c) :: u32) < 128 \<longleftrightarrow> a OR b OR c < 128"
    using unat_bound [of "a OR b OR c"] by (simp add: word_less_nat_alt unsigned_ucast_eq take_bit_nat_eq_self)
  ultimately show ?thesis by (auto simp: byte_less_128 bit_or_iff)
qed

lemma varint32_small:
  assumes "v < 128"
  shows "EncodeVarint32 v = [ucast v]" "(ucast v :: u8) < 128" "ucast (ucast v :: u8) = v"
proof -
  have v: "unat v < 128" using assms by (simp add: word_less_nat_alt)
  show "EncodeVarint32 v = [ucast v]" using assms by (simp add: EncodeVarint32_def)
  show "(ucast v :: u8) < 128" using v by (simp add: word_less_nat_alt unsigned_ucast_eq take_bit_nat_eq_self)
  have "unat (ucast (ucast v :: u8) :: u32) = unat v" using v by (simp add: unsigned_ucast_eq unsigned_take_bit_eq take_bit_nat_eq_self)
  then show "ucast (ucast v :: u8) = v" by (rule word_unat_eq_iff [THEN iffD2])
qed

lemma varint32_large: "\<not> v < 128 \<Longrightarrow> \<exists>b bs. EncodeVarint32 v = b # bs \<and> \<not> b < 128"
proof -
  assume "\<not> v < 128"
  moreover have "\<not> (ucast (v OR 128) :: u8) < 128" by (simp add: byte_less_128 bit_unsigned_iff bit_or_iff bit_128)
  ultimately show ?thesis by (auto simp: EncodeVarint32_def Let_def)
qed

lemma get_varint32_ptr: "GetVarint32Ptr (EncodeVarint32 v @ rest) = Some (v, rest)"
  using get_varint32 [of v rest] by (simp add: GetVarint32_def)

lemma decode_lengths:
  fixes a b c :: u32
  shows "DecodeEntry (EncodeVarint32 a @ EncodeVarint32 b @ EncodeVarint32 c @ rest) = (if of_nat (length rest) < b + c then None else Some (a, b, c, rest))"
proof -
  let ?p = "EncodeVarint32 a @ EncodeVarint32 b @ EncodeVarint32 c @ rest"
  have len: "\<not> length ?p < 3" using varint32_pos [of a] varint32_pos [of b] varint32_pos [of c] unfolding length_append by linarith
  show ?thesis
  proof (cases "a < 128 \<and> b < 128 \<and> c < 128")
    case True
    then have "a OR b OR c < 128" using or_small [of "ucast a" "ucast b" "ucast c"] by (simp add: varint32_small)
    then show ?thesis using True by (simp add: DecodeEntry_def varint32_small Let_def)
  next
    case False
    have "\<not> (ucast (?p ! 0) OR ucast (?p ! 1) OR ucast (?p ! 2) :: u32) < 128"
    proof (cases "a < 128")
      case a: True
      show ?thesis
      proof (cases "b < 128")
        case True
        then have "\<not> c < 128" using False a by simp
        from varint32_large [OF this] show ?thesis using a True by (auto simp: or_small varint32_small(1))
      next
        case b: False
        from varint32_large [OF this] show ?thesis using a by (auto simp: or_small varint32_small(1))
      qed
    next
      case False
      from varint32_large [OF this] show ?thesis by (auto simp: or_small)
    qed
    then show ?thesis using len unfolding DecodeEntry_def Let_def by (simp add: get_varint32_ptr)
  qed
qed

lemma decode_entry_ok:
  assumes "length k - s + length v + length rest < 2 ^ 32"
  shows "DecodeEntry (entry_form s k v @ rest) = Some (of_nat s, of_nat (length k - s), of_nat (length v), drop s k @ v @ rest)"
proof -
  have "\<not> (of_nat (length (drop s k @ v @ rest)) :: u32) < of_nat (length k - s) + of_nat (length v)"
    using assms by (simp add: word_less_nat_alt unat_of_nat_lt flip: of_nat_add)
  then show ?thesis by (simp add: entry_form_def decode_lengths)
qed

subsection \<open>Positions of an iterator\<close>

definition small_block :: "nat \<Rightarrow> (slice \<times> slice) list \<Rightarrow> bool" where
  "small_block R es \<longleftrightarrow> 0 < R \<and> length (block_bytes R es) < 2 ^ 32"

definition iter_over :: "nat \<Rightarrow> (slice \<times> slice) list \<Rightarrow> block_iter \<Rightarrow> bool" where
  "iter_over R es it \<longleftrightarrow>
     bi_data it = block_bytes R es \<and> bi_restarts it = off_at R es (length es) \<and> bi_num_restarts it = restart_count R (length es) \<and> \<not> bi_error it"

text \<open>The next entry to parse is the one with index \<open>i\<close>; and, after parsing, the iterator is at index \<open>i\<close> (not valid, if this is behind the last entry).\<close>

definition ready_at :: "nat \<Rightarrow> (slice \<times> slice) list \<Rightarrow> nat \<Rightarrow> block_iter \<Rightarrow> bool" where
  "ready_at R es i it \<longleftrightarrow>
     iter_over R es it \<and> i \<le> length es \<and> NextEntryOffset it = Some (off_at R es i) \<and> bi_restart_index it < bi_num_restarts it \<and>
     (i mod R \<noteq> 0 \<longrightarrow> bi_key it = fst (es ! (i - 1)))"

definition entry_at :: "nat \<Rightarrow> (slice \<times> slice) list \<Rightarrow> nat \<Rightarrow> block_iter \<Rightarrow> bool" where
  "entry_at R es i it \<longleftrightarrow>
     iter_over R es it \<and> bi_current it = off_at R es i \<and> i \<le> length es \<and>
     (i < length es \<longrightarrow> bi_restart_index it < bi_num_restarts it \<and> bi_key it = fst (es ! i) \<and>
        bi_value it = Some (off_at R es (Suc i) - length (snd (es ! i)), length (snd (es ! i))))"

lemma off_small: "small_block R es \<Longrightarrow> i \<le> length es \<Longrightarrow> off_at R es i < 2 ^ 32"
  using off_mono [of i "length es" R es] by (simp add: small_block_def block_bytes_def)

lemma entry_at_valid: "entry_at R es i it \<Longrightarrow> bi_Valid it \<longleftrightarrow> i < length es"
  by (auto simp: entry_at_def iter_over_def bi_Valid_def)

lemma entry_at_ready: "small_block R es \<Longrightarrow> entry_at R es i it \<Longrightarrow> i < length es \<Longrightarrow> ready_at R es (Suc i) it"
  using off_small [of R es "Suc i"] value_bounded [of es i R] by (auto simp: entry_at_def ready_at_def NextEntryOffset_def)

lemma entry_at_entry:
  assumes "entry_at R es i it" and "i < length es"
  shows "bi_get_key it = Some (fst (es ! i))" and "bi_get_value it = Some (snd (es ! i))"
proof -
  show "bi_get_key it = Some (fst (es ! i))" using assms entry_at_valid [OF assms(1)] by (simp add: bi_get_key_def entry_at_def)
  obtain r where r: "enc_upto R es (length es) = enc_upto R es i @ enc_at R es i @ r" using enc_upto_split [OF assms(2)] by blast
  have "\<exists>p. enc_upto R es (Suc i) = p @ snd (es ! i)" by (simp add: enc_upto_Suc enc_at_def entry_form_def)
  then obtain p where p: "enc_upto R es (Suc i) = p @ snd (es ! i)" by blast
  then have "bi_data it = p @ snd (es ! i) @ r @ concat (map EncodeFixed32 (restart_offsets R es)) @ EncodeFixed32 (of_nat (restart_count R (length es)))"
    using assms r by (simp add: entry_at_def iter_over_def block_bytes_def enc_upto_Suc)
  then show "bi_get_value it = Some (snd (es ! i))"
    using assms entry_at_valid [OF assms(1)] p by (simp add: bi_get_value_def entry_at_def)
qed

text \<open>The restart points.\<close>

lemma drop_words: "j < length ws \<Longrightarrow> DecodeFixed32 (drop (4 * j) (concat (map EncodeFixed32 ws) @ r)) = ws ! j"
proof (induction ws arbitrary: j)
  case (Cons w ws)
  then show ?case by (cases j) (simp_all add: drop_append)
qed simp

lemma length_words: "length (concat (map EncodeFixed32 ws)) = 4 * length ws"
  by (induction ws) simp_all

lemma restart_ok:
  assumes "small_block R es" and "iter_over R es it" and "j < bi_num_restarts it"
  shows "GetRestartPoint j it = Some (off_at R es (j * R))"
proof -
  let ?ws = "restart_offsets R es"
  have j: "j < length ?ws" using assms by (simp add: iter_over_def restart_offsets_def)
  have "j * R \<le> length es" using assms restart_before [of j R es] by (cases "es = []") (auto simp: small_block_def iter_over_def restart_count_def)
  from off_small [OF assms(1) this] have "unat (?ws ! j) = off_at R es (j * R)"
    using j by (simp add: restart_offsets_def unat_of_nat_lt)
  moreover have "DecodeFixed32 (drop (4 * j) (concat (map EncodeFixed32 ?ws) @ EncodeFixed32 (of_nat (restart_count R (length es))))) = ?ws ! j"
    using drop_words [OF j] .
  ultimately show ?thesis
    using assms j length_words [of ?ws] by (simp add: GetRestartPoint_def iter_over_def block_bytes_def restart_offsets_def mult.commute)
qed

lemma restart_index_le: "small_block R es \<Longrightarrow> iter_over R es it \<Longrightarrow> j < bi_num_restarts it \<Longrightarrow> j * R \<le> length es"
  using restart_before [of j R es] by (cases "es = []") (auto simp: small_block_def iter_over_def restart_count_def)

lemma seek_restart_ok:
  assumes "small_block R es" and "iter_over R es it" and "j < bi_num_restarts it"
  shows "\<exists>it'. SeekToRestartPoint j it = Some it' \<and> ready_at R es (j * R) it'"
  using restart_ok [OF assms] assms(2,3) restart_index_le [OF assms] off_small [OF assms(1) restart_index_le [OF assms]]
  by (simp add: SeekToRestartPoint_def ready_at_def iter_over_def NextEntryOffset_def)

subsection \<open>Parsing, and moving about\<close>

lemma advance_ok:
  assumes "small_block R es" and "iter_over R es it" and "bi_restart_index it < bi_num_restarts it"
  shows "\<exists>r. advance_restart it = Some (it\<lparr>bi_restart_index := r\<rparr>) \<and> r < bi_num_restarts it"
  using assms(2,3)
proof (induction it rule: advance_restart.induct)
  case (1 it)
  let ?j = "bi_restart_index it + 1"
  have stay: "\<exists>r. Some it = Some (it\<lparr>bi_restart_index := r\<rparr>) \<and> r < bi_num_restarts it"
    using 1(3) by (intro exI [of _ "bi_restart_index it"]) simp
  show ?case
  proof (cases "?j < bi_num_restarts it \<and> off_at R es (?j * R) < bi_current it")
    case True
    then show ?thesis
      using 1(1) [of "off_at R es (?j * R)"] 1(2) restart_ok [OF assms(1) 1(2), of ?j] by (simp add: advance_restart.simps [of it] iter_over_def)
  next
    case False
    then show ?thesis using restart_ok [OF assms(1) 1(2), of ?j] stay by (auto simp: advance_restart.simps [of it])
  qed
qed

lemma parse_ok:
  assumes small: "small_block R es" and r: "ready_at R es i it" and i: "i < length es"
  shows "\<exists>it'. ParseNextKey it = Some (True, it') \<and> entry_at R es i it'"
proof -
  let ?k = "fst (es ! i)" and ?v = "snd (es ! i)" and ?s = "shared_at R es i" and ?n = "length es"
  obtain rest where rest: "enc_upto R es ?n = enc_upto R es i @ enc_at R es i @ rest" using enc_upto_split [OF i] by blast
  have over: "iter_over R es it" and next_off: "NextEntryOffset it = Some (off_at R es i)" using r by (simp_all add: ready_at_def)
  have s: "?s \<le> length ?k" "?s \<le> length (bi_key it)" "take ?s (bi_key it) = take ?s ?k"
    using r common_prefix_le common_prefix_take by (auto simp: ready_at_def shared_at_def)
  have n: "off_at R es ?n < 2 ^ 32" using off_small [OF small] by simp
  have k: "length ?k < 2 ^ 32" using key_bounded [OF i, of R] off_small [OF small, of "Suc i"] i by simp
  have sum: "length ?k - ?s + length ?v + length rest < 2 ^ 32"
    using n rest by (simp add: enc_at_def entry_form_def)
  have data: "take (bi_restarts it - off_at R es i) (drop (off_at R es i) (bi_data it)) = entry_form ?s ?k ?v @ rest"
    using over rest by (simp add: iter_over_def block_bytes_def enc_at_def)
  have len: "off_at R es ?n = off_at R es (Suc i) + length rest" using rest by (simp add: enc_upto_Suc)
  let ?it = "it\<lparr>bi_current := off_at R es i, bi_key := ?k, bi_value := Some (off_at R es (Suc i) - length ?v, length ?v)\<rparr>"
  have "iter_over R es ?it" "bi_restart_index ?it < bi_num_restarts ?it" using over r by (simp_all add: iter_over_def ready_at_def)
  from advance_ok [OF small this] obtain x where x: "advance_restart ?it = Some (?it\<lparr>bi_restart_index := x\<rparr>)" "x < bi_num_restarts ?it" by blast
  define c where "c = length ?k - ?s"
  define p where "p = drop ?s ?k @ ?v @ rest"
  have dec: "DecodeEntry (entry_form ?s ?k ?v @ rest) = Some (of_nat ?s, of_nat c, of_nat (length ?v), p)"
    unfolding c_def p_def by (rule decode_entry_ok [OF sum])
  have u: "unat (of_nat ?s :: u32) = ?s" "unat (of_nat c :: u32) = c" "unat (of_nat (length ?v) :: u32) = length ?v"
    unfolding c_def using s k sum by (simp_all add: unat_of_nat_lt del: of_nat_diff)
  have p: "\<not> length p < c" "take ?s (bi_key it) @ take c p = ?k" using s by (simp_all add: p_def c_def)
  have "c + length ?v \<le> off_at R es (Suc i)" by (simp add: c_def enc_upto_Suc enc_at_def entry_form_def)
  then have v: "off_at R es ?n - length p + c = off_at R es (Suc i) - length ?v" using len by (simp add: p_def c_def)
  have e: "bi_restarts it = off_at R es ?n" "\<not> off_at R es ?n \<le> off_at R es i" using over i by (simp_all add: iter_over_def not_le)
  have "ParseNextKey it = Some (True, ?it\<lparr>bi_restart_index := x\<rparr>)"
    using data [unfolded e(1)] s(2) x(1) e(2) p(1) by (simp add: ParseNextKey_def Let_def next_off e(1) dec u p(2) v)
  then show ?thesis using over i x(2) by (simp add: entry_at_def iter_over_def)
qed

lemma parse_end:
  assumes "ready_at R es (length es) it"
  shows "\<exists>it'. ParseNextKey it = Some (False, it') \<and> entry_at R es (length es) it'"
  using assms by (auto simp: ParseNextKey_def ready_at_def iter_over_def entry_at_def Let_def)

lemma parse_any:
  assumes "small_block R es" and "ready_at R es i it"
  shows "\<exists>it'. ParseNextKey it = Some (i < length es, it') \<and> entry_at R es i it'"
proof (cases "i < length es")
  case True
  then show ?thesis using parse_ok [OF assms True] by simp
next
  case False
  then have "i = length es" using assms(2) by (simp add: ready_at_def)
  then show ?thesis using parse_end [of R es it] assms(2) by simp
qed

lemma skip_ok:
  assumes small: "small_block R es" and "ready_at R es i it" and "i < j" and "j \<le> length es"
  shows "\<exists>it'. skip_to (off_at R es j) it = Some it' \<and> entry_at R es (j - 1) it'"
  using assms(2,3)
proof (induction "j - i" arbitrary: i it)
  case (Suc d)
  have i: "i < length es" using Suc.prems assms(4) by simp
  from parse_ok [OF small Suc.prems(1) i] obtain it1 where it1: "ParseNextKey it = Some (True, it1)" "entry_at R es i it1" by blast
  have rdy: "ready_at R es (Suc i) it1" using entry_at_ready [OF small it1(2) i] .
  show ?case
  proof (cases "Suc i < j")
    case True
    then show ?thesis using Suc.hyps(1) [of "Suc i" it1] Suc.hyps(2) rdy it1 by (subst skip_to.simps) (simp add: ready_at_def)
  next
    case False
    then have "j = Suc i" using Suc.prems by simp
    then show ?thesis using it1 rdy by (subst skip_to.simps) (simp add: ready_at_def)
  qed
qed simp

lemma first_ok:
  assumes "small_block R es" and "iter_over R es it"
  shows "\<exists>it'. bi_SeekToFirst it = Some it' \<and> entry_at R es 0 it'"
proof -
  have "0 < bi_num_restarts it" using assms(2) by (simp add: iter_over_def restart_count_def)
  from seek_restart_ok [OF assms this] obtain it1 where "SeekToRestartPoint 0 it = Some it1" "ready_at R es 0 it1" by auto
  then show ?thesis using parse_any [OF assms(1), of 0 it1] by (auto simp: bi_SeekToFirst_def)
qed

lemma next_ok:
  assumes "small_block R es" and "entry_at R es i it" and "i < length es"
  shows "\<exists>it'. bi_Next it = Some it' \<and> entry_at R es (Suc i) it'"
  using parse_any [OF assms(1) entry_at_ready [OF assms]] entry_at_valid [OF assms(2)] assms(3) by (auto simp: bi_Next_def)

lemma last_ok:
  assumes "small_block R es" and "iter_over R es it"
  shows "\<exists>it'. bi_SeekToLast it = Some it' \<and> entry_at R es (length es - 1) it'"
proof -
  let ?j = "bi_num_restarts it - 1"
  have j: "?j < bi_num_restarts it" using assms(2) by (simp add: iter_over_def restart_count_def)
  from seek_restart_ok [OF assms j] obtain it1 where it1: "SeekToRestartPoint ?j it = Some it1" "ready_at R es (?j * R) it1" by auto
  have lim: "bi_restarts it1 = off_at R es (length es)" using it1(2) by (simp add: ready_at_def iter_over_def)
  show ?thesis
  proof (cases "es = []")
    case True
    then have "?j * R = 0" using assms(2) by (simp add: iter_over_def restart_count_def)
    then have "\<exists>it'. ParseNextKey it1 = Some (False, it') \<and> entry_at R es 0 it'"
      using parse_any [OF assms(1) it1(2)] True by (simp only: list.size less_irrefl)
    then show ?thesis using it1(1) True by (subst bi_SeekToLast_def) (auto simp: skip_to.simps [of _ it1])
  next
    case False
    then have "?j * R < length es" using restart_before [of ?j R es] j assms by (simp add: iter_over_def small_block_def)
    from skip_ok [OF assms(1) it1(2) this] show ?thesis using it1(1) lim by (simp add: bi_SeekToLast_def)
  qed
qed

lemma scan_back_ok:
  assumes "small_block R es" and "iter_over R es it" and "j < bi_num_restarts it"
  shows "\<exists>x. scan_back (off_at R es i) j it = Some (if i = 0 then None else Some x) \<and> (0 < i \<longrightarrow> x < bi_num_restarts it \<and> x * R < i)"
  using assms(3)
proof (induction j)
  case 0
  then show ?case
    using restart_ok [OF assms(1,2) 0] off_less_iff [of R es 0 i] by (intro exI [of _ 0]) (auto simp: scan_back.simps [of _ 0] simp del: off_less_iff)
next
  case (Suc j)
  then have "off_at R es i \<le> off_at R es (Suc j * R) \<longleftrightarrow> i \<le> Suc j * R" using off_less_iff [of R es "Suc j * R" i] by linarith
  then show ?case using restart_ok [OF assms(1,2) Suc.prems] Suc by (cases "i \<le> Suc j * R") (auto simp: scan_back.simps [of _ "Suc j"])
qed

lemma prev_ok:
  assumes small: "small_block R es" and it: "entry_at R es i it" and i: "i < length es"
  shows "\<exists>it'. bi_Prev it = Some it' \<and> entry_at R es (if i = 0 then length es else i - 1) it'"
proof -
  have over: "iter_over R es it" and ri: "bi_restart_index it < bi_num_restarts it" and cur: "bi_current it = off_at R es i"
    using it i by (simp_all add: entry_at_def)
  from scan_back_ok [OF small over ri, of i] obtain x
    where x: "scan_back (off_at R es i) (bi_restart_index it) it = Some (if i = 0 then None else Some x)" "0 < i \<longrightarrow> x < bi_num_restarts it \<and> x * R < i" by blast
  show ?thesis
  proof (cases "i = 0")
    case True
    then show ?thesis using x(1) cur over entry_at_valid [OF it] i by (simp add: bi_Prev_def entry_at_def iter_over_def)
  next
    case False
    then obtain it1 where it1: "SeekToRestartPoint x it = Some it1" "ready_at R es (x * R) it1" using seek_restart_ok [OF small over, of x] x(2) by blast
    from skip_ok [OF small it1(2), of i] show ?thesis
      using x False cur it1(1) entry_at_valid [OF it] i by (simp add: bi_Prev_def)
  qed
qed

subsection \<open>Searching\<close>

lemma restart_decode:
  assumes small: "small_block R es" and over: "iter_over R es it" and j: "j < bi_num_restarts it" and ne: "es \<noteq> []"
  shows "\<exists>n v p. DecodeEntry (take (bi_restarts it - off_at R es (j * R)) (drop (off_at R es (j * R)) (bi_data it))) = Some (0, n, v, p) \<and>
    unat n \<le> length p \<and> take (unat n) p = fst (es ! (j * R))"
proof -
  let ?i = "j * R" let ?k = "fst (es ! ?i)" and ?v = "snd (es ! ?i)"
  have i: "?i < length es" using restart_before [of j R es] small over j ne by (simp add: small_block_def iter_over_def)
  obtain rest where rest: "enc_upto R es (length es) = enc_upto R es ?i @ enc_at R es ?i @ rest" using enc_upto_split [OF i] by blast
  have s: "shared_at R es ?i = 0" by (simp add: shared_at_def)
  have data: "take (bi_restarts it - off_at R es ?i) (drop (off_at R es ?i) (bi_data it)) = entry_form 0 ?k ?v @ rest"
    using over rest s by (simp add: iter_over_def block_bytes_def enc_at_def)
  have sum: "length ?k - 0 + length ?v + length rest < 2 ^ 32" using off_small [OF small order.refl] rest s by (simp add: enc_at_def entry_form_def)
  then have "unat (of_nat (length ?k) :: u32) = length ?k" by (simp add: unat_of_nat_lt)
  then show ?thesis using data decode_entry_ok [OF sum] by simp
qed

lemma restart_count_small: "small_block R es \<Longrightarrow> 4 * restart_count R (length es) < 2 ^ 32"
  using length_words [of "restart_offsets R es"] by (simp add: small_block_def block_bytes_def restart_offsets_def)

text \<open>What a block needs of the comparator of its keys: it orders them strictly. The index that \<^verbatim>\<open>Seek\<close> looks for.\<close>

definition keys_sorted :: "comparator \<Rightarrow> slice set \<Rightarrow> (slice \<times> slice) list \<Rightarrow> bool" where
  "keys_sorted c K es \<longleftrightarrow> fst ` set es \<subseteq> K \<and> sorted_wrt (\<lambda>a b. before (Compare c) b a) (map fst es)"

definition seek_index :: "comparator \<Rightarrow> slice \<Rightarrow> (slice \<times> slice) list \<Rightarrow> nat" where
  "seek_index c t es = length (takeWhile (before (Compare c) t) (map fst es))"

text \<open>A relation \<open>at\<close> between positions and iterators under which these walk along the entries.\<close>

definition block_cursor :: "comparator \<Rightarrow> slice set \<Rightarrow> (slice \<times> slice) list \<Rightarrow> (nat \<Rightarrow> block_iter \<Rightarrow> bool) \<Rightarrow> bool" where
  "block_cursor c K es at \<longleftrightarrow>
     (\<forall>i x. at i x \<longrightarrow>
        i \<le> length es \<and> (bi_Valid x \<longleftrightarrow> i < length es) \<and>
        (\<exists>y. bi_SeekToFirst x = Some y \<and> at 0 y) \<and> (\<exists>y. bi_SeekToLast x = Some y \<and> at (length es - 1) y) \<and>
        (\<forall>t \<in> K. \<exists>y. bi_Seek c t x = Some y \<and> at (seek_index c t es) y) \<and>
        (i < length es \<longrightarrow>
           bi_get_key x = Some (fst (es ! i)) \<and> bi_get_value x = Some (snd (es ! i)) \<and> (\<exists>y. bi_Next x = Some y \<and> at (Suc i) y) \<and>
           (\<exists>y. bi_Prev x = Some y \<and> at (if i = 0 then length es else i - 1) y)))"

locale block_order = key_order "Compare c" K for c :: comparator and K :: "slice set"
begin

lemma sorted_before:
  assumes es: "keys_sorted c K es" and t: "t \<in> K" and i: "i < length es"
  shows "before (Compare c) t (fst (es ! i)) \<longleftrightarrow> i < seek_index c t es"
proof
  assume b: "before (Compare c) t (fst (es ! i))"
  show "i < seek_index c t es"
  proof (rule ccontr)
    assume "\<not> i < seek_index c t es"
    then have le: "seek_index c t es \<le> i" by simp
    then have p: "seek_index c t es < length (map fst es)" using i by simp
    from nth_length_takeWhile [OF this [unfolded seek_index_def]] have n: "\<not> before (Compare c) t (fst (es ! seek_index c t es))"
      using p by (simp add: seek_index_def)
    have K: "fst (es ! seek_index c t es) \<in> K" "fst (es ! i) \<in> K" using es i p by (auto simp: keys_sorted_def)
    have "before (Compare c) (fst (es ! i)) (fst (es ! seek_index c t es))" if "seek_index c t es < i"
      using es that i by (simp add: keys_sorted_def sorted_wrt_iff_nth_less)
    then have "seek_index c t es = i \<or> before (Compare c) t (fst (es ! seek_index c t es))" using before_trans [OF K(1) K(2) t _ b] le by linarith
    then show False using n b by auto
  qed
next
  assume "i < seek_index c t es"
  then show "before (Compare c) t (fst (es ! i))" using i nth_mem [of i "takeWhile (before (Compare c) t) (map fst es)"] set_takeWhileD
    by (fastforce simp: takeWhile_nth seek_index_def)
qed

lemma compare_before: "a \<in> K \<Longrightarrow> t \<in> K \<Longrightarrow> \<exists>r. Compare c a t = Some r \<and> (r < 0 \<longleftrightarrow> before (Compare c) t a)"
  using cmp_defined [of a t] before_iff [of a t] by fastforce

lemma search_ok:
  assumes small: "small_block R es" and over: "iter_over R es it" and es: "keys_sorted c K es" "es \<noteq> []" and t: "t \<in> K"
    and "right < bi_num_restarts it" and "left \<le> right" and "left = 0 \<or> left * R < seek_index c t es"
  shows "\<exists>x. restart_search c t it left right = Some (Inr x) \<and> x < bi_num_restarts it \<and> (x = 0 \<or> x * R < seek_index c t es)"
  using assms(6-)
proof (induction "right - left" arbitrary: left right rule: less_induct)
  case less
  show ?case
  proof (cases "left < right")
    case False
    then show ?thesis using less by (subst restart_search.simps) auto
  next
    case True
    define mid where "mid = Suc (left + right) div 2"
    have m: "left < mid" "mid \<le> right" using True by (auto simp: mid_def)
    have w: "Suc (left + right) mod 2 ^ 32 = Suc (left + right)" using less.prems(1) True restart_count_small [OF small] over by (simp add: iter_over_def)
    have j: "mid < bi_num_restarts it" using m less.prems by simp
    have i: "mid * R < length es" using restart_before [of mid R es] small over j es by (simp add: small_block_def iter_over_def)
    then have K: "fst (es ! (mid * R)) \<in> K" using es by (auto simp: keys_sorted_def)
    obtain n v p where d: "DecodeEntry (take (bi_restarts it - off_at R es (mid * R)) (drop (off_at R es (mid * R)) (bi_data it))) = Some (0, n, v, p)"
      "unat n \<le> length p" "take (unat n) p = fst (es ! (mid * R))" using restart_decode [OF small over j es(2)] by blast
    obtain r where r: "Compare c (fst (es ! (mid * R))) t = Some r" "r < 0 \<longleftrightarrow> mid * R < seek_index c t es"
      using compare_before [OF K t] sorted_before [OF es(1) t i] by blast
    have step: "restart_search c t it left right = (if r < 0 then restart_search c t it mid right else restart_search c t it left (mid - 1))"
      using True d r(1) restart_ok [OF small over j] w by (subst restart_search.simps) (simp add: mid_def [symmetric] Let_def)
    show ?thesis
    proof (cases "r < 0")
      case True
      then show ?thesis using less.hyps [of right mid] less.prems m r(2) step by simp
    next
      case False
      then show ?thesis using less.hyps [of "mid - 1" left] less.prems m step by simp
    qed
  qed
qed

lemma linear_ok:
  assumes small: "small_block R es" and es: "keys_sorted c K es" and t: "t \<in> K" and "ready_at R es i it" and "i \<le> seek_index c t es"
  shows "\<exists>it'. linear_search c t it = Some it' \<and> entry_at R es (seek_index c t es) it'"
  using assms(4,5)
proof (induction "seek_index c t es - i" arbitrary: i it rule: less_induct)
  case less
  have le: "seek_index c t es \<le> length es" using length_takeWhile_le [of _ "map fst es"] by (simp add: seek_index_def)
  from parse_any [OF small less.prems(1)] obtain it1 where it1: "ParseNextKey it = Some (i < length es, it1)" "entry_at R es i it1" by blast
  show ?case
  proof (cases "i < length es")
    case False
    then have "seek_index c t es = i" using le less.prems(2) by simp
    then show ?thesis using it1 False by (subst linear_search.simps) simp
  next
    case True
    then have K: "fst (es ! i) \<in> K" "bi_key it1 = fst (es ! i)" using es it1(2) by (auto simp: keys_sorted_def entry_at_def)
    obtain r where r: "Compare c (fst (es ! i)) t = Some r" "r < 0 \<longleftrightarrow> i < seek_index c t es"
      using compare_before [OF K(1) t] sorted_before [OF es t True] by blast
    have step: "linear_search c t it = (if r \<ge> 0 then Some it1 else linear_search c t it1)"
      using it1(1) True K(2) r(1) by (subst linear_search.simps) simp
    show ?thesis
    proof (cases "r < 0")
      case True
      then show ?thesis using less.hyps [of "Suc i" it1] entry_at_ready [OF small it1(2) \<open>i < length es\<close>] r(2) step by simp
    next
      case False
      then have "seek_index c t es = i" using r(2) less.prems(2) by simp
      then show ?thesis using it1(2) step False by simp
    qed
  qed
qed

lemma seek_ok:
  assumes small: "small_block R es" and over: "iter_over R es it" and es: "keys_sorted c K es" and t: "t \<in> K"
  shows "\<exists>it'. bi_Seek c t it = Some it' \<and> entry_at R es (seek_index c t es) it'"
proof -
  have num: "0 < bi_num_restarts it" using over by (simp add: iter_over_def restart_count_def)
  obtain x where x: "restart_search c t it 0 (bi_num_restarts it - 1) = Some (Inr x)" "x < bi_num_restarts it" "x = 0 \<or> x * R < seek_index c t es"
  proof (cases "es = []")
    case True
    then have "bi_num_restarts it = 1" using over by (simp add: iter_over_def restart_count_def)
    then show ?thesis using that [of 0] by (simp add: restart_search.simps)
  next
    case False
    then show ?thesis using that search_ok [OF small over es False t, of "bi_num_restarts it - 1" 0] num by auto
  qed
  from seek_restart_ok [OF small over x(2)] obtain it1 where it1: "SeekToRestartPoint x it = Some it1" "ready_at R es (x * R) it1" by blast
  from linear_ok [OF small es t it1(2)] show ?thesis using x it1(1) by (auto simp: bi_Seek_def)
qed

lemma cursor_ok:
  assumes small: "small_block R es" and es: "keys_sorted c K es"
  shows "block_cursor c K es (entry_at R es)"
  unfolding block_cursor_def
proof (intro allI impI)
  fix i x assume x: "entry_at R es i x"
  then have over: "iter_over R es x" "i \<le> length es" by (simp_all add: entry_at_def)
  show "i \<le> length es \<and> (bi_Valid x \<longleftrightarrow> i < length es) \<and>
    (\<exists>y. bi_SeekToFirst x = Some y \<and> entry_at R es 0 y) \<and> (\<exists>y. bi_SeekToLast x = Some y \<and> entry_at R es (length es - 1) y) \<and>
    (\<forall>t \<in> K. \<exists>y. bi_Seek c t x = Some y \<and> entry_at R es (seek_index c t es) y) \<and>
    (i < length es \<longrightarrow>
      bi_get_key x = Some (fst (es ! i)) \<and> bi_get_value x = Some (snd (es ! i)) \<and> (\<exists>y. bi_Next x = Some y \<and> entry_at R es (Suc i) y) \<and>
      (\<exists>y. bi_Prev x = Some y \<and> entry_at R es (if i = 0 then length es else i - 1) y))"
    by (intro conjI impI ballI over(2) entry_at_valid [OF x] first_ok [OF small over(1)] last_ok [OF small over(1)] seek_ok [OF small over(1) es]
        entry_at_entry [OF x] next_ok [OF small x] prev_ok [OF small x])
qed

lemma sorted_adjacent:
  assumes "keys_sorted c K es" and "Suc i < length es"
  shows "\<exists>r. Compare c (fst (es ! Suc i)) (fst (es ! i)) = Some r \<and> 0 < r"
proof -
  have K: "fst (es ! i) \<in> K" "fst (es ! Suc i) \<in> K" and b: "before (Compare c) (fst (es ! Suc i)) (fst (es ! i))"
    using assms by (auto simp: keys_sorted_def sorted_wrt_iff_nth_less)
  obtain r where "Compare c (fst (es ! Suc i)) (fst (es ! i)) = Some r" using cmp_defined [OF K(2,1)] by blast
  moreover obtain q where "Compare c (fst (es ! i)) (fst (es ! Suc i)) = Some q" using cmp_defined [OF K] by blast
  ultimately show ?thesis using b cmp_swap [OF K] by (auto simp: before_def)
qed

end

subsection \<open>From the builder to an iterator\<close>

interpretation bytewise_block: block_order BytewiseComparator UNIV
  by (simp add: block_order_def bytewise.key_order_axioms)

lemma internal_compare_total:
  "Compare (InternalKeyComparator BytewiseComparator) (ikey u n) (ikey v m) = Some (if ikey_less (u, n) (v, m) then - 1 else if u = v \<and> n = m then 0 else 1)"
  by (simp add: InternalKeyComparator_def internal_compare_ikey)

interpretation internal_block: block_order "InternalKeyComparator BytewiseComparator" "range (\<lambda>(u, n). ikey u n)"
  unfolding block_order_def
  by unfold_locales (auto simp: internal_compare_total ikey_less_def split: if_splits)

lemma tail_word: "length r = 4 \<Longrightarrow> drop (length (p @ q @ r) - 4) (p @ q @ r) = r"
  by simp

lemma new_block_ok:
  assumes "small_block R es"
  shows "\<exists>blk it. new_Block (block_bytes R es) = Some blk \<and> blk_NewIterator blk = Some (Block_Iterator it) \<and> entry_at R es (length es) it"
proof -
  let ?b = "block_bytes R es" and ?n = "restart_count R (length es)"
  have u: "unat (of_nat ?n :: u32) = ?n" using restart_count_small [OF assms] by (simp add: unat_of_nat_lt)
  have len: "length ?b = off_at R es (length es) + 4 * ?n + 4" by (simp add: block_bytes_def length_words) (simp add: restart_offsets_def)
  have tail: "drop (length ?b - 4) ?b = EncodeFixed32 (of_nat ?n)" unfolding block_bytes_def by (rule tail_word) simp
  then have num: "NumRestarts \<lparr>blk_data = ?b, blk_size = length ?b, blk_restart_offset = x\<rparr> = Some ?n" for x
    using len u by (simp add: NumRestarts_def)
  have "length ?b < 2 ^ 32" using assms by (simp add: small_block_def)
  then have "(1 + ?n) mod 2 ^ 32 = 1 + ?n" using len by (intro mod_less) simp
  then have "new_Block ?b = Some \<lparr>blk_data = ?b, blk_size = length ?b, blk_restart_offset = off_at R es (length es)\<rparr>"
    using num len off_small [OF assms order.refl] by (simp add: new_Block_def Let_def)
  moreover have "0 < ?n" by (simp add: restart_count_def)
  ultimately show ?thesis using num len by (simp add: blk_NewIterator_def new_Iter_def entry_at_def iter_over_def)
qed

text \<open>
  C12: a block gives back what was put into it. Entries with increasing keys are all accepted by the builder. If the block has less than 4 GB, its iterators walk along the
  entries: there is a relation between iterators and positions, in which a new iterator is behind the last entry, \<^verbatim>\<open>SeekToFirst\<close>, \<^verbatim>\<open>SeekToLast\<close> and \<^verbatim>\<open>Seek\<close> go to the first
  entry, the last entry and the first entry whose key is not before the target, \<^verbatim>\<open>Next\<close> and \<^verbatim>\<open>Prev\<close> go one entry on and one back (from the first one behind the last), and
  key and value are those of the entry at the position.
\<close>

theorem block_iterator_correct:
  assumes "block_order (block_comparator opt) K" and "1 \<le> block_restart_interval opt" and "keys_sorted (block_comparator opt) K es"
  shows "\<exists>b0 b. new_BlockBuilder opt = Some b0 \<and> build opt es b0 = Some b \<and>
    (length (fst (bb_Finish b)) < 2 ^ 32 \<longrightarrow>
      (\<exists>blk it at. new_Block (fst (bb_Finish b)) = Some blk \<and> blk_NewIterator blk = Some (Block_Iterator it) \<and> at (length es) it \<and>
        block_cursor (block_comparator opt) K es at))"
proof -
  let ?R = "block_restart_interval opt"
  obtain b0 where b0: "new_BlockBuilder opt = Some b0" "built opt [] b0" using built_new [OF assms(2)] by blast
  from built_build [OF b0(2) assms(2), of es] obtain b where b: "build opt es b0 = Some b" "built opt es b"
    using block_order.sorted_adjacent [OF assms(1,3)] by auto
  have "\<exists>blk it at. new_Block (block_bytes ?R es) = Some blk \<and> blk_NewIterator blk = Some (Block_Iterator it) \<and> at (length es) it \<and>
      block_cursor (block_comparator opt) K es at" if "length (block_bytes ?R es) < 2 ^ 32"
  proof -
    have small: "small_block ?R es" using that assms(2) by (simp add: small_block_def)
    then show ?thesis using new_block_ok [OF small] block_order.cursor_ok [OF assms(1) small assms(3)] by blast
  qed
  then show ?thesis using b0(1) b(1) built_Finish [OF b(2)] by auto
qed

theorem block_iterator_correct_witness:
  "\<exists>b0 b blk it x y. new_BlockBuilder \<lparr>block_comparator = BytewiseComparator, block_restart_interval = 16\<rparr> = Some b0 \<and>
     build \<lparr>block_comparator = BytewiseComparator, block_restart_interval = 16\<rparr> [([1], [2]), ([1, 3], [4])] b0 = Some b \<and>
     new_Block (fst (bb_Finish b)) = Some blk \<and> blk_NewIterator blk = Some (Block_Iterator it) \<and>
     bi_Seek BytewiseComparator [1, 2] it = Some x \<and> bi_get_key x = Some [1, 3] \<and> bi_Prev x = Some y \<and> bi_get_value y = Some [2]"
proof -
  define opt :: block_options where "opt = \<lparr>block_comparator = BytewiseComparator, block_restart_interval = 16\<rparr>"
  define es :: "(slice \<times> slice) list" where "es = [([1], [2]), ([1, 3], [4])]"
  have opt: "block_comparator opt = BytewiseComparator" "1 \<le> block_restart_interval opt" by (simp_all add: opt_def)
  have sorted: "keys_sorted (block_comparator opt) UNIV es" by (simp add: keys_sorted_def before_def es_def opt)
  have idx: "seek_index BytewiseComparator [1, 2] es = 1" by (simp add: seek_index_def before_def es_def)
  have "block_order (block_comparator opt) UNIV" by (simp add: opt bytewise_block.block_order_axioms)
  from block_iterator_correct [OF this opt(2) sorted] obtain b0 b where b: "new_BlockBuilder opt = Some b0" "build opt es b0 = Some b"
    "length (fst (bb_Finish b)) < 2 ^ 32 \<longrightarrow>
      (\<exists>blk it at. new_Block (fst (bb_Finish b)) = Some blk \<and> blk_NewIterator blk = Some (Block_Iterator it) \<and> at (length es) it \<and>
        block_cursor (block_comparator opt) UNIV es at)" by blast
  have "length (fst (bb_Finish b)) < 2 ^ 32"
    using b(1,2) by (auto simp: opt_def es_def new_BlockBuilder_def bb_Add_def Let_def PutVarint32_def EncodeVarint32_def finish_bytes)
  with b(3) obtain blk it at where it: "new_Block (fst (bb_Finish b)) = Some blk" "blk_NewIterator blk = Some (Block_Iterator it)" "at (length es) it"
    and cur: "block_cursor BytewiseComparator UNIV es at" unfolding opt(1) by blast
  note C = cur [unfolded block_cursor_def, rule_format]
  have "\<exists>x. bi_Seek BytewiseComparator [1, 2] it = Some x \<and> at (seek_index BytewiseComparator [1, 2] es) x" using C [OF it(3)] by blast
  then obtain x where x: "bi_Seek BytewiseComparator [1, 2] it = Some x" "at 1 x" using idx by auto
  moreover obtain y where y: "bi_Prev x = Some y" "at 0 y" using C [OF x(2)] by (auto simp: es_def)
  moreover have "bi_get_key x = Some [1, 3]" "bi_get_value y = Some [2]" using C [OF x(2)] C [OF y(2)] by (auto simp: es_def)
  ultimately show ?thesis using b(1,2) it(1,2) unfolding opt_def es_def by blast
qed

subsection \<open>Corrupt entries\<close>

text \<open>
  C17: a defect. \<^verbatim>\<open>DecodeEntry\<close> checks that the key and the value of an entry lie within the block by adding their lengths in 32 bits. The check is exact when the sum fits into
  32 bits. Otherwise an entry is accepted whenever the sum without its 33rd bit is at most the number of bytes left: any such corrupt entry is taken for a valid one although
  its key and its value are longer than the rest of the block.
\<close>

theorem decode_entry_wraps:
  fixes a b c :: u32
  assumes "p = EncodeVarint32 a @ EncodeVarint32 b @ EncodeVarint32 c @ rest" and "length rest < 2 ^ 32"
  shows "DecodeEntry p = (if (unat b + unat c) mod 2 ^ 32 \<le> length rest then Some (a, b, c, rest) else None) \<and>
         (unat b + unat c < 2 ^ 32 \<longrightarrow> (DecodeEntry p = None \<longleftrightarrow> length rest < unat b + unat c)) \<and>
         (2 ^ 32 \<le> unat b + unat c \<longrightarrow> unat b + unat c \<le> 2 ^ 32 + length rest \<longrightarrow>
            DecodeEntry p = Some (a, b, c, rest) \<and> length rest < unat b + unat c)"
proof -
  have "unat (b + c) = (unat b + unat c) mod 2 ^ 32" by (simp add: unat_word_ariths)
  moreover have "unat (of_nat (length rest) :: u32) = length rest" using assms(2) by (simp add: unat_of_nat)
  ultimately have d: "DecodeEntry p = (if (unat b + unat c) mod 2 ^ 32 \<le> length rest then Some (a, b, c, rest) else None)"
    unfolding assms(1) decode_lengths by (simp add: word_less_nat_alt)
  have "(unat b + unat c) mod 2 ^ 32 = unat b + unat c - 2 ^ 32" if "2 ^ 32 \<le> unat b + unat c"
  proof -
    have "unat b < 2 ^ 32" "unat c < 2 ^ 32" using unsigned_less [of b] unsigned_less [of c] by simp_all
    then show ?thesis using that by (intro mod_nat_eqI) auto
  qed
  then show ?thesis using d assms(2) by auto
qed

theorem decode_entry_wraps_witness:
  "DecodeEntry (EncodeVarint32 0 @ EncodeVarint32 0xffffffff @ EncodeVarint32 1 @ []) = Some (0, 0xffffffff, 1, []) \<and>
   length ([] :: slice) < unat (0xffffffff :: u32) + unat (1 :: u32)"
  using decode_entry_wraps [of _ 0 "0xffffffff" 1 "[]"] by auto

end
