(* ===== verification/Spec2Isabelle.thy ===== *)
theory Spec2Isabelle
  imports Pb_Example Pb_Roundtrip Uv_Inet Uv_Punycode Uv_Pool_Live Uv_Iter Ldb_Recover Ldb_Bloom Ldb_Block_Ok
begin

text \<open>
  The C and C++ code the application is built on, verified: the protocol buffer library nanopb, the core of the event
  library libuv, and the storage engine LevelDB. All paths below are relative to \<^verbatim>\<open>src/mad/Pods/\<close>.

  \<^bold>\<open>The program.\<close> The application is written in Dart; its database client (Firestore) keeps a local copy of documents
  and exchanges them with a server. Documents are encoded and decoded with nanopb, kept on disk with LevelDB, and the
  network is driven by an event loop of libuv. The three libraries do not call each other: the client passes bytes between
  them. Within each library the theories below import one another the way the files call one another.

  \<^bold>\<open>Shared theories.\<close>
  \<^item> \<open>Prelude\<close>: widths of the C integer types, little-endian layout of integers, lemma collections.
  \<^item> \<open>C_Memory\<close>: a byte for every address, and an allocator that can fail.

  \<^bold>\<open>nanopb\<close> (\<^verbatim>\<open>nanopb/\<close>; 64-bit little-endian target, \<^verbatim>\<open>PB_FIELD_32BIT\<close>, \<^verbatim>\<open>PB_ENABLE_MALLOC\<close>).
  \<^item> \<open>Pb_Types\<close>: \<^verbatim>\<open>pb.h\<close> and the stream types: field descriptors, type codes, errors.
  \<^item> \<open>Pb_Common\<close>: the field iterator of \<^verbatim>\<open>pb_common.c\<close>; the locale \<open>field_cursor\<close> says what a client may rely on when it walks
    along the fields, and is interpreted on the iterator.
  \<^item> \<open>Pb_Ostream\<close>, \<open>Pb_Encode\<close>: \<^verbatim>\<open>pb_encode.c\<close>. \<open>Pb_Wire\<close> specifies the bytes of a message without streams, and proves that
    \<^verbatim>\<open>pb_encode\<close> produces them (C1), stops at the end of the buffer (C27), or fails where the specification is undefined (C28).
  \<^item> \<open>Pb_Istream\<close>, \<open>Pb_Decode\<close>, \<open>Pb_Release\<close>: \<^verbatim>\<open>pb_decode.c\<close>. \<open>Pb_Safety\<close> shows that decoding of any input writes only into the
    destination (C3), \<open>Pb_Total\<close> that it returns (C4), \<open>Pb_Required\<close> that required fields were present (C29).
  \<^item> \<open>Pb_Codec\<close>: the contract of one encoder and one decoder as a locale \<open>wire_codec\<close>, interpreted for the four kinds of numbers.
    \<open>Pb_Values\<close>, \<open>Pb_Roundtrip\<close>: decoding what was encoded (C2); framing of delimited messages (C30).
  \<^item> \<open>Pb_Example\<close>: a message type and a message on which the theorems are evaluated.

  \<^bold>\<open>libuv\<close> (\<^verbatim>\<open>Libuv-gRPC/src/\<close>; the kqueue backend of Apple systems).
  \<^item> \<open>Uv_Base\<close>: error codes, \<^verbatim>\<open>strscpy.c\<close>. \<open>Uv_Inet\<close>: \<^verbatim>\<open>inet.c\<close>, printing and parsing of addresses (C34, C36, C37).
    \<open>Uv_Idna\<close>, \<open>Uv_Punycode\<close>: \<^verbatim>\<open>idna.c\<close>, against the decoder of RFC 3492 (C33, C38) and a defect (C39).
  \<^item> \<open>Uv_Queue\<close>, \<open>Uv_Rings\<close>: \<^verbatim>\<open>queue.h\<close> as a ring of pointers, which implements the locale \<open>fifo\<close>. \<open>Uv_Heap\<close>: \<^verbatim>\<open>heap-inl.h\<close> at
    the level of its pointers; the locale \<open>heap_order\<close> is what it needs of the comparison, and \<^verbatim>\<open>timer_less_than\<close> satisfies it.
  \<^item> \<open>Uv_Handle\<close>: flags and counters of \<^verbatim>\<open>uv-common.h\<close> (C40). \<open>Uv_Timer\<close>: \<^verbatim>\<open>timer.c\<close> (C31, C32, C35). \<open>Uv_Watcher\<close>:
    \<^verbatim>\<open>unix/loop-watcher.c\<close>.
  \<^item> \<open>Uv_Io\<close>: the I/O watchers of \<^verbatim>\<open>unix/core.c\<close> and \<^verbatim>\<open>unix/poll.c\<close> (C22). \<open>Uv_Event\<close>: \<^verbatim>\<open>uv_close\<close>, \<^verbatim>\<open>uv_run\<close> and the loop
    of \<^verbatim>\<open>unix/kqueue.c\<close>. \<open>Uv_Run\<close>, \<open>Uv_Poll\<close>, \<open>Uv_Order\<close>, \<open>Uv_Iter\<close>: what the loop promises (C18, C23, C24, C25) and a defect (C26).
  \<^item> \<open>Uv_Pool\<close>: \<^verbatim>\<open>threadpool.c\<close>, each critical section one step. \<open>Uv_Pool_Inv\<close>, \<open>Uv_Pool_Steps\<close>, \<open>Uv_Pool_Live\<close>: the steps of all threads in
    any order as a transition relation, its invariant, and what it gives (C19, C20, C21).

  \<^bold>\<open>LevelDB\<close> (\<^verbatim>\<open>leveldb-library/\<close>; a 64-bit little-endian target, assertions enabled: \<^const>\<open>None\<close> is a failed assertion or an access
  outside of an object).
  \<^item> \<open>Ldb_Coding\<close>: \<^verbatim>\<open>util/coding.cc\<close>. \<open>Ldb_Crc_Table\<close>, \<open>Ldb_Crc\<close>: \<^verbatim>\<open>util/crc32c.cc\<close>; the tables and the loops over four strides give the
    remainder that CRC-32C is defined by, bit by bit (C10).
  \<^item> \<open>Ldb_Log\<close>: \<^verbatim>\<open>db/log_writer.cc\<close> and \<^verbatim>\<open>db/log_reader.cc\<close>. A file is a parameter; \<open>Ldb_Log_Ok\<close> and \<open>Ldb_Log_Rec\<close> state what is relied on as
    the locales \<open>appendable\<close>, \<open>readable\<close> and \<open>finite_file\<close>, which files in memory satisfy, and show that a log cut off anywhere gives
    back the records before the cut (C7) and that reading any file returns (C13).
  \<^item> \<open>Ldb_Format\<close>: \<^verbatim>\<open>include/leveldb/slice.h\<close>, \<^verbatim>\<open>util/comparator.cc\<close>, \<^verbatim>\<open>db/dbformat.cc\<close>: keys, their order and separators (C16).
  \<^item> \<open>Ldb_Skiplist\<close>: \<^verbatim>\<open>db/skiplist.h\<close> with its pointers and \<^verbatim>\<open>util/random.h\<close>. \<open>Ldb_Skip_Ok\<close>: searching and inserting, over the locale \<open>key_order\<close>.
    \<open>Ldb_Skip_Conc\<close>: the list implements a sorted sequence (C9), iterators (C15), and lookups interleaved with insertions, one access to
    memory at a time (C6).
  \<^item> \<open>Ldb_Memtable\<close>: \<^verbatim>\<open>db/memtable.cc\<close>, whose entries satisfy \<open>key_order\<close>, and what \<^verbatim>\<open>Get\<close> answers (C8). \<open>Ldb_Batch\<close>: \<^verbatim>\<open>db/write_batch.cc\<close> (C11).
  \<^item> \<open>Ldb_Recover\<close>: the loop of \<^verbatim>\<open>DBImpl::RecoverLogFile\<close>. It composes log, batch, memtable and skip list: after a crash the database
    holds exactly the batches that were written completely (C5).
  \<^item> \<open>Ldb_Bloom\<close>: \<^verbatim>\<open>util/hash.cc\<close>, \<^verbatim>\<open>util/bloom.cc\<close> and the filter policy of \<^verbatim>\<open>db/dbformat.cc\<close> (C14).
  \<^item> \<open>Ldb_Block\<close>: \<^verbatim>\<open>table/block_builder.cc\<close> and \<^verbatim>\<open>table/block.cc\<close>. \<open>Ldb_Block_Ok\<close>: over the locale \<open>block_order\<close>, interpreted for the bytewise and the internal
    comparator, iterators of a block walk along the entries that were put into it (C12); a defect in the check of entries (C17).

  \<^bold>\<open>Loops and recursion.\<close> Loops over data are structural recursion. Where a loop follows pointers or depends on what a parameter
  answers, the model has one of two forms.
  \<^item> Fuel. The decoder takes the depth of nesting, and C4 shows that the depth of the message type is enough; its loops over the input take the number of
    bytes left. Heap operations take the number of nodes (C32). Loops over the queues of the event loop and of the handles to be closed take the number of
    elements, which the theorems on them name. Polling takes a number of rounds, 48 of which are enough without blocking
    (C25); running of timers takes the number of timers that are due (C31, C35). Reading and recovering a log take a
    number of rounds, and any number greater than the bytes left in the file is enough (C13, C5).
  \<^item> \<^theory_text>\<open>partial_function\<close>, with \<^const>\<open>None\<close> for a loop that does not end: skip list and table blocks; the theorems state that the value is \<^const>\<open>Some\<close>.

  \<^bold>\<open>Parameters.\<close> The clock, \<^verbatim>\<open>kevent\<close>, application callbacks, files, \<^verbatim>\<open>Reporter\<close>, addresses of buffers (which decide on the alignment) and
  the choice of the next thread are arguments of the definitions.

  \<^bold>\<open>Not modelled.\<close>
  \<^item> nanopb: macros that build descriptor tables at compile time.
  \<^item> libuv: wrappers of system calls (files, streams, UDP, processes, signals, name resolution) and therefore \<^verbatim>\<open>uv_close\<close> of their
    handles; \<^verbatim>\<open>pthread_sigmask\<close> around polling; resetting of the thread pool after \<^verbatim>\<open>fork\<close>. A request is submitted once and cancelled only
    before it is completed. The number of bytes that the encoding of a label returns is not limited to 31 bits. When memory is
    exhausted the library aborts, which is not a state of the model.
  \<^item> LevelDB: table files and their index, versions, compaction, the block cache, the write path with its queue of writers, the environment. In the recovery of
    a log, the test whether the memtable is full and the writing of a table then are parameters. \<^verbatim>\<open>bits_per_key\<close> of a filter is a natural number. The skip list uses acquire and release operations of the memory; the model of its readers is
    sequentially consistent.
  \<^item> Firestore, gRPC and abseil: large C++ libraries whose logic rests on generated types and on the network. The Dart code.
\<close>

section \<open>The encoder of nanopb\<close>

lemma encode_cases:
  assumes "wf_env env"
  shows "spec_message env m n a src = Some (Some bs) \<Longrightarrow> emits (\<lambda>s. pb_encode env m n s a src) bs"
    and "spec_message env m n a src = Some None \<Longrightarrow> rejects (\<lambda>s. pb_encode env m n s a src)"
  using implements_message [OF assms, of m n a src] by (simp_all add: implements_def)

text \<open>
  C1: \<^verbatim>\<open>pb_encode\<close> into a buffer that is large enough returns true and the buffer holds exactly the wire
  form of the message that the specification gives, for every message type (submessages, arrays,
  packed arrays, oneofs, pointers, extensions), and \<^verbatim>\<open>bytes_written\<close> is its length.
\<close>

theorem pb_encode_exact:
  assumes "wf_env env" and "spec_message env m n a src = Some (Some bs)"
    and "bufsize < 2 ^ 63" and "length bs \<le> unat bufsize"
  shows "pb_encode env m n (pb_ostream_from_buffer bufsize) a src =
         Some (True, (pb_ostream_from_buffer bufsize)\<lparr>o_state := bs, o_bytes_written := of_nat (length bs)\<rparr>)"
  using encode_cases(1) [OF assms(1,2)] assms(3,4) by (rule emits_buffer)

theorem pb_encode_exact_witness:
  "pb_encode example_env example_mem 2 (pb_ostream_from_buffer 64) 1000 100 =
     Some (True, (pb_ostream_from_buffer 64)\<lparr>o_state := example_wire,
                    o_bytes_written := of_nat (length example_wire)\<rparr>)"
  by (rule pb_encode_exact) (simp_all add: example_wire_def)

text \<open>
  C27: \<^verbatim>\<open>pb_encode\<close> into a buffer that is too small for the message returns false, and never more
  bytes than the buffer has were stored.
\<close>

theorem pb_encode_too_small:
  assumes "wf_env env" and "spec_message env m n a src = Some (Some bs)"
    and "bufsize < 2 ^ 63" and "unat bufsize < length bs"
  shows "\<exists>s'. pb_encode env m n (pb_ostream_from_buffer bufsize) a src = Some (False, s') \<and>
              length (o_state s') \<le> unat bufsize"
  using encode_cases(1) [OF assms(1,2)] buffer_stream_ok [OF assms(3)] assms(4)
  by (fastforce simp: emits_def within_room_def pb_ostream_from_buffer_def room_def)

theorem pb_encode_too_small_witness:
  "\<exists>s'. pb_encode example_env example_mem 2 (pb_ostream_from_buffer 5) 1000 100 = Some (False, s') \<and>
        length (o_state s') \<le> unat (5 :: u64)"
  by (rule pb_encode_too_small [where bs = example_wire]) (simp_all add: example_wire_def)

text \<open>
  \<^verbatim>\<open>pb_get_encoded_size\<close> returns exactly the number of bytes \<^verbatim>\<open>pb_encode\<close> stores, so a buffer of
  the computed size is large enough.
\<close>

lemma pb_get_encoded_size_exact:
  assumes "wf_env env" and "spec_message env m n a src = Some (Some bs)"
  shows "pb_get_encoded_size env m n a src = Some (Some (of_nat (length bs)))"
  using encode_cases(1) [OF assms]
  by (simp add: emits_def pb_get_encoded_size_def counted_def PB_OSTREAM_SIZING_def)

lemma delimited_emits:
  assumes "wf_env env" and "spec_message env m n a src = Some (Some bs)" and "length bs < 2 ^ 32"
  shows "emits (\<lambda>s. pb_encode_delimited env m n s a src) (string_bytes bs)"
proof -
  have "length (string_bytes bs) < 2 ^ 63"
    using assms(3) length_varint_le_10 [of "of_nat (length bs)"] by (simp add: string_bytes_def)
  then have "s_string (Some (Some bs)) = Some (Some (string_bytes bs))" by (simp add: s_string_def s_ok_def)
  then show ?thesis
    using implements_submessage [of "pb_encode env m n" a src, OF implements_message [OF assms(1)], of env] assms(2)
    by (simp add: implements_def pb_encode_delimited_def)
qed

text \<open>
  C28: A message the encoder cannot represent (a field descriptor with an impossible size or type, an array count
  above the maximum, a missing required pointer) makes \<^verbatim>\<open>pb_encode\<close> return false without writing past the buffer,
  and \<^verbatim>\<open>pb_get_encoded_size\<close> report the failure too.
\<close>

theorem pb_encode_error:
  assumes "wf_env env" and "spec_message env m n a src = Some None" and "bufsize < 2 ^ 63"
  shows "(\<exists>s'. pb_encode env m n (pb_ostream_from_buffer bufsize) a src = Some (False, s') \<and>
               length (o_state s') \<le> unat bufsize) \<and>
         pb_get_encoded_size env m n a src = Some None"
proof -
  note rj = encode_cases(2) [OF assms(1,2), unfolded rejects_def]
  have "\<exists>s'. pb_encode env m n PB_OSTREAM_SIZING a src = Some (False, s')" using rj sizing_callback by blast
  then show ?thesis
    using rj buffer_stream_ok [OF assms(3)]
    by (fastforce simp: within_room_def pb_ostream_from_buffer_def pb_get_encoded_size_def)
qed

definition bad_fields :: "pb_field list" where
  "bad_fields = [\<lparr>tag = 1, ftype = 0x02, data_offset = 0, size_offset = 0, data_size = 3, array_size = 0, fptr = NULL\<rparr>]"

lemma bad_spec: "spec_message (example_env\<lparr>fields_at := \<lambda>a. bad_fields\<rparr>) example_mem 2 1000 100 = Some None"
  by code_simp

theorem pb_encode_error_witness:
  "(\<exists>s'. pb_encode (example_env\<lparr>fields_at := \<lambda>a. bad_fields\<rparr>) example_mem 2 (pb_ostream_from_buffer 64) 1000 100 =
           Some (False, s') \<and> length (o_state s') \<le> unat (64 :: u64)) \<and>
   pb_get_encoded_size (example_env\<lparr>fields_at := \<lambda>a. bad_fields\<rparr>) example_mem 2 1000 100 = Some None"
  by (rule pb_encode_error [OF _ bad_spec]) (simp_all add: wf_env_def wf_fields_def bad_fields_def)

text \<open>
  C30: \<^verbatim>\<open>pb_encode_delimited\<close> writes a length prefix and the message; \<^verbatim>\<open>pb_decode_delimited\<close> on that output hands the decoder a
  substream with exactly the bytes of the message and, wherever the decoder stops inside it, leaves the
  stream right behind the message, so that messages can follow each other.
\<close>

theorem delimited_framing:
  assumes "wf_env env" and "spec_message env m n a src = Some (Some bs)" and "length bs < 2 ^ 32"
    and "bufsize < 2 ^ 63" and "length (string_bytes bs) \<le> unat bufsize"
    and "pb_decode env n' (pb_istream_from_buffer (bs @ rest) (length bs)) a d m0 =
           Some (True, pb_istream_from_buffer (drop k (bs @ rest)) (length bs - k), m1)"
    and "k \<le> length bs"
  shows "\<exists>s'. pb_encode_delimited env m n (pb_ostream_from_buffer bufsize) a src = Some (True, s') \<and>
           pb_decode_delimited env n' (pb_istream_from_buffer (o_state s' @ rest) (length (o_state s') + j)) a d m0 =
             Some (True, pb_istream_from_buffer rest j, m1)"
proof -
  let ?w = "string_bytes bs"
  let ?s = "pb_istream_from_buffer (?w @ rest) (length ?w + j)"
  let ?sub = "pb_istream_from_buffer (bs @ rest) (length bs)"
  have f: "feeds ?s ?w" by (rule feeds_buffer)
  obtain s1 where mk: "pb_make_string_substream env ?s = (True, s1, ?sub)"
    using make_substream_feeds [OF f assms(3), of env]
    by (simp add: Let_def consume_def pb_istream_from_buffer_def string_bytes_def)
  have "consume ?sub k = pb_istream_from_buffer (drop k (bs @ rest)) (length bs - k)"
    by (simp add: consume_def pb_istream_from_buffer_def)
  then have "pb_decode_delimited env n' ?s a d m0 = Some (True, pb_istream_from_buffer rest j, m1)"
    using assms(6) mk close_substream_feeds [OF f assms(3,7) mk]
    by (simp add: pb_decode_delimited_def close_with_def consume_buffer)
  then show ?thesis
    using emits_buffer [OF delimited_emits [OF assms(1-3)] assms(4,5)] by auto
qed

lemma example_decodes:
  "map_option (\<lambda>(ok, s, m). (ok, s)) (pb_decode example_env 3 (pb_istream_from_buffer (example_wire @ [7]) 7) 1000 200 example_mem) =
   Some (True, pb_istream_from_buffer [7] 0)"
  by code_simp

theorem delimited_framing_witness:
  "\<exists>s' m1. pb_encode_delimited example_env example_mem 2 (pb_ostream_from_buffer 64) 1000 100 = Some (True, s') \<and>
     pb_decode_delimited example_env 3 (pb_istream_from_buffer (o_state s' @ [7]) (length (o_state s') + 1)) 1000 200 example_mem =
          Some (True, pb_istream_from_buffer [7] 1, m1)"
proof -
  obtain m1 where "pb_decode example_env 3 (pb_istream_from_buffer (example_wire @ [7]) (length example_wire)) 1000 200 example_mem =
      Some (True, pb_istream_from_buffer (drop 7 (example_wire @ [7])) (length example_wire - 7), m1)"
    using example_decodes by (auto simp: example_wire_def eval_nat_numeral)
  from delimited_framing [OF _ example_spec _ _ _ this, of 64 1] show ?thesis
    by (auto simp: example_wire_def string_bytes_def varint.simps)
qed

section \<open>The decoder of nanopb\<close>

text \<open>
  C3: Memory safety of \<^verbatim>\<open>pb_decode\<close> on any input, well-formed or not: for a message type of static fields it changes no byte
  outside the destination structure and its own local variables, and it does not use the heap.
\<close>

theorem pb_decode_memory_safe:
  assumes "wf_env env" and "reads_bounded env" and "layout_fits env k a sz" and "0 < d"
    and "pb_decode env n s a d m = Some (ok, s', m')"
  shows "(\<forall>x. 0 \<le> x \<longrightarrow> x < d \<or> d + sz \<le> x \<longrightarrow> bytes m' x = bytes m x) \<and> blocks m' = blocks m \<and> bad_free m' = bad_free m"
proof -
  have "dtouches_opt (span d sz \<union> {..<0}) m (pb_decode env n s a d m)"
    using decode_touches [OF assms(1,2), of n] assms(3,4) by blast
  then have "touches (span d sz \<union> {..<0}) m m'" using assms(5) by simp
  then show ?thesis by (auto simp: touches_def unchanged_outside_def span_def)
qed

lemma example_layout: "layout_fits example_env 1 1000 13"
  by (simp add: field_fits_def field_extent_def min_width_def example_fields_def type_defs upt_rec)

lemma example_reads: "reads_bounded example_env"
  by (simp add: reads_bounded_def example_env_def)

theorem pb_decode_memory_safe_witness:
  "\<exists>s' m'. pb_decode example_env 3 (pb_istream_from_buffer (example_wire @ [7]) 7) 1000 200 example_mem = Some (True, s', m') \<and>
     bytes m' 199 = 0 \<and> bytes m' 213 = 0 \<and> blocks m' = [] \<and> \<not> bad_free m'"
proof -
  obtain s' m' where r: "pb_decode example_env 3 (pb_istream_from_buffer (example_wire @ [7]) 7) 1000 200 example_mem =
      Some (True, s', m')"
    using example_decodes by auto
  then show ?thesis
    using pb_decode_memory_safe [OF wf_example example_reads example_layout _ r]
    by (auto simp: example_mem_def)
qed

text \<open>
  C4: \<^verbatim>\<open>pb_decode\<close> returns on any input: for a message type of static fields that nest \<open>k\<close> deep, a call depth of \<open>2k + 1\<close> is
  always enough, however long the input is.
\<close>

theorem pb_decode_terminates:
  assumes "wf_env env" and "reads_bounded env" and "layout_fits env k a sz" and "0 < d" and "2 * k < n"
  shows "\<exists>r. pb_decode env n s a d m = Some r"
  using decode_returns [OF assms(1,2), of k n] assms(3-5) unfolding returns_def by blast

theorem pb_decode_terminates_witness:
  "\<exists>r. pb_decode example_env 3 (pb_istream_from_buffer [0x0A, 0xFF, 0xFF, 0xFF, 0xFF, 0x7F] 6) 1000 200 example_mem = Some r"
  by (rule pb_decode_terminates [OF wf_example example_reads example_layout]) simp_all

text \<open>
  C29: \<^verbatim>\<open>pb_decode_noinit\<close> only succeeds if the input contained every required field (of the first
  \<^verbatim>\<open>PB_MAX_REQUIRED_FIELDS\<close> of the message type).
\<close>

theorem pb_decode_required:
  assumes "wf_env env" and "reads_bounded env" and "layout_fits env k a sz" and "0 < d" and "2 * k \<le> Suc n"
    and "distinct (map tag (fields_at env a))"
    and "pb_decode_noinit env (Suc n) s a d m = Some (True, s', m')"
    and "i < length (fields_at env a)" and "htype (fields_at env a ! i) = PB_HTYPE_REQUIRED"
    and "required_before (fields_at env a) i < PB_MAX_REQUIRED_FIELDS"
  shows "tag (fields_at env a ! i) \<in> set (message_tags env n s a d m)"
proof -
  have "fields_at env a \<noteq> []" using assms(8) by auto
  then show ?thesis
    using decode_noinit_required [OF assms(1-5) _ assms(6,7)] assms(8-)
    by (simp add: all_required_def PB_MAX_REQUIRED_FIELDS_def)
qed


theorem pb_decode_required_witness:
  "tag (fields_at example_env 1000 ! 0) \<in>
     set (message_tags example_env 1 (pb_istream_from_buffer (example_wire @ [7]) 7) 1000 200 example_mem)"
proof -
  have "map_option fst (pb_decode_noinit example_env (Suc 1) (pb_istream_from_buffer (example_wire @ [7]) 7) 1000 200 example_mem) =
      Some True"
    by code_simp
  then obtain s' m' where "pb_decode_noinit example_env (Suc 1) (pb_istream_from_buffer (example_wire @ [7]) 7) 1000 200 example_mem =
      Some (True, s', m')"
    by auto
  then show ?thesis
    by (rule pb_decode_required [OF wf_example example_reads example_layout, rotated 3])
       (simp_all add: example_fields_def PB_MAX_REQUIRED_FIELDS_def type_defs)
qed

text \<open>
  C2: Encode, then decode: for a message type of required and optional static fields that nest to any depth and do not
  overlap, with distinct tags, the bytes that \<^verbatim>\<open>pb_encode\<close> writes are accepted by \<^verbatim>\<open>pb_decode\<close> into another
  structure, whatever that held before. The decoder consumes exactly these bytes, and encoding the
  structure it filled in gives them again.
\<close>

theorem message_round_trip:
  assumes "wf_env env" and "reads_bounded env" and "layout_fits env k a sz" and "plain_layout env k a"
    and "0 < d" and "0 < src" and "terminated env k m a src" and "spec_message env m n a src = Some (Some bs)"
    and "length bs < 2 ^ 32" and "2 * k < n'" and "bufsize < 2 ^ 63" and "length bs \<le> unat bufsize"
  shows "\<exists>s' m'. pb_encode env m n (pb_ostream_from_buffer bufsize) a src = Some (True, s') \<and>
           pb_decode env n' (pb_istream_from_buffer (o_state s' @ rest) (length (o_state s'))) a d m0 =
             Some (True, pb_istream_from_buffer rest 0, m') \<and>
           pb_encode env m' n (pb_ostream_from_buffer bufsize) a d = Some (True, s')"
proof -
  let ?in = "pb_istream_from_buffer (bs @ rest) (length bs)"
  have f: "feeds ?in bs" using feeds_buffer [of bs rest 0] by simp
  have "i_bytes_left ?in = length bs" by (simp add: pb_istream_from_buffer_def)
  then obtain m' where r: "pb_decode env n' ?in a d m0 = Some (True, consume ?in (length bs), m')" "spec_message env m' n a d = Some (Some bs)"
    using decode_restores [OF assms(1-10) f] by blast
  have e: "consume ?in (length bs) = pb_istream_from_buffer rest 0" by (simp add: consume_def pb_istream_from_buffer_def)
  show ?thesis
    using emits_buffer [OF encode_cases(1) [OF assms(1,8)] assms(11,12)]
      emits_buffer [OF encode_cases(1) [OF assms(1) r(2)] assms(11,12)] r(1) e by auto
qed

lemma example_plain: "plain_layout example_env 1 1000"
  by (auto simp: plain_field_def example_fields_def type_defs Let_def field_slot_def span_def less_Suc_eq in_union_def field_extent_def)

lemma example_terminated: "terminated example_env 1 example_mem 1000 100"
proof -
  have "string_length example_mem (example_fields ! 1) 105 = 2" by code_simp
  then show ?thesis by (auto simp: terminated_field_def less_Suc_eq example_fields_def type_defs in_union_def field_extent_def)
qed

theorem message_round_trip_witness:
  "\<exists>s' m'. pb_encode example_env example_mem 2 (pb_ostream_from_buffer 64) 1000 100 = Some (True, s') \<and>
     pb_decode example_env 3 (pb_istream_from_buffer (o_state s' @ [7]) (length (o_state s'))) 1000 200 example_mem =
       Some (True, pb_istream_from_buffer [7] 0, m') \<and>
     pb_encode example_env m' 2 (pb_ostream_from_buffer 64) 1000 200 = Some (True, s')"
  by (rule message_round_trip [OF wf_example example_reads example_layout example_plain _ _ example_terminated example_spec])
     (simp_all add: example_wire_def)

section \<open>Wire values\<close>

text \<open>
  Any sequence of 64-bit integers written with \<^verbatim>\<open>pb_encode_varint\<close> (into ten bytes of buffer each) is read back by
  \<^verbatim>\<open>pb_decode_varint\<close>, which stops exactly behind it, whatever follows.
\<close>

lemma varint_round_trip:
  assumes "n < 2 ^ 63" and "10 * length vs \<le> unat n"
  shows "\<exists>s'. encode_all (pb_encode_varint env) (pb_ostream_from_buffer n) vs = Some (True, s') \<and>
              decode_all (pb_decode_varint env) (length vs)
                (pb_istream_from_buffer (o_state s' @ rest) (length (o_state s') + k)) =
                (True, vs, pb_istream_from_buffer rest k)"
proof (rule varint_codec.round_trip_all [OF assms(1)])
  have "length (concat (map varint vs)) \<le> 10 * length vs"
    by (induction vs) (use length_varint_le_10 in \<open>auto simp: add_mono\<close>)
  then show "length (concat (map varint vs)) \<le> unat n" using assms(2) by simp
qed

text \<open>
  The same for signed integers in zig-zag form, \<^verbatim>\<open>pb_encode_svarint\<close> and \<^verbatim>\<open>pb_decode_svarint\<close>, the most negative one
  included.
\<close>

lemma svarint_round_trip:
  assumes "n < 2 ^ 63" and "10 * length vs \<le> unat n"
  shows "\<exists>s'. encode_all (pb_encode_svarint env) (pb_ostream_from_buffer n) vs = Some (True, s') \<and>
              decode_all (pb_decode_svarint env) (length vs)
                (pb_istream_from_buffer (o_state s' @ rest) (length (o_state s') + k)) =
                (True, vs, pb_istream_from_buffer rest k)"
proof (rule svarint_codec.round_trip_all [OF assms(1)])
  have "length (concat (map (\<lambda>v. varint (zigzag v)) vs)) \<le> 10 * length vs"
    by (induction vs) (use length_varint_le_10 in \<open>auto simp: add_mono\<close>)
  then show "length (concat (map (\<lambda>v. varint (zigzag v)) vs)) \<le> unat n" using assms(2) by simp
qed

text \<open>
  The same for \<^verbatim>\<open>pb_encode_fixed64\<close> and \<^verbatim>\<open>pb_decode_fixed64\<close> in eight bytes each, and for \<^verbatim>\<open>pb_encode_fixed32\<close> and
  \<^verbatim>\<open>pb_decode_fixed32\<close> in four.
\<close>

lemma fixed_round_trip:
  assumes "n < 2 ^ 63" and "8 * length vs \<le> unat n" and "4 * length ws \<le> unat n"
  shows "(\<exists>s'. encode_all (pb_encode_fixed64 env) (pb_ostream_from_buffer n) vs = Some (True, s') \<and>
               length (o_state s') = 8 * length vs \<and>
               decode_all (pb_decode_fixed64 env) (length vs)
                 (pb_istream_from_buffer (o_state s' @ rest) (length (o_state s') + k)) =
                 (True, vs, pb_istream_from_buffer rest k)) \<and>
         (\<exists>s'. encode_all (pb_encode_fixed32 env) (pb_ostream_from_buffer n) ws = Some (True, s') \<and>
               length (o_state s') = 4 * length ws \<and>
               decode_all (pb_decode_fixed32 env) (length ws)
                 (pb_istream_from_buffer (o_state s' @ rest) (length (o_state s') + k)) =
                 (True, ws, pb_istream_from_buffer rest k))"
proof
  have l8: "length (concat (map (to_le 8) vs)) = 8 * length vs" by (induction vs) auto
  have l4: "length (concat (map (to_le 4) ws)) = 4 * length ws" by (induction ws) auto
  from fixed64_codec.round_trip_all [OF assms(1), of vs env rest k] assms(2) l8
    emits_buffer [OF fixed64_codec.enc_all_emits [of env vs] assms(1)]
  show "\<exists>s'. encode_all (pb_encode_fixed64 env) (pb_ostream_from_buffer n) vs = Some (True, s') \<and>
               length (o_state s') = 8 * length vs \<and>
               decode_all (pb_decode_fixed64 env) (length vs)
                 (pb_istream_from_buffer (o_state s' @ rest) (length (o_state s') + k)) =
                 (True, vs, pb_istream_from_buffer rest k)" by auto
  from fixed32_codec.round_trip_all [OF assms(1), of ws env rest k] assms(3) l4
    emits_buffer [OF fixed32_codec.enc_all_emits [of env ws] assms(1)]
  show "\<exists>s'. encode_all (pb_encode_fixed32 env) (pb_ostream_from_buffer n) ws = Some (True, s') \<and>
               length (o_state s') = 4 * length ws \<and>
               decode_all (pb_decode_fixed32 env) (length ws)
                 (pb_istream_from_buffer (o_state s' @ rest) (length (o_state s') + k)) =
                 (True, ws, pb_istream_from_buffer rest k)" by auto
qed

lemma s_ok_Some: "s_ok bs = Some (Some bs') \<Longrightarrow> bs' = bs"
  by (simp add: s_ok_def split: if_splits)

lemma s_opt_Some: "s_opt r = Some (Some bs) \<Longrightarrow> r = Some bs"
  by (auto simp: s_opt_def s_err_def dest: s_ok_Some split: option.splits)

lemma s_string_Some: "s_string r = Some (Some bs) \<Longrightarrow> \<exists>cs. bs = string_bytes cs"
  by (auto simp: s_string_def dest: s_ok_Some split: option.splits)

text \<open>The four shapes of an encoded value, by wire type.\<close>

lemma spec_value_shape:
  assumes "spec_value m sub f src = Some (Some bs)" and "wire_type_of (ltype f) = Some wt"
  shows "wt = PB_WT_VARINT \<and> (\<exists>v. bs = varint v) \<or> wt = PB_WT_32BIT \<and> length bs = 4 \<or>
         wt = PB_WT_64BIT \<and> length bs = 8 \<or> wt = PB_WT_STRING \<and> (\<exists>cs. bs = string_bytes cs)"
  using assms
  by (auto simp: spec_value_def wire_type_of_def Let_def s_err_def
      dest!: s_ok_Some s_opt_Some s_string_Some split: if_splits)

lemma read_null_some:
  "feeds s bs \<Longrightarrow> length bs = n \<Longrightarrow> pb_read_null env s n = (True, consume s n)"
  using read_null_feeds by blast

text \<open>
  A decoder that does not know a field can skip it: \<^verbatim>\<open>pb_skip_field\<close> with the wire type of the field consumes exactly the
  bytes the encoder produced for its value, submessages included.
\<close>

lemma skip_encoded_value:
  assumes "spec_value m sub f src = Some (Some bs)" and "wire_type_of (ltype f) = Some wt"
    and "length bs < 2 ^ 32"
  shows "pb_skip_field env (pb_istream_from_buffer (bs @ rest) (length bs + k)) wt =
         (True, pb_istream_from_buffer rest k)"
proof -
  let ?s = "pb_istream_from_buffer (bs @ rest) (length bs + k)"
  have f: "feeds ?s bs" by (rule feeds_buffer)
  have "pb_skip_field env ?s wt = (True, consume ?s (length bs))"
    using spec_value_shape [OF assms(1,2)]
  proof (elim disjE conjE exE)
    fix cs assume b: "wt = PB_WT_STRING" "bs = string_bytes cs"
    then have "length cs < 2 ^ 32" using assms(3) by (simp add: string_bytes_def)
    then show ?thesis using skip_string_feeds [of ?s cs env] f b by (simp add: pb_skip_field_def wt_defs)
  qed (use f skip_varint_feeds read_null_some in \<open>auto simp: pb_skip_field_def wt_defs\<close>)
  then show ?thesis by (simp add: consume_buffer)
qed


lemma dec_loop_overflow:
  assumes "feeds s bs" and "\<forall>b \<in> set bs. bit b 7" and "k + length bs = 10"
  shows "\<exists>v. varint_dec_loop env s (of_nat (7 * k)) r =
             (False, v, PB_SET_ERROR_i (consume s (length bs)) ''varint overflow'')"
  using assms
proof (induction bs arbitrary: s k r)
  case Nil
  then have "(of_nat (7 * k) :: u8) = 70" by simp
  then show ?case by (simp add: varint_dec_loop.simps [of env s])
next
  case (Cons b bs)
  have k: "k < 10" using Cons.prems(3) by simp
  then have "unat (of_nat (7 * k) :: u8) = 7 * k" by (intro bitpos_u8) simp
  then have small: "\<not> (64 :: u8) \<le> of_nat (7 * k)" using k by (simp add: word_le_nat_alt)
  have b: "b AND 0x80 \<noteq> 0" using Cons.prems(2) by (simp add: and_80_eq_0)
  have f: "feeds (consume s 1) bs" using Cons.prems(1) feeds_Cons [of s b bs] by blast
  have step: "(of_nat (7 * k) :: u8) + 7 = of_nat (7 * Suc k)" by simp
  show ?case
    using Cons.IH [OF f, of "Suc k" "r OR push_bit (unat (of_nat (7 * k) :: u8)) (ucast (b AND 0x7F))"]
      Cons.prems(2,3) readbyte_feeds [OF Cons.prems(1), of env] small b
    by (simp add: varint_dec_loop.simps [of env s] step del: of_nat_Suc of_nat_mult)
qed

text \<open>
  \<^verbatim>\<open>pb_decode_varint\<close> rejects an encoding of more than ten bytes with \<open>varint overflow\<close>, having read ten.
\<close>

lemma pb_decode_varint_overflow:
  assumes "length bs = 10" and "\<forall>b \<in> set bs. bit b 7"
  shows "\<exists>v. pb_decode_varint env (pb_istream_from_buffer (bs @ rest) (10 + k)) =
             (False, v, PB_SET_ERROR_i (pb_istream_from_buffer rest k) ''varint overflow'')"
  using dec_loop_overflow [OF feeds_buffer [of bs rest k] assms(2), of 0 env 0] assms(1) consume_buffer [of bs rest k]
  by (simp add: pb_decode_varint_def)

text \<open>
  \<^verbatim>\<open>pb_field_iter_find\<close> returns from any position: with the iterator at a field that has the tag and is no extension
  range, if there is one; otherwise with false, after one round, at the position it started from.
\<close>

lemma pb_field_iter_find_correct:
  assumes "wf_fields (fields_at env a)" and "d \<noteq> NULL" and "k < length (fields_at env a)"
  shows "\<exists>found it. pb_field_iter_find env (iter_at env a d k) t = Some (found, it) \<and>
           (if found then \<exists>i < length (fields_at env a). field_matches env a t i \<and> it = iter_at env a d i
            else (\<forall>i < length (fields_at env a). \<not> field_matches env a t i) \<and> it = iter_at env a d k)"
  using find_at_result [OF assms, of t] by auto

text \<open>
  The loops over the fields of a message (\<^verbatim>\<open>do ... while (pb_field_iter_next(&iter))\<close>) visit every field exactly once, in
  descriptor order, with the data and size pointers of the layout of the structure.
\<close>

lemma pb_field_loop_all:
  assumes "wf_fields (fields_at env a)" and "d \<noteq> NULL" and "fields_at env a \<noteq> []"
  shows "pb_field_iter_begin env a d = (True, iter_at env a d 0) \<and>
         pb_field_loop env a (\<lambda>it seen. Some (seen @ [it], True)) (iter_at env a d 0) [] =
           Some (map (iter_at env a d) [0..<length (fields_at env a)])"
proof -
  have "visit (\<lambda>it seen. Some (seen @ [it], True)) xs seen = Some (seen @ xs)" for xs and seen :: "pb_field_iter list"
    by (induction xs arbitrary: seen) auto
  note all = this [of "map (iter_at env a d) [0..<length (fields_at env a)]" "[]"]
  show ?thesis unfolding pb_field_loop_visits [OF assms] all using begin_eq [OF assms] by simp
qed

lemma no_size_overflow:
  fixes ds as :: u64
  assumes "as \<noteq> 0" and "\<not> ((ds \<ge> 2 ^ 32 \<or> as \<ge> 2 ^ 32) \<and> - 1 div as < ds)"
  shows "unat ds * unat as < 2 ^ 64"
proof (cases "ds \<ge> 2 ^ 32 \<or> as \<ge> 2 ^ 32")
  case True
  then have "unat ds \<le> unat (- 1 div as)" using assms(2) by (simp add: word_less_nat_alt)
  also have "\<dots> = (2 ^ 64 - 1) div unat as" by (simp add: unat_div unsigned_minus_1_eq_mask mask_eq_exp_minus_1)
  finally have "unat ds * unat as \<le> (2 ^ 64 - 1) div unat as * unat as" by simp
  also have "\<dots> \<le> 2 ^ 64 - 1" by (rule div_times_less_eq_dividend)
  finally show ?thesis by simp
next
  case False
  then have "unat ds < 2 ^ 32" "unat as < 2 ^ 32" by (simp_all add: word_less_nat_alt not_le)
  then have "unat ds * unat as < 2 ^ 32 * 2 ^ 32" by (intro mult_strict_mono) auto
  then show ?thesis by simp
qed

text \<open>
  When \<^verbatim>\<open>allocate_field\<close> succeeds, the product of element size and count did not overflow and the pointer field refers to
  a live block of exactly that size inside the arena.
\<close>

lemma allocate_field_no_overflow:
  assumes "allocate_field s p ds as m = (True, s', m')" and "0 < heap_top m" and "heap_limit m < 2 ^ 64"
  shows "unat ds * unat as < 2 ^ 64 \<and> (load_ptr m' p, unat ds * unat as) \<in> set (blocks m') \<and>
         load_ptr m' p + int (unat ds * unat as) \<le> heap_limit m'"
proof -
  have as: "as \<noteq> 0" "\<not> ((ds \<ge> 2 ^ 32 \<or> as \<ge> 2 ^ 32) \<and> - 1 div as < ds)"
    using assms(1) by (auto simp: allocate_field_def Let_def split: if_splits)
  have lt: "unat ds * unat as < 2 ^ 64" by (rule no_size_overflow [OF as])
  then have n: "unat (as * ds) = unat ds * unat as" by (simp add: unat_word_ariths(2) mult.commute)
  obtain q m1 where q: "c_realloc m (load_ptr m p) (unat (as * ds)) = (q, m1)" "q \<noteq> NULL" "m' = store_ptr m1 p q"
    using assms(1) as by (auto simp: allocate_field_def Let_def split: if_splits prod.splits)
  have h: "q = heap_top m" "(q, unat (as * ds)) \<in> set (blocks m1)" "heap_top m + int (unat (as * ds)) \<le> heap_limit m"
      "heap_limit m1 = heap_limit m"
    using q(1,2) by (auto simp: c_realloc_def Let_def memcpy_def mstore_def drop_block_def split: if_splits option.splits)
  have "int (unat (as * ds)) \<ge> 0" by simp
  then have "0 \<le> q" "q < 2 ^ 64" using h assms(2,3) by linarith+
  then have "load_ptr m' p = q" using q by (simp add: load_ptr_store_ptr)
  moreover have "blocks m' = blocks m1" "heap_limit m' = heap_limit m1"
    using q by (simp_all add: store_ptr_def store64_def mstore_def)
  ultimately show ?thesis using h n lt by simp
qed

end
